(* ===== verification/Prelude.thy ===== *)
theory Prelude imports Main "HOL-Library.Word" begin

text \<open>
  Shared vocabulary of the development: the machine types of the C sources, the result type of
  a kernel function, and the facts on lists, maps and little-endian encodings that the component
  theories share.

  A kernel function either returns, calls \<open>panic\<close>, waits for a sleep-lock that is held, or does
  something that C leaves undefined (a null dereference, an access outside an array).  The four
  outcomes are the constructors of \<open>'a res\<close>; \<open>rbind\<close> runs the rest of a function only after a
  normal return, so every \<open>panic\<close> of the source ends the model's run too.
\<close>

section \<open>Types and outcomes\<close>

type_synonym u8 = "8 word"
type_synonym u16 = "16 word"
type_synonym u32 = "32 word"
type_synonym bytes = "u8 list"

unbundle bit_operations_syntax

datatype 'a res =
    Ok 'a
  | Panic string
  | Waits
  | Undefined string

primrec rbind :: "'a res \<Rightarrow> ('a \<Rightarrow> 'b res) \<Rightarrow> 'b res" where
  "rbind (Ok x) f = f x"
| "rbind (Panic e) f = Panic e"
| "rbind Waits f = Waits"
| "rbind (Undefined e) f = Undefined e"

text \<open>The collections of frame lemmas: one for the relations of \<open>Frames\<close>, one for the swapper.\<close>

named_theorems wk "operations that keep a frame relation"
named_theorems st "operations that keep the parameters of the swapper"

lemma rbind_eq_Ok [simp]: "rbind m f = Ok y \<longleftrightarrow> (\<exists>x. m = Ok x \<and> f x = Ok y)"
  by (cases m) auto

lemma rbind_assoc: "rbind (rbind m f) g = rbind m (\<lambda>x. rbind (f x) g)"
  by (cases m) auto

lemma rbind_Ok_right [simp]: "rbind m Ok = m"
  by (cases m) auto

lemma rbind_cong [fundef_cong]:
  "m = n \<Longrightarrow> (\<And>x. n = Ok x \<Longrightarrow> f x = g x) \<Longrightarrow> rbind m f = rbind n g"
  by (cases n) auto

lemma rbind_if: "rbind (if b then m else n) f = (if b then rbind m f else rbind n f)"
  by simp

text \<open>\<open>rfold\<close> is a \<open>for\<close> loop over a list of values, stopped by the first outcome that is not \<open>Ok\<close>.\<close>

primrec rfold :: "('a \<Rightarrow> 's \<Rightarrow> 's res) \<Rightarrow> 'a list \<Rightarrow> 's \<Rightarrow> 's res" where
  "rfold f [] s = Ok s"
| "rfold f (x # xs) s = rbind (f x s) (rfold f xs)"

lemma rfold_append: "rfold f (xs @ ys) s = rbind (rfold f xs s) (rfold f ys)"
proof (induction xs arbitrary: s)
  case (Cons x xs)
  then have "rfold f (xs @ ys) = (\<lambda>s. rbind (rfold f xs s) (rfold f ys))" by (intro ext)
  then show ?case by (simp add: rbind_assoc)
qed simp

lemma rfold_inv:
  assumes "P 0 s" and "\<And>k s. k < n \<Longrightarrow> P k s \<Longrightarrow> \<exists>s'. f k s = Ok s' \<and> P (Suc k) s'"
  shows "\<exists>s'. rfold f [0..<n] s = Ok s' \<and> P n s'"
  using assms(2)
proof (induction n)
  case 0
  with assms(1) show ?case by simp
next
  case (Suc n)
  then obtain s' where "rfold f [0..<n] s = Ok s'" "P n s'" by (metis less_Suc_eq)
  with Suc.prems [of n s'] show ?case by (auto simp: rfold_append)
qed

section \<open>Lists as arrays\<close>

text \<open>
  \<open>blit off src dst\<close> is \<open>memmove(dst + off, src, length src)\<close> on an array \<open>dst\<close> that is long
  enough, and \<open>slice off n xs\<close> the \<open>n\<close> bytes at \<open>xs + off\<close>.
\<close>

definition blit :: "nat \<Rightarrow> 'a list \<Rightarrow> 'a list \<Rightarrow> 'a list" where
  "blit off src dst = take off dst @ src @ drop (off + length src) dst"

definition slice :: "nat \<Rightarrow> nat \<Rightarrow> 'a list \<Rightarrow> 'a list" where
  "slice off n xs = take n (drop off xs)"

lemma length_blit [simp]: "off + length src \<le> length dst \<Longrightarrow> length (blit off src dst) = length dst"
  by (simp add: blit_def)

lemma length_slice [simp]: "off + n \<le> length xs \<Longrightarrow> length (slice off n xs) = n"
  by (simp add: slice_def)

lemma nth_slice: "i < n \<Longrightarrow> off + n \<le> length xs \<Longrightarrow> slice off n xs ! i = xs ! (off + i)"
  by (simp add: slice_def)

lemma nth_blit:
  "off + length src \<le> length dst \<Longrightarrow> i < length dst \<Longrightarrow>
   blit off src dst ! i = (if off \<le> i \<and> i < off + length src then src ! (i - off) else dst ! i)"
  by (auto simp: blit_def nth_append min_def)

lemma slice_blit_same [simp]:
  "off + length src \<le> length dst \<Longrightarrow> n = length src \<Longrightarrow> slice off n (blit off src dst) = src"
  by (simp add: slice_def blit_def)

lemma slice_blit_other:
  assumes "off + length src \<le> length dst" and "p + n \<le> length dst"
    and "p + n \<le> off \<or> off + length src \<le> p"
  shows "slice p n (blit off src dst) = slice p n dst"
  using assms by (intro nth_equalityI) (auto simp: nth_slice nth_blit)

lemma blit_slice_same [simp]: "off + n \<le> length xs \<Longrightarrow> blit off (slice off n xs) xs = xs"
  by (intro nth_equalityI) (auto simp: nth_blit nth_slice)

lemma blit_whole [simp]: "length src = length dst \<Longrightarrow> blit 0 src dst = src"
  by (simp add: blit_def)

lemma slice_whole [simp]: "n = length xs \<Longrightarrow> slice 0 n xs = xs"
  by (simp add: slice_def)

text \<open>The first index below \<open>n\<close> at which a predicate holds: the \<open>for\<close> loop that scans a table.\<close>

definition first_index :: "(nat \<Rightarrow> bool) \<Rightarrow> nat \<Rightarrow> nat option" where
  "first_index P n = find P [0..<n]"

lemma first_index_Some:
  "first_index P n = Some i \<longleftrightarrow> i < n \<and> P i \<and> (\<forall>j<i. \<not> P j)"
  by (auto simp: first_index_def find_Some_iff)

lemma first_index_None: "first_index P n = None \<longleftrightarrow> (\<forall>i<n. \<not> P i)"
  by (auto simp: first_index_def find_None_iff)

lemma first_index_cases:
  obtains (found) i where "first_index P n = Some i" "i < n" "P i" "\<And>j. j < i \<Longrightarrow> \<not> P j"
  | (none) "first_index P n = None" "\<And>i. i < n \<Longrightarrow> \<not> P i"
  by (cases "first_index P n") (auto simp: first_index_Some first_index_None)

section \<open>Little-endian encodings\<close>

text \<open>The x86 stores an \<open>int\<close> or \<open>uint\<close> as four bytes, least significant first.\<close>

definition enc32 :: "u32 \<Rightarrow> bytes" where
  "enc32 w = [ucast w, ucast (drop_bit 8 w), ucast (drop_bit 16 w), ucast (drop_bit 24 w)]"

definition dec32 :: "bytes \<Rightarrow> u32" where
  "dec32 bs = ucast (bs ! 0) OR push_bit 8 (ucast (bs ! 1))
     OR push_bit 16 (ucast (bs ! 2)) OR push_bit 24 (ucast (bs ! 3))"

definition enc16 :: "u16 \<Rightarrow> bytes" where
  "enc16 w = [ucast w, ucast (drop_bit 8 w)]"

definition dec16 :: "bytes \<Rightarrow> u16" where
  "dec16 bs = ucast (bs ! 0) OR push_bit 8 (ucast (bs ! 1))"

lemma length_enc32 [simp]: "length (enc32 w) = 4"
  by (simp add: enc32_def)

lemma length_enc16 [simp]: "length (enc16 w) = 2"
  by (simp add: enc16_def)

lemma dec32_enc32 [simp]: "dec32 (enc32 w) = w"
proof (rule bit_word_eqI)
  fix n
  assume "n < LENGTH(32)"
  then consider "n < 8" | "8 \<le> n" "n < 16" | "16 \<le> n" "n < 24" | "24 \<le> n" "n < 32"
    by fastforce
  then show "bit (dec32 (enc32 w)) n = bit w n"
    by cases (auto simp: dec32_def enc32_def bit_simps)
qed

lemma dec16_enc16 [simp]: "dec16 (enc16 w) = w"
  by (rule bit_word_eqI) (auto simp: dec16_def enc16_def bit_simps)

text \<open>Reading and writing an encoded integer inside a byte array.\<close>

definition get32 :: "nat \<Rightarrow> bytes \<Rightarrow> u32" where
  "get32 off bs = dec32 (slice off 4 bs)"

definition put32 :: "nat \<Rightarrow> u32 \<Rightarrow> bytes \<Rightarrow> bytes" where
  "put32 off w bs = blit off (enc32 w) bs"

definition get16 :: "nat \<Rightarrow> bytes \<Rightarrow> u16" where
  "get16 off bs = dec16 (slice off 2 bs)"

definition put16 :: "nat \<Rightarrow> u16 \<Rightarrow> bytes \<Rightarrow> bytes" where
  "put16 off w bs = blit off (enc16 w) bs"

lemma length_put32 [simp]: "off + 4 \<le> length bs \<Longrightarrow> length (put32 off w bs) = length bs"
  by (simp add: put32_def)

lemma length_put16 [simp]: "off + 2 \<le> length bs \<Longrightarrow> length (put16 off w bs) = length bs"
  by (simp add: put16_def)

lemma get32_put32_same [simp]: "off + 4 \<le> length bs \<Longrightarrow> get32 off (put32 off w bs) = w"
  by (simp add: get32_def put32_def)

lemma get32_put32_other:
  "off + 4 \<le> length bs \<Longrightarrow> p + 4 \<le> length bs \<Longrightarrow> p + 4 \<le> off \<or> off + 4 \<le> p \<Longrightarrow>
   get32 p (put32 off w bs) = get32 p bs"
  by (auto simp: get32_def put32_def slice_blit_other)

section \<open>Words as numbers\<close>

lemma u32_bound: "unat (n :: u32) < 2 ^ 32"
  by (rule order_less_le_trans [OF unsigned_less]) simp

lemma u32_eqI: "unat a = unat b \<Longrightarrow> a = (b :: u32)"
  by (metis word_unat_eq_iff)

lemma u32_of_nat_unat: "n < 2 ^ 32 \<Longrightarrow> unat (word_of_nat n :: u32) = n"
  by (simp add: unat_of_nat)

lemma sint_uint_small:
  assumes "unat (n :: u32) < 2 ^ 31"
  shows "sint n = uint n"
proof -
  have "int (unat n) < int (2 ^ 31)" using assms unfolding of_nat_less_iff .
  then have "uint n < 2 ^ 31" by simp
  moreover have "- (2 ^ 31) \<le> uint n" by (rule order_trans [OF _ unsigned_greater_eq]) simp
  ultimately have "signed_take_bit 31 (uint n) = uint n" by (intro signed_take_bit_int_eq_self)
  then show ?thesis by (simp add: sint_uint)
qed

end
