(* ===== verification/Proctab.thy ===== *)
theory Proctab imports Prelude begin

text \<open>
  The process table of \<open>proc.c\<close> as data: \<open>struct trapframe\<close> and \<open>struct proc\<close>, the wait channels,
  and \<open>wakeup\<close>.  It sits below every other component because a buffer's sleep-lock reads
  \<open>myproc()->pid\<close> and \<open>wakeup\<close> writes the table.  The operations of \<open>proc.c\<close> are in the
  theories \<open>Sched\<close> and \<open>Procs\<close>.

  Pointers into a statically allocated table (processes, buffers, inodes, open files) are indices
  into that table; a null pointer is \<open>None\<close>.  An \<open>int\<close> that the code only tests for zero is a
  \<open>bool\<close>.  A critical section between \<open>acquire\<close> and \<open>release\<close> of a spin-lock is one atomic
  step.
\<close>

abbreviation (input) NPROC :: nat where "NPROC \<equiv> 64"
abbreviation (input) NOFILE :: nat where "NOFILE \<equiv> 16"
abbreviation (input) ROOTDEV :: u32 where "ROOTDEV \<equiv> 1"
abbreviation (input) ROOTINO :: u32 where "ROOTINO \<equiv> 1"

section \<open>Process states and channels\<close>

datatype procstate = UNUSED | EMBRYO | SLEEPING | RUNNABLE | RUNNING | ZOMBIE | SUSPENDED

text \<open>
  A wait channel is the address of some kernel object; the constructors name the objects the
  kernel sleeps on: \<open>ChBuf\<close> is the sleep-lock of a buffer and \<open>ChIO\<close> the buffer itself.
\<close>

datatype chan =
    ChLog
  | ChBuf nat
  | ChIO nat
  | ChInode nat
  | ChPipeR nat
  | ChPipeW nat
  | ChInput
  | ChTicks
  | ChProc nat

text \<open>The registers of \<open>struct trapframe\<close> that the kernel's C code reads or writes.\<close>

record trapframe =
  tf_eax :: u32
  tf_eip :: u32
  tf_esp :: u32
  tf_cs :: u32
  tf_ds :: u32
  tf_es :: u32
  tf_ss :: u32
  tf_eflags :: u32
  tf_trapno :: u32
  tf_err :: u32

definition zero_tf :: trapframe where
  "zero_tf = \<lparr>tf_eax = 0, tf_eip = 0, tf_esp = 0, tf_cs = 0, tf_ds = 0, tf_es = 0, tf_ss = 0,
     tf_eflags = 0, tf_trapno = 0, tf_err = 0\<rparr>"

text \<open>
  \<open>struct proc\<close>: the fields all three kernels share, then the ones the second assignment adds
  for signals and scheduling, the first for system-call blocking, the third for paging.
\<close>

record proc =
  p_sz :: u32
  p_pgdir :: u32
  p_kstack :: u32
  p_state :: procstate
  p_pid :: int
  p_parent :: "nat option"
  p_tf :: trapframe
  p_chan :: "chan option"
  p_killed :: bool
  p_ofile :: "nat \<Rightarrow> nat option"
  p_cwd :: "nat option"
  p_name :: bytes
  p_tf1 :: "trapframe option"
  p_custom_handler :: u32
  p_pending_custom :: bool
  p_prev_eip :: u32
  p_exec_time :: u32
  p_start_later_flag :: int
  p_scheduling_enabled :: int
  p_rtime :: int
  p_creation_time :: int
  p_finish_time :: int
  p_first_run_time :: int
  p_context_switches :: int
  p_initial_priority :: int
  p_dyn_priority :: int
  p_cpu_ticks :: int
  p_wait_ticks :: int
  p_wait_ticks2 :: int
  p_last_scheduled :: int
  p_to_be_blocked :: int
  p_rss :: int

definition unused_proc :: proc where
  "unused_proc = \<lparr>p_sz = 0, p_pgdir = 0, p_kstack = 0, p_state = UNUSED, p_pid = 0, p_parent = None,
     p_tf = zero_tf, p_chan = None, p_killed = False, p_ofile = (\<lambda>_. None), p_cwd = None,
     p_name = replicate 16 0, p_tf1 = None, p_custom_handler = 0, p_pending_custom = False,
     p_prev_eip = 0, p_exec_time = 0, p_start_later_flag = 0, p_scheduling_enabled = 0,
     p_rtime = 0, p_creation_time = 0, p_finish_time = 0, p_first_run_time = 0,
     p_context_switches = 0, p_initial_priority = 0, p_dyn_priority = 0, p_cpu_ticks = 0,
     p_wait_ticks = 0, p_wait_ticks2 = 0, p_last_scheduled = 0, p_to_be_blocked = 0, p_rss = 0\<rparr>"

text \<open>
  The state every kernel function works on starts with the table and the index of the process
  that runs the function (\<open>myproc()\<close>); the other components extend this record.
\<close>

record kstate =
  procs :: "nat \<Rightarrow> proc"
  cur :: nat

definition myproc :: "'a kstate_scheme \<Rightarrow> proc" where
  "myproc s = procs s (cur s)"

definition upd_proc :: "nat \<Rightarrow> (proc \<Rightarrow> proc) \<Rightarrow> 'a kstate_scheme \<Rightarrow> 'a kstate_scheme" where
  "upd_proc i f s = s\<lparr>procs := (procs s)(i := f (procs s i))\<rparr>"

section \<open>wakeup\<close>

text \<open>\<open>wakeup1\<close>: every process of the table that sleeps on the channel becomes runnable.\<close>

definition wake :: "chan \<Rightarrow> proc \<Rightarrow> proc" where
  "wake ch p = (if p_state p = SLEEPING \<and> p_chan p = Some ch then p\<lparr>p_state := RUNNABLE\<rparr> else p)"

definition wakeup :: "chan \<Rightarrow> 'a kstate_scheme \<Rightarrow> 'a kstate_scheme" where
  "wakeup ch s = s\<lparr>procs := (\<lambda>i. if i < NPROC then wake ch (procs s i) else procs s i)\<rparr>"

lemma wake_frame [simp]:
  "p_pid (wake ch p) = p_pid p" "p_killed (wake ch p) = p_killed p"
  "p_ofile (wake ch p) = p_ofile p" "p_cwd (wake ch p) = p_cwd p"
  "p_chan (wake ch p) = p_chan p" "p_parent (wake ch p) = p_parent p"
  "p_sz (wake ch p) = p_sz p" "p_pgdir (wake ch p) = p_pgdir p" "p_tf (wake ch p) = p_tf p"
  by (simp_all add: wake_def)

lemma wakeup_frame [simp]:
  "p_pid (procs (wakeup ch s) i) = p_pid (procs s i)"
  "p_killed (procs (wakeup ch s) i) = p_killed (procs s i)"
  "p_ofile (procs (wakeup ch s) i) = p_ofile (procs s i)"
  "p_cwd (procs (wakeup ch s) i) = p_cwd (procs s i)"
  "p_chan (procs (wakeup ch s) i) = p_chan (procs s i)"
  "p_parent (procs (wakeup ch s) i) = p_parent (procs s i)"
  "cur (wakeup ch s) = cur s"
  by (simp_all add: wakeup_def)

lemma myproc_wakeup [simp]:
  "p_pid (myproc (wakeup ch s)) = p_pid (myproc s)"
  "p_killed (myproc (wakeup ch s)) = p_killed (myproc s)"
  "p_ofile (myproc (wakeup ch s)) = p_ofile (myproc s)"
  "p_cwd (myproc (wakeup ch s)) = p_cwd (myproc s)"
  by (simp_all add: myproc_def)

lemma wakeup_state:
  "i < NPROC \<Longrightarrow> p_state (procs (wakeup ch s) i) =
     (if p_state (procs s i) = SLEEPING \<and> p_chan (procs s i) = Some ch then RUNNABLE
      else p_state (procs s i))"
  by (simp add: wakeup_def wake_def)

text \<open>\<open>state_only p q\<close>: \<open>q\<close> differs from \<open>p\<close> in its scheduling state at most.\<close>

definition state_only :: "proc \<Rightarrow> proc \<Rightarrow> bool" where
  "state_only p q \<longleftrightarrow> q = p\<lparr>p_state := p_state q\<rparr>"

lemma state_only_refl [simp]: "state_only p p"
  by (simp add: state_only_def)

lemma state_only_trans: "state_only p q \<Longrightarrow> state_only q r \<Longrightarrow> state_only p r"
  by (cases p, cases q, cases r) (simp add: state_only_def)

lemma state_only_wake [simp]: "state_only p (wake ch p)"
  by (simp add: state_only_def wake_def)

lemma state_onlyD:
  assumes "state_only p q"
  shows "p_pid q = p_pid p" "p_killed q = p_killed p" "p_ofile q = p_ofile p" "p_cwd q = p_cwd p"
    "p_chan q = p_chan p" "p_parent q = p_parent p" "p_sz q = p_sz p" "p_pgdir q = p_pgdir p"
    "p_tf q = p_tf p"
  by (subst assms [unfolded state_only_def], simp)+

section \<open>Sleep-locks\<close>

text \<open>
  \<open>struct sleeplock\<close>.  \<open>acquiresleep\<close> sleeps while the lock is held: for the function that called
  it, the outcome \<open>Waits\<close>.
\<close>

record sleeplock =
  sl_locked :: bool
  sl_pid :: int

definition initsleeplock :: sleeplock where
  "initsleeplock = \<lparr>sl_locked = False, sl_pid = 0\<rparr>"

definition acquiresleep :: "int \<Rightarrow> sleeplock \<Rightarrow> sleeplock res" where
  "acquiresleep pid lk =
     (if sl_locked lk then Waits else Ok (lk\<lparr>sl_locked := True, sl_pid := pid\<rparr>))"

definition releasesleep :: "sleeplock \<Rightarrow> sleeplock" where
  "releasesleep lk = lk\<lparr>sl_locked := False, sl_pid := 0\<rparr>"

definition holdingsleep :: "int \<Rightarrow> sleeplock \<Rightarrow> bool" where
  "holdingsleep pid lk \<longleftrightarrow> sl_locked lk \<and> sl_pid lk = pid"

lemma acquiresleep_Ok [simp]:
  "acquiresleep pid lk = Ok lk' \<longleftrightarrow> \<not> sl_locked lk \<and> lk' = lk\<lparr>sl_locked := True, sl_pid := pid\<rparr>"
  by (auto simp: acquiresleep_def)

lemma holdingsleep_acquired: "acquiresleep pid lk = Ok lk' \<Longrightarrow> holdingsleep pid lk'"
  by (simp add: holdingsleep_def)

lemma not_holdingsleep_released [simp]: "\<not> holdingsleep pid (releasesleep lk)"
  by (simp add: holdingsleep_def releasesleep_def)

end
