(* ===== verification/Bio.thy ===== *)
theory Bio imports Proctab begin

text \<open>
  The disk (\<open>memide.c\<close>) and the buffer cache (\<open>bio.c\<close>).  The cache keeps its buffers on a circular
  doubly linked list, \<open>bcache.head\<close> first, most recently used next; the model keeps the \<open>next\<close> and
  \<open>prev\<close> pointers as they are and shows that they implement a list with move-to-front.  The second
  half states what a client sees of the cache: the contents of each block through the cache
  (\<open>cview\<close>), the blocks pinned by \<open>B_DIRTY\<close>, and the buffers it holds.
\<close>

abbreviation (input) BSIZE :: nat where "BSIZE \<equiv> 512"
abbreviation (input) NBUF :: nat where "NBUF \<equiv> 30"
abbreviation (input) HEAD :: nat where "HEAD \<equiv> NBUF"
abbreviation (input) SCAN :: nat where "SCAN \<equiv> 31"
abbreviation (input) B_VALID :: u32 where "B_VALID \<equiv> 2"
abbreviation (input) B_DIRTY :: u32 where "B_DIRTY \<equiv> 4"

section \<open>State\<close>

record buf =
  b_flags :: u32
  b_dev :: u32
  b_blockno :: u32
  b_lock :: sleeplock
  b_refcnt :: u32
  b_data :: bytes

text \<open>
  \<open>memdisk\<close> is the disk image as an array of blocks and \<open>disk_trace\<close> the block writes it has
  received, oldest first; the trace is a ghost variable that no function reads.
\<close>

record bio_state = kstate +
  memdisk :: "u32 \<Rightarrow> bytes"
  disksize :: u32
  disk_trace :: "(u32 \<times> bytes) list"
  bufs :: "nat \<Rightarrow> buf"
  bnext :: "nat \<Rightarrow> nat"
  bprev :: "nat \<Rightarrow> nat"

definition valid :: "buf \<Rightarrow> bool" where
  "valid b \<longleftrightarrow> b_flags b AND B_VALID \<noteq> 0"

definition dirty :: "buf \<Rightarrow> bool" where
  "dirty b \<longleftrightarrow> b_flags b AND B_DIRTY \<noteq> 0"

definition upd_buf :: "nat \<Rightarrow> (buf \<Rightarrow> buf) \<Rightarrow> 'a bio_state_scheme \<Rightarrow> 'a bio_state_scheme" where
  "upd_buf b f s = s\<lparr>bufs := (bufs s)(b := f (bufs s b))\<rparr>"

definition mypid :: "'a kstate_scheme \<Rightarrow> int" where
  "mypid s = p_pid (myproc s)"

section \<open>The disk\<close>

definition iderw :: "nat \<Rightarrow> 'a bio_state_scheme \<Rightarrow> 'a bio_state_scheme res" where
  "iderw i s =
     (let b = bufs s i in
      if \<not> holdingsleep (mypid s) (b_lock b) then Panic ''iderw: buf not locked''
      else if b_flags b AND (B_VALID OR B_DIRTY) = B_VALID then Panic ''iderw: nothing to do''
      else if b_dev b \<noteq> 1 then Panic ''iderw: request not for disk 1''
      else if disksize s \<le> b_blockno b then Panic ''iderw: block out of range''
      else if b_flags b AND B_DIRTY \<noteq> 0 then
        Ok (upd_buf i (\<lambda>b. b\<lparr>b_flags := (b_flags b AND NOT B_DIRTY) OR B_VALID\<rparr>)
             (s\<lparr>memdisk := (memdisk s)(b_blockno b := b_data b),
                disk_trace := disk_trace s @ [(b_blockno b, b_data b)]\<rparr>))
      else
        Ok (upd_buf i (\<lambda>b. b\<lparr>b_data := memdisk s (b_blockno b), b_flags := b_flags b OR B_VALID\<rparr>) s))"

section \<open>The linked list of buffers\<close>

text \<open>
  \<open>push_front\<close> is the code that \<open>binit\<close> and \<open>brelse\<close> share: make \<open>b\<close> the first buffer after the
  head; \<open>unlink_buf\<close> takes \<open>b\<close> off the list.  The assignments are in the order of the source.
\<close>

type_synonym links = "(nat \<Rightarrow> nat) \<times> (nat \<Rightarrow> nat)"

definition push_front :: "nat \<Rightarrow> links \<Rightarrow> links" where
  "push_front b l =
     (case l of (nx, pv) \<Rightarrow>
      let nx1 = nx(b := nx HEAD);
          pv1 = pv(b := HEAD);
          pv2 = pv1(nx1 HEAD := b);
          nx2 = nx1(HEAD := b)
      in (nx2, pv2))"

definition unlink_buf :: "nat \<Rightarrow> links \<Rightarrow> links" where
  "unlink_buf b l =
     (case l of (nx, pv) \<Rightarrow>
      let pv1 = pv(nx b := pv b);
          nx1 = nx(pv1 b := nx b)
      in (nx1, pv1))"

text \<open>\<open>binit\<close>: the head alone, then every buffer pushed in the order of the array.\<close>

definition binit_links :: "links \<Rightarrow> links" where
  "binit_links l =
     (case l of (nx, pv) \<Rightarrow> fold push_front [0..<NBUF] (nx(HEAD := HEAD), pv(HEAD := HEAD)))"

definition binit :: "'a bio_state_scheme \<Rightarrow> 'a bio_state_scheme" where
  "binit s =
     (case binit_links (bnext s, bprev s) of (nx, pv) \<Rightarrow>
        s\<lparr>bnext := nx, bprev := pv,
          bufs := (\<lambda>i. if i < NBUF then (bufs s i)\<lparr>b_lock := initsleeplock\<rparr> else bufs s i)\<rparr>)"

text \<open>
  The scan of the list along \<open>next\<close> or \<open>prev\<close> up to the head.  The list has \<open>NBUF\<close> buffers, so
  \<open>SCAN = NBUF + 1\<close> steps always reach the head (lemma \<open>bscan_chain\<close>).
\<close>

fun bscan :: "(nat \<Rightarrow> bool) \<Rightarrow> (nat \<Rightarrow> nat) \<Rightarrow> nat \<Rightarrow> nat \<Rightarrow> nat option" where
  "bscan P step 0 b = None"
| "bscan P step (Suc k) b =
     (if b = HEAD then None else if P b then Some b else bscan P step k (step b))"

section \<open>The cache operations\<close>

definition lock_buf :: "nat \<Rightarrow> 'a bio_state_scheme \<Rightarrow> 'a bio_state_scheme res" where
  "lock_buf i s =
     rbind (acquiresleep (mypid s) (b_lock (bufs s i))) (\<lambda>l.
     Ok (upd_buf i (\<lambda>b. b\<lparr>b_lock := l\<rparr>) s))"

definition bget :: "u32 \<Rightarrow> u32 \<Rightarrow> 'a bio_state_scheme \<Rightarrow> (nat \<times> 'a bio_state_scheme) res" where
  "bget dev blockno s =
     (case bscan (\<lambda>i. b_dev (bufs s i) = dev \<and> b_blockno (bufs s i) = blockno)
             (bnext s) SCAN (bnext s HEAD) of
        Some i \<Rightarrow>
          rbind (lock_buf i (upd_buf i (\<lambda>b. b\<lparr>b_refcnt := b_refcnt b + 1\<rparr>) s)) (\<lambda>s. Ok (i, s))
      | None \<Rightarrow>
        (case bscan (\<lambda>i. b_refcnt (bufs s i) = 0 \<and> b_flags (bufs s i) AND B_DIRTY = 0)
                (bprev s) SCAN (bprev s HEAD) of
           Some i \<Rightarrow>
             rbind (lock_buf i (upd_buf i (\<lambda>b. b\<lparr>b_dev := dev, b_blockno := blockno,
                                               b_flags := 0, b_refcnt := 1\<rparr>) s)) (\<lambda>s. Ok (i, s))
         | None \<Rightarrow> Panic ''bget: no buffers''))"

definition bread :: "u32 \<Rightarrow> u32 \<Rightarrow> 'a bio_state_scheme \<Rightarrow> (nat \<times> 'a bio_state_scheme) res" where
  "bread dev blockno s =
     rbind (bget dev blockno s) (\<lambda>(i, s).
     if b_flags (bufs s i) AND B_VALID = 0 then rbind (iderw i s) (\<lambda>s. Ok (i, s))
     else Ok (i, s))"

definition bwrite :: "nat \<Rightarrow> 'a bio_state_scheme \<Rightarrow> 'a bio_state_scheme res" where
  "bwrite i s =
     (if \<not> holdingsleep (mypid s) (b_lock (bufs s i)) then Panic ''bwrite''
      else iderw i (upd_buf i (\<lambda>b. b\<lparr>b_flags := b_flags b OR B_DIRTY\<rparr>) s))"

definition brelse :: "nat \<Rightarrow> 'a bio_state_scheme \<Rightarrow> 'a bio_state_scheme res" where
  "brelse i s =
     (if \<not> holdingsleep (mypid s) (b_lock (bufs s i)) then Panic ''brelse''
      else
        let s1 = wakeup (ChBuf i) (upd_buf i (\<lambda>b. b\<lparr>b_lock := releasesleep (b_lock b)\<rparr>) s);
            s2 = upd_buf i (\<lambda>b. b\<lparr>b_refcnt := b_refcnt b - 1\<rparr>) s1
        in if b_refcnt (bufs s2 i) = 0 then
             (case push_front i (unlink_buf i (bnext s2, bprev s2)) of (nx, pv) \<Rightarrow>
                Ok (s2\<lparr>bnext := nx, bprev := pv\<rparr>))
           else Ok s2)"

text \<open>A client's assignment to \<open>b->data\<close> of a buffer it has locked.\<close>

definition set_data :: "nat \<Rightarrow> bytes \<Rightarrow> 'a bio_state_scheme \<Rightarrow> 'a bio_state_scheme" where
  "set_data i d s = upd_buf i (\<lambda>b. b\<lparr>b_data := d\<rparr>) s"

section \<open>The flag bits\<close>

lemma and_2_bit: "(w :: u32) AND 2 = 0 \<longleftrightarrow> \<not> bit w 1"
  using and_exp_eq_0_iff_not_bit [of w 1] by simp

lemma and_4_bit: "(w :: u32) AND 4 = 0 \<longleftrightarrow> \<not> bit w 2"
  using and_exp_eq_0_iff_not_bit [of w 2] by simp

lemma valid_bit: "valid b \<longleftrightarrow> bit (b_flags b) 1"
  by (simp add: valid_def and_2_bit)

lemma dirty_bit: "dirty b \<longleftrightarrow> bit (b_flags b) 2"
  by (simp add: dirty_def and_4_bit)

lemma flags_nothing_to_do:
  "b_flags b AND (B_VALID OR B_DIRTY) = B_VALID \<longleftrightarrow> valid b \<and> \<not> dirty b"
proof -
  have "b_flags b AND (B_VALID OR B_DIRTY) = B_VALID \<longleftrightarrow>
    (\<forall>n. bit (b_flags b AND (2 OR 4)) n = bit (2 :: u32) n)"
    by (metis bit_eqI)
  also have "\<dots> \<longleftrightarrow> bit (b_flags b) 1 \<and> \<not> bit (b_flags b) 2"
  proof
    assume *: "\<forall>n. bit (b_flags b AND (2 OR 4)) n = bit (2 :: u32) n"
    show "bit (b_flags b) 1 \<and> \<not> bit (b_flags b) 2"
      using *[rule_format, of 1] *[rule_format, of 2] by (simp add: bit_simps)
  next
    assume f: "bit (b_flags b) 1 \<and> \<not> bit (b_flags b) 2"
    have two: "bit (2 :: u32) n \<longleftrightarrow> n = 1" for n
      using bit_exp_iff [of 1 n, where 'a = u32] by auto
    have four: "bit (4 :: u32) n \<longleftrightarrow> n = 2" for n
      using bit_exp_iff [of 2 n, where 'a = u32] by auto
    have "bit (2 OR 4 :: u32) n \<longleftrightarrow> n = 1 \<or> n = 2" for n
      unfolding bit_or_iff two four by (rule refl)
    with f two show "\<forall>n. bit (b_flags b AND (2 OR 4)) n = bit (2 :: u32) n"
      by (auto simp: bit_and_iff)
  qed
  finally show ?thesis by (simp add: valid_bit dirty_bit)
qed

lemma flag_simps [simp]:
  "valid (b\<lparr>b_flags := f OR 4\<rparr>) = bit f 1"
  "dirty (b\<lparr>b_flags := f OR 4\<rparr>)"
  "valid (b\<lparr>b_flags := f OR 2\<rparr>)"
  "dirty (b\<lparr>b_flags := f OR 2\<rparr>) = bit f 2"
  "valid (b\<lparr>b_flags := (f AND NOT 4) OR 2\<rparr>)"
  "\<not> dirty (b\<lparr>b_flags := (f AND NOT 4) OR 2\<rparr>)"
  "\<not> valid (b\<lparr>b_flags := 0\<rparr>)"
  "\<not> dirty (b\<lparr>b_flags := 0\<rparr>)"
  by (simp_all add: valid_bit dirty_bit bit_simps)

lemma flag_other [simp]:
  "valid (b\<lparr>b_data := d\<rparr>) = valid b" "dirty (b\<lparr>b_data := d\<rparr>) = dirty b"
  "valid (b\<lparr>b_lock := l\<rparr>) = valid b" "dirty (b\<lparr>b_lock := l\<rparr>) = dirty b"
  "valid (b\<lparr>b_refcnt := r\<rparr>) = valid b" "dirty (b\<lparr>b_refcnt := r\<rparr>) = dirty b"
  by (simp_all add: valid_def dirty_def)

section \<open>The list refines move-to-front\<close>

text \<open>
  \<open>chain nx pv xs\<close>: following \<open>nx\<close> from the head gives \<open>xs\<close> and then the head again, and \<open>pv\<close>
  is the same circle backwards.
\<close>

definition chain :: "links \<Rightarrow> nat list \<Rightarrow> bool" where
  "chain l xs \<longleftrightarrow> (case l of (nx, pv) \<Rightarrow>
     distinct xs \<and> set xs \<subseteq> {..<NBUF} \<and>
     map nx (HEAD # xs) = xs @ [HEAD] \<and> map pv (xs @ [HEAD]) = HEAD # xs)"

definition mru :: "links \<Rightarrow> nat list \<Rightarrow> bool" where
  "mru l xs \<longleftrightarrow> chain l xs \<and> set xs = {..<NBUF}"

lemma mru_length: "mru l xs \<Longrightarrow> length xs = NBUF"
  using distinct_card [of xs] by (auto simp: mru_def chain_def split: prod.splits)

lemma chain_step:
  assumes "chain (nx, pv) (ys @ b # zs)"
  shows "nx b = hd (zs @ [HEAD])" and "pv b = last (HEAD # ys)"
    and "nx (last (HEAD # ys)) = b" and "pv (hd (zs @ [HEAD])) = b"
proof -
  from assms have n: "map nx (HEAD # ys @ b # zs) = ys @ b # zs @ [HEAD]"
    and p: "map pv (ys @ b # zs @ [HEAD]) = HEAD # ys @ b # zs"
    by (simp_all add: chain_def)
  from n have n1: "map nx (HEAD # ys) = ys @ [b]" and n2: "map nx (b # zs) = zs @ [HEAD]"
    using append_eq_append_conv [of "map nx (HEAD # ys)" "ys @ [b]" "map nx (b # zs)" "zs @ [HEAD]"]
    by auto
  from p have p1: "map pv (ys @ [b]) = HEAD # ys" and p2: "map pv (zs @ [HEAD]) = b # zs"
    using append_eq_append_conv [of "map pv (ys @ [b])" "HEAD # ys" "map pv (zs @ [HEAD])" "b # zs"]
    by auto
  from n2 show "nx b = hd (zs @ [HEAD])" by (metis list.sel(1) list.simps(9))
  from p2 show "pv (hd (zs @ [HEAD])) = b" by (metis append_is_Nil_conv hd_map list.distinct(1) list.sel(1))
  from n1 show "nx (last (HEAD # ys)) = b" by (metis last_map last_snoc list.distinct(1))
  from p1 show "pv b = last (HEAD # ys)" by (metis last_map last_snoc snoc_eq_iff_butlast)
qed


text \<open>Taking a buffer off the list and putting one in front of it.\<close>

lemma chain_unlink:
  assumes "chain l (ys @ b # zs)"
  shows "chain (unlink_buf b l) (ys @ zs)"
proof -
  obtain nx pv where l: "l = (nx, pv)" by force
  note step = chain_step [of nx pv ys b zs, OF assms [unfolded l]]
  have d: "distinct (ys @ b # zs)" "set (ys @ b # zs) \<subseteq> {..<NBUF}"
    and n: "map nx (HEAD # ys @ b # zs) = ys @ b # zs @ [HEAD]"
    and p: "map pv (ys @ b # zs @ [HEAD]) = HEAD # ys @ b # zs"
    using assms by (simp_all add: chain_def l)
  have h: "HEAD \<notin> set ys" "HEAD \<notin> set zs" using d by auto
  define u where "u = last (HEAD # ys)"
  define v where "v = hd (zs @ [HEAD])"
  have nx1: "map nx (HEAD # ys) = ys @ [b]" and nx2: "map nx (b # zs) = zs @ [HEAD]"
    using n append_eq_append_conv [of "map nx (HEAD # ys)" "ys @ [b]" "map nx (b # zs)" "zs @ [HEAD]"]
    by auto
  have pv1: "map pv (ys @ [b]) = HEAD # ys" and pv2: "map pv (zs @ [HEAD]) = b # zs"
    using p append_eq_append_conv [of "map pv (ys @ [b])" "HEAD # ys" "map pv (zs @ [HEAD])" "b # zs"]
    by auto
  have "b \<noteq> v" using d by (cases zs) (auto simp: v_def)
  then have un: "unlink_buf b l = (nx(u := v), pv(v := u))"
    using step by (simp add: unlink_buf_def l u_def v_def)
  have "map (nx(u := v)) (HEAD # ys @ zs) = ys @ zs @ [HEAD]"
  proof (cases ys rule: rev_cases)
    case Nil
    then show ?thesis using nx2 d h by (cases zs) (auto simp: u_def v_def)
  next
    case (snoc ys' y)
    then have "map nx (HEAD # ys') = ys' @ [y]" "nx b = v"
      using nx1 step(1) by (auto simp: v_def)
    moreover have "y \<notin> set (HEAD # ys') \<union> set zs" using d snoc by auto
    ultimately show ?thesis using nx2 snoc h by (cases zs) (auto simp: u_def v_def)
  qed
  moreover have "map (pv(v := u)) (ys @ zs @ [HEAD]) = HEAD # ys @ zs"
  proof (cases zs)
    case Nil
    then show ?thesis using pv1 d h step(2)
      by (cases ys rule: rev_cases) (auto simp: u_def v_def)
  next
    case (Cons z zs')
    have "z \<notin> set ys \<union> set zs'" "z \<noteq> HEAD" using d Cons by auto
    then show ?thesis using pv1 pv2 Cons step(2)
      by (cases ys rule: rev_cases) (auto simp: u_def v_def)
  qed
  ultimately show ?thesis
    using d by (simp add: chain_def un)
qed

lemma chain_push:
  assumes "chain l xs" and "b < NBUF" and "b \<notin> set xs"
  shows "chain (push_front b l) (b # xs)"
proof -
  have "HEAD \<notin> set xs" using assms(1) by (auto simp: chain_def split: prod.splits)
  with assms show ?thesis
    by (cases l; cases xs) (auto simp: chain_def push_front_def)
qed


lemma chain_rev: "chain (nx, pv) xs \<longleftrightarrow> chain (pv, nx) (rev xs)"
proof -
  have "map nx (HEAD # xs) = xs @ [HEAD] \<longleftrightarrow> rev (map nx (HEAD # xs)) = rev (xs @ [HEAD])"
    "map pv (xs @ [HEAD]) = HEAD # xs \<longleftrightarrow> rev (map pv (xs @ [HEAD])) = rev (HEAD # xs)"
    by (simp_all only: rev_is_rev_conv)
  then show ?thesis by (auto simp: chain_def rev_map)
qed

lemma bscan_seg:
  assumes "map nx zs = tl (zs @ [HEAD])" and "HEAD \<notin> set zs" and "length zs < k"
  shows "bscan P nx k (hd (zs @ [HEAD])) = find P zs"
  using assms
proof (induction zs arbitrary: k)
  case Nil
  then show ?case by (cases k) auto
next
  case (Cons z zs)
  then obtain k' where "k = Suc k'" by (cases k) auto
  moreover from Cons.prems have "nx z = hd (zs @ [HEAD])" "map nx zs = tl (zs @ [HEAD])"
    by (cases zs; simp)+
  ultimately show ?case using Cons by simp
qed

lemma bscan_chain:
  assumes "chain (nx, pv) xs" and "length xs < k"
  shows "bscan P nx k (nx HEAD) = find P xs" and "bscan P pv k (pv HEAD) = find P (rev xs)"
proof -
  have fwd: "bscan P nx k (nx HEAD) = find P xs"
    if "chain (nx, pv) xs" "length xs < k" for nx pv xs
  proof -
    have "HEAD \<notin> set xs" "nx HEAD = hd (xs @ [HEAD])" "map nx xs = tl (xs @ [HEAD])"
      using that(1) by (cases xs; auto simp: chain_def)+
    then show ?thesis using bscan_seg [of nx xs k P] that(2) by simp
  qed
  from fwd [OF assms] show "bscan P nx k (nx HEAD) = find P xs" .
  from fwd [of pv nx "rev xs"] assms show "bscan P pv k (pv HEAD) = find P (rev xs)"
    by (simp add: chain_rev [of nx pv])
qed

lemma mru_release:
  assumes "mru l xs" and "b < NBUF"
  shows "mru (push_front b (unlink_buf b l)) (b # remove1 b xs)"
proof -
  from assms have "b \<in> set xs" and d: "distinct xs" and ch: "chain l xs"
    by (auto simp: mru_def chain_def split: prod.splits)
  then obtain ys zs where xs: "xs = ys @ b # zs" by (meson split_list)
  with d have "b \<notin> set ys" "b \<notin> set zs" and rm: "remove1 b xs = ys @ zs"
    by (auto simp: remove1_append)
  with chain_push [OF chain_unlink [OF ch [unfolded xs]]] assms xs show ?thesis
    by (auto simp: mru_def)
qed

lemma mru_binit: "mru (binit_links l) (rev [0..<NBUF])"
proof -
  have "chain l0 [] \<Longrightarrow> k \<le> NBUF \<Longrightarrow> chain (fold push_front [0..<k] l0) (rev [0..<k])" for k l0
    by (induction k) (auto intro: chain_push)
  from this [of "case l of (nx, pv) \<Rightarrow> (nx(HEAD := HEAD), pv(HEAD := HEAD))" NBUF]
  show ?thesis by (auto simp: mru_def binit_links_def chain_def split: prod.splits)
qed

section \<open>The cache as its clients see it\<close>

text \<open>
  \<open>cview s b\<close> is the contents of block \<open>b\<close>: the cached copy if there is one, else the disk's.
  A pinned block is one whose cached copy is marked \<open>B_DIRTY\<close>; the buffers held are the locked
  ones, with their block numbers.
\<close>

definition caches :: "'a bio_state_scheme \<Rightarrow> u32 \<Rightarrow> nat \<Rightarrow> bool" where
  "caches s b i \<longleftrightarrow> i < NBUF \<and> b_dev (bufs s i) = 1 \<and> b_blockno (bufs s i) = b"

definition cview :: "'a bio_state_scheme \<Rightarrow> u32 \<Rightarrow> bytes" where
  "cview s b = (case first_index (caches s b) NBUF of
     Some i \<Rightarrow> b_data (bufs s i) | None \<Rightarrow> memdisk s b)"

definition pins :: "'a bio_state_scheme \<Rightarrow> u32 set" where
  "pins s = {b. \<exists>i. caches s b i \<and> dirty (bufs s i)}"

definition held :: "'a bio_state_scheme \<Rightarrow> nat \<Rightarrow> u32 option" where
  "held s i = (if i < NBUF \<and> sl_locked (b_lock (bufs s i)) then Some (b_blockno (bufs s i)) else None)"

record cache_abs =
  a_disk :: "u32 \<Rightarrow> bytes"
  a_view :: "u32 \<Rightarrow> bytes"
  a_pins :: "u32 set"
  a_trace :: "(u32 \<times> bytes) list"
  a_held :: "nat \<Rightarrow> u32 option"

definition cabs :: "'a bio_state_scheme \<Rightarrow> cache_abs" where
  "cabs s = \<lparr>a_disk = memdisk s, a_view = cview s, a_pins = pins s, a_trace = disk_trace s,
     a_held = held s\<rparr>"

definition buf_ok :: "'a bio_state_scheme \<Rightarrow> buf \<Rightarrow> bool" where
  "buf_ok s b \<longleftrightarrow> length (b_data b) = BSIZE \<and>
     b_refcnt b = (if sl_locked (b_lock b) then 1 else 0) \<and>
     (sl_locked (b_lock b) \<longrightarrow> sl_pid (b_lock b) = mypid s \<and> b_dev b = 1) \<and>
     (dirty b \<longrightarrow> b_dev b = 1) \<and> (valid b \<longleftrightarrow> b_dev b = 1) \<and>
     (b_dev b = 1 \<longrightarrow> b_blockno b < disksize s) \<and>
     (b_dev b = 1 \<and> \<not> dirty b \<and> \<not> sl_locked (b_lock b) \<longrightarrow> b_data b = memdisk s (b_blockno b))"

definition bio_inv :: "'a bio_state_scheme \<Rightarrow> bool" where
  "bio_inv s \<longleftrightarrow> (\<exists>xs. mru (bnext s, bprev s) xs) \<and> (\<forall>b. length (memdisk s b) = BSIZE) \<and>
     (\<forall>i<NBUF. buf_ok s (bufs s i)) \<and> (\<forall>b i j. caches s b i \<and> caches s b j \<longrightarrow> i = j)"

text \<open>The state components that a cache operation may change.\<close>

definition bio_frame :: "'a bio_state_scheme \<Rightarrow> 'a bio_state_scheme \<Rightarrow> bool" where
  "bio_frame s s' \<longleftrightarrow> (\<exists>P D T B N V. s' = s\<lparr>procs := P, memdisk := D, disk_trace := T, bufs := B,
      bnext := N, bprev := V\<rparr> \<and> (\<forall>i. state_only (procs s i) (P i)))"

lemma caches_unique: "bio_inv s \<Longrightarrow> caches s b i \<Longrightarrow> caches s b j \<Longrightarrow> i = j"
  by (auto simp: bio_inv_def)

lemma cview_cached:
  assumes "bio_inv s" and "caches s b i"
  shows "cview s b = b_data (bufs s i)"
proof (cases rule: first_index_cases [of "caches s b" NBUF])
  case (found j)
  with assms have "j = i" by (blast intro: caches_unique)
  with found show ?thesis by (simp add: cview_def)
next
  case none
  with assms show ?thesis by (auto simp: caches_def)
qed

lemma cview_uncached: "(\<And>i. \<not> caches s b i) \<Longrightarrow> cview s b = memdisk s b"
  by (simp add: cview_def first_index_None [THEN iffD2])

lemma bio_invD:
  assumes "bio_inv s" and "i < NBUF"
  shows "buf_ok s (bufs s i)"
  using assms by (simp add: bio_inv_def)

lemma held_Some: "held s i = Some b \<longleftrightarrow> i < NBUF \<and> sl_locked (b_lock (bufs s i)) \<and> b_blockno (bufs s i) = b"
  by (auto simp: held_def)

lemma held_caches: "bio_inv s \<Longrightarrow> held s i = Some b \<Longrightarrow> caches s b i"
  using bio_invD [of s i] by (auto simp: held_Some caches_def buf_ok_def)

lemma held_data: "bio_inv s \<Longrightarrow> held s i = Some b \<Longrightarrow> b_data (bufs s i) = cview s b"
  by (metis cview_cached held_caches)

text \<open>Two states that agree on the buffers and the disk have the same view.\<close>

lemma cview_eqI:
  assumes "bio_inv s" and "bio_inv s'"
    and "\<And>i. caches s b i \<Longrightarrow> \<not> (\<exists>j. caches s' b j) \<Longrightarrow> b_data (bufs s i) = memdisk s' b"
    and "\<And>i. caches s' b i \<Longrightarrow> \<not> (\<exists>j. caches s b j) \<Longrightarrow> b_data (bufs s' i) = memdisk s b"
    and "\<And>i j. caches s b i \<Longrightarrow> caches s' b j \<Longrightarrow> b_data (bufs s' j) = b_data (bufs s i)"
    and "\<not> (\<exists>j. caches s b j) \<Longrightarrow> \<not> (\<exists>j. caches s' b j) \<Longrightarrow> memdisk s' b = memdisk s b"
  shows "cview s' b = cview s b"
proof -
  have s: "cview s b = b_data (bufs s i)" if "caches s b i" for i
    using assms(1) that by (rule cview_cached)
  have s': "cview s' b = b_data (bufs s' i)" if "caches s' b i" for i
    using assms(2) that by (rule cview_cached)
  show ?thesis
  proof (cases "\<exists>i. caches s b i")
    case True
    then show ?thesis
      by (cases "\<exists>j. caches s' b j") (use assms(3,5) in \<open>auto simp: s s' cview_uncached\<close>)
  next
    case False
    then show ?thesis
      by (cases "\<exists>j. caches s' b j") (use assms(4,6) in \<open>auto simp: s' cview_uncached\<close>)
  qed
qed

text \<open>A buffer can be recycled when the held and the pinned blocks do not fill the cache.\<close>

lemma recyclable:
  assumes inv: "bio_inv s" and card: "card (ran (held s) \<union> pins s) < NBUF"
  shows "\<exists>i<NBUF. b_refcnt (bufs s i) = 0 \<and> \<not> dirty (bufs s i)"
proof (rule ccontr)
  assume *: "\<not> ?thesis"
  define f where "f i = b_blockno (bufs s i)" for i
  have c: "caches s (f i) i" if "i < NBUF" for i
    using * bio_invD [OF inv that] that by (auto simp: caches_def buf_ok_def f_def split: if_splits)
  have "f i \<in> ran (held s) \<union> pins s" if "i < NBUF" for i
  proof (cases "sl_locked (b_lock (bufs s i))")
    case True
    with that show ?thesis by (auto simp: held_def f_def intro!: ranI [of "held s" i])
  next
    case False
    with * bio_invD [OF inv that] that have "dirty (bufs s i)" by (auto simp: buf_ok_def)
    with c [OF that] show ?thesis by (auto simp: pins_def)
  qed
  then have "f ` {..<NBUF} \<subseteq> ran (held s) \<union> pins s" by auto
  moreover have "ran (held s) \<union> pins s \<subseteq> (\<lambda>i. b_blockno (bufs s i)) ` {..<NBUF}"
  proof
    fix b
    assume "b \<in> ran (held s) \<union> pins s"
    then have "\<exists>i. i < NBUF \<and> b_blockno (bufs s i) = b"
      unfolding ran_def pins_def caches_def held_Some by blast
    then show "b \<in> (\<lambda>i. b_blockno (bufs s i)) ` {..<NBUF}" by blast
  qed
  then have "finite (ran (held s) \<union> pins s)" by (rule finite_subset) simp
  moreover have "inj_on f {..<NBUF}"
  proof (rule inj_onI)
    fix i j
    assume "i \<in> {..<NBUF}" "j \<in> {..<NBUF}" "f i = f j"
    then show "i = j" using c [of i] c [of j] caches_unique [OF inv] by simp
  qed
  then have "card (f ` {..<NBUF}) = NBUF" by (simp add: card_image)
  ultimately show False using card card_mono [of "ran (held s) \<union> pins s" "f ` {..<NBUF}"] by simp
qed


section \<open>What each operation does to the view\<close>

lemma mypid_upd_buf [simp]: "mypid (upd_buf i f s) = mypid s"
  by (simp add: mypid_def myproc_def upd_buf_def)

lemma mypid_wakeup [simp]: "mypid (wakeup ch s) = mypid s"
  by (simp add: mypid_def)

lemma bio_sel_wakeup [simp]:
  "bufs (wakeup ch s) = bufs s" "memdisk (wakeup ch s) = memdisk s"
  "disk_trace (wakeup ch s) = disk_trace s" "disksize (wakeup ch s) = disksize s"
  "bnext (wakeup ch s) = bnext s" "bprev (wakeup ch s) = bprev s"
  by (simp_all add: wakeup_def)

lemma bio_sel_upd_buf [simp]:
  "bufs (upd_buf i f s) = (bufs s)(i := f (bufs s i))" "memdisk (upd_buf i f s) = memdisk s"
  "disk_trace (upd_buf i f s) = disk_trace s" "disksize (upd_buf i f s) = disksize s"
  "bnext (upd_buf i f s) = bnext s" "bprev (upd_buf i f s) = bprev s"
  "procs (upd_buf i f s) = procs s" "cur (upd_buf i f s) = cur s"
  by (simp_all add: upd_buf_def)

lemma buf_ok_upd [simp]: "buf_ok (upd_buf i f s) = buf_ok s"
  by (simp add: buf_ok_def fun_eq_iff)

lemma bio_frameI:
  "s' = s\<lparr>procs := P, memdisk := D, disk_trace := T, bufs := B, bnext := N, bprev := V\<rparr> \<Longrightarrow>
   (\<And>i. state_only (procs s i) (P i)) \<Longrightarrow> bio_frame s s'"
  unfolding bio_frame_def by blast

lemma bio_frameE:
  assumes "bio_frame s s'"
  obtains P D T B N V where
    "s' = s\<lparr>procs := P, memdisk := D, disk_trace := T, bufs := B, bnext := N, bprev := V\<rparr>"
    "\<And>i. state_only (procs s i) (P i)"
  using assms unfolding bio_frame_def by blast

lemma bio_frame_refl [simp]: "bio_frame s s"
  by (rule bio_frameI [where P = "procs s" and D = "memdisk s" and T = "disk_trace s" and B = "bufs s"
        and N = "bnext s" and V = "bprev s"]) simp_all

lemma bio_frame_trans:
  assumes "bio_frame s s'" and "bio_frame s' s''"
  shows "bio_frame s s''"
proof -
  from assms(1) obtain P D T B N V where
    1: "s' = s\<lparr>procs := P, memdisk := D, disk_trace := T, bufs := B, bnext := N, bprev := V\<rparr>"
    and P: "\<And>i. state_only (procs s i) (P i)"
    unfolding bio_frame_def by blast
  from assms(2) obtain P' D' T' B' N' V' where
    2: "s'' = s'\<lparr>procs := P', memdisk := D', disk_trace := T', bufs := B', bnext := N', bprev := V'\<rparr>"
    and P': "\<And>i. state_only (procs s' i) (P' i)"
    unfolding bio_frame_def by blast
  have "state_only (procs s i) (P' i)" for i
    using state_only_trans [OF P [of i]] P' [of i] by (simp add: 1)
  then show ?thesis by (rule bio_frameI [rotated]) (simp add: 1 2)
qed

lemma bio_frame_mypid:
  assumes "bio_frame s s'"
  shows "mypid s' = mypid s"
  using assms
proof (rule bio_frameE)
  fix P D T B N V
  assume s': "s' = s\<lparr>procs := P, memdisk := D, disk_trace := T, bufs := B, bnext := N, bprev := V\<rparr>"
    and P: "\<And>i. state_only (procs s i) (P i)"
  show ?thesis using state_onlyD(1) [OF P [of "cur s"]] by (simp add: s' mypid_def myproc_def)
qed

lemma bio_frame_disksize: "bio_frame s s' \<Longrightarrow> disksize s' = disksize s"
  by (elim bio_frameE) simp

lemma bio_frame_upd_buf [simp]: "bio_frame s (upd_buf i f s)"
  by (rule bio_frameI [where P = "procs s" and D = "memdisk s" and T = "disk_trace s"
        and B = "(bufs s)(i := f (bufs s i))" and N = "bnext s" and V = "bprev s"]) (simp_all add: upd_buf_def)

lemma bio_frame_wakeup [simp]: "bio_frame s (wakeup ch s)"
  by (rule bio_frameI [where P = "procs (wakeup ch s)" and D = "memdisk s" and T = "disk_trace s"
        and B = "bufs s" and N = "bnext s" and V = "bprev s"]) (simp_all add: wakeup_def)


text \<open>The scans of \<open>bget\<close> find the cached buffer, or a recyclable one.\<close>

lemma scan_cached:
  assumes inv: "bio_inv s" and i: "caches s b i"
  shows "bscan (\<lambda>i. b_dev (bufs s i) = 1 \<and> b_blockno (bufs s i) = b) (bnext s) SCAN (bnext s HEAD) = Some i"
proof -
  from inv obtain xs where xs: "mru (bnext s, bprev s) xs" by (auto simp: bio_inv_def)
  let ?P = "\<lambda>i. b_dev (bufs s i) = 1 \<and> b_blockno (bufs s i) = b"
  have len: "length xs < SCAN" and ch: "chain (bnext s, bprev s) xs" and set: "set xs = {..<NBUF}"
    using mru_length [OF xs] xs by (auto simp: mru_def)
  from i set have "i \<in> set xs" "?P i" by (auto simp: caches_def)
  then have "find ?P xs \<noteq> None" unfolding find_None_iff by blast
  then obtain j where j: "find ?P xs = Some j" by blast
  then have "caches s b j" using set by (auto simp: find_Some_iff caches_def)
  with inv i have "j = i" by (blast intro: caches_unique)
  with j bscan_chain(1) [OF ch len] show ?thesis by simp
qed

lemma scan_uncached:
  assumes inv: "bio_inv s" and no: "\<And>i. \<not> caches s b i"
  shows "bscan (\<lambda>i. b_dev (bufs s i) = 1 \<and> b_blockno (bufs s i) = b) (bnext s) SCAN (bnext s HEAD) = None"
proof -
  from inv obtain xs where xs: "mru (bnext s, bprev s) xs" by (auto simp: bio_inv_def)
  have len: "length xs < SCAN" and ch: "chain (bnext s, bprev s) xs" and set: "set xs = {..<NBUF}"
    using mru_length [OF xs] xs by (auto simp: mru_def)
  have "find (\<lambda>i. b_dev (bufs s i) = 1 \<and> b_blockno (bufs s i) = b) xs = None"
    using no set by (auto simp: find_None_iff caches_def)
  with bscan_chain(1) [OF ch len] show ?thesis by simp
qed

lemma scan_victim:
  assumes inv: "bio_inv s" and ex: "\<exists>i<NBUF. b_refcnt (bufs s i) = 0 \<and> \<not> dirty (bufs s i)"
  obtains i where "i < NBUF" "b_refcnt (bufs s i) = 0" "\<not> dirty (bufs s i)"
    "bscan (\<lambda>i. b_refcnt (bufs s i) = 0 \<and> b_flags (bufs s i) AND B_DIRTY = 0) (bprev s) SCAN (bprev s HEAD)
       = Some i"
proof -
  from inv obtain xs where xs: "mru (bnext s, bprev s) xs" by (auto simp: bio_inv_def)
  let ?P = "\<lambda>i. b_refcnt (bufs s i) = 0 \<and> b_flags (bufs s i) AND B_DIRTY = 0"
  have len: "length xs < SCAN" and ch: "chain (bnext s, bprev s) xs" and set: "set xs = {..<NBUF}"
    using mru_length [OF xs] xs by (auto simp: mru_def)
  have "find ?P (rev xs) \<noteq> None"
  proof -
    from ex obtain i where "i < NBUF" "?P i" unfolding dirty_def by blast
    with set have "i \<in> set (rev xs)" "?P i" by auto
    then show ?thesis unfolding find_None_iff by blast
  qed
  then obtain i where i: "find ?P (rev xs) = Some i" by blast
  then obtain k where k: "k < length xs" "?P i" "i = rev xs ! k" by (auto simp: find_Some_iff)
  then have "i \<in> set xs" by (metis length_rev nth_mem set_rev)
  with k set i bscan_chain(2) [OF ch len] show thesis by (intro that) (auto simp: dirty_def)
qed


text \<open>Replacing one buffer of the cache.\<close>

definition put_buf :: "nat \<Rightarrow> buf \<Rightarrow> 'a bio_state_scheme \<Rightarrow> 'a bio_state_scheme" where
  "put_buf i nb s = upd_buf i (\<lambda>_. nb) s"

lemma put_buf_sel [simp]:
  "bufs (put_buf i nb s) = (bufs s)(i := nb)" "memdisk (put_buf i nb s) = memdisk s"
  "disk_trace (put_buf i nb s) = disk_trace s" "disksize (put_buf i nb s) = disksize s"
  "bnext (put_buf i nb s) = bnext s" "bprev (put_buf i nb s) = bprev s"
  "mypid (put_buf i nb s) = mypid s" "buf_ok (put_buf i nb s) = buf_ok s"
  "bio_frame s (put_buf i nb s)"
  by (simp_all add: put_buf_def)

lemma put_buf_collapse [simp]: "upd_buf i f (put_buf i nb s) = put_buf i (f nb) s"
  by (simp add: put_buf_def upd_buf_def)

lemma put_buf_put_buf [simp]: "put_buf i nb (put_buf i nb' s) = put_buf i nb s"
  by (simp add: put_buf_def upd_buf_def)

lemma upd_buf_put: "upd_buf i f s = put_buf i (f (bufs s i)) s"
  by (simp add: put_buf_def upd_buf_def)

lemma caches_put_buf:
  "caches (put_buf i nb s) b j \<longleftrightarrow>
     (if j = i then i < NBUF \<and> b_dev nb = 1 \<and> b_blockno nb = b else caches s b j)"
  by (auto simp: caches_def)

lemma put_buf_inv:
  assumes inv: "bio_inv s" and ok: "buf_ok s nb"
    and uniq: "\<And>j. b_dev nb = 1 \<Longrightarrow> caches s (b_blockno nb) j \<Longrightarrow> j = i"
  shows "bio_inv (put_buf i nb s)"
proof -
  have "\<forall>b j k. caches (put_buf i nb s) b j \<and> caches (put_buf i nb s) b k \<longrightarrow> j = k"
  proof (intro allI impI)
    fix b j k
    assume *: "caches (put_buf i nb s) b j \<and> caches (put_buf i nb s) b k"
    show "j = k"
    proof (cases "b_dev nb = 1 \<and> b_blockno nb = b")
      case True
      from * have "j = i \<or> caches s b j" and "k = i \<or> caches s b k"
        unfolding caches_put_buf by meson+
      moreover from True uniq have "caches s b l \<longrightarrow> l = i" for l by blast
      ultimately show ?thesis by blast
    next
      case False
      with * have "caches s b j" "caches s b k"
        unfolding caches_put_buf by (simp_all split: if_splits)
      with inv show ?thesis by (rule caches_unique)
    qed
  qed
  moreover have "\<forall>j<NBUF. buf_ok s (bufs (put_buf i nb s) j)"
    using ok bio_invD [OF inv] by simp
  ultimately show ?thesis using inv unfolding bio_inv_def by simp
qed

lemma held_put_buf:
  "i < NBUF \<Longrightarrow> held (put_buf i nb s) =
     (held s)(i := if sl_locked (b_lock nb) then Some (b_blockno nb) else None)"
  by (auto simp: held_def)

lemma pins_put_buf:
  assumes inv: "bio_inv s" and i: "caches s b i" and nb: "b_dev nb = 1" "b_blockno nb = b"
  shows "pins (put_buf i nb s) = (if dirty nb then insert b (pins s) else pins s - {b})"
proof -
  have "i < NBUF" using i by (simp add: caches_def)
  show ?thesis
  proof (rule set_eqI)
    fix c
    show "c \<in> pins (put_buf i nb s) \<longleftrightarrow> c \<in> (if dirty nb then insert b (pins s) else pins s - {b})"
    proof (cases "c = b")
      case True
      have "caches s b j \<longrightarrow> j = i" for j using caches_unique [OF inv i] by blast
      then have "caches (put_buf i nb s) b j \<longleftrightarrow> j = i" for j
        using nb \<open>i < NBUF\<close> unfolding caches_put_buf by meson
      with True show ?thesis by (simp add: pins_def)
    next
      case False
      have "caches (put_buf i nb s) c j \<and> dirty (bufs (put_buf i nb s) j) \<longleftrightarrow>
        caches s c j \<and> dirty (bufs s j)" for j
        using False nb i by (auto simp: caches_put_buf caches_def)
      then have "c \<in> pins (put_buf i nb s) \<longleftrightarrow> c \<in> pins s"
        by (simp add: pins_def)
      with False show ?thesis by simp
    qed
  qed
qed

lemma cview_put_buf:
  assumes inv: "bio_inv s" and i: "caches s b i" and nb: "b_dev nb = 1" "b_blockno nb = b"
    and inv': "bio_inv (put_buf i nb s)"
  shows "cview (put_buf i nb s) = (cview s)(b := b_data nb)"
proof
  fix c
  have "i < NBUF" using i by (simp add: caches_def)
  show "cview (put_buf i nb s) c = ((cview s)(b := b_data nb)) c"
  proof (cases "c = b")
    case True
    have "caches (put_buf i nb s) b i" using nb \<open>i < NBUF\<close> by (simp add: caches_put_buf)
    with True show ?thesis using cview_cached [OF inv'] by simp
  next
    case False
    have eq: "caches (put_buf i nb s) c j \<longleftrightarrow> caches s c j" for j
      using False nb i by (auto simp: caches_put_buf caches_def)
    have ne: "j \<noteq> i" if "caches s c j" for j using that i False by (auto simp: caches_def)
    have "cview (put_buf i nb s) c = cview s c"
    proof (rule cview_eqI [OF inv inv'])
      fix j k
      assume "caches s c j" and k: "caches (put_buf i nb s) c k"
      with eq have "j = k" using caches_unique [OF inv] by blast
      with ne k eq show "b_data (bufs (put_buf i nb s) k) = b_data (bufs s j)" by simp
    qed (use eq in \<open>simp_all\<close>)
    with False show ?thesis by simp
  qed
qed


text \<open>\<open>bread\<close> of a cached block, and of one that takes over a recyclable buffer.\<close>

definition locked_buf :: "'a bio_state_scheme \<Rightarrow> buf \<Rightarrow> buf" where
  "locked_buf s b = b\<lparr>b_refcnt := b_refcnt b + 1, b_lock := \<lparr>sl_locked = True, sl_pid = mypid s\<rparr>\<rparr>"

definition fresh_buf :: "'a bio_state_scheme \<Rightarrow> u32 \<Rightarrow> buf \<Rightarrow> buf" where
  "fresh_buf s blk b = b\<lparr>b_dev := 1, b_blockno := blk, b_refcnt := 1,
     b_lock := \<lparr>sl_locked = True, sl_pid = mypid s\<rparr>, b_data := memdisk s blk, b_flags := 2\<rparr>"

lemma sleeplock_eta: "l\<lparr>sl_locked := True, sl_pid := p\<rparr> = \<lparr>sl_locked = True, sl_pid = p\<rparr>"
  by (cases l) simp

lemma not_held_unlocked:
  "i < NBUF \<Longrightarrow> b_blockno (bufs s i) \<notin> ran (held s) \<Longrightarrow> \<not> sl_locked (b_lock (bufs s i))"
  using ranI [of "held s" i "b_blockno (bufs s i)"] by (auto simp: held_Some)

lemma bread_cached:
  assumes inv: "bio_inv s" and i: "caches s b i" and free: "b \<notin> ran (held s)"
  shows "bread 1 b s = Ok (i, put_buf i (locked_buf s (bufs s i)) s)"
proof -
  have n: "i < NBUF" and ok: "buf_ok s (bufs s i)" and b: "b_dev (bufs s i) = 1" "b_blockno (bufs s i) = b"
    using i bio_invD [OF inv] by (auto simp: caches_def)
  have "\<not> sl_locked (b_lock (bufs s i))" using free n b not_held_unlocked [of i s] by simp
  moreover have "valid (bufs s i)" using ok b by (simp add: buf_ok_def)
  ultimately show ?thesis
    by (simp add: bread_def bget_def scan_cached [OF inv i] lock_buf_def upd_buf_put locked_buf_def
        acquiresleep_def valid_def sleeplock_eta)
qed

lemma bread_uncached:
  assumes inv: "bio_inv s" and no: "\<And>i. \<not> caches s b i" and b: "b < disksize s"
    and ex: "\<exists>i<NBUF. b_refcnt (bufs s i) = 0 \<and> \<not> dirty (bufs s i)"
  obtains i where "i < NBUF" "b_refcnt (bufs s i) = 0" "\<not> dirty (bufs s i)"
    "bread 1 b s = Ok (i, put_buf i (fresh_buf s b (bufs s i)) s)"
proof -
  from scan_victim [OF inv ex] obtain i where i: "i < NBUF" "b_refcnt (bufs s i) = 0" "\<not> dirty (bufs s i)"
    and scan: "bscan (\<lambda>i. b_refcnt (bufs s i) = 0 \<and> b_flags (bufs s i) AND B_DIRTY = 0)
      (bprev s) SCAN (bprev s HEAD) = Some i" .
  have "\<not> sl_locked (b_lock (bufs s i))" using bio_invD [OF inv i(1)] i(2) by (auto simp: buf_ok_def)
  then have "bread 1 b s = Ok (i, put_buf i (fresh_buf s b (bufs s i)) s)"
    using b by (simp add: bread_def bget_def scan_uncached [OF inv no] scan lock_buf_def upd_buf_put
        fresh_buf_def acquiresleep_def iderw_def holdingsleep_def not_le sleeplock_eta Let_def)
  with i show thesis by (rule that)
qed

lemma bread_spec:
  assumes inv: "bio_inv s" and b: "b < disksize s" and free: "b \<notin> ran (held s)"
    and room: "b \<in> pins s \<or> card (ran (held s) \<union> pins s) < NBUF"
  shows "\<exists>i s'. bread 1 b s = Ok (i, s') \<and> bio_inv s' \<and> held s i = None \<and> bio_frame s s' \<and>
    cabs s' = (cabs s)\<lparr>a_held := (held s)(i \<mapsto> b)\<rparr>"
proof (cases "\<exists>i. caches s b i")
  case True
  then obtain i where i: "caches s b i" by blast
  let ?nb = "locked_buf s (bufs s i)"
  let ?s' = "put_buf i ?nb s"
  have n: "i < NBUF" and ok: "buf_ok s (bufs s i)" and d: "b_dev (bufs s i) = 1" "b_blockno (bufs s i) = b"
    using i bio_invD [OF inv] by (auto simp: caches_def)
  have unl: "\<not> sl_locked (b_lock (bufs s i))" using free n d not_held_unlocked [of i s] by simp
  have nb: "b_dev ?nb = 1" "b_blockno ?nb = b" "b_data ?nb = cview s b" "dirty ?nb = dirty (bufs s i)"
    using d cview_cached [OF inv i] by (simp_all add: locked_buf_def dirty_def)
  have "buf_ok s ?nb" using ok unl d by (simp add: buf_ok_def locked_buf_def valid_def dirty_def)
  then have inv': "bio_inv ?s'"
    by (rule put_buf_inv [OF inv]) (use nb i caches_unique [OF inv] in auto)
  have "b \<in> pins s \<longleftrightarrow> dirty (bufs s i)"
    using i caches_unique [OF inv i] unfolding pins_def by blast
  then have "pins ?s' = pins s"
    using pins_put_buf [OF inv i nb(1,2)] nb(4) by auto
  moreover have "cview ?s' = cview s"
    using cview_put_buf [OF inv i nb(1,2) inv'] nb(3) by simp
  moreover have "held ?s' = (held s)(i \<mapsto> b)"
    using held_put_buf [OF n, of ?nb] nb(2) by (simp add: locked_buf_def)
  moreover have "held s i = None" using unl by (simp add: held_def)
  ultimately show ?thesis
    using bread_cached [OF inv i free] inv' by (auto simp: cabs_def)
next
  case False
  then have no: "\<And>i. \<not> caches s b i" by blast
  then have "b \<notin> pins s" by (simp add: pins_def)
  with room recyclable [OF inv]
  have "\<exists>i<NBUF. b_refcnt (bufs s i) = 0 \<and> \<not> dirty (bufs s i)" by blast
  from bread_uncached [OF inv no b this] obtain i where i: "i < NBUF" "b_refcnt (bufs s i) = 0"
    "\<not> dirty (bufs s i)" and r: "bread 1 b s = Ok (i, put_buf i (fresh_buf s b (bufs s i)) s)" .
  let ?nb = "fresh_buf s b (bufs s i)"
  let ?s' = "put_buf i ?nb s"
  have ok: "buf_ok s (bufs s i)" by (rule bio_invD [OF inv i(1)])
  have unl: "\<not> sl_locked (b_lock (bufs s i))" using ok i(2) by (auto simp: buf_ok_def)
  have nb: "b_dev ?nb = 1" "b_blockno ?nb = b" "b_data ?nb = memdisk s b" "\<not> dirty ?nb" "valid ?nb"
    by (simp_all add: fresh_buf_def valid_def dirty_def)
  have "length (memdisk s b) = BSIZE" using inv by (simp add: bio_inv_def)
  then have "buf_ok s ?nb" using nb b by (simp add: buf_ok_def) (simp add: fresh_buf_def)
  then have inv': "bio_inv ?s'" by (rule put_buf_inv [OF inv]) (use no nb in auto)
  have new: "caches ?s' b i" using i(1) nb by (simp add: caches_put_buf)
  have old: "caches ?s' c j \<longleftrightarrow> c \<noteq> b \<and> j \<noteq> i \<and> caches s c j \<or> c = b \<and> j = i" for c j
    using no nb i(1) by (auto simp: caches_put_buf)
  have "c \<in> pins ?s' \<longleftrightarrow> c \<in> pins s" for c
  proof -
    have "caches ?s' c j \<and> dirty (bufs ?s' j) \<longleftrightarrow> caches s c j \<and> dirty (bufs s j)" for j
      by (cases "j = i") (use i(3) nb(4) no old in auto)
    then show ?thesis by (simp add: pins_def)
  qed
  then have "pins ?s' = pins s" by blast
  moreover have "cview ?s' = cview s"
  proof
    fix c
    show "cview ?s' c = cview s c"
    proof (rule cview_eqI [OF inv inv'])
      fix j
      assume j: "caches s c j" "\<not> (\<exists>j. caches ?s' c j)"
      then have "j = i" using old no by blast
      with j ok i(3) unl show "b_data (bufs s j) = memdisk ?s' c" by (auto simp: buf_ok_def caches_def)
    next
      fix j
      assume "caches ?s' c j" "\<not> (\<exists>j. caches s c j)"
      then have "c = b" "j = i" using old by auto
      then show "b_data (bufs ?s' j) = memdisk s c" using nb(3) by simp
    next
      fix j k
      assume j: "caches s c j" and k: "caches ?s' c k"
      then have "c \<noteq> b" using no by blast
      with k old have "k \<noteq> i" "caches s c k" by blast+
      moreover from this j have "j = k" using caches_unique [OF inv] by blast
      ultimately show "b_data (bufs ?s' k) = b_data (bufs s j)" by simp
    qed simp
  qed
  moreover have "held ?s' = (held s)(i \<mapsto> b)"
    using held_put_buf [OF i(1), of ?nb] by (simp add: fresh_buf_def)
  moreover have "held s i = None" using unl by (simp add: held_def)
  ultimately show ?thesis using r inv' by (auto simp: cabs_def)
qed

text \<open>A change of a held buffer: its contents, or its flags.\<close>

lemma held_put_spec:
  assumes inv: "bio_inv s" and i: "held s i = Some b"
    and nb: "b_dev nb = 1" "b_blockno nb = b" "b_lock nb = b_lock (bufs s i)"
      "b_refcnt nb = b_refcnt (bufs s i)" "length (b_data nb) = BSIZE" "valid nb"
  shows "bio_inv (put_buf i nb s)"
    and "cabs (put_buf i nb s) = (cabs s)\<lparr>a_view := (cview s)(b := b_data nb),
      a_pins := if dirty nb then insert b (pins s) else pins s - {b}\<rparr>"
proof -
  have n: "i < NBUF" and l: "sl_locked (b_lock (bufs s i))" and c: "caches s b i"
    using i held_caches [OF inv i] by (auto simp: held_Some)
  have ok: "buf_ok s (bufs s i)" by (rule bio_invD [OF inv n])
  have "b < disksize s" using ok c by (auto simp: buf_ok_def caches_def)
  then have "buf_ok s nb" using nb ok l by (simp add: buf_ok_def)
  then show inv': "bio_inv (put_buf i nb s)"
    by (rule put_buf_inv [OF inv]) (use nb c caches_unique [OF inv] in auto)
  have "held (put_buf i nb s) = held s"
    using held_put_buf [OF n, of nb s] nb l i by (simp add: fun_upd_idem)
  then show "cabs (put_buf i nb s) = (cabs s)\<lparr>a_view := (cview s)(b := b_data nb),
      a_pins := if dirty nb then insert b (pins s) else pins s - {b}\<rparr>"
    using cview_put_buf [OF inv c nb(1,2) inv'] pins_put_buf [OF inv c nb(1,2)]
    by (simp add: cabs_def)
qed

lemma pinned_iff: "bio_inv s \<Longrightarrow> held s i = Some b \<Longrightarrow> b \<in> pins s \<longleftrightarrow> dirty (bufs s i)"
  unfolding pins_def by (blast dest: caches_unique held_caches)

lemma held_bufD:
  assumes inv: "bio_inv s" and i: "held s i = Some b"
  shows "i < NBUF" "b_dev (bufs s i) = 1" "b_blockno (bufs s i) = b" "valid (bufs s i)"
    "length (b_data (bufs s i)) = BSIZE" "holdingsleep (mypid s) (b_lock (bufs s i))"
    "b_refcnt (bufs s i) = 1" "b < disksize s" "b_data (bufs s i) = cview s b"
proof -
  show n: "i < NBUF" using i by (simp add: held_Some)
  note c = held_caches [OF inv i]
  show "b_dev (bufs s i) = 1" "b_blockno (bufs s i) = b" "valid (bufs s i)"
    "length (b_data (bufs s i)) = BSIZE" "holdingsleep (mypid s) (b_lock (bufs s i))"
    "b_refcnt (bufs s i) = 1" "b < disksize s"
    using bio_invD [OF inv n] i c by (auto simp: buf_ok_def caches_def held_Some holdingsleep_def)
  show "b_data (bufs s i) = cview s b" by (rule held_data [OF inv i])
qed

lemma unheld_clean:
  assumes inv: "bio_inv s" and b: "b \<notin> pins s" "b \<notin> ran (held s)"
  shows "cview s b = memdisk s b"
proof (cases "\<exists>i. caches s b i")
  case True
  then obtain i where i: "caches s b i" by blast
  then have "i < NBUF" and "\<not> dirty (bufs s i)" using b(1) by (auto simp: caches_def pins_def)
  moreover from this i b(2) have "\<not> sl_locked (b_lock (bufs s i))"
    using not_held_unlocked [of i s] by (simp add: caches_def)
  ultimately show ?thesis using bio_invD [OF inv, of i] i cview_cached [OF inv i]
    by (auto simp: buf_ok_def caches_def)
qed (simp add: cview_uncached)

lemma set_data_spec:
  assumes inv: "bio_inv s" and i: "held s i = Some b" and d: "length d = BSIZE"
  shows "bio_inv (set_data i d s)"
    and "cabs (set_data i d s) = (cabs s)\<lparr>a_view := (cview s)(b := d)\<rparr>"
    and "bio_frame s (set_data i d s)"
proof -
  let ?nb = "(bufs s i)\<lparr>b_data := d\<rparr>"
  note b = held_bufD [OF inv i]
  have eq: "set_data i d s = put_buf i ?nb s" by (simp add: set_data_def upd_buf_put)
  have "(if dirty ?nb then insert b (pins s) else pins s - {b}) = pins s"
    using pinned_iff [OF inv i] by auto
  then show "bio_inv (set_data i d s)"
    and "cabs (set_data i d s) = (cabs s)\<lparr>a_view := (cview s)(b := d)\<rparr>"
    using held_put_spec [OF inv i, of ?nb] b(2,3,4) d eq by (simp_all add: cabs_def)
  show "bio_frame s (set_data i d s)" by (simp add: set_data_def)
qed

text \<open>\<open>log_write\<close> pins a held buffer by \<open>b->flags |= B_DIRTY\<close>.\<close>

definition set_dirty :: "nat \<Rightarrow> 'a bio_state_scheme \<Rightarrow> 'a bio_state_scheme" where
  "set_dirty i s = upd_buf i (\<lambda>b. b\<lparr>b_flags := b_flags b OR B_DIRTY\<rparr>) s"

lemma set_dirty_spec:
  assumes inv: "bio_inv s" and i: "held s i = Some b"
  shows "bio_inv (set_dirty i s)" and "cabs (set_dirty i s) = (cabs s)\<lparr>a_pins := insert b (pins s)\<rparr>"
    and "bio_frame s (set_dirty i s)"
proof -
  let ?nb = "(bufs s i)\<lparr>b_flags := b_flags (bufs s i) OR B_DIRTY\<rparr>"
  note b = held_bufD [OF inv i]
  have eq: "set_dirty i s = put_buf i ?nb s" by (simp add: set_dirty_def upd_buf_put)
  have v: "valid ?nb" using b(4) by (simp add: valid_bit bit_or_iff)
  have "(cview s)(b := b_data ?nb) = cview s" using b(9) by (simp add: fun_eq_iff)
  then show "bio_inv (set_dirty i s)" and "cabs (set_dirty i s) = (cabs s)\<lparr>a_pins := insert b (pins s)\<rparr>"
    using held_put_spec [OF inv i _ _ _ _ _ v] b(2,3,5) eq by (simp_all add: cabs_def)
  show "bio_frame s (set_dirty i s)" by (simp add: set_dirty_def)
qed

text \<open>A disk write of a held block.\<close>

lemma disk_write_spec:
  assumes inv: "bio_inv s" and i: "held s i = Some b" and d: "length d = BSIZE"
    and s': "s' = s\<lparr>memdisk := (memdisk s)(b := d), disk_trace := disk_trace s @ [(b, d)]\<rparr>"
  shows "bio_inv s'" and "held s' i = Some b"
    and "cabs s' = (cabs s)\<lparr>a_disk := (memdisk s)(b := d), a_trace := disk_trace s @ [(b, d)]\<rparr>"
proof -
  have c: "caches s' = caches s" by (simp add: caches_def s' fun_eq_iff)
  have p: "mypid s' = mypid s" "bufs s' = bufs s" "disksize s' = disksize s"
    "memdisk s' = (memdisk s)(b := d)" "bnext s' = bnext s" "bprev s' = bprev s"
    by (simp_all add: s' mypid_def myproc_def)
  have ok: "buf_ok s' (bufs s j)" if j: "j < NBUF" for j
  proof -
    have "j \<noteq> i \<Longrightarrow> b_dev (bufs s j) = 1 \<Longrightarrow> b_blockno (bufs s j) \<noteq> b"
      using caches_unique [OF inv held_caches [OF inv i], of j] j by (auto simp: caches_def)
    moreover have "sl_locked (b_lock (bufs s i))" using i by (simp add: held_Some)
    ultimately show ?thesis
      using bio_invD [OF inv j] by (cases "j = i") (auto simp: buf_ok_def p)
  qed
  show inv': "bio_inv s'" using inv ok d by (simp add: bio_inv_def c p)
  have v: "cview s' = cview s"
  proof
    fix a
    show "cview s' a = cview s a"
      by (rule cview_eqI [OF inv inv'])
        (use c caches_unique [OF inv] held_caches [OF inv i] in \<open>auto simp: s'\<close>)
  qed
  have h: "held s' = held s" by (simp add: held_def s' fun_eq_iff)
  with i show "held s' i = Some b" by simp
  have "pins s' = pins s" by (simp add: pins_def c) (simp add: s')
  with v h show "cabs s' = (cabs s)\<lparr>a_disk := (memdisk s)(b := d), a_trace := disk_trace s @ [(b, d)]\<rparr>"
    by (simp add: cabs_def) (simp add: s')
qed

lemma bwrite_spec:
  assumes inv: "bio_inv s" and i: "held s i = Some b"
  shows "\<exists>s'. bwrite i s = Ok s' \<and> bio_inv s' \<and> bio_frame s s' \<and>
    cabs s' = (cabs s)\<lparr>a_disk := (memdisk s)(b := cview s b),
      a_trace := disk_trace s @ [(b, cview s b)], a_pins := pins s - {b}\<rparr>"
proof -
  let ?d = "cview s b"
  let ?s1 = "s\<lparr>memdisk := (memdisk s)(b := ?d), disk_trace := disk_trace s @ [(b, ?d)]\<rparr>"
  define nb where "nb = (bufs s i)\<lparr>b_flags := ((b_flags (bufs s i) OR B_DIRTY) AND NOT B_DIRTY) OR B_VALID\<rparr>"
  have nb: "\<not> dirty nb" "valid nb" unfolding nb_def by (rule flag_simps)+
  have nb': "b_dev nb = b_dev (bufs s i)" "b_blockno nb = b_blockno (bufs s i)"
    "b_lock nb = b_lock (bufs s i)" "b_refcnt nb = b_refcnt (bufs s i)" "b_data nb = b_data (bufs s i)"
    by (simp_all add: nb_def)
  note b = held_bufD [OF inv i]
  have len: "length ?d = BSIZE" using b(5,9) by simp
  note s1 = disk_write_spec [OF inv i len refl]
  have dirty: "(f OR B_DIRTY) AND B_DIRTY \<noteq> 0" for f :: u32
    by (simp add: and_4_bit bit_or_iff)
  have neq: "(f OR B_DIRTY) AND (B_VALID OR B_DIRTY) \<noteq> B_VALID" for f :: u32
    using flags_nothing_to_do [of "b\<lparr>b_flags := f OR 4\<rparr>" for b] flag_simps(2) by simp
  have "bwrite i s = Ok (put_buf i nb ?s1)"
    using b neq dirty by (simp add: bwrite_def iderw_def Let_def not_le put_buf_def upd_buf_def mypid_def
        myproc_def holdingsleep_def nb_def)
  moreover have "bio_frame s (put_buf i nb ?s1)"
    by (rule bio_frameI [where P = "procs s" and D = "memdisk ?s1" and T = "disk_trace ?s1"
        and B = "(bufs s)(i := nb)" and N = "bnext s" and V = "bprev s"]) (simp_all add: put_buf_def upd_buf_def)
  moreover have "cview ?s1 = cview s" "pins ?s1 = pins s" "held ?s1 = held s"
    using s1(3) by (simp_all add: cabs_def)
  ultimately show ?thesis
    using held_put_spec [OF s1(1,2), of nb] b s1(3) nb nb'
    by (intro exI [of _ "put_buf i nb ?s1"]) (simp add: cabs_def fun_upd_idem)
qed

text \<open>The invariant and the view depend on the cache's own fields only.\<close>

lemma cabs_cong:
  assumes "bufs s' = bufs s" "memdisk s' = memdisk s" "disk_trace s' = disk_trace s"
  shows "cabs s' = cabs s"
proof -
  have c: "caches s' = caches s" by (intro ext) (simp add: caches_def assms(1))
  have "cview s' = cview s" by (intro ext) (simp only: cview_def c assms)
  moreover have "pins s' = pins s" by (simp only: pins_def c assms)
  moreover have "held s' = held s" by (intro ext) (simp only: held_def assms)
  ultimately show ?thesis by (simp add: cabs_def assms)
qed

lemma bio_inv_cong:
  assumes "bufs s' = bufs s" "memdisk s' = memdisk s" "disksize s' = disksize s" "mypid s' = mypid s"
    and "\<exists>xs. mru (bnext s', bprev s') xs" and "bio_inv s"
  shows "bio_inv s'"
proof -
  have c: "caches s' = caches s" by (intro ext) (simp add: caches_def assms(1))
  have ok: "buf_ok s' = buf_ok s" by (intro ext) (simp only: buf_ok_def assms)
  show ?thesis using assms(5,6) unfolding bio_inv_def c ok assms(1,2) by simp
qed

lemma brelse_spec:
  assumes inv: "bio_inv s" and i: "held s i = Some b" and ok: "b \<in> pins s \<or> cview s b = memdisk s b"
  shows "\<exists>s'. brelse i s = Ok s' \<and> bio_inv s' \<and> bio_frame s s' \<and>
    cabs s' = (cabs s)\<lparr>a_held := (held s)(i := None)\<rparr>"
proof -
  let ?nb = "(bufs s i)\<lparr>b_lock := releasesleep (b_lock (bufs s i)), b_refcnt := 0\<rparr>"
  let ?s1 = "put_buf i ?nb s"
  let ?s2 = "wakeup (ChBuf i) ?s1"
  obtain nx pv where l: "push_front i (unlink_buf i (bnext s, bprev s)) = (nx, pv)" by force
  let ?s' = "?s2\<lparr>bnext := nx, bprev := pv\<rparr>"
  note b = held_bufD [OF inv i]
  note c = held_caches [OF inv i]
  have wu: "put_buf i nb (wakeup ch s) = wakeup ch (put_buf i nb s)" for nb ch and s :: "'a bio_state_scheme"
    by (simp add: put_buf_def upd_buf_def wakeup_def cong: if_cong)
  have r: "brelse i s = Ok ?s'"
    using b(6,7) l by (simp add: brelse_def Let_def upd_buf_put wu)
  have "bio_frame s ?s2" by (rule bio_frame_trans [of _ ?s1]) simp_all
  moreover have "bio_frame ?s2 ?s'"
    by (rule bio_frameI [where P = "procs ?s2" and D = "memdisk ?s2" and T = "disk_trace ?s2"
        and B = "bufs ?s2" and N = nx and V = pv]) simp_all
  ultimately have frame: "bio_frame s ?s'" by (rule bio_frame_trans)
  have dn: "dirty ?nb = dirty (bufs s i)" and vn: "valid ?nb = valid (bufs s i)"
    by (simp_all add: dirty_def valid_def)
  have okb: "buf_ok s (bufs s i)" by (rule bio_invD [OF inv b(1)])
  have "\<not> dirty (bufs s i) \<Longrightarrow> b_data (bufs s i) = memdisk s b"
    using ok pinned_iff [OF inv i] b(9) by auto
  then have "buf_ok s ?nb"
    using okb b by (simp add: buf_ok_def dn vn) (simp add: releasesleep_def)
  then have inv1: "bio_inv ?s1"
    by (rule put_buf_inv [OF inv]) (use b c caches_unique [OF inv] in auto)
  obtain xs where "mru (bnext s, bprev s) xs" using inv by (auto simp: bio_inv_def)
  from mru_release [OF this b(1)] l have mru': "\<exists>xs. mru (nx, pv) xs" by auto
  have inv': "bio_inv ?s'"
    by (rule bio_inv_cong [OF _ _ _ _ _ inv1]) (use mru' bio_frame_mypid [OF frame] in simp_all)
  have "cabs ?s' = cabs ?s1" by (rule cabs_cong) simp_all
  moreover have "cview ?s1 = cview s"
    using cview_put_buf [OF inv c _ _ inv1] b by (simp add: fun_upd_idem)
  moreover have "pins ?s1 = pins s"
    using pins_put_buf [OF inv c, of ?nb] b pinned_iff [OF inv i] dn by auto
  moreover have "held ?s1 = (held s)(i := None)"
    using held_put_buf [OF b(1), of ?nb s] by (simp add: releasesleep_def)
  ultimately show ?thesis using r inv' frame by (simp add: cabs_def)
qed

text \<open>\<open>binit\<close> on the zeroed buffer cache establishes the invariant: nothing is cached.\<close>

definition zero_buf :: buf where
  "zero_buf = \<lparr>b_flags = 0, b_dev = 0, b_blockno = 0, b_lock = initsleeplock, b_refcnt = 0,
     b_data = replicate BSIZE 0\<rparr>"

lemma binit_inv:
  assumes "bufs s = (\<lambda>_. zero_buf)" and "\<And>b. length (memdisk s b) = BSIZE"
  shows "bio_inv (binit s)" and "cabs (binit s) =
    \<lparr>a_disk = memdisk s, a_view = memdisk s, a_pins = {}, a_trace = disk_trace s, a_held = Map.empty\<rparr>"
proof -
  obtain nx pv where l: "binit_links (bnext s, bprev s) = (nx, pv)" by force
  have "\<exists>xs. mru (nx, pv) xs" using mru_binit [of "(bnext s, bprev s)"] l by auto
  moreover have b: "bufs (binit s) = (\<lambda>_. zero_buf)"
    using assms(1) by (auto simp: binit_def l zero_buf_def)
  then have no: "\<not> caches (binit s) b i" for b i by (simp add: caches_def zero_buf_def)
  have "buf_ok (binit s) zero_buf"
    by (simp add: buf_ok_def zero_buf_def initsleeplock_def dirty_def valid_def)
  ultimately show "bio_inv (binit s)"
    using assms(2) no b unfolding bio_inv_def by (simp add: binit_def l)
  have "held (binit s) = Map.empty" by (simp add: held_def b zero_buf_def initsleeplock_def fun_eq_iff)
  moreover have "cview (binit s) = memdisk (binit s)" using no by (simp add: cview_uncached fun_eq_iff)
  moreover have "memdisk (binit s) = memdisk s" "disk_trace (binit s) = disk_trace s"
    by (simp_all add: binit_def l)
  ultimately show "cabs (binit s) =
    \<lparr>a_disk = memdisk s, a_view = memdisk s, a_pins = {}, a_trace = disk_trace s, a_held = Map.empty\<rparr>"
    by (simp add: cabs_def pins_def no)
qed

section \<open>The interface of the buffer cache\<close>

text \<open>
  What the log and the file system rely on.  A buffer is read by \<open>rd\<close>, which needs a recyclable
  buffer unless the block is pinned; the holder may assign to its data (\<open>put\<close>), write it to the
  disk (\<open>wr\<close>) and give it back (\<open>rel\<close>).  A block that was changed must be pinned or written
  before it is given back, since the cache may otherwise drop the change.
\<close>

locale block_reads =
  fixes inv :: "'s \<Rightarrow> bool" and abs :: "'s \<Rightarrow> cache_abs" and nblocks :: "'s \<Rightarrow> u32"
    and data :: "'s \<Rightarrow> nat \<Rightarrow> bytes" and frame :: "'s \<Rightarrow> 's \<Rightarrow> bool"
    and rd :: "u32 \<Rightarrow> 's \<Rightarrow> (nat \<times> 's) res" and put :: "nat \<Rightarrow> bytes \<Rightarrow> 's \<Rightarrow> 's"
    and rel :: "nat \<Rightarrow> 's \<Rightarrow> 's res"
  assumes rd: "inv s \<Longrightarrow> b < nblocks s \<Longrightarrow> b \<notin> ran (a_held (abs s)) \<Longrightarrow>
      b \<in> a_pins (abs s) \<or> card (ran (a_held (abs s)) \<union> a_pins (abs s)) < NBUF \<Longrightarrow>
      \<exists>i s'. rd b s = Ok (i, s') \<and> inv s' \<and> a_held (abs s) i = None \<and> frame s s' \<and>
        abs s' = (abs s)\<lparr>a_held := (a_held (abs s))(i \<mapsto> b)\<rparr>"
    and put: "inv s \<Longrightarrow> a_held (abs s) i = Some b \<Longrightarrow> length d = BSIZE \<Longrightarrow>
      inv (put i d s) \<and> frame s (put i d s) \<and>
      abs (put i d s) = (abs s)\<lparr>a_view := (a_view (abs s))(b := d)\<rparr>"
    and rel: "inv s \<Longrightarrow> a_held (abs s) i = Some b \<Longrightarrow>
      b \<in> a_pins (abs s) \<or> a_view (abs s) b = a_disk (abs s) b \<Longrightarrow>
      \<exists>s'. rel i s = Ok s' \<and> inv s' \<and> frame s s' \<and>
        abs s' = (abs s)\<lparr>a_held := (a_held (abs s))(i := None)\<rparr>"
    and data: "inv s \<Longrightarrow> a_held (abs s) i = Some b \<Longrightarrow> data s i = a_view (abs s) b"
    and view_length: "inv s \<Longrightarrow> length (a_view (abs s) b) = BSIZE"
    and clean: "inv s \<Longrightarrow> b \<notin> a_pins (abs s) \<Longrightarrow> b \<notin> ran (a_held (abs s)) \<Longrightarrow>
      a_view (abs s) b = a_disk (abs s) b"
    and frame_refl: "frame s s"
    and frame_trans: "frame s s' \<Longrightarrow> frame s' s'' \<Longrightarrow> frame s s''"
    and frame_nblocks: "frame s s' \<Longrightarrow> nblocks s' = nblocks s"
begin

text \<open>A block that is only read: the cache looks the same afterwards.\<close>

lemma read_only:
  assumes "inv s" and "b < nblocks s" and "b \<notin> ran (a_held (abs s))"
    and "b \<in> a_pins (abs s) \<or> card (ran (a_held (abs s)) \<union> a_pins (abs s)) < NBUF"
  shows "\<exists>i s1 s2. rd b s = Ok (i, s1) \<and> inv s1 \<and> frame s s1 \<and> data s1 i = a_view (abs s) b \<and>
    abs s1 = (abs s)\<lparr>a_held := (a_held (abs s))(i \<mapsto> b)\<rparr> \<and>
    rel i s1 = Ok s2 \<and> inv s2 \<and> frame s s2 \<and> abs s2 = abs s"
proof -
  from rd [OF assms(1-4)] obtain i s1 where 1: "rd b s = Ok (i, s1)" "inv s1" "a_held (abs s) i = None"
    "frame s s1" "abs s1 = (abs s)\<lparr>a_held := (a_held (abs s))(i \<mapsto> b)\<rparr>" by blast
  have "b \<in> a_pins (abs s) \<or> a_view (abs s) b = a_disk (abs s) b"
    using clean [OF assms(1)] assms(3) by blast
  with rel [OF 1(2), of i b] 1(5) obtain s2 where 2: "rel i s1 = Ok s2" "inv s2" "frame s1 s2"
    "abs s2 = (abs s1)\<lparr>a_held := (a_held (abs s1))(i := None)\<rparr>" by auto
  have "abs s2 = abs s" using 1(3,5) 2(4) by (simp add: fun_upd_idem)
  moreover have "data s1 i = a_view (abs s) b" using data [OF 1(2), of i b] 1(5) by simp
  ultimately show ?thesis using 1 2 frame_trans by blast
qed

text \<open>Two blocks read one after the other.\<close>

lemma two_reads:
  assumes "inv s" and "a_held (abs s) = Map.empty" and "a < nblocks s" and "b < nblocks s" and "a \<noteq> b"
    and "a \<in> a_pins (abs s) \<or> card (a_pins (abs s)) < NBUF"
    and "b \<in> a_pins (abs s) \<or> card (insert a (a_pins (abs s))) < NBUF"
  shows "\<exists>i j s1 s2. rd a s = Ok (i, s1) \<and> rd b s1 = Ok (j, s2) \<and> i \<noteq> j \<and> inv s2 \<and> frame s s1 \<and>
    frame s s2 \<and> abs s2 = (abs s)\<lparr>a_held := [i \<mapsto> a, j \<mapsto> b]\<rparr>"
proof -
  from rd [OF assms(1,3)] assms(2,6) obtain i s1 where 1: "rd a s = Ok (i, s1)" "inv s1" "frame s s1"
    "abs s1 = (abs s)\<lparr>a_held := [i \<mapsto> a]\<rparr>" by auto
  have "b < nblocks s1" using assms(4) frame_nblocks [OF 1(3)] by simp
  with rd [OF 1(2), of b] assms(5,7) obtain j s2 where 2: "rd b s1 = Ok (j, s2)" "inv s2"
    "[i \<mapsto> a] j = None" "frame s1 s2" "abs s2 = (abs s)\<lparr>a_held := [i \<mapsto> a, j \<mapsto> b]\<rparr>"
    by (auto simp: 1(4))
  from 2(3) have "i \<noteq> j" by (auto split: if_splits)
  with 1 2 frame_trans show ?thesis by blast
qed

end

text \<open>The cache as the log uses it, with writes to the disk.\<close>

locale block_cache = block_reads inv abs nblocks data frame rd put rel
  for inv :: "'s \<Rightarrow> bool" and abs :: "'s \<Rightarrow> cache_abs" and nblocks :: "'s \<Rightarrow> u32"
    and data :: "'s \<Rightarrow> nat \<Rightarrow> bytes" and frame :: "'s \<Rightarrow> 's \<Rightarrow> bool"
    and rd :: "u32 \<Rightarrow> 's \<Rightarrow> (nat \<times> 's) res" and put :: "nat \<Rightarrow> bytes \<Rightarrow> 's \<Rightarrow> 's"
    and rel :: "nat \<Rightarrow> 's \<Rightarrow> 's res" +
  fixes wr :: "nat \<Rightarrow> 's \<Rightarrow> 's res"
  assumes wr: "inv s \<Longrightarrow> a_held (abs s) i = Some b \<Longrightarrow>
      \<exists>s'. wr i s = Ok s' \<and> inv s' \<and> frame s s' \<and>
        abs s' = (abs s)\<lparr>a_disk := (a_disk (abs s))(b := a_view (abs s) b),
          a_trace := a_trace (abs s) @ [(b, a_view (abs s) b)], a_pins := a_pins (abs s) - {b}\<rparr>"
begin

text \<open>A held block that is overwritten and written to the disk at once.\<close>

lemma put_wr:
  assumes "inv s" and "a_held (abs s) i = Some b" and "length d = BSIZE"
  shows "\<exists>s'. wr i (put i d s) = Ok s' \<and> inv s' \<and> frame s s' \<and>
    abs s' = (abs s)\<lparr>a_view := (a_view (abs s))(b := d), a_disk := (a_disk (abs s))(b := d),
      a_trace := a_trace (abs s) @ [(b, d)], a_pins := a_pins (abs s) - {b}\<rparr>"
proof -
  from put [OF assms] have 1: "inv (put i d s)" "frame s (put i d s)"
    "abs (put i d s) = (abs s)\<lparr>a_view := (a_view (abs s))(b := d)\<rparr>" by blast+
  from wr [OF 1(1), of i b] 1(3) assms(2) obtain s' where 2: "wr i (put i d s) = Ok s'" "inv s'"
    "frame (put i d s) s'" "abs s' = (abs s)\<lparr>a_view := (a_view (abs s))(b := d),
      a_disk := (a_disk (abs s))(b := d), a_trace := a_trace (abs s) @ [(b, d)],
      a_pins := a_pins (abs s) - {b}\<rparr>" by auto
  with 1(2) frame_trans show ?thesis by blast
qed

text \<open>A held block copied over another one, on the disk too.\<close>

lemma finish_copy:
  assumes "inv s" and h: "a_held (abs s) = [l \<mapsto> a, d \<mapsto> b]" and ne: "l \<noteq> d" "a \<noteq> b"
    and a: "a \<in> a_pins (abs s) \<or> a_view (abs s) a = a_disk (abs s) a"
  shows "\<exists>s1 s2 s'. wr d (put d (data s l) s) = Ok s1 \<and> rel l s1 = Ok s2 \<and> rel d s2 = Ok s' \<and>
    inv s' \<and> frame s s' \<and> abs s' = (abs s)\<lparr>a_held := Map.empty,
      a_view := (a_view (abs s))(b := a_view (abs s) a), a_disk := (a_disk (abs s))(b := a_view (abs s) a),
      a_trace := a_trace (abs s) @ [(b, a_view (abs s) a)], a_pins := a_pins (abs s) - {b}\<rparr>"
proof -
  let ?v = "a_view (abs s) a"
  have dl: "data s l = ?v" using data [OF assms(1), of l a] h ne by simp
  have len: "length ?v = BSIZE" by (rule view_length [OF assms(1)])
  from put_wr [OF assms(1) _ len, of d b] h obtain s1 where 1: "wr d (put d ?v s) = Ok s1" "inv s1"
    "frame s s1" "abs s1 = (abs s)\<lparr>a_view := (a_view (abs s))(b := ?v), a_disk := (a_disk (abs s))(b := ?v),
      a_trace := a_trace (abs s) @ [(b, ?v)], a_pins := a_pins (abs s) - {b}\<rparr>" by auto
  have "[l \<mapsto> a, d \<mapsto> b](l := None) = [d \<mapsto> b]" using ne by (auto simp: fun_eq_iff)
  with rel [OF 1(2), of l a] h ne a obtain s2 where 2: "rel l s1 = Ok s2" "inv s2" "frame s1 s2"
    "abs s2 = (abs s1)\<lparr>a_held := [d \<mapsto> b]\<rparr>" by (auto simp: 1(4))
  from rel [OF 2(2), of d b] obtain s' where 3: "rel d s2 = Ok s'" "inv s'" "frame s2 s'"
    "abs s' = (abs s2)\<lparr>a_held := Map.empty\<rparr>" by (auto simp: 2(4) 1(4))
  have "frame s s'" using frame_trans [OF frame_trans [OF 1(3) 2(3)] 3(3)] .
  with 1 2 3 dl show ?thesis by simp
qed

end

interpretation cache: block_cache bio_inv cabs disksize "\<lambda>s i. b_data (bufs s i)" bio_frame
  "bread 1" set_data brelse bwrite
proof unfold_locales
  fix s :: "'a bio_state_scheme" and b i d
  assume inv: "bio_inv s"
  show "length (a_view (cabs s) b) = BSIZE"
    by (cases "\<exists>i. caches s b i")
      (use inv cview_cached [OF inv, of b] bio_invD [OF inv] in
        \<open>auto simp: cabs_def cview_uncached bio_inv_def buf_ok_def caches_def\<close>)
  show "a_view (cabs s) b = a_disk (cabs s) b" if "b \<notin> a_pins (cabs s)" "b \<notin> ran (a_held (cabs s))"
    using unheld_clean [OF inv] that by (simp add: cabs_def)
  assume i: "a_held (cabs s) i = Some b"
  then have i': "held s i = Some b" by (simp add: cabs_def)
  show "b_data (bufs s i) = a_view (cabs s) b" using held_data [OF inv i'] by (simp add: cabs_def)
  show "\<exists>s'. bwrite i s = Ok s' \<and> bio_inv s' \<and> bio_frame s s' \<and>
        cabs s' = (cabs s)\<lparr>a_disk := (a_disk (cabs s))(b := a_view (cabs s) b),
          a_trace := a_trace (cabs s) @ [(b, a_view (cabs s) b)], a_pins := a_pins (cabs s) - {b}\<rparr>"
    using bwrite_spec [OF inv i'] by (simp add: cabs_def)
  show "\<exists>s'. brelse i s = Ok s' \<and> bio_inv s' \<and> bio_frame s s' \<and>
        cabs s' = (cabs s)\<lparr>a_held := (a_held (cabs s))(i := None)\<rparr>"
    if "b \<in> a_pins (cabs s) \<or> a_view (cabs s) b = a_disk (cabs s) b"
    using brelse_spec [OF inv i'] that by (simp add: cabs_def)
  show "bio_inv (set_data i d s) \<and> bio_frame s (set_data i d s) \<and>
      cabs (set_data i d s) = (cabs s)\<lparr>a_view := (a_view (cabs s))(b := d)\<rparr>"
    if "length d = BSIZE"
    using set_data_spec [OF inv i' that] by (simp add: cabs_def)
next
  fix s :: "'a bio_state_scheme" and b
  assume "bio_inv s" "b < disksize s" "b \<notin> ran (a_held (cabs s))"
    "b \<in> a_pins (cabs s) \<or> card (ran (a_held (cabs s)) \<union> a_pins (cabs s)) < NBUF"
  then show "\<exists>i s'. bread 1 b s = Ok (i, s') \<and> bio_inv s' \<and> a_held (cabs s) i = None \<and> bio_frame s s' \<and>
        cabs s' = (cabs s)\<lparr>a_held := (a_held (cabs s))(i \<mapsto> b)\<rparr>"
    using bread_spec [of s b] by (simp add: cabs_def)
qed (auto intro: bio_frame_trans bio_frame_disksize)

end
