(* ===== verification/Log.thy ===== *)
theory Log imports Bio begin

text \<open>
  The write-ahead log (\<open>log.c\<close>).  A system call brackets its disk writes by \<open>begin_op\<close> and
  \<open>end_op\<close>; \<open>log_write\<close> records a block and pins its buffer; the last \<open>end_op\<close> commits: blocks to
  the log, header, blocks to their homes, empty header.  The theorems show that a crash between any
  two block writes of a commit, or of a recovery, leaves a disk that recovery turns into the one
  before or the one after the transaction.
\<close>

abbreviation (input) MAXOPBLOCKS :: int where "MAXOPBLOCKS \<equiv> 10"
abbreviation (input) LOGSIZE :: int where "LOGSIZE \<equiv> 30"

section \<open>State\<close>

record superblock =
  sb_size :: u32
  sb_nblocks :: u32
  sb_ninodes :: u32
  sb_nlog :: u32
  sb_logstart :: u32
  sb_inodestart :: u32
  sb_bmapstart :: u32

record log_state = bio_state +
  log_start :: u32
  log_size :: int
  log_outstanding :: int
  log_committing :: bool
  log_dev :: u32
  lh_n :: int
  lh_block :: "nat \<Rightarrow> u32"

section \<open>Reading the superblock (\<open>fs.c\<close>) and the log header\<close>

definition dec_super :: "bytes \<Rightarrow> superblock" where
  "dec_super bs = \<lparr>sb_size = get32 0 bs, sb_nblocks = get32 4 bs, sb_ninodes = get32 8 bs,
     sb_nlog = get32 12 bs, sb_logstart = get32 16 bs, sb_inodestart = get32 20 bs,
     sb_bmapstart = get32 24 bs\<rparr>"

definition readsb :: "u32 \<Rightarrow> 'a bio_state_scheme \<Rightarrow> (superblock \<times> 'a bio_state_scheme) res" where
  "readsb dev s =
     rbind (bread dev 1 s) (\<lambda>(bp, s).
     let sb = dec_super (b_data (bufs s bp)) in
     rbind (brelse bp s) (\<lambda>s. Ok (sb, s)))"

text \<open>
  \<open>read_head\<close> trusts the count it finds on the disk; a count above \<open>LOGSIZE\<close> would write outside
  the array \<open>log.lh.block\<close>.
\<close>

definition read_head :: "'a log_state_scheme \<Rightarrow> 'a log_state_scheme res" where
  "read_head s =
     rbind (bread (log_dev s) (log_start s) s) (\<lambda>(b, s).
     let n = sint (get32 0 (b_data (bufs s b))) in
     if LOGSIZE < n then Undefined ''log.lh.block''
     else
       brelse b (s\<lparr>lh_n := n,
         lh_block := (\<lambda>i. if int i < n then get32 (4 + 4 * i) (b_data (bufs s b)) else lh_block s i)\<rparr>))"

definition head_bytes :: "int \<Rightarrow> (nat \<Rightarrow> u32) \<Rightarrow> bytes \<Rightarrow> bytes" where
  "head_bytes n blk bs =
     fold (\<lambda>i. put32 (4 + 4 * i) (blk i)) [0..<nat n] (put32 0 (word_of_int n) bs)"

definition write_head :: "'a log_state_scheme \<Rightarrow> 'a log_state_scheme res" where
  "write_head s =
     rbind (bread (log_dev s) (log_start s) s) (\<lambda>(b, s).
     let s = set_data b (head_bytes (lh_n s) (lh_block s) (b_data (bufs s b))) s in
     rbind (bwrite b s) (\<lambda>s. brelse b s))"

section \<open>Installing and recovering a transaction\<close>

definition install_trans :: "'a log_state_scheme \<Rightarrow> 'a log_state_scheme res" where
  "install_trans s =
     rfold (\<lambda>tail s.
       rbind (bread (log_dev s) (log_start s + word_of_nat tail + 1) s) (\<lambda>(lbuf, s).
       rbind (bread (log_dev s) (lh_block s tail) s) (\<lambda>(dbuf, s).
       rbind (bwrite dbuf (set_data dbuf (b_data (bufs s lbuf)) s)) (\<lambda>s.
       rbind (brelse lbuf s) (\<lambda>s.
       brelse dbuf s)))))
     [0..<nat (lh_n s)] s"

definition recover_from_log :: "'a log_state_scheme \<Rightarrow> 'a log_state_scheme res" where
  "recover_from_log s =
     rbind (read_head s) (\<lambda>s.
     rbind (install_trans s) (\<lambda>s.
     write_head (s\<lparr>lh_n := 0\<rparr>)))"

definition initlog :: "u32 \<Rightarrow> 'a log_state_scheme \<Rightarrow> 'a log_state_scheme res" where
  "initlog dev s =
     (if BSIZE \<le> 4 + 4 * nat LOGSIZE then Panic ''initlog: too big logheader''
      else
        rbind (readsb dev s) (\<lambda>(sb, s).
        recover_from_log (s\<lparr>log_start := sb_logstart sb, log_size := sint (sb_nlog sb),
          log_dev := dev\<rparr>)))"

section \<open>Transactions\<close>

definition begin_op :: "'a log_state_scheme \<Rightarrow> 'a log_state_scheme res" where
  "begin_op s =
     (if log_committing s then Waits
      else if lh_n s + (log_outstanding s + 1) * MAXOPBLOCKS > LOGSIZE then Waits
      else Ok (s\<lparr>log_outstanding := log_outstanding s + 1\<rparr>))"

definition write_log :: "'a log_state_scheme \<Rightarrow> 'a log_state_scheme res" where
  "write_log s =
     rfold (\<lambda>tail s.
       rbind (bread (log_dev s) (log_start s + word_of_nat tail + 1) s) (\<lambda>(to, s).
       rbind (bread (log_dev s) (lh_block s tail) s) (\<lambda>(fr, s).
       rbind (bwrite to (set_data to (b_data (bufs s fr)) s)) (\<lambda>s.
       rbind (brelse fr s) (\<lambda>s.
       brelse to s)))))
     [0..<nat (lh_n s)] s"

definition commit :: "'a log_state_scheme \<Rightarrow> 'a log_state_scheme res" where
  "commit s =
     (if 0 < lh_n s then
        rbind (write_log s) (\<lambda>s.
        rbind (write_head s) (\<lambda>s.
        rbind (install_trans s) (\<lambda>s.
        write_head (s\<lparr>lh_n := 0\<rparr>))))
      else Ok s)"

text \<open>
  \<open>end_op\<close>: the last operation to end commits, without the lock but with \<open>committing\<close> set; another
  one wakes up a \<open>begin_op\<close> that waits for space.
\<close>

definition end_op :: "'a log_state_scheme \<Rightarrow> 'a log_state_scheme res" where
  "end_op s =
     (let s = s\<lparr>log_outstanding := log_outstanding s - 1\<rparr> in
      if log_committing s then Panic ''log.committing''
      else if log_outstanding s = 0 then
        rbind (commit (s\<lparr>log_committing := True\<rparr>)) (\<lambda>s.
        Ok (wakeup ChLog (s\<lparr>log_committing := False\<rparr>)))
      else Ok (wakeup ChLog s))"

text \<open>
  \<open>log_write\<close>: the header slot of the block, a fresh one unless the block is logged already, and
  the pin.  The guards keep the slot index below \<open>LOGSIZE\<close>.
\<close>

definition log_slot :: "u32 \<Rightarrow> 'a log_state_scheme \<Rightarrow> nat" where
  "log_slot b s =
     (case first_index (\<lambda>i. lh_block s i = b) (nat (lh_n s)) of
        Some i \<Rightarrow> i | None \<Rightarrow> nat (lh_n s))"

definition log_write :: "nat \<Rightarrow> 'a log_state_scheme \<Rightarrow> 'a log_state_scheme res" where
  "log_write b s =
     (if lh_n s \<ge> LOGSIZE \<or> lh_n s \<ge> log_size s - 1 then Panic ''too big a transaction''
      else if log_outstanding s < 1 then Panic ''log_write outside of trans''
      else
        let i = log_slot (b_blockno (bufs s b)) s;
            s1 = s\<lparr>lh_block := (lh_block s)(i := b_blockno (bufs s b))\<rparr>;
            s2 = (if int i = lh_n s1 then s1\<lparr>lh_n := lh_n s1 + 1\<rparr> else s1)
        in Ok (set_dirty b s2))"

section \<open>Writes to the disk\<close>

text \<open>
  The effect of a list of block writes on a disk image, and on the cache as its clients see it:
  the view follows the disk and a written block is no longer pinned.
\<close>

definition apply_writes :: "(u32 \<times> bytes) list \<Rightarrow> (u32 \<Rightarrow> bytes) \<Rightarrow> (u32 \<Rightarrow> bytes)" where
  "apply_writes ws d = fold (\<lambda>(b, x) d. d(b := x)) ws d"

definition abs_writes :: "(u32 \<times> bytes) list \<Rightarrow> cache_abs \<Rightarrow> cache_abs" where
  "abs_writes ws a = a\<lparr>a_disk := apply_writes ws (a_disk a), a_view := apply_writes ws (a_view a),
     a_trace := a_trace a @ ws, a_pins := a_pins a - fst ` set ws\<rparr>"

lemma apply_writes_simps [simp]:
  "apply_writes [] d = d" "apply_writes ((b, x) # ws) d = apply_writes ws (d(b := x))"
  "apply_writes (ws @ ws') d = apply_writes ws' (apply_writes ws d)"
  by (simp_all add: apply_writes_def)

lemma apply_writes_other: "b \<notin> fst ` set ws \<Longrightarrow> apply_writes ws d b = d b"
  by (induction ws arbitrary: d) auto

lemma apply_writes_map_of:
  "apply_writes ws d b = (case map_of (rev ws) b of Some x \<Rightarrow> x | None \<Rightarrow> d b)"
  by (induction ws arbitrary: d) (auto simp: map_add_def split: option.splits)

lemma apply_writes_in:
  assumes "distinct (map fst ws)" and "(b, x) \<in> set ws"
  shows "apply_writes ws d b = x"
proof -
  from assms(2) obtain us vs where ws: "ws = us @ (b, x) # vs" by (meson split_list)
  then have "b \<notin> fst ` set vs" using assms(1) by auto
  then show ?thesis by (simp add: ws apply_writes_other)
qed

lemma abs_writes_simps [simp]:
  "a_disk (abs_writes ws a) = apply_writes ws (a_disk a)"
  "a_view (abs_writes ws a) = apply_writes ws (a_view a)"
  "a_trace (abs_writes ws a) = a_trace a @ ws" "a_held (abs_writes ws a) = a_held a"
  "a_pins (abs_writes ws a) = a_pins a - fst ` set ws"
  "abs_writes [] a = a" "abs_writes ws' (abs_writes ws a) = abs_writes (ws @ ws') a"
  by (simp_all add: abs_writes_def image_Un Diff_Un Diff_Int2 set_diff_eq)

section \<open>The log area and the log's invariant\<close>

definition lblk :: "u32 \<Rightarrow> nat \<Rightarrow> u32" where
  "lblk st i = st + word_of_nat i + 1"

definition log_area :: "u32 \<Rightarrow> u32 set" where
  "log_area st = insert st (lblk st ` {..<29})"

lemma unat_lblk:
  assumes "unat st + 30 \<le> unat (n :: u32)" and "i < 29"
  shows "unat (lblk st i) = unat st + i + 1"
proof -
  have "unat n < 2 ^ LENGTH(32)" by (rule unsigned_less)
  with assms show ?thesis by (simp add: lblk_def unat_word_ariths unat_of_nat)
qed

lemma lblk_neq [simp]:
  assumes "unat st + 30 \<le> unat (n :: u32)" and "i < 29"
  shows "lblk st i \<noteq> st" "lblk st i < n" "j < 29 \<Longrightarrow> lblk st i = lblk st j \<longleftrightarrow> i = j"
    "lblk st i \<in> log_area st"
proof -
  note u = unat_lblk [OF assms(1)]
  show "lblk st i \<noteq> st" using u [OF assms(2)] by auto
  show "lblk st i < n" using u [OF assms(2)] assms by (simp add: word_less_nat_alt)
  show "lblk st i = lblk st j \<longleftrightarrow> i = j" if "j < 29"
  proof
    assume "lblk st i = lblk st j"
    then have "unat (lblk st i) = unat (lblk st j)" by (rule arg_cong)
    then show "i = j" unfolding u [OF assms(2)] u [OF that] by simp
  qed simp
  show "lblk st i \<in> log_area st" using assms(2) by (simp add: log_area_def)
qed

lemma start_in_log_area [simp]: "st \<in> log_area st"
  by (simp add: log_area_def)

text \<open>
  A block that a transaction may write: on the disk, outside the log and not the superblock.
\<close>

definition data_block :: "u32 \<Rightarrow> u32 \<Rightarrow> u32 \<Rightarrow> bool" where
  "data_block st nb b \<longleftrightarrow> b \<notin> log_area st \<and> b \<noteq> 1 \<and> b < nb"

definition log_geometry :: "'a log_state_scheme \<Rightarrow> bool" where
  "log_geometry s \<longleftrightarrow> log_dev s = 1 \<and> log_size s = 30 \<and> 1 < log_start s \<and>
     unat (log_start s) + 30 \<le> unat (disksize s)"

definition logged :: "'a log_state_scheme \<Rightarrow> u32 list" where
  "logged s = map (lh_block s) [0..<nat (lh_n s)]"

definition log_ok :: "'a log_state_scheme \<Rightarrow> bool" where
  "log_ok s \<longleftrightarrow> bio_inv s \<and> log_geometry s \<and> 0 \<le> lh_n s \<and> lh_n s \<le> 29 \<and>
     distinct (logged s) \<and> (\<forall>b\<in>set (logged s). data_block (log_start s) (disksize s) b) \<and>
     pins s = set (logged s) \<and> get32 0 (memdisk s (log_start s)) = 0"

lemma log_frame:
  assumes "bio_frame s s'"
  shows "log_start s' = log_start s" "log_size s' = log_size s" "log_dev s' = log_dev s"
    "lh_n s' = lh_n s" "lh_block s' = lh_block s" "log_outstanding s' = log_outstanding s"
    "log_committing s' = log_committing s" "logged s' = logged s"
    "log_geometry s' = log_geometry s"
  using assms by (auto elim!: bio_frameE simp: logged_def log_geometry_def)

lemma log_upd_bio [simp]:
  "bio_inv (s\<lparr>lh_n := n\<rparr>) = bio_inv s" "bio_inv (s\<lparr>lh_block := bl\<rparr>) = bio_inv s"
  "bio_inv (s\<lparr>log_outstanding := k\<rparr>) = bio_inv s" "bio_inv (s\<lparr>log_committing := c\<rparr>) = bio_inv s"
  "bio_inv (s\<lparr>log_start := w\<rparr>) = bio_inv s" "bio_inv (s\<lparr>log_size := k\<rparr>) = bio_inv s"
  "bio_inv (s\<lparr>log_dev := w\<rparr>) = bio_inv s"
  by (simp_all add: bio_inv_def caches_def buf_ok_def mypid_def myproc_def)

lemma log_upd_view [simp]:
  "caches (s\<lparr>lh_n := n\<rparr>) = caches s"
  "caches (s\<lparr>lh_block := bl\<rparr>) = caches s"
  "caches (s\<lparr>log_outstanding := k\<rparr>) = caches s"
  "caches (s\<lparr>log_committing := c\<rparr>) = caches s"
  "caches (s\<lparr>log_start := w\<rparr>) = caches s"
  "caches (s\<lparr>log_size := k\<rparr>) = caches s"
  "caches (s\<lparr>log_dev := w\<rparr>) = caches s"
  "cview (s\<lparr>lh_n := n\<rparr>) = cview s"
  "cview (s\<lparr>lh_block := bl\<rparr>) = cview s"
  "cview (s\<lparr>log_outstanding := k\<rparr>) = cview s"
  "cview (s\<lparr>log_committing := c\<rparr>) = cview s"
  "cview (s\<lparr>log_start := w\<rparr>) = cview s"
  "cview (s\<lparr>log_size := k\<rparr>) = cview s"
  "cview (s\<lparr>log_dev := w\<rparr>) = cview s"
  "pins (s\<lparr>lh_n := n\<rparr>) = pins s"
  "pins (s\<lparr>lh_block := bl\<rparr>) = pins s"
  "pins (s\<lparr>log_outstanding := k\<rparr>) = pins s"
  "pins (s\<lparr>log_committing := c\<rparr>) = pins s"
  "pins (s\<lparr>log_start := w\<rparr>) = pins s"
  "pins (s\<lparr>log_size := k\<rparr>) = pins s"
  "pins (s\<lparr>log_dev := w\<rparr>) = pins s"
  "held (s\<lparr>lh_n := n\<rparr>) = held s"
  "held (s\<lparr>lh_block := bl\<rparr>) = held s"
  "held (s\<lparr>log_outstanding := k\<rparr>) = held s"
  "held (s\<lparr>log_committing := c\<rparr>) = held s"
  "held (s\<lparr>log_start := w\<rparr>) = held s"
  "held (s\<lparr>log_size := k\<rparr>) = held s"
  "held (s\<lparr>log_dev := w\<rparr>) = held s"
  by (simp_all add: fun_eq_iff cview_def pins_def held_def caches_def [abs_def] cong: option.case_cong)

lemma log_upd_cabs [simp]:
  "cabs (s\<lparr>lh_n := n\<rparr>) = cabs s" "cabs (s\<lparr>lh_block := bl\<rparr>) = cabs s"
  "cabs (s\<lparr>log_outstanding := k\<rparr>) = cabs s" "cabs (s\<lparr>log_committing := c\<rparr>) = cabs s"
  "cabs (s\<lparr>log_start := w\<rparr>) = cabs s" "cabs (s\<lparr>log_size := k\<rparr>) = cabs s"
  "cabs (s\<lparr>log_dev := w\<rparr>) = cabs s"
  by (rule cabs_cong; simp)+

lemma cabs_sel [simp]:
  "a_disk (cabs s) = memdisk s" "a_view (cabs s) = cview s" "a_pins (cabs s) = pins s"
  "a_trace (cabs s) = disk_trace s" "a_held (cabs s) = held s"
  by (simp_all add: cabs_def)

section \<open>Each phase of a commit as disk writes\<close>

lemma write_head_spec:
  assumes inv: "bio_inv s" and h: "held s = Map.empty" and dev: "log_dev s = 1"
    and b: "log_start s < disksize s" "log_start s \<notin> pins s" "card (pins s) < NBUF"
    and len: "\<And>bs. length bs = BSIZE \<Longrightarrow> length (head_bytes (lh_n s) (lh_block s) bs) = BSIZE"
  shows "\<exists>s'. write_head s = Ok s' \<and> bio_inv s' \<and> bio_frame s s' \<and>
    cabs s' = abs_writes [(log_start s, head_bytes (lh_n s) (lh_block s) (cview s (log_start s)))] (cabs s)"
proof -
  let ?b = "log_start s"
  let ?d = "head_bytes (lh_n s) (lh_block s) (cview s ?b)"
  from cache.rd [OF inv b(1)] h b(3) obtain i s1 where 1: "bread 1 ?b s = Ok (i, s1)" "bio_inv s1"
    "bio_frame s s1" "cabs s1 = (cabs s)\<lparr>a_held := [i \<mapsto> ?b]\<rparr>" by auto
  have h1: "held s1 = [i \<mapsto> ?b]" "cview s1 = cview s" using 1(4) by (simp_all add: cabs_def)
  then have dat: "b_data (bufs s1 i) = cview s ?b" using cache.data [OF 1(2), of i ?b] by simp
  have "length (cview s ?b) = BSIZE" using cache.view_length [OF inv] by simp
  then have "length ?d = BSIZE" by (rule len)
  with cache.put_wr [OF 1(2), of i ?b ?d] h1 obtain s2 where 2: "bwrite i (set_data i ?d s1) = Ok s2"
    "bio_inv s2" "bio_frame s1 s2" "cabs s2 = (cabs s1)\<lparr>a_view := (a_view (cabs s1))(?b := ?d),
      a_disk := (a_disk (cabs s1))(?b := ?d), a_trace := a_trace (cabs s1) @ [(?b, ?d)],
      a_pins := a_pins (cabs s1) - {?b}\<rparr>" by auto
  have h2: "a_held (cabs s2) = [i \<mapsto> ?b]" "a_view (cabs s2) ?b = a_disk (cabs s2) ?b"
    using h1 2(4) by simp_all
  from cache.rel [OF 2(2), of i ?b] h2 obtain s3 where 3: "brelse i s2 = Ok s3" "bio_inv s3"
    "bio_frame s2 s3" "cabs s3 = (cabs s2)\<lparr>a_held := Map.empty\<rparr>" by auto
  have "bio_frame s s3" using 1(3) 2(3) 3(3) bio_frame_trans by blast
  moreover have "write_head s = Ok s3"
    using dev 1(1) 2(1) 3(1) dat log_frame [OF 1(3)] by (simp add: write_head_def Let_def)
  moreover have "cabs s3 = abs_writes [(?b, ?d)] (cabs s)"
    by (rule cache_abs.equality) (use h in \<open>simp_all del: cabs_sel add: 3(4) 2(4) 1(4), simp_all\<close>)
  ultimately show ?thesis using 3(2) by blast
qed

text \<open>One iteration of \<open>write_log\<close> and of \<open>install_trans\<close>.\<close>

lemma write_log_step:
  assumes inv: "bio_inv s" and h: "held s = Map.empty" and dev: "log_dev s = 1"
    and a: "lblk (log_start s) k < disksize s" "card (pins s) < NBUF"
    and b: "lh_block s k < disksize s" "lh_block s k \<in> pins s" "lblk (log_start s) k \<noteq> lh_block s k"
  shows "\<exists>i s1 j s2 s3 s4 s'. bread (log_dev s) (log_start s + word_of_nat k + 1) s = Ok (i, s1) \<and>
    bread (log_dev s1) (lh_block s1 k) s1 = Ok (j, s2) \<and>
    bwrite i (set_data i (b_data (bufs s2 j)) s2) = Ok s3 \<and> brelse j s3 = Ok s4 \<and> brelse i s4 = Ok s' \<and>
    bio_inv s' \<and> bio_frame s s' \<and>
    cabs s' = abs_writes [(lblk (log_start s) k, cview s (lh_block s k))] (cabs s)"
proof -
  let ?a = "lblk (log_start s) k" and ?b = "lh_block s k"
  from cache.two_reads [OF inv _ a(1) b(1,3)] h a(2) b(2) obtain i j s1 s2 where
    1: "bread 1 ?a s = Ok (i, s1)" "bread 1 ?b s1 = Ok (j, s2)" "i \<noteq> j" "bio_inv s2" "bio_frame s s1"
    "bio_frame s s2" "cabs s2 = (cabs s)\<lparr>a_held := [i \<mapsto> ?a, j \<mapsto> ?b]\<rparr>" by auto
  have ne: "j \<noteq> i" "?b \<noteq> ?a" using 1(3) b(3) by auto
  have h2: "a_held (cabs s2) = [j \<mapsto> ?b, i \<mapsto> ?a]"
    unfolding 1(7) using fun_upd_twist [OF 1(3), of Map.empty] by simp
  have p: "?b \<in> a_pins (cabs s2)" using b(2) by (simp only: 1(7)) simp
  from cache.finish_copy [OF 1(4) h2 ne] p obtain s3 s4 s' where
    2: "bwrite i (set_data i (b_data (bufs s2 j)) s2) = Ok s3" "brelse j s3 = Ok s4" "brelse i s4 = Ok s'"
    "bio_inv s'" "bio_frame s2 s'" "cabs s' = (cabs s2)\<lparr>a_held := Map.empty,
      a_view := (a_view (cabs s2))(?a := a_view (cabs s2) ?b), a_disk := (a_disk (cabs s2))(?a := a_view (cabs s2) ?b),
      a_trace := a_trace (cabs s2) @ [(?a, a_view (cabs s2) ?b)], a_pins := a_pins (cabs s2) - {?a}\<rparr>"
    by blast
  have "cabs s' = abs_writes [(?a, cview s ?b)] (cabs s)"
    by (rule cache_abs.equality) (use h in \<open>simp_all del: cabs_sel add: 2(6) 1(7), simp_all\<close>)
  moreover have "bio_frame s s'" using bio_frame_trans [OF 1(6) 2(5)] .
  ultimately show ?thesis using 1 2 dev log_frame [OF 1(5)] unfolding lblk_def by (intro exI) auto
qed

lemma install_step:
  assumes inv: "bio_inv s" and h: "held s = Map.empty" and dev: "log_dev s = 1"
    and a: "lblk (log_start s) k < disksize s" "card (pins s) < NBUF" "lblk (log_start s) k \<notin> pins s"
      "lh_block s k \<in> pins s \<or> pins s = {}"
    and b: "lh_block s k < disksize s" "lblk (log_start s) k \<noteq> lh_block s k"
  shows "\<exists>i s1 j s2 s3 s4 s'. bread (log_dev s) (log_start s + word_of_nat k + 1) s = Ok (i, s1) \<and>
    bread (log_dev s1) (lh_block s1 k) s1 = Ok (j, s2) \<and>
    bwrite j (set_data j (b_data (bufs s2 i)) s2) = Ok s3 \<and> brelse i s3 = Ok s4 \<and> brelse j s4 = Ok s' \<and>
    bio_inv s' \<and> bio_frame s s' \<and>
    cabs s' = abs_writes [(lh_block s k, cview s (lblk (log_start s) k))] (cabs s)"
proof -
  let ?a = "lblk (log_start s) k" and ?b = "lh_block s k"
  have "?b \<in> pins s \<or> card (insert ?a (pins s)) < NBUF" using a(4) by auto
  with cache.two_reads [OF inv _ a(1) b(1,2)] h a(2) obtain i j s1 s2 where
    1: "bread 1 ?a s = Ok (i, s1)" "bread 1 ?b s1 = Ok (j, s2)" "i \<noteq> j" "bio_inv s2" "bio_frame s s1"
    "bio_frame s s2" "cabs s2 = (cabs s)\<lparr>a_held := [i \<mapsto> ?a, j \<mapsto> ?b]\<rparr>" by auto
  have h2: "a_held (cabs s2) = [i \<mapsto> ?a, j \<mapsto> ?b]" unfolding 1(7) by simp
  have "cview s ?a = memdisk s ?a" using unheld_clean [OF inv a(3)] h by simp
  then have p: "a_view (cabs s2) ?a = a_disk (cabs s2) ?a" by (simp only: 1(7)) simp
  from cache.finish_copy [OF 1(4) h2 1(3) b(2)] p obtain s3 s4 s' where
    2: "bwrite j (set_data j (b_data (bufs s2 i)) s2) = Ok s3" "brelse i s3 = Ok s4" "brelse j s4 = Ok s'"
    "bio_inv s'" "bio_frame s2 s'" "cabs s' = (cabs s2)\<lparr>a_held := Map.empty,
      a_view := (a_view (cabs s2))(?b := a_view (cabs s2) ?a), a_disk := (a_disk (cabs s2))(?b := a_view (cabs s2) ?a),
      a_trace := a_trace (cabs s2) @ [(?b, a_view (cabs s2) ?a)], a_pins := a_pins (cabs s2) - {?b}\<rparr>"
    by blast
  have "cabs s' = abs_writes [(?b, cview s ?a)] (cabs s)"
    by (rule cache_abs.equality) (use h in \<open>simp_all del: cabs_sel add: 2(6) 1(7), simp_all\<close>)
  moreover have "bio_frame s s'" using bio_frame_trans [OF 1(6) 2(5)] .
  ultimately show ?thesis using 1 2 dev log_frame [OF 1(5)] unfolding lblk_def by (intro exI) auto
qed

definition log_copies :: "'a log_state_scheme \<Rightarrow> (u32 \<times> bytes) list" where
  "log_copies s = map (\<lambda>k. (lblk (log_start s) k, cview s (lh_block s k))) [0..<nat (lh_n s)]"

definition home_copies :: "'a log_state_scheme \<Rightarrow> (u32 \<times> bytes) list" where
  "home_copies s = map (\<lambda>k. (lh_block s k, cview s (lblk (log_start s) k))) [0..<nat (lh_n s)]"

text \<open>What a loop of block copies needs of the logged blocks.\<close>

definition copy_pre :: "'a log_state_scheme \<Rightarrow> bool" where
  "copy_pre s \<longleftrightarrow> bio_inv s \<and> held s = Map.empty \<and> log_geometry s \<and> lh_n s \<le> 29 \<and>
     finite (pins s) \<and> card (pins s) \<le> 29 \<and> pins s \<inter> log_area (log_start s) = {} \<and>
     (\<forall>b\<in>set (logged s). data_block (log_start s) (disksize s) b)"

lemma logged_nth: "k < nat (lh_n s) \<Longrightarrow> lh_block s k \<in> set (logged s)"
  by (simp add: logged_def)

lemma write_log_spec:
  assumes pre: "copy_pre s" and pins: "set (logged s) \<subseteq> pins s"
  shows "\<exists>s'. write_log s = Ok s' \<and> bio_inv s' \<and> bio_frame s s' \<and> cabs s' = abs_writes (log_copies s) (cabs s)"
proof -
  define n where "n = nat (lh_n s)"
  define P where "P k s' \<longleftrightarrow> bio_inv s' \<and> bio_frame s s' \<and> cabs s' = abs_writes (take k (log_copies s)) (cabs s)"
    for k s'
  have inv: "bio_inv s" and h: "held s = Map.empty" and geo: "log_geometry s" and n: "n \<le> 29"
    and fin: "card (pins s) \<le> 29" "pins s \<inter> log_area (log_start s) = {}"
    and dat: "\<And>b. b \<in> set (logged s) \<Longrightarrow> data_block (log_start s) (disksize s) b"
    using pre by (auto simp: copy_pre_def n_def)
  have st: "unat (log_start s) + 30 \<le> unat (disksize s)" and dev: "log_dev s = 1"
    using geo by (auto simp: log_geometry_def)
  have areas: "fst ` set (take k (log_copies s)) \<subseteq> log_area (log_start s)" for k
    using set_take_subset [of k "log_copies s"] n st by (auto simp: log_copies_def n_def)
  have "\<exists>s'. rfold (\<lambda>tail s.
       rbind (bread (log_dev s) (log_start s + word_of_nat tail + 1) s) (\<lambda>(to, s).
       rbind (bread (log_dev s) (lh_block s tail) s) (\<lambda>(fr, s).
       rbind (bwrite to (set_data to (b_data (bufs s fr)) s)) (\<lambda>s.
       rbind (brelse fr s) (\<lambda>s.
       brelse to s))))) [0..<n] s = Ok s' \<and> P n s'"
  proof (rule rfold_inv)
    show "P 0 s" using inv by (simp add: P_def)
  next
    fix k t
    assume k: "k < n" and "P k t"
    then have t: "bio_inv t" "bio_frame s t" "cabs t = abs_writes (take k (log_copies s)) (cabs s)"
      by (auto simp: P_def)
    note fr = log_frame [OF t(2)] bio_frame_disksize [OF t(2)]
    let ?a = "lblk (log_start t) k" and ?b = "lh_block t k"
    have "?b \<in> set (logged s)" using k logged_nth [of k s] by (simp add: fr n_def)
    then have b: "?b < disksize t" "?b \<in> pins s" "?b \<notin> log_area (log_start s)"
      using dat [of ?b] pins by (auto simp: data_block_def fr)
    have "?b \<notin> fst ` set (take k (log_copies s))" using areas [of k] b(3) by blast
    then have "held t = held s" "pins t = pins s - fst ` set (take k (log_copies s))"
      "cview t ?b = cview s ?b"
      using arg_cong [OF t(3), of a_held] arg_cong [OF t(3), of a_pins] arg_cong [OF t(3), of a_view]
      by (simp_all add: apply_writes_other)
    moreover from this have "pins t = pins s" using areas [of k] fin(2) by auto
    moreover have "?a \<in> log_area (log_start s)" "?a < disksize t"
      using st k n by (simp_all add: fr)
    moreover from this(1) have "?a \<noteq> ?b" using b(3) by metis
    ultimately have "\<exists>i s1 j s2 s3 s4 s'. bread (log_dev t) (log_start t + word_of_nat k + 1) t = Ok (i, s1) \<and>
      bread (log_dev s1) (lh_block s1 k) s1 = Ok (j, s2) \<and>
      bwrite i (set_data i (b_data (bufs s2 j)) s2) = Ok s3 \<and> brelse j s3 = Ok s4 \<and> brelse i s4 = Ok s' \<and>
      bio_inv s' \<and> bio_frame t s' \<and> cabs s' = abs_writes [(?a, cview s ?b)] (cabs t)"
      using write_log_step [OF t(1), of k] h dev b fin(1) by (auto simp: fr)
    moreover have "take (Suc k) (log_copies s) = take k (log_copies s) @ [(?a, cview s ?b)]"
      using k by (simp add: log_copies_def n_def take_Suc_conv_app_nth fr)
    ultimately show "\<exists>s'. rbind (bread (log_dev t) (log_start t + word_of_nat k + 1) t) (\<lambda>(to, s).
       rbind (bread (log_dev s) (lh_block s k) s) (\<lambda>(fr, s).
       rbind (bwrite to (set_data to (b_data (bufs s fr)) s)) (\<lambda>s.
       rbind (brelse fr s) (\<lambda>s.
       brelse to s)))) = Ok s' \<and> P (Suc k) s'"
      using t bio_frame_trans [OF t(2)] by (fastforce simp: P_def)
  qed
  moreover have "take n (log_copies s) = log_copies s" by (simp add: log_copies_def n_def)
  ultimately show ?thesis unfolding write_log_def P_def n_def by auto
qed

lemma install_spec:
  assumes pre: "copy_pre s" and pins: "pins s = {} \<or> pins s = set (logged s) \<and> distinct (logged s)"
  shows "\<exists>s'. install_trans s = Ok s' \<and> bio_inv s' \<and> bio_frame s s' \<and> cabs s' = abs_writes (home_copies s) (cabs s)"
proof -
  define n where "n = nat (lh_n s)"
  define P where "P k s' \<longleftrightarrow> bio_inv s' \<and> bio_frame s s' \<and> cabs s' = abs_writes (take k (home_copies s)) (cabs s)"
    for k s'
  have inv: "bio_inv s" and h: "held s = Map.empty" and geo: "log_geometry s" and n: "n \<le> 29"
    and fin: "finite (pins s)" "card (pins s) \<le> 29" "pins s \<inter> log_area (log_start s) = {}"
    and dat: "\<And>b. b \<in> set (logged s) \<Longrightarrow> data_block (log_start s) (disksize s) b"
    using pre by (auto simp: copy_pre_def n_def)
  have st: "unat (log_start s) + 30 \<le> unat (disksize s)" and dev: "log_dev s = 1"
    using geo by (auto simp: log_geometry_def)
  have homes: "fst ` set (take k (home_copies s)) = lh_block s ` {..<k}" if "k \<le> n" for k
  proof -
    have "map fst (take k (home_copies s)) = map (lh_block s) [0..<k]"
      using that by (simp add: home_copies_def n_def take_map)
    from arg_cong [OF this, of set] show ?thesis by (simp add: atLeast0LessThan)
  qed
  have data: "data_block (log_start s) (disksize s) (lh_block s k)" if "k < n" for k
    using that logged_nth [of k s] dat by (simp add: n_def)
  have "\<exists>s'. rfold (\<lambda>tail s.
       rbind (bread (log_dev s) (log_start s + word_of_nat tail + 1) s) (\<lambda>(lbuf, s).
       rbind (bread (log_dev s) (lh_block s tail) s) (\<lambda>(dbuf, s).
       rbind (bwrite dbuf (set_data dbuf (b_data (bufs s lbuf)) s)) (\<lambda>s.
       rbind (brelse lbuf s) (\<lambda>s.
       brelse dbuf s))))) [0..<n] s = Ok s' \<and> P n s'"
  proof (rule rfold_inv)
    show "P 0 s" using inv by (simp add: P_def)
  next
    fix k t
    assume k: "k < n" and "P k t"
    then have t: "bio_inv t" "bio_frame s t" "cabs t = abs_writes (take k (home_copies s)) (cabs s)"
      by (auto simp: P_def)
    note fr = log_frame [OF t(2)] bio_frame_disksize [OF t(2)]
    let ?a = "lblk (log_start t) k" and ?b = "lh_block t k"
    have dn: "fst ` set (take k (home_copies s)) = lh_block s ` {..<k}" using k homes by simp
    have a: "?a \<in> log_area (log_start s)" "?a < disksize t" using st k n by (simp_all add: fr)
    have b: "?b < disksize t" "?b \<notin> log_area (log_start s)"
      using data [OF k] by (auto simp: data_block_def fr)
    have "?a \<notin> fst ` set (take k (home_copies s))"
      using a(1) data k by (auto simp: dn data_block_def)
    then have "held t = held s" and pt: "pins t = pins s - lh_block s ` {..<k}" and v: "cview t ?a = cview s ?a"
      using arg_cong [OF t(3), of a_held] arg_cong [OF t(3), of a_pins] arg_cong [OF t(3), of a_view] dn
      by (simp_all add: apply_writes_other)
    have "?b \<in> pins t \<or> pins t = {}"
      using pins
    proof
      assume p: "pins s = set (logged s) \<and> distinct (logged s)"
      have "lh_block s k \<notin> lh_block s ` {..<k}"
      proof
        assume "lh_block s k \<in> lh_block s ` {..<k}"
        then obtain j where "j < k" "lh_block s j = lh_block s k" by auto
        then have "logged s ! j = logged s ! k" "j < length (logged s)" "k < length (logged s)" "j \<noteq> k"
          using k by (auto simp: logged_def n_def)
        with p show False by (simp add: nth_eq_iff_index_eq)
      qed
      then show ?thesis using p logged_nth [of k s] k by (simp add: pt fr n_def)
    qed (simp add: pt)
    moreover have "card (pins t) < NBUF" using card_mono [of "pins s" "pins t"] fin by (simp add: pt)
    moreover have "?a \<notin> pins t" using a(1) fin(3) by (auto simp: pt)
    moreover have "?a \<noteq> ?b" using a(1) b(2) by metis
    ultimately have "\<exists>i s1 j s2 s3 s4 s'. bread (log_dev t) (log_start t + word_of_nat k + 1) t = Ok (i, s1) \<and>
      bread (log_dev s1) (lh_block s1 k) s1 = Ok (j, s2) \<and>
      bwrite j (set_data j (b_data (bufs s2 i)) s2) = Ok s3 \<and> brelse i s3 = Ok s4 \<and> brelse j s4 = Ok s' \<and>
      bio_inv s' \<and> bio_frame t s' \<and> cabs s' = abs_writes [(?b, cview t ?a)] (cabs t)"
      using install_step [OF t(1), of k] h \<open>held t = held s\<close> a(2) b(1) dev by (simp add: fr)
    moreover have "take (Suc k) (home_copies s) = take k (home_copies s) @ [(?b, cview t ?a)]"
      using k v by (simp add: home_copies_def n_def take_Suc_conv_app_nth fr)
    ultimately show "\<exists>s'. rbind (bread (log_dev t) (log_start t + word_of_nat k + 1) t) (\<lambda>(lbuf, s).
       rbind (bread (log_dev s) (lh_block s k) s) (\<lambda>(dbuf, s).
       rbind (bwrite dbuf (set_data dbuf (b_data (bufs s lbuf)) s)) (\<lambda>s.
       rbind (brelse lbuf s) (\<lambda>s.
       brelse dbuf s)))) = Ok s' \<and> P (Suc k) s'"
      using t bio_frame_trans [OF t(2)] by (fastforce simp: P_def)
  qed
  moreover have "take n (home_copies s) = home_copies s" by (simp add: home_copies_def n_def)
  ultimately show ?thesis unfolding install_trans_def P_def n_def by auto
qed

section \<open>The header block\<close>

lemma head_bytes_inv:
  assumes "length bs = BSIZE" and "n \<le> 29"
  shows "length (fold (\<lambda>i. put32 (4 + 4 * i) (blk i)) [0..<n] bs) = BSIZE \<and>
    get32 0 (fold (\<lambda>i. put32 (4 + 4 * i) (blk i)) [0..<n] bs) = get32 0 bs \<and>
    (\<forall>i<n. get32 (4 + 4 * i) (fold (\<lambda>i. put32 (4 + 4 * i) (blk i)) [0..<n] bs) = blk i)"
  using assms(2)
proof (induction n)
  case (Suc n)
  then show ?case by (auto simp: get32_put32_other less_Suc_eq)
qed (simp add: assms(1))

lemma head_bytes:
  assumes "length bs = BSIZE" and "n \<le> 29"
  shows "length (head_bytes n blk bs) = BSIZE" "get32 0 (head_bytes n blk bs) = word_of_int n"
    "int i < n \<Longrightarrow> get32 (4 + 4 * i) (head_bytes n blk bs) = blk i"
  using assms head_bytes_inv [of "put32 0 (word_of_int n) bs" "nat n" blk]
  by (simp_all add: head_bytes_def)

lemma head_bytes_0: "head_bytes 0 blk bs = put32 0 0 bs"
  by (simp add: head_bytes_def)

lemma sint_small: "0 \<le> n \<Longrightarrow> n \<le> 29 \<Longrightarrow> sint (word_of_int n :: u32) = n"
  by (simp add: sint_sbintrunc' signed_take_bit_int_eq_self)

section \<open>Recovery\<close>

text \<open>The transaction that a header block on the disk describes, and the writes that replay it.\<close>

definition head_count :: "u32 \<Rightarrow> (u32 \<Rightarrow> bytes) \<Rightarrow> int" where
  "head_count st d = sint (get32 0 (d st))"

definition head_home :: "u32 \<Rightarrow> (u32 \<Rightarrow> bytes) \<Rightarrow> nat \<Rightarrow> u32" where
  "head_home st d i = get32 (4 + 4 * i) (d st)"

definition recover_writes :: "u32 \<Rightarrow> (u32 \<Rightarrow> bytes) \<Rightarrow> (u32 \<times> bytes) list" where
  "recover_writes st d =
     map (\<lambda>i. (head_home st d i, d (lblk st i))) [0..<nat (head_count st d)] @ [(st, put32 0 0 (d st))]"

definition head_ok :: "u32 \<Rightarrow> u32 \<Rightarrow> (u32 \<Rightarrow> bytes) \<Rightarrow> bool" where
  "head_ok st nb d \<longleftrightarrow> head_count st d \<le> 29 \<and>
     (\<forall>i<nat (head_count st d). data_block st nb (head_home st d i))"

lemma bio_frame_log_upd:
  assumes "bio_frame s s'"
  shows "bio_frame (s\<lparr>lh_n := n, lh_block := bl\<rparr>) (s'\<lparr>lh_n := n, lh_block := bl\<rparr>)"
    and "bio_frame (s\<lparr>lh_n := n\<rparr>) (s'\<lparr>lh_n := n\<rparr>)"
proof -
  from assms obtain P D T B N V where
    s': "s' = s\<lparr>procs := P, memdisk := D, disk_trace := T, bufs := B, bnext := N, bprev := V\<rparr>"
    and P: "\<And>i. state_only (procs s i) (P i)"
    unfolding bio_frame_def by blast
  show "bio_frame (s\<lparr>lh_n := n, lh_block := bl\<rparr>) (s'\<lparr>lh_n := n, lh_block := bl\<rparr>)"
    and "bio_frame (s\<lparr>lh_n := n\<rparr>) (s'\<lparr>lh_n := n\<rparr>)"
    by (rule bio_frameI [where P = P and D = D and T = T and B = B and N = N and V = V]; use P s' in simp)+
qed

lemma read_head_spec:
  assumes inv: "bio_inv s" and h: "held s = Map.empty" and geo: "log_geometry s" and p: "pins s = {}"
    and n: "head_count (log_start s) (memdisk s) \<le> LOGSIZE"
  shows "\<exists>s' bl. read_head s = Ok s' \<and> bio_inv s' \<and> cabs s' = cabs s \<and>
    bio_frame (s\<lparr>lh_n := head_count (log_start s) (memdisk s), lh_block := bl\<rparr>) s' \<and>
    (\<forall>i < nat (lh_n s'). lh_block s' i = head_home (log_start s) (memdisk s) i)"
proof -
  let ?st = "log_start s" and ?n = "head_count (log_start s) (memdisk s)"
  have dev: "log_dev s = 1" and st: "?st < disksize s"
    using geo by (auto simp: log_geometry_def word_less_nat_alt)
  from cache.rd [OF inv st] h p obtain i s1 where 1: "bread 1 ?st s = Ok (i, s1)" "bio_inv s1"
    "bio_frame s s1" "cabs s1 = (cabs s)\<lparr>a_held := [i \<mapsto> ?st]\<rparr>" by auto
  have h1: "held s1 = [i \<mapsto> ?st]" "cview s1 = cview s" "memdisk s1 = memdisk s" "pins s1 = pins s"
    using arg_cong [OF 1(4), of a_held] arg_cong [OF 1(4), of a_view] arg_cong [OF 1(4), of a_disk]
      arg_cong [OF 1(4), of a_pins] by simp_all
  have cl: "cview s ?st = memdisk s ?st" using unheld_clean [OF inv] h p by simp
  then have dat: "b_data (bufs s1 i) = memdisk s ?st" using cache.data [OF 1(2), of i ?st] h1 by simp
  define bl where "bl = (\<lambda>j. if int j < ?n then head_home ?st (memdisk s) j else lh_block s1 j)"
  define t where "t = s1\<lparr>lh_n := ?n, lh_block := bl\<rparr>"
  have t: "bio_inv t" "cabs t = cabs s1" using 1(2) by (simp_all add: t_def)
  have "a_held (cabs t) i = Some ?st" "a_view (cabs t) ?st = a_disk (cabs t) ?st"
    unfolding t(2) using h1 cl by simp_all
  with cache.rel [OF t(1), of i ?st] obtain s2 where 2: "brelse i t = Ok s2" "bio_inv s2" "bio_frame t s2"
    "cabs s2 = (cabs t)\<lparr>a_held := (a_held (cabs t))(i := None)\<rparr>" by auto
  have "cabs s2 = cabs s" using h by (simp add: 2(4) t(2) 1(4) del: cabs_sel) (simp add: cabs_def)
  moreover have "read_head s = Ok s2"
    using 1(1) dev n 2(1) dat by (simp add: read_head_def Let_def head_count_def head_home_def t_def bl_def cong: if_cong)
  moreover have fr: "bio_frame (s\<lparr>lh_n := ?n, lh_block := bl\<rparr>) s2"
    using bio_frame_trans [OF bio_frame_log_upd(1) [OF 1(3)] 2(3) [unfolded t_def]] .
  moreover have "lh_n s2 = ?n" "lh_block s2 = bl" using log_frame(4,5) [OF fr] by simp_all
  ultimately show ?thesis using 2(2) by (intro exI [of _ s2] exI [of _ bl]) (auto simp: bl_def)
qed

lemma lblk_not_data: "i < 29 \<Longrightarrow> data_block st nb b \<Longrightarrow> lblk st i \<noteq> b"
  by (auto simp: data_block_def log_area_def)

lemma start_not_data: "data_block st nb b \<Longrightarrow> st \<noteq> b"
  by (auto simp: data_block_def)

text \<open>Recovery on a freshly booted cache: the writes of \<open>recover_writes\<close>, and an empty log.\<close>

lemma recover_spec:
  assumes inv: "bio_inv s" and h: "held s = Map.empty" and geo: "log_geometry s" and p: "pins s = {}"
    and ok: "head_ok (log_start s) (disksize s) (memdisk s)"
  shows "\<exists>s'. recover_from_log s = Ok s' \<and> log_ok s' \<and> lh_n s' = 0 \<and>
    log_start s' = log_start s \<and> disksize s' = disksize s \<and>
    cabs s' = abs_writes (recover_writes (log_start s) (memdisk s)) (cabs s)"
proof -
  let ?st = "log_start s" and ?d = "memdisk s"
  have st: "?st < disksize s" using geo by (auto simp: log_geometry_def word_less_nat_alt)
  have "head_count ?st ?d \<le> LOGSIZE" using ok by (simp add: head_ok_def)
  from read_head_spec [OF inv h geo p this] obtain s1 bl where 1: "read_head s = Ok s1" "bio_inv s1"
    "cabs s1 = cabs s" "bio_frame (s\<lparr>lh_n := head_count ?st ?d, lh_block := bl\<rparr>) s1"
    and bl: "\<And>i. i < nat (lh_n s1) \<Longrightarrow> lh_block s1 i = head_home ?st ?d i" by blast
  note fr1 = log_frame [OF 1(4)] bio_frame_disksize [OF 1(4)]
  have geo1: "log_geometry s1" using geo fr1 by (simp add: log_geometry_def)
  have n1: "lh_n s1 = head_count ?st ?d" "log_start s1 = ?st" "disksize s1 = disksize s" using fr1 by simp_all
  have v1: "held s1 = Map.empty" "pins s1 = {}" "cview s1 = cview s" "memdisk s1 = ?d"
    using h p arg_cong [OF 1(3), of a_held] arg_cong [OF 1(3), of a_pins] arg_cong [OF 1(3), of a_view]
      arg_cong [OF 1(3), of a_disk] by simp_all
  have view: "cview s = ?d" using unheld_clean [OF inv] h p by (simp add: fun_eq_iff)
  have lg: "logged s1 = map (head_home ?st ?d) [0..<nat (head_count ?st ?d)]"
    using bl by (simp add: logged_def n1)
  have pre: "copy_pre s1"
    using 1(2) geo1 ok v1 by (auto simp: copy_pre_def head_ok_def n1 lg)
  from install_spec [OF pre] v1 obtain s2 where 2: "install_trans s1 = Ok s2" "bio_inv s2" "bio_frame s1 s2"
    "cabs s2 = abs_writes (home_copies s1) (cabs s1)" by auto
  have hc: "home_copies s1 = map (\<lambda>i. (head_home ?st ?d i, ?d (lblk ?st i))) [0..<nat (head_count ?st ?d)]"
    using bl view by (simp add: home_copies_def n1 v1)
  let ?t = "s2\<lparr>lh_n := 0\<rparr>"
  note fr2 = log_frame [OF 2(3)] bio_frame_disksize [OF 2(3)]
  have "?st \<notin> fst ` set (home_copies s1)" using ok start_not_data by (auto simp: hc head_ok_def)
  then have v2: "held s2 = Map.empty" "pins s2 = {}" "cview s2 ?st = ?d ?st"
    using h p v1 view arg_cong [OF 2(4), of a_held] arg_cong [OF 2(4), of a_pins] arg_cong [OF 2(4), of a_view]
    by (simp_all add: 1(3) apply_writes_other)
  have v3: "held ?t = Map.empty" "pins ?t = {}" "cview ?t = cview s2" "log_start ?t = ?st" "disksize ?t = disksize s"
    using v2 fr2 n1 by simp_all
  have "\<exists>s'. write_head ?t = Ok s' \<and> bio_inv s' \<and> bio_frame ?t s' \<and>
    cabs s' = abs_writes [(log_start ?t, head_bytes (lh_n ?t) (lh_block ?t) (cview ?t (log_start ?t)))] (cabs ?t)"
    by (rule write_head_spec)
      (use 2(2) v3 st geo1 fr2 in \<open>simp_all add: log_geometry_def head_bytes_0\<close>)
  then obtain s' where 3: "write_head ?t = Ok s'" "bio_inv s'" "bio_frame ?t s'"
    "cabs s' = abs_writes [(?st, put32 0 0 (?d ?st))] (cabs s2)"
    using v2(3) v3 by (auto simp: head_bytes_0)
  note fr3 = log_frame [OF 3(3)] bio_frame_disksize [OF 3(3)]
  have "recover_from_log s = Ok s'" using 1(1) 2(1) 3(1) by (simp add: recover_from_log_def)
  moreover have w: "cabs s' = abs_writes (recover_writes ?st ?d) (cabs s)"
    by (simp add: 3(4) 2(4) 1(3) recover_writes_def hc)
  moreover have geo': "log_geometry s'" and n': "lh_n s' = 0" "log_start s' = ?st" "disksize s' = disksize s"
    using geo1 fr2 fr3 n1 by (simp_all add: log_geometry_def)
  moreover have "log_ok s'"
  proof -
    have "length (?d ?st) = BSIZE" using inv by (simp add: bio_inv_def)
    then have "get32 0 (memdisk s' ?st) = 0" using arg_cong [OF w, of a_disk]
      by (simp add: recover_writes_def)
    moreover have "held s' = Map.empty" "pins s' = {}"
      using arg_cong [OF w, of a_held] arg_cong [OF w, of a_pins] h p by simp_all
    ultimately show ?thesis using 3(2) geo' n' by (simp add: log_ok_def logged_def)
  qed
  ultimately show ?thesis by blast
qed

section \<open>Commit\<close>

text \<open>
  The writes of a commit: the logged blocks into the log, the header, the same blocks to their
  homes, the empty header.
\<close>

definition commit_writes :: "'a log_state_scheme \<Rightarrow> (u32 \<times> bytes) list" where
  "commit_writes s =
     (let st = log_start s; h = head_bytes (lh_n s) (lh_block s) (cview s st) in
      log_copies s @ (st, h) # map (\<lambda>b. (b, cview s b)) (logged s) @ [(st, put32 0 0 h)])"

lemma log_copies_nth:
  "k < nat (lh_n s) \<Longrightarrow> log_copies s ! k = (lblk (log_start s) k, cview s (lh_block s k))"
  by (simp add: log_copies_def)

lemma log_copies_at:
  assumes "unat (log_start s) + 30 \<le> unat (nb :: u32)" and "lh_n s \<le> 29" and "k < nat (lh_n s)"
  shows "apply_writes (log_copies s) d (lblk (log_start s) k) = cview s (lh_block s k)"
proof (rule apply_writes_in)
  have "inj_on (lblk (log_start s)) {0..<nat (lh_n s)}"
    by (rule inj_onI) (use assms lblk_neq(3) [OF assms(1)] in auto)
  then show "distinct (map fst (log_copies s))"
    by (simp add: log_copies_def comp_def distinct_map)
  show "(lblk (log_start s) k, cview s (lh_block s k)) \<in> set (log_copies s)"
    using assms(3) by (auto simp: log_copies_def)
qed

lemma log_copies_area:
  assumes "unat (log_start s) + 30 \<le> unat (nb :: u32)" and "lh_n s \<le> 29"
  shows "fst ` set (log_copies s) \<subseteq> log_area (log_start s) - {log_start s}"
  using assms by (auto simp: log_copies_def)

lemma log_okD:
  assumes "log_ok s"
  shows "bio_inv s" "log_geometry s" "0 \<le> lh_n s" "lh_n s \<le> 29" "distinct (logged s)"
    "b \<in> set (logged s) \<Longrightarrow> data_block (log_start s) (disksize s) b" "pins s = set (logged s)"
    "head_count (log_start s) (memdisk s) = 0" "unat (log_start s) + 30 \<le> unat (disksize s)"
    "log_start s < disksize s" "log_dev s = 1" "log_start s \<notin> pins s" "finite (pins s)" "card (pins s) \<le> 29"
  using assms distinct_card [of "logged s"]
  by (auto simp: log_ok_def log_geometry_def head_count_def word_less_nat_alt logged_def data_block_def)

lemma log_ok_copy_pre: "log_ok s \<Longrightarrow> held s = Map.empty \<Longrightarrow> copy_pre s"
  using log_okD [of s] by (auto simp: copy_pre_def data_block_def)

lemma commit_spec:
  assumes ok: "log_ok s" and h: "held s = Map.empty" and n: "0 < lh_n s"
  shows "\<exists>s'. commit s = Ok s' \<and> bio_inv s' \<and> bio_frame (s\<lparr>lh_n := 0\<rparr>) s' \<and>
    cabs s' = abs_writes (commit_writes s) (cabs s)"
proof -
  let ?st = "log_start s" and ?h = "head_bytes (lh_n s) (lh_block s) (cview s (log_start s))"
  note D = log_okD [OF ok]
  have pre: "copy_pre s" using ok h by (rule log_ok_copy_pre)
  have area: "fst ` set (log_copies s) \<subseteq> log_area ?st - {?st}" by (rule log_copies_area [OF D(9,4)])
  from write_log_spec [OF pre] D(7) obtain s1 where 1: "write_log s = Ok s1" "bio_inv s1" "bio_frame s s1"
    "cabs s1 = abs_writes (log_copies s) (cabs s)" by auto
  note fr1 = log_frame [OF 1(3)] bio_frame_disksize [OF 1(3)]
  have "pins s \<inter> log_area ?st = {}" using D(6,7) by (auto simp: data_block_def)
  then have "pins s - fst ` set (log_copies s) = pins s" using area by blast
  moreover have "?st \<notin> fst ` set (log_copies s)" using area by blast
  ultimately have v1: "held s1 = Map.empty" "pins s1 = pins s" "cview s1 ?st = cview s ?st"
    "cview s1 = apply_writes (log_copies s) (cview s)"
    using h arg_cong [OF 1(4), of a_held] arg_cong [OF 1(4), of a_pins] arg_cong [OF 1(4), of a_view]
    by (simp_all add: apply_writes_other)
  have "\<exists>s'. write_head s1 = Ok s' \<and> bio_inv s' \<and> bio_frame s1 s' \<and>
    cabs s' = abs_writes [(log_start s1, head_bytes (lh_n s1) (lh_block s1) (cview s1 (log_start s1)))] (cabs s1)"
    by (rule write_head_spec [OF 1(2)]) (use v1 D fr1 head_bytes in \<open>simp_all add: word_less_nat_alt\<close>)
  then obtain s2 where 2: "write_head s1 = Ok s2" "bio_inv s2" "bio_frame s1 s2"
    "cabs s2 = abs_writes [(?st, ?h)] (cabs s1)" using v1(3) by (auto simp: fr1)
  note fr2 = log_frame [OF 2(3)] bio_frame_disksize [OF 2(3)]
  have v2: "held s2 = Map.empty" "pins s2 = pins s" "cview s2 = (apply_writes (log_copies s) (cview s))(?st := ?h)"
    using v1 D(12) arg_cong [OF 2(4), of a_held] arg_cong [OF 2(4), of a_pins] arg_cong [OF 2(4), of a_view]
    by simp_all
  have pre2: "copy_pre s2"
    using pre v2 2(2) by (simp add: copy_pre_def fr1 fr2)
  have "pins s2 = set (logged s2) \<and> distinct (logged s2)" using D(5,7) v2(2) by (simp add: fr1 fr2)
  with install_spec [OF pre2] obtain s3 where 3: "install_trans s2 = Ok s3" "bio_inv s3" "bio_frame s2 s3"
    "cabs s3 = abs_writes (home_copies s2) (cabs s2)" by auto
  have hc: "home_copies s2 = map (\<lambda>b. (b, cview s b)) (logged s)"
    using log_copies_at [OF D(9,4)] D(4) lblk_neq(1) [OF D(9)]
    by (simp add: home_copies_def logged_def fr1 fr2 v2(3))
  note fr3 = log_frame [OF 3(3)] bio_frame_disksize [OF 3(3)]
  let ?t = "s3\<lparr>lh_n := 0\<rparr>"
  have "?st \<notin> fst ` set (home_copies s2)" using D(7,12) by (auto simp: hc)
  then have v3: "held s3 = Map.empty" "pins s3 = {}" "cview s3 ?st = ?h"
    using D(7) v2 arg_cong [OF 3(4), of a_held] arg_cong [OF 3(4), of a_pins] arg_cong [OF 3(4), of a_view]
    by (auto simp: apply_writes_other hc image_comp)
  have v4: "held ?t = Map.empty" "pins ?t = {}" "cview ?t = cview s3" using v3 by simp_all
  have "\<exists>s'. write_head ?t = Ok s' \<and> bio_inv s' \<and> bio_frame ?t s' \<and>
    cabs s' = abs_writes [(log_start ?t, head_bytes (lh_n ?t) (lh_block ?t) (cview ?t (log_start ?t)))] (cabs ?t)"
    by (rule write_head_spec) (use 3(2) v4 D fr1 fr2 fr3 in \<open>simp_all add: head_bytes_0\<close>)
  then obtain s' where 4: "write_head ?t = Ok s'" "bio_inv s'" "bio_frame ?t s'"
    "cabs s' = abs_writes [(?st, put32 0 0 ?h)] (cabs s3)"
    using v3(3) v4 by (auto simp: head_bytes_0 fr1 fr2 fr3)
  have "commit s = Ok s'" using n 1(1) 2(1) 3(1) 4(1) by (simp add: commit_def)
  moreover have "cabs s' = abs_writes (commit_writes s) (cabs s)"
    by (simp add: 4(4) 3(4) 2(4) 1(4) commit_writes_def hc Let_def)
  moreover have "bio_frame (s\<lparr>lh_n := 0\<rparr>) s'"
  proof -
    have "bio_frame s s3" using bio_frame_trans [OF bio_frame_trans [OF 1(3) 2(3)] 3(3)] .
    from bio_frame_log_upd(2) [OF this] have "bio_frame (s\<lparr>lh_n := 0\<rparr>) ?t" .
    then show ?thesis using 4(3) by (rule bio_frame_trans)
  qed
  ultimately show ?thesis using 4(2) by blast
qed

section \<open>Logging a block\<close>

lemma logged_length: "0 \<le> lh_n s \<Longrightarrow> int (length (logged s)) = lh_n s"
  by (simp add: logged_def)

lemma log_slot_cases:
  assumes "0 \<le> lh_n s"
  obtains (absorbed) "b \<in> set (logged s)" "log_slot b s < nat (lh_n s)" "lh_block s (log_slot b s) = b"
  | (fresh) "b \<notin> set (logged s)" "log_slot b s = nat (lh_n s)"
  by (cases rule: first_index_cases [of "\<lambda>i. lh_block s i = b" "nat (lh_n s)"])
    (force simp: log_slot_def logged_def)+

text \<open>The frame of an operation that may log a block: the log's list of blocks changes too.\<close>

definition jframe :: "'a log_state_scheme \<Rightarrow> 'a log_state_scheme \<Rightarrow> bool" where
  "jframe s s' \<longleftrightarrow> bio_frame (s\<lparr>lh_n := lh_n s', lh_block := lh_block s'\<rparr>) s'"

lemma bio_frame_jframe: "bio_frame s s' \<Longrightarrow> jframe s s'"
  using log_frame(4,5) [of s s'] by (simp add: jframe_def)

lemma jframe_refl [simp]: "jframe s s"
  by (simp add: bio_frame_jframe)

lemma jframe_trans:
  assumes "jframe s s'" and "jframe s' s''"
  shows "jframe s s''"
  using bio_frame_trans [OF bio_frame_log_upd(1) [OF assms(1) [unfolded jframe_def], where n = "lh_n s''" and bl = "lh_block s''"]
      assms(2) [unfolded jframe_def]]
  by (simp add: jframe_def)

lemma jframe_log:
  assumes "jframe s s'"
  shows "log_start s' = log_start s" "log_size s' = log_size s" "log_dev s' = log_dev s"
    "log_outstanding s' = log_outstanding s" "log_committing s' = log_committing s"
    "log_geometry s' = log_geometry s" "disksize s' = disksize s" "mypid s' = mypid s"
  using log_frame [OF assms [unfolded jframe_def]] bio_frame_disksize [OF assms [unfolded jframe_def]]
    bio_frame_mypid [OF assms [unfolded jframe_def]]
  by (simp_all add: log_geometry_def mypid_def myproc_def)

lemma log_write_spec:
  assumes ok: "log_ok s" and i: "held s i = Some b" and b: "data_block (log_start s) (disksize s) b"
    and n: "lh_n s < 29" and out: "1 \<le> log_outstanding s"
  shows "\<exists>s'. log_write i s = Ok s' \<and> log_ok s' \<and> jframe s s' \<and>
    cabs s' = (cabs s)\<lparr>a_pins := insert b (pins s)\<rparr> \<and>
    logged s' = (if b \<in> set (logged s) then logged s else logged s @ [b])"
proof -
  note D = log_okD [OF ok]
  have bn: "b_blockno (bufs s i) = b" using held_bufD(3) [OF D(1) i] .
  have sz: "log_size s = 30" using D(2) by (simp add: log_geometry_def)
  define sl where "sl = log_slot b s"
  define t where "t = s\<lparr>lh_block := (lh_block s)(sl := b),
    lh_n := if int sl = lh_n s then lh_n s + 1 else lh_n s\<rparr>"
  have run: "log_write i s = Ok (set_dirty i t)"
    using n out sz by (simp add: log_write_def bn Let_def t_def sl_def)
  have lg: "logged t = (if b \<in> set (logged s) then logged s else logged s @ [b]) \<and> 0 \<le> lh_n t \<and> lh_n t \<le> 29"
    using D(3)
  proof (cases rule: log_slot_cases [of s b])
    case absorbed
    then have "int sl \<noteq> lh_n s" "(lh_block s)(sl := b) = lh_block s" by (auto simp: sl_def fun_eq_iff)
    then have "t = s" by (simp add: t_def)
    with absorbed(1) D(3,4) show ?thesis by simp
  next
    case fresh
    then have "int sl = lh_n s" using D(3) by (simp add: sl_def)
    moreover from this have "nat (lh_n s + 1) = Suc sl" "nat (lh_n s) = sl" by linarith+
    ultimately show ?thesis using fresh(1) n D(3) by (simp add: t_def logged_def)
  qed
  have t: "bio_inv t" "held t i = Some b" "cabs t = cabs s" "pins t = pins s"
    using D(1) i by (simp_all add: t_def)
  note sd = set_dirty_spec [OF t(1,2)]
  note fr = log_frame [OF sd(3)] bio_frame_disksize [OF sd(3)]
  have fld: "log_start t = log_start s" "disksize t = disksize s" "memdisk t = memdisk s"
    "log_geometry t = log_geometry s" by (simp_all add: t_def log_geometry_def)
  have c: "cabs (set_dirty i t) = (cabs s)\<lparr>a_pins := insert b (pins s)\<rparr>" using sd(2) t(3,4) by simp
  have "pins (set_dirty i t) = insert b (pins s)" "memdisk (set_dirty i t) = memdisk s"
    using arg_cong [OF c, of a_pins] arg_cong [OF c, of a_disk] by simp_all
  then have "log_ok (set_dirty i t)"
    using lg sd(1) D b ok unfolding log_ok_def fr fld by (auto simp: head_count_def)
  moreover have "jframe s (set_dirty i t)"
  proof -
    have "s\<lparr>lh_n := lh_n t, lh_block := lh_block t\<rparr> = t" by (simp add: t_def)
    with sd(3) show ?thesis unfolding jframe_def fr by simp
  qed
  ultimately show ?thesis using run c lg by (intro exI [of _ "set_dirty i t"]) (simp add: fr)
qed

end
