(* ===== verification/Journal.thy ===== *)
theory Journal imports Log begin

text \<open>
  The interface of the log as the file system uses it: inside a transaction a block is read, its
  buffer assigned to, logged and given back.  The locale states the laws once; the model of
  \<open>log.c\<close> and \<open>bio.c\<close> interprets it.  The last part is about \<open>begin_op\<close> and \<open>end_op\<close>.
\<close>

section \<open>The interface\<close>

text \<open>
  \<open>okb s b\<close>: \<open>b\<close> is a block a transaction may write; \<open>active s\<close>: a transaction is open.  The log
  has room for 29 blocks.
\<close>

locale journal = block_reads inv abs nblocks data frame rd put rel
  for inv :: "'s \<Rightarrow> bool" and abs :: "'s \<Rightarrow> cache_abs" and nblocks :: "'s \<Rightarrow> u32"
    and data :: "'s \<Rightarrow> nat \<Rightarrow> bytes" and frame :: "'s \<Rightarrow> 's \<Rightarrow> bool"
    and rd :: "u32 \<Rightarrow> 's \<Rightarrow> (nat \<times> 's) res" and put :: "nat \<Rightarrow> bytes \<Rightarrow> 's \<Rightarrow> 's"
    and rel :: "nat \<Rightarrow> 's \<Rightarrow> 's res" +
  fixes jw :: "nat \<Rightarrow> 's \<Rightarrow> 's res" and okb :: "'s \<Rightarrow> u32 \<Rightarrow> bool" and active :: "'s \<Rightarrow> bool"
  assumes jw: "inv s \<Longrightarrow> a_held (abs s) i = Some b \<Longrightarrow> okb s b \<Longrightarrow> active s \<Longrightarrow>
      card (a_pins (abs s)) < 29 \<Longrightarrow>
      \<exists>s'. jw i s = Ok s' \<and> inv s' \<and> frame s s' \<and>
        abs s' = (abs s)\<lparr>a_pins := insert b (a_pins (abs s))\<rparr>"
    and finite_pins: "inv s \<Longrightarrow> finite (a_pins (abs s))"
    and okb_block: "okb s b \<Longrightarrow> b < nblocks s"
    and frame_active: "frame s s' \<Longrightarrow> active s' = active s"
    and frame_okb: "frame s s' \<Longrightarrow> okb s' = okb s"
begin

text \<open>The view after a block has been rewritten inside a transaction.\<close>

definition wrote :: "u32 \<Rightarrow> bytes \<Rightarrow> cache_abs \<Rightarrow> cache_abs" where
  "wrote b d a = a\<lparr>a_view := (a_view a)(b := d), a_pins := insert b (a_pins a)\<rparr>"

text \<open>A held block that is assigned to, logged and given back.\<close>

lemma put_log_rel:
  assumes "inv s" and h: "a_held (abs s) i = Some b" and "length d = BSIZE"
    and "okb s b" and "active s" and "card (a_pins (abs s)) < 29"
  shows "\<exists>s1 s2. jw i (put i d s) = Ok s1 \<and> rel i s1 = Ok s2 \<and> inv s2 \<and> frame s s2 \<and>
    abs s2 = (wrote b d (abs s))\<lparr>a_held := (a_held (abs s))(i := None)\<rparr>"
proof -
  from put [OF assms(1,2,3)] have 1: "inv (put i d s)" "frame s (put i d s)"
    "abs (put i d s) = (abs s)\<lparr>a_view := (a_view (abs s))(b := d)\<rparr>" by blast+
  have "okb (put i d s) b" "active (put i d s)"
    using assms(4,5) frame_okb [OF 1(2)] frame_active [OF 1(2)] by simp_all
  with jw [OF 1(1), of i b] assms(2,6) 1(3) obtain s1 where 2: "jw i (put i d s) = Ok s1" "inv s1"
    "frame (put i d s) s1" "abs s1 = (abs (put i d s))\<lparr>a_pins := insert b (a_pins (abs (put i d s)))\<rparr>"
    by auto
  from rel [OF 2(2), of i b] h obtain s2 where 3: "rel i s1 = Ok s2" "inv s2" "frame s1 s2"
    "abs s2 = (abs s1)\<lparr>a_held := (a_held (abs s1))(i := None)\<rparr>" by (auto simp: 2(4) 1(3))
  have "abs s2 = (wrote b d (abs s))\<lparr>a_held := (a_held (abs s))(i := None)\<rparr>"
    by (simp add: 3(4) 2(4) 1(3) wrote_def)
  then show ?thesis using 2 3 frame_trans [OF frame_trans [OF 1(2) 2(3)] 3(3)] by blast
qed

text \<open>A block read, rewritten, logged and given back.\<close>

lemma update:
  assumes "inv s" and b: "okb s b" "b \<notin> ran (a_held (abs s))" and len: "length d = BSIZE"
    and room: "b \<in> a_pins (abs s) \<or> card (ran (a_held (abs s)) \<union> a_pins (abs s)) < NBUF"
    and act: "active s" and n: "card (a_pins (abs s)) < 29"
  shows "\<exists>i s1 s2 s3. rd b s = Ok (i, s1) \<and> data s1 i = a_view (abs s) b \<and> frame s s1 \<and>
    jw i (put i d s1) = Ok s2 \<and> rel i s2 = Ok s3 \<and> inv s3 \<and> frame s s3 \<and> abs s3 = wrote b d (abs s)"
proof -
  from rd [OF assms(1) okb_block [OF b(1)] b(2) room] obtain i s1 where
    1: "rd b s = Ok (i, s1)" "inv s1" "a_held (abs s) i = None" "frame s s1"
      "abs s1 = (abs s)\<lparr>a_held := (a_held (abs s))(i \<mapsto> b)\<rparr>" by blast
  have h: "a_held (abs s1) i = Some b" by (simp add: 1(5))
  from put_log_rel [OF 1(2) h len] b(1) act n obtain s2 s3 where 2: "jw i (put i d s1) = Ok s2"
    "rel i s2 = Ok s3" "inv s3" "frame s1 s3"
    "abs s3 = (wrote b d (abs s1))\<lparr>a_held := (a_held (abs s1))(i := None)\<rparr>"
    by (auto simp: frame_okb [OF 1(4)] frame_active [OF 1(4)] 1(5))
  have "abs s3 = wrote b d (abs s)" using 1(3) by (simp add: 2(5) 1(5) wrote_def fun_upd_idem)
  moreover have "data s1 i = a_view (abs s) b" using data [OF 1(2) h] by (simp add: 1(5))
  ultimately show ?thesis using 1 2 frame_trans [OF 1(4) 2(4)] by blast
qed

end

section \<open>The log implements it\<close>

lemma log_ok_bio:
  assumes ok: "log_ok s" and inv: "bio_inv s'" and fr: "bio_frame s s'"
    and "pins s' = pins s" and "memdisk s' = memdisk s"
  shows "log_ok s'"
  using ok inv assms(4,5) log_frame [OF fr] bio_frame_disksize [OF fr] by (simp add: log_ok_def)

lemma log_ok_cabs:
  assumes ok: "log_ok s" and inv: "bio_inv s'" and fr: "bio_frame s s'"
    and c: "cabs s' = (cabs s)\<lparr>a_held := h\<rparr> \<or> cabs s' = (cabs s)\<lparr>a_view := v\<rparr>"
  shows "log_ok s'"
proof (rule log_ok_bio [OF ok inv fr])
  from c have "a_pins (cabs s') = a_pins (cabs s) \<and> a_disk (cabs s') = a_disk (cabs s)"
    by (elim disjE) (simp_all del: cabs_sel)
  then show "pins s' = pins s" and "memdisk s' = memdisk s" by simp_all
qed

interpretation jrnl: journal log_ok cabs disksize "\<lambda>s i. b_data (bufs s i)" jframe "bread 1" set_data
  brelse log_write "\<lambda>s. data_block (log_start s) (disksize s)" "\<lambda>s. 1 \<le> log_outstanding s"
proof unfold_locales
  fix s :: "'a log_state_scheme" and b
  assume s: "log_ok s" "b < disksize s" "b \<notin> ran (a_held (cabs s))"
    "b \<in> a_pins (cabs s) \<or> card (ran (a_held (cabs s)) \<union> a_pins (cabs s)) < NBUF"
  from cache.rd [OF log_okD(1) [OF s(1)] s(2-4)]
  show "\<exists>i s'. bread 1 b s = Ok (i, s') \<and> log_ok s' \<and> a_held (cabs s) i = None \<and> jframe s s' \<and>
      cabs s' = (cabs s)\<lparr>a_held := (a_held (cabs s))(i \<mapsto> b)\<rparr>"
    using log_ok_cabs [OF s(1)] bio_frame_jframe by blast
next
  fix s :: "'a log_state_scheme" and i b and d :: bytes
  assume s: "log_ok s" "a_held (cabs s) i = Some b" "length d = BSIZE"
  from cache.put [OF log_okD(1) [OF s(1)] s(2,3)]
  show "log_ok (set_data i d s) \<and> jframe s (set_data i d s) \<and>
      cabs (set_data i d s) = (cabs s)\<lparr>a_view := (a_view (cabs s))(b := d)\<rparr>"
    using log_ok_cabs [OF s(1)] bio_frame_jframe by blast
next
  fix s :: "'a log_state_scheme" and i b
  assume s: "log_ok s" "a_held (cabs s) i = Some b"
    "b \<in> a_pins (cabs s) \<or> a_view (cabs s) b = a_disk (cabs s) b"
  from cache.rel [OF log_okD(1) [OF s(1)] s(2,3)]
  show "\<exists>s'. brelse i s = Ok s' \<and> log_ok s' \<and> jframe s s' \<and>
      cabs s' = (cabs s)\<lparr>a_held := (a_held (cabs s))(i := None)\<rparr>"
    using log_ok_cabs [OF s(1)] bio_frame_jframe by blast
next
  fix s :: "'a log_state_scheme" and i b
  assume s: "log_ok s" "a_held (cabs s) i = Some b" "data_block (log_start s) (disksize s) b"
    "1 \<le> log_outstanding s" "card (a_pins (cabs s)) < 29"
  then have "lh_n s < 29"
    using log_okD(3,5,7) [OF s(1)] distinct_card [of "logged s"] logged_length [of s] by simp
  with log_write_spec [OF s(1) _ s(3), of i] s(2,4)
  show "\<exists>s'. log_write i s = Ok s' \<and> log_ok s' \<and> jframe s s' \<and>
      cabs s' = (cabs s)\<lparr>a_pins := insert b (a_pins (cabs s))\<rparr>" by auto
next
  fix s s' :: "'a log_state_scheme"
  assume "jframe s s'"
  then show "(1 \<le> log_outstanding s') = (1 \<le> log_outstanding s)"
    and "data_block (log_start s') (disksize s') = data_block (log_start s) (disksize s)"
    and "disksize s' = disksize s"
    by (simp_all add: jframe_log)
next
  fix s :: "'a log_state_scheme" and i b
  assume s: "log_ok s" "a_held (cabs s) i = Some b"
  show "b_data (bufs s i) = a_view (cabs s) b" using log_okD(1) [OF s(1)] s(2) by (rule cache.data)
next
  fix s :: "'a log_state_scheme" and b
  assume s: "log_ok s"
  show "length (a_view (cabs s) b) = BSIZE" using log_okD(1) [OF s] by (rule cache.view_length)
  show "finite (a_pins (cabs s))" using log_okD(13) [OF s] by simp
  show "a_view (cabs s) b = a_disk (cabs s) b" if "b \<notin> a_pins (cabs s)" "b \<notin> ran (a_held (cabs s))"
    using log_okD(1) [OF s] that by (rule cache.clean)
qed (auto simp: data_block_def intro: jframe_trans)

end
