(* ===== verification/Ring.thy ===== *)
theory Ring imports Prelude begin

text \<open>
  Circular buffers with free-running 32-bit counters, as \<open>struct pipe\<close> and the console's \<open>input\<close>
  have: the next byte is read at \<open>r % N\<close> and written at \<open>w % N\<close>, and \<open>w - r\<close> bytes are stored.  The
  counters wrap around; the buffer stays correct because its size divides \<open>2^32\<close>.
\<close>

type_synonym ring = "(nat \<Rightarrow> u8) \<times> u32 \<times> u32"

definition ring_len :: "u32 \<Rightarrow> u32 \<Rightarrow> nat" where
  "ring_len r w = unat (w - r)"

definition ring_list :: "nat \<Rightarrow> ring \<Rightarrow> bytes" where
  "ring_list N q = (case q of (buf, r, w) \<Rightarrow>
     map (\<lambda>k. buf (unat (r + word_of_nat k) mod N)) [0..<ring_len r w])"

definition ring_push :: "nat \<Rightarrow> u8 \<Rightarrow> ring \<Rightarrow> ring" where
  "ring_push N x q = (case q of (buf, r, w) \<Rightarrow> (buf(unat w mod N := x), r, w + 1))"

definition ring_pop :: "nat \<Rightarrow> ring \<Rightarrow> u8 \<times> ring" where
  "ring_pop N q = (case q of (buf, r, w) \<Rightarrow> (buf (unat r mod N), buf, r + 1, w))"

lemma ring_len_pos: "0 < ring_len r w \<longleftrightarrow> r \<noteq> w"
  by (auto simp: ring_len_def unat_gt_0)

lemma ring_len_pop: "r \<noteq> w \<Longrightarrow> ring_len (r + 1) w = ring_len r w - 1"
proof -
  assume "r \<noteq> w"
  then have "w - r \<noteq> 0" by simp
  then have "unat (w - r - 1) = unat (w - r) - 1" by (rule unat_minus_one)
  then show ?thesis by (simp add: ring_len_def algebra_simps)
qed

lemma ring_len_push:
  assumes "ring_len r w < N" and "N < 2 ^ 32"
  shows "ring_len r (w + 1) = Suc (ring_len r w)"
proof -
  have "unat (w - r + 1) = unat (w - r) + 1"
    using assms by (subst unat_add_lem [THEN iffD1]) (simp_all add: ring_len_def)
  then show ?thesis by (simp add: ring_len_def algebra_simps)
qed

lemma ring_index:
  assumes "N dvd 2 ^ 32" and "0 < N"
  shows "unat (r + word_of_nat k :: u32) mod N = (unat r + k) mod N"
proof -
  have "unat (r + word_of_nat k :: u32) = (unat r + k) mod 2 ^ 32"
    by (simp add: unat_word_ariths unat_of_nat mod_simps)
  then show ?thesis using assms by (simp only: mod_mod_cancel)
qed

lemma ring_mod_neq:
  assumes "k < n" and "n < N"
  shows "(a + k) mod N \<noteq> (a + n) mod (N :: nat)"
proof
  assume "(a + k) mod N = (a + n) mod N"
  then have "(a + n) mod N = (a + k) mod N" by simp
  then have "N dvd a + n - (a + k)" using assms(1) mod_eq_dvd_iff_nat [of "a + k" "a + n" N] by simp
  then have "N dvd n - k" by simp
  then show False using assms nat_dvd_not_less [of "n - k" N] by simp
qed

lemma ring_pop_list:
  assumes "r \<noteq> w"
  shows "ring_list N (buf, r, w) = fst (ring_pop N (buf, r, w)) # ring_list N (snd (ring_pop N (buf, r, w)))"
proof -
  obtain n where n: "ring_len r w = Suc n" using assms ring_len_pos [of r w] by (cases "ring_len r w") auto
  have "[0..<Suc n] = 0 # map Suc [0..<n]" by (simp add: map_Suc_upt upt_conv_Cons del: upt_Suc)
  moreover have "ring_len (r + 1) w = n" using ring_len_pop [OF assms] n by simp
  ultimately show ?thesis
    using n by (simp add: ring_list_def ring_pop_def comp_def add.assoc del: upt_Suc)
qed

lemma ring_push_list:
  assumes N: "N dvd 2 ^ 32" "0 < N" "N < 2 ^ 32" and room: "ring_len r w < N"
  shows "ring_list N (ring_push N x (buf, r, w)) = ring_list N (buf, r, w) @ [x]"
proof -
  let ?n = "ring_len r w"
  have w: "w = r + word_of_nat ?n" by (simp add: ring_len_def)
  then have wN: "unat w mod N = (unat r + ?n) mod N" using ring_index [OF N(1,2), of r ?n] by simp
  have "map (\<lambda>k. (buf(unat w mod N := x)) (unat (r + word_of_nat k) mod N)) [0..<?n] =
    map (\<lambda>k. buf (unat (r + word_of_nat k) mod N)) [0..<?n]"
    using ring_mod_neq [of _ ?n N "unat r"] room by (auto simp: wN ring_index [OF N(1,2)])
  moreover have "(buf(unat w mod N := x)) (unat (r + word_of_nat ?n) mod N) = x"
    by (simp add: wN ring_index [OF N(1,2)])
  ultimately show ?thesis
    by (simp add: ring_list_def ring_push_def ring_len_push [OF room N(3)])
qed

section \<open>The interface of a bounded queue\<close>

locale bounded_fifo =
  fixes items :: "'q \<Rightarrow> 'x list" and push :: "'x \<Rightarrow> 'q \<Rightarrow> 'q" and pop :: "'q \<Rightarrow> 'x \<times> 'q"
    and full :: "'q \<Rightarrow> bool" and empty :: "'q \<Rightarrow> bool" and cap :: nat
  assumes push: "\<not> full q \<Longrightarrow> length (items q) \<le> cap \<Longrightarrow> items (push x q) = items q @ [x]"
    and pop: "\<not> empty q \<Longrightarrow> items q = fst (pop q) # items (snd (pop q))"
    and empty: "empty q \<longleftrightarrow> items q = []"
    and full: "length (items q) \<le> cap \<Longrightarrow> full q \<longleftrightarrow> length (items q) = cap"
begin

text \<open>\<open>push_all\<close> stores bytes while there is room, \<open>pop_all\<close> takes at most \<open>n\<close> bytes out.\<close>

fun push_all :: "'x list \<Rightarrow> 'q \<Rightarrow> 'q \<times> 'x list" where
  "push_all [] q = (q, [])"
| "push_all (x # xs) q = (if full q then (q, x # xs) else push_all xs (push x q))"

fun pop_all :: "nat \<Rightarrow> 'q \<Rightarrow> 'x list \<times> 'q" where
  "pop_all 0 q = ([], q)"
| "pop_all (Suc n) q =
     (if empty q then ([], q) else case pop_all n (snd (pop q)) of (xs, q') \<Rightarrow> (fst (pop q) # xs, q'))"

lemma push_all_items:
  "length (items q) \<le> cap \<Longrightarrow> push_all xs q = (q', rest) \<Longrightarrow>
   \<exists>ys. xs = ys @ rest \<and> items q' = items q @ ys \<and> length (items q') \<le> cap \<and>
     (rest \<noteq> [] \<longrightarrow> length (items q') = cap)"
proof (induction xs arbitrary: q)
  case (Cons x xs)
  show ?case
  proof (cases "full q")
    case True
    with Cons.prems show ?thesis using full by auto
  next
    case False
    have i: "items (push x q) = items q @ [x]" by (rule push [OF False Cons.prems(1)])
    have "length (items q) \<noteq> cap" using full [OF Cons.prems(1)] False by simp
    with i Cons.prems(1) have "length (items (push x q)) \<le> cap" by simp
    moreover have "push_all xs (push x q) = (q', rest)" using Cons.prems(2) False by simp
    ultimately obtain ys where "xs = ys @ rest" "items q' = items (push x q) @ ys"
      "length (items q') \<le> cap" "rest \<noteq> [] \<longrightarrow> length (items q') = cap" using Cons.IH by blast
    with i show ?thesis by (intro exI [of _ "x # ys"]) simp
  qed
qed simp

lemma pop_all_items:
  "pop_all n q = (xs, q') \<Longrightarrow> items q = xs @ items q' \<and> length xs = min n (length (items q))"
proof (induction n arbitrary: q q' xs)
  case (Suc n)
  show ?case
  proof (cases "empty q")
    case True
    then have "items q = []" using empty by blast
    moreover have "xs = []" "q' = q" using Suc.prems True by simp_all
    ultimately show ?thesis by simp
  next
    case False
    obtain ys q'' where r: "pop_all n (snd (pop q)) = (ys, q'')" by force
    with Suc.prems False have "xs = fst (pop q) # ys" "q' = q''" by auto
    moreover have "items q = fst (pop q) # items (snd (pop q))" by (rule pop [OF False])
    moreover have "items (snd (pop q)) = ys @ items q''" "length ys = min n (length (items (snd (pop q))))"
      using Suc.IH [OF r] by blast+
    ultimately have "items q = xs @ items q'" "length xs = Suc (min n (length (items (snd (pop q)))))"
      "length (items q) = Suc (length (items (snd (pop q))))"
      by (metis append_Cons, metis length_Cons, metis length_Cons)
    then show ?thesis by (metis min_Suc_Suc)
  qed
qed simp

text \<open>What was stored comes out, in order.\<close>

lemma push_then_pop:
  assumes "length (items q) \<le> cap" and "push_all xs q = (q1, [])" and "pop_all n q1 = (ys, q2)"
    and "length (items q) + length xs \<le> n"
  shows "ys = items q @ xs" and "items q2 = []"
proof -
  from push_all_items [OF assms(1,2)] obtain zs where "xs = zs @ []" "items q1 = items q @ zs" by blast
  then have q1: "items q1 = items q @ xs" by simp
  from pop_all_items [OF assms(3)] have y: "items q1 = ys @ items q2" "length ys = min n (length (items q1))"
    by blast+
  have "length ys = length (items q1)" using y(2) q1 assms(4) by simp
  with y(1) have "items q2 = []" by (metis append_eq_conv_conj drop_all le_refl)
  with y(1) q1 show "ys = items q @ xs" and "items q2 = []" by simp_all
qed

end

lemma ring_fifo:
  assumes "N dvd 2 ^ 32" "0 < N" "N < 2 ^ 32"
  shows "bounded_fifo (ring_list N) (ring_push N) (ring_pop N) (\<lambda>(buf, r, w). w = r + word_of_nat N)
    (\<lambda>(buf, r, w). r = w) N"
proof (unfold_locales; clarify)
  fix x and buf :: "nat \<Rightarrow> u8" and r w :: u32
  have len: "length (ring_list N (buf, r, w)) = ring_len r w" by (simp add: ring_list_def)
  have full: "ring_len r w = N \<longleftrightarrow> w = r + word_of_nat N" if "ring_len r w \<le> N"
  proof
    assume "ring_len r w = N"
    then have "word_of_nat N = (word_of_nat (unat (w - r)) :: u32)" by (simp add: ring_len_def)
    then have "word_of_nat N = w - r" by simp
    then show "w = r + word_of_nat N" by simp
  next
    assume "w = r + word_of_nat N"
    then show "ring_len r w = N" using assms(3) by (simp add: ring_len_def unat_of_nat)
  qed
  show "w = r + word_of_nat N \<longleftrightarrow> length (ring_list N (buf, r, w)) = N"
    if "length (ring_list N (buf, r, w)) \<le> N" using full that len by auto
  show "r = w \<longleftrightarrow> ring_list N (buf, r, w) = []" using ring_len_pos [of r w] by (auto simp: ring_list_def)
  show "ring_list N (ring_push N x (buf, r, w)) = ring_list N (buf, r, w) @ [x]"
    if "w \<noteq> r + word_of_nat N" "length (ring_list N (buf, r, w)) \<le> N"
    using ring_push_list [OF assms] full that len by (metis le_neq_implies_less)
  show "ring_list N (buf, r, w) = fst (ring_pop N (buf, r, w)) # ring_list N (snd (ring_pop N (buf, r, w)))"
    if "r \<noteq> w" using that by (rule ring_pop_list)
qed

end
