(* ===== verification/Console.thy ===== *)
theory Console imports Ring begin

text \<open>
  The console (\<open>console.c\<close>): the CGA screen and its cursor, line editing in the interrupt handler
  and reading of completed lines.  The input buffer is a \<open>Ring\<close> used twice: the bytes from \<open>r\<close> to
  \<open>w\<close> are complete lines, those from \<open>w\<close> to \<open>e\<close> the line being edited.  The parts of \<open>consoleread\<close>
  and \<open>consolewrite\<close> that lock the inode are in \<open>Dir\<close>.
\<close>

abbreviation (input) INPUT_BUF :: nat where "INPUT_BUF \<equiv> 128"
abbreviation (input) BACKSPACE :: int where "BACKSPACE \<equiv> 256"

section \<open>State\<close>

text \<open>The cursor position is in a register of the video card, the text in its memory; \<open>uart\<close> is
  what has been sent to the serial port.\<close>

record screen =
  crt :: "nat \<Rightarrow> u16"
  crt_pos :: int
  uart :: bytes

record console =
  in_buf :: "nat \<Rightarrow> u8"
  in_r :: u32
  in_w :: u32
  in_e :: u32
  scr :: screen

section \<open>Output\<close>

definition cgaputc :: "int \<Rightarrow> screen \<Rightarrow> screen res" where
  "cgaputc c s =
     (let pos = crt_pos s;
          (s, pos) =
            (if c = 10 then (s, pos + (80 - pos mod 80))
             else if c = BACKSPACE then (s, if pos > 0 then pos - 1 else pos)
             else (s\<lparr>crt := (crt s)(nat pos := (word_of_int c AND 255) OR 0x700)\<rparr>, pos + 1))
      in if pos < 0 \<or> pos > 25 * 80 then Panic ''pos under/overflow''
         else
           let (s, pos) =
             (if pos div 80 \<ge> 24 then
                let pos = pos - 80 in
                (s\<lparr>crt := (\<lambda>i. if nat pos \<le> i \<and> i < 24 * 80 then 0
                                else if i < 23 * 80 then crt s (i + 80) else crt s i)\<rparr>, pos)
              else (s, pos))
           in Ok (s\<lparr>crt_pos := pos, crt := (crt s)(nat pos := 0x720)\<rparr>))"

definition uartputc :: "int \<Rightarrow> screen \<Rightarrow> screen" where
  "uartputc c s = s\<lparr>uart := uart s @ [word_of_int c]\<rparr>"

definition consputc :: "int \<Rightarrow> screen \<Rightarrow> screen res" where
  "consputc c s =
     (if c = BACKSPACE then cgaputc c (uartputc 8 (uartputc 32 (uartputc 8 s)))
      else cgaputc c (uartputc c s))"

definition console_puts :: "bytes \<Rightarrow> screen \<Rightarrow> screen res" where
  "console_puts bs s = rfold (\<lambda>b. consputc (uint b)) bs s"

text \<open>\<open>printint\<close> of \<open>cprintf\<close>; the digits come out least significant first into \<open>buf\<close>.\<close>

definition digit :: "nat \<Rightarrow> u8" where
  "digit d = (if d < 10 then 48 + word_of_nat d else 97 + word_of_nat (d - 10))"

function digits_rev :: "nat \<Rightarrow> nat \<Rightarrow> bytes" where
  "digits_rev x base = (if base < 2 then [] else
     digit (x mod base) # (if x div base = 0 then [] else digits_rev (x div base) base))"
  by pat_completeness auto
termination
  by (relation "measure fst") (auto simp: not_less div_eq_0_iff)

declare digits_rev.simps [simp del]

definition printint :: "u32 \<Rightarrow> nat \<Rightarrow> bool \<Rightarrow> screen \<Rightarrow> screen res" where
  "printint xx base sign s =
     (let neg = (sign \<and> sint xx < 0);
          x = (if neg then - xx else xx);
          buf = digits_rev (unat x) base;
          buf = (if neg then buf @ [45] else buf)
      in console_puts (rev buf) s)"

section \<open>The interrupt handler\<close>

text \<open>
  \<open>C('U')\<close> erases the line, \<open>C('H')\<close> and delete the last character; anything else is stored and
  echoed, and a newline, \<open>C('D')\<close> or a full buffer completes the line.  The result says whether the
  readers were woken up.
\<close>

function kill_line :: "console \<Rightarrow> console res" where
  "kill_line s =
     (if in_e s \<noteq> in_w s \<and> in_buf s (unat (in_e s - 1) mod INPUT_BUF) \<noteq> 10 then
        rbind (consputc BACKSPACE (scr s)) (\<lambda>t. kill_line (s\<lparr>in_e := in_e s - 1, scr := t\<rparr>))
      else Ok s)"
  by pat_completeness auto
termination
proof (relation "measure (\<lambda>s. unat (in_e s - in_w s))")
  fix s :: console and t
  assume "in_e s \<noteq> in_w s \<and> in_buf s (unat (in_e s - 1) mod INPUT_BUF) \<noteq> 10"
  then have ne: "in_e s - in_w s \<noteq> 0" and eq: "in_e s - 1 - in_w s = in_e s - in_w s - 1" by simp_all
  have "unat (in_e s - in_w s - 1) = unat (in_e s - in_w s) - 1" using ne by (rule unat_minus_one)
  moreover have "0 < unat (in_e s - in_w s)" using ne by (simp add: unat_gt_0)
  ultimately show "(s\<lparr>in_e := in_e s - 1, scr := t\<rparr>, s) \<in> measure (\<lambda>s. unat (in_e s - in_w s))"
    by (simp add: eq)
qed simp

declare kill_line.simps [simp del]

definition store_char :: "int \<Rightarrow> console \<Rightarrow> (bool \<times> console) res" where
  "store_char c s =
     (if c \<noteq> 0 \<and> in_e s - in_r s < 128 then
        let c = (if c = 13 then 10 else c);
            s = s\<lparr>in_buf := (in_buf s)(unat (in_e s) mod INPUT_BUF := word_of_int c), in_e := in_e s + 1\<rparr>
        in rbind (consputc c (scr s)) (\<lambda>t. let s = s\<lparr>scr := t\<rparr> in
           if c = 10 \<or> c = 4 \<or> in_e s = in_r s + 128 then Ok (True, s\<lparr>in_w := in_e s\<rparr>)
           else Ok (False, s))
      else Ok (False, s))"

definition intr_char :: "int \<Rightarrow> console \<Rightarrow> (bool \<times> console) res" where
  "intr_char c s =
     (if c = 16 then Ok (False, s)
      else if c = 21 then rbind (kill_line s) (\<lambda>s. Ok (False, s))
      else if c = 8 \<or> c = 127 then
        (if in_e s \<noteq> in_w s then
           rbind (consputc BACKSPACE (scr s)) (\<lambda>t. Ok (False, s\<lparr>in_e := in_e s - 1, scr := t\<rparr>))
         else Ok (False, s))
      else store_char c s)"

text \<open>\<open>consoleintr\<close> takes the characters \<open>getc\<close> returns before a negative one; the result says whether
  a process listing was asked for and whether readers were woken up.\<close>

fun consoleintr :: "int list \<Rightarrow> bool \<times> bool \<times> console \<Rightarrow> (bool \<times> bool \<times> console) res" where
  "consoleintr [] r = Ok r"
| "consoleintr (c # cs) (dump, woke, s) =
     (if c < 0 then Ok (dump, woke, s)
      else rbind (intr_char c s) (\<lambda>(w, s). consoleintr cs (dump \<or> c = 16, woke \<or> w, s)))"

section \<open>Reading\<close>

text \<open>The loop of \<open>consoleread\<close>: \<open>None\<close> is the return of \<open>-1\<close> to a killed process.\<close>

fun cread :: "bool \<Rightarrow> nat \<Rightarrow> nat \<Rightarrow> bytes \<Rightarrow> console \<Rightarrow> (bytes option \<times> console) res" where
  "cread killed target 0 acc s = Ok (Some acc, s)"
| "cread killed target (Suc n) acc s =
     (if in_r s = in_w s then (if killed then Ok (None, s) else Waits)
      else
        let c = in_buf s (unat (in_r s) mod INPUT_BUF); s1 = s\<lparr>in_r := in_r s + 1\<rparr> in
        if c = 4 then Ok (Some acc, if Suc n < target then s1\<lparr>in_r := in_r s1 - 1\<rparr> else s1)
        else if c = 10 then Ok (Some (acc @ [c]), s1)
        else cread killed target n (acc @ [c]) s1)"

section \<open>The screen\<close>

definition on_screen :: "screen \<Rightarrow> bool" where
  "on_screen s \<longleftrightarrow> 0 \<le> crt_pos s \<and> crt_pos s < 24 * 80"

lemma cgaputc_ok:
  assumes "on_screen s"
  shows "\<exists>s'. cgaputc c s = Ok s' \<and> on_screen s'"
proof -
  have nl: "0 < crt_pos s + (80 - crt_pos s mod 80)" "crt_pos s + (80 - crt_pos s mod 80) \<le> 1920"
    using assms unfolding on_screen_def by presburger+
  have row: "24 \<le> p div 80 \<longleftrightarrow> 1920 \<le> p" for p :: int by presburger
  consider "c = 10" | "c \<noteq> 10" "c = BACKSPACE" | "c \<noteq> 10" "c \<noteq> BACKSPACE" by blast
  then show ?thesis
    by cases (use nl assms in \<open>auto simp: cgaputc_def on_screen_def Let_def row\<close>)
qed

lemma consputc_ok: "on_screen s \<Longrightarrow> \<exists>s'. consputc c s = Ok s' \<and> on_screen s'"
proof -
  assume "on_screen s"
  then have "on_screen (uartputc 8 (uartputc 32 (uartputc 8 s)))" "on_screen (uartputc c s)"
    by (simp_all add: on_screen_def uartputc_def)
  from this [THEN cgaputc_ok] show ?thesis by (simp add: consputc_def)
qed

section \<open>The input buffer\<close>

interpretation input: bounded_fifo "ring_list 128" "ring_push 128" "ring_pop 128"
  "\<lambda>(buf, r, w). w = r + word_of_nat 128" "\<lambda>(buf, r, w). r = w" 128
  by (rule ring_fifo) simp_all

definition completed :: "console \<Rightarrow> bytes" where
  "completed s = ring_list 128 (in_buf s, in_r s, in_w s)"

definition typed :: "console \<Rightarrow> bytes" where
  "typed s = ring_list 128 (in_buf s, in_r s, in_e s)"

definition console_ok :: "console \<Rightarrow> bool" where
  "console_ok s \<longleftrightarrow> ring_len (in_r s) (in_w s) \<le> ring_len (in_r s) (in_e s) \<and>
     ring_len (in_r s) (in_e s) \<le> 128 \<and> on_screen (scr s)"

lemma ring_list_take:
  assumes "ring_len r w \<le> ring_len r e"
  shows "ring_list N (buf, r, w) = take (ring_len r w) (ring_list N (buf, r, e))"
  using assms by (simp add: ring_list_def take_map)

lemma completed_prefix: "console_ok s \<Longrightarrow> completed s = take (ring_len (in_r s) (in_w s)) (typed s)"
  by (simp add: completed_def typed_def console_ok_def ring_list_take)

text \<open>What \<open>consoleread\<close> takes from the completed bytes; \<open>None\<close>: it must wait for more.\<close>

fun read_line :: "nat \<Rightarrow> nat \<Rightarrow> bytes \<Rightarrow> bytes \<Rightarrow> (bytes \<times> bytes) option" where
  "read_line target 0 acc xs = Some (acc, xs)"
| "read_line target (Suc n) acc [] = None"
| "read_line target (Suc n) acc (x # xs) =
     (if x = 4 then Some (acc, if Suc n < target then x # xs else xs)
      else if x = 10 then Some (acc @ [x], xs)
      else read_line target n (acc @ [x]) xs)"

lemma cread_read_line:
  "cread killed target n acc s =
     (case read_line target n acc (completed s) of
        Some (out, rest) \<Rightarrow> Ok (Some out, s\<lparr>in_r := in_r s + word_of_nat (length (completed s) - length rest)\<rparr>)
      | None \<Rightarrow> if killed then Ok (None, s\<lparr>in_r := in_w s\<rparr>) else Waits)"
proof (induction n arbitrary: acc s)
  case (Suc n)
  show ?case
  proof (cases "in_r s = in_w s")
    case True
    then have "completed s = []" by (simp add: completed_def ring_list_def ring_len_def)
    with True show ?thesis by simp
  next
    case False
    let ?c = "in_buf s (unat (in_r s) mod 128)" and ?t = "s\<lparr>in_r := in_r s + 1\<rparr>"
    have c: "completed s = ?c # completed ?t"
      using ring_pop_list [OF False, of 128 "in_buf s"] by (simp add: completed_def ring_pop_def)
    show ?thesis
    proof (cases "?c = 4 \<or> ?c = 10")
      case True
      then show ?thesis using False by (auto simp: c Let_def)
    next
      case c': False
      have len: "length rest \<le> length xs" if "read_line tg n acc xs = Some (out, rest)" for tg n acc xs out rest
        using that by (induction tg n acc xs rule: read_line.induct) (auto split: if_splits)
      have "cread killed target (Suc n) acc s = cread killed target n (acc @ [?c]) ?t"
        using False c' by (simp add: Let_def)
      also have "\<dots> = (case read_line target n (acc @ [?c]) (completed ?t) of
          Some (out, rest) \<Rightarrow> Ok (Some out, ?t\<lparr>in_r := in_r ?t + word_of_nat (length (completed ?t) - length rest)\<rparr>)
        | None \<Rightarrow> if killed then Ok (None, ?t\<lparr>in_r := in_w ?t\<rparr>) else Waits)" by (rule Suc.IH)
      also have "\<dots> = (case read_line target (Suc n) acc (completed s) of
          Some (out, rest) \<Rightarrow> Ok (Some out, s\<lparr>in_r := in_r s + word_of_nat (length (completed s) - length rest)\<rparr>)
        | None \<Rightarrow> if killed then Ok (None, s\<lparr>in_r := in_w s\<rparr>) else Waits)"
        using c' len [of target n "acc @ [?c]" "completed ?t"]
        by (auto simp: c Suc_diff_le add.assoc split: option.splits)
      finally show ?thesis .
    qed
  qed
qed simp

lemma erase_ok:
  assumes ok: "console_ok s" and ne: "in_e s \<noteq> in_w s" and t: "on_screen t"
  shows "console_ok (s\<lparr>in_e := in_e s - 1, scr := t\<rparr>)"
proof -
  have "ring_len (in_r s) (in_w s) \<noteq> ring_len (in_r s) (in_e s)"
    using ne unfolding ring_len_def by (metis word_unat_eq_iff diff_add_cancel)
  then have lt: "ring_len (in_r s) (in_w s) < ring_len (in_r s) (in_e s)" using ok by (simp add: console_ok_def)
  then have "in_e s - in_r s \<noteq> 0" by (auto simp: ring_len_def)
  then have "unat (in_e s - in_r s - 1) = unat (in_e s - in_r s) - 1" by (rule unat_minus_one)
  moreover have "in_e s - 1 - in_r s = in_e s - in_r s - 1" by simp
  ultimately have "ring_len (in_r s) (in_e s - 1) = ring_len (in_r s) (in_e s) - 1" by (simp only: ring_len_def)
  with lt ok t show ?thesis by (auto simp: console_ok_def)
qed

lemma kill_line_ok:
  assumes "console_ok s"
  shows "\<exists>s'. kill_line s = Ok s' \<and> console_ok s' \<and> in_r s' = in_r s \<and> in_w s' = in_w s \<and>
    in_buf s' = in_buf s \<and> (in_e s' = in_w s' \<or> in_buf s (unat (in_e s' - 1) mod 128) = 10)"
  using assms
proof (induction s rule: kill_line.induct)
  case (1 s)
  show ?case
  proof (cases "in_e s \<noteq> in_w s \<and> in_buf s (unat (in_e s - 1) mod 128) \<noteq> 10")
    case False
    then show ?thesis using 1(2) by (subst kill_line.simps) (auto)
  next
    case True
    from 1(2) consputc_ok obtain t where t: "consputc 256 (scr s) = Ok t" "on_screen t"
      unfolding console_ok_def by blast
    let ?s = "s\<lparr>in_e := in_e s - 1, scr := t\<rparr>"
    have "console_ok ?s" using True by (intro erase_ok [OF 1(2) _ t(2)]) simp
    from 1(1) [OF _ t(1) this] True t(1) show ?thesis by (subst kill_line.simps) auto
  qed
qed

lemma store_char_ok:
  assumes ok: "console_ok s"
  shows "\<exists>w s'. store_char c s = Ok (w, s') \<and> console_ok s' \<and> in_r s' = in_r s \<and>
    completed s' = (if w then typed s' else completed s) \<and>
    typed s' = (if c \<noteq> 0 \<and> length (typed s) < 128 then typed s @ [word_of_int (if c = 13 then 10 else c)]
      else typed s)"
proof (cases "c \<noteq> 0 \<and> in_e s - in_r s < 128")
  case False
  then have no: "(c \<noteq> 0 \<and> length (typed s) < 128) = False"
    by (simp add: typed_def ring_list_def ring_len_def word_less_nat_alt)
  have "store_char c s = Ok (False, s)" using False unfolding store_char_def by (simp only: if_False)
  then show ?thesis using ok unfolding no by (intro exI [of _ False] exI [of _ s]) simp
next
  case True
  let ?c = "if c = 13 then 10 else c"
  let ?t = "s\<lparr>in_buf := (in_buf s)(unat (in_e s) mod 128 := word_of_int ?c), in_e := in_e s + 1\<rparr>"
  from ok consputc_ok obtain v where v: "consputc ?c (scr s) = Ok v" "on_screen v"
    unfolding console_ok_def by blast
  have len: "ring_len (in_r s) (in_e s) < 128" "length (typed s) < 128"
    using True by (simp_all add: typed_def ring_list_def ring_len_def word_less_nat_alt)
  have e: "ring_len (in_r s) (in_e s + 1) = Suc (ring_len (in_r s) (in_e s))"
    by (rule ring_len_push [OF len(1)]) simp
  have ty: "typed ?t = typed s @ [word_of_int ?c]"
    using ring_push_list [of 128 "in_r s" "in_e s" "word_of_int ?c" "in_buf s"] len(1)
    by (simp add: typed_def ring_push_def)
  have ok': "console_ok (?t\<lparr>scr := v\<rparr>)" "console_ok (?t\<lparr>scr := v, in_w := in_e s + 1\<rparr>)"
    using ok v(2) e len(1) by (auto simp: console_ok_def)
  have ty': "typed (?t\<lparr>scr := v\<rparr>) = typed ?t" "typed (?t\<lparr>scr := v, in_w := in_e s + 1\<rparr>) = typed ?t"
    "completed (?t\<lparr>scr := v, in_w := in_e s + 1\<rparr>) = typed ?t"
    by (simp_all add: typed_def completed_def)
  have "completed (?t\<lparr>scr := v\<rparr>) = completed s"
  proof -
    have le: "ring_len (in_r s) (in_w s) \<le> length (typed s)"
      using ok by (simp add: console_ok_def typed_def ring_list_def)
    have "completed (?t\<lparr>scr := v\<rparr>) = take (ring_len (in_r s) (in_w s)) (typed s @ [word_of_int ?c])"
      using completed_prefix [OF ok'(1)] ty ty'(1) by simp
    also have "\<dots> = completed s" using le completed_prefix [OF ok] by simp
    finally show ?thesis .
  qed
  then have c: "completed (?t\<lparr>scr := v\<rparr>) = completed s" .
  have run: "store_char c s = (if ?c = 10 \<or> ?c = 4 \<or> in_e s + 1 = in_r s + 128
      then Ok (True, ?t\<lparr>scr := v, in_w := in_e s + 1\<rparr>) else Ok (False, ?t\<lparr>scr := v\<rparr>))"
    using True v(1) unfolding store_char_def Let_def by simp
  have cond: "(c \<noteq> 0 \<and> length (typed s) < 128) = True" using True len(2) by blast
  show ?thesis
  proof (cases "?c = 10 \<or> ?c = 4 \<or> in_e s + 1 = in_r s + 128")
    case True
    then show ?thesis unfolding run cond using ok'(2) ty ty'
      by (intro exI [of _ True] exI [of _ "?t\<lparr>scr := v, in_w := in_e s + 1\<rparr>"]) simp
  next
    case False
    then show ?thesis unfolding run cond using ok'(1) ty ty' c
      by (intro exI [of _ False] exI [of _ "?t\<lparr>scr := v\<rparr>"]) simp
  qed
qed

lemma intr_char_ok:
  assumes ok: "console_ok s"
  shows "\<exists>w s'. intr_char c s = Ok (w, s') \<and> console_ok s'"
proof -
  consider "c = 16" | "c = 21" | "c = 8 \<or> c = 127" | "c \<noteq> 16" "c \<noteq> 21" "c \<noteq> 8" "c \<noteq> 127" by blast
  then show ?thesis
  proof cases
    case 1
    then show ?thesis using ok by (auto simp: intr_char_def)
  next
    case 2
    from kill_line_ok [OF ok] obtain s' where "kill_line s = Ok s'" "console_ok s'" by blast
    then show ?thesis by (auto simp: intr_char_def 2)
  next
    case 3
    from ok consputc_ok obtain t where t: "consputc 256 (scr s) = Ok t" "on_screen t"
      unfolding console_ok_def by blast
    show ?thesis
    proof (cases "in_e s = in_w s")
      case True
      then show ?thesis using 3 ok by (auto simp: intr_char_def)
    next
      case False
      with erase_ok [OF ok False t(2)] t(1) 3 show ?thesis by (auto simp: intr_char_def)
    qed
  next
    case 4
    then have "intr_char c s = store_char c s" by (simp add: intr_char_def)
    with store_char_ok [OF ok, of c] show ?thesis by auto
  qed
qed

text \<open>C3. The console interrupt handler is safe for every sequence of keys: it never panics, the
  indices keep their order (\<open>r\<close>, \<open>w\<close>, \<open>e\<close> and at most 128 bytes apart, counters wrapping around) and the
  cursor stays on the screen.\<close>

theorem consoleintr_safe:
  assumes "console_ok s"
  shows "\<exists>dump' woke' s'. consoleintr cs (dump, woke, s) = Ok (dump', woke', s') \<and> console_ok s'"
  using assms
proof (induction cs arbitrary: dump woke s)
  case (Cons c cs)
  from intr_char_ok [OF Cons.prems, of c] obtain w t where t: "intr_char c s = Ok (w, t)" "console_ok t" by blast
  show ?case
  proof (cases "c < 0")
    case True
    then show ?thesis using Cons.prems by simp
  next
    case False
    with Cons.IH [OF t(2), of "dump \<or> c = 16" "woke \<or> w"] t(1) show ?thesis by simp
  qed
qed simp

definition blank_console :: console where
  "blank_console = \<lparr>in_buf = (\<lambda>_. 0), in_r = 0, in_w = 0, in_e = 0,
     scr = \<lparr>crt = (\<lambda>_. 0), crt_pos = 0, uart = []\<rparr>\<rparr>"

theorem consoleintr_safe_witness:
  "\<exists>dump' woke' s'. consoleintr [108, 115, 8, 13, 16] (False, False, blank_console) = Ok (dump', woke', s') \<and>
    console_ok s'"
  by (rule consoleintr_safe) (simp add: blank_console_def console_ok_def on_screen_def ring_len_def)

text \<open>\<open>consoleread\<close> implements line-wise reading of the completed input: it returns the longest prefix
  of at most \<open>n\<close> bytes that ends at a newline, keeps an end-of-file mark for the next call when bytes
  precede it, and waits exactly when the completed bytes run out first.\<close>

theorem consoleread_line:
  "cread False n n [] s =
     (case read_line n n [] (completed s) of
        Some (out, rest) \<Rightarrow> Ok (Some out, s\<lparr>in_r := in_r s + word_of_nat (length (completed s) - length rest)\<rparr>)
      | None \<Rightarrow> Waits)"
  by (simp add: cread_read_line split: option.splits)

end
