(* ===== verification/Inode.thy ===== *)
theory Inode imports Journal Console begin

text \<open>
  Disk blocks and inodes (the first half of \<open>fs.c\<close>): the free-block bitmap, the on-disk inode with its
  bit-fields for the link count and the permissions, the inode cache with its reference counts, and the
  map from file blocks to disk blocks.  A pointer to a cached inode is its index.
\<close>

abbreviation (input) NINODE :: nat where "NINODE \<equiv> 50"
abbreviation (input) NDIRECT :: nat where "NDIRECT \<equiv> 12"
abbreviation (input) NINDIRECT :: nat where "NINDIRECT \<equiv> 128"
abbreviation (input) BPB :: nat where "BPB \<equiv> 4096"
abbreviation (input) T_DIR :: u16 where "T_DIR \<equiv> 1"
abbreviation (input) T_FILE :: u16 where "T_FILE \<equiv> 2"
abbreviation (input) T_DEV :: u16 where "T_DEV \<equiv> 3"

section \<open>State\<close>

record inode =
  i_dev :: u32
  i_inum :: u32
  i_ref :: int
  i_lock :: sleeplock
  i_valid :: bool
  i_type :: u16
  i_major :: u16
  i_minor :: u16
  i_nlink :: u16
  i_size :: u32
  i_addrs :: "u32 list"
  i_perm :: u32

record fs_state = log_state +
  sb :: superblock
  inodes :: "nat \<Rightarrow> inode"
  cons :: console

definition upd_inode :: "nat \<Rightarrow> (inode \<Rightarrow> inode) \<Rightarrow> 'a fs_state_scheme \<Rightarrow> 'a fs_state_scheme" where
  "upd_inode i f s = s\<lparr>inodes := (inodes s)(i := f (inodes s i))\<rparr>"

section \<open>Blocks\<close>

definition BBLOCK :: "u32 \<Rightarrow> superblock \<Rightarrow> u32" where
  "BBLOCK b su = b div word_of_nat BPB + sb_bmapstart su"

definition IBLOCK :: "u32 \<Rightarrow> superblock \<Rightarrow> u32" where
  "IBLOCK i su = i div 8 + sb_inodestart su"

definition bzero :: "u32 \<Rightarrow> u32 \<Rightarrow> 'a log_state_scheme \<Rightarrow> 'a log_state_scheme res" where
  "bzero dev bno s =
     rbind (bread dev bno s) (\<lambda>(bp, s).
     rbind (log_write bp (set_data bp (replicate BSIZE 0) s)) (\<lambda>s.
     brelse bp s))"

text \<open>Bit \<open>bi\<close> of a bitmap block, and the block with that bit set or cleared.\<close>

definition bit_mask :: "nat \<Rightarrow> u8" where
  "bit_mask bi = push_bit (bi mod 8) 1"

definition in_use :: "bytes \<Rightarrow> nat \<Rightarrow> bool" where
  "in_use bs bi \<longleftrightarrow> bs ! (bi div 8) AND bit_mask bi \<noteq> 0"

definition mark_used :: "nat \<Rightarrow> bytes \<Rightarrow> bytes" where
  "mark_used bi bs = bs[bi div 8 := bs ! (bi div 8) OR bit_mask bi]"

definition mark_free :: "nat \<Rightarrow> bytes \<Rightarrow> bytes" where
  "mark_free bi bs = bs[bi div 8 := bs ! (bi div 8) AND NOT (bit_mask bi)]"

text \<open>
  \<open>balloc\<close> scans the bitmap blocks for \<open>b = 0, BPB, \<dots> < sb.size\<close> and in each one the bits of the blocks
  below \<open>sb.size\<close>.
\<close>

primrec balloc_scan :: "u32 \<Rightarrow> nat list \<Rightarrow> 'a fs_state_scheme \<Rightarrow> (u32 \<times> 'a fs_state_scheme) res" where
  "balloc_scan dev [] s = Panic ''balloc: out of blocks''"
| "balloc_scan dev (b # bs) s =
     rbind (bread dev (BBLOCK (word_of_nat b) (sb s)) s) (\<lambda>(bp, s).
     case first_index (\<lambda>bi. \<not> in_use (b_data (bufs s bp)) bi) (min BPB (unat (sb_size (sb s)) - b)) of
       Some bi \<Rightarrow>
         rbind (log_write bp (set_data bp (mark_used bi (b_data (bufs s bp))) s)) (\<lambda>s.
         rbind (brelse bp s) (\<lambda>s.
         rbind (bzero dev (word_of_nat (b + bi)) s) (\<lambda>s.
         Ok (word_of_nat (b + bi), s))))
     | None \<Rightarrow> rbind (brelse bp s) (balloc_scan dev bs))"

definition balloc :: "u32 \<Rightarrow> 'a fs_state_scheme \<Rightarrow> (u32 \<times> 'a fs_state_scheme) res" where
  "balloc dev s =
     balloc_scan dev (map (\<lambda>k. k * BPB) [0..<(unat (sb_size (sb s)) + BPB - 1) div BPB]) s"

definition bfree :: "u32 \<Rightarrow> u32 \<Rightarrow> 'a fs_state_scheme \<Rightarrow> 'a fs_state_scheme res" where
  "bfree dev b s =
     rbind (bread dev (BBLOCK b (sb s)) s) (\<lambda>(bp, s).
     let bi = unat b mod BPB in
     if \<not> in_use (b_data (bufs s bp)) bi then Panic ''freeing free block''
     else
       rbind (log_write bp (set_data bp (mark_free bi (b_data (bufs s bp))) s)) (\<lambda>s.
       brelse bp s))"

section \<open>The on-disk inode\<close>

text \<open>
  \<open>struct dinode\<close>, 64 bytes, packed.  The 16-bit word at offset 6 holds the two bit-fields: the link
  count in its low 13 bits, the permissions in the upper three.
\<close>

record dinode =
  di_type :: u16
  di_major :: u16
  di_minor :: u16
  di_nlink :: u16
  di_perm :: u32
  di_size :: u32
  di_addrs :: "u32 list"

definition pack_links :: "u16 \<Rightarrow> u32 \<Rightarrow> u16" where
  "pack_links nlink perm = take_bit 13 nlink OR push_bit 13 (ucast (take_bit 3 perm))"

definition enc_dinode :: "dinode \<Rightarrow> bytes" where
  "enc_dinode d = enc16 (di_type d) @ enc16 (di_major d) @ enc16 (di_minor d) @
     enc16 (pack_links (di_nlink d) (di_perm d)) @ enc32 (di_size d) @ concat (map enc32 (di_addrs d))"

definition dec_dinode :: "bytes \<Rightarrow> dinode" where
  "dec_dinode bs = \<lparr>di_type = get16 0 bs, di_major = get16 2 bs, di_minor = get16 4 bs,
     di_nlink = take_bit 13 (get16 6 bs), di_perm = ucast (drop_bit 13 (get16 6 bs)),
     di_size = get32 8 bs, di_addrs = map (\<lambda>k. get32 (12 + 4 * k) bs) [0..<13]\<rparr>"

definition dinode_of :: "inode \<Rightarrow> dinode" where
  "dinode_of ip = \<lparr>di_type = i_type ip, di_major = i_major ip, di_minor = i_minor ip,
     di_nlink = i_nlink ip, di_perm = i_perm ip, di_size = i_size ip, di_addrs = i_addrs ip\<rparr>"

definition load_dinode :: "dinode \<Rightarrow> inode \<Rightarrow> inode" where
  "load_dinode d ip = ip\<lparr>i_type := di_type d, i_major := di_major d, i_minor := di_minor d,
     i_nlink := di_nlink d, i_size := di_size d, i_perm := di_perm d, i_addrs := di_addrs d\<rparr>"

definition di_off :: "u32 \<Rightarrow> nat" where
  "di_off inum = unat (inum mod 8) * 64"

section \<open>The inode cache\<close>

definition iinit :: "u32 \<Rightarrow> 'a fs_state_scheme \<Rightarrow> 'a fs_state_scheme res" where
  "iinit dev s =
     (let s = s\<lparr>inodes := (\<lambda>i. if i < NINODE then (inodes s i)\<lparr>i_lock := initsleeplock\<rparr> else inodes s i)\<rparr> in
      rbind (readsb dev s) (\<lambda>(sbk, s). Ok (s\<lparr>sb := sbk\<rparr>)))"

text \<open>
  \<open>iget\<close> looks for the inode among the entries in use and remembers the first empty entry on the way;
  the scan stops at the entry it finds.
\<close>

definition iget :: "u32 \<Rightarrow> u32 \<Rightarrow> 'a fs_state_scheme \<Rightarrow> (nat \<times> 'a fs_state_scheme) res" where
  "iget dev inum s =
     (case first_index (\<lambda>i. i_ref (inodes s i) > 0 \<and> i_dev (inodes s i) = dev \<and> i_inum (inodes s i) = inum) NINODE of
        Some i \<Rightarrow> Ok (i, upd_inode i (\<lambda>ip. ip\<lparr>i_ref := i_ref ip + 1\<rparr>) s)
      | None \<Rightarrow>
        (case first_index (\<lambda>i. i_ref (inodes s i) = 0) NINODE of
           None \<Rightarrow> Panic ''iget: no inodes''
         | Some i \<Rightarrow>
             Ok (i, upd_inode i (\<lambda>ip. ip\<lparr>i_dev := dev, i_inum := inum, i_ref := 1, i_valid := False\<rparr>) s)))"

primrec ialloc_scan :: "u32 \<Rightarrow> u16 \<Rightarrow> nat list \<Rightarrow> 'a fs_state_scheme \<Rightarrow> (nat \<times> 'a fs_state_scheme) res" where
  "ialloc_scan dev ty [] s = Panic ''ialloc: no inodes''"
| "ialloc_scan dev ty (n # ns) s =
     rbind (bread dev (IBLOCK (word_of_nat n) (sb s)) s) (\<lambda>(bp, s).
     let d = b_data (bufs s bp); off = di_off (word_of_nat n) in
     if get16 off d = 0 then
       rbind (log_write bp (set_data bp (blit off (put16 0 ty (replicate 64 0)) d) s)) (\<lambda>s.
       rbind (brelse bp s) (\<lambda>s.
       iget dev (word_of_nat n) s))
     else rbind (brelse bp s) (ialloc_scan dev ty ns))"

definition ialloc :: "u32 \<Rightarrow> u16 \<Rightarrow> 'a fs_state_scheme \<Rightarrow> (nat \<times> 'a fs_state_scheme) res" where
  "ialloc dev ty s = ialloc_scan dev ty [1..<unat (sb_ninodes (sb s))] s"

definition iupdate :: "nat \<Rightarrow> 'a fs_state_scheme \<Rightarrow> 'a fs_state_scheme res" where
  "iupdate i s =
     (let ip = inodes s i in
      rbind (bread (i_dev ip) (IBLOCK (i_inum ip) (sb s)) s) (\<lambda>(bp, s).
      rbind (log_write bp (set_data bp (blit (di_off (i_inum ip)) (enc_dinode (dinode_of ip)) (b_data (bufs s bp))) s)) (\<lambda>s.
      brelse bp s)))"

definition idup :: "nat \<Rightarrow> 'a fs_state_scheme \<Rightarrow> nat \<times> 'a fs_state_scheme" where
  "idup i s = (i, upd_inode i (\<lambda>ip. ip\<lparr>i_ref := i_ref ip + 1\<rparr>) s)"

definition ilock :: "nat option \<Rightarrow> 'a fs_state_scheme \<Rightarrow> 'a fs_state_scheme res" where
  "ilock p s =
     (case p of
        None \<Rightarrow> Panic ''ilock''
      | Some i \<Rightarrow>
        if i_ref (inodes s i) < 1 then Panic ''ilock''
        else
          rbind (acquiresleep (mypid s) (i_lock (inodes s i))) (\<lambda>l.
          let s = upd_inode i (\<lambda>ip. ip\<lparr>i_lock := l\<rparr>) s in
          if \<not> i_valid (inodes s i) then
            rbind (bread (i_dev (inodes s i)) (IBLOCK (i_inum (inodes s i)) (sb s)) s) (\<lambda>(bp, s).
            let d = dec_dinode (slice (di_off (i_inum (inodes s i))) 64 (b_data (bufs s bp)));
                s = upd_inode i (load_dinode d) s
            in rbind (brelse bp s) (\<lambda>s.
               let s = upd_inode i (\<lambda>ip. ip\<lparr>i_valid := True\<rparr>) s in
               if i_type (inodes s i) = 0 then Panic ''ilock: no type'' else Ok s))
          else Ok s))"

definition iunlock :: "nat option \<Rightarrow> 'a fs_state_scheme \<Rightarrow> 'a fs_state_scheme res" where
  "iunlock p s =
     (case p of
        None \<Rightarrow> Panic ''iunlock''
      | Some i \<Rightarrow>
        if \<not> holdingsleep (mypid s) (i_lock (inodes s i)) \<or> i_ref (inodes s i) < 1 then Panic ''iunlock''
        else Ok (wakeup (ChInode i) (upd_inode i (\<lambda>ip. ip\<lparr>i_lock := releasesleep (i_lock ip)\<rparr>) s)))"

section \<open>The blocks of a file\<close>

definition bmap :: "nat \<Rightarrow> u32 \<Rightarrow> 'a fs_state_scheme \<Rightarrow> (u32 \<times> 'a fs_state_scheme) res" where
  "bmap i bn s =
     (let ip = inodes s i in
      if bn < word_of_nat NDIRECT then
        (if i_addrs ip ! unat bn = 0 then
           rbind (balloc (i_dev ip) s) (\<lambda>(addr, s).
           Ok (addr, upd_inode i (\<lambda>ip. ip\<lparr>i_addrs := (i_addrs ip)[unat bn := addr]\<rparr>) s))
         else Ok (i_addrs ip ! unat bn, s))
      else
        let bn = bn - word_of_nat NDIRECT in
        if bn < word_of_nat NINDIRECT then
          rbind (if i_addrs ip ! NDIRECT = 0 then
                   rbind (balloc (i_dev ip) s) (\<lambda>(addr, s).
                   Ok (addr, upd_inode i (\<lambda>ip. ip\<lparr>i_addrs := (i_addrs ip)[NDIRECT := addr]\<rparr>) s))
                 else Ok (i_addrs ip ! NDIRECT, s)) (\<lambda>(addr, s).
          rbind (bread (i_dev ip) addr s) (\<lambda>(bp, s).
          let a = get32 (4 * unat bn) (b_data (bufs s bp)) in
          rbind (if a = 0 then
                   rbind (balloc (i_dev ip) s) (\<lambda>(addr, s).
                   rbind (log_write bp (set_data bp (put32 (4 * unat bn) addr (b_data (bufs s bp))) s)) (\<lambda>s.
                   Ok (addr, s)))
                 else Ok (a, s)) (\<lambda>(addr, s).
          rbind (brelse bp s) (\<lambda>s. Ok (addr, s)))))
        else Panic ''bmap: out of range'')"

definition itrunc :: "nat \<Rightarrow> 'a fs_state_scheme \<Rightarrow> 'a fs_state_scheme res" where
  "itrunc i s =
     rbind (rfold (\<lambda>k s.
         let ip = inodes s i in
         if i_addrs ip ! k \<noteq> 0 then
           rbind (bfree (i_dev ip) (i_addrs ip ! k) s) (\<lambda>s.
           Ok (upd_inode i (\<lambda>ip. ip\<lparr>i_addrs := (i_addrs ip)[k := 0]\<rparr>) s))
         else Ok s) [0..<NDIRECT] s) (\<lambda>s.
     let ip = inodes s i in
     rbind (if i_addrs ip ! NDIRECT \<noteq> 0 then
              rbind (bread (i_dev ip) (i_addrs ip ! NDIRECT) s) (\<lambda>(bp, s).
              rbind (rfold (\<lambda>j s.
                  let a = get32 (4 * j) (b_data (bufs s bp)) in
                  if a \<noteq> 0 then bfree (i_dev ip) a s else Ok s) [0..<NINDIRECT] s) (\<lambda>s.
              rbind (brelse bp s) (\<lambda>s.
              rbind (bfree (i_dev ip) (i_addrs ip ! NDIRECT) s) (\<lambda>s.
              Ok (upd_inode i (\<lambda>ip. ip\<lparr>i_addrs := (i_addrs ip)[NDIRECT := 0]\<rparr>) s)))))
            else Ok s) (\<lambda>s.
     iupdate i (upd_inode i (\<lambda>ip. ip\<lparr>i_size := 0\<rparr>) s)))"

definition iput :: "nat \<Rightarrow> 'a fs_state_scheme \<Rightarrow> 'a fs_state_scheme res" where
  "iput i s =
     rbind (acquiresleep (mypid s) (i_lock (inodes s i))) (\<lambda>l.
     let s = upd_inode i (\<lambda>ip. ip\<lparr>i_lock := l\<rparr>) s in
     rbind (if i_valid (inodes s i) \<and> i_nlink (inodes s i) = 0 then
              if i_ref (inodes s i) = 1 then
                rbind (itrunc i s) (\<lambda>s.
                rbind (iupdate i (upd_inode i (\<lambda>ip. ip\<lparr>i_type := 0\<rparr>) s)) (\<lambda>s.
                Ok (upd_inode i (\<lambda>ip. ip\<lparr>i_valid := False\<rparr>) s)))
              else Ok s
            else Ok s) (\<lambda>s.
     Ok (upd_inode i (\<lambda>ip. ip\<lparr>i_ref := i_ref ip - 1\<rparr>)
          (wakeup (ChInode i) (upd_inode i (\<lambda>ip. ip\<lparr>i_lock := releasesleep (i_lock ip)\<rparr>) s)))))"

definition iunlockput :: "nat \<Rightarrow> 'a fs_state_scheme \<Rightarrow> 'a fs_state_scheme res" where
  "iunlockput i s = rbind (iunlock (Some i) s) (iput i)"

record stat =
  st_type :: u16
  st_dev :: int
  st_ino :: u32
  st_nlink :: u16
  st_size :: u32

definition stati :: "nat \<Rightarrow> 'a fs_state_scheme \<Rightarrow> stat" where
  "stati i s = (let ip = inodes s i in
     \<lparr>st_type = i_type ip, st_dev = sint (i_dev ip), st_ino = i_inum ip, st_nlink = i_nlink ip, st_size = i_size ip\<rparr>)"

end
