(* ===== verification/CString.thy ===== *)
theory CString imports Prelude begin

text \<open>
  The kernel's string routines (\<open>string.c\<close>) and their user-level copies (\<open>ulib.c\<close>).  A C string is
  a list of bytes read with \<open>ld\<close>, for which everything past the end of the list is zero; routines
  that write take the destination array and return it updated.  \<open>memmove\<close> works inside one array,
  so that source and destination may overlap.
\<close>

definition ld :: "bytes \<Rightarrow> nat \<Rightarrow> u8" where
  "ld s i = (if i < length s then s ! i else 0)"

text \<open>The string a buffer of \<open>n\<close> bytes holds.\<close>

definition cstr :: "nat \<Rightarrow> bytes \<Rightarrow> bytes" where
  "cstr n s = takeWhile (\<lambda>c. c \<noteq> 0) (take n s)"

lemma ld_Cons [simp]: "ld (c # s) 0 = c" "ld (c # s) (Suc i) = ld s i"
  by (simp_all add: ld_def)

lemma ld_Nil [simp]: "ld [] i = 0"
  by (simp add: ld_def)

section \<open>Comparison\<close>

fun memcmp :: "bytes \<Rightarrow> bytes \<Rightarrow> nat \<Rightarrow> nat \<Rightarrow> int" where
  "memcmp s t i 0 = 0"
| "memcmp s t i (Suc n) =
     (if ld s i \<noteq> ld t i then uint (ld s i) - uint (ld t i) else memcmp s t (Suc i) n)"

fun strncmp :: "bytes \<Rightarrow> bytes \<Rightarrow> nat \<Rightarrow> nat \<Rightarrow> int" where
  "strncmp p q i 0 = 0"
| "strncmp p q i (Suc n) =
     (if ld p i \<noteq> 0 \<and> ld p i = ld q i then strncmp p q (Suc i) n
      else uint (ld p i) - uint (ld q i))"

text \<open>\<open>strlen\<close> and \<open>strcmp\<close> stop at the terminating zero, which \<open>ld\<close> supplies at the end of the list.\<close>

function strlen_at :: "bytes \<Rightarrow> nat \<Rightarrow> nat" where
  "strlen_at s n = (if ld s n = 0 then n else strlen_at s (Suc n))"
  by pat_completeness auto
termination
  by (relation "measure (\<lambda>(s, n). length s - n)") (auto simp: ld_def split: if_splits)

declare strlen_at.simps [simp del]

definition strlen :: "bytes \<Rightarrow> nat" where
  "strlen s = strlen_at s 0"

function strcmp_at :: "bytes \<Rightarrow> bytes \<Rightarrow> nat \<Rightarrow> int" where
  "strcmp_at p q i =
     (if ld p i \<noteq> 0 \<and> ld p i = ld q i then strcmp_at p q (Suc i) else uint (ld p i) - uint (ld q i))"
  by pat_completeness auto
termination
  by (relation "measure (\<lambda>(p, q, i). length p - i)") (auto simp: ld_def split: if_splits)

declare strcmp_at.simps [simp del]

section \<open>Copying\<close>

text \<open>The first loop of \<open>strncpy\<close>: the counter that is left, the position reached and the destination.\<close>

fun strncpy_copy :: "nat \<Rightarrow> nat \<Rightarrow> bytes \<Rightarrow> bytes \<Rightarrow> nat \<times> nat \<times> bytes" where
  "strncpy_copy 0 i t d = (0, i, d)"
| "strncpy_copy (Suc n) i t d =
     (if ld t i \<noteq> 0 then strncpy_copy n (Suc i) t (d[i := ld t i]) else (n, Suc i, d[i := 0]))"

fun zero_fill :: "nat \<Rightarrow> nat \<Rightarrow> bytes \<Rightarrow> bytes" where
  "zero_fill 0 i d = d"
| "zero_fill (Suc n) i d = zero_fill n (Suc i) (d[i := 0])"

definition strncpy :: "bytes \<Rightarrow> bytes \<Rightarrow> nat \<Rightarrow> bytes" where
  "strncpy d t n = (case strncpy_copy n 0 t d of (m, i, d) \<Rightarrow> zero_fill m i d)"

fun safestrcpy_loop :: "nat \<Rightarrow> nat \<Rightarrow> bytes \<Rightarrow> bytes \<Rightarrow> bytes" where
  "safestrcpy_loop 0 i t d = d[i := 0]"
| "safestrcpy_loop (Suc n) i t d =
     (if ld t i \<noteq> 0 then safestrcpy_loop n (Suc i) t (d[i := ld t i])
      else (d[i := 0])[Suc i := 0])"

definition safestrcpy :: "bytes \<Rightarrow> bytes \<Rightarrow> int \<Rightarrow> bytes" where
  "safestrcpy d t n = (if n \<le> 0 then d else safestrcpy_loop (nat n - 1) 0 t d)"

text \<open>\<open>memmove\<close> of the kernel chooses the direction; the one of \<open>ulib.c\<close> always copies upwards.\<close>

fun copy_up :: "nat \<Rightarrow> nat \<Rightarrow> nat \<Rightarrow> bytes \<Rightarrow> bytes" where
  "copy_up d s 0 m = m"
| "copy_up d s (Suc n) m = copy_up (Suc d) (Suc s) n (m[d := m ! s])"

fun copy_down :: "nat \<Rightarrow> nat \<Rightarrow> nat \<Rightarrow> bytes \<Rightarrow> bytes" where
  "copy_down d s 0 m = m"
| "copy_down d s (Suc n) m = copy_down d s n (m[d + n := m ! (s + n)])"

definition memmove :: "nat \<Rightarrow> nat \<Rightarrow> nat \<Rightarrow> bytes \<Rightarrow> bytes" where
  "memmove d s n m = (if s < d \<and> d < s + n then copy_down d s n m else copy_up d s n m)"

definition user_memmove :: "nat \<Rightarrow> nat \<Rightarrow> nat \<Rightarrow> bytes \<Rightarrow> bytes" where
  "user_memmove d s n m = copy_up d s n m"

section \<open>What they compute\<close>

lemma length_copy [simp]: "length (copy_up d s n m) = length m" "length (copy_down d s n m) = length m"
  by (induction n arbitrary: d s m) auto

lemma copy_up_nth:
  assumes "d \<le> s \<or> s + n \<le> d" and "d + n \<le> length m" and "s + n \<le> length m" and "i < length m"
  shows "copy_up d s n m ! i = (if d \<le> i \<and> i < d + n then m ! (s + (i - d)) else m ! i)"
  using assms
proof (induction n arbitrary: d s m)
  case (Suc n)
  let ?m = "m[d := m ! s]"
  have "copy_up (Suc d) (Suc s) n ?m ! i =
    (if Suc d \<le> i \<and> i < Suc d + n then ?m ! (Suc s + (i - Suc d)) else ?m ! i)"
    using Suc.prems by (intro Suc.IH) auto
  then show ?case using Suc.prems by (auto simp: nth_list_update Suc_diff_Suc not_less_eq_eq)
qed auto

lemma copy_down_nth:
  assumes "s \<le> d \<or> d + n \<le> s" and "d + n \<le> length m" and "s + n \<le> length m" and "i < length m"
  shows "copy_down d s n m ! i = (if d \<le> i \<and> i < d + n then m ! (s + (i - d)) else m ! i)"
  using assms
proof (induction n arbitrary: m)
  case (Suc n)
  let ?m = "m[d + n := m ! (s + n)]"
  have "copy_down d s n ?m ! i = (if d \<le> i \<and> i < d + n then ?m ! (s + (i - d)) else ?m ! i)"
    using Suc.prems by (intro Suc.IH) auto
  then show ?case using Suc.prems by (auto simp: nth_list_update less_Suc_eq)
qed auto

lemma memmove_blit:
  assumes "d + n \<le> length m" and "s + n \<le> length m"
  shows "memmove d s n m = blit d (slice s n m) m"
proof (rule nth_equalityI)
  fix i
  assume "i < length (memmove d s n m)"
  then have i: "i < length m" by (simp add: memmove_def split: if_splits)
  have "memmove d s n m ! i = (if d \<le> i \<and> i < d + n then m ! (s + (i - d)) else m ! i)"
    unfolding memmove_def using copy_up_nth [of d s n m i] copy_down_nth [of s d n m i] assms i by auto
  then show "memmove d s n m ! i = blit d (slice s n m) m ! i"
    using assms i nth_slice [of "i - d" n s m]
    by (cases "d \<le> i \<and> i < d + n") (auto simp: nth_blit)
qed (use assms in \<open>simp add: memmove_def\<close>)

lemma user_memmove_overlap:
  "user_memmove 1 0 2 [a, b, c] = [a, a, a]"
  by (simp add: user_memmove_def numeral_2_eq_2)

lemma drop_ld: "i < length s \<Longrightarrow> drop i s = ld s i # drop (Suc i) s"
  by (simp add: ld_def Cons_nth_drop_Suc)

lemma cstr_drop_step:
  "cstr (Suc n) (drop i s) = (if ld s i = 0 then [] else ld s i # cstr n (drop (Suc i) s))"
  by (cases "i < length s") (auto simp: cstr_def drop_ld, auto simp: ld_def)

lemma strncmp_zero: "strncmp p q i n = 0 \<longleftrightarrow> cstr n (drop i p) = cstr n (drop i q)"
proof (induction n arbitrary: i)
  case (Suc n)
  have "uint (ld p i) = uint (ld q i) \<longleftrightarrow> ld p i = ld q i" by (simp add: word_uint_eq_iff)
  with Suc show ?case by (auto simp: cstr_drop_step)
qed (simp add: cstr_def)

lemma length_strncpy_copy: "strncpy_copy n i t d = (m, j, d') \<Longrightarrow> length d' = length d \<and> j + m \<le> i + n"
  by (induction n i t d rule: strncpy_copy.induct) (auto split: if_splits)

lemma length_zero_fill [simp]: "length (zero_fill n i d) = length d"
  by (induction n i d rule: zero_fill.induct) auto

lemma zero_fill_nth: "k < length d \<Longrightarrow> zero_fill n i d ! k = (if i \<le> k \<and> k < i + n then 0 else d ! k)"
  by (induction n i d rule: zero_fill.induct) (auto simp: nth_list_update)

lemma strncpy_copy_nth:
  assumes "i + n \<le> length d" and "k < length d"
  shows "(case strncpy_copy n i t d of (m, j, d) \<Rightarrow> zero_fill m j d) ! k =
    (if i \<le> k \<and> k < i + n then (if \<exists>l. i \<le> l \<and> l < k \<and> ld t l = 0 then 0 else ld t k) else d ! k)"
  using assms
proof (induction n arbitrary: i d)
  case (Suc n)
  show ?case
  proof (cases "ld t i = 0")
    case True
    then show ?thesis using Suc.prems by (auto simp: zero_fill_nth nth_list_update)
  next
    case False
    have "(\<exists>l. i \<le> l \<and> l < k \<and> ld t l = 0) \<longleftrightarrow> (\<exists>l. Suc i \<le> l \<and> l < k \<and> ld t l = 0)"
      using False by (metis Suc_leD le_antisym not_less_eq_eq)
    then show ?thesis using False Suc.IH [of "Suc i" "d[i := ld t i]"] Suc.prems
      by (auto simp: nth_list_update)
  qed
qed auto

lemma length_safestrcpy_loop [simp]: "length (safestrcpy_loop n i t d) = length d"
  by (induction n i t d rule: safestrcpy_loop.induct) auto

lemma safestrcpy_loop_nth:
  assumes "i + n < length d" and "k < length d" and "k < i"
  shows "safestrcpy_loop n i t d ! k = d ! k"
  using assms by (induction n i t d rule: safestrcpy_loop.induct) auto

lemma safestrcpy_loop_cstr:
  assumes "i + n < length d"
  shows "cstr (Suc n) (drop i (safestrcpy_loop n i t d)) = cstr n (drop i t)"
  using assms
proof (induction n i t d rule: safestrcpy_loop.induct)
  case (1 i t d)
  then have "ld (safestrcpy_loop 0 i t d) i = 0" by (simp add: ld_def)
  then show ?case by (simp only: cstr_drop_step if_True) (simp add: cstr_def)
next
  case (2 n i t d)
  let ?r = "safestrcpy_loop (Suc n) i t d"
  show ?case
  proof (cases "ld t i = 0")
    case True
    then have "ld ?r i = 0" using 2 by (simp add: ld_def)
    with True show ?thesis unfolding cstr_drop_step [of "Suc n" i] cstr_drop_step [of n i t] by (simp del: safestrcpy_loop.simps)
  next
    case False
    then have "ld ?r i = ld t i" using 2 safestrcpy_loop_nth [of "Suc i" n "d[i := ld t i]" i] by (simp add: ld_def)
    with False 2 show ?thesis unfolding cstr_drop_step [of "Suc n" i] cstr_drop_step [of n i t] by simp
  qed
qed

text \<open>\<open>memmove\<close> of the kernel copies correctly for every overlap of source and destination.\<close>

theorem memmove_correct:
  "d + n \<le> length m \<Longrightarrow> s + n \<le> length m \<Longrightarrow> memmove d s n m = blit d (slice s n m) m"
  by (rule memmove_blit)

theorem memmove_correct_witness:
  "memmove 1 0 2 [7, 8, 9] = blit 1 (slice 0 2 [7, 8, 9]) [7, 8, 9] \<and> memmove 1 0 2 [7, 8, 9] = [7, 7, 8]"
  using memmove_correct [of 1 2 "[7, 8, 9]" 0] by (simp add: blit_def slice_def)

end
