(* ===== verification/Dir.thy ===== *)
theory Dir imports Inode CString begin

text \<open>
  File contents, directories and path names (the second half of \<open>fs.c\<close>), and the device side of
  reading and writing an inode, which is the console.
\<close>

abbreviation (input) NDEV :: int where "NDEV \<equiv> 10"
abbreviation (input) CONSOLE :: int where "CONSOLE \<equiv> 1"
abbreviation (input) MAXFILE :: u32 where "MAXFILE \<equiv> 140"
abbreviation (input) DIRSIZ :: nat where "DIRSIZ \<equiv> 14"

section \<open>The console as a device\<close>

definition consoleread :: "nat \<Rightarrow> int \<Rightarrow> 'a fs_state_scheme \<Rightarrow> (int \<times> bytes \<times> 'a fs_state_scheme) res" where
  "consoleread ip n s =
     rbind (iunlock (Some ip) s) (\<lambda>s.
     rbind (cread (p_killed (myproc s)) (nat n) (nat n) [] (cons s)) (\<lambda>(out, c).
     rbind (ilock (Some ip) (s\<lparr>cons := c\<rparr>)) (\<lambda>s.
     Ok (case out of None \<Rightarrow> (-1, [], s) | Some bs \<Rightarrow> (int (length bs), bs, s)))))"

definition consolewrite :: "nat \<Rightarrow> bytes \<Rightarrow> 'a fs_state_scheme \<Rightarrow> (int \<times> 'a fs_state_scheme) res" where
  "consolewrite ip bs s =
     rbind (iunlock (Some ip) s) (\<lambda>s.
     rbind (console_puts bs (scr (cons s))) (\<lambda>t.
     rbind (ilock (Some ip) (s\<lparr>cons := (cons s)\<lparr>scr := t\<rparr>\<rparr>)) (\<lambda>s.
     Ok (int (length bs), s))))"

text \<open>\<open>devsw\<close>: only \<open>devsw[CONSOLE]\<close> has its functions set, by \<open>consoleinit\<close>.\<close>

definition has_dev :: "u16 \<Rightarrow> bool" where
  "has_dev major \<longleftrightarrow> sint major = CONSOLE"

section \<open>Reading and writing\<close>

text \<open>
  The loops move at most to the end of a block in each round; \<open>n\<close> is what is left.  \<open>dst\<close> and \<open>src\<close>
  are the caller's buffers: the bytes read are returned, the bytes written passed in.
\<close>

definition chunk :: "u32 \<Rightarrow> nat \<Rightarrow> nat" where
  "chunk off n = min n (BSIZE - unat (off mod word_of_nat BSIZE))"

lemma chunk_pos: "0 < n \<Longrightarrow> 0 < chunk off n"
  by (simp add: chunk_def unat_mod)

lemma chunk_le: "chunk off n \<le> n"
  by (simp add: chunk_def)

function readi_loop :: "nat \<Rightarrow> u32 \<Rightarrow> nat \<Rightarrow> bytes \<Rightarrow> 'a fs_state_scheme \<Rightarrow> (bytes \<times> 'a fs_state_scheme) res" where
  "readi_loop ip off n acc s =
     (if n = 0 then Ok (acc, s)
      else
        rbind (bmap ip (off div word_of_nat BSIZE) s) (\<lambda>(addr, s).
        rbind (bread (i_dev (inodes s ip)) addr s) (\<lambda>(bp, s).
        let m = chunk off n; bs = slice (unat (off mod word_of_nat BSIZE)) m (b_data (bufs s bp)) in
        rbind (brelse bp s) (\<lambda>s.
        readi_loop ip (off + word_of_nat m) (n - m) (acc @ bs) s))))"
  by pat_completeness auto
termination
  by (relation "measure (\<lambda>(ip, off, n, acc, s). n)") (auto simp: chunk_pos)

function writei_loop :: "nat \<Rightarrow> u32 \<Rightarrow> bytes \<Rightarrow> 'a fs_state_scheme \<Rightarrow> (u32 \<times> 'a fs_state_scheme) res" where
  "writei_loop ip off src s =
     (if src = [] then Ok (off, s)
      else
        rbind (bmap ip (off div word_of_nat BSIZE) s) (\<lambda>(addr, s).
        rbind (bread (i_dev (inodes s ip)) addr s) (\<lambda>(bp, s).
        let m = chunk off (length src) in
        rbind (log_write bp (set_data bp
                 (blit (unat (off mod word_of_nat BSIZE)) (take m src) (b_data (bufs s bp))) s)) (\<lambda>s.
        rbind (brelse bp s) (\<lambda>s.
        writei_loop ip (off + word_of_nat m) (drop m src) s)))))"
  by pat_completeness auto
termination
  by (relation "measure (\<lambda>(ip, off, src, s). length src)") (auto simp: chunk_pos)

declare readi_loop.simps [simp del] writei_loop.simps [simp del]

definition readi :: "nat \<Rightarrow> u32 \<Rightarrow> u32 \<Rightarrow> 'a fs_state_scheme \<Rightarrow> (int \<times> bytes \<times> 'a fs_state_scheme) res" where
  "readi i off n s =
     (let ip = inodes s i in
      if i_type ip = T_DEV then
        (if sint (i_major ip) < 0 \<or> sint (i_major ip) \<ge> NDEV \<or> \<not> has_dev (i_major ip) then Ok (-1, [], s)
         else consoleread i (sint n) s)
      else if off > i_size ip \<or> off + n < off then Ok (-1, [], s)
      else
        let n = (if off + n > i_size ip then i_size ip - off else n) in
        rbind (readi_loop i off (unat n) [] s) (\<lambda>(bs, s). Ok (sint n, bs, s)))"

definition writei :: "nat \<Rightarrow> bytes \<Rightarrow> u32 \<Rightarrow> u32 \<Rightarrow> 'a fs_state_scheme \<Rightarrow> (int \<times> 'a fs_state_scheme) res" where
  "writei i src off n s =
     (let ip = inodes s i in
      if i_type ip = T_DEV then
        (if sint (i_major ip) < 0 \<or> sint (i_major ip) \<ge> NDEV \<or> \<not> has_dev (i_major ip) then Ok (-1, s)
         else consolewrite i (take (nat (sint n)) src) s)
      else if off > i_size ip \<or> off + n < off then Ok (-1, s)
      else if off + n > MAXFILE * word_of_nat BSIZE then Ok (-1, s)
      else
        rbind (writei_loop i off (take (unat n) src) s) (\<lambda>(off, s).
        if n > 0 \<and> off > i_size (inodes s i) then
          rbind (iupdate i (upd_inode i (\<lambda>ip. ip\<lparr>i_size := off\<rparr>) s)) (\<lambda>s. Ok (sint n, s))
        else Ok (sint n, s)))"

section \<open>Directories\<close>

text \<open>\<open>struct dirent\<close>: a 16-bit inode number and a name of at most \<open>DIRSIZ\<close> bytes.\<close>

definition de_inum :: "bytes \<Rightarrow> u16" where
  "de_inum de = get16 0 de"

definition de_name :: "bytes \<Rightarrow> bytes" where
  "de_name de = slice 2 DIRSIZ de"

definition namecmp :: "bytes \<Rightarrow> bytes \<Rightarrow> int" where
  "namecmp s t = strncmp s t 0 DIRSIZ"

definition dir_offsets :: "u32 \<Rightarrow> nat list" where
  "dir_offsets sz = map (\<lambda>k. 16 * k) [0..<(unat sz + 15) div 16]"

primrec dirlookup_scan :: "nat \<Rightarrow> bytes \<Rightarrow> nat list \<Rightarrow> 'a fs_state_scheme \<Rightarrow>
    ((nat \<times> u32) option \<times> 'a fs_state_scheme) res" where
  "dirlookup_scan dp name [] s = Ok (None, s)"
| "dirlookup_scan dp name (off # offs) s =
     rbind (readi dp (word_of_nat off) 16 s) (\<lambda>(r, de, s).
     if r \<noteq> 16 then Panic ''dirlookup read''
     else if de_inum de = 0 then dirlookup_scan dp name offs s
     else if namecmp name (de_name de) = 0 then
       rbind (iget (i_dev (inodes s dp)) (ucast (de_inum de)) s) (\<lambda>(ip, s).
       Ok (Some (ip, word_of_nat off), s))
     else dirlookup_scan dp name offs s)"

definition dirlookup :: "nat \<Rightarrow> bytes \<Rightarrow> 'a fs_state_scheme \<Rightarrow> ((nat \<times> u32) option \<times> 'a fs_state_scheme) res" where
  "dirlookup dp name s =
     (if i_type (inodes s dp) \<noteq> T_DIR then Panic ''dirlookup not DIR''
      else dirlookup_scan dp name (dir_offsets (i_size (inodes s dp))) s)"

text \<open>The scan of \<open>dirlink\<close> for an empty entry: its offset, or the end of the directory, and the entry read
  last, into which the new name is copied.\<close>

primrec dirlink_scan :: "nat \<Rightarrow> nat list \<Rightarrow> bytes \<Rightarrow> nat \<Rightarrow> 'a fs_state_scheme \<Rightarrow>
    (nat \<times> bytes \<times> 'a fs_state_scheme) res" where
  "dirlink_scan dp [] de fin s = Ok (fin, de, s)"
| "dirlink_scan dp (off # offs) de fin s =
     rbind (readi dp (word_of_nat off) 16 s) (\<lambda>(r, de, s).
     if r \<noteq> 16 then Panic ''dirlink read''
     else if de_inum de = 0 then Ok (off, de, s)
     else dirlink_scan dp offs de fin s)"

definition dirlink :: "nat \<Rightarrow> bytes \<Rightarrow> u32 \<Rightarrow> 'a fs_state_scheme \<Rightarrow> (int \<times> 'a fs_state_scheme) res" where
  "dirlink dp name inum s =
     rbind (dirlookup dp name s) (\<lambda>(r, s).
     case r of
       Some (ip, _) \<Rightarrow> rbind (iput ip s) (\<lambda>s. Ok (-1, s))
     | None \<Rightarrow>
       let offs = dir_offsets (i_size (inodes s dp)) in
       rbind (dirlink_scan dp offs (replicate 16 0) (16 * length offs) s) (\<lambda>(off, de, s).
       let de = put16 0 (ucast inum) (blit 2 (strncpy (de_name de) name DIRSIZ) de) in
       rbind (writei dp de (word_of_nat off) 16 s) (\<lambda>(r, s).
       if r \<noteq> 16 then Panic ''dirlink'' else Ok (0, s))))"

section \<open>Paths\<close>

text \<open>
  A path is the list of its bytes without the terminating zero; \<open>47\<close> is the slash.  \<open>skipelem\<close> copies
  the next element into the buffer \<open>name\<close>, cut to \<open>DIRSIZ\<close> bytes, terminated when it is shorter.
\<close>

definition skipelem :: "bytes \<Rightarrow> bytes \<Rightarrow> (bytes \<times> bytes) option" where
  "skipelem path name =
     (let path = dropWhile (\<lambda>c. c = 47) path in
      if path = [] then None
      else
        let e = takeWhile (\<lambda>c. c \<noteq> 47) path;
            path = dropWhile (\<lambda>c. c \<noteq> 47) path;
            name = (if length e \<ge> DIRSIZ then blit 0 (take DIRSIZ e) name else blit 0 (e @ [0]) name)
        in Some (dropWhile (\<lambda>c. c = 47) path, name))"

lemma skipelem_shorter:
  assumes "skipelem path name = Some (path', name')"
  shows "length path' < length path"
proof -
  let ?p = "dropWhile (\<lambda>c. c = 47) path"
  from assms have ne: "?p \<noteq> []" and p': "path' = dropWhile (\<lambda>c. c = 47) (dropWhile (\<lambda>c. c \<noteq> 47) ?p)"
    by (auto simp: skipelem_def Let_def split: if_splits)
  from ne have "hd ?p \<noteq> 47" using hd_dropWhile by blast
  with ne have "dropWhile (\<lambda>c. c \<noteq> 47) ?p = dropWhile (\<lambda>c. c \<noteq> 47) (tl ?p)" by (cases ?p) auto
  then have "length path' \<le> length (tl ?p)"
    unfolding p' by (simp only:) (rule le_trans [OF length_dropWhile_le length_dropWhile_le])
  also have "\<dots> < length ?p" using ne by (cases ?p) auto
  also have "\<dots> \<le> length path" by (rule length_dropWhile_le)
  finally show ?thesis .
qed

function namex_loop :: "nat \<Rightarrow> bytes \<Rightarrow> bool \<Rightarrow> bytes \<Rightarrow> 'a fs_state_scheme \<Rightarrow>
    (nat option \<times> bytes \<times> 'a fs_state_scheme) res" where
  "namex_loop ip path parent name s =
     (case skipelem path name of
        None \<Rightarrow>
          if parent then rbind (iput ip s) (\<lambda>s. Ok (None, name, s))
          else Ok (Some ip, name, s)
      | Some (path', name') \<Rightarrow>
          rbind (ilock (Some ip) s) (\<lambda>s.
          if i_type (inodes s ip) \<noteq> T_DIR then
            rbind (iunlockput ip s) (\<lambda>s. Ok (None, name', s))
          else if parent \<and> path' = [] then
            rbind (iunlock (Some ip) s) (\<lambda>s. Ok (Some ip, name', s))
          else
            rbind (dirlookup ip name' s) (\<lambda>(r, s).
            case r of
              None \<Rightarrow> rbind (iunlockput ip s) (\<lambda>s. Ok (None, name', s))
            | Some (nxt, _) \<Rightarrow>
                rbind (iunlockput ip s) (\<lambda>s. namex_loop nxt path' parent name' s))))"
  by pat_completeness auto
termination
proof (relation "measure (\<lambda>(ip, path, parent, name, s). length path)", goal_cases)
  case (2 ip path parent name s x path' name')
  then have "skipelem path name = Some (path', name')" by simp
  then show ?case by (simp add: skipelem_shorter)
qed simp

declare namex_loop.simps [simp del]

definition namex :: "bytes \<Rightarrow> bool \<Rightarrow> bytes \<Rightarrow> 'a fs_state_scheme \<Rightarrow>
    (nat option \<times> bytes \<times> 'a fs_state_scheme) res" where
  "namex path parent name s =
     (if path \<noteq> [] \<and> hd path = 47 then
        rbind (iget ROOTDEV ROOTINO s) (\<lambda>(ip, s). namex_loop ip path parent name s)
      else
        (case p_cwd (myproc s) of
           None \<Rightarrow> Undefined ''idup''
         | Some cwd \<Rightarrow> (case idup cwd s of (ip, s) \<Rightarrow> namex_loop ip path parent name s)))"

definition namei :: "bytes \<Rightarrow> 'a fs_state_scheme \<Rightarrow> (nat option \<times> 'a fs_state_scheme) res" where
  "namei path s =
     rbind (namex path False (replicate DIRSIZ 0) s) (\<lambda>(ip, _, s). Ok (ip, s))"

definition nameiparent :: "bytes \<Rightarrow> bytes \<Rightarrow> 'a fs_state_scheme \<Rightarrow>
    (nat option \<times> bytes \<times> 'a fs_state_scheme) res" where
  "nameiparent path name s = namex path True name s"

end
