(* ===== verification/Blocks.thy ===== *)
theory Blocks imports Dir begin

text \<open>
  Allocating disk blocks: the bitmap as a set of free blocks, one block rewritten inside a
  transaction, and \<open>balloc\<close>, which takes a free block, marks it, and fills it with zeros.
\<close>

section \<open>Bits of a bitmap block\<close>

lemma in_use_bit: "in_use bs i \<longleftrightarrow> bit (bs ! (i div 8)) (i mod 8)"
proof -
  have "bs ! (i div 8) AND push_bit (i mod 8) 1 \<noteq> 0 \<longleftrightarrow> bit (bs ! (i div 8)) (i mod 8)"
    by (simp add: push_bit_eq_mult and_exp_eq_0_iff_not_bit)
  then show ?thesis by (simp add: in_use_def bit_mask_def)
qed

lemma length_mark [simp]: "length (mark_used i bs) = length bs" "length (mark_free i bs) = length bs"
  by (simp_all add: mark_used_def mark_free_def)

lemma in_use_mark_used:
  assumes "i < BPB" and "length bs = BSIZE"
  shows "in_use (mark_used i bs) j \<longleftrightarrow> j = i \<or> in_use bs j"
proof -
  have i: "i div 8 < length bs" using assms by simp
  have eq: "j = i \<longleftrightarrow> j div 8 = i div 8 \<and> j mod 8 = i mod 8" by (metis div_mod_decomp)
  show ?thesis
  proof (cases "j div 8 = i div 8")
    case True
    have "bit (bs ! (i div 8) OR push_bit (i mod 8) 1) (j mod 8) \<longleftrightarrow>
        j mod 8 = i mod 8 \<or> bit (bs ! (i div 8)) (j mod 8)"
      by (auto simp: bit_simps)
    with True i eq show ?thesis by (simp add: in_use_bit mark_used_def bit_mask_def)
  next
    case False
    with eq show ?thesis by (simp add: in_use_bit mark_used_def)
  qed
qed

lemma in_use_mark_free:
  assumes "i < BPB" and "length bs = BSIZE"
  shows "in_use (mark_free i bs) j \<longleftrightarrow> j \<noteq> i \<and> in_use bs j"
proof -
  have i: "i div 8 < length bs" using assms by simp
  have eq: "j = i \<longleftrightarrow> j div 8 = i div 8 \<and> j mod 8 = i mod 8" by (metis div_mod_decomp)
  show ?thesis
  proof (cases "j div 8 = i div 8")
    case True
    have "bit (bs ! (i div 8) AND NOT (push_bit (i mod 8) 1)) (j mod 8) \<longleftrightarrow>
        j mod 8 \<noteq> i mod 8 \<and> bit (bs ! (i div 8)) (j mod 8)"
      by (auto simp: bit_simps)
    with True i eq show ?thesis by (simp add: in_use_bit mark_free_def bit_mask_def)
  next
    case False
    with eq show ?thesis by (simp add: in_use_bit mark_free_def)
  qed
qed

section \<open>One block rewritten\<close>

text \<open>
  \<open>ready k s\<close>: a transaction is open, at most one buffer is held, and the log has room for \<open>k\<close>
  more blocks.
\<close>

definition ready :: "nat \<Rightarrow> 'a log_state_scheme \<Rightarrow> bool" where
  "ready k s \<longleftrightarrow> log_ok s \<and> 1 \<le> log_outstanding s \<and> card (pins s) + k \<le> 28 \<and>
     (held s = Map.empty \<or> (\<exists>i b. held s = [i \<mapsto> b]))"

abbreviation okb :: "'a log_state_scheme \<Rightarrow> u32 \<Rightarrow> bool" where
  "okb s \<equiv> data_block (log_start s) (disksize s)"

lemma ready_log_ok: "ready k s \<Longrightarrow> log_ok s"
  by (simp add: ready_def)

lemma ready_mono: "ready k s \<Longrightarrow> j \<le> k \<Longrightarrow> ready j s"
  by (simp add: ready_def)

lemma ready_room:
  assumes "ready k s"
  shows "card (ran (held s) \<union> pins s) < NBUF" "card (pins s) < 29"
proof -
  have "card (ran (held s)) \<le> 1" using assms by (auto simp: ready_def)
  moreover have "card (ran (held s) \<union> pins s) \<le> card (ran (held s)) + card (pins s)" by (rule card_Un_le)
  ultimately show "card (ran (held s) \<union> pins s) < NBUF" "card (pins s) < 29"
    using assms by (simp_all add: ready_def)
qed

lemma ready_transfer:
  assumes "ready k s" and "log_ok t" and "jframe s t" and "held t = held s" and "card (pins t) + j \<le> card (pins s) + k"
  shows "ready j t"
  using assms jframe_log(4) [OF assms(3)] by (simp add: ready_def)

lemma okb_jframe: "jframe s t \<Longrightarrow> okb t = okb s"
  by (simp add: jframe_log)

lemma okb_lt: "okb s b \<Longrightarrow> b < disksize s"
  by (simp add: data_block_def)

lemma read_block:
  assumes "ready k s" and "okb s b" and "b \<notin> ran (held s)"
  shows "\<exists>i s1 s2. bread 1 b s = Ok (i, s1) \<and> b_data (bufs s1 i) = cview s b \<and> jframe s s1 \<and> log_ok s1 \<and>
    cabs s1 = (cabs s)\<lparr>a_held := (held s)(i \<mapsto> b)\<rparr> \<and>
    brelse i s1 = Ok s2 \<and> jframe s s2 \<and> ready k s2 \<and> cabs s2 = cabs s"
proof -
  from jrnl.read_only [OF ready_log_ok [OF assms(1)] okb_lt [OF assms(2)], simplified] assms(3)
    ready_room(1) [OF assms(1)]
  obtain i s1 s2 where *: "bread 1 b s = Ok (i, s1)" "log_ok s1" "jframe s s1" "b_data (bufs s1 i) = cview s b"
      "cabs s1 = (cabs s)\<lparr>a_held := (held s)(i \<mapsto> b)\<rparr>" "brelse i s1 = Ok s2" "log_ok s2" "jframe s s2" "cabs s2 = cabs s"
    by (metis cabs_sel)
  have "held s2 = held s" "pins s2 = pins s"
    using arg_cong [OF *(9), of a_held] arg_cong [OF *(9), of a_pins] by simp_all
  with ready_transfer [OF assms(1) *(7,8)] have "ready k s2" by simp
  with * show ?thesis by blast
qed

lemma rewrite_block:
  assumes "ready (Suc k) s" and "okb s b" and "b \<notin> ran (held s)" and "length d = BSIZE"
  shows "\<exists>i s1 s2 s3. bread 1 b s = Ok (i, s1) \<and> b_data (bufs s1 i) = cview s b \<and> jframe s s1 \<and>
    log_write i (set_data i d s1) = Ok s2 \<and> brelse i s2 = Ok s3 \<and> ready k s3 \<and> jframe s s3 \<and>
    cabs s3 = (cabs s)\<lparr>a_view := (cview s)(b := d), a_pins := insert b (pins s)\<rparr>"
proof -
  from jrnl.update [OF ready_log_ok [OF assms(1)], of b d] assms(2-4) ready_room [OF assms(1)] assms(1)
  obtain i s1 s2 s3 where *: "bread 1 b s = Ok (i, s1)" "b_data (bufs s1 i) = cview s b" "jframe s s1"
      "log_write i (set_data i d s1) = Ok s2" "brelse i s2 = Ok s3" "log_ok s3" "jframe s s3"
      "cabs s3 = (cabs s)\<lparr>a_view := (cview s)(b := d), a_pins := insert b (pins s)\<rparr>"
    unfolding jrnl.wrote_def ready_def by auto
  have "held s3 = held s" "pins s3 = insert b (pins s)"
    using arg_cong [OF *(8), of a_held] arg_cong [OF *(8), of a_pins] by simp_all
  moreover have "card (insert b (pins s)) \<le> Suc (card (pins s))" by (rule card_insert_le_m1) simp_all
  ultimately have "ready k s3" by (intro ready_transfer [OF assms(1) *(6,7)]) simp_all
  with * show ?thesis by blast
qed

lemma jframe_fs:
  fixes s :: "'a fs_state_scheme"
  assumes "jframe s t"
  shows "sb t = sb s" "inodes t = inodes s" "cons t = cons s"
proof -
  from assms obtain P D T B N V where
    t: "t = s\<lparr>lh_n := lh_n t, lh_block := lh_block t, procs := P, memdisk := D, disk_trace := T, bufs := B,
      bnext := N, bprev := V\<rparr>"
    unfolding jframe_def by (elim bio_frameE)
  from arg_cong [OF t, of sb] arg_cong [OF t, of inodes] arg_cong [OF t, of cons]
  show "sb t = sb s" "inodes t = inodes s" "cons t = cons s" by simp_all
qed

section \<open>The bitmap\<close>

definition marked :: "superblock \<Rightarrow> (u32 \<Rightarrow> bytes) \<Rightarrow> u32 \<Rightarrow> bool" where
  "marked su v b \<longleftrightarrow> in_use (v (BBLOCK b su)) (unat b mod BPB)"

definition free_blocks :: "superblock \<Rightarrow> (u32 \<Rightarrow> bytes) \<Rightarrow> u32 set" where
  "free_blocks su v = {b. b < sb_size su \<and> \<not> marked su v b}"

definition map_blocks :: "superblock \<Rightarrow> u32 set" where
  "map_blocks su = (\<lambda>b. BBLOCK b su) ` {b. b < sb_size su}"

text \<open>The bitmap and every block it calls free lie where a transaction may write (\<open>ok\<close>), and neither the
  bitmap itself nor block 0 counts as free.\<close>

definition map_ok :: "(u32 \<Rightarrow> bool) \<Rightarrow> superblock \<Rightarrow> (u32 \<Rightarrow> bytes) \<Rightarrow> bool" where
  "map_ok ok su v \<longleftrightarrow> (\<forall>b \<in> map_blocks su \<union> free_blocks su v. ok b) \<and>
     map_blocks su \<inter> free_blocks su v = {} \<and> 0 \<notin> free_blocks su v"

abbreviation bitmap_ok :: "'a fs_state_scheme \<Rightarrow> bool" where
  "bitmap_ok s \<equiv> map_ok (okb s) (sb s) (cview s)"

lemma BBLOCK_nat: "BBLOCK b su = word_of_nat (unat b div BPB) + sb_bmapstart su"
  by (simp add: BBLOCK_def word_arith_nat_div)

lemma div_BPB_small: "unat (b :: u32) div BPB < 2 ^ 32"
  by (rule le_less_trans [OF div_le_dividend u32_bound])

lemma BBLOCK_eq: "BBLOCK b su = BBLOCK c su \<longleftrightarrow> unat b div BPB = unat c div BPB"
  using div_BPB_small [of b] div_BPB_small [of c]
  by (simp add: BBLOCK_nat word_of_nat_eq_iff take_bit_nat_eq_self)

lemma same_block_number: "unat (b :: u32) div BPB = unat c div BPB \<Longrightarrow> unat b mod BPB = unat c mod BPB \<Longrightarrow> b = c"
  by (rule u32_eqI) (metis div_mult_mod_eq)

lemma free_blocks_mark:
  assumes "b \<in> free_blocks su v" and "length (v (BBLOCK b su)) = BSIZE" and "b \<notin> map_blocks su"
  shows "free_blocks su ((v(BBLOCK b su := mark_used (unat b mod BPB) (v (BBLOCK b su))))(b := z)) = free_blocks su v - {b}"
proof -
  have "marked su ((v(BBLOCK b su := mark_used (unat b mod BPB) (v (BBLOCK b su))))(b := z)) c \<longleftrightarrow> c = b \<or> marked su v c"
    if "c < sb_size su" for c
  proof -
    have "BBLOCK c su \<noteq> b" using that assms(3) by (auto simp: map_blocks_def)
    show ?thesis
    proof (cases "unat c div BPB = unat b div BPB")
      case True
      then have "BBLOCK c su = BBLOCK b su" by (simp add: BBLOCK_eq)
      with \<open>BBLOCK c su \<noteq> b\<close> assms(2) True show ?thesis
        by (auto simp: marked_def in_use_mark_used dest: same_block_number)
    next
      case False
      then have "BBLOCK c su \<noteq> BBLOCK b su" "c \<noteq> b" by (auto simp: BBLOCK_eq)
      with \<open>BBLOCK c su \<noteq> b\<close> show ?thesis by (simp add: marked_def)
    qed
  qed
  then show ?thesis by (auto simp: free_blocks_def)
qed

section \<open>balloc\<close>

text \<open>The view of the disk after \<open>balloc\<close> has given out block \<open>b\<close>.\<close>

definition allocated :: "superblock \<Rightarrow> u32 \<Rightarrow> (u32 \<Rightarrow> bytes) \<Rightarrow> u32 \<Rightarrow> bytes" where
  "allocated su b v =
     (v(BBLOCK b su := mark_used (unat b mod BPB) (v (BBLOCK b su))))(b := replicate BSIZE 0)"

text \<open>One bitmap block searched: bit \<open>bi\<close> of map block \<open>k\<close> stands for the disk block \<open>k * BPB + bi\<close>.\<close>

lemma map_position:
  assumes "bi < min BPB (unat (sb_size su) - k * BPB)"
  shows "unat (word_of_nat (k * BPB + bi) :: u32) = k * BPB + bi"
    "word_of_nat (k * BPB + bi) < sb_size su"
    "BBLOCK (word_of_nat (k * BPB + bi)) su = BBLOCK (word_of_nat (k * BPB)) su"
proof -
  have lt: "bi < BPB" "k * BPB + bi < unat (sb_size su)"
    using assms by (simp_all add: less_diff_conv add.commute)
  then have lt32: "k * BPB + bi < 2 ^ 32" using u32_bound less_trans by blast
  show 1: "unat (word_of_nat (k * BPB + bi) :: u32) = k * BPB + bi" by (rule u32_of_nat_unat [OF lt32])
  show "word_of_nat (k * BPB + bi) < sb_size su" using lt(2) 1 by (simp add: word_less_nat_alt)
  have "unat (word_of_nat (k * BPB) :: u32) = k * BPB" by (rule u32_of_nat_unat) (use lt32 in simp)
  then show "BBLOCK (word_of_nat (k * BPB + bi)) su = BBLOCK (word_of_nat (k * BPB)) su"
    using 1 lt(1) by (simp add: BBLOCK_eq)
qed

lemma free_bit:
  assumes "bi < min BPB (unat (sb_size su) - k * BPB)"
  shows "\<not> in_use (v (BBLOCK (word_of_nat (k * BPB)) su)) bi \<longleftrightarrow> word_of_nat (k * BPB + bi) \<in> free_blocks su v"
proof -
  have "(k * BPB + bi) mod BPB = bi" using assms by simp
  with map_position [OF assms] show ?thesis by (simp add: free_blocks_def marked_def)
qed

lemma free_position:
  assumes "c \<in> free_blocks su v"
  shows "unat c mod BPB < min BPB (unat (sb_size su) - unat c div BPB * BPB)"
    "word_of_nat (unat c div BPB * BPB + unat c mod BPB) = c"
proof -
  have "unat c < unat (sb_size su)" using assms by (simp add: free_blocks_def word_less_nat_alt)
  moreover have "unat c div BPB * BPB + unat c mod BPB = unat c" by (rule div_mult_mod_eq)
  ultimately show "unat c mod BPB < min BPB (unat (sb_size su) - unat c div BPB * BPB)"
    by (simp add: less_diff_conv)
  show "word_of_nat (unat c div BPB * BPB + unat c mod BPB) = c" by (simp add: div_mult_mod_eq)
qed

lemma bzero_spec:
  assumes "ready (Suc k) s" and "okb s b" and "b \<notin> ran (held s)"
  shows "\<exists>t. bzero 1 b s = Ok t \<and> ready k t \<and> jframe s t \<and>
    cabs t = (cabs s)\<lparr>a_view := (cview s)(b := replicate BSIZE 0), a_pins := insert b (pins s)\<rparr>"
  using rewrite_block [OF assms, of "replicate BSIZE 0"] by (auto simp: bzero_def)

lemma balloc_scan_spec:
  fixes s :: "'a fs_state_scheme"
  assumes "ready (Suc (Suc n)) s" and "bitmap_ok s" and "map_blocks (sb s) \<inter> ran (held s) = {}"
    and "free_blocks (sb s) (cview s) \<inter> ran (held s) = {}"
    and "c \<in> free_blocks (sb s) (cview s)" and "unat c div BPB \<in> set ks"
    and "\<forall>k\<in>set ks. k * BPB < unat (sb_size (sb s))"
  shows "\<exists>b t. balloc_scan 1 (map (\<lambda>k. k * BPB) ks) s = Ok (b, t) \<and> b \<in> free_blocks (sb s) (cview s) \<and>
    ready n t \<and> jframe s t \<and>
    cabs t = (cabs s)\<lparr>a_view := allocated (sb s) b (cview s), a_pins := insert b (insert (BBLOCK b (sb s)) (pins s))\<rparr>"
  using assms
proof (induction ks arbitrary: s)
  case (Cons k ks)
  let ?su = "sb s" and ?v = "cview s"
  let ?m = "BBLOCK (word_of_nat (k * BPB)) ?su"
  have k: "k * BPB < unat (sb_size ?su)" using Cons.prems(7) by simp
  have "unat (word_of_nat (k * BPB) :: u32) = k * BPB"
    by (rule u32_of_nat_unat) (rule less_trans [OF k u32_bound])
  then have m: "?m \<in> map_blocks ?su" using k by (auto simp: map_blocks_def word_less_nat_alt)
  then have okm: "okb s ?m" "?m \<notin> ran (held s)" using Cons.prems(2,3) by (auto simp: map_ok_def)
  show ?case
  proof (cases rule: first_index_cases [of "\<lambda>bi. \<not> in_use (?v ?m) bi" "min BPB (unat (sb_size ?su) - k * BPB)"])
    case (found bi)
    define b where "b = (word_of_nat (k * BPB + bi) :: u32)"
    have b: "b \<in> free_blocks ?su ?v" using free_bit [OF found(2)] found(3) by (simp add: b_def)
    then have bm: "b \<notin> map_blocks ?su" "okb s b" "b \<notin> ran (held s)"
      using Cons.prems(2,4) by (auto simp: map_ok_def)
    have pos: "BBLOCK b ?su = ?m" "unat b mod BPB = bi"
      using map_position [OF found(2)] found(2) by (simp_all add: b_def)
    have len: "length (mark_used bi (?v ?m)) = BSIZE"
      using jrnl.view_length [OF ready_log_ok [OF Cons.prems(1)]] by simp
    from rewrite_block [OF Cons.prems(1) okm len] obtain i s1 s2 s3 where w:
      "bread 1 ?m s = Ok (i, s1)" "b_data (bufs s1 i) = ?v ?m" "jframe s s1"
      "log_write i (set_data i (mark_used bi (?v ?m)) s1) = Ok s2" "brelse i s2 = Ok s3" "ready (Suc n) s3"
      "jframe s s3" "cabs s3 = (cabs s)\<lparr>a_view := ?v(?m := mark_used bi (?v ?m)), a_pins := insert ?m (pins s)\<rparr>"
      by blast
    have s3: "held s3 = held s" "cview s3 = ?v(?m := mark_used bi (?v ?m))" "pins s3 = insert ?m (pins s)"
      using arg_cong [OF w(8), of a_held] arg_cong [OF w(8), of a_view] arg_cong [OF w(8), of a_pins] by simp_all
    from bzero_spec [OF w(6), of b] bm okb_jframe [OF w(7)] s3(1) obtain t where
      t: "bzero 1 b s3 = Ok t" "ready n t" "jframe s3 t"
        "cabs t = (cabs s3)\<lparr>a_view := (cview s3)(b := replicate BSIZE 0), a_pins := insert b (pins s3)\<rparr>" by auto
    have "cabs t = (cabs s)\<lparr>a_view := allocated ?su b ?v, a_pins := insert b (insert (BBLOCK b ?su) (pins s))\<rparr>"
      by (simp add: t(4) w(8) s3 allocated_def pos)
    moreover have "balloc_scan 1 (map (\<lambda>k. k * BPB) (k # ks)) s = Ok (b, t)"
      using found(1) w(1,2,4,5) t(1) jframe_fs(1) [OF w(3)] by (simp add: b_def)
    ultimately show ?thesis using b t(2) jframe_trans [OF w(7) t(3)] by blast
  next
    case none
    have "unat c div BPB \<noteq> k"
    proof
      assume "unat c div BPB = k"
      with free_position [OF Cons.prems(5)] free_bit [of "unat c mod BPB" ?su k ?v] none(2) Cons.prems(5)
      show False by auto
    qed
    then have ks: "unat c div BPB \<in> set ks" using Cons.prems(6) by auto
    from read_block [OF Cons.prems(1) okm] obtain i s1 s2 where r:
      "bread 1 ?m s = Ok (i, s1)" "b_data (bufs s1 i) = ?v ?m" "jframe s s1" "brelse i s1 = Ok s2"
      "jframe s s2" "ready (Suc (Suc n)) s2" "cabs s2 = cabs s" by blast
    have s2: "held s2 = held s" "cview s2 = ?v" "pins s2 = pins s" "sb s2 = ?su" "okb s2 = okb s"
      using arg_cong [OF r(7), of a_held] arg_cong [OF r(7), of a_view] arg_cong [OF r(7), of a_pins]
        jframe_fs(1) [OF r(5)] okb_jframe [OF r(5)] by simp_all
    have "bitmap_ok s2" using Cons.prems(2) by (simp add: map_ok_def s2)
    from Cons.IH [OF r(6) this] Cons.prems(3-5,7) ks obtain b t where
      "balloc_scan 1 (map (\<lambda>k. k * BPB) ks) s2 = Ok (b, t)" "b \<in> free_blocks ?su ?v" "ready n t" "jframe s2 t"
      "cabs t = (cabs s2)\<lparr>a_view := allocated ?su b ?v, a_pins := insert b (insert (BBLOCK b ?su) (pins s))\<rparr>"
      by (auto simp: s2)
    then show ?thesis
      using none(1) r(1,2,4) jframe_fs(1) [OF r(3)] jframe_trans [OF r(5)] by (auto simp: r(7))
  qed
qed simp

lemma map_positions: "\<forall>k\<in>set [0..<(n + BPB - 1) div BPB]. k * BPB < n"
proof
  fix k
  assume "k \<in> set [0..<(n + BPB - 1) div BPB]"
  then have "Suc k \<le> (n + BPB - 1) div BPB" by simp
  then have "Suc k * BPB \<le> n + BPB - 1" by (simp add: less_eq_div_iff_mult_less_eq)
  then show "k * BPB < n" by simp
qed

lemma balloc_spec:
  fixes s :: "'a fs_state_scheme"
  assumes "ready (Suc (Suc n)) s" and "bitmap_ok s"
    and "(map_blocks (sb s) \<union> free_blocks (sb s) (cview s)) \<inter> ran (held s) = {}"
    and "free_blocks (sb s) (cview s) \<noteq> {}"
  shows "\<exists>b t. balloc 1 s = Ok (b, t) \<and> b \<in> free_blocks (sb s) (cview s) \<and> ready n t \<and> jframe s t \<and>
    cabs t = (cabs s)\<lparr>a_view := allocated (sb s) b (cview s), a_pins := insert b (insert (BBLOCK b (sb s)) (pins s))\<rparr>"
proof -
  obtain c where c: "c \<in> free_blocks (sb s) (cview s)" using assms(4) by blast
  let ?n = "unat (sb_size (sb s))"
  have "unat c < ?n" using c by (simp add: free_blocks_def word_less_nat_alt)
  have 1: "unat c div BPB \<in> set [0..<(?n + BPB - 1) div BPB]"
  proof -
    have "unat c div BPB * BPB < ?n" using \<open>unat c < ?n\<close> by (rule le_less_trans [OF div_times_less_eq_dividend])
    then have "(unat c div BPB + 1) * BPB \<le> ?n + BPB - 1" by simp
    then have "unat c div BPB + 1 \<le> (?n + BPB - 1) div BPB" by (simp add: less_eq_div_iff_mult_less_eq)
    then show ?thesis by simp
  qed
  from balloc_scan_spec [OF assms(1,2) _ _ c 1 map_positions] assms(3) show ?thesis
    unfolding balloc_def by blast
qed

lemma allocated_free:
  assumes "map_ok ok su v" and "b \<in> free_blocks su v" and "\<And>c. length (v c) = BSIZE"
  shows "free_blocks su (allocated su b v) = free_blocks su v - {b}" "map_ok ok su (allocated su b v)"
proof -
  have "b \<notin> map_blocks su" using assms(1,2) by (auto simp: map_ok_def)
  then show 1: "free_blocks su (allocated su b v) = free_blocks su v - {b}"
    using free_blocks_mark [OF assms(2,3)] by (simp add: allocated_def)
  show "map_ok ok su (allocated su b v)"
    using assms(1) by (auto simp: map_ok_def 1)
qed

lemma allocated_other:
  "b < sb_size su \<Longrightarrow> c \<notin> map_blocks su \<Longrightarrow> c \<noteq> b \<Longrightarrow> allocated su b v c = v c"
  by (auto simp: allocated_def map_blocks_def)

lemma allocated_zero [simp]: "allocated su b v b = replicate BSIZE 0"
  by (simp add: allocated_def)

lemma length_allocated: "(\<And>c. length (v c) = BSIZE) \<Longrightarrow> length (allocated su b v c) = BSIZE"
  by (simp add: allocated_def)

section \<open>A full disk, and bfree\<close>

lemma balloc_scan_full:
  fixes s :: "'a fs_state_scheme"
  assumes "ready n s" and "bitmap_ok s" and "held s = Map.empty" and "free_blocks (sb s) (cview s) = {}"
    and "\<forall>k\<in>set ks. k * BPB < unat (sb_size (sb s))"
  shows "balloc_scan 1 (map (\<lambda>k. k * BPB) ks) s = Panic ''balloc: out of blocks''"
  using assms
proof (induction ks arbitrary: s)
  case (Cons k ks)
  let ?su = "sb s" and ?v = "cview s"
  let ?m = "BBLOCK (word_of_nat (k * BPB)) ?su"
  have k: "k * BPB < unat (sb_size ?su)" using Cons.prems(5) by simp
  have "unat (word_of_nat (k * BPB) :: u32) = k * BPB"
    by (rule u32_of_nat_unat) (rule less_trans [OF k u32_bound])
  then have "?m \<in> map_blocks ?su" using k by (auto simp: map_blocks_def word_less_nat_alt)
  then have okm: "okb s ?m" "?m \<notin> ran (held s)" using Cons.prems(2,3) by (auto simp: map_ok_def)
  have none: "first_index (\<lambda>bi. \<not> in_use (?v ?m) bi) (min BPB (unat (sb_size ?su) - k * BPB)) = None"
    unfolding first_index_None using free_bit [of _ ?su k ?v] Cons.prems(4) by blast
  from read_block [OF Cons.prems(1) okm] obtain i s1 s2 where r:
    "bread 1 ?m s = Ok (i, s1)" "b_data (bufs s1 i) = ?v ?m" "jframe s s1" "brelse i s1 = Ok s2"
    "jframe s s2" "ready n s2" "cabs s2 = cabs s" by blast
  have s2: "held s2 = Map.empty" "cview s2 = ?v" "sb s2 = ?su" "okb s2 = okb s"
    using arg_cong [OF r(7), of a_held] arg_cong [OF r(7), of a_view] Cons.prems(3)
      jframe_fs(1) [OF r(5)] okb_jframe [OF r(5)] by simp_all
  have "bitmap_ok s2" using Cons.prems(2) by (simp add: map_ok_def s2)
  from Cons.IH [OF r(6) this s2(1)] Cons.prems(4,5)
  have "balloc_scan 1 (map (\<lambda>k. k * BPB) ks) s2 = Panic ''balloc: out of blocks''" by (simp add: s2)
  then show ?case using none r(1,2,4) jframe_fs(1) [OF r(3)] by simp
qed simp

lemma balloc_full:
  fixes s :: "'a fs_state_scheme"
  assumes "ready n s" and "bitmap_ok s" and "held s = Map.empty" and "free_blocks (sb s) (cview s) = {}"
  shows "balloc 1 s = Panic ''balloc: out of blocks''"
  unfolding balloc_def by (rule balloc_scan_full [OF assms map_positions])

lemma bfree_spec:
  fixes s :: "'a fs_state_scheme"
  assumes "ready (Suc n) s" and "bitmap_ok s" and "held s = Map.empty" and b: "b < sb_size (sb s)"
  shows "marked (sb s) (cview s) b \<Longrightarrow> \<exists>t. bfree 1 b s = Ok t \<and> ready n t \<and> jframe s t \<and>
      cview t = (cview s)(BBLOCK b (sb s) := mark_free (unat b mod BPB) (cview s (BBLOCK b (sb s)))) \<and> held t = Map.empty"
    and "\<not> marked (sb s) (cview s) b \<Longrightarrow> bfree 1 b s = Panic ''freeing free block''"
proof -
  let ?m = "BBLOCK b (sb s)" and ?d = "mark_free (unat b mod BPB) (cview s (BBLOCK b (sb s)))"
  have "?m \<in> map_blocks (sb s)" using b by (auto simp: map_blocks_def)
  then have m: "okb s ?m" "?m \<notin> ran (held s)" using assms(2,3) by (auto simp: map_ok_def)
  have "length ?d = BSIZE" using jrnl.view_length [OF ready_log_ok [OF assms(1)]] by simp
  from rewrite_block [OF assms(1) m this] obtain i s1 s2 s3 where w:
    "bread 1 ?m s = Ok (i, s1)" "b_data (bufs s1 i) = cview s ?m" "log_write i (set_data i ?d s1) = Ok s2"
    "brelse i s2 = Ok s3" "ready n s3" "jframe s s3"
    "cabs s3 = (cabs s)\<lparr>a_view := (cview s)(?m := ?d), a_pins := insert ?m (pins s)\<rparr>" by blast
  have "cview s3 = (cview s)(?m := ?d)" "held s3 = Map.empty"
    using arg_cong [OF w(7), of a_view] arg_cong [OF w(7), of a_held] assms(3) by simp_all
  then show "\<exists>t. bfree 1 b s = Ok t \<and> ready n t \<and> jframe s t \<and> cview t = (cview s)(?m := ?d) \<and> held t = Map.empty"
    if "marked (sb s) (cview s) b"
    using that w(1-6) by (simp add: bfree_def marked_def Let_def)
  show "bfree 1 b s = Panic ''freeing free block''" if "\<not> marked (sb s) (cview s) b"
    using that w(1,2) by (simp add: bfree_def marked_def Let_def)
qed

lemma mark_free_used:
  assumes "\<not> in_use bs i" and "i < BPB" and "length bs = BSIZE"
  shows "mark_free i (mark_used i bs) = bs"
proof -
  have i: "i div 8 < length bs" using assms by simp
  have "(bs ! (i div 8) OR push_bit (i mod 8) 1) AND NOT (push_bit (i mod 8) 1) = bs ! (i div 8)"
    using assms(1) by (intro bit_word_eqI) (auto simp: in_use_bit bit_simps)
  with i show ?thesis by (simp add: mark_free_def mark_used_def bit_mask_def)
qed

end
