(* ===== verification/Files.thy ===== *)
theory Files imports Blocks begin

text \<open>
  The contents of a file.  A file is the list of its 13 block addresses together with the view of the
  disk: twelve blocks directly, the others through the indirect block.  A block that is not there counts as
  zeros, so that \<open>bmap\<close>, which allocates blocks on the way, does not change the contents.  The first part is
  about views and addresses alone; the second shows that \<open>bmap\<close> does on the state what the first part says.
\<close>

section \<open>Files in a view of the disk\<close>

lemma free_blocks_cong: "(\<And>b. b < sb_size su \<Longrightarrow> w (BBLOCK b su) = v (BBLOCK b su)) \<Longrightarrow> free_blocks su w = free_blocks su v"
  by (auto simp: free_blocks_def marked_def)

type_synonym view = "u32 \<Rightarrow> bytes"

text \<open>The blocks of a file by number: 0 to 139 are its data, 140 is the indirect block.\<close>

definition slot :: "view \<Rightarrow> u32 list \<Rightarrow> nat \<Rightarrow> u32" where
  "slot v as k =
     (if k < NDIRECT then as ! k else if k = 140 then as ! NDIRECT
      else if as ! NDIRECT = 0 then 0 else get32 (4 * (k - NDIRECT)) (v (as ! NDIRECT)))"

definition fblock :: "view \<Rightarrow> u32 list \<Rightarrow> nat \<Rightarrow> bytes" where
  "fblock v as k = (if slot v as k = 0 then replicate BSIZE 0 else v (slot v as k))"

definition owns :: "view \<Rightarrow> u32 list \<Rightarrow> u32 set" where
  "owns v as = {b. b \<noteq> 0 \<and> (\<exists>k\<le>140. slot v as k = b)}"

text \<open>
  The blocks of a file are all different, lie where a transaction may write, are no part of the bitmap and
  are marked in it.
\<close>

definition file_wf :: "(u32 \<Rightarrow> bool) \<Rightarrow> superblock \<Rightarrow> view \<Rightarrow> u32 list \<Rightarrow> bool" where
  "file_wf ok su v as \<longleftrightarrow> length as = 13 \<and>
     (\<forall>b \<in> owns v as. ok b \<and> b \<notin> map_blocks su \<and> b \<notin> free_blocks su v) \<and>
     (\<forall>k\<le>140. \<forall>l\<le>140. slot v as k = slot v as l \<longrightarrow> slot v as k \<noteq> 0 \<longrightarrow> k = l)"

lemma free_blocks_data: "b \<notin> map_blocks su \<Longrightarrow> free_blocks su (v(b := d)) = free_blocks su v"
  by (rule free_blocks_cong) (auto simp: map_blocks_def)

lemma file_wfD:
  assumes "file_wf ok su v as"
  shows "length as = 13"
    "k \<le> 140 \<Longrightarrow> slot v as k \<noteq> 0 \<Longrightarrow> ok (slot v as k)"
    "k \<le> 140 \<Longrightarrow> slot v as k \<noteq> 0 \<Longrightarrow> slot v as k \<notin> map_blocks su"
    "k \<le> 140 \<Longrightarrow> slot v as k \<noteq> 0 \<Longrightarrow> slot v as k \<notin> free_blocks su v"
    "k \<le> 140 \<Longrightarrow> l \<le> 140 \<Longrightarrow> slot v as k = slot v as l \<Longrightarrow> slot v as k \<noteq> 0 \<Longrightarrow> k = l"
  using assms by (simp_all add: file_wf_def owns_def) (blast+)?

text \<open>\<open>grows\<close>: the file has taken blocks from the free ones at most, keeps the blocks it had, and
  every block that is neither its own nor free nor part of the bitmap is as before.\<close>

definition grows :: "superblock \<Rightarrow> view \<Rightarrow> u32 list \<Rightarrow> view \<Rightarrow> u32 list \<Rightarrow> bool" where
  "grows su v as w bs \<longleftrightarrow> owns w bs \<subseteq> owns v as \<union> free_blocks su v \<and>
     free_blocks su w \<subseteq> free_blocks su v \<and>
     (\<forall>c. c \<notin> owns v as \<union> free_blocks su v \<union> map_blocks su \<longrightarrow> w c = v c) \<and>
     (\<forall>k\<le>140. slot v as k \<noteq> 0 \<longrightarrow> slot w bs k = slot v as k)"

lemma grows_refl [simp]: "grows su v as v as"
  by (simp add: grows_def)

lemma grows_keeps: "grows su v as w bs \<Longrightarrow> k \<le> 140 \<Longrightarrow> slot v as k \<noteq> 0 \<Longrightarrow> slot w bs k = slot v as k"
  by (simp add: grows_def)

lemma grows_trans:
  assumes "grows su v as w bs" and "grows su w bs x cs"
  shows "grows su v as x cs"
proof -
  have 1: "owns w bs \<subseteq> owns v as \<union> free_blocks su v" "free_blocks su w \<subseteq> free_blocks su v"
    "\<And>c. c \<notin> owns v as \<union> free_blocks su v \<union> map_blocks su \<Longrightarrow> w c = v c"
    using assms(1) by (simp_all add: grows_def)
  have 2: "owns x cs \<subseteq> owns w bs \<union> free_blocks su w" "free_blocks su x \<subseteq> free_blocks su w"
    "\<And>c. c \<notin> owns w bs \<union> free_blocks su w \<union> map_blocks su \<Longrightarrow> x c = w c"
    using assms(2) by (simp_all add: grows_def)
  have "x c = v c" if "c \<notin> owns v as \<union> free_blocks su v \<union> map_blocks su" for c
  proof -
    have "c \<notin> owns w bs \<union> free_blocks su w \<union> map_blocks su" using that 1(1,2) by blast
    with 2(3) 1(3) [OF that] show ?thesis by simp
  qed
  moreover have "owns x cs \<subseteq> owns v as \<union> free_blocks su v" using 1(1,2) 2(1) by blast
  moreover have "free_blocks su x \<subseteq> free_blocks su v" using 1(2) 2(2) by blast
  moreover have "slot x cs k = slot v as k" if "k \<le> 140" "slot v as k \<noteq> 0" for k
    using grows_keeps [OF assms(1) that] grows_keeps [OF assms(2) that(1)] that(2) by simp
  ultimately show ?thesis by (simp add: grows_def)
qed

text \<open>The file gets the free block \<open>b\<close>, filled with zeros, in place \<open>k\<close>.\<close>

definition gains :: "nat \<Rightarrow> u32 \<Rightarrow> superblock \<Rightarrow> view \<Rightarrow> u32 list \<Rightarrow> view \<Rightarrow> u32 list \<Rightarrow> bool" where
  "gains k b su v as w bs \<longleftrightarrow> k \<le> 140 \<and> slot v as k = 0 \<and> b \<in> free_blocks su v \<and> length bs = 13 \<and>
     (\<forall>l\<le>140. slot w bs l = (if l = k then b else slot v as l)) \<and>
     free_blocks su w = free_blocks su v - {b} \<and> w b = replicate BSIZE 0 \<and>
     (\<forall>c. c \<notin> map_blocks su \<longrightarrow> c \<noteq> b \<longrightarrow> c = as ! NDIRECT \<and> c \<noteq> 0 \<and> 12 \<le> k \<and> k < 140 \<or> w c = v c)"

lemma gains_owns:
  assumes "gains k b su v as w bs" and "map_ok ok su v"
  shows "owns w bs = insert b (owns v as)"
proof -
  have b: "b \<noteq> 0" using assms by (auto simp: gains_def map_ok_def)
  have slots: "slot w bs l = (if l = k then b else slot v as l)" if "l \<le> 140" for l
    using assms(1) that by (simp add: gains_def)
  have k: "k \<le> 140" "slot v as k = 0" using assms(1) by (simp_all add: gains_def)
  show ?thesis
  proof (intro equalityI subsetI)
    fix c assume "c \<in> owns w bs"
    then show "c \<in> insert b (owns v as)" using slots by (auto simp: owns_def split: if_splits)
  next
    fix c assume "c \<in> insert b (owns v as)"
    then consider "c = b" | l where "c \<noteq> 0" "l \<le> 140" "slot v as l = c" by (auto simp: owns_def)
    then show "c \<in> owns w bs"
    proof cases
      case 1
      with b k slots [of k] show ?thesis by (auto simp: owns_def)
    next
      case 2
      with k have "l \<noteq> k" by auto
      with 2 slots [of l] show ?thesis by (auto simp: owns_def)
    qed
  qed
qed

lemma gains_wf:
  assumes g: "gains k b su v as w bs" and m: "map_ok ok su v" and f: "file_wf ok su v as"
  shows "file_wf ok su w bs" "map_ok ok su w" "grows su v as w bs"
proof -
  have b: "b \<in> free_blocks su v" "b \<notin> map_blocks su" "ok b" "b \<noteq> 0"
    using g m by (auto simp: gains_def map_ok_def)
  have fr: "free_blocks su w = free_blocks su v - {b}" and k: "k \<le> 140" "slot v as k = 0" and len: "length bs = 13"
    using g by (simp_all add: gains_def)
  have slots: "slot w bs l = (if l = k then b else slot v as l)" if "l \<le> 140" for l
    using g that by (simp add: gains_def)
  have old: "slot v as l \<noteq> b" if "l \<le> 140" for l
    using file_wfD(4) [OF f that] b by auto
  have ow: "owns w bs = insert b (owns v as)" by (rule gains_owns [OF g m])
  show "map_ok ok su w" using m by (auto simp: map_ok_def fr)
  have "\<forall>c\<in>owns w bs. ok c \<and> c \<notin> map_blocks su \<and> c \<notin> free_blocks su w"
    using f b by (auto simp: ow fr file_wf_def)
  moreover have "p = q" if "p \<le> 140" "q \<le> 140" "slot w bs p = slot w bs q" "slot w bs p \<noteq> 0" for p q
    using that slots [of p] slots [of q] old [of p] old [of q] file_wfD(5) [OF f, of p q]
    by (auto split: if_splits)
  ultimately show "file_wf ok su w bs" using len by (simp add: file_wf_def)
  have "w c = v c" if "c \<notin> owns v as \<union> free_blocks su v \<union> map_blocks su" for c
  proof -
    have "c \<noteq> b" "c \<notin> map_blocks su" using that b by auto
    moreover have "\<not> (c = as ! NDIRECT \<and> c \<noteq> 0)"
      using that by (auto simp: owns_def slot_def)
    ultimately show ?thesis using g unfolding gains_def by blast
  qed
  then show "grows su v as w bs"
    using ow b(1) slots k(2) by (auto simp: grows_def fr)
qed

lemma gains_content:
  assumes g: "gains k b su v as w bs" and m: "map_ok ok su v" and f: "file_wf ok su v as" and l: "l < 140"
  shows "fblock w bs l = fblock v as l"
proof -
  have b: "b \<noteq> 0" "w b = replicate BSIZE 0" "slot v as k = 0" using g m by (auto simp: gains_def map_ok_def)
  have sl: "slot w bs l = (if l = k then b else slot v as l)" using g l by (simp add: gains_def)
  show ?thesis
  proof (cases "l = k \<or> slot v as l = 0")
    case True
    with sl b show ?thesis by (auto simp: fblock_def)
  next
    case False
    then have old: "slot v as l \<noteq> b" "slot v as l \<notin> map_blocks su" "slot v as l \<noteq> as ! NDIRECT"
      using file_wfD(3,4) [OF f, of l] file_wfD(5) [OF f, of l 140] l g by (auto simp: gains_def slot_def)
    then have "w (slot v as l) = v (slot v as l)" using g unfolding gains_def by blast
    with False sl show ?thesis by (simp add: fblock_def)
  qed
qed

text \<open>The three ways in which \<open>bmap\<close> gives a file a block.\<close>

lemma get32_zeros [simp]: "p + 4 \<le> n \<Longrightarrow> get32 p (replicate n 0) = 0"
  by (simp add: get32_def slice_def min_def dec32_def)

lemma gains_allocated:
  assumes m: "map_ok ok su v" and f: "file_wf ok su v as" and len: "\<And>c. length (v c) = BSIZE"
    and b: "b \<in> free_blocks su v"
  shows "k < NDIRECT \<Longrightarrow> as ! k = 0 \<Longrightarrow> gains k b su v as (allocated su b v) (as[k := b])" (is "?a \<Longrightarrow> ?b \<Longrightarrow> ?g1")
    and "as ! NDIRECT = 0 \<Longrightarrow> gains 140 b su v as (allocated su b v) (as[NDIRECT := b])" (is "?c \<Longrightarrow> ?g2")
proof -
  have fr: "free_blocks su (allocated su b v) = free_blocks su v - {b}"
    by (rule allocated_free(1) [OF m b len])
  have lt: "b < sb_size su" using b by (simp add: free_blocks_def)
  have other: "allocated su b v c = v c" if "c \<notin> map_blocks su" "c \<noteq> b" for c
    by (rule allocated_other [OF lt that])
  have ind: "allocated su b v (as ! NDIRECT) = v (as ! NDIRECT)" if "as ! NDIRECT \<noteq> 0"
    using file_wfD(3,4) [OF f, of 140] that b by (intro other) (auto simp: slot_def)
  have l13: "length as = 13" by (rule file_wfD(1) [OF f])
  show ?g1 if ?a ?b
    using that b l13 other ind by (auto simp: gains_def fr slot_def)
  show ?g2 if ?c
    using that b l13 other by (auto simp: gains_def fr slot_def)
qed

lemma gains_indirect:
  assumes m: "map_ok ok su v" and f: "file_wf ok su v as" and len: "\<And>c. length (v c) = BSIZE"
    and b: "b \<in> free_blocks su v" and k: "12 \<le> k" "k < 140" and ind: "as ! NDIRECT \<noteq> 0" and old: "slot v as k = 0"
  shows "gains k b su v as
    ((allocated su b v)(as ! NDIRECT := put32 (4 * (k - NDIRECT)) b (v (as ! NDIRECT)))) as"
proof -
  let ?i = "as ! NDIRECT"
  have i: "?i \<notin> map_blocks su" "?i \<noteq> b"
    using file_wfD(3,4) [OF f, of 140] ind b by (auto simp: slot_def)
  have lt: "b < sb_size su" using b by (simp add: free_blocks_def)
  have "free_blocks su ((allocated su b v)(?i := put32 (4 * (k - NDIRECT)) b (v ?i))) = free_blocks su (allocated su b v)"
    by (rule free_blocks_data [OF i(1)])
  then have fr: "free_blocks su ((allocated su b v)(?i := put32 (4 * (k - NDIRECT)) b (v ?i))) = free_blocks su v - {b}"
    using allocated_free(1) [OF m b len] by simp
  have other: "allocated su b v c = v c" if "c \<notin> map_blocks su" "c \<noteq> b" for c
    by (rule allocated_other [OF lt that])
  have sl: "slot ((allocated su b v)(?i := put32 (4 * (k - NDIRECT)) b (v ?i))) as l = (if l = k then b else slot v as l)"
    if "l \<le> 140" for l
  proof (cases "l < NDIRECT \<or> l = 140")
    case True
    with k show ?thesis by (auto simp: slot_def)
  next
    case False
    have "l \<noteq> k \<Longrightarrow> 4 * (l - NDIRECT) + 4 \<le> 4 * (k - NDIRECT) \<or> 4 * (k - NDIRECT) + 4 \<le> 4 * (l - NDIRECT)"
      using False k by arith
    then have "get32 (4 * (l - NDIRECT)) (put32 (4 * (k - NDIRECT)) b (v ?i)) = (if l = k then b else get32 (4 * (l - NDIRECT)) (v ?i))"
      using False that k len [of ?i] by (auto simp: get32_put32_other)
    with False ind k show ?thesis by (simp add: slot_def)
  qed
  show ?thesis
    using k old b i other ind file_wfD(1) [OF f] sl by (auto simp: gains_def fr)
qed

text \<open>Writing data into a block of the file.\<close>

lemma data_written:
  assumes m: "map_ok ok su v" and f: "file_wf ok su v as" and k: "k < 140" "slot v as k = b" "b \<noteq> 0"
  shows "file_wf ok su (v(b := d)) as" "map_ok ok su (v(b := d))" "grows su v as (v(b := d)) as"
    "\<And>l. l < 140 \<Longrightarrow> fblock (v(b := d)) as l = (if l = k then d else fblock v as l)"
proof -
  have b: "b \<notin> map_blocks su" using file_wfD(3) [OF f, of k] k by simp
  have own: "b \<in> owns v as" using k unfolding owns_def by (auto intro: exI [of _ k])
  have "slot v as 140 \<noteq> b" using file_wfD(5) [OF f, of k 140] k by auto
  then have ni: "as ! NDIRECT \<noteq> b" by (simp add: slot_def)
  have fr: "free_blocks su (v(b := d)) = free_blocks su v" by (rule free_blocks_data [OF b])
  have sl: "slot (v(b := d)) as = slot v as" using ni by (simp add: slot_def fun_eq_iff)
  then have ow: "owns (v(b := d)) as = owns v as" by (simp add: owns_def)
  show "file_wf ok su (v(b := d)) as" using f by (simp add: file_wf_def fr sl ow)
  show "map_ok ok su (v(b := d))" using m by (simp add: map_ok_def fr)
  show "grows su v as (v(b := d)) as" using own by (auto simp: grows_def fr sl ow)
  show "fblock (v(b := d)) as l = (if l = k then d else fblock v as l)" if "l < 140" for l
  proof (cases "l = k")
    case False
    with file_wfD(5) [OF f, of k l] that k have "slot v as l \<noteq> b" by auto
    with False show ?thesis by (simp add: fblock_def sl)
  qed (use k in \<open>simp add: fblock_def sl\<close>)
qed


section \<open>Buffers held across a step\<close>

lemma upd_inode_bio [simp]:
  "bufs (upd_inode i f s) = bufs s" "memdisk (upd_inode i f s) = memdisk s" "disksize (upd_inode i f s) = disksize s"
  "bnext (upd_inode i f s) = bnext s" "bprev (upd_inode i f s) = bprev s" "disk_trace (upd_inode i f s) = disk_trace s"
  "log_start (upd_inode i f s) = log_start s" "log_size (upd_inode i f s) = log_size s" "log_dev (upd_inode i f s) = log_dev s"
  "lh_n (upd_inode i f s) = lh_n s" "lh_block (upd_inode i f s) = lh_block s"
  "log_outstanding (upd_inode i f s) = log_outstanding s" "mypid (upd_inode i f s) = mypid s"
  "sb (upd_inode i f s) = sb s" "cons (upd_inode i f s) = cons s"
  by (simp_all add: upd_inode_def mypid_def myproc_def)

lemma inodes_upd_inode [simp]: "inodes (upd_inode i f s) = (inodes s)(i := f (inodes s i))"
  by (simp add: upd_inode_def)

lemma upd_inode_caches [simp]: "caches (upd_inode i f s) = caches s"
  by (simp add: fun_eq_iff caches_def)

lemma upd_inode_abs [simp]:
  "cview (upd_inode i f s) = cview s" "held (upd_inode i f s) = held s" "pins (upd_inode i f s) = pins s"
  by (simp_all add: fun_eq_iff cview_def held_def pins_def split: option.split)

lemma upd_inode_inv [simp]: "log_ok (upd_inode i f s) = log_ok s"
  by (simp add: log_ok_def bio_inv_def caches_def buf_ok_def log_geometry_def logged_def fun_eq_iff)

lemma upd_inode_ready [simp]: "ready k (upd_inode i f s) = ready k s"
  by (simp add: ready_def)

lemma hold_block:
  assumes "ready k s" and "held s = Map.empty" and "okb s b"
  shows "\<exists>i s1. bread 1 b s = Ok (i, s1) \<and> b_data (bufs s1 i) = cview s b \<and> ready k s1 \<and> jframe s s1 \<and>
    cabs s1 = (cabs s)\<lparr>a_held := [i \<mapsto> b]\<rparr>"
proof -
  from jrnl.rd [OF ready_log_ok [OF assms(1)] okb_lt [OF assms(3)]] assms(2) ready_room(1) [OF assms(1)]
  obtain i s1 where *: "bread 1 b s = Ok (i, s1)" "log_ok s1" "jframe s s1"
      "cabs s1 = (cabs s)\<lparr>a_held := [i \<mapsto> b]\<rparr>" by auto
  have s1: "held s1 = [i \<mapsto> b]" "pins s1 = pins s" "cview s1 = cview s"
    using arg_cong [OF *(4), of a_held] arg_cong [OF *(4), of a_pins] arg_cong [OF *(4), of a_view] by simp_all
  have "ready k s1" using assms(1) *(2) s1 jframe_log(4) [OF *(3)] by (auto simp: ready_def)
  moreover have "b_data (bufs s1 i) = cview s b" using jrnl.data [OF *(2), of i b] s1 by simp
  ultimately show ?thesis using * by blast
qed

lemma log_held:
  assumes "ready (Suc k) s" and "held s = [i \<mapsto> b]" and "okb s b" and "length d = BSIZE"
  shows "\<exists>s1 s2. log_write i (set_data i d s) = Ok s1 \<and> brelse i s1 = Ok s2 \<and> ready k s2 \<and> jframe s s2 \<and>
    cabs s2 = (cabs s)\<lparr>a_view := (cview s)(b := d), a_pins := insert b (pins s), a_held := Map.empty\<rparr>"
proof -
  from jrnl.put_log_rel [OF ready_log_ok [OF assms(1)], of i b d] assms ready_room(2) [OF assms(1)]
  obtain s1 s2 where *: "log_write i (set_data i d s) = Ok s1" "brelse i s1 = Ok s2" "log_ok s2" "jframe s s2"
      "cabs s2 = (cabs s)\<lparr>a_view := (cview s)(b := d), a_pins := insert b (pins s), a_held := Map.empty\<rparr>"
    unfolding jrnl.wrote_def by (auto simp: ready_def)
  have s2: "held s2 = Map.empty" "pins s2 = insert b (pins s)"
    using arg_cong [OF *(5), of a_held] arg_cong [OF *(5), of a_pins] by simp_all
  have "card (insert b (pins s)) \<le> Suc (card (pins s))" by (rule card_insert_le_m1) simp_all
  then have "ready k s2" using assms(1) *(3) s2 jframe_log(4) [OF *(4)] by (simp add: ready_def)
  with * show ?thesis by blast
qed


section \<open>bmap\<close>

abbreviation addrs :: "'a fs_state_scheme \<Rightarrow> nat \<Rightarrow> u32 list" where
  "addrs s i \<equiv> i_addrs (inodes s i)"

text \<open>
  A file that can be worked on: the log takes \<open>k\<close> more blocks, the disk has \<open>f\<close> free ones, no buffer is
  held, and the inode and the bitmap are in order.
\<close>

definition file_ready :: "nat \<Rightarrow> nat \<Rightarrow> nat \<Rightarrow> 'a fs_state_scheme \<Rightarrow> bool" where
  "file_ready k f i s \<longleftrightarrow> ready k s \<and> held s = Map.empty \<and> f \<le> card (free_blocks (sb s) (cview s)) \<and>
     bitmap_ok s \<and> i_dev (inodes s i) = 1 \<and> file_wf (okb s) (sb s) (cview s) (addrs s i)"

text \<open>What \<open>bmap\<close> and \<open>writei\<close> may do to the state: only the addresses of inode \<open>i\<close> change, and the
  file grows.\<close>

definition file_step :: "nat \<Rightarrow> 'a fs_state_scheme \<Rightarrow> 'a fs_state_scheme \<Rightarrow> bool" where
  "file_step i s t \<longleftrightarrow> sb t = sb s \<and> okb t = okb s \<and>
     (\<exists>as. inodes t = (inodes s)(i := (inodes s i)\<lparr>i_addrs := as\<rparr>)) \<and>
     grows (sb s) (cview s) (addrs s i) (cview t) (addrs t i)"

definition contents :: "'a fs_state_scheme \<Rightarrow> nat \<Rightarrow> nat \<Rightarrow> bytes" where
  "contents s i k = (if k < 140 then fblock (cview s) (addrs s i) k else [])"

lemma file_step_refl [simp]: "file_step i s s"
  by (auto simp: file_step_def fun_upd_idem_iff intro: exI [of _ "addrs s i"])

lemma file_step_trans: "file_step i s t \<Longrightarrow> file_step i t u \<Longrightarrow> file_step i s u"
  unfolding file_step_def by (auto intro: grows_trans)

lemma file_ready_mono: "file_ready k f i s \<Longrightarrow> k' \<le> k \<Longrightarrow> f' \<le> f \<Longrightarrow> file_ready k' f' i s"
  by (auto simp: file_ready_def intro: ready_mono)

lemma view_len: "ready k s \<Longrightarrow> length (cview s b) = BSIZE"
  using jrnl.view_length [OF ready_log_ok] by simp

text \<open>A state reached by giving the file a block.\<close>

lemma gains_step:
  fixes s :: "'a fs_state_scheme"
  assumes f: "file_ready k (Suc f) i s" and g: "gains n b (sb s) (cview s) (addrs s i) (cview t) (addrs t i)"
    and t: "ready j t" "held t = Map.empty" "sb t = sb s" "okb t = okb s"
      "inodes t = (inodes s)(i := (inodes s i)\<lparr>i_addrs := as\<rparr>)"
  shows "file_ready j f i t" "file_step i s t" "contents t i = contents s i"
proof -
  have m: "bitmap_ok s" and w: "file_wf (okb s) (sb s) (cview s) (addrs s i)"
    and c: "Suc f \<le> card (free_blocks (sb s) (cview s))" and d: "i_dev (inodes s i) = 1"
    using f by (simp_all add: file_ready_def)
  note gw = gains_wf [OF g m w]
  have "i_dev (inodes t i) = 1" using d by (simp add: t(5))
  moreover have "f \<le> card (free_blocks (sb s) (cview t))"
    using c g by (simp add: gains_def card_Diff_singleton)
  ultimately show "file_ready j f i t" using t(1-4) gw(1,2) by (simp add: file_ready_def)
  show "file_step i s t" unfolding file_step_def using t(3-5) gw(3) by blast
  show "contents t i = contents s i"
    using gains_content [OF g m w] by (simp add: contents_def fun_eq_iff)
qed

lemma bmap_missing_free:
  "file_ready k (Suc f) i s \<Longrightarrow> free_blocks (sb s) (cview s) \<noteq> {}"
  by (auto simp: file_ready_def)

text \<open>A block is allocated and put into the inode.\<close>

lemma alloc_into_inode:
  fixes s :: "'a fs_state_scheme"
  assumes f: "file_ready (Suc (Suc k)) (Suc f) i s" and p: "p \<le> NDIRECT" and z: "addrs s i ! p = 0"
  shows "\<exists>a s1. balloc 1 s = Ok (a, s1) \<and> a \<noteq> 0 \<and>
    (let t = upd_inode i (\<lambda>ip. ip\<lparr>i_addrs := (i_addrs ip)[p := a]\<rparr>) s1 in
       file_ready k f i t \<and> file_step i s t \<and> contents t i = contents s i \<and>
       slot (cview t) (addrs t i) (if p = NDIRECT then 140 else p) = a)"
proof -
  have r: "ready (Suc (Suc k)) s" "bitmap_ok s" "held s = Map.empty" and w: "file_wf (okb s) (sb s) (cview s) (addrs s i)"
    using f by (simp_all add: file_ready_def)
  from balloc_spec [OF r(1,2) _ bmap_missing_free [OF f]] r(3) obtain a s1 where
    b: "balloc 1 s = Ok (a, s1)" "a \<in> free_blocks (sb s) (cview s)" "ready k s1" "jframe s s1"
      "cabs s1 = (cabs s)\<lparr>a_view := allocated (sb s) a (cview s), a_pins := insert a (insert (BBLOCK a (sb s)) (pins s))\<rparr>"
    by auto
  have s1: "held s1 = Map.empty" "cview s1 = allocated (sb s) a (cview s)"
    using arg_cong [OF b(5), of a_held] arg_cong [OF b(5), of a_view] r(3) by simp_all
  note fs = jframe_fs [OF b(4)] okb_jframe [OF b(4)]
  define t where "t = upd_inode i (\<lambda>ip. ip\<lparr>i_addrs := (i_addrs ip)[p := a]\<rparr>) s1"
  have t: "addrs t i = (addrs s i)[p := a]" "cview t = allocated (sb s) a (cview s)" by (simp_all add: t_def fs s1)
  define n where "n = (if p = NDIRECT then 140 else p)"
  have g: "gains n a (sb s) (cview s) (addrs s i) (cview t) (addrs t i)"
    using gains_allocated [OF r(2) w view_len [OF r(1)] b(2)] p z by (auto simp: t n_def)
  have "ready k t" "held t = Map.empty" "sb t = sb s" "okb t = okb s"
    "inodes t = (inodes s)(i := (inodes s i)\<lparr>i_addrs := (addrs s i)[p := a]\<rparr>)"
    using b(3) by (simp_all add: t_def fs s1)
  note gs = gains_step [OF f g this]
  have "slot (cview t) (addrs t i) n = a" using g by (simp add: gains_def)
  moreover have "a \<noteq> 0" using b(2) r(2) by (auto simp: map_ok_def)
  ultimately show ?thesis using b(1) gs unfolding t_def n_def
    by (intro exI [of _ a] exI [of _ s1]) (simp only: Let_def simp_thms)
qed


text \<open>The first stage of the indirect case: the indirect block is there or gets allocated.\<close>

lemma bmap_indirect:
  fixes s :: "'a fs_state_scheme"
  assumes f: "file_ready (Suc (Suc k)) (Suc f) i s"
  shows "\<exists>t. (if addrs s i ! NDIRECT = 0 then
        rbind (balloc (i_dev (inodes s i)) s) (\<lambda>(addr, s).
        Ok (addr, upd_inode i (\<lambda>ip. ip\<lparr>i_addrs := (i_addrs ip)[NDIRECT := addr]\<rparr>) s))
      else Ok (addrs s i ! NDIRECT, s)) = Ok (addrs t i ! NDIRECT, t) \<and> addrs t i ! NDIRECT \<noteq> 0 \<and>
    file_ready k f i t \<and> file_step i s t \<and> contents t i = contents s i"
proof (cases "addrs s i ! NDIRECT = 0")
  case True
  have d: "i_dev (inodes s i) = 1" using f by (simp add: file_ready_def)
  from alloc_into_inode [OF f le_refl True] obtain a s1 where
    a: "balloc 1 s = Ok (a, s1)" "a \<noteq> 0" and
    t: "let t = upd_inode i (\<lambda>ip. ip\<lparr>i_addrs := (i_addrs ip)[NDIRECT := a]\<rparr>) s1 in
       file_ready k f i t \<and> file_step i s t \<and> contents t i = contents s i \<and>
       slot (cview t) (addrs t i) (if NDIRECT = NDIRECT then 140 else NDIRECT) = a" by blast
  define t where "t = upd_inode i (\<lambda>ip. ip\<lparr>i_addrs := (i_addrs ip)[NDIRECT := a]\<rparr>) s1"
  have tt: "file_ready k f i t \<and> file_step i s t \<and> contents t i = contents s i \<and> slot (cview t) (addrs t i) 140 = a"
    using t unfolding t_def [symmetric] Let_def by simp
  then have "addrs t i ! NDIRECT = a" by (simp add: slot_def)
  with tt a True d show ?thesis by (intro exI [of _ t]) (simp add: t_def)
next
  case False
  with f show ?thesis by (intro exI [of _ s]) (auto intro: file_ready_mono)
qed

text \<open>The second stage: the address in the indirect block is there or gets allocated.\<close>

lemma bmap_entry:
  fixes s :: "'a fs_state_scheme"
  assumes f: "file_ready (Suc (Suc (Suc k))) (Suc f) i s" and n: "addrs s i ! NDIRECT \<noteq> 0"
    and j: "12 \<le> j" "j < 140" and d: "i_dev (inodes s i) = d"
  shows "\<exists>a t. rbind (bread d (addrs s i ! NDIRECT) s) (\<lambda>(bp, s).
      let a = get32 (4 * (j - NDIRECT)) (b_data (bufs s bp)) in
      rbind (if a = 0 then
               rbind (balloc d s) (\<lambda>(addr, s).
               rbind (log_write bp (set_data bp (put32 (4 * (j - NDIRECT)) addr (b_data (bufs s bp))) s)) (\<lambda>s.
               Ok (addr, s)))
             else Ok (a, s)) (\<lambda>(addr, s).
      rbind (brelse bp s) (\<lambda>s. Ok (addr, s)))) = Ok (a, t) \<and>
    a = slot (cview t) (addrs t i) j \<and> a \<noteq> 0 \<and> file_ready k f i t \<and> file_step i s t \<and> contents t i = contents s i"
proof -
  let ?b = "addrs s i ! NDIRECT" and ?v = "cview s" and ?su = "sb s"
  have r: "ready (Suc (Suc (Suc k))) s" "bitmap_ok s" "held s = Map.empty" "i_dev (inodes s i) = 1"
    and w: "file_wf (okb s) ?su ?v (addrs s i)"
    using f by (simp_all add: file_ready_def)
  have d1: "d = 1" using r(4) d by simp
  have b: "okb s ?b" "?b \<notin> map_blocks ?su" "?b \<notin> free_blocks ?su ?v"
    using file_wfD(2-4) [OF w, of 140] n by (simp_all add: slot_def)
  have sl: "slot ?v (addrs s i) j = get32 (4 * (j - NDIRECT)) (?v ?b)" using j n by (simp add: slot_def)
  show ?thesis
  proof (cases "slot ?v (addrs s i) j = 0")
    case False
    from read_block [OF r(1) b(1)] r(3) obtain bp s1 s2 where
      rb: "bread 1 ?b s = Ok (bp, s1)" "b_data (bufs s1 bp) = ?v ?b" "brelse bp s1 = Ok s2" "jframe s s2"
        "ready (Suc (Suc (Suc k))) s2" "cabs s2 = cabs s" by auto
    have s2: "held s2 = Map.empty" "cview s2 = ?v"
      using arg_cong [OF rb(6), of a_held] arg_cong [OF rb(6), of a_view] r(3) by simp_all
    note fs = jframe_fs [OF rb(4)] okb_jframe [OF rb(4)]
    have "file_ready (Suc (Suc (Suc k))) (Suc f) i s2" using f rb(5) by (simp add: file_ready_def s2 fs map_ok_def)
    then have "file_ready k f i s2" by (rule file_ready_mono) simp_all
    moreover have "file_step i s s2" using file_step_refl [of i s] by (simp only: file_step_def s2 fs)
    moreover have "contents s2 i = contents s i" by (simp add: contents_def fun_eq_iff s2 fs)
    ultimately show ?thesis
      using False rb(1-3) d1 by (intro exI [of _ "slot ?v (addrs s i) j"] exI [of _ s2]) (simp add: sl s2 fs)
  next
    case True
    from hold_block [OF r(1,3) b(1)] obtain bp s1 where
      h: "bread 1 ?b s = Ok (bp, s1)" "b_data (bufs s1 bp) = ?v ?b" "ready (Suc (Suc (Suc k))) s1" "jframe s s1"
        "cabs s1 = (cabs s)\<lparr>a_held := [bp \<mapsto> ?b]\<rparr>" by blast
    have s1: "held s1 = [bp \<mapsto> ?b]" "cview s1 = ?v" "pins s1 = pins s"
      using arg_cong [OF h(5), of a_held] arg_cong [OF h(5), of a_view] arg_cong [OF h(5), of a_pins] by simp_all
    note fs1 = jframe_fs [OF h(4)] okb_jframe [OF h(4)]
    have "bitmap_ok s1" using r(2) by (simp add: map_ok_def s1 fs1)
    from balloc_spec [OF h(3) this] bmap_missing_free [OF f] b(2,3) obtain a s2 where
      a: "balloc 1 s1 = Ok (a, s2)" "a \<in> free_blocks ?su ?v" "ready (Suc k) s2" "jframe s1 s2"
        "cabs s2 = (cabs s1)\<lparr>a_view := allocated ?su a ?v, a_pins := insert a (insert (BBLOCK a ?su) (pins s))\<rparr>"
      by (auto simp: s1 fs1)
    have s2: "held s2 = [bp \<mapsto> ?b]" "cview s2 = allocated ?su a ?v"
      using arg_cong [OF a(5), of a_held] arg_cong [OF a(5), of a_view] by (simp_all add: s1)
    note fs2 = jframe_fs [OF a(4)] okb_jframe [OF a(4)]
    have vb: "allocated ?su a ?v ?b = ?v ?b"
      using a(2) b by (intro allocated_other) (auto simp: free_blocks_def)
    have data: "b_data (bufs s2 bp) = ?v ?b"
      using jrnl.data [OF ready_log_ok [OF a(3)], of bp ?b] by (simp add: s2 vb)
    let ?d = "put32 (4 * (j - NDIRECT)) a (?v ?b)"
    have "length ?d = BSIZE" using view_len [OF r(1), of ?b] j by simp
    with log_held [OF a(3) s2(1), of ?d] b(1) obtain s3 t where
      l: "log_write bp (set_data bp ?d s2) = Ok s3" "brelse bp s3 = Ok t" "ready k t" "jframe s2 t"
        "cabs t = (cabs s2)\<lparr>a_view := (cview s2)(?b := ?d), a_pins := insert ?b (pins s2), a_held := Map.empty\<rparr>"
      by (auto simp: fs1 fs2)
    have t: "held t = Map.empty" "cview t = (allocated ?su a ?v)(?b := ?d)"
      using arg_cong [OF l(5), of a_held] arg_cong [OF l(5), of a_view] by (simp_all add: s2)
    note fs3 = jframe_fs [OF l(4)] okb_jframe [OF l(4)]
    have g: "gains j a ?su ?v (addrs s i) (cview t) (addrs t i)"
      using gains_indirect [OF r(2) w view_len [OF r(1)] a(2) j n True] by (simp add: t fs1 fs2 fs3)
    have "inodes t = (inodes s)(i := (inodes s i)\<lparr>i_addrs := addrs s i\<rparr>)"
      by (simp add: fs1 fs2 fs3)
    from gains_step [OF f g l(3) t(1) _ _ this] have
      gs: "file_ready k f i t" "file_step i s t" "contents t i = contents s i"
      by (simp_all add: fs1 fs2 fs3)
    have "slot (cview t) (addrs t i) j = a" using g j by (simp add: gains_def)
    moreover have "a \<noteq> 0" using a(2) r(2) by (auto simp: map_ok_def)
    ultimately show ?thesis using gs True h(1,2) a(1) l(1,2) d1
      by (intro exI [of _ a] exI [of _ t]) (simp add: sl data)
  qed
qed


lemma bmap_spec:
  fixes s :: "'a fs_state_scheme"
  assumes f: "file_ready (k + 5) (f + 2) i s" and bn: "unat bn < 140"
  shows "\<exists>a t. bmap i bn s = Ok (a, t) \<and> a = slot (cview t) (addrs t i) (unat bn) \<and> a \<noteq> 0 \<and>
    file_ready k f i t \<and> file_step i s t \<and> contents t i = contents s i"
proof (cases "unat bn < NDIRECT")
  case True
  then have lt: "bn < word_of_nat NDIRECT" by (simp add: word_less_nat_alt)
  have d: "i_dev (inodes s i) = 1" using f by (simp add: file_ready_def)
  show ?thesis
  proof (cases "addrs s i ! unat bn = 0")
    case False
    with f lt True show ?thesis
      by (intro exI [of _ "addrs s i ! unat bn"] exI [of _ s]) (auto simp: bmap_def slot_def intro: file_ready_mono)
  next
    case z: True
    have "file_ready (Suc (Suc (k + 3))) (Suc (f + 1)) i s" by (rule file_ready_mono [OF f]) simp_all
    from alloc_into_inode [OF this less_imp_le_nat [OF True] z] obtain a s1 where
      a: "balloc 1 s = Ok (a, s1)" "a \<noteq> 0" and
      t: "let t = upd_inode i (\<lambda>ip. ip\<lparr>i_addrs := (i_addrs ip)[unat bn := a]\<rparr>) s1 in
         file_ready (k + 3) (f + 1) i t \<and> file_step i s t \<and> contents t i = contents s i \<and>
         slot (cview t) (addrs t i) (if unat bn = NDIRECT then 140 else unat bn) = a" by blast
    define t where "t = upd_inode i (\<lambda>ip. ip\<lparr>i_addrs := (i_addrs ip)[unat bn := a]\<rparr>) s1"
    have tt: "file_ready (k + 3) (f + 1) i t" "file_step i s t" "contents t i = contents s i"
        "slot (cview t) (addrs t i) (unat bn) = a"
      using t True unfolding t_def [symmetric] Let_def by simp_all
    have "bmap i bn s = Ok (a, t)" using lt z a(1) d by (simp add: bmap_def t_def)
    then show ?thesis using tt(2-4) a(2) file_ready_mono [OF tt(1)] by auto
  qed
next
  case False
  let ?n = "bn - word_of_nat NDIRECT"
  have n: "\<not> bn < word_of_nat NDIRECT" "unat ?n = unat bn - NDIRECT" "?n < word_of_nat NINDIRECT"
    using False bn by (simp_all add: word_less_nat_alt unat_sub word_le_nat_alt)
  have "file_ready (Suc (Suc (k + 3))) (Suc (f + 1)) i s" by (rule file_ready_mono [OF f]) simp_all
  define d where "d = i_dev (inodes s i)"
  from bmap_indirect [OF \<open>file_ready (Suc (Suc (k + 3))) (Suc (f + 1)) i s\<close>, folded d_def] obtain s1 where s1: "(if addrs s i ! NDIRECT = 0 then
        rbind (balloc d s) (\<lambda>(addr, s).
        Ok (addr, upd_inode i (\<lambda>ip. ip\<lparr>i_addrs := (i_addrs ip)[NDIRECT := addr]\<rparr>) s))
      else Ok (addrs s i ! NDIRECT, s)) = Ok (addrs s1 i ! NDIRECT, s1)"
    "addrs s1 i ! NDIRECT \<noteq> 0" "file_ready (k + 3) (f + 1) i s1" "file_step i s s1" "contents s1 i = contents s i"
    by blast
  have "file_ready (Suc (Suc (Suc k))) (Suc f) i s1" using s1(3) by (simp add: eval_nat_numeral)
  have dev: "i_dev (inodes s1 i) = d" using f s1(3) by (simp add: d_def file_ready_def)
  have ge: "12 \<le> unat bn" using False by simp
  from bmap_entry [OF \<open>file_ready (Suc (Suc (Suc k))) (Suc f) i s1\<close> s1(2) _ bn dev] ge obtain a t where
    t: "rbind (bread d (addrs s1 i ! NDIRECT) s1) (\<lambda>(bp, s).
      let a = get32 (4 * (unat bn - NDIRECT)) (b_data (bufs s bp)) in
      rbind (if a = 0 then
               rbind (balloc d s) (\<lambda>(addr, s).
               rbind (log_write bp (set_data bp (put32 (4 * (unat bn - NDIRECT)) addr (b_data (bufs s bp))) s)) (\<lambda>s.
               Ok (addr, s)))
             else Ok (a, s)) (\<lambda>(addr, s).
      rbind (brelse bp s) (\<lambda>s. Ok (addr, s)))) = Ok (a, t)"
    "a = slot (cview t) (addrs t i) (unat bn)" "a \<noteq> 0" "file_ready k f i t" "file_step i s1 t"
    "contents t i = contents s1 i" by blast
  have "bmap i bn s = Ok (a, t)"
    using n(1,3) t(1) unfolding bmap_def Let_def d_def [symmetric] s1(1) n(2) by (simp del: rbind_eq_Ok split del: if_split)
  then show ?thesis using t s1(5) file_step_trans [OF s1(4) t(5)] by auto
qed

end
