(* ===== verification/Contents.thy ===== *)
theory Contents imports Files begin

text \<open>
  The bytes of a file: \<open>writei\<close> puts bytes into a file, allocating the blocks it needs, and \<open>readi\<close>
  gets them back.  Each round of the loops costs the log at most six blocks and the disk at most two; the
  hypotheses on a call say that both have that many left.  The last section is a small file to which
  the theorem is applied.
\<close>

section \<open>The bytes of a file\<close>

definition byte_at :: "(nat \<Rightarrow> bytes) \<Rightarrow> nat \<Rightarrow> u8" where
  "byte_at c p = c (p div BSIZE) ! (p mod BSIZE)"

text \<open>The number of blocks that \<open>n\<close> bytes from \<open>off\<close> on lie in.\<close>

definition rounds :: "nat \<Rightarrow> nat \<Rightarrow> nat" where
  "rounds off n = (if n = 0 then 0 else (off mod BSIZE + n + 511) div BSIZE)"

lemma rounds_step:
  assumes "0 < n" and "m = min n (BSIZE - off mod BSIZE)"
  shows "rounds off n = Suc (rounds (off + m) (n - m))"
proof (cases "n \<le> BSIZE - off mod BSIZE")
  case True
  moreover have "off mod BSIZE < BSIZE" by simp
  ultimately have "1 * BSIZE \<le> off mod BSIZE + n + 511" "off mod BSIZE + n + 511 < 2 * BSIZE"
    using assms(1) by linarith+
  then have "(off mod BSIZE + n + 511) div BSIZE = 1" by (intro div_nat_eqI) simp_all
  with True assms show ?thesis by (simp add: rounds_def)
next
  case False
  have lt: "off mod BSIZE < BSIZE" by simp
  have m: "m = BSIZE - off mod BSIZE" using False assms(2) by simp
  have "off + m = off div BSIZE * BSIZE + (off mod BSIZE + m)" by (simp add: add.assoc [symmetric])
  also have "off mod BSIZE + m = BSIZE" using m lt by simp
  finally have "(off + m) mod BSIZE = 0" by simp
  moreover have eq: "off mod BSIZE + n + 511 = (n - m + 511) + BSIZE"
    using m lt False by linarith
  have "rounds off n = (n - m + 511) div BSIZE + 1"
    using assms(1) unfolding rounds_def eq by simp
  moreover have "0 < n - m" using False m by simp
  ultimately show ?thesis by (simp add: rounds_def)
qed

lemma byte_at_blit:
  assumes "length (c k) = BSIZE" and "q + length xs \<le> BSIZE" and "off = k * BSIZE + q"
  shows "byte_at (c(k := blit q xs (c k))) p = (if off \<le> p \<and> p < off + length xs then xs ! (p - off) else byte_at c p)"
proof (cases "p div BSIZE = k")
  case True
  then have p: "p = k * BSIZE + p mod BSIZE" by (metis div_mult_mod_eq)
  have lt: "p mod BSIZE < BSIZE" by simp
  have "(q \<le> p mod BSIZE \<and> p mod BSIZE < q + length xs) = (off \<le> p \<and> p < off + length xs)" "p mod BSIZE - q = p - off"
    using p assms(3) by linarith+
  with True assms(1,2) lt show ?thesis by (simp add: byte_at_def nth_blit)
next
  case False
  have "\<not> (off \<le> p \<and> p < off + length xs)"
  proof
    assume a: "off \<le> p \<and> p < off + length xs"
    then have "k * BSIZE \<le> p" "p < Suc k * BSIZE" using assms(2,3) by auto
    then have "p div BSIZE = k" by (intro div_nat_eqI) (simp_all add: mult.commute)
    with False show False by simp
  qed
  with False show ?thesis by (auto simp: byte_at_def)
qed

lemma byte_at_slice:
  assumes "length (c k) = BSIZE" and "q + m \<le> BSIZE" and "off = k * BSIZE + q"
  shows "slice q m (c k) = map (byte_at c) [off..<off + m]"
proof (rule nth_equalityI)
  show "length (slice q m (c k)) = length (map (byte_at c) [off..<off + m])" using assms by simp
  fix j assume "j < length (slice q m (c k))"
  then have j: "j < m" using assms by simp
  then have eq: "off + j = (q + j) + k * BSIZE" and "q + j < BSIZE" using assms by simp_all
  then have "(off + j) div BSIZE = k" "(off + j) mod BSIZE = q + j" unfolding eq by simp_all
  with j assms show "slice q m (c k) ! j = map (byte_at c) [off..<off + m] ! j"
    by (simp add: nth_slice byte_at_def)
qed

lemma contents_length: "file_ready k f i s \<Longrightarrow> b < 140 \<Longrightarrow> length (contents s i b) = BSIZE"
  using view_len [of k s] by (simp add: contents_def fblock_def file_ready_def)

section \<open>One round of the loops\<close>

lemma file_step_dev: "file_step i s t \<Longrightarrow> i_dev (inodes t j) = i_dev (inodes s j)"
  by (auto simp: file_step_def)

lemma write_round:
  fixes s :: "'a fs_state_scheme"
  assumes f: "file_ready (k + 6) (f + 2) i s" and bn: "unat bn < 140" and d: "length d = BSIZE"
  shows "\<exists>a t bp s1 s2 u. bmap i bn s = Ok (a, t) \<and> bread (i_dev (inodes t i)) a t = Ok (bp, s1) \<and>
    b_data (bufs s1 bp) = contents s i (unat bn) \<and> log_write bp (set_data bp d s1) = Ok s2 \<and> brelse bp s2 = Ok u \<and>
    file_ready k f i u \<and> file_step i s u \<and> slot (cview u) (addrs u i) (unat bn) \<noteq> 0 \<and>
    contents u i = (contents s i)(unat bn := d)"
proof -
  have "file_ready (k + 1 + 5) (f + 2) i s" by (rule file_ready_mono [OF f]) simp_all
  from bmap_spec [OF this bn] obtain a t where b: "bmap i bn s = Ok (a, t)"
    "a = slot (cview t) (addrs t i) (unat bn)" "a \<noteq> 0" "file_ready (Suc k) f i t" "file_step i s t"
    "contents t i = contents s i" by auto
  have t: "ready (Suc k) t" "held t = Map.empty" "bitmap_ok t" "i_dev (inodes t i) = 1"
      "file_wf (okb t) (sb t) (cview t) (addrs t i)" "f \<le> card (free_blocks (sb t) (cview t))"
    using b(4) by (simp_all add: file_ready_def)
  have a: "okb t a" "a \<notin> map_blocks (sb t)" using file_wfD(2,3) [OF t(5), of "unat bn"] bn b(2,3) by simp_all
  from rewrite_block [OF t(1) a(1) _ d] t(2) obtain bp s1 s2 u where w: "bread 1 a t = Ok (bp, s1)"
    "b_data (bufs s1 bp) = cview t a" "log_write bp (set_data bp d s1) = Ok s2" "brelse bp s2 = Ok u"
    "ready k u" "jframe t u" "cabs u = (cabs t)\<lparr>a_view := (cview t)(a := d), a_pins := insert a (pins t)\<rparr>"
    by auto
  have u: "held u = Map.empty" "cview u = (cview t)(a := d)"
    using arg_cong [OF w(7), of a_held] arg_cong [OF w(7), of a_view] t(2) by simp_all
  note fs = jframe_fs [OF w(6)] okb_jframe [OF w(6)]
  note dw = data_written [OF t(3,5) bn b(2) [symmetric] b(3), where d = "d"]
  have "file_ready k f i u"
    using w(5) u(1) t(4,6) dw(1,2) free_blocks_data [OF a(2)] by (simp add: file_ready_def u(2) fs)
  moreover have "file_step i t u"
    using file_step_refl [of i t] dw(3) unfolding file_step_def u(2) fs by blast
  moreover have "slot (cview u) (addrs u i) (unat bn) = a"
    using grows_keeps [OF dw(3)] bn b(2,3) by (simp add: u(2) fs)
  moreover have "contents u i = (contents s i)(unat bn := d)"
    using dw(4) bn by (auto simp: b(6) [symmetric] contents_def u(2) fs fun_eq_iff)
  moreover have "cview t a = contents t i (unat bn)" using b(2,3) bn by (simp add: contents_def fblock_def)
  ultimately show ?thesis using b(1,3,6) w(1-4) t(4) file_step_trans [OF b(5)] by auto
qed

text \<open>Reading a block of a file that has it leaves everything as it was but the buffer list.\<close>

definition same_file :: "nat \<Rightarrow> nat \<Rightarrow> 'a fs_state_scheme \<Rightarrow> 'a fs_state_scheme \<Rightarrow> bool" where
  "same_file k i s t \<longleftrightarrow> ready k t \<and> held t = Map.empty \<and> cview t = cview s \<and> inodes t = inodes s \<and>
     sb t = sb s \<and> okb t = okb s \<and> pins t = pins s"

lemma same_file_trans: "same_file k i s t \<Longrightarrow> same_file k i t u \<Longrightarrow> same_file k i s u"
  by (simp add: same_file_def)

lemma same_file_ready: "file_ready k f i s \<Longrightarrow> same_file k i s t \<Longrightarrow> file_ready k f i t"
  by (simp add: same_file_def file_ready_def map_ok_def)

lemma same_file_contents: "same_file k i s t \<Longrightarrow> contents t = contents s"
  by (intro ext) (simp add: same_file_def contents_def)

lemma read_file_block:
  fixes s :: "'a fs_state_scheme"
  assumes f: "file_ready k f i s" and b: "okb s b"
  shows "\<exists>bp s1 u. bread 1 b s = Ok (bp, s1) \<and> b_data (bufs s1 bp) = cview s b \<and> brelse bp s1 = Ok u \<and>
    same_file k i s u"
proof -
  have r: "ready k s" "held s = Map.empty" using f by (simp_all add: file_ready_def)
  from read_block [OF r(1) b] r(2) obtain bp s1 u where
    rb: "bread 1 b s = Ok (bp, s1)" "b_data (bufs s1 bp) = cview s b" "brelse bp s1 = Ok u" "jframe s u"
      "ready k u" "cabs u = cabs s" by auto
  have "held u = Map.empty" "cview u = cview s" "pins u = pins s"
    using arg_cong [OF rb(6), of a_held] arg_cong [OF rb(6), of a_view] arg_cong [OF rb(6), of a_pins] r(2) by simp_all
  then have "same_file k i s u" using rb(5) jframe_fs [OF rb(4)] okb_jframe [OF rb(4)] by (simp add: same_file_def)
  with rb show ?thesis by blast
qed

lemma read_round:
  fixes s :: "'a fs_state_scheme"
  assumes f: "file_ready k f i s" and bn: "unat bn < 140" and there: "slot (cview s) (addrs s i) (unat bn) \<noteq> 0"
  shows "\<exists>a t bp s1 u. bmap i bn s = Ok (a, t) \<and> bread (i_dev (inodes t i)) a t = Ok (bp, s1) \<and>
    b_data (bufs s1 bp) = contents s i (unat bn) \<and> brelse bp s1 = Ok u \<and> same_file k i s u"
proof -
  have w: "file_wf (okb s) (sb s) (cview s) (addrs s i)" and d: "i_dev (inodes s i) = 1"
    using f by (simp_all add: file_ready_def)
  let ?a = "slot (cview s) (addrs s i) (unat bn)"
  have m: "\<exists>t. bmap i bn s = Ok (?a, t) \<and> same_file k i s t"
  proof (cases "unat bn < NDIRECT")
    case True
    then have "bn < word_of_nat NDIRECT" by (simp add: word_less_nat_alt)
    with True there f show ?thesis by (simp add: bmap_def slot_def same_file_def file_ready_def)
  next
    case False
    let ?b = "addrs s i ! NDIRECT"
    let ?n = "bn - word_of_nat NDIRECT"
    have n: "\<not> bn < word_of_nat NDIRECT" "unat ?n = unat bn - NDIRECT" "?n < word_of_nat NINDIRECT"
      using False bn by (simp_all add: word_less_nat_alt unat_sub word_le_nat_alt)
    have sl: "?a = get32 (4 * (unat bn - NDIRECT)) (cview s ?b)" and b: "?b \<noteq> 0"
      using there False bn by (auto simp: slot_def split: if_splits)
    have "okb s ?b" using file_wfD(2) [OF w, of 140] b by (simp add: slot_def)
    with f obtain bp s1 s2 where "bread 1 ?b s = Ok (bp, s1)" "b_data (bufs s1 bp) = cview s ?b"
        "brelse bp s1 = Ok s2" "same_file k i s s2"
      using read_file_block [OF f] by blast
    with n b there d show ?thesis by (intro exI [of _ s2]) (simp add: bmap_def sl)
  qed
  then obtain t where t: "bmap i bn s = Ok (?a, t)" "same_file k i s t" by blast
  have "okb t ?a" using file_wfD(2) [OF w, of "unat bn"] bn there t(2) by (simp add: same_file_def)
  from read_file_block [OF same_file_ready [OF f t(2)] this] obtain bp s1 u where
    r: "bread 1 ?a t = Ok (bp, s1)" "b_data (bufs s1 bp) = cview t ?a" "brelse bp s1 = Ok u" "same_file k i t u"
    by blast
  have "cview t ?a = contents s i (unat bn)" using t(2) bn there by (simp add: contents_def fblock_def same_file_def)
  with r t d show ?thesis using same_file_trans [OF t(2) r(4)] by (auto simp: same_file_def)
qed

section \<open>readi and writei\<close>

lemma u32_add: "unat (off :: u32) + m < 2 ^ 32 \<Longrightarrow> unat (off + word_of_nat m) = unat off + m"
  by (simp add: unat_word_ariths unat_of_nat)

lemma writei_loop_spec:
  fixes s :: "'a fs_state_scheme"
  assumes "file_ready (k + 6 * rounds (unat off) (length src)) (f + 2 * rounds (unat off) (length src)) i s"
    and "unat off + length src \<le> 140 * BSIZE"
  shows "\<exists>t. writei_loop i off src s = Ok (off + word_of_nat (length src), t) \<and> file_ready k f i t \<and> file_step i s t \<and>
    (\<forall>p. unat off \<le> p \<longrightarrow> p < unat off + length src \<longrightarrow> slot (cview t) (addrs t i) (p div BSIZE) \<noteq> 0) \<and>
    byte_at (contents t i) =
      (\<lambda>p. if unat off \<le> p \<and> p < unat off + length src then src ! (p - unat off) else byte_at (contents s i) p)"
  using assms
proof (induction i off src s rule: writei_loop.induct)
  case (1 i off src s)
  show ?case
  proof (cases "src = []")
    case True
    with 1 show ?thesis by (subst writei_loop.simps) (auto simp: rounds_def fun_eq_iff)
  next
    case False
    define m where "m = chunk off (length src)"
    let ?q = "unat off mod BSIZE" and ?bn = "off div word_of_nat BSIZE"
    have q: "unat (off mod word_of_nat BSIZE) = ?q" "unat ?bn = unat off div BSIZE"
      by (simp_all add: unat_mod unat_div)
    note nq = q [unfolded of_nat_numeral]
    have m: "m = min (length src) (BSIZE - ?q)" by (simp only: m_def chunk_def q)
    then have m1: "0 < m" "m \<le> length src" "?q + m \<le> BSIZE" using False by simp_all
    note rs = rounds_step [of "length src" m "unat off", OF _ m]
    have len: "0 < length src" using False by simp
    let ?r = "rounds (unat off + m) (length src - m)"
    have f: "file_ready ((k + 6 * ?r) + 6) ((f + 2 * ?r) + 2) i s"
      using 1(2) rs len by (simp add: algebra_simps)
    have bn: "unat ?bn < 140" unfolding q by (rule less_mult_imp_div_less) (use 1(3) len in linarith)
    let ?c = "contents s i (unat off div BSIZE)"
    let ?d = "blit ?q (take m src) ?c"
    have lc: "length ?c = BSIZE" using contents_length [OF 1(2)] bn by (simp add: nq)
    then have "length ?d = BSIZE" using m1 by simp
    from write_round [OF f bn this] obtain a t bp s1 s2 u where
      w: "bmap i ?bn s = Ok (a, t)" "bread (i_dev (inodes t i)) a t = Ok (bp, s1)" "b_data (bufs s1 bp) = ?c"
        "log_write bp (set_data bp ?d s1) = Ok s2" "brelse bp s2 = Ok u"
        "file_ready (k + 6 * ?r) (f + 2 * ?r) i u" "file_step i s u" "slot (cview u) (addrs u i) (unat off div BSIZE) \<noteq> 0"
        "contents u i = (contents s i)(unat off div BSIZE := ?d)" unfolding q by blast
    have lt32: "unat off + m < 2 ^ 32" using 1(3) m1 by simp
    note off' = u32_add [OF lt32]
    have left: "length (drop m src) = length src - m" "unat off + m + (length src - m) = unat off + length src"
      using m1 by simp_all
    have "file_ready (k + 6 * rounds (unat (off + word_of_nat m)) (length (drop m src)))
        (f + 2 * rounds (unat (off + word_of_nat m)) (length (drop m src))) i u"
      using w(6) by (simp add: off')
    from 1(1) [OF False w(1) refl w(2) refl m_def w(4) [folded w(3), folded q(1)] w(5) this] 1(3)
    obtain z where z: "writei_loop i (off + word_of_nat m) (drop m src) u = Ok (off + word_of_nat m + word_of_nat (length (drop m src)), z)"
       "file_ready k f i z" "file_step i u z"
       "\<And>p. unat off + m \<le> p \<Longrightarrow> p < unat off + length src \<Longrightarrow> slot (cview z) (addrs z i) (p div BSIZE) \<noteq> 0"
       "byte_at (contents z i) = (\<lambda>p. if unat off + m \<le> p \<and> p < unat off + length src then drop m src ! (p - (unat off + m))
          else byte_at (contents u i) p)"
      unfolding off' left by auto
    have "off + word_of_nat m + word_of_nat (length (drop m src)) = off + word_of_nat (length src)"
      using m1 by (simp add: of_nat_diff)
    then have run: "writei_loop i off src s = Ok (off + word_of_nat (length src), z)"
      using False w(1-5) z(1) by (subst writei_loop.simps) (simp add: nq m_def [symmetric] Let_def)
    have "slot (cview z) (addrs z i) (p div BSIZE) \<noteq> 0" if "unat off \<le> p" "p < unat off + length src" for p
    proof (cases "p < unat off + m")
      case True
      have "unat off div BSIZE * BSIZE \<le> p" "p < unat off div BSIZE * BSIZE + BSIZE"
        using True that(1) m1(3) div_mult_mod_eq [of "unat off" BSIZE] by linarith+
      then have eq: "p div BSIZE = unat off div BSIZE" by (intro div_nat_eqI) (simp_all add: mult.commute)
      have "grows (sb u) (cview u) (addrs u i) (cview z) (addrs z i)" using z(3) by (simp add: file_step_def)
      from grows_keeps [OF this _ w(8)] w(8) bn show ?thesis by (simp add: eq nq)
    qed (use that z(4) in simp)
    moreover have "byte_at (contents z i) =
      (\<lambda>p. if unat off \<le> p \<and> p < unat off + length src then src ! (p - unat off) else byte_at (contents s i) p)"
    proof -
      have lm: "length (take m src) = m" using m1 by simp
      have b: "byte_at (contents u i) p = (if unat off \<le> p \<and> p < unat off + m then take m src ! (p - unat off)
          else byte_at (contents s i) p)" for p
        using byte_at_blit [of "contents s i" "unat off div BSIZE" ?q "take m src" "unat off" p, OF lc, unfolded lm] m1(3)
        by (simp add: w(9))
      show ?thesis
        using m1 by (auto simp: fun_eq_iff z(5) b add.commute)
    qed
    ultimately show ?thesis using run z(2) file_step_trans [OF w(7) z(3)] by blast
  qed
qed

lemma readi_loop_spec:
  fixes s :: "'a fs_state_scheme"
  assumes "file_ready k f i s" and "unat off + n \<le> 140 * BSIZE"
    and "\<And>p. unat off \<le> p \<Longrightarrow> p < unat off + n \<Longrightarrow> slot (cview s) (addrs s i) (p div BSIZE) \<noteq> 0"
  shows "\<exists>t. readi_loop i off n acc s = Ok (acc @ map (byte_at (contents s i)) [unat off..<unat off + n], t) \<and>
    same_file k i s t"
  using assms
proof (induction i off n acc s rule: readi_loop.induct)
  case (1 i off n acc s)
  show ?case
  proof (cases "n = 0")
    case True
    with 1 show ?thesis by (subst readi_loop.simps) (simp add: same_file_def file_ready_def)
  next
    case False
    define m where "m = chunk off n"
    let ?q = "unat off mod BSIZE" and ?bn = "off div word_of_nat BSIZE"
    have q: "unat (off mod word_of_nat BSIZE) = ?q" "unat ?bn = unat off div BSIZE"
      by (simp_all add: unat_mod unat_div)
    note nq = q [unfolded of_nat_numeral]
    have m: "m = min n (BSIZE - ?q)" by (simp only: m_def chunk_def q)
    then have m1: "0 < m" "m \<le> n" "?q + m \<le> BSIZE" using False by simp_all
    have bn: "unat ?bn < 140" unfolding q by (rule less_mult_imp_div_less) (use 1(3) False in linarith)
    have "slot (cview s) (addrs s i) (unat ?bn) \<noteq> 0" using 1(4) [of "unat off"] False by (simp add: nq)
    from read_round [OF 1(2) bn this] obtain a t bp s1 u where
      r: "bmap i ?bn s = Ok (a, t)" "bread (i_dev (inodes t i)) a t = Ok (bp, s1)"
        "b_data (bufs s1 bp) = contents s i (unat off div BSIZE)" "brelse bp s1 = Ok u" "same_file k i s u"
      unfolding q by blast
    have lt32: "unat off + m < 2 ^ 32" using 1(3) m1 by simp
    note off' = u32_add [OF lt32]
    have left: "unat off + m + (n - m) = unat off + n" using m1 by simp
    have u: "file_ready k f i u" "cview u = cview s" "inodes u = inodes s" "contents u = contents s"
      using same_file_ready [OF 1(2) r(5)] same_file_contents [OF r(5)] r(5) by (simp_all add: same_file_def)
    have "unat (off + word_of_nat m) + (n - m) \<le> 140 * BSIZE" using 1(3) by (simp only: off' left)
    moreover have "slot (cview u) (addrs u i) (p div BSIZE) \<noteq> 0"
      if "unat (off + word_of_nat m) \<le> p" "p < unat (off + word_of_nat m) + (n - m)" for p
      using that 1(4) [of p] unfolding off' left u by simp
    ultimately obtain z where z: "readi_loop i (off + word_of_nat m) (n - m)
        (acc @ slice (unat (off mod word_of_nat BSIZE)) m (b_data (bufs s1 bp))) u =
        Ok ((acc @ slice (unat (off mod word_of_nat BSIZE)) m (b_data (bufs s1 bp))) @
          map (byte_at (contents u i)) [unat (off + word_of_nat m)..<unat (off + word_of_nat m) + (n - m)], z)"
      "same_file k i u z"
      using 1(1) [OF False r(1) refl r(2) refl m_def refl r(4) u(1)] by blast
    have lc: "length (contents s i (unat off div BSIZE)) = BSIZE" using contents_length [OF 1(2)] bn by (simp add: nq)
    have "slice ?q m (contents s i (unat off div BSIZE)) = map (byte_at (contents s i)) [unat off..<unat off + m]"
      using lc m1(3) by (intro byte_at_slice) simp_all
    moreover have "[unat off..<unat off + n] = [unat off..<unat off + m] @ [unat off + m..<unat off + n]"
      using upt_add_eq_append [of "unat off" "unat off + m" "n - m"] by (simp add: left)
    ultimately have "readi_loop i off n acc s = Ok (acc @ map (byte_at (contents s i)) [unat off..<unat off + n], z)"
      using False r(1,2,4) z(1)
      by (subst readi_loop.simps) (simp add: Let_def nq r(3) u(4) off' left m_def [symmetric])
    then show ?thesis using same_file_trans [OF r(5) z(2)] by blast
  qed
qed

text \<open>The block of the on-disk inode lies apart from the blocks of the file, the free ones and the bitmap.\<close>

definition inode_apart :: "nat \<Rightarrow> 'a fs_state_scheme \<Rightarrow> bool" where
  "inode_apart i s \<longleftrightarrow> (let b = IBLOCK (i_inum (inodes s i)) (sb s) in
     okb s b \<and> b \<notin> map_blocks (sb s) \<union> free_blocks (sb s) (cview s) \<union> owns (cview s) (addrs s i))"

lemma inode_apart_step:
  assumes "inode_apart i s" and "file_step i s t"
  shows "inode_apart i t"
proof -
  have "owns (cview t) (addrs t i) \<union> free_blocks (sb s) (cview t) \<subseteq> owns (cview s) (addrs s i) \<union> free_blocks (sb s) (cview s)"
    "sb t = sb s" "okb t = okb s" "i_inum (inodes t i) = i_inum (inodes s i)"
    using assms(2) by (auto simp: file_step_def grows_def)
  with assms(1) show ?thesis by (auto simp: inode_apart_def Let_def)
qed

lemma slot_upd_block: "b = 0 \<or> as ! NDIRECT \<noteq> b \<Longrightarrow> slot (v(b := d)) as = slot v as"
  by (auto simp: slot_def fun_eq_iff)

lemma length_enc_dinode: "length (di_addrs d) = 13 \<Longrightarrow> length (enc_dinode d) = 64"
  by (simp add: enc_dinode_def length_concat comp_def sum_list_triv)

lemma iupdate_spec:
  fixes s :: "'a fs_state_scheme"
  assumes f: "file_ready (Suc k) f i s" and a: "inode_apart i s"
  shows "\<exists>t. iupdate i s = Ok t \<and> file_ready k f i t \<and> inodes t = inodes s \<and> contents t i = contents s i \<and>
    sb t = sb s \<and> okb t = okb s \<and> slot (cview t) (addrs t i) = slot (cview s) (addrs s i) \<and>
    cview t = (cview s)(IBLOCK (i_inum (inodes s i)) (sb s) := blit (di_off (i_inum (inodes s i)))
      (enc_dinode (dinode_of (inodes s i))) (cview s (IBLOCK (i_inum (inodes s i)) (sb s))))"
proof -
  let ?b = "IBLOCK (i_inum (inodes s i)) (sb s)"
  let ?d = "blit (di_off (i_inum (inodes s i))) (enc_dinode (dinode_of (inodes s i))) (cview s ?b)"
  have s: "ready (Suc k) s" "held s = Map.empty" "i_dev (inodes s i) = 1" "bitmap_ok s"
    "file_wf (okb s) (sb s) (cview s) (addrs s i)"
    using f by (simp_all add: file_ready_def)
  have b: "okb s ?b" "?b \<notin> map_blocks (sb s)" "?b \<notin> owns (cview s) (addrs s i)"
    using a by (simp_all add: inode_apart_def Let_def)
  have "length (enc_dinode (dinode_of (inodes s i))) = 64"
    using file_wfD(1) [OF s(5)] by (simp add: length_enc_dinode dinode_of_def)
  moreover have "di_off (i_inum (inodes s i)) + 64 \<le> BSIZE"
    using mod_less_divisor [of 8 "unat (i_inum (inodes s i))"] by (simp add: di_off_def unat_mod)
  ultimately have len: "length ?d = BSIZE" using view_len [OF s(1)] by simp
  from rewrite_block [OF s(1) b(1) _ len] s(2) obtain bp s1 s2 t where w: "bread 1 ?b s = Ok (bp, s1)"
    "b_data (bufs s1 bp) = cview s ?b" "jframe s s1" "log_write bp (set_data bp ?d s1) = Ok s2" "brelse bp s2 = Ok t"
    "ready k t" "jframe s t" "cabs t = (cabs s)\<lparr>a_view := (cview s)(?b := ?d), a_pins := insert ?b (pins s)\<rparr>"
    by auto
  have t: "held t = Map.empty" "cview t = (cview s)(?b := ?d)"
    using arg_cong [OF w(8), of a_held] arg_cong [OF w(8), of a_view] s(2) by simp_all
  note fs = jframe_fs [OF w(7)] okb_jframe [OF w(7)]
  have fr: "free_blocks (sb s) (cview t) = free_blocks (sb s) (cview s)"
    unfolding t by (rule free_blocks_data [OF b(2)])
  have "?b = 0 \<or> addrs s i ! NDIRECT \<noteq> ?b" using b(3) by (auto simp: owns_def slot_def)
  then have sl: "slot (cview t) (addrs s i) = slot (cview s) (addrs s i)" unfolding t by (rule slot_upd_block)
  have "file_ready k f i t"
    using f w(6) t(1) s(4,5) by (simp add: file_ready_def fs fr map_ok_def file_wf_def owns_def sl)
  moreover have "contents t i = contents s i"
  proof
    fix l
    have "slot (cview s) (addrs s i) l = 0 \<or> cview t (slot (cview s) (addrs s i) l) = cview s (slot (cview s) (addrs s i) l)"
      if "l < 140"
      using b(3) that by (auto simp: owns_def t)
    then show "contents t i l = contents s i l" by (auto simp: contents_def fblock_def fs sl)
  qed
  moreover have "iupdate i s = Ok t"
    using w(1,2,4,5) s(3) jframe_fs [OF w(3)] by (simp add: iupdate_def)
  ultimately show ?thesis using t(2) sl fs by simp
qed

section \<open>Writing and reading back\<close>

lemma readi_spec:
  fixes s :: "'a fs_state_scheme"
  assumes f: "file_ready k f i s" and t: "i_type (inodes s i) \<noteq> T_DEV"
    and n: "unat off + unat n \<le> unat (i_size (inodes s i))" "unat off + unat n \<le> 140 * BSIZE"
    and there: "\<And>p. unat off \<le> p \<Longrightarrow> p < unat off + unat n \<Longrightarrow> slot (cview s) (addrs s i) (p div BSIZE) \<noteq> 0"
  shows "\<exists>u. readi i off n s = Ok (uint n, map (byte_at (contents s i)) [unat off..<unat off + unat n], u) \<and>
    same_file k i s u"
proof -
  have lt: "unat off + unat n < 2 ^ 32" using n(2) by simp
  have sum: "unat (off + n) = unat off + unat n" using u32_add [of off "unat n"] lt by simp
  have "\<not> off > i_size (inodes s i)" "\<not> off + n < off" "\<not> off + n > i_size (inodes s i)"
    using n(1) by (simp_all add: word_less_nat_alt sum)
  moreover have "sint n = uint n"
    using n(2) by (intro sint_uint_small) simp
  ultimately show ?thesis
    using readi_loop_spec [OF f n(2) there, of "[]"] t by (auto simp: readi_def)
qed

lemma file_step_size: "file_step i s t \<Longrightarrow> i_size (inodes t j) = i_size (inodes s j)"
  "file_step i s t \<Longrightarrow> i_type (inodes t j) = i_type (inodes s j)"
  "file_step i s t \<Longrightarrow> i_inum (inodes t j) = i_inum (inodes s j)"
  by (auto simp: file_step_def)

text \<open>The end of \<open>writei\<close>: a file that has become longer gets its new size, and the inode is written.\<close>

lemma grow_inode:
  fixes s :: "'a fs_state_scheme"
  assumes f: "file_ready (Suc k) f i s" and a: "inode_apart i s"
  shows "\<exists>t. iupdate i (upd_inode i (\<lambda>ip. ip\<lparr>i_size := z\<rparr>) s) = Ok t \<and> file_ready k f i t \<and>
    inodes t = (inodes s)(i := (inodes s i)\<lparr>i_size := z\<rparr>) \<and> contents t i = contents s i \<and>
    slot (cview t) (addrs t i) = slot (cview s) (addrs s i) \<and>
    (\<forall>c. c \<noteq> IBLOCK (i_inum (inodes s i)) (sb s) \<longrightarrow> cview t c = cview s c)"
proof -
  let ?s = "upd_inode i (\<lambda>ip. ip\<lparr>i_size := z\<rparr>) s"
  have "file_ready (Suc k) f i ?s" "inode_apart i ?s"
    using f a by (simp_all add: file_ready_def inode_apart_def)
  from iupdate_spec [OF this] obtain t where "iupdate i ?s = Ok t" "file_ready k f i t" "inodes t = inodes ?s"
    "contents t i = contents ?s i" "slot (cview t) (addrs t i) = slot (cview ?s) (addrs ?s i)"
    "\<And>c. c \<noteq> IBLOCK (i_inum (inodes ?s i)) (sb ?s) \<Longrightarrow> cview t c = cview ?s c" by force
  moreover have "contents ?s i = contents s i" by (intro ext) (simp add: contents_def)
  ultimately show ?thesis by (intro exI [of _ t]) simp
qed

lemma writei_spec:
  fixes s :: "'a fs_state_scheme"
  assumes f: "file_ready (6 * rounds (unat off) (unat n) + 1) (2 * rounds (unat off) (unat n)) i s"
    and a: "inode_apart i s" and ty: "i_type (inodes s i) \<noteq> T_DEV" and len: "length src = unat n"
    and off: "off \<le> i_size (inodes s i)" and fits: "unat off + unat n \<le> 140 * BSIZE"
  shows "\<exists>t. writei i src off n s = Ok (uint n, t) \<and> file_ready 0 0 i t \<and>
    i_size (inodes t i) = max (i_size (inodes s i)) (off + n) \<and> i_type (inodes t i) = i_type (inodes s i) \<and>
    (\<forall>p. unat off \<le> p \<longrightarrow> p < unat off + unat n \<longrightarrow> slot (cview t) (addrs t i) (p div BSIZE) \<noteq> 0) \<and>
    byte_at (contents t i) =
      (\<lambda>p. if unat off \<le> p \<and> p < unat off + unat n then src ! (p - unat off) else byte_at (contents s i) p) \<and>
    (\<forall>c. c \<notin> owns (cview s) (addrs s i) \<union> free_blocks (sb s) (cview s) \<union> map_blocks (sb s) \<longrightarrow>
       c \<noteq> IBLOCK (i_inum (inodes s i)) (sb s) \<longrightarrow> cview t c = cview s c)"
proof -
  have sum: "unat (off + n) = unat off + unat n" using u32_add [of off "unat n"] fits by simp
  have sn: "sint n = uint n" using fits by (intro sint_uint_small) simp
  have "file_ready (1 + 6 * rounds (unat off) (length src)) (0 + 2 * rounds (unat off) (length src)) i s"
    using f len by simp
  from writei_loop_spec [OF this, unfolded len, OF fits] obtain t where
    l: "writei_loop i off src s = Ok (off + n, t)" and t: "file_ready (Suc 0) 0 i t" and st: "file_step i s t"
    and sl: "\<forall>p. unat off \<le> p \<longrightarrow> p < unat off + unat n \<longrightarrow> slot (cview t) (addrs t i) (p div BSIZE) \<noteq> 0"
    and bt: "byte_at (contents t i) =
      (\<lambda>p. if unat off \<le> p \<and> p < unat off + unat n then src ! (p - unat off) else byte_at (contents s i) p)"
    by auto
  have away: "\<forall>c. c \<notin> owns (cview s) (addrs s i) \<union> free_blocks (sb s) (cview s) \<union> map_blocks (sb s) \<longrightarrow> cview t c = cview s c"
    using st by (simp add: file_step_def grows_def)
  have ok: "\<not> off > i_size (inodes s i)" "\<not> off + n < off" "\<not> off + n > MAXFILE * word_of_nat BSIZE"
    using off fits by (simp_all add: word_less_nat_alt sum word_le_nat_alt)
  have run: "writei i src off n s = (if n > 0 \<and> off + n > i_size (inodes s i) then
      rbind (iupdate i (upd_inode i (\<lambda>ip. ip\<lparr>i_size := off + n\<rparr>) t)) (\<lambda>s. Ok (sint n, s)) else Ok (sint n, t))"
    using ty ok l len by (simp add: writei_def file_step_size [OF st] Let_def)
  show ?thesis
  proof (cases "n > 0 \<and> off + n > i_size (inodes s i)")
    case True
    from grow_inode [OF t inode_apart_step [OF a st], of "off + n"] obtain u where
      u: "iupdate i (upd_inode i (\<lambda>ip. ip\<lparr>i_size := off + n\<rparr>) t) = Ok u" "file_ready 0 0 i u"
        "inodes u = (inodes t)(i := (inodes t i)\<lparr>i_size := off + n\<rparr>)" "contents u i = contents t i"
        "slot (cview u) (addrs u i) = slot (cview t) (addrs t i)"
        "\<forall>c. c \<noteq> IBLOCK (i_inum (inodes t i)) (sb t) \<longrightarrow> cview u c = cview t c" by blast
    have "max (i_size (inodes s i)) (off + n) = off + n" using True by (intro max.absorb2 less_imp_le) simp
    moreover have "slot (cview u) (addrs t i) = slot (cview t) (addrs t i)" using u(5) by (simp add: u(3))
    moreover have "sb t = sb s" using st by (simp add: file_step_def)
    ultimately show ?thesis
      using run True sn u(1-3,6) sl bt away
      by (intro exI [of _ u]) (simp add: u(4) file_step_size [OF st])
  next
    case False
    have "max (i_size (inodes s i)) (off + n) = i_size (inodes s i)"
    proof (cases "n > 0")
      case True
      with False show ?thesis by (simp add: max_def)
    next
      case n0: False
      then have "n = 0" by (metis word_neq_0_conv)
      with off show ?thesis by (simp add: max_def)
    qed
    then show ?thesis
      using run False sn t sl bt away file_ready_mono [OF t, of 0 0]
      by (intro exI [of _ t]) (simp add: file_step_size [OF st])
  qed
qed

text \<open>C27. Writing at any offset up to the end of a file and reading the same range returns the bytes
  written, across block boundaries, direct and indirect blocks, and blocks that have to be allocated.  The
  size is the maximum of the old one and the end of the range, every other byte of the file is as before, and
  so is every block of the disk that is neither the file's, nor free, nor of the bitmap, nor the block of
  its inode.  Both calls return the full count, provided the log and the disk have room.\<close>

theorem write_then_read:
  fixes s :: "'a fs_state_scheme"
  assumes "file_ready (6 * rounds (unat off) (unat n) + 1) (2 * rounds (unat off) (unat n)) i s"
    and "inode_apart i s" and "i_type (inodes s i) \<noteq> T_DEV" and "length src = unat n"
    and "off \<le> i_size (inodes s i)" and "unat off + unat n \<le> 140 * BSIZE"
  shows "\<exists>t u. writei i src off n s = Ok (uint n, t) \<and> readi i off n t = Ok (uint n, src, u) \<and>
    i_size (inodes t i) = max (i_size (inodes s i)) (off + n) \<and>
    (\<forall>p. p < unat off \<or> unat off + unat n \<le> p \<longrightarrow> byte_at (contents t i) p = byte_at (contents s i) p) \<and>
    (\<forall>c. c \<notin> owns (cview s) (addrs s i) \<union> free_blocks (sb s) (cview s) \<union> map_blocks (sb s) \<longrightarrow>
       c \<noteq> IBLOCK (i_inum (inodes s i)) (sb s) \<longrightarrow> cview t c = cview s c)"
proof -
  from writei_spec [OF assms] obtain t where
    w: "writei i src off n s = Ok (uint n, t)" "file_ready 0 0 i t"
      "i_size (inodes t i) = max (i_size (inodes s i)) (off + n)" "i_type (inodes t i) = i_type (inodes s i)"
      "\<And>p. unat off \<le> p \<Longrightarrow> p < unat off + unat n \<Longrightarrow> slot (cview t) (addrs t i) (p div BSIZE) \<noteq> 0"
      "byte_at (contents t i) =
        (\<lambda>p. if unat off \<le> p \<and> p < unat off + unat n then src ! (p - unat off) else byte_at (contents s i) p)"
      "\<forall>c. c \<notin> owns (cview s) (addrs s i) \<union> free_blocks (sb s) (cview s) \<union> map_blocks (sb s) \<longrightarrow>
         c \<noteq> IBLOCK (i_inum (inodes s i)) (sb s) \<longrightarrow> cview t c = cview s c" by blast
  have "unat (off + n) = unat off + unat n" using u32_add [of off "unat n"] assms(6) by simp
  then have "unat off + unat n \<le> unat (i_size (inodes t i))" by (simp add: w(3) max_def word_le_nat_alt)
  from readi_spec [OF w(2) _ this assms(6) w(5)] assms(3) w(4) obtain u where
    "readi i off n t = Ok (uint n, map (byte_at (contents t i)) [unat off..<unat off + unat n], u)" by auto
  moreover have "map (byte_at (contents t i)) [unat off..<unat off + unat n] = src"
    by (rule nth_equalityI) (simp_all add: w(6) assms(4))
  ultimately show ?thesis using w(1,3,7) by (intro exI [of _ t] exI [of _ u]) (simp add: w(6))
qed

section \<open>A small file\<close>

text \<open>
  A disk of 1000 blocks whose bitmap, block 58, has blocks 0 to 895 in use, an open transaction and the
  cached inode 5 of an empty file.
\<close>

definition map_disk :: "u32 \<Rightarrow> bytes" where
  "map_disk b = (if b = 58 then replicate 112 255 @ replicate 400 0 else replicate BSIZE 0)"

definition small_super :: superblock where
  "small_super = \<lparr>sb_size = 1000, sb_nblocks = 941, sb_ninodes = 200, sb_nlog = 30, sb_logstart = 2,
     sb_inodestart = 32, sb_bmapstart = 58\<rparr>"

definition empty_file :: inode where
  "empty_file = \<lparr>i_dev = 1, i_inum = 5, i_ref = 1, i_lock = initsleeplock, i_valid = True, i_type = T_FILE,
     i_major = 0, i_minor = 0, i_nlink = 1, i_size = 0, i_addrs = replicate 13 0, i_perm = 7\<rparr>"

definition small_fs :: fs_state where
  "small_fs = binit
     \<lparr>procs = (\<lambda>_. unused_proc), cur = 0, memdisk = map_disk, disksize = 1000, disk_trace = [], bufs = (\<lambda>_. zero_buf),
      bnext = (\<lambda>_. 0), bprev = (\<lambda>_. 0), log_start = 2, log_size = 30, log_outstanding = 1,
      log_committing = False, log_dev = 1, lh_n = 0, lh_block = (\<lambda>_. 0),
      sb = small_super, inodes = (\<lambda>_. empty_file), cons = blank_console\<rparr>"

lemma small_fs_sel:
  "sb small_fs = small_super" "inodes small_fs = (\<lambda>_. empty_file)" "log_start small_fs = 2" "disksize small_fs = 1000"
  "log_size small_fs = 30" "log_dev small_fs = 1" "lh_n small_fs = 0" "log_outstanding small_fs = 1"
  by (simp_all add: small_fs_def binit_def split: prod.splits)

lemma small_fs_abs:
  "bio_inv small_fs" "cview small_fs = map_disk" "pins small_fs = {}" "held small_fs = Map.empty" "memdisk small_fs = map_disk"
proof -
  have "length (map_disk b) = BSIZE" for b by (simp add: map_disk_def)
  then have 1: "bio_inv small_fs" "cabs small_fs =
      \<lparr>a_disk = map_disk, a_view = map_disk, a_pins = {}, a_trace = [], a_held = Map.empty\<rparr>"
    unfolding small_fs_def by (subst binit_inv; simp)+
  show "bio_inv small_fs" by (rule 1(1))
  show "cview small_fs = map_disk" "pins small_fs = {}" "held small_fs = Map.empty" "memdisk small_fs = map_disk"
    using arg_cong [OF 1(2), of a_view] arg_cong [OF 1(2), of a_pins] arg_cong [OF 1(2), of a_held]
      arg_cong [OF 1(2), of a_disk] by simp_all
qed

lemma small_fs_ready: "ready 28 small_fs"
proof -
  have "get32 0 (map_disk 2) = 0" by (simp add: map_disk_def)
  then have "log_ok small_fs"
    by (simp add: log_ok_def small_fs_abs small_fs_sel log_geometry_def logged_def)
  then show ?thesis by (simp add: ready_def small_fs_abs small_fs_sel)
qed

lemma small_okb: "okb small_fs b \<longleftrightarrow> b \<noteq> 1 \<and> b < 1000 \<and> (unat b < 2 \<or> 32 \<le> unat b)"
proof -
  have "b \<in> log_area 2 \<longleftrightarrow> 2 \<le> unat b \<and> unat b < 32"
  proof
    assume "b \<in> log_area 2"
    then consider "b = 2" | i where "i < 29" "b = lblk 2 i" by (auto simp: log_area_def)
    then show "2 \<le> unat b \<and> unat b < 32"
      by cases (use unat_lblk [of 2 "1000 :: u32"] in auto)
  next
    assume a: "2 \<le> unat b \<and> unat b < 32"
    show "b \<in> log_area 2"
    proof (cases "unat b = 2")
      case True
      then have "b = 2" by (intro u32_eqI) simp
      then show ?thesis by (simp add: log_area_def)
    next
      case False
      then have "unat b - 3 < 29" using a False by linarith
      moreover from this have "unat (lblk 2 (unat b - 3)) = unat b"
        using unat_lblk [of 2 "1000 :: u32" "unat b - 3"] a False by simp linarith
      then have "lblk 2 (unat b - 3) = b" by (rule u32_eqI)
      ultimately show ?thesis unfolding log_area_def by (metis insertI2 image_eqI lessThan_iff)
    qed
  qed
  then show ?thesis by (auto simp: data_block_def small_fs_sel)
qed

lemma small_map: "map_blocks small_super = {58}"
proof -
  have "BBLOCK b small_super = 58" if "b < 1000" for b :: u32
    using that by (simp add: BBLOCK_nat small_super_def word_less_nat_alt)
  moreover have "{b :: u32. b < 1000} \<noteq> {}" by (auto intro!: exI [of _ 0] simp: word_less_nat_alt)
  ultimately have "(\<lambda>b. BBLOCK b small_super) ` {b. b < 1000} = {58}" by auto
  then show ?thesis by (simp add: map_blocks_def) (simp add: small_super_def)
qed

lemma small_free: "free_blocks small_super map_disk = {b. 896 \<le> b \<and> b < 1000}"
proof -
  have "marked small_super map_disk b \<longleftrightarrow> b < 896" if "b < 1000" for b :: u32
  proof -
    have b: "unat b < 1000" using that by (simp add: word_less_nat_alt)
    then have "BBLOCK b small_super = 58" by (simp add: BBLOCK_nat small_super_def)
    then have "marked small_super map_disk b \<longleftrightarrow> bit ((replicate 112 255 @ replicate 400 0) ! (unat b div 8) :: u8) (unat b mod 8)"
      using b by (simp add: marked_def in_use_bit map_disk_def)
    also have "\<dots> \<longleftrightarrow> unat b < 896"
    proof (cases "unat b < 896")
      case True
      then have "unat b div 8 < 112" by simp
      moreover have "bit (255 :: u8) (unat b mod 8)"
      proof -
        have "unat b mod 8 < 8" by simp
        moreover have "\<forall>n\<in>{..<8}. bit (255 :: u8) n" by (simp add: lessThan_Suc eval_nat_numeral bit_numeral_rec)
        ultimately show ?thesis by blast
      qed
      ultimately show ?thesis using True by (simp add: nth_append)
    next
      case False
      then have "\<not> unat b div 8 < 112" "unat b div 8 - 112 < 400" using b by simp_all
      with False show ?thesis by (simp add: nth_append)
    qed
    finally show ?thesis by (simp add: word_less_nat_alt)
  qed
  then show ?thesis by (auto simp: free_blocks_def small_super_def)
qed

lemma small_file_ready: "file_ready 7 2 0 small_fs"
proof -
  have sz: "slot map_disk (replicate 13 0) k = 0" if "k \<le> 140" for k by (simp add: slot_def)
  have "card {900, 901 :: u32} \<le> card (free_blocks small_super map_disk)"
    by (intro card_mono) (auto simp: small_free word_le_nat_alt word_less_nat_alt)
  moreover have "map_ok (okb small_fs) small_super map_disk"
    by (auto simp: map_ok_def small_map small_free small_okb word_le_nat_alt word_less_nat_alt simp del: small_fs_sel)
  moreover have "file_wf (okb small_fs) small_super map_disk (replicate 13 0)"
    using sz by (auto simp: file_wf_def owns_def)
  ultimately show ?thesis
    using ready_mono [OF small_fs_ready, of 7]
    by (simp add: file_ready_def small_fs_abs small_fs_sel(1,2)) (simp add: empty_file_def)
qed

lemma small_apart: "inode_apart 0 small_fs"
proof -
  have "IBLOCK 5 small_super = 32" by (simp add: IBLOCK_def small_super_def)
  moreover have "owns map_disk (replicate 13 0) = {}" by (auto simp: owns_def slot_def)
  ultimately show ?thesis
    by (simp add: inode_apart_def small_fs_abs small_fs_sel(1,2))
      (simp add: empty_file_def small_map small_free small_okb)
qed

theorem write_then_read_witness:
  "\<exists>t u. writei 0 [1, 2, 3] 0 3 small_fs = Ok (3, t) \<and> readi 0 0 3 t = Ok (3, [1, 2, 3], u) \<and> i_size (inodes t 0) = 3"
proof -
  have "rounds 0 3 = 1" by (simp add: rounds_def)
  with write_then_read [of 0 3 0 small_fs "[1, 2, 3]"] small_file_ready small_apart
  show ?thesis by (simp add: small_fs_sel(2)) (simp add: empty_file_def, blast)
qed

section \<open>Taking and giving back a block\<close>

text \<open>C28. \<open>balloc\<close> panics on a full disk; otherwise it returns a free block that is then zeroed and marked, and
  touches no other block outside the bitmap.  \<open>bfree\<close> restores the bitmap byte for byte, and freeing the
  block a second time panics.\<close>

theorem balloc_then_bfree:
  fixes s :: "'a fs_state_scheme"
  assumes "ready 4 s" and "bitmap_ok s" and "held s = Map.empty"
  shows "if free_blocks (sb s) (cview s) = {} then balloc 1 s = Panic ''balloc: out of blocks''
    else \<exists>b t u. balloc 1 s = Ok (b, t) \<and> b \<in> free_blocks (sb s) (cview s) \<and> cview t b = replicate BSIZE 0 \<and>
      free_blocks (sb t) (cview t) = free_blocks (sb s) (cview s) - {b} \<and>
      (\<forall>c. c \<notin> map_blocks (sb s) \<longrightarrow> c \<noteq> b \<longrightarrow> cview t c = cview s c) \<and>
      bfree 1 b t = Ok u \<and> cview u = (cview s)(b := replicate BSIZE 0) \<and>
      bfree 1 b u = Panic ''freeing free block''"
proof (cases "free_blocks (sb s) (cview s) = {}")
  case True
  then show ?thesis using balloc_full [OF assms True] by simp
next
  case False
  let ?su = "sb s" and ?v = "cview s"
  have r: "ready (Suc (Suc (Suc (Suc 0)))) s" using assms(1) by (simp add: eval_nat_numeral)
  from balloc_spec [OF r assms(2) _ False] assms(3) obtain b t where
    b: "balloc 1 s = Ok (b, t)" "b \<in> free_blocks ?su ?v" "ready (Suc (Suc 0)) t" "jframe s t"
      "cabs t = (cabs s)\<lparr>a_view := allocated ?su b ?v, a_pins := insert b (insert (BBLOCK b ?su) (pins s))\<rparr>"
    by auto
  have t: "held t = Map.empty" "cview t = allocated ?su b ?v" "sb t = ?su" "okb t = okb s"
    using arg_cong [OF b(5), of a_held] arg_cong [OF b(5), of a_view] assms(3) jframe_fs(1) [OF b(4)]
      okb_jframe [OF b(4)] by simp_all
  note len = view_len [OF assms(1)]
  note fr = allocated_free [OF assms(2) b(2) len]
  have lt: "b < sb_size ?su" and um: "\<not> marked ?su ?v b" using b(2) by (simp_all add: free_blocks_def)
  have nb: "BBLOCK b ?su \<noteq> b" using assms(2) b(2) lt by (auto simp: map_ok_def map_blocks_def)
  have "marked ?su (cview t) b" using fr(1) lt by (auto simp: free_blocks_def t)
  with bfree_spec(1) [OF b(3), of b] fr(2) t lt obtain u where
    u: "bfree 1 b t = Ok u" "jframe t u" "ready (Suc 0) u" "held u = Map.empty"
      "cview u = (cview t)(BBLOCK b ?su := mark_free (unat b mod BPB) (cview t (BBLOCK b ?su)))" by auto
  have undone: "mark_free (unat b mod BPB) (mark_used (unat b mod BPB) (?v (BBLOCK b ?su))) = ?v (BBLOCK b ?su)"
    using um len by (intro mark_free_used) (simp_all add: marked_def)
  have cu: "cview u = ?v(b := replicate BSIZE 0)"
    using nb by (simp add: u(5) t(2) allocated_def undone fun_upd_twist)
  have bm: "b \<notin> map_blocks ?su" using assms(2) b(2) by (auto simp: map_ok_def)
  have us: "sb u = ?su" "okb u = okb s" using jframe_fs(1) [OF u(2)] okb_jframe [OF u(2)] t by simp_all
  have "\<not> marked ?su (cview u) b" using um nb by (simp add: cu marked_def)
  moreover have "bitmap_ok u" using assms(2) by (simp add: map_ok_def us cu free_blocks_data [OF bm])
  ultimately have "bfree 1 b u = Panic ''freeing free block''"
    using bfree_spec(2) [OF u(3) _ u(4), of b] lt by (simp add: us)
  moreover have "\<forall>c. c \<notin> map_blocks ?su \<longrightarrow> c \<noteq> b \<longrightarrow> cview t c = ?v c"
    using allocated_other [OF lt] by (simp add: t)
  ultimately show ?thesis using False b(1,2) u(1) cu fr(1) by (simp add: t)
qed

theorem balloc_then_bfree_witness:
  "\<exists>b t u. balloc 1 small_fs = Ok (b, t) \<and> cview t b = replicate BSIZE 0 \<and>
     bfree 1 b t = Ok u \<and> bfree 1 b u = Panic ''freeing free block''"
proof -
  have "(900 :: u32) \<in> {b. 896 \<le> b \<and> b < 1000}" by (simp add: word_le_nat_alt word_less_nat_alt)
  then have "free_blocks (sb small_fs) (cview small_fs) \<noteq> {}" by (auto simp: small_fs_sel(1) small_fs_abs small_free)
  moreover have "bitmap_ok small_fs" using small_file_ready by (simp add: file_ready_def)
  ultimately show ?thesis
    using balloc_then_bfree [OF ready_mono [OF small_fs_ready]] small_fs_abs(4) by (simp add: small_fs_abs(2)) blast
qed

end
