(* ===== verification/Reload.thy ===== *)
theory Reload imports Contents begin

text \<open>
  The on-disk inode.  \<open>iupdate\<close> packs the link count into 13 bits and the permissions into three;
  whatever \<open>ilock\<close> loads later has lost the other bits.
\<close>

section \<open>Encoding and decoding\<close>

lemma slice_append_skip: "off = length xs + p \<Longrightarrow> slice off n (xs @ ys) = slice p n ys"
  by (simp add: slice_def)

lemma slice_append_here: "n = length xs \<Longrightarrow> slice 0 n (xs @ ys) = xs"
  by (simp add: slice_def)

lemma slice_encoded: "k < length as \<Longrightarrow> slice (4 * k) 4 (concat (map enc32 as)) = enc32 (as ! k)"
proof (induction as arbitrary: k)
  case (Cons a as)
  show ?case
  proof (cases k)
    case 0
    then show ?thesis by (simp add: slice_append_here)
  next
    case (Suc l)
    with Cons show ?thesis by (simp add: slice_append_skip [where p = "4 * l"])
  qed
qed simp

lemma unpack_links:
  "take_bit 13 (pack_links nlink perm) = take_bit 13 nlink"
  "ucast (drop_bit 13 (pack_links nlink perm)) = take_bit 3 perm"
  by (rule bit_word_eqI; auto simp: pack_links_def bit_simps)+

lemma dec_enc_dinode:
  assumes "length (di_addrs d) = 13"
  shows "dec_dinode (enc_dinode d) = d\<lparr>di_nlink := take_bit 13 (di_nlink d), di_perm := take_bit 3 (di_perm d)\<rparr>"
proof -
  have addrs: "map (\<lambda>k. get32 (12 + 4 * k) (enc_dinode d)) [0..<13] = di_addrs d"
  proof (rule nth_equalityI)
    fix k assume "k < length (map (\<lambda>k. get32 (12 + 4 * k) (enc_dinode d)) [0..<13])"
    then have k: "k < 13" by simp
    have "slice (12 + 4 * k) 4 (enc_dinode d) = slice (4 * k) 4 (concat (map enc32 (di_addrs d)))"
      unfolding enc_dinode_def append_assoc [symmetric] by (rule slice_append_skip) simp
    with k assms show "map (\<lambda>k. get32 (12 + 4 * k) (enc_dinode d)) [0..<13] ! k = di_addrs d ! k"
      by (simp add: get32_def slice_encoded)
  qed (simp add: assms)
  have "slice 0 2 (enc_dinode d) = enc16 (di_type d)" "slice 2 2 (enc_dinode d) = enc16 (di_major d)"
    "slice 4 2 (enc_dinode d) = enc16 (di_minor d)"
    "slice 6 2 (enc_dinode d) = enc16 (pack_links (di_nlink d) (di_perm d))"
    "slice 8 4 (enc_dinode d) = enc32 (di_size d)"
    by (simp_all add: enc_dinode_def slice_def)
  then show ?thesis
    unfolding dec_dinode_def addrs by (simp add: get16_def get32_def unpack_links)
qed

section \<open>An inode written and read again\<close>

lemma upd_inode_twice: "upd_inode j f (upd_inode j g s) = upd_inode j (\<lambda>ip. f (g ip)) s"
  by (simp add: upd_inode_def)

text \<open>The first \<open>ilock\<close> of a cache entry \<open>e\<close> loads the inode from the block that holds it.\<close>

lemma ilock_loads:
  fixes t :: "'a fs_state_scheme"
  defines "b \<equiv> \<lambda>e (t :: 'a fs_state_scheme). IBLOCK (i_inum e) (sb t)"
  assumes r: "ready k t" "held t = Map.empty" "okb t (b e t)"
    and e: "i_dev e = 1" "1 \<le> i_ref e" "\<not> sl_locked (i_lock e)" "\<not> i_valid e"
    and d: "dec_dinode (slice (di_off (i_inum e)) 64 (cview t (b e t))) = d" and ty: "di_type d \<noteq> 0"
  shows "\<exists>u l. ilock (Some j) (upd_inode j (\<lambda>_. e) t) = Ok u \<and>
    inodes u j = (load_dinode d e)\<lparr>i_lock := l, i_valid := True\<rparr>"
proof -
  let ?l = "i_lock e\<lparr>sl_locked := True, sl_pid := mypid t\<rparr>"
  let ?s = "upd_inode j (\<lambda>_. e\<lparr>i_lock := ?l\<rparr>) t"
  have pin: "b e t \<in> pins ?s \<or> cview ?s (b e t) = memdisk ?s (b e t)"
    using jrnl.clean [OF ready_log_ok [OF r(1)], of "b e t"] r(2) by auto
  from hold_block [of k ?s "b e t"] r obtain bp s1 where
    h: "bread 1 (b e t) ?s = Ok (bp, s1)" "b_data (bufs s1 bp) = cview t (b e t)" "ready k s1" "jframe ?s s1"
      "cabs s1 = (cabs ?s)\<lparr>a_held := [bp \<mapsto> b e t]\<rparr>" by auto
  have s1: "held s1 = [bp \<mapsto> b e t]" "cview s1 = cview ?s" "pins s1 = pins ?s" "memdisk s1 = memdisk ?s"
    using arg_cong [OF h(5), of a_held] arg_cong [OF h(5), of a_view] arg_cong [OF h(5), of a_pins]
      arg_cong [OF h(5), of a_disk] by simp_all
  let ?t = "upd_inode j (load_dinode d) s1"
  have "log_ok ?t" "a_held (cabs ?t) bp = Some (b e t)"
      "b e t \<in> a_pins (cabs ?t) \<or> a_view (cabs ?t) (b e t) = a_disk (cabs ?t) (b e t)"
    using ready_log_ok [OF h(3)] pin by (simp_all add: s1)
  from jrnl.rel [OF this] obtain u where u: "brelse bp ?t = Ok u" "jframe ?t u" by blast
  have iu: "inodes u j = load_dinode d (e\<lparr>i_lock := ?l\<rparr>)"
    using jframe_fs(2) [OF u(2)] jframe_fs(2) [OF h(4)] by simp
  let ?u = "upd_inode j (\<lambda>ip. ip\<lparr>i_valid := True\<rparr>) u"
  have eq: "upd_inode j (\<lambda>ip. ip\<lparr>i_lock := ?l\<rparr>) (upd_inode j (\<lambda>_. e) t) = ?s" by (simp add: upd_inode_twice)
  have "i_type (inodes u j) = di_type d" by (simp add: iu load_dinode_def)
  then have "ilock (Some j) (upd_inode j (\<lambda>_. e) t) = Ok ?u"
    using e h(1,2) u(1) ty d
    by (simp add: ilock_def acquiresleep_def Let_def eq jframe_fs(2) [OF h(4)] b_def)
  moreover have "inodes ?u j = (load_dinode d e)\<lparr>i_lock := ?l, i_valid := True\<rparr>"
    by (simp add: iu load_dinode_def)
  ultimately show ?thesis by blast
qed

text \<open>A file with 8192 links, and the cache entry that \<open>iget\<close> sets up for it after a restart.\<close>

definition linked_fs :: fs_state where
  "linked_fs = upd_inode 0 (\<lambda>ip. ip\<lparr>i_nlink := 8192\<rparr>) small_fs"

definition recycled :: inode where
  "recycled = empty_file\<lparr>i_valid := False, i_type := 0\<rparr>"

text \<open>C29. What \<open>iupdate\<close> writes, a later \<open>ilock\<close> of a recycled cache entry reads: type, device
  numbers, size and block addresses exactly, but only the low 13 bits of the link count and the low three
  bits of the permissions.  A file with 8192 links has none after it was read again.\<close>

theorem inode_survives_reload:
  fixes s :: "'a fs_state_scheme"
  assumes "file_ready (Suc k) 0 i s" and "inode_apart i s" and "i_type (inodes s i) \<noteq> 0"
    and "i_dev e = 1" and "i_inum e = i_inum (inodes s i)" and "1 \<le> i_ref e" and "\<not> sl_locked (i_lock e)" and "\<not> i_valid e"
  shows "\<exists>t u. iupdate i s = Ok t \<and> ilock (Some j) (upd_inode j (\<lambda>_. e) t) = Ok u \<and> i_valid (inodes u j) \<and>
    i_type (inodes u j) = i_type (inodes s i) \<and> i_major (inodes u j) = i_major (inodes s i) \<and>
    i_minor (inodes u j) = i_minor (inodes s i) \<and> i_size (inodes u j) = i_size (inodes s i) \<and>
    i_addrs (inodes u j) = i_addrs (inodes s i) \<and>
    i_nlink (inodes u j) = take_bit 13 (i_nlink (inodes s i)) \<and> i_perm (inodes u j) = take_bit 3 (i_perm (inodes s i))"
proof -
  let ?b = "IBLOCK (i_inum (inodes s i)) (sb s)" and ?off = "di_off (i_inum (inodes s i))"
  let ?e = "enc_dinode (dinode_of (inodes s i))"
  have f: "length (addrs s i) = 13" "ready (Suc k) s"
    using assms(1) file_wfD(1) by (auto simp: file_ready_def)
  from iupdate_spec [OF assms(1,2)] obtain t where t: "iupdate i s = Ok t" "file_ready k 0 i t" "sb t = sb s" "okb t = okb s"
    "cview t = (cview s)(?b := blit ?off ?e (cview s ?b))" by blast
  have le: "length ?e = 64" using f(1) by (simp add: length_enc_dinode dinode_of_def)
  have off: "?off + 64 \<le> BSIZE"
    using mod_less_divisor [of 8 "unat (i_inum (inodes s i))"] by (simp add: di_off_def unat_mod)
  have sl: "slice ?off 64 (cview t ?b) = ?e" using view_len [OF f(2)] le off by (simp add: t(5))
  define d where "d = (dinode_of (inodes s i))
      \<lparr>di_nlink := take_bit 13 (i_nlink (inodes s i)), di_perm := take_bit 3 (i_perm (inodes s i))\<rparr>"
  have d: "dec_dinode ?e = d"
    using dec_enc_dinode [of "dinode_of (inodes s i)"] f(1) by (simp add: dinode_of_def d_def)
  have r: "ready k t" "held t = Map.empty" "okb t (IBLOCK (i_inum e) (sb t))"
    using t(2,4) assms(2,5) by (simp_all add: file_ready_def inode_apart_def Let_def t(3))
  have dd: "dec_dinode (slice (di_off (i_inum e)) 64 (cview t (IBLOCK (i_inum e) (sb t)))) = d" "di_type d \<noteq> 0"
    using sl d assms(3) by (simp_all add: t(3) assms(5)) (simp add: d_def dinode_of_def)
  from ilock_loads [OF r assms(4,6-8) dd, of j] obtain u l where
    "ilock (Some j) (upd_inode j (\<lambda>_. e) t) = Ok u" "inodes u j = (load_dinode d e)\<lparr>i_lock := l, i_valid := True\<rparr>" by blast
  with t(1) show ?thesis by (intro exI [of _ t] exI [of _ u]) (simp add: load_dinode_def d_def dinode_of_def)
qed

theorem inode_survives_reload_witness:
  "\<exists>t u. iupdate 0 linked_fs = Ok t \<and> ilock (Some 1) (upd_inode 1 (\<lambda>_. recycled) t) = Ok u \<and>
     i_nlink (inodes linked_fs 0) = 8192 \<and> i_nlink (inodes u 1) = 0 \<and> i_type (inodes u 1) = T_FILE"
proof -
  have "file_ready (Suc 6) 0 0 linked_fs" "inode_apart 0 linked_fs"
    using small_file_ready small_apart
    by (simp_all add: linked_fs_def file_ready_def inode_apart_def)
  from inode_survives_reload [OF this, of recycled 1] show ?thesis
    by (simp add: linked_fs_def small_fs_sel(2)) (simp add: recycled_def empty_file_def initsleeplock_def, blast)
qed

end
