(* ===== verification/Txn.thy ===== *)
theory Txn imports Journal begin

text \<open>
  Transactions of concurrent system calls: what \<open>begin_op\<close> reserves, what \<open>log_write\<close> uses and what
  \<open>end_op\<close> leaves.  The interleaving of the calls is a step relation over the model's own
  operations; \<open>used\<close> records the number of blocks each open operation has logged.
\<close>

section \<open>Frames that hold of every run that returns\<close>

lemma bio_frame_write [simp]:
  "bio_frame s (s\<lparr>memdisk := D, disk_trace := T\<rparr>)"
  by (rule bio_frameI [where P = "procs s" and D = D and T = T and B = "bufs s" and N = "bnext s"
        and V = "bprev s"]) simp_all

lemma bio_frame_links [simp]: "bio_frame s (s\<lparr>bnext := N, bprev := V\<rparr>)"
  by (rule bio_frameI [where P = "procs s" and D = "memdisk s" and T = "disk_trace s" and B = "bufs s"
        and N = N and V = V]) simp_all

lemma bio_frame_post:
  "bio_frame s t \<Longrightarrow> bio_frame s (upd_buf i f t)" "bio_frame s t \<Longrightarrow> bio_frame s (wakeup ch t)"
  "bio_frame s t \<Longrightarrow> bio_frame s (t\<lparr>bnext := N, bprev := V\<rparr>)"
  "bio_frame s t \<Longrightarrow> bio_frame s (t\<lparr>memdisk := D, disk_trace := T\<rparr>)"
  by (erule bio_frame_trans; simp)+

lemma bio_frame_pre: "bio_frame (upd_buf i f s) s' \<Longrightarrow> bio_frame s s'"
  by (rule bio_frame_trans [OF bio_frame_upd_buf])

lemma iderw_frame: "iderw i s = Ok s' \<Longrightarrow> bio_frame s s'"
  by (auto simp: iderw_def Let_def split: if_splits intro!: bio_frame_post)

lemma lock_buf_frame: "lock_buf i s = Ok s' \<Longrightarrow> bio_frame s s'"
  by (auto simp: lock_buf_def)

lemma bget_frame: "bget dev b s = Ok (i, s') \<Longrightarrow> bio_frame s s'"
  by (auto simp: bget_def split: option.splits dest!: lock_buf_frame bio_frame_pre)

lemma bread_frame: "bread dev b s = Ok (i, s') \<Longrightarrow> bio_frame s s'"
  by (auto simp: bread_def split: if_splits dest!: bget_frame iderw_frame intro: bio_frame_trans)

lemma bwrite_frame: "bwrite i s = Ok s' \<Longrightarrow> bio_frame s s'"
  by (auto simp: bwrite_def split: if_splits dest!: iderw_frame bio_frame_pre)

lemma brelse_frame: "brelse i s = Ok s' \<Longrightarrow> bio_frame s s'"
  unfolding brelse_def Let_def
  by (simp split: if_splits prod.splits) (auto intro!: bio_frame_post)

lemma set_data_frame [simp]: "bio_frame s (set_data i d s)"
  by (simp add: set_data_def)

lemma set_data_pre: "bio_frame (set_data i d s) s' \<Longrightarrow> bio_frame s s'"
  by (rule bio_frame_trans [OF set_data_frame])

lemmas cache_frames = bread_frame bwrite_frame brelse_frame

text \<open>A loop of block copies keeps everything but the cache and the disk.\<close>

lemma rfold_frame:
  assumes "rfold f xs s = Ok s'" and "\<And>x s s'. f x s = Ok s' \<Longrightarrow> bio_frame s s'"
  shows "bio_frame s s'"
  using assms(1) by (induction xs arbitrary: s) (auto dest!: assms(2) intro: bio_frame_trans)

lemma write_log_frame: "write_log s = Ok s' \<Longrightarrow> bio_frame s s'"
  unfolding write_log_def
  by (erule rfold_frame) (auto dest!: cache_frames set_data_pre, blast intro: bio_frame_trans)

lemma install_frame: "install_trans s = Ok s' \<Longrightarrow> bio_frame s s'"
  unfolding install_trans_def
  by (erule rfold_frame) (auto dest!: cache_frames set_data_pre, blast intro: bio_frame_trans)

lemma write_head_frame: "write_head s = Ok s' \<Longrightarrow> bio_frame s s'"
  by (auto simp: write_head_def Let_def dest!: cache_frames set_data_pre,
      blast intro: bio_frame_trans)

section \<open>Interleaved transactions\<close>

text \<open>
  A system call that has called \<open>begin_op\<close> may log up to \<open>MAXOPBLOCKS\<close> blocks before its \<open>end_op\<close>.
\<close>

type_synonym 'a txns = "'a log_state_scheme \<times> (nat \<Rightarrow> nat option)"

inductive txn_step :: "'a txns \<Rightarrow> 'a txns \<Rightarrow> bool" where
  "begin_op s = Ok s' \<Longrightarrow> used p = None \<Longrightarrow> txn_step (s, used) (s', used(p \<mapsto> 0))"
| "used p = Some k \<Longrightarrow> k < 10 \<Longrightarrow> log_write i s = Ok s' \<Longrightarrow> txn_step (s, used) (s', used(p \<mapsto> k + 1))"
| "used p = Some k \<Longrightarrow> end_op s = Ok s' \<Longrightarrow> txn_step (s, used) (s', used(p := None))"

inductive_cases txn_stepE: "txn_step (s, used) (s', used')"

inductive txn_reach :: "'a txns \<Rightarrow> bool" where
  "lh_n s = 0 \<Longrightarrow> log_outstanding s = 0 \<Longrightarrow> \<not> log_committing s \<Longrightarrow> txn_reach (s, Map.empty)"
| "txn_reach t \<Longrightarrow> txn_step t t' \<Longrightarrow> txn_reach t'"

definition remaining :: "(nat \<Rightarrow> nat option) \<Rightarrow> nat" where
  "remaining used = (\<Sum>p\<in>dom used. 10 - the (used p))"

definition txn_inv :: "'a txns \<Rightarrow> bool" where
  "txn_inv t \<longleftrightarrow> (case t of (s, used) \<Rightarrow>
     finite (dom used) \<and> log_outstanding s = int (card (dom used)) \<and> \<not> log_committing s \<and>
     (\<forall>k\<in>ran used. k \<le> 10) \<and> 0 \<le> lh_n s \<and> lh_n s + int (remaining used) \<le> LOGSIZE)"

lemma remaining_upd:
  assumes "finite (dom used)"
  shows "remaining (used(p := None)) = (\<Sum>q\<in>dom used - {p}. 10 - the (used q))"
    and "remaining (used(p \<mapsto> k)) = (10 - k) + (\<Sum>q\<in>dom used - {p}. 10 - the (used q))"
    and "used p = Some j \<Longrightarrow> remaining used = (10 - j) + (\<Sum>q\<in>dom used - {p}. 10 - the (used q))"
proof -
  show "remaining (used(p := None)) = (\<Sum>q\<in>dom used - {p}. 10 - the (used q))"
    unfolding remaining_def by (rule sum.cong) auto
  have "(\<Sum>q\<in>dom used - {p}. 10 - the ((used(p \<mapsto> k)) q)) = (\<Sum>q\<in>dom used - {p}. 10 - the (used q))"
    by (rule sum.cong) auto
  with assms show "remaining (used(p \<mapsto> k)) = (10 - k) + (\<Sum>q\<in>dom used - {p}. 10 - the (used q))"
    by (simp add: remaining_def sum.insert_remove)
  show "remaining used = (10 - j) + (\<Sum>q\<in>dom used - {p}. 10 - the (used q))" if "used p = Some j"
    using sum.remove [OF assms, of p "\<lambda>q. 10 - the (used q)"] that by (auto simp: remaining_def)
qed

lemma remaining_le: "finite (dom used) \<Longrightarrow> remaining used \<le> 10 * card (dom used)"
  using sum_bounded_above [of "dom used" "\<lambda>p. 10 - the (used p)" 10] by (simp add: remaining_def)

lemma commit_clears:
  assumes "commit s = Ok s'" and "0 \<le> lh_n s"
  shows "lh_n s' = 0" "log_outstanding s' = log_outstanding s" "log_committing s' = log_committing s"
proof -
  have *: "lh_n s' = 0 \<and> log_outstanding s' = log_outstanding s \<and> log_committing s' = log_committing s"
  proof (cases "0 < lh_n s")
    case True
    with assms(1) obtain a b c where "write_log s = Ok a" "write_head a = Ok b" "install_trans b = Ok c"
      "write_head (c\<lparr>lh_n := 0\<rparr>) = Ok s'" by (auto simp: commit_def)
    then have "bio_frame s c" "bio_frame (c\<lparr>lh_n := 0\<rparr>) s'"
      by (blast intro: write_log_frame write_head_frame install_frame bio_frame_trans)+
    then show ?thesis by (simp add: log_frame)
  qed (use assms in \<open>simp add: commit_def\<close>)
  then show "lh_n s' = 0" "log_outstanding s' = log_outstanding s" "log_committing s' = log_committing s"
    by auto
qed

lemma log_sel_wakeup [simp]:
  "lh_n (wakeup ch s) = lh_n s" "log_outstanding (wakeup ch s) = log_outstanding s"
  "log_committing (wakeup ch s) = log_committing s" "log_size (wakeup ch s) = log_size s"
  "lh_block (wakeup ch s) = lh_block s" "log_start (wakeup ch s) = log_start s"
  "log_dev (wakeup ch s) = log_dev s"
  by (simp_all add: wakeup_def)

lemma log_sel_set_dirty [simp]:
  "lh_n (set_dirty i s) = lh_n s" "log_outstanding (set_dirty i s) = log_outstanding s"
  "log_committing (set_dirty i s) = log_committing s" "lh_block (set_dirty i s) = lh_block s"
  "log_size (set_dirty i s) = log_size s"
  by (simp_all add: set_dirty_def upd_buf_def)

lemma log_write_counts:
  assumes "log_write i s = Ok s'"
  shows "lh_n s' = lh_n s \<or> lh_n s' = lh_n s + 1" "log_outstanding s' = log_outstanding s"
    "log_committing s' = log_committing s"
  using assms by (auto simp: log_write_def Let_def split: if_splits)

lemma end_op_counts:
  assumes e: "end_op s = Ok s'" and n: "0 \<le> lh_n s" and c: "\<not> log_committing s"
  shows "log_outstanding s' = log_outstanding s - 1" "\<not> log_committing s'"
    "lh_n s' = (if log_outstanding s = 1 then 0 else lh_n s)"
proof -
  have *: "log_outstanding s' = log_outstanding s - 1 \<and> \<not> log_committing s' \<and>
    lh_n s' = (if log_outstanding s = 1 then 0 else lh_n s)"
  proof (cases "log_outstanding s = 1")
    case True
    with e c obtain t where t: "commit (s\<lparr>log_outstanding := log_outstanding s - 1, log_committing := True\<rparr>) = Ok t"
      "s' = wakeup ChLog (t\<lparr>log_committing := False\<rparr>)" by (auto simp: end_op_def Let_def)
    from commit_clears [OF t(1)] n True show ?thesis by (simp add: t(2))
  next
    case False
    with e c show ?thesis by (auto simp: end_op_def Let_def)
  qed
  then show "log_outstanding s' = log_outstanding s - 1" "\<not> log_committing s'"
    "lh_n s' = (if log_outstanding s = 1 then 0 else lh_n s)" by auto
qed

lemma txn_inv_step:
  assumes "txn_step t t'" and "txn_inv t"
  shows "txn_inv t'"
  using assms
proof (induction rule: txn_step.induct)
  case (1 s s' used p)
  then have inv: "finite (dom used)" "log_outstanding s = int (card (dom used))" "0 \<le> lh_n s"
    "\<forall>k\<in>ran used. k \<le> 10" and s': "s' = s\<lparr>log_outstanding := log_outstanding s + 1\<rparr>" "\<not> log_committing s"
    and b: "lh_n s + (log_outstanding s + 1) * 10 \<le> 30"
    by (auto simp: txn_inv_def begin_op_def split: if_splits)
  have p: "p \<notin> dom used" using 1 by auto
  then have "remaining (used(p \<mapsto> 0)) \<le> 10 * (card (dom used) + 1)"
    using remaining_le [of "used(p \<mapsto> 0)"] inv(1) by simp
  with b inv p show ?case by (auto simp: txn_inv_def s' ran_def)
next
  case (2 used p k i s s')
  then have inv: "finite (dom used)" "\<forall>k\<in>ran used. k \<le> 10" "0 \<le> lh_n s"
    "lh_n s + int (remaining used) \<le> 30" by (auto simp: txn_inv_def)
  from remaining_upd [OF inv(1)] 2(1,2) have "remaining used = Suc (remaining (used(p \<mapsto> k + 1)))" by simp
  moreover have "insert p (dom used) = dom used" using 2 by auto
  ultimately show ?case using 2 inv log_write_counts [OF 2(3)]
    by (auto simp: txn_inv_def ran_def)
next
  case (3 used p k s s')
  then have inv: "finite (dom used)" "\<forall>k\<in>ran used. k \<le> 10" "0 \<le> lh_n s" "\<not> log_committing s"
    "log_outstanding s = int (card (dom used))" "lh_n s + int (remaining used) \<le> 30"
    by (auto simp: txn_inv_def)
  note c = end_op_counts [OF 3(2) inv(3,4)]
  have p: "p \<in> dom used" using 3 by auto
  have card: "card (dom used) = Suc (card (dom used - {p}))" using card_Suc_Diff1 [OF inv(1) p] by simp
  have rem: "remaining (used(p := None)) \<le> remaining used" using remaining_upd [OF inv(1)] 3(1) by simp
  have "remaining (used(p := None)) = 0" if "log_outstanding s = 1"
  proof -
    have "card (dom (used(p := None))) = 0" using that card inv(5) by simp
    moreover have "finite (dom (used(p := None)))" using inv(1) by simp
    ultimately show ?thesis using remaining_le [of "used(p := None)"] by simp
  qed
  with rem c card inv show ?case by (auto simp: txn_inv_def ran_def)
qed

lemma txn_reach_inv: "txn_reach t \<Longrightarrow> txn_inv t"
  by (induction rule: txn_reach.induct) (simp add: txn_inv_def remaining_def, rule txn_inv_step)

text \<open>In a reachable state the header array is never overrun, and a call that has used fewer than its
  ten blocks can log one more, unless the log holds 29 blocks.\<close>

lemma reserved_slot:
  assumes "txn_reach (s, used)" and "used p = Some k" and "k < 10"
  shows "lh_n s \<le> 29" and "log_slot b s < 30" and "1 \<le> log_outstanding s"
proof -
  have inv: "finite (dom used)" "0 \<le> lh_n s" "lh_n s + int (remaining used) \<le> 30"
    "log_outstanding s = int (card (dom used))"
    using txn_reach_inv [OF assms(1)] by (auto simp: txn_inv_def)
  have "1 \<le> remaining used" using remaining_upd(3) [OF inv(1) assms(2)] assms(3) by simp
  then show n: "lh_n s \<le> 29" using inv(3) by linarith
  show "log_slot b s < 30" using inv(2) by (cases rule: log_slot_cases [of s b]) (use n in auto)
  have "dom used \<noteq> {}" using assms(2) by auto
  then have "card (dom used) \<noteq> 0" using inv(1) by simp
  then show "1 \<le> log_outstanding s" using inv(4) by linarith
qed

lemma log_write_enabled:
  assumes "txn_reach (s, used)" and "used p = Some k" and "k < 10" and "log_size s = 30"
  shows "(\<exists>s'. log_write i s = Ok s') \<longleftrightarrow> lh_n s < 29"
    and "lh_n s = 29 \<Longrightarrow> log_write i s = Panic ''too big a transaction''"
  using reserved_slot [OF assms(1-3)] assms(4) by (auto simp: log_write_def Let_def)

text \<open>
  The reservation counts on 30 blocks, the log holds 29: three calls that log ten distinct blocks
  each are all admitted, and the thirtieth block panics.
\<close>

lemma log_write_fresh:
  assumes "0 \<le> lh_n s" "lh_n s < 29" "log_size s = 30" "1 \<le> log_outstanding s"
    and "b_blockno (bufs s i) \<notin> set (logged s)"
  shows "\<exists>s'. log_write i s = Ok s' \<and> lh_n s' = lh_n s + 1 \<and> log_size s' = 30 \<and>
    log_outstanding s' = log_outstanding s \<and> (\<forall>j. b_blockno (bufs s' j) = b_blockno (bufs s j)) \<and>
    logged s' = logged s @ [b_blockno (bufs s i)]"
  using assms(1)
proof (cases rule: log_slot_cases [of s "b_blockno (bufs s i)"])
  case fresh
  moreover have "nat (lh_n s + 1) = Suc (nat (lh_n s))" using assms(1) by linarith
  ultimately show ?thesis using assms
    by (auto simp: log_write_def Let_def logged_def set_dirty_def upd_buf_def)
qed (use assms in simp)

lemma log_capacity_gap:
  assumes "lh_n s = 0" "log_outstanding s = 0" "\<not> log_committing s" "log_size s = 30"
    and inj: "inj_on (\<lambda>i. b_blockno (bufs s i)) {..<30}"
  shows "\<exists>s3 s'. rfold (\<lambda>_. begin_op) [0..<3] s = Ok s3 \<and> rfold log_write [0..<29] s3 = Ok s' \<and>
    log_write 29 s' = Panic ''too big a transaction''"
proof -
  define s3 where "s3 = s\<lparr>log_outstanding := 3\<rparr>"
  have upt: "[0..<3] = [0, 1, 2 :: nat]" by (simp add: upt_rec)
  have b: "rfold (\<lambda>_. begin_op) [0..<3] s = Ok s3"
    using assms unfolding upt by (simp add: begin_op_def s3_def)
  define P where "P k t \<longleftrightarrow> lh_n t = int k \<and> log_size t = 30 \<and> log_outstanding t = 3 \<and>
    (\<forall>j. b_blockno (bufs t j) = b_blockno (bufs s j)) \<and> set (logged t) = (\<lambda>i. b_blockno (bufs s i)) ` {..<k}"
    for k and t :: "'a log_state_scheme"
  have "\<exists>s'. rfold log_write [0..<29] s3 = Ok s' \<and> P 29 s'"
  proof (rule rfold_inv)
    show "P 0 s3" using assms by (simp add: P_def s3_def logged_def)
  next
    fix k t
    assume k: "k < 29" and t: "P k t"
    have "b_blockno (bufs s k) \<notin> (\<lambda>i. b_blockno (bufs s i)) ` {..<k}"
      using inj_onD [OF inj, of k] k by fastforce
    then have "b_blockno (bufs t k) \<notin> set (logged t)" using t by (simp add: P_def)
    from log_write_fresh [OF _ _ _ _ this] t k show "\<exists>t'. log_write k t = Ok t' \<and> P (Suc k) t'"
      by (auto simp: P_def lessThan_Suc)
  qed
  then obtain s' where "rfold log_write [0..<29] s3 = Ok s'" "P 29 s'" by blast
  moreover from this(2) have "log_write 29 s' = Panic ''too big a transaction''"
    by (simp add: P_def log_write_def)
  ultimately show ?thesis using b by blast
qed

end
