(* ===== verification/Crash.thy ===== *)
theory Crash imports Txn begin

text \<open>
  Crash safety of the log.  A crash may happen between any two block writes (a block write is
  atomic, as the driver of \<open>memide.c\<close> makes it); what survives is the disk.  The first lemmas are
  about disk images; the theorems at the end run \<open>commit\<close>, cut its writes at any point, boot with an
  empty cache and run \<open>initlog\<close>.
\<close>

section \<open>Recovery as a function on disk images\<close>

definition recovered :: "u32 \<Rightarrow> (u32 \<Rightarrow> bytes) \<Rightarrow> (u32 \<Rightarrow> bytes)" where
  "recovered st d = apply_writes (recover_writes st d) d"

definition same_data :: "u32 \<Rightarrow> (u32 \<Rightarrow> bytes) \<Rightarrow> (u32 \<Rightarrow> bytes) \<Rightarrow> bool" where
  "same_data st d d' \<longleftrightarrow> (\<forall>b. b \<notin> log_area st \<longrightarrow> d b = d' b)"

lemma same_data_trans: "same_data st a b \<Longrightarrow> same_data st b c \<Longrightarrow> same_data st a c"
  by (simp add: same_data_def)

lemma recovered_empty:
  assumes "head_count st d \<le> 0"
  shows "same_data st (recovered st d) d"
  using assms by (auto simp: same_data_def recovered_def recover_writes_def log_area_def)

lemma recovered_log:
  assumes "head_ok st nb d" and "b \<notin> log_area st"
  shows "recovered st d b =
    (case map_of (rev (map (\<lambda>i. (head_home st d i, d (lblk st i))) [0..<nat (head_count st d)])) b of
       Some x \<Rightarrow> x | None \<Rightarrow> d b)"
proof -
  have "b \<noteq> st" using assms(2) by auto
  then show ?thesis
    by (simp add: recovered_def recover_writes_def apply_writes_map_of split: option.splits)
qed

text \<open>Recovery can itself be cut short and started again.\<close>

lemma recovered_again:
  assumes ok: "head_ok st nb d" and len: "length (d st) = BSIZE"
  shows "head_ok st nb (apply_writes (take j (recover_writes st d)) d)"
    and "same_data st (recovered st (apply_writes (take j (recover_writes st d)) d)) (recovered st d)"
proof -
  let ?n = "nat (head_count st d)"
  let ?hs = "map (\<lambda>i. (head_home st d i, d (lblk st i))) [0..<?n]"
  let ?e = "apply_writes (take j (recover_writes st d)) d"
  have n: "?n \<le> 29" and dat: "\<And>i. i < ?n \<Longrightarrow> data_block st nb (head_home st d i)"
    using ok by (auto simp: head_ok_def)
  have "head_ok st nb ?e \<and> same_data st (recovered st ?e) (recovered st d)"
  proof (cases "j \<le> ?n")
    case True
    then have tk: "take j (recover_writes st d) = take j ?hs" by (simp add: recover_writes_def)
    have sub: "fst ` set (take j ?hs) \<subseteq> head_home st d ` {..<?n}"
      using set_take_subset [of j ?hs] by auto
    have keep: "?e b = d b" if "b \<in> log_area st" for b
      unfolding tk by (rule apply_writes_other) (use sub that dat in \<open>auto simp: data_block_def\<close>)
    then have st: "?e st = d st" by simp
    have cnt: "head_count st ?e = head_count st d" and home: "head_home st ?e = head_home st d"
      using st by (simp_all add: head_count_def head_home_def fun_eq_iff)
    have ok': "head_ok st nb ?e" using ok by (simp add: head_ok_def cnt home)
    have "?e (lblk st i) = d (lblk st i)" if "i < ?n" for i
      using that n by (intro keep) (auto simp: log_area_def)
    then have hs: "map (\<lambda>i. (head_home st ?e i, ?e (lblk st i))) [0..<nat (head_count st ?e)] = ?hs"
      by (simp add: cnt home)
    have "recovered st ?e b = recovered st d b" if b: "b \<notin> log_area st" for b
    proof (cases "map_of (rev ?hs) b")
      case None
      then have "b \<notin> fst ` set ?hs" by (simp add: map_of_eq_None_iff)
      then have "b \<notin> fst ` set (take j ?hs)" using set_take_subset [of j ?hs] by blast
      then have "?e b = d b" unfolding tk by (rule apply_writes_other)
      with None show ?thesis unfolding recovered_log [OF ok' b] recovered_log [OF ok b] hs by simp
    next
      case (Some x)
      then show ?thesis unfolding recovered_log [OF ok' b] recovered_log [OF ok b] hs by simp
    qed
    with ok' show ?thesis by (simp add: same_data_def)
  next
    case False
    then have tk: "take j (recover_writes st d) = recover_writes st d" by (simp add: recover_writes_def)
    have "?e st = put32 0 0 (d st)" unfolding tk by (simp add: recover_writes_def)
    then have c: "head_count st ?e = 0" using len by (simp add: head_count_def)
    then have "same_data st (recovered st ?e) ?e" by (intro recovered_empty) simp
    moreover have "?e = recovered st d" by (simp add: tk recovered_def)
    ultimately show ?thesis using c by (simp add: head_ok_def)
  qed
  then show "head_ok st nb ?e" and "same_data st (recovered st ?e) (recovered st d)" by auto
qed

section \<open>A commit cut short\<close>

definition crash_disk :: "nat \<Rightarrow> 'a log_state_scheme \<Rightarrow> (u32 \<Rightarrow> bytes)" where
  "crash_disk k s = apply_writes (take k (commit_writes s)) (memdisk s)"

lemma crash_before:
  assumes ok: "log_ok s" and k: "k \<le> nat (lh_n s)"
  shows "head_count (log_start s) (crash_disk k s) = 0"
    and "same_data (log_start s) (crash_disk k s) (memdisk s)"
proof -
  note D = log_okD [OF ok]
  have len: "length (log_copies s) = nat (lh_n s)" by (simp add: log_copies_def)
  then have tk: "take k (commit_writes s) = take k (log_copies s)"
    using k by (simp add: commit_writes_def Let_def)
  have "fst ` set (take k (log_copies s)) \<subseteq> log_area (log_start s) - {log_start s}"
    using log_copies_area [OF D(9,4)] set_take_subset [of k "log_copies s"] by blast
  then have "log_start s \<notin> fst ` set (take k (log_copies s))"
    and "b \<notin> log_area (log_start s) \<Longrightarrow> b \<notin> fst ` set (take k (log_copies s))" for b by blast+
  then show "head_count (log_start s) (crash_disk k s) = 0"
    and "same_data (log_start s) (crash_disk k s) (memdisk s)"
    using D(8) by (simp_all add: crash_disk_def tk apply_writes_other same_data_def head_count_def)
qed

lemma crash_after:
  assumes ok: "log_ok s" and h: "held s = Map.empty" and n: "0 < lh_n s" and k: "nat (lh_n s) < k"
  shows "head_ok (log_start s) (disksize s) (crash_disk k s)"
    and "same_data (log_start s) (recovered (log_start s) (crash_disk k s)) (cview s)"
proof -
  let ?st = "log_start s" and ?n = "nat (lh_n s)" and ?h = "head_bytes (lh_n s) (lh_block s) (cview s (log_start s))"
  let ?hs = "map (\<lambda>b. (b, cview s b)) (logged s)"
  let ?d = "crash_disk k s"
  note D = log_okD [OF ok]
  have len: "length (log_copies s) = ?n" "length ?hs = ?n" by (simp_all add: log_copies_def logged_def)
  define m where "m = k - Suc ?n"
  have tk: "take k (commit_writes s) = log_copies s @ (?st, ?h) # take m (?hs @ [(?st, put32 0 0 ?h)])"
    using k by (simp add: commit_writes_def Let_def m_def len take_Cons' del: take_append)
      (simp add: len take_Cons')
  have clean: "memdisk s b = cview s b" if "b \<notin> set (logged s)" for b
    using unheld_clean [OF D(1), of b] that D(7) h by simp
  have lenh: "length (cview s ?st) = BSIZE" using cache.view_length [OF D(1)] by simp
  note hb = head_bytes [OF lenh D(4)]
  have area: "fst ` set (log_copies s) \<subseteq> log_area ?st - {?st}" by (rule log_copies_area [OF D(9,4)])
  have lg: "b \<notin> log_area ?st" if "b \<in> set (logged s)" for b using D(6) that by (auto simp: data_block_def)
  show "head_ok ?st (disksize s) ?d" and "same_data ?st (recovered ?st ?d) (cview s)"
  proof (atomize (full), cases "m \<le> ?n")
    case True
    let ?ws = "log_copies s @ (?st, ?h) # take m ?hs"
    have d: "?d = apply_writes ?ws (memdisk s)" using True len by (simp add: crash_disk_def tk)
    have tm: "fst ` set (take m ?hs) \<subseteq> set (logged s)"
      using set_take_subset [of m ?hs] by (auto simp: image_comp comp_def)
    have "?st \<notin> set (logged s)" using lg [of ?st] by auto
    with tm have "?st \<notin> fst ` set (take m ?hs)" by blast
    then have st: "?d ?st = ?h" by (simp add: d apply_writes_other)
    have cnt: "head_count ?st ?d = lh_n s" using D(3,4) by (simp add: head_count_def st hb sint_small)
    have home: "head_home ?st ?d i = lh_block s i" if "i < ?n" for i
      using that by (simp add: head_home_def st hb(3))
    have val: "?d (lblk ?st i) = cview s (lh_block s i)" if "i < ?n" for i
    proof -
      have a: "lblk ?st i \<in> log_area ?st" "lblk ?st i \<noteq> ?st" using that D(4) lblk_neq(1,4) [OF D(9)] by auto
      then have "lblk ?st i \<notin> set (logged s)" using lg [of "lblk ?st i"] by blast
      with tm have "lblk ?st i \<notin> fst ` set (take m ?hs)" by blast
      then show ?thesis using a that log_copies_at [OF D(9,4)] by (simp add: d apply_writes_other)
    qed
    have ok': "head_ok ?st (disksize s) ?d"
      using D(4,6) logged_nth [of _ s] by (auto simp: head_ok_def cnt home)
    have hs: "map (\<lambda>i. (head_home ?st ?d i, ?d (lblk ?st i))) [0..<nat (head_count ?st ?d)] = ?hs"
      by (simp add: cnt home val logged_def)
    have "recovered ?st ?d b = cview s b" if b: "b \<notin> log_area ?st" for b
    proof (cases "map_of (rev ?hs) b")
      case None
      then have nb: "b \<notin> set (logged s)" by (simp add: map_of_eq_None_iff image_comp comp_def)
      have "b \<notin> fst ` set ?ws" using nb tm b area by auto
      then have "?d b = memdisk s b" unfolding d by (rule apply_writes_other)
      with None nb show ?thesis unfolding recovered_log [OF ok' b] hs by (simp add: clean)
    next
      case (Some x)
      then have "(b, x) \<in> set ?hs" by (auto dest: map_of_SomeD)
      then have "x = cview s b" by auto
      with Some show ?thesis unfolding recovered_log [OF ok' b] hs by simp
    qed
    with ok' show "head_ok ?st (disksize s) ?d \<and> same_data ?st (recovered ?st ?d) (cview s)"
      by (simp add: same_data_def)
  next
    case False
    let ?ws = "log_copies s @ (?st, ?h) # ?hs"
    have d: "?d = (apply_writes ?ws (memdisk s))(?st := put32 0 0 ?h)"
      using False len by (simp add: crash_disk_def tk)
    have c: "head_count ?st ?d = 0" using hb(1) by (simp add: d head_count_def)
    have "?d b = cview s b" if b: "b \<notin> log_area ?st" for b
    proof (cases "b \<in> set (logged s)")
      case True
      have "apply_writes ?hs x b = cview s b" for x
        by (rule apply_writes_in) (use True D(5) in \<open>auto simp: comp_def\<close>)
      with b show ?thesis by (auto simp: d)
    next
      case False
      then have "b \<notin> fst ` set ?ws" using b area by auto
      then have "apply_writes ?ws (memdisk s) b = memdisk s b" by (rule apply_writes_other)
      with False b show ?thesis by (auto simp: d clean)
    qed
    then have "same_data ?st ?d (cview s)" by (simp add: same_data_def)
    then have "same_data ?st (recovered ?st ?d) (cview s)"
      using recovered_empty [of ?st ?d] c by (auto intro: same_data_trans)
    with c show "head_ok ?st (disksize s) ?d \<and> same_data ?st (recovered ?st ?d) (cview s)"
      by (simp add: head_ok_def)
  qed
qed

section \<open>Booting\<close>

text \<open>
  The superblock of a disk whose log area starts at \<open>st\<close>; \<open>booted d n r\<close>: the kernel before \<open>binit\<close>,
  all its static data zero, with the disk \<open>d\<close> of \<open>n\<close> blocks.
\<close>

definition super_ok :: "u32 \<Rightarrow> (u32 \<Rightarrow> bytes) \<Rightarrow> bool" where
  "super_ok st d \<longleftrightarrow> sb_logstart (dec_super (d 1)) = st \<and> sint (sb_nlog (dec_super (d 1))) = 30"

definition booted :: "(u32 \<Rightarrow> bytes) \<Rightarrow> u32 \<Rightarrow> 'a log_state_scheme \<Rightarrow> bool" where
  "booted d n r \<longleftrightarrow> bufs r = (\<lambda>_. zero_buf) \<and> memdisk r = d \<and> disksize r = n"

lemma readsb_spec:
  assumes inv: "bio_inv s" and h: "held s = Map.empty" and p: "pins s = {}" and "1 < disksize s"
  shows "\<exists>s'. readsb 1 s = Ok (dec_super (memdisk s 1), s') \<and> bio_inv s' \<and> bio_frame s s' \<and> cabs s' = cabs s"
proof -
  from cache.read_only [OF inv assms(4)] h p obtain i s1 s2 where 1: "bread 1 1 s = Ok (i, s1)"
    "b_data (bufs s1 i) = cview s 1" "brelse i s1 = Ok s2" "bio_inv s2" "bio_frame s s2" "cabs s2 = cabs s"
    by auto
  moreover have "cview s 1 = memdisk s 1" using unheld_clean [OF inv] h p by simp
  ultimately show ?thesis by (simp add: readsb_def Let_def)
qed

lemma initlog_spec:
  assumes r: "booted d n r" and len: "\<And>b. length (d b) = BSIZE" and sup: "super_ok st d"
    and st: "1 < st" "unat st + 30 \<le> unat n" and ok: "head_ok st n d"
  shows "\<exists>s'. initlog 1 (binit r) = Ok s' \<and> log_ok s' \<and> lh_n s' = 0 \<and> log_start s' = st \<and>
    disksize s' = n \<and> memdisk s' = recovered st d \<and> disk_trace s' = disk_trace r @ recover_writes st d"
proof -
  have r': "bufs r = (\<lambda>_. zero_buf)" "memdisk r = d" "disksize r = n" using r by (auto simp: booted_def)
  note b = binit_inv [OF r'(1)]
  have inv: "bio_inv (binit r)" and c: "cabs (binit r) =
    \<lparr>a_disk = d, a_view = d, a_pins = {}, a_trace = disk_trace r, a_held = Map.empty\<rparr>"
    using b len by (simp_all add: r')
  have v: "held (binit r) = Map.empty" "pins (binit r) = {}" "memdisk (binit r) = d" "disksize (binit r) = n"
    using arg_cong [OF c, of a_held] arg_cong [OF c, of a_pins] arg_cong [OF c, of a_disk]
    by (simp_all add: binit_def r' split: prod.splits)
  have n1: "1 < n" using st by (simp add: word_less_nat_alt)
  from readsb_spec [OF inv v(1,2)] n1 obtain s1 where 1: "readsb 1 (binit r) = Ok (dec_super (d 1), s1)"
    "bio_inv s1" "bio_frame (binit r) s1" "cabs s1 = cabs (binit r)" by (auto simp: v)
  define t where "t = s1\<lparr>log_start := st, log_size := 30, log_dev := 1\<rparr>"
  have run: "initlog 1 (binit r) = recover_from_log t"
    using sup by (simp add: initlog_def 1(1) super_ok_def t_def)
  have ct: "cabs t = cabs (binit r)" "bio_inv t" using 1(2,4) by (simp_all add: t_def)
  have vt: "held t = Map.empty" "pins t = {}" "memdisk t = d" "disk_trace t = disk_trace r"
    using arg_cong [OF ct(1), of a_held] arg_cong [OF ct(1), of a_pins] arg_cong [OF ct(1), of a_disk]
      arg_cong [OF ct(1), of a_trace] by (simp_all add: c del: cabs_sel) (simp_all add: v)
  have dt: "disksize t = n" "log_start t = st"
    using bio_frame_disksize [OF 1(3)] by (simp_all add: t_def v)
  have "log_geometry t" using st by (simp add: log_geometry_def dt) (simp add: t_def)
  from recover_spec [OF ct(2) vt(1) this vt(2)] ok obtain s' where 2: "recover_from_log t = Ok s'" "log_ok s'"
    "lh_n s' = 0" "log_start s' = st" "disksize s' = n" "cabs s' = abs_writes (recover_writes st d) (cabs t)"
    by (auto simp: vt dt)
  have "memdisk s' = recovered st d" "disk_trace s' = disk_trace r @ recover_writes st d"
    using arg_cong [OF 2(6), of a_disk] arg_cong [OF 2(6), of a_trace] by (simp_all add: vt recovered_def)
  with 2 run show ?thesis by simp
qed

section \<open>Atomicity\<close>

lemma commit_writes_length:
  "log_ok s \<Longrightarrow> \<forall>(b, x) \<in> set (commit_writes s). length x = BSIZE"
proof -
  assume ok: "log_ok s"
  note D = log_okD [OF ok]
  have v: "length (cview s b) = BSIZE" for b using cache.view_length [OF D(1)] by simp
  show ?thesis
    using head_bytes(1) [OF v D(4)] v
    by (auto simp: commit_writes_def Let_def log_copies_def)
qed

lemma apply_writes_length:
  assumes "\<And>b. length (d b) = n" and "\<forall>(b, x) \<in> set ws. length x = n"
  shows "length (apply_writes ws d b) = n"
  using assms by (induction ws arbitrary: d) auto

lemma crash_disk_length:
  assumes ok: "log_ok s"
  shows "length (crash_disk k s b) = BSIZE"
  unfolding crash_disk_def
proof (rule apply_writes_length)
  show "length (memdisk s b) = BSIZE" for b using log_okD(1) [OF ok] by (simp add: bio_inv_def)
  show "\<forall>(b, x) \<in> set (take k (commit_writes s)). length x = BSIZE"
    using commit_writes_length [OF ok] set_take_subset [of k "commit_writes s"] by blast
qed

lemma crash_disk_super:
  assumes ok: "log_ok s"
  shows "crash_disk k s 1 = memdisk s 1"
  unfolding crash_disk_def
proof (rule apply_writes_other)
  note D = log_okD [OF ok]
  have one: "1 < log_start s" using D(2) by (simp add: log_geometry_def)
  have "1 \<notin> log_area (log_start s)"
  proof
    assume "1 \<in> log_area (log_start s)"
    with one obtain i where i: "i < 29" "lblk (log_start s) i = 1" by (auto simp: log_area_def)
    with unat_lblk [OF D(9) i(1)] one show False by (simp add: word_less_nat_alt)
  qed
  moreover have "1 \<notin> set (logged s)" using D(6) by (auto simp: data_block_def)
  ultimately have "1 \<notin> fst ` set (commit_writes s)"
    using log_copies_area [OF D(9,4)] by (auto simp: commit_writes_def Let_def)
  then show "1 \<notin> fst ` set (take k (commit_writes s))"
    using set_take_subset [of k "commit_writes s"] by blast
qed

text \<open>Booting after a crash during a commit.\<close>

lemma boot_after_crash:
  assumes ok: "log_ok s" and h: "held s = Map.empty" and n: "0 < lh_n s"
    and sup: "super_ok (log_start s) (memdisk s)" and r: "booted (crash_disk k s) (disksize s) r"
  shows "\<exists>r'. initlog 1 (binit r) = Ok r' \<and> log_ok r' \<and> lh_n r' = 0 \<and>
    same_data (log_start s) (memdisk r') (if k \<le> nat (lh_n s) then memdisk s else cview s)"
proof -
  note D = log_okD [OF ok]
  let ?st = "log_start s"
  have one: "1 < ?st" using D(2) by (simp add: log_geometry_def)
  have sup': "super_ok ?st (crash_disk k s)" using sup by (simp add: super_ok_def crash_disk_super [OF ok])
  have head: "head_ok ?st (disksize s) (crash_disk k s) \<and>
    same_data ?st (recovered ?st (crash_disk k s)) (if k \<le> nat (lh_n s) then memdisk s else cview s)"
  proof (cases "k \<le> nat (lh_n s)")
    case True
    note b = crash_before [OF ok True]
    have "same_data ?st (recovered ?st (crash_disk k s)) (crash_disk k s)"
      using b(1) by (simp add: recovered_empty)
    from same_data_trans [OF this b(2)] b(1) True show ?thesis by (simp add: head_ok_def)
  qed (use crash_after [OF ok h n] in simp)
  from initlog_spec [OF r crash_disk_length [OF ok] sup' one D(9)] head show ?thesis by auto
qed

lemma commit_run:
  assumes ok: "log_ok s" and h: "held s = Map.empty"
  shows "\<exists>s'. commit s = Ok s' \<and> log_ok s' \<and> lh_n s' = 0 \<and> jframe s s' \<and> held s' = Map.empty \<and>
    memdisk s' = cview s' \<and> same_data (log_start s) (cview s') (cview s) \<and>
    (0 < lh_n s \<longrightarrow> disk_trace s' = disk_trace s @ commit_writes s)"
proof (cases "0 < lh_n s")
  case False
  note D = log_okD [OF ok]
  have n: "lh_n s = 0" using False D(3) by simp
  then have "pins s = {}" using D(7) by (simp add: logged_def)
  then have "memdisk s = cview s" using unheld_clean [OF D(1)] h by (simp add: fun_eq_iff)
  with n ok h show ?thesis by (simp add: commit_def same_data_def)
next
  case True
  note D = log_okD [OF ok]
  let ?st = "log_start s"
  from commit_spec [OF ok h True] obtain s' where 1: "commit s = Ok s'" "bio_inv s'"
    "bio_frame (s\<lparr>lh_n := 0\<rparr>) s'" "cabs s' = abs_writes (commit_writes s) (cabs s)" by blast
  note fr = log_frame [OF 1(3)] bio_frame_disksize [OF 1(3)]
  have v: "held s' = Map.empty" "pins s' = pins s - fst ` set (commit_writes s)"
    "memdisk s' = apply_writes (commit_writes s) (memdisk s)" "cview s' = apply_writes (commit_writes s) (cview s)"
    "disk_trace s' = disk_trace s @ commit_writes s"
    using h arg_cong [OF 1(4), of a_held] arg_cong [OF 1(4), of a_pins] arg_cong [OF 1(4), of a_disk]
      arg_cong [OF 1(4), of a_view] arg_cong [OF 1(4), of a_trace] by simp_all
  have p: "pins s' = {}" using v(2) D(7) by (auto simp: commit_writes_def Let_def image_Un image_comp comp_def)
  have same: "memdisk s' = cview s'" using unheld_clean [OF 1(2)] v(1) p by (simp add: fun_eq_iff)
  have "cview s' b = cview s b" if b: "b \<notin> log_area ?st" for b
  proof (cases "b \<in> set (logged s)")
    case True
    have "apply_writes (map (\<lambda>b. (b, cview s b)) (logged s)) x b = cview s b" for x
      by (rule apply_writes_in) (use True D(5) in \<open>auto simp: comp_def\<close>)
    with b show ?thesis by (auto simp: v(4) commit_writes_def Let_def)
  next
    case False
    then have "b \<notin> fst ` set (commit_writes s)"
      using b log_copies_area [OF D(9,4)] by (auto simp: commit_writes_def Let_def)
    then show ?thesis by (simp add: v(4) apply_writes_other)
  qed
  moreover have "log_ok s'"
  proof -
    have "length (head_bytes (lh_n s) (lh_block s) (cview s ?st)) = BSIZE"
      using head_bytes(1) [OF _ D(4)] cache.view_length [OF D(1)] by simp
    then have "get32 0 (memdisk s' ?st) = 0" by (simp add: v(3) commit_writes_def Let_def)
    moreover have "log_geometry s'" using D(2) fr by (simp add: log_geometry_def)
    ultimately show ?thesis using 1(2) p fr by (simp add: log_ok_def logged_def)
  qed
  moreover have "jframe s s'"
  proof -
    have "s\<lparr>lh_n := lh_n s', lh_block := lh_block s'\<rparr> = s\<lparr>lh_n := 0\<rparr>" using fr by simp
    with 1(3) show ?thesis unfolding jframe_def by simp
  qed
  ultimately show ?thesis using 1(1) fr v p same by (simp add: same_data_def)
qed

text \<open>C1. A commit is atomic.  It returns with the transaction on the disk; and if the machine stops after
  any number \<open>k\<close> of its block writes, the next boot (\<open>binit\<close>, then \<open>initlog\<close> with its recovery)
  succeeds and leaves, outside the log area, the disk as it was before the transaction or as the
  transaction made it, nothing in between.\<close>

theorem commit_crash_atomic:
  assumes "log_ok s" and "held s = Map.empty" and "0 < lh_n s" and "super_ok (log_start s) (memdisk s)"
  shows "\<exists>s' ws. commit s = Ok s' \<and> disk_trace s' = disk_trace s @ ws \<and>
    same_data (log_start s) (memdisk s') (cview s) \<and>
    (\<forall>k (r :: 'a log_state_scheme). booted (apply_writes (take k ws) (memdisk s)) (disksize s) r \<longrightarrow>
      (\<exists>r'. initlog 1 (binit r) = Ok r' \<and> log_ok r' \<and>
        (same_data (log_start s) (memdisk r') (memdisk s) \<or> same_data (log_start s) (memdisk r') (cview s))))"
proof -
  from commit_run [OF assms(1,2)] assms(3) obtain s' where "commit s = Ok s'"
    "disk_trace s' = disk_trace s @ commit_writes s" "same_data (log_start s) (memdisk s') (cview s)" by auto
  moreover have "\<exists>r'. initlog 1 (binit r) = Ok r' \<and> log_ok r' \<and>
      (same_data (log_start s) (memdisk r') (memdisk s) \<or> same_data (log_start s) (memdisk r') (cview s))"
    if "booted (apply_writes (take k (commit_writes s)) (memdisk s)) (disksize s) r" for k and r :: "'a log_state_scheme"
    using boot_after_crash [OF assms, of k r] that by (auto simp: crash_disk_def split: if_splits)
  ultimately show ?thesis by blast
qed

text \<open>C2. Recovery may itself be interrupted: if the machine stops after any number of the block writes
  of \<open>initlog\<close>, booting again gives, outside the log area, the disk that the uninterrupted recovery
  would have given.\<close>

theorem recovery_restartable:
  assumes "booted d n (r :: 'a log_state_scheme)" and len: "\<And>b. length (d b) = BSIZE" and sup: "super_ok st d"
    and st: "1 < st" "unat st + 30 \<le> unat n" and ok: "head_ok st n d"
  shows "\<exists>r' ws. initlog 1 (binit r) = Ok r' \<and> disk_trace r' = disk_trace r @ ws \<and>
    (\<forall>j (q :: 'a log_state_scheme). booted (apply_writes (take j ws) d) n q \<longrightarrow>
      (\<exists>q'. initlog 1 (binit q) = Ok q' \<and> log_ok q' \<and> same_data st (memdisk q') (memdisk r')))"
proof -
  from initlog_spec [OF assms] obtain r' where r': "initlog 1 (binit r) = Ok r'"
    "memdisk r' = recovered st d" "disk_trace r' = disk_trace r @ recover_writes st d" by blast
  have "\<exists>q'. initlog 1 (binit q) = Ok q' \<and> log_ok q' \<and> same_data st (memdisk q') (recovered st d)"
    if q: "booted (apply_writes (take j (recover_writes st d)) d) n q" for j and q :: "'a log_state_scheme"
  proof -
    let ?e = "apply_writes (take j (recover_writes st d)) d"
    have ws: "\<forall>(b, x) \<in> set (recover_writes st d). length x = BSIZE"
      using len by (auto simp: recover_writes_def)
    then have "\<forall>(b, x) \<in> set (take j (recover_writes st d)). length x = BSIZE"
      using set_take_subset [of j "recover_writes st d"] by blast
    then have len': "length (?e b) = BSIZE" for b by (intro apply_writes_length) (use len in auto)
    have "1 \<notin> fst ` set (recover_writes st d)"
      using ok st(1) by (auto simp: recover_writes_def head_ok_def data_block_def)
    then have "1 \<notin> fst ` set (take j (recover_writes st d))"
      using set_take_subset [of j "recover_writes st d"] by blast
    then have "?e 1 = d 1" by (rule apply_writes_other)
    then have "super_ok st ?e" using sup by (simp add: super_ok_def)
    from initlog_spec [OF q len' this st recovered_again(1) [OF ok len]] recovered_again(2) [OF ok len]
    show ?thesis by auto
  qed
  with r' show ?thesis by auto
qed

section \<open>A small disk\<close>

text \<open>
  The kernel's data at boot, a disk of 1000 blocks whose log starts at block 2, and on it a
  transaction that has logged block 40.
\<close>

definition boot_state :: "u32 \<Rightarrow> (u32 \<Rightarrow> bytes) \<Rightarrow> log_state" where
  "boot_state n d =
     \<lparr>procs = (\<lambda>_. unused_proc), cur = 0, memdisk = d, disksize = n, disk_trace = [], bufs = (\<lambda>_. zero_buf),
      bnext = (\<lambda>_. 0), bprev = (\<lambda>_. 0), log_start = 0, log_size = 0, log_outstanding = 0,
      log_committing = False, log_dev = 0, lh_n = 0, lh_block = (\<lambda>_. 0)\<rparr>"

definition demo_disk :: "u32 \<Rightarrow> bytes" where
  "demo_disk b = (if b = 1 then put32 16 2 (put32 12 30 (replicate BSIZE 0)) else replicate BSIZE 0)"

definition demo_buf :: buf where
  "demo_buf = \<lparr>b_flags = 6, b_dev = 1, b_blockno = 40, b_lock = initsleeplock, b_refcnt = 0,
     b_data = replicate BSIZE 7\<rparr>"

definition demo_log :: log_state where
  "demo_log = (put_buf 0 demo_buf (binit (boot_state 1000 demo_disk)))
     \<lparr>log_start := 2, log_size := 30, log_dev := 1, lh_n := 1, lh_block := (\<lambda>_. 40)\<rparr>"

lemma demo_head: "get32 0 (demo_disk 2) = 0"
  by (simp add: demo_disk_def get32_def slice_def dec32_def)

lemma demo_disk_facts [simp]: "length (demo_disk b) = BSIZE" "super_ok 2 demo_disk" "head_ok 2 1000 demo_disk"
proof -
  show "length (demo_disk b) = BSIZE" by (simp add: demo_disk_def)
  have "get32 16 (demo_disk 1) = 2" by (simp add: demo_disk_def)
  moreover have "get32 12 (demo_disk 1) = 30" by (simp add: demo_disk_def get32_put32_other)
  ultimately show "super_ok 2 demo_disk" by (simp add: super_ok_def dec_super_def)
  show "head_ok 2 1000 demo_disk" by (simp add: head_ok_def head_count_def demo_head)
qed

lemma demo_log_facts [simp]:
  "log_ok demo_log" "held demo_log = Map.empty" "lh_n demo_log = 1" "log_start demo_log = 2"
  "memdisk demo_log = demo_disk" "disksize demo_log = 1000" "disk_trace demo_log = []"
proof -
  let ?b = "binit (boot_state 1000 demo_disk)"
  have bufs0: "bufs (boot_state 1000 demo_disk) = (\<lambda>_. zero_buf)" by (simp add: boot_state_def)
  have bi: "bio_inv ?b" and bc: "cabs ?b = \<lparr>a_disk = demo_disk, a_view = demo_disk, a_pins = {},
      a_trace = [], a_held = Map.empty\<rparr>"
    using binit_inv [OF bufs0] by (simp_all add: boot_state_def)
  have bufs: "bufs ?b = (\<lambda>_. zero_buf)"
    by (auto simp: binit_def bufs0 zero_buf_def split: prod.splits)
  have sel: "disksize ?b = 1000" "memdisk ?b = demo_disk" "disk_trace ?b = []" "log_outstanding ?b = 0"
    by (simp_all add: binit_def boot_state_def split: prod.splits)
  have no: "\<not> caches ?b b i" for b i by (simp add: caches_def bufs zero_buf_def)
  have dv: "dirty demo_buf" "valid demo_buf" by (simp_all add: demo_buf_def dirty_def valid_def)
  have "buf_ok ?b demo_buf"
    using dv by (simp add: buf_ok_def sel) (simp add: demo_buf_def initsleeplock_def)
  then have inv: "bio_inv (put_buf 0 demo_buf ?b)" by (rule put_buf_inv [OF bi]) (use no in auto)
  have ca: "caches (put_buf 0 demo_buf ?b) b i \<longleftrightarrow> b = 40 \<and> i = 0" for b i
    using no by (auto simp: caches_put_buf demo_buf_def)
  have pins: "pins demo_log = {40}" using dv by (simp add: demo_log_def pins_def ca)
  show h: "held demo_log = Map.empty"
    by (simp add: demo_log_def held_put_buf held_def bufs zero_buf_def demo_buf_def initsleeplock_def fun_eq_iff)
  show "lh_n demo_log = 1" "log_start demo_log = 2" "memdisk demo_log = demo_disk"
    "disksize demo_log = 1000" "disk_trace demo_log = []"
    by (simp_all add: demo_log_def sel)
  have "(40 :: u32) \<notin> log_area 2"
  proof
    assume "(40 :: u32) \<in> log_area 2"
    then obtain i where "i < 29" "lblk 2 i = (40 :: u32)" by (auto simp: log_area_def)
    then show False using unat_lblk [of 2 "1000 :: u32" i] by simp
  qed
  moreover have "bio_inv demo_log" using inv by (simp add: demo_log_def)
  ultimately show "log_ok demo_log"
    using pins by (simp add: log_ok_def log_geometry_def logged_def demo_log_def sel data_block_def
        demo_head)
qed

theorem commit_crash_atomic_witness:
  "\<exists>s' ws. commit demo_log = Ok s' \<and> disk_trace s' = ws \<and> same_data 2 (memdisk s') (cview demo_log) \<and>
    (\<exists>r'. initlog 1 (binit (boot_state 1000 (apply_writes (take 2 ws) demo_disk))) = Ok r' \<and> log_ok r' \<and>
      (same_data 2 (memdisk r') demo_disk \<or> same_data 2 (memdisk r') (cview demo_log)))"
proof -
  have b: "booted d n (boot_state n d)" for n d by (simp add: booted_def boot_state_def)
  from commit_crash_atomic [of demo_log] obtain s' ws where
    1: "commit demo_log = Ok s'" "disk_trace s' = ws" "same_data 2 (memdisk s') (cview demo_log)" and
    2: "\<And>k (r :: log_state). booted (apply_writes (take k ws) demo_disk) 1000 r \<Longrightarrow>
      \<exists>r'. initlog 1 (binit r) = Ok r' \<and> log_ok r' \<and>
        (same_data 2 (memdisk r') demo_disk \<or> same_data 2 (memdisk r') (cview demo_log))"
    by (auto simp del: binit_def)
  from 1 2 [OF b] show ?thesis by blast
qed

theorem recovery_restartable_witness:
  "\<exists>r' ws. initlog 1 (binit (boot_state 1000 demo_disk)) = Ok r' \<and> disk_trace r' = ws \<and>
    (\<exists>q'. initlog 1 (binit (boot_state 1000 (apply_writes (take 1 ws) demo_disk))) = Ok q' \<and> log_ok q' \<and>
      same_data 2 (memdisk q') (memdisk r'))"
proof -
  have b: "booted d n (boot_state n d)" "disk_trace (boot_state n d) = []" for n d
    by (simp_all add: booted_def boot_state_def)
  from recovery_restartable [OF b(1) demo_disk_facts(1,2) _ _ demo_disk_facts(3)] obtain r' ws where
    1: "initlog 1 (binit (boot_state 1000 demo_disk)) = Ok r'" "disk_trace r' = ws" and
    2: "\<And>j (q :: log_state). booted (apply_writes (take j ws) demo_disk) 1000 q \<Longrightarrow>
      \<exists>q'. initlog 1 (binit q) = Ok q' \<and> log_ok q' \<and> same_data 2 (memdisk q') (memdisk r')"
    by (auto simp: b(2))
  from 1 2 [OF b(1)] show ?thesis by blast
qed

end
