(* ===== verification/Pipe.thy ===== *)
theory Pipe imports Ring Proctab begin

text \<open>
  Pipes (\<open>pipe.c\<close>): a 512-byte circular buffer shared by readers and writers that sleep on it.  A call
  runs until it returns or goes to sleep; \<open>pipe_step\<close> interleaves one writer and one reader at those
  points.  The theorems say that the bytes read are the bytes written, in order, and that nobody sleeps
  through an event it waits for.
\<close>

abbreviation (input) PIPESIZE :: nat where "PIPESIZE \<equiv> 512"

record pipe =
  pdata :: "nat \<Rightarrow> u8"
  nread :: u32
  nwrite :: u32
  readopen :: bool
  writeopen :: bool

definition pipe_ring :: "pipe \<Rightarrow> ring" where
  "pipe_ring p = (pdata p, nread p, nwrite p)"

definition pipe_bytes :: "pipe \<Rightarrow> bytes" where
  "pipe_bytes p = ring_list PIPESIZE (pipe_ring p)"

definition pipe_new :: "pipe \<Rightarrow> pipe" where
  "pipe_new p = p\<lparr>nread := 0, nwrite := 0, readopen := True, writeopen := True\<rparr>"

text \<open>
  What a call ends with: a return value, or sleep on the pipe's write or read channel with the work that
  is left.  The list holds the channels woken up on the way.
\<close>

datatype pipe_event = WakeReaders | WakeWriters

datatype pipe_result = Return int | SleepWrite bytes | SleepRead

definition pipe_full :: "pipe \<Rightarrow> bool" where
  "pipe_full p \<longleftrightarrow> nwrite p = nread p + word_of_nat PIPESIZE"

primrec pipewrite_loop :: "bool \<Rightarrow> int \<Rightarrow> bytes \<Rightarrow> pipe \<Rightarrow> pipe_result \<times> pipe_event list \<times> pipe" where
  "pipewrite_loop killed n [] p = (Return n, [WakeReaders], p)"
| "pipewrite_loop killed n (x # xs) p =
     (if pipe_full p then
        (if \<not> readopen p \<or> killed then (Return (-1), [], p) else (SleepWrite (x # xs), [WakeReaders], p))
      else
        pipewrite_loop killed n xs
          (p\<lparr>pdata := (pdata p)(unat (nwrite p) mod PIPESIZE := x), nwrite := nwrite p + 1\<rparr>))"

definition pipewrite :: "bool \<Rightarrow> bytes \<Rightarrow> pipe \<Rightarrow> pipe_result \<times> pipe_event list \<times> pipe" where
  "pipewrite killed xs p = pipewrite_loop killed (int (length xs)) xs p"

primrec piperead_copy :: "nat \<Rightarrow> pipe \<Rightarrow> bytes \<times> pipe" where
  "piperead_copy 0 p = ([], p)"
| "piperead_copy (Suc n) p =
     (if nread p = nwrite p then ([], p)
      else case piperead_copy n (p\<lparr>nread := nread p + 1\<rparr>) of
        (xs, p') \<Rightarrow> (pdata p (unat (nread p) mod PIPESIZE) # xs, p'))"

definition piperead :: "bool \<Rightarrow> nat \<Rightarrow> pipe \<Rightarrow> pipe_result \<times> bytes \<times> pipe_event list \<times> pipe" where
  "piperead killed n p =
     (if nread p = nwrite p \<and> writeopen p then
        (if killed then (Return (-1), [], [], p) else (SleepRead, [], [], p))
      else case piperead_copy n p of (xs, p') \<Rightarrow> (Return (int (length xs)), xs, [WakeWriters], p'))"

text \<open>The last argument of the result says whether the page of the pipe is freed.\<close>

definition pipeclose :: "bool \<Rightarrow> pipe \<Rightarrow> pipe_event list \<times> pipe \<times> bool" where
  "pipeclose writable p =
     (let (ev, p) = (if writable then ([WakeReaders], p\<lparr>writeopen := False\<rparr>)
                     else ([WakeWriters], p\<lparr>readopen := False\<rparr>))
      in (ev, p, \<not> readopen p \<and> \<not> writeopen p))"

section \<open>The buffer\<close>

interpretation pipebuf: bounded_fifo "ring_list 512" "ring_push 512" "ring_pop 512"
  "\<lambda>(buf, r, w). w = r + word_of_nat 512" "\<lambda>(buf, r, w). r = w" 512
  by (rule ring_fifo) simp_all

definition pipe_ok :: "pipe \<Rightarrow> bool" where
  "pipe_ok p \<longleftrightarrow> length (pipe_bytes p) \<le> PIPESIZE"

lemma pipe_push:
  "pipe_ring (p\<lparr>pdata := (pdata p)(unat (nwrite p) mod PIPESIZE := x), nwrite := nwrite p + 1\<rparr>) =
   ring_push 512 x (pipe_ring p)"
  by (simp add: pipe_ring_def ring_push_def)

lemma pipe_pop:
  "ring_pop 512 (pipe_ring p) = (pdata p (unat (nread p) mod PIPESIZE), pipe_ring (p\<lparr>nread := nread p + 1\<rparr>))"
  by (simp add: pipe_ring_def ring_pop_def)

lemma pipe_empty: "nread p = nwrite p \<longleftrightarrow> pipe_bytes p = []"
  using pipebuf.empty [of "pipe_ring p"] by (simp add: pipe_bytes_def pipe_ring_def)

lemma pipe_full_length: "pipe_ok p \<Longrightarrow> pipe_full p \<longleftrightarrow> length (pipe_bytes p) = PIPESIZE"
  using pipebuf.full [of "pipe_ring p"] by (simp add: pipe_bytes_def pipe_ring_def pipe_full_def pipe_ok_def)

text \<open>\<open>pipewrite\<close> stores the bytes while there is room; \<open>piperead\<close> takes them out in order.\<close>

lemma pipewrite_loop_push_all:
  "pipewrite_loop killed n xs p = (r, ev, p') \<Longrightarrow>
   \<exists>rest. pipebuf.push_all xs (pipe_ring p) = (pipe_ring p', rest) \<and> readopen p' = readopen p \<and>
     writeopen p' = writeopen p \<and>
     (if rest = [] then r = Return n \<and> ev = [WakeReaders]
      else if \<not> readopen p \<or> killed then r = Return (-1) \<and> ev = []
      else r = SleepWrite rest \<and> ev = [WakeReaders])"
proof (induction xs arbitrary: p)
  case (Cons x xs)
  let ?q = "p\<lparr>pdata := (pdata p)(unat (nwrite p) mod PIPESIZE := x), nwrite := nwrite p + 1\<rparr>"
  have full: "(case pipe_ring p of (buf, r, w) \<Rightarrow> w = r + word_of_nat 512) = pipe_full p"
    by (simp add: pipe_ring_def pipe_full_def)
  show ?case
  proof (cases "pipe_full p")
    case True
    show ?thesis
      by (rule exI [of _ "x # xs"])
        (use Cons.prems True in \<open>simp only: pipebuf.push_all.simps full pipewrite_loop.simps if_True,
          simp split: if_splits\<close>)
  next
    case False
    then have "pipewrite_loop killed n xs ?q = (r, ev, p')" using Cons.prems by simp
    from Cons.IH [OF this] obtain rest where
      1: "pipebuf.push_all xs (pipe_ring ?q) = (pipe_ring p', rest)" "readopen p' = readopen p" "writeopen p' = writeopen p"
        "if rest = [] then r = Return n \<and> ev = [WakeReaders]
         else if \<not> readopen p \<or> killed then r = Return (-1) \<and> ev = [] else r = SleepWrite rest \<and> ev = [WakeReaders]"
      by auto
    have "pipebuf.push_all (x # xs) (pipe_ring p) = (pipe_ring p', rest)"
      using 1(1) False unfolding pipe_push pipebuf.push_all.simps full by simp
    with 1 show ?thesis by blast
  qed
next
  case Nil
  then show ?case unfolding pipebuf.push_all.simps by (intro exI [of _ "[]"]) simp
qed

lemma piperead_copy_pop_all:
  "piperead_copy n p = (xs, p') \<Longrightarrow>
   pipebuf.pop_all n (pipe_ring p) = (xs, pipe_ring p') \<and> readopen p' = readopen p \<and> writeopen p' = writeopen p"
proof (induction n arbitrary: p p' xs)
  case (Suc n)
  have e: "(case pipe_ring p of (buf, r, w) \<Rightarrow> r = w) \<longleftrightarrow> nread p = nwrite p" by (simp add: pipe_ring_def)
  show ?case
  proof (cases "nread p = nwrite p")
    case True
    with Suc.prems have "xs = [] \<and> p' = p" by auto
    then show ?thesis using True unfolding pipebuf.pop_all.simps e by simp
  next
    case False
    obtain ys q where q: "piperead_copy n (p\<lparr>nread := nread p + 1\<rparr>) = (ys, q)" by force
    have r: "xs = pdata p (unat (nread p) mod 512) # ys" "p' = q" using Suc.prems False q by auto
    from Suc.IH [OF q [folded r(2)]] show ?thesis
      using False unfolding pipebuf.pop_all.simps e r pipe_pop by simp
  qed
qed simp

lemma pipewrite_bytes:
  assumes "pipe_ok p" and "pipewrite_loop killed n xs p = (r, ev, p')"
  shows "\<exists>ys rest. xs = ys @ rest \<and> pipe_bytes p' = pipe_bytes p @ ys \<and> pipe_ok p' \<and>
    readopen p' = readopen p \<and> writeopen p' = writeopen p \<and>
    (if rest = [] then r = Return n \<and> ev = [WakeReaders]
     else length (pipe_bytes p') = PIPESIZE \<and>
       (if \<not> readopen p \<or> killed then r = Return (-1) \<and> ev = [] else r = SleepWrite rest \<and> ev = [WakeReaders]))"
proof -
  from pipewrite_loop_push_all [OF assms(2)] obtain rest where
    1: "pipebuf.push_all xs (pipe_ring p) = (pipe_ring p', rest)" "readopen p' = readopen p" "writeopen p' = writeopen p"
      "if rest = [] then r = Return n \<and> ev = [WakeReaders]
       else if \<not> readopen p \<or> killed then r = Return (-1) \<and> ev = [] else r = SleepWrite rest \<and> ev = [WakeReaders]"
    by blast
  from pipebuf.push_all_items [OF _ 1(1)] assms(1) obtain ys where "xs = ys @ rest" "pipe_bytes p' = pipe_bytes p @ ys"
    "pipe_ok p'" "rest \<noteq> [] \<longrightarrow> length (pipe_bytes p') = PIPESIZE"
    by (auto simp: pipe_ok_def pipe_bytes_def)
  with 1 show ?thesis by (intro exI [of _ ys] exI [of _ rest]) auto
qed

lemma piperead_bytes:
  assumes "piperead killed n p = (r, xs, ev, p')"
  shows "pipe_bytes p = xs @ pipe_bytes p'"
    and "r = SleepRead \<longleftrightarrow> pipe_bytes p = [] \<and> writeopen p \<and> \<not> killed"
    and "r = Return k \<Longrightarrow> k = (if pipe_bytes p = [] \<and> writeopen p then -1 else int (min n (length (pipe_bytes p))))"
    and "ev = (if pipe_bytes p = [] \<and> writeopen p then [] else [WakeWriters])"
    and "readopen p' = readopen p" and "writeopen p' = writeopen p" and "r \<noteq> SleepWrite zs"
    and "length xs = (if pipe_bytes p = [] \<and> writeopen p then 0 else min n (length (pipe_bytes p)))"
proof -
  obtain ys q where c: "piperead_copy n p = (ys, q)" by force
  from piperead_copy_pop_all [OF c] have pop: "pipebuf.pop_all n (pipe_ring p) = (ys, pipe_ring q)"
    "readopen q = readopen p" "writeopen q = writeopen p" by auto
  from pipebuf.pop_all_items [OF pop(1)] have it: "pipe_bytes p = ys @ pipe_bytes q"
    and len: "length ys = min n (length (pipe_bytes p))"
    unfolding pipe_bytes_def by blast+
  note d = assms [unfolded piperead_def c pipe_empty]
  define b where "b \<longleftrightarrow> pipe_bytes p = [] \<and> writeopen p"
  define m where "m = min n (length (pipe_bytes p))"
  consider (wait) "b" "xs = []" "p' = p" "ev = []" "r = (if killed then Return (-1) else SleepRead)"
    | (copy) "\<not> b" "xs = ys" "p' = q" "ev = [WakeWriters]" "r = Return (int (length ys))"
    using d by (cases b) (auto simp: b_def split: if_splits)
  then have "pipe_bytes p = xs @ pipe_bytes p' \<and> (r = SleepRead \<longleftrightarrow> b \<and> \<not> killed) \<and>
    (r = Return k \<longrightarrow> k = (if b then -1 else int m)) \<and>
    ev = (if b then [] else [WakeWriters]) \<and> readopen p' = readopen p \<and> writeopen p' = writeopen p \<and>
    r \<noteq> SleepWrite zs \<and> length xs = (if b then 0 else m)"
  proof cases
    case wait
    then show ?thesis by (simp add: b_def)
  next
    case copy
    then show ?thesis using it pop(2,3) len [folded m_def] by simp
  qed
  then show "pipe_bytes p = xs @ pipe_bytes p'"
    and "r = SleepRead \<longleftrightarrow> pipe_bytes p = [] \<and> writeopen p \<and> \<not> killed"
    and "r = Return k \<Longrightarrow> k = (if pipe_bytes p = [] \<and> writeopen p then -1 else int (min n (length (pipe_bytes p))))"
    and "ev = (if pipe_bytes p = [] \<and> writeopen p then [] else [WakeWriters])"
    and "readopen p' = readopen p" and "writeopen p' = writeopen p" and "r \<noteq> SleepWrite zs"
    and "length xs = (if pipe_bytes p = [] \<and> writeopen p then 0 else min n (length (pipe_bytes p)))"
    unfolding b_def m_def by blast+
qed

section \<open>A writer and a reader\<close>

text \<open>
  The writer and the reader each run a call until it returns or sleeps; a sleeper goes on after a wake-up.
  \<open>sent\<close> and \<open>got\<close> are ghosts: the bytes stored in the pipe and the bytes read from it so far.  The
  first argument of the relation says whether the two have been killed.
\<close>

datatype wstate = WIdle | WAsleep bytes | WAwake bytes
datatype rstate = RIdle | RAsleep nat | RAwake nat

record psys =
  py :: pipe
  sent :: bytes
  got :: bytes
  wst :: wstate
  rst :: rstate

definition wake_reader :: "pipe_event list \<Rightarrow> rstate \<Rightarrow> rstate" where
  "wake_reader ev st = (if WakeReaders \<in> set ev then (case st of RAsleep n \<Rightarrow> RAwake n | _ \<Rightarrow> st) else st)"

definition wake_writer :: "pipe_event list \<Rightarrow> wstate \<Rightarrow> wstate" where
  "wake_writer ev st = (if WakeWriters \<in> set ev then (case st of WAsleep xs \<Rightarrow> WAwake xs | _ \<Rightarrow> st) else st)"

definition after_write :: "pipe_result \<Rightarrow> wstate" where
  "after_write r = (case r of SleepWrite rest \<Rightarrow> WAsleep rest | _ \<Rightarrow> WIdle)"

definition after_read :: "nat \<Rightarrow> pipe_result \<Rightarrow> rstate" where
  "after_read n r = (case r of SleepRead \<Rightarrow> RAsleep n | _ \<Rightarrow> RIdle)"

inductive pipe_step :: "bool \<Rightarrow> psys \<Rightarrow> psys \<Rightarrow> bool" where
  pwrite: "wst s = WIdle \<or> wst s = WAwake xs \<Longrightarrow> writeopen (py s) \<Longrightarrow>
    pipewrite_loop killed n xs (py s) = (r, ev, p') \<Longrightarrow>
    pipe_step killed s (s\<lparr>py := p', wst := after_write r, rst := wake_reader ev (rst s),
      sent := sent s @ take (length (pipe_bytes p') - length (pipe_bytes (py s))) xs\<rparr>)"
| pread: "rst s = RIdle \<or> rst s = RAwake n \<Longrightarrow> readopen (py s) \<Longrightarrow>
    piperead killed n (py s) = (r, xs, ev, p') \<Longrightarrow>
    pipe_step killed s (s\<lparr>py := p', rst := after_read n r, wst := wake_writer ev (wst s), got := got s @ xs\<rparr>)"
| close_write: "wst s = WIdle \<Longrightarrow> pipeclose True (py s) = (ev, p', freed) \<Longrightarrow>
    pipe_step killed s (s\<lparr>py := p', rst := wake_reader ev (rst s)\<rparr>)"
| close_read: "rst s = RIdle \<Longrightarrow> pipeclose False (py s) = (ev, p', freed) \<Longrightarrow>
    pipe_step killed s (s\<lparr>py := p', wst := wake_writer ev (wst s)\<rparr>)"

inductive pipe_reach :: "bool \<Rightarrow> psys \<Rightarrow> bool" where
  start: "py s = pipe_new p \<Longrightarrow> sent s = [] \<Longrightarrow> got s = [] \<Longrightarrow> wst s = WIdle \<Longrightarrow> rst s = RIdle \<Longrightarrow> pipe_reach killed s"
| step: "pipe_reach killed s \<Longrightarrow> pipe_step killed s s' \<Longrightarrow> pipe_reach killed s'"

inductive_cases pipe_stepE: "pipe_step killed s s'"

text \<open>
  The invariant: nothing is lost, duplicated or reordered, and a sleeper's condition still holds, so the
  wake-up it waits for has not passed.
\<close>

definition pipe_inv :: "psys \<Rightarrow> bool" where
  "pipe_inv s \<longleftrightarrow> pipe_ok (py s) \<and> sent s = got s @ pipe_bytes (py s) \<and>
     (\<forall>xs. wst s = WAsleep xs \<longrightarrow> length (pipe_bytes (py s)) = PIPESIZE \<and> readopen (py s)) \<and>
     (\<forall>n. rst s = RAsleep n \<longrightarrow> pipe_bytes (py s) = [] \<and> writeopen (py s) \<and> readopen (py s))"

lemma wake_reader_awake [simp]: "WakeReaders \<in> set ev \<Longrightarrow> wake_reader ev st \<noteq> RAsleep n"
  by (simp add: wake_reader_def split: rstate.splits)

lemma wake_writer_awake [simp]: "WakeWriters \<in> set ev \<Longrightarrow> wake_writer ev st \<noteq> WAsleep xs"
  by (simp add: wake_writer_def split: wstate.splits)

lemma wake_nil [simp]: "wake_reader [] rs = rs" "wake_writer [] ws = ws"
  by (simp_all add: wake_reader_def wake_writer_def)

lemma pipe_inv_write:
  assumes inv: "pipe_inv s" and run: "pipewrite_loop False n xs (py s) = (r, ev, p')" and wo: "writeopen (py s)"
  shows "pipe_inv (s\<lparr>py := p', wst := after_write r, rst := wake_reader ev (rst s),
      sent := sent s @ take (length (pipe_bytes p') - length (pipe_bytes (py s))) xs\<rparr>)"
proof -
  have ok: "pipe_ok (py s)" and hist: "sent s = got s @ pipe_bytes (py s)"
    and rd: "\<And>m. rst s = RAsleep m \<Longrightarrow> readopen (py s)" using inv by (auto simp: pipe_inv_def)
  from pipewrite_bytes [OF ok run] obtain ys rest where 1: "xs = ys @ rest"
    "pipe_bytes p' = pipe_bytes (py s) @ ys" "pipe_ok p'" "readopen p' = readopen (py s)" "writeopen p' = writeopen (py s)"
    and c: "if rest = [] then r = Return n \<and> ev = [WakeReaders]
     else length (pipe_bytes p') = PIPESIZE \<and>
       (if \<not> readopen (py s) \<or> False then r = Return (-1) \<and> ev = [] else r = SleepWrite rest \<and> ev = [WakeReaders])"
    by blast
  have "take (length (pipe_bytes p') - length (pipe_bytes (py s))) xs = ys" using 1(1,2) by simp
  moreover have "length (pipe_bytes p') = PIPESIZE \<and> readopen p'" if "after_write r = WAsleep zs" for zs
    using c 1(4) that by (auto simp: after_write_def split: if_splits)
  moreover have "wake_reader ev (rst s) \<noteq> RAsleep m" for m
  proof (cases "readopen (py s)")
    case True
    then have "WakeReaders \<in> set ev" using c by (auto split: if_splits)
    then show ?thesis by simp
  next
    case False
    then have "rst s \<noteq> RAsleep m" using rd by blast
    then show ?thesis by (cases "rst s") (simp_all add: wake_reader_def)
  qed
  ultimately show ?thesis using 1 hist by (simp add: pipe_inv_def)
qed

lemma pipe_inv_read:
  assumes inv: "pipe_inv s" and run: "piperead False n (py s) = (r, xs, ev, p')" and ro: "readopen (py s)"
  shows "pipe_inv (s\<lparr>py := p', rst := after_read n r, wst := wake_writer ev (wst s), got := got s @ xs\<rparr>)"
proof -
  note b = piperead_bytes [OF run]
  have ok: "length (pipe_bytes (py s)) \<le> PIPESIZE" and hist: "sent s = got s @ pipe_bytes (py s)"
    and wr: "\<And>zs. wst s = WAsleep zs \<Longrightarrow> length (pipe_bytes (py s)) = PIPESIZE" using inv by (auto simp: pipe_inv_def pipe_ok_def)
  have "wake_writer ev (wst s) \<noteq> WAsleep zs" for zs
  proof (cases "pipe_bytes (py s) = [] \<and> writeopen (py s)")
    case True
    then have "wst s \<noteq> WAsleep zs" using wr [of zs] by auto
    then show ?thesis by (cases "wst s") (simp_all add: wake_writer_def)
  next
    case False
    then have "ev = [WakeWriters]" using b(4) by simp
    then show ?thesis by simp
  qed
  moreover have "length (pipe_bytes p') \<le> PIPESIZE" using ok b(1) by simp
  moreover have "pipe_bytes p' = [] \<and> writeopen p' \<and> readopen p'" if "after_read n r = RAsleep m" for m
  proof -
    have "r = SleepRead" using that by (simp add: after_read_def split: pipe_result.splits)
    then have "pipe_bytes (py s) = []" "writeopen (py s)" using b(2) by auto
    then show ?thesis using b(1,5,6) ro by simp
  qed
  ultimately show ?thesis using hist b(1) by (simp add: pipe_inv_def pipe_ok_def)
qed

lemma pipe_bytes_cong: "pdata q = pdata p \<Longrightarrow> nread q = nread p \<Longrightarrow> nwrite q = nwrite p \<Longrightarrow> pipe_bytes q = pipe_bytes p"
  by (simp add: pipe_bytes_def pipe_ring_def)

lemma pipe_inv_step:
  assumes "pipe_step False s s'" and "pipe_inv s"
  shows "pipe_inv s'"
  using assms(1)
proof (cases rule: pipe_stepE [consumes 1, case_names pwrite pread close_write close_read])
  case (pwrite xs n r ev p')
  then show ?thesis using pipe_inv_write [OF assms(2)] by blast
next
  case (pread n r xs ev p')
  then show ?thesis using pipe_inv_read [OF assms(2)] by blast
next
  case (close_write ev p' freed)
  then have p': "p' = (py s)\<lparr>writeopen := False\<rparr>" and ev: "ev = [WakeReaders]"
    by (auto simp: pipeclose_def Let_def)
  have "pipe_bytes p' = pipe_bytes (py s)" by (rule pipe_bytes_cong) (simp_all add: p')
  then show ?thesis using close_write(1,2) assms(2) by (simp add: pipe_inv_def pipe_ok_def p' ev)
next
  case (close_read ev p' freed)
  then have p': "p' = (py s)\<lparr>readopen := False\<rparr>" and ev: "ev = [WakeWriters]"
    by (auto simp: pipeclose_def Let_def)
  have "pipe_bytes p' = pipe_bytes (py s)" by (rule pipe_bytes_cong) (simp_all add: p')
  then show ?thesis using close_read(1,2) assms(2) by (simp add: pipe_inv_def pipe_ok_def p' ev)
qed

lemma pipe_new_empty: "pipe_bytes (pipe_new p) = []"
  by (simp add: pipe_bytes_def pipe_ring_def pipe_new_def ring_list_def ring_len_def)

lemma pipe_reach_inv: "pipe_reach False s \<Longrightarrow> pipe_inv s"
proof (induction False s rule: pipe_reach.induct)
  case (start s p)
  then show ?case by (simp add: pipe_inv_def pipe_ok_def pipe_new_empty)
next
  case (step s s')
  then show ?case using pipe_inv_step by blast
qed

text \<open>C6. A pipe is a first-in first-out channel without lost wake-ups: as long as nobody is killed, the
  bytes read are a prefix of the bytes stored, the rest is in the pipe, never more than 512 bytes; a
  sleeping writer faces a full pipe and a sleeping reader an empty one, so the two never sleep at the
  same time.\<close>

theorem pipe_fifo_no_deadlock:
  assumes "pipe_reach False s"
  shows "sent s = got s @ pipe_bytes (py s) \<and> length (pipe_bytes (py s)) \<le> PIPESIZE \<and>
    (\<forall>xs. wst s = WAsleep xs \<longrightarrow> pipe_full (py s)) \<and>
    (\<forall>n. rst s = RAsleep n \<longrightarrow> pipe_bytes (py s) = []) \<and>
    \<not> (\<exists>xs n. wst s = WAsleep xs \<and> rst s = RAsleep n)"
  using pipe_reach_inv [OF assms] pipe_full_length [of "py s"] by (auto simp: pipe_inv_def pipe_ok_def)

definition zero_pipe :: pipe where
  "zero_pipe = \<lparr>pdata = (\<lambda>_. 0), nread = 0, nwrite = 0, readopen = False, writeopen = False\<rparr>"

definition demo_pipe :: psys where
  "demo_pipe = \<lparr>py = pipe_new zero_pipe, sent = [], got = [], wst = WIdle, rst = RIdle\<rparr>"

text \<open>The state after a reader has gone to sleep on the empty pipe.\<close>

definition demo_waiting :: psys where
  "demo_waiting = demo_pipe\<lparr>rst := RAsleep 5\<rparr>"

lemma demo_waiting_reach: "pipe_reach killed demo_pipe" "pipe_reach False demo_waiting"
proof -
  show r: "pipe_reach killed demo_pipe" for killed by (rule pipe_reach.start) (simp_all add: demo_pipe_def)
  have "pipe_step False demo_pipe (demo_pipe\<lparr>py := pipe_new zero_pipe, rst := after_read 5 SleepRead,
      wst := wake_writer [] (wst demo_pipe), got := got demo_pipe @ []\<rparr>)"
    by (rule pipe_step.pread) (simp_all add: demo_pipe_def pipe_new_def piperead_def)
  then have "pipe_step False demo_pipe demo_waiting"
    by (simp add: demo_waiting_def demo_pipe_def after_read_def)
  with r show "pipe_reach False demo_waiting" by (rule pipe_reach.step)
qed

theorem pipe_fifo_no_deadlock_witness:
  "sent demo_waiting = got demo_waiting @ pipe_bytes (py demo_waiting) \<and> rst demo_waiting = RAsleep 5 \<and>
    pipe_bytes (py demo_waiting) = []"
  using pipe_fifo_no_deadlock [OF demo_waiting_reach(2)] by (simp add: demo_waiting_def)

text \<open>
  A killed writer loses a wake-up: when it finds the pipe full after storing bytes, \<open>pipewrite\<close>
  returns \<open>-1\<close> without waking the readers, so a reader can sleep on a pipe that holds bytes.
\<close>

theorem killed_writer_loses_wakeup:
  assumes "pipe_ok p" and "pipe_bytes p = []" and "PIPESIZE < length xs"
  shows "\<exists>p'. pipewrite True xs p = (Return (-1), [], p') \<and> pipe_bytes p' = take PIPESIZE xs"
proof -
  obtain r ev p' where run: "pipewrite_loop True (int (length xs)) xs p = (r, ev, p')" by (metis prod_cases3)
  from pipewrite_bytes [OF assms(1) run] obtain ys rest where 1: "xs = ys @ rest"
    "pipe_bytes p' = pipe_bytes p @ ys" "pipe_ok p'"
    and c: "if rest = [] then r = Return (int (length xs)) \<and> ev = [WakeReaders]
     else length (pipe_bytes p') = PIPESIZE \<and> r = Return (-1) \<and> ev = []" by (auto split: if_splits)
  have "rest \<noteq> []" using 1 assms by (auto simp: pipe_ok_def)
  with c 1 assms(2) have "length ys = PIPESIZE" "r = Return (-1)" "ev = []" by auto
  with run 1 assms(2) show ?thesis by (simp add: pipewrite_def)
qed

theorem killed_writer_loses_wakeup_witness:
  "\<exists>p'. pipewrite True (replicate 600 1) (pipe_new zero_pipe) = (Return (-1), [], p') \<and>
    pipe_bytes p' = take PIPESIZE (replicate 600 1)"
  by (rule killed_writer_loses_wakeup) (simp_all add: pipe_ok_def pipe_new_empty)

end
