(* ===== verification/File.thy ===== *)
theory File imports Dir Pipe begin

text \<open>
  Open files (\<open>file.c\<close>): the table of open files with its reference counts, and the operations that
  dispatch on the kind of file.  The pipes of the system are a table too; the page of a new pipe comes
  from \<open>kalloc\<close>, whose result is an argument of \<open>pipealloc\<close>.  A pipe operation that goes to sleep has
  the outcome \<open>Waits\<close> here; \<open>Pipe\<close> follows it through the sleep.
\<close>

abbreviation (input) NFILE :: nat where "NFILE \<equiv> 100"

datatype ftype = FD_NONE | FD_PIPE | FD_INODE

record ofile =
  f_type :: ftype
  f_ref :: int
  f_readable :: bool
  f_writable :: bool
  f_pipe :: nat
  f_ip :: "nat option"
  f_off :: u32

record file_state = fs_state +
  ftable :: "nat \<Rightarrow> ofile"
  pipes :: "nat \<Rightarrow> pipe"

definition upd_file :: "nat \<Rightarrow> (ofile \<Rightarrow> ofile) \<Rightarrow> 'a file_state_scheme \<Rightarrow> 'a file_state_scheme" where
  "upd_file i f s = s\<lparr>ftable := (ftable s)(i := f (ftable s i))\<rparr>"

section \<open>The table\<close>

definition filealloc :: "'a file_state_scheme \<Rightarrow> nat option \<times> 'a file_state_scheme" where
  "filealloc s =
     (case first_index (\<lambda>i. f_ref (ftable s i) = 0) NFILE of
        Some i \<Rightarrow> (Some i, upd_file i (\<lambda>f. f\<lparr>f_ref := 1\<rparr>) s)
      | None \<Rightarrow> (None, s))"

definition filedup :: "nat \<Rightarrow> 'a file_state_scheme \<Rightarrow> (nat \<times> 'a file_state_scheme) res" where
  "filedup i s =
     (if f_ref (ftable s i) < 1 then Panic ''filedup''
      else Ok (i, upd_file i (\<lambda>f. f\<lparr>f_ref := f_ref f + 1\<rparr>) s))"

text \<open>The wake-ups a pipe operation asks for.\<close>

definition pipe_wakeups :: "nat \<Rightarrow> pipe_event list \<Rightarrow> 'a kstate_scheme \<Rightarrow> 'a kstate_scheme" where
  "pipe_wakeups pi ev s =
     fold (\<lambda>e. wakeup (case e of WakeReaders \<Rightarrow> ChPipeR pi | WakeWriters \<Rightarrow> ChPipeW pi)) ev s"

definition close_pipe :: "nat \<Rightarrow> bool \<Rightarrow> 'a file_state_scheme \<Rightarrow> 'a file_state_scheme" where
  "close_pipe pi writable s =
     (case pipeclose writable (pipes s pi) of
        (ev, p, _) \<Rightarrow> pipe_wakeups pi ev (s\<lparr>pipes := (pipes s)(pi := p)\<rparr>))"

definition fileclose :: "nat \<Rightarrow> 'a file_state_scheme \<Rightarrow> 'a file_state_scheme res" where
  "fileclose i s =
     (let f = ftable s i in
      if f_ref f < 1 then Panic ''fileclose''
      else if f_ref f - 1 > 0 then Ok (upd_file i (\<lambda>f. f\<lparr>f_ref := f_ref f - 1\<rparr>) s)
      else
        let s = upd_file i (\<lambda>f. f\<lparr>f_ref := 0, f_type := FD_NONE\<rparr>) s in
        case f_type f of
          FD_PIPE \<Rightarrow> Ok (close_pipe (f_pipe f) (f_writable f) s)
        | FD_INODE \<Rightarrow>
            rbind (begin_op s) (\<lambda>s.
            case f_ip f of
              None \<Rightarrow> Undefined ''iput''
            | Some ip \<Rightarrow> rbind (iput ip s) (\<lambda>s. end_op s))
        | FD_NONE \<Rightarrow> Ok s)"

definition filestat :: "nat \<Rightarrow> 'a file_state_scheme \<Rightarrow> (stat option \<times> 'a file_state_scheme) res" where
  "filestat i s =
     (let f = ftable s i in
      if f_type f = FD_INODE then
        rbind (ilock (f_ip f) s) (\<lambda>s.
        case f_ip f of
          None \<Rightarrow> Undefined ''stati''
        | Some ip \<Rightarrow> let st = stati ip s in rbind (iunlock (f_ip f) s) (\<lambda>s. Ok (Some st, s)))
      else Ok (None, s))"

section \<open>Reading and writing\<close>

definition read_pipe :: "nat \<Rightarrow> int \<Rightarrow> 'a file_state_scheme \<Rightarrow> (int \<times> bytes \<times> 'a file_state_scheme) res" where
  "read_pipe pi n s =
     (case piperead (p_killed (myproc s)) (nat n) (pipes s pi) of
        (Return r, bs, ev, p) \<Rightarrow> Ok (r, bs, pipe_wakeups pi ev (s\<lparr>pipes := (pipes s)(pi := p)\<rparr>))
      | _ \<Rightarrow> Waits)"

definition write_pipe :: "nat \<Rightarrow> bytes \<Rightarrow> 'a file_state_scheme \<Rightarrow> (int \<times> 'a file_state_scheme) res" where
  "write_pipe pi bs s =
     (case pipewrite (p_killed (myproc s)) bs (pipes s pi) of
        (Return r, ev, p) \<Rightarrow> Ok (r, pipe_wakeups pi ev (s\<lparr>pipes := (pipes s)(pi := p)\<rparr>))
      | _ \<Rightarrow> Waits)"

definition fileread :: "nat \<Rightarrow> int \<Rightarrow> 'a file_state_scheme \<Rightarrow> (int \<times> bytes \<times> 'a file_state_scheme) res" where
  "fileread i n s =
     (let f = ftable s i in
      if \<not> f_readable f then Ok (-1, [], s)
      else case f_type f of
        FD_PIPE \<Rightarrow> read_pipe (f_pipe f) n s
      | FD_INODE \<Rightarrow>
          rbind (ilock (f_ip f) s) (\<lambda>s.
          case f_ip f of
            None \<Rightarrow> Undefined ''readi''
          | Some ip \<Rightarrow>
              rbind (readi ip (f_off f) (word_of_int n) s) (\<lambda>(r, bs, s).
              let s = (if r > 0 then upd_file i (\<lambda>f. f\<lparr>f_off := f_off f + word_of_int r\<rparr>) s else s) in
              rbind (iunlock (f_ip f) s) (\<lambda>s. Ok (r, bs, s))))
      | FD_NONE \<Rightarrow> Panic ''fileread'')"

text \<open>
  The loop of \<open>filewrite\<close>: at most \<open>max\<close> bytes in one transaction.  The result is \<open>True\<close> when everything
  was written.
\<close>

abbreviation (input) MAXWRITE :: nat where "MAXWRITE \<equiv> 1536"

function filewrite_loop :: "nat \<Rightarrow> bytes \<Rightarrow> 'a file_state_scheme \<Rightarrow> (bool \<times> 'a file_state_scheme) res" where
  "filewrite_loop i bs s =
     (if bs = [] then Ok (True, s)
      else
        let n1 = min (length bs) MAXWRITE in
        rbind (begin_op s) (\<lambda>s.
        rbind (ilock (f_ip (ftable s i)) s) (\<lambda>s.
        case f_ip (ftable s i) of
          None \<Rightarrow> Undefined ''writei''
        | Some ip \<Rightarrow>
          rbind (writei ip (take n1 bs) (f_off (ftable s i)) (word_of_nat n1) s) (\<lambda>(r, s).
          let s = (if r > 0 then upd_file i (\<lambda>f. f\<lparr>f_off := f_off f + word_of_int r\<rparr>) s else s) in
          rbind (iunlock (f_ip (ftable s i)) s) (\<lambda>s.
          rbind (end_op s) (\<lambda>s.
          if r < 0 then Ok (False, s)
          else if r \<noteq> int n1 then Panic ''short filewrite''
          else filewrite_loop i (drop n1 bs) s))))))"
  by pat_completeness auto
termination
proof (relation "measure (\<lambda>(i, bs, s). length bs)", goal_cases)
  case 2
  then show ?case by simp
qed simp

declare filewrite_loop.simps [simp del]

definition filewrite :: "nat \<Rightarrow> bytes \<Rightarrow> 'a file_state_scheme \<Rightarrow> (int \<times> 'a file_state_scheme) res" where
  "filewrite i bs s =
     (let f = ftable s i in
      if \<not> f_writable f then Ok (-1, s)
      else case f_type f of
        FD_PIPE \<Rightarrow> write_pipe (f_pipe f) bs s
      | FD_INODE \<Rightarrow> rbind (filewrite_loop i bs s) (\<lambda>(ok, s). Ok (if ok then int (length bs) else -1, s))
      | FD_NONE \<Rightarrow> Panic ''filewrite'')"

section \<open>Making a pipe\<close>

text \<open>The argument \<open>page\<close> is the result of \<open>kalloc\<close>.\<close>

definition pipealloc :: "nat option \<Rightarrow> 'a file_state_scheme \<Rightarrow> ((nat \<times> nat) option \<times> 'a file_state_scheme) res" where
  "pipealloc page s =
     (case filealloc s of
        (None, s) \<Rightarrow> Ok (None, s)
      | (Some f0, s) \<Rightarrow>
        (case filealloc s of
           (None, s) \<Rightarrow> rbind (fileclose f0 s) (\<lambda>s. Ok (None, s))
         | (Some f1, s) \<Rightarrow>
           (case page of
              None \<Rightarrow> rbind (fileclose f0 s) (\<lambda>s. rbind (fileclose f1 s) (\<lambda>s. Ok (None, s)))
            | Some p \<Rightarrow>
                let s = s\<lparr>pipes := (pipes s)(p := pipe_new (pipes s p))\<rparr>;
                    s = upd_file f0 (\<lambda>f. f\<lparr>f_type := FD_PIPE, f_readable := True, f_writable := False, f_pipe := p\<rparr>) s;
                    s = upd_file f1 (\<lambda>f. f\<lparr>f_type := FD_PIPE, f_readable := False, f_writable := True, f_pipe := p\<rparr>) s
                in Ok (Some (f0, f1), s))))"

end
