(* ===== verification/Sysfile.thy ===== *)
theory Sysfile imports File begin

text \<open>
  The file-system calls (\<open>sysfile.c\<close> of the first assignment, with its permission bits).  An argument
  that is fetched from user memory is passed in: \<open>None\<close> when \<open>argint\<close>, \<open>argstr\<close> or \<open>argptr\<close> fails,
  else the integer or the bytes.  The permission bits of an inode are the ones that are \<open>denied\<close>: bit 0
  reading, bit 1 writing, bit 2 executing.
\<close>

abbreviation (input) O_WRONLY :: u32 where "O_WRONLY \<equiv> 1"
abbreviation (input) O_RDWR :: u32 where "O_RDWR \<equiv> 2"
abbreviation (input) O_CREATE :: u32 where "O_CREATE \<equiv> 512"

section \<open>File descriptors\<close>

definition argfd :: "int option \<Rightarrow> 'a file_state_scheme \<Rightarrow> (nat \<times> nat) option" where
  "argfd arg s =
     (case arg of
        None \<Rightarrow> None
      | Some fd \<Rightarrow>
        if fd < 0 \<or> fd \<ge> int NOFILE then None
        else (case p_ofile (myproc s) (nat fd) of None \<Rightarrow> None | Some f \<Rightarrow> Some (nat fd, f)))"

definition set_ofile :: "nat \<Rightarrow> nat option \<Rightarrow> 'a file_state_scheme \<Rightarrow> 'a file_state_scheme" where
  "set_ofile fd f s = upd_proc (cur s) (\<lambda>p. p\<lparr>p_ofile := (p_ofile p)(fd := f)\<rparr>) s"

definition fdalloc :: "nat \<Rightarrow> 'a file_state_scheme \<Rightarrow> int \<times> 'a file_state_scheme" where
  "fdalloc f s =
     (case first_index (\<lambda>fd. p_ofile (myproc s) fd = None) NOFILE of
        Some fd \<Rightarrow> (int fd, set_ofile fd (Some f) s)
      | None \<Rightarrow> (-1, s))"

text \<open>\<open>cprintf\<close> of a fixed message.\<close>

definition say :: "string \<Rightarrow> 'a fs_state_scheme \<Rightarrow> 'a fs_state_scheme res" where
  "say msg s =
     rbind (console_puts (map of_char msg) (scr (cons s))) (\<lambda>t. Ok (s\<lparr>cons := (cons s)\<lparr>scr := t\<rparr>\<rparr>))"

definition sys_dup :: "int option \<Rightarrow> 'a file_state_scheme \<Rightarrow> (int \<times> 'a file_state_scheme) res" where
  "sys_dup arg s =
     (case argfd arg s of
        None \<Rightarrow> Ok (-1, s)
      | Some (_, f) \<Rightarrow>
        (case fdalloc f s of (fd, s) \<Rightarrow>
           if fd < 0 then Ok (-1, s) else rbind (filedup f s) (\<lambda>(_, s). Ok (fd, s))))"

text \<open>
  \<open>sys_read\<close> and \<open>sys_write\<close> lock \<open>f->ip\<close> to read the permission bits, whatever the kind of the file.
\<close>

definition sys_read :: "int option \<Rightarrow> int option \<Rightarrow> bool \<Rightarrow> 'a file_state_scheme \<Rightarrow>
    (int \<times> bytes \<times> 'a file_state_scheme) res" where
  "sys_read afd an ptr_ok s =
     (case (argfd afd s, an) of
        (Some (_, f), Some n) \<Rightarrow>
          if \<not> ptr_ok then Ok (-1, [], s)
          else
            rbind (ilock (f_ip (ftable s f)) s) (\<lambda>s.
            case f_ip (ftable s f) of
              None \<Rightarrow> Undefined ''f->ip''
            | Some ip \<Rightarrow>
              if i_perm (inodes s ip) AND 1 \<noteq> 0 then
                rbind (say ''Operation read failed\<newline>'' s) (\<lambda>s.
                rbind (iunlock (f_ip (ftable s f)) s) (\<lambda>s. Ok (-1, [], s)))
              else
                rbind (iunlock (f_ip (ftable s f)) s) (\<lambda>s. fileread f n s))
      | _ \<Rightarrow> Ok (-1, [], s))"

definition sys_write :: "int option \<Rightarrow> bytes option \<Rightarrow> 'a file_state_scheme \<Rightarrow> (int \<times> 'a file_state_scheme) res" where
  "sys_write afd abuf s =
     (case (argfd afd s, abuf) of
        (Some (_, f), Some bs) \<Rightarrow>
          rbind (ilock (f_ip (ftable s f)) s) (\<lambda>s.
          case f_ip (ftable s f) of
            None \<Rightarrow> Undefined ''f->ip''
          | Some ip \<Rightarrow>
            if i_perm (inodes s ip) AND 2 \<noteq> 0 then
              rbind (say ''Operation write failed\<newline>'' s) (\<lambda>s.
              rbind (iunlock (f_ip (ftable s f)) s) (\<lambda>s. Ok (-1, s)))
            else
              rbind (iunlock (f_ip (ftable s f)) s) (\<lambda>s. filewrite f bs s))
      | _ \<Rightarrow> Ok (-1, s))"

definition sys_close :: "int option \<Rightarrow> 'a file_state_scheme \<Rightarrow> (int \<times> 'a file_state_scheme) res" where
  "sys_close arg s =
     (case argfd arg s of
        None \<Rightarrow> Ok (-1, s)
      | Some (fd, f) \<Rightarrow> rbind (fileclose f (set_ofile fd None s)) (\<lambda>s. Ok (0, s)))"

definition sys_fstat :: "int option \<Rightarrow> bool \<Rightarrow> 'a file_state_scheme \<Rightarrow>
    (int \<times> stat option \<times> 'a file_state_scheme) res" where
  "sys_fstat arg ptr_ok s =
     (case argfd arg s of
        None \<Rightarrow> Ok (-1, None, s)
      | Some (_, f) \<Rightarrow>
        if \<not> ptr_ok then Ok (-1, None, s)
        else rbind (filestat f s) (\<lambda>(st, s). Ok (if st = None then -1 else 0, st, s)))"

section \<open>Links\<close>

definition set_nlink :: "nat \<Rightarrow> u16 \<Rightarrow> 'a fs_state_scheme \<Rightarrow> 'a fs_state_scheme" where
  "set_nlink i n s = upd_inode i (\<lambda>ip. ip\<lparr>i_nlink := n\<rparr>) s"

definition link_bad :: "nat \<Rightarrow> 'a fs_state_scheme \<Rightarrow> (int \<times> 'a fs_state_scheme) res" where
  "link_bad ip s =
     rbind (ilock (Some ip) s) (\<lambda>s.
     rbind (iupdate ip (set_nlink ip (i_nlink (inodes s ip) - 1) s)) (\<lambda>s.
     rbind (iunlockput ip s) (\<lambda>s.
     rbind (end_op s) (\<lambda>s. Ok (-1, s)))))"

definition sys_link :: "bytes option \<Rightarrow> bytes option \<Rightarrow> 'a fs_state_scheme \<Rightarrow> (int \<times> 'a fs_state_scheme) res" where
  "sys_link aold anew s =
     (case (aold, anew) of
        (Some old, Some new) \<Rightarrow>
          rbind (begin_op s) (\<lambda>s.
          rbind (namei old s) (\<lambda>(r, s).
          case r of
            None \<Rightarrow> rbind (end_op s) (\<lambda>s. Ok (-1, s))
          | Some ip \<Rightarrow>
            rbind (ilock (Some ip) s) (\<lambda>s.
            if i_type (inodes s ip) = T_DIR then
              rbind (iunlockput ip s) (\<lambda>s. rbind (end_op s) (\<lambda>s. Ok (-1, s)))
            else
              rbind (iupdate ip (set_nlink ip (i_nlink (inodes s ip) + 1) s)) (\<lambda>s.
              rbind (iunlock (Some ip) s) (\<lambda>s.
              rbind (nameiparent new (replicate DIRSIZ 0) s) (\<lambda>(r, name, s).
              case r of
                None \<Rightarrow> link_bad ip s
              | Some dp \<Rightarrow>
                rbind (ilock (Some dp) s) (\<lambda>s.
                rbind (if i_dev (inodes s dp) \<noteq> i_dev (inodes s ip) then Ok (-1, s)
                       else dirlink dp name (i_inum (inodes s ip)) s) (\<lambda>(r, s).
                if r < 0 then rbind (iunlockput dp s) (link_bad ip)
                else
                  rbind (iunlockput dp s) (\<lambda>s.
                  rbind (iput ip s) (\<lambda>s.
                  rbind (end_op s) (\<lambda>s. Ok (0, s))))))))))))
      | _ \<Rightarrow> Ok (-1, s))"

text \<open>\<open>isdirempty\<close> skips the entries \<open>.\<close> and \<open>..\<close>.\<close>

primrec dirempty_scan :: "nat \<Rightarrow> nat list \<Rightarrow> 'a fs_state_scheme \<Rightarrow> (bool \<times> 'a fs_state_scheme) res" where
  "dirempty_scan dp [] s = Ok (True, s)"
| "dirempty_scan dp (off # offs) s =
     rbind (readi dp (word_of_nat off) 16 s) (\<lambda>(r, de, s).
     if r \<noteq> 16 then Panic ''isdirempty: readi''
     else if de_inum de \<noteq> 0 then Ok (False, s)
     else dirempty_scan dp offs s)"

definition isdirempty :: "nat \<Rightarrow> 'a fs_state_scheme \<Rightarrow> (bool \<times> 'a fs_state_scheme) res" where
  "isdirempty dp s = dirempty_scan dp (drop 2 (dir_offsets (i_size (inodes s dp)))) s"

definition unlink_bad :: "nat \<Rightarrow> 'a fs_state_scheme \<Rightarrow> (int \<times> 'a fs_state_scheme) res" where
  "unlink_bad dp s = rbind (iunlockput dp s) (\<lambda>s. rbind (end_op s) (\<lambda>s. Ok (-1, s)))"

definition sys_unlink :: "bytes option \<Rightarrow> 'a fs_state_scheme \<Rightarrow> (int \<times> 'a fs_state_scheme) res" where
  "sys_unlink apath s =
     (case apath of
        None \<Rightarrow> Ok (-1, s)
      | Some path \<Rightarrow>
        rbind (begin_op s) (\<lambda>s.
        rbind (nameiparent path (replicate DIRSIZ 0) s) (\<lambda>(r, name, s).
        case r of
          None \<Rightarrow> rbind (end_op s) (\<lambda>s. Ok (-1, s))
        | Some dp \<Rightarrow>
          rbind (ilock (Some dp) s) (\<lambda>s.
          if namecmp name [46] = 0 \<or> namecmp name [46, 46] = 0 then unlink_bad dp s
          else
            rbind (dirlookup dp name s) (\<lambda>(r, s).
            case r of
              None \<Rightarrow> unlink_bad dp s
            | Some (ip, off) \<Rightarrow>
              rbind (ilock (Some ip) s) (\<lambda>s.
              if sint (i_nlink (inodes s ip)) < 1 then Panic ''unlink: nlink < 1''
              else
                rbind (if i_type (inodes s ip) = T_DIR then isdirempty ip s else Ok (True, s)) (\<lambda>(empty, s).
                if \<not> empty then rbind (iunlockput ip s) (unlink_bad dp)
                else
                  rbind (writei dp (replicate 16 0) off 16 s) (\<lambda>(r, s).
                  if r \<noteq> 16 then Panic ''unlink: writei''
                  else
                    rbind (if i_type (inodes s ip) = T_DIR
                           then iupdate dp (set_nlink dp (i_nlink (inodes s dp) - 1) s) else Ok s) (\<lambda>s.
                    rbind (iunlockput dp s) (\<lambda>s.
                    rbind (iupdate ip (set_nlink ip (i_nlink (inodes s ip) - 1) s)) (\<lambda>s.
                    rbind (iunlockput ip s) (\<lambda>s.
                    rbind (end_op s) (\<lambda>s. Ok (0, s))))))))))))))"

section \<open>Creating and opening\<close>

definition create :: "bytes \<Rightarrow> u16 \<Rightarrow> u16 \<Rightarrow> u16 \<Rightarrow> 'a fs_state_scheme \<Rightarrow> (nat option \<times> 'a fs_state_scheme) res" where
  "create path ty major minor s =
     rbind (nameiparent path (replicate DIRSIZ 0) s) (\<lambda>(r, name, s).
     case r of
       None \<Rightarrow> Ok (None, s)
     | Some dp \<Rightarrow>
       rbind (ilock (Some dp) s) (\<lambda>s.
       rbind (dirlookup dp name s) (\<lambda>(r, s).
       case r of
         Some (ip, _) \<Rightarrow>
           rbind (iunlockput dp s) (\<lambda>s.
           rbind (ilock (Some ip) s) (\<lambda>s.
           if ty = T_FILE \<and> i_type (inodes s ip) = T_FILE then Ok (Some ip, s)
           else rbind (iunlockput ip s) (\<lambda>s. Ok (None, s))))
       | None \<Rightarrow>
           rbind (ialloc (i_dev (inodes s dp)) ty s) (\<lambda>(ip, s).
           rbind (ilock (Some ip) s) (\<lambda>s.
           rbind (iupdate ip (upd_inode ip (\<lambda>n. n\<lparr>i_major := major, i_minor := minor, i_nlink := 1\<rparr>) s)) (\<lambda>s.
           rbind (if ty = T_DIR then
                    rbind (iupdate dp (set_nlink dp (i_nlink (inodes s dp) + 1) s)) (\<lambda>s.
                    rbind (dirlink ip [46] (i_inum (inodes s ip)) s) (\<lambda>(r, s).
                    if r < 0 then Panic ''create dots''
                    else
                      rbind (dirlink ip [46, 46] (i_inum (inodes s dp)) s) (\<lambda>(r, s).
                      if r < 0 then Panic ''create dots'' else Ok s)))
                  else Ok s) (\<lambda>s.
           rbind (dirlink dp name (i_inum (inodes s ip)) s) (\<lambda>(r, s).
           if r < 0 then Panic ''create: dirlink''
           else rbind (iunlockput dp s) (\<lambda>s. Ok (Some ip, s))))))))))"

text \<open>The end of \<open>sys_open\<close>: the file structure and the descriptor for the locked inode \<open>ip\<close>.\<close>

definition open_file :: "nat \<Rightarrow> u32 \<Rightarrow> 'a file_state_scheme \<Rightarrow> (int \<times> 'a file_state_scheme) res" where
  "open_file ip omode s =
     (case filealloc s of
        (None, s) \<Rightarrow> rbind (iunlockput ip s) (\<lambda>s. rbind (end_op s) (\<lambda>s. Ok (-1, s)))
      | (Some f, s) \<Rightarrow>
        (case fdalloc f s of (fd, s) \<Rightarrow>
           if fd < 0 then
             rbind (fileclose f s) (\<lambda>s.
             rbind (iunlockput ip s) (\<lambda>s. rbind (end_op s) (\<lambda>s. Ok (-1, s))))
           else
             rbind (iunlock (Some ip) s) (\<lambda>s.
             rbind (end_op s) (\<lambda>s.
             Ok (fd, upd_file f (\<lambda>f. f\<lparr>f_type := FD_INODE, f_ip := Some ip, f_off := 0,
                  f_readable := (omode AND O_WRONLY = 0),
                  f_writable := (omode AND O_WRONLY \<noteq> 0 \<or> omode AND O_RDWR \<noteq> 0)\<rparr>) s)))))"

definition sys_open :: "bytes option \<Rightarrow> u32 option \<Rightarrow> 'a file_state_scheme \<Rightarrow> (int \<times> 'a file_state_scheme) res" where
  "sys_open apath amode s =
     (case (apath, amode) of
        (Some path, Some omode) \<Rightarrow>
          rbind (begin_op s) (\<lambda>s.
          if omode AND O_CREATE \<noteq> 0 then
            rbind (create path T_FILE 0 0 s) (\<lambda>(r, s).
            case r of
              None \<Rightarrow> rbind (end_op s) (\<lambda>s. Ok (-1, s))
            | Some ip \<Rightarrow> open_file ip omode s)
          else
            rbind (namei path s) (\<lambda>(r, s).
            case r of
              None \<Rightarrow> rbind (end_op s) (\<lambda>s. Ok (-1, s))
            | Some ip \<Rightarrow>
              rbind (ilock (Some ip) s) (\<lambda>s.
              if i_type (inodes s ip) = T_DIR \<and> omode \<noteq> 0 then
                rbind (iunlockput ip s) (\<lambda>s. rbind (end_op s) (\<lambda>s. Ok (-1, s)))
              else open_file ip omode s)))
      | _ \<Rightarrow> Ok (-1, s))"

text \<open>\<open>chmod\<close> stores the complement of the mode: the bits of an inode deny.\<close>

definition sys_chmod :: "bytes option \<Rightarrow> int option \<Rightarrow> 'a fs_state_scheme \<Rightarrow> (int \<times> 'a fs_state_scheme) res" where
  "sys_chmod afile amode s =
     (case (afile, amode) of
        (Some file, Some mode) \<Rightarrow>
          if mode < 0 \<or> mode > 7 then Ok (-1, s)
          else
            rbind (begin_op s) (\<lambda>s.
            rbind (namei file s) (\<lambda>(r, s).
            case r of
              None \<Rightarrow> rbind (end_op s) (\<lambda>s. Ok (-1, s))
            | Some ip \<Rightarrow>
              rbind (ilock (Some ip) s) (\<lambda>s.
              rbind (iupdate ip (upd_inode ip (\<lambda>n. n\<lparr>i_perm := (word_of_int mode XOR 7) AND 7\<rparr>) s)) (\<lambda>s.
              rbind (iunlockput ip s) (\<lambda>s.
              rbind (end_op s) (\<lambda>s. Ok (0, s)))))))
      | _ \<Rightarrow> Ok (-1, s))"

definition sys_mkdir :: "bytes option \<Rightarrow> 'a fs_state_scheme \<Rightarrow> (int \<times> 'a fs_state_scheme) res" where
  "sys_mkdir apath s =
     rbind (begin_op s) (\<lambda>s.
     rbind (case apath of None \<Rightarrow> Ok (None, s) | Some path \<Rightarrow> create path T_DIR 0 0 s) (\<lambda>(r, s).
     case r of
       None \<Rightarrow> rbind (end_op s) (\<lambda>s. Ok (-1, s))
     | Some ip \<Rightarrow> rbind (iunlockput ip s) (\<lambda>s. rbind (end_op s) (\<lambda>s. Ok (0, s)))))"

definition sys_mknod :: "bytes option \<Rightarrow> int option \<Rightarrow> int option \<Rightarrow> 'a fs_state_scheme \<Rightarrow>
    (int \<times> 'a fs_state_scheme) res" where
  "sys_mknod apath amajor aminor s =
     rbind (begin_op s) (\<lambda>s.
     rbind (case (apath, amajor, aminor) of
              (Some path, Some major, Some minor) \<Rightarrow> create path T_DEV (word_of_int major) (word_of_int minor) s
            | _ \<Rightarrow> Ok (None, s)) (\<lambda>(r, s).
     case r of
       None \<Rightarrow> rbind (end_op s) (\<lambda>s. Ok (-1, s))
     | Some ip \<Rightarrow> rbind (iunlockput ip s) (\<lambda>s. rbind (end_op s) (\<lambda>s. Ok (0, s)))))"

definition sys_chdir :: "bytes option \<Rightarrow> 'a fs_state_scheme \<Rightarrow> (int \<times> 'a fs_state_scheme) res" where
  "sys_chdir apath s =
     rbind (begin_op s) (\<lambda>s.
     rbind (case apath of None \<Rightarrow> Ok (None, s) | Some path \<Rightarrow> namei path s) (\<lambda>(r, s).
     case r of
       None \<Rightarrow> rbind (end_op s) (\<lambda>s. Ok (-1, s))
     | Some ip \<Rightarrow>
       rbind (ilock (Some ip) s) (\<lambda>s.
       if i_type (inodes s ip) \<noteq> T_DIR then
         rbind (iunlockput ip s) (\<lambda>s. rbind (end_op s) (\<lambda>s. Ok (-1, s)))
       else
         rbind (iunlock (Some ip) s) (\<lambda>s.
         case p_cwd (myproc s) of
           None \<Rightarrow> Undefined ''iput''
         | Some cwd \<Rightarrow>
           rbind (iput cwd s) (\<lambda>s.
           rbind (end_op s) (\<lambda>s.
           Ok (0, upd_proc (cur s) (\<lambda>p. p\<lparr>p_cwd := Some ip\<rparr>) s)))))))"

text \<open>
  The first half of \<open>sys_exec\<close>: the lookup of the program and the check of its execute bit.  The
  result says whether the call goes on to \<open>exec\<close>.
\<close>

definition sys_exec_check :: "bytes \<Rightarrow> 'a fs_state_scheme \<Rightarrow> (bool \<times> 'a fs_state_scheme) res" where
  "sys_exec_check path s =
     rbind (begin_op s) (\<lambda>s.
     rbind (namei path s) (\<lambda>(r, s).
     case r of
       None \<Rightarrow> rbind (end_op s) (\<lambda>s. Ok (False, s))
     | Some ip \<Rightarrow>
       rbind (ilock (Some ip) s) (\<lambda>s.
       if i_perm (inodes s ip) AND 4 \<noteq> 0 then
         rbind (say ''Operation execute failed\<newline>'' s) (\<lambda>s.
         rbind (iunlockput ip s) (\<lambda>s.
         rbind (end_op s) (\<lambda>s. Ok (False, s))))
       else
         rbind (iunlock (Some ip) s) (\<lambda>s.
         rbind (end_op s) (\<lambda>s. Ok (True, s))))))"

text \<open>\<open>sys_pipe\<close>; the result also holds the two descriptors stored in the caller's array.\<close>

definition sys_pipe :: "bool \<Rightarrow> nat option \<Rightarrow> 'a file_state_scheme \<Rightarrow> (int \<times> (int \<times> int) option \<times> 'a file_state_scheme) res" where
  "sys_pipe ptr_ok page s =
     (if \<not> ptr_ok then Ok (-1, None, s)
      else
        rbind (pipealloc page s) (\<lambda>(r, s).
        case r of
          None \<Rightarrow> Ok (-1, None, s)
        | Some (rfile, wfile) \<Rightarrow>
          (case fdalloc rfile s of (fd0, s) \<Rightarrow>
           if fd0 < 0 then
             rbind (fileclose rfile s) (\<lambda>s. rbind (fileclose wfile s) (\<lambda>s. Ok (-1, None, s)))
           else
             (case fdalloc wfile s of (fd1, s) \<Rightarrow>
              if fd1 < 0 then
                rbind (fileclose rfile (set_ofile (nat fd0) None s)) (\<lambda>s.
                rbind (fileclose wfile s) (\<lambda>s. Ok (-1, None, s)))
              else Ok (0, Some (fd0, fd1), s)))))"

end
