(* ===== verification/Sched.thy ===== *)
theory Sched imports Sysfile begin

text \<open>
  Processes of the second assignment (\<open>proc.c\<close>, the signal part of \<open>trap.c\<close>): allocation, \<open>fork\<close> and
  \<open>custom_fork\<close>, \<open>exit\<close>, \<open>wait\<close>, the priority scheduler with its ageing, the clock tick, and the
  signals sent by control keys.  A page from \<open>kalloc\<close> and a page table from \<open>copyuvm\<close> are arguments;
  freeing them is not part of this state.  The code under \<open>ptable.lock\<close> is one step.
\<close>

abbreviation (input) INIT_PRIORITY :: int where "INIT_PRIORITY \<equiv> 50"

section \<open>State\<close>

text \<open>\<open>cpu_proc\<close> is \<open>c->proc\<close>: the process on the processor, if there is one.\<close>

record sched_state = file_state +
  ticks :: u32
  last_ticks :: u32
  nextpid :: int
  initproc :: nat
  prev_proc :: "nat option"
  cpu_proc :: "nat option"
  yield_on_timer :: int
  ctrlC_pressed :: bool
  ctrlB_pressed :: bool
  ctrlF_pressed :: bool

definition map_procs :: "(proc \<Rightarrow> proc) \<Rightarrow> 'a kstate_scheme \<Rightarrow> 'a kstate_scheme" where
  "map_procs f s = s\<lparr>procs := (\<lambda>i. if i < NPROC then f (procs s i) else procs s i)\<rparr>"

section \<open>Creating processes\<close>

definition allocproc :: "u32 option \<Rightarrow> 'a sched_state_scheme \<Rightarrow> nat option \<times> 'a sched_state_scheme" where
  "allocproc page s =
     (case first_index (\<lambda>i. p_state (procs s i) = UNUSED) NPROC of
        None \<Rightarrow> (None, s)
      | Some i \<Rightarrow>
        let s = upd_proc i (\<lambda>p. p\<lparr>p_state := EMBRYO, p_pid := nextpid s\<rparr>) (s\<lparr>nextpid := nextpid s + 1\<rparr>) in
        (case page of
           None \<Rightarrow> (None, upd_proc i (\<lambda>p. p\<lparr>p_kstack := 0, p_state := UNUSED\<rparr>) s)
         | Some k \<Rightarrow> (Some i, upd_proc i (\<lambda>p. p\<lparr>p_kstack := k\<rparr>) s)))"

definition helper1 :: "u32 \<Rightarrow> proc \<Rightarrow> proc" where
  "helper1 t p = p\<lparr>p_state := RUNNABLE, p_creation_time := sint t, p_context_switches := 0,
     p_first_run_time := -1, p_finish_time := 0, p_rtime := 0, p_initial_priority := INIT_PRIORITY,
     p_cpu_ticks := 0, p_wait_ticks := 0, p_wait_ticks2 := 0\<rparr>"

text \<open>What \<open>fork\<close> and \<open>custom_fork\<close> share: the copy of the parent into the new process \<open>np\<close>, and \<open>spawn\<close>, whose
  argument \<open>fin\<close> is the initialisation of the new process under \<open>ptable.lock\<close>.\<close>

definition copy_files :: "nat \<Rightarrow> nat \<Rightarrow> 'a file_state_scheme \<Rightarrow> 'a file_state_scheme res" where
  "copy_files parent np s =
     rfold (\<lambda>i s.
       case p_ofile (procs s parent) i of
         None \<Rightarrow> Ok s
       | Some f \<Rightarrow>
           rbind (filedup f s) (\<lambda>(f, s).
           Ok (upd_proc np (\<lambda>p. p\<lparr>p_ofile := (p_ofile p)(i := Some f)\<rparr>) s)))
     [0..<NOFILE] s"

definition copy_proc :: "nat \<Rightarrow> nat \<Rightarrow> u32 \<Rightarrow> 'a file_state_scheme \<Rightarrow> 'a file_state_scheme res" where
  "copy_proc parent np pgdir s =
     (let par = procs s parent;
          s = upd_proc np (\<lambda>p. p\<lparr>p_pgdir := pgdir, p_sz := p_sz par, p_parent := Some parent,
                p_tf := (p_tf par)\<lparr>tf_eax := 0\<rparr>\<rparr>) s
      in rbind (copy_files parent np s) (\<lambda>s.
         case p_cwd par of
           None \<Rightarrow> Undefined ''idup''
         | Some cwd \<Rightarrow>
           (case idup cwd s of (cwd, s) \<Rightarrow>
              Ok (upd_proc np (\<lambda>p. p\<lparr>p_cwd := Some cwd, p_name := safestrcpy (p_name p) (p_name par) 16\<rparr>) s))))"

definition spawn :: "(u32 \<Rightarrow> proc \<Rightarrow> proc) \<Rightarrow> u32 option \<Rightarrow> u32 option \<Rightarrow> nat \<Rightarrow> 'a sched_state_scheme \<Rightarrow>
    (int \<times> 'a sched_state_scheme) res" where
  "spawn fin page pgdir parent s =
     (case allocproc page s of
        (None, s) \<Rightarrow> Ok (-1, s)
      | (Some np, s) \<Rightarrow>
        (case pgdir of
           None \<Rightarrow> Ok (-1, upd_proc np (\<lambda>p. p\<lparr>p_pgdir := 0, p_kstack := 0, p_state := UNUSED\<rparr>) s)
         | Some pd \<Rightarrow>
             rbind (copy_proc parent np pd s) (\<lambda>s.
             Ok (p_pid (procs s np), upd_proc np (fin (ticks s)) s))))"

definition fork :: "u32 option \<Rightarrow> u32 option \<Rightarrow> nat \<Rightarrow> 'a sched_state_scheme \<Rightarrow> (int \<times> 'a sched_state_scheme) res" where
  "fork = spawn (\<lambda>t p.
     let p = helper1 t (p\<lparr>p_start_later_flag := 0, p_scheduling_enabled := 0, p_exec_time := -1\<rparr>)
     in p\<lparr>p_last_scheduled := sint t, p_dyn_priority := p_initial_priority p\<rparr>)"

definition helper6 :: "u32 \<Rightarrow> proc \<Rightarrow> proc" where
  "helper6 t p = p\<lparr>p_scheduling_enabled := 1, p_cpu_ticks := 0, p_creation_time := sint t,
     p_context_switches := 0, p_first_run_time := -1, p_finish_time := 0, p_rtime := 0,
     p_initial_priority := INIT_PRIORITY, p_wait_ticks := 0, p_wait_ticks2 := 0, p_last_scheduled := sint t\<rparr>"

definition custom_fork :: "int \<Rightarrow> int \<Rightarrow> u32 option \<Rightarrow> u32 option \<Rightarrow> nat \<Rightarrow> 'a sched_state_scheme \<Rightarrow>
    (int \<times> 'a sched_state_scheme) res" where
  "custom_fork start_later exec_time = spawn (\<lambda>t p.
     let p = helper6 t (p\<lparr>p_exec_time := word_of_int exec_time, p_start_later_flag := start_later,
               p_state := (if start_later \<noteq> 0 then SLEEPING else RUNNABLE)\<rparr>)
     in p\<lparr>p_dyn_priority := p_initial_priority p\<rparr>)"

definition scheduler_start_handler :: "'a kstate_scheme \<Rightarrow> 'a kstate_scheme" where
  "scheduler_start_handler s =
     map_procs (\<lambda>p. if p_start_later_flag p \<noteq> 0 \<and> p_state p = SLEEPING
                    then p\<lparr>p_state := RUNNABLE, p_scheduling_enabled := 0\<rparr> else p) s"

section \<open>The scheduler\<close>

text \<open>
  The build sets \<open>ALPHA\<close> to 1.1 and \<open>BETA\<close> to 1000000.1, which the compiler turns into the nearest
  doubles. Both are kept exactly here, over the common denominator \<open>2 ^ 52\<close>; the assignment to an
  integer cuts towards zero. A value no \<open>int\<close> holds has no defined conversion in C; the i386
  instructions store the smallest \<open>int\<close>. The rounding of the intermediate sum is not modelled.
\<close>

definition ALPHA52 :: int where "ALPHA52 = 4953959590107546"
definition BETA52 :: int where "BETA52 = 4503600077730458632192"

definition prio52 :: "proc \<Rightarrow> int" where
  "prio52 p = 2 ^ 52 * p_initial_priority p - ALPHA52 * p_cpu_ticks p + BETA52 * p_wait_ticks p"

definition double_to_int :: "int \<Rightarrow> int" where
  "double_to_int x =
     (let v = (if x < 0 then - ((- x) div 2 ^ 52) else x div 2 ^ 52)
      in if - (2 ^ 31) \<le> v \<and> v < 2 ^ 31 then v else - (2 ^ 31))"

definition dyn_prio :: "proc \<Rightarrow> int" where
  "dyn_prio p = double_to_int (prio52 p)"

definition helper3 :: "proc \<Rightarrow> proc" where
  "helper3 p = (if p_dyn_priority p < 0 then p\<lparr>p_dyn_priority := 0\<rparr> else p)"

definition refresh_priorities :: "'a kstate_scheme \<Rightarrow> 'a kstate_scheme" where
  "refresh_priorities s =
     map_procs (\<lambda>p. if p_state p = RUNNABLE then helper3 (p\<lparr>p_dyn_priority := dyn_prio p\<rparr>) else p) s"

text \<open>A process the scheduler passes over: not runnable, or waiting for \<open>scheduler_start\<close>.\<close>

definition eligible :: "proc \<Rightarrow> bool" where
  "eligible p \<longleftrightarrow> p_state p = RUNNABLE \<and> \<not> (p_scheduling_enabled p = 1 \<and> p_start_later_flag p = 1)"

definition better :: "proc \<Rightarrow> proc \<Rightarrow> bool" where
  "better p q \<longleftrightarrow> p_dyn_priority p > p_dyn_priority q \<or>
     (p_dyn_priority p = p_dyn_priority q \<and> p_pid p < p_pid q)"

definition consider_proc :: "(nat \<Rightarrow> proc) \<Rightarrow> nat \<Rightarrow> nat option \<Rightarrow> nat option" where
  "consider_proc tab i highest =
     (if \<not> eligible (tab i) then highest
      else case highest of
        None \<Rightarrow> Some i
      | Some h \<Rightarrow> if better (tab i) (tab h) then Some i else highest)"

definition pick :: "(nat \<Rightarrow> proc) \<Rightarrow> nat option" where
  "pick tab = fold (consider_proc tab) [0..<NPROC] None"

definition helper4 :: "nat \<Rightarrow> 'a sched_state_scheme \<Rightarrow> 'a sched_state_scheme" where
  "helper4 i s =
     (upd_proc i (\<lambda>p. p\<lparr>p_wait_ticks := 0, p_last_scheduled := sint (ticks s)\<rparr>) s)\<lparr>cpu_proc := Some i\<rparr>"

text \<open>One round of \<open>scheduler\<close>, up to the switch to the process it picks.\<close>

definition scheduler :: "'a sched_state_scheme \<Rightarrow> 'a sched_state_scheme" where
  "scheduler s =
     (let s = refresh_priorities s in
      case pick (procs s) of
        None \<Rightarrow> s
      | Some i \<Rightarrow>
          upd_proc i (\<lambda>p. let p = p\<lparr>p_state := RUNNING\<rparr> in
              if p_first_run_time p = -1 then p\<lparr>p_first_run_time := sint (ticks s)\<rparr> else p)
            ((helper4 i s)\<lparr>cur := i\<rparr>))"

text \<open>
  \<open>sched\<close> before and after the switch.  It reads \<open>prev_proc->state\<close> without testing \<open>prev_proc\<close>.
\<close>

definition sched_before :: "'a sched_state_scheme \<Rightarrow> 'a sched_state_scheme res" where
  "sched_before s =
     (case cpu_proc s of
        None \<Rightarrow> Undefined ''myproc''
      | Some i \<Rightarrow>
        if p_state (procs s i) = RUNNING then Panic ''sched running''
        else
          (case prev_proc s of
             None \<Rightarrow> Undefined ''prev_proc->state''
           | Some q \<Rightarrow> Ok (if p_state (procs s q) = ZOMBIE then s\<lparr>prev_proc := None\<rparr> else s)))"

definition sched_after :: "nat \<Rightarrow> 'a sched_state_scheme \<Rightarrow> 'a sched_state_scheme" where
  "sched_after me s =
     (let s = (case prev_proc s of
                 None \<Rightarrow> s
               | Some q \<Rightarrow>
                   if p_pid (procs s q) \<noteq> p_pid (procs s me)
                   then upd_proc q (\<lambda>p. p\<lparr>p_context_switches := p_context_switches p + 1\<rparr>) s else s)
      in s\<lparr>prev_proc := Some me\<rparr>)"

definition yield :: "nat \<Rightarrow> 'a sched_state_scheme \<Rightarrow> 'a sched_state_scheme res" where
  "yield me s = sched_before (upd_proc me (\<lambda>p. p\<lparr>p_state := RUNNABLE\<rparr>) s)"

definition sleep :: "nat \<Rightarrow> chan \<Rightarrow> 'a sched_state_scheme \<Rightarrow> 'a sched_state_scheme res" where
  "sleep me ch s = sched_before (upd_proc me (\<lambda>p. p\<lparr>p_chan := Some ch, p_state := SLEEPING\<rparr>) s)"

section \<open>The clock\<close>

text \<open>\<open>i += u\<close> for an \<open>int\<close> and a \<open>uint\<close>: the sum is unsigned and wraps.\<close>

definition add_ticks :: "int \<Rightarrow> u32 \<Rightarrow> int" where
  "add_ticks i u = sint (word_of_int i + u)"

definition helper7 :: "u32 \<Rightarrow> proc \<Rightarrow> proc" where
  "helper7 dt p = p\<lparr>p_wait_ticks := add_ticks (p_wait_ticks p) dt,
     p_wait_ticks2 := add_ticks (p_wait_ticks2 p) dt\<rparr>"

definition update_times :: "'a sched_state_scheme \<Rightarrow> 'a sched_state_scheme" where
  "update_times s =
     (let dt = ticks s - last_ticks s;
          s = map_procs (\<lambda>p. if p_state p = RUNNABLE then (let p = helper7 dt p in p\<lparr>p_dyn_priority := dyn_prio p\<rparr>)
                             else p) s;
          s = (case cpu_proc s of
                 None \<Rightarrow> s
               | Some me \<Rightarrow>
                 if p_state (procs s me) = RUNNING then
                   let s = upd_proc me (\<lambda>p. p\<lparr>p_cpu_ticks := add_ticks (p_cpu_ticks p) dt\<rparr>) s; p = procs s me in
                   if p_pid p > 1 \<and> p_exec_time p \<noteq> -1 \<and> p_exec_time p \<le> word_of_int (p_cpu_ticks p)
                   then upd_proc me (\<lambda>p. p\<lparr>p_killed := True\<rparr>) s else s
                 else s)
      in if ticks s > last_ticks s then s\<lparr>last_ticks := ticks s\<rparr> else s)"

section \<open>exit, wait and kill\<close>

definition close_files :: "nat \<Rightarrow> 'a file_state_scheme \<Rightarrow> 'a file_state_scheme res" where
  "close_files me s =
     rfold (\<lambda>fd s.
       case p_ofile (procs s me) fd of
         None \<Rightarrow> Ok s
       | Some f \<Rightarrow>
           rbind (fileclose f s) (\<lambda>s. Ok (upd_proc me (\<lambda>p. p\<lparr>p_ofile := (p_ofile p)(fd := None)\<rparr>) s)))
     [0..<NOFILE] s"

text \<open>The children of the exiting process get \<open>init\<close> as their parent; a zombie among them wakes it up.\<close>

definition reparent :: "nat \<Rightarrow> nat \<Rightarrow> 'a kstate_scheme \<Rightarrow> 'a kstate_scheme" where
  "reparent me init s =
     fold (\<lambda>i s.
       if p_parent (procs s i) = Some me then
         let s = upd_proc i (\<lambda>p. p\<lparr>p_parent := Some init\<rparr>) s in
         if p_state (procs s i) = ZOMBIE then wakeup (ChProc init) s else s
       else s) [0..<NPROC] s"

definition say_num :: "string \<Rightarrow> int \<Rightarrow> 'a fs_state_scheme \<Rightarrow> 'a fs_state_scheme res" where
  "say_num msg n s =
     rbind (say msg s) (\<lambda>s.
     rbind (printint (word_of_int n) 10 True (scr (cons s))) (\<lambda>t.
     say ''\<newline>'' (s\<lparr>cons := (cons s)\<lparr>scr := t\<rparr>\<rparr>)))"

definition exit_report :: "nat \<Rightarrow> 'a sched_state_scheme \<Rightarrow> 'a sched_state_scheme res" where
  "exit_report me s =
     (let p = procs s me in
      rbind (say_num ''PID: '' (p_pid p) s) (\<lambda>s.
      rbind (say_num ''TAT: '' (p_finish_time p - p_creation_time p) s) (\<lambda>s.
      rbind (say_num ''WT: '' (p_wait_ticks2 p) s) (\<lambda>s.
      rbind (say_num ''RT: '' (if p_first_run_time p = -1 then -1
                               else p_first_run_time p - p_creation_time p) s) (\<lambda>s.
      say_num ''#CS: '' (p_context_switches p) s)))))"

text \<open>The part of \<open>exit\<close> under \<open>ptable.lock\<close>, up to the switch.\<close>

definition exit_locked :: "nat \<Rightarrow> 'a sched_state_scheme \<Rightarrow> 'a sched_state_scheme res" where
  "exit_locked me s =
     (let s = upd_proc me (\<lambda>p. p\<lparr>p_finish_time := sint (ticks s)\<rparr>) s;
          s = (case p_parent (procs s me) of None \<Rightarrow> s | Some par \<Rightarrow> wakeup (ChProc par) s);
          s = reparent me (initproc s) s
      in rbind (exit_report me s) (\<lambda>s.
         sched_before (upd_proc me (\<lambda>p. p\<lparr>p_state := ZOMBIE\<rparr>) s)))"

definition exit :: "nat \<Rightarrow> 'a sched_state_scheme \<Rightarrow> 'a sched_state_scheme res" where
  "exit me s =
     (if me = initproc s then Panic ''init exiting''
      else
        rbind (close_files me s) (\<lambda>s.
        rbind (begin_op s) (\<lambda>s.
        case p_cwd (procs s me) of
          None \<Rightarrow> Undefined ''iput''
        | Some cwd \<Rightarrow>
          rbind (iput cwd s) (\<lambda>s.
          rbind (end_op s) (\<lambda>s.
          exit_locked me (upd_proc me (\<lambda>p. p\<lparr>p_cwd := None\<rparr>) s))))))"

text \<open>\<open>wait\<close>: a suspended child does not count as a child to wait for.\<close>

definition wait :: "nat \<Rightarrow> 'a kstate_scheme \<Rightarrow> (int \<times> 'a kstate_scheme) res" where
  "wait me s =
     (case first_index (\<lambda>i. p_parent (procs s i) = Some me \<and> p_state (procs s i) = ZOMBIE) NPROC of
        Some i \<Rightarrow>
          Ok (p_pid (procs s i),
            upd_proc i (\<lambda>p. p\<lparr>p_kstack := 0, p_pid := 0, p_parent := None, p_name := (p_name p)[0 := 0],
                              p_killed := False, p_state := UNUSED\<rparr>) s)
      | None \<Rightarrow>
          if first_index (\<lambda>i. p_parent (procs s i) = Some me \<and> p_state (procs s i) \<noteq> SUSPENDED) NPROC = None
             \<or> p_killed (procs s me)
          then Ok (-1, s) else Waits)"

definition kill :: "int \<Rightarrow> 'a kstate_scheme \<Rightarrow> int \<times> 'a kstate_scheme" where
  "kill pid s =
     (case first_index (\<lambda>i. p_pid (procs s i) = pid) NPROC of
        Some i \<Rightarrow>
          (0, upd_proc i (\<lambda>p. p\<lparr>p_killed := True,
                p_state := (if p_state p = SLEEPING then RUNNABLE else p_state p)\<rparr>) s)
      | None \<Rightarrow> (-1, s))"

section \<open>Signals from control keys\<close>

definition kill_user_procs :: "'a sched_state_scheme \<Rightarrow> 'a sched_state_scheme" where
  "kill_user_procs s =
     fold (\<lambda>i s.
       let s = (if p_pid (procs s i) > 2 \<and> p_state (procs s i) \<noteq> UNUSED then
                  let s = upd_proc i (\<lambda>p. if p_state p = SUSPENDED then p\<lparr>p_state := RUNNABLE\<rparr> else p) s in
                  if p_state (procs s i) \<noteq> ZOMBIE then snd (kill (p_pid (procs s i)) s) else s
                else s)
       in s\<lparr>ctrlC_pressed := False\<rparr>) [0..<NPROC] s"

definition suspend_user_procs :: "'a sched_state_scheme \<Rightarrow> 'a sched_state_scheme" where
  "suspend_user_procs s =
     (let s = fold (\<lambda>i s.
            if p_pid (procs s i) \<noteq> 2 \<and> p_pid (procs s i) \<noteq> 1 \<and> p_pid (procs s i) \<noteq> 0
            then upd_proc i (\<lambda>p. p\<lparr>p_state := SUSPENDED\<rparr>) s
            else if p_state (procs s i) = SUSPENDED then s\<lparr>ctrlB_pressed := False\<rparr> else s) [0..<NPROC] s
      in map_procs (\<lambda>p. if p_pid p = 2 \<and> p_state p = SLEEPING then p\<lparr>p_state := RUNNABLE\<rparr> else p) s)"

definition resume_user_procs :: "'a sched_state_scheme \<Rightarrow> 'a sched_state_scheme" where
  "resume_user_procs s =
     (map_procs (\<lambda>p. if p_state p = SUSPENDED then p\<lparr>p_state := RUNNABLE\<rparr> else p) s)\<lparr>ctrlF_pressed := False\<rparr>"

definition yield2 :: "nat \<Rightarrow> 'a sched_state_scheme \<Rightarrow> 'a sched_state_scheme res" where
  "yield2 me s =
     (let s = suspend_user_procs s in
      sched_before (upd_proc me (\<lambda>p. if p_state p \<noteq> SUSPENDED then p\<lparr>p_state := RUNNABLE\<rparr> else p) s))"

text \<open>
  A pending custom signal: the trap frame is saved and execution redirected to the handler; \<open>page\<close> is
  the page that \<open>kalloc\<close> gives for the copy when there is none yet (\<open>False\<close>: there is no memory).
\<close>

definition handle_pending_custom_signal :: "bool \<Rightarrow> trapframe \<Rightarrow> 'a sched_state_scheme \<Rightarrow>
    (trapframe \<times> 'a sched_state_scheme) res" where
  "handle_pending_custom_signal page tf s =
     (case cpu_proc s of
        None \<Rightarrow> Ok (tf, s)
      | Some me \<Rightarrow>
        let p = procs s me in
        if p_pending_custom p \<and> p_custom_handler p \<noteq> 0 then
          (if p_tf1 p = None \<and> \<not> page then Undefined ''memmove to p->tf1''
           else Ok (tf\<lparr>tf_eip := p_custom_handler p\<rparr>,
             upd_proc me (\<lambda>p. p\<lparr>p_pending_custom := False, p_tf1 := Some tf, p_prev_eip := tf_eip tf\<rparr>) s))
        else Ok (tf, s))"

text \<open>
  The handler returns to an invalid address; the page fault (or trap 13) that follows restores the
  registers from the copy.  Without a copy the code would copy from a null pointer.
\<close>

definition trap_restore :: "nat \<Rightarrow> 'a sched_state_scheme \<Rightarrow> trapframe res" where
  "trap_restore me s =
     (case p_tf1 (procs s me) of None \<Rightarrow> Undefined ''memmove from p->tf1'' | Some tf \<Rightarrow> Ok tf)"

section \<open>The choice of the scheduler\<close>

text \<open>\<open>better\<close> orders processes by priority and then by \<open>pid\<close>; the scan keeps the best one so far.\<close>

lemma better_trans: "better p q \<Longrightarrow> better q r \<Longrightarrow> better p r"
  by (auto simp: better_def)

lemma better_irrefl [simp]: "\<not> better p p"
  by (simp add: better_def)

lemma not_better_trans: "\<not> better q p \<Longrightarrow> \<not> better r q \<Longrightarrow> \<not> better r p"
  by (auto simp: better_def)

definition best_of :: "(nat \<Rightarrow> proc) \<Rightarrow> nat set \<Rightarrow> nat option \<Rightarrow> bool" where
  "best_of tab A r \<longleftrightarrow> (case r of
     None \<Rightarrow> \<forall>j\<in>A. \<not> eligible (tab j)
   | Some i \<Rightarrow> i \<in> A \<and> eligible (tab i) \<and> (\<forall>j\<in>A. eligible (tab j) \<longrightarrow> \<not> better (tab j) (tab i)))"

lemma best_of_consider:
  assumes "best_of tab A r"
  shows "best_of tab (insert i A) (consider_proc tab i r)"
proof (cases r)
  case None
  with assms show ?thesis by (auto simp: best_of_def consider_proc_def)
next
  case (Some h)
  then have h: "h \<in> A" "eligible (tab h)" and
    max: "\<And>j. j \<in> A \<Longrightarrow> eligible (tab j) \<Longrightarrow> \<not> better (tab j) (tab h)" using assms by (auto simp: best_of_def)
  show ?thesis
  proof (cases "eligible (tab i) \<and> better (tab i) (tab h)")
    case True
    then have "\<not> better (tab j) (tab i)" if "j \<in> A" "eligible (tab j)" for j
      using max [OF that] by (blast intro: better_trans)
    with True Some show ?thesis by (auto simp: best_of_def consider_proc_def)
  next
    case False
    with Some h max show ?thesis by (auto simp: best_of_def consider_proc_def)
  qed
qed

lemma pick_best: "best_of tab {..<NPROC} (pick tab)"
proof -
  have "best_of tab {..<k} (fold (consider_proc tab) [0..<k] None)" for k
  proof (induction k)
    case 0
    show ?case by (simp add: best_of_def)
  next
    case (Suc k)
    from best_of_consider [OF this, of k] show ?case by (simp add: lessThan_Suc)
  qed
  then show ?thesis by (simp add: pick_def)
qed

lemma pick_cases:
  obtains (idle) "pick tab = None" "\<And>j. j < NPROC \<Longrightarrow> \<not> eligible (tab j)"
  | (run) i where "pick tab = Some i" "i < NPROC" "eligible (tab i)"
      "\<And>j. j < NPROC \<Longrightarrow> eligible (tab j) \<Longrightarrow> \<not> better (tab j) (tab i)"
  using pick_best [of tab] by (cases "pick tab") (auto simp: best_of_def)

lemma map_procs_sel [simp]:
  "procs (map_procs f s) i = (if i < NPROC then f (procs s i) else procs s i)"
  by (simp add: map_procs_def)

lemma upd_proc_sel [simp]: "procs (upd_proc i f s) = (procs s)(i := f (procs s i))"
  by (simp add: upd_proc_def)

lemma sched_sel_map [simp]:
  "ticks (map_procs f s) = ticks s" "last_ticks (map_procs f s) = last_ticks s"
  "nextpid (map_procs f s) = nextpid s" "cpu_proc (map_procs f s) = cpu_proc s"
  "prev_proc (map_procs f s) = prev_proc s" "initproc (map_procs f s) = initproc s"
  by (simp_all add: map_procs_def)

lemma sched_sel_upd [simp]:
  "ticks (upd_proc i f s) = ticks s" "last_ticks (upd_proc i f s) = last_ticks s"
  "nextpid (upd_proc i f s) = nextpid s" "cpu_proc (upd_proc i f s) = cpu_proc s"
  "prev_proc (upd_proc i f s) = prev_proc s" "initproc (upd_proc i f s) = initproc s"
  by (simp_all add: upd_proc_def)

text \<open>
  Ageing: the weight of waiting is so large that a process that has waited longer is chosen first,
  whatever processor time it has used, up to 900000 ticks.
\<close>

lemma div_less_by:
  fixes x y d :: int
  assumes "y + d \<le> x" "0 < d"
  shows "y div d < x div d"
proof -
  have "y div d + 1 = (y + d) div d" using assms(2) by (simp add: div_add_self2)
  also have "\<dots> \<le> x div d" using assms by (intro zdiv_mono1) auto
  finally show ?thesis by simp
qed

lemma longer_wait_prio52:
  assumes "p_wait_ticks q < p_wait_ticks p" and "0 \<le> p_wait_ticks q"
    and "p_initial_priority p = INIT_PRIORITY" "p_initial_priority q = INIT_PRIORITY"
    and "0 \<le> p_cpu_ticks q" "0 \<le> p_cpu_ticks p" "p_cpu_ticks p \<le> 900000" "p_cpu_ticks q \<le> 900000"
    and "p_wait_ticks p \<le> 2147"
  shows "prio52 q + 2 ^ 52 \<le> prio52 p" "2 ^ 52 \<le> prio52 p" "prio52 p < 2 ^ 83" "- (2 ^ 83) < prio52 q"
  using assms by (simp_all add: prio52_def ALPHA52_def BETA52_def)

lemma double_to_int_pos: "0 \<le> x \<Longrightarrow> x < 2 ^ 83 \<Longrightarrow> double_to_int x = x div 2 ^ 52"
proof -
  assume x: "0 \<le> x" "x < 2 ^ 83"
  have "x div 2 ^ 52 \<le> (2 ^ 83 - 1) div 2 ^ 52" by (rule zdiv_mono1) (use x in simp_all)
  moreover have "0 \<le> x div 2 ^ 52" using x by (simp add: pos_imp_zdiv_nonneg_iff)
  ultimately show ?thesis using x(1) by (simp add: double_to_int_def Let_def)
qed

lemma double_to_int_neg: "x < 0 \<Longrightarrow> double_to_int x \<le> 0"
  by (simp add: double_to_int_def Let_def pos_imp_zdiv_nonneg_iff)

lemma double_to_int_range: "- (2 ^ 31) \<le> double_to_int x" "double_to_int x < 2 ^ 31"
  by (simp_all add: double_to_int_def Let_def)

lemma longer_wait_higher:
  assumes "p_wait_ticks q < p_wait_ticks p" and "0 \<le> p_wait_ticks q"
    and "p_initial_priority p = INIT_PRIORITY" "p_initial_priority q = INIT_PRIORITY"
    and "0 \<le> p_cpu_ticks q" "0 \<le> p_cpu_ticks p" "p_cpu_ticks p \<le> 900000" "p_cpu_ticks q \<le> 900000"
    and "p_wait_ticks p \<le> 2147"
  shows "dyn_prio q < dyn_prio p" "0 < dyn_prio p"
proof -
  note x = longer_wait_prio52 [OF assms]
  have p: "dyn_prio p = prio52 p div 2 ^ 52" using x(2,3) by (simp add: dyn_prio_def double_to_int_pos)
  have 1: "0 < prio52 p div 2 ^ 52" using x(2) by (simp add: pos_imp_zdiv_pos_iff)
  show "0 < dyn_prio p" using p 1 by linarith
  show "dyn_prio q < dyn_prio p"
  proof (cases "prio52 q < 0")
    case True
    from double_to_int_neg [OF True] p 1 show ?thesis by (simp add: dyn_prio_def)
  next
    case False
    then have "dyn_prio q = prio52 q div 2 ^ 52"
      using x(1,3) by (simp add: dyn_prio_def double_to_int_pos)
    with p div_less_by [OF x(1)] show ?thesis by simp
  qed
qed

text \<open>From 2148 ticks on the priority overflows.\<close>

lemma long_wait_overflow:
  assumes "2148 \<le> p_wait_ticks p" "p_initial_priority p = INIT_PRIORITY"
    and "0 \<le> p_cpu_ticks p" "p_cpu_ticks p \<le> 400000"
  shows "dyn_prio p = - (2 ^ 31)"
proof -
  have a: "prio52 p \<ge> 2 ^ 83"
    using assms by (simp add: prio52_def ALPHA52_def BETA52_def)
  have "(2::int) ^ 83 div 2 ^ 52 \<le> prio52 p div 2 ^ 52" by (rule zdiv_mono1 [OF a]) simp
  with a show ?thesis by (simp add: dyn_prio_def double_to_int_def Let_def)
qed

end
