(* ===== verification/Frames.thy ===== *)
theory Frames imports Sysfile begin

text \<open>
  What the file system leaves alone.  The locale \<open>frame_relation\<close> is a reflexive and transitive relation
  between the state before and after a run that returns, with the rules that carry it through the
  sequencing of operations; \<open>kernel_frame\<close> adds that the relation ignores the file system's own parts of
  the state and holds across a wake-up.  Every operation of the buffer cache, the log, the inodes, the
  directories, the open files and the pipes keeps every such relation.  Two of them follow: the file
  system wakes up sleeping processes and changes nothing else of the process table, and it does not touch
  what extends its state.
\<close>

section \<open>Relations between the states before and after a run\<close>

text \<open>\<open>keeps R s g m\<close>: if \<open>m\<close> returns, \<open>R\<close> relates \<open>s\<close> to the state that \<open>g\<close> reads off the result.\<close>

definition keeps :: "('s \<Rightarrow> 's \<Rightarrow> bool) \<Rightarrow> 's \<Rightarrow> ('x \<Rightarrow> 's) \<Rightarrow> 'x res \<Rightarrow> bool" where
  "keeps R s g m \<longleftrightarrow> (\<forall>y. m = Ok y \<longrightarrow> R s (g y))"

lemma keeps_Ok [simp]: "keeps R s g (Ok y) \<longleftrightarrow> R s (g y)"
  by (simp add: keeps_def)

lemma keeps_other [simp]:
  "keeps R s g (Panic e)" "keeps R s g Waits" "keeps R s g (Undefined e)"
  by (simp_all add: keeps_def)

lemma keeps_bind:
  "keeps R s h m \<Longrightarrow> (\<And>x. m = Ok x \<Longrightarrow> R s (h x) \<Longrightarrow> keeps R s g (f x)) \<Longrightarrow> keeps R s g (rbind m f)"
  by (auto simp: keeps_def)

text \<open>The types tell the three forms of result apart: the state alone, or behind one or two values.\<close>

lemma keeps_bind1:
  "keeps R s (\<lambda>t. t) m \<Longrightarrow> (\<And>t. m = Ok t \<Longrightarrow> R s t \<Longrightarrow> keeps R s g (f t)) \<Longrightarrow> keeps R s g (rbind m f)"
  by (rule keeps_bind)

lemma keeps_bind2:
  "keeps R s snd m \<Longrightarrow> (\<And>x t. m = Ok (x, t) \<Longrightarrow> R s t \<Longrightarrow> keeps R s g (f (x, t))) \<Longrightarrow>
   keeps R s g (rbind m f)"
  by (rule keeps_bind [where h = snd]) auto

lemma keeps_bind3:
  "keeps R s (\<lambda>x. snd (snd x)) m \<Longrightarrow>
   (\<And>x y t. m = Ok (x, y, t) \<Longrightarrow> R s t \<Longrightarrow> keeps R s g (f (x, y, t))) \<Longrightarrow> keeps R s g (rbind m f)"
  by (rule keeps_bind [where h = "\<lambda>x. snd (snd x)"]) auto

lemma keeps_acquire:
  "(\<And>l'. keeps R s g (f l')) \<Longrightarrow> keeps R s g (rbind (acquiresleep pid l) f)"
  by (auto simp: keeps_def)

lemma keeps_console:
  "(\<And>x. keeps R s g (f x)) \<Longrightarrow> keeps R s g (rbind (m :: screen res) f)"
  "(\<And>x. keeps R s g (h x)) \<Longrightarrow> keeps R s g (rbind (n :: (bytes option \<times> console) res) h)"
  by (auto simp: keeps_def)

lemmas keeps_binds = keeps_acquire keeps_bind1 keeps_bind2 keeps_bind3

lemma keepsD: "keeps R s g m \<Longrightarrow> m = Ok y \<Longrightarrow> R s (g y)"
  by (simp add: keeps_def)

lemma keeps_if: "(b \<Longrightarrow> keeps R s g m) \<Longrightarrow> (\<not> b \<Longrightarrow> keeps R s g n) \<Longrightarrow> keeps R s g (if b then m else n)"
  by simp

locale frame_relation =
  fixes R :: "'s \<Rightarrow> 's \<Rightarrow> bool"
  assumes refl [simp]: "R s s"
    and trans: "R s t \<Longrightarrow> R t u \<Longrightarrow> R s u"
begin

lemma lift: "R s t \<Longrightarrow> keeps R t g m \<Longrightarrow> keeps R s g m"
  by (auto simp: keeps_def intro: trans)

lemma loop:
  assumes "\<And>x t. x \<in> set xs \<Longrightarrow> keeps R t (\<lambda>t. t) (f x t)"
  shows "keeps R s (\<lambda>t. t) (rfold f xs s)"
  using assms
proof (induction xs arbitrary: s)
  case (Cons x xs)
  have "keeps R s (\<lambda>t. t) (f x s)" using Cons.prems by simp
  moreover have "keeps R t (\<lambda>t. t) (rfold f xs t)" for t using Cons by simp
  ultimately show ?case by (auto intro!: keeps_bind [where h = "\<lambda>t. t"] elim: lift)
qed simp

lemma fold_steps:
  assumes "\<And>x t. x \<in> set xs \<Longrightarrow> R t (f x t)"
  shows "R s (fold f xs s)"
  using assms by (induction xs arbitrary: s) (auto intro: trans)

end

section \<open>Relations that ignore the file system's state\<close>

locale kernel_frame = frame_relation R
  for R :: "'a file_state_scheme \<Rightarrow> 'a file_state_scheme \<Rightarrow> bool" +
  assumes bio_upd [simp, intro!]:
    "R s t \<Longrightarrow> R s (t\<lparr>memdisk := d1\<rparr>)" "R s t \<Longrightarrow> R s (t\<lparr>disk_trace := d2\<rparr>)" "R s t \<Longrightarrow> R s (t\<lparr>bufs := d3\<rparr>)"
    "R s t \<Longrightarrow> R s (t\<lparr>bnext := d4\<rparr>)" "R s t \<Longrightarrow> R s (t\<lparr>bprev := d5\<rparr>)"
  and log_upd [simp, intro!]:
    "R s t \<Longrightarrow> R s (t\<lparr>log_outstanding := e1\<rparr>)" "R s t \<Longrightarrow> R s (t\<lparr>log_committing := e2\<rparr>)"
    "R s t \<Longrightarrow> R s (t\<lparr>lh_n := e3\<rparr>)" "R s t \<Longrightarrow> R s (t\<lparr>lh_block := e4\<rparr>)"
  and file_upd [simp, intro!]:
    "R s t \<Longrightarrow> R s (t\<lparr>inodes := g1\<rparr>)" "R s t \<Longrightarrow> R s (t\<lparr>cons := g2\<rparr>)"
    "R s t \<Longrightarrow> R s (t\<lparr>ftable := g3\<rparr>)" "R s t \<Longrightarrow> R s (t\<lparr>pipes := g4\<rparr>)"
  and wakeup_step: "R t (wakeup ch t)"
begin

lemma setters [simp, intro!]:
  "R s t \<Longrightarrow> R s (upd_buf i bf t)" "R s t \<Longrightarrow> R s (set_data i d t)" "R s t \<Longrightarrow> R s (set_dirty i t)"
  "R s t \<Longrightarrow> R s (upd_inode i nf t)" "R s t \<Longrightarrow> R s (upd_file i ff t)" "R s t \<Longrightarrow> R s (set_nlink i n t)"
  by (simp_all add: upd_buf_def set_data_def set_dirty_def upd_inode_def upd_file_def set_nlink_def)

lemma wakeup_R [simp, intro!]: "R s t \<Longrightarrow> R s (wakeup ch t)"
  by (rule trans [OF _ wakeup_step])

lemma iderw_wk [wk]: "R s t \<Longrightarrow> keeps R s (\<lambda>t. t) (iderw i t)"
  by (auto simp: iderw_def Let_def keeps_def split: if_splits)

lemma lock_buf_wk [wk]: "R s t \<Longrightarrow> keeps R s (\<lambda>t. t) (lock_buf i t)"
  by (auto simp: lock_buf_def keeps_def)

lemma bget_wk [wk]: "R s t \<Longrightarrow> keeps R s snd (bget dev b t)"
  by (auto simp: bget_def intro!: keeps_binds wk split: option.splits)

lemma bread_wk [wk]: "R s t \<Longrightarrow> keeps R s snd (bread dev b t)"
  by (auto simp: bread_def intro!: keeps_binds wk split: prod.splits)

lemma bwrite_wk [wk]: "R s t \<Longrightarrow> keeps R s (\<lambda>t. t) (bwrite i t)"
  by (auto simp: bwrite_def intro!: wk)

lemma brelse_wk [wk]: "R s t \<Longrightarrow> keeps R s (\<lambda>t. t) (brelse i t)"
  by (auto simp: brelse_def Let_def split: prod.splits)

lemma log_write_wk [wk]: "R s t \<Longrightarrow> keeps R s (\<lambda>t. t) (log_write i t)"
  by (auto simp: log_write_def Let_def)

lemma begin_op_wk [wk]: "R s t \<Longrightarrow> keeps R s (\<lambda>t. t) (begin_op t)"
  by (auto simp: begin_op_def)

lemma copy_loop_wk:
  assumes "\<And>x t. keeps R t (\<lambda>t. t) (f x t)" and "R s t"
  shows "keeps R s (\<lambda>t. t) (rfold f xs t)"
  by (rule lift [OF assms(2)], rule loop, rule assms(1))

lemma write_log_wk [wk]: "R s t \<Longrightarrow> keeps R s (\<lambda>t. t) (write_log t)"
  unfolding write_log_def
  by (rule copy_loop_wk) (auto intro!: keeps_binds wk split: prod.splits)

lemma install_trans_wk [wk]: "R s t \<Longrightarrow> keeps R s (\<lambda>t. t) (install_trans t)"
  unfolding install_trans_def
  by (rule copy_loop_wk) (auto intro!: keeps_binds wk split: prod.splits)

lemma write_head_wk [wk]: "R s t \<Longrightarrow> keeps R s (\<lambda>t. t) (write_head t)"
  by (auto simp: write_head_def Let_def intro!: keeps_binds wk split: prod.splits)

lemma commit_wk [wk]: "R s t \<Longrightarrow> keeps R s (\<lambda>t. t) (commit t)"
  by (auto simp: commit_def intro!: keeps_binds wk)

lemma end_op_wk [wk]: "R s t \<Longrightarrow> keeps R s (\<lambda>t. t) (end_op t)"
  by (auto simp: end_op_def Let_def intro!: keeps_binds wk)

text \<open>Inodes.\<close>

lemma bzero_wk [wk]: "R s t \<Longrightarrow> keeps R s (\<lambda>t. t) (bzero dev b t)"
  by (auto simp: bzero_def intro!: keeps_binds wk split: prod.splits)

lemma balloc_scan_wk [wk]: "R s t \<Longrightarrow> keeps R s snd (balloc_scan dev bs t)"
  by (induction bs arbitrary: t) (auto intro!: keeps_binds wk split: prod.splits option.splits)

lemma balloc_wk [wk]: "R s t \<Longrightarrow> keeps R s snd (balloc dev t)"
  by (auto simp: balloc_def intro!: wk)

lemma bfree_wk [wk]: "R s t \<Longrightarrow> keeps R s (\<lambda>t. t) (bfree dev b t)"
  by (auto simp: bfree_def Let_def intro!: keeps_binds wk split: prod.splits)

lemma iget_wk [wk]: "R s t \<Longrightarrow> keeps R s snd (iget dev i t)"
  by (auto simp: iget_def split: option.splits)

lemma ialloc_scan_wk [wk]: "R s t \<Longrightarrow> keeps R s snd (ialloc_scan dev ty ns t)"
  by (induction ns arbitrary: t) (auto simp: Let_def intro!: keeps_binds wk split: prod.splits)

lemma ialloc_wk [wk]: "R s t \<Longrightarrow> keeps R s snd (ialloc dev ty t)"
  by (auto simp: ialloc_def intro!: wk)

lemma iupdate_wk [wk]: "R s t \<Longrightarrow> keeps R s (\<lambda>t. t) (iupdate i t)"
  by (auto simp: iupdate_def Let_def intro!: keeps_binds wk split: prod.splits)

lemma idup_wk: "R s t \<Longrightarrow> R s (snd (idup i t))"
  by (simp add: idup_def)

lemma ilock_wk [wk]: "R s t \<Longrightarrow> keeps R s (\<lambda>t. t) (ilock p t)"
  by (auto simp: ilock_def Let_def intro!: keeps_binds wk split: prod.splits option.splits)

lemma iunlock_wk [wk]: "R s t \<Longrightarrow> keeps R s (\<lambda>t. t) (iunlock p t)"
  by (auto simp: iunlock_def split: option.splits)

lemma bmap_wk [wk]: "R s t \<Longrightarrow> keeps R s snd (bmap i bn t)"
  by (auto simp: bmap_def Let_def intro!: keeps_binds wk
      split: prod.splits)

lemma itrunc_wk [wk]: "R s t \<Longrightarrow> keeps R s (\<lambda>t. t) (itrunc i t)"
  unfolding itrunc_def Let_def
  by (auto intro!: keeps_binds copy_loop_wk wk split: prod.splits)

lemma iput_wk [wk]: "R s t \<Longrightarrow> keeps R s (\<lambda>t. t) (iput i t)"
  by (auto simp: iput_def Let_def intro!: keeps_binds wk)

lemma iunlockput_wk [wk]: "R s t \<Longrightarrow> keeps R s (\<lambda>t. t) (iunlockput i t)"
  by (auto simp: iunlockput_def intro!: keeps_binds wk)

text \<open>Contents, directories and paths.\<close>

lemma consoleread_wk [wk]: "R s t \<Longrightarrow> keeps R s (\<lambda>x. snd (snd x)) (consoleread i n t)"
  by (auto simp: consoleread_def intro!: keeps_binds keeps_console wk split: option.splits)

lemma consolewrite_wk [wk]: "R s t \<Longrightarrow> keeps R s snd (consolewrite i bs t)"
  by (auto simp: consolewrite_def intro!: keeps_binds keeps_console wk)

lemma readi_loop_wk [wk]: "R s t \<Longrightarrow> keeps R s snd (readi_loop i off n acc t)"
proof (induction i off n acc t rule: readi_loop.induct)
  case (1 ip off n acc t)
  show ?case
    by (subst readi_loop.simps) (auto simp: Let_def intro!: keeps_binds wk 1)
qed

lemma writei_loop_wk [wk]: "R s t \<Longrightarrow> keeps R s snd (writei_loop i off bs t)"
proof (induction i off bs t rule: writei_loop.induct)
  case (1 ip off src t)
  show ?case
    by (subst writei_loop.simps) (auto simp: Let_def intro!: keeps_binds wk 1)
qed

lemma readi_wk [wk]: "R s t \<Longrightarrow> keeps R s (\<lambda>x. snd (snd x)) (readi i off n t)"
  by (auto simp: readi_def Let_def intro!: keeps_binds wk)

lemma writei_wk [wk]: "R s t \<Longrightarrow> keeps R s snd (writei i src off n t)"
  by (auto simp: writei_def Let_def intro!: keeps_binds wk)

lemma dirlookup_scan_wk [wk]: "R s t \<Longrightarrow> keeps R s snd (dirlookup_scan dp name offs t)"
  by (induction offs arbitrary: t) (auto intro!: keeps_binds wk)

lemma dirlookup_wk [wk]: "R s t \<Longrightarrow> keeps R s snd (dirlookup dp name t)"
  by (auto simp: dirlookup_def intro!: wk)

lemma dirlink_scan_wk [wk]: "R s t \<Longrightarrow> keeps R s (\<lambda>x. snd (snd x)) (dirlink_scan dp offs de fin t)"
  by (induction offs arbitrary: t de) (auto intro!: keeps_binds wk)

lemma dirlink_wk [wk]: "R s t \<Longrightarrow> keeps R s snd (dirlink dp name inum t)"
  by (auto simp: dirlink_def Let_def intro!: keeps_binds wk split: option.splits)

lemma namex_loop_wk [wk]: "R s t \<Longrightarrow> keeps R s (\<lambda>x. snd (snd x)) (namex_loop ip path par name t)"
proof (induction path arbitrary: ip name t rule: length_induct)
  case (1 path ip name t)
  show ?case
  proof (cases "skipelem path name")
    case None
    with 1 show ?thesis by (subst namex_loop.simps) (auto intro!: keeps_binds wk)
  next
    case (Some r)
    obtain path' name' where r: "r = (path', name')" by (cases r)
    have "keeps R s (\<lambda>x. snd (snd x)) (namex_loop i path' par name' u)" if "R s u" for i u
      using 1(1) that skipelem_shorter [OF Some [unfolded r]] by blast
    with 1(2) Some r show ?thesis
      by (subst namex_loop.simps) (auto split: option.splits intro!: keeps_binds wk)
  qed
qed

lemma namex_wk [wk]: "R s t \<Longrightarrow> keeps R s (\<lambda>x. snd (snd x)) (namex path par name t)"
  by (auto simp: namex_def idup_def intro!: keeps_binds wk split: option.splits)

lemma namei_wk [wk]: "R s t \<Longrightarrow> keeps R s snd (namei path t)"
  by (auto simp: namei_def intro!: keeps_binds wk)

lemma nameiparent_wk [wk]: "R s t \<Longrightarrow> keeps R s (\<lambda>x. snd (snd x)) (nameiparent path name t)"
  by (auto simp: nameiparent_def intro!: wk)

text \<open>Open files.\<close>

lemma filealloc_wk: "R s t \<Longrightarrow> filealloc t = (r, t') \<Longrightarrow> R s t'"
  by (auto simp: filealloc_def split: option.splits)

lemma filedup_wk [wk]: "R s t \<Longrightarrow> keeps R s snd (filedup i t)"
  by (auto simp: filedup_def)

lemma pipe_wakeups_wk [simp, intro!]: "R s t \<Longrightarrow> R s (pipe_wakeups pi ev t)"
  unfolding pipe_wakeups_def
  by (rule trans, assumption, rule fold_steps) (rule wakeup_step)

lemma close_pipe_wk [simp, intro!]: "R s t \<Longrightarrow> R s (close_pipe pi w t)"
  by (auto simp: close_pipe_def split: prod.splits)

lemma fileclose_wk [wk]: "R s t \<Longrightarrow> keeps R s (\<lambda>t. t) (fileclose i t)"
  by (auto simp: fileclose_def Let_def split: ftype.splits option.splits intro!: keeps_binds wk)

lemma filestat_wk [wk]: "R s t \<Longrightarrow> keeps R s snd (filestat i t)"
  by (auto simp: filestat_def Let_def split: option.splits intro!: keeps_binds wk)

lemma read_pipe_wk [wk]: "R s t \<Longrightarrow> keeps R s (\<lambda>x. snd (snd x)) (read_pipe pi n t)"
  by (auto simp: read_pipe_def split: prod.splits pipe_result.splits)

lemma write_pipe_wk [wk]: "R s t \<Longrightarrow> keeps R s snd (write_pipe pi bs t)"
  by (auto simp: write_pipe_def split: prod.splits pipe_result.splits)

lemma fileread_wk [wk]: "R s t \<Longrightarrow> keeps R s (\<lambda>x. snd (snd x)) (fileread i n t)"
  by (auto simp: fileread_def Let_def split: ftype.splits option.splits intro!: keeps_binds wk)

lemma filewrite_loop_wk [wk]: "R s t \<Longrightarrow> keeps R s snd (filewrite_loop i bs t)"
proof (induction bs arbitrary: t rule: length_induct)
  case (1 bs t)
  have "keeps R s snd (filewrite_loop i (drop (min (length bs) MAXWRITE) bs) u)"
    if "R s u" "bs \<noteq> []" for u
    using 1(1) that by (cases bs) auto
  with 1(2) show ?case
    by (subst filewrite_loop.simps) (auto simp: Let_def split: option.splits intro!: keeps_binds wk)
qed

lemma filewrite_wk [wk]: "R s t \<Longrightarrow> keeps R s snd (filewrite i bs t)"
  by (auto simp: filewrite_def Let_def split: ftype.splits intro!: keeps_binds wk)

text \<open>System calls.\<close>

lemma say_wk [wk]: "R s t \<Longrightarrow> keeps R s (\<lambda>t. t) (say msg t)"
  by (auto simp: say_def intro!: keeps_console)

lemma sys_read_wk: "R s t \<Longrightarrow> keeps R s (\<lambda>x. snd (snd x)) (sys_read afd an ok t)"
  by (auto simp: sys_read_def split: option.splits intro!: keeps_binds wk)

lemma sys_write_wk: "R s t \<Longrightarrow> keeps R s snd (sys_write afd bs t)"
  by (auto simp: sys_write_def split: option.splits intro!: keeps_binds wk)

lemma link_bad_wk [wk]: "R s t \<Longrightarrow> keeps R s snd (link_bad ip t)"
  by (auto simp: link_bad_def intro!: keeps_binds wk)

lemma sys_link_wk: "R s t \<Longrightarrow> keeps R s snd (sys_link old new t)"
  by (auto simp: sys_link_def split: option.splits intro!: keeps_binds wk)

lemma dirempty_scan_wk [wk]: "R s t \<Longrightarrow> keeps R s snd (dirempty_scan dp offs t)"
  by (induction offs arbitrary: t) (auto intro!: keeps_binds wk)

lemma isdirempty_wk [wk]: "R s t \<Longrightarrow> keeps R s snd (isdirempty dp t)"
  by (auto simp: isdirempty_def intro!: wk)

lemma unlink_bad_wk [wk]: "R s t \<Longrightarrow> keeps R s snd (unlink_bad dp t)"
  by (auto simp: unlink_bad_def intro!: keeps_binds wk)

lemma sys_unlink_wk: "R s t \<Longrightarrow> keeps R s snd (sys_unlink path t)"
  by (auto simp: sys_unlink_def split: option.splits intro!: keeps_binds wk)

lemma create_wk [wk]: "R s t \<Longrightarrow> keeps R s snd (create path ty ma mi t)"
  by (auto simp: create_def split: option.splits intro!: keeps_binds wk)

lemma sys_chmod_wk: "R s t \<Longrightarrow> keeps R s snd (sys_chmod f m t)"
  by (auto simp: sys_chmod_def split: option.splits intro!: keeps_binds wk)

lemma sys_mkdir_wk: "R s t \<Longrightarrow> keeps R s snd (sys_mkdir path t)"
  by (auto simp: sys_mkdir_def split: option.splits intro!: keeps_binds wk)

lemma sys_mknod_wk: "R s t \<Longrightarrow> keeps R s snd (sys_mknod path ma mi t)"
  by (auto simp: sys_mknod_def split: option.splits intro!: keeps_binds wk)

lemma sys_exec_check_wk: "R s t \<Longrightarrow> keeps R s snd (sys_exec_check path t)"
  by (auto simp: sys_exec_check_def split: option.splits intro!: keeps_binds wk)

lemma sys_fstat_wk: "R s t \<Longrightarrow> keeps R s (\<lambda>x. snd (snd x)) (sys_fstat fd ok t)"
  by (auto simp: sys_fstat_def split: option.splits intro!: keeps_binds wk)

end

section \<open>Waking up\<close>

definition woken :: "'a kstate_scheme \<Rightarrow> 'a kstate_scheme \<Rightarrow> bool" where
  "woken s t \<longleftrightarrow> cur t = cur s \<and>
     (\<forall>i. procs t i = procs s i \<or>
          (p_state (procs s i) = SLEEPING \<and> procs t i = (procs s i)\<lparr>p_state := RUNNABLE\<rparr>))"

lemma woken_trans: "woken s t \<Longrightarrow> woken t u \<Longrightarrow> woken s u"
  unfolding woken_def by (metis proc.select_convs(4) proc.surjective proc.update_convs(4))

interpretation woken: kernel_frame woken
proof
  show "woken s u" if "woken s t" "woken t u" for s t u :: "'a file_state_scheme"
    using that by (rule woken_trans)
  show "woken t (wakeup ch t)" for t :: "'a file_state_scheme" and ch
    by (auto simp: woken_def wakeup_def wake_def)
qed (simp_all add: woken_def)

text \<open>The part of the state behind the file system's.\<close>

definition same_rest :: "'a file_state_scheme \<Rightarrow> 'a file_state_scheme \<Rightarrow> bool" where
  "same_rest s t \<longleftrightarrow> file_state.more t = file_state.more s"

interpretation rest: kernel_frame same_rest
  by unfold_locales (simp_all add: same_rest_def wakeup_def)

end
