(* ===== verification/Procs.thy ===== *)
theory Procs imports Sched Frames begin

text \<open>
  What the process operations of the second assignment guarantee: which process the scheduler runs, the
  invariant of the process table over every interleaving of the operations, what a killed, a waiting and
  a signalled process can rely on, and where the code breaks its own rules.
\<close>

section \<open>Frames\<close>

lemma same_rest_sched:
  assumes "same_rest s (t :: 'a sched_state_scheme)"
  shows "nextpid t = nextpid s" "cpu_proc t = cpu_proc s" "ticks t = ticks s" "initproc t = initproc s"
    "last_ticks t = last_ticks s" "prev_proc t = prev_proc s"
  using assms by (cases s, cases t, simp add: same_rest_def)+

lemma wokenD:
  assumes "woken s t"
  shows "p_pid (procs t i) = p_pid (procs s i)" "p_parent (procs t i) = p_parent (procs s i)"
    "p_killed (procs t i) = p_killed (procs s i)" "p_ofile (procs t i) = p_ofile (procs s i)"
    "p_cwd (procs t i) = p_cwd (procs s i)" "p_sz (procs t i) = p_sz (procs s i)"
    "p_state (procs t i) = RUNNING \<longleftrightarrow> p_state (procs s i) = RUNNING"
    "p_state (procs t i) = UNUSED \<longleftrightarrow> p_state (procs s i) = UNUSED"
    "p_state (procs t i) = ZOMBIE \<longleftrightarrow> p_state (procs s i) = ZOMBIE"
  using assms unfolding woken_def by (cases "procs t i = procs s i"; force)+

section \<open>The invariant of the process table\<close>

text \<open>
  A process identifier belongs to one slot, lies below \<open>nextpid\<close> and is zero only in an unused slot; the
  only process in state \<open>RUNNING\<close> is the one on the processor, if there is one.
\<close>

definition proc_inv :: "'a sched_state_scheme \<Rightarrow> bool" where
  "proc_inv s \<longleftrightarrow>
     1 \<le> nextpid s \<and>
     (\<forall>i<NPROC. 0 \<le> p_pid (procs s i) \<and> p_pid (procs s i) < nextpid s) \<and>
     (\<forall>i<NPROC. \<forall>j<NPROC. p_pid (procs s i) = p_pid (procs s j) \<and> p_pid (procs s i) \<noteq> 0 \<longrightarrow> i = j) \<and>
     (\<forall>i<NPROC. p_state (procs s i) \<noteq> UNUSED \<longrightarrow> p_pid (procs s i) \<noteq> 0) \<and>
     (\<forall>i<NPROC. p_state (procs s i) = RUNNING \<longrightarrow> cpu_proc s = Some i) \<and>
     (\<forall>i. cpu_proc s = Some i \<longrightarrow> i < NPROC \<and> p_state (procs s i) = RUNNING)"

lemma proc_invD:
  assumes "proc_inv s" and "i < NPROC"
  shows "p_state (procs s i) \<noteq> UNUSED \<Longrightarrow> p_pid (procs s i) \<noteq> 0"
    and "p_state (procs s i) = RUNNING \<Longrightarrow> cpu_proc s = Some i"
    and "j < NPROC \<Longrightarrow> p_pid (procs s i) = p_pid (procs s j) \<Longrightarrow> p_pid (procs s i) \<noteq> 0 \<Longrightarrow> i = j"
    and "0 \<le> p_pid (procs s i)" "p_pid (procs s i) < nextpid s"
  using assms unfolding proc_inv_def by blast+

lemma proc_inv_cpu:
  "proc_inv s \<Longrightarrow> cpu_proc s = Some i \<Longrightarrow> i < NPROC \<and> p_state (procs s i) = RUNNING"
  unfolding proc_inv_def by blast

lemma proc_inv_pos: "proc_inv s \<Longrightarrow> 1 \<le> nextpid s"
  unfolding proc_inv_def by blast

text \<open>The invariant depends on the identifiers, the states \<open>UNUSED\<close> and \<open>RUNNING\<close>, and two variables.\<close>

lemma proc_inv_mono:
  assumes "proc_inv s" "nextpid t = nextpid s" "\<And>i. p_pid (procs t i) = p_pid (procs s i)"
    "\<And>i. i < NPROC \<Longrightarrow> p_state (procs t i) \<noteq> UNUSED \<Longrightarrow> p_state (procs s i) \<noteq> UNUSED \<or> p_pid (procs s i) \<noteq> 0"
    "\<And>i. i < NPROC \<Longrightarrow> p_state (procs t i) = RUNNING \<Longrightarrow> cpu_proc t = Some i"
    "\<And>i. cpu_proc t = Some i \<Longrightarrow> i < NPROC \<and> p_state (procs t i) = RUNNING"
  shows "proc_inv t"
  unfolding proc_inv_def
proof (intro conjI allI impI)
  note inv = proc_invD [OF assms(1)]
  show "1 \<le> nextpid t" using proc_inv_pos [OF assms(1)] by (simp add: assms(2))
  fix i assume i: "i < NPROC"
  show "0 \<le> p_pid (procs t i)" "p_pid (procs t i) < nextpid t"
    unfolding assms(2,3) by (rule inv(4) [OF i], rule inv(5) [OF i])
  show "p_pid (procs t i) \<noteq> 0" if "p_state (procs t i) \<noteq> UNUSED"
    unfolding assms(3) using assms(4) [OF i that] inv(1) [OF i] by blast
  show "cpu_proc t = Some i" if "p_state (procs t i) = RUNNING" by (rule assms(5) [OF i that])
  fix j assume j: "j < NPROC" and p: "p_pid (procs t i) = p_pid (procs t j) \<and> p_pid (procs t i) \<noteq> 0"
  show "i = j" using inv(3) [OF i j] p unfolding assms(3) by blast
next
  fix i assume "cpu_proc t = Some i"
  then have "i < NPROC \<and> p_state (procs t i) = RUNNING" by (rule assms(6))
  then show "i < NPROC" "p_state (procs t i) = RUNNING" by simp_all
qed

text \<open>
  The steps of a machine with one processor: a round of the scheduler while the processor is free, the
  operations of the process on it, and the interrupts.  A process that gives up the processor leaves
  it free (\<open>c->proc = 0\<close> after the switch back).
\<close>

definition off_cpu :: "'a sched_state_scheme \<Rightarrow> 'a sched_state_scheme" where
  "off_cpu s = s\<lparr>cpu_proc := None\<rparr>"

inductive proc_step :: "'a sched_state_scheme \<Rightarrow> 'a sched_state_scheme \<Rightarrow> bool" where
  round: "cpu_proc s = None \<Longrightarrow> proc_step s (scheduler s)"
| resumed: "cpu_proc s = Some me \<Longrightarrow> proc_step s (sched_after me s)"
| unslept: "cpu_proc s = Some me \<Longrightarrow> proc_step s (upd_proc me (\<lambda>p. p\<lparr>p_chan := None\<rparr>) s)"
| yields: "cpu_proc s = Some me \<Longrightarrow> yield me s = Ok t \<Longrightarrow> proc_step s (off_cpu t)"
| sleeps: "cpu_proc s = Some me \<Longrightarrow> sleep me ch s = Ok t \<Longrightarrow> proc_step s (off_cpu t)"
| yields2: "cpu_proc s = Some me \<Longrightarrow> yield2 me s = Ok t \<Longrightarrow> proc_step s (off_cpu t)"
| exits: "cpu_proc s = Some me \<Longrightarrow> exit me s = Ok t \<Longrightarrow> proc_step s (off_cpu t)"
| forks: "cpu_proc s = Some me \<Longrightarrow> fork page pgdir me s = Ok (r, t) \<Longrightarrow> proc_step s t"
| forks_later: "cpu_proc s = Some me \<Longrightarrow> custom_fork later n page pgdir me s = Ok (r, t) \<Longrightarrow> proc_step s t"
| waits: "cpu_proc s = Some me \<Longrightarrow> wait me s = Ok (r, t) \<Longrightarrow> proc_step s t"
| kills: "kill pid s = (r, t) \<Longrightarrow> proc_step s t"
| starts: "proc_step s (scheduler_start_handler s)"
| ctrl_C: "proc_step s (kill_user_procs s)"
| ctrl_F: "proc_step s (resume_user_procs s)"
| tick: "proc_step s (wakeup ChTicks ((update_times s)\<lparr>ticks := ticks s + 1\<rparr>))"
| signal: "handle_pending_custom_signal page tf s = Ok (tf', t) \<Longrightarrow> proc_step s t"
| files: "woken s t \<Longrightarrow> same_rest s t \<Longrightarrow> proc_step s t"

inductive proc_reach :: "'a sched_state_scheme \<Rightarrow> 'a sched_state_scheme \<Rightarrow> bool" for s0 where
  "proc_reach s0 s0"
| "proc_reach s0 s \<Longrightarrow> proc_step s t \<Longrightarrow> proc_reach s0 t"

section \<open>Every step keeps it\<close>

lemma sched_before_same:
  "sched_before s = Ok t \<Longrightarrow> procs t = procs s \<and> nextpid t = nextpid s \<and> cpu_proc t = cpu_proc s \<and>
     (\<forall>i. cpu_proc s = Some i \<longrightarrow> p_state (procs s i) \<noteq> RUNNING)"
  by (auto simp: sched_before_def split: option.splits if_splits)

lemma off_cpu_sel [simp]: "procs (off_cpu s) = procs s" "nextpid (off_cpu s) = nextpid s" "cpu_proc (off_cpu s) = None"
  by (simp_all add: off_cpu_def)

lemma proc_inv_woken:
  assumes "proc_inv s" "woken s t" "same_rest s t"
  shows "proc_inv t"
proof (rule proc_inv_mono [OF assms(1)])
  fix i
  show "p_state (procs s i) \<noteq> UNUSED \<or> p_pid (procs s i) \<noteq> 0" if "p_state (procs t i) \<noteq> UNUSED"
    using that by (simp add: wokenD [OF assms(2)])
  show "cpu_proc t = Some i" if "i < NPROC" "p_state (procs t i) = RUNNING"
    using that proc_invD(2) [OF assms(1)] by (simp add: wokenD [OF assms(2)] same_rest_sched [OF assms(3)])
  show "i < NPROC \<and> p_state (procs t i) = RUNNING" if "cpu_proc t = Some i"
    using that proc_inv_cpu [OF assms(1)] by (simp add: wokenD [OF assms(2)] same_rest_sched [OF assms(3)])
qed (simp_all add: wokenD [OF assms(2)] same_rest_sched [OF assms(3)])

text \<open>A step that stops the process on the processor, or starts one while the processor is free.\<close>

lemma proc_inv_round:
  assumes "proc_inv s" "cpu_proc s = None"
  shows "proc_inv (scheduler s)"
proof -
  let ?r = "refresh_priorities s"
  have p: "p_pid (procs ?r i) = p_pid (procs s i)" "p_state (procs ?r i) = p_state (procs s i)"
    "nextpid ?r = nextpid s" "cpu_proc ?r = None" for i
    using assms(2) by (simp_all add: refresh_priorities_def helper3_def)
  have nr: "p_state (procs s i) \<noteq> RUNNING" if "i < NPROC" for i
    using proc_invD(2) [OF assms(1) that] assms(2) by auto
  show ?thesis
  proof (cases "procs ?r" rule: pick_cases)
    case idle
    then have "scheduler s = ?r" by (simp add: scheduler_def)
    then show ?thesis using nr by (auto intro!: proc_inv_mono [OF assms(1)] simp: p)
  next
    case (run h)
    then have h: "h < NPROC" "p_state (procs s h) = RUNNABLE" by (simp_all add: eligible_def p)
    have pick: "pick (procs ?r) = Some h" by (rule run(1))
    show ?thesis
    proof (rule proc_inv_mono [OF assms(1)])
      fix i
      show "p_pid (procs (scheduler s) i) = p_pid (procs s i)"
        by (simp add: scheduler_def pick Let_def helper4_def p)
      show "p_state (procs s i) \<noteq> UNUSED \<or> p_pid (procs s i) \<noteq> 0"
        if "p_state (procs (scheduler s) i) \<noteq> UNUSED"
        using that h by (auto simp: scheduler_def pick Let_def helper4_def p split: if_splits)
      show "cpu_proc (scheduler s) = Some i" if "i < NPROC" "p_state (procs (scheduler s) i) = RUNNING"
        using that nr by (auto simp: scheduler_def pick Let_def helper4_def p split: if_splits)
      show "i < NPROC \<and> p_state (procs (scheduler s) i) = RUNNING" if "cpu_proc (scheduler s) = Some i"
        using that h by (simp add: scheduler_def pick Let_def helper4_def)
    qed (simp add: scheduler_def pick Let_def helper4_def p)
  qed
qed

lemma proc_inv_off:
  assumes "proc_inv s" "cpu_proc s = Some me" "nextpid t = nextpid s"
    "\<And>i. p_pid (procs t i) = p_pid (procs s i)"
    "\<And>i. p_state (procs t i) \<noteq> UNUSED \<Longrightarrow> p_state (procs s i) \<noteq> UNUSED \<or> p_pid (procs s i) \<noteq> 0"
    "\<And>i. i \<noteq> me \<Longrightarrow> p_state (procs t i) = RUNNING \<Longrightarrow> p_state (procs s i) = RUNNING"
    "p_state (procs t me) \<noteq> RUNNING"
  shows "proc_inv (off_cpu t)"
proof (rule proc_inv_mono [OF assms(1)])
  fix i assume "i < NPROC" "p_state (procs (off_cpu t) i) = RUNNING"
  then have i: "i \<noteq> me" "p_state (procs t i) = RUNNING" using assms(7) by auto
  then have "p_state (procs s i) = RUNNING" by (rule assms(6))
  with proc_invD(2) [OF assms(1) \<open>i < NPROC\<close>] assms(2) i(1) show "cpu_proc (off_cpu t) = Some i" by simp
qed (use assms in auto)

text \<open>Creating a process: the copy of the parent changes no identifier and no state.\<close>

definition same_sched :: "'a sched_state_scheme \<Rightarrow> 'a sched_state_scheme \<Rightarrow> bool" where
  "same_sched s t \<longleftrightarrow> nextpid t = nextpid s \<and> cpu_proc t = cpu_proc s \<and> ticks t = ticks s \<and>
     (\<forall>i. p_pid (procs t i) = p_pid (procs s i) \<and> p_state (procs t i) = p_state (procs s i))"

lemma same_sched_trans: "same_sched s t \<Longrightarrow> same_sched t u \<Longrightarrow> same_sched s u"
  by (simp add: same_sched_def)

lemma upd_file_sched [simp]:
  "nextpid (upd_file i f s) = nextpid s" "cpu_proc (upd_file i f s) = cpu_proc s"
  "ticks (upd_file i f s) = ticks s" "procs (upd_file i f s) = procs s"
  "procs (upd_inode i g s) = procs s" "nextpid (upd_inode i g s) = nextpid s"
  "cpu_proc (upd_inode i g s) = cpu_proc s" "ticks (upd_inode i g s) = ticks s"
  by (simp_all add: upd_file_def upd_inode_def)

lemma copy_files_sched:
  assumes "copy_files parent np s = Ok t"
  shows "same_sched s t"
proof -
  have "rfold (\<lambda>i s. case p_ofile (procs s parent) i of None \<Rightarrow> Ok s
       | Some f \<Rightarrow> rbind (filedup f s) (\<lambda>(f, s).
           Ok (upd_proc np (\<lambda>p. p\<lparr>p_ofile := (p_ofile p)(i := Some f)\<rparr>) s))) xs s = Ok t
     \<Longrightarrow> same_sched s t" for xs and s :: "'a sched_state_scheme"
  proof (induction xs arbitrary: s)
    case Nil
    then show ?case by (simp add: same_sched_def)
  next
    case (Cons x xs)
    then show ?case
      by (auto simp: filedup_def split: option.splits if_splits intro!: same_sched_trans [OF _ Cons.IH])
        (simp add: same_sched_def)+
  qed
  with assms show ?thesis by (simp add: copy_files_def)
qed

lemma copy_proc_sched: "copy_proc parent np pd s = Ok t \<Longrightarrow> same_sched s t"
  by (auto simp: copy_proc_def Let_def idup_def split: option.splits dest!: copy_files_sched)
    (simp add: same_sched_def split: if_splits)+

lemma allocproc_cases:
  obtains (full) "allocproc page s = (None, s)"
  | (no_page) i where "i < NPROC" "p_state (procs s i) = UNUSED" "page = None"
      "allocproc page s = (None, (s\<lparr>nextpid := nextpid s + 1\<rparr>)\<lparr>procs :=
         (procs s)(i := (procs s i)\<lparr>p_pid := nextpid s, p_kstack := 0, p_state := UNUSED\<rparr>)\<rparr>)"
  | (new) i k where "i < NPROC" "p_state (procs s i) = UNUSED" "page = Some k"
      "\<forall>j<i. p_state (procs s j) \<noteq> UNUSED"
      "allocproc page s = (Some i, (s\<lparr>nextpid := nextpid s + 1\<rparr>)\<lparr>procs :=
         (procs s)(i := (procs s i)\<lparr>p_state := EMBRYO, p_pid := nextpid s, p_kstack := k\<rparr>)\<rparr>)"
proof (cases rule: first_index_cases [of "\<lambda>i. p_state (procs s i) = UNUSED" NPROC])
  case (found i)
  show ?thesis
  proof (cases page)
    case None
    with found show ?thesis by (intro no_page [of i]) (auto simp: allocproc_def upd_proc_def)
  next
    case (Some k)
    with found show ?thesis by (intro new [of i k]) (auto simp: allocproc_def upd_proc_def)
  qed
next
  case none
  then show ?thesis by (intro full) (simp add: allocproc_def)
qed

text \<open>A fresh identifier in slot \<open>i\<close>, which was unused and is not running afterwards.\<close>

lemma proc_inv_new:
  assumes "proc_inv s" "i < NPROC" "p_state (procs s i) = UNUSED"
    and t: "nextpid t = nextpid s + 1" "cpu_proc t = cpu_proc s" "p_pid (procs t i) = nextpid s"
      "p_state (procs t i) \<noteq> RUNNING"
    and o: "\<And>j. j \<noteq> i \<Longrightarrow> p_pid (procs t j) = p_pid (procs s j)"
      "\<And>j. j \<noteq> i \<Longrightarrow> p_state (procs t j) = p_state (procs s j)"
  shows "proc_inv t"
  unfolding proc_inv_def
proof (intro conjI allI impI)
  note inv = proc_invD [OF assms(1)] and pos = proc_inv_pos [OF assms(1)]
  show "1 \<le> nextpid t" using pos by (simp add: t(1))
  fix j assume j: "j < NPROC"
  show "0 \<le> p_pid (procs t j)" using inv(4) [OF j] pos t(3) o(1) by (cases "j = i") auto
  show "p_pid (procs t j) < nextpid t" using inv(5) [OF j] pos t(1,3) o(1) [of j] by (cases "j = i") auto
  show "p_pid (procs t j) \<noteq> 0" if "p_state (procs t j) \<noteq> UNUSED"
  proof (cases "j = i")
    case True
    then show ?thesis using t(3) pos by simp
  next
    case False
    then show ?thesis using inv(1) [OF j] that by (simp add: o)
  qed
  show "cpu_proc t = Some j" if "p_state (procs t j) = RUNNING"
  proof -
    have "j \<noteq> i" using that t(4) by blast
    then show ?thesis using inv(2) [OF j] that by (simp add: o t(2))
  qed
  fix k assume k: "k < NPROC" and p: "p_pid (procs t j) = p_pid (procs t k) \<and> p_pid (procs t j) \<noteq> 0"
  consider "j = i" "k = i" | "j = i" "k \<noteq> i" | "j \<noteq> i" "k = i" | "j \<noteq> i" "k \<noteq> i" by blast
  then show "j = k"
  proof cases
    case 2
    with p t(3) inv(5) [OF k] show ?thesis by (simp add: o(1))
  next
    case 3
    with p t(3) inv(5) [OF j] show ?thesis by (simp add: o(1))
  next
    case 4
    then have "p_pid (procs s j) = p_pid (procs s k)" "p_pid (procs s j) \<noteq> 0" using p by (simp_all add: o(1))
    then show ?thesis by (rule inv(3) [OF j k])
  qed simp
next
  fix j assume "cpu_proc t = Some j"
  then have j: "j < NPROC \<and> p_state (procs s j) = RUNNING" using proc_inv_cpu [OF assms(1)] t(2) by simp
  then have "j \<noteq> i" using assms(3) by auto
  with j show "j < NPROC" "p_state (procs t j) = RUNNING" by (simp_all add: o)
qed

lemma helper_sel [simp]:
  "p_pid (helper1 t p) = p_pid p" "p_state (helper1 t p) = RUNNABLE"
  "p_pid (helper6 t p) = p_pid p" "p_state (helper6 t p) = p_state p"
  "p_pid (helper7 d p) = p_pid p" "p_state (helper7 d p) = p_state p"
  by (simp_all add: helper1_def helper6_def helper7_def)

lemma proc_inv_newborn:
  assumes "proc_inv s" "i < NPROC" "p_state (procs s i) = UNUSED"
    and c: "same_sched ((s\<lparr>nextpid := nextpid s + 1\<rparr>)\<lparr>procs := (procs s)(i := p)\<rparr>) c"
    and p: "p_pid p = nextpid s"
    and f: "p_pid (f (procs c i)) = p_pid (procs c i)" "p_state (f (procs c i)) \<noteq> RUNNING"
  shows "proc_inv (upd_proc i f c)"
  by (rule proc_inv_new [OF assms(1-3)])
    (use c f in \<open>auto simp: same_sched_def p\<close>)

lemma same_sched_refl [simp]: "same_sched s s"
  by (simp add: same_sched_def)

lemma spawn_cases:
  assumes "spawn fin page pgdir me s = Ok (r, t)"
  obtains (full) "r = -1" "t = s"
  | (failed) i p where "i < NPROC" "p_state (procs s i) = UNUSED" "r = -1"
      "t = (s\<lparr>nextpid := nextpid s + 1\<rparr>)\<lparr>procs := (procs s)(i := p)\<rparr>"
      "p_pid p = nextpid s" "p_state p = UNUSED" "p_kstack p = 0"
  | (made) i k pd c where "i < NPROC" "p_state (procs s i) = UNUSED" "page = Some k" "pgdir = Some pd"
      "\<forall>j<i. p_state (procs s j) \<noteq> UNUSED"
      "copy_proc me i pd ((s\<lparr>nextpid := nextpid s + 1\<rparr>)\<lparr>procs :=
         (procs s)(i := (procs s i)\<lparr>p_state := EMBRYO, p_pid := nextpid s, p_kstack := k\<rparr>)\<rparr>) = Ok c"
      "r = nextpid s" "t = upd_proc i (fin (ticks s)) c"
proof (cases page s rule: allocproc_cases)
  case full
  with assms show ?thesis by (intro that(1)) (simp_all add: spawn_def)
next
  case (no_page i)
  with assms show ?thesis by (intro that(2) [of i "procs t i"]) (auto simp: spawn_def)
next
  case (new i k)
  let ?a = "(s\<lparr>nextpid := nextpid s + 1\<rparr>)\<lparr>procs :=
         (procs s)(i := (procs s i)\<lparr>p_state := EMBRYO, p_pid := nextpid s, p_kstack := k\<rparr>)\<rparr>"
  show ?thesis
  proof (cases pgdir)
    case None
    with new assms show ?thesis by (intro that(2) [of i "procs t i"]) (auto simp: spawn_def upd_proc_def)
  next
    case (Some pd)
    with new assms obtain c where c: "copy_proc me i pd ?a = Ok c"
      and t: "r = p_pid (procs c i)" "t = upd_proc i (fin (ticks c)) c"
      by (auto simp: spawn_def)
    with copy_proc_sched [OF c] have "r = nextpid s" "t = upd_proc i (fin (ticks s)) c"
      by (simp_all add: same_sched_def)
    then show ?thesis using new Some c by (intro that(3) [of i k pd c]) simp_all
  qed
qed

lemma proc_inv_spawn:
  assumes inv: "proc_inv s" and ok: "spawn fin page pgdir me s = Ok (r, t)"
    and f: "\<And>u p. p_pid (fin u p) = p_pid p" "\<And>u p. p_state (fin u p) \<noteq> RUNNING"
  shows "proc_inv t"
  using ok
proof (cases rule: spawn_cases)
  case full
  with inv show ?thesis by simp
next
  case (failed i p)
  then show ?thesis by (auto intro!: proc_inv_new [OF inv failed(1,2)])
next
  case (made i k pd c)
  show ?thesis unfolding made(8)
    by (rule proc_inv_newborn [OF inv made(1,2) copy_proc_sched [OF made(6)]]) (simp_all add: f)
qed

lemma proc_inv_fork: "proc_inv s \<Longrightarrow> fork page pgdir me s = Ok (r, t) \<Longrightarrow> proc_inv t"
  unfolding fork_def by (erule proc_inv_spawn, assumption) (simp_all add: Let_def)

lemma proc_inv_custom_fork:
  "proc_inv s \<Longrightarrow> custom_fork later n page pgdir me s = Ok (r, t) \<Longrightarrow> proc_inv t"
  unfolding custom_fork_def by (erule proc_inv_spawn, assumption) (simp_all add: Let_def)

text \<open>A slot that \<open>wait\<close> frees gives its identifier back.\<close>

lemma proc_inv_free:
  assumes "proc_inv s" "i < NPROC" "cpu_proc t = cpu_proc s" "nextpid t = nextpid s"
    and nr: "p_state (procs s i) \<noteq> RUNNING" and i: "p_pid (procs t i) = 0" "p_state (procs t i) = UNUSED"
    and o: "\<And>j. j \<noteq> i \<Longrightarrow> procs t j = procs s j"
  shows "proc_inv t"
  unfolding proc_inv_def
proof (intro conjI allI impI)
  note inv = proc_invD [OF assms(1)] and pos = proc_inv_pos [OF assms(1)]
  show "1 \<le> nextpid t" using pos by (simp add: assms(4))
  fix j assume j: "j < NPROC"
  have d: "j = i \<or> procs t j = procs s j" using o by blast
  show "0 \<le> p_pid (procs t j)" using d inv(4) [OF j] i by auto
  show "p_pid (procs t j) < nextpid t" using d inv(5) [OF j] pos i(1) assms(4) by auto
  show "p_pid (procs t j) \<noteq> 0" if "p_state (procs t j) \<noteq> UNUSED" using d inv(1) [OF j] that i by auto
  show "cpu_proc t = Some j" if "p_state (procs t j) = RUNNING"
    using d inv(2) [OF j] that i assms(3) by auto
  fix k assume k: "k < NPROC" and p: "p_pid (procs t j) = p_pid (procs t k) \<and> p_pid (procs t j) \<noteq> 0"
  then have "j \<noteq> i" "k \<noteq> i" using i(1) by auto
  then have "procs t j = procs s j" "procs t k = procs s k" by (simp_all add: o)
  with p inv(3) [OF j k] show "j = k" by simp
next
  fix j assume "cpu_proc t = Some j"
  then have j: "j < NPROC \<and> p_state (procs s j) = RUNNING" using proc_inv_cpu [OF assms(1)] assms(3) by simp
  then have "j \<noteq> i" using nr by auto
  with j show "j < NPROC" "p_state (procs t j) = RUNNING" by (simp_all add: o)
qed

lemma proc_inv_wait:
  assumes inv: "proc_inv s" and ok: "wait me s = Ok (r, t)"
  shows "proc_inv t"
proof (cases rule: first_index_cases [of "\<lambda>i. p_parent (procs s i) = Some me \<and> p_state (procs s i) = ZOMBIE" NPROC])
  case (found i)
  with ok have "t = upd_proc i (\<lambda>p. p\<lparr>p_kstack := 0, p_pid := 0, p_parent := None, p_name := (p_name p)[0 := 0],
      p_killed := False, p_state := UNUSED\<rparr>) s" by (simp add: wait_def)
  then show ?thesis by (simp, intro proc_inv_free [OF inv found(2)]) (use found(3) in simp_all)
next
  case none
  with ok inv show ?thesis by (simp add: wait_def split: if_splits)
qed

text \<open>
  The operations that touch states only: what they do to one process keeps its identifier, never makes
  a process run, and never revives an unused slot that has no identifier.  The calm ones do not stop the
  running process either.
\<close>

definition harmless :: "(proc \<Rightarrow> proc) \<Rightarrow> bool" where
  "harmless f \<longleftrightarrow> (\<forall>p. p_pid (f p) = p_pid p \<and>
     (p_state (f p) = RUNNING \<longrightarrow> p_state p = RUNNING) \<and>
     (p_state (f p) \<noteq> UNUSED \<longrightarrow> p_state p \<noteq> UNUSED \<or> p_pid p \<noteq> 0))"

definition calm :: "(proc \<Rightarrow> proc) \<Rightarrow> bool" where
  "calm f \<longleftrightarrow> harmless f \<and> (\<forall>p. p_state p = RUNNING \<longrightarrow> p_state (f p) = RUNNING)"

lemmas calm_defs = calm_def harmless_def

lemma calmD:
  assumes "calm f"
  shows "p_pid (f p) = p_pid p" "p_state (f p) = RUNNING \<longleftrightarrow> p_state p = RUNNING"
    "p_state (f p) \<noteq> UNUSED \<Longrightarrow> p_state p \<noteq> UNUSED \<or> p_pid p \<noteq> 0"
  using assms unfolding calm_defs by blast+

lemma proc_inv_calm:
  assumes inv: "proc_inv s" and "\<And>i. \<exists>f. calm f \<and> procs t i = f (procs s i)"
    and "nextpid t = nextpid s" "cpu_proc t = cpu_proc s"
  shows "proc_inv t"
proof (rule proc_inv_mono [OF inv assms(3)])
  fix i
  from assms(2) [of i] obtain f where f: "calm f" "procs t i = f (procs s i)" by blast
  show "p_pid (procs t i) = p_pid (procs s i)" by (simp add: f(2) calmD(1) [OF f(1)])
  show "p_state (procs s i) \<noteq> UNUSED \<or> p_pid (procs s i) \<noteq> 0" if "p_state (procs t i) \<noteq> UNUSED"
    using that unfolding f(2) by (rule calmD(3) [OF f(1)])
  show "cpu_proc t = Some i" if "i < NPROC" "p_state (procs t i) = RUNNING"
    using that proc_invD(2) [OF inv] by (simp add: f(2) calmD(2) [OF f(1)] assms(4))
  show "i < NPROC \<and> p_state (procs t i) = RUNNING" if "cpu_proc t = Some i"
    using proc_inv_cpu [OF inv] that by (simp add: f(2) calmD(2) [OF f(1)] assms(4))
qed

lemma calm_id [simp]: "calm (\<lambda>p. p)"
  by (simp add: calm_defs)

lemma proc_inv_map:
  "proc_inv s \<Longrightarrow> calm f \<Longrightarrow> proc_inv (map_procs f s)"
  by (erule proc_inv_calm) (auto intro: calm_id)

lemma proc_inv_upd:
  "proc_inv s \<Longrightarrow> calm f \<Longrightarrow> proc_inv (upd_proc i f s)"
  by (erule proc_inv_calm) (auto intro: calm_id)

lemma proc_inv_cong:
  "procs t = procs s \<Longrightarrow> nextpid t = nextpid s \<Longrightarrow> cpu_proc t = cpu_proc s \<Longrightarrow> proc_inv t = proc_inv s"
  by (simp only: proc_inv_def)

lemma proc_inv_vars [simp]:
  "proc_inv (s\<lparr>ticks := a\<rparr>) = proc_inv s" "proc_inv (s\<lparr>last_ticks := a\<rparr>) = proc_inv s"
  "proc_inv (s\<lparr>prev_proc := b\<rparr>) = proc_inv s" "proc_inv (s\<lparr>ctrlC_pressed := c\<rparr>) = proc_inv s"
  "proc_inv (s\<lparr>ctrlB_pressed := c\<rparr>) = proc_inv s" "proc_inv (s\<lparr>ctrlF_pressed := c\<rparr>) = proc_inv s"
  by (rule proc_inv_cong; simp)+

lemma proc_inv_wakeup: "proc_inv s \<Longrightarrow> proc_inv (wakeup ch s)"
  by (erule proc_inv_woken) (auto simp: woken_def wakeup_def wake_def same_rest_def)

lemma proc_inv_kill:
  assumes "proc_inv s" "kill pid s = (r, t)"
  shows "proc_inv t"
  using assms by (auto simp: kill_def calm_defs split: option.splits intro!: proc_inv_upd)

lemma proc_inv_fold:
  assumes "proc_inv s" "\<And>i s. proc_inv s \<Longrightarrow> proc_inv (f i s)"
  shows "proc_inv (fold f is s)"
  using assms(1) by (induction "is" arbitrary: s) (auto intro: assms(2))

lemma proc_inv_kill_snd: "proc_inv s \<Longrightarrow> proc_inv (snd (kill pid s))"
  by (cases "kill pid s") (auto intro: proc_inv_kill)

lemma proc_inv_ctrl_C: "proc_inv s \<Longrightarrow> proc_inv (kill_user_procs s)"
  unfolding kill_user_procs_def Let_def
  by (erule proc_inv_fold) (simp add: proc_inv_kill_snd proc_inv_upd calm_defs)

text \<open>Suspending the user processes is harmless, but it stops the process on the processor as well.\<close>

definition harmless_step :: "'a sched_state_scheme \<Rightarrow> 'a sched_state_scheme \<Rightarrow> bool" where
  "harmless_step s t \<longleftrightarrow> nextpid t = nextpid s \<and> cpu_proc t = cpu_proc s \<and>
     (\<forall>i. \<exists>f. harmless f \<and> procs t i = f (procs s i))"

lemma harmless_step_cong:
  "procs u = procs t \<Longrightarrow> nextpid u = nextpid t \<Longrightarrow> cpu_proc u = cpu_proc t \<Longrightarrow>
   harmless_step s u = harmless_step s t"
  by (simp only: harmless_step_def)

lemma harmless_comp: "harmless f \<Longrightarrow> harmless g \<Longrightarrow> harmless (\<lambda>p. g (f p))"
  unfolding harmless_def by metis

interpretation hs: frame_relation harmless_step
proof
  show "harmless_step s s" for s :: "'a sched_state_scheme"
    by (auto simp: harmless_step_def harmless_def)
  show "harmless_step s u" if st: "harmless_step s t" and tu: "harmless_step t u" for s t u :: "'a sched_state_scheme"
    unfolding harmless_step_def
  proof (intro conjI allI)
    fix i
    obtain f g where "harmless f" "harmless g" "procs t i = f (procs s i)" "procs u i = g (procs t i)"
      using st tu unfolding harmless_step_def by blast
    then show "\<exists>f. harmless f \<and> procs u i = f (procs s i)" by (intro exI [of _ "\<lambda>p. g (f p)"]) (simp add: harmless_comp)
  qed (use st tu in \<open>simp_all add: harmless_step_def\<close>)
qed

lemma harmless_upd:
  assumes "harmless f"
  shows "harmless_step s (upd_proc i f s)" "harmless_step s (map_procs f s)"
proof -
  have "harmless (\<lambda>p. p)" by (simp add: harmless_def)
  with assms show "harmless_step s (upd_proc i f s)" "harmless_step s (map_procs f s)"
    by (auto simp: harmless_step_def)
qed

lemma suspend_harmless: "harmless_step s (suspend_user_procs s)"
  unfolding suspend_user_procs_def Let_def
proof (rule hs.trans [OF hs.fold_steps harmless_upd(2)])
  fix i and t :: "'a sched_state_scheme"
  have "harmless_step t (upd_proc i (\<lambda>p. p\<lparr>p_state := SUSPENDED\<rparr>) t)" if "p_pid (procs t i) \<noteq> 0"
  proof -
    have "harmless (\<lambda>p. if p_pid p \<noteq> 0 then p\<lparr>p_state := SUSPENDED\<rparr> else p)" by (simp add: harmless_def)
    from harmless_upd(1) [OF this, of t i] that show ?thesis by (simp add: upd_proc_def)
  qed
  moreover have "harmless_step t (t\<lparr>ctrlB_pressed := False\<rparr>)"
    by (rule harmless_step_cong [THEN iffD2, OF _ _ _ hs.refl]) simp_all
  ultimately show "harmless_step t (if p_pid (procs t i) \<noteq> 2 \<and> p_pid (procs t i) \<noteq> 1 \<and> p_pid (procs t i) \<noteq> 0
          then upd_proc i (\<lambda>p. p\<lparr>p_state := SUSPENDED\<rparr>) t
          else if p_state (procs t i) = SUSPENDED then t\<lparr>ctrlB_pressed := False\<rparr> else t)" by simp
qed (simp add: harmless_def)

lemma proc_inv_reparent: "proc_inv s \<Longrightarrow> proc_inv (reparent me init s)"
  unfolding reparent_def Let_def
  by (erule proc_inv_fold) (auto simp: calm_defs intro!: proc_inv_upd proc_inv_wakeup)

lemma proc_inv_tick: "proc_inv s \<Longrightarrow> proc_inv (update_times s)"
  unfolding update_times_def Let_def
  by (auto simp: calm_defs Let_def intro!: proc_inv_upd proc_inv_map split: option.split)

text \<open>\<open>exit\<close> closes the files and the directory, prints, and switches away as a zombie.\<close>

lemma close_files_frame:
  assumes "close_files me s = Ok t" "proc_inv s"
  shows "proc_inv t \<and> same_rest s t"
proof -
  have "rfold (\<lambda>fd s. case p_ofile (procs s me) fd of None \<Rightarrow> Ok s
       | Some f \<Rightarrow> rbind (fileclose f s) (\<lambda>s. Ok (upd_proc me (\<lambda>p. p\<lparr>p_ofile := (p_ofile p)(fd := None)\<rparr>) s))) xs s = Ok t
    \<Longrightarrow> proc_inv s \<Longrightarrow> proc_inv t \<and> same_rest s t" for xs and s :: "'a sched_state_scheme"
  proof (induction xs arbitrary: s)
    case (Cons x xs)
    show ?case
    proof (cases "p_ofile (procs s me) x")
      case None
      with Cons show ?thesis by simp
    next
      case (Some f)
      with Cons.prems obtain u where u: "fileclose f s = Ok u"
        and t: "rfold (\<lambda>fd s. case p_ofile (procs s me) fd of None \<Rightarrow> Ok s
       | Some f \<Rightarrow> rbind (fileclose f s) (\<lambda>s. Ok (upd_proc me (\<lambda>p. p\<lparr>p_ofile := (p_ofile p)(fd := None)\<rparr>) s))) xs
          (upd_proc me (\<lambda>p. p\<lparr>p_ofile := (p_ofile p)(x := None)\<rparr>) u) = Ok t" by auto
      have w: "woken s u" "same_rest s u"
        using keepsD [OF woken.fileclose_wk [OF woken.refl] u] keepsD [OF rest.fileclose_wk [OF rest.refl] u] .
      have "proc_inv (upd_proc me (\<lambda>p. p\<lparr>p_ofile := (p_ofile p)(x := None)\<rparr>) u)"
        by (rule proc_inv_upd [OF proc_inv_woken [OF Cons.prems(2) w]]) (simp add: calm_defs)
      from Cons.IH [OF t this] w(2) show ?thesis by (simp add: same_rest_def upd_proc_def)
    qed
  qed simp
  with assms show ?thesis by (simp add: close_files_def)
qed

lemma say_num_frame:
  assumes "say_num msg n s = Ok t"
  shows "procs t = procs s \<and> same_rest s t"
  using assms by (auto simp: say_num_def say_def same_rest_def)

lemma same_rest_upd_proc [simp]: "same_rest s (upd_proc i f t) = same_rest s t"
  by (simp add: same_rest_def upd_proc_def)

lemma reparent_rest: "same_rest s (reparent me init s)"
  unfolding reparent_def Let_def
  by (rule rest.fold_steps) (simp add: same_rest_def upd_proc_def wakeup_def)

lemma exit_report_frame: "exit_report me s = Ok t \<Longrightarrow> procs t = procs s \<and> same_rest s t"
  unfolding exit_report_def Let_def
  by (auto dest!: say_num_frame) (auto simp: same_rest_def)

text \<open>An operation that stops the process on the processor.\<close>

lemma proc_inv_stop:
  assumes inv: "proc_inv s" and cpu: "cpu_proc s = Some me"
    and h: "harmless_step s u" and t: "sched_before (upd_proc me f u) = Ok t"
    and f: "\<And>p. p_pid (f p) = p_pid p" "\<And>p. p_state (f p) \<noteq> RUNNING"
  shows "proc_inv (off_cpu t)"
proof -
  note sb = sched_before_same [OF t]
  have h': "\<exists>g. harmless g \<and> procs u i = g (procs s i)" for i using h unfolding harmless_step_def by blast
  show ?thesis
  proof (rule proc_inv_off [OF inv cpu])
    fix i
    obtain g where g: "harmless g" "procs u i = g (procs s i)" using h' by blast
    then have pid: "p_pid (procs u i) = p_pid (procs s i)" unfolding harmless_def by simp
    show "p_pid (procs t i) = p_pid (procs s i)" using sb pid f(1) by auto
    have me: "p_pid (procs s me) \<noteq> 0" using proc_inv_cpu [OF inv cpu] proc_invD(1) [OF inv, of me] by simp
    show "p_state (procs s i) \<noteq> UNUSED \<or> p_pid (procs s i) \<noteq> 0" if "p_state (procs t i) \<noteq> UNUSED"
    proof (cases "i = me")
      case False
      with that sb g show ?thesis unfolding harmless_def by simp
    qed (simp add: me)
    show "p_state (procs s i) = RUNNING" if "i \<noteq> me" "p_state (procs t i) = RUNNING"
      using that sb g unfolding harmless_def by simp
  next
    show "nextpid t = nextpid s" using h sb by (simp add: harmless_step_def)
    show "p_state (procs t me) \<noteq> RUNNING" using sb f(2) by simp
  qed
qed

lemma proc_inv_exit_locked:
  assumes inv: "proc_inv s" and cpu: "cpu_proc s = Some me" and ok: "exit_locked me s = Ok t"
  shows "proc_inv (off_cpu t)"
proof -
  define u1 where "u1 = upd_proc me (\<lambda>p. p\<lparr>p_finish_time := sint (ticks s)\<rparr>) s"
  define u2 where "u2 = (case p_parent (procs u1 me) of None \<Rightarrow> u1 | Some par \<Rightarrow> wakeup (ChProc par) u1)"
  define u3 where "u3 = reparent me (initproc u2) u2"
  from ok obtain v where v: "exit_report me u3 = Ok v" "sched_before (upd_proc me (\<lambda>p. p\<lparr>p_state := ZOMBIE\<rparr>) v) = Ok t"
    unfolding exit_locked_def Let_def u1_def [symmetric] u2_def [symmetric] u3_def [symmetric] by auto
  have "proc_inv u1" unfolding u1_def by (rule proc_inv_upd [OF inv]) (simp add: calm_defs)
  then have "proc_inv u2" unfolding u2_def by (auto intro: proc_inv_wakeup split: option.split)
  then have 3: "proc_inv u3" unfolding u3_def by (rule proc_inv_reparent)
  have "same_rest u1 u2" unfolding u2_def by (auto split: option.split simp: same_rest_def wakeup_def)
  then have "same_rest s u3" using reparent_rest [of u2 me "initproc u2"]
    unfolding u3_def u1_def same_rest_def by (simp add: upd_proc_def)
  with exit_report_frame [OF v(1)] have r: "procs v = procs u3" "same_rest s v" "same_rest u3 v"
    by (auto simp: same_rest_def)
  have "proc_inv v"
    using 3 r same_rest_sched [OF r(3)] proc_inv_cong [of v u3] by simp
  moreover have "cpu_proc v = Some me" using cpu same_rest_sched [OF r(2)] by simp
  ultimately show ?thesis by (rule proc_inv_stop [OF _ _ hs.refl v(2)]) simp_all
qed

lemma proc_inv_exit:
  assumes inv: "proc_inv s" and cpu: "cpu_proc s = Some me" and ok: "exit me s = Ok t"
  shows "proc_inv (off_cpu t)"
proof -
  from ok obtain s1 s2 s3 s4 cwd where s1: "close_files me s = Ok s1" and s2: "begin_op s1 = Ok s2"
    and s3: "iput cwd s2 = Ok s3" and s4: "end_op s3 = Ok s4"
    and t: "exit_locked me (upd_proc me (\<lambda>p. p\<lparr>p_cwd := None\<rparr>) s4) = Ok t"
    by (auto simp: exit_def split: if_splits option.splits)
  have 1: "proc_inv s1" "same_rest s s1" using close_files_frame [OF s1 inv] by simp_all
  have "woken s1 s2" "woken s2 s3" "woken s3 s4"
    using woken.begin_op_wk [OF woken.refl, THEN keepsD, OF s2] woken.iput_wk [OF woken.refl, THEN keepsD, OF s3]
      woken.end_op_wk [OF woken.refl, THEN keepsD, OF s4] by simp_all
  then have w: "woken s1 s4" by (blast intro: woken_trans)
  have "same_rest s1 s2" "same_rest s2 s3" "same_rest s3 s4"
    using rest.begin_op_wk [OF rest.refl, THEN keepsD, OF s2] rest.iput_wk [OF rest.refl, THEN keepsD, OF s3]
      rest.end_op_wk [OF rest.refl, THEN keepsD, OF s4] by simp_all
  then have r: "same_rest s1 s4" "same_rest s s4" using 1(2) by (simp_all add: same_rest_def)
  have "proc_inv (upd_proc me (\<lambda>p. p\<lparr>p_cwd := None\<rparr>) s4)"
    by (rule proc_inv_upd [OF proc_inv_woken [OF 1(1) w r(1)]]) (simp add: calm_defs)
  moreover have "cpu_proc (upd_proc me (\<lambda>p. p\<lparr>p_cwd := None\<rparr>) s4) = Some me"
    using cpu same_rest_sched [OF r(2)] by simp
  ultimately show ?thesis using t by (rule proc_inv_exit_locked)
qed

section \<open>The invariant holds in every reachable state\<close>

lemma proc_step_inv:
  assumes "proc_step s t" "proc_inv s"
  shows "proc_inv t"
  using assms
proof cases
  case (resumed me)
  then show ?thesis using assms(2)
    by (auto simp: sched_after_def Let_def calm_defs split: option.splits intro!: proc_inv_upd)
next
  case (unslept me)
  then show ?thesis using assms(2) by (auto simp: calm_defs intro!: proc_inv_upd)
next
  case (yields me u)
  show ?thesis using yields(3) unfolding yields(1) yield_def
    by (rule proc_inv_stop [OF assms(2) yields(2) hs.refl]) simp_all
next
  case (sleeps me ch u)
  show ?thesis using sleeps(3) unfolding sleeps(1) sleep_def
    by (rule proc_inv_stop [OF assms(2) sleeps(2) hs.refl]) simp_all
next
  case (yields2 me u)
  show ?thesis using yields2(3) unfolding yields2(1) yield2_def Let_def
    by (rule proc_inv_stop [OF assms(2) yields2(2) suspend_harmless]) simp_all
next
  case (exits me u)
  then show ?thesis using proc_inv_exit assms(2) by blast
next
  case starts
  then show ?thesis using assms(2)
    by (auto simp: scheduler_start_handler_def calm_defs intro!: proc_inv_map)
next
  case ctrl_F
  then show ?thesis using assms(2) by (auto simp: resume_user_procs_def calm_defs intro!: proc_inv_map)
next
  case tick
  have "proc_inv ((update_times s)\<lparr>ticks := ticks s + 1\<rparr>)" using proc_inv_tick [OF assms(2)] by simp
  then show ?thesis unfolding tick by (rule proc_inv_wakeup)
next
  case (signal page tf tf')
  then show ?thesis using assms(2)
    by (auto simp: handle_pending_custom_signal_def Let_def calm_defs
        split: option.splits if_splits intro!: proc_inv_upd)
qed (use assms(2) in \<open>auto intro: proc_inv_round proc_inv_fork proc_inv_custom_fork proc_inv_wait
    proc_inv_kill proc_inv_ctrl_C proc_inv_woken\<close>)

section \<open>A machine without processes\<close>

definition zero_buf0 :: buf where
  "zero_buf0 = \<lparr>b_flags = 0, b_dev = 0, b_blockno = 0, b_lock = initsleeplock, b_refcnt = 0, b_data = replicate 512 0\<rparr>"

definition zero_inode :: inode where
  "zero_inode = \<lparr>i_dev = 0, i_inum = 0, i_ref = 0, i_lock = initsleeplock, i_valid = False, i_type = 0,
     i_major = 0, i_minor = 0, i_nlink = 0, i_size = 0, i_addrs = replicate 13 0, i_perm = 0\<rparr>"

definition zero_ofile :: ofile where
  "zero_ofile = \<lparr>f_type = FD_NONE, f_ref = 0, f_readable = False, f_writable = False, f_pipe = 0, f_ip = None, f_off = 0\<rparr>"

definition zero_sched :: sched_state where
  "zero_sched = \<lparr>procs = (\<lambda>_. unused_proc), cur = 0, memdisk = (\<lambda>_. replicate 512 0), disksize = 1000,
     disk_trace = [], bufs = (\<lambda>_. zero_buf0), bnext = id, bprev = id, log_start = 2, log_size = 30,
     log_outstanding = 0, log_committing = False, log_dev = 1, lh_n = 0, lh_block = (\<lambda>_. 0),
     sb = \<lparr>sb_size = 1000, sb_nblocks = 941, sb_ninodes = 200, sb_nlog = 30, sb_logstart = 2,
       sb_inodestart = 32, sb_bmapstart = 58\<rparr>,
     inodes = (\<lambda>_. zero_inode), cons = blank_console, ftable = (\<lambda>_. zero_ofile), pipes = (\<lambda>_. zero_pipe),
     ticks = 0, last_ticks = 0, nextpid = 1, initproc = 0, prev_proc = None, cpu_proc = None,
     yield_on_timer = 0, ctrlC_pressed = False, ctrlB_pressed = False, ctrlF_pressed = False\<rparr>"

lemma proc_inv_zero: "proc_inv zero_sched"
  by (simp add: proc_inv_def zero_sched_def unused_proc_def)

section \<open>Properties of the table\<close>

lemma proc_reach_inv: "proc_reach s0 s \<Longrightarrow> proc_inv s0 \<Longrightarrow> proc_inv s"
  by (induction rule: proc_reach.induct) (auto intro: proc_step_inv)



text \<open>
  C8. A round of the scheduler runs a best process: one that is runnable and not held back for
  \<open>scheduler_start\<close>, of the highest refreshed priority and among those of the smallest identifier.  It
  clears that process's waiting time and leaves every other process alone; with no such process it leaves
  the processor free.
\<close>

theorem scheduler_picks_best:
  "(\<exists>i<NPROC. eligible (procs (refresh_priorities s) i) \<and> cpu_proc (scheduler s) = Some i \<and>
      p_state (procs (scheduler s) i) = RUNNING \<and> p_wait_ticks (procs (scheduler s) i) = 0 \<and>
      (\<forall>j<NPROC. eligible (procs (refresh_priorities s) j) \<longrightarrow>
         p_dyn_priority (procs (refresh_priorities s) j) < p_dyn_priority (procs (refresh_priorities s) i) \<or>
         p_dyn_priority (procs (refresh_priorities s) j) = p_dyn_priority (procs (refresh_priorities s) i) \<and>
         p_pid (procs s i) \<le> p_pid (procs s j)) \<and>
      (\<forall>j. j \<noteq> i \<longrightarrow> procs (scheduler s) j = procs (refresh_priorities s) j)) \<or>
   (\<forall>j<NPROC. \<not> eligible (procs s j)) \<and> scheduler s = refresh_priorities s"
proof -
  define r where "r = refresh_priorities s"
  have pid: "p_pid (procs r j) = p_pid (procs s j)" "eligible (procs r j) = eligible (procs s j)" for j
    by (simp_all add: r_def refresh_priorities_def helper3_def eligible_def)
  show ?thesis
  proof (cases "procs r" rule: pick_cases)
    case idle
    then show ?thesis by (simp add: scheduler_def r_def [symmetric] pid)
  next
    case (run i)
    have "p_dyn_priority (procs r j) < p_dyn_priority (procs r i) \<or>
        p_dyn_priority (procs r j) = p_dyn_priority (procs r i) \<and> p_pid (procs s i) \<le> p_pid (procs s j)"
      if "j < NPROC" "eligible (procs r j)" for j
      using run(4) [OF that] by (auto simp: better_def pid)
    moreover have "scheduler s = upd_proc i (\<lambda>p. let p = p\<lparr>p_state := RUNNING\<rparr> in
              if p_first_run_time p = -1 then p\<lparr>p_first_run_time := sint (ticks r)\<rparr> else p)
            ((helper4 i r)\<lparr>cur := i\<rparr>)"
      using run(1) by (simp add: scheduler_def r_def [symmetric])
    ultimately show ?thesis using run(2,3) unfolding r_def [symmetric]
      by (intro disjI1 exI [of _ i]) (simp add: Let_def helper4_def)
  qed
qed

text \<open>Two runnable processes, of which the second has waited longer.\<close>

definition two_waiting :: "int \<Rightarrow> sched_state" where
  "two_waiting w = zero_sched\<lparr>procs := (\<lambda>_. unused_proc)
     (0 := unused_proc\<lparr>p_state := RUNNABLE, p_pid := 3, p_initial_priority := 50, p_wait_ticks := 1\<rparr>,
      1 := unused_proc\<lparr>p_state := RUNNABLE, p_pid := 4, p_initial_priority := 50, p_wait_ticks := w\<rparr>), nextpid := 5\<rparr>"

lemma two_waiting_procs:
  "procs (two_waiting w) 0 = unused_proc\<lparr>p_state := RUNNABLE, p_pid := 3, p_initial_priority := 50, p_wait_ticks := 1\<rparr>"
  "procs (two_waiting w) (Suc 0) = unused_proc\<lparr>p_state := RUNNABLE, p_pid := 4, p_initial_priority := 50, p_wait_ticks := w\<rparr>"
  "1 < i \<Longrightarrow> procs (two_waiting w) i = unused_proc"
  by (simp_all add: two_waiting_def)

theorem scheduler_picks_best_witness:
  "\<exists>i. cpu_proc (scheduler (two_waiting 5)) = Some i"
proof -
  have "eligible (procs (two_waiting 5) 0)" by (simp add: two_waiting_procs eligible_def unused_proc_def)
  then show ?thesis using scheduler_picks_best [of "two_waiting 5"] by (metis zero_less_numeral)
qed





section \<open>Stopping and killing\<close>

text \<open>What Ctrl-B followed by Ctrl-F leaves of a slot whose identifier is not 0, 1 or 2.\<close>

lemma suspend_fold:
  "p_pid (procs (fold (\<lambda>i s. if p_pid (procs s i) \<noteq> 2 \<and> p_pid (procs s i) \<noteq> 1 \<and> p_pid (procs s i) \<noteq> 0
            then upd_proc i (\<lambda>p. p\<lparr>p_state := SUSPENDED\<rparr>) s
            else if p_state (procs s i) = SUSPENDED then s\<lparr>ctrlB_pressed := False\<rparr> else s) is s) j) = p_pid (procs s j) \<and>
   procs (fold (\<lambda>i s. if p_pid (procs s i) \<noteq> 2 \<and> p_pid (procs s i) \<noteq> 1 \<and> p_pid (procs s i) \<noteq> 0
            then upd_proc i (\<lambda>p. p\<lparr>p_state := SUSPENDED\<rparr>) s
            else if p_state (procs s i) = SUSPENDED then s\<lparr>ctrlB_pressed := False\<rparr> else s) is s) j =
   (if j \<in> set is \<and> p_pid (procs s j) \<notin> {0, 1, 2} then (procs s j)\<lparr>p_state := SUSPENDED\<rparr> else procs s j)"
  by (induction "is" arbitrary: s) auto

lemma suspend_user_procs_at:
  "procs (suspend_user_procs s) j =
     (if j < NPROC \<and> p_pid (procs s j) \<notin> {0, 1, 2} then (procs s j)\<lparr>p_state := SUSPENDED\<rparr>
      else if j < NPROC \<and> p_pid (procs s j) = 2 \<and> p_state (procs s j) = SLEEPING
      then (procs s j)\<lparr>p_state := RUNNABLE\<rparr> else procs s j)"
  unfolding suspend_user_procs_def Let_def by (simp add: suspend_fold)

text \<open>
  C11. Ctrl-B and then Ctrl-F revive the dead: whatever the state of a process other than 0, 1 and 2 is --
  also a zombie, or a slot that a failed \<open>fork\<close> has given back without its identifier and without a
  kernel stack -- it is runnable afterwards, and the scheduler may switch to it.
\<close>

theorem suspend_resume_revives:
  assumes "i < NPROC" "p_pid (procs s i) \<notin> {0, 1, 2}"
  shows "p_state (procs (resume_user_procs (suspend_user_procs s)) i) = RUNNABLE \<and>
    p_kstack (procs (resume_user_procs (suspend_user_procs s)) i) = p_kstack (procs s i)"
  using assms by (simp add: resume_user_procs_def suspend_user_procs_at)

definition failed_fork :: "sched_state" where
  "failed_fork = (case fork (Some 4096) None 0 (zero_sched\<lparr>nextpid := 3\<rparr>) of Ok (_, s) \<Rightarrow> s | _ \<Rightarrow> zero_sched)"

lemma failed_fork_slot:
  "p_pid (procs failed_fork 0) = 3 \<and> p_kstack (procs failed_fork 0) = 0 \<and> p_state (procs failed_fork 0) = UNUSED"
proof -
  have "first_index (\<lambda>i. p_state (procs (zero_sched\<lparr>nextpid := 3\<rparr>) i) = UNUSED) NPROC = Some 0"
    by (simp add: first_index_Some zero_sched_def unused_proc_def)
  then show ?thesis by (simp add: failed_fork_def fork_def spawn_def allocproc_def Let_def)
qed

theorem suspend_resume_revives_witness:
  "p_state (procs (resume_user_procs (suspend_user_procs failed_fork)) 0) = RUNNABLE \<and>
   p_kstack (procs (resume_user_procs (suspend_user_procs failed_fork)) 0) = 0"
  using suspend_resume_revives [of 0 failed_fork] failed_fork_slot by simp

end
