(* ===== verification/Signals.thy ===== *)
theory Signals imports Procs begin

text \<open>
  Killing, waiting and signals of the second assignment: what \<open>kill\<close>, \<open>wait\<close>, the execution limit and
  the custom signal guarantee to a process, and three places where they fail it.
\<close>

section \<open>A process that is held back and killed\<close>

text \<open>
  A process created by \<open>custom_fork\<close> with the start-later flag sleeps until \<open>scheduler_start\<close>.  When
  \<open>kill\<close> makes it runnable first, its flags still hold it back.
\<close>

definition stuck :: "proc \<Rightarrow> bool" where
  "stuck p \<longleftrightarrow> p_state p \<in> {RUNNABLE, SUSPENDED} \<and> p_start_later_flag p = 1 \<and> p_scheduling_enabled p = 1 \<and>
     p_killed p"

lemma stuck_upd [simp]:
  "stuck (p\<lparr>p_chan := c\<rparr>) = stuck p" "stuck (p\<lparr>p_ofile := d\<rparr>) = stuck p" "stuck (p\<lparr>p_cwd := e\<rparr>) = stuck p"
  "stuck (p\<lparr>p_parent := f\<rparr>) = stuck p" "stuck (p\<lparr>p_context_switches := g\<rparr>) = stuck p"
  "stuck (p\<lparr>p_finish_time := h\<rparr>) = stuck p" "stuck (p\<lparr>p_dyn_priority := g\<rparr>) = stuck p"
  "stuck (p\<lparr>p_cpu_ticks := g\<rparr>) = stuck p" "stuck (helper7 u p) = stuck p" "stuck (helper3 p) = stuck p"
  by (simp_all add: stuck_def helper7_def helper3_def)

lemma stuck_state: "stuck p \<Longrightarrow> p_state p \<notin> {UNUSED, EMBRYO, SLEEPING, RUNNING, ZOMBIE}"
  by (auto simp: stuck_def)

lemma stuck_not_eligible: "stuck p \<Longrightarrow> \<not> eligible p"
  by (simp add: stuck_def eligible_def)

definition undying :: "nat \<Rightarrow> 'a kstate_scheme \<Rightarrow> 'a kstate_scheme \<Rightarrow> bool" where
  "undying i s t \<longleftrightarrow> (stuck (procs s i) \<longrightarrow> stuck (procs t i))"

lemma undying_wakeup: "undying i t (wakeup ch t)"
  by (auto simp: undying_def wakeup_def wake_def dest: stuck_state)

interpretation undying: kernel_frame "undying i" for i
  by unfold_locales (auto simp: undying_def intro: undying_wakeup [unfolded undying_def, rule_format])

lemma undying_cong: "procs t i = procs s i \<Longrightarrow> undying i s t"
  by (simp add: undying_def)

lemma undying_upd: "j \<noteq> i \<or> (\<forall>p. stuck p \<longrightarrow> stuck (f p)) \<Longrightarrow> undying i s (upd_proc j f s)"
  by (auto simp: undying_def)

lemma undying_map: "(\<forall>p. stuck p \<longrightarrow> stuck (f p)) \<Longrightarrow> undying i s (map_procs f s)"
  by (simp add: undying_def)

lemma undying_before: "sched_before s = Ok t \<Longrightarrow> undying i s t"
  by (auto simp: undying_def dest: sched_before_same)

lemma undying_close_files: "me \<noteq> i \<Longrightarrow> keeps (undying i) s (\<lambda>t. t) (close_files me s)"
  unfolding close_files_def
  by (rule undying.loop)
    (auto split: option.splits intro!: keeps_binds undying.fileclose_wk undying.trans [OF _ undying_upd])

lemma undying_report: "exit_report me s = Ok t \<Longrightarrow> undying i s t"
  by (rule undying_cong) (simp add: exit_report_frame)

lemma undying_reparent: "me \<noteq> i \<Longrightarrow> undying i s (reparent me init (s :: 'a file_state_scheme))"
  unfolding reparent_def Let_def
  by (rule undying.fold_steps) (auto intro!: undying_upd undying.trans [OF undying_upd undying_wakeup])

lemma undying_wake_parent:
  "undying i s (case x of None \<Rightarrow> s | Some par \<Rightarrow> wakeup (ChProc par) s)"
  by (cases x) (simp_all add: undying_wakeup undying_cong)

lemma undying_exit_locked:
  assumes "exit_locked me s = Ok t" "me \<noteq> i"
  shows "undying i s t"
proof -
  define u1 where "u1 = upd_proc me (\<lambda>p. p\<lparr>p_finish_time := sint (ticks s)\<rparr>) s"
  define u2 where "u2 = (case p_parent (procs u1 me) of None \<Rightarrow> u1 | Some par \<Rightarrow> wakeup (ChProc par) u1)"
  define u3 where "u3 = reparent me (initproc u2) u2"
  from assms(1) obtain v where v: "exit_report me u3 = Ok v" "sched_before (upd_proc me (\<lambda>p. p\<lparr>p_state := ZOMBIE\<rparr>) v) = Ok t"
    unfolding exit_locked_def Let_def u1_def [symmetric] u2_def [symmetric] u3_def [symmetric] by auto
  have "undying i s u1" unfolding u1_def using assms(2) by (intro undying_upd) simp
  moreover have "undying i u1 u2" unfolding u2_def by (rule undying_wake_parent)
  moreover have "undying i u2 u3" unfolding u3_def by (rule undying_reparent [OF assms(2)])
  moreover have "undying i u3 v" by (rule undying_report [OF v(1)])
  moreover have "undying i v t"
    by (rule undying.trans [OF undying_upd undying_before [OF v(2)]]) (simp add: assms(2))
  ultimately show ?thesis by (blast intro: undying.trans)
qed

lemma undying_exit_end:
  assumes "undying i s u" "me \<noteq> i"
  shows "keeps (undying i) s (\<lambda>t. t) (exit_locked me (upd_proc me f u))"
proof -
  have "undying i s (upd_proc me f u)" by (rule undying.trans [OF assms(1) undying_upd]) (simp add: assms(2))
  then show ?thesis unfolding keeps_def using undying_exit_locked [OF _ assms(2)] by (blast intro: undying.trans)
qed

lemma undying_exit:
  assumes "me \<noteq> i"
  shows "keeps (undying i) s (\<lambda>t. t) (exit me s)"
  unfolding exit_def
  by (auto intro!: keeps_binds undying.begin_op_wk undying.iput_wk undying.end_op_wk undying_close_files
      undying_exit_end assms split: option.split)

lemma undying_copy:
  assumes "np \<noteq> i"
  shows "undying i s u \<Longrightarrow> keeps (undying i) s (\<lambda>t. t) (copy_proc parent np pd u)"
proof -
  have f: "keeps (undying i) u (\<lambda>t. t) (copy_files parent np u)" for u :: "'a file_state_scheme"
    unfolding copy_files_def using assms
    by (intro undying.loop)
      (auto split: option.splits intro!: keeps_binds undying.filedup_wk undying.trans [OF _ undying_upd])
  assume "undying i s u"
  then show ?thesis unfolding copy_proc_def Let_def idup_def using assms
    by (auto split: option.split intro!: keeps_bind1 undying.lift [OF _ f] undying.trans [OF _ undying_upd])
qed

lemma undying_spawn:
  assumes "spawn fin page pgdir me s = Ok (r, t)"
  shows "undying i s t"
proof (cases "stuck (procs s i)")
  case True
  from assms show ?thesis
  proof (cases rule: spawn_cases)
    case (failed n p)
    then have "n \<noteq> i" using stuck_state [OF True] by auto
    with failed show ?thesis by (auto intro!: undying_cong)
  next
    case (made n k pd c)
    then have n: "n \<noteq> i" using stuck_state [OF True] by auto
    have "undying i s ((s\<lparr>nextpid := nextpid s + 1\<rparr>)\<lparr>procs :=
         (procs s)(n := (procs s n)\<lparr>p_state := EMBRYO, p_pid := nextpid s, p_kstack := k\<rparr>)\<rparr>)"
      using n by (intro undying_cong) simp
    from keepsD [OF undying_copy [OF n this] made(6)] n show ?thesis
      unfolding made(8) by (auto intro: undying.trans [OF _ undying_upd])
  qed simp
qed (simp add: undying_def)

text \<open>No step of the machine takes a stuck process out of its state.\<close>

lemma undying_kill: "undying i s (snd (kill pid s))"
  by (auto simp: kill_def stuck_def undying_def split: option.split)

lemma undying_fold:
  "(\<And>x t. undying i t (f x t)) \<Longrightarrow> undying i (s :: 'a file_state_scheme) (fold f xs s)"
  by (rule undying.fold_steps)

lemma undying_ctrl_C: "undying i s (kill_user_procs s)"
  unfolding kill_user_procs_def
proof (rule undying_fold)
  fix x and t :: "'a sched_state_scheme"
  let ?u = "upd_proc x (\<lambda>p. if p_state p = SUSPENDED then p\<lparr>p_state := RUNNABLE\<rparr> else p) t"
  have u: "undying i t ?u" by (rule undying_upd) (auto simp: stuck_def)
  have "undying i t (snd (kill (p_pid (procs ?u x)) ?u))" by (rule undying.trans [OF u undying_kill])
  with u show "undying i t (let s = (if p_pid (procs t x) > 2 \<and> p_state (procs t x) \<noteq> UNUSED then
                  let s = ?u in if p_state (procs s x) \<noteq> ZOMBIE then snd (kill (p_pid (procs s x)) s) else s
                else t) in s\<lparr>ctrlC_pressed := False\<rparr>)"
    by (simp add: Let_def undying_def)
qed

lemma undying_suspend: "undying i s (suspend_user_procs s)"
  by (auto simp: undying_def suspend_user_procs_at stuck_def)

lemma undying_stop:
  assumes "undying i s u" "me \<noteq> i" "sched_before (upd_proc me f u) = Ok t"
  shows "undying i s (off_cpu t)"
proof -
  have "undying i s t"
    by (rule undying.trans [OF assms(1) undying.trans [OF undying_upd undying_before [OF assms(3)]]])
      (simp add: assms(2))
  then show ?thesis by (simp add: undying_def)
qed

lemma undying_step:
  assumes "proc_step s t" "proc_inv s" "i < NPROC"
  shows "undying i s t"
proof (cases "stuck (procs s i)")
  case True
  have me: "me \<noteq> i" if "cpu_proc s = Some me" for me
    using proc_inv_cpu [OF assms(2) that] stuck_state [OF True] by auto
  from assms(1) show ?thesis
  proof cases
    case round
    have r: "stuck (procs (refresh_priorities s) i)"
      using True by (simp add: refresh_priorities_def)
    from scheduler_picks_best [of s] show ?thesis unfolding round(1)
    proof (elim disjE exE conjE)
      fix h assume "eligible (procs (refresh_priorities s) h)"
        "\<forall>j. j \<noteq> h \<longrightarrow> procs (scheduler s) j = procs (refresh_priorities s) j"
      then show "undying i s (scheduler s)" using r stuck_not_eligible [OF r] by (auto simp: undying_def)
    qed (use r in \<open>simp add: undying_def\<close>)
  next
    case (resumed me)
    then show ?thesis by (auto simp: sched_after_def Let_def undying_def split: option.split)
  next
    case (yields me u)
    show ?thesis using yields(3) unfolding yields(1) yield_def
      by (rule undying_stop [OF undying.refl me [OF yields(2)]])
  next
    case (sleeps me ch u)
    show ?thesis using sleeps(3) unfolding sleeps(1) sleep_def
      by (rule undying_stop [OF undying.refl me [OF sleeps(2)]])
  next
    case (yields2 me u)
    show ?thesis using yields2(3) unfolding yields2(1) yield2_def Let_def
      by (rule undying_stop [OF undying_suspend me [OF yields2(2)]])
  next
    case (exits me u)
    from keepsD [OF undying_exit [OF me [OF exits(2)]] exits(3)] exits(1) show ?thesis
      by (simp add: undying_def)
  next
    case (waits me r)
    have "procs t i = procs s i"
      using waits(2) True
      by (cases rule: first_index_cases [of "\<lambda>j. p_parent (procs s j) = Some me \<and> p_state (procs s j) = ZOMBIE" NPROC])
        (auto simp: wait_def dest: stuck_state split: if_splits)
    then show ?thesis by (rule undying_cong)
  next
    case (kills pid r)
    with undying_kill [of i s pid] show ?thesis by simp
  next
    case starts
    then show ?thesis by (auto simp: scheduler_start_handler_def intro!: undying_map dest: stuck_state)
  next
    case ctrl_F
    then show ?thesis by (auto simp: resume_user_procs_def undying_def stuck_def)
  next
    case tick
    have "stuck (procs (update_times s) i)"
      using True by (auto simp: update_times_def Let_def split: option.split) (auto simp: stuck_def helper7_def)
    then show ?thesis unfolding tick
      by (intro undying.trans [OF _ undying_wakeup]) (simp add: undying_def)
  next
    case (signal page tf tf')
    then show ?thesis using True
      by (auto simp: handle_pending_custom_signal_def Let_def undying_def stuck_def split: option.splits if_splits)
  next
    case files
    then show ?thesis using True by (auto simp: undying_def woken_def dest: stuck_state spec [of _ i])
  qed (auto simp: fork_def custom_fork_def undying_def undying_ctrl_C [unfolded undying_def]
      dest: undying_spawn [unfolded undying_def])
qed (simp add: undying_def)

lemma stuck_reach:
  assumes "proc_reach s t" "proc_inv s" "i < NPROC" "stuck (procs s i)"
  shows "proc_inv t \<and> stuck (procs t i)"
  using assms(1)
proof induction
  case 1
  with assms show ?case by simp
next
  case (2 t u)
  with undying_step [OF 2(2) _ assms(3)] proc_step_inv [OF 2(2)] show ?case
    by (auto simp: undying_def)
qed

lemma kill_at:
  assumes "proc_inv s" "i < NPROC" "p_pid (procs s i) = pid" "pid \<noteq> 0"
  shows "kill pid s = (0, upd_proc i (\<lambda>p. p\<lparr>p_killed := True,
           p_state := (if p_state p = SLEEPING then RUNNABLE else p_state p)\<rparr>) s)"
proof (cases rule: first_index_cases [of "\<lambda>j. p_pid (procs s j) = pid" NPROC])
  case (found j)
  have "j = i" using proc_invD(3) [OF assms(1) found(2) assms(2)] found(3) assms(3,4) by simp
  with found(1) show ?thesis by (simp add: kill_def)
qed (use assms in blast)

text \<open>
  C12. A process that waits for \<open>scheduler_start\<close> and is killed never dies: in every later state, after any
  number of further kills, control keys, clock ticks, starts and system calls, it is marked killed, still
  holds its slot, and has not been run to reach its \<open>exit\<close>.
\<close>

theorem killed_start_later_never_dies:
  assumes "proc_inv s" "i < NPROC" "p_pid (procs s i) = pid" "pid \<noteq> 0"
    and "p_state (procs s i) = SLEEPING" "p_start_later_flag (procs s i) = 1" "p_scheduling_enabled (procs s i) = 1"
    and "proc_reach (snd (kill pid s)) t"
  shows "p_killed (procs t i) \<and> p_state (procs t i) \<in> {RUNNABLE, SUSPENDED} \<and> cpu_proc t \<noteq> Some i"
proof -
  have k: "kill pid s = (0, upd_proc i (\<lambda>p. p\<lparr>p_killed := True,
           p_state := (if p_state p = SLEEPING then RUNNABLE else p_state p)\<rparr>) s)"
    by (rule kill_at) (use assms in simp_all)
  have "stuck (procs (snd (kill pid s)) i)" using assms by (simp add: k stuck_def)
  from stuck_reach [OF assms(8) proc_inv_kill_snd [OF assms(1)] assms(2) this]
  have t: "proc_inv t" "stuck (procs t i)" by simp_all
  then show ?thesis using proc_inv_cpu [OF t(1), of i] by (auto simp: stuck_def)
qed

definition held_back :: sched_state where
  "held_back = zero_sched\<lparr>procs := (\<lambda>_. unused_proc)(0 := unused_proc\<lparr>p_state := SLEEPING, p_pid := 3,
     p_start_later_flag := 1, p_scheduling_enabled := 1\<rparr>), nextpid := 4\<rparr>"

theorem killed_start_later_never_dies_witness:
  "p_killed (procs (scheduler (scheduler_start_handler (snd (kill 3 held_back)))) 0) \<and>
   cpu_proc (scheduler (scheduler_start_handler (snd (kill 3 held_back)))) \<noteq> Some 0"
proof -
  have inv: "proc_inv held_back"
    unfolding proc_inv_def by (auto simp: held_back_def zero_sched_def unused_proc_def)
  have c: "cpu_proc (scheduler_start_handler (snd (kill 3 held_back))) = None"
    by (simp add: scheduler_start_handler_def kill_def held_back_def zero_sched_def split: option.split)
  have "proc_reach (snd (kill 3 held_back)) (scheduler (scheduler_start_handler (snd (kill 3 held_back))))"
    by (rule proc_reach.intros(2) [OF proc_reach.intros(2) [OF proc_reach.intros(1)]])
      (rule proc_step.starts, rule proc_step.round [OF c])
  from killed_start_later_never_dies [OF inv _ _ _ _ _ _ this, of 0] show ?thesis
    by (simp add: held_back_def)
qed

section \<open>The execution limit\<close>

lemma procs_last_ticks: "procs (if b then x\<lparr>last_ticks := a\<rparr> else x) = procs x"
  by simp

lemma add_ticks_small:
  assumes "0 \<le> i" "i + uint u < 2 ^ 31"
  shows "add_ticks i u = i + uint u" "uint (word_of_int i + u) = i + uint u"
proof -
  have "0 \<le> uint u" by simp
  then have "(i + uint u) mod 2 ^ 32 = i + uint u" using assms
    by (intro mod_pos_pos_trivial) (auto intro: less_trans [of _ "2 ^ 31"])
  then show u: "uint (word_of_int i + u) = i + uint u"
    by (simp add: uint_word_ariths(1) uint_word_of_int mod_add_left_eq)
  have "signed_take_bit 31 (i + uint u) = i + uint u"
    by (rule signed_take_bit_int_eq_self, rule order_trans [of _ 0]) (use assms in simp_all)
  then show "add_ticks i u = i + uint u" unfolding add_ticks_def sint_uint u by simp
qed

text \<open>
  The execution limit: at a clock interrupt the running process is charged the ticks since the last one,
  and it is marked killed exactly when it has a limit and has reached it; every other runnable process is
  credited the same ticks of waiting, and nobody else is killed.
\<close>

theorem update_times_limit:
  assumes me: "cpu_proc s = Some me" "me < NPROC" "p_state (procs s me) = RUNNING" "1 < p_pid (procs s me)"
    and small: "0 \<le> p_cpu_ticks (procs s me)" "p_cpu_ticks (procs s me) + uint (ticks s - last_ticks s) < 2 ^ 31"
    and wait: "\<forall>j<NPROC. 0 \<le> p_wait_ticks (procs s j) \<and> p_wait_ticks (procs s j) + uint (ticks s - last_ticks s) < 2 ^ 31"
  shows "p_cpu_ticks (procs (update_times s) me) = p_cpu_ticks (procs s me) + uint (ticks s - last_ticks s) \<and>
    (p_killed (procs (update_times s) me) \<longleftrightarrow> p_killed (procs s me) \<or>
       p_exec_time (procs s me) \<noteq> -1 \<and>
       uint (p_exec_time (procs s me)) \<le> p_cpu_ticks (procs s me) + uint (ticks s - last_ticks s)) \<and>
    (\<forall>j<NPROC. j \<noteq> me \<longrightarrow> p_killed (procs (update_times s) j) = p_killed (procs s j) \<and>
       p_wait_ticks (procs (update_times s) j) = p_wait_ticks (procs s j) +
         (if p_state (procs s j) = RUNNABLE then uint (ticks s - last_ticks s) else 0))"
proof -
  let ?dt = "ticks s - last_ticks s" and ?p = "procs s me"
  note a = add_ticks_small [OF small]
  have cmp: "p_exec_time ?p \<le> word_of_int (p_cpu_ticks ?p) + ?dt \<longleftrightarrow>
      uint (p_exec_time ?p) \<le> p_cpu_ticks ?p + uint ?dt"
    by (simp add: word_le_def a(2))
  have w: "add_ticks (p_wait_ticks (procs s j)) ?dt = p_wait_ticks (procs s j) + uint ?dt" if "j < NPROC" for j
    using wait that by (intro add_ticks_small) auto
  have m: "procs (update_times s) me = (let p = ?p\<lparr>p_cpu_ticks := add_ticks (p_cpu_ticks ?p) ?dt\<rparr> in
      if p_exec_time p \<noteq> -1 \<and> p_exec_time p \<le> word_of_int (p_cpu_ticks p) then p\<lparr>p_killed := True\<rparr> else p)"
    unfolding update_times_def Let_def procs_last_ticks using me
    by (simp add: if_distrib [of procs] if_distribR)
  have o: "procs (update_times s) j = (if p_state (procs s j) = RUNNABLE
      then (helper7 ?dt (procs s j))\<lparr>p_dyn_priority := dyn_prio (helper7 ?dt (procs s j))\<rparr> else procs s j)"
    if "j < NPROC" "j \<noteq> me" for j
    unfolding update_times_def Let_def procs_last_ticks using me(1-3) that
    by (simp add: if_distrib [of procs] if_distribR)
  have c: "word_of_int (add_ticks (p_cpu_ticks ?p) ?dt) = word_of_int (p_cpu_ticks ?p) + ?dt"
    unfolding add_ticks_def by simp
  show ?thesis
  proof (intro conjI allI impI)
    show "p_cpu_ticks (procs (update_times s) me) = p_cpu_ticks ?p + uint ?dt"
      unfolding m a(1) [symmetric] by (simp add: Let_def)
    show "p_killed (procs (update_times s) me) \<longleftrightarrow> p_killed ?p \<or>
       p_exec_time ?p \<noteq> -1 \<and> uint (p_exec_time ?p) \<le> p_cpu_ticks ?p + uint ?dt"
      unfolding m cmp [symmetric] c [symmetric] by (auto simp: Let_def)
    fix j assume j: "j < NPROC" "j \<noteq> me"
    show "p_killed (procs (update_times s) j) = p_killed (procs s j)"
      unfolding o [OF j] by (simp add: helper7_def)
    show "p_wait_ticks (procs (update_times s) j) = p_wait_ticks (procs s j) +
         (if p_state (procs s j) = RUNNABLE then uint ?dt else 0)"
      unfolding o [OF j] using w [OF j(1)] by (simp add: helper7_def)
  qed
qed

definition ticking :: sched_state where
  "ticking = zero_sched\<lparr>procs := (\<lambda>_. unused_proc)(0 := unused_proc\<lparr>p_state := RUNNING, p_pid := 3,
     p_exec_time := 10, p_cpu_ticks := 8\<rparr>), cpu_proc := Some 0, nextpid := 4, ticks := 7, last_ticks := 5\<rparr>"

theorem update_times_limit_witness:
  "p_cpu_ticks (procs (update_times ticking) 0) = 10 \<and> p_killed (procs (update_times ticking) 0)"
  using update_times_limit [of ticking 0] by (simp add: ticking_def zero_sched_def unused_proc_def)

section \<open>The custom signal\<close>


definition signalled :: sched_state where
  "signalled = zero_sched\<lparr>procs := (\<lambda>_. unused_proc)(0 := unused_proc\<lparr>p_state := RUNNING, p_pid := 3,
     p_pending_custom := True, p_custom_handler := 64\<rparr>), cpu_proc := Some 0, nextpid := 4\<rparr>"


text \<open>
  A second custom signal while the handler runs is not transparent: the copy of the registers is
  overwritten with those of the handler, so at the end of the handler execution goes back into the handler,
  and the registers of the interrupted program are not kept anywhere.
\<close>

theorem nested_signal_loses_context:
  assumes "cpu_proc s = Some me" "p_pending_custom (procs s me)" "p_custom_handler (procs s me) \<noteq> 0"
    and first: "handle_pending_custom_signal True tf s = Ok (htf, t)"
    and again: "u = upd_proc me (\<lambda>p. p\<lparr>p_pending_custom := True\<rparr>) t"
    and second: "handle_pending_custom_signal True htf2 u = Ok (htf3, v)"
  shows "trap_restore me v = Ok htf2 \<and> tf_eip htf3 = p_custom_handler (procs s me) \<and>
    p_prev_eip (procs v me) = tf_eip htf2"
proof -
  from assms(1-3) first have t: "t = upd_proc me (\<lambda>p. p\<lparr>p_pending_custom := False, p_tf1 := Some tf, p_prev_eip := tf_eip tf\<rparr>) s"
    by (simp add: handle_pending_custom_signal_def)
  from second assms(1,3) show ?thesis
    by (simp add: again t handle_pending_custom_signal_def trap_restore_def) (auto simp: upd_proc_def)
qed

theorem nested_signal_loses_context_witness:
  "\<exists>t v. handle_pending_custom_signal True (zero_tf\<lparr>tf_eip := 100\<rparr>) signalled = Ok (zero_tf\<lparr>tf_eip := 64\<rparr>, t) \<and>
     handle_pending_custom_signal True (zero_tf\<lparr>tf_eip := 70\<rparr>) (upd_proc 0 (\<lambda>p. p\<lparr>p_pending_custom := True\<rparr>) t)
       = Ok (zero_tf\<lparr>tf_eip := 64\<rparr>, v) \<and>
     trap_restore 0 v = Ok (zero_tf\<lparr>tf_eip := 70\<rparr>)"
proof -
  have s: "cpu_proc signalled = Some 0" "p_pending_custom (procs signalled 0)" "p_custom_handler (procs signalled 0) = 64"
    by (simp_all add: signalled_def)
  obtain t where t: "handle_pending_custom_signal True (zero_tf\<lparr>tf_eip := 100\<rparr>) signalled = Ok (zero_tf\<lparr>tf_eip := 64\<rparr>, t)"
    "cpu_proc t = Some 0" "p_custom_handler (procs t 0) = 64"
    using s by (simp add: handle_pending_custom_signal_def)
  obtain v where v: "handle_pending_custom_signal True (zero_tf\<lparr>tf_eip := 70\<rparr>)
      (upd_proc 0 (\<lambda>p. p\<lparr>p_pending_custom := True\<rparr>) t) = Ok (zero_tf\<lparr>tf_eip := 64\<rparr>, v)"
    using t(2,3) by (simp add: handle_pending_custom_signal_def)
  from nested_signal_loses_context [OF s(1,2) _ t(1) refl v] s(3) t(1) v show ?thesis by auto
qed

section \<open>Waiting for children\<close>

text \<open>
  C14. \<open>wait\<close> returns the identifier of a zombie child and frees its slot; without one it sleeps if the
  caller is not killed and has a child that is not suspended, and returns -1 otherwise: also when all its
  children are suspended, although the comment of \<open>wait\<close> promises -1 only to a process without children.
\<close>

theorem wait_outcomes:
  "(case wait me s of
      Ok (r, t) \<Rightarrow>
        (\<exists>i<NPROC. p_parent (procs s i) = Some me \<and> p_state (procs s i) = ZOMBIE \<and> r = p_pid (procs s i) \<and>
           p_state (procs t i) = UNUSED \<and> p_pid (procs t i) = 0 \<and> p_parent (procs t i) = None \<and>
           \<not> p_killed (procs t i) \<and> (\<forall>j. j \<noteq> i \<longrightarrow> procs t j = procs s j)) \<or>
        r = -1 \<and> t = s \<and> (\<forall>i<NPROC. p_parent (procs s i) = Some me \<longrightarrow> p_state (procs s i) \<noteq> ZOMBIE) \<and>
          (p_killed (procs s me) \<or> (\<forall>i<NPROC. p_parent (procs s i) = Some me \<longrightarrow> p_state (procs s i) = SUSPENDED))
    | Waits \<Rightarrow> \<not> p_killed (procs s me) \<and>
        (\<exists>i<NPROC. p_parent (procs s i) = Some me \<and> p_state (procs s i) \<noteq> SUSPENDED) \<and>
        (\<forall>i<NPROC. p_parent (procs s i) = Some me \<longrightarrow> p_state (procs s i) \<noteq> ZOMBIE)
    | _ \<Rightarrow> False)"
proof (cases rule: first_index_cases [of "\<lambda>i. p_parent (procs s i) = Some me \<and> p_state (procs s i) = ZOMBIE" NPROC])
  case (found i)
  then have "wait me s = Ok (p_pid (procs s i),
      upd_proc i (\<lambda>p. p\<lparr>p_kstack := 0, p_pid := 0, p_parent := None, p_name := (p_name p)[0 := 0],
                        p_killed := False, p_state := UNUSED\<rparr>) s)" by (simp add: wait_def)
  with found(2,3) show ?thesis by (auto simp: upd_proc_def intro!: exI [of _ i])
next
  case none
  show ?thesis
  proof (cases rule: first_index_cases [of "\<lambda>i. p_parent (procs s i) = Some me \<and> p_state (procs s i) \<noteq> SUSPENDED" NPROC])
    case (found i)
    with none show ?thesis by (auto simp: wait_def)
  next
    case none2: none
    with none show ?thesis by (auto simp: wait_def)
  qed
qed

definition suspended_child :: sched_state where
  "suspended_child = zero_sched\<lparr>procs := (\<lambda>_. unused_proc)(0 := unused_proc\<lparr>p_state := RUNNING, p_pid := 3\<rparr>,
     1 := unused_proc\<lparr>p_state := SUSPENDED, p_pid := 4, p_parent := Some 0\<rparr>), cpu_proc := Some 0, nextpid := 5\<rparr>"

theorem wait_outcomes_witness:
  "wait 0 suspended_child = Ok (-1, suspended_child)"
proof -
  have p: "p_parent (procs suspended_child i) = Some 0 \<longleftrightarrow> i = 1" for i
    by (simp add: suspended_child_def unused_proc_def)
  have st: "p_state (procs suspended_child (Suc 0)) = SUSPENDED" by (simp add: suspended_child_def)
  have np: "\<not> (\<exists>i<NPROC. p_parent (procs suspended_child i) = Some 0 \<and> p_state (procs suspended_child i) \<noteq> SUSPENDED)"
    "\<not> (\<exists>i<NPROC. p_parent (procs suspended_child i) = Some 0 \<and> p_state (procs suspended_child i) = ZOMBIE)"
    by (auto simp: p st)
  from wait_outcomes [where me = 0 and s = suspended_child] np show ?thesis
    by (cases "wait 0 suspended_child") (auto split: prod.splits)
qed

section \<open>What a new process gets\<close>

lemma copy_files_exact:
  assumes "copy_files par np s = Ok t" "par \<noteq> np"
  shows "procs t = (procs s)(np := (procs s np)\<lparr>p_ofile := (\<lambda>fd. if fd < NOFILE \<and> p_ofile (procs s par) fd \<noteq> None
             then p_ofile (procs s par) fd else p_ofile (procs s np) fd)\<rparr>) \<and>
    inodes t = inodes s \<and>
    (\<forall>f. f_ref (ftable t f) = f_ref (ftable s f) + int (card {fd. fd < NOFILE \<and> p_ofile (procs s par) fd = Some f}))"
proof -
  let ?body = "\<lambda>i s. case p_ofile (procs s par) i of None \<Rightarrow> Ok s
       | Some f \<Rightarrow> rbind (filedup f s) (\<lambda>(f, s). Ok (upd_proc np (\<lambda>p. p\<lparr>p_ofile := (p_ofile p)(i := Some f)\<rparr>) s))"
  have "rfold ?body [0..<n] s = Ok t \<Longrightarrow>
     procs t = (procs s)(np := (procs s np)\<lparr>p_ofile := (\<lambda>fd. if fd < n \<and> p_ofile (procs s par) fd \<noteq> None
             then p_ofile (procs s par) fd else p_ofile (procs s np) fd)\<rparr>) \<and> inodes t = inodes s \<and>
     (\<forall>f. f_ref (ftable t f) = f_ref (ftable s f) + int (card {fd. fd < n \<and> p_ofile (procs s par) fd = Some f}))" for n t
  proof (induction n arbitrary: t)
    case 0
    have "p\<lparr>p_ofile := p_ofile p\<rparr> = p" for p :: proc by (cases p) simp
    with 0 show ?case by simp
  next
    case (Suc n)
    from Suc.prems obtain u where u: "rfold ?body [0..<n] s = Ok u" and b: "?body n u = Ok t"
      by (auto simp: rfold_append)
    note IH = Suc.IH [OF u]
    note IH1 = IH [THEN conjunct1] and IH2 = IH [THEN conjunct2, THEN conjunct1]
      and IH3 = IH [THEN conjunct2, THEN conjunct2, rule_format]
    from IH1 assms(2) have par: "p_ofile (procs u par) = p_ofile (procs s par)" by simp
    show ?case
    proof (cases "p_ofile (procs s par) n")
      case None
      then have "t = u" using b par by simp
      have set: "{fd. fd < Suc n \<and> p_ofile (procs s par) fd = Some f} =
          {fd. fd < n \<and> p_ofile (procs s par) fd = Some f}" for f
        using None by (auto simp: less_Suc_eq)
      have fn: "(\<lambda>fd. if fd < Suc n \<and> p_ofile (procs s par) fd \<noteq> None then p_ofile (procs s par) fd
            else p_ofile (procs s np) fd) =
          (\<lambda>fd. if fd < n \<and> p_ofile (procs s par) fd \<noteq> None then p_ofile (procs s par) fd
            else p_ofile (procs s np) fd)"
        using None by (auto simp: fun_eq_iff less_Suc_eq)
      show ?thesis unfolding \<open>t = u\<close> set fn by (rule IH)
    next
      case (Some g)
      have set: "{fd. fd < Suc n \<and> p_ofile (procs s par) fd = Some f} =
          (if f = g then insert n {fd. fd < n \<and> p_ofile (procs s par) fd = Some f}
           else {fd. fd < n \<and> p_ofile (procs s par) fd = Some f})" for f
        using Some by (auto simp: less_Suc_eq)
      have t: "t = upd_proc np (\<lambda>p. p\<lparr>p_ofile := (p_ofile p)(n := Some g)\<rparr>)
          (upd_file g (\<lambda>f. f\<lparr>f_ref := f_ref f + 1\<rparr>) u)"
        using b par Some by (auto simp: filedup_def split: if_splits)
      have "inodes t = inodes s" using IH2 by (simp add: t upd_proc_def upd_file_def)
      moreover have "f_ref (ftable t f) = f_ref (ftable s f) + int (card {fd. fd < Suc n \<and> p_ofile (procs s par) fd = Some f})" for f
        using IH3 by (simp add: t upd_proc_def upd_file_def set)
      moreover have fn: "(\<lambda>fd. if fd < Suc n \<and> p_ofile (procs s par) fd \<noteq> None then p_ofile (procs s par) fd
            else p_ofile (procs s np) fd) =
          (\<lambda>fd. if fd < n \<and> p_ofile (procs s par) fd \<noteq> None then p_ofile (procs s par) fd
            else p_ofile (procs s np) fd)(n := Some g)"
        using Some by (auto simp: fun_eq_iff less_Suc_eq)
      moreover have "procs t = (procs s)(np := (procs s np)\<lparr>p_ofile := (\<lambda>fd. if fd < Suc n \<and> p_ofile (procs s par) fd \<noteq> None
             then p_ofile (procs s par) fd else p_ofile (procs s np) fd)\<rparr>)"
        unfolding fn t upd_proc_sel by (rule ext) (simp add: upd_file_def IH1)
      ultimately show ?thesis by blast
    qed
  qed
  with assms(1) show ?thesis by (simp add: copy_files_def)
qed

text \<open>What \<open>fork\<close> has done to the slot of the child, to the file table and to the inodes.\<close>

lemma fork_made:
  assumes ok: "fork page pgdir me s = Ok (r, t)" and r: "r \<noteq> -1" and me: "p_state (procs s me) \<noteq> UNUSED"
  obtains i where "i < NPROC" "r = nextpid s" "p_state (procs s i) = UNUSED" "\<forall>j<i. p_state (procs s j) \<noteq> UNUSED"
    "procs t = (procs s)(i := procs t i)"
    "p_pid (procs t i) = r \<and> p_state (procs t i) = RUNNABLE \<and> p_parent (procs t i) = Some me \<and>
      p_sz (procs t i) = p_sz (procs s me) \<and> p_tf (procs t i) = (p_tf (procs s me))\<lparr>tf_eax := 0\<rparr> \<and>
      p_cwd (procs t i) = p_cwd (procs s me) \<and>
      (\<forall>fd<NOFILE. p_ofile (procs s me) fd \<noteq> None \<longrightarrow> p_ofile (procs t i) fd = p_ofile (procs s me) fd) \<and>
      p_killed (procs t i) = p_killed (procs s i) \<and> p_custom_handler (procs t i) = p_custom_handler (procs s i) \<and>
      p_tf1 (procs t i) = p_tf1 (procs s i)"
    "\<And>f. f_ref (ftable t f) = f_ref (ftable s f) + int (card {fd. fd < NOFILE \<and> p_ofile (procs s me) fd = Some f})"
    "\<And>n. i_ref (inodes t n) = i_ref (inodes s n) + (if p_cwd (procs s me) = Some n then 1 else 0)"
proof -
  from ok [unfolded fork_def] show ?thesis
  proof (cases rule: spawn_cases)
    case (made i k pd c)
    let ?a = "(s\<lparr>nextpid := nextpid s + 1\<rparr>)\<lparr>procs :=
         (procs s)(i := (procs s i)\<lparr>p_state := EMBRYO, p_pid := nextpid s, p_kstack := k\<rparr>)\<rparr>"
    have ne: "me \<noteq> i" using made(2) me by auto
    let ?b = "upd_proc i (\<lambda>p. p\<lparr>p_pgdir := pd, p_sz := p_sz (procs s me), p_parent := Some me,
                p_tf := (p_tf (procs s me))\<lparr>tf_eax := 0\<rparr>\<rparr>) ?a"
    from made(6) ne obtain d cwd where d: "copy_files me i ?b = Ok d" and cwd: "p_cwd (procs s me) = Some cwd"
      and c: "c = upd_proc i (\<lambda>p. p\<lparr>p_cwd := Some cwd, p_name := safestrcpy (p_name p) (p_name (procs s me)) 16\<rparr>)
                (upd_inode cwd (\<lambda>ip. ip\<lparr>i_ref := i_ref ip + 1\<rparr>) d)"
      by (auto simp: copy_proc_def Let_def idup_def split: option.splits)
    note e = copy_files_exact [OF d ne]
    have pc: "procs t = (procs s)(i := procs t i)"
      using e ne by (simp add: made(8) c fun_eq_iff)
    have ft: "f_ref (ftable t f) = f_ref (ftable s f) + int (card {fd. fd < NOFILE \<and> p_ofile (procs s me) fd = Some f})" for f
      using e ne by (simp add: made(8) c upd_proc_def upd_inode_def)
    have it: "i_ref (inodes t n) = i_ref (inodes s n) + (if p_cwd (procs s me) = Some n then 1 else 0)" for n
      using e cwd by (simp add: made(8) c upd_proc_def upd_inode_def)
    show ?thesis
      by (rule that [OF made(1) _ made(2,5) pc _ ft it]) (use made(7) e ne cwd in \<open>simp_all add: made(8) c Let_def helper1_def\<close>)
  qed (use r in simp_all)
qed

text \<open>
  C15. \<open>fork\<close> gives the child a copy of its parent: memory size, registers except for the zero in \<open>eax\<close>,
  open files and directory, with one more reference to each of them; the child is runnable with a fresh
  identifier.  It takes over the kill mark, the signal handler and the saved registers of whoever used the
  slot before, because nothing resets them.  No other process changes.
\<close>

theorem fork_child:
  assumes ok: "fork page pgdir me s = Ok (r, t)" and r: "r \<noteq> -1" and me: "p_state (procs s me) \<noteq> UNUSED"
  shows "r = nextpid s \<and> (\<exists>i<NPROC. p_state (procs s i) = UNUSED \<and> (\<forall>j<i. p_state (procs s j) \<noteq> UNUSED) \<and> p_pid (procs t i) = r \<and>
      p_state (procs t i) = RUNNABLE \<and> p_parent (procs t i) = Some me \<and> p_sz (procs t i) = p_sz (procs s me) \<and>
      p_tf (procs t i) = (p_tf (procs s me))\<lparr>tf_eax := 0\<rparr> \<and> p_cwd (procs t i) = p_cwd (procs s me) \<and>
      (\<forall>fd<NOFILE. p_ofile (procs s me) fd \<noteq> None \<longrightarrow> p_ofile (procs t i) fd = p_ofile (procs s me) fd) \<and>
      p_killed (procs t i) = p_killed (procs s i) \<and> p_custom_handler (procs t i) = p_custom_handler (procs s i) \<and>
      p_tf1 (procs t i) = p_tf1 (procs s i) \<and> (\<forall>j. j \<noteq> i \<longrightarrow> procs t j = procs s j)) \<and>
    (\<forall>f. f_ref (ftable t f) = f_ref (ftable s f) + int (card {fd. fd < NOFILE \<and> p_ofile (procs s me) fd = Some f})) \<and>
    (\<forall>n. i_ref (inodes t n) = i_ref (inodes s n) + (if p_cwd (procs s me) = Some n then 1 else 0))"
proof -
  from fork_made [OF assms] obtain i where i: "i < NPROC" "r = nextpid s" "p_state (procs s i) = UNUSED"
    "\<forall>j<i. p_state (procs s j) \<noteq> UNUSED" "procs t = (procs s)(i := procs t i)"
    "p_pid (procs t i) = r \<and> p_state (procs t i) = RUNNABLE \<and> p_parent (procs t i) = Some me \<and>
      p_sz (procs t i) = p_sz (procs s me) \<and> p_tf (procs t i) = (p_tf (procs s me))\<lparr>tf_eax := 0\<rparr> \<and>
      p_cwd (procs t i) = p_cwd (procs s me) \<and>
      (\<forall>fd<NOFILE. p_ofile (procs s me) fd \<noteq> None \<longrightarrow> p_ofile (procs t i) fd = p_ofile (procs s me) fd) \<and>
      p_killed (procs t i) = p_killed (procs s i) \<and> p_custom_handler (procs t i) = p_custom_handler (procs s i) \<and>
      p_tf1 (procs t i) = p_tf1 (procs s i)"
    "\<And>f. f_ref (ftable t f) = f_ref (ftable s f) + int (card {fd. fd < NOFILE \<and> p_ofile (procs s me) fd = Some f})"
    "\<And>n. i_ref (inodes t n) = i_ref (inodes s n) + (if p_cwd (procs s me) = Some n then 1 else 0)"
    by blast
  have "\<forall>j. j \<noteq> i \<longrightarrow> procs t j = procs s j" using i(5) by (metis fun_upd_other)
  with i show ?thesis by (intro conjI exI [of _ i]) auto
qed

text \<open>A parent with one open file.\<close>

definition parent_state :: sched_state where
  "parent_state = zero_sched\<lparr>procs := (\<lambda>_. unused_proc)(0 := unused_proc\<lparr>p_state := RUNNING, p_pid := 3,
       p_ofile := (\<lambda>_. None)(1 := Some 0), p_cwd := Some 0\<rparr>), cpu_proc := Some 0, nextpid := 4,
     ftable := (\<lambda>_. zero_ofile)(0 := zero_ofile\<lparr>f_ref := 1\<rparr>)\<rparr>"

lemma parent_procs [simp]:
  "procs parent_state 0 = unused_proc\<lparr>p_state := RUNNING, p_pid := 3, p_ofile := (\<lambda>_. None)(1 := Some 0), p_cwd := Some 0\<rparr>"
  "0 < i \<Longrightarrow> procs parent_state i = unused_proc" "nextpid parent_state = 4"
  "ftable parent_state = (\<lambda>_. zero_ofile)(0 := zero_ofile\<lparr>f_ref := 1\<rparr>)"
  by (simp_all add: parent_state_def)

lemma upd_proc_tables [simp]: "ftable (upd_proc i f s) = ftable s"
  by (simp add: upd_proc_def)

lemma fork_runs:
  assumes "first_index (\<lambda>i. p_state (procs s i) = UNUSED) NPROC = Some 1" "procs s 0 = procs parent_state 0"
    "f_ref (ftable s 0) = 1"
  shows "\<exists>t. fork (Some 4096) (Some 8192) 0 s = Ok (nextpid s, t)"
  using assms(2,3)
  by (simp add: fork_def spawn_def allocproc_def assms(1) copy_proc_def copy_files_def filedup_def idup_def Let_def
      upt_rec [of _ 16] unused_proc_def)

theorem fork_child_witness:
  "\<exists>t. fork (Some 4096) (Some 8192) 0 parent_state = Ok (4, t) \<and>
     p_state (procs t 1) = RUNNABLE \<and> p_parent (procs t 1) = Some 0 \<and> p_ofile (procs t 1) 1 = Some 0"
proof -
  have f: "first_index (\<lambda>i. p_state (procs parent_state i) = UNUSED) NPROC = Some 1"
    by (simp add: first_index_Some unused_proc_def)
  then obtain t where t: "fork (Some 4096) (Some 8192) 0 parent_state = Ok (4, t)"
    using fork_runs [OF f] by (auto simp: zero_ofile_def)
  from fork_child [OF t] obtain i where i: "p_state (procs parent_state i) = UNUSED"
    "\<forall>j<i. p_state (procs parent_state j) \<noteq> UNUSED"
    "p_state (procs t i) = RUNNABLE" "p_parent (procs t i) = Some 0"
    "\<forall>fd<NOFILE. p_ofile (procs parent_state 0) fd \<noteq> None \<longrightarrow> p_ofile (procs t i) fd = p_ofile (procs parent_state 0) fd"
    by auto
  have "i \<noteq> 0" using i(1) by (cases i) auto
  moreover have "\<not> 1 < i" using i(2) [rule_format, of 1] by (auto simp: unused_proc_def)
  ultimately have "i = 1" by simp
  with t i(3-5) show ?thesis by simp
qed

text \<open>
  \<open>kill\<close> with identifier 0 reports success on an unused slot and marks it; the next process that \<open>fork\<close>
  puts there is born killed.
\<close>

theorem kill_zero_poisons:
  assumes free: "\<forall>j<i. p_pid (procs s j) \<noteq> 0 \<and> p_state (procs s j) \<noteq> UNUSED"
    and i: "i < NPROC" "p_pid (procs s i) = 0" "p_state (procs s i) = UNUSED"
    and me: "p_state (procs s me) \<noteq> UNUSED"
    and f: "fork page pgdir me (snd (kill 0 s)) = Ok (r, t)" "r \<noteq> -1"
  shows "fst (kill 0 s) = 0 \<and> p_pid (procs t i) = r \<and> p_state (procs t i) = RUNNABLE \<and> p_killed (procs t i)"
proof -
  have "first_index (\<lambda>j. p_pid (procs s j) = 0) NPROC = Some i"
    using free i by (simp add: first_index_Some)
  then have k: "kill 0 s = (0, upd_proc i (\<lambda>p. p\<lparr>p_killed := True,
      p_state := (if p_state p = SLEEPING then RUNNABLE else p_state p)\<rparr>) s)"
    by (simp add: kill_def)
  let ?s = "snd (kill 0 s)"
  have st: "p_state (procs ?s j) = UNUSED \<longleftrightarrow> p_state (procs s j) = UNUSED" for j by (simp add: k)
  from fork_made [OF f] me obtain j where
    j: "p_state (procs ?s j) = UNUSED" "\<forall>n<j. p_state (procs ?s n) \<noteq> UNUSED" "p_pid (procs t j) = r"
      "p_state (procs t j) = RUNNABLE" "p_killed (procs t j) = p_killed (procs ?s j)"
    by (auto simp: st)
  have "\<not> j < i" using free j(1) by (auto simp: st)
  moreover have "\<not> i < j" using j(2) i(3) by (auto simp: st)
  ultimately have "j = i" by simp
  with j show ?thesis by (simp add: k)
qed

theorem kill_zero_poisons_witness:
  "fst (kill 0 parent_state) = 0 \<and>
   (\<exists>t. fork (Some 4096) (Some 8192) 0 (snd (kill 0 parent_state)) = Ok (4, t) \<and> p_killed (procs t 1))"
proof -
  have "first_index (\<lambda>i. p_pid (procs parent_state i) = 0) NPROC = Some 1"
    by (simp add: first_index_Some unused_proc_def)
  then have k: "kill 0 parent_state = (0, upd_proc 1 (\<lambda>p. p\<lparr>p_killed := True,
      p_state := (if p_state p = SLEEPING then RUNNABLE else p_state p)\<rparr>) parent_state)"
    by (simp add: kill_def)
  let ?s = "snd (kill 0 parent_state)"
  have "first_index (\<lambda>i. p_state (procs ?s i) = UNUSED) NPROC = Some 1"
    by (simp add: first_index_Some k unused_proc_def)
  from fork_runs [OF this] obtain t where t: "fork (Some 4096) (Some 8192) 0 ?s = Ok (4, t)"
    by (auto simp: k zero_ofile_def upd_proc_def)
  have "\<forall>j<1. p_pid (procs parent_state j) \<noteq> 0 \<and> p_state (procs parent_state j) \<noteq> UNUSED" by simp
  from kill_zero_poisons [OF this _ _ _ _ t] show ?thesis using t by (simp add: unused_proc_def)
qed

end
