(* ===== verification/Syscall.thy ===== *)
theory Syscall imports Signals begin

text \<open>
  The system-call layer of the first assignment (\<open>syscall.c\<close>, \<open>sysproc.c\<close>, the history and the
  blocking of calls in \<open>proc.c\<close>): fetching arguments from user memory, the dispatcher with its
  blocking rule, and the calls.  \<open>umem\<close> is the memory of the process on the processor as its page table
  shows it.  The page and the page table that \<open>fork\<close> gets from \<open>kalloc\<close> and \<open>copyuvm\<close>, the page of a new
  pipe, and the two calls that only deal with memory, \<open>exec\<close> and \<open>sbrk\<close>, are a value of type \<open>vm_calls\<close>.
\<close>

abbreviation (input) MAX_SYSCALLS :: nat where "MAX_SYSCALLS \<equiv> 26"
abbreviation (input) MAX_HISTORY :: nat where "MAX_HISTORY \<equiv> 64"

section \<open>State\<close>

record history_entry =
  h_pid :: int
  h_name :: bytes
  h_mem_usage :: u32
  h_completed :: bool

record sys_state = sched_state +
  umem :: "u32 \<Rightarrow> u8"
  history :: "nat \<Rightarrow> history_entry"
  history_count :: nat
  blocked_syscalls :: "nat \<Rightarrow> int"
  which_pid_blocked_it :: "nat \<Rightarrow> int"

section \<open>Arguments\<close>

definition fetchint :: "u32 \<Rightarrow> 'a sys_state_scheme \<Rightarrow> u32 option" where
  "fetchint addr s =
     (let sz = p_sz (myproc s) in
      if addr \<ge> sz \<or> addr + 4 > sz then None
      else Some (dec32 [umem s addr, umem s (addr + 1), umem s (addr + 2), umem s (addr + 3)]))"

primrec fetchstr_scan :: "(u32 \<Rightarrow> u8) \<Rightarrow> u32 \<Rightarrow> nat \<Rightarrow> bytes option" where
  "fetchstr_scan m a 0 = None"
| "fetchstr_scan m a (Suc n) =
     (if m a = 0 then Some [] else map_option (\<lambda>bs. m a # bs) (fetchstr_scan m (a + 1) n))"

definition fetchstr :: "u32 \<Rightarrow> 'a sys_state_scheme \<Rightarrow> bytes option" where
  "fetchstr addr s =
     (let sz = p_sz (myproc s) in
      if addr \<ge> sz then None else fetchstr_scan (umem s) addr (unat sz - unat addr))"

definition argword :: "nat \<Rightarrow> 'a sys_state_scheme \<Rightarrow> u32 option" where
  "argword n s = fetchint (tf_esp (p_tf (myproc s)) + 4 + 4 * word_of_nat n) s"

definition argint :: "nat \<Rightarrow> 'a sys_state_scheme \<Rightarrow> int option" where
  "argint n s = map_option sint (argword n s)"

definition argptr :: "nat \<Rightarrow> int \<Rightarrow> 'a sys_state_scheme \<Rightarrow> u32 option" where
  "argptr n len s =
     (case argword n s of
        None \<Rightarrow> None
      | Some i \<Rightarrow>
        let sz = p_sz (myproc s) in
        if len < 0 \<or> i \<ge> sz \<or> i + word_of_int len > sz then None else Some i)"

definition argstr :: "nat \<Rightarrow> 'a sys_state_scheme \<Rightarrow> bytes option" where
  "argstr n s = (case argword n s of None \<Rightarrow> None | Some addr \<Rightarrow> fetchstr addr s)"

text \<open>What the kernel reads from and writes to a buffer of the process.\<close>

definition get_user :: "u32 \<Rightarrow> int \<Rightarrow> 'a sys_state_scheme \<Rightarrow> bytes" where
  "get_user p n s = map (\<lambda>k. umem s (p + word_of_nat k)) [0..<nat n]"

definition put_user :: "u32 \<Rightarrow> bytes \<Rightarrow> 'a sys_state_scheme \<Rightarrow> 'a sys_state_scheme" where
  "put_user p bs s =
     s\<lparr>umem := (\<lambda>a. if unat (a - p) < length bs then bs ! unat (a - p) else umem s a)\<rparr>"

section \<open>The history of programs\<close>

definition name_is :: "string \<Rightarrow> bytes \<Rightarrow> bool" where
  "name_is str name \<longleftrightarrow> strncmp name (map of_char str) 0 (length str) = 0 \<and> ld name (length str) = 0"

definition add_to_history :: "proc \<Rightarrow> 'a sys_state_scheme \<Rightarrow> 'a sys_state_scheme" where
  "add_to_history p s =
     (if p_pid p \<le> 2 \<or> name_is ''init'' (p_name p) then s
      else
        let s = (if history_count s \<ge> MAX_HISTORY
                 then s\<lparr>history := fold (\<lambda>i h. h(i - 1 := h i)) [1..<MAX_HISTORY] (history s),
                        history_count := history_count s - 1\<rparr>
                 else s);
            n = history_count s
        in s\<lparr>history := (history s)(n := \<lparr>h_pid = p_pid p,
               h_name = safestrcpy (h_name (history s n)) (p_name p) 16, h_mem_usage = p_sz p, h_completed = False\<rparr>),
             history_count := n + 1\<rparr>)"

definition mark_completed :: "int \<Rightarrow> 'a sys_state_scheme \<Rightarrow> 'a sys_state_scheme" where
  "mark_completed pid s =
     (case first_index (\<lambda>i. h_pid (history s i) = pid) (history_count s) of
        None \<Rightarrow> s
      | Some i \<Rightarrow> s\<lparr>history := (history s)(i := (history s i)\<lparr>h_completed := True\<rparr>)\<rparr>)"

definition put_text :: "bytes \<Rightarrow> 'a fs_state_scheme \<Rightarrow> 'a fs_state_scheme res" where
  "put_text bs s = rbind (console_puts bs (scr (cons s))) (\<lambda>t. Ok (s\<lparr>cons := (cons s)\<lparr>scr := t\<rparr>\<rparr>))"

definition put_int :: "int \<Rightarrow> 'a fs_state_scheme \<Rightarrow> 'a fs_state_scheme res" where
  "put_int n s = rbind (printint (word_of_int n) 10 True (scr (cons s))) (\<lambda>t. Ok (s\<lparr>cons := (cons s)\<lparr>scr := t\<rparr>\<rparr>))"

definition gethistory2 :: "'a sys_state_scheme \<Rightarrow> (int \<times> 'a sys_state_scheme) res" where
  "gethistory2 s =
     rbind (rfold (\<lambda>i s.
       if h_completed (history s i) then
         let s = (if name_is ''sh'' (h_name (history s i))
                  then s\<lparr>history := (history s)(i := (history s i)\<lparr>h_mem_usage := 16384\<rparr>)\<rparr> else s);
             h = history s i
         in rbind (put_int (h_pid h) s) (\<lambda>s.
            rbind (say '' '' s) (\<lambda>s.
            rbind (put_text (cstr 16 (h_name h)) s) (\<lambda>s.
            rbind (say '' '' s) (\<lambda>s.
            rbind (put_int (sint (h_mem_usage h)) s) (say ''\<newline>'')))))
       else Ok s) [0..<history_count s] s) (\<lambda>s.
     Ok (int (history_count s), s))"

section \<open>Blocking calls\<close>

definition block_dummy :: "'a sys_state_scheme \<Rightarrow> int \<times> 'a sys_state_scheme" where
  "block_dummy s =
     (case argint 0 s of
        None \<Rightarrow> (-1, s)
      | Some syscall_id \<Rightarrow>
        if syscall_id < 0 \<or> syscall_id \<ge> int MAX_SYSCALLS \<or> syscall_id = 1 \<or> syscall_id = 2 then (-1, s)
        else
          let k = nat syscall_id; pid = p_pid (myproc s);
              s = s\<lparr>blocked_syscalls := (blocked_syscalls s)(k := 1)\<rparr>;
              s = (if which_pid_blocked_it s k = 0
                   then s\<lparr>which_pid_blocked_it := (which_pid_blocked_it s)(k := pid)\<rparr> else s);
              s = (if which_pid_blocked_it s k > pid
                   then s\<lparr>which_pid_blocked_it := (which_pid_blocked_it s)(k := pid)\<rparr> else s)
          in (0, s))"

definition unblock_dummy :: "'a sys_state_scheme \<Rightarrow> int \<times> 'a sys_state_scheme" where
  "unblock_dummy s =
     (case argint 0 s of
        None \<Rightarrow> (-1, s)
      | Some syscall_id \<Rightarrow>
        if syscall_id < 0 \<or> syscall_id \<ge> int MAX_SYSCALLS then (-1, s)
        else
          let k = nat syscall_id in
          if which_pid_blocked_it s k \<ge> p_pid (myproc s)
          then (0, s\<lparr>blocked_syscalls := (blocked_syscalls s)(k := 0),
                     which_pid_blocked_it := (which_pid_blocked_it s)(k := 0)\<rparr>)
          else (0, s))"

text \<open>\<open>kill\<close> first lifts the blocks of the process.\<close>

definition lift_blocks :: "int \<Rightarrow> 'a sys_state_scheme \<Rightarrow> 'a sys_state_scheme" where
  "lift_blocks pid s =
     fold (\<lambda>i s.
       if pid = which_pid_blocked_it s i
       then s\<lparr>which_pid_blocked_it := (which_pid_blocked_it s)(i := 0), blocked_syscalls := (blocked_syscalls s)(i := 0)\<rparr>
       else s) [0..<MAX_SYSCALLS] s"

definition kill_unblock :: "int \<Rightarrow> 'a sys_state_scheme \<Rightarrow> int \<times> 'a sys_state_scheme" where
  "kill_unblock pid s = kill pid (lift_blocks pid s)"

section \<open>Processes\<close>

definition fork_unblocked :: "u32 option \<Rightarrow> u32 option \<Rightarrow> nat \<Rightarrow> 'a sched_state_scheme \<Rightarrow> (int \<times> 'a sched_state_scheme) res" where
  "fork_unblocked = spawn (\<lambda>t p. p\<lparr>p_to_be_blocked := 0, p_state := RUNNABLE\<rparr>)"

definition exit_marked :: "nat \<Rightarrow> 'a sys_state_scheme \<Rightarrow> 'a sys_state_scheme res" where
  "exit_marked me s =
     (if me = initproc s then Panic ''init exiting''
      else
        rbind (close_files me s) (\<lambda>s.
        rbind (begin_op s) (\<lambda>s.
        case p_cwd (procs s me) of
          None \<Rightarrow> Undefined ''iput''
        | Some cwd \<Rightarrow>
          rbind (iput cwd s) (\<lambda>s.
          rbind (end_op s) (\<lambda>s.
          let s = upd_proc me (\<lambda>p. p\<lparr>p_cwd := None\<rparr>) s;
              s = (case p_parent (procs s me) of None \<Rightarrow> s | Some par \<Rightarrow> wakeup (ChProc par) s);
              s = reparent me (initproc s) s;
              s = mark_completed (p_pid (procs s me)) s
          in Ok (upd_proc me (\<lambda>p. p\<lparr>p_state := ZOMBIE\<rparr>) s))))))"

text \<open>\<open>ticks - ticks0\<close> is unsigned, so the argument of \<open>sleep\<close> is compared as an unsigned number.\<close>

definition sys_sleep :: "'a sys_state_scheme \<Rightarrow> (int \<times> 'a sys_state_scheme) res" where
  "sys_sleep s =
     (case argword 0 s of
        None \<Rightarrow> Ok (-1, s)
      | Some n \<Rightarrow> if 0 < n then (if p_killed (myproc s) then Ok (-1, s) else Waits) else Ok (0, s))"


section \<open>The table of calls\<close>

text \<open>What the memory subsystem contributes to a call.\<close>

record 's vm_calls =
  new_kstack :: "u32 option"
  new_pgdir :: "u32 option"
  new_pipe :: "nat option"
  exec_call :: "bytes \<Rightarrow> bytes list \<Rightarrow> 's \<Rightarrow> (int \<times> 's) res"
  growproc_call :: "int \<Rightarrow> 's \<Rightarrow> (int \<times> 's) res"

text \<open>\<open>struct stat\<close> in user memory: the fields at their offsets, the padding as it was.\<close>

definition put_stat :: "u32 \<Rightarrow> stat option \<Rightarrow> 'a sys_state_scheme \<Rightarrow> 'a sys_state_scheme" where
  "put_stat p st s =
     (case st of
        None \<Rightarrow> s
      | Some st \<Rightarrow>
        put_user p (enc16 (st_type st)) (put_user (p + 4) (enc32 (word_of_int (st_dev st)))
        (put_user (p + 8) (enc32 (st_ino st)) (put_user (p + 12) (enc16 (st_nlink st))
        (put_user (p + 16) (enc32 (st_size st)) s)))))"

definition call_read :: "'a sys_state_scheme \<Rightarrow> (int \<times> 'a sys_state_scheme) res" where
  "call_read s =
     (let n = argint 2 s; p = (case n of None \<Rightarrow> None | Some n \<Rightarrow> argptr 1 n s) in
      rbind (sys_read (argint 0 s) n (p \<noteq> None) s) (\<lambda>(r, bs, s).
      Ok (r, case p of None \<Rightarrow> s | Some p \<Rightarrow> put_user p bs s)))"

definition call_write :: "'a sys_state_scheme \<Rightarrow> (int \<times> 'a sys_state_scheme) res" where
  "call_write s =
     (let buf = (case argint 2 s of None \<Rightarrow> None | Some n \<Rightarrow> map_option (\<lambda>p. get_user p n s) (argptr 1 n s))
      in sys_write (argint 0 s) buf s)"

definition call_pipe :: "nat option \<Rightarrow> 'a sys_state_scheme \<Rightarrow> (int \<times> 'a sys_state_scheme) res" where
  "call_pipe page s =
     (case argptr 0 8 s of
        None \<Rightarrow> Ok (-1, s)
      | Some p \<Rightarrow>
          rbind (sys_pipe True page s) (\<lambda>(r, fds, s).
          Ok (r, case fds of
                   None \<Rightarrow> s
                 | Some (fd0, fd1) \<Rightarrow> put_user p (enc32 (word_of_int fd0) @ enc32 (word_of_int fd1)) s)))"

definition call_fstat :: "'a sys_state_scheme \<Rightarrow> (int \<times> 'a sys_state_scheme) res" where
  "call_fstat s =
     (let p = argptr 1 20 s in
      rbind (sys_fstat (argint 0 s) (p \<noteq> None) s) (\<lambda>(r, st, s).
      Ok (r, case p of None \<Rightarrow> s | Some p \<Rightarrow> put_stat p st s)))"

primrec fetch_argv :: "u32 \<Rightarrow> nat list \<Rightarrow> 'a sys_state_scheme \<Rightarrow> bytes list option" where
  "fetch_argv uargv [] s = None"
| "fetch_argv uargv (i # is) s =
     (case fetchint (uargv + 4 * word_of_nat i) s of
        None \<Rightarrow> None
      | Some uarg \<Rightarrow>
        if uarg = 0 then Some []
        else (case fetchstr uarg s of
                None \<Rightarrow> None
              | Some str \<Rightarrow> map_option (\<lambda>argv. str # argv) (fetch_argv uargv is s)))"

definition sys_exec :: "(bytes \<Rightarrow> bytes list \<Rightarrow> 'a sys_state_scheme \<Rightarrow> (int \<times> 'a sys_state_scheme) res) \<Rightarrow>
    'a sys_state_scheme \<Rightarrow> (int \<times> 'a sys_state_scheme) res" where
  "sys_exec ex s =
     (case (argstr 0 s, argword 1 s) of
        (Some path, Some uargv) \<Rightarrow>
          rbind (sys_exec_check path s) (\<lambda>(ok, s).
          if \<not> ok then Ok (-1, s)
          else (case fetch_argv uargv [0..<32] s of None \<Rightarrow> Ok (-1, s) | Some argv \<Rightarrow> ex path argv s))
      | _ \<Rightarrow> Ok (-1, s))"

definition sys_sbrk :: "(int \<Rightarrow> 'a sys_state_scheme \<Rightarrow> (int \<times> 'a sys_state_scheme) res) \<Rightarrow>
    'a sys_state_scheme \<Rightarrow> (int \<times> 'a sys_state_scheme) res" where
  "sys_sbrk grow s =
     (case argint 0 s of
        None \<Rightarrow> Ok (-1, s)
      | Some n \<Rightarrow>
        let addr = sint (p_sz (myproc s)) in
        rbind (grow n s) (\<lambda>(r, s). if r < 0 then Ok (-1, s) else Ok (addr, s)))"

definition sys_kill :: "'a sys_state_scheme \<Rightarrow> (int \<times> 'a sys_state_scheme) res" where
  "sys_kill s = (case argint 0 s of None \<Rightarrow> Ok (-1, s) | Some pid \<Rightarrow> Ok (kill_unblock pid s))"

definition NELEM_syscalls :: int where "NELEM_syscalls = 26"

definition syscalls :: "'a sys_state_scheme vm_calls \<Rightarrow> nat \<Rightarrow> 'a sys_state_scheme \<Rightarrow> (int \<times> 'a sys_state_scheme) res" where
  "syscalls vm num s =
     (if num = 1 then fork_unblocked (new_kstack vm) (new_pgdir vm) (cur s) s
      else if num = 2 then rbind (exit_marked (cur s) s) (\<lambda>s. Ok (0, s))
      else if num = 3 then wait (cur s) s
      else if num = 4 then call_pipe (new_pipe vm) s
      else if num = 5 then call_read s
      else if num = 6 then sys_kill s
      else if num = 7 then sys_exec (exec_call vm) s
      else if num = 8 then call_fstat s
      else if num = 9 then sys_chdir (argstr 0 s) s
      else if num = 10 then sys_dup (argint 0 s) s
      else if num = 11 then Ok (p_pid (myproc s), s)
      else if num = 12 then sys_sbrk (growproc_call vm) s
      else if num = 13 then sys_sleep s
      else if num = 14 then Ok (sint (ticks s), s)
      else if num = 15 then sys_open (argstr 0 s) (argword 1 s) s
      else if num = 16 then call_write s
      else if num = 17 then sys_mknod (argstr 0 s) (argint 1 s) (argint 2 s) s
      else if num = 18 then sys_unlink (argstr 0 s) s
      else if num = 19 then sys_link (argstr 0 s) (argstr 1 s) s
      else if num = 20 then sys_mkdir (argstr 0 s) s
      else if num = 21 then sys_close (argint 0 s) s
      else if num = 22 then gethistory2 s
      else if num = 23 then Ok (block_dummy s)
      else if num = 24 then Ok (unblock_dummy s)
      else if num = 25 then sys_chmod (argstr 0 s) (argint 1 s) s
      else Undefined ''no such call'')"

text \<open>
  The dispatcher.  A process that has not yet called \<open>exec\<close> is judged by the pid of its parent.  A call
  of \<open>exit\<close> does not come back to store its result.
\<close>

definition set_eax :: "int \<Rightarrow> nat \<Rightarrow> 'a sys_state_scheme \<Rightarrow> 'a sys_state_scheme" where
  "set_eax r me s = upd_proc me (\<lambda>p. p\<lparr>p_tf := (p_tf p)\<lparr>tf_eax := word_of_int r\<rparr>\<rparr>) s"

definition refuse :: "int \<Rightarrow> nat \<Rightarrow> 'a sys_state_scheme \<Rightarrow> 'a sys_state_scheme res" where
  "refuse num me s =
     rbind (say ''syscall '' s) (\<lambda>s.
     rbind (put_int num s) (\<lambda>s.
     rbind (say '' is blocked\<newline>'' s) (\<lambda>s. Ok (set_eax (-1) me s))))"

definition do_call :: "'a sys_state_scheme vm_calls \<Rightarrow> int \<Rightarrow> nat \<Rightarrow> 'a sys_state_scheme \<Rightarrow> 'a sys_state_scheme res" where
  "do_call vm num me s =
     (let s = (if p_to_be_blocked (procs s me) = 0 \<and> num = 7
               then upd_proc me (\<lambda>p. p\<lparr>p_to_be_blocked := p_to_be_blocked p + 1\<rparr>) s else s)
      in rbind (syscalls vm (nat num) s) (\<lambda>(r, s). Ok (if num = 2 then s else set_eax r me s)))"

definition unknown_call :: "int \<Rightarrow> nat \<Rightarrow> 'a sys_state_scheme \<Rightarrow> 'a sys_state_scheme res" where
  "unknown_call num me s =
     rbind (put_int (p_pid (procs s me)) s) (\<lambda>s.
     rbind (say '' '' s) (\<lambda>s.
     rbind (put_text (cstr 16 (p_name (procs s me))) s) (\<lambda>s.
     rbind (say '': unknown sys call '' s) (\<lambda>s.
     rbind (put_int num s) (\<lambda>s.
     rbind (say ''\<newline>'' s) (\<lambda>s. Ok (set_eax (-1) me s)))))))"

definition syscall :: "'a sys_state_scheme vm_calls \<Rightarrow> 'a sys_state_scheme \<Rightarrow> 'a sys_state_scheme res" where
  "syscall vm s =
     (let me = cur s; p = procs s me; num = sint (tf_eax (p_tf p)) in
      if num > 0 \<and> num < NELEM_syscalls then
        if blocked_syscalls s (nat num) \<noteq> 0 \<and> p_pid p > 2 then
          if p_to_be_blocked p = 1 \<and> p_pid p > which_pid_blocked_it s (nat num) then refuse num me s
          else if p_to_be_blocked p = 0 then
            (case p_parent p of
               None \<Rightarrow> Undefined ''parent''
             | Some par \<Rightarrow>
                 if p_pid (procs s par) > which_pid_blocked_it s (nat num) then refuse num me s
                 else do_call vm num me s)
          else do_call vm num me s
        else do_call vm num me s
      else unknown_call num me s)"

section \<open>Arguments stay inside the process\<close>

text \<open>The user part of the address space ends at \<open>KERNBASE\<close>.\<close>

lemma fetchint_bounds:
  assumes "p_sz (myproc s) \<le> 0x80000000" and "fetchint addr s = Some w"
  shows "unat addr + 4 \<le> unat (p_sz (myproc s))"
proof -
  have a: "addr < p_sz (myproc s)" "addr + 4 \<le> p_sz (myproc s)"
    using assms(2) by (auto simp: fetchint_def Let_def not_le split: if_splits)
  have "unat addr < 0x80000000"
    using a(1) assms(1) by (simp add: word_less_nat_alt word_le_nat_alt)
  then have "unat (addr + 4) = unat addr + 4"
    by (simp add: unat_word_ariths)
  with a(2) show ?thesis by (simp add: word_le_nat_alt)
qed

lemma fetchstr_scan_Some:
  "fetchstr_scan m a n = Some bs \<Longrightarrow>
     length bs < n \<and> 0 \<notin> set bs \<and> m (a + word_of_nat (length bs)) = 0 \<and>
     (\<forall>k<length bs. bs ! k = m (a + word_of_nat k))"
proof (induction n arbitrary: a bs)
  case (Suc n)
  show ?case
  proof (cases "m a = 0")
    case True
    with Suc.prems show ?thesis by simp
  next
    case False
    with Suc.prems obtain cs where cs: "fetchstr_scan m (a + 1) n = Some cs" "bs = m a # cs" by auto
    from Suc.IH [OF cs(1)] cs(2) False show ?thesis
      by (auto simp: nth_Cons add.assoc split: nat.splits)
  qed
qed simp

lemma fetchstr_scan_None: "fetchstr_scan m a n = None \<Longrightarrow> k < n \<Longrightarrow> m (a + word_of_nat k) \<noteq> 0"
proof (induction n arbitrary: a k)
  case (Suc n)
  from Suc.prems(1) have a: "m a \<noteq> 0" "fetchstr_scan m (a + 1) n = None" by (auto split: if_splits)
  show ?case
  proof (cases k)
    case (Suc j)
    from Suc.IH [OF a(2), of j] Suc.prems(2) \<open>k = Suc j\<close> show ?thesis by (simp add: add.assoc)
  qed (use a in simp)
qed simp

lemma argptr_bounds:
  assumes sz: "p_sz (myproc s) \<le> 0x80000000" and "argptr n len s = Some p" and "len < 2 ^ 31"
  shows "0 \<le> len \<and> unat p + nat len \<le> unat (p_sz (myproc s))"
proof -
  have a: "0 \<le> len" "p < p_sz (myproc s)" "p + word_of_int len \<le> p_sz (myproc s)"
    using assms(2) by (auto simp: argptr_def Let_def not_le not_less split: if_splits option.splits)
  have w: "unat (word_of_int len :: u32) = nat len"
  proof -
    have "word_of_int len = (word_of_nat (nat len) :: u32)" using a(1) by simp
    moreover have "nat len < 2 ^ 32" using assms(3) by simp
    ultimately show ?thesis by (simp only: unat_of_nat) (simp add: take_bit_nat_eq_self mod_less)
  qed
  have "unat p < 0x80000000" using a(2) sz by (simp add: word_less_nat_alt word_le_nat_alt)
  moreover have "nat len < 0x80000000" using assms(3) by simp
  ultimately have "unat (p + word_of_int len) = unat p + nat len"
    by (simp add: unat_word_ariths w)
  with a show ?thesis by (simp add: word_le_nat_alt)
qed

text \<open>C22. With at most 2 GB of user memory, an argument that the kernel accepts lies inside the
  process: a word with its four bytes, a buffer with all its bytes; a string is accepted exactly when its
  terminating zero lies inside, and then it is the bytes before that zero.\<close>

theorem user_args_in_bounds:
  assumes "p_sz (myproc s) \<le> 0x80000000"
  shows "(\<forall>w. argword n s = Some w \<longrightarrow>
            unat (tf_esp (p_tf (myproc s)) + 4 + 4 * word_of_nat n) + 4 \<le> unat (p_sz (myproc s))) \<and>
    (\<forall>len p. argptr n len s = Some p \<and> len < 2 ^ 31 \<longrightarrow> 0 \<le> len \<and> unat p + nat len \<le> unat (p_sz (myproc s))) \<and>
    (\<forall>addr bs. fetchstr addr s = Some bs \<longrightarrow> unat addr + length bs < unat (p_sz (myproc s)) \<and>
       0 \<notin> set bs \<and> umem s (addr + word_of_nat (length bs)) = 0 \<and>
       (\<forall>k<length bs. bs ! k = umem s (addr + word_of_nat k))) \<and>
    (\<forall>addr k. fetchstr addr s = None \<and> unat addr + k < unat (p_sz (myproc s)) \<longrightarrow>
       umem s (addr + word_of_nat k) \<noteq> 0)"
proof (intro conjI allI impI)
  show "unat (tf_esp (p_tf (myproc s)) + 4 + 4 * word_of_nat n) + 4 \<le> unat (p_sz (myproc s))"
    if "argword n s = Some w" for w
    using fetchint_bounds [OF assms] that by (simp add: argword_def)
  show "0 \<le> len" "unat p + nat len \<le> unat (p_sz (myproc s))" if "argptr n len s = Some p \<and> len < 2 ^ 31" for len p
    using argptr_bounds [OF assms] that by blast+
next
  fix addr bs
  assume "fetchstr addr s = Some bs"
  then have "fetchstr_scan (umem s) addr (unat (p_sz (myproc s)) - unat addr) = Some bs"
    by (simp add: fetchstr_def Let_def split: if_splits)
  note str = fetchstr_scan_Some [OF this]
  show "unat addr + length bs < unat (p_sz (myproc s))" "0 \<notin> set bs"
    "umem s (addr + word_of_nat (length bs)) = 0"
    using str by auto
  show "bs ! k = umem s (addr + word_of_nat k)" if "k < length bs" for k
    using str that by blast
next
  fix addr k
  assume *: "fetchstr addr s = None \<and> unat addr + k < unat (p_sz (myproc s))"
  then have "addr < p_sz (myproc s)" by (simp add: word_less_nat_alt)
  with * have "fetchstr_scan (umem s) addr (unat (p_sz (myproc s)) - unat addr) = None"
    by (simp add: fetchstr_def Let_def not_le [symmetric])
  from fetchstr_scan_None [OF this] * show "umem s (addr + word_of_nat k) \<noteq> 0" by auto
qed

section \<open>Who touches the blocks\<close>

definition same_blocks :: "'a sys_state_scheme \<Rightarrow> 'a sys_state_scheme \<Rightarrow> bool" where
  "same_blocks s t \<longleftrightarrow> blocked_syscalls t = blocked_syscalls s \<and> which_pid_blocked_it t = which_pid_blocked_it s"

interpretation blocks: kernel_frame same_blocks
  by unfold_locales (simp_all add: same_blocks_def wakeup_def)

lemma same_blocks_upd [simp, intro!]:
  "same_blocks s t \<Longrightarrow> same_blocks s (upd_proc i f t)"
  "same_blocks s t \<Longrightarrow> same_blocks s (t\<lparr>nextpid := n\<rparr>)"
  "same_blocks s t \<Longrightarrow> same_blocks s (t\<lparr>umem := m\<rparr>)"
  "same_blocks s t \<Longrightarrow> same_blocks s (t\<lparr>history := h\<rparr>)"
  "same_blocks s t \<Longrightarrow> same_blocks s (put_user p bs t)"
  "same_blocks s t \<Longrightarrow> same_blocks s (set_ofile fd fo t)"
  by (simp_all add: same_blocks_def upd_proc_def put_user_def set_ofile_def)

lemma put_stat_blocks [simp, intro!]: "same_blocks s t \<Longrightarrow> same_blocks s (put_stat p st t)"
  by (simp add: put_stat_def split: option.splits)

lemma put_text_wk [wk]: "same_blocks s t \<Longrightarrow> keeps same_blocks s (\<lambda>t. t) (put_text bs t)"
  by (auto simp: put_text_def intro!: keeps_console)

lemma put_int_wk [wk]: "same_blocks s t \<Longrightarrow> keeps same_blocks s (\<lambda>t. t) (put_int n t)"
  by (auto simp: put_int_def intro!: keeps_console)

lemma copy_files_blocks [wk]: "same_blocks s t \<Longrightarrow> keeps same_blocks s (\<lambda>t. t) (copy_files p np t)"
  unfolding copy_files_def
  by (rule blocks.copy_loop_wk) (auto split: option.splits intro!: keeps_binds blocks.filedup_wk)

lemma close_files_blocks [wk]: "same_blocks s t \<Longrightarrow> keeps same_blocks s (\<lambda>t. t) (close_files me t)"
  unfolding close_files_def
  by (rule blocks.copy_loop_wk) (auto split: option.splits intro!: keeps_binds blocks.fileclose_wk)

lemma copy_proc_blocks [wk]: "same_blocks s t \<Longrightarrow> keeps same_blocks s (\<lambda>t. t) (copy_proc p np pd t)"
  by (auto simp: copy_proc_def Let_def idup_def split: option.splits intro!: keeps_binds wk)

lemma allocproc_blocks: "same_blocks s t \<Longrightarrow> same_blocks s (snd (allocproc page t))"
  by (auto simp: allocproc_def Let_def split: option.splits)

lemma fork_blocks: "keeps same_blocks s snd (fork_unblocked page pd me s)"
  using allocproc_blocks [OF blocks.refl, of s page]
  by (auto simp: fork_unblocked_def spawn_def split: option.splits prod.splits intro!: keeps_binds wk)

lemma reparent_blocks [simp, intro!]: "same_blocks s t \<Longrightarrow> same_blocks s (reparent me i t)"
  unfolding reparent_def
  by (rule blocks.trans, assumption, rule blocks.fold_steps) (auto simp: Let_def)

lemma mark_completed_blocks [simp, intro!]: "same_blocks s t \<Longrightarrow> same_blocks s (mark_completed pid t)"
  by (auto simp: mark_completed_def split: option.splits)

lemma exit_blocks: "keeps same_blocks s (\<lambda>t. t) (exit_marked me s)"
  by (auto simp: exit_marked_def Let_def split: option.splits intro!: keeps_binds wk)

lemma gethistory2_blocks: "keeps same_blocks s snd (gethistory2 s)"
  unfolding gethistory2_def
  by (rule keeps_bind1, rule blocks.copy_loop_wk) (auto simp: Let_def intro!: keeps_binds wk)

lemma fdalloc_blocks: "same_blocks s t \<Longrightarrow> fdalloc f t = (r, u) \<Longrightarrow> same_blocks s u"
  by (auto simp: fdalloc_def split: option.splits)

lemma sys_dup_blocks: "keeps same_blocks s snd (sys_dup a s)"
  by (auto simp: sys_dup_def split: option.splits prod.splits intro!: keeps_binds wk dest: fdalloc_blocks [OF blocks.refl])

lemma sys_close_blocks: "keeps same_blocks s snd (sys_close a s)"
  by (auto simp: sys_close_def split: option.splits prod.splits intro!: keeps_binds wk)

lemma open_file_blocks: "same_blocks s t \<Longrightarrow> keeps same_blocks s snd (open_file ip m t)"
  by (auto simp: open_file_def Let_def split: option.splits prod.splits
      intro!: keeps_binds wk dest: blocks.filealloc_wk fdalloc_blocks)

lemma sys_open_blocks: "keeps same_blocks s snd (sys_open p m s)"
  by (auto simp: sys_open_def split: option.splits prod.splits intro!: keeps_binds wk open_file_blocks)

lemma sys_chdir_blocks: "keeps same_blocks s snd (sys_chdir p s)"
  by (auto simp: sys_chdir_def split: option.splits prod.splits intro!: keeps_binds wk)

lemma pipealloc_blocks: "keeps same_blocks s snd (pipealloc page s)"
  by (auto simp: pipealloc_def Let_def split: option.splits prod.splits intro!: keeps_binds wk)
    (metis blocks.filealloc_wk blocks.refl)+

lemma sys_pipe_blocks: "keeps same_blocks s (\<lambda>x. snd (snd x)) (sys_pipe ok page s)"
  by (auto simp: sys_pipe_def split: option.splits prod.splits intro!: keeps_binds wk pipealloc_blocks)
    (metis fdalloc_blocks)+

lemma wait_blocks: "keeps same_blocks s snd (wait me s)"
  by (auto simp: wait_def split: option.splits)

text \<open>Calls of the memory subsystem keep the blocks.\<close>

definition vm_frame :: "'a sys_state_scheme vm_calls \<Rightarrow> bool" where
  "vm_frame vm \<longleftrightarrow> (\<forall>path argv s. keeps same_blocks s snd (exec_call vm path argv s)) \<and>
     (\<forall>n s. keeps same_blocks s snd (growproc_call vm n s))"

lemma call_blocks:
  "keeps same_blocks s snd (call_read s)" "keeps same_blocks s snd (call_write s)"
  "keeps same_blocks s snd (call_pipe page s)" "keeps same_blocks s snd (call_fstat s)"
  "keeps same_blocks s snd (sys_sleep s)"
  by (auto simp: call_read_def call_write_def call_pipe_def call_fstat_def sys_sleep_def Let_def
      split: option.splits prod.splits
      intro!: keeps_binds blocks.sys_read_wk blocks.sys_write_wk sys_pipe_blocks blocks.sys_fstat_wk)

lemma vm_call_blocks:
  assumes "vm_frame vm"
  shows "keeps same_blocks s snd (sys_exec (exec_call vm) s)" "keeps same_blocks s snd (sys_sbrk (growproc_call vm) s)"
proof -
  have lift: "same_blocks s t \<Longrightarrow> keeps same_blocks s snd (exec_call vm path argv t)"
    "same_blocks s t \<Longrightarrow> keeps same_blocks s snd (growproc_call vm n t)" for path argv n t
    using assms unfolding vm_frame_def by (blast intro: blocks.lift)+
  show "keeps same_blocks s snd (sys_exec (exec_call vm) s)"
    by (auto simp: sys_exec_def split: option.splits intro!: keeps_binds blocks.sys_exec_check_wk lift)
  show "keeps same_blocks s snd (sys_sbrk (growproc_call vm) s)"
    by (auto simp: sys_sbrk_def Let_def split: option.splits intro!: keeps_binds lift)
qed

lemmas call_frames = fork_blocks wait_blocks call_blocks vm_call_blocks sys_dup_blocks sys_close_blocks
  sys_open_blocks sys_chdir_blocks gethistory2_blocks
  blocks.sys_mknod_wk [OF blocks.refl] blocks.sys_unlink_wk [OF blocks.refl] blocks.sys_link_wk [OF blocks.refl]
  blocks.sys_mkdir_wk [OF blocks.refl] blocks.sys_chmod_wk [OF blocks.refl]

lemma syscalls_blocks:
  assumes "vm_frame vm" and "num \<notin> {6, 23, 24}"
  shows "keeps same_blocks s snd (syscalls vm num s)"
  using assms by (simp add: syscalls_def call_frames keeps_bind1 [OF exit_blocks])

section \<open>Blocks hold against later processes\<close>

lemma lift_blocks_fold:
  "\<exists>b w. fold (\<lambda>i s.
       if pid = which_pid_blocked_it s i
       then s\<lparr>which_pid_blocked_it := (which_pid_blocked_it s)(i := 0), blocked_syscalls := (blocked_syscalls s)(i := 0)\<rparr>
       else s) [0..<n] s = s\<lparr>which_pid_blocked_it := w, blocked_syscalls := b\<rparr> \<and>
     (\<forall>i. w i = (if i < n \<and> which_pid_blocked_it s i = pid then 0 else which_pid_blocked_it s i) \<and>
          b i = (if i < n \<and> which_pid_blocked_it s i = pid then 0 else blocked_syscalls s i))"
proof (induction n)
  case 0
  show ?case by (intro exI [of _ "blocked_syscalls s"] exI [of _ "which_pid_blocked_it s"]) simp
next
  case (Suc n)
  then obtain b w where
    f: "fold (\<lambda>i s.
       if pid = which_pid_blocked_it s i
       then s\<lparr>which_pid_blocked_it := (which_pid_blocked_it s)(i := 0), blocked_syscalls := (blocked_syscalls s)(i := 0)\<rparr>
       else s) [0..<n] s = s\<lparr>which_pid_blocked_it := w, blocked_syscalls := b\<rparr>"
    and bw: "\<And>i. w i = (if i < n \<and> which_pid_blocked_it s i = pid then 0 else which_pid_blocked_it s i)"
      "\<And>i. b i = (if i < n \<and> which_pid_blocked_it s i = pid then 0 else blocked_syscalls s i)"
    by blast
  have wn: "w n = which_pid_blocked_it s n" using bw(1) [of n] by simp
  show ?case
  proof (cases "which_pid_blocked_it s n = pid")
    case True
    then show ?thesis
      by - (rule exI [of _ "b(n := 0)"], rule exI [of _ "w(n := 0)"], intro conjI, simp add: f wn fun_upd_def, auto simp: bw less_Suc_eq)
  next
    case False
    then show ?thesis
      by - (rule exI [of _ b], rule exI [of _ w], intro conjI, simp add: f wn, auto simp: bw less_Suc_eq)
  qed
qed

lemma lift_blocks_spec:
  "\<exists>b w. lift_blocks pid s = s\<lparr>which_pid_blocked_it := w, blocked_syscalls := b\<rparr> \<and>
     (\<forall>i. w i = (if i < MAX_SYSCALLS \<and> which_pid_blocked_it s i = pid then 0 else which_pid_blocked_it s i) \<and>
          b i = (if i < MAX_SYSCALLS \<and> which_pid_blocked_it s i = pid then 0 else blocked_syscalls s i))"
  unfolding lift_blocks_def by (rule lift_blocks_fold)

lemma kill_tables [simp]:
  "blocked_syscalls (snd (kill pid s)) = blocked_syscalls s"
  "which_pid_blocked_it (snd (kill pid s)) = which_pid_blocked_it s"
  by (simp_all add: kill_def upd_proc_def split: option.split)

lemma kill_unblock_tables:
  "which_pid_blocked_it (snd (kill_unblock pid s)) i =
     (if i < MAX_SYSCALLS \<and> which_pid_blocked_it s i = pid then 0 else which_pid_blocked_it s i)"
  "blocked_syscalls (snd (kill_unblock pid s)) i =
     (if i < MAX_SYSCALLS \<and> which_pid_blocked_it s i = pid then 0 else blocked_syscalls s i)"
  using lift_blocks_spec [of pid s] by (auto simp: kill_unblock_def)

text \<open>\<open>held B k s\<close>: the call \<open>k\<close> is blocked in the name of the process \<open>B\<close>.\<close>

definition held_block :: "int \<Rightarrow> nat \<Rightarrow> 'a sys_state_scheme \<Rightarrow> bool" where
  "held_block B k s \<longleftrightarrow> blocked_syscalls s k \<noteq> 0 \<and> which_pid_blocked_it s k = B"

lemma held_block_same: "same_blocks s t \<Longrightarrow> held_block B k t = held_block B k s"
  by (simp add: held_block_def same_blocks_def)

lemma held_block_calls:
  assumes "held_block B k s" and "0 < B" and "B < p_pid (myproc s)"
  shows "held_block B k (snd (block_dummy s))" "held_block B k (snd (unblock_dummy s))"
    "pid \<noteq> B \<Longrightarrow> held_block B k (snd (kill_unblock pid s))"
  using assms by (auto simp: held_block_def block_dummy_def unblock_dummy_def Let_def kill_unblock_tables
      split: option.split)

text \<open>A process enters the kernel: whatever it has put in its registers and its memory.\<close>

definition enter :: "nat \<Rightarrow> trapframe \<Rightarrow> (u32 \<Rightarrow> u8) \<Rightarrow> 'a sys_state_scheme \<Rightarrow> 'a sys_state_scheme" where
  "enter me tf m s = (upd_proc me (\<lambda>p. p\<lparr>p_tf := tf\<rparr>) s)\<lparr>cur := me, umem := m\<rparr>"

lemma enter_sel [simp]:
  "cur (enter me tf m s) = me" "p_tf (procs (enter me tf m s) me) = tf"
  "p_pid (procs (enter me tf m s) i) = p_pid (procs s i)"
  "p_parent (procs (enter me tf m s) i) = p_parent (procs s i)"
  "p_to_be_blocked (procs (enter me tf m s) i) = p_to_be_blocked (procs s i)"
  "blocked_syscalls (enter me tf m s) = blocked_syscalls s"
  "which_pid_blocked_it (enter me tf m s) = which_pid_blocked_it s"
  by (simp_all add: enter_def upd_proc_def)

text \<open>
  \<open>sandboxed vm B s t\<close>: from \<open>s\<close>, system calls of processes whose pid is above \<open>B\<close>, none of which is
  a \<open>kill\<close> of \<open>B\<close>, and any other activity that does not touch the two tables, lead to \<open>t\<close>.
\<close>

inductive sandboxed :: "'a sys_state_scheme vm_calls \<Rightarrow> int \<Rightarrow> 'a sys_state_scheme \<Rightarrow> 'a sys_state_scheme \<Rightarrow> bool"
  for vm B s where
  start: "sandboxed vm B s s"
| other: "sandboxed vm B s t \<Longrightarrow> same_blocks t u \<Longrightarrow> sandboxed vm B s u"
| call: "sandboxed vm B s t \<Longrightarrow> B < p_pid (procs t me) \<Longrightarrow>
    \<not> (tf_eax tf = 6 \<and> argint 0 (enter me tf m t) = Some B) \<Longrightarrow>
    syscall vm (enter me tf m t) = Ok u \<Longrightarrow> sandboxed vm B s u"

lemma sint_eq_6:
  assumes "nat (sint (w :: u32)) = 6"
  shows "w = 6"
proof -
  have "w = word_of_int (sint w)" by simp
  also have "sint w = 6" using assms by simp
  finally show ?thesis by simp
qed

lemma refuse_blocks: "keeps same_blocks s (\<lambda>t. t) (refuse num me s)"
  by (auto simp: refuse_def set_eax_def intro!: keeps_binds wk)

lemma unknown_call_blocks: "keeps same_blocks s (\<lambda>t. t) (unknown_call num me s)"
  by (auto simp: unknown_call_def set_eax_def intro!: keeps_binds wk)

lemma held_block_syscalls:
  assumes "vm_frame vm" and "held_block B k s" and "0 < B" and "B < p_pid (myproc s)"
    and "num = 6 \<Longrightarrow> argint 0 s \<noteq> Some B" and "syscalls vm num s = Ok (r, t)"
  shows "held_block B k t"
proof -
  consider "num = 6" | "num = 23" | "num = 24" | "num \<notin> {6, 23, 24}" by blast
  then show ?thesis
  proof cases
    case 1
    with assms(6) have "sys_kill s = Ok (r, t)" by (simp add: syscalls_def)
    with assms(2-5) 1 held_block_calls(3) [OF assms(2-4)] show ?thesis
      by (fastforce simp: sys_kill_def split: option.splits)
  next
    case 2
    with assms(6) have "t = snd (block_dummy s)" by (simp add: syscalls_def)
    with held_block_calls(1) [OF assms(2-4)] show ?thesis by simp
  next
    case 3
    with assms(6) have "t = snd (unblock_dummy s)" by (simp add: syscalls_def)
    with held_block_calls(2) [OF assms(2-4)] show ?thesis by simp
  next
    case 4
    from keepsD [OF syscalls_blocks [OF assms(1) this] assms(6)] assms(2)
    show ?thesis by (simp add: held_block_same)
  qed
qed

lemma held_block_set_eax [simp]: "held_block B k (set_eax r me s) = held_block B k s"
  by (simp add: held_block_def set_eax_def upd_proc_def)

lemma held_block_do_call:
  assumes "vm_frame vm" and held: "held_block B k s" and "0 < B" and "B < p_pid (procs s (cur s))"
    and "nat num = 6 \<Longrightarrow> argint 0 s \<noteq> Some B" and ok: "do_call vm num (cur s) s = Ok t"
  shows "held_block B k t"
proof -
  define u where "u = (if p_to_be_blocked (procs s (cur s)) = 0 \<and> num = 7
     then upd_proc (cur s) (\<lambda>p. p\<lparr>p_to_be_blocked := p_to_be_blocked p + 1\<rparr>) s else s)"
  have u: "held_block B k u" "p_pid (myproc u) = p_pid (procs s (cur s))" "nat num = 6 \<Longrightarrow> argint 0 u = argint 0 s"
    using held by (auto simp: u_def held_block_def upd_proc_def myproc_def)
  obtain r w where w: "syscalls vm (nat num) u = Ok (r, w)" "t = (if num = 2 then w else set_eax r (cur s) w)"
    using ok by (auto simp: do_call_def u_def [symmetric] Let_def)
  have "held_block B k w"
    using held_block_syscalls [OF assms(1) u(1) assms(3) _ _ w(1)] assms(4,5) u(2,3) by simp
  then show ?thesis by (simp add: w(2))
qed

lemma syscall_cases:
  assumes "syscall vm s = Ok t"
  shows "do_call vm (sint (tf_eax (p_tf (procs s (cur s))))) (cur s) s = Ok t \<or>
    refuse (sint (tf_eax (p_tf (procs s (cur s))))) (cur s) s = Ok t \<or>
    unknown_call (sint (tf_eax (p_tf (procs s (cur s))))) (cur s) s = Ok t"
  using assms unfolding syscall_def Let_def by (auto split: if_split_asm option.split_asm)

lemma held_block_syscall:
  assumes "vm_frame vm" and held: "held_block B k s" and "0 < B" and "B < p_pid (procs s (cur s))"
    and "\<not> (tf_eax (p_tf (procs s (cur s))) = 6 \<and> argint 0 s = Some B)" and ok: "syscall vm s = Ok t"
  shows "held_block B k t"
  using syscall_cases [OF ok]
proof (elim disjE)
  assume "do_call vm (sint (tf_eax (p_tf (procs s (cur s))))) (cur s) s = Ok t"
  from held_block_do_call [OF assms(1-4) _ this] assms(5) show ?thesis by (auto dest: sint_eq_6)
next
  assume "refuse (sint (tf_eax (p_tf (procs s (cur s))))) (cur s) s = Ok t"
  from keepsD [OF refuse_blocks this] held show ?thesis by (simp add: held_block_same)
next
  assume "unknown_call (sint (tf_eax (p_tf (procs s (cur s))))) (cur s) s = Ok t"
  from keepsD [OF unknown_call_blocks this] held show ?thesis by (simp add: held_block_same)
qed

lemma sandboxed_held:
  assumes "sandboxed vm B s t" and "vm_frame vm" and "held_block B k s" and "0 < B"
  shows "held_block B k t"
  using assms(1)
proof induction
  case (call t me tf m u)
  have "held_block B k (enter me tf m t)" using call.IH by (simp add: held_block_def)
  from held_block_syscall [OF assms(2) this assms(4) _ _ call.hyps(4)] call.hyps(2,3) show ?case by simp
qed (use assms(3) in \<open>simp_all add: held_block_same\<close>)


text \<open>
  Only a \<open>kill\<close> with the pid of the blocker lifts its blocks, by anybody and even when no process
  has that pid any more; the blocker's own exit leaves them in place.
\<close>

theorem kill_lifts_blocks:
  assumes "which_pid_blocked_it s k = B" and "k < MAX_SYSCALLS"
  shows "blocked_syscalls (snd (kill_unblock B s)) k = 0 \<and> which_pid_blocked_it (snd (kill_unblock B s)) k = 0 \<and>
    ((\<forall>i<NPROC. p_pid (procs s i) \<noteq> B) \<longrightarrow> fst (kill_unblock B s) = -1) \<and>
    (\<forall>me t. exit_marked me s = Ok t \<longrightarrow>
       blocked_syscalls t = blocked_syscalls s \<and> which_pid_blocked_it t = which_pid_blocked_it s)"
proof (intro conjI allI impI)
  show "blocked_syscalls (snd (kill_unblock B s)) k = 0" "which_pid_blocked_it (snd (kill_unblock B s)) k = 0"
    using assms by (simp_all add: kill_unblock_tables)
  show "fst (kill_unblock B s) = -1" if "\<forall>i<NPROC. p_pid (procs s i) \<noteq> B"
  proof -
    have "procs (lift_blocks B s) = procs s" using lift_blocks_spec [of B s] by auto
    then have "first_index (\<lambda>i. p_pid (procs (lift_blocks B s) i) = B) NPROC = None"
      using that by (simp add: first_index_None)
    then show ?thesis by (simp add: kill_unblock_def kill_def)
  qed
  show "blocked_syscalls t = blocked_syscalls s" "which_pid_blocked_it t = which_pid_blocked_it s"
    if "exit_marked me s = Ok t" for me t
    using keepsD [OF exit_blocks that] by (simp_all add: same_blocks_def)
qed

section \<open>A machine with a sandboxed process\<close>

definition sandbox :: sys_state where
  "sandbox = sched_state.extend
     (zero_sched\<lparr>procs := (\<lambda>_. unused_proc)(0 := unused_proc\<lparr>p_state := SLEEPING, p_pid := 3, p_sz := 4096\<rparr>,
        1 := unused_proc\<lparr>p_state := RUNNING, p_pid := 4, p_parent := Some 0, p_to_be_blocked := 1, p_sz := 4096\<rparr>)\<rparr>)
     (sys_state.fields (\<lambda>a. if a = 16 then 104 else if a = 17 then 105 else 0)
        (\<lambda>_. \<lparr>h_pid = 0, h_name = replicate 16 0, h_mem_usage = 0, h_completed = False\<rparr>) 0
        ((\<lambda>_. 0)(20 := 1)) ((\<lambda>_. 0)(20 := 3)))"

definition idle_vm :: "sys_state vm_calls" where
  "idle_vm = \<lparr>new_kstack = None, new_pgdir = None, new_pipe = None,
     exec_call = (\<lambda>path argv s. Ok (-1, s)), growproc_call = (\<lambda>n s. Ok (-1, s))\<rparr>"

lemma sandbox_sel [simp]:
  "procs sandbox = (\<lambda>_. unused_proc)(0 := unused_proc\<lparr>p_state := SLEEPING, p_pid := 3, p_sz := 4096\<rparr>,
     1 := unused_proc\<lparr>p_state := RUNNING, p_pid := 4, p_parent := Some 0, p_to_be_blocked := 1, p_sz := 4096\<rparr>)"
  "umem sandbox = (\<lambda>a. if a = 16 then 104 else if a = 17 then 105 else 0)"
  "blocked_syscalls sandbox = (\<lambda>_. 0)(20 := 1)" "which_pid_blocked_it sandbox = (\<lambda>_. 0)(20 := 3)"
  by (simp_all add: sandbox_def sched_state.defs sys_state.defs)

lemma idle_vm_frame: "vm_frame idle_vm"
  by (simp add: vm_frame_def idle_vm_def)

theorem user_args_in_bounds_witness:
  "fetchstr 16 (sandbox\<lparr>cur := 0\<rparr>) = Some [104, 105] \<and> unat (16 :: u32) + 2 < unat (p_sz (myproc (sandbox\<lparr>cur := 0\<rparr>)))"
proof -
  have 1: "fetchstr 16 (sandbox\<lparr>cur := 0\<rparr>) = Some [104, 105]"
  proof -
    have "fetchstr_scan (umem sandbox) 16 (Suc (Suc (Suc n))) = Some [104, 105]" for n by simp
    from this [of 4077] show ?thesis by (simp add: fetchstr_def Let_def myproc_def)
  qed
  have 2: "p_sz (myproc (sandbox\<lparr>cur := 0\<rparr>)) \<le> 0x80000000" by (simp add: myproc_def unused_proc_def)
  from user_args_in_bounds [OF 2, THEN conjunct2, THEN conjunct2, THEN conjunct1, rule_format, OF 1] 1
  show ?thesis by simp
qed


theorem kill_lifts_blocks_witness:
  "blocked_syscalls (snd (kill_unblock 3 sandbox)) 20 = 0"
  using kill_lifts_blocks [of sandbox 20 3] by simp

end
