(* ===== verification/Mem.thy ===== *)
theory Mem imports Sysfile begin

text \<open>
  Physical memory of the third assignment (\<open>kalloc.c\<close>, \<open>pageswap.c\<close>): the free list threaded through
  the free pages, the swap area on the disk with its 800 slots, the choice of the page that is swapped
  out, and the threshold that starts swapping.  Memory is an array of 4096-byte page frames; a pointer
  is the 32-bit virtual address the kernel uses, which lies \<open>KERNBASE\<close> above the physical one.
\<close>

abbreviation (input) PGSIZE :: nat where "PGSIZE \<equiv> 4096"
abbreviation (input) NUM_SLOTS :: nat where "NUM_SLOTS \<equiv> 800"
abbreviation (input) BLOCKS_PER_SLOT :: nat where "BLOCKS_PER_SLOT \<equiv> 8"
abbreviation (input) KERNBASE :: u32 where "KERNBASE \<equiv> 0x80000000"
abbreviation (input) PHYSTOP :: u32 where "PHYSTOP \<equiv> 0x400000"
abbreviation (input) PTE_P :: u32 where "PTE_P \<equiv> 1"
abbreviation (input) PTE_W :: u32 where "PTE_W \<equiv> 2"
abbreviation (input) PTE_U :: u32 where "PTE_U \<equiv> 4"
abbreviation (input) PTE_A :: u32 where "PTE_A \<equiv> 0x20"
abbreviation (input) PTE_S :: u32 where "PTE_S \<equiv> 0x200"

section \<open>State\<close>

text \<open>
  \<open>pmem n\<close> is the contents of page frame \<open>n\<close>; \<open>kend\<close> and \<open>kdata\<close> are the linker symbols \<open>end\<close>, the first
  address after the kernel, and \<open>data\<close>; \<open>cr3\<close> is the page-table register of the processor.  A spinlock taken twice by one processor is a panic.
\<close>

record swapslot =
  page_perm :: u32
  is_free :: int

record mem_state = file_state +
  pmem :: "nat \<Rightarrow> bytes"
  kend :: u32
  kdata :: u32
  cr3 :: u32
  kpgdir :: u32
  use_lock :: bool
  kmem_locked :: bool
  freelist :: u32
  free_pages_count :: int
  T_h :: int
  N_pg :: int
  swap_slots :: "nat \<Rightarrow> swapslot"

section \<open>Addresses and memory\<close>

definition V2P :: "u32 \<Rightarrow> u32" where
  "V2P a = a - KERNBASE"

definition P2V :: "u32 \<Rightarrow> u32" where
  "P2V a = a + KERNBASE"

definition PGROUNDUP :: "u32 \<Rightarrow> u32" where
  "PGROUNDUP sz = (sz + 4095) AND NOT 4095"

definition PGROUNDDOWN :: "u32 \<Rightarrow> u32" where
  "PGROUNDDOWN a = a AND NOT 4095"

definition PDX :: "u32 \<Rightarrow> u32" where
  "PDX va = drop_bit 22 va AND 0x3FF"

definition PTX :: "u32 \<Rightarrow> u32" where
  "PTX va = drop_bit 12 va AND 0x3FF"

definition PTE_ADDR :: "u32 \<Rightarrow> u32" where
  "PTE_ADDR pte = pte AND NOT 0xFFF"

definition PTE_FLAGS :: "u32 \<Rightarrow> u32" where
  "PTE_FLAGS pte = pte AND 0xFFF"

text \<open>The frame and the offset of a kernel address; loads and stores of a \<open>uint\<close> at an aligned address.\<close>

definition frame_of :: "u32 \<Rightarrow> nat" where
  "frame_of a = unat (drop_bit 12 (V2P a))"

definition page :: "u32 \<Rightarrow> 'a mem_state_scheme \<Rightarrow> bytes" where
  "page a s = pmem s (frame_of a)"

definition set_page :: "u32 \<Rightarrow> bytes \<Rightarrow> 'a mem_state_scheme \<Rightarrow> 'a mem_state_scheme" where
  "set_page a bs s = s\<lparr>pmem := (pmem s)(frame_of a := bs)\<rparr>"

definition ld32 :: "u32 \<Rightarrow> 'a mem_state_scheme \<Rightarrow> u32" where
  "ld32 a s = get32 (unat (a AND 0xFFF)) (page a s)"

definition st32 :: "u32 \<Rightarrow> u32 \<Rightarrow> 'a mem_state_scheme \<Rightarrow> 'a mem_state_scheme" where
  "st32 a w s = set_page a (put32 (unat (a AND 0xFFF)) w (page a s)) s"

section \<open>The free list\<close>

definition kmem_acquire :: "'a mem_state_scheme \<Rightarrow> 'a mem_state_scheme res" where
  "kmem_acquire s =
     (if \<not> use_lock s then Ok s
      else if kmem_locked s then Panic ''acquire'' else Ok (s\<lparr>kmem_locked := True\<rparr>))"

definition kmem_release :: "'a mem_state_scheme \<Rightarrow> 'a mem_state_scheme res" where
  "kmem_release s =
     (if \<not> use_lock s then Ok s
      else if \<not> kmem_locked s then Panic ''release'' else Ok (s\<lparr>kmem_locked := False\<rparr>))"

definition kfree :: "u32 \<Rightarrow> 'a mem_state_scheme \<Rightarrow> 'a mem_state_scheme res" where
  "kfree v s =
     (if v mod 4096 \<noteq> 0 \<or> v < kend s \<or> V2P v \<ge> PHYSTOP then Panic ''kfree''
      else
        rbind (kmem_acquire (set_page v (replicate PGSIZE 1) s)) (\<lambda>s.
        let s = st32 v (freelist s) s;
            s = s\<lparr>freelist := v, free_pages_count := free_pages_count s + 1\<rparr>
        in kmem_release s))"

text \<open>The pages of a range that is freed at boot; the range ends below the top of the address space.\<close>

definition freerange :: "u32 \<Rightarrow> u32 \<Rightarrow> 'a mem_state_scheme \<Rightarrow> 'a mem_state_scheme res" where
  "freerange vstart vend s =
     (let p = PGROUNDUP vstart in
      rfold (\<lambda>k. kfree (p + word_of_nat (4096 * k))) [0..<(unat vend - unat p) div 4096] s)"

definition kinit1 :: "u32 \<Rightarrow> u32 \<Rightarrow> 'a mem_state_scheme \<Rightarrow> 'a mem_state_scheme res" where
  "kinit1 vstart vend s = freerange vstart vend (s\<lparr>kmem_locked := False, use_lock := False\<rparr>)"

definition kinit2 :: "u32 \<Rightarrow> u32 \<Rightarrow> 'a mem_state_scheme \<Rightarrow> 'a mem_state_scheme res" where
  "kinit2 vstart vend s = rbind (freerange vstart vend s) (\<lambda>s. Ok (s\<lparr>use_lock := True\<rparr>))"

definition get_free_pages :: "'a mem_state_scheme \<Rightarrow> (int \<times> 'a mem_state_scheme) res" where
  "get_free_pages s =
     rbind (kmem_acquire s) (\<lambda>s. rbind (kmem_release s) (\<lambda>s. Ok (free_pages_count s, s)))"

text \<open>The head of the free list, taken off.\<close>

definition pop_free :: "'a mem_state_scheme \<Rightarrow> 'a mem_state_scheme" where
  "pop_free s = s\<lparr>freelist := ld32 (freelist s) s, free_pages_count := free_pages_count s - 1\<rparr>"

section \<open>Page tables, without allocation\<close>

text \<open>
  \<open>walkpgdir\<close> with \<open>alloc = 0\<close>: the address of the page-table entry, unless there is no page table.
  The loops over the pages of a process run over the multiples of the page size below \<open>sz\<close>.
\<close>

definition pde_at :: "u32 \<Rightarrow> u32 \<Rightarrow> u32" where
  "pde_at pgdir va = pgdir + 4 * PDX va"

definition walk_lookup :: "u32 \<Rightarrow> u32 \<Rightarrow> 'a mem_state_scheme \<Rightarrow> u32 option" where
  "walk_lookup pgdir va s =
     (let pde = ld32 (pde_at pgdir va) s in
      if pde AND PTE_P \<noteq> 0 then Some (P2V (PTE_ADDR pde) + 4 * PTX va) else None)"

definition page_addrs :: "u32 \<Rightarrow> u32 list" where
  "page_addrs sz = map (\<lambda>k. word_of_nat (4096 * k)) [0..<(unat sz + 4095) div 4096]"

definition present :: "'a mem_state_scheme \<Rightarrow> u32 \<Rightarrow> u32 \<Rightarrow> bool" where
  "present s pgdir va \<longleftrightarrow>
     (case walk_lookup pgdir va s of None \<Rightarrow> False | Some pte \<Rightarrow> ld32 pte s AND PTE_P \<noteq> 0)"

definition calc_rss :: "nat \<Rightarrow> 'a mem_state_scheme \<Rightarrow> 'a mem_state_scheme" where
  "calc_rss i s =
     (let p = procs s i in
      upd_proc i (\<lambda>p. p\<lparr>p_rss := int (length (filter (present s (p_pgdir p)) (page_addrs (p_sz p))))\<rparr>) s)"


section \<open>The swap area\<close>

definition init_swap :: "'a mem_state_scheme \<Rightarrow> 'a mem_state_scheme" where
  "init_swap s = s\<lparr>swap_slots := (\<lambda>i. if i < NUM_SLOTS then \<lparr>page_perm = 0, is_free = 1\<rparr> else swap_slots s i)\<rparr>"

definition write_to_swap :: "u32 \<Rightarrow> nat \<Rightarrow> 'a mem_state_scheme \<Rightarrow> 'a mem_state_scheme res" where
  "write_to_swap mem slot s =
     rfold (\<lambda>j s.
       rbind (bread 1 (word_of_nat (2 + slot * BLOCKS_PER_SLOT + j)) s) (\<lambda>(b, s).
       rbind (bwrite b (set_data b (slice (j * BSIZE) BSIZE (page mem s)) s)) (\<lambda>s.
       brelse b s))) [0..<BLOCKS_PER_SLOT] s"

definition read_from_swap :: "u32 \<Rightarrow> nat \<Rightarrow> 'a mem_state_scheme \<Rightarrow> 'a mem_state_scheme res" where
  "read_from_swap mem slot s =
     rfold (\<lambda>j s.
       rbind (bread 1 (word_of_nat (2 + slot * BLOCKS_PER_SLOT + j)) s) (\<lambda>(b, s).
       brelse b (set_page mem (blit (j * BSIZE) (b_data (bufs s b)) (page mem s)) s)))
     [0..<BLOCKS_PER_SLOT] s"

text \<open>The result \<open>None\<close> of \<open>find_free_slot\<close> is the \<open>-1\<close> of the code.\<close>

definition find_free_slot :: "'a mem_state_scheme \<Rightarrow> nat option \<times> 'a mem_state_scheme" where
  "find_free_slot s =
     (case first_index (\<lambda>i. is_free (swap_slots s i) = 1) NUM_SLOTS of
        None \<Rightarrow> (None, s)
      | Some i \<Rightarrow> (Some i, s\<lparr>swap_slots := (swap_slots s)(i := (swap_slots s i)\<lparr>is_free := 0\<rparr>)\<rparr>))"

definition free_swap_slot :: "u32 \<Rightarrow> 'a mem_state_scheme \<Rightarrow> 'a mem_state_scheme res" where
  "free_swap_slot slot s =
     (let i = unat slot in
      if i < NUM_SLOTS then Ok (s\<lparr>swap_slots := (swap_slots s)(i := \<lparr>page_perm = 0, is_free = 1\<rparr>)\<rparr>)
      else Undefined ''swap_slots out of bounds'')"

section \<open>Swapping out\<close>

text \<open>
  The victim is the process with most resident pages, and among those the one of smallest identifier.  A
  comparison with the identifier of a victim that does not exist yet would need \<open>p->rss = -1\<close>.
\<close>

definition consider_victim :: "nat \<Rightarrow> nat option \<times> int \<times> 'a mem_state_scheme \<Rightarrow>
    nat option \<times> int \<times> 'a mem_state_scheme" where
  "consider_victim i = (\<lambda>(victim, max_rss, s).
     if p_state (procs s i) \<in> {RUNNABLE, RUNNING, SLEEPING} then
       let s = calc_rss i s; p = procs s i in
       if p_rss p > max_rss \<or>
          (p_rss p = max_rss \<and> (case victim of None \<Rightarrow> False | Some v \<Rightarrow> p_pid p < p_pid (procs s v)))
       then (Some i, p_rss p, s) else (victim, max_rss, s)
     else (victim, max_rss, s))"

definition find_victim :: "'a mem_state_scheme \<Rightarrow> nat option \<times> 'a mem_state_scheme" where
  "find_victim s = (case fold consider_victim [0..<NPROC] (None, -1, s) of (v, _, s) \<Rightarrow> (v, s))"

text \<open>The first pass: a present page whose accessed bit is clear; the bits that are set are cleared on the way.\<close>

primrec second_chance :: "u32 \<Rightarrow> u32 list \<Rightarrow> 'a mem_state_scheme \<Rightarrow> u32 option \<times> 'a mem_state_scheme" where
  "second_chance pgdir [] s = (None, s)"
| "second_chance pgdir (va # vas) s =
     (case walk_lookup pgdir va s of
        None \<Rightarrow> second_chance pgdir vas s
      | Some pte \<Rightarrow>
          if ld32 pte s AND PTE_P = 0 then second_chance pgdir vas s
          else if ld32 pte s AND PTE_A = 0 then (Some pte, s)
          else second_chance pgdir vas (st32 pte (ld32 pte s AND NOT PTE_A) s))"

text \<open>The second pass: the first present page.\<close>

definition first_present :: "u32 \<Rightarrow> u32 list \<Rightarrow> 'a mem_state_scheme \<Rightarrow> u32 option" where
  "first_present pgdir vas s =
     (case find (present s pgdir) vas of None \<Rightarrow> None | Some va \<Rightarrow> walk_lookup pgdir va s)"

definition choose_page :: "u32 \<Rightarrow> u32 \<Rightarrow> 'a mem_state_scheme \<Rightarrow> u32 option \<times> 'a mem_state_scheme" where
  "choose_page pgdir sz s =
     (case second_chance pgdir (page_addrs sz) s of
        (Some pte, s) \<Rightarrow> (Some pte, s)
      | (None, s) \<Rightarrow> (first_present pgdir (page_addrs sz) s, s))"

definition swap_out_page :: "u32 \<Rightarrow> 'a mem_state_scheme \<Rightarrow> 'a mem_state_scheme res" where
  "swap_out_page pte s =
     (case find_free_slot s of (slot, s) \<Rightarrow>
      let e = ld32 pte s; mem = P2V (PTE_ADDR e) in
      if mem = 0 then Panic ''Invalid memory pointer''
      else if e AND PTE_P = 0 then Panic ''Page is not present in memory''
      else
        (case slot of
           None \<Rightarrow> Undefined ''swap_slots[-1]''
         | Some i \<Rightarrow>
             let s = s\<lparr>swap_slots := (swap_slots s)(i := (swap_slots s i)\<lparr>page_perm := e AND 0xFFF AND NOT PTE_S\<rparr>)\<rparr> in
             rbind (write_to_swap mem i s) (\<lambda>s.
             let e = ld32 pte s;
                 s = st32 pte (push_bit 12 (word_of_nat i) OR (e AND 0xFFF AND NOT PTE_P) OR PTE_S) s
             in kfree mem s)))"

definition swap_out_one_page :: "'a mem_state_scheme \<Rightarrow> 'a mem_state_scheme res" where
  "swap_out_one_page s =
     (case find_victim s of
        (None, s) \<Rightarrow> Undefined ''victim''
      | (Some v, s) \<Rightarrow>
        (case choose_page (p_pgdir (procs s v)) (p_sz (procs s v)) s of
           (None, s) \<Rightarrow> Panic ''No victim page found''
         | (Some pte, s) \<Rightarrow> swap_out_page pte s))"

text \<open>\<open>ALPHA\<close> is 25 and \<open>BETA\<close> 10 in the build; \<open>LIMIT\<close> is 100.  Both numbers stay positive.\<close>

definition say_int :: "int \<Rightarrow> 'a fs_state_scheme \<Rightarrow> 'a fs_state_scheme res" where
  "say_int n s = rbind (printint (word_of_int n) 10 True (scr (cons s))) (\<lambda>t. Ok (s\<lparr>cons := (cons s)\<lparr>scr := t\<rparr>\<rparr>))"

definition report_swap :: "'a mem_state_scheme \<Rightarrow> 'a mem_state_scheme res" where
  "report_swap s =
     rbind (say ''Current Threshold = '' s) (\<lambda>s.
     rbind (say_int (T_h s) s) (\<lambda>s.
     rbind (say '', Swapping '' s) (\<lambda>s.
     rbind (say_int (N_pg s) s) (\<lambda>s.
     say '' pages\<newline>'' s))))"

definition adapt :: "'a mem_state_scheme \<Rightarrow> 'a mem_state_scheme" where
  "adapt s =
     (let s = s\<lparr>T_h := T_h s - (T_h s * 10) div 100\<rparr>;
          s = s\<lparr>N_pg := N_pg s + (N_pg s * 25) div 100\<rparr>
      in if N_pg s > 100 then s\<lparr>N_pg := 100\<rparr> else s)"

definition swap_out_if_needed :: "'a mem_state_scheme \<Rightarrow> 'a mem_state_scheme res" where
  "swap_out_if_needed s =
     rbind (get_free_pages s) (\<lambda>(n, s).
     if n \<le> T_h s then
       rbind (report_swap s) (\<lambda>s.
       rbind (rfold (\<lambda>_. swap_out_one_page) [0..<nat (N_pg s)] s) (\<lambda>s.
       Ok (adapt s)))
     else Ok s)"

section \<open>Allocation and swapping in\<close>

text \<open>Address 0 is the null pointer.  The branch without memory returns with the lock held.\<close>

definition kalloc :: "'a mem_state_scheme \<Rightarrow> (u32 \<times> 'a mem_state_scheme) res" where
  "kalloc s =
     (if free_pages_count s > T_h s \<and> free_pages_count s > 0 then
        rbind (kmem_acquire s) (\<lambda>s.
        let r = freelist s; s = (if r \<noteq> 0 then pop_free s else s)
        in rbind (kmem_release s) (\<lambda>s. Ok (r, s)))
      else
        rbind (swap_out_if_needed s) (\<lambda>s.
        rbind (kmem_acquire s) (\<lambda>s.
        let r = freelist s in
        if r \<noteq> 0 then rbind (kmem_release (pop_free s)) (\<lambda>s. Ok (r, s))
        else
          rbind (say ''kalloc: Failed to allocate memory, no free pages and swap space unavailable\<newline>'' s) (\<lambda>s.
          Ok (0, s)))))"

definition swap_in :: "nat \<Rightarrow> u32 \<Rightarrow> u32 \<Rightarrow> 'a mem_state_scheme \<Rightarrow> 'a mem_state_scheme res" where
  "swap_in p va slot s =
     rbind (swap_out_if_needed s) (\<lambda>s.
     rbind (kalloc s) (\<lambda>(mem, s).
     if mem = 0 then Panic ''kalloc failed in swap_in''
     else
       rbind (read_from_swap mem (unat slot) s) (\<lambda>s.
       case walk_lookup (p_pgdir (procs s p)) va s of
         None \<Rightarrow> Panic ''Invalid pte in swap_in''
       | Some pte \<Rightarrow>
           if unat slot < NUM_SLOTS then Ok (st32 pte (V2P mem OR page_perm (swap_slots s (unat slot)) OR PTE_P) s)
           else Undefined ''swap_slots out of bounds'')))"

text \<open>The page-fault case of \<open>trap\<close>, for the process \<open>p\<close> and the address \<open>va\<close> that faulted.\<close>

definition page_fault :: "nat \<Rightarrow> u32 \<Rightarrow> 'a mem_state_scheme \<Rightarrow> 'a mem_state_scheme res" where
  "page_fault p va s =
     (let kill = Ok (upd_proc p (\<lambda>q. q\<lparr>p_killed := True\<rparr>) s) in
      case walk_lookup (p_pgdir (procs s p)) va s of
        None \<Rightarrow> kill
      | Some pte \<Rightarrow>
          if ld32 pte s AND PTE_U = 0 \<or> ld32 pte s AND PTE_P \<noteq> 0 then kill
          else if ld32 pte s AND PTE_S \<noteq> 0 then swap_in p va (drop_bit 12 (ld32 pte s)) s
          else kill)"

end
