(* ===== verification/Freelist.thy ===== *)
theory Freelist imports Mem Frames begin

text \<open>
  The free list of \<open>kalloc.c\<close> is a list: a representation relation between the links stored in the free
  pages and a list of distinct pages, the laws of \<open>kfree\<close> and \<open>kalloc\<close> over it as an interface, what
  \<open>kinit1\<close> builds, and the two ways the allocator goes wrong: a page freed twice, and an allocation
  that finds no page.
\<close>

section \<open>Aligned addresses\<close>

lemma aligned_take_bit: "(v :: u32) mod 4096 = 0 \<longleftrightarrow> take_bit 12 v = 0"
  by (simp add: take_bit_eq_mod)

declare mod_0_imp_dvd [rule del]

lemma and_4095: "(v :: u32) AND 0xFFF = v mod 4096"
  using take_bit_eq_mask [of 12 v] by (simp add: take_bit_eq_mod mask_eq_exp_minus_1)

lemma aligned_offset [simp]: "(v :: u32) mod 4096 = 0 \<Longrightarrow> v AND 0xFFF = 0"
  by (simp add: and_4095)

lemma V2P_add: "V2P v = v + KERNBASE"
proof -
  have "- KERNBASE = KERNBASE" by simp
  then show ?thesis by (simp only: V2P_def diff_conv_add_uminus)
qed

lemma take_bit_V2P: "take_bit 12 (V2P v) = take_bit 12 v"
proof -
  have "uint (take_bit 12 (V2P v)) = (uint v + 2147483648) mod 2 ^ 32 mod 2 ^ 12"
    by (simp add: V2P_add take_bit_eq_mod uint_mod uint_word_ariths)
  also have "\<dots> = (uint v + 524288 * 2 ^ 12) mod 2 ^ 12"
    by (subst mod_mod_cancel) simp_all
  also have "\<dots> = uint (take_bit 12 v)"
    by (simp only: mod_mult_self1) (simp add: take_bit_eq_mod uint_mod)
  finally show ?thesis by (simp only: word_uint_eq_iff)
qed

lemma frame_of_inj:
  assumes "v mod 4096 = 0" "w mod 4096 = 0" "frame_of v = frame_of w"
  shows "v = w"
proof -
  have "take_bit 12 (V2P v) = 0" "take_bit 12 (V2P w) = 0"
    using assms by (simp_all add: take_bit_V2P aligned_take_bit)
  moreover have "drop_bit 12 (V2P v) = drop_bit 12 (V2P w)"
    using assms(3) by (simp add: frame_of_def word_unat_eq_iff)
  ultimately have "V2P v = V2P w" using bits_ident [of 12 "V2P v"] bits_ident [of 12 "V2P w"] by simp
  then show ?thesis by (simp add: V2P_def)
qed

lemma P2V_V2P [simp]: "P2V (V2P v) = v" "V2P (P2V v) = v"
  by (simp_all add: P2V_def V2P_def)

section \<open>Loads and stores\<close>

definition mem_ok :: "'a mem_state_scheme \<Rightarrow> bool" where
  "mem_ok s \<longleftrightarrow> (\<forall>n. length (pmem s n) = PGSIZE)"

lemma mem_ok_page [simp]: "mem_ok s \<Longrightarrow> length (page v s) = PGSIZE"
  by (simp add: mem_ok_def page_def)

lemma mem_ok_set_page [simp]: "mem_ok s \<Longrightarrow> length bs = PGSIZE \<Longrightarrow> mem_ok (set_page v bs s)"
  by (simp add: mem_ok_def set_page_def)

lemma page_set_page: "page w (set_page v bs s) = (if frame_of w = frame_of v then bs else page w s)"
  by (simp add: page_def set_page_def)

lemma set_page_sel [simp]:
  "freelist (set_page v bs s) = freelist s" "free_pages_count (set_page v bs s) = free_pages_count s"
  "use_lock (set_page v bs s) = use_lock s" "kmem_locked (set_page v bs s) = kmem_locked s"
  "kend (set_page v bs s) = kend s" "T_h (set_page v bs s) = T_h s" "N_pg (set_page v bs s) = N_pg s"
  "swap_slots (set_page v bs s) = swap_slots s" "procs (set_page v bs s) = procs s"
  by (simp_all add: set_page_def)

lemma st32_sel [simp]:
  "freelist (st32 v w s) = freelist s" "free_pages_count (st32 v w s) = free_pages_count s"
  "use_lock (st32 v w s) = use_lock s" "kmem_locked (st32 v w s) = kmem_locked s"
  "kend (st32 v w s) = kend s" "T_h (st32 v w s) = T_h s" "N_pg (st32 v w s) = N_pg s"
  "swap_slots (st32 v w s) = swap_slots s" "procs (st32 v w s) = procs s"
  by (simp_all add: st32_def)

lemma page_upd [simp]:
  "page v (s\<lparr>freelist := a\<rparr>) = page v s" "page v (s\<lparr>free_pages_count := n\<rparr>) = page v s"
  "page v (s\<lparr>kmem_locked := b\<rparr>) = page v s" "page v (s\<lparr>use_lock := b\<rparr>) = page v s"
  "page v (s\<lparr>swap_slots := sl\<rparr>) = page v s"
  by (simp_all add: page_def)

lemma ld32_upd [simp]:
  "ld32 v (s\<lparr>freelist := a\<rparr>) = ld32 v s" "ld32 v (s\<lparr>free_pages_count := n\<rparr>) = ld32 v s"
  "ld32 v (s\<lparr>kmem_locked := b\<rparr>) = ld32 v s" "ld32 v (s\<lparr>use_lock := b\<rparr>) = ld32 v s"
  "ld32 v (s\<lparr>swap_slots := sl\<rparr>) = ld32 v s"
  by (simp_all add: ld32_def)

lemma mem_ok_upd [simp]:
  "mem_ok (s\<lparr>freelist := a\<rparr>) = mem_ok s" "mem_ok (s\<lparr>free_pages_count := n\<rparr>) = mem_ok s"
  "mem_ok (s\<lparr>kmem_locked := b\<rparr>) = mem_ok s" "mem_ok (s\<lparr>use_lock := b\<rparr>) = mem_ok s"
  "mem_ok (s\<lparr>swap_slots := sl\<rparr>) = mem_ok s"
  by (simp_all add: mem_ok_def)

text \<open>A word address is a multiple of four, so its word lies inside its page.\<close>

definition word_aligned :: "u32 \<Rightarrow> bool" where
  "word_aligned a \<longleftrightarrow> a mod 4 = 0"

lemma offset_lt: "unat ((a :: u32) AND 0xFFF) < 4096"
  using unat_mod_distrib [of a "4096 :: u32"] by (simp add: and_4095)

lemma offset_dvd: "word_aligned a \<Longrightarrow> 4 dvd unat (a AND 0xFFF)"
proof -
  assume "word_aligned a"
  then have "unat a mod 4 = 0" by (simp add: word_aligned_def unat_mod_distrib word_unat_eq_iff)
  then show ?thesis by (simp add: and_4095 unat_mod_distrib mod_mod_cancel dvd_eq_mod_eq_0)
qed

lemma offset_room: "word_aligned a \<Longrightarrow> unat (a AND 0xFFF) + 4 \<le> 4096"
  using offset_lt [of a] offset_dvd [of a] by (auto elim!: dvdE)

lemma aligned_word [simp]: "v mod 4096 = 0 \<Longrightarrow> word_aligned v"
proof -
  assume "v mod 4096 = 0"
  then have "unat v mod 4096 = 0" by (simp add: unat_mod_distrib word_unat_eq_iff)
  then have "unat v mod 4 = 0" using mod_mod_cancel [of 4 4096 "unat v"] by simp
  then show ?thesis by (simp add: word_aligned_def unat_mod_distrib word_unat_eq_iff)
qed

lemma mem_ok_st32 [simp]: "mem_ok s \<Longrightarrow> word_aligned a \<Longrightarrow> mem_ok (st32 a w s)"
  by (simp add: st32_def offset_room)

lemma ld32_st32_same [simp]: "mem_ok s \<Longrightarrow> word_aligned a \<Longrightarrow> ld32 a (st32 a w s) = w"
  by (simp add: ld32_def st32_def page_set_page offset_room)

lemma ld32_st32_frame: "frame_of b \<noteq> frame_of a \<Longrightarrow> ld32 b (st32 a w s) = ld32 b s"
  by (simp add: ld32_def st32_def page_set_page)

lemma page_st32_frame: "frame_of b \<noteq> frame_of a \<Longrightarrow> page b (st32 a w s) = page b s"
  by (simp add: st32_def page_set_page)

lemma word_addr_eq:
  assumes "frame_of a = frame_of b" and "a AND 0xFFF = b AND 0xFFF"
  shows "a = b"
proof -
  have "drop_bit 12 (V2P a) = drop_bit 12 (V2P b)"
    using assms(1) by (simp add: frame_of_def word_unat_eq_iff)
  moreover have "take_bit 12 (V2P a) = take_bit 12 (V2P b)"
    unfolding take_bit_V2P using assms(2) by (simp add: and_4095 take_bit_eq_mod)
  ultimately have "V2P a = V2P b" by (metis bits_ident)
  then show ?thesis by (simp add: V2P_def)
qed

lemma ld32_st32_other:
  assumes "mem_ok s" "word_aligned a" "word_aligned b" "a \<noteq> b"
  shows "ld32 b (st32 a w s) = ld32 b s"
proof (cases "frame_of b = frame_of a")
  case True
  let ?x = "unat (a AND 0xFFF)" and ?y = "unat (b AND 0xFFF)"
  have "?x \<noteq> ?y" using word_addr_eq [of a b] True assms(4) by (auto simp: word_unat_eq_iff)
  then have "?y + 4 \<le> ?x \<or> ?x + 4 \<le> ?y"
    using offset_dvd [OF assms(2)] offset_dvd [OF assms(3)] by (auto elim!: dvdE)
  then show ?thesis using assms True offset_room [OF assms(2)] offset_room [OF assms(3)]
    by (simp add: ld32_def st32_def page_set_page get32_put32_other) (simp add: page_def)
qed (rule ld32_st32_frame)


section \<open>The list behind the links\<close>

definition page_ok :: "'a mem_state_scheme \<Rightarrow> u32 \<Rightarrow> bool" where
  "page_ok s v \<longleftrightarrow> v mod 4096 = 0 \<and> kend s \<le> v \<and> V2P v < PHYSTOP"

primrec links_from :: "'a mem_state_scheme \<Rightarrow> u32 \<Rightarrow> u32 list \<Rightarrow> bool" where
  "links_from s p [] \<longleftrightarrow> p = 0"
| "links_from s p (x # xs) \<longleftrightarrow> p = x \<and> links_from s (ld32 x s) xs"

definition free_list :: "'a mem_state_scheme \<Rightarrow> u32 list \<Rightarrow> bool" where
  "free_list s xs \<longleftrightarrow> mem_ok s \<and> distinct xs \<and> (\<forall>x\<in>set xs. page_ok s x) \<and> links_from s (freelist s) xs \<and>
     free_pages_count s = int (length xs)"

lemma page_ok_nonzero: "page_ok s v \<Longrightarrow> v \<noteq> 0"
  by (auto simp: page_ok_def V2P_def)

lemma page_ok_aligned [simp]: "page_ok s v \<Longrightarrow> v mod 4096 = 0"
  by (simp add: page_ok_def)

lemma page_ok_cong: "kend t = kend s \<Longrightarrow> page_ok t v = page_ok s v"
  by (simp add: page_ok_def)

lemma links_from_cong:
  "(\<And>x. x \<in> set xs \<Longrightarrow> ld32 x t = ld32 x s) \<Longrightarrow> links_from t p xs = links_from s p xs"
  by (induction xs arbitrary: p) auto

lemma free_list_cong:
  assumes "free_list s xs" and "mem_ok t" and "kend t = kend s" and "freelist t = freelist s"
    and "free_pages_count t = free_pages_count s" and "\<And>x. x \<in> set xs \<Longrightarrow> ld32 x t = ld32 x s"
  shows "free_list t xs"
  using assms links_from_cong [of xs t s] by (simp add: free_list_def page_ok_def)

lemma free_list_unique: "free_list s xs \<Longrightarrow> free_list s ys \<Longrightarrow> xs = ys"
proof -
  have "links_from s p xs \<Longrightarrow> links_from s p ys \<Longrightarrow> (\<forall>x\<in>set xs. x \<noteq> 0) \<Longrightarrow> (\<forall>x\<in>set ys. x \<noteq> 0) \<Longrightarrow> xs = ys" for p
  proof (induction xs arbitrary: p ys)
    case Nil then show ?case by (cases ys) auto
  next
    case (Cons x xs) then show ?case by (cases ys) auto
  qed
  then show "free_list s xs \<Longrightarrow> free_list s ys \<Longrightarrow> xs = ys"
    by (auto simp: free_list_def dest: page_ok_nonzero)
qed

text \<open>The states that the allocator leaves alone apart from memory and its own variables.\<close>

definition alloc_frame :: "'a mem_state_scheme \<Rightarrow> 'a mem_state_scheme \<Rightarrow> bool" where
  "alloc_frame s t \<longleftrightarrow> (\<exists>m f n. t = s\<lparr>pmem := m, freelist := f, free_pages_count := n\<rparr>)"

lemma alloc_frame_refl [simp]: "alloc_frame s s"
  unfolding alloc_frame_def by (intro exI [of _ "pmem s"] exI [of _ "freelist s"] exI [of _ "free_pages_count s"]) simp

lemma alloc_frame_trans: "alloc_frame s t \<Longrightarrow> alloc_frame t u \<Longrightarrow> alloc_frame s u"
  unfolding alloc_frame_def by force

lemma alloc_frame_sel:
  assumes "alloc_frame s t"
  shows "kend t = kend s" "T_h t = T_h s" "N_pg t = N_pg s" "use_lock t = use_lock s"
    "kmem_locked t = kmem_locked s" "swap_slots t = swap_slots s" "procs t = procs s"
  using assms by (auto simp: alloc_frame_def)

text \<open>The lock is free between the operations of one processor.\<close>

lemma kmem_lock_unlock:
  assumes "\<not> kmem_locked s" and "\<And>b. kmem_locked (f (s\<lparr>kmem_locked := b\<rparr>)) = b"
    and "\<And>b. use_lock (f (s\<lparr>kmem_locked := b\<rparr>)) = use_lock s" and "\<And>b. (f (s\<lparr>kmem_locked := b\<rparr>))\<lparr>kmem_locked := False\<rparr> = f s"
  shows "rbind (kmem_acquire s) (\<lambda>s. kmem_release (f s)) = Ok (f s)"
proof -
  have "s\<lparr>kmem_locked := False\<rparr> = s" using assms(1) by simp
  with assms(2,3) [of False] have "use_lock (f s) = use_lock s" "\<not> kmem_locked (f s)" by simp_all
  then show ?thesis using assms by (simp add: kmem_acquire_def kmem_release_def)
qed

lemma kfree_effect:
  assumes "\<not> kmem_locked s" and "page_ok s v"
  shows "kfree v s = Ok ((st32 v (freelist s) (set_page v (replicate PGSIZE 1) s))
           \<lparr>freelist := v, free_pages_count := free_pages_count s + 1\<rparr>)"
proof -
  let ?s = "set_page v (replicate PGSIZE 1) s"
  have "rbind (kmem_acquire ?s) (\<lambda>s. kmem_release ((st32 v (freelist s) s)
           \<lparr>freelist := v, free_pages_count := free_pages_count (st32 v (freelist s) s) + 1\<rparr>)) =
      Ok ((st32 v (freelist ?s) ?s)\<lparr>freelist := v, free_pages_count := free_pages_count (st32 v (freelist ?s) ?s) + 1\<rparr>)"
    by (rule kmem_lock_unlock) (use assms(1) in \<open>simp_all add: st32_def set_page_def page_def\<close>)
  then show ?thesis using assms(2) by (auto simp: kfree_def Let_def page_ok_def not_less [symmetric] not_le)
qed

lemma kfree_rejects: "\<not> page_ok s v \<Longrightarrow> kfree v s = Panic ''kfree''"
  unfolding kfree_def page_ok_def by (rule if_P) (simp only: de_Morgan_conj not_le not_less simp_thms)

lemma kfree_push:
  assumes fl: "free_list s xs" and "\<not> kmem_locked s" and v: "page_ok s v" "v \<notin> set xs"
  shows "\<exists>t. kfree v s = Ok t \<and> free_list t (v # xs) \<and> alloc_frame s t \<and>
     (\<forall>w. frame_of w \<noteq> frame_of v \<longrightarrow> page w t = page w s)"
proof -
  let ?s = "set_page v (replicate PGSIZE 1) s"
  let ?t = "(st32 v (freelist s) ?s)\<lparr>freelist := v, free_pages_count := free_pages_count s + 1\<rparr>"
  have mem: "mem_ok s" using fl by (simp add: free_list_def)
  have other: "frame_of x \<noteq> frame_of v" if "x \<in> set xs" for x
    using that v fl frame_of_inj [of x v] by (auto simp: free_list_def page_ok_def)
  have keep: "ld32 x ?t = ld32 x s" if "x \<in> set xs" for x
    using other [OF that] by (simp add: ld32_st32_frame) (simp add: ld32_def page_set_page)
  have self: "ld32 v (st32 v (freelist s) ?s) = freelist s" using mem v by simp
  have "links_from ?t v (v # xs)"
    using fl links_from_cong [of xs ?t s, OF keep] by (simp add: self free_list_def)
  moreover have "mem_ok ?t" using mem v by simp
  moreover have "\<forall>x\<in>set (v # xs). page_ok ?t x" using fl v(1) by (auto simp: free_list_def page_ok_def)
  ultimately have "free_list ?t (v # xs)" using fl v by (simp add: free_list_def)
  moreover have "alloc_frame s ?t" by (auto simp: alloc_frame_def st32_def set_page_def)
  moreover have "page w ?t = page w s" if "frame_of w \<noteq> frame_of v" for w
    using that by (simp add: page_st32_frame page_set_page)
  ultimately show ?thesis using kfree_effect [OF assms(2) v(1)] by blast
qed

lemma kalloc_pop:
  assumes fl: "free_list s xs" and "\<not> kmem_locked s" and few: "T_h s < int (length xs)" "0 \<le> T_h s"
  shows "\<exists>t. kalloc s = Ok (hd xs, t) \<and> free_list t (tl xs) \<and> alloc_frame s t \<and> page_ok s (hd xs) \<and>
     (\<forall>w. page w t = page w s)"
proof -
  from few obtain x ys where xs: "xs = x # ys" by (cases xs) auto
  have h: "freelist s = x" "page_ok s x" using fl by (auto simp: xs free_list_def)
  note nz = page_ok_nonzero [OF h(2)]
  have "rbind (kmem_acquire s) (\<lambda>s. kmem_release (if freelist s \<noteq> 0 then pop_free s else s)) =
      Ok (if freelist s \<noteq> 0 then pop_free s else s)"
    by (rule kmem_lock_unlock) (use assms(2) in \<open>simp_all add: pop_free_def\<close>)
  then have "kalloc s = Ok (x, pop_free s)"
    using few fl h(1) nz by (auto simp: kalloc_def Let_def free_list_def kmem_acquire_def split: if_splits)
  moreover have "free_list (pop_free s) ys"
    using fl links_from_cong [of ys "pop_free s" s] by (auto simp: xs free_list_def pop_free_def page_ok_def)
  moreover have "alloc_frame s (pop_free s)"
    unfolding alloc_frame_def pop_free_def by (rule exI [of _ "pmem s"]) auto
  ultimately show ?thesis using h(2) by (auto simp: xs pop_free_def)
qed


section \<open>The interface of the allocator\<close>

text \<open>
  What the page tables rely on: \<open>free s xs\<close> says that the free pages are \<open>xs\<close>, \<open>valid s v\<close> that \<open>v\<close> is the
  address of a page the allocator may own, \<open>low s\<close> how many pages it keeps back before it starts to swap.
\<close>

locale page_allocator =
  fixes free :: "'s \<Rightarrow> u32 list \<Rightarrow> bool" and valid :: "'s \<Rightarrow> u32 \<Rightarrow> bool" and low :: "'s \<Rightarrow> nat"
    and get :: "'s \<Rightarrow> (u32 \<times> 's) res" and put :: "u32 \<Rightarrow> 's \<Rightarrow> 's res" and frame :: "'s \<Rightarrow> 's \<Rightarrow> bool"
    and contents :: "u32 \<Rightarrow> 's \<Rightarrow> bytes"
  assumes put: "free s xs \<Longrightarrow> valid s v \<Longrightarrow> v \<notin> set xs \<Longrightarrow>
      \<exists>t. put v s = Ok t \<and> free t (v # xs) \<and> frame s t \<and>
        (\<forall>w. valid s w \<and> w \<noteq> v \<longrightarrow> contents w t = contents w s)"
    and get: "free s xs \<Longrightarrow> low s < length xs \<Longrightarrow>
      \<exists>t. get s = Ok (hd xs, t) \<and> free t (tl xs) \<and> frame s t \<and> (\<forall>w. contents w t = contents w s)"
    and free_valid: "free s xs \<Longrightarrow> v \<in> set xs \<Longrightarrow> valid s v"
    and free_distinct: "free s xs \<Longrightarrow> distinct xs"
    and frame_refl: "frame s s"
    and frame_trans: "frame s t \<Longrightarrow> frame t u \<Longrightarrow> frame s u"
    and frame_valid: "frame s t \<Longrightarrow> valid t v = valid s v"
    and frame_low: "frame s t \<Longrightarrow> low t = low s"
begin

lemma put_get:
  assumes "free s xs" "valid s v" "v \<notin> set xs" "low s \<le> length xs"
  shows "\<exists>t u. put v s = Ok t \<and> get t = Ok (v, u) \<and> free u xs \<and> frame s u"
proof -
  from put [OF assms(1-3)] obtain t where t: "put v s = Ok t" "free t (v # xs)" "frame s t" by blast
  with get [OF t(2)] frame_low [OF t(3)] assms(4) obtain u where
    "get t = Ok (v, u)" "free u xs" "frame t u" by auto
  with t frame_trans show ?thesis by blast
qed

text \<open>A list of pages given back one after the other.\<close>

lemma put_all:
  assumes "free s xs" "\<forall>v\<in>set vs. valid s v" "distinct vs" "set vs \<inter> set xs = {}"
  shows "\<exists>t. rfold put vs s = Ok t \<and> free t (rev vs @ xs) \<and> frame s t \<and>
    (\<forall>w. valid s w \<and> w \<notin> set vs \<longrightarrow> contents w t = contents w s)"
  using assms
proof (induction vs arbitrary: s xs)
  case Nil
  then show ?case by (auto intro: frame_refl)
next
  case (Cons v vs)
  from Cons.prems put [of s xs v] obtain t where t: "put v s = Ok t" "free t (v # xs)" "frame s t"
    "\<forall>w. valid s w \<and> w \<noteq> v \<longrightarrow> contents w t = contents w s" by auto
  have "\<exists>u. rfold put vs t = Ok u \<and> free u (rev vs @ (v # xs)) \<and> frame t u \<and>
      (\<forall>w. valid t w \<and> w \<notin> set vs \<longrightarrow> contents w u = contents w t)"
    by (rule Cons.IH [OF t(2)]) (use Cons.prems frame_valid [OF t(3)] in auto)
  then obtain u where u: "rfold put vs t = Ok u" "free u (rev vs @ (v # xs))" "frame t u"
    "\<forall>w. valid t w \<and> w \<notin> set vs \<longrightarrow> contents w u = contents w t" by blast
  have "contents w u = contents w s" if "valid s w" "w \<notin> set (v # vs)" for w
    using t(4) u(4) that frame_valid [OF t(3)] by simp
  with t(1,3) u(1-3) frame_trans show ?case by auto
qed

end

definition allocator_ok :: "'a mem_state_scheme \<Rightarrow> u32 list \<Rightarrow> bool" where
  "allocator_ok s xs \<longleftrightarrow> free_list s xs \<and> \<not> kmem_locked s \<and> 0 \<le> T_h s"

interpretation pages: page_allocator allocator_ok page_ok "\<lambda>s. nat (T_h s)" kalloc kfree alloc_frame page
proof
  fix s :: "'a mem_state_scheme" and xs v
  assume s: "allocator_ok s xs"
  show "page_ok s v" if "v \<in> set xs" using s that by (auto simp: allocator_ok_def free_list_def)
  show "distinct xs" using s by (simp add: allocator_ok_def free_list_def)
  show "\<exists>t. kfree v s = Ok t \<and> allocator_ok t (v # xs) \<and> alloc_frame s t \<and>
      (\<forall>w. page_ok s w \<and> w \<noteq> v \<longrightarrow> page w t = page w s)" if v: "page_ok s v" "v \<notin> set xs"
  proof -
    from s v kfree_push [of s xs v] obtain t where t: "kfree v s = Ok t" "free_list t (v # xs)" "alloc_frame s t"
      "\<forall>w. frame_of w \<noteq> frame_of v \<longrightarrow> page w t = page w s" by (auto simp: allocator_ok_def)
    have "allocator_ok t (v # xs)" using s t(2) alloc_frame_sel [OF t(3)] by (simp add: allocator_ok_def)
    with t frame_of_inj [of _ v] v(1) show ?thesis by (metis page_ok_aligned)
  qed
  show "\<exists>t. kalloc s = Ok (hd xs, t) \<and> allocator_ok t (tl xs) \<and> alloc_frame s t \<and>
      (\<forall>w. page w t = page w s)" if "nat (T_h s) < length xs"
  proof -
    have "T_h s < int (length xs)" "0 \<le> T_h s" using that s by (auto simp: allocator_ok_def)
    with s kalloc_pop [of s xs] obtain t where t: "kalloc s = Ok (hd xs, t)" "free_list t (tl xs)" "alloc_frame s t"
      "\<forall>w. page w t = page w s" by (auto simp: allocator_ok_def)
    then show ?thesis using s alloc_frame_sel [OF t(3)] by (auto simp: allocator_ok_def)
  qed
next
  fix s t u :: "'a mem_state_scheme"
  show "alloc_frame s t \<Longrightarrow> alloc_frame t u \<Longrightarrow> alloc_frame s u" by (rule alloc_frame_trans)
  assume "alloc_frame s t"
  note sel = alloc_frame_sel [OF this]
  show "page_ok t v = page_ok s v" for v by (rule page_ok_cong [OF sel(1)])
  show "nat (T_h t) = nat (T_h s)" by (simp only: sel)
qed simp

section \<open>What boot builds\<close>

lemma rfold_map: "rfold f (map g xs) = rfold (\<lambda>x. f (g x)) xs"
proof (induction xs)
  case (Cons x xs)
  show ?case by (rule ext) (simp add: Cons)
qed (rule ext, simp)

lemma unat_add_nat:
  assumes "unat p + m < 2 ^ 32"
  shows "unat (p + word_of_nat m :: u32) = unat p + m"
proof -
  have "unat (p + word_of_nat m) = (unat p + m mod 2 ^ 32) mod 2 ^ 32"
    by (simp only: unat_word_ariths unat_of_nat word_size len_num1 len_bit0 len_of_numeral_defs mult_1_right) simp
  with assms show ?thesis by simp
qed

lemma word_step:
  assumes "k < (unat (vend :: u32) - unat p) div 4096"
  shows "unat (p + word_of_nat (4096 * k) :: u32) = unat p + 4096 * k" "unat p + 4096 * k + 4096 \<le> unat vend"
proof -
  have "4096 * ((unat vend - unat p) div 4096) \<le> unat vend - unat p" by simp
  with assms show 1: "unat p + 4096 * k + 4096 \<le> unat vend" by linarith
  have "unat vend < 2 ^ 32" using unsigned_less [of vend] by simp
  with 1 show "unat (p + word_of_nat (4096 * k) :: u32) = unat p + 4096 * k"
    by (intro unat_add_nat) linarith
qed


lemma and_not_4095: "(a :: u32) AND NOT 0xFFF = push_bit 12 (drop_bit 12 a)"
proof -
  have "a AND NOT (mask 12) = push_bit 12 (drop_bit 12 a)"
    by (rule bit_word_eqI) (auto simp: bit_simps)
  then show ?thesis by (simp add: mask_eq_exp_minus_1)
qed

lemma unat_and_not_4095: "unat ((a :: u32) AND NOT 0xFFF) = 4096 * (unat a div 4096)"
proof -
  have "unat a < 2 ^ 32" using unsigned_less [of a] by simp
  then show ?thesis
    unfolding and_not_4095 by (simp add: unat_drop_bit_eq drop_bit_eq_div push_bit_eq_mult unat_word_ariths)
qed

lemma unat_PGROUNDUP:
  assumes "unat x + 4095 < 2 ^ 32"
  shows "unat (PGROUNDUP x) = 4096 * ((unat x + 4095) div 4096)"
proof -
  have "unat (x + 4095) = unat x + 4095" using unat_add_nat [of x 4095] assms by simp
  then show ?thesis by (simp only: PGROUNDUP_def unat_and_not_4095)
qed

lemma mod_4096_unat: "(v :: u32) mod 4096 = 0 \<longleftrightarrow> unat v mod 4096 = 0"
  by (simp add: word_unat_eq_iff unat_mod_distrib)

lemma unat_V2P: "KERNBASE \<le> v \<Longrightarrow> unat (V2P v) = unat v - 0x80000000"
  by (simp add: V2P_def unat_sub)

lemma page_okI:
  assumes "unat v mod 4096 = 0" "KERNBASE \<le> kend s" "unat (kend s) \<le> unat v" "unat v < 0x80400000"
  shows "page_ok s v"
proof -
  have "KERNBASE \<le> v" using assms(2,3) by (simp add: word_le_nat_alt)
  then have "unat (V2P v) < unat PHYSTOP" using assms(4) by (simp add: unat_V2P)
  with assms show ?thesis by (simp add: page_ok_def mod_4096_unat word_le_nat_alt word_less_nat_alt)
qed

lemma boot_pages:
  assumes "allocator_ok s []" and kb: "KERNBASE \<le> vstart" "kend s = vstart" "vstart \<le> vend" "vend \<le> 0x80400000"
  shows "\<exists>t xs. freerange vstart vend s = Ok t \<and> allocator_ok t xs \<and> alloc_frame s t \<and>
    set xs = {v. v mod 4096 = 0 \<and> vstart \<le> v \<and> unat v + 4096 \<le> unat vend}"
proof -
  let ?p = "PGROUNDUP vstart" and ?n = "(unat vend - unat (PGROUNDUP vstart)) div 4096"
  let ?a = "\<lambda>k. ?p + word_of_nat (4096 * k)"
  have "unat vstart \<le> unat vend" "unat vend \<le> 0x80400000" using kb(3,4) by (simp_all add: word_le_nat_alt)
  then have p: "unat ?p = 4096 * ((unat vstart + 4095) div 4096)" by (intro unat_PGROUNDUP) simp
  then have p2: "unat vstart \<le> unat ?p" by linarith
  have a: "unat (?a k) = unat ?p + 4096 * k" "unat ?p + 4096 * k + 4096 \<le> unat vend" if "k < ?n" for k
    using word_step [OF that] by simp_all
  have ok: "\<forall>v\<in>set (map ?a [0..<?n]). page_ok s v"
  proof (clarsimp simp del: of_nat_mult)
    fix k assume k: "k < ?n"
    show "page_ok s (?a k)"
      by (rule page_okI) (use a [OF k] p p2 kb \<open>unat vend \<le> 0x80400000\<close> in \<open>simp_all del: of_nat_mult\<close>)
  qed
  have "inj_on ?a {0..<?n}"
  proof (rule inj_onI)
    fix j k assume "j \<in> {0..<?n}" "k \<in> {0..<?n}" "?a j = ?a k"
    then have "unat ?p + 4096 * j = unat ?p + 4096 * k" using a(1) [of j] a(1) [of k] by simp
    then show "j = k" by simp
  qed
  then have "distinct (map ?a [0..<?n])" by (simp add: distinct_map)
  with pages.put_all [OF assms(1) ok] obtain t where t: "rfold kfree (map ?a [0..<?n]) s = Ok t"
    "allocator_ok t (rev (map ?a [0..<?n]))" "alloc_frame s t" by auto
  from t(1) have "freerange vstart vend s = Ok t" by (simp add: freerange_def Let_def rfold_map del: of_nat_mult)
  moreover have "set (rev (map ?a [0..<?n])) = {v. v mod 4096 = 0 \<and> vstart \<le> v \<and> unat v + 4096 \<le> unat vend}"
  proof (intro set_eqI iffI)
    fix v assume "v \<in> set (rev (map ?a [0..<?n]))"
    then obtain k where k: "k < ?n" "v = ?a k" by (auto simp del: of_nat_mult)
    show "v \<in> {v. v mod 4096 = 0 \<and> vstart \<le> v \<and> unat v + 4096 \<le> unat vend}"
      using a [OF k(1)] p p2 unfolding k(2) mem_Collect_eq mod_4096_unat word_le_nat_alt by simp
  next
    fix v assume "v \<in> {v. v mod 4096 = 0 \<and> vstart \<le> v \<and> unat v + 4096 \<le> unat vend}"
    then have v: "unat v mod 4096 = 0" "unat vstart \<le> unat v" "unat v + 4096 \<le> unat vend"
      by (simp_all add: mod_4096_unat word_le_nat_alt)
    define k where "k = unat v div 4096 - (unat vstart + 4095) div 4096"
    obtain q where q: "unat v = 4096 * q" using v(1) by (auto simp: mod_eq_0_iff_dvd elim: dvdE)
    have "(unat vstart + 4095) div 4096 \<le> q" using v(2) unfolding q by linarith
    then have 1: "unat v = unat ?p + 4096 * k" unfolding p k_def q by simp
    with v(3) have k: "k < ?n" by simp
    with 1 a(1) [OF k] have "v = ?a k" by (simp add: word_unat_eq_iff del: of_nat_mult)
    with k show "v \<in> set (rev (map ?a [0..<?n]))" by (auto simp del: of_nat_mult)
  qed
  ultimately show ?thesis using t(2,3) by blast
qed

end
