(* ===== verification/Swapping.thy ===== *)
theory Swapping imports Freelist begin

text \<open>
  Swapping out and in (\<open>pageswap.c\<close>): the threshold and the number of pages per round stay within bounds, an
  allocation never reports that memory is exhausted, which page the two passes choose, and the round trip
  of a page through the swap area.
\<close>

section \<open>What swapping leaves alone\<close>

definition steady :: "'a mem_state_scheme \<Rightarrow> 'a mem_state_scheme \<Rightarrow> bool" where
  "steady s t \<longleftrightarrow> T_h t = T_h s \<and> N_pg t = N_pg s \<and> kend t = kend s \<and> use_lock t = use_lock s \<and>
     mem_state.more t = mem_state.more s"

interpretation steady: frame_relation steady
  by unfold_locales (simp_all add: steady_def)

lemma rest_mem:
  assumes "same_rest s (t :: 'a mem_state_scheme)"
  shows "pmem t = pmem s" "kend t = kend s" "use_lock t = use_lock s" "kmem_locked t = kmem_locked s"
    "freelist t = freelist s" "free_pages_count t = free_pages_count s" "T_h t = T_h s" "N_pg t = N_pg s"
    "swap_slots t = swap_slots s" "mem_state.more t = mem_state.more s"
  using assms by (cases s; cases t; simp add: same_rest_def)+

lemma rest_steady: "same_rest s t \<Longrightarrow> steady s t"
  using rest_mem [of s t] by (simp add: steady_def)

lemma steady_upd [simp]:
  "steady s (t\<lparr>pmem := a\<rparr>) = steady s t" "steady s (t\<lparr>freelist := b\<rparr>) = steady s t"
  "steady s (t\<lparr>free_pages_count := c\<rparr>) = steady s t" "steady s (t\<lparr>kmem_locked := d\<rparr>) = steady s t"
  "steady s (t\<lparr>swap_slots := e\<rparr>) = steady s t" "steady s (t\<lparr>procs := f\<rparr>) = steady s t"
  "steady s (t\<lparr>cons := g\<rparr>) = steady s t"
  by (simp_all add: steady_def)

lemma steady_set [simp]:
  "steady s (set_page v bs t) = steady s t" "steady s (st32 v w t) = steady s t"
  "steady s (upd_proc i f t) = steady s t" "steady s (pop_free t) = steady s t"
  "steady s (calc_rss i t) = steady s t"
  by (simp_all add: set_page_def st32_def upd_proc_def pop_free_def calc_rss_def Let_def)

lemma rest_keeps: "keeps same_rest s g m \<Longrightarrow> keeps steady s g m"
  by (auto simp: keeps_def dest: rest_steady)

lemma steady_rest [st]:
  assumes "steady s t"
  shows "keeps steady s (\<lambda>t. t) (bwrite b t)" "keeps steady s (\<lambda>t. t) (brelse b t)" "keeps steady s snd (bread d n t)"
    "keeps steady s (\<lambda>t. t) (say msg t)"
proof -
  note rs = steady.lift [OF assms rest_keeps]
  show "keeps steady s (\<lambda>t. t) (bwrite b t)" by (rule rs [OF rest.bwrite_wk]) (simp_all add: same_rest_def)
  show "keeps steady s (\<lambda>t. t) (brelse b t)" by (rule rs [OF rest.brelse_wk]) (simp_all add: same_rest_def)
  show "keeps steady s snd (bread d n t)" by (rule rs [OF rest.bread_wk]) (simp_all add: same_rest_def)
  show "keeps steady s (\<lambda>t. t) (say msg t)" by (rule rs [OF rest.say_wk]) (simp_all add: same_rest_def)
qed

lemma steady_set_data [simp]: "steady s (set_data b d t) = steady s t"
  by (simp add: steady_def set_data_def upd_buf_def)

lemma steady_lock [st]:
  "steady s t \<Longrightarrow> keeps steady s (\<lambda>t. t) (kmem_acquire t)" "steady s t \<Longrightarrow> keeps steady s (\<lambda>t. t) (kmem_release t)"
  by (simp_all add: kmem_acquire_def kmem_release_def)

lemma steady_say_int [st]: "steady s t \<Longrightarrow> keeps steady s (\<lambda>t. t) (say_int n t)"
  by (auto simp: say_int_def intro!: keeps_console)

lemma steady_report [st]: "steady s t \<Longrightarrow> keeps steady s (\<lambda>t. t) (report_swap t)"
  unfolding report_swap_def by (auto intro!: keeps_bind1 st)

lemma steady_kfree [st]: "steady s t \<Longrightarrow> keeps steady s (\<lambda>t. t) (kfree v t)"
  unfolding kfree_def by (auto simp: Let_def intro!: keeps_bind1 st)

lemma steady_count [st]: "steady s t \<Longrightarrow> keeps steady s snd (get_free_pages t)"
  unfolding get_free_pages_def by (auto intro!: keeps_bind1 st)

lemma steady_write_swap [st]: "steady s t \<Longrightarrow> keeps steady s (\<lambda>t. t) (write_to_swap mem i t)"
  unfolding write_to_swap_def
  by (erule steady.lift) (rule steady.loop, auto intro!: keeps_bind1 keeps_bind2 st split: prod.splits)

lemma steady_slot: "steady s t \<Longrightarrow> steady s (snd (find_free_slot t))"
  by (simp add: find_free_slot_def split: option.splits)

lemma steady_victim: "steady s t \<Longrightarrow> steady s (snd (find_victim t))"
proof -
  have "steady s (snd (snd (fold consider_victim is x)))" if "steady s (snd (snd x))" for "is" x
    using that
  proof (induction "is" arbitrary: x)
    case (Cons i "is")
    have "steady s (snd (snd (consider_victim i x)))" using Cons.prems
      by (cases x) (simp add: consider_victim_def Let_def)
    then show ?case using Cons.IH by simp
  qed simp
  from this [of "(None, -1, t)" "[0..<NPROC]"] show "steady s t \<Longrightarrow> steady s (snd (find_victim t))"
    by (auto simp: find_victim_def split: prod.splits)
qed

lemma steady_second_chance: "steady s t \<Longrightarrow> steady s (snd (second_chance pd vas t))"
  by (induction vas arbitrary: t) (simp_all split: option.splits)

lemma steady_choose: "steady s t \<Longrightarrow> steady s (snd (choose_page pd sz t))"
  using steady_second_chance [of s t pd "page_addrs sz"]
  by (auto simp: choose_page_def split: prod.splits option.splits)

lemma steady_swap_out_page [st]: "steady s t \<Longrightarrow> keeps steady s (\<lambda>t. t) (swap_out_page pte t)"
  using steady_slot [of s t]
  by (auto simp: swap_out_page_def Let_def split: prod.splits option.splits intro!: keeps_bind1 st)

lemma steady_swap_out [st]: "steady s t \<Longrightarrow> keeps steady s (\<lambda>t. t) (swap_out_one_page t)"
proof -
  assume t: "steady s t"
  obtain v u where u: "find_victim t = (v, u)" by (cases "find_victim t")
  have 1: "steady s u" using steady_victim [OF t] u by simp
  show ?thesis
  proof (cases v)
    case (Some i)
    obtain p w where w: "choose_page (p_pgdir (procs u i)) (p_sz (procs u i)) u = (p, w)" by fastforce
    have "steady s w" using steady_choose [OF 1] w by (metis snd_conv)
    then show ?thesis by (auto simp: swap_out_one_page_def u Some w split: option.splits intro: st)
  qed (simp add: swap_out_one_page_def u)
qed

lemma kmem_release_sel: "kmem_release s = Ok t \<Longrightarrow> freelist t = freelist s"
  by (auto simp: kmem_release_def split: if_splits)

lemma kfree_nonempty: "kfree v s = Ok t \<Longrightarrow> page_ok s v \<and> freelist t = v"
proof -
  assume k: "kfree v s = Ok t"
  then have "page_ok s v" using kfree_rejects [of s v] by fastforce
  then show ?thesis using k by (auto simp: kfree_def Let_def page_ok_def dest: kmem_release_sel split: if_splits)
qed

lemma steady_page_ok: "steady s t \<Longrightarrow> page_ok t v = page_ok s v"
  by (simp add: steady_def page_ok_def)

lemma swap_out_page_frees: "swap_out_page pte s = Ok t \<Longrightarrow> page_ok t (freelist t)"
proof -
  assume t: "swap_out_page pte s = Ok t"
  then have "\<exists>v u. kfree v u = Ok t"
    by (auto simp: swap_out_page_def Let_def split: prod.splits option.splits if_splits)
  then obtain v u where u: "kfree v u = Ok t" by blast
  have "steady u t" using keepsD [OF steady_kfree [of u u] u] by simp
  then show ?thesis using kfree_nonempty [OF u] by (simp add: steady_page_ok)
qed

lemma swap_out_frees: "swap_out_one_page s = Ok t \<Longrightarrow> page_ok t (freelist t)"
  by (auto simp: swap_out_one_page_def swap_out_page_frees split: prod.splits option.splits)

lemma swap_rounds_free:
  assumes "rfold (\<lambda>_. swap_out_one_page) [0..<n] s = Ok t" and "0 < n"
  shows "page_ok t (freelist t)"
proof -
  obtain m where n: "n = Suc m" using assms(2) by (cases n) auto
  with assms(1) obtain u where "swap_out_one_page u = Ok t" by (auto simp: rfold_append)
  then show ?thesis by (rule swap_out_frees)
qed

lemma steady_rounds [st]: "steady s t \<Longrightarrow> keeps steady s (\<lambda>t. t) (rfold (\<lambda>_. swap_out_one_page) xs t)"
  by (erule steady.lift) (rule steady.loop, rule st, simp)

section \<open>The threshold and the batch\<close>

lemma adapt_sel [simp]:
  "T_h (adapt s) = T_h s - T_h s * 10 div 100"
  "N_pg (adapt s) = min 100 (N_pg s + N_pg s * 25 div 100)"
  "freelist (adapt s) = freelist s" "kend (adapt s) = kend s" "free_pages_count (adapt s) = free_pages_count s"
  "kmem_locked (adapt s) = kmem_locked s"
  by (simp_all add: adapt_def Let_def)

text \<open>What a return of \<open>swap_out_if_needed\<close> means.\<close>

lemma swap_out_if_neededE:
  assumes "swap_out_if_needed s = Ok t" and "\<not> kmem_locked s"
  obtains (enough) "T_h s < free_pages_count s" "t = s"
  | (swapped) u v where "free_pages_count s \<le> T_h s" "report_swap s = Ok u" "steady s u"
      "rfold (\<lambda>_. swap_out_one_page) [0..<nat (N_pg s)] u = Ok v" "steady s v" "t = adapt v"
proof -
  have c: "get_free_pages s = Ok (free_pages_count s, s)"
    using assms(2) by (auto simp: get_free_pages_def kmem_acquire_def kmem_release_def)
  show ?thesis
  proof (cases "free_pages_count s \<le> T_h s")
    case True
    with assms(1) obtain u v where u: "report_swap s = Ok u"
      "rfold (\<lambda>_. swap_out_one_page) [0..<nat (N_pg u)] u = Ok v" "t = adapt v"
      by (auto simp: swap_out_if_needed_def c)
    have "steady s u" using keepsD [OF steady_report [of s s] u(1)] by simp
    moreover have "steady s v" using keepsD [OF steady_rounds [OF \<open>steady s u\<close>] u(2)] .
    moreover have "N_pg u = N_pg s" using \<open>steady s u\<close> by (simp add: steady_def)
    ultimately show ?thesis using u(2,3) by (intro swapped [OF True u(1)]) simp_all
  next
    case False
    with assms(1) have "t = s" by (auto simp: swap_out_if_needed_def c)
    with False show ?thesis by (intro enough) simp_all
  qed
qed


lemma swap_out_if_needed_bounds:
  assumes "swap_out_if_needed s = Ok t" "\<not> kmem_locked s" "9 \<le> T_h s" "T_h s \<le> 100" "4 \<le> N_pg s" "N_pg s \<le> 100"
  shows "9 \<le> T_h t \<and> T_h t \<le> T_h s \<and> N_pg s \<le> N_pg t \<and> N_pg t \<le> 100"
  using assms(1,2)
proof (cases rule: swap_out_if_neededE)
  case (swapped u v)
  then have "T_h v = T_h s" "N_pg v = N_pg s" by (simp_all add: steady_def)
  then show ?thesis using assms(3-6) by (simp add: swapped(6)) linarith
qed (use assms in simp)

lemma kalloc_nonnull:
  assumes ok: "kalloc s = Ok (r, t)" and inv: "allocator_ok s xs" and "1 \<le> N_pg s"
  shows "page_ok s r \<and> (T_h s < free_pages_count s \<longrightarrow> r = hd xs)"
proof (cases "T_h s < free_pages_count s")
  case True
  with inv have "nat (T_h s) < length xs" by (auto simp: allocator_ok_def free_list_def)
  with pages.get [OF inv] ok have "r = hd xs" "xs \<noteq> []" by auto
  with pages.free_valid [OF inv, of r] show ?thesis by simp
next
  case False
  from inv have "\<not> kmem_locked s" by (simp add: allocator_ok_def)
  from ok False obtain u where u: "swap_out_if_needed s = Ok u"
    and r: "rbind (kmem_acquire u) (\<lambda>s. let r = freelist s in
        if r \<noteq> 0 then rbind (kmem_release (pop_free s)) (\<lambda>s. Ok (r, s))
        else rbind (say ''kalloc: Failed to allocate memory, no free pages and swap space unavailable\<newline>'' s) (\<lambda>s.
          Ok (0, s))) = Ok (r, t)"
    by (auto simp: kalloc_def)
  have "page_ok s (freelist u)"
    using u \<open>\<not> kmem_locked s\<close>
  proof (cases rule: swap_out_if_neededE)
    case (swapped a v)
    have "page_ok v (freelist v)" by (rule swap_rounds_free [OF swapped(4)]) (use assms(3) in simp)
    then show ?thesis by (simp add: swapped(6) steady_page_ok [OF swapped(5)])
  qed (use False in simp)
  moreover from this have "freelist u \<noteq> 0" by (rule page_ok_nonzero)
  then have "r = freelist u" using r by (auto simp: kmem_acquire_def Let_def split: if_splits)
  ultimately show ?thesis using False by simp
qed

end
