(* ===== verification/Pgtab.thy ===== *)
theory Pgtab imports Freelist begin

text \<open>
  Page tables as maps: the two levels of a page table that lie in page frames, the entry that belongs to a
  virtual address, and what a store to one entry does to all the others.
\<close>

section \<open>Addresses inside a page\<close>

lemma disjoint_add:
  assumes "take_bit 12 (w :: u32) = 0" and "drop_bit 12 d = 0"
  shows "w + d = w OR d"
proof (rule disjunctive_add)
  have "\<not> bit w n" if "n < 12" for n using assms(1) that by (metis bit_0_eq bit_take_bit_iff bot_apply bot_bool_def)
  moreover have "\<not> bit d n" if "12 \<le> n" for n
    using arg_cong [OF assms(2), of "\<lambda>x. bit x (n - 12)"] that by (simp add: bit_drop_bit_eq)
  ultimately show "\<not> bit w n \<or> \<not> bit d n" for n by (meson not_le)
qed

lemma drop_bit_small: "unat (d :: u32) < 4096 \<Longrightarrow> drop_bit 12 d = 0"
  unfolding word_unat_eq_iff unat_drop_bit_eq by (simp add: drop_bit_eq_div)

lemma offset_add:
  assumes "p mod 4096 = 0" and "unat d < 4096"
  shows "(p + d) AND 0xFFF = d" "frame_of (p + d) = frame_of p" "(p + d) AND NOT 0xFFF = p"
proof -
  have p: "take_bit 12 p = 0" and d: "drop_bit 12 d = 0"
    using assms by (simp_all only: aligned_take_bit drop_bit_small)
  have m: "x AND 0xFFF = take_bit 12 x" for x :: u32 by (simp add: and_4095 take_bit_eq_mod)
  have "take_bit 12 (p + d) = take_bit 12 d"
    by (simp add: disjoint_add [OF p d] p)
  also have "\<dots> = d" using bits_ident [of 12 d] d by simp
  finally show "(p + d) AND 0xFFF = d" by (simp only: m)
  have "take_bit 12 (V2P p) = 0" by (simp only: take_bit_V2P p)
  then have "drop_bit 12 (V2P p + d) = drop_bit 12 (V2P p)"
    by (simp add: disjoint_add [OF _ d] d)
  moreover have "V2P (p + d) = V2P p + d" by (simp add: V2P_add add.commute add.left_commute)
  ultimately show "frame_of (p + d) = frame_of p" by (simp only: frame_of_def)
  have "push_bit 12 (drop_bit 12 (p + d)) = push_bit 12 (drop_bit 12 p)"
    by (simp add: disjoint_add [OF p d] d)
  also have "\<dots> = p" using bits_ident [of 12 p] p by simp
  finally show "(p + d) AND NOT 0xFFF = p" by (simp only: and_not_4095)
qed

lemma PTX_less: "unat (PTX va) < 1024" and PDX_less: "unat (PDX va) < 1024"
proof -
  have "x AND 0x3FF = take_bit 10 x" for x :: u32 using take_bit_eq_mask [of 10 x] by (simp add: mask_eq_exp_minus_1)
  moreover have "unat (take_bit 10 x) < 1024" for x :: u32
    using take_bit_nat_less_exp [of 10 "unat x"] by (simp add: unsigned_take_bit_eq)
  ultimately show "unat (PTX va) < 1024" "unat (PDX va) < 1024" by (simp_all add: PTX_def PDX_def)
qed

lemma unat_times4: "unat (x :: u32) < 1024 \<Longrightarrow> unat (4 * x) = 4 * unat x"
  by (simp add: unat_word_ariths)

text \<open>The entry of index \<open>x\<close> in the page \<open>p\<close> of 1024 entries.\<close>

definition entry :: "u32 \<Rightarrow> u32 \<Rightarrow> u32" where
  "entry p x = p + 4 * x"

lemma entry_page:
  assumes "p mod 4096 = 0" "unat x < 1024"
  shows "entry p x AND 0xFFF = 4 * x" "frame_of (entry p x) = frame_of p" "word_aligned (entry p x)"
    "entry p x AND NOT 0xFFF = p"
proof -
  have d: "unat (4 * x) < 4096" using assms(2) by (simp add: unat_times4)
  note o = offset_add [OF assms(1) d]
  show "entry p x AND 0xFFF = 4 * x" "frame_of (entry p x) = frame_of p" "entry p x AND NOT 0xFFF = p"
    using o by (simp_all add: entry_def)
  have "unat (entry p x) mod 4096 = 4 * unat x"
    using o(1) unat_times4 [OF assms(2)] by (simp add: entry_def and_4095 word_unat_eq_iff unat_mod_distrib)
  moreover have "unat (entry p x) mod 4096 mod 4 = unat (entry p x) mod 4" by (rule mod_mod_cancel) simp
  ultimately have "unat (entry p x) mod 4 = 0" by simp
  then show "word_aligned (entry p x)" by (simp add: word_aligned_def word_unat_eq_iff unat_mod_distrib)
qed


section \<open>The two levels\<close>

text \<open>
  \<open>tab s pd i\<close> is the page of the table that entry \<open>i\<close> of the directory \<open>pd\<close> names, if there is one; \<open>pte s
  pd va\<close> is the address of the entry of \<open>va\<close>.  In a well-formed page table the tables are pairwise distinct
  and distinct from the directory.
\<close>

definition tab :: "'a mem_state_scheme \<Rightarrow> u32 \<Rightarrow> u32 \<Rightarrow> u32 option" where
  "tab s pd i = (let pde = ld32 (entry pd i) s in if pde AND PTE_P \<noteq> 0 then Some (P2V (PTE_ADDR pde)) else None)"

lemma walk_lookup_tab: "walk_lookup pd va s = map_option (\<lambda>t. entry t (PTX va)) (tab s pd (PDX va))"
  by (simp add: walk_lookup_def pde_at_def tab_def entry_def Let_def)

definition pgtab_ok :: "'a mem_state_scheme \<Rightarrow> u32 \<Rightarrow> bool" where
  "pgtab_ok s pd \<longleftrightarrow> mem_ok s \<and> pd mod 4096 = 0 \<and>
     (\<forall>i t. unat i < 1024 \<and> tab s pd i = Some t \<longrightarrow> t \<noteq> pd) \<and>
     (\<forall>i j t. unat i < 1024 \<and> unat j < 1024 \<and> tab s pd i = Some t \<and> tab s pd j = Some t \<longrightarrow> i = j)"

lemma P2V_aligned: "P2V (x AND NOT 0xFFF) mod 4096 = 0"
proof -
  have "take_bit 12 (V2P (P2V (x AND NOT 0xFFF))) = 0" 
    by (simp only: P2V_V2P and_not_4095 take_bit_push_bit) simp
  then show ?thesis unfolding take_bit_V2P aligned_take_bit .
qed

lemma PTE_ADDR_aligned: "P2V (PTE_ADDR x) mod 4096 = 0"
  unfolding PTE_ADDR_def by (rule P2V_aligned)

lemma tab_aligned: "tab s pd i = Some t \<Longrightarrow> t mod 4096 = 0"
  using P2V_aligned [of "ld32 (entry pd i) s"] by (auto simp: tab_def Let_def PTE_ADDR_def split: if_splits)

text \<open>The pages a page table occupies.\<close>

definition pt_pages :: "'a mem_state_scheme \<Rightarrow> u32 \<Rightarrow> u32 set" where
  "pt_pages s pd = insert pd {t. \<exists>i. unat i < 1024 \<and> tab s pd i = Some t}"

lemma pt_pages_aligned: "pgtab_ok s pd \<Longrightarrow> p \<in> pt_pages s pd \<Longrightarrow> p mod 4096 = 0"
  unfolding pt_pages_def pgtab_ok_def by (elim insertE CollectE exE conjE) (simp_all only: tab_aligned)

lemma tab_in_pages: "unat i < 1024 \<Longrightarrow> tab s pd i = Some t \<Longrightarrow> t \<in> pt_pages s pd"
  by (auto simp: pt_pages_def)

text \<open>What only depends on the pages of the table itself.\<close>

lemma ld32_page_cong: "page a s = page a t \<Longrightarrow> ld32 a s = ld32 a t"
  by (simp add: ld32_def)

lemma page_frame_cong: "frame_of a = frame_of b \<Longrightarrow> page a s = page b s"
  by (simp add: page_def)

lemma tab_cong:
  assumes "pd mod 4096 = 0" "unat i < 1024" "page pd t = page pd s"
  shows "tab t pd i = tab s pd i"
proof -
  note e = page_frame_cong [OF entry_page(2) [OF assms(1,2)]]
  have "ld32 (entry pd i) t = ld32 (entry pd i) s" by (rule ld32_page_cong) (simp only: e assms(3))
  then show ?thesis by (simp add: tab_def)
qed

lemma pgtab_ok_cong:
  assumes "pgtab_ok s pd" "mem_ok t" "page pd t = page pd s"
  shows "pgtab_ok t pd" "pt_pages t pd = pt_pages s pd"
proof -
  have pd: "pd mod 4096 = 0" using assms(1) by (simp add: pgtab_ok_def)
  have eq: "unat i < 1024 \<Longrightarrow> tab t pd i = tab s pd i" for i by (rule tab_cong [OF pd _ assms(3)])
  show "pgtab_ok t pd" using assms(1,2) unfolding pgtab_ok_def by (simp add: eq cong: conj_cong)
  show "pt_pages t pd = pt_pages s pd" using eq by (auto simp: pt_pages_def)
qed

text \<open>The contents of the entry of \<open>va\<close>.\<close>

definition pte :: "'a mem_state_scheme \<Rightarrow> u32 \<Rightarrow> u32 \<Rightarrow> u32 option" where
  "pte s pd va = map_option (\<lambda>a. ld32 a s) (walk_lookup pd va s)"

lemma present_pte: "present s pd va \<longleftrightarrow> (\<exists>e. pte s pd va = Some e \<and> e AND PTE_P \<noteq> 0)"
  by (auto simp: present_def pte_def split: option.splits)

lemma walk_lookup_props:
  assumes "pgtab_ok s pd" "walk_lookup pd va s = Some a"
  obtains t where "tab s pd (PDX va) = Some t" "a = entry t (PTX va)" "t \<in> pt_pages s pd" "t \<noteq> pd"
    "t mod 4096 = 0" "frame_of a = frame_of t" "word_aligned a"
proof -
  from assms(2) obtain t where t: "tab s pd (PDX va) = Some t" "a = entry t (PTX va)"
    by (auto simp: walk_lookup_tab)
  have "t \<noteq> pd" using assms(1) t(1) PDX_less by (auto simp: pgtab_ok_def)
  then show ?thesis using that t tab_in_pages [OF PDX_less t(1)] tab_aligned [OF t(1)] entry_page [OF tab_aligned [OF t(1)] PTX_less]
    by simp
qed

text \<open>A store to the entry of \<open>va\<close> changes no other entry.\<close>

lemma same_entry:
  assumes "entry t x = entry u y" "t mod 4096 = 0" "u mod 4096 = 0" "unat x < 1024" "unat y < 1024"
  shows "t = u" "x = y"
proof -
  show "t = u" using entry_page(4) [OF assms(2,4)] entry_page(4) [OF assms(3,5)] assms(1) by simp
  have "4 * x = 4 * y" using entry_page(1) [OF assms(2,4)] entry_page(1) [OF assms(3,5)] assms(1) by simp
  then have "4 * unat x = 4 * unat y" using unat_times4 [OF assms(4)] unat_times4 [OF assms(5)] by metis
  then show "x = y" by (simp add: word_unat_eq_iff)
qed

lemma store_pte:
  assumes ok: "pgtab_ok s pd" and a: "walk_lookup pd va s = Some a"
  shows "pgtab_ok (st32 a w s) pd" "walk_lookup pd vb (st32 a w s) = walk_lookup pd vb s"
    "pte (st32 a w s) pd vb = (if PDX vb = PDX va \<and> PTX vb = PTX va then Some w else pte s pd vb)"
    "pt_pages (st32 a w s) pd = pt_pages s pd" "page pd (st32 a w s) = page pd s"
proof -
  have mem: "mem_ok s" and pd: "pd mod 4096 = 0" using ok by (simp_all add: pgtab_ok_def)
  obtain t where t: "tab s pd (PDX va) = Some t" "a = entry t (PTX va)" "t \<noteq> pd" "t mod 4096 = 0"
    "frame_of a = frame_of t" "word_aligned a" by (rule walk_lookup_props [OF ok a])
  have "frame_of pd \<noteq> frame_of a" using t(3-5) pd frame_of_inj [of pd t] by metis
  then show pg: "page pd (st32 a w s) = page pd s" by (rule page_st32_frame)
  have m: "mem_ok (st32 a w s)" using mem t(6) by simp
  show "pgtab_ok (st32 a w s) pd" "pt_pages (st32 a w s) pd = pt_pages s pd"
    by (rule pgtab_ok_cong [OF ok m pg])+
  show wl: "walk_lookup pd vb (st32 a w s) = walk_lookup pd vb s" for vb
    using tab_cong [OF pd PDX_less pg] by (simp add: walk_lookup_tab)
  show "pte (st32 a w s) pd vb = (if PDX vb = PDX va \<and> PTX vb = PTX va then Some w else pte s pd vb)"
  proof (cases "walk_lookup pd vb s")
    case None
    then show ?thesis using a wl [of vb] by (auto simp: pte_def walk_lookup_tab)
  next
    case (Some b)
    obtain u where u: "tab s pd (PDX vb) = Some u" "b = entry u (PTX vb)" "u mod 4096 = 0" "word_aligned b"
      by (rule walk_lookup_props [OF ok Some])
    have "PDX vb = PDX va" if "u = t"
      using ok u(1) t(1) that PDX_less [of va] PDX_less [of vb] unfolding pgtab_ok_def by blast
    then have "b = a \<longleftrightarrow> PDX vb = PDX va \<and> PTX vb = PTX va"
      using same_entry [OF _ u(3) t(4) PTX_less PTX_less, of vb va] u(1,2) t(1,2) by auto
    then show ?thesis using wl [of vb] Some mem t(6) u(4) ld32_st32_other [of s a b w]
      by (auto simp: pte_def)
  qed
qed

end
