(* ===== verification/SwapTrip.thy ===== *)
theory SwapTrip imports Swapping Pgtab begin

text \<open>
  A page through the swap area: what \<open>write_to_swap\<close> and \<open>read_from_swap\<close> do to the disk and to memory, by
  way of the interface of the buffer cache, and the page fault that brings back what was swapped out.
\<close>

section \<open>A block written at once, a block read\<close>

context block_cache
begin

lemma write_block:
  assumes inv: "inv s" and h: "a_held (abs s) = Map.empty" and b: "b < nblocks s"
    and room: "finite (a_pins (abs s))" "card (a_pins (abs s)) < NBUF" and d: "length d = BSIZE"
  shows "\<exists>i s1 s2 s3. rd b s = Ok (i, s1) \<and> wr i (put i d s1) = Ok s2 \<and> rel i s2 = Ok s3 \<and> inv s3 \<and>
    frame s s1 \<and> frame s s3 \<and> a_held (abs s3) = Map.empty \<and> a_view (abs s3) = (a_view (abs s))(b := d) \<and>
    a_pins (abs s3) = a_pins (abs s) - {b}"
proof -
  from rd [OF inv b] h room obtain i s1 where 1: "rd b s = Ok (i, s1)" "inv s1" "frame s s1"
    "abs s1 = (abs s)\<lparr>a_held := [i \<mapsto> b]\<rparr>" by auto
  from put_wr [OF 1(2) _ d, of i b] 1(4) obtain s2 where 2: "wr i (put i d s1) = Ok s2" "inv s2" "frame s1 s2"
    "abs s2 = (abs s1)\<lparr>a_view := (a_view (abs s1))(b := d), a_disk := (a_disk (abs s1))(b := d),
      a_trace := a_trace (abs s1) @ [(b, d)], a_pins := a_pins (abs s1) - {b}\<rparr>" by auto
  from rel [OF 2(2), of i b] obtain s3 where 3: "rel i s2 = Ok s3" "inv s3" "frame s2 s3"
    "abs s3 = (abs s2)\<lparr>a_held := Map.empty\<rparr>" by (auto simp: 2(4) 1(4))
  have "frame s s3" using 1(3) 2(3) 3(3) frame_trans by blast
  then show ?thesis using 1 2 3 by auto
qed

end

section \<open>The blocks of a slot\<close>

lemma concat_slices: "length xs = n * m \<Longrightarrow> concat (map (\<lambda>j. slice (j * m) m xs) [0..<n]) = xs"
proof (induction n arbitrary: xs)
  case (Suc n)
  have t: "length (take (n * m) xs) = n * m" using Suc.prems by simp
  have "slice (j * m) m (take (n * m) xs) = slice (j * m) m xs" if "j < n" for j
  proof -
    have "j * m + m \<le> n * m" using that by (metis Suc_leI add.commute mult_Suc mult_le_mono1)
    then show ?thesis by (simp add: slice_def drop_take take_take min_def)
  qed
  then have "concat (map (\<lambda>j. slice (j * m) m xs) [0..<n]) = take (n * m) xs"
    using Suc.IH [OF t] by (metis (no_types, lifting) atLeastLessThan_iff map_cong set_upt)
  moreover have "slice (n * m) m xs = drop (n * m) xs" using Suc.prems by (simp add: slice_def)
  ultimately show ?case by simp
qed simp

definition slot_block :: "nat \<Rightarrow> nat \<Rightarrow> u32" where
  "slot_block slot j = word_of_nat (2 + slot * BLOCKS_PER_SLOT + j)"

definition slot_page :: "'a mem_state_scheme \<Rightarrow> nat \<Rightarrow> bytes" where
  "slot_page s slot = concat (map (\<lambda>j. a_view (cabs s) (slot_block slot j)) [0..<BLOCKS_PER_SLOT])"

lemma unat_slot_block: "slot < NUM_SLOTS \<Longrightarrow> j < 8 \<Longrightarrow> unat (slot_block slot j) = 2 + slot * 8 + j"
  unfolding slot_block_def unat_of_nat by simp

lemma slot_block_inj:
  "slot < NUM_SLOTS \<Longrightarrow> j < 8 \<Longrightarrow> k < 8 \<Longrightarrow> slot_block slot j = slot_block slot k \<Longrightarrow> j = k"
  using unat_slot_block [of slot j] unat_slot_block [of slot k] by (metis add_left_cancel)

text \<open>The disk is large enough for the swap area, no buffer is held and there is a buffer to use.\<close>

definition swap_disk :: "'a bio_state_scheme \<Rightarrow> bool" where
  "swap_disk s \<longleftrightarrow> bio_inv s \<and> a_held (cabs s) = Map.empty \<and> finite (a_pins (cabs s)) \<and>
     card (a_pins (cabs s)) < NBUF \<and> 6402 \<le> unat (disksize s)"

lemma slot_block_disk: "swap_disk s \<Longrightarrow> slot < NUM_SLOTS \<Longrightarrow> j < 8 \<Longrightarrow> slot_block slot j < disksize s"
  by (simp add: word_less_nat_alt unat_slot_block swap_disk_def)

lemma bio_frame_mem:
  assumes "bio_frame s (t :: 'a mem_state_scheme)"
  shows "pmem t = pmem s \<and> kend t = kend s \<and> use_lock t = use_lock s \<and> kmem_locked t = kmem_locked s \<and>
    freelist t = freelist s \<and> free_pages_count t = free_pages_count s \<and> T_h t = T_h s \<and> N_pg t = N_pg s \<and>
    swap_slots t = swap_slots s \<and> p_pgdir (procs t i) = p_pgdir (procs s i)"
  using assms
proof (rule bio_frameE)
  fix P D T B N V
  assume t: "t = s\<lparr>procs := P, memdisk := D, disk_trace := T, bufs := B, bnext := N, bprev := V\<rparr>"
    and P: "\<And>i. state_only (procs s i) (P i)"
  obtain st where "P i = (procs s i)\<lparr>p_state := st\<rparr>" using P [of i] unfolding state_only_def by blast
  then show ?thesis by (simp add: t)
qed


lemma write_to_swap_step:
  assumes d: "swap_disk u" and i: "slot < NUM_SLOTS" "j < 8" and mem: "length (page mem u) = PGSIZE"
  shows "\<exists>t. rbind (bread 1 (slot_block slot j) u) (\<lambda>(b, s).
       rbind (bwrite b (set_data b (slice (j * BSIZE) BSIZE (page mem s)) s)) (\<lambda>s. brelse b s)) = Ok t \<and>
     swap_disk t \<and> bio_frame u t \<and>
     a_view (cabs t) = (a_view (cabs u))(slot_block slot j := slice (j * BSIZE) BSIZE (page mem u))"
proof -
  let ?b = "slot_block slot j" and ?d = "slice (j * BSIZE) BSIZE (page mem u)"
  have len: "length ?d = BSIZE" using i(2) mem by simp
  have inv: "bio_inv u" "a_held (cabs u) = Map.empty" "finite (a_pins (cabs u))" "card (a_pins (cabs u)) < NBUF"
    using d by (simp_all only: swap_disk_def)
  from cache.write_block [OF inv(1,2) slot_block_disk [OF d i] inv(3,4) len] obtain b s1 s2 t where
    r: "bread 1 ?b u = Ok (b, s1)" "bwrite b (set_data b ?d s1) = Ok s2" "brelse b s2 = Ok t"
      "bio_frame u s1" "bio_frame u t" "bio_inv t" "a_held (cabs t) = Map.empty"
      "a_view (cabs t) = (a_view (cabs u))(?b := ?d)" "a_pins (cabs t) = a_pins (cabs u) - {?b}" by blast
  have "page mem s1 = page mem u" using bio_frame_mem [OF r(4)] by (simp add: page_def)
  with r(1-3) have "rbind (bread 1 ?b u) (\<lambda>(b, s). rbind (bwrite b (set_data b (slice (j * BSIZE) BSIZE (page mem s)) s))
       (\<lambda>s. brelse b s)) = Ok t" by simp
  moreover have "card (a_pins (cabs t)) < NBUF" unfolding r(9) using inv(3,4) card_mono [OF inv(3), of "a_pins (cabs u) - {?b}"] by auto
  then have "swap_disk t" using r(6,7,9) inv(3) d bio_frame_disksize [OF r(5)] by (simp add: swap_disk_def)
  ultimately show ?thesis using r(5,8) by blast
qed

lemma write_to_swap_spec:
  assumes d: "swap_disk s" and i: "slot < NUM_SLOTS" and mem: "length (page mem s) = PGSIZE"
  shows "\<exists>t. write_to_swap mem slot s = Ok t \<and> swap_disk t \<and> bio_frame s t \<and> slot_page t slot = page mem s \<and>
    (\<forall>b. b \<notin> slot_block slot ` {..<8} \<longrightarrow> a_view (cabs t) b = a_view (cabs s) b)"
proof -
  define P where "P k u \<longleftrightarrow> swap_disk u \<and> bio_frame s u \<and>
     (\<forall>j<k. a_view (cabs u) (slot_block slot j) = slice (j * BSIZE) BSIZE (page mem s)) \<and>
     (\<forall>b. b \<notin> slot_block slot ` {..<8} \<longrightarrow> a_view (cabs u) b = a_view (cabs s) b)" for k and u :: "'a mem_state_scheme"
  have "\<exists>t. write_to_swap mem slot s = Ok t \<and> P 8 t"
    unfolding write_to_swap_def
  proof (rule rfold_inv)
    show "P 0 s" using d by (simp add: P_def)
    fix k and u :: "'a mem_state_scheme"
    assume k: "k < 8" and u: "P k u"
    have pg: "page mem u = page mem s" using u bio_frame_mem [of s u] by (simp add: P_def page_def)
    have "swap_disk u" using u by (simp add: P_def)
    from write_to_swap_step [OF this i k, of mem] mem obtain t where
      t: "rbind (bread 1 (slot_block slot k) u) (\<lambda>(b, s).
       rbind (bwrite b (set_data b (slice (k * BSIZE) BSIZE (page mem s)) s)) (\<lambda>s. brelse b s)) = Ok t"
      "swap_disk t" "bio_frame u t"
      "a_view (cabs t) = (a_view (cabs u))(slot_block slot k := slice (k * BSIZE) BSIZE (page mem s))"
      by (auto simp: pg)
    note view = t(4) [unfolded cabs_sel]
    have "P (Suc k) t"
      unfolding P_def
    proof (intro conjI allI impI)
      show "swap_disk t" by (rule t(2))
      show "bio_frame s t" using u t(3) bio_frame_trans by (auto simp: P_def)
      fix j assume "j < Suc k"
      then show "a_view (cabs t) (slot_block slot j) = slice (j * BSIZE) BSIZE (page mem s)"
        using u k slot_block_inj [OF i, of j k] by (cases "j = k") (auto simp: view P_def)
    next
      fix b assume b: "b \<notin> slot_block slot ` {..<8}"
      then have "b \<noteq> slot_block slot k" using k by auto
      then show "a_view (cabs t) b = a_view (cabs s) b" using u b by (simp add: view P_def)
    qed
    with t(1) show "\<exists>t. rbind (bread 1 (word_of_nat (2 + slot * 8 + k)) u) (\<lambda>(b, s).
       rbind (bwrite b (set_data b (slice (k * 512) 512 (page mem s)) s)) (\<lambda>s. brelse b s)) = Ok t \<and> P (Suc k) t"
      unfolding slot_block_def by blast
  qed
  then obtain t where t: "write_to_swap mem slot s = Ok t" "P 8 t" by blast
  have "slot_page t slot = concat (map (\<lambda>j. slice (j * BSIZE) BSIZE (page mem s)) [0..<8])"
    unfolding slot_page_def by (rule arg_cong [of _ _ concat], rule map_cong) (use t(2) in \<open>simp_all add: P_def\<close>)
  also have "\<dots> = page mem s" by (rule concat_slices) (use mem in simp)
  finally show ?thesis using t by (auto simp: P_def)
qed


text \<open>Changes of memory do not concern the buffer cache.\<close>

lemma cache_pmem [simp]:
  "cabs (s\<lparr>pmem := m\<rparr>) = cabs s" "bio_inv (s\<lparr>pmem := m\<rparr>) = bio_inv s" "disksize (s\<lparr>pmem := m\<rparr>) = disksize s"
proof -
  show "cabs (s\<lparr>pmem := m\<rparr>) = cabs s" by (rule cabs_cong) simp_all
  have "bio_inv t \<Longrightarrow> bio_inv (t\<lparr>pmem := m\<rparr>)" for m and t :: "'a mem_state_scheme"
    by (rule bio_inv_cong [of _ t]) (auto simp: bio_inv_def mypid_def myproc_def)
  from this [of s m] this [of "s\<lparr>pmem := m\<rparr>" "pmem s"] show "bio_inv (s\<lparr>pmem := m\<rparr>) = bio_inv s" by auto
qed simp

definition swap_frame :: "'a mem_state_scheme \<Rightarrow> 'a mem_state_scheme \<Rightarrow> bool" where
  "swap_frame s t \<longleftrightarrow> bio_frame (s\<lparr>pmem := pmem t\<rparr>) t"

lemma bio_frame_pmem: "bio_frame s t \<Longrightarrow> bio_frame (s\<lparr>pmem := m\<rparr>) (t\<lparr>pmem := m\<rparr>)"
proof (erule bio_frameE)
  fix P D T B N V
  assume t: "t = s\<lparr>procs := P, memdisk := D, disk_trace := T, bufs := B, bnext := N, bprev := V\<rparr>"
    and P: "\<And>i. state_only (procs s i) (P i)"
  show ?thesis
    by (rule bio_frameI [where P = P and D = D and T = T and B = B and N = N and V = V]) (simp_all add: t P)
qed

lemma swap_frame_trans:
  assumes "swap_frame s t" "swap_frame t u"
  shows "swap_frame s u"
proof -
  have "bio_frame (s\<lparr>pmem := pmem u\<rparr>) (t\<lparr>pmem := pmem u\<rparr>)"
    using bio_frame_pmem [OF assms(1) [unfolded swap_frame_def], of "pmem u"] by simp
  then show ?thesis using assms(2) unfolding swap_frame_def by (rule bio_frame_trans)
qed

lemma bio_swap_frame: "bio_frame s t \<Longrightarrow> swap_frame s t"
proof -
  assume f: "bio_frame s t"
  then have "pmem t = pmem s" using bio_frame_mem by blast
  then show "swap_frame s t" using f by (simp add: swap_frame_def)
qed

lemma set_page_swap_frame [simp]: "swap_frame s (set_page v bs s)"
  by (simp add: swap_frame_def set_page_def)

lemma swap_frame_refl [simp]: "swap_frame s s"
  by (simp add: swap_frame_def)

lemma swap_frame_mem:
  assumes "swap_frame s t"
  shows "kend t = kend s" "use_lock t = use_lock s" "kmem_locked t = kmem_locked s"
    "freelist t = freelist s" "free_pages_count t = free_pages_count s" "T_h t = T_h s" "N_pg t = N_pg s"
    "swap_slots t = swap_slots s" "p_pgdir (procs t i) = p_pgdir (procs s i)" "disksize t = disksize s"
  using bio_frame_mem [OF assms [unfolded swap_frame_def]] bio_frame_disksize [OF assms [unfolded swap_frame_def]] by simp_all

lemma read_from_swap_step:
  assumes d: "swap_disk u" and i: "slot < NUM_SLOTS" "j < 8" and mem: "length (page mem u) = PGSIZE"
  shows "\<exists>t. rbind (bread 1 (slot_block slot j) u) (\<lambda>(b, s).
       brelse b (set_page mem (blit (j * BSIZE) (b_data (bufs s b)) (page mem s)) s)) = Ok t \<and>
     swap_disk t \<and> swap_frame u t \<and> cabs t = cabs u \<and>
     pmem t = (pmem u)(frame_of mem := blit (j * BSIZE) (a_view (cabs u) (slot_block slot j)) (page mem u))"
proof -
  let ?b = "slot_block slot j"
  have inv: "bio_inv u" "a_held (cabs u) = Map.empty" "finite (a_pins (cabs u))" "card (a_pins (cabs u)) < NBUF"
    using d by (simp_all only: swap_disk_def)
  have b: "?b < disksize u" by (rule slot_block_disk [OF d i])
  from cache.rd [OF inv(1) b] inv(2,4) obtain k s1 where 1: "bread 1 ?b u = Ok (k, s1)" "bio_inv s1"
    "bio_frame u s1" "cabs s1 = (cabs u)\<lparr>a_held := [k \<mapsto> ?b]\<rparr>" by auto
  have data: "b_data (bufs s1 k) = a_view (cabs u) ?b" using cache.data [OF 1(2), of k ?b] 1(4) by simp
  have p1: "pmem s1 = pmem u" using bio_frame_mem [OF 1(3)] by blast
  let ?s = "set_page mem (blit (j * BSIZE) (a_view (cabs u) ?b) (page mem u)) s1"
  have c: "cabs ?s = cabs s1" "bio_inv ?s" using 1(2) by (simp_all add: set_page_def)
  have clean: "?b \<in> a_pins (cabs ?s) \<or> a_view (cabs ?s) ?b = a_disk (cabs ?s) ?b"
    using cache.clean [OF inv(1), of ?b] inv(2) by (auto simp: c(1) 1(4) simp del: cabs_sel)
  from cache.rel [OF c(2) _ clean, of k] obtain t where t: "brelse k ?s = Ok t" "bio_inv t" "bio_frame ?s t"
    "cabs t = (cabs ?s)\<lparr>a_held := (a_held (cabs ?s))(k := None)\<rparr>" by (auto simp: c(1) 1(4) simp del: cabs_sel)
  have "cabs t = (cabs u)\<lparr>a_held := Map.empty\<rparr>" by (simp add: t(4) c(1) 1(4) del: cabs_sel)
  also have "\<dots> = cabs u" using inv(2) by (cases "cabs u") (simp del: cabs_sel)
  finally have ct: "cabs t = cabs u" .
  have fr: "swap_frame u t"
    using bio_swap_frame [OF 1(3)] bio_swap_frame [OF t(3)] set_page_swap_frame swap_frame_trans by blast
  have "pmem t = pmem ?s" using bio_frame_mem [OF t(3)] by blast
  then have "pmem t = (pmem u)(frame_of mem := blit (j * BSIZE) (a_view (cabs u) ?b) (page mem u))"
    by (simp add: set_page_def p1)
  moreover have "page mem s1 = page mem u" by (simp add: page_def p1)
  with 1(1) t(1) have "rbind (bread 1 ?b u) (\<lambda>(b, s).
       brelse b (set_page mem (blit (j * BSIZE) (b_data (bufs s b)) (page mem s)) s)) = Ok t"
    by (simp add: data)
  moreover have "swap_disk t" using d t(2) unfolding swap_disk_def ct swap_frame_mem(10) [OF fr] by blast
  ultimately show ?thesis using ct fr by blast
qed


lemma blit_slices:
  assumes "length pg = n * m" "length d = m" "k < n" "j < n"
  shows "slice (j * m) m (blit (k * m) d pg) = (if j = k then d else slice (j * m) m pg)"
proof (cases "j = k")
  case False
  then have "j * m + m \<le> k * m \<or> k * m + m \<le> j * m"
    by (metis Suc_leI add.commute linorder_neqE_nat mult_Suc mult_le_mono1)
  moreover have "i * m + m \<le> n * m" if "i < n" for i using that by (metis Suc_leI add.commute mult_Suc mult_le_mono1)
  ultimately show ?thesis using assms False by (simp add: slice_blit_other)
next
  case True
  have "k * m + m \<le> n * m" using assms(3) by (metis Suc_leI add.commute mult_Suc mult_le_mono1)
  with assms True show ?thesis by simp
qed

lemma read_from_swap_spec:
  assumes d: "swap_disk s" and i: "slot < NUM_SLOTS" and mem: "length (page mem s) = PGSIZE"
  shows "\<exists>t. read_from_swap mem slot s = Ok t \<and> swap_disk t \<and> swap_frame s t \<and> cabs t = cabs s \<and>
    pmem t = (pmem s)(frame_of mem := slot_page s slot)"
proof -
  define P where "P k u \<longleftrightarrow> swap_disk u \<and> swap_frame s u \<and> cabs u = cabs s \<and> length (page mem u) = PGSIZE \<and>
     (\<forall>j<k. slice (j * BSIZE) BSIZE (page mem u) = a_view (cabs s) (slot_block slot j)) \<and>
     (\<exists>p. pmem u = (pmem s)(frame_of mem := p))" for k and u :: "'a mem_state_scheme"
  have "\<exists>t. read_from_swap mem slot s = Ok t \<and> P 8 t"
    unfolding read_from_swap_def
  proof (rule rfold_inv)
    have "pmem s = (pmem s)(frame_of mem := pmem s (frame_of mem))" by simp
    then show "P 0 s" using d mem unfolding P_def by (metis less_nat_zero_code swap_frame_refl)
    fix k and u :: "'a mem_state_scheme"
    assume k: "k < 8" and u: "P k u"
    let ?v = "a_view (cabs s) (slot_block slot k)"
    have u1: "swap_disk u" "length (page mem u) = PGSIZE" "cabs u = cabs s" "swap_frame s u" using u unfolding P_def by blast+
    from read_from_swap_step [OF u1(1) i k u1(2)] u1(3) obtain t where
      t: "rbind (bread 1 (slot_block slot k) u) (\<lambda>(b, s).
       brelse b (set_page mem (blit (k * BSIZE) (b_data (bufs s b)) (page mem s)) s)) = Ok t"
      "swap_disk t" "swap_frame u t" "cabs t = cabs s"
      "pmem t = (pmem u)(frame_of mem := blit (k * BSIZE) ?v (page mem u))" by auto
    have len: "length ?v = BSIZE" using d cache.view_length unfolding swap_disk_def by blast
    have pt: "page mem t = blit (k * BSIZE) ?v (page mem u)" by (simp add: page_def t(5))
    have sl: "slice (j * BSIZE) BSIZE (page mem t) = (if j = k then ?v else slice (j * BSIZE) BSIZE (page mem u))" if "j < 8" for j
      unfolding pt by (rule blit_slices [of _ 8]) (use that k len u1(2) in simp_all)
    from u obtain p where "pmem u = (pmem s)(frame_of mem := p)" unfolding P_def by blast
    then have "pmem t = (pmem s)(frame_of mem := page mem t)" by (simp add: t(5) page_def)
    moreover have "\<forall>j<Suc k. slice (j * BSIZE) BSIZE (page mem t) = a_view (cabs s) (slot_block slot j)"
    proof (intro allI impI)
      fix j assume "j < Suc k"
      moreover have "\<forall>j<k. slice (j * BSIZE) BSIZE (page mem u) = a_view (cabs s) (slot_block slot j)"
        using u unfolding P_def by blast
      ultimately show "slice (j * BSIZE) BSIZE (page mem t) = a_view (cabs s) (slot_block slot j)"
        using sl [of j] k by (cases "j = k") (simp_all del: cabs_sel)
    qed
    moreover have "length (page mem t) = PGSIZE" using k len u1(2) by (simp add: pt)
    ultimately have "P (Suc k) t" using t(2,4) swap_frame_trans [OF u1(4) t(3)] unfolding P_def by blast
    with t(1) show "\<exists>t. rbind (bread 1 (word_of_nat (2 + slot * 8 + k)) u) (\<lambda>(b, s).
       brelse b (set_page mem (blit (k * 512) (b_data (bufs s b)) (page mem s)) s)) = Ok t \<and> P (Suc k) t"
      unfolding slot_block_def by blast
  qed
  then obtain t where t: "read_from_swap mem slot s = Ok t" "P 8 t" by blast
  from t(2) obtain p where p: "pmem t = (pmem s)(frame_of mem := p)" "length (page mem t) = PGSIZE"
    "\<forall>j<8. slice (j * BSIZE) BSIZE (page mem t) = a_view (cabs s) (slot_block slot j)" unfolding P_def by blast
  have "page mem t = concat (map (\<lambda>j. slice (j * BSIZE) BSIZE (page mem t)) [0..<8])"
    by (rule concat_slices [symmetric]) (use p(2) in simp)
  also have "\<dots> = slot_page s slot"
    unfolding slot_page_def by (rule arg_cong [of _ _ concat], rule map_cong) (use p(3) in simp_all)
  finally have "pmem t = (pmem s)(frame_of mem := slot_page s slot)" using p(1) by (simp add: page_def)
  then show ?thesis using t unfolding P_def by blast
qed


section \<open>An address space and the free pages\<close>

text \<open>The pages of the page table come from the allocator and are not free.\<close>

definition space_ok :: "'a mem_state_scheme \<Rightarrow> u32 \<Rightarrow> u32 list \<Rightarrow> bool" where
  "space_ok s pd xs \<longleftrightarrow> allocator_ok s xs \<and> pgtab_ok s pd \<and> (\<forall>p\<in>pt_pages s pd. page_ok s p \<and> p \<notin> set xs)"

lemma space_okD:
  assumes "space_ok s pd xs"
  shows "allocator_ok s xs" "pgtab_ok s pd" "free_list s xs" "mem_ok s" "\<not> kmem_locked s"
    "p \<in> pt_pages s pd \<Longrightarrow> page_ok s p" "p \<in> pt_pages s pd \<Longrightarrow> p \<notin> set xs" "page_ok s pd"
  using assms by (auto simp: space_ok_def allocator_ok_def pgtab_ok_def pt_pages_def)

text \<open>Pages that are none of the table's may change.\<close>

lemma space_ok_frame:
  assumes "space_ok s pd xs" and "allocator_ok t ys" and "kend t = kend s"
    and "\<forall>p\<in>pt_pages s pd. page p t = page p s" and "set ys \<inter> pt_pages s pd = {}"
  shows "space_ok t pd ys" "walk_lookup pd vb t = walk_lookup pd vb s" "pte t pd vb = pte s pd vb"
    "pt_pages t pd = pt_pages s pd"
proof -
  note d = space_okD [OF assms(1)]
  have m: "mem_ok t" using assms(2) by (simp add: allocator_ok_def free_list_def)
  have pg: "page pd t = page pd s" using assms(4) by (simp add: pt_pages_def)
  note c = pgtab_ok_cong [OF d(2) m pg]
  show "pt_pages t pd = pt_pages s pd" by (rule c(2))
  show "space_ok t pd ys" using assms(2,5) c d(6) page_ok_cong [OF assms(3)] by (auto simp: space_ok_def)
  have pd: "pd mod 4096 = 0" using d(2) by (simp add: pgtab_ok_def)
  show wl: "walk_lookup pd vb t = walk_lookup pd vb s"
    using tab_cong [OF pd PDX_less pg] by (simp add: walk_lookup_tab)
  show "pte t pd vb = pte s pd vb"
  proof (cases "walk_lookup pd vb s")
    case (Some a)
    obtain p where "p \<in> pt_pages s pd" "frame_of a = frame_of p" by (rule walk_lookup_props [OF d(2) Some])
    then have "page a t = page a s" using assms(4) page_frame_cong [of a p t] page_frame_cong [of a p s] by simp
    then show ?thesis using ld32_page_cong [of a t s] by (simp add: pte_def wl Some)
  qed (simp add: pte_def wl)
qed

lemma space_ok_upd_slots [simp]: "space_ok (s\<lparr>swap_slots := z\<rparr>) pd xs = space_ok s pd xs"
  "pt_pages (s\<lparr>swap_slots := z\<rparr>) pd = pt_pages s pd" "pte (s\<lparr>swap_slots := z\<rparr>) pd va = pte s pd va"
  "walk_lookup pd va (s\<lparr>swap_slots := z\<rparr>) = walk_lookup pd va s"
proof -
  have l: "links_from (s\<lparr>swap_slots := z\<rparr>) p xs = links_from s p xs" for p by (rule links_from_cong) simp
  have f: "free_list (s\<lparr>swap_slots := z\<rparr>) xs = free_list s xs" by (simp add: free_list_def page_ok_def l)
  have t: "tab (s\<lparr>swap_slots := z\<rparr>) pd i = tab s pd i" for i by (simp add: tab_def)
  show "pt_pages (s\<lparr>swap_slots := z\<rparr>) pd = pt_pages s pd" by (simp add: pt_pages_def t)
  then show "space_ok (s\<lparr>swap_slots := z\<rparr>) pd xs = space_ok s pd xs"
    by (simp add: space_ok_def allocator_ok_def f pgtab_ok_def t page_ok_def)
  show "walk_lookup pd va (s\<lparr>swap_slots := z\<rparr>) = walk_lookup pd va s" by (simp add: walk_lookup_tab t)
  then show "pte (s\<lparr>swap_slots := z\<rparr>) pd va = pte s pd va" by (simp add: pte_def)
qed

lemma swap_disk_upd [simp]:
  "swap_disk (s\<lparr>swap_slots := z\<rparr>) = swap_disk s" "swap_disk (s\<lparr>pmem := m\<rparr>) = swap_disk s"
  "cabs (s\<lparr>swap_slots := z\<rparr>) = cabs s"
proof -
  show c: "cabs (s\<lparr>swap_slots := z\<rparr>) = cabs s" by (rule cabs_cong) simp_all
  have "bio_inv t \<Longrightarrow> bio_inv (t\<lparr>swap_slots := z\<rparr>)" for z and t :: "'a mem_state_scheme"
    by (rule bio_inv_cong [of _ t]) (auto simp: bio_inv_def mypid_def myproc_def)
  from this [of s z] this [of "s\<lparr>swap_slots := z\<rparr>" "swap_slots s"]
  have "bio_inv (s\<lparr>swap_slots := z\<rparr>) = bio_inv s" by auto
  then show "swap_disk (s\<lparr>swap_slots := z\<rparr>) = swap_disk s" unfolding swap_disk_def c by simp
  show "swap_disk (s\<lparr>pmem := m\<rparr>) = swap_disk s" unfolding swap_disk_def cache_pmem by simp
qed

lemma swap_disk_alloc_frame: "alloc_frame s t \<Longrightarrow> swap_disk t = swap_disk s \<and> cabs t = cabs s"
proof -
  assume "alloc_frame s t"
  then obtain m f n where t: "t = s\<lparr>pmem := m, freelist := f, free_pages_count := n\<rparr>" by (auto simp: alloc_frame_def)
  have c: "cabs t = cabs s" by (rule cabs_cong) (simp_all add: t)
  have "bio_inv u \<Longrightarrow> bufs v = bufs u \<Longrightarrow> memdisk v = memdisk u \<Longrightarrow> disksize v = disksize u \<Longrightarrow> mypid v = mypid u \<Longrightarrow>
      bnext v = bnext u \<Longrightarrow> bprev v = bprev u \<Longrightarrow> bio_inv v" for u v :: "'a mem_state_scheme"
    by (rule bio_inv_cong [of _ u]) (auto simp: bio_inv_def)
  from this [of s t] this [of t s] have "bio_inv t = bio_inv s" by (auto simp: t mypid_def myproc_def)
  moreover have "disksize t = disksize s" by (simp add: t)
  ultimately show ?thesis unfolding swap_disk_def c by simp
qed


lemma pmem_page: "pmem t = pmem s \<Longrightarrow> page w t = page w s"
  by (simp add: page_def)

lemma space_ok_bio:
  assumes "space_ok s pd xs" "bio_frame s t"
  shows "space_ok t pd xs" "pte t pd va = pte s pd va" "pt_pages t pd = pt_pages s pd"
    "walk_lookup pd va t = walk_lookup pd va s"
proof -
  note f = bio_frame_mem [OF assms(2)] and d = space_okD [OF assms(1)]
  have pg: "page w t = page w s" for w using f by (intro pmem_page) blast
  have "mem_ok t" using d(4) f by (simp add: mem_ok_def)
  then have "free_list t xs" using f by (intro free_list_cong [OF d(3)]) (auto intro!: ld32_page_cong pg)
  then have "allocator_ok t xs" using d(1) f by (simp add: allocator_ok_def)
  moreover have "set xs \<inter> pt_pages s pd = {}" using d(7) by blast
  moreover have "kend t = kend s" using f by blast
  ultimately show "space_ok t pd xs" "pte t pd va = pte s pd va" "pt_pages t pd = pt_pages s pd"
    "walk_lookup pd va t = walk_lookup pd va s"
    using space_ok_frame [OF assms(1), of t xs] pg by blast+
qed

lemma space_ok_store:
  assumes "space_ok s pd xs" "walk_lookup pd va s = Some a"
  shows "space_ok (st32 a w s) pd xs" and "\<exists>p\<in>pt_pages s pd. frame_of a = frame_of p"
    and "\<And>q. q mod 4096 = 0 \<Longrightarrow> q \<notin> pt_pages s pd \<Longrightarrow> page q (st32 a w s) = page q s"
proof -
  note d = space_okD [OF assms(1)]
  obtain p where p: "p \<in> pt_pages s pd" "frame_of a = frame_of p" "word_aligned a" "p mod 4096 = 0"
    by (rule walk_lookup_props [OF d(2) assms(2)])
  then show "\<exists>p\<in>pt_pages s pd. frame_of a = frame_of p" by blast
  have other: "frame_of q \<noteq> frame_of a" if "q mod 4096 = 0" "q \<notin> pt_pages s pd" for q
    using that p frame_of_inj [of q p] by metis
  then show pg: "page q (st32 a w s) = page q s" if "q mod 4096 = 0" "q \<notin> pt_pages s pd" for q
    using that by (intro page_st32_frame)
  have al: "x mod 4096 = 0" "x \<notin> pt_pages s pd" if "x \<in> set xs" for x
    using that pages.free_valid [OF d(1)] page_ok_aligned [of s x] d(7) by (simp, blast)
  have "free_list (st32 a w s) xs"
  proof (rule free_list_cong [OF d(3)])
    fix x assume "x \<in> set xs"
    then show "ld32 x (st32 a w s) = ld32 x s" using pg [OF al] by (intro ld32_page_cong)
  qed (use d(4) p(3) in simp_all)
  then have "allocator_ok (st32 a w s) xs" using d(1) by (simp add: allocator_ok_def)
  then show "space_ok (st32 a w s) pd xs"
    using assms(1) store_pte(1,4) [OF d(2) assms(2)] by (simp add: space_ok_def page_ok_def)
qed

lemma swapslot_eta: "z\<lparr>is_free := f, page_perm := p\<rparr> = \<lparr>page_perm = p, is_free = f\<rparr>"
  by (cases z) simp

lemma swap_out_page_spec:
  assumes sp: "space_ok s pd xs" and sd: "swap_disk s" and a: "walk_lookup pd va s = Some a"
    and e: "pte s pd va = Some e" "e AND PTE_P \<noteq> 0" and mem: "mem = P2V (PTE_ADDR e)" "page_ok s mem"
    and fresh: "mem \<notin> set xs" "mem \<notin> pt_pages s pd"
    and i: "first_index (\<lambda>i. is_free (swap_slots s i) = 1) NUM_SLOTS = Some i"
  shows "\<exists>t. swap_out_page a s = Ok t \<and> space_ok t pd (mem # xs) \<and> swap_disk t \<and> slot_page t i = page mem s \<and>
    swap_slots t = (swap_slots s)(i := \<lparr>page_perm = e AND 0xFFF AND NOT PTE_S, is_free = 0\<rparr>) \<and>
    (\<forall>vb. pte t pd vb = (if PDX vb = PDX va \<and> PTX vb = PTX va
       then Some (push_bit 12 (word_of_nat i) OR (e AND 0xFFF AND NOT PTE_P) OR PTE_S) else pte s pd vb)) \<and>
    (\<forall>w. page_ok s w \<and> w \<noteq> mem \<and> w \<notin> pt_pages s pd \<longrightarrow> page w t = page w s) \<and>
    steady s t \<and> pt_pages t pd = pt_pages s pd \<and> (\<forall>p. p_pgdir (procs t p) = p_pgdir (procs s p))"
proof -
  have ld: "ld32 a s = e" using e(1) a by (simp add: pte_def)
  have iN: "i < NUM_SLOTS" using i by (simp add: first_index_Some)
  define s2 where "s2 = s\<lparr>swap_slots := (swap_slots s)(i := \<lparr>page_perm = e AND 0xFFF AND NOT PTE_S, is_free = 0\<rparr>)\<rparr>"
  define f where "f = push_bit 12 (word_of_nat i) OR (e AND 0xFFF AND NOT PTE_P) OR PTE_S"
  have sp2: "space_ok s2 pd xs" and sd2: "swap_disk s2" and pt2: "pt_pages s2 pd = pt_pages s pd"
    using sp sd by (simp_all add: s2_def)
  have pg2: "page w s2 = page w s" for w by (simp add: s2_def)
  have "length (page mem s2) = PGSIZE" by (rule mem_ok_page [OF space_okD(4) [OF sp2]])
  from write_to_swap_spec [OF sd2 iN this] obtain s3 where
    3: "write_to_swap mem i s2 = Ok s3" "swap_disk s3" "bio_frame s2 s3" "slot_page s3 i = page mem s"
    by (auto simp: pg2)
  note b = space_ok_bio [OF sp2 3(3)] and m3 = bio_frame_mem [OF 3(3)]
  have pg3: "page w s3 = page w s" for w using m3 pmem_page [of s3 s2 w] pg2 by simp
  have a3: "walk_lookup pd va s3 = Some a" using b(4) a by (simp add: s2_def)
  note st = space_ok_store(1,3) [OF b(1) a3, where w = f] and st' = store_pte [OF space_okD(2) [OF b(1)] a3, where w = f]
  let ?s4 = "st32 a f s3"
  have kend: "kend ?s4 = kend s" using m3 by (simp add: s2_def)
  have v4: "page_ok ?s4 mem" using mem(2) page_ok_cong [OF kend] by simp
  from pages.put [OF space_okD(1) [OF st(1)] v4 fresh(1)] obtain t where
    t: "kfree mem ?s4 = Ok t" "allocator_ok t (mem # xs)" "alloc_frame ?s4 t"
      "\<forall>w. page_ok ?s4 w \<and> w \<noteq> mem \<longrightarrow> page w t = page w ?s4" by blast
  have pts: "pt_pages ?s4 pd = pt_pages s pd" using st'(4) b(3) pt2 by simp
  have "\<forall>p\<in>pt_pages ?s4 pd. page p t = page p ?s4"
    using t(4) space_okD(6) [OF st(1)] fresh(2) pts by metis
  moreover have "set (mem # xs) \<inter> pt_pages ?s4 pd = {}" using fresh(2) space_okD(7) [OF sp] pts by auto
  ultimately have sp4: "space_ok t pd (mem # xs)" "\<And>vb. pte t pd vb = pte ?s4 pd vb" "pt_pages t pd = pt_pages ?s4 pd"
    using space_ok_frame [OF st(1) t(2)] alloc_frame_sel(1) [OF t(3)] by blast+
  have mem0: "mem \<noteq> 0" using mem(2) by (rule page_ok_nonzero)
  have ld3: "ld32 a s3 = e" using ld ld32_page_cong [of a s3 s] pg3 by simp
  have run: "swap_out_page a s = Ok t"
    using i ld mem0 e(2) mem(1) 3(1) t(1) ld3
    by (simp add: swap_out_page_def find_free_slot_def Let_def s2_def f_def swapslot_eta)
  have cab: "cabs t = cabs s3"
  proof -
    have "cabs ?s4 = cabs s3" by (simp add: st32_def set_page_def)
    then show ?thesis using swap_disk_alloc_frame [OF t(3)] by simp
  qed
  have "swap_disk ?s4" using 3(2) by (simp add: st32_def set_page_def)
  then have sdt: "swap_disk t" using swap_disk_alloc_frame [OF t(3)] by simp
  have slots: "swap_slots t = swap_slots s2" using alloc_frame_sel(6) [OF t(3)] m3 by simp
  have pdir: "p_pgdir (procs t p) = p_pgdir (procs s p)" for p
    using alloc_frame_sel(7) [OF t(3)] bio_frame_mem [OF 3(3), of p] by (simp add: s2_def)
  have other: "page w t = page w s" if w: "page_ok s w" "w \<noteq> mem" "w \<notin> pt_pages s pd" for w
  proof -
    have "page w t = page w ?s4" using t(4) w page_ok_cong [OF kend] by blast
    also have "\<dots> = page w s3" by (rule st(2)) (use w b(3) pt2 in simp_all)
    finally show ?thesis by (simp add: pg3)
  qed
  have "steady s t" using keepsD [OF steady_swap_out_page run] by simp
  moreover have "pte t pd vb = (if PDX vb = PDX va \<and> PTX vb = PTX va then Some f else pte s pd vb)" for vb
    using sp4(2) st'(3) b(2) by (simp add: s2_def)
  moreover have "slot_page t i = page mem s" using 3(4) by (simp add: slot_page_def cab del: cabs_sel)
  ultimately show ?thesis using run sp4(1,3) sdt slots other pts pdir unfolding f_def s2_def by auto
qed


section \<open>The page fault that brings a page back\<close>

lemma enough_pages:
  assumes "allocator_ok s xs" "nat (T_h s) < length xs"
  shows "swap_out_if_needed s = Ok s"
proof -
  have "s\<lparr>kmem_locked := False\<rparr> = s" using assms(1) by (simp add: allocator_ok_def)
  moreover have "T_h s < free_pages_count s" using assms by (auto simp: allocator_ok_def free_list_def)
  moreover have "\<not> kmem_locked s" using assms(1) by (simp add: allocator_ok_def)
  ultimately show ?thesis
    by (simp add: swap_out_if_needed_def get_free_pages_def kmem_acquire_def kmem_release_def)
qed

lemma space_ok_alloc:
  assumes sp: "space_ok s pd xs" and al: "allocator_ok t ys" "set ys \<subseteq> set xs" and fr: "alloc_frame s t"
    and pg: "\<forall>w. page w t = page w s"
  shows "space_ok t pd ys" "pte t pd vb = pte s pd vb" "pt_pages t pd = pt_pages s pd"
    "walk_lookup pd vb t = walk_lookup pd vb s"
proof -
  have "set ys \<inter> pt_pages s pd = {}" using space_okD(7) [OF sp] al(2) by blast
  from space_ok_frame [OF sp al(1) alloc_frame_sel(1) [OF fr] _ this] pg
  show "space_ok t pd ys" "pte t pd vb = pte s pd vb" "pt_pages t pd = pt_pages s pd"
    "walk_lookup pd vb t = walk_lookup pd vb s" by blast+
qed

lemma space_ok_fill:
  assumes sp: "space_ok s pd xs" and fr: "swap_frame s t" and pm: "pmem t = (pmem s)(frame_of h := d)"
    and h: "page_ok s h" "h \<notin> set xs" "h \<notin> pt_pages s pd" and d: "length d = PGSIZE"
  shows "space_ok t pd xs" "pte t pd vb = pte s pd vb" "pt_pages t pd = pt_pages s pd"
    "walk_lookup pd vb t = walk_lookup pd vb s"
proof -
  note f = swap_frame_mem [OF fr] and D = space_okD [OF sp]
  have pg: "page w t = page w s" if "page_ok s w" "w \<noteq> h" for w
    using that h(1) frame_of_inj [of w h] page_ok_aligned by (auto simp: page_def pm)
  have "mem_ok t" using D(4) d by (simp add: mem_ok_def pm)
  moreover have "ld32 x t = ld32 x s" if x: "x \<in> set xs" for x
    using pages.free_valid [OF D(1) x] h(2) x by (intro ld32_page_cong pg) auto
  ultimately have "free_list t xs" using f by (intro free_list_cong [OF D(3)]) simp_all
  then have al: "allocator_ok t xs" using D(1) f by (simp add: allocator_ok_def)
  have "\<forall>p\<in>pt_pages s pd. page p t = page p s" using D(6) h(3) pg by metis
  from space_ok_frame [OF sp al f(1) this] D(7)
  show "space_ok t pd xs" "pte t pd vb = pte s pd vb" "pt_pages t pd = pt_pages s pd"
    "walk_lookup pd vb t = walk_lookup pd vb s" by blast+
qed

lemma page_fault_spec:
  assumes sp: "space_ok u pd ys" and sd: "swap_disk u" and pd: "p_pgdir (procs u p) = pd"
    and e: "pte u pd va = Some e" "e AND PTE_U \<noteq> 0" "e AND PTE_P = 0" "e AND PTE_S \<noteq> 0"
    and i: "unat (drop_bit 12 e) = i" "i < NUM_SLOTS" and room: "nat (T_h u) < length ys"
  shows "\<exists>v. page_fault p va u = Ok v \<and> space_ok v pd (tl ys) \<and> swap_disk v \<and> page (hd ys) v = slot_page u i \<and>
    (\<forall>vb. pte v pd vb = (if PDX vb = PDX va \<and> PTX vb = PTX va
       then Some (V2P (hd ys) OR page_perm (swap_slots u i) OR PTE_P) else pte u pd vb)) \<and>
    (\<forall>w. page_ok u w \<and> w \<noteq> hd ys \<and> w \<notin> pt_pages u pd \<longrightarrow> page w v = page w u) \<and>
    swap_slots v = swap_slots u \<and> pt_pages v pd = pt_pages u pd"
proof -
  note D = space_okD [OF sp]
  obtain h hs where ys: "ys = h # hs" using room by (cases ys) auto
  obtain a where a: "walk_lookup pd va u = Some a" "ld32 a u = e" using e(1) by (auto simp: pte_def)
  from pages.get [OF D(1) room] obtain s1 where 1: "kalloc u = Ok (h, s1)" "allocator_ok s1 hs"
    "alloc_frame u s1" "\<forall>w. page w s1 = page w u" by (auto simp: ys)
  have h: "page_ok u h" "h \<notin> set hs" "h \<notin> pt_pages u pd"
    using D(1,7) pages.free_valid [OF D(1)] pages.free_distinct [OF D(1)] by (auto simp: ys)
  note S1 = space_ok_alloc [OF sp 1(2) _ 1(3,4)]
  have sp1: "space_ok s1 pd hs" by (rule S1) (simp add: ys subset_insertI)
  have pt1: "pt_pages s1 pd = pt_pages u pd" "walk_lookup pd va s1 = Some a" "pte s1 pd vb = pte u pd vb" for vb
    using S1(2-4) a(1) by (simp_all add: ys subset_insertI)
  have sd1: "swap_disk s1" "cabs s1 = cabs u" using swap_disk_alloc_frame [OF 1(3)] sd by simp_all
  have h1: "page_ok s1 h" using h(1) page_ok_cong [OF alloc_frame_sel(1) [OF 1(3)]] by simp
  from read_from_swap_spec [OF sd1(1) i(2) mem_ok_page [OF space_okD(4) [OF sp1]], of h] obtain s2 where
    2: "read_from_swap h i s1 = Ok s2" "swap_disk s2" "swap_frame s1 s2" "cabs s2 = cabs s1"
      "pmem s2 = (pmem s1)(frame_of h := slot_page s1 i)" by blast
  have sl: "slot_page s1 i = slot_page u i" by (simp add: slot_page_def sd1(2) del: cabs_sel)
  have pgh: "page h s2 = slot_page u i" by (simp add: page_def 2(5) sl)
  have len: "length (slot_page s1 i) = PGSIZE"
  proof -
    have "length (a_view (cabs s1) b) = BSIZE" for b using sd1(1) cache.view_length unfolding swap_disk_def by blast
    then show ?thesis by (simp add: slot_page_def length_concat comp_def upt_rec del: cabs_sel)
  qed
  have h1': "h \<notin> pt_pages s1 pd" using h(3) pt1(1) by simp
  note S2 = space_ok_fill [OF sp1 2(3,5) h1 h(2) h1' len]
  have a2: "walk_lookup pd va s2 = Some a" using S2(4) pt1(2) by simp
  let ?w = "V2P h OR page_perm (swap_slots u i) OR PTE_P"
  note S3 = space_ok_store(1,3) [OF S2(1) a2, where w = ?w] and P3 = store_pte [OF space_okD(2) [OF S2(1)] a2, where w = ?w]
  have slots: "swap_slots s2 = swap_slots u"
    using swap_frame_mem(8) [OF 2(3)] alloc_frame_sel(6) [OF 1(3)] by simp
  have pd2: "p_pgdir (procs s2 p) = pd"
    using swap_frame_mem(9) [OF 2(3)] alloc_frame_sel(7) [OF 1(3)] pd by simp
  have h0: "h \<noteq> 0" using h(1) by (rule page_ok_nonzero)
  have run: "page_fault p va u = Ok (st32 a ?w s2)"
    using e(2-4) i a h0 by (simp add: page_fault_def pd swap_in_def enough_pages [OF D(1) room] 1(1) 2(1) pd2 a2 slots Let_def)
  have other: "page w (st32 a ?w s2) = page w u" if w: "page_ok u w" "w \<noteq> h" "w \<notin> pt_pages u pd" for w
  proof -
    have "page w (st32 a ?w s2) = page w s2" by (rule S3(2)) (use w S2(3) pt1(1) in simp_all)
    also have "\<dots> = page w s1" using w h(1) frame_of_inj [of w h] page_ok_aligned by (auto simp: page_def 2(5))
    finally show ?thesis using 1(4) by simp
  qed
  have "page h (st32 a ?w s2) = page h s2" by (rule S3(2)) (use h S2(3) pt1(1) in simp_all)
  then have ph: "page h (st32 a ?w s2) = slot_page u i" by (simp add: pgh)
  have "swap_disk (st32 a ?w s2)" using 2(2) by (simp add: st32_def set_page_def)
  moreover have "pte (st32 a ?w s2) pd vb = (if PDX vb = PDX va \<and> PTX vb = PTX va then Some ?w else pte u pd vb)" for vb
    using P3(3) S2(2) pt1(3) by simp
  moreover have "pt_pages (st32 a ?w s2) pd = pt_pages u pd" using P3(4) S2(3) pt1(1) by simp
  ultimately show ?thesis using run S3(1) ph other slots by (intro exI [of _ "st32 a ?w s2"]) (simp add: ys)
qed


section \<open>The flags of an entry\<close>

lemma flag_bits:
  "(w :: u32) AND 1 = 0 \<longleftrightarrow> \<not> bit w 0" "w AND 4 = 0 \<longleftrightarrow> \<not> bit w 2" "w AND 0x200 = 0 \<longleftrightarrow> \<not> bit w 9"
  using and_exp_eq_0_iff_not_bit [of w 0] and_exp_eq_0_iff_not_bit [of w 2] and_exp_eq_0_iff_not_bit [of w 9] by simp_all

lemma flag_masks: "(0xFFF :: u32) = mask 12" "(0x200 :: u32) = push_bit 9 1"
  by (simp_all add: mask_eq_exp_minus_1)

lemma bit_0x200: "bit (0x200 :: u32) n \<longleftrightarrow> n = 9"
  unfolding flag_masks(2) bit_push_bit_iff bit_1_iff by auto

lemma bit_0xFFF: "bit (0xFFF :: u32) n \<longleftrightarrow> n < 12"
  unfolding flag_masks(1) bit_mask_iff by auto

text \<open>The entry of a page in the swap area, and the entry of a page that came back.\<close>

definition out_entry :: "nat \<Rightarrow> u32 \<Rightarrow> u32" where
  "out_entry i e = push_bit 12 (word_of_nat i) OR (e AND 0xFFF AND NOT PTE_P) OR PTE_S"

lemmas entry_bits = bit_or_iff bit_and_iff bit_not_iff bit_push_bit_iff bit_drop_bit_eq bit_take_bit_iff
  bit_0x200 bit_0xFFF bit_1_iff

lemma bit_out_entry:
  "n < 12 \<Longrightarrow> bit (out_entry i e) n \<longleftrightarrow> n = 9 \<or> (bit e n \<and> n \<noteq> 0)"
  unfolding out_entry_def entry_bits by auto

lemma slot_out_entry:
  assumes "i < NUM_SLOTS"
  shows "unat (drop_bit 12 (out_entry i e)) = i"
proof -
  have "drop_bit 12 (out_entry i e) = take_bit 20 (word_of_nat i)"
    by (rule bit_word_eqI, unfold out_entry_def entry_bits) (auto simp: entry_bits)
  also have "\<dots> = word_of_nat (take_bit 20 i)" by (simp add: take_bit_of_nat)
  also have "take_bit 20 i = i" using assms by (simp add: take_bit_nat_eq_self_iff)
  finally show ?thesis using assms by (simp add: unat_of_nat)
qed

lemma in_entry:
  assumes "h mod 4096 = 0" "e AND PTE_P \<noteq> 0"
  shows "PTE_ADDR (V2P h OR (e AND 0xFFF AND NOT PTE_S) OR PTE_P) = V2P h"
    and "PTE_FLAGS (V2P h OR (e AND 0xFFF AND NOT PTE_S) OR PTE_P) = PTE_FLAGS e AND NOT PTE_S"
proof -
  have "take_bit 12 (V2P h) = 0" using assms(1) by (simp only: take_bit_V2P aligned_take_bit)
  then have h: "\<not> bit (V2P h) n" if "n < 12" for n
    using that by (metis bit_take_bit_iff bit_0_eq bot_apply bot_bool_def)
  have p: "bit e 0" using assms(2) flag_bits(1) [of e] by simp
  show "PTE_ADDR (V2P h OR (e AND 0xFFF AND NOT PTE_S) OR PTE_P) = V2P h"
    unfolding PTE_ADDR_def
    by (rule bit_word_eqI, unfold entry_bits) (use h in \<open>auto intro: leI\<close>)
  show "PTE_FLAGS (V2P h OR (e AND 0xFFF AND NOT PTE_S) OR PTE_P) = PTE_FLAGS e AND NOT PTE_S"
    unfolding PTE_FLAGS_def
    by (rule bit_word_eqI, unfold entry_bits) (use h p in auto)
qed

text \<open>
  C18. A page survives the swap area: when the page of \<open>va\<close> is swapped out and nothing overwrites its slot or
  its entry, the page fault on \<open>va\<close> maps a page with the same contents and the same permissions.  The slot
  stays marked as used.
\<close>

theorem swap_round_trip:
  assumes sp: "space_ok s pd xs" and sd: "swap_disk s"
    and a: "walk_lookup pd va s = Some a" "pte s pd va = Some e" "e AND PTE_P \<noteq> 0" "e AND PTE_U \<noteq> 0"
    and mem: "mem = P2V (PTE_ADDR e)" "page_ok s mem" "mem \<notin> set xs" "mem \<notin> pt_pages s pd"
    and i: "first_index (\<lambda>i. is_free (swap_slots s i) = 1) NUM_SLOTS = Some i"
    and out: "swap_out_page a s = Ok t"
    and later: "space_ok u pd ys" "swap_disk u" "nat (T_h u) < length ys" "p_pgdir (procs u p) = pd"
      "pte u pd va = pte t pd va" "slot_page u i = slot_page t i" "swap_slots u i = swap_slots t i"
  shows "pte t pd va = Some (out_entry i e) \<and> space_ok t pd (mem # xs) \<and>
    (\<exists>v e'. page_fault p va u = Ok v \<and> pte v pd va = Some e' \<and> page (P2V (PTE_ADDR e')) v = page mem s \<and>
       PTE_FLAGS e' = PTE_FLAGS e AND NOT PTE_S \<and> is_free (swap_slots v i) = 0)"
proof -
  from swap_out_page_spec [OF sp sd a(1,2,3) mem i] out
  have t: "space_ok t pd (mem # xs)" "slot_page t i = page mem s" "pte t pd va = Some (out_entry i e)"
    "swap_slots t = (swap_slots s)(i := \<lparr>page_perm = e AND 0xFFF AND NOT PTE_S, is_free = 0\<rparr>)"
    by (auto simp: out_entry_def)
  have iN: "i < NUM_SLOTS" using i by (simp add: first_index_Some)
  let ?f = "out_entry i e"
  have "?f AND PTE_U \<noteq> 0" "?f AND PTE_P = 0" "?f AND PTE_S \<noteq> 0"
    using a(4) by (simp_all add: flag_bits bit_out_entry)
  have "pte u pd va = Some ?f" using later(5) t(3) by simp
  from page_fault_spec [OF later(1,2,4) this \<open>?f AND PTE_U \<noteq> 0\<close> \<open>?f AND PTE_P = 0\<close> \<open>?f AND PTE_S \<noteq> 0\<close>
      slot_out_entry [OF iN] iN later(3)]
  obtain v where v: "page_fault p va u = Ok v" "page (hd ys) v = slot_page u i" "swap_slots v = swap_slots u"
    "pte v pd va = Some (V2P (hd ys) OR page_perm (swap_slots u i) OR PTE_P)" by auto
  have "hd ys \<in> set ys" using later(3) by (cases ys) auto
  then have h: "hd ys mod 4096 = 0"
    using pages.free_valid [OF space_okD(1) [OF later(1)]] page_ok_aligned by blast
  note ent = in_entry [OF h a(3)]
  have "page_perm (swap_slots u i) = e AND 0xFFF AND NOT PTE_S" using later(7) t(4) by simp
  moreover have "is_free (swap_slots v i) = 0" using later(7) t(4) v(3) by simp
  ultimately show ?thesis using t v later(6) ent by (auto simp: P2V_V2P)
qed

end
