(* ===== verification/Vm.thy ===== *)
theory Vm imports Mem begin

text \<open>
  Page tables (\<open>vm.c\<close> of the third assignment): the walk, mappings, the kernel part of a page table, growing
  and shrinking user memory including the slots of pages that are swapped out, the copy made for \<open>fork\<close>, and
  the copies between the kernel and user memory.
\<close>

section \<open>The walk and mappings\<close>

definition walkpgdir :: "u32 \<Rightarrow> u32 \<Rightarrow> bool \<Rightarrow> 'a mem_state_scheme \<Rightarrow> (u32 option \<times> 'a mem_state_scheme) res" where
  "walkpgdir pgdir va alloc s =
     (let pde = ld32 (pde_at pgdir va) s in
      if pde AND PTE_P \<noteq> 0 then Ok (Some (P2V (PTE_ADDR pde) + 4 * PTX va), s)
      else if \<not> alloc then Ok (None, s)
      else
        rbind (kalloc s) (\<lambda>(pgtab, s).
        if pgtab = 0 then Ok (None, s)
        else
          let s = set_page pgtab (replicate PGSIZE 0) s;
              s = st32 (pde_at pgdir va) (V2P pgtab OR PTE_P OR PTE_W OR PTE_U) s
          in Ok (Some (pgtab + 4 * PTX va), s)))"

text \<open>The loop of \<open>mappages\<close> over \<open>n\<close> pages; the code stops when it has done the page \<open>last\<close>.\<close>

primrec map_loop :: "u32 \<Rightarrow> u32 \<Rightarrow> nat \<Rightarrow> u32 \<Rightarrow> u32 \<Rightarrow> 'a mem_state_scheme \<Rightarrow> (int \<times> 'a mem_state_scheme) res" where
  "map_loop pgdir perm 0 a pa s = Ok (0, s)"
| "map_loop pgdir perm (Suc n) a pa s =
     rbind (walkpgdir pgdir a True s) (\<lambda>(pte, s).
     case pte of
       None \<Rightarrow> Ok (-1, s)
     | Some pte \<Rightarrow>
         if ld32 pte s AND PTE_P \<noteq> 0 then Panic ''remap''
         else map_loop pgdir perm n (a + 4096) (pa + 4096) (st32 pte (pa OR perm OR PTE_P) s))"

definition mappages :: "u32 \<Rightarrow> u32 \<Rightarrow> u32 \<Rightarrow> u32 \<Rightarrow> u32 \<Rightarrow> 'a mem_state_scheme \<Rightarrow> (int \<times> 'a mem_state_scheme) res" where
  "mappages pgdir va len pa perm s =
     (let a = PGROUNDDOWN va; last = PGROUNDDOWN (va + len - 1) in
      map_loop pgdir perm (unat (drop_bit 12 (last - a)) + 1) a pa s)"

definition clearpteu :: "u32 \<Rightarrow> u32 \<Rightarrow> 'a mem_state_scheme \<Rightarrow> 'a mem_state_scheme res" where
  "clearpteu pgdir uva s =
     rbind (walkpgdir pgdir uva False s) (\<lambda>(pte, s).
     case pte of None \<Rightarrow> Panic ''clearpteu'' | Some pte \<Rightarrow> Ok (st32 pte (ld32 pte s AND NOT PTE_U) s))"

section \<open>Shrinking\<close>

definition PGADDR :: "u32 \<Rightarrow> u32 \<Rightarrow> u32 \<Rightarrow> u32" where
  "PGADDR d t off = (push_bit 22 d OR push_bit 12 t OR off)"

definition dealloc_pte :: "u32 \<Rightarrow> 'a mem_state_scheme \<Rightarrow> 'a mem_state_scheme res" where
  "dealloc_pte pte s =
     (let e = ld32 pte s in
      if e AND PTE_P \<noteq> 0 then
        (if PTE_ADDR e = 0 then Panic ''kfree''
         else rbind (kfree (P2V (PTE_ADDR e)) s) (\<lambda>s. Ok (st32 pte 0 s)))
      else if e AND PTE_S \<noteq> 0 then
        rbind (free_swap_slot (drop_bit 12 e) s) (\<lambda>s. Ok (st32 pte 0 s))
      else Ok s)"

text \<open>
  The loop steps to the next page, or to the next page table where there is none.  Sizes are at most
  \<open>KERNBASE\<close>, so the step never wraps around; a step that does would make the code start over.
\<close>

function dealloc_loop :: "u32 \<Rightarrow> u32 \<Rightarrow> u32 \<Rightarrow> 'a mem_state_scheme \<Rightarrow> 'a mem_state_scheme res" where
  "dealloc_loop pgdir oldsz a s =
     (if a < oldsz then
        let a' = (case walk_lookup pgdir a s of None \<Rightarrow> PGADDR (PDX a + 1) 0 0 | Some _ \<Rightarrow> a + 4096) in
        if a' \<le> a then Undefined ''deallocuvm wraps around''
        else rbind (case walk_lookup pgdir a s of None \<Rightarrow> Ok s | Some pte \<Rightarrow> dealloc_pte pte s)
               (dealloc_loop pgdir oldsz a')
      else Ok s)"
  by auto
termination
  by (relation "measure (\<lambda>(pgdir, oldsz, a, s). unat oldsz - unat a)")
    (auto simp: word_less_nat_alt word_le_nat_alt not_le Let_def)

declare dealloc_loop.simps [simp del]

definition deallocuvm :: "u32 \<Rightarrow> u32 \<Rightarrow> u32 \<Rightarrow> 'a mem_state_scheme \<Rightarrow> (u32 \<times> 'a mem_state_scheme) res" where
  "deallocuvm pgdir oldsz newsz s =
     (if newsz \<ge> oldsz then Ok (oldsz, s)
      else rbind (dealloc_loop pgdir oldsz (PGROUNDUP newsz) s) (\<lambda>s. Ok (newsz, s)))"

definition freevm :: "u32 \<Rightarrow> 'a mem_state_scheme \<Rightarrow> 'a mem_state_scheme res" where
  "freevm pgdir s =
     (if pgdir = 0 then Panic ''freevm: no pgdir''
      else
        rbind (deallocuvm pgdir KERNBASE 0 s) (\<lambda>(_, s).
        rbind (rfold (\<lambda>i s.
            let pde = ld32 (pgdir + 4 * word_of_nat i) s in
            if pde AND PTE_P \<noteq> 0 then kfree (P2V (PTE_ADDR pde)) s else Ok s) [0..<1024] s) (\<lambda>s.
        kfree pgdir s)))"

section \<open>The kernel part\<close>

definition kmap :: "u32 \<Rightarrow> (u32 \<times> u32 \<times> u32 \<times> u32) list" where
  "kmap kd = [(KERNBASE, 0, 0x100000, PTE_W), (0x80100000, 0x100000, V2P kd, 0),
     (kd, V2P kd, PHYSTOP, PTE_W), (0xFE000000, 0xFE000000, 0, PTE_W)]"

primrec kmap_loop :: "u32 \<Rightarrow> (u32 \<times> u32 \<times> u32 \<times> u32) list \<Rightarrow> 'a mem_state_scheme \<Rightarrow> (u32 \<times> 'a mem_state_scheme) res" where
  "kmap_loop pgdir [] s = Ok (pgdir, s)"
| "kmap_loop pgdir (k # ks) s =
     (case k of (virt, start, stop, perm) \<Rightarrow>
        rbind (mappages pgdir virt (stop - start) start perm s) (\<lambda>(r, s).
        if r < 0 then rbind (freevm pgdir s) (\<lambda>s. Ok (0, s)) else kmap_loop pgdir ks s))"

definition setupkvm :: "'a mem_state_scheme \<Rightarrow> (u32 \<times> 'a mem_state_scheme) res" where
  "setupkvm s =
     rbind (kalloc s) (\<lambda>(pgdir, s).
     if pgdir = 0 then Ok (0, s)
     else
       let s = set_page pgdir (replicate PGSIZE 0) s in
       if P2V PHYSTOP > 0xFE000000 then Panic ''PHYSTOP too high''
       else kmap_loop pgdir (kmap (kdata s)) s)"

definition switchkvm :: "'a mem_state_scheme \<Rightarrow> 'a mem_state_scheme" where
  "switchkvm s = s\<lparr>cr3 := V2P (kpgdir s)\<rparr>"

definition kvmalloc :: "'a mem_state_scheme \<Rightarrow> 'a mem_state_scheme res" where
  "kvmalloc s = rbind (setupkvm s) (\<lambda>(pd, s). Ok (switchkvm (s\<lparr>kpgdir := pd\<rparr>)))"

definition switchuvm :: "nat option \<Rightarrow> 'a mem_state_scheme \<Rightarrow> 'a mem_state_scheme res" where
  "switchuvm p s =
     (case p of
        None \<Rightarrow> Panic ''switchuvm: no process''
      | Some i \<Rightarrow>
          if p_kstack (procs s i) = 0 then Panic ''switchuvm: no kstack''
          else if p_pgdir (procs s i) = 0 then Panic ''switchuvm: no pgdir''
          else Ok (s\<lparr>cr3 := V2P (p_pgdir (procs s i))\<rparr>))"

section \<open>Growing\<close>

text \<open>The loop adds \<open>n\<close> zeroed pages from \<open>a\<close> on; it reports failure after undoing its work.\<close>

primrec alloc_loop :: "u32 \<Rightarrow> u32 \<Rightarrow> u32 \<Rightarrow> nat \<Rightarrow> u32 \<Rightarrow> 'a mem_state_scheme \<Rightarrow> (bool \<times> 'a mem_state_scheme) res" where
  "alloc_loop pgdir oldsz newsz 0 a s = Ok (True, s)"
| "alloc_loop pgdir oldsz newsz (Suc n) a s =
     rbind (kalloc s) (\<lambda>(mem, s).
     if mem = 0 then
       rbind (say ''allocuvm out of memory\<newline>'' s) (\<lambda>s.
       rbind (deallocuvm pgdir newsz oldsz s) (\<lambda>(_, s). Ok (False, s)))
     else
       rbind (mappages pgdir a 4096 (V2P mem) (PTE_W OR PTE_U) (set_page mem (replicate PGSIZE 0) s)) (\<lambda>(r, s).
       if r < 0 then
         rbind (say ''allocuvm out of memory (2)\<newline>'' s) (\<lambda>s.
         rbind (deallocuvm pgdir newsz oldsz s) (\<lambda>(_, s).
         rbind (kfree mem s) (\<lambda>s. Ok (False, s))))
       else alloc_loop pgdir oldsz newsz n (a + 4096) s))"

definition allocuvm :: "u32 \<Rightarrow> u32 \<Rightarrow> u32 \<Rightarrow> 'a mem_state_scheme \<Rightarrow> (u32 \<times> 'a mem_state_scheme) res" where
  "allocuvm pgdir oldsz newsz s =
     (if newsz \<ge> KERNBASE then Ok (0, s)
      else if newsz < oldsz then Ok (oldsz, s)
      else
        let to_add = (newsz + 4095) div 4096 - (oldsz + 4095) div 4096; a = PGROUNDUP oldsz in
        rbind (alloc_loop pgdir oldsz newsz ((unat newsz - unat a + 4095) div 4096) a s) (\<lambda>(ok, s).
        if ok then Ok (newsz, upd_proc (cur s) (\<lambda>p. p\<lparr>p_rss := p_rss p + sint to_add\<rparr>) s)
        else Ok (0, s)))"

definition inituvm :: "u32 \<Rightarrow> bytes \<Rightarrow> 'a mem_state_scheme \<Rightarrow> 'a mem_state_scheme res" where
  "inituvm pgdir init s =
     (if length init \<ge> PGSIZE then Panic ''inituvm: more than a page''
      else
        rbind (kalloc s) (\<lambda>(mem, s).
        if mem = 0 then Undefined ''memset''
        else
          rbind (mappages pgdir 0 4096 (V2P mem) (PTE_W OR PTE_U) (set_page mem (replicate PGSIZE 0) s)) (\<lambda>(_, s).
          Ok (set_page mem (blit 0 init (page mem s)) s))))"

definition growproc :: "int \<Rightarrow> 'a mem_state_scheme \<Rightarrow> (int \<times> 'a mem_state_scheme) res" where
  "growproc n s =
     (let p = myproc s; sz = p_sz p;
          finish = (\<lambda>(sz, s).
            if sz = 0 \<and> n \<noteq> 0 then Ok (-1, s)
            else
              let s = upd_proc (cur s) (\<lambda>p. p\<lparr>p_sz := sz\<rparr>) s in
              rbind (switchuvm (Some (cur s)) s) (\<lambda>s. Ok (0, s)))
      in if n > 0 then rbind (allocuvm (p_pgdir p) sz (sz + word_of_int n) s) finish
         else if n < 0 then rbind (deallocuvm (p_pgdir p) sz (sz + word_of_int n) s) finish
         else finish (sz, s))"

section \<open>Copies\<close>

primrec copy_loop :: "u32 \<Rightarrow> u32 \<Rightarrow> u32 list \<Rightarrow> 'a mem_state_scheme \<Rightarrow> (bool \<times> 'a mem_state_scheme) res" where
  "copy_loop pgdir d [] s = Ok (True, s)"
| "copy_loop pgdir d (i # is) s =
     (case walk_lookup pgdir i s of
        None \<Rightarrow> Panic ''copyuvm: pte should exist''
      | Some pte \<Rightarrow>
          let e = ld32 pte s in
          if e AND PTE_P = 0 \<and> e AND PTE_S = 0 then Panic ''copyuvm: page not present or swapped''
          else if e AND PTE_P \<noteq> 0 then
            let pa = PTE_ADDR e; flags = PTE_FLAGS e in
            rbind (kalloc s) (\<lambda>(mem, s).
            if mem = 0 then Ok (False, s)
            else
              rbind (mappages d i 4096 (V2P mem) flags (set_page mem (page (P2V pa) s) s)) (\<lambda>(r, s).
              if r < 0 then rbind (kfree mem s) (\<lambda>s. Ok (False, s)) else copy_loop pgdir d is s))
          else
            rbind (mappages d i 4096 (push_bit 12 (drop_bit 12 e)) (PTE_FLAGS e) s) (\<lambda>(r, s).
            if r < 0 then Ok (False, s) else copy_loop pgdir d is s))"

definition copyuvm :: "u32 \<Rightarrow> u32 \<Rightarrow> 'a mem_state_scheme \<Rightarrow> (u32 \<times> 'a mem_state_scheme) res" where
  "copyuvm pgdir sz s =
     rbind (setupkvm s) (\<lambda>(d, s).
     if d = 0 then Ok (0, s)
     else
       rbind (copy_loop pgdir d (page_addrs sz) s) (\<lambda>(ok, s).
       if ok then Ok (d, s) else rbind (freevm d s) (\<lambda>s. Ok (0, s))))"

definition uva2ka :: "u32 \<Rightarrow> u32 \<Rightarrow> 'a mem_state_scheme \<Rightarrow> u32 option res" where
  "uva2ka pgdir uva s =
     (case walk_lookup pgdir uva s of
        None \<Rightarrow> Undefined ''*pte''
      | Some pte \<Rightarrow>
          let e = ld32 pte s in
          if e AND PTE_P = 0 then Ok None
          else if e AND PTE_U = 0 then Ok None
          else Ok (Some (P2V (PTE_ADDR e))))"

lemma page_offset: "va - PGROUNDDOWN va = va AND 0xFFF" "unat (va - PGROUNDDOWN va) < 4096"
proof -
  have "va = (va AND NOT 0xFFF) OR (va AND 0xFFF)" 
    by (rule bit_word_eqI) (unfold bit_or_iff bit_and_iff bit_not_iff, auto)
  also have "\<dots> = (va AND NOT 0xFFF) + (va AND 0xFFF)"
    by (rule disjunctive_add [symmetric]) (auto simp only: bit_and_iff bit_not_iff)
  finally show 1: "va - PGROUNDDOWN va = va AND 0xFFF" by (simp only: PGROUNDDOWN_def) (metis add_diff_cancel_left')
  have "va AND 0xFFF = take_bit 12 va" by (simp add: take_bit_eq_mask mask_eq_exp_minus_1)
  then show "unat (va - PGROUNDDOWN va) < 4096"
    unfolding 1 using take_bit_nat_less_exp [of 12 "unat va"] by (simp add: unsigned_take_bit_eq)
qed

text \<open>The source of \<open>copyout\<close> is memory of the kernel, given by its bytes.\<close>

function copyout :: "u32 \<Rightarrow> u32 \<Rightarrow> bytes \<Rightarrow> 'a mem_state_scheme \<Rightarrow> (int \<times> 'a mem_state_scheme) res" where
  "copyout pgdir va buf s =
     (if buf = [] then Ok (0, s)
      else
        let va0 = PGROUNDDOWN va in
        rbind (uva2ka pgdir va0 s) (\<lambda>pa0.
        case pa0 of
          None \<Rightarrow> Ok (-1, s)
        | Some pa0 \<Rightarrow>
            let off = unat (va - va0); n = min (4096 - off) (length buf) in
            copyout pgdir (va0 + 4096) (drop n buf) (set_page pa0 (blit off (take n buf) (page pa0 s)) s)))"
  by auto
termination
  by (relation "measure (\<lambda>(pgdir, va, buf, s). length buf)") (auto simp: page_offset(2))

declare copyout.simps [simp del]

text \<open>The loop of \<open>loaduvm\<close>, whose file position is \<open>offset + i\<close>.\<close>

primrec load_loop :: "u32 \<Rightarrow> u32 \<Rightarrow> nat \<Rightarrow> u32 \<Rightarrow> u32 \<Rightarrow> u32 list \<Rightarrow> 'a mem_state_scheme \<Rightarrow> (int \<times> 'a mem_state_scheme) res" where
  "load_loop pgdir addr ip offset sz [] s = Ok (0, s)"
| "load_loop pgdir addr ip offset sz (i # is) s =
     (case walk_lookup pgdir (addr + i) s of
        None \<Rightarrow> Panic ''loaduvm: address should exist''
      | Some pte \<Rightarrow>
          let mem = P2V (PTE_ADDR (ld32 pte s)); n = min (sz - i) 4096 in
          rbind (readi ip (offset + i) n s) (\<lambda>(r, bs, s).
          let s = set_page mem (blit 0 bs (page mem s)) s in
          if r \<noteq> uint n then Ok (-1, s) else load_loop pgdir addr ip offset sz is s))"

definition loaduvm :: "u32 \<Rightarrow> u32 \<Rightarrow> nat \<Rightarrow> u32 \<Rightarrow> u32 \<Rightarrow> 'a mem_state_scheme \<Rightarrow> (int \<times> 'a mem_state_scheme) res" where
  "loaduvm pgdir addr ip offset sz s =
     (if addr mod 4096 \<noteq> 0 then Panic ''loaduvm: addr must be page aligned''
      else load_loop pgdir addr ip offset sz (page_addrs sz) s)"

end
