(* ===== verification/Vmap.thy ===== *)
theory Vmap imports SwapTrip Vm begin

text \<open>
  The page table as a map from pages to entries: what \<open>walkpgdir\<close> and \<open>mappages\<close> do to it when the allocator
  has pages, what the copy for \<open>fork\<close> makes of a page that is swapped out, and how the size of a process
  shrinks.
\<close>

section \<open>A new page table\<close>

lemma walkpgdir_lookup: "walkpgdir pd va False s = Ok (walk_lookup pd va s, s)"
  by (simp add: walkpgdir_def walk_lookup_def Let_def)

lemma get32_zero: "get32 off (replicate n 0) = 0" if "off + 4 \<le> n"
proof -
  have "slice off 4 (replicate n (0 :: u8)) = replicate 4 0" using that by (simp add: slice_def)
  then show ?thesis by (simp add: get32_def dec32_def)
qed

lemma new_table_flags: "(V2P t OR PTE_P OR PTE_W OR PTE_U) AND PTE_P \<noteq> 0"
  by (simp add: flag_bits bit_or_iff)

lemma new_table_addr:
  assumes "t mod 4096 = 0"
  shows "PTE_ADDR (V2P t OR PTE_P OR PTE_W OR PTE_U) = V2P t"
proof -
  have "take_bit 12 (V2P t) = 0" using assms by (simp only: take_bit_V2P aligned_take_bit)
  then have h: "\<not> bit (V2P t) n" if "n < 12" for n
    using that by (metis bit_take_bit_iff bit_0_eq bot_apply bot_bool_def)
  have c: "bit (PTE_P OR PTE_W OR PTE_U) n \<Longrightarrow> n < 12" for n
  proof -
    have "PTE_P OR PTE_W OR PTE_U = (mask 3 :: u32)" by (simp add: mask_eq_exp_minus_1)
    then show "bit (PTE_P OR PTE_W OR PTE_U) n \<Longrightarrow> n < 12" by (simp only: bit_mask_iff) simp
  qed
  show ?thesis
    unfolding PTE_ADDR_def
    by (rule bit_word_eqI, unfold bit_and_iff bit_not_iff bit_or_iff [of "V2P t"] bit_0xFFF) (use h c in \<open>auto intro: leI\<close>)
qed

lemma new_table:
  assumes ok: "pgtab_ok s pd" and i: "unat i < 1024" "tab s pd i = None"
    and t: "t mod 4096 = 0" "t \<notin> pt_pages s pd"
    and s2: "s2 = st32 (entry pd i) (V2P t OR PTE_P OR PTE_W OR PTE_U) (set_page t (replicate PGSIZE 0) s)"
  shows "pgtab_ok s2 pd" "unat j < 1024 \<Longrightarrow> tab s2 pd j = (if j = i then Some t else tab s pd j)"
    "pt_pages s2 pd = insert t (pt_pages s pd)" "page t s2 = replicate PGSIZE 0"
    "\<And>w. w mod 4096 = 0 \<Longrightarrow> w \<noteq> t \<Longrightarrow> w \<noteq> pd \<Longrightarrow> page w s2 = page w s"
proof -
  let ?s1 = "set_page t (replicate PGSIZE 0) s"
  have mem: "mem_ok s" and pd: "pd mod 4096 = 0" using ok by (simp_all only: pgtab_ok_def)
  have ne: "t \<noteq> pd" using t(2) by (auto simp: pt_pages_def)
  have fr: "frame_of t \<noteq> frame_of pd" using frame_of_inj [OF t(1) pd] ne by blast
  have m1: "mem_ok ?s1" using mem by simp
  have pg1: "page pd ?s1 = page pd s" using fr by (simp add: page_set_page)
  note e = entry_page [OF pd]
  have tab2: "tab s2 pd j = (if j = i then Some t else tab s pd j)" if j: "unat j < 1024" for j
  proof (cases "j = i")
    case True
    then show ?thesis using m1 e(3) [OF i(1)] new_table_flags [of t] new_table_addr [OF t(1)] by (simp add: tab_def s2)
  next
    case False
    then have "entry pd j \<noteq> entry pd i" using same_entry(2) [OF _ pd pd j i(1)] by blast
    then have "ld32 (entry pd j) s2 = ld32 (entry pd j) ?s1"
      unfolding s2 using e(3) [OF i(1)] e(3) [OF j] m1 by (intro ld32_st32_other) auto
    also have "\<dots> = ld32 (entry pd j) s"
      by (rule ld32_page_cong) (simp only: page_frame_cong [OF e(2) [OF j]] pg1)
    finally show ?thesis using False by (simp add: tab_def)
  qed
  then show "unat j < 1024 \<Longrightarrow> tab s2 pd j = (if j = i then Some t else tab s pd j)" .
  have m2: "mem_ok s2" unfolding s2 using m1 e(3) [OF i(1)] by simp
  show "pt_pages s2 pd = insert t (pt_pages s pd)"
    using tab2 i unfolding pt_pages_def by (auto split: if_splits) (metis option.distinct(1))
  have nt: "tab s pd j \<noteq> Some t" if "unat j < 1024" for j using t(2) that by (auto simp: pt_pages_def)
  show "pgtab_ok s2 pd"
    unfolding pgtab_ok_def
  proof (intro conjI allI impI m2 pd)
    fix j u assume "unat j < 1024 \<and> tab s2 pd j = Some u"
    then show "u \<noteq> pd" using tab2 [of j] ok ne unfolding pgtab_ok_def by (metis option.inject)
  next
    fix j k u assume a: "unat j < 1024 \<and> unat k < 1024 \<and> tab s2 pd j = Some u \<and> tab s2 pd k = Some u"
    then have "tab s pd j = tab s pd k \<or> j = k" using tab2 nt by (auto split: if_splits)
    then show "j = k" using a ok nt tab2 unfolding pgtab_ok_def by (metis option.inject)
  qed
  have f2: "frame_of t \<noteq> frame_of (entry pd i)" using fr e(2) [OF i(1)] by simp
  then show "page t s2 = replicate PGSIZE 0" unfolding s2 by (simp add: page_st32_frame page_set_page)
  show "page w s2 = page w s" if w: "w mod 4096 = 0" "w \<noteq> t" "w \<noteq> pd" for w
  proof -
    have "frame_of w \<noteq> frame_of t" "frame_of w \<noteq> frame_of (entry pd i)"
      using frame_of_inj [OF w(1) t(1)] frame_of_inj [OF w(1) pd] w e(2) [OF i(1)] by auto
    then show ?thesis unfolding s2 by (simp add: page_st32_frame page_set_page)
  qed
qed


section \<open>The walk that allocates\<close>

text \<open>An entry in a page table that does not exist counts as 0.\<close>

definition ptev :: "'a mem_state_scheme \<Rightarrow> u32 \<Rightarrow> u32 \<Rightarrow> u32" where
  "ptev s pd va = (case pte s pd va of None \<Rightarrow> 0 | Some e \<Rightarrow> e)"

lemma ptev_ld: "walk_lookup pd va s = Some a \<Longrightarrow> ptev s pd va = ld32 a s"
  by (simp add: ptev_def pte_def)

text \<open>What a change of a page table leaves alone: the pages that are neither the table's nor free.\<close>

definition outside :: "'a mem_state_scheme \<Rightarrow> u32 \<Rightarrow> u32 list \<Rightarrow> 'a mem_state_scheme \<Rightarrow> bool" where
  "outside s pd xs t \<longleftrightarrow> (\<forall>w. w mod 4096 = 0 \<and> w \<notin> pt_pages s pd \<and> w \<notin> set xs \<longrightarrow> page w t = page w s)"

lemma outsideD:
  "outside s pd xs t \<Longrightarrow> w mod 4096 = 0 \<Longrightarrow> w \<notin> pt_pages s pd \<Longrightarrow> w \<notin> set xs \<Longrightarrow> page w t = page w s"
  by (simp add: outside_def)

lemma entry_pde_at: "pde_at pd va = entry pd (PDX va)"
  by (simp add: pde_at_def entry_def)

lemma ld32_zero_page: "page p s = replicate PGSIZE 0 \<Longrightarrow> p mod 4096 = 0 \<Longrightarrow> unat x < 1024 \<Longrightarrow> ld32 (entry p x) s = 0"
  using offset_room [OF entry_page(3), of p x] page_frame_cong [OF entry_page(2), of p x s]
  by (simp add: ld32_def get32_zero)

lemma alloc_frame_set_page: "alloc_frame s (set_page v bs s)"
  unfolding alloc_frame_def set_page_def
  by (intro exI [of _ "(pmem s)(frame_of v := bs)"] exI [of _ "freelist s"] exI [of _ "free_pages_count s"]) simp

lemma alloc_frame_st32: "alloc_frame s (st32 a w s)"
  unfolding st32_def by (rule alloc_frame_set_page)

lemma walkpgdir_spec:
  assumes sp: "space_ok s pd xs" and room: "nat (T_h s) < length xs"
  shows "\<exists>a t n. walkpgdir pd va True s = Ok (Some a, t) \<and> walk_lookup pd va t = Some a \<and> n \<le> 1 \<and>
    space_ok t pd (drop n xs) \<and> (\<forall>vb. ptev t pd vb = ptev s pd vb) \<and> alloc_frame s t \<and>
    pt_pages s pd \<subseteq> pt_pages t pd \<and> pt_pages t pd \<subseteq> pt_pages s pd \<union> set xs \<and> outside s pd xs t"
proof (cases "walk_lookup pd va s")
  case (Some a)
  have "walkpgdir pd va True s = Ok (Some a, s)"
    using Some by (simp add: walkpgdir_def walk_lookup_def Let_def split: if_splits)
  with Some sp show ?thesis by (intro exI [of _ a] exI [of _ s] exI [of _ 0]) (simp add: outside_def)
next
  case None
  note D = space_okD [OF sp]
  have pd: "pd mod 4096 = 0" using D(2) by (simp only: pgtab_ok_def)
  obtain h hs where xs: "xs = h # hs" using room by (cases xs) auto
  from pages.get [OF D(1) room] obtain s1 where 1: "kalloc s = Ok (h, s1)" "allocator_ok s1 hs"
    "alloc_frame s s1" "\<forall>w. page w s1 = page w s" by (auto simp: xs)
  have "set hs \<subseteq> set xs" by (auto simp: xs)
  note S1 = space_ok_alloc [OF sp 1(2) this 1(3,4)]
  have h: "page_ok s h" "h \<notin> set hs" "h \<notin> pt_pages s pd"
    using D(1,7) pages.free_valid [OF D(1)] pages.free_distinct [OF D(1)] by (auto simp: xs)
  have h0: "h \<noteq> 0" using h(1) by (rule page_ok_nonzero)
  have hal: "h mod 4096 = 0" using h(1) by simp
  define t where "t = st32 (entry pd (PDX va)) (V2P h OR PTE_P OR PTE_W OR PTE_U) (set_page h (replicate PGSIZE 0) s1)"
  have none: "tab s1 pd (PDX va) = None" using None S1(4) [of va] by (simp add: walk_lookup_tab)
  have hpt: "h \<notin> pt_pages s1 pd" using h(3) S1(3) by simp
  note N = new_table [OF space_okD(2) [OF S1(1)] PDX_less none hal hpt t_def]
  have "walkpgdir pd va True s = Ok (Some (entry h (PTX va)), t)"
    using None 1(1) h0 by (auto simp: walkpgdir_def walk_lookup_def Let_def entry_pde_at t_def entry_def split: if_splits)
  moreover have wl: "walk_lookup pd va t = Some (entry h (PTX va))" using N(2) [OF PDX_less, of va] by (simp add: walk_lookup_tab)
  moreover have fl: "allocator_ok t hs"
  proof -
    have al: "x mod 4096 = 0" "x \<noteq> h" "x \<noteq> pd" if "x \<in> set hs" for x
      using that h(2) pages.free_valid [OF 1(2) that] space_okD(7) [OF S1(1), of x] page_ok_aligned [of s1 x]
      by (auto simp: pt_pages_def)
    have "free_list t hs"
    proof (rule free_list_cong [OF space_okD(3) [OF S1(1)]])
      show "mem_ok t" using N(1) by (simp add: pgtab_ok_def)
      fix x assume "x \<in> set hs"
      then show "ld32 x t = ld32 x s1" by (intro ld32_page_cong N(5) al)
    qed (simp_all add: t_def)
    then show ?thesis using 1(2) by (simp add: allocator_ok_def t_def)
  qed
  moreover have spt: "space_ok t pd hs"
  proof -
    have "page_ok t p \<and> p \<notin> set hs" if "p \<in> insert h (pt_pages s1 pd)" for p
    proof -
      have "page_ok t p = page_ok s p" using alloc_frame_sel(1) [OF 1(3)] by (simp add: t_def page_ok_def)
      then show ?thesis using that h(1,2) D(6) [of p] space_okD(7) [OF S1(1), of p] S1(3) by auto
    qed
    then show ?thesis using fl N(1,3) by (simp add: space_ok_def)
  qed
  moreover have "ptev t pd vb = ptev s pd vb" for vb
  proof (cases "PDX vb = PDX va")
    case True
    have "ld32 (entry h (PTX vb)) t = 0" by (rule ld32_zero_page [OF N(4) hal PTX_less])
    moreover have "walk_lookup pd vb t = Some (entry h (PTX vb))" using N(2) [OF PDX_less, of vb] True by (simp add: walk_lookup_tab)
    moreover have "walk_lookup pd vb s = None" using None True by (simp add: walk_lookup_tab)
    ultimately show ?thesis by (simp add: ptev_def pte_def)
  next
    case False
    then have tb: "tab t pd (PDX vb) = tab s1 pd (PDX vb)" using N(2) [OF PDX_less, of vb] by simp
    have "pte t pd vb = pte s1 pd vb"
    proof (cases "walk_lookup pd vb s1")
      case None then show ?thesis using tb by (simp add: pte_def walk_lookup_tab)
    next
      case (Some b)
      obtain u where u: "tab s1 pd (PDX vb) = Some u" "b = entry u (PTX vb)" "u \<in> pt_pages s1 pd" "u \<noteq> pd" "u mod 4096 = 0"
        "frame_of b = frame_of u" by (rule walk_lookup_props [OF space_okD(2) [OF S1(1)] Some])
      have "page u t = page u s1" using N(5) u(3-5) hpt by metis
      then have "ld32 b t = ld32 b s1" using u(6) page_frame_cong [of b u t] page_frame_cong [of b u s1] by (intro ld32_page_cong) simp
      then show ?thesis using tb Some by (auto simp: pte_def walk_lookup_tab)
    qed
    then show ?thesis using S1(2) by (simp add: ptev_def)
  qed
  moreover have "alloc_frame s t"
  proof -
    have "alloc_frame s1 (set_page h (replicate PGSIZE 0) s1)" by (rule alloc_frame_set_page)
    then show ?thesis using 1(3) alloc_frame_st32 alloc_frame_trans unfolding t_def by blast
  qed
  moreover have "outside s pd xs t"
    unfolding outside_def
  proof (intro allI impI)
    fix w assume w: "w mod 4096 = 0 \<and> w \<notin> pt_pages s pd \<and> w \<notin> set xs"
    then have "w \<noteq> h" "w \<noteq> pd" by (auto simp: xs pt_pages_def)
    then show "page w t = page w s" using N(5) w 1(4) by simp
  qed
  moreover have "pt_pages s pd \<subseteq> pt_pages t pd" "pt_pages t pd \<subseteq> pt_pages s pd \<union> set xs" using N(3) S1(3) by (auto simp: xs)
  ultimately show ?thesis
    by (intro exI [of _ "entry h (PTX va)"] exI [of _ t] exI [of _ 1]) (simp add: xs)
qed


section \<open>Mapping a range of pages\<close>

text \<open>The number of the page of a virtual address; two addresses share their entry iff they are in one page.\<close>

definition vpn :: "u32 \<Rightarrow> nat" where
  "vpn va = unat va div 4096"

lemma and_3FF: "(x :: u32) AND 0x3FF = take_bit 10 x"
  using take_bit_eq_mask [of 10 x] by (simp add: mask_eq_exp_minus_1)

lemma same_page: "PDX vb = PDX va \<and> PTX vb = PTX va \<longleftrightarrow> vpn vb = vpn va"
proof -
  have u: "unat (take_bit 10 (drop_bit n x)) = unat x div 2 ^ n mod 1024" for n and x :: u32
    by (simp only: unsigned_take_bit_eq unat_drop_bit_eq) (simp add: take_bit_eq_mod drop_bit_eq_div)
  have ptx: "unat (PTX x) = vpn x mod 1024" for x
    unfolding PTX_def and_3FF u vpn_def by simp
  have pdx: "unat (PDX x) = vpn x div 1024" for x
  proof -
    have "unat x < 2 ^ 32" using unsigned_less [of x] by simp
    then have "unat x div 2 ^ 22 < 1024" by (simp add: less_mult_imp_div_less)
    moreover have "unat x div 2 ^ 22 = vpn x div 1024" by (simp add: vpn_def flip: div_mult2_eq)
    ultimately show ?thesis unfolding PDX_def and_3FF u by simp
  qed
  show ?thesis
    using ptx [of va] ptx [of vb] pdx [of va] pdx [of vb] unfolding word_unat_eq_iff
    by (auto simp: vpn_def) (metis div_mult_mod_eq)
qed

lemma store_ptev:
  assumes "space_ok s pd xs" "walk_lookup pd va s = Some a"
  shows "ptev (st32 a w s) pd vb = (if vpn vb = vpn va then w else ptev s pd vb)"
  using store_pte(3) [OF space_okD(2) [OF assms(1)] assms(2), of w vb] by (simp add: ptev_def same_page)

lemma outside_trans:
  assumes "outside s pd xs t" "outside t pd ys u" "pt_pages t pd \<subseteq> pt_pages s pd \<union> set xs" "set ys \<subseteq> set xs"
  shows "outside s pd xs u"
  unfolding outside_def
proof (intro allI impI)
  fix w assume w: "w mod 4096 = 0 \<and> w \<notin> pt_pages s pd \<and> w \<notin> set xs"
  with assms(3,4) have "w \<notin> pt_pages t pd" "w \<notin> set ys" by blast+
  with w assms(1,2) show "page w u = page w s" unfolding outside_def by simp
qed

lemma map_loop_spec:
  assumes "space_ok s pd xs" "nat (T_h s) + n \<le> length xs" "a mod 4096 = 0" "unat a + 4096 * n \<le> 2 ^ 32"
    and "\<forall>vb. vpn a \<le> vpn vb \<and> vpn vb < vpn a + n \<longrightarrow> ptev s pd vb AND PTE_P = 0"
  shows "\<exists>t m. map_loop pd perm n a pa s = Ok (0, t) \<and> m \<le> n \<and> space_ok t pd (drop m xs) \<and> alloc_frame s t \<and>
    (\<forall>vb. ptev t pd vb = (if vpn a \<le> vpn vb \<and> vpn vb < vpn a + n
       then (pa + word_of_nat (4096 * (vpn vb - vpn a))) OR perm OR PTE_P else ptev s pd vb)) \<and>
    pt_pages t pd \<subseteq> pt_pages s pd \<union> set xs \<and> outside s pd xs t"
  using assms
proof (induction n arbitrary: a pa s xs)
  case 0
  from 0(1) show ?case by (intro exI [of _ s] exI [of _ 0]) (auto simp: outside_def)
next
  case (Suc n)
  have "nat (T_h s) < length xs" using Suc.prems(2) by simp
  from walkpgdir_spec [OF Suc.prems(1) this, of a] obtain e t1 k where
    1: "walkpgdir pd a True s = Ok (Some e, t1)" "walk_lookup pd a t1 = Some e" "k \<le> 1" "space_ok t1 pd (drop k xs)"
      "\<forall>vb. ptev t1 pd vb = ptev s pd vb" "alloc_frame s t1" "pt_pages t1 pd \<subseteq> pt_pages s pd \<union> set xs" "outside s pd xs t1"
    by blast
  have np: "ld32 e t1 AND PTE_P = 0" using 1(5) ptev_ld [OF 1(2)] Suc.prems(5) by auto
  let ?w = "pa OR perm OR PTE_P"
  define t2 where "t2 = st32 e ?w t1"
  have sp2: "space_ok t2 pd (drop k xs)" unfolding t2_def by (rule space_ok_store(1) [OF 1(4,2)])
  have p2: "ptev t2 pd vb = (if vpn vb = vpn a then ?w else ptev s pd vb)" for vb
    unfolding t2_def by (simp add: store_ptev [OF 1(4,2)] 1(5))
  have pt2: "pt_pages t2 pd = pt_pages t1 pd" unfolding t2_def by (rule store_pte(4) [OF space_okD(2) [OF 1(4)] 1(2)])
  have o2: "outside s pd xs t2"
    unfolding outside_def t2_def
  proof (intro allI impI)
    fix w assume w: "w mod 4096 = 0 \<and> w \<notin> pt_pages s pd \<and> w \<notin> set xs"
    then have "page w (st32 e ?w t1) = page w t1" using 1(7) by (intro space_ok_store(3) [OF 1(4,2)]) auto
    then show "page w (st32 e ?w t1) = page w s" using 1(8) w unfolding outside_def by simp
  qed
  have fr2: "alloc_frame s t2" unfolding t2_def using 1(6) alloc_frame_st32 alloc_frame_trans by blast
  have run: "map_loop pd perm (Suc n) a pa s = map_loop pd perm n (a + 4096) (pa + 4096) t2"
    using np by (simp add: 1(1) t2_def)
  show ?case
  proof (cases "n = 0")
    case True
    with run have "map_loop pd perm (Suc n) a pa s = Ok (0, t2)" by simp
    moreover have "vpn a \<le> vpn vb \<and> vpn vb < vpn a + Suc n \<longleftrightarrow> vpn vb = vpn a" for vb using True by auto
    ultimately show ?thesis using 1(3,7) sp2 p2 pt2 o2 fr2
      by (intro exI [of _ t2] exI [of _ k]) simp
  next
    case False
    have ua: "unat (a + 4096) = unat a + 4096" using unat_add_nat [of a 4096] Suc.prems(4) False by simp
    then have va: "vpn (a + 4096) = Suc (vpn a)" by (simp add: vpn_def)
    have al: "(a + 4096) mod 4096 = 0" using Suc.prems(3) ua by (simp only: mod_4096_unat) simp
    have len: "nat (T_h t2) + n \<le> length (drop k xs)" using alloc_frame_sel(2) [OF fr2] Suc.prems(2) 1(3) by simp
    have free: "\<forall>vb. vpn (a + 4096) \<le> vpn vb \<and> vpn vb < vpn (a + 4096) + n \<longrightarrow> ptev t2 pd vb AND PTE_P = 0"
      using Suc.prems(5) by (auto simp: p2 va)
    have room: "unat (a + 4096) + 4096 * n \<le> 2 ^ 32" using ua Suc.prems(4) by simp
    from Suc.IH [OF sp2 len al room free, of "pa + 4096"] obtain t m where
      2: "map_loop pd perm n (a + 4096) (pa + 4096) t2 = Ok (0, t)" "m \<le> n" "space_ok t pd (drop m (drop k xs))"
        "alloc_frame t2 t" "pt_pages t pd \<subseteq> pt_pages t2 pd \<union> set (drop k xs)" "outside t2 pd (drop k xs) t"
        "\<forall>vb. ptev t pd vb = (if vpn (a + 4096) \<le> vpn vb \<and> vpn vb < vpn (a + 4096) + n
         then (pa + 4096 + word_of_nat (4096 * (vpn vb - vpn (a + 4096)))) OR perm OR PTE_P else ptev t2 pd vb)"
      by blast
    have sub: "set (drop k xs) \<subseteq> set xs" by (rule set_drop_subset)
    have "ptev t pd vb = (if vpn a \<le> vpn vb \<and> vpn vb < vpn a + Suc n
       then (pa + word_of_nat (4096 * (vpn vb - vpn a))) OR perm OR PTE_P else ptev s pd vb)" for vb
    proof (cases "vpn a < vpn vb \<and> vpn vb < vpn a + Suc n")
      case True
      then have "vpn vb - vpn a = Suc (vpn vb - vpn (a + 4096))" by (simp add: va Suc_diff_Suc)
      then have "pa + 4096 + word_of_nat (4096 * (vpn vb - vpn (a + 4096))) = pa + word_of_nat (4096 * (vpn vb - vpn a))"
        by (simp add: algebra_simps)
      then show ?thesis using True by (simp add: 2(7) va)
    next
      case False
      then have "\<not> (vpn (a + 4096) \<le> vpn vb \<and> vpn vb < vpn (a + 4096) + n)" by (auto simp: va)
      then have "ptev t pd vb = ptev t2 pd vb" unfolding 2(7) [rule_format, of vb] by (rule if_not_P)
      then show ?thesis using False p2 [of vb] by auto
    qed
    moreover have "outside s pd xs t" using outside_trans [OF o2 2(6) _ sub] pt2 1(7) by simp
    moreover have "pt_pages t pd \<subseteq> pt_pages s pd \<union> set xs" using 2(5) pt2 1(7) sub by blast
    moreover have "alloc_frame s t" using fr2 2(4) by (rule alloc_frame_trans)
    moreover have "drop m (drop k xs) = drop (m + k) xs" by simp
    ultimately show ?thesis using run 2(1-3) 1(3) by (intro exI [of _ t] exI [of _ "m + k"]) simp
  qed
qed


lemma unat_PGROUNDDOWN: "unat (PGROUNDDOWN a) = 4096 * vpn a"
  unfolding PGROUNDDOWN_def vpn_def by (rule unat_and_not_4095)

lemma PGROUNDDOWN_aligned: "PGROUNDDOWN a mod 4096 = 0" "vpn (PGROUNDDOWN a) = vpn a"
  by (simp_all only: mod_4096_unat unat_PGROUNDDOWN vpn_def [of "PGROUNDDOWN a"]) simp_all

lemma vpn_mono: "unat a \<le> unat b \<Longrightarrow> vpn a \<le> vpn b"
  by (simp add: vpn_def div_le_mono)

lemma mappages_loop:
  assumes "vpn va \<le> vpn (va + len - 1)"
  shows "mappages pd va len pa perm s = map_loop pd perm (vpn (va + len - 1) - vpn va + 1) (PGROUNDDOWN va) pa s"
proof -
  let ?a = "PGROUNDDOWN va" and ?l = "PGROUNDDOWN (va + len - 1)"
  have "?a \<le> ?l" unfolding word_le_nat_alt unat_PGROUNDDOWN using assms by simp
  then have "unat (?l - ?a) = 4096 * (vpn (va + len - 1) - vpn va)"
    by (simp add: unat_sub unat_PGROUNDDOWN right_diff_distrib')
  then have "unat (drop_bit 12 (?l - ?a)) = vpn (va + len - 1) - vpn va"
    by (simp only: unat_drop_bit_eq) (simp add: drop_bit_eq_div)
  then show ?thesis by (simp only: mappages_def Let_def)
qed

text \<open>
  C19. \<open>mappages\<close> maps a range: when the allocator has pages and nothing in the range is mapped, every page
  that the range touches gets the entry of its physical page with the permissions and the present bit, no
  other entry of the table changes, and memory outside the table and the free pages is left alone.
\<close>

theorem mappages_correct:
  assumes "space_ok s pd xs" and range: "vpn va \<le> vpn (va + len - 1)"
    and "nat (T_h s) + (vpn (va + len - 1) - vpn va + 1) \<le> length xs"
    and "\<forall>vb. vpn va \<le> vpn vb \<and> vpn vb \<le> vpn (va + len - 1) \<longrightarrow> ptev s pd vb AND PTE_P = 0"
  shows "\<exists>t m. mappages pd va len pa perm s = Ok (0, t) \<and> space_ok t pd (drop m xs) \<and> alloc_frame s t \<and>
    (\<forall>vb. ptev t pd vb = (if vpn va \<le> vpn vb \<and> vpn vb \<le> vpn (va + len - 1)
       then (pa + word_of_nat (4096 * (vpn vb - vpn va))) OR perm OR PTE_P else ptev s pd vb)) \<and> outside s pd xs t"
proof -
  let ?n = "vpn (va + len - 1) - vpn va + 1"
  have "unat (va + len - 1) < 2 ^ 32" using unsigned_less [of "va + len - 1"] by simp
  then have "vpn (va + len - 1) < 2 ^ 20" by (simp add: vpn_def less_mult_imp_div_less)
  then have room: "unat (PGROUNDDOWN va) + 4096 * ?n \<le> 2 ^ 32" using range by (simp add: unat_PGROUNDDOWN)
  have in_range: "(vpn va \<le> vpn vb \<and> vpn vb < vpn va + ?n) \<longleftrightarrow> (vpn va \<le> vpn vb \<and> vpn vb \<le> vpn (va + len - 1))" for vb
    using range by auto
  have free: "\<forall>vb. vpn (PGROUNDDOWN va) \<le> vpn vb \<and> vpn vb < vpn (PGROUNDDOWN va) + ?n \<longrightarrow> ptev s pd vb AND PTE_P = 0"
    unfolding PGROUNDDOWN_aligned(2) in_range by (rule assms(4))
  from map_loop_spec [OF assms(1,3) PGROUNDDOWN_aligned(1) room free, of perm pa]
  show ?thesis unfolding mappages_loop [OF range] PGROUNDDOWN_aligned(2) in_range by blast
qed

lemma map_one:
  assumes "space_ok s pd xs" "va mod 4096 = 0" "nat (T_h s) < length xs" "ptev s pd va AND PTE_P = 0"
  shows "\<exists>t m. mappages pd va 4096 pa perm s = Ok (0, t) \<and> m \<le> 1 \<and> space_ok t pd (drop m xs) \<and> alloc_frame s t \<and>
    (\<forall>vb. ptev t pd vb = (if vpn vb = vpn va then pa OR perm OR PTE_P else ptev s pd vb)) \<and>
    pt_pages t pd \<subseteq> pt_pages s pd \<union> set xs \<and> outside s pd xs t"
proof -
  have u: "unat va = 4096 * vpn va" using assms(2) by (auto simp: mod_4096_unat vpn_def)
  have va: "PGROUNDDOWN va = va" unfolding word_unat_eq_iff unat_PGROUNDDOWN u ..
  have lt: "unat va < 2 ^ 32" using unsigned_less [of va] by simp
  have v20: "vpn va < 2 ^ 20" using lt by (simp add: vpn_def less_mult_imp_div_less)
  have "unat (va + word_of_nat 4095) = unat va + 4095" by (rule unat_add_nat) (use v20 in \<open>simp add: u\<close>)
  moreover have "va + 4096 - 1 = va + word_of_nat 4095" by simp
  ultimately have "unat (va + 4096 - 1) = 4096 * vpn va + 4095" by (simp only: u)
  then have "vpn (va + 4096 - 1) = vpn va" by (simp add: vpn_def [of "4095 + va"])
  then have run: "mappages pd va 4096 pa perm s = map_loop pd perm 1 va pa s"
    using mappages_loop [of va 4096] by (simp add: va)
  from v20 have room: "unat va + 4096 * 1 \<le> 2 ^ 32" unfolding u by simp
  have one: "(vpn va \<le> vpn vb \<and> vpn vb < vpn va + 1) \<longleftrightarrow> vpn vb = vpn va" for vb by auto
  have "\<forall>vb. vpn va \<le> vpn vb \<and> vpn vb < vpn va + 1 \<longrightarrow> ptev s pd vb AND PTE_P = 0"
  proof (intro allI impI)
    fix vb assume "vpn va \<le> vpn vb \<and> vpn vb < vpn va + 1"
    then have "vpn vb = vpn va" by auto
    then have "pte s pd vb = pte s pd va" using same_page [of vb va] by (simp add: pte_def walk_lookup_tab)
    then show "ptev s pd vb AND PTE_P = 0" using assms(4) by (simp add: ptev_def)
  qed
  from map_loop_spec [OF assms(1) _ assms(2) room this, of perm pa] assms(3)
  obtain t m where "map_loop pd perm 1 va pa s = Ok (0, t)" "m \<le> 1" "space_ok t pd (drop m xs)" "alloc_frame s t"
    "\<forall>vb. ptev t pd vb = (if vpn vb = vpn va then (pa + word_of_nat (4096 * (vpn vb - vpn va))) OR perm OR PTE_P else ptev s pd vb)"
    "pt_pages t pd \<subseteq> pt_pages s pd \<union> set xs" "outside s pd xs t" unfolding one by auto
  then show ?thesis unfolding run by (intro exI [of _ t] exI [of _ m]) auto
qed

end
