(* ===== verification/ForkMem.thy ===== *)
theory ForkMem imports Vmap begin

text \<open>
  The memory of a forked process: the loop of \<open>copyuvm\<close> over the pages of the parent, what the child sees of
  each of them, and what becomes of a page that is in the swap area.
\<close>

section \<open>Two page tables\<close>

definition two_ok :: "'a mem_state_scheme \<Rightarrow> u32 \<Rightarrow> u32 \<Rightarrow> u32 list \<Rightarrow> bool" where
  "two_ok s pd d xs \<longleftrightarrow> space_ok s pd xs \<and> space_ok s d xs \<and> pt_pages s pd \<inter> pt_pages s d = {}"

lemma two_okD:
  assumes "two_ok s pd d xs"
  shows "space_ok s pd xs" "space_ok s d xs" "allocator_ok s xs" "q \<in> pt_pages s pd \<Longrightarrow> q \<notin> pt_pages s d"
    "q \<in> pt_pages s d \<Longrightarrow> q \<notin> set xs"
  using assms by (auto simp: two_ok_def space_ok_def)

text \<open>A change of the child's table leaves the parent's alone.\<close>

lemma two_ok_child:
  assumes two: "two_ok s pd d xs" and sp: "space_ok t d ys" and sub: "set ys \<subseteq> set xs" and fr: "alloc_frame s t"
    and pt: "pt_pages t d \<subseteq> pt_pages s d \<union> set xs" and out: "outside s d xs t"
  shows "two_ok t pd d ys" "pte t pd vb = pte s pd vb" "walk_lookup pd vb t = walk_lookup pd vb s"
proof -
  note T = two_okD [OF two]
  have pg: "\<forall>p\<in>pt_pages s pd. page p t = page p s"
  proof
    fix p assume p: "p \<in> pt_pages s pd"
    have "p mod 4096 = 0" by (rule pt_pages_aligned [OF space_okD(2) [OF T(1)] p])
    then show "page p t = page p s" using T(4) [OF p] space_okD(7) [OF T(1) p] by (rule outsideD [OF out])
  qed
  have dis: "set ys \<inter> pt_pages s pd = {}" using sub space_okD(7) [OF T(1)] by blast
  note F = space_ok_frame [OF T(1) space_okD(1) [OF sp] alloc_frame_sel(1) [OF fr] pg dis]
  show "pte t pd vb = pte s pd vb" "walk_lookup pd vb t = walk_lookup pd vb s" by (rule F)+
  have "pt_pages t pd \<inter> pt_pages t d = {}" using F(4) pt T(4) space_okD(7) [OF T(1)] by blast
  then show "two_ok t pd d ys" using F(1) sp by (simp add: two_ok_def)
qed

text \<open>A free page taken from the allocator and filled.\<close>

lemma two_ok_alloc:
  assumes two: "two_ok s pd d xs" and room: "nat (T_h s) < length xs" and len: "length bs = PGSIZE"
  shows "\<exists>h s1. kalloc s = Ok (h, s1) \<and> h \<noteq> 0 \<and> h \<in> set xs \<and> h \<notin> set (tl xs) \<and> page_ok s h \<and>
    (\<forall>w. page w s1 = page w s) \<and> two_ok (set_page h bs s1) pd d (tl xs) \<and> alloc_frame s (set_page h bs s1) \<and>
    page h (set_page h bs s1) = bs \<and> outside s d xs (set_page h bs s1) \<and> pt_pages (set_page h bs s1) d = pt_pages s d \<and>
    (\<forall>vb. pte (set_page h bs s1) pd vb = pte s pd vb \<and> pte (set_page h bs s1) d vb = pte s d vb)"
proof -
  note T = two_okD [OF two]
  obtain h hs where xs: "xs = h # hs" using room by (cases xs) auto
  from pages.get [OF T(3) room] obtain s1 where 1: "kalloc s = Ok (h, s1)" "allocator_ok s1 hs"
    "alloc_frame s s1" "\<forall>w. page w s1 = page w s" by (auto simp: xs)
  have h: "page_ok s h" "h \<notin> set hs" "h \<notin> pt_pages s pd" "h \<notin> pt_pages s d"
    using T(3,5) space_okD(7) [OF T(1)] pages.free_valid [OF T(3)] pages.free_distinct [OF T(3)] by (auto simp: xs)
  have sub: "set hs \<subseteq> set xs" by (auto simp: xs)
  note A = space_ok_alloc [OF T(1) 1(2) sub 1(3,4)] and B = space_ok_alloc [OF T(2) 1(2) sub 1(3,4)]
  let ?t = "set_page h bs s1"
  have pm: "pmem ?t = (pmem s1)(frame_of h := bs)" by (simp add: set_page_def)
  have h1: "page_ok s1 h" using h(1) page_ok_cong [OF alloc_frame_sel(1) [OF 1(3)]] by simp
  have hn: "h \<notin> pt_pages s1 pd" "h \<notin> pt_pages s1 d" using h(3,4) A(3) B(3) by simp_all
  note A2 = space_ok_fill [OF A(1) set_page_swap_frame pm h1 h(2) hn(1) len]
    and B2 = space_ok_fill [OF B(1) set_page_swap_frame pm h1 h(2) hn(2) len]
  have "two_ok ?t pd d hs" using A2(1,3) B2(1,3) A(3) B(3) two by (simp add: two_ok_def)
  moreover have "alloc_frame s ?t" using 1(3) alloc_frame_set_page alloc_frame_trans by blast
  moreover have "outside s d xs ?t"
    unfolding outside_def
  proof (intro allI impI)
    fix w assume w: "w mod 4096 = 0 \<and> w \<notin> pt_pages s d \<and> w \<notin> set xs"
    have "w \<noteq> h" using w by (auto simp: xs)
    then have "frame_of w \<noteq> frame_of h" using frame_of_inj [of w h] w page_ok_aligned [OF h(1)] by blast
    then show "page w ?t = page w s" using 1(4) by (simp add: page_set_page)
  qed
  moreover have "pt_pages ?t d = pt_pages s d" using B2(3) B(3) by simp
  moreover have "\<forall>vb. pte ?t pd vb = pte s pd vb \<and> pte ?t d vb = pte s d vb" using A2(2) B2(2) A(2) B(2) by simp
  moreover have "page h ?t = bs" by (simp add: page_set_page)
  ultimately show ?thesis using 1(1,4) h(1,2) page_ok_nonzero [OF h(1)] by (intro exI [of _ h] exI [of _ s1]) (simp add: xs)
qed

section \<open>The loop of \<open>copyuvm\<close>\<close>

text \<open>
  What the child \<open>d\<close> sees of page \<open>i\<close> in \<open>t\<close>, when the parent's entry was \<open>e\<close> in \<open>s\<close>: a page of its own with
  the same contents and flags, or, for a page in the swap area, the number of the slot taken for a page
  frame that is present.
\<close>

definition inherits :: "'a mem_state_scheme \<Rightarrow> u32 \<Rightarrow> u32 list \<Rightarrow> 'a mem_state_scheme \<Rightarrow> u32 \<Rightarrow> u32 \<Rightarrow> bool" where
  "inherits s d xs t i e \<longleftrightarrow>
     (if e AND PTE_P \<noteq> 0
      then \<exists>h. h \<in> set xs \<and> ptev t d i = V2P h OR PTE_FLAGS e OR PTE_P \<and> page h t = page (P2V (PTE_ADDR e)) s
      else ptev t d i = push_bit 12 (drop_bit 12 e) OR PTE_FLAGS e OR PTE_P)"

definition can_copy :: "'a mem_state_scheme \<Rightarrow> u32 \<Rightarrow> u32 \<Rightarrow> u32 list \<Rightarrow> u32 \<Rightarrow> bool" where
  "can_copy s pd d xs i \<longleftrightarrow> i mod 4096 = 0 \<and> ptev s d i AND PTE_P = 0 \<and>
     (\<exists>e. pte s pd i = Some e \<and> (e AND PTE_P \<noteq> 0 \<or> e AND PTE_S \<noteq> 0) \<and>
        (e AND PTE_P \<noteq> 0 \<longrightarrow> P2V (PTE_ADDR e) \<notin> set xs \<and> P2V (PTE_ADDR e) \<notin> pt_pages s d))"

lemma copy_one:
  assumes two: "two_ok s pd d xs" and room: "nat (T_h s) + 2 \<le> length xs" and i: "can_copy s pd d xs i"
    and e: "pte s pd i = Some e"
  shows "\<exists>t ys. copy_loop pd d (i # is) s = copy_loop pd d is t \<and> two_ok t pd d ys \<and> set ys \<subseteq> set xs \<and>
    length xs \<le> length ys + 2 \<and> alloc_frame s t \<and> pt_pages t d \<subseteq> pt_pages s d \<union> set xs \<and> outside s d xs t \<and>
    inherits s d (filter (\<lambda>h. h \<notin> set ys \<and> h \<notin> pt_pages t d) xs) t i e \<and>
    (\<forall>vb. vpn vb \<noteq> vpn i \<longrightarrow> ptev t d vb = ptev s d vb) \<and> (\<forall>vb. pte t pd vb = pte s pd vb)"
proof -
  note T = two_okD [OF two]
  obtain a where a: "walk_lookup pd i s = Some a" "ld32 a s = e" using e by (auto simp: pte_def)
  have i': "i mod 4096 = 0" "ptev s d i AND PTE_P = 0" using i by (simp_all only: can_copy_def)
  show ?thesis
  proof (cases "e AND PTE_P = 0")
    case True
    then have S: "e AND PTE_S \<noteq> 0" using i e by (auto simp: can_copy_def)
    have "nat (T_h s) < length xs" using room by simp
    from map_one [OF T(2) i'(1) this i'(2), of "push_bit 12 (drop_bit 12 e)" "PTE_FLAGS e"] obtain t m where
      t: "mappages d i 4096 (push_bit 12 (drop_bit 12 e)) (PTE_FLAGS e) s = Ok (0, t)" "m \<le> 1" "space_ok t d (drop m xs)"
        "alloc_frame s t" "\<forall>vb. ptev t d vb = (if vpn vb = vpn i then push_bit 12 (drop_bit 12 e) OR PTE_FLAGS e OR PTE_P else ptev s d vb)"
        "pt_pages t d \<subseteq> pt_pages s d \<union> set xs" "outside s d xs t" by blast
    note C = two_ok_child [OF two t(3) set_drop_subset t(4,6,7)]
    have "copy_loop pd d (i # is) s = copy_loop pd d is t" using True S a t(1) by simp
    moreover have "set (drop m xs) \<subseteq> set xs" by (rule set_drop_subset)
    moreover have "length xs \<le> length (drop m xs) + 2" using t(2) by simp
    ultimately show ?thesis using C(1,2) t(4-7) True
      by (intro exI [of _ t] exI [of _ "drop m xs"]) (simp add: inherits_def del: copy_loop.simps length_drop)
  next
    case False
    let ?q = "P2V (PTE_ADDR e)"
    have q: "?q \<notin> set xs" "?q \<notin> pt_pages s d" using i e False by (auto simp: can_copy_def)
    have room1: "nat (T_h s) < length xs" using room by simp
    have "length (page ?q s) = PGSIZE" using space_okD(4) [OF T(1)] by simp
    from two_ok_alloc [OF two room1 this] obtain h s1 where
      1: "kalloc s = Ok (h, s1)" "h \<noteq> 0" "h \<in> set xs" "h \<notin> set (tl xs)" "page_ok s h" "\<forall>w. page w s1 = page w s"
      and 2: "two_ok (set_page h (page ?q s) s1) pd d (tl xs)" "alloc_frame s (set_page h (page ?q s) s1)"
        "page h (set_page h (page ?q s) s1) = page ?q s" "outside s d xs (set_page h (page ?q s) s1)"
        "pt_pages (set_page h (page ?q s) s1) d = pt_pages s d"
        "\<forall>vb. pte (set_page h (page ?q s) s1) pd vb = pte s pd vb \<and> pte (set_page h (page ?q s) s1) d vb = pte s d vb"
      by blast
    let ?s2 = "set_page h (page ?q s) s1"
    have pv: "ptev ?s2 d vb = ptev s d vb" for vb using 2(6) by (simp add: ptev_def)
    have room2: "nat (T_h ?s2) < length (tl xs)" using room alloc_frame_sel(2) [OF 2(2)] by simp
    have np: "ptev ?s2 d i AND PTE_P = 0" using i'(2) pv by simp
    from map_one [OF two_okD(2) [OF 2(1)] i'(1) room2 np, of "V2P h" "PTE_FLAGS e"] obtain t m where
      t: "mappages d i 4096 (V2P h) (PTE_FLAGS e) ?s2 = Ok (0, t)" "m \<le> 1" "space_ok t d (drop m (tl xs))"
        "alloc_frame ?s2 t" "\<forall>vb. ptev t d vb = (if vpn vb = vpn i then V2P h OR PTE_FLAGS e OR PTE_P else ptev ?s2 d vb)"
        "pt_pages t d \<subseteq> pt_pages ?s2 d \<union> set (tl xs)" "outside ?s2 d (tl xs) t" by blast
    note C = two_ok_child [OF 2(1) t(3) set_drop_subset t(4,6,7)]
    have sub: "set (tl xs) \<subseteq> set xs" by (cases xs) auto
    have run: "copy_loop pd d (i # is) s = copy_loop pd d is t" using False a 1(1,2,6) t(1) by (simp add: Let_def)
    have hpt: "h \<notin> pt_pages ?s2 d" using 1(3) T(5) 2(5) by blast
    have "page h t = page h ?s2" by (rule outsideD [OF t(7) page_ok_aligned [OF 1(5)] hpt 1(4)])
    then have ph: "page h t = page ?q s" using 2(3) by simp
    have hd: "h \<notin> set (drop m (tl xs))" using 1(4) set_drop_subset [of m "tl xs"] by blast
    have ht: "h \<notin> pt_pages t d" using t(6) hpt 1(4) by blast
    have out: "outside s d xs t" using outside_trans [OF 2(4) t(7) _ sub] 2(5) by simp
    have pts: "pt_pages t d \<subseteq> pt_pages s d \<union> set xs" using t(6) 2(5) sub by blast
    have ysub: "set (drop m (tl xs)) \<subseteq> set xs" using sub set_drop_subset [of m "tl xs"] by blast
    have fr: "alloc_frame s t" using 2(2) t(4) by (rule alloc_frame_trans)
    have pdt: "pte t pd vb = pte s pd vb" for vb using C(2) 2(6) by simp
    have dv: "vpn vb \<noteq> vpn i \<longrightarrow> ptev t d vb = ptev s d vb" for vb using t(5) pv by simp
    have "inherits s d (filter (\<lambda>h. h \<notin> set (drop m (tl xs)) \<and> h \<notin> pt_pages t d) xs) t i e"
      unfolding inherits_def using False t(5) ph hd ht 1(3) by auto
    moreover have "length xs \<le> length (drop m (tl xs)) + 2" using t(2) by simp
    ultimately show ?thesis using run C(1) ysub out pts fr dv pdt
      by (intro exI [of _ t] exI [of _ "drop m (tl xs)"]) (simp del: copy_loop.simps length_drop)
  qed
qed


lemma copy_all:
  assumes "two_ok s pd d xs" "nat (T_h s) + 2 * length is \<le> length xs" "distinct (map vpn is)"
    and "\<forall>i\<in>set is. can_copy s pd d xs i"
  shows "\<exists>t ys. copy_loop pd d is s = Ok (True, t) \<and> two_ok t pd d ys \<and> set ys \<subseteq> set xs \<and> alloc_frame s t \<and>
    pt_pages t d \<subseteq> pt_pages s d \<union> set xs \<and> outside s d xs t \<and> (\<forall>vb. pte t pd vb = pte s pd vb) \<and>
    (\<forall>i\<in>set is. inherits s d xs t i (the (pte s pd i))) \<and>
    (\<forall>vb. vpn vb \<notin> vpn ` set is \<longrightarrow> ptev t d vb = ptev s d vb)"
  using assms
proof (induction "is" arbitrary: s xs)
  case Nil
  then show ?case by (intro exI [of _ s] exI [of _ xs]) (simp add: outside_def)
next
  case (Cons i "is")
  note two = Cons.prems(1)
  have i: "can_copy s pd d xs i" using Cons.prems(4) by simp
  then obtain e where e: "pte s pd i = Some e" by (auto simp: can_copy_def)
  have "nat (T_h s) + 2 \<le> length xs" using Cons.prems(2) by simp
  from copy_one [OF two this i e, of "is"] obtain t1 ys where
    1: "copy_loop pd d (i # is) s = copy_loop pd d is t1" "two_ok t1 pd d ys" "set ys \<subseteq> set xs"
      "length xs \<le> length ys + 2" "alloc_frame s t1" "pt_pages t1 d \<subseteq> pt_pages s d \<union> set xs" "outside s d xs t1"
      "inherits s d (filter (\<lambda>h. h \<notin> set ys \<and> h \<notin> pt_pages t1 d) xs) t1 i e"
      "\<forall>vb. vpn vb \<noteq> vpn i \<longrightarrow> ptev t1 d vb = ptev s d vb" "\<forall>vb. pte t1 pd vb = pte s pd vb" by blast
  have room: "nat (T_h t1) + 2 * length is \<le> length ys"
    using Cons.prems(2) 1(4) alloc_frame_sel(2) [OF 1(5)] by simp
  have ne: "vpn j \<noteq> vpn i" if "j \<in> set is" for j using Cons.prems(3) that by (auto simp: image_iff)
  have can: "\<forall>j\<in>set is. can_copy t1 pd d ys j"
  proof
    fix j assume j: "j \<in> set is"
    then have c: "can_copy s pd d xs j" using Cons.prems(4) by simp
    then obtain f where f: "j mod 4096 = 0 \<and> ptev s d j AND PTE_P = 0" "pte s pd j = Some f"
      "f AND PTE_P \<noteq> 0 \<or> f AND PTE_S \<noteq> 0"
      "f AND PTE_P \<noteq> 0 \<longrightarrow> P2V (PTE_ADDR f) \<notin> set xs \<and> P2V (PTE_ADDR f) \<notin> pt_pages s d"
      by (auto simp: can_copy_def)
    then have "f AND PTE_P \<noteq> 0 \<longrightarrow> P2V (PTE_ADDR f) \<notin> set ys \<and> P2V (PTE_ADDR f) \<notin> pt_pages t1 d"
      using 1(3,6) by blast
    then show "can_copy t1 pd d ys j" unfolding can_copy_def using f(1-3) 1(9,10) ne [OF j] by simp
  qed
  have dist: "distinct (map vpn is)" using Cons.prems(3) by simp
  from Cons.IH [OF 1(2) room dist can] obtain t zs where
    2: "copy_loop pd d is t1 = Ok (True, t)" "two_ok t pd d zs" "set zs \<subseteq> set ys" "alloc_frame t1 t"
      "pt_pages t d \<subseteq> pt_pages t1 d \<union> set ys" "outside t1 d ys t" "\<forall>vb. pte t pd vb = pte t1 pd vb"
      "\<forall>j\<in>set is. inherits t1 d ys t j (the (pte t1 pd j))"
      "\<forall>vb. vpn vb \<notin> vpn ` set is \<longrightarrow> ptev t d vb = ptev t1 d vb" by blast
  have out: "outside s d xs t" by (rule outside_trans [OF 1(7) 2(6) 1(6,3)])
  have "vpn i \<notin> vpn ` set is" using Cons.prems(3) by simp
  then have pi: "ptev t d i = ptev t1 d i" using 2(9) by blast
  have "inherits s d xs t i e"
  proof (cases "e AND PTE_P = 0")
    case False
    with 1(8) obtain h where h: "h \<in> set xs" "h \<notin> set ys" "h \<notin> pt_pages t1 d"
      "ptev t1 d i = V2P h OR PTE_FLAGS e OR PTE_P" "page h t1 = page (P2V (PTE_ADDR e)) s" by (auto simp: inherits_def)
    have "page h t = page h t1"
      by (rule outsideD [OF 2(6) _ h(3,2)]) (rule page_ok_aligned, rule pages.free_valid [OF two_okD(3) [OF two] h(1)])
    then show ?thesis unfolding inherits_def using False h pi by auto
  qed (use 1(8) pi in \<open>simp add: inherits_def\<close>)
  with e have first: "inherits s d xs t i (the (pte s pd i))" by simp
  have rest: "inherits s d xs t j (the (pte s pd j))" if j: "j \<in> set is" for j
  proof -
    have c: "can_copy s pd d xs j" using Cons.prems(4) j by simp
    then obtain f where f: "pte s pd j = Some f"
      "f AND PTE_P \<noteq> 0 \<longrightarrow> P2V (PTE_ADDR f) \<notin> set xs \<and> P2V (PTE_ADDR f) \<notin> pt_pages s d" unfolding can_copy_def by blast
    have "page (P2V (PTE_ADDR f)) t1 = page (P2V (PTE_ADDR f)) s" if "f AND PTE_P \<noteq> 0"
      using f(2) that by (intro outsideD [OF 1(7)]) (simp_all add: PTE_ADDR_aligned)
    moreover have "inherits t1 d ys t j f" using 2(8) [rule_format, OF j] 1(10) f(1) by simp
    ultimately show ?thesis using f(1) 1(3) unfolding inherits_def by (auto split: if_splits)
  qed
  show ?case
  proof (intro exI [of _ t] exI [of _ zs] conjI)
    show "copy_loop pd d (i # is) s = Ok (True, t)" using 1(1) 2(1) by (simp del: copy_loop.simps)
    show "two_ok t pd d zs" "outside s d xs t" by (rule 2(2) out)+
    show "set zs \<subseteq> set xs" using 2(3) 1(3) by (rule subset_trans)
    show "alloc_frame s t" using 1(5) 2(4) by (rule alloc_frame_trans)
    show "pt_pages t d \<subseteq> pt_pages s d \<union> set xs" using 2(5) 1(3,6) by blast
    show "\<forall>vb. pte t pd vb = pte s pd vb" using 2(7) 1(10) by simp
    show "\<forall>j\<in>set (i # is). inherits s d xs t j (the (pte s pd j))" using first rest by simp
    show "\<forall>vb. vpn vb \<notin> vpn ` set (i # is) \<longrightarrow> ptev t d vb = ptev s d vb" using 2(9) 1(9) by simp
  qed
qed

section \<open>What the child sees\<close>

lemma page_addrs_props:
  assumes "unat sz \<le> 0x80000000"
  shows "distinct (map vpn (page_addrs sz))" and "i \<in> set (page_addrs sz) \<Longrightarrow> i mod 4096 = 0"
    and "length (page_addrs sz) = (unat sz + 4095) div 4096" and "i \<in> set (page_addrs sz) \<Longrightarrow> unat i < unat sz"
proof -
  let ?n = "(unat sz + 4095) div 4096"
  have un: "unat (word_of_nat (4096 * k) :: u32) = 4096 * k" if "k < ?n" for k
  proof -
    have "4096 * k < 2 ^ 32" using that assms by simp
    then show ?thesis unfolding unat_of_nat by simp
  qed
  have "map vpn (page_addrs sz) = [0..<?n]"
    unfolding page_addrs_def map_map by (rule map_idI) (use un in \<open>simp add: vpn_def\<close>)
  then show "distinct (map vpn (page_addrs sz))" by simp
  show "length (page_addrs sz) = ?n" by (simp add: page_addrs_def)
  assume "i \<in> set (page_addrs sz)"
  then obtain k where k: "k < ?n" "i = word_of_nat (4096 * k)" by (auto simp: page_addrs_def)
  show "i mod 4096 = 0" unfolding mod_4096_unat k(2) un [OF k(1)] by simp
  show "unat i < unat sz" unfolding k(2) un [OF k(1)] using k(1) by linarith
qed

text \<open>
  C20. The loop of \<open>copyuvm\<close> gives the child its own copy of every page the parent has in memory, with the
  parent's flags, while the parent keeps its mappings and its memory.
\<close>

theorem copyuvm_copies_memory:
  assumes two: "two_ok s pd d xs" and sz: "unat sz \<le> 0x80000000"
    and room: "nat (T_h s) + 2 * ((unat sz + 4095) div 4096) \<le> length xs"
    and can: "\<forall>i\<in>set (page_addrs sz). can_copy s pd d xs i"
  shows "\<exists>t. copy_loop pd d (page_addrs sz) s = Ok (True, t) \<and>
    (\<forall>i\<in>set (page_addrs sz). \<forall>e. pte s pd i = Some e \<and> e AND PTE_P \<noteq> 0 \<longrightarrow> pte t pd i = Some e \<and>
       page (P2V (PTE_ADDR e)) t = page (P2V (PTE_ADDR e)) s \<and>
       (\<exists>h. h \<in> set xs \<and> ptev t d i = V2P h OR PTE_FLAGS e OR PTE_P \<and> page h t = page (P2V (PTE_ADDR e)) s))"
proof -
  note P = page_addrs_props [OF sz]
  have "nat (T_h s) + 2 * length (page_addrs sz) \<le> length xs" using room by (simp add: P(3))
  from copy_all [OF two this P(1) can] obtain t where t: "copy_loop pd d (page_addrs sz) s = Ok (True, t)"
    "outside s d xs t" "\<forall>vb. pte t pd vb = pte s pd vb"
    "\<forall>i\<in>set (page_addrs sz). inherits s d xs t i (the (pte s pd i))" by blast
  have "page (P2V (PTE_ADDR e)) t = page (P2V (PTE_ADDR e)) s"
    if "i \<in> set (page_addrs sz)" "pte s pd i = Some e" "e AND PTE_P \<noteq> 0" for i e
    using can that by (intro outsideD [OF t(2)]) (auto simp: can_copy_def PTE_ADDR_aligned)
  with t show ?thesis by (intro exI [of _ t]) (auto simp: inherits_def)
qed

lemma swapped_entry:
  assumes i: "i < NUM_SLOTS"
  shows "push_bit 12 (drop_bit 12 (out_entry i f)) = push_bit 12 (word_of_nat i)"
    and "PTE_ADDR (push_bit 12 (word_of_nat i) OR PTE_FLAGS e OR PTE_P) = push_bit 12 (word_of_nat i)"
proof -
  have "drop_bit 12 (out_entry i f) = word_of_nat i"
    using slot_out_entry [OF i, of f] i by (simp add: word_unat_eq_iff unat_of_nat)
  then show "push_bit 12 (drop_bit 12 (out_entry i f)) = push_bit 12 (word_of_nat i)" by simp
  show "PTE_ADDR (push_bit 12 (word_of_nat i) OR PTE_FLAGS e OR PTE_P) = push_bit 12 (word_of_nat i)"
    unfolding PTE_ADDR_def PTE_FLAGS_def by (rule bit_word_eqI, unfold entry_bits) (auto intro: leI)
qed

lemma slot_not_page:
  assumes "i < 256" "0x80100000 \<le> kend s"
  shows "\<not> page_ok s (P2V (push_bit 12 (word_of_nat i)))"
proof -
  have "unat (push_bit 12 (word_of_nat i :: u32)) = 4096 * i"
    using assms(1) by (simp add: push_bit_eq_mult unat_word_ariths unat_of_nat)
  moreover have "P2V x = KERNBASE + x" for x by (simp add: P2V_def add.commute)
  ultimately have "unat (P2V (push_bit 12 (word_of_nat i))) = 0x80000000 + 4096 * i"
    using assms(1) by (simp add: unat_word_ariths)
  moreover have "0x80100000 \<le> unat (kend s)" using assms(2) by (simp add: word_le_nat_alt)
  ultimately show ?thesis using assms(1) by (auto simp: page_ok_def word_le_nat_alt)
qed



end
