(* ===== verification/Paging.thy ===== *)
theory Paging imports ForkMem Procs begin

text \<open>
  The properties of the memory system and a small machine to see them on: a kernel of 1 MB, a dozen pages
  given to the allocator, and two page tables.
\<close>

section \<open>A small machine\<close>

definition raw_mem :: mem_state where
  "raw_mem = \<lparr>procs = (\<lambda>_. unused_proc\<lparr>p_pgdir := 0x80100000\<rparr>), cur = 0, memdisk = (\<lambda>_. replicate BSIZE 0),
     disksize = 10000, disk_trace = [], bufs = (\<lambda>_. zero_buf), bnext = id, bprev = id, log_start = 6402, log_size = 30,
     log_outstanding = 0, log_committing = False, log_dev = 1, lh_n = 0, lh_block = (\<lambda>_. 0),
     sb = \<lparr>sb_size = 10000, sb_nblocks = 3540, sb_ninodes = 200, sb_nlog = 30, sb_logstart = 6402,
       sb_inodestart = 6432, sb_bmapstart = 6458\<rparr>,
     inodes = (\<lambda>_. zero_inode), cons = blank_console, ftable = (\<lambda>_. zero_ofile), pipes = (\<lambda>_. zero_pipe),
     pmem = (\<lambda>_. replicate PGSIZE 0), kend = 0x80100000, kdata = 0x80108000, cr3 = 0, kpgdir = 0,
     use_lock = False, kmem_locked = False, freelist = 0, free_pages_count = 0, T_h = 0, N_pg = 4,
     swap_slots = (\<lambda>_. \<lparr>page_perm = 0, is_free = 1\<rparr>)\<rparr>"

definition zero_mem :: mem_state where
  "zero_mem = binit raw_mem"

text \<open>Page \<open>k\<close> behind the kernel.\<close>

definition pg :: "nat \<Rightarrow> u32" where
  "pg k = 0x80100000 + word_of_nat (4096 * k)"

definition demo_pages :: "u32 list" where
  "demo_pages = rev (map pg [3..<15])"

definition demo :: mem_state where
  "demo = (case rfold kfree (map pg [3..<15]) zero_mem of Ok t \<Rightarrow> t | _ \<Rightarrow> zero_mem)"

lemma unat_pg:
  assumes "k < 100"
  shows "unat (pg k) = 0x80100000 + 4096 * k"
proof -
  have e: "unat (0x80100000 :: u32) = 0x80100000" by simp
  have "unat (0x80100000 :: u32) + 4096 * k < 2 ^ 32" unfolding e using assms by simp
  from unat_add_nat [OF this] show ?thesis unfolding pg_def e .
qed

lemma pg_eq [simp]:
  assumes "j < 100" "k < 100"
  shows "pg j = pg k \<longleftrightarrow> j = k"
proof
  assume "pg j = pg k"
  then have "0x80100000 + 4096 * j = 0x80100000 + 4096 * k" using unat_pg [OF assms(1)] unat_pg [OF assms(2)] by metis
  then show "j = k" by linarith
qed simp

lemma zero_mem_sel [simp]:
  "pmem zero_mem = (\<lambda>_. replicate PGSIZE 0)" "kend zero_mem = 0x80100000" "freelist zero_mem = 0" "free_pages_count zero_mem = 0"
  "T_h zero_mem = 0" "kmem_locked zero_mem = False" "swap_slots zero_mem = (\<lambda>_. \<lparr>page_perm = 0, is_free = 1\<rparr>)"
  "p_pgdir (procs zero_mem i) = 0x80100000" "disksize zero_mem = 10000" "N_pg zero_mem = 4"
  by (simp_all add: zero_mem_def raw_mem_def binit_def split: prod.splits)

lemma pg_valid: "k < 100 \<Longrightarrow> page_ok zero_mem (pg k)"
  by (rule page_okI) (simp_all add: unat_pg)

lemma pg_aligned [simp]: "k < 100 \<Longrightarrow> pg k mod 4096 = 0"
  using pg_valid by (rule page_ok_aligned)

lemma demo_pages_facts [simp]: "length demo_pages = 12" "j < 100 \<Longrightarrow> pg j \<in> set demo_pages \<longleftrightarrow> 3 \<le> j \<and> j < 15"
proof -
  show "length demo_pages = 12" by (simp add: demo_pages_def)
  have "set demo_pages = pg ` {3..<15}" unfolding demo_pages_def by (simp only: set_rev set_map set_upt)
  moreover assume "j < 100"
  moreover from this have "pg j = pg k \<longleftrightarrow> j = k" if "k \<in> {3..<15}" for k using that pg_eq [of j k] by simp
  ultimately show "pg j \<in> set demo_pages \<longleftrightarrow> 3 \<le> j \<and> j < 15" by (auto simp: image_iff)
qed

lemma demo_facts:
  "allocator_ok demo demo_pages" "alloc_frame zero_mem demo"
  "k < 3 \<Longrightarrow> page (pg k) demo = replicate PGSIZE 0"
proof -
  have "allocator_ok zero_mem []" by (simp add: allocator_ok_def free_list_def mem_ok_def)
  moreover have "\<forall>v\<in>set (map pg [3..<15]). page_ok zero_mem v" using pg_valid by auto
  moreover have "distinct (map pg [3..<15])" by (auto simp: distinct_map inj_on_def)
  ultimately obtain t where t: "rfold kfree (map pg [3..<15]) zero_mem = Ok t" "allocator_ok t demo_pages"
    "alloc_frame zero_mem t"
    "\<forall>w. page_ok zero_mem w \<and> w \<notin> set (map pg [3..<15]) \<longrightarrow> page w t = page w zero_mem"
    using pages.put_all [of zero_mem "[]" "map pg [3..<15]"] by (auto simp: demo_pages_def)
  have d: "demo = t" by (simp only: demo_def t(1) res.case)
  show "allocator_ok demo demo_pages" "alloc_frame zero_mem demo" using t d by simp_all
  show "page (pg k) demo = replicate PGSIZE 0" if "k < 3"
  proof -
    have "pg k \<notin> set (map pg [3..<15])" using that by auto
    then have "page (pg k) t = page (pg k) zero_mem" using t(4) pg_valid [of k] that by simp
    then show ?thesis by (simp add: d page_def)
  qed
qed

lemma demo_sel: "T_h demo = 0" "kend demo = 0x80100000" "swap_slots demo = (\<lambda>_. \<lparr>page_perm = 0, is_free = 1\<rparr>)"
  "p_pgdir (procs demo i) = 0x80100000" "swap_disk demo"
proof -
  note f = alloc_frame_sel [OF demo_facts(2)]
  show "T_h demo = 0" "kend demo = 0x80100000" "swap_slots demo = (\<lambda>_. \<lparr>page_perm = 0, is_free = 1\<rparr>)"
    "p_pgdir (procs demo i) = 0x80100000" using f by simp_all
  have "swap_disk zero_mem"
  proof -
    have "bio_inv (binit raw_mem)" "cabs (binit raw_mem) = \<lparr>a_disk = memdisk raw_mem, a_view = memdisk raw_mem, a_pins = {},
        a_trace = disk_trace raw_mem, a_held = Map.empty\<rparr>" using binit_inv [of raw_mem] by (simp_all add: raw_mem_def)
    then show ?thesis unfolding swap_disk_def by (simp flip: zero_mem_def del: cabs_sel)
  qed
  then show "swap_disk demo" using swap_disk_alloc_frame [OF demo_facts(2)] by simp
qed

lemma demo_space:
  assumes "k < 3"
  shows "space_ok demo (pg k) demo_pages" "pt_pages demo (pg k) = {pg k}" "ptev demo (pg k) va = 0"
proof -
  have k: "pg k mod 4096 = 0" "page (pg k) demo = replicate PGSIZE 0" using assms demo_facts(3) by simp_all
  have none: "tab demo (pg k) i = None" if "unat i < 1024" for i
    using ld32_zero_page [OF k(2,1) that] by (simp add: tab_def)
  show pp: "pt_pages demo (pg k) = {pg k}" using none by (auto simp: pt_pages_def)
  have "mem_ok demo" using demo_facts(1) by (simp add: allocator_ok_def free_list_def)
  then have "pgtab_ok demo (pg k)" using k(1) none by (auto simp: pgtab_ok_def)
  moreover have "page_ok demo (pg k)" using pg_valid [of k] assms page_ok_cong [OF alloc_frame_sel(1) [OF demo_facts(2)]] by simp
  moreover have "pg k \<notin> set demo_pages" using assms by auto
  ultimately show "space_ok demo (pg k) demo_pages" using demo_facts(1) pp by (simp add: space_ok_def)
  show "ptev demo (pg k) va = 0" using none [OF PDX_less] by (simp add: ptev_def pte_def walk_lookup_tab)
qed

lemma demo_two: "two_ok demo (pg 0) (pg 1) demo_pages" "two_ok demo (pg 1) (pg 0) demo_pages"
  using demo_space [of 0] demo_space [of 1] by (simp_all add: two_ok_def)

theorem mappages_correct_witness:
  "\<exists>t. mappages (pg 0) 100 8192 0x104000 (PTE_W OR PTE_U) demo = Ok (0, t) \<and> ptev t (pg 0) 4096 = 0x105000 OR 6 OR 1 \<and>
     ptev t (pg 0) 12288 = 0"
proof -
  have v: "vpn 100 = 0" "vpn (100 + 8192 - 1) = 2" "vpn 4096 = 1" "vpn 12288 = 3" by (simp_all add: vpn_def)
  have room: "nat (T_h demo) + (vpn (100 + 8192 - 1) - vpn 100 + 1) \<le> length demo_pages"
    unfolding v by (simp add: demo_sel)
  have "vpn 100 \<le> vpn (100 + 8192 - 1)" unfolding v by simp
  from mappages_correct [OF demo_space(1) this room, of 0 "0x104000" 6] obtain t where
    "mappages (pg 0) 100 8192 0x104000 6 demo = Ok (0, t)"
    "\<forall>vb. ptev t (pg 0) vb = (if vpn 100 \<le> vpn vb \<and> vpn vb \<le> vpn (100 + 8192 - 1)
       then (0x104000 + word_of_nat (4096 * (vpn vb - vpn 100))) OR 6 OR PTE_P else ptev demo (pg 0) vb)"
    by (auto simp: demo_space(3))
  then show ?thesis unfolding v by (intro exI [of _ t]) (simp add: v demo_space(3))
qed


text \<open>The same machine with the page 20 mapped at address 0, for the user to read and write.\<close>

definition mapped :: mem_state where
  "mapped = (case mappages (pg 0) 0 4096 (V2P (pg 20)) 6 demo of Ok (_, t) \<Rightarrow> t | _ \<Rightarrow> demo)"

lemma mapped_facts:
  obtains xs where "two_ok mapped (pg 0) (pg 1) xs" "two_ok mapped (pg 1) (pg 0) xs" "set xs \<subseteq> set demo_pages"
    "11 \<le> length xs" "pte mapped (pg 0) 0 = Some (V2P (pg 20) OR 6 OR 1)" "ptev mapped (pg 1) 0 = 0"
    "pt_pages mapped (pg 0) \<subseteq> insert (pg 0) (set demo_pages)" "pt_pages mapped (pg 1) = {pg 1}"
    "alloc_frame demo mapped"
proof -
  let ?xs = demo_pages
  have "nat (T_h demo) < length ?xs" "ptev demo (pg 0) 0 AND PTE_P = 0" by (simp_all add: demo_sel demo_space(3))
  from map_one [OF demo_space(1) _ this, of "V2P (pg 20)" 6] obtain t m where
    t: "mappages (pg 0) 0 4096 (V2P (pg 20)) 6 demo = Ok (0, t)" "m \<le> 1" "space_ok t (pg 0) (drop m ?xs)" "alloc_frame demo t"
      "\<forall>vb. ptev t (pg 0) vb = (if vpn vb = vpn 0 then V2P (pg 20) OR 6 OR PTE_P else ptev demo (pg 0) vb)"
      "pt_pages t (pg 0) \<subseteq> pt_pages demo (pg 0) \<union> set ?xs" "outside demo (pg 0) ?xs t" by auto
  have m: "mapped = t" by (simp only: mapped_def t(1) res.case prod.case)
  have sub: "set (drop m ?xs) \<subseteq> set ?xs" by (rule set_drop_subset)
  note C = two_ok_child [OF demo_two(2) t(3) sub t(4,6,7)]
  have c2: "two_ok t (pg 0) (pg 1) (drop m ?xs)" using C(1) by (auto simp: two_ok_def)
  have p1: "ptev t (pg 1) 0 = 0" using C(2) demo_space(3) [of 1 0] by (simp add: ptev_def)
  have p0: "pte t (pg 0) 0 = Some (V2P (pg 20) OR 6 OR 1)"
  proof -
    have "ptev t (pg 0) 0 = V2P (pg 20) OR 6 OR 1" using t(5) by simp
    moreover have "V2P (pg 20) OR 6 OR 1 \<noteq> 0"
    proof -
      have "bit (V2P (pg 20) OR 6 OR 1) 0" by (simp add: bit_or_iff)
      then show ?thesis by fastforce
    qed
    ultimately show ?thesis by (cases "pte t (pg 0) 0") (simp_all add: ptev_def)
  qed
  have pages1: "pt_pages t (pg 1) = {pg 1}"
  proof -
    have "\<forall>p\<in>pt_pages demo (pg 1). page p t = page p demo"
      using outsideD [OF t(7), of "pg 1"] demo_space(2) by auto
    moreover have "set (drop m ?xs) \<inter> pt_pages demo (pg 1) = {}" using sub demo_space(2) [of 1] by auto
    ultimately show ?thesis
      using space_ok_frame(4) [OF demo_space(1) [of 1] space_okD(1) [OF t(3)] alloc_frame_sel(1) [OF t(4)]] demo_space(2) [of 1] by simp
  qed
  show ?thesis
  proof (rule that)
    show "two_ok mapped (pg 0) (pg 1) (drop m ?xs)" "two_ok mapped (pg 1) (pg 0) (drop m ?xs)" using c2 C(1) m by simp_all
    show "set (drop m ?xs) \<subseteq> set demo_pages" using sub by simp
    show "11 \<le> length (drop m ?xs)" using t(2) by simp
    show "pte mapped (pg 0) 0 = Some (V2P (pg 20) OR 6 OR 1)" "ptev mapped (pg 1) 0 = 0" using p0 p1 m by simp_all
    show "pt_pages mapped (pg 0) \<subseteq> insert (pg 0) (set demo_pages)" using t(6) demo_space(2) [of 0] m by auto
    show "pt_pages mapped (pg 1) = {pg 1}" "alloc_frame demo mapped" using pages1 t(4) m by simp_all
  qed
qed


definition user_entry :: u32 where
  "user_entry = V2P (pg 20) OR 6 OR 1"

lemma user_entry_bits: "user_entry AND PTE_P \<noteq> 0" "user_entry AND PTE_U \<noteq> 0" "P2V (PTE_ADDR user_entry) = pg 20"
proof -
  have b: "bit (6 :: u32) 2" by (simp add: bit_numeral_rec)
  show "user_entry AND PTE_P \<noteq> 0" "user_entry AND PTE_U \<noteq> 0"
    unfolding user_entry_def flag_bits(1,2) bit_or_iff using b by simp_all
  have "(6 :: u32) OR 1 = PTE_P OR PTE_W OR PTE_U" by simp
  then show "P2V (PTE_ADDR user_entry) = pg 20"
    using new_table_addr [of "pg 20"] unfolding user_entry_def by (simp only: P2V_V2P) simp
qed

lemma mapped_sel: "T_h mapped = 0" "kend mapped = 0x80100000" "swap_slots mapped = (\<lambda>_. \<lparr>page_perm = 0, is_free = 1\<rparr>)"
  "p_pgdir (procs mapped i) = pg 0" "swap_disk mapped" "page_ok mapped (pg 20)"
proof -
  obtain xs where "two_ok mapped (pg 0) (pg 1) xs" "alloc_frame demo mapped" by (rule mapped_facts)
  note f = alloc_frame_sel [OF this(2)] and d = swap_disk_alloc_frame [OF this(2)]
  show "T_h mapped = 0" "kend mapped = 0x80100000" "swap_slots mapped = (\<lambda>_. \<lparr>page_perm = 0, is_free = 1\<rparr>)"
    "p_pgdir (procs mapped i) = pg 0" "swap_disk mapped" using f d demo_sel by (simp_all add: pg_def)
  show "page_ok mapped (pg 20)"
    using pg_valid [of 20] page_ok_cong [OF f(1)] page_ok_cong [OF alloc_frame_sel(1) [OF demo_facts(2)]] by simp
qed

theorem swap_round_trip_witness:
  "\<exists>a t v e'. walk_lookup (pg 0) 0 mapped = Some a \<and> swap_out_page a mapped = Ok t \<and> page_fault 0 0 t = Ok v \<and>
     pte t (pg 0) 0 = Some (out_entry 0 user_entry) \<and> pte v (pg 0) 0 = Some e' \<and>
     page (P2V (PTE_ADDR e')) v = page (pg 20) mapped"
proof -
  obtain xs where x: "two_ok mapped (pg 0) (pg 1) xs" "set xs \<subseteq> set demo_pages"
    "pte mapped (pg 0) 0 = Some user_entry" "pt_pages mapped (pg 0) \<subseteq> insert (pg 0) (set demo_pages)"
    unfolding user_entry_def by (rule mapped_facts)
  obtain a where a: "walk_lookup (pg 0) 0 mapped = Some a" using x(3) by (auto simp: pte_def)
  have sp: "space_ok mapped (pg 0) xs" by (rule two_okD(1) [OF x(1)])
  have "pg 20 \<notin> set demo_pages" "pg 20 \<noteq> pg 0" by simp_all
  then have fresh: "pg 20 \<notin> set xs" "pg 20 \<notin> pt_pages mapped (pg 0)" using x(2,4) by blast+
  have i: "first_index (\<lambda>i. is_free (swap_slots mapped i) = 1) NUM_SLOTS = Some 0" by (simp add: first_index_Some mapped_sel)
  note e = user_entry_bits
  from swap_out_page_spec [OF sp mapped_sel(5) a x(3) e(1) e(3) [symmetric] mapped_sel(6) fresh i] obtain t where
    t: "swap_out_page a mapped = Ok t" "space_ok t (pg 0) (pg 20 # xs)" "swap_disk t" "steady mapped t"
      "\<forall>p. p_pgdir (procs t p) = p_pgdir (procs mapped p)" by blast
  have room: "nat (T_h t) < length (pg 20 # xs)" using t(4) by (simp add: steady_def mapped_sel)
  have pd: "p_pgdir (procs t 0) = pg 0" using t(5) by (simp add: mapped_sel)
  from swap_round_trip [OF sp mapped_sel(5) a x(3) e(1,2) e(3) [symmetric] mapped_sel(6) fresh i t(1,2,3) room pd refl refl refl]
  show ?thesis using a t(1) by blast
qed

theorem copyuvm_copies_memory_witness:
  "\<exists>t h. copy_loop (pg 0) (pg 1) (page_addrs 4096) mapped = Ok (True, t) \<and>
     ptev t (pg 1) 0 = V2P h OR PTE_FLAGS user_entry OR PTE_P \<and> page h t = page (pg 20) mapped"
proof -
  obtain xs where x: "two_ok mapped (pg 0) (pg 1) xs" "set xs \<subseteq> set demo_pages" "11 \<le> length xs"
    "pte mapped (pg 0) 0 = Some user_entry" "ptev mapped (pg 1) 0 = 0" "pt_pages mapped (pg 1) = {pg 1}"
    unfolding user_entry_def by (rule mapped_facts)
  have one: "page_addrs 4096 = [0]" by (simp add: page_addrs_def)
  have "pg 20 \<notin> set demo_pages" by simp
  then have "pg 20 \<notin> set xs" using x(2) by blast
  then have can: "\<forall>i\<in>set (page_addrs 4096). can_copy mapped (pg 0) (pg 1) xs i"
    using x(4-6) user_entry_bits by (simp add: one can_copy_def)
  from copyuvm_copies_memory [OF x(1) _ _ can] x(3,4) user_entry_bits show ?thesis
    by (auto simp: one mapped_sel)
qed

text \<open>The page of the user moved to slot 3.\<close>

definition swapped :: mem_state where
  "swapped = (case walk_lookup (pg 0) 0 mapped of Some a \<Rightarrow> st32 a (out_entry 3 user_entry) mapped | None \<Rightarrow> mapped)"



section \<open>The allocator\<close>

text \<open>
  C16. The free list of \<open>kalloc.c\<close> implements a stack of distinct pages: \<open>kfree\<close> pushes a page of the
  allocator's range that is not free already, refuses any other address, and \<open>kalloc\<close> above the threshold
  pops the page that was freed last, so that freeing and allocating again is the identity on the list.
\<close>

theorem free_list_refines_stack:
  assumes "allocator_ok s xs"
  shows "(\<not> page_ok s v \<longrightarrow> kfree v s = Panic ''kfree'') \<and>
    (page_ok s v \<and> v \<notin> set xs \<longrightarrow> (\<exists>t. kfree v s = Ok t \<and> allocator_ok t (v # xs))) \<and>
    (nat (T_h s) < length xs \<longrightarrow> (\<exists>t. kalloc s = Ok (hd xs, t) \<and> allocator_ok t (tl xs))) \<and>
    (page_ok s v \<and> v \<notin> set xs \<and> nat (T_h s) \<le> length xs \<longrightarrow>
       (\<exists>t u. kfree v s = Ok t \<and> kalloc t = Ok (v, u) \<and> allocator_ok u xs))"
  using kfree_rejects [of s v] pages.put [OF assms, of v] pages.get [OF assms] pages.put_get [OF assms, of v] by blast

theorem free_list_refines_stack_witness:
  "(\<exists>t u. kfree (pg 20) demo = Ok t \<and> kalloc t = Ok (pg 20, u) \<and> allocator_ok u demo_pages) \<and>
   kfree (pg 20 + 1) demo = Panic ''kfree''"
proof -
  note demo_facts(2) [THEN alloc_frame_sel(1), THEN page_ok_cong]
  then have "page_ok demo (pg 20)" using pg_valid [of 20] by simp
  moreover have "\<not> page_ok demo (pg 20 + 1)"
  proof -
    have "unat (pg 20 + 1) = unat (pg 20) + 1" using unat_add_nat [of "pg 20" 1] by (simp add: unat_pg)
    then show ?thesis by (simp add: page_ok_def mod_4096_unat unat_pg)
  qed
  ultimately show ?thesis
    using free_list_refines_stack [OF demo_facts(1), of "pg 20"] free_list_refines_stack [OF demo_facts(1), of "pg 20 + 1"]
    by (simp add: demo_sel)
qed

text \<open>
  Boot: from an empty free list, \<open>kinit1\<close> frees exactly the whole pages between the end of the kernel
  and the end of the range.
\<close>

theorem kinit1_frees_range:
  assumes "free_list s []" "0 \<le> T_h s" "KERNBASE \<le> vstart" "kend s = vstart" "vstart \<le> vend" "vend \<le> 0x80400000"
  shows "\<exists>t xs. kinit1 vstart vend s = Ok t \<and> allocator_ok t xs \<and>
    set xs = {v. v mod 4096 = 0 \<and> vstart \<le> v \<and> unat v + 4096 \<le> unat vend}"
proof -
  let ?s = "s\<lparr>kmem_locked := False, use_lock := False\<rparr>"
  have "free_list ?s []" using assms(1) by (simp add: free_list_def)
  then have "allocator_ok ?s []" using assms(2) by (simp add: allocator_ok_def)
  from boot_pages [OF this assms(3) _ assms(5,6)] assms(4) show ?thesis by (auto simp: kinit1_def)
qed

theorem kinit1_frees_range_witness:
  "\<exists>t xs. kinit1 0x80100000 0x80400000 zero_mem = Ok t \<and> allocator_ok t xs \<and>
     set xs = {v. v mod 4096 = 0 \<and> 0x80100000 \<le> v \<and> unat v + 4096 \<le> 0x80400000}"
proof -
  have "free_list zero_mem []" by (simp add: free_list_def mem_ok_def)
  from kinit1_frees_range [OF this, of "0x80100000" "0x80400000"] show ?thesis by simp
qed

text \<open>
  C17. \<open>kalloc\<close> never reports that memory is exhausted: when it returns, it returns a page of the allocator's
  range, because the swapping it does below the threshold either frees a page or does not return.  So its
  branch without memory, which would keep \<open>kmem.lock\<close>, and every caller's test for a null pointer are dead.
\<close>

theorem kalloc_never_null:
  assumes "allocator_ok s xs" "1 \<le> N_pg s" "kalloc s = Ok (r, t)"
  shows "r \<noteq> 0 \<and> page_ok s r"
  using kalloc_nonnull [OF assms(3,1,2)] page_ok_nonzero by blast

theorem kalloc_never_null_witness:
  "\<exists>t. kalloc demo = Ok (pg 14, t) \<and> page_ok demo (pg 14)"
proof -
  have "hd demo_pages = pg 14" by (simp add: demo_pages_def hd_rev last_map)
  then obtain t where "kalloc demo = Ok (pg 14, t)" using pages.get [OF demo_facts(1)] by (auto simp: demo_sel)
  moreover have "1 \<le> N_pg demo" using alloc_frame_sel(3) [OF demo_facts(2)] by simp
  ultimately show ?thesis using kalloc_never_null [OF demo_facts(1)] by blast
qed

text \<open>
  The parameters of the swapper stay in bounds: from the initial values on, the threshold only falls and
  never below 9 free pages, and the batch only grows and never above 100 pages.
\<close>

theorem swap_parameters_bounded:
  assumes "swap_out_if_needed s = Ok t" "\<not> kmem_locked s" "9 \<le> T_h s" "T_h s \<le> 100" "4 \<le> N_pg s" "N_pg s \<le> 100"
  shows "9 \<le> T_h t \<and> T_h t \<le> T_h s \<and> N_pg s \<le> N_pg t \<and> N_pg t \<le> 100 \<and>
    (free_pages_count s \<le> T_h s \<longrightarrow> T_h t = T_h s - T_h s div 10 \<and> N_pg t = min 100 (N_pg s + N_pg s div 4))"
proof -
  from assms(1,2) have "free_pages_count s \<le> T_h s \<longrightarrow> T_h t = T_h s - T_h s div 10 \<and> N_pg t = min 100 (N_pg s + N_pg s div 4)"
  proof (cases rule: swap_out_if_neededE)
    case (swapped u v)
    then have "T_h v = T_h s" "N_pg v = N_pg s" by (simp_all add: steady_def)
    moreover have "(x * 10) div 100 = x div 10" "(x * 25) div 100 = x div 4" for x :: int by simp_all
    ultimately show ?thesis by (simp add: swapped(6))
  qed simp
  with swap_out_if_needed_bounds [OF assms] show ?thesis by blast
qed


theorem swap_parameters_bounded_witness:
  "swap_out_if_needed (demo\<lparr>T_h := 10\<rparr>) = Ok (demo\<lparr>T_h := 10\<rparr>) \<and> 9 \<le> T_h (demo\<lparr>T_h := 10\<rparr>) \<and> N_pg (demo\<lparr>T_h := 10\<rparr>) \<le> 100"
proof -
  let ?s = "demo\<lparr>T_h := 10\<rparr>"
  have n: "N_pg demo = 4" using alloc_frame_sel(3) [OF demo_facts(2)] by simp
  have k: "\<not> kmem_locked ?s" "free_pages_count demo = 12"
    using demo_facts(1) by (simp_all add: allocator_ok_def free_list_def)
  have "?s\<lparr>kmem_locked := False\<rparr> = ?s" using k(1) by simp
  then have run: "swap_out_if_needed ?s = Ok ?s"
    using k by (simp add: swap_out_if_needed_def get_free_pages_def kmem_acquire_def kmem_release_def)
  from swap_parameters_bounded [OF run k(1)] show ?thesis using run by (simp add: n)
qed

end
