(* ===== verification/Grep.thy ===== *)
theory Grep imports CString begin

text \<open>
  The program \<open>grep\<close> (\<open>grep.c\<close>): the matcher of Kernighan and Pike for \<open>^ . * $\<close>, and the loop
  that reads the input through a buffer of 1024 bytes and writes the lines that match.  A C string
  is the list of its bytes before the terminating zero, so \<open>*text == '\0'\<close> is \<open>str = []\<close>.

  The reference for the matcher is a list of pieces with its declarative meaning, the reference for
  \<open>grep\<close> the list of the lines that match.
\<close>

section \<open>The matcher\<close>

fun matchhere :: "bytes \<Rightarrow> bytes \<Rightarrow> bool"
  and matchstar :: "u8 \<Rightarrow> bytes \<Rightarrow> bytes \<Rightarrow> bool" where
  "matchhere [] str = True"
| "matchhere (c # re) str =
     (if re \<noteq> [] \<and> hd re = 42 then matchstar c (tl re) str
      else if c = 36 \<and> re = [] then str = []
      else (case str of [] \<Rightarrow> False | t # ts \<Rightarrow> (c = 46 \<or> c = t) \<and> matchhere re ts))"
| "matchstar c re str =
     (matchhere re str \<or> (case str of [] \<Rightarrow> False | t # ts \<Rightarrow> (t = c \<or> c = 46) \<and> matchstar c re ts))"

text \<open>The \<open>do\<close> loop of \<open>match\<close> also tries the empty string at the end of the str.\<close>

fun match_from :: "bytes \<Rightarrow> bytes \<Rightarrow> bool" where
  "match_from re [] = matchhere re []"
| "match_from re (t # ts) = (matchhere re (t # ts) \<or> match_from re ts)"

definition match :: "bytes \<Rightarrow> bytes \<Rightarrow> bool" where
  "match re str = (if re \<noteq> [] \<and> hd re = 94 then matchhere (tl re) str else match_from re str)"

section \<open>What a pattern means\<close>

datatype piece = One u8 | Rep u8 | AtEnd

fun parse :: "bytes \<Rightarrow> piece list" where
  "parse [] = []"
| "parse [c] = (if c = 36 then [AtEnd] else [One c])"
| "parse (c # d # re) = (if d = 42 then Rep c # parse re else One c # parse (d # re))"

definition fits :: "u8 \<Rightarrow> u8 \<Rightarrow> bool" where
  "fits c t \<longleftrightarrow> c = 46 \<or> c = t"

text \<open>\<open>means ps u v\<close>: the pieces match the text \<open>u\<close> when the text \<open>v\<close> follows it.\<close>

fun means :: "piece list \<Rightarrow> bytes \<Rightarrow> bytes \<Rightarrow> bool" where
  "means [] u v = (u = [])"
| "means (One c # ps) u v = (\<exists>t u'. u = t # u' \<and> fits c t \<and> means ps u' v)"
| "means (Rep c # ps) u v = (\<exists>r u'. u = r @ u' \<and> (\<forall>t \<in> set r. fits c t) \<and> means ps u' v)"
| "means (AtEnd # ps) u v = (u = [] \<and> v = [] \<and> means ps u v)"

lemma ex_split_Nil: "(\<exists>u v. [] = u @ v \<and> P u v) \<longleftrightarrow> P [] []"
  by auto

lemma ex_split_Cons:
  "(\<exists>u v. t # ts = u @ v \<and> P u v) \<longleftrightarrow> P [] (t # ts) \<or> (\<exists>u v. ts = u @ v \<and> P (t # u) v)"
  by (metis Cons_eq_append_conv append_Cons append_Nil)

lemma ex_split_append:
  "(\<exists>r ts. s = r @ ts \<and> P r \<and> (\<exists>u v. ts = u @ v \<and> Q u v)) \<longleftrightarrow>
   (\<exists>w v. s = w @ v \<and> (\<exists>r u. w = r @ u \<and> P r \<and> Q u v))"
  by (metis append.assoc)

lemma ex_split_Cons2:
  "(\<exists>t ts. s = t # ts \<and> P t \<and> (\<exists>u v. ts = u @ v \<and> Q u v)) \<longleftrightarrow>
   (\<exists>w v. s = w @ v \<and> (\<exists>t u. w = t # u \<and> P t \<and> Q u v))"
  by (metis append_Cons)

lemma matchstar_iff:
  "matchstar c re str \<longleftrightarrow>
   (\<exists>r rest. str = r @ rest \<and> (\<forall>t \<in> set r. fits c t) \<and> matchhere re rest)"
proof (induction str)
  case (Cons t ts)
  then show ?case
    by (subst ex_split_Cons) (auto simp: fits_def simp del: matchhere.simps)
qed simp

lemma matchhere_iff: "matchhere re str \<longleftrightarrow> (\<exists>u v. str = u @ v \<and> means (parse re) u v)"
proof (induction re arbitrary: str rule: parse.induct)
  case (2 c)
  show ?case
  proof (cases str)
    case (Cons t ts)
    show ?thesis
      unfolding Cons by (subst ex_split_Cons) (auto simp: fits_def)
  qed simp
next
  case (3 c d re)
  show ?case
  proof (cases "d = 42")
    case True
    then have "matchhere (c # d # re) str \<longleftrightarrow>
      (\<exists>r rest. str = r @ rest \<and> (\<forall>t \<in> set r. fits c t) \<and> matchhere re rest)"
      by (simp add: matchstar_iff del: matchstar.simps)
    also have "\<dots> \<longleftrightarrow> (\<exists>u v. str = u @ v \<and> means (parse (c # d # re)) u v)"
      unfolding 3(1) [OF True] ex_split_append using True by simp
    finally show ?thesis .
  next
    case False
    then have "matchhere (c # d # re) str \<longleftrightarrow>
      (\<exists>t ts. str = t # ts \<and> fits c t \<and> matchhere (d # re) ts)"
      by (cases str) (auto simp: fits_def)
    also have "\<dots> \<longleftrightarrow> (\<exists>u v. str = u @ v \<and> means (parse (c # d # re)) u v)"
      unfolding 3(2) [OF False] ex_split_Cons2 using False by simp
    finally show ?thesis .
  qed
qed simp

lemma match_from_iff: "match_from re str \<longleftrightarrow> (\<exists>pre rest. str = pre @ rest \<and> matchhere re rest)"
  by (induction str) (simp_all add: ex_split_Nil ex_split_Cons del: matchhere.simps)

text \<open>C24. \<open>match\<close> finds a pattern exactly when some part of the text, at its beginning if the pattern
  starts with a \<open>^\<close>, is described by the pieces of the pattern.\<close>

theorem match_correct:
  "match re str \<longleftrightarrow>
     (if re \<noteq> [] \<and> hd re = 94
      then \<exists>u v. str = u @ v \<and> means (parse (tl re)) u v
      else \<exists>pre u v. str = pre @ u @ v \<and> means (parse re) u v)"
  by (auto simp: match_def match_from_iff matchhere_iff simp del: matchhere.simps)

section \<open>The loop over the input\<close>

text \<open>\<open>strchr\<close> of \<open>ulib.c\<close> from position \<open>i\<close> of an array.\<close>

function strchr_at :: "bytes \<Rightarrow> u8 \<Rightarrow> nat \<Rightarrow> nat option" where
  "strchr_at s c i =
     (if ld s i = 0 then None else if ld s i = c then Some i else strchr_at s c (Suc i))"
  by pat_completeness auto
termination
  by (relation "measure (\<lambda>(s, c, i). length s - i)") (auto simp: ld_def split: if_splits)

declare strchr_at.simps [simp del]

lemma strchr_at_bound: "strchr_at s c i = Some q \<Longrightarrow> i \<le> q \<and> q < length s"
proof (induction s c i rule: strchr_at.induct)
  case (1 s c i)
  then show ?case
    by (subst (asm) strchr_at.simps [of s c i]) (force simp: ld_def split: if_splits)
qed

text \<open>The lines that are complete in the buffer, from \<open>p\<close> on: \<open>out\<close> is what \<open>write\<close> has sent to the
  standard output.\<close>

function grep_lines :: "bytes \<Rightarrow> bytes \<Rightarrow> nat \<Rightarrow> bytes \<Rightarrow> nat \<times> bytes \<times> bytes" where
  "grep_lines pattern buf p out =
     (case strchr_at buf 10 p of
        None \<Rightarrow> (p, buf, out)
      | Some q \<Rightarrow>
          let buf = buf[q := 0] in
          if match pattern (takeWhile (\<lambda>c. c \<noteq> 0) (drop p buf)) then
            let buf = buf[q := 10] in grep_lines pattern buf (q + 1) (out @ slice p (q + 1 - p) buf)
          else grep_lines pattern buf (q + 1) out)"
  by pat_completeness auto
termination
  by (relation "measure (\<lambda>(pattern, buf, p, out). length buf - p)") (auto dest: strchr_at_bound)

declare grep_lines.simps [simp del]

lemma drop_shorter: "n = min a (min b (length xs)) \<Longrightarrow> n \<noteq> 0 \<Longrightarrow> length (drop n xs) < length xs"
  by simp

text \<open>
  \<open>input\<close> is what the descriptor still has to give; \<open>chunk n input\<close> is how many bytes a \<open>read\<close> of
  \<open>n\<close> bytes takes of it (all \<open>n\<close> from a file, whatever has arrived from a pipe or the console).
\<close>

function grep_loop :: "(nat \<Rightarrow> bytes \<Rightarrow> nat) \<Rightarrow> bytes \<Rightarrow> bytes \<Rightarrow> bytes \<Rightarrow> nat \<Rightarrow> bytes \<Rightarrow> bytes" where
  "grep_loop chunk pattern input buf m out =
     (let n = min (chunk (1024 - m - 1) input) (min (1024 - m - 1) (length input)) in
      if n = 0 then out
      else
        let buf = blit m (take n input) buf; m = m + n; buf = buf[m := 0] in
        case grep_lines pattern buf 0 out of (p, buf, out) \<Rightarrow>
          let m = (if p = 0 then 0 else m) in
          if m > 0 then grep_loop chunk pattern (drop n input) (user_memmove 0 p (m - p) buf) (m - p) out
          else grep_loop chunk pattern (drop n input) buf m out)"
  by pat_completeness auto
termination
  by (relation "measure (\<lambda>(chunk, pattern, input, buf, m, out). length input)";
      simp (no_asm) only: wf_measure in_measure prod.case; rule drop_shorter; assumption)

declare grep_loop.simps [simp del]

definition grep :: "(nat \<Rightarrow> bytes \<Rightarrow> nat) \<Rightarrow> bytes \<Rightarrow> bytes \<Rightarrow> bytes \<Rightarrow> bytes" where
  "grep chunk pattern input buf = grep_loop chunk pattern input buf 0 []"

section \<open>The lines that match\<close>

definition nl :: "bytes \<Rightarrow> bytes" where
  "nl l = l @ [10]"

lemma length_nl [simp]: "length (nl l) = Suc (length l)"
  by (simp add: nl_def)

abbreviation text_of :: "bytes list \<Rightarrow> bytes" where
  "text_of ls \<equiv> concat (map nl ls)"

definition plain :: "bytes \<Rightarrow> bool" where
  "plain l \<longleftrightarrow> 0 \<notin> set l \<and> 10 \<notin> set l"

lemma plain_Nil [simp]: "plain []"
  by (simp add: plain_def)

lemma plain_append [simp]: "plain (u @ v) \<longleftrightarrow> plain u \<and> plain v"
  by (auto simp: plain_def)

lemma ld_prefix [simp]: "ld (pre @ c # r) (length pre) = c"
  by (simp add: ld_def)

lemma strchr_hit:
  "plain l \<Longrightarrow> strchr_at (pre @ l @ 10 # r) 10 (length pre) = Some (length pre + length l)"
proof (induction l arbitrary: pre)
  case Nil
  show ?case by (subst strchr_at.simps) simp
next
  case (Cons c l)
  then have "strchr_at ((pre @ [c]) @ l @ 10 # r) 10 (length (pre @ [c])) = Some (length (pre @ [c]) + length l)"
    by (simp only: plain_def list.set) blast
  with Cons.prems show ?case
    by (subst strchr_at.simps) (simp add: plain_def)
qed

lemma strchr_miss: "plain l \<Longrightarrow> strchr_at (pre @ l @ 0 # r) 10 (length pre) = None"
proof (induction l arbitrary: pre)
  case Nil
  show ?case by (subst strchr_at.simps) simp
next
  case (Cons c l)
  then have "strchr_at ((pre @ [c]) @ l @ 0 # r) 10 (length (pre @ [c])) = None"
    by (simp only: plain_def list.set) blast
  with Cons.prems show ?case
    by (subst strchr_at.simps) (simp add: plain_def)
qed

lemma takeWhile_plain: "plain l \<Longrightarrow> takeWhile (\<lambda>c. c \<noteq> 0) (l @ 0 # r) = l"
  by (subst takeWhile_append2) (auto simp: plain_def)

lemma grep_lines_spec:
  assumes "list_all plain ls" and "plain part"
  shows "\<exists>pre'. grep_lines re (pre @ text_of ls @ part @ 0 # r) (length pre) out =
           (length pre', pre' @ part @ 0 # r, out @ text_of (filter (match re) ls)) \<and>
         length pre' = length pre + length (text_of ls)"
  using assms
proof (induction ls arbitrary: pre out)
  case Nil
  then show ?case by (subst grep_lines.simps) (simp add: strchr_miss)
next
  case (Cons l ls)
  let ?rest = "text_of ls @ part @ 0 # r"
  have l: "plain l" using Cons.prems by simp
  have step: "grep_lines re (pre @ l @ 10 # ?rest) (length pre) out =
    (if match re l then grep_lines re ((pre @ l @ [10]) @ ?rest) (length (pre @ l @ [10])) (out @ l @ [10])
     else grep_lines re ((pre @ l @ [0]) @ ?rest) (length (pre @ l @ [0])) out)"
    by (subst grep_lines.simps)
      (simp add: strchr_hit [OF l] takeWhile_plain [OF l] list_update_append slice_def Let_def)
  have IH: "\<exists>pre'. grep_lines re ((pre @ l @ [c]) @ ?rest) (length (pre @ l @ [c])) out =
      (length pre', pre' @ part @ 0 # r, out @ text_of (filter (match re) ls)) \<and>
      length pre' = length pre + length (text_of (l # ls))" for c out
    using Cons.IH [of "pre @ l @ [c]" out] Cons.prems by (simp add: add.assoc)
  show ?case
  proof (cases "match re l")
    case True
    with step IH [of 10 "out @ l @ [10]"] show ?thesis by (simp add: nl_def [of l])
  next
    case False
    with step IH [of 0 out] show ?thesis by (simp add: nl_def [of l])
  qed
qed

lemma split_lines:
  assumes "u @ v = text_of ls @ rest" and "list_all plain ls" and "plain rest"
  shows "\<exists>ks ms part. ls = ks @ ms \<and> u = text_of ks @ part \<and> part @ v = text_of ms @ rest \<and> plain part"
  using assms
proof (induction ls arbitrary: u)
  case Nil
  then have "[] = [] @ ([] :: bytes list) \<and> u = text_of [] @ u \<and> u @ v = text_of [] @ rest \<and> plain u"
    by (metis append_Nil concat.simps(1) list.map(1) plain_append)
  then show ?case by blast
next
  case (Cons l ls)
  show ?case
  proof (cases "length u \<le> length l")
    case True
    with Cons.prems(1) have "u = take (length u) l"
      by (simp add: nl_def append_eq_append_conv_if)
    then have "plain u"
      using Cons.prems(2) by (metis append_take_drop_id list.pred_inject(2) plain_append)
    with Cons.prems(1) have "l # ls = [] @ (l # ls) \<and> u = text_of [] @ u \<and> u @ v = text_of (l # ls) @ rest \<and> plain u"
      by simp
    then show ?thesis by blast
  next
    case False
    then have "length (nl l) \<le> length u" by simp
    moreover have "nl l @ (text_of ls @ rest) = u @ v" using Cons.prems(1) by simp
    ultimately have "nl l = take (length (nl l)) u" "text_of ls @ rest = drop (length (nl l)) u @ v"
      by (simp_all add: append_eq_append_conv_if [where ?ys\<^sub>1.0 = u and ?xs\<^sub>1.0 = "nl l"])
    then obtain w where w: "u = nl l @ w" "w @ v = text_of ls @ rest"
      by (metis append_take_drop_id)
    from Cons.IH [OF w(2)] Cons.prems(2,3) obtain ks ms part where
      "ls = ks @ ms" "w = text_of ks @ part" "part @ v = text_of ms @ rest" "plain part" by auto
    with w(1) have "l # ls = (l # ks) @ ms \<and> u = text_of (l # ks) @ part \<and> part @ v = text_of ms @ rest \<and> plain part"
      by simp
    then show ?thesis by blast
  qed
qed

lemma user_memmove_front:
  assumes "p = length pre" and "k = length part"
  shows "\<exists>X. user_memmove 0 p k (pre @ part @ r) = part @ X \<and> length X = length pre + length r"
proof -
  let ?m = "user_memmove 0 p k (pre @ part @ r)"
  have "take k ?m = part"
    by (rule nth_equalityI) (auto simp: user_memmove_def copy_up_nth assms nth_append)
  moreover have "length ?m = length pre + length part + length r" by (simp add: user_memmove_def)
  ultimately have "?m = part @ drop k ?m \<and> length (drop k ?m) = length pre + length r"
    using append_take_drop_id [of k ?m] assms by simp
  then show ?thesis by blast
qed

text \<open>One pass of the loop with a buffer that starts with the incomplete line \<open>part\<close>.\<close>

lemma grep_loop_end: "grep_loop chunk re [] buf m out = out"
  by (subst grep_loop.simps) simp

lemma grep_loop_step:
  assumes "buf = part @ X" and "length buf = 1024" and "input \<noteq> []"
    and n: "n = min (chunk (1023 - length part) input) (min (1023 - length part) (length input))" and "0 < n"
    and split: "part @ take n input = text_of ks @ part'" and plain: "list_all plain ks" "plain part'"
  shows "\<exists>X'. length (part' @ X') = 1024 \<and>
    grep_loop chunk re input buf (length part) out =
      (if ks = [] then grep_loop chunk re (drop n input) (part' @ X') 0 out
       else grep_loop chunk re (drop n input) (part' @ X') (length part')
              (out @ text_of (filter (match re) ks)))"
proof -
  let ?c = "part @ take n input"
  have "n \<le> length input" "n \<le> 1023 - length part" unfolding n by simp_all
  with \<open>0 < n\<close> assms(1,2)
  have len: "length ?c = length part + n" "length part + n \<le> 1023" "length X = 1024 - length part"
    by simp_all
  define r where "r = drop (Suc n) X"
  have r: "length r + length ?c + 1 = 1024" using len by (simp add: r_def)
  have "drop n X \<noteq> []" using len by simp
  then have "(blit (length part) (take n input) buf)[length part + n := 0] = ?c @ 0 # r"
    using len assms(1) by (simp add: blit_def r_def list_update_append drop_Suc tl_drop
        Cons_nth_drop_Suc [symmetric] list_update_code split: list.split)
  then have buf: "(blit (length part) (take n input) buf)[length part + n := 0] = text_of ks @ part' @ 0 # r"
    using split by simp
  obtain pre where lines: "grep_lines re (text_of ks @ part' @ 0 # r) 0 out =
      (length pre, pre @ part' @ 0 # r, out @ text_of (filter (match re) ks))"
    and pre: "length pre = length (text_of ks)"
    using grep_lines_spec [OF plain, of re "[]" r out] by auto
  have m: "length part + n = length pre + length part'"
    using len(1) split pre by (metis length_append)
  obtain Y where Y: "user_memmove 0 (length pre) (length part') (pre @ part' @ 0 # r) = part' @ Y"
      "length Y = length pre + length (0 # r)"
    using user_memmove_front [of "length pre" pre "length part'" part' "0 # r"] by auto
  have nn: "min (chunk (1024 - length part - 1) input) (min (1024 - length part - 1) (length input)) = n"
    by (simp add: n)
  have nz: "(n = 0) = False" using \<open>0 < n\<close> by simp
  have loop: "grep_loop chunk re input buf (length part) out =
      (let m = (if length pre = 0 then 0 else length part + n) in
       if m > 0 then grep_loop chunk re (drop n input)
         (user_memmove 0 (length pre) (m - length pre) (pre @ part' @ 0 # r)) (m - length pre)
         (out @ text_of (filter (match re) ks))
       else grep_loop chunk re (drop n input) (pre @ part' @ 0 # r) m (out @ text_of (filter (match re) ks)))"
    by (subst grep_loop.simps) (simp only: Let_def nn nz if_False buf lines prod.case)
  show ?thesis
  proof (cases "ks = []")
    case True
    then show ?thesis using loop pre r m len by (intro exI [of _ "0 # r"]) (simp add: Let_def)
  next
    case False
    then have "0 < length pre" using pre by (cases ks) auto
    then have eqs: "(length pre = 0) = False" "(0 < length part + n) = True"
        "length part + n - length pre = length part'"
      using m by simp_all
    have "length (part' @ Y) = 1024" using Y(2) r m len by simp
    moreover have "grep_loop chunk re input buf (length part) out =
        grep_loop chunk re (drop n input) (part' @ Y) (length part') (out @ text_of (filter (match re) ks))"
      unfolding loop by (simp only: Let_def eqs Y(1) if_True if_False)
    ultimately show ?thesis using False by auto
  qed
qed

text \<open>
  A \<open>read\<close> from a file fills the buffer as long as the file lasts; \<open>full_reads chunk k\<close> says this of
  the last \<open>k\<close> bytes of the input.  Then the buffer holds a whole line of at most 1022 characters
  at every pass.
\<close>

definition full_reads :: "(nat \<Rightarrow> bytes \<Rightarrow> nat) \<Rightarrow> nat \<Rightarrow> bool" where
  "full_reads chunk k \<longleftrightarrow> (\<forall>n input. length input \<le> k \<longrightarrow> n \<le> chunk n input)"

definition short_lines :: "bytes list \<Rightarrow> bool" where
  "short_lines ls \<longleftrightarrow> list_all (\<lambda>l. plain l \<and> length l \<le> 1022) ls"

lemma grep_loop_lines:
  assumes "full_reads chunk k" and "length input \<le> k" and "length (part @ X) = 1024" and "length part \<le> 1022"
    and "part @ input = text_of ls @ rest" and "short_lines ls" and "plain part" and "plain rest"
  shows "grep_loop chunk re input (part @ X) (length part) out = out @ text_of (filter (match re) ls)"
  using assms(2-)
proof (induction "length input" arbitrary: part X input ls rest out rule: less_induct)
  case less
  note len = less.prems(2,3) and stream = less.prems(4) and short = less.prems(5)
  have plain_ls: "list_all plain ls" using short by (simp add: short_lines_def list_all_iff)
  show ?case
  proof (cases "input = []")
    case True
    with stream less.prems(6) have "ls = []" by (cases ls) (auto simp: plain_def nl_def)
    then show ?thesis using True by (simp add: grep_loop_end)
  next
    case False
    define n where "n = min (chunk (1023 - length part) input) (min (1023 - length part) (length input))"
    have n: "n = min (1023 - length part) (length input)"
      using assms(1) less.prems(1) by (simp add: n_def full_reads_def min_absorb2 min.coboundedI1)
    then have "0 < n" using False len by simp
    have "(part @ take n input) @ drop n input = text_of ls @ rest" using stream by simp
    from split_lines [OF this plain_ls less.prems(7)] obtain ks ms part' where
      split: "ls = ks @ ms" "part @ take n input = text_of ks @ part'"
        "part' @ drop n input = text_of ms @ rest" "plain part'" by blast
    have plain_ks: "list_all plain ks" and short_ms: "short_lines ms"
      using plain_ls short split(1) by (simp_all add: short_lines_def)
    have smaller: "length (drop n input) < length input" using \<open>0 < n\<close> False by simp
    then have small: "length (drop n input) \<le> k" using less.prems(1) by simp
    obtain X' where X': "length (part' @ X') = 1024" and
      step: "grep_loop chunk re input (part @ X) (length part) out =
        (if ks = [] then grep_loop chunk re (drop n input) (part' @ X') 0 out
         else grep_loop chunk re (drop n input) (part' @ X') (length part')
                (out @ text_of (filter (match re) ks)))"
      using grep_loop_step [where chunk = chunk and part = part and X = X and input = input and n = n
          and ks = ks and part' = part' and re = re and out = out and buf = "part @ X"]
        len(1) False n_def \<open>0 < n\<close> split(2,4) plain_ks by blast
    have content: "length (text_of ks @ part') = length part + n"
      using split(2) n by (metis length_append length_take min.cobounded2 min_absorb2)
    show ?thesis
    proof (cases "ks = []")
      case ks: False
      then have "0 < length (text_of ks)" by (cases ks) auto
      moreover have "length part + n \<le> 1023" using n len by linarith
      ultimately have "length part' \<le> 1022" using content unfolding length_append by linarith
      from less.hyps [OF smaller small X' this split(3) short_ms split(4) less.prems(7)] ks step split(1)
      show ?thesis by simp
    next
      case ks: True
      have "ms = [] \<or> drop n input = []"
      proof (rule ccontr)
        assume "\<not> ?thesis"
        then obtain l ms' where ms: "ms = l # ms'" and more: "drop n input \<noteq> []" by (cases ms) auto
        from more n have "n = 1023 - length part" by (auto simp: min_def split: if_splits)
        then have "length part' = 1023" using content ks len by simp
        moreover have "length l \<le> 1022" using short_ms ms by (simp add: short_lines_def)
        ultimately have "length (nl l) \<le> length part'" by simp
        moreover have "nl l @ (text_of ms' @ rest) = part' @ drop n input" using split(3) ms by simp
        ultimately have "nl l = take (length (nl l)) part'"
          by (simp add: append_eq_append_conv_if [where ?ys\<^sub>1.0 = part' and ?xs\<^sub>1.0 = "nl l"])
        then have "set (nl l) \<subseteq> set part'" by (metis set_take_subset)
        then show False using split(4) by (simp add: nl_def plain_def)
      qed
      moreover have "ms = []" if "drop n input = []"
        using split(3,4) that by (cases ms) (auto simp: plain_def nl_def)
      ultimately have "ms = []" by blast
      then have "ls = []" "part' @ drop n input = rest" using ks split(1,3) by simp_all
      moreover from this(2) less.prems(7) have "plain (drop n input)" by auto
      then have "grep_loop chunk re (drop n input) ([] @ (part' @ X')) (length ([] :: bytes)) out
          = out @ text_of (filter (match re) [])"
        by (intro less.hyps [OF smaller small, where ls = "[]" and rest = "drop n input"])
          (use X' in \<open>simp_all add: short_lines_def\<close>)
      ultimately show ?thesis using step ks by simp
    qed
  qed
qed

text \<open>C25. Reading a file of lines of at most 1022 characters, \<open>grep\<close> prints exactly the lines that
  match, in their order; characters after the last newline are never printed.\<close>

theorem grep_prints_matches:
  assumes "\<And>n input. n \<le> chunk n input" and "length buf = 1024" and "short_lines ls" and "plain rest"
  shows "grep chunk re (text_of ls @ rest) buf = text_of (filter (match re) ls)"
  using grep_loop_lines [of chunk "length (text_of ls @ rest)" "text_of ls @ rest" "[]" buf ls rest re "[]"] assms
  by (simp add: grep_def full_reads_def)

lemma grep_prints_matches_witness:
  "grep (\<lambda>n input. n) [97, 42, 98, 36] (text_of [[99, 97, 97, 98], [97, 98, 99]] @ [98]) (replicate 1024 0)
     = [99, 97, 97, 98, 10]"
  by (subst grep_prints_matches) (simp_all add: short_lines_def plain_def nl_def match_def)

text \<open>When the first \<open>read\<close> returns only the beginning \<open>u\<close> of a line, as a pipe may do, \<open>grep\<close>
  forgets it: the line is matched and printed without \<open>u\<close>.\<close>

theorem grep_forgets_partial_line:
  assumes "length buf = 1024" and "short_lines ((u @ v) # ls)" and "plain rest" and "u \<noteq> []"
    and "input = text_of ((u @ v) # ls) @ rest"
    and "chunk = (\<lambda>n inp. if length inp = length input then length u else n)"
  shows "grep chunk re input buf = text_of (filter (match re) (v # ls))"
proof -
  let ?more = "text_of (v # ls) @ rest"
  have input: "input = u @ ?more" using assms(5) by (simp add: nl_def)
  have u: "plain u" "length u \<le> 1023" "short_lines (v # ls)" "0 < length u"
    using assms(2,4) by (auto simp: short_lines_def)
  have n: "length u = min (chunk (1023 - length ([] :: bytes)) input)
      (min (1023 - length ([] :: bytes)) (length input))"
    using u(2) by (simp add: input assms(6))
  have *: "input \<noteq> []" "buf = [] @ buf" "[] @ take (length u) input = text_of [] @ u" "list_all plain ([] :: bytes list)"
    using assms(4) by (simp_all add: input)
  from grep_loop_step [where chunk = chunk and part = "[]" and X = buf and input = input
      and n = "length u" and ks = "[]" and part' = u and re = re and out = "[]" and buf = buf,
      OF *(2) assms(1) *(1) n u(4) *(3,4) u(1)]
  obtain X where X: "length ([] @ (u @ X)) = 1024"
    "grep_loop chunk re input buf (length ([] :: bytes)) [] =
       grep_loop chunk re (drop (length u) input) ([] @ (u @ X)) (length ([] :: bytes)) []"
    unfolding if_P [OF refl] by auto
  have "full_reads chunk (length ?more)"
    using u(4) by (auto simp: full_reads_def input assms(6))
  from grep_loop_lines [OF this, of ?more "[]" "u @ X" "v # ls" rest re "[]"] X u(3) assms(3)
  show ?thesis by (simp add: grep_def input)
qed

lemma grep_forgets_partial_line_witness:
  "grep (\<lambda>n inp. if length inp = length (text_of [[97] @ [98], [99]] @ []) then length [97 :: u8] else n)
     [97, 98] (text_of [[97] @ [98], [99]] @ []) (replicate 1024 0) = text_of (filter (match [97, 98]) [[98], [99]])
   \<and> match [97, 98] [97, 98]"
  by (intro conjI, rule grep_forgets_partial_line [OF _ _ _ _ refl refl])
    (simp_all add: short_lines_def plain_def match_def)

end
