(* ===== verification/Shell.thy ===== *)
theory Shell imports CString begin

text \<open>
  The command parser of the shell (\<open>sh.c\<close>).  The line is an array of bytes that ends with a NUL at
  \<open>es\<close>; a position in it is an index.  The parser does not copy words: a word is the pair of the
  positions \<open>q\<close> and \<open>eq\<close> of its first byte and of the byte after it, and \<open>nulterminate\<close> puts NULs at all
  the \<open>eq\<close> once the whole line has been parsed.

  \<open>parseline\<close>, \<open>parsepipe\<close>, \<open>parseexec\<close> and \<open>parseblock\<close> call each other; here the functions below take
  the parser for a line inside parentheses as their argument \<open>pl\<close>.  The first argument of a function
  that loops is the fuel; \<open>parsecmd\<close> gives \<open>es + 3\<close>, which is never used up.
\<close>

abbreviation (input) MAXARGS :: nat where "MAXARGS \<equiv> 10"
abbreviation (input) O_RDONLY :: int where "O_RDONLY \<equiv> 0"
abbreviation (input) O_WRONLY_CREATE :: int where "O_WRONLY_CREATE \<equiv> 0x201"

section \<open>Commands\<close>

type_synonym span = "nat \<times> nat"

datatype (spans: 'w) cmd =
    EXEC "'w list"
  | REDIR "'w cmd" 'w int int
  | PIPE "'w cmd" "'w cmd"
  | LIST "'w cmd" "'w cmd"
  | BACK "'w cmd"
  for map: map_cmd

section \<open>Tokens\<close>

definition whitespace :: bytes where
  "whitespace = [32, 9, 13, 10, 11]"

definition symbols :: bytes where
  "symbols = [60, 124, 62, 38, 59, 40, 41]"

function skip_ws :: "bytes \<Rightarrow> nat \<Rightarrow> nat \<Rightarrow> nat" where
  "skip_ws buf es s = (if s < es \<and> ld buf s \<in> set whitespace then skip_ws buf es (Suc s) else s)"
  by pat_completeness auto
termination by (relation "measure (\<lambda>(buf, es, s). es - s)") auto

function word_end :: "bytes \<Rightarrow> nat \<Rightarrow> nat \<Rightarrow> nat" where
  "word_end buf es s =
     (if s < es \<and> ld buf s \<notin> set whitespace \<and> ld buf s \<notin> set symbols then word_end buf es (Suc s) else s)"
  by pat_completeness auto
termination by (relation "measure (\<lambda>(buf, es, s). es - s)") auto

declare skip_ws.simps [simp del] word_end.simps [simp del]

text \<open>\<open>gettoken\<close> returns the kind of the token, its span, and the position of the next one.  A word has
  kind \<open>a\<close> and \<open>>>\<close> has kind \<open>+\<close>.\<close>

definition gettoken :: "bytes \<Rightarrow> nat \<Rightarrow> nat \<Rightarrow> u8 \<times> span \<times> nat" where
  "gettoken buf es s =
     (let q = skip_ws buf es s;
          (ret, eq) =
            (if ld buf q = 0 then (0, q)
             else if ld buf q \<in> {124, 40, 41, 59, 38, 60} then (ld buf q, Suc q)
             else if ld buf q = 62 then (if ld buf (Suc q) = 62 then (43, Suc (Suc q)) else (62, Suc q))
             else (97, word_end buf es q))
      in (ret, (q, eq), skip_ws buf es eq))"

definition peek :: "bytes \<Rightarrow> nat \<Rightarrow> bytes \<Rightarrow> nat \<Rightarrow> bool \<times> nat" where
  "peek buf es toks s =
     (let s = skip_ws buf es s in (ld buf s \<noteq> 0 \<and> ld buf s \<in> set toks, s))"

section \<open>The parser\<close>

type_synonym parser = "nat \<Rightarrow> (span cmd \<times> nat) res"

primrec parseredirs :: "nat \<Rightarrow> bytes \<Rightarrow> nat \<Rightarrow> span cmd \<Rightarrow> parser" where
  "parseredirs 0 buf es cmd s = Undefined ''out of fuel''"
| "parseredirs (Suc n) buf es cmd s =
     (let (more, s) = peek buf es [60, 62] s in
      if more then
        let (tok, _, s) = gettoken buf es s;
            (k, file, s) = gettoken buf es s
        in if k \<noteq> 97 then Panic ''missing file for redirection''
           else parseredirs n buf es
             (if tok = 60 then REDIR cmd file O_RDONLY 0
              else if tok = 62 then REDIR cmd file O_WRONLY_CREATE 1
              else if tok = 43 then REDIR cmd file O_WRONLY_CREATE 1
              else cmd) s
      else Ok (cmd, s))"

text \<open>\<open>parseexec\<close> fills in the arguments of the \<open>EXEC\<close> node, which lies below the redirections that have
  been put around it meanwhile.\<close>

primrec add_arg :: "'w \<Rightarrow> 'w cmd \<Rightarrow> 'w cmd" where
  "add_arg w (EXEC ws) = EXEC (ws @ [w])"
| "add_arg w (REDIR c f m fd) = REDIR (add_arg w c) f m fd"
| "add_arg w (PIPE c d) = PIPE c d"
| "add_arg w (LIST c d) = LIST c d"
| "add_arg w (BACK c) = BACK c"

primrec parseargs :: "nat \<Rightarrow> bytes \<Rightarrow> nat \<Rightarrow> nat \<Rightarrow> span cmd \<Rightarrow> parser" where
  "parseargs 0 buf es argc ret s = Undefined ''out of fuel''"
| "parseargs (Suc n) buf es argc ret s =
     (let (stop, s) = peek buf es [124, 41, 38, 59] s in
      if stop then Ok (ret, s)
      else
        let (tok, w, s) = gettoken buf es s in
        if tok = 0 then Ok (ret, s)
        else if tok \<noteq> 97 then Panic ''syntax''
        else if Suc argc \<ge> MAXARGS then Panic ''too many args''
        else rbind (parseredirs n buf es (add_arg w ret) s) (\<lambda>(ret, s).
             parseargs n buf es (Suc argc) ret s))"

definition parseblock :: "parser \<Rightarrow> nat \<Rightarrow> bytes \<Rightarrow> nat \<Rightarrow> parser" where
  "parseblock pl n buf es s =
     (let (open_p, s) = peek buf es [40] s in
      if \<not> open_p then Panic ''parseblock''
      else
        let (_, _, s) = gettoken buf es s in
        rbind (pl s) (\<lambda>(cmd, s).
        let (close_p, s) = peek buf es [41] s in
        if \<not> close_p then Panic ''syntax - missing )''
        else
          let (_, _, s) = gettoken buf es s in
          parseredirs n buf es cmd s))"

definition parseexec :: "parser \<Rightarrow> nat \<Rightarrow> bytes \<Rightarrow> nat \<Rightarrow> parser" where
  "parseexec pl n buf es s =
     (let (block, s) = peek buf es [40] s in
      if block then parseblock pl n buf es s
      else
        rbind (parseredirs n buf es (EXEC []) s) (\<lambda>(ret, s).
        parseargs n buf es 0 ret s))"

primrec parsepipe :: "nat \<Rightarrow> parser \<Rightarrow> bytes \<Rightarrow> nat \<Rightarrow> parser" where
  "parsepipe 0 pl buf es s = Undefined ''out of fuel''"
| "parsepipe (Suc n) pl buf es s =
     rbind (parseexec pl n buf es s) (\<lambda>(cmd, s).
     let (bar, s) = peek buf es [124] s in
     if bar then
       let (_, _, s) = gettoken buf es s in
       rbind (parsepipe n pl buf es s) (\<lambda>(right, s). Ok (PIPE cmd right, s))
     else Ok (cmd, s))"

primrec parsebacks :: "nat \<Rightarrow> bytes \<Rightarrow> nat \<Rightarrow> span cmd \<Rightarrow> parser" where
  "parsebacks 0 buf es cmd s = Undefined ''out of fuel''"
| "parsebacks (Suc n) buf es cmd s =
     (let (amp, s) = peek buf es [38] s in
      if amp then let (_, _, s) = gettoken buf es s in parsebacks n buf es (BACK cmd) s
      else Ok (cmd, s))"

primrec parseline :: "nat \<Rightarrow> bytes \<Rightarrow> nat \<Rightarrow> parser" where
  "parseline 0 buf es s = Undefined ''out of fuel''"
| "parseline (Suc n) buf es s =
     rbind (parsepipe n (parseline n buf es) buf es s) (\<lambda>(cmd, s).
     rbind (parsebacks n buf es cmd s) (\<lambda>(cmd, s).
     let (semi, s) = peek buf es [59] s in
     if semi then
       let (_, _, s) = gettoken buf es s in
       rbind (parseline n buf es s) (\<lambda>(right, s). Ok (LIST cmd right, s))
     else Ok (cmd, s)))"

text \<open>\<open>nulterminate\<close> ends the words of the command inside the line.\<close>

primrec nulterminate :: "span cmd \<Rightarrow> bytes \<Rightarrow> bytes" where
  "nulterminate (EXEC ws) buf = fold (\<lambda>(q, eq) buf. buf[eq := 0]) ws buf"
| "nulterminate (REDIR c f m fd) buf = (nulterminate c buf)[snd f := 0]"
| "nulterminate (PIPE c d) buf = nulterminate d (nulterminate c buf)"
| "nulterminate (LIST c d) buf = nulterminate d (nulterminate c buf)"
| "nulterminate (BACK c) buf = nulterminate c buf"

definition parsecmd :: "bytes \<Rightarrow> (span cmd \<times> bytes) res" where
  "parsecmd buf =
     (let es = strlen buf in
      rbind (parseline (es + 3) buf es 0) (\<lambda>(cmd, s).
      let (_, s) = peek buf es [] s in
      if s \<noteq> es then Panic ''syntax'' else Ok (cmd, nulterminate cmd buf)))"

section \<open>The tokens of a line\<close>

lemma strlen_at_end: "n \<le> strlen_at s n \<and> ld s (strlen_at s n) = 0 \<and> (\<forall>i. n \<le> i \<longrightarrow> i < strlen_at s n \<longrightarrow> ld s i \<noteq> 0)"
proof (induction s n rule: strlen_at.induct)
  case (1 s n)
  show ?case
  proof (cases "ld s n = 0")
    case True
    then show ?thesis by (simp add: strlen_at.simps [of s n])
  next
    case False
    with 1 have "Suc n \<le> strlen_at s (Suc n)" "ld s (strlen_at s (Suc n)) = 0"
      "\<forall>i. Suc n \<le> i \<longrightarrow> i < strlen_at s (Suc n) \<longrightarrow> ld s i \<noteq> 0" by blast+
    moreover have "strlen_at s n = strlen_at s (Suc n)" using False by (simp add: strlen_at.simps [of s n])
    ultimately show ?thesis using False by (metis Suc_leD le_antisym not_less_eq_eq)
  qed
qed

definition word_char :: "u8 \<Rightarrow> bool" where
  "word_char c \<longleftrightarrow> c \<noteq> 0 \<and> c \<notin> set whitespace \<and> c \<notin> set symbols"

text \<open>The array \<open>argv\<close> of each node holds its arguments and the null pointer after them.\<close>

primrec args_fit :: "'w cmd \<Rightarrow> bool" where
  "args_fit (EXEC ws) \<longleftrightarrow> length ws < MAXARGS"
| "args_fit (REDIR c f m fd) \<longleftrightarrow> args_fit c"
| "args_fit (PIPE c d) \<longleftrightarrow> args_fit c \<and> args_fit d"
| "args_fit (LIST c d) \<longleftrightarrow> args_fit c \<and> args_fit d"
| "args_fit (BACK c) \<longleftrightarrow> args_fit c"

primrec nargs :: "'w cmd \<Rightarrow> nat" where
  "nargs (EXEC ws) = length ws"
| "nargs (REDIR c f m fd) = nargs c"
| "nargs (PIPE c d) = 0"
| "nargs (LIST c d) = 0"
| "nargs (BACK c) = 0"

lemma nargs_add_arg: "nargs (add_arg w c) \<le> Suc (nargs c)"
  by (induction c) auto

lemma parseredirs_nargs: "parseredirs n buf es cmd s = Ok (c, s') \<Longrightarrow> nargs c = nargs cmd"
proof (induction n arbitrary: cmd s)
  case (Suc n)
  then show ?case by (force simp: Let_def split: prod.splits if_splits)
qed simp

text \<open>The C string that begins at a position.\<close>

definition string_at :: "bytes \<Rightarrow> nat \<Rightarrow> bytes" where
  "string_at buf q = takeWhile (\<lambda>c. c \<noteq> 0) (drop q buf)"

lemma length_nulterminate [simp]: "length (nulterminate c buf) = length buf"
proof (induction c arbitrary: buf)
  case (EXEC ws)
  show ?case by (induction ws arbitrary: buf) auto
qed auto

lemma ld_update: "ld (b[i := 0]) j = (if j = i then 0 else ld b j)"
  by (auto simp: ld_def)

lemma ld_nulterminate: "ld (nulterminate c buf) i = (if i \<in> snd ` spans c then 0 else ld buf i)"
proof (induction c arbitrary: buf)
  case (EXEC ws)
  show ?case by (induction ws arbitrary: buf) (auto simp: ld_update)
qed (auto simp: ld_update)

text \<open>A line: \<open>es\<close> is the position of its first NUL.\<close>

locale shell_line =
  fixes buf :: bytes and es :: nat
  assumes nul: "ld buf es = 0" and text_char: "i < es \<Longrightarrow> ld buf i \<noteq> 0"
begin

abbreviation skip :: "nat \<Rightarrow> nat" where
  "skip \<equiv> skip_ws buf es"

text \<open>A word: bytes that are neither blanks nor symbols, as many as there are.\<close>

definition span_ok :: "span \<Rightarrow> bool" where
  "span_ok w \<longleftrightarrow> fst w < snd w \<and> snd w \<le> es \<and> (\<forall>i. fst w \<le> i \<longrightarrow> i < snd w \<longrightarrow> word_char (ld buf i)) \<and>
     \<not> word_char (ld buf (snd w))"

lemma skip_spec: "s \<le> es \<Longrightarrow> s \<le> skip s \<and> skip s \<le> es \<and> (ld buf (skip s) \<notin> set whitespace)"
proof (induction "es - s" arbitrary: s)
  case 0
  with nul show ?case by (simp add: skip_ws.simps whitespace_def)
next
  case (Suc d)
  show ?case
  proof (cases "s < es \<and> ld buf s \<in> set whitespace")
    case True
    with Suc(1) [of "Suc s"] Suc(2) have "Suc s \<le> skip (Suc s) \<and> skip (Suc s) \<le> es \<and> ld buf (skip (Suc s)) \<notin> set whitespace"
      by simp
    moreover have "skip s = skip (Suc s)" using True by (subst skip_ws.simps) simp
    ultimately show ?thesis by simp
  next
    case False
    then have "skip s = s" by (subst skip_ws.simps) auto
    with False Suc show ?thesis by auto
  qed
qed

lemma skip_nonblank: "ld buf s \<notin> set whitespace \<Longrightarrow> skip s = s"
  by (simp add: skip_ws.simps)

lemma skip_skip [simp]: "s \<le> es \<Longrightarrow> skip (skip s) = skip s"
  using skip_spec by (intro skip_nonblank) simp

lemma at_end: "s \<le> es \<Longrightarrow> ld buf s = 0 \<longleftrightarrow> s = es"
  using nul text_char [of s] by (cases "s = es") auto

lemma word_end_spec:
  "s \<le> es \<Longrightarrow> s \<le> word_end buf es s \<and> word_end buf es s \<le> es \<and>
   (\<forall>i. s \<le> i \<longrightarrow> i < word_end buf es s \<longrightarrow> word_char (ld buf i)) \<and> \<not> word_char (ld buf (word_end buf es s))"
proof (induction "es - s" arbitrary: s)
  case 0
  with nul show ?case by (simp add: word_end.simps word_char_def)
next
  case (Suc d)
  show ?case
  proof (cases "s < es \<and> ld buf s \<notin> set whitespace \<and> ld buf s \<notin> set symbols")
    case True
    with Suc(1) [of "Suc s"] Suc(2) have *: "Suc s \<le> word_end buf es (Suc s) \<and> word_end buf es (Suc s) \<le> es \<and>
       (\<forall>i. Suc s \<le> i \<longrightarrow> i < word_end buf es (Suc s) \<longrightarrow> word_char (ld buf i)) \<and>
       \<not> word_char (ld buf (word_end buf es (Suc s)))"
      by simp
    moreover have "word_end buf es s = word_end buf es (Suc s)" using True by (subst word_end.simps) simp
    moreover have "word_char (ld buf s)" using True text_char by (simp add: word_char_def)
    ultimately show ?thesis by (metis Suc_leD le_antisym not_less_eq_eq)
  next
    case False
    then have "word_end buf es s = s" by (subst word_end.simps) auto
    with False Suc show ?thesis by (auto simp: word_char_def)
  qed
qed

lemma gettoken_spec:
  assumes "s \<le> es" and "gettoken buf es s = (k, (q, e), s')"
  shows "q = skip s" "s \<le> s'" "s' \<le> es" "q < es \<Longrightarrow> s < s'" "k = 97 \<Longrightarrow> span_ok (q, e)" "k = 0 \<longleftrightarrow> q = es"
proof -
  note sk = skip_spec [OF assms(1)]
  show q: "q = skip s" using assms(2) by (auto simp: gettoken_def Let_def split: prod.splits if_splits)
  have e: "q \<le> e \<and> e \<le> es \<and> (q < es \<longrightarrow> q < e) \<and> (k = 97 \<longrightarrow> span_ok (q, e)) \<and> (k = 0 \<longleftrightarrow> q = es) \<and> s' = skip e"
  proof (cases "q = es")
    case True
    then show ?thesis using assms(2) q nul by (auto simp: gettoken_def Let_def)
  next
    case False
    then have lt: "q < es" and nz: "ld buf q \<noteq> 0" using sk q text_char [of q] by auto
    have dbl: "ld buf (Suc q) = 62 \<Longrightarrow> Suc q < es" using lt nul by (cases "Suc q = es") auto
    show ?thesis
    proof (cases "ld buf q \<in> {124, 40, 41, 59, 38, 60, 62}")
      case True
      then show ?thesis using assms(2) lt nz dbl by (auto simp: gettoken_def Let_def q [symmetric] split: if_splits)
    next
      case sym: False
      then have "word_char (ld buf q)" using sk q nz by (simp add: word_char_def symbols_def)
      moreover from this word_end_spec [of q] lt have "q < word_end buf es q" by (metis le_neq_implies_less less_imp_le)
      ultimately show ?thesis
        using assms(2) lt nz sym word_end_spec [of q] by (auto simp: gettoken_def Let_def q [symmetric] span_ok_def)
    qed
  qed
  then have "e \<le> s'" "s' \<le> es" using skip_spec [of e] by auto
  with e sk q show "s \<le> s'" "s' \<le> es" "q < es \<Longrightarrow> s < s'" "k = 97 \<Longrightarrow> span_ok (q, e)" "k = 0 \<longleftrightarrow> q = es"
    by auto
qed

lemma peek_spec:
  assumes "s \<le> es" and "peek buf es toks s = (b, s')"
  shows "s' = skip s" "s \<le> s'" "s' \<le> es" "b \<longleftrightarrow> s' < es \<and> ld buf s' \<in> set toks"
  using assms skip_spec [OF assms(1)] at_end [of s'] by (auto simp: peek_def Let_def)

section \<open>The parser always ends\<close>

definition all_words :: "span cmd \<Rightarrow> bool" where
  "all_words c \<longleftrightarrow> (\<forall>w\<in>spans c. span_ok w) \<and> args_fit c"

lemma all_words_simps [simp]:
  "all_words (EXEC ws) \<longleftrightarrow> (\<forall>w\<in>set ws. span_ok w) \<and> length ws < MAXARGS"
  "all_words (REDIR c f m fd) \<longleftrightarrow> all_words c \<and> span_ok f"
  "all_words (PIPE c d) \<longleftrightarrow> all_words c \<and> all_words d"
  "all_words (LIST c d) \<longleftrightarrow> all_words c \<and> all_words d"
  "all_words (BACK c) \<longleftrightarrow> all_words c"
  by (auto simp: all_words_def)

lemma all_words_add: "all_words c \<Longrightarrow> span_ok w \<Longrightarrow> Suc (nargs c) < MAXARGS \<Longrightarrow> all_words (add_arg w c)"
  by (induction c) auto

text \<open>\<open>ends s r\<close>: a parser started at \<open>s\<close> has returned a command made of words of the line, at a position
  that is not before \<open>s\<close>, or has reported a syntax error.\<close>

definition ends :: "nat \<Rightarrow> (span cmd \<times> nat) res \<Rightarrow> bool" where
  "ends s r \<longleftrightarrow> (\<exists>e. r = Panic e) \<or> (\<exists>c s'. r = Ok (c, s') \<and> s \<le> s' \<and> s' \<le> es \<and> all_words c)"

lemma ends_Ok: "s \<le> s' \<Longrightarrow> s' \<le> es \<Longrightarrow> all_words c \<Longrightarrow> ends s (Ok (c, s'))"
  by (simp add: ends_def)

lemma ends_Panic [simp]: "ends s (Panic e)"
  by (simp add: ends_def)

lemma ends_bind:
  assumes "ends s m" and "\<And>c s'. s \<le> s' \<Longrightarrow> s' \<le> es \<Longrightarrow> all_words c \<Longrightarrow> m = Ok (c, s') \<Longrightarrow> ends s (f (c, s'))"
  shows "ends s (rbind m f)"
proof -
  from assms(1) consider e where "m = Panic e" | c s' where "m = Ok (c, s')" "s \<le> s'" "s' \<le> es" "all_words c"
    by (auto simp: ends_def)
  then show ?thesis by cases (use assms(2) in simp_all)
qed

lemma ends_mono: "ends s' r \<Longrightarrow> s \<le> s' \<Longrightarrow> ends s r"
  by (auto simp: ends_def)

text \<open>What \<open>peek\<close> and a following \<open>gettoken\<close> do to the position.\<close>

lemma peek_cases:
  assumes "s \<le> es"
  obtains b s' where "peek buf es toks s = (b, s')" "s \<le> s'" "s' \<le> es" "skip s' = s'" "b \<Longrightarrow> s' < es"
proof -
  obtain b s' where p: "peek buf es toks s = (b, s')" by fastforce
  with peek_spec [OF assms p] assms that show thesis by auto
qed

lemma gettoken_cases:
  assumes "s \<le> es"
  obtains k w s' where "gettoken buf es s = (k, w, s')" "s \<le> s'" "s' \<le> es" "s < es \<Longrightarrow> skip s = s \<Longrightarrow> s < s'"
    "k = 97 \<Longrightarrow> span_ok w" "k \<noteq> 0 \<Longrightarrow> s < s'"
proof -
  obtain k q e s' where g: "gettoken buf es s = (k, (q, e), s')" by (metis prod.collapse)
  note gs = gettoken_spec [OF assms g]
  have "k \<noteq> 0 \<Longrightarrow> s < s'" using gs skip_spec [OF assms] by auto
  with g gs that show thesis by auto
qed

lemma parseredirs_ends:
  "es - s < n \<Longrightarrow> s \<le> es \<Longrightarrow> all_words cmd \<Longrightarrow> ends s (parseredirs n buf es cmd s)"
proof (induction n arbitrary: cmd s)
  case (Suc n)
  from peek_cases [OF Suc.prems(2), of "[60, 62]"] obtain b s1 where
    p: "peek buf es [60, 62] s = (b, s1)" "s \<le> s1" "s1 \<le> es" "skip s1 = s1" "b \<Longrightarrow> s1 < es" by metis
  show ?case
  proof (cases b)
    case False
    with p Suc.prems show ?thesis by (simp add: ends_Ok)
  next
    case True
    from gettoken_cases [OF p(3)] obtain tok w s2 where
      g: "gettoken buf es s1 = (tok, w, s2)" "s1 \<le> s2" "s2 \<le> es" "s1 < es \<Longrightarrow> skip s1 = s1 \<Longrightarrow> s1 < s2" by metis
    from gettoken_cases [OF g(3)] obtain k v s3 where
      h: "gettoken buf es s2 = (k, v, s3)" "s2 \<le> s3" "s3 \<le> es" "k = 97 \<Longrightarrow> span_ok v" by metis
    have "s < s3" using p g h True by auto
    then have "ends s3 (parseredirs n buf es c s3)" if "all_words c" for c
      using that Suc h(3) by simp
    then have "ends s (parseredirs n buf es c s3)" if "all_words c" for c
      using that ends_mono \<open>s < s3\<close> less_imp_le by blast
    then show ?thesis using p(1) g(1) h(1,4) True Suc.prems(3) by simp
  qed
qed simp

lemma parseargs_ends:
  "es - s < n \<Longrightarrow> s \<le> es \<Longrightarrow> all_words ret \<Longrightarrow> nargs ret \<le> argc \<Longrightarrow> ends s (parseargs n buf es argc ret s)"
proof (induction n arbitrary: argc ret s)
  case (Suc n)
  from peek_cases [OF Suc.prems(2), of "[124, 41, 38, 59]"] obtain b s1 where
    p: "peek buf es [124, 41, 38, 59] s = (b, s1)" "s \<le> s1" "s1 \<le> es" by metis
  from gettoken_cases [OF p(3)] obtain tok w s2 where
    g: "gettoken buf es s1 = (tok, w, s2)" "s1 \<le> s2" "s2 \<le> es" "tok = 97 \<Longrightarrow> span_ok w" "tok \<noteq> 0 \<Longrightarrow> s1 < s2" by metis
  show ?case
  proof (cases "\<not> b \<and> tok = 97 \<and> \<not> MAXARGS \<le> Suc argc")
    case True
    then have lt: "s < s2" using g(5) p(2) by simp
    have "all_words (add_arg w ret)" using Suc.prems(3,4) g(4) True by (simp add: all_words_add)
    with lt g(3) Suc.prems(1) have "ends s2 (parseredirs n buf es (add_arg w ret) s2)" by (intro parseredirs_ends) simp_all
    then have "ends s2 (rbind (parseredirs n buf es (add_arg w ret) s2) (\<lambda>(ret, s). parseargs n buf es (Suc argc) ret s))"
    proof (rule ends_bind)
      fix c s' assume "s2 \<le> s'" "s' \<le> es" "all_words c" and r: "parseredirs n buf es (add_arg w ret) s2 = Ok (c, s')"
      moreover have "nargs c \<le> Suc argc"
        using parseredirs_nargs [OF r] nargs_add_arg [of w ret] Suc.prems(4) by simp
      moreover from \<open>s2 \<le> s'\<close> \<open>s' \<le> es\<close> lt Suc.prems(1) have "es - s' < n" by linarith
      ultimately show "ends s2 (case (c, s') of (ret, s) \<Rightarrow> parseargs n buf es (Suc argc) ret s)"
        using Suc.IH [of s' c "Suc argc"] by (auto intro: ends_mono)
    qed
    then have "ends s (rbind (parseredirs n buf es (add_arg w ret) s2) (\<lambda>(ret, s). parseargs n buf es (Suc argc) ret s))"
      by (rule ends_mono) (use lt in simp)
    with True p(1) g(1) show ?thesis by simp
  next
    case False
    with p g Suc.prems(3) show ?thesis by (auto simp: ends_Ok)
  qed
qed simp

lemma parseexec_ends:
  assumes pl: "\<And>s'. s < s' \<Longrightarrow> s' \<le> es \<Longrightarrow> ends s' (pl s')" and "es - s < n" and "s \<le> es"
  shows "ends s (parseexec pl n buf es s)"
proof -
  from peek_cases [OF assms(3), of "[40]"] obtain b s1 where
    p: "peek buf es [40] s = (b, s1)" "s \<le> s1" "s1 \<le> es" "skip s1 = s1" "b \<Longrightarrow> s1 < es" by metis
  show ?thesis
  proof (cases b)
    case False
    have "ends s1 (rbind (parseredirs n buf es (EXEC []) s1) (\<lambda>(ret, s). parseargs n buf es 0 ret s))"
    proof (rule ends_bind)
      show "ends s1 (parseredirs n buf es (EXEC []) s1)"
        by (rule parseredirs_ends) (use p assms(2) in simp_all)
      fix c s' assume "s1 \<le> s'" "s' \<le> es" "all_words c" and r: "parseredirs n buf es (EXEC []) s1 = Ok (c, s')"
      then have "ends s' (parseargs n buf es 0 c s')"
        using p(2) assms(2) parseredirs_nargs [OF r] by (intro parseargs_ends) simp_all
      then show "ends s1 (case (c, s') of (ret, s) \<Rightarrow> parseargs n buf es 0 ret s)"
        using \<open>s1 \<le> s'\<close> by (auto intro: ends_mono)
    qed
    with False p(1) ends_mono [OF _ p(2)] show ?thesis by (simp add: parseexec_def)
  next
    case True
    from gettoken_cases [OF p(3)] obtain k w s2 where
      g: "gettoken buf es s1 = (k, w, s2)" "s1 \<le> s2" "s2 \<le> es" "s1 < es \<Longrightarrow> skip s1 = s1 \<Longrightarrow> s1 < s2" by metis
    have lt: "s < s2" using g(4) p True by auto
    have tail: "ends s' (let (close_p, s) = peek buf es [41] s' in
        if \<not> close_p then Panic ''syntax - missing )''
        else let (_, _, s) = gettoken buf es s in parseredirs n buf es c s)"
      if s': "s2 \<le> s'" "s' \<le> es" and c: "all_words c" for c s'
    proof -
      from peek_cases [OF s'(2), of "[41]"] obtain b3 s3 where
        q: "peek buf es [41] s' = (b3, s3)" "s' \<le> s3" "s3 \<le> es" by metis
      from gettoken_cases [OF q(3)] obtain k4 w4 s4 where
        h: "gettoken buf es s3 = (k4, w4, s4)" "s3 \<le> s4" "s4 \<le> es" by metis
      have "ends s4 (parseredirs n buf es c s4)"
        using lt s' q h assms(2) c by (intro parseredirs_ends) simp_all
      then have "ends s' (parseredirs n buf es c s4)" by (rule ends_mono) (use q h in simp)
      with q(1) h(1) show ?thesis by simp
    qed
    have "ends s2 (rbind (pl s2) (\<lambda>(cmd, s). let (close_p, s) = peek buf es [41] s in
        if \<not> close_p then Panic ''syntax - missing )''
        else let (_, _, s) = gettoken buf es s in parseredirs n buf es cmd s))"
    proof (rule ends_bind [OF pl [OF lt g(3)]])
      fix c s' assume "s2 \<le> s'" "s' \<le> es" "all_words c"
      with tail [of s' c] show "ends s2 (case (c, s') of (cmd, s) \<Rightarrow> let (close_p, s) = peek buf es [41] s in
        if \<not> close_p then Panic ''syntax - missing )''
        else let (_, _, s) = gettoken buf es s in parseredirs n buf es cmd s)" by (auto intro: ends_mono)
    qed
    then have *: "ends s (rbind (pl s2) (\<lambda>(cmd, s). let (close_p, s) = peek buf es [41] s in
        if \<not> close_p then Panic ''syntax - missing )''
        else let (_, _, s) = gettoken buf es s in parseredirs n buf es cmd s))"
      by (rule ends_mono) (use lt in simp)
    have "peek buf es [40] s1 = (True, s1)" using p True skip_skip peek_def by (auto simp: peek_def Let_def)
    with * p(1) g(1) True show ?thesis by (simp add: parseexec_def parseblock_def)
  qed
qed

lemma parsepipe_ends:
  assumes pl: "\<And>s'. s0 < s' \<Longrightarrow> s' \<le> es \<Longrightarrow> ends s' (pl s')"
  shows "s0 \<le> s \<Longrightarrow> es - s + 1 < n \<Longrightarrow> s \<le> es \<Longrightarrow> ends s (parsepipe n pl buf es s)"
proof (induction n arbitrary: s)
  case (Suc n)
  have "ends s (parseexec pl n buf es s)"
    by (rule parseexec_ends) (use pl Suc.prems in simp_all)
  then have "ends s (rbind (parseexec pl n buf es s) (\<lambda>(cmd, s). let (bar, s) = peek buf es [124] s in
     if bar then let (_, _, s) = gettoken buf es s in rbind (parsepipe n pl buf es s) (\<lambda>(right, s). Ok (PIPE cmd right, s))
     else Ok (cmd, s)))"
  proof (rule ends_bind)
    fix c s' assume s': "s \<le> s'" "s' \<le> es" "all_words c"
    from peek_cases [OF s'(2), of "[124]"] obtain b s1 where
      p: "peek buf es [124] s' = (b, s1)" "s' \<le> s1" "s1 \<le> es" "skip s1 = s1" "b \<Longrightarrow> s1 < es" by metis
    from gettoken_cases [OF p(3)] obtain k w s2 where
      g: "gettoken buf es s1 = (k, w, s2)" "s1 \<le> s2" "s2 \<le> es" "s1 < es \<Longrightarrow> skip s1 = s1 \<Longrightarrow> s1 < s2" by metis
    have "ends s (rbind (parsepipe n pl buf es s2) (\<lambda>(right, s). Ok (PIPE c right, s)))" if b
    proof -
      have lt: "s < s2" using g(4) p s' that by auto
      then have "es - s2 + 1 < n" using Suc.prems g(3) by linarith
      with Suc.IH [of s2] lt Suc.prems g(3) have "ends s2 (parsepipe n pl buf es s2)" by simp
      then have "ends s2 (rbind (parsepipe n pl buf es s2) (\<lambda>(right, s). Ok (PIPE c right, s)))"
        by (rule ends_bind) (use s'(3) in \<open>simp add: ends_Ok\<close>)
      then show ?thesis by (rule ends_mono) (use lt in simp)
    qed
    with p(1-3) g(1) s' show "ends s (case (c, s') of (cmd, s) \<Rightarrow> let (bar, s) = peek buf es [124] s in
     if bar then let (_, _, s) = gettoken buf es s in rbind (parsepipe n pl buf es s) (\<lambda>(right, s). Ok (PIPE cmd right, s))
     else Ok (cmd, s))" by (auto simp: ends_Ok)
  qed
  then show ?case by simp
qed simp

lemma parsebacks_ends:
  "es - s < n \<Longrightarrow> s \<le> es \<Longrightarrow> all_words cmd \<Longrightarrow> ends s (parsebacks n buf es cmd s)"
proof (induction n arbitrary: cmd s)
  case (Suc n)
  from peek_cases [OF Suc.prems(2), of "[38]"] obtain b s1 where
    p: "peek buf es [38] s = (b, s1)" "s \<le> s1" "s1 \<le> es" "skip s1 = s1" "b \<Longrightarrow> s1 < es" by metis
  from gettoken_cases [OF p(3)] obtain k w s2 where
    g: "gettoken buf es s1 = (k, w, s2)" "s1 \<le> s2" "s2 \<le> es" "s1 < es \<Longrightarrow> skip s1 = s1 \<Longrightarrow> s1 < s2" by metis
  have "ends s (parsebacks n buf es (BACK cmd) s2)" if b
  proof -
    have lt: "s < s2" using g(4) p that by auto
    then have "es - s2 < n" using Suc.prems g(3) by linarith
    with Suc.IH [of s2 "BACK cmd"] Suc.prems(3) g(3) have "ends s2 (parsebacks n buf es (BACK cmd) s2)" by simp
    then show ?thesis by (rule ends_mono) (use lt in simp)
  qed
  with p g Suc.prems(3) show ?case by (simp add: ends_Ok)
qed simp

lemma parseline_ends: "es - s + 2 < n \<Longrightarrow> s \<le> es \<Longrightarrow> ends s (parseline n buf es s)"
proof (induction n arbitrary: s)
  case (Suc n)
  let ?tail = "\<lambda>(cmd, s). let (semi, s) = peek buf es [59] s in
     if semi then let (_, _, s) = gettoken buf es s in rbind (parseline n buf es s) (\<lambda>(right, s). Ok (LIST cmd right, s))
     else Ok (cmd, s)"
  have tail: "ends s' (?tail (c, s'))" if s': "s \<le> s'" "s' \<le> es" "all_words c" for c s'
  proof -
    from peek_cases [OF s'(2), of "[59]"] obtain b s1 where
      p: "peek buf es [59] s' = (b, s1)" "s' \<le> s1" "s1 \<le> es" "skip s1 = s1" "b \<Longrightarrow> s1 < es" by metis
    from gettoken_cases [OF p(3)] obtain k w s2 where
      g: "gettoken buf es s1 = (k, w, s2)" "s1 \<le> s2" "s2 \<le> es" "s1 < es \<Longrightarrow> skip s1 = s1 \<Longrightarrow> s1 < s2" by metis
    have "ends s' (rbind (parseline n buf es s2) (\<lambda>(right, s). Ok (LIST c right, s)))" if b
    proof -
      have lt: "s' < s2" using g(4) p that by auto
      then have "es - s2 + 2 < n" using Suc.prems s' g(3) by linarith
      with Suc.IH [of s2] g(3) have "ends s2 (parseline n buf es s2)" by simp
      then have "ends s2 (rbind (parseline n buf es s2) (\<lambda>(right, s). Ok (LIST c right, s)))"
        by (rule ends_bind) (use s'(3) in \<open>simp add: ends_Ok\<close>)
      then show ?thesis by (rule ends_mono) (use lt in simp)
    qed
    with p(1-3) g(1) s' show ?thesis by (auto simp: ends_Ok)
  qed
  have "ends s (parsepipe n (parseline n buf es) buf es s)"
  proof (rule parsepipe_ends)
    fix s' assume "s < s'" "s' \<le> es"
    moreover from this Suc.prems have "es - s' + 2 < n" by linarith
    ultimately show "ends s' (parseline n buf es s')" using Suc.IH by simp
  qed (use Suc.prems in simp_all)
  then have "ends s (rbind (parsepipe n (parseline n buf es) buf es s) (\<lambda>(cmd, s). rbind (parsebacks n buf es cmd s) ?tail))"
  proof (rule ends_bind)
    fix c s' assume s': "s \<le> s'" "s' \<le> es" "all_words c"
    have "ends s' (parsebacks n buf es c s')" using s' Suc.prems by (intro parsebacks_ends) simp_all
    then have "ends s' (rbind (parsebacks n buf es c s') ?tail)"
    proof (rule ends_bind)
      fix d t assume "s' \<le> t" "t \<le> es" "all_words d"
      with tail [of t d] s'(1) show "ends s' (?tail (d, t))" by (meson ends_mono le_trans)
    qed
    with s'(1) show "ends s (case (c, s') of (cmd, s) \<Rightarrow> rbind (parsebacks n buf es cmd s) ?tail)"
      by (simp add: ends_mono)
  qed
  then show ?case by simp
qed simp

section \<open>The words after \<open>nulterminate\<close>\<close>

lemma es_le: "es \<le> length buf"
proof (rule ccontr)
  assume "\<not> es \<le> length buf"
  then have "ld buf (length buf) \<noteq> 0" by (intro text_char) simp
  then show False by (simp add: ld_def)
qed

lemma span_ok_string:
  assumes w: "span_ok (q, e)" and z: "\<And>i. ld b i = (if i \<in> E then 0 else ld buf i)" and len: "length b = length buf"
    and E: "e \<in> E" "\<And>i. i \<in> E \<Longrightarrow> \<not> word_char (ld buf i)"
  shows "string_at b q = slice q (e - q) buf"
proof -
  have lt: "q < e" "e \<le> length buf" using w es_le by (simp_all add: span_ok_def)
  have inside: "ld b i = ld buf i \<and> ld b i \<noteq> 0" if "q \<le> i" "i < e" for i
  proof -
    have "word_char (ld buf i)" using w that by (simp add: span_ok_def)
    with E(2) [of i] z [of i] show ?thesis by (auto simp: word_char_def)
  qed
  have bl: "take (e - q) (drop q b) = slice q (e - q) buf"
  proof (rule nth_equalityI)
    fix k assume "k < length (take (e - q) (drop q b))"
    then have k: "k < e - q" by simp
    then have "ld b (q + k) = ld buf (q + k)" using inside [of "q + k"] by simp
    moreover have "q + k < length buf" using k lt by linarith
    ultimately show "take (e - q) (drop q b) ! k = slice q (e - q) buf ! k"
      using k lt len by (simp add: ld_def nth_slice)
  qed (use lt len in simp)
  have all: "\<forall>x\<in>set (take (e - q) (drop q b)). x \<noteq> 0"
  proof
    fix x assume "x \<in> set (take (e - q) (drop q b))"
    then obtain k where "k < e - q" "x = b ! (q + k)" using lt len by (auto simp: in_set_conv_nth)
    moreover from this have "q + k < e" by simp
    ultimately show "x \<noteq> 0" using inside [of "q + k"] lt len by (auto simp: ld_def)
  qed
  have "takeWhile (\<lambda>c. c \<noteq> 0) (drop (e - q) (drop q b)) = []"
  proof (cases "e < length b")
    case True
    then have "b ! e = 0" using z [of e] E(1) by (simp add: ld_def)
    moreover have "drop (e - q) (drop q b) = b ! e # drop (Suc e) b"
      using True lt Cons_nth_drop_Suc [of e b] by simp
    ultimately show ?thesis by simp
  next
    case False
    with lt show ?thesis by simp
  qed
  moreover have "takeWhile (\<lambda>c. c \<noteq> 0) (take (e - q) (drop q b) @ drop (e - q) (drop q b)) =
      take (e - q) (drop q b) @ takeWhile (\<lambda>c. c \<noteq> 0) (drop (e - q) (drop q b))"
    using all by (intro takeWhile_append2) blast
  ultimately have "takeWhile (\<lambda>c. c \<noteq> 0) (drop q b) = take (e - q) (drop q b)"
    unfolding append_take_drop_id by simp
  with bl show ?thesis by (simp add: string_at_def)
qed

end

interpretation line_of: shell_line buf "strlen buf" for buf
  by unfold_locales (use strlen_at_end [of 0 buf] in \<open>auto simp: strlen_def\<close>)

lemma parseline_words: "parseline (strlen buf + 3) buf (strlen buf) 0 = Ok (c, s) \<Longrightarrow> line_of.all_words buf c"
  using line_of.parseline_ends [of buf 0 "strlen buf + 3"] by (auto simp: line_of.ends_def)

lemma words_strings:
  assumes "line_of.all_words buf c" and w: "(q, e) \<in> spans c"
  shows "string_at (nulterminate c buf) q = slice q (e - q) buf"
proof -
  have ok: "line_of.span_ok buf v" if "v \<in> spans c" for v using assms(1) that by (simp add: line_of.all_words_def)
  show ?thesis
  proof (rule line_of.span_ok_string [OF ok [OF w], where E = "snd ` spans c"])
    show "e \<in> snd ` spans c" using w by force
    show "\<not> word_char (ld buf i)" if "i \<in> snd ` spans c" for i
      using that ok by (auto simp: line_of.span_ok_def)
  qed (simp_all add: ld_nulterminate)
qed

text \<open>C30. The parser of the shell ends on every line: it returns a command or reports a syntax error, and the
  fuel is never used up.  No argument list of the command exceeds \<open>argv\<close>, and after \<open>nulterminate\<close> every word
  of the command is, as a C string in the line, exactly the text of the token: a run of bytes without blanks
  and symbols.  In particular the NULs put at the ends of the words destroy no other word.\<close>

theorem parsecmd_total:
  "case parsecmd buf of
     Ok (c, b) \<Rightarrow> length b = length buf \<and> args_fit c \<and>
       (\<forall>(q, e)\<in>spans c. q < e \<and> e \<le> strlen buf \<and> string_at b q = slice q (e - q) buf \<and>
          (\<forall>x\<in>set (slice q (e - q) buf). word_char x))
   | Panic e \<Rightarrow> True
   | _ \<Rightarrow> False"
proof -
  let ?es = "strlen buf"
  have "line_of.ends buf 0 (parseline (?es + 3) buf ?es 0)" by (rule line_of.parseline_ends) simp_all
  then consider e where "parseline (?es + 3) buf ?es 0 = Panic e"
    | c s where "parseline (?es + 3) buf ?es 0 = Ok (c, s)" "line_of.all_words buf c"
    unfolding line_of.ends_def by blast
  then show ?thesis
  proof cases
    case 1
    then show ?thesis by (simp add: parsecmd_def Let_def)
  next
    case (2 c s)
    have "args_fit c" using 2(2) by (simp add: line_of.all_words_def)
    moreover have "q < e \<and> e \<le> ?es \<and> string_at (nulterminate c buf) q = slice q (e - q) buf \<and>
        (\<forall>x\<in>set (slice q (e - q) buf). word_char x)" if w: "(q, e) \<in> spans c" for q e
    proof -
      have ok: "line_of.span_ok buf v" if "v \<in> spans c" for v using 2(2) that by (simp add: line_of.all_words_def)
      note wq = ok [OF w, unfolded line_of.span_ok_def fst_conv snd_conv]
      have "string_at (nulterminate c buf) q = slice q (e - q) buf" by (rule words_strings [OF 2(2) w])
      moreover have "word_char x" if "x \<in> set (slice q (e - q) buf)" for x
      proof -
        have "e \<le> length buf" using wq line_of.es_le [of buf] by linarith
        with that wq obtain k where "k < e - q" "x = buf ! (q + k)"
          by (auto simp: in_set_conv_nth nth_slice)
        then have "q + k < e" by simp
        with wq have "word_char (ld buf (q + k))" by simp
        with \<open>q + k < e\<close> \<open>e \<le> length buf\<close> \<open>x = buf ! (q + k)\<close> show ?thesis by (simp add: ld_def)
      qed
      ultimately show ?thesis using wq by blast
    qed
    ultimately show ?thesis using 2(1) by (auto simp: parsecmd_def Let_def split: prod.splits)
  qed
qed

theorem parsecmd_total_witness:
  "case parsecmd [108, 115, 62, 102, 10] of
     Ok (c, b) \<Rightarrow> c = REDIR (EXEC [(0, 2)]) (3, 4) O_WRONLY_CREATE 1 \<and> string_at b 0 = [108, 115] \<and> string_at b 3 = [102]
   | _ \<Rightarrow> False"
proof -
  have "parsecmd [108, 115, 62, 102, 10] =
      Ok (REDIR (EXEC [(0, 2)]) (3, 4) O_WRONLY_CREATE 1, [108, 115, 0, 102, 0])" by code_simp
  with parsecmd_total [of "[108, 115, 62, 102, 10]"] show ?thesis by (simp add: slice_def)
qed

end
