(* ===== verification/Unparse.thy ===== *)
theory Unparse imports Shell begin

text \<open>
  The grammar of the shell, as a printer: \<open>unparse\<close> writes a command so that \<open>parsecmd\<close> reads it back.
  The level says where the command stands: 0 is a line, 1 what may come before \<open>;\<close>, 2 a pipeline, 3 what
  may come before a bar; a command of a lower level is put in parentheses.
\<close>

section \<open>Printing commands\<close>

definition paren :: "bool \<Rightarrow> bytes \<Rightarrow> bytes" where
  "paren p bs = (if p then 40 # bs @ [41] else bs)"

primrec unparse :: "nat \<Rightarrow> bytes cmd \<Rightarrow> bytes" where
  "unparse p (EXEC ws) = concat (map (\<lambda>w. w @ [32]) ws)"
| "unparse p (REDIR c f m fd) = unparse 3 c @ (if fd = 0 then 60 else 62) # f @ [32]"
| "unparse p (PIPE c d) = paren (2 < p) (unparse 3 c @ 124 # unparse 2 d)"
| "unparse p (BACK c) = paren (1 < p) (unparse 1 c @ [38])"
| "unparse p (LIST c d) = paren (0 < p) (unparse 1 c @ 59 # unparse 0 d)"

definition word :: "bytes \<Rightarrow> bool" where
  "word w \<longleftrightarrow> w \<noteq> [] \<and> (\<forall>c\<in>set w. word_char c)"

primrec cmd_ok :: "bytes cmd \<Rightarrow> bool" where
  "cmd_ok (EXEC ws) \<longleftrightarrow> length ws < MAXARGS \<and> (\<forall>w\<in>set ws. word w)"
| "cmd_ok (REDIR c f m fd) \<longleftrightarrow> cmd_ok c \<and> word f \<and> ((m, fd) = (O_RDONLY, 0) \<or> (m, fd) = (O_WRONLY_CREATE, 1))"
| "cmd_ok (PIPE c d) \<longleftrightarrow> cmd_ok c \<and> cmd_ok d"
| "cmd_ok (LIST c d) \<longleftrightarrow> cmd_ok c \<and> cmd_ok d"
| "cmd_ok (BACK c) \<longleftrightarrow> cmd_ok c"

section \<open>Redirections and background marks taken apart\<close>

primrec inner :: "'w cmd \<Rightarrow> 'w cmd" where
  "inner (EXEC ws) = EXEC ws"
| "inner (REDIR c f m fd) = inner c"
| "inner (PIPE c d) = PIPE c d"
| "inner (LIST c d) = LIST c d"
| "inner (BACK c) = BACK c"

primrec redirs :: "'w cmd \<Rightarrow> ('w \<times> bool) list" where
  "redirs (EXEC ws) = []"
| "redirs (REDIR c f m fd) = redirs c @ [(f, fd = 0)]"
| "redirs (PIPE c d) = []"
| "redirs (LIST c d) = []"
| "redirs (BACK c) = []"

definition wrap :: "'w cmd \<Rightarrow> 'w \<times> bool \<Rightarrow> 'w cmd" where
  "wrap c = (\<lambda>(f, inp). if inp then REDIR c f O_RDONLY 0 else REDIR c f O_WRONLY_CREATE 1)"

definition show_redir :: "bytes \<times> bool \<Rightarrow> bytes" where
  "show_redir = (\<lambda>(f, inp). (if inp then 60 else 62) # f @ [32])"

lemma wrap_inner: "cmd_ok c \<Longrightarrow> foldl wrap (inner c) (redirs c) = c"
  by (induction c) (auto simp: wrap_def)

lemma unparse_redirs: "unparse 3 c = unparse 3 (inner c) @ concat (map show_redir (redirs c))"
  by (induction c) (auto simp: show_redir_def)

lemma redirs_words: "cmd_ok c \<Longrightarrow> (f, i) \<in> set (redirs c) \<Longrightarrow> word f"
  by (induction c) auto

lemma inner_ok: "cmd_ok c \<Longrightarrow> cmd_ok (inner c)"
  by (induction c) auto

lemma inner_size: "size (inner c) \<le> size c"
  by (induction c) auto

lemma inner_not_redir: "inner c \<noteq> REDIR d f m fd"
  by (induction c) auto

primrec front :: "'w cmd \<Rightarrow> 'w cmd" where
  "front (EXEC ws) = EXEC ws"
| "front (REDIR c f m fd) = REDIR c f m fd"
| "front (PIPE c d) = PIPE c d"
| "front (LIST c d) = LIST c d"
| "front (BACK c) = front c"

primrec backs :: "'w cmd \<Rightarrow> nat" where
  "backs (EXEC ws) = 0"
| "backs (REDIR c f m fd) = 0"
| "backs (PIPE c d) = 0"
| "backs (LIST c d) = 0"
| "backs (BACK c) = Suc (backs c)"

lemma front_backs: "(BACK ^^ backs c) (front c) = c"
  by (induction c) auto

lemma unparse_backs: "unparse 1 c = unparse 2 (front c) @ replicate (backs c) 38"
  by (induction c) (simp_all add: paren_def replicate_append_same)

lemma front_ok: "cmd_ok c \<Longrightarrow> cmd_ok (front c)"
  by (induction c) auto

lemma front_size: "size (front c) \<le> size c"
  by (induction c) auto

section \<open>Text on the line\<close>

context shell_line begin

text \<open>\<open>x\<close> stands at position \<open>s\<close>.\<close>

definition stands :: "nat \<Rightarrow> bytes \<Rightarrow> bool" where
  "stands s x \<longleftrightarrow> s + length x \<le> es \<and> (\<forall>i<length x. ld buf (s + i) = x ! i)"

definition text_of :: "span cmd \<Rightarrow> bytes cmd" where
  "text_of = map_cmd (\<lambda>(q, e). slice q (e - q) buf)"

lemma stands_append: "stands s (x @ y) \<longleftrightarrow> stands s x \<and> stands (s + length x) y"
proof
  assume a: "stands s (x @ y)"
  have "ld buf (s + i) = x ! i" if "i < length x" for i
    using a that by (auto simp: stands_def nth_append)
  moreover have "ld buf (s + length x + i) = y ! i" if "i < length y" for i
    using a that by (auto simp: stands_def nth_append add.assoc dest: spec [of _ "length x + i"])
  ultimately show "stands s x \<and> stands (s + length x) y" using a by (simp add: stands_def)
next
  assume a: "stands s x \<and> stands (s + length x) y"
  have "ld buf (s + i) = (x @ y) ! i" if "i < length (x @ y)" for i
  proof (cases "i < length x")
    case False
    then obtain j where "i = length x + j" by (metis le_Suc_ex not_less)
    with a that show ?thesis by (auto simp: stands_def nth_append add.assoc [symmetric])
  qed (use a in \<open>simp add: stands_def nth_append\<close>)
  with a show "stands s (x @ y)" by (simp add: stands_def)
qed

lemma stands_Nil: "stands s [] \<longleftrightarrow> s \<le> es"
  by (simp add: stands_def)

lemma stands_Cons: "stands s (c # y) \<longleftrightarrow> s < es \<and> ld buf s = c \<and> stands (Suc s) y"
  using stands_append [of s "[c]" y] by (auto simp: stands_def)

lemma stands_le: "stands s x \<Longrightarrow> s + length x \<le> es"
  by (simp add: stands_def)

lemma skip_blank: "s < es \<Longrightarrow> ld buf s = 32 \<Longrightarrow> skip s = skip (Suc s)"
  by (subst skip_ws.simps) (simp add: whitespace_def)

lemma skip_Suc: "s < es \<Longrightarrow> skip s \<le> skip (Suc s)"
  using skip_spec [of "Suc s"] by (subst (1) skip_ws.simps) auto

lemma skip_mono: "s \<le> e \<Longrightarrow> e \<le> es \<Longrightarrow> skip s \<le> skip e"
proof (induction e rule: dec_induct)
  case (step e)
  then show ?case using skip_Suc [of e] by simp
qed simp

lemma peek_eq: "s0 \<le> es \<Longrightarrow> skip s0 = skip s \<Longrightarrow> 0 \<notin> set toks \<Longrightarrow>
    peek buf es toks s0 = (ld buf (skip s) \<in> set toks, skip s)"
  by (auto simp: peek_def Let_def)

lemma token_symbol:
  assumes "stands s [c]" and "c \<in> {124, 40, 41, 59, 38, 60}" and "s0 \<le> es" and "skip s0 = s"
  shows "gettoken buf es s0 = (c, (s, Suc s), skip (Suc s))"
  using assms text_char [of s] by (auto simp: gettoken_def Let_def stands_def)

lemma token_gt:
  assumes "stands s [62]" and "ld buf (Suc s) \<noteq> 62" and "s0 \<le> es" and "skip s0 = s"
  shows "gettoken buf es s0 = (62, (s, Suc s), skip (Suc s))"
  using assms by (auto simp: gettoken_def Let_def stands_def)

lemma word_end_at:
  "stands s w \<Longrightarrow> \<forall>c\<in>set w. word_char c \<Longrightarrow> \<not> word_char (ld buf (s + length w)) \<Longrightarrow> word_end buf es s = s + length w"
proof (induction w arbitrary: s)
  case Nil
  then show ?case using text_char [of s] by (subst word_end.simps) (auto simp: word_char_def)
next
  case (Cons c w)
  then have "word_end buf es (Suc s) = Suc s + length w" by (simp add: stands_Cons)
  moreover have "word_end buf es s = word_end buf es (Suc s)"
    using Cons.prems by (subst word_end.simps) (simp add: stands_Cons word_char_def)
  ultimately show ?case by simp
qed

lemma skip_word: "stands s w \<Longrightarrow> word w \<Longrightarrow> skip s = s"
  by (cases w) (auto simp: word_def stands_Cons word_char_def intro: skip_nonblank)

lemma token_word:
  assumes "stands s w" and "word w" and "\<not> word_char (ld buf (s + length w))" and "s0 \<le> es" and "skip s0 = s"
  shows "gettoken buf es s0 = (97, (s, s + length w), skip (s + length w))"
proof -
  have e: "word_end buf es s = s + length w" using assms(1-3) by (intro word_end_at) (auto simp: word_def)
  have "word_char (ld buf s)" "s < es" using assms(1,2) by (cases w; auto simp: word_def stands_Cons)+
  then have "ld buf s \<noteq> 0" "ld buf s \<notin> {124, 40, 41, 59, 38, 60}" "ld buf s \<noteq> 62"
    by (auto simp: word_char_def symbols_def)
  with e show ?thesis by (simp add: gettoken_def Let_def assms(5))
qed

lemma stands_slice: "stands s w \<Longrightarrow> slice s (length w) buf = w"
  using es_le by (intro nth_equalityI) (auto simp: stands_def nth_slice ld_def)

lemma text_of_simps [simp]:
  "text_of (REDIR c (q, e) m fd) = REDIR (text_of c) (slice q (e - q) buf) m fd"
  "text_of (PIPE c d) = PIPE (text_of c) (text_of d)" "text_of (LIST c d) = LIST (text_of c) (text_of d)"
  "text_of (BACK c) = BACK (text_of c)" "text_of (EXEC []) = EXEC []"
  by (simp_all add: text_of_def)

lemma text_of_add [simp]: "text_of (add_arg (q, e) c) = add_arg (slice q (e - q) buf) (text_of c)"
  unfolding text_of_def by (induction c) simp_all

section \<open>The parser reads what was printed\<close>

lemma parseredirs_text:
  "stands s (concat (map show_redir rs)) \<Longrightarrow> (\<forall>(f, i)\<in>set rs. word f) \<Longrightarrow> skip s0 = skip s \<Longrightarrow> s0 \<le> es \<Longrightarrow>
   t = s + length (concat (map show_redir rs)) \<Longrightarrow> ld buf (skip t) \<notin> {60, 62} \<Longrightarrow> es - s0 < n \<Longrightarrow>
   \<exists>c'. parseredirs n buf es c s0 = Ok (c', skip t) \<and> text_of c' = foldl wrap (text_of c) rs"
proof (induction rs arbitrary: s s0 c n)
  case Nil
  then show ?case
    by (cases n) (simp_all add: peek_eq [of s0 s])
next
  case (Cons r rs)
  obtain f i where r: "r = (f, i)" by fastforce
  let ?c = "if i then 60 else 62 :: u8"
  obtain k where n: "n = Suc k" using Cons.prems by (cases n) auto
  have st: "s < es" "ld buf s = ?c" "stands (Suc s) f" "stands (Suc s + length f) [32]"
    "stands (Suc s + length f + 1) (concat (map show_redir rs))" and w: "word f"
    using Cons.prems(1,2) by (simp_all add: r show_redir_def stands_Cons stands_append stands_Nil)
  have sk: "skip s = s" using st(2) by (intro skip_nonblank) (auto simp: whitespace_def)
  have f0: "word_char (ld buf (Suc s))" using w st(3) by (cases f) (auto simp: word_def stands_Cons)
  have sf: "skip (Suc s) = Suc s" by (rule skip_word [OF st(3) w])
  have pk: "peek buf es [60, 62] s0 = (True, s)" using peek_eq [of s0 s "[60, 62]"] Cons.prems(3,4) st(2) sk by simp
  have g: "gettoken buf es s = (?c, (s, Suc s), Suc s)"
  proof (cases i)
    case True
    with token_symbol [of s 60 s] st sk sf show ?thesis by (simp add: stands_def)
  next
    case False
    have "ld buf (Suc s) \<noteq> 62" using f0 by (auto simp: word_char_def symbols_def)
    with False token_gt [of s s] st sk sf show ?thesis by (simp add: stands_def)
  qed
  have blank: "Suc s + length f < es" "ld buf (Suc s + length f) = 32" using st(4) by (auto simp: stands_Cons)
  then have "\<not> word_char (ld buf (Suc s + length f))" by (simp add: word_char_def whitespace_def)
  from token_word [OF st(3) w this _ sf] st(1)
  have h: "gettoken buf es (Suc s) = (97, (Suc s, Suc s + length f), skip (Suc s + length f))" by simp
  let ?c' = "if i then REDIR c (Suc s, Suc s + length f) O_RDONLY 0 else REDIR c (Suc s, Suc s + length f) O_WRONLY_CREATE 1"
  have step: "parseredirs n buf es c s0 = parseredirs k buf es ?c' (skip (Suc s + length f))"
    using pk g h by (simp add: n)
  have s1: "skip (Suc s + length f) = skip (Suc s + length f + 1)" "skip (Suc s + length f) \<le> es"
    using skip_blank [OF blank] skip_spec [of "Suc s + length f"] blank by simp_all
  have "s0 \<le> s" using skip_spec [of s0] Cons.prems(3,4) sk by simp
  have "\<exists>c''. parseredirs k buf es ?c' (skip (Suc s + length f)) = Ok (c'', skip t) \<and> text_of c'' = foldl wrap (text_of ?c') rs"
  proof (rule Cons.IH [OF st(5)])
    show "skip (skip (Suc s + length f)) = skip (Suc s + length f + 1)" using s1 blank by simp
    show "t = Suc s + length f + 1 + length (concat (map show_redir rs))" using Cons.prems(5) by (simp add: r show_redir_def)
    show "es - skip (Suc s + length f) < k"
      using Cons.prems(7) n \<open>s0 \<le> s\<close> skip_spec [of "Suc s + length f"] blank by linarith
  qed (use Cons.prems(2,6) s1 in simp_all)
  moreover have "text_of ?c' = wrap (text_of c) r"
    using stands_slice [OF st(3)] by (simp add: r wrap_def)
  ultimately show ?case using step by simp
qed

text \<open>The characters at which a command before a bar ends.\<close>

lemma stop_token:
  assumes "ld buf (skip t) \<in> {0, 124, 41, 38, 59}" and "t \<le> es" and "skip s0 = skip t" and "s0 \<le> es"
  shows "parseargs (Suc n) buf es argc ret s0 = Ok (ret, skip t)"
proof -
  have sk: "skip (skip t) = skip t" "skip t \<le> es" using skip_spec [OF assms(2)] assms(2) by simp_all
  show ?thesis
  proof (cases "ld buf (skip t) = 0")
    case True
    then have "peek buf es [124, 41, 38, 59] s0 = (False, skip t)"
      using peek_eq [of s0 t "[124, 41, 38, 59]"] assms by simp
    moreover have "gettoken buf es (skip t) = (0, (skip t, skip t), skip t)"
      using True sk by (simp add: gettoken_def Let_def)
    ultimately show ?thesis by simp
  next
    case False
    then have "peek buf es [124, 41, 38, 59] s0 = (True, skip t)"
      using peek_eq [of s0 t "[124, 41, 38, 59]"] assms by simp
    then show ?thesis by simp
  qed
qed

lemma text_of_EXEC: "text_of (EXEC ws) = EXEC (map (\<lambda>(q, e). slice q (e - q) buf) ws)"
  by (simp add: text_of_def)

lemma parseargs_text:
  "stands s (concat (map (\<lambda>w. w @ [32]) ws) @ concat (map show_redir rs)) \<Longrightarrow> (ws = [] \<Longrightarrow> rs = []) \<Longrightarrow>
   \<forall>w\<in>set ws. word w \<Longrightarrow> \<forall>(f, i)\<in>set rs. word f \<Longrightarrow> skip s0 = skip s \<Longrightarrow> s0 \<le> es \<Longrightarrow>
   t = s + length (concat (map (\<lambda>w. w @ [32]) ws) @ concat (map show_redir rs)) \<Longrightarrow>
   ld buf (skip t) \<in> {0, 124, 41, 38, 59} \<Longrightarrow> es - s0 < n \<Longrightarrow> argc + length ws < MAXARGS \<Longrightarrow>
   \<exists>c'. parseargs n buf es argc c s0 = Ok (c', skip t) \<and>
     text_of c' = foldl wrap (foldl (\<lambda>c w. add_arg w c) (text_of c) ws) rs"
proof (induction ws arbitrary: s s0 c n argc)
  case Nil
  then obtain k where n: "n = Suc k" by (cases n) auto
  have "rs = []" using Nil.prems by simp
  with Nil.prems have "t = s" "t \<le> es" by (simp_all add: stands_Nil)
  with stop_token [of t s0 k argc c] Nil.prems \<open>rs = []\<close> show ?case by (simp add: n)
next
  case (Cons w ws)
  obtain k where n: "n = Suc k" using Cons.prems by (cases n) auto
  let ?e = "s + length w"
  let ?more = "concat (map (\<lambda>w. w @ [32]) ws) @ concat (map show_redir rs)"
  have st: "stands s w" "?e < es" "ld buf ?e = 32" "stands (Suc ?e) ?more" and w: "word w"
    using Cons.prems(1,3) by (simp_all add: stands_append stands_Cons)
  have sk: "skip s = s" by (rule skip_word [OF st(1) w])
  have se: "skip ?e = skip (Suc ?e)" "skip ?e \<le> es" "?e \<le> skip ?e"
    using skip_blank [OF st(2,3)] skip_spec [of ?e] st(2) by simp_all
  have s0: "s0 \<le> s" "s < ?e" using skip_spec [of s0] Cons.prems(5,6) sk w by (simp_all add: word_def)
  have wc: "word_char (ld buf s)" using w st(1) by (cases w) (auto simp: word_def stands_Cons)
  then have "ld buf s \<notin> {124, 41, 38, 59}" by (auto simp: word_char_def symbols_def)
  then have pk: "peek buf es [124, 41, 38, 59] s0 = (False, s)"
    using peek_eq [of s0 s "[124, 41, 38, 59]"] Cons.prems(5,6) sk by simp
  have "\<not> word_char (ld buf ?e)" using st(3) by (simp add: word_char_def whitespace_def)
  from token_word [OF st(1) w this _ sk] st(2) have g: "gettoken buf es s = (97, (s, ?e), skip ?e)" by simp
  have slw: "slice s (?e - s) buf = w" using stands_slice [OF st(1)] by simp
  have step: "parseargs n buf es argc c s0 = rbind (parseredirs k buf es (add_arg (s, ?e) c) (skip ?e))
      (\<lambda>(ret, s). parseargs k buf es (Suc argc) ret s)"
    using pk g Cons.prems(10) by (simp add: n)
  have fuel: "es - skip ?e < k" using Cons.prems(9) n s0 se st(2) by linarith
  show ?case
  proof (cases "ws = []")
    case True
    have tt: "t = Suc ?e + length (concat (map show_redir rs))" using Cons.prems(7) True by simp
    have "\<exists>c1. parseredirs k buf es (add_arg (s, ?e) c) (skip ?e) = Ok (c1, skip t) \<and>
        text_of c1 = foldl wrap (text_of (add_arg (s, ?e) c)) rs"
    proof (rule parseredirs_text [OF _ _ _ _ tt])
      show "stands (Suc ?e) (concat (map show_redir rs))" using st(4) True by simp
      show "skip (skip ?e) = skip (Suc ?e)" using se st(2) by simp
      show "ld buf (skip t) \<notin> {60, 62}" using Cons.prems(8) by auto
    qed (use Cons.prems(4) se fuel in simp_all)
    then obtain c1 where c1: "parseredirs k buf es (add_arg (s, ?e) c) (skip ?e) = Ok (c1, skip t)"
        "text_of c1 = foldl wrap (text_of (add_arg (s, ?e) c)) rs" by blast
    have te: "t \<le> es" using stands_le [OF st(4)] True tt by simp
    obtain j where "k = Suc j" using fuel by (cases k) auto
    then have "parseargs k buf es (Suc argc) c1 (skip t) = Ok (c1, skip t)"
      using stop_token [of t "skip t" j] Cons.prems(8) te skip_spec [OF te] by simp
    with step c1 True slw show ?thesis by simp
  next
    case False
    then obtain v vs where vs: "ws = v # vs" by (cases ws) auto
    have v: "word v" "stands (Suc ?e) v" using Cons.prems(3) st(4) by (simp_all add: vs stands_append)
    have sv: "skip (Suc ?e) = Suc ?e" by (rule skip_word [OF v(2,1)])
    have "word_char (ld buf (Suc ?e))" using v by (cases v) (auto simp: word_def stands_Cons)
    then have nr: "ld buf (skip (Suc ?e)) \<notin> {60, 62}" by (auto simp: sv word_char_def symbols_def)
    have se1: "Suc ?e \<le> es" using st(2) by simp
    have "\<exists>c1. parseredirs k buf es (add_arg (s, ?e) c) (skip ?e) = Ok (c1, skip (Suc ?e)) \<and>
        text_of c1 = foldl wrap (text_of (add_arg (s, ?e) c)) []"
    proof (rule parseredirs_text)
      show "stands (Suc ?e) (concat (map show_redir []))" using se1 by (simp add: stands_Nil)
      show "skip (skip ?e) = skip (Suc ?e)" using se st(2) by simp
    qed (use se fuel nr in simp_all)
    then obtain c1 where c1: "parseredirs k buf es (add_arg (s, ?e) c) (skip ?e) = Ok (c1, Suc ?e)"
        "text_of c1 = text_of (add_arg (s, ?e) c)" unfolding sv by auto
    have "\<exists>c'. parseargs k buf es (Suc argc) c1 (Suc ?e) = Ok (c', skip t) \<and>
        text_of c' = foldl wrap (foldl (\<lambda>c w. add_arg w c) (text_of c1) ws) rs"
      by (rule Cons.IH [OF st(4)]) (use Cons.prems(3,4,7,8,10) False se se1 sv fuel in simp_all)
    with step c1 slw show ?thesis by simp
  qed
qed

section \<open>The levels of the grammar\<close>

text \<open>\<open>at_text s s0 x t\<close>: the parser stands at \<open>s0\<close>, before the text \<open>x\<close> from \<open>s\<close> to \<open>t\<close>.\<close>

definition at_text :: "nat \<Rightarrow> nat \<Rightarrow> bytes \<Rightarrow> nat \<Rightarrow> bool" where
  "at_text s s0 x t \<longleftrightarrow> stands s x \<and> t = s + length x \<and> skip s0 = skip s \<and> s0 \<le> es"

definition reads3 :: "bytes cmd \<Rightarrow> bool" where
  "reads3 c \<longleftrightarrow> (\<forall>s s0 t n N. at_text s s0 (unparse 3 c) t \<longrightarrow> ld buf (skip t) \<in> {0, 124, 41, 38, 59} \<longrightarrow>
     es - s0 < n \<longrightarrow> es - s0 + 1 < N \<longrightarrow>
     (\<exists>c'. parseexec (parseline N buf es) n buf es s0 = Ok (c', skip t) \<and> text_of c' = c))"

definition reads2 :: "bytes cmd \<Rightarrow> bool" where
  "reads2 c \<longleftrightarrow> (\<forall>s s0 t n N. at_text s s0 (unparse 2 c) t \<longrightarrow> ld buf (skip t) \<in> {0, 41, 38, 59} \<longrightarrow>
     es - s0 + 1 < n \<longrightarrow> es - s0 + 1 < N \<longrightarrow>
     (\<exists>c'. parsepipe n (parseline N buf es) buf es s0 = Ok (c', skip t) \<and> text_of c' = c))"

definition reads0 :: "bytes cmd \<Rightarrow> bool" where
  "reads0 c \<longleftrightarrow> (\<forall>s s0 t n. at_text s s0 (unparse 0 c) t \<longrightarrow> ld buf (skip t) \<in> {0, 41} \<longrightarrow> es - s0 + 2 < n \<longrightarrow>
     (\<exists>c'. parseline n buf es s0 = Ok (c', skip t) \<and> text_of c' = c))"

lemma reads0D: "reads0 c \<Longrightarrow> at_text s s0 (unparse 0 c) t \<Longrightarrow> ld buf (skip t) \<in> {0, 41} \<Longrightarrow> es - s0 + 2 < n \<Longrightarrow>
    \<exists>c'. parseline n buf es s0 = Ok (c', skip t) \<and> text_of c' = c"
  unfolding reads0_def by blast

lemma at_text_append:
  assumes "at_text s s0 (x @ y) t"
  shows "at_text s s0 x (s + length x)" "stands (s + length x) y" "t = s + length x + length y"
  using assms by (simp_all add: at_text_def stands_append)

lemma at_text_end: "at_text s s0 x t \<Longrightarrow> t \<le> es" "at_text s s0 x t \<Longrightarrow> skip (skip t) = skip t"
  "at_text s s0 x t \<Longrightarrow> skip t \<le> es" "at_text s s0 x t \<Longrightarrow> t \<le> skip t"
  using stands_le [of s x] skip_spec [of t] by (auto simp: at_text_def)

lemma at_text_before: "at_text s s0 x t \<Longrightarrow> s0 \<le> skip t"
  using skip_mono [of s t] skip_spec [of s0] stands_le [of s x] by (auto simp: at_text_def)

text \<open>A symbol on the line: what \<open>peek\<close> and \<open>gettoken\<close> do before it, and after it.\<close>

lemma symbol_step:
  assumes "stands s (c # y)" and "c \<in> {124, 40, 41, 59, 38, 60}" and "skip s0 = skip s" and "s0 \<le> es"
  shows "peek buf es [c] s0 = (True, s)" "gettoken buf es s = (c, (s, Suc s), skip (Suc s))"
    "skip s = s" "s0 \<le> s" "at_text (Suc s) (skip (Suc s)) y (Suc s + length y)" "s < skip (Suc s)" "ld buf s = c"
proof -
  have st: "s < es" "ld buf s = c" "stands (Suc s) y" using assms(1) by (simp_all add: stands_Cons)
  show sk: "skip s = s" using st(2) assms(2) by (intro skip_nonblank) (auto simp: whitespace_def)
  show "s0 \<le> s" using skip_spec [OF assms(4)] assms(3) sk by simp
  show "peek buf es [c] s0 = (True, s)" using peek_eq [of s0 s "[c]"] assms(2-4) st sk by auto
  show "gettoken buf es s = (c, (s, Suc s), skip (Suc s))"
    using token_symbol [of s c s] assms(2) st sk by (simp add: stands_def)
  show "at_text (Suc s) (skip (Suc s)) y (Suc s + length y)" "s < skip (Suc s)"
    using st skip_spec [of "Suc s"] by (simp_all add: at_text_def)
  show "ld buf s = c" by (rule st(2))
qed

lemma no_symbol:
  assumes "ld buf (skip t) \<noteq> c" and "t \<le> es" and "c \<noteq> 0"
  shows "peek buf es [c] (skip t) = (False, skip t)"
  using peek_eq [of "skip t" t "[c]"] skip_spec [OF assms(2)] assms by auto

lemma foldl_add_arg: "foldl (\<lambda>c w. add_arg w c) (EXEC vs) ws = EXEC (vs @ ws)"
  by (induction ws arbitrary: vs) simp_all

lemma reads3_EXEC:
  assumes ok: "cmd_ok c" and inner: "inner c = EXEC ws"
  shows "reads3 c"
  unfolding reads3_def
proof (intro allI impI)
  fix s s0 t n N
  assume a: "at_text s s0 (unparse 3 c) t" and stop: "ld buf (skip t) \<in> {0, 124, 41, 38, 59}" and fuel: "es - s0 < n"
  define rs where "rs = redirs c"
  have rw: "\<forall>(f, i)\<in>set rs. word f" using redirs_words [OF ok] by (auto simp: rs_def)
  have ws: "length ws < MAXARGS" "\<forall>w\<in>set ws. word w" using inner_ok [OF ok] inner by simp_all
  have c: "c = foldl wrap (EXEC ws) rs" using wrap_inner [OF ok] inner by (simp add: rs_def)
  let ?x = "concat (map (\<lambda>w. w @ [32]) ws) @ concat (map show_redir rs)"
  have x: "unparse 3 c = ?x" using unparse_redirs [of c] inner by (simp add: rs_def)
  have st: "stands s ?x" "t = s + length ?x" "skip s0 = skip s" "s0 \<le> es" using a by (simp_all add: at_text_def x)
  note te = at_text_end [OF a]
  obtain k where n: "n = Suc k" using fuel by (cases n) auto
  have nb: "ld buf (skip s) \<noteq> 40 \<and> (ws \<noteq> [] \<longrightarrow> ld buf (skip s) \<notin> {60, 62})"
  proof (cases ws)
    case (Cons w ws')
    then have "stands s w" "word w" using st(1) ws(2) by (simp_all add: stands_append)
    moreover from this have "word_char (ld buf s)" by (cases w) (auto simp: word_def stands_Cons)
    ultimately show ?thesis by (auto simp: skip_word word_char_def symbols_def)
  next
    case Nil
    show ?thesis
    proof (cases rs)
      case Nil
      with \<open>ws = []\<close> st(2) have "t = s" by simp
      with stop Nil \<open>ws = []\<close> show ?thesis by auto
    next
      case (Cons r rs')
      with \<open>ws = []\<close> st(1) have "ld buf s \<in> {60, 62}" by (auto simp: stands_append stands_Cons show_redir_def split: prod.splits if_splits)
      then show ?thesis using \<open>ws = []\<close> by (auto simp: skip_nonblank whitespace_def)
    qed
  qed
  have pk: "peek buf es [40] s0 = (False, skip s)" using peek_eq [of s0 s "[40]"] st nb by simp
  have ss: "skip (skip s) = skip s" "skip s \<le> es" "es - skip s < n"
    using st(3,4) skip_spec [of s0] fuel skip_skip [of s0] by auto
  have "\<exists>c'. rbind (parseredirs n buf es (EXEC []) (skip s)) (\<lambda>(ret, s). parseargs n buf es 0 ret s) = Ok (c', skip t) \<and>
      text_of c' = c"
  proof (cases "ws = []")
    case True
    have "\<exists>c'. parseredirs n buf es (EXEC []) (skip s) = Ok (c', skip t) \<and> text_of c' = foldl wrap (text_of (EXEC [])) rs"
      by (rule parseredirs_text [of s]) (use st rw ss stop True in auto)
    with stop_token [of t "skip t" k 0] stop te True show ?thesis by (auto simp: c n)
  next
    case False
    have "peek buf es [60, 62] (skip s) = (False, skip s)" using peek_eq [of "skip s" s "[60, 62]"] ss nb False by simp
    then have "parseredirs n buf es (EXEC []) (skip s) = Ok (EXEC [], skip s)" by (simp add: n)
    moreover have "\<exists>c'. parseargs n buf es 0 (EXEC []) (skip s) = Ok (c', skip t) \<and>
        text_of c' = foldl wrap (foldl (\<lambda>c w. add_arg w c) (text_of (EXEC [])) ws) rs"
      by (rule parseargs_text [OF st(1) _ ws(2) rw ss(1,2) st(2) stop ss(3)]) (use ws(1) False in simp_all)
    ultimately show ?thesis by (simp add: foldl_add_arg c)
  qed
  with pk show "\<exists>c'. parseexec (parseline N buf es) n buf es s0 = Ok (c', skip t) \<and> text_of c' = c"
    by (simp add: parseexec_def)
qed

lemma reads3_block:
  assumes ok: "cmd_ok c" and d: "unparse 3 (inner c) = 40 # unparse 0 (inner c) @ [41]" and r0: "reads0 (inner c)"
  shows "reads3 c"
  unfolding reads3_def
proof (intro allI impI)
  fix s s0 t n N
  assume a: "at_text s s0 (unparse 3 c) t" and stop: "ld buf (skip t) \<in> {0, 124, 41, 38, 59}" and fuel: "es - s0 < n"
    and fuel0: "es - s0 + 1 < N"
  define rs where "rs = redirs c"
  let ?y = "unparse 0 (inner c)" and ?z = "concat (map show_redir rs)"
  have rw: "\<forall>(f, i)\<in>set rs. word f" using redirs_words [OF ok] by (auto simp: rs_def)
  have x: "unparse 3 c = 40 # ?y @ 41 # ?z" using unparse_redirs [of c] d by (simp add: rs_def)
  note te = at_text_end [OF a]
  have st: "stands s (40 # ?y @ 41 # ?z)" "t = s + length (40 # ?y @ 41 # ?z)" "skip s0 = skip s" "s0 \<le> es"
    using a by (simp_all add: at_text_def x)
  note o_step = symbol_step [OF st(1) _ st(3,4), simplified]
  define e where "e = Suc s + length ?y"
  have st2: "at_text (Suc s) (skip (Suc s)) ?y e" "stands e (41 # ?z)"
    using at_text_append [OF o_step(5)] by (simp_all add: e_def)
  have se: "skip e = e" "ld buf e = 41" "e \<le> es"
    using st2(2) by (auto simp: stands_Cons skip_nonblank whitespace_def)
  have s1: "s0 < skip (Suc s)" "skip (Suc s) \<le> es" using o_step(4,6) st2(1) by (auto simp: at_text_def)
  have "es - skip (Suc s) + 2 < N" using fuel0 s1 by linarith
  with r0 st2(1) se obtain c1 where c1: "parseline N buf es (skip (Suc s)) = Ok (c1, e)" "text_of c1 = inner c"
    unfolding reads0_def by fastforce
  note c_step = symbol_step [OF st2(2) _ refl se(3), simplified]
  have fuel2: "es - skip (Suc e) < n" using fuel o_step(4) c_step(6) by (simp add: e_def)
  have st3: "stands (Suc e) ?z" "skip (skip (Suc e)) = skip (Suc e)" "skip (Suc e) \<le> es" "t = Suc e + length ?z"
    using c_step(5) st(2) by (simp_all add: at_text_def e_def)
  have "\<exists>c'. parseredirs n buf es c1 (skip (Suc e)) = Ok (c', skip t) \<and> text_of c' = foldl wrap (text_of c1) rs"
    by (rule parseredirs_text [OF st3(1) rw st3(2,3,4) _ fuel2]) (use stop in auto)
  then obtain c2 where c2: "parseredirs n buf es c1 (skip (Suc e)) = Ok (c2, skip t)" "text_of c2 = c"
    using wrap_inner [OF ok] by (auto simp: c1(2) rs_def)
  have "peek buf es [40] s = (True, s)" using symbol_step(1) [OF st(1), of s] o_step(3) st(4) o_step(4) at_text_end(1) [OF a]
    by (simp add: st(2))
  then have "parseblock (parseline N buf es) n buf es s = Ok (c2, skip t)"
    using o_step(2) c1(1) c_step(1,2) c2(1) by (simp add: parseblock_def)
  with o_step(1) c2(2) show "\<exists>c'. parseexec (parseline N buf es) n buf es s0 = Ok (c', skip t) \<and> text_of c' = c"
    by (simp add: parseexec_def)
qed

lemma reads2_reads3:
  assumes "reads3 c" and "unparse 2 c = unparse 3 c"
  shows "reads2 c"
  unfolding reads2_def
proof (intro allI impI)
  fix s s0 t n N
  assume a: "at_text s s0 (unparse 2 c) t" and stop: "ld buf (skip t) \<in> {0, 41, 38, 59}" and fuel: "es - s0 + 1 < n"
    and fuel0: "es - s0 + 1 < N"
  obtain k where n: "n = Suc k" using fuel by (cases n) auto
  have "es - s0 < k" "ld buf (skip t) \<in> {0, 124, 41, 38, 59}" using fuel n stop by auto
  with assms a fuel0 obtain c1 where "parseexec (parseline N buf es) k buf es s0 = Ok (c1, skip t)" "text_of c1 = c"
    unfolding reads3_def by metis
  moreover have "peek buf es [124] (skip t) = (False, skip t)" using no_symbol [OF _ at_text_end(1) [OF a]] stop by auto
  ultimately show "\<exists>c'. parsepipe n (parseline N buf es) buf es s0 = Ok (c', skip t) \<and> text_of c' = c"
    by (simp add: n)
qed

lemma reads2_PIPE:
  assumes "reads3 c" and "reads2 d"
  shows "reads2 (PIPE c d)"
  unfolding reads2_def
proof (intro allI impI)
  fix s s0 t n N
  assume a: "at_text s s0 (unparse 2 (PIPE c d)) t" and stop: "ld buf (skip t) \<in> {0, 41, 38, 59}" and fuel: "es - s0 + 1 < n"
    and fuel0: "es - s0 + 1 < N"
  obtain k where n: "n = Suc k" using fuel by (cases n) auto
  let ?x = "unparse 3 c" and ?y = "unparse 2 d"
  have a': "at_text s s0 (?x @ 124 # ?y) t" using a by (simp add: paren_def)
  define e where "e = s + length ?x"
  have ax: "at_text s s0 ?x e" and sy: "stands e (124 # ?y)" and t: "t = Suc e + length ?y"
    using at_text_append [OF a'] by (simp_all add: e_def)
  note b = symbol_step [OF sy _ refl at_text_end(1) [OF ax], simplified]
  have "es - s0 < k" using fuel n by simp
  with assms(1) ax fuel0 b(3,7) obtain c1 where c1: "parseexec (parseline N buf es) k buf es s0 = Ok (c1, e)" "text_of c1 = c"
    unfolding reads3_def by (metis insertCI)
  have "s0 \<le> e" using at_text_before [OF ax] b(3) by simp
  then have "es - skip (Suc e) + 1 < k" "es - skip (Suc e) + 1 < N"
    using fuel fuel0 n b(5,6) by (auto simp: at_text_def)
  moreover have "at_text (Suc e) (skip (Suc e)) ?y t" using b(5) by (simp add: t)
  ultimately obtain c2 where c2: "parsepipe k (parseline N buf es) buf es (skip (Suc e)) = Ok (c2, skip t)" "text_of c2 = d"
    using assms(2) stop unfolding reads2_def by metis
  show "\<exists>c'. parsepipe n (parseline N buf es) buf es s0 = Ok (c', skip t) \<and> text_of c' = PIPE c d"
    using c1 b(1,2) c2 by (simp add: n)
qed

text \<open>The marks \<open>&\<close> after a pipeline.\<close>

lemma parsebacks_text:
  "at_text s s0 (replicate k 38) t \<Longrightarrow> ld buf (skip t) \<notin> {38} \<Longrightarrow> es - s0 < n \<Longrightarrow>
   \<exists>c'. parsebacks n buf es c s0 = Ok (c', skip t) \<and> text_of c' = (BACK ^^ k) (text_of c)"
proof (induction k arbitrary: s s0 c n)
  case 0
  then obtain m where n: "n = Suc m" by (cases n) auto
  have "peek buf es [38] s0 = (False, skip t)"
    using 0 peek_eq [of s0 s "[38]"] by (auto simp: at_text_def)
  then show ?case by (simp add: n)
next
  case (Suc k)
  obtain m where n: "n = Suc m" using Suc.prems(3) by (cases n) auto
  have st: "stands s (38 # replicate k 38)" "skip s0 = skip s" "s0 \<le> es" and t: "t = Suc s + length (replicate k (38 :: u8))"
    using Suc.prems(1) by (simp_all add: at_text_def)
  note b = symbol_step [OF st(1) _ st(2,3), simplified]
  have "es - skip (Suc s) < m" using Suc.prems(3) n b(4,5,6) by (auto simp: at_text_def)
  with Suc.IH [of "Suc s" "skip (Suc s)" m "BACK c"] b(5) Suc.prems(2) t obtain c' where
    "parsebacks m buf es (BACK c) (skip (Suc s)) = Ok (c', skip t)" "text_of c' = (BACK ^^ k) (text_of (BACK c))"
    by auto
  with b(1,2) show ?case by (simp add: n funpow_swap1)
qed

text \<open>What comes before \<open>;\<close> or the end of a line.\<close>

lemma parseline_front:
  assumes r: "reads2 (front c)" and a: "at_text s s0 (unparse 1 c) t" and stop: "ld buf (skip t) \<in> {0, 41, 59}"
    and fuel: "es - s0 + 1 < n" "es - s0 + 1 < N"
  shows "\<exists>c1 s1 c'. parsepipe n (parseline N buf es) buf es s0 = Ok (c1, s1) \<and> parsebacks n buf es c1 s1 = Ok (c', skip t) \<and>
    text_of c' = c"
proof -
  let ?x = "unparse 2 (front c)" and ?y = "replicate (backs c) 38"
  have a': "at_text s s0 (?x @ ?y) t" using a by (simp only: unparse_backs)
  define e where "e = s + length ?x"
  have ax: "at_text s s0 ?x e" and sy: "stands e ?y" and t: "t = e + length ?y"
    using at_text_append [OF a'] by (simp_all add: e_def)
  have "ld buf (skip e) \<in> {0, 41, 38, 59}"
  proof (cases "backs c")
    case 0
    with t stop show ?thesis by auto
  next
    case (Suc k)
    with sy have "ld buf e = 38" by (simp add: stands_Cons)
    then show ?thesis by (simp add: skip_nonblank whitespace_def)
  qed
  with r ax fuel obtain c1 where c1: "parsepipe n (parseline N buf es) buf es s0 = Ok (c1, skip e)" "text_of c1 = front c"
    unfolding reads2_def by metis
  have "at_text e (skip e) ?y t" using sy t at_text_end(2,3) [OF ax] by (simp add: at_text_def)
  moreover have "es - skip e < n" using fuel(1) at_text_before [OF ax] by linarith
  ultimately obtain c' where "parsebacks n buf es c1 (skip e) = Ok (c', skip t)" "text_of c' = (BACK ^^ backs c) (text_of c1)"
    using parsebacks_text [of e "skip e" "backs c" t n c1] stop by auto
  with c1 show ?thesis by (auto simp: front_backs)
qed

lemma reads0_single:
  assumes r: "reads2 (front c)" and x: "unparse 0 c = unparse 1 c"
  shows "reads0 c"
  unfolding reads0_def
proof (intro allI impI)
  fix s s0 t n
  assume a: "at_text s s0 (unparse 0 c) t" and stop: "ld buf (skip t) \<in> {0, 41}" and fuel: "es - s0 + 2 < n"
  obtain k where n: "n = Suc k" using fuel by (cases n) auto
  have k: "es - s0 + 1 < k" using fuel n by simp
  have stop1: "ld buf (skip t) \<in> {0, 41, 59}" using stop by auto
  from parseline_front [OF r a [unfolded x] stop1 k k] obtain c1 s1 c' where
    c: "parsepipe k (parseline k buf es) buf es s0 = Ok (c1, s1)" "parsebacks k buf es c1 s1 = Ok (c', skip t)" "text_of c' = c"
    by blast
  moreover have "peek buf es [59] (skip t) = (False, skip t)" using no_symbol [OF _ at_text_end(1) [OF a]] stop by auto
  ultimately show "\<exists>c'. parseline n buf es s0 = Ok (c', skip t) \<and> text_of c' = c" by (simp add: n)
qed

lemma reads0_LIST:
  assumes r: "reads2 (front c)" and d: "reads0 d"
  shows "reads0 (LIST c d)"
  unfolding reads0_def
proof (intro allI impI)
  fix s s0 t n
  assume a: "at_text s s0 (unparse 0 (LIST c d)) t" and stop: "ld buf (skip t) \<in> {0, 41}" and fuel: "es - s0 + 2 < n"
  obtain k where n: "n = Suc k" using fuel by (cases n) auto
  have k: "es - s0 + 1 < k" using fuel n by simp
  let ?x = "unparse 1 c" and ?y = "unparse 0 d"
  have a': "at_text s s0 (?x @ 59 # ?y) t" using a by (simp add: paren_def)
  define e where "e = s + length ?x"
  have ax: "at_text s s0 ?x e" and sy: "stands e (59 # ?y)" and t: "t = Suc e + length ?y"
    using at_text_append [OF a'] by (simp_all add: e_def)
  note b = symbol_step [OF sy _ refl at_text_end(1) [OF ax], simplified]
  have stop1: "ld buf (skip e) \<in> {0, 41, 59}" using b(3,7) by simp
  from parseline_front [OF r ax stop1 k k] obtain c1 s1 c' where
    c: "parsepipe k (parseline k buf es) buf es s0 = Ok (c1, s1)" "parsebacks k buf es c1 s1 = Ok (c', e)" "text_of c' = c"
    unfolding b(3) by blast
  have "s0 \<le> e" using at_text_before [OF ax] b(3) by simp
  then have "es - skip (Suc e) + 2 < k" using fuel n b(5,6) by (auto simp: at_text_def)
  moreover have "at_text (Suc e) (skip (Suc e)) ?y t" using b(5) by (simp add: t)
  ultimately obtain c2 where c2: "parseline k buf es (skip (Suc e)) = Ok (c2, skip t)" "text_of c2 = d"
    using d stop unfolding reads0_def by metis
  show "\<exists>c'. parseline n buf es s0 = Ok (c', skip t) \<and> text_of c' = LIST c d"
    using c b(1,2) c2 by (simp add: n)
qed

lemma reads_all: "cmd_ok c \<Longrightarrow> reads3 c \<and> reads2 c \<and> reads0 c"
proof (induction c rule: measure_induct_rule [where f = size])
  case (less c)
  have smaller: "reads3 d" "reads2 d" "reads0 d" if "size d < size c" "cmd_ok d" for d
    using less.IH [OF that] by blast+
  show ?case
  proof (cases c)
    case (EXEC ws)
    then have "reads3 c" using reads3_EXEC [OF less.prems] by simp
    moreover from this have "reads2 c" by (rule reads2_reads3) (simp add: EXEC)
    moreover from this have "reads0 c" by (intro reads0_single) (simp_all add: EXEC)
    ultimately show ?thesis by blast
  next
    case (REDIR d f m fd)
    have i: "size (inner c) < size c" "cmd_ok (inner c)"
      using inner_size [of d] inner_ok [OF less.prems] by (simp_all add: REDIR)
    have "reads3 c"
    proof (cases "inner c")
      case (EXEC ws)
      then show ?thesis by (rule reads3_EXEC [OF less.prems])
    next
      case (REDIR x y z w)
      with inner_not_redir [of c] show ?thesis by blast
    qed (rule reads3_block [OF less.prems _ smaller(3) [OF i]]; simp add: paren_def)+
    moreover from this have "reads2 c" by (rule reads2_reads3) (simp add: REDIR)
    moreover from this have "reads0 c" by (intro reads0_single) (simp_all add: REDIR)
    ultimately show ?thesis by blast
  next
    case (PIPE d e)
    have "reads2 c" using smaller [of d] smaller [of e] less.prems by (simp add: PIPE reads2_PIPE)
    moreover from this have "reads0 c" by (intro reads0_single) (simp_all add: PIPE paren_def)
    moreover from this have "reads3 c" by (intro reads3_block [OF less.prems]) (simp_all add: PIPE paren_def)
    ultimately show ?thesis by blast
  next
    case (LIST d e)
    have "size (front d) < size c" "cmd_ok (front d)"
      using front_size [of d] front_ok [of d] less.prems by (simp_all add: LIST)
    then have "reads0 c" using smaller [of "front d"] smaller [of e] less.prems by (simp add: LIST reads0_LIST)
    moreover from this have "reads3 c" by (intro reads3_block [OF less.prems]) (simp_all add: LIST paren_def)
    moreover from this have "reads2 c" by (rule reads2_reads3) (simp add: LIST paren_def)
    ultimately show ?thesis by blast
  next
    case (BACK d)
    have "size (front c) < size c" "cmd_ok (front c)"
      using front_size [of d] front_ok [OF less.prems] by (simp_all add: BACK)
    then have "reads0 c" using smaller [of "front c"] by (intro reads0_single) (simp_all add: BACK paren_def)
    moreover from this have "reads3 c" by (intro reads3_block [OF less.prems]) (simp_all add: BACK paren_def)
    moreover from this have "reads2 c" by (rule reads2_reads3) (simp add: BACK paren_def)
    ultimately show ?thesis by blast
  qed
qed

end

section \<open>Parsing what was printed\<close>

lemma unparse_chars: "cmd_ok c \<Longrightarrow> 0 \<notin> set (unparse p c)"
proof (induction c arbitrary: p)
  case (EXEC ws)
  then show ?case by (auto simp: word_def word_char_def)
qed (auto simp: paren_def word_def word_char_def)

lemma strlen_text: "0 \<notin> set x \<Longrightarrow> strlen (x @ 0 # y) = length x"
proof -
  assume x: "0 \<notin> set x"
  have "ld (x @ 0 # y) (length x) = 0" by (simp add: ld_def)
  moreover have "ld (x @ 0 # y) i \<noteq> 0" if "i < length x" for i
    using x that by (auto simp: ld_def nth_append) (metis nth_mem)
  moreover have "ld (x @ 0 # y) (strlen (x @ 0 # y)) = 0" "\<And>i. i < strlen (x @ 0 # y) \<Longrightarrow> ld (x @ 0 # y) i \<noteq> 0"
    using line_of.nul line_of.text_char by blast+
  ultimately show ?thesis by (meson linorder_neqE_nat)
qed

text \<open>C31. Every command of at most nine arguments each, whose words are not empty and free of blanks and
  symbols, has a line that the shell parses to it: what \<open>parsecmd\<close> returns on the printed command, with each
  position replaced by the C string that begins there, is the command.  Pipelines and lists associate to the
  right, \<open>&\<close> applies to the whole pipeline before it, redirections to the command or block they follow.\<close>

theorem parse_unparse:
  assumes "cmd_ok c"
  shows "\<exists>c' b. parsecmd (unparse 0 c @ 0 # junk) = Ok (c', b) \<and> map_cmd (\<lambda>(q, e). string_at b q) c' = c"
proof -
  let ?x = "unparse 0 c"
  let ?buf = "?x @ 0 # junk"
  have es: "strlen ?buf = length ?x" by (rule strlen_text [OF unparse_chars [OF assms]])
  have "line_of.at_text ?buf 0 0 ?x (length ?x)"
    unfolding line_of.at_text_def line_of.stands_def by (simp add: es ld_def nth_append)
  moreover have sk: "skip_ws ?buf (strlen ?buf) (length ?x) = length ?x" by (subst skip_ws.simps) (simp add: es)
  moreover have "ld ?buf (length ?x) = 0" by (simp add: ld_def)
  moreover have "line_of.reads0 ?buf c" using line_of.reads_all [OF assms] by blast
  ultimately obtain c' where c': "parseline (length ?x + 3) ?buf (length ?x) 0 = Ok (c', length ?x)" "line_of.text_of ?buf c' = c"
    using line_of.reads0D [of ?buf c 0 0 "length ?x" "strlen ?buf + 3"] by (auto simp: es)
  have p: "parsecmd ?buf = Ok (c', nulterminate c' ?buf)"
    using c'(1) sk by (simp add: parsecmd_def es peek_def)
  have w: "line_of.all_words ?buf c'" using c'(1) parseline_words [of ?buf c'] by (simp add: es)
  have "map_cmd (\<lambda>(q, e). string_at (nulterminate c' ?buf) q) c' = line_of.text_of ?buf c'"
    unfolding line_of.text_of_def by (rule cmd.map_cong) (auto simp: words_strings [OF w])
  with p c'(2) show ?thesis by (intro exI [of _ c'] exI [of _ "nulterminate c' ?buf"]) simp
qed

theorem parse_unparse_witness:
  "\<exists>c' b. parsecmd (unparse 0 (BACK (PIPE (REDIR (EXEC [[97]]) [102] 0 0) (LIST (EXEC [[98], [99]]) (EXEC [])))) @ 0 # []) = Ok (c', b) \<and>
     map_cmd (\<lambda>(q, e). string_at b q) c' = BACK (PIPE (REDIR (EXEC [[97]]) [102] 0 0) (LIST (EXEC [[98], [99]]) (EXEC [])))"
  by (rule parse_unparse) (simp add: word_def word_char_def whitespace_def symbols_def)

end
