(* ===== verification/Printf.thy ===== *)
theory Printf imports Console CString begin

text \<open>
  Formatted output: \<open>cprintf\<close> of the kernel (\<open>console.c\<close>), \<open>printf\<close> of the user library
  (\<open>printf.c\<close>) and \<open>atoi\<close> (\<open>ulib.c\<close>).  A format is the list of its bytes before the terminating zero.
  An argument is a word or a string; a null string pointer is \<open>AStr None\<close>.  Taking an argument that is
  not there, or an integer for a string, has the outcome \<open>Undefined\<close>.
\<close>

datatype arg = AInt u32 | AStr "bytes option"

definition null_text :: bytes where
  "null_text = [40, 110, 117, 108, 108, 41]"

definition str_of :: "bytes option \<Rightarrow> bytes" where
  "str_of p = (case p of None \<Rightarrow> null_text | Some bs \<Rightarrow> takeWhile (\<lambda>c. c \<noteq> 0) bs)"

section \<open>The kernel's cprintf\<close>

text \<open>A string is printed with \<open>consputc(*s)\<close>, whose argument is a signed character.\<close>

definition put_str :: "bytes option \<Rightarrow> screen \<Rightarrow> screen res" where
  "put_str p s = rfold (\<lambda>b. consputc (sint b)) (str_of p) s"

fun cprintf :: "bytes \<Rightarrow> arg list \<Rightarrow> screen \<Rightarrow> screen res" where
  "cprintf [] args s = Ok s"
| "cprintf [c] args s = (if c \<noteq> 37 then consputc (uint c) s else Ok s)"
| "cprintf (c # d # fmt) args s =
     (if c \<noteq> 37 then rbind (consputc (uint c) s) (cprintf (d # fmt) args)
      else if d = 100 then
        (case args of AInt n # args \<Rightarrow> rbind (printint n 10 True s) (cprintf fmt args) | _ \<Rightarrow> Undefined ''va_arg'')
      else if d = 120 \<or> d = 112 then
        (case args of AInt n # args \<Rightarrow> rbind (printint n 16 False s) (cprintf fmt args) | _ \<Rightarrow> Undefined ''va_arg'')
      else if d = 115 then
        (case args of AStr p # args \<Rightarrow> rbind (put_str p s) (cprintf fmt args) | _ \<Rightarrow> Undefined ''va_arg'')
      else if d = 37 then rbind (consputc 37 s) (cprintf fmt args)
      else rbind (consputc 37 s) (\<lambda>s. rbind (consputc (uint d) s) (cprintf fmt args)))"

section \<open>The user's printf\<close>

text \<open>The characters it writes; the digits above nine are capital letters here.\<close>

definition user_digit :: "nat \<Rightarrow> u8" where
  "user_digit d = (if d < 10 then 48 + word_of_nat d else 65 + word_of_nat (d - 10))"

function user_digits_rev :: "nat \<Rightarrow> nat \<Rightarrow> bytes" where
  "user_digits_rev x base = (if base < 2 then [] else
     user_digit (x mod base) # (if x div base = 0 then [] else user_digits_rev (x div base) base))"
  by pat_completeness auto
termination
  by (relation "measure fst") (auto simp: not_less div_eq_0_iff)

declare user_digits_rev.simps [simp del]

definition user_printint :: "u32 \<Rightarrow> nat \<Rightarrow> bool \<Rightarrow> bytes" where
  "user_printint xx base sg =
     (let neg = (sg \<and> sint xx < 0);
          x = (if neg then - xx else xx);
          buf = user_digits_rev (unat x) base
      in rev (if neg then buf @ [45] else buf))"

text \<open>The state of the loop is \<open>True\<close> after a percent sign.\<close>

fun printf_loop :: "bool \<Rightarrow> bytes \<Rightarrow> arg list \<Rightarrow> bytes \<Rightarrow> bytes res" where
  "printf_loop st [] args out = Ok out"
| "printf_loop False (c # fmt) args out =
     (if c = 37 then printf_loop True fmt args out else printf_loop False fmt args (out @ [c]))"
| "printf_loop True (c # fmt) args out =
     (if c = 100 then
        (case args of AInt n # args \<Rightarrow> printf_loop False fmt args (out @ user_printint n 10 True)
         | _ \<Rightarrow> Undefined ''va_arg'')
      else if c = 120 \<or> c = 112 then
        (case args of AInt n # args \<Rightarrow> printf_loop False fmt args (out @ user_printint n 16 False)
         | _ \<Rightarrow> Undefined ''va_arg'')
      else if c = 115 then
        (case args of AStr p # args \<Rightarrow> printf_loop False fmt args (out @ str_of p) | _ \<Rightarrow> Undefined ''va_arg'')
      else if c = 99 then
        (case args of AInt n # args \<Rightarrow> printf_loop False fmt args (out @ [ucast n]) | _ \<Rightarrow> Undefined ''va_arg'')
      else if c = 37 then printf_loop False fmt args (out @ [c])
      else printf_loop False fmt args (out @ [37, c]))"

definition printf :: "bytes \<Rightarrow> arg list \<Rightarrow> bytes res" where
  "printf fmt args = printf_loop False fmt args []"

section \<open>atoi\<close>

text \<open>\<open>n*10 + *s - '0'\<close> on a machine \<open>int\<close>; there is no sign.\<close>

fun atoi_loop :: "bytes \<Rightarrow> u32 \<Rightarrow> u32" where
  "atoi_loop [] n = n"
| "atoi_loop (c # s) n = (if 48 \<le> c \<and> c \<le> 57 then atoi_loop s (n * 10 + ucast c - 48) else n)"

definition atoi :: "bytes \<Rightarrow> int" where
  "atoi s = sint (atoi_loop s 0)"

section \<open>Both print the same text\<close>

text \<open>The formats whose conversions are the ones both print alike: hexadecimal digits differ in case, and
  the kernel has no \<open>%c\<close>.\<close>

fun common_format :: "bytes \<Rightarrow> bool" where
  "common_format [] = True"
| "common_format [c] = True"
| "common_format (c # d # fmt) =
     (if c \<noteq> 37 then common_format (d # fmt) else d \<notin> {120, 112, 99} \<and> common_format fmt)"

lemma consputc_signed: "consputc (sint b) s = consputc (uint (b :: u8)) s"
proof -
  have low: "word_of_int (sint b) AND (255 :: u16) = word_of_int (uint b) AND 255"
  proof (rule bit_word_eqI)
    fix n :: nat
    have m8: "(255 :: u16) = mask 8" by (simp add: mask_eq_exp_minus_1)
    consider "n < 7" | "n = 7" | "8 \<le> n" by fastforce
    then show "bit (word_of_int (sint b) AND (255 :: u16)) n = bit (word_of_int (uint b) AND (255 :: u16)) n"
      unfolding m8 by cases (auto simp: bit_simps min_def)
  qed
  have nl: "sint b = 10 \<longleftrightarrow> uint b = 10"
  proof -
    have "b = word_of_int (sint b)" "b = word_of_int (uint b)" by simp_all
    then have "sint b = 10 \<Longrightarrow> b = 10" "uint b = 10 \<Longrightarrow> b = 10" by simp_all
    then show ?thesis by auto
  qed
  have bs: "sint b \<noteq> BACKSPACE" "uint b \<noteq> BACKSPACE"
    using sint_lt [of b] uint_lt2p [of b] by simp_all
  have "word_of_int (sint b) = (b :: u8)" "word_of_int (uint b) = (b :: u8)" by simp_all
  then have "uartputc (sint b) s = uartputc (uint b) s" by (simp add: uartputc_def)
  then show ?thesis by (simp only: consputc_def cgaputc_def low nl bs if_False)
qed

lemma console_puts_append: "console_puts (u @ v) s = rbind (console_puts u s) (console_puts v)"
  by (simp add: console_puts_def [abs_def] rfold_append)

lemma console_puts_Cons: "console_puts (c # v) s = rbind (consputc (uint c) s) (console_puts v)"
  by (simp add: console_puts_def [abs_def])

lemma console_puts_single [simp]: "console_puts [c] s = consputc (uint c) s"
proof -
  have "rfold f [] = Ok" for f :: "u8 \<Rightarrow> screen \<Rightarrow> screen res" by (intro ext) simp
  then show ?thesis by (simp add: console_puts_def)
qed

lemma console_puts_Nil [simp]: "console_puts [] s = Ok s"
  by (simp add: console_puts_def)

lemma put_str_puts: "put_str p s = console_puts (str_of p) s"
proof -
  have "(\<lambda>b :: u8. consputc (sint b)) = (\<lambda>b. consputc (uint b))" by (intro ext) (rule consputc_signed)
  then show ?thesis by (simp only: put_str_def console_puts_def)
qed

lemma user_digit_decimal: "d < 10 \<Longrightarrow> user_digit d = digit d"
  by (simp add: user_digit_def digit_def)

lemma user_digits_decimal: "user_digits_rev x 10 = digits_rev x 10"
proof (induction x rule: less_induct)
  case (less x)
  have d: "user_digit (x mod 10) = digit (x mod 10)" by (rule user_digit_decimal) simp
  have "user_digits_rev x 10 = user_digit (x mod 10) # (if x div 10 = 0 then [] else user_digits_rev (x div 10) 10)"
    by (subst user_digits_rev.simps) simp
  also have "\<dots> = digit (x mod 10) # (if x div 10 = 0 then [] else digits_rev (x div 10) 10)"
    using less [of "x div 10"] d by (cases "x div 10 = 0") simp_all
  also have "\<dots> = digits_rev x 10" by (subst (2) digits_rev.simps) simp
  finally show ?case .
qed

lemma user_printint_decimal: "printint n 10 True s = console_puts (user_printint n 10 True) s"
  by (simp add: printint_def user_printint_def user_digits_decimal Let_def)

lemma cprintf_printf:
  "common_format fmt \<Longrightarrow> printf_loop False fmt args out = Ok r \<Longrightarrow>
     \<exists>printed. r = out @ printed \<and> (\<forall>s. cprintf fmt args s = console_puts printed s)"
proof (induction fmt arbitrary: args out rule: common_format.induct)
  case (2 c)
  then show ?case
    by (cases "c = 37") (auto intro!: exI [of _ "[c]"])
next
  case (3 c d fmt)
  show ?case
  proof (cases "c = 37")
    case False
    with 3 obtain printed where "r = (out @ [c]) @ printed" "\<forall>s. cprintf (d # fmt) args s = console_puts printed s"
      by fastforce
    then have "r = out @ (c # printed)" "cprintf (d # fmt) args = console_puts printed" by auto
    with False show ?thesis
      by (intro exI [of _ "c # printed"]) (simp add: console_puts_Cons)
  next
    case True
    have step: "\<exists>printed. r = out @ printed \<and> (\<forall>s. cprintf (c # d # fmt) args s = console_puts printed s)"
      if "printf_loop False fmt args' (out @ bs) = Ok r"
        "\<And>s. cprintf (c # d # fmt) args s = rbind (console_puts bs s) (cprintf fmt args')" for args' bs
    proof -
      from 3 True that(1) obtain printed where "r = (out @ bs) @ printed" "\<forall>s. cprintf fmt args' s = console_puts printed s"
        by fastforce
      then have "r = out @ (bs @ printed)" "cprintf fmt args' = console_puts printed" by auto
      then have "r = out @ (bs @ printed) \<and> (\<forall>s. cprintf (c # d # fmt) args s = console_puts (bs @ printed) s)"
        by (simp add: that(2) console_puts_append del: cprintf.simps)
      then show ?thesis by blast
    qed
    consider "d = 100" | "d = 115" | "d = 37" | "d \<notin> {100, 115, 37, 120, 112, 99}"
      using 3(3) True by auto
    then show ?thesis
    proof cases
      case 1
      with 3(4) True obtain n args' where "args = AInt n # args'"
        "printf_loop False fmt args' (out @ user_printint n 10 True) = Ok r"
        by (auto split: list.splits arg.splits)
      with True 1 show ?thesis by (intro step) (auto simp: user_printint_decimal)
    next
      case 2
      with 3(4) True obtain p args' where "args = AStr p # args'"
        "printf_loop False fmt args' (out @ str_of p) = Ok r"
        by (auto split: list.splits arg.splits)
      with True 2 show ?thesis by (intro step) (auto simp: put_str_puts)
    next
      case 3
      with \<open>printf_loop False (c # d # fmt) args out = Ok r\<close> True show ?thesis
        by (intro step [of args "[37]"]) simp_all
    next
      case 4
      with \<open>printf_loop False (c # d # fmt) args out = Ok r\<close> True show ?thesis
        by (intro step [of args "[37, d]"]) (simp_all add: console_puts_Cons [of _ "[d]"] rbind_assoc)
    qed
  qed
qed simp

text \<open>C26. On a format without hexadecimal and character conversions the kernel's \<open>cprintf\<close> puts on the
  console the characters that \<open>printf\<close> writes for the same arguments.\<close>

theorem cprintf_agrees_with_printf:
  assumes "common_format fmt" and "printf fmt args = Ok printed"
  shows "cprintf fmt args s = console_puts printed s"
  using cprintf_printf [OF assms(1), of args "[]" printed] assms(2) by (auto simp: printf_def)

section \<open>Numbers are read back\<close>

lemma digits_rev_decimal:
  "digits_rev x 10 = (48 + word_of_nat (x mod 10)) # (if x < 10 then [] else digits_rev (x div 10) 10)"
proof -
  have "digit (x mod 10) = 48 + word_of_nat (x mod 10)" by (simp add: digit_def)
  then show ?thesis by (subst digits_rev.simps) (simp add: div_eq_0_iff)
qed

lemma atoi_digit:
  assumes "d < 10"
  shows "atoi_loop ((48 + word_of_nat d) # ds) n = atoi_loop ds (word_of_nat d + n * 10)"
proof -
  have "d = 0 \<or> d = 1 \<or> d = 2 \<or> d = 3 \<or> d = 4 \<or> d = 5 \<or> d = 6 \<or> d = 7 \<or> d = 8 \<or> d = 9"
    using assms by arith
  then show ?thesis by (elim disjE) simp_all
qed

lemma atoi_loop_digits: "atoi_loop (rev (digits_rev x 10) @ ds) 0 = atoi_loop ds (word_of_nat x)"
proof (induction x arbitrary: ds rule: less_induct)
  case (less x)
  have m: "x mod 10 < 10" by simp
  show ?case
  proof (cases "x < 10")
    case True
    then show ?thesis by (subst digits_rev_decimal) (simp add: atoi_digit del: atoi_loop.simps(2))
  next
    case False
    then have "x div 10 < x" by (simp add: div_less_dividend)
    note IH = less [OF this]
    have "(word_of_nat x :: u32) = word_of_nat (x mod 10 + x div 10 * 10)" by (simp only: mod_div_mult_eq)
    also have "\<dots> = word_of_nat (x mod 10) + word_of_nat (x div 10) * 10"
      by (simp only: of_nat_add of_nat_mult of_nat_numeral)
    finally have "word_of_nat (x mod 10) + word_of_nat (x div 10) * 10 = (word_of_nat x :: u32)" by (rule sym)
    with False IH show ?thesis
      by (subst digits_rev_decimal) (simp add: atoi_digit [OF m] del: atoi_loop.simps(2))
  qed
qed

lemma length_digits_rev: "x < 10 ^ k \<Longrightarrow> 0 < k \<Longrightarrow> length (digits_rev x 10) \<le> k"
proof (induction k arbitrary: x)
  case (Suc k)
  show ?case
  proof (cases "x < 10")
    case True
    then show ?thesis by (subst digits_rev_decimal) simp
  next
    case False
    then have "0 < k" using Suc.prems(1) by (cases k) auto
    moreover have "x div 10 < 10 ^ k" using Suc.prems(1) by (simp add: div_less_iff_less_mult)
    ultimately show ?thesis using Suc.IH [of "x div 10"] by (subst digits_rev_decimal) simp
  qed
qed simp

text \<open>A number printed with \<open>%d\<close> fits the digit buffer, and \<open>atoi\<close> reads it back unless it is negative:
  \<open>atoi\<close> knows no sign and returns 0.\<close>

theorem printed_number_read_back:
  "\<exists>out. printf [37, 100] [AInt n] = Ok out \<and> length out \<le> 11 \<and> atoi out = (if 0 \<le> sint n then sint n else 0)"
proof (cases "sint n < 0")
  case True
  have "length (digits_rev (unat (- n)) 10) \<le> 10"
    by (rule length_digits_rev [OF less_trans [OF u32_bound]]) simp_all
  moreover have "user_printint n 10 True = 45 # rev (digits_rev (unat (- n)) 10)"
    using True by (simp add: user_printint_def user_digits_decimal)
  ultimately show ?thesis using True by (simp add: printf_def atoi_def)
next
  case False
  have "length (digits_rev (unat n) 10) \<le> 10"
    by (rule length_digits_rev [OF less_trans [OF u32_bound]]) simp_all
  moreover have "user_printint n 10 True = rev (digits_rev (unat n) 10)"
    using False by (simp add: user_printint_def user_digits_decimal)
  moreover have "atoi_loop (rev (digits_rev (unat n) 10)) 0 = n"
    using atoi_loop_digits [of "unat n" "[]"] by simp
  ultimately show ?thesis using False by (simp add: printf_def atoi_def)
qed

theorem cprintf_agrees_with_printf_witness:
  "cprintf [112, 37, 100, 33] [AInt 7] (scr blank_console) = console_puts [112, 55, 33] (scr blank_console)"
proof (rule cprintf_agrees_with_printf)
  have "digits_rev 7 10 = [55]" by (subst digits_rev_decimal) simp
  then show "printf [112, 37, 100, 33] [AInt 7] = Ok [112, 55, 33]"
    by (simp add: printf_def user_printint_def user_digits_decimal)
qed simp

end
