(* ===== verification/Builtins.thy ===== *)
theory Builtins imports Unparse Printf begin

text \<open>
  The main loop of the shell (\<open>sh.c\<close>): which lines it handles itself (\<open>cd\<close>, \<open>history\<close>, \<open>block\<close>,
  \<open>unblock\<close>, \<open>chmod\<close>) and which it gives to the parser in a child.  The model returns what the loop does
  with the line as an \<open>action\<close>; running it is the business of the system calls.
\<close>

section \<open>Helpers\<close>

fun startswith :: "bytes \<Rightarrow> bytes \<Rightarrow> bool" where
  "startswith s [] \<longleftrightarrow> True"
| "startswith s (p # ps) \<longleftrightarrow> (if ld s 0 \<noteq> p then False else startswith (tl s) ps)"

fun my_atoi_loop :: "bytes \<Rightarrow> u32 \<Rightarrow> u32" where
  "my_atoi_loop [] n = n"
| "my_atoi_loop (c # s) n = (if 48 \<le> c \<and> c \<le> 57 then my_atoi_loop s (n * 10 + (ucast c - 48)) else n)"

definition my_atoi :: "bytes \<Rightarrow> int" where
  "my_atoi s = sint (my_atoi_loop s 0)"

text \<open>\<open>my_strtok\<close> with its static pointer \<open>input\<close> (\<open>None\<close> is null); positions are in the one array \<open>buf\<close>.\<close>

function strtok_skip :: "bytes \<Rightarrow> u8 \<Rightarrow> nat \<Rightarrow> nat" where
  "strtok_skip buf delim p = (if p < length buf \<and> ld buf p = delim then strtok_skip buf delim (Suc p) else p)"
  by pat_completeness auto
termination by (relation "measure (\<lambda>(buf, d, p). length buf - p)") auto

function strtok_end :: "bytes \<Rightarrow> u8 \<Rightarrow> nat \<Rightarrow> nat" where
  "strtok_end buf delim p = (if ld buf p \<noteq> 0 \<and> ld buf p \<noteq> delim then strtok_end buf delim (Suc p) else p)"
  by pat_completeness auto
termination by (relation "measure (\<lambda>(buf, d, p). length buf - p)") (auto simp: ld_def split: if_splits)

declare strtok_skip.simps [simp del] strtok_end.simps [simp del]

definition my_strtok :: "nat option \<Rightarrow> u8 \<Rightarrow> nat option \<times> bytes \<Rightarrow> nat option \<times> nat option \<times> bytes" where
  "my_strtok s delim = (\<lambda>(input, buf).
     case (if s \<noteq> None then s else input) of
       None \<Rightarrow> (None, None, buf)
     | Some p \<Rightarrow>
         let p = strtok_skip buf delim p in
         if ld buf p = 0 then (None, Some p, buf)
         else
           let e = strtok_end buf delim p in
           if ld buf e = delim then (Some p, Some (Suc e), buf[e := 0]) else (Some p, Some e, buf))"

section \<open>The main loop\<close>

datatype action =
    Chdir bytes
  | History
  | Block int
  | Unblock int
  | ChmodUsage
  | Chmod bytes int
  | Run "(span cmd \<times> bytes) res"

definition shell_line_action :: "nat option \<Rightarrow> bytes \<Rightarrow> action" where
  "shell_line_action input buf =
     (if ld buf 0 = 99 \<and> ld buf 1 = 100 \<and> ld buf 2 = 32 then
        Chdir (string_at (buf[strlen buf - 1 := 0]) 3)
      else if startswith buf [104, 105, 115, 116, 111, 114, 121] then History
      else if startswith buf [98, 108, 111, 99, 107, 32] then Block (my_atoi (drop 6 buf))
      else if startswith buf [117, 110, 98, 108, 111, 99, 107, 32] then Unblock (my_atoi (drop 8 buf))
      else if startswith buf [99, 104, 109, 111, 100, 32] then
        let (filename, input, buf) = my_strtok (Some 6) 32 (input, buf);
            (mode_str, input, buf) = my_strtok None 32 (input, buf)
        in (case (filename, mode_str) of
              (Some f, Some m) \<Rightarrow> Chmod (string_at buf f) (atoi (string_at buf m))
            | _ \<Rightarrow> ChmodUsage)
      else Run (parsecmd buf))"

section \<open>What they compute\<close>

lemma startswith_take: "0 \<notin> set p \<Longrightarrow> startswith s p \<longleftrightarrow> take (length p) s = p"
proof (induction s p rule: startswith.induct)
  case (2 s q ps)
  then show ?case by (cases s) auto
qed simp

lemma my_atoi_atoi: "my_atoi = atoi"
proof -
  have "my_atoi_loop s n = atoi_loop s n" for s n
    by (induction s n rule: my_atoi_loop.induct) (simp_all add: algebra_simps)
  then show ?thesis by (simp add: fun_eq_iff my_atoi_def atoi_def)
qed

text \<open>Lines with a built-in prefix never reach the parser, whatever follows: \<open>history\<close> need not even end
  there.\<close>

lemma history_prefix: "shell_line_action i ([104, 105, 115, 116, 111, 114, 121] @ rest) = History"
  by (simp add: shell_line_action_def ld_def)

end
