(* ===== verification/Pipeio.thy ===== *)
theory Pipeio imports Sysfile Contents begin

text \<open>
  Pipes behind the file-system calls of the first assignment.  \<open>sys_read\<close> and \<open>sys_write\<close> lock \<open>f->ip\<close>
  before they look at the kind of the file, and \<open>pipealloc\<close> leaves that field as the last user of the
  slot left it: what happens to a read of a pipe is decided by the history of its slot.
\<close>

section \<open>Slots that hold no live inode\<close>

text \<open>The inode field is null, or points to an entry of the inode cache that nobody references.\<close>

definition bare :: "'a file_state_scheme \<Rightarrow> nat \<Rightarrow> bool" where
  "bare s f \<longleftrightarrow> (case f_ip (ftable s f) of None \<Rightarrow> True | Some ip \<Rightarrow> i_ref (inodes s ip) < 1)"

definition bare_slots :: "'a file_state_scheme \<Rightarrow> bool" where
  "bare_slots s \<longleftrightarrow> (\<forall>f < NFILE. f_ref (ftable s f) = 0 \<longrightarrow> bare s f)"

lemma ilock_bare: "bare s f \<Longrightarrow> ilock (f_ip (ftable s f)) s = Panic ''ilock''"
  by (simp add: bare_def ilock_def split: option.splits)

lemma sys_read_bare:
  "argfd afd s = Some (fd, f) \<Longrightarrow> bare s f \<Longrightarrow> sys_read afd (Some n) True s = Panic ''ilock''"
  by (simp add: sys_read_def ilock_bare)

lemma sys_write_bare:
  "argfd afd s = Some (fd, f) \<Longrightarrow> bare s f \<Longrightarrow> sys_write afd (Some bs) s = Panic ''ilock''"
  by (simp add: sys_write_def ilock_bare)

section \<open>What making a pipe does\<close>

text \<open>A successful \<open>pipealloc\<close> takes two slots that were free and changes neither the inode field of a
  slot nor the inode cache.\<close>

lemma upd_file_sel [simp]:
  "ftable (upd_file i f s) = (ftable s)(i := f (ftable s i))" "inodes (upd_file i f s) = inodes s"
  "procs (upd_file i f s) = procs s" "cur (upd_file i f s) = cur s"
  by (simp_all add: upd_file_def)

lemma set_ofile_sel [simp]:
  "ftable (set_ofile fd f s) = ftable s" "inodes (set_ofile fd f s) = inodes s" "cur (set_ofile fd f s) = cur s"
  "p_ofile (myproc (set_ofile fd f s)) = (p_ofile (myproc s))(fd := f)"
  by (simp_all add: set_ofile_def upd_proc_def myproc_def)

lemma filealloc_SomeD:
  "filealloc s = (Some f, t) \<Longrightarrow> f < NFILE \<and> f_ref (ftable s f) = 0 \<and> t = upd_file f (\<lambda>f. f\<lparr>f_ref := 1\<rparr>) s"
  by (auto simp: filealloc_def first_index_Some split: option.splits)

lemma fdalloc_okD:
  "fdalloc f s = (fd, t) \<Longrightarrow> 0 \<le> fd \<Longrightarrow>
     nat fd < NOFILE \<and> p_ofile (myproc s) (nat fd) = None \<and> t = set_ofile (nat fd) (Some f) s"
  by (auto simp: fdalloc_def first_index_Some split: option.splits)

lemma pipealloc_okD:
  assumes "pipealloc page s = Ok (Some (f0, f1), t)"
  shows "f0 < NFILE \<and> f1 < NFILE \<and> f0 \<noteq> f1 \<and> f_ref (ftable s f0) = 0 \<and> f_ref (ftable s f1) = 0 \<and>
    (\<forall>f. f_ip (ftable t f) = f_ip (ftable s f)) \<and> inodes t = inodes s \<and> cur t = cur s \<and> procs t = procs s \<and>
    f_type (ftable t f0) = FD_PIPE \<and> f_type (ftable t f1) = FD_PIPE"
proof -
  obtain g0 s0 where a0: "filealloc s = (Some g0, s0)"
    using assms by (auto simp: pipealloc_def split: prod.splits option.splits)
  obtain g1 s1 where a1: "filealloc s0 = (Some g1, s1)"
    using assms a0 by (auto simp: pipealloc_def rbind_eq_Ok split: prod.splits option.splits)
  obtain p where p: "page = Some p"
    using assms a0 a1 by (auto simp: pipealloc_def rbind_eq_Ok split: option.splits)
  from filealloc_SomeD [OF a0] filealloc_SomeD [OF a1] assms a0 a1 p show ?thesis
    by (auto simp: pipealloc_def Let_def split: if_splits)
qed

lemma sys_pipe_okD:
  assumes "sys_pipe ok page s = Ok (0, Some (r, w), t)"
  obtains f0 f1 where "f0 < NFILE" "f1 < NFILE" "f_ref (ftable s f0) = 0" "f_ref (ftable s f1) = 0"
    "argfd (Some r) t = Some (nat r, f0)" "argfd (Some w) t = Some (nat w, f1)"
    "\<And>f. f_ip (ftable t f) = f_ip (ftable s f)" "inodes t = inodes s"
    "f_type (ftable t f0) = FD_PIPE" "f_type (ftable t f1) = FD_PIPE"
proof -
  obtain f0 f1 s1 where pa: "pipealloc page s = Ok (Some (f0, f1), s1)"
    using assms by (auto simp: sys_pipe_def rbind_eq_Ok split: if_splits option.splits)
  obtain r' s2 where fd0: "fdalloc f0 s1 = (r', s2)" by fastforce
  obtain w' s3 where fd1: "fdalloc f1 s2 = (w', s3)" by fastforce
  have ok: "ok" "0 \<le> r'" "0 \<le> w'" "r' = r" "w' = w" "s3 = t"
    using assms by (auto simp: sys_pipe_def pa fd0 fd1 rbind_eq_Ok split: if_splits)
  note a = fdalloc_okD [OF fd0] fdalloc_okD [OF fd1]
  have ne: "nat r \<noteq> nat w" using a ok by auto
  show thesis
    by (rule that [of f0 f1]) (use a ok ne pipealloc_okD [OF pa] in \<open>auto simp: argfd_def\<close>)
qed

text \<open>C36. In a kernel whose free file slots hold no live inode - such as a freshly booted one, where
  they are all null - every use of a new pipe stops the machine: \<open>read\<close> on the reading end and \<open>write\<close>
  on the writing end, of any length, panic in \<open>ilock\<close>, because the permission check locks \<open>f->ip\<close>
  without looking at the kind of the file.\<close>

theorem pipe_io_panics:
  assumes "sys_pipe ok page s = Ok (0, Some (r, w), t)" and "bare_slots s"
  shows "sys_read (Some r) (Some n) True t = Panic ''ilock'' \<and> sys_write (Some w) (Some bs) t = Panic ''ilock''"
  using assms(1)
proof (cases rule: sys_pipe_okD)
  case (1 f0 f1)
  with assms(2) have "bare t f0" "bare t f1" by (simp_all add: bare_slots_def bare_def split: option.splits)
  with 1 show ?thesis by (simp add: sys_read_bare sys_write_bare)
qed

text \<open>A running kernel with the console open in slot 0, as \<open>init\<close> leaves it.\<close>

definition file_slot :: "nat \<Rightarrow> ofile" where
  "file_slot f =
     \<lparr>f_type = (if f = 0 then FD_INODE else FD_NONE), f_ref = (if f = 0 then 3 else 0), f_readable = (f = 0),
      f_writable = (f = 0), f_pipe = 0, f_ip = (if f = 0 then Some 0 else None), f_off = 0\<rparr>"

definition booted :: file_state where
  "booted = fs_state.extend small_fs \<lparr>ftable = file_slot,
     pipes = (\<lambda>_. \<lparr>pdata = (\<lambda>_. 0), nread = 0, nwrite = 0, readopen = False, writeopen = False\<rparr>)\<rparr>"

lemma booted_sel [simp]:
  "ftable booted = file_slot" "p_ofile (myproc booted) = (\<lambda>_. None)"
  by (simp_all add: booted_def fs_state.defs small_fs_def myproc_def binit_def unused_proc_def Let_def split: prod.splits)

lemma first_index_at: "P i \<Longrightarrow> i < n \<Longrightarrow> (\<And>j. j < i \<Longrightarrow> \<not> P j) \<Longrightarrow> first_index P n = Some i"
  by (simp add: first_index_Some)

lemma booted_bare: "bare_slots booted"
  by (simp add: bare_slots_def bare_def file_slot_def)

lemma booted_pipe: "\<exists>t. sys_pipe True (Some 9) booted = Ok (0, Some (0, 1), t)"
proof -
  have 1: "filealloc s = (Some 1, upd_file 1 (\<lambda>f. f\<lparr>f_ref := 1\<rparr>) s)" if "ftable s = file_slot" for s :: file_state
    using that by (simp add: filealloc_def file_slot_def first_index_at [where i = 1])
  have 2: "filealloc s = (Some 2, upd_file 2 (\<lambda>f. f\<lparr>f_ref := 1\<rparr>) s)"
    if "ftable s = file_slot(1 := f)" "f_ref f = 1" for s :: file_state and f
    using that by (simp add: filealloc_def file_slot_def first_index_at [where i = 2] less_2_cases_iff)
  obtain t where t: "pipealloc (Some 9) booted = Ok (Some (1, 2), t)" "procs t = procs booted" "cur t = cur booted"
    by (simp add: pipealloc_def 1 2 Let_def)
  then have "p_ofile (myproc t) = (\<lambda>_. None)" using booted_sel(2) by (simp add: myproc_def)
  then show ?thesis
    by (simp add: sys_pipe_def t fdalloc_def first_index_at [where i = 0] first_index_at [where i = 1])
qed

theorem pipe_io_panics_witness:
  "\<exists>t. sys_pipe True (Some 9) booted = Ok (0, Some (0, 1), t) \<and>
     sys_read (Some 0) (Some 10) True t = Panic ''ilock'' \<and> sys_write (Some 1) (Some [104, 105]) t = Panic ''ilock''"
  using booted_pipe pipe_io_panics [OF _ booted_bare, of True "Some 9" 0 1 _ 10 "[104, 105]"] by blast

end
