(* ===== verification/Runcmd.thy ===== *)
theory Runcmd imports Shell Frames Pipeio begin

text \<open>
  \<open>runcmd\<close> of the shell (\<open>sh.c\<close>) as the system calls it makes.  A program is a tree: each node is a call,
  and the rest of the program depends on what the call returns.  \<open>sys_step\<close> says what the calls do to the
  descriptors of a process; a fork leads to the child as well as to the parent.  A pipe is named by the
  forks that lead to the process that makes it.
\<close>

section \<open>Programs\<close>

datatype prog =
    Exit
  | Close int prog
  | Dup int "int \<Rightarrow> prog"
  | Open bytes int "int \<Rightarrow> prog"
  | Pipe2 "(int \<times> int) option \<Rightarrow> prog"
  | Fork "int \<Rightarrow> prog"
  | Wait prog
  | Exec "bytes list" prog
  | Print string bytes prog

text \<open>\<open>panic\<close> and \<open>fork1\<close> of the shell; the first word of a message is followed by a name.\<close>

definition sh_panic :: "string \<Rightarrow> prog" where
  "sh_panic s = Print s [] Exit"

definition fork1 :: "(int \<Rightarrow> prog) \<Rightarrow> prog" where
  "fork1 k = Fork (\<lambda>pid. if pid = -1 then sh_panic ''fork'' else k pid)"

primrec runcmd :: "bytes cmd \<Rightarrow> prog" where
  "runcmd (EXEC argv) =
     (case argv of [] \<Rightarrow> Exit | a # _ \<Rightarrow> Exec argv (Print ''exec failed'' a Exit))"
| "runcmd (REDIR cmd file mode fd) =
     Close fd (Open file mode (\<lambda>r. if r < 0 then Print ''open failed'' file Exit else runcmd cmd))"
| "runcmd (LIST left right) =
     fork1 (\<lambda>pid. if pid = 0 then runcmd left else Wait (runcmd right))"
| "runcmd (PIPE left right) =
     Pipe2 (\<lambda>p. case p of
         None \<Rightarrow> sh_panic ''pipe''
       | Some (p0, p1) \<Rightarrow>
           fork1 (\<lambda>pid. if pid = 0 then
               Close 1 (Dup p1 (\<lambda>_. Close p0 (Close p1 (runcmd left))))
             else fork1 (\<lambda>pid. if pid = 0 then
               Close 0 (Dup p0 (\<lambda>_. Close p0 (Close p1 (runcmd right))))
             else Close p0 (Close p1 (Wait (Wait Exit))))))"
| "runcmd (BACK cmd) = fork1 (\<lambda>pid. if pid = 0 then runcmd cmd else Exit)"

section \<open>Descriptors\<close>

datatype sh_file = Inherited nat | PipeR "nat list" | PipeW "nat list" | Opened bytes int

type_synonym fds = "nat \<rightharpoonup> sh_file"

text \<open>A table of descriptors holds something for each open one.  \<open>fdalloc\<close> gives out the lowest free one.\<close>

definition lowest :: "(nat \<rightharpoonup> 'f) \<Rightarrow> nat option" where
  "lowest T = first_index (\<lambda>n. T n = None) NOFILE"

definition do_alloc :: "'f \<Rightarrow> (nat \<rightharpoonup> 'f) \<Rightarrow> int \<times> (nat \<rightharpoonup> 'f)" where
  "do_alloc f T = (case lowest T of None \<Rightarrow> (-1, T) | Some n \<Rightarrow> (int n, T(n \<mapsto> f)))"

definition do_close :: "int \<Rightarrow> (nat \<rightharpoonup> 'f) \<Rightarrow> (nat \<rightharpoonup> 'f)" where
  "do_close n T = (if n < 0 then T else T(nat n := None))"

definition do_dup :: "int \<Rightarrow> (nat \<rightharpoonup> 'f) \<Rightarrow> int \<times> (nat \<rightharpoonup> 'f)" where
  "do_dup n T = (if n < 0 then (-1, T) else case T (nat n) of None \<Rightarrow> (-1, T) | Some f \<Rightarrow> do_alloc f T)"

definition do_pipe :: "'f \<Rightarrow> 'f \<Rightarrow> (nat \<rightharpoonup> 'f) \<Rightarrow> (int \<times> int) option \<times> (nat \<rightharpoonup> 'f)" where
  "do_pipe r w T =
     (case do_alloc r T of (fd0, T') \<Rightarrow>
        if fd0 < 0 then (None, T)
        else case do_alloc w T' of (fd1, T'') \<Rightarrow> if fd1 < 0 then (None, T) else (Some (fd0, fd1), T''))"

text \<open>This is what the kernel's calls do to the table of the process that makes them.\<close>

definition ofiles :: "'a kstate_scheme \<Rightarrow> nat \<rightharpoonup> nat" where
  "ofiles s = p_ofile (myproc s)"

lemma ofiles_set_ofile [simp]: "ofiles (set_ofile fd f s) = (ofiles s)(fd := f)"
  by (simp add: ofiles_def set_ofile_def upd_proc_def myproc_def)

lemma ofiles_upd_file [simp]: "ofiles (upd_file i g s) = ofiles s"
  by (simp add: ofiles_def upd_file_def myproc_def)

lemma ofiles_woken: "woken s t \<Longrightarrow> ofiles t = ofiles s"
  by (cases "procs t (cur s) = procs s (cur s)") (force simp: woken_def ofiles_def myproc_def)+

lemma fileclose_ofiles: "fileclose f s = Ok t \<Longrightarrow> ofiles t = ofiles s"
  by (rule ofiles_woken) (rule keepsD [OF woken.fileclose_wk [OF woken.refl]])

lemma fdalloc_table: "fdalloc f s = (r, t) \<Longrightarrow> (r, ofiles t) = do_alloc f (ofiles s)"
  by (auto simp: fdalloc_def do_alloc_def lowest_def ofiles_def [of s, symmetric] split: option.splits)

lemma sys_dup_table:
  assumes "sys_dup (Some n) s = Ok (r, t)" "\<forall>i\<ge>NOFILE. ofiles s i = None"
  shows "(r, ofiles t) = do_dup n (ofiles s)"
proof (cases "n < 0 \<or> ofiles s (nat n) = None")
  case True
  with assms(1) show ?thesis
    by (auto simp: sys_dup_def argfd_def do_dup_def ofiles_def split: if_splits option.splits)
next
  case False
  then obtain f where f: "ofiles s (nat n) = Some f" by auto
  have "\<not> NOFILE \<le> nat n" using assms(2) f by (metis option.distinct(1))
  with f False have "argfd (Some n) s = Some (nat n, f)" by (simp add: argfd_def ofiles_def)
  with assms(1) obtain u where u: "fdalloc f s = (r, u)" "r < 0 \<longrightarrow> t = u" "r \<ge> 0 \<longrightarrow> filedup f u = Ok (f, t)"
    by (cases "fdalloc f s")
      (auto simp: sys_dup_def filedup_def fdalloc_def rbind_eq_Ok split: if_splits option.splits)
  with u have "ofiles t = ofiles u" by (cases "r < 0") (auto simp: filedup_def split: if_splits)
  with fdalloc_table [OF u(1)] f False show ?thesis by (simp add: do_dup_def)
qed

lemma sys_close_table:
  assumes "sys_close (Some n) s = Ok (r, t)" "\<forall>i\<ge>NOFILE. ofiles s i = None"
  shows "ofiles t = do_close n (ofiles s)"
proof (cases "argfd (Some n) s")
  case None
  with assms have "t = s" "n < 0 \<or> ofiles s (nat n) = None"
    by (auto simp: sys_close_def argfd_def ofiles_def split: if_splits option.splits)
  then show ?thesis by (auto simp: do_close_def fun_eq_iff)
next
  case (Some x)
  then have "x = (nat n, snd x)" "\<not> n < 0" by (auto simp: argfd_def split: if_splits option.splits)
  with Some assms(1) have "fileclose (snd x) (set_ofile (nat n) None s) = Ok t"
    by (cases x) (auto simp: sys_close_def rbind_eq_Ok)
  from fileclose_ofiles [OF this] \<open>\<not> n < 0\<close> show ?thesis by (simp add: do_close_def)
qed

lemma do_alloc_undo: "do_alloc f T = (r, U) \<Longrightarrow> if r < 0 then U = T else U(nat r := None) = T"
  by (auto simp: do_alloc_def lowest_def first_index_Some fun_upd_idem split: option.splits)

lemma filealloc_ofiles: "filealloc s = (r, t) \<Longrightarrow> ofiles t = ofiles s"
  by (auto simp: filealloc_def split: option.splits)

lemma pipealloc_ofiles: "pipealloc page s = Ok (r, t) \<Longrightarrow> ofiles t = ofiles s"
proof -
  have [simp]: "ofiles (u\<lparr>pipes := g\<rparr>) = ofiles u" for u :: "'a file_state_scheme" and g
    by (simp add: ofiles_def myproc_def)
  assume "pipealloc page s = Ok (r, t)"
  then show ?thesis
    by (auto simp: pipealloc_def Let_def rbind_eq_Ok split: prod.splits option.splits
        dest!: filealloc_ofiles fileclose_ofiles)
qed

lemma sys_pipe_table:
  assumes "sys_pipe True page s = Ok (r, fds, t)"
  shows "fds = None \<and> ofiles t = ofiles s \<or> (\<exists>rf wf. (fds, ofiles t) = do_pipe rf wf (ofiles s))"
proof -
  from assms obtain x u where x: "pipealloc page s = Ok (x, u)" by (auto simp: sys_pipe_def rbind_eq_Ok)
  note u = pipealloc_ofiles [OF x]
  show ?thesis
  proof (cases x)
    case None
    with assms x u show ?thesis by (simp add: sys_pipe_def)
  next
    case (Some fs)
    obtain rf wf where fs: "fs = (rf, wf)" by fastforce
    obtain fd0 v where v: "fdalloc rf u = (fd0, v)" by fastforce
    obtain fd1 z where z: "fdalloc wf v = (fd1, z)" by fastforce
    note a = do_alloc_undo [OF fdalloc_table [OF v, symmetric]] do_alloc_undo [OF fdalloc_table [OF z, symmetric]]
    from assms have "(fds, ofiles t) = do_pipe rf wf (ofiles s)"
      unfolding u [symmetric] do_pipe_def fdalloc_table [OF v, symmetric]
      using fdalloc_table [OF z, symmetric] a
      by (auto simp: sys_pipe_def x Some fs v z rbind_eq_Ok split: if_splits dest!: fileclose_ofiles)
    then show ?thesis by blast
  qed
qed

text \<open>The steps of a process.  \<open>open\<close>, \<open>pipe\<close> and \<open>fork\<close> may also fail for reasons of the kernel's, and a
  program that \<open>exec\<close> starts is no longer the shell's concern: the step is the failure.\<close>

inductive sys_step :: "prog \<times> fds \<times> nat list \<Rightarrow> prog \<times> fds \<times> nat list \<Rightarrow> bool" where
  close: "sys_step (Close n p, T, w) (p, do_close n T, w)"
| dup: "do_dup n T = (r, T') \<Longrightarrow> sys_step (Dup n k, T, w) (k r, T', w)"
| open_ok: "do_alloc (Opened file mode) T = (r, T') \<Longrightarrow> sys_step (Open file mode k, T, w) (k r, T', w)"
| open_fails: "sys_step (Open file mode k, T, w) (k (-1), T, w)"
| pipe_ok: "do_pipe (PipeR w) (PipeW w) T = (r, T') \<Longrightarrow> sys_step (Pipe2 k, T, w) (k r, T', w)"
| pipe_fails: "sys_step (Pipe2 k, T, w) (k None, T, w)"
| child: "sys_step (Fork k, T, w) (k 0, T, w @ [0])"
| parent: "0 < pid \<Longrightarrow> sys_step (Fork k, T, w) (k pid, T, w @ [1])"
| fork_fails: "sys_step (Fork k, T, w) (k (-1), T, w)"
| wait: "sys_step (Wait p, T, w) (p, T, w)"
| exec_fails: "sys_step (Exec argv p, T, w) (p, T, w)"
| print: "sys_step (Print s a p, T, w) (p, T, w)"

inductive_cases step_cases:
  "sys_step (Exit, T, w) y" "sys_step (Close n p, T, w) y" "sys_step (Dup n k, T, w) y"
  "sys_step (Open file mode k, T, w) y" "sys_step (Pipe2 k, T, w) y" "sys_step (Fork k, T, w) y"
  "sys_step (Wait p, T, w) y" "sys_step (Exec argv p, T, w) y" "sys_step (Print s a p, T, w) y"

text \<open>Everything a program and its children come to, node by node.\<close>

primrec visits :: "prog \<Rightarrow> fds \<Rightarrow> nat list \<Rightarrow> (prog \<times> fds \<times> nat list) set" where
  "visits Exit = (\<lambda>T w. {(Exit, T, w)})"
| "visits (Close n p) = (\<lambda>T w. insert (Close n p, T, w) (visits p (do_close n T) w))"
| "visits (Dup n k) = (\<lambda>T w. insert (Dup n k, T, w) (visits (k (fst (do_dup n T))) (snd (do_dup n T)) w))"
| "visits (Open file mode k) = (\<lambda>T w. insert (Open file mode k, T, w)
     (visits (k (fst (do_alloc (Opened file mode) T))) (snd (do_alloc (Opened file mode) T)) w \<union> visits (k (-1)) T w))"
| "visits (Pipe2 k) = (\<lambda>T w. insert (Pipe2 k, T, w)
     (visits (k (fst (do_pipe (PipeR w) (PipeW w) T))) (snd (do_pipe (PipeR w) (PipeW w) T)) w \<union> visits (k None) T w))"
| "visits (Fork k) = (\<lambda>T w. insert (Fork k, T, w)
     (visits (k 0) T (w @ [0]) \<union> (\<Union>pid \<in> {0<..}. visits (k pid) T (w @ [1])) \<union> visits (k (-1)) T w))"
| "visits (Wait p) = (\<lambda>T w. insert (Wait p, T, w) (visits p T w))"
| "visits (Exec argv p) = (\<lambda>T w. insert (Exec argv p, T, w) (visits p T w))"
| "visits (Print s a p) = (\<lambda>T w. insert (Print s a p, T, w) (visits p T w))"

lemma visits_self: "(p, T, w) \<in> visits p T w"
  by (cases p) simp_all

lemma visits_step: "sys_step (p, T, w) (q, U, u) \<Longrightarrow> visits q U u \<subseteq> visits p T w"
  by (cases rule: sys_step.cases) auto

lemma steps_visits: "sys_step\<^sup>*\<^sup>* (p, T, w) y \<Longrightarrow> y \<in> visits p T w"
proof (induction "(p, T, w)" arbitrary: p T w rule: converse_rtranclp_induct)
  case base
  then show ?case by (cases y) (simp add: visits_self)
next
  case (step z)
  then show ?case using visits_step by (cases z) blast
qed

lemma step_functional:
  "sys_step (Dup n k, T, w) (k (fst (do_dup n T)), snd (do_dup n T), w)"
  "sys_step (Open file mode k', T, w) (k' (fst (do_alloc (Opened file mode) T)), snd (do_alloc (Opened file mode) T), w)"
  "sys_step (Pipe2 k'', T, w) (k'' (fst (do_pipe (PipeR w) (PipeW w) T)), snd (do_pipe (PipeR w) (PipeW w) T), w)"
  by (rule sys_step.dup sys_step.open_ok sys_step.pipe_ok, simp)+

lemma visits_steps: "y \<in> visits p T w \<Longrightarrow> sys_step\<^sup>*\<^sup>* (p, T, w) y"
proof (induction p arbitrary: T w)
  case (Dup n k)
  then show ?case
    using converse_rtranclp_into_rtranclp [of sys_step, OF step_functional(1) Dup.IH [OF rangeI]] by auto
next
  case (Open f md k)
  then show ?case
    using converse_rtranclp_into_rtranclp [of sys_step, OF step_functional(2) Open.IH [OF rangeI]]
      converse_rtranclp_into_rtranclp [of sys_step, OF sys_step.open_fails Open.IH [OF rangeI]] by auto
next
  case (Pipe2 k)
  then show ?case
    using converse_rtranclp_into_rtranclp [of sys_step, OF step_functional(3) Pipe2.IH [OF rangeI]]
      converse_rtranclp_into_rtranclp [of sys_step, OF sys_step.pipe_fails Pipe2.IH [OF rangeI]] by auto
next
  case (Fork k)
  then show ?case
    using converse_rtranclp_into_rtranclp [of sys_step, OF sys_step.child Fork.IH [OF rangeI]]
      converse_rtranclp_into_rtranclp [of sys_step, OF sys_step.parent Fork.IH [OF rangeI]]
      converse_rtranclp_into_rtranclp [of sys_step, OF sys_step.fork_fails Fork.IH [OF rangeI]] by auto
qed (auto intro: converse_rtranclp_into_rtranclp sys_step.intros)

lemma visits_iff: "y \<in> visits p T w \<longleftrightarrow> sys_step\<^sup>*\<^sup>* (p, T, w) y"
  using visits_steps steps_visits by blast

section \<open>The redirections of a parsed command\<close>

primrec redirs_ok :: "'w cmd \<Rightarrow> bool" where
  "redirs_ok (EXEC ws) \<longleftrightarrow> True"
| "redirs_ok (REDIR c f m fd) \<longleftrightarrow> redirs_ok c \<and> fd \<in> {0, 1}"
| "redirs_ok (PIPE c d) \<longleftrightarrow> redirs_ok c \<and> redirs_ok d"
| "redirs_ok (LIST c d) \<longleftrightarrow> redirs_ok c \<and> redirs_ok d"
| "redirs_ok (BACK c) \<longleftrightarrow> redirs_ok c"

lemma redirs_ok_map [simp]: "redirs_ok (map_cmd f c) = redirs_ok c"
  by (induction c) simp_all

lemma redirs_ok_add_arg [simp]: "redirs_ok (add_arg w c) = redirs_ok c"
  by (induction c) simp_all

definition gives_redirs :: "(span cmd \<times> nat) res \<Rightarrow> bool" where
  "gives_redirs r \<longleftrightarrow> (case r of Ok (c, _) \<Rightarrow> redirs_ok c | _ \<Rightarrow> True)"

lemma gives_simps [simp]:
  "gives_redirs (Ok (c, s)) = redirs_ok c" "gives_redirs (Panic e)" "gives_redirs (Undefined e)"
  by (simp_all add: gives_redirs_def)

lemma gives_if: "(b \<Longrightarrow> gives_redirs x) \<Longrightarrow> (\<not> b \<Longrightarrow> gives_redirs y) \<Longrightarrow> gives_redirs (if b then x else y)"
  by simp

lemma gives_bind:
  "gives_redirs r \<Longrightarrow> (\<And>c s. redirs_ok c \<Longrightarrow> gives_redirs (k (c, s))) \<Longrightarrow> gives_redirs (rbind r k)"
  by (cases r) auto

lemma gives_let: "gives_redirs (k x) \<Longrightarrow> gives_redirs (let a = x in k a)"
  by simp

lemma gives_case: "(\<And>a b. gives_redirs (k a b)) \<Longrightarrow> gives_redirs (case p of (a, b) \<Rightarrow> k a b)"
  by (simp add: split_beta)

lemmas gives = gives_if gives_bind gives_let gives_case

lemma parseredirs_redirs: "redirs_ok c \<Longrightarrow> gives_redirs (parseredirs n buf es c s)"
  by (induction n arbitrary: c s) (auto intro!: gives)

lemma parseargs_redirs: "redirs_ok c \<Longrightarrow> gives_redirs (parseargs n buf es k c s)"
  by (induction n arbitrary: k c s) (auto intro!: gives parseredirs_redirs)

lemma parseexec_redirs: "(\<And>s. gives_redirs (pl s)) \<Longrightarrow> gives_redirs (parseexec pl n buf es s)"
  unfolding parseexec_def parseblock_def by (auto intro!: gives parseredirs_redirs parseargs_redirs)

lemma parsepipe_redirs: "(\<And>s. gives_redirs (pl s)) \<Longrightarrow> gives_redirs (parsepipe n pl buf es s)"
  by (induction n arbitrary: s) (auto intro!: gives parseexec_redirs)

lemma parsebacks_redirs: "redirs_ok c \<Longrightarrow> gives_redirs (parsebacks n buf es c s)"
  by (induction n arbitrary: c s) (auto intro!: gives)

lemma parseline_redirs: "gives_redirs (parseline n buf es s)"
  by (induction n arbitrary: s) (auto intro!: gives parsepipe_redirs parsebacks_redirs)

lemma parsecmd_redirs:
  assumes "parsecmd buf = Ok (c, b)"
  shows "redirs_ok c"
proof (cases "parseline (strlen buf + 3) buf (strlen buf) 0")
  case (Ok r)
  with assms parseline_redirs [of "strlen buf + 3" buf "strlen buf" 0] show ?thesis
    by (cases r) (simp add: parsecmd_def split_beta Let_def split: if_splits)
qed (use assms in \<open>simp_all add: parsecmd_def\<close>)

section \<open>What a command line asks for\<close>

text \<open>The programs that are to run for a command, with their descriptors: a redirection puts the file in
  place of its descriptor, a pipe joins descriptor 1 of one side to descriptor 0 of the other, and
  everything else is passed on.\<close>

primrec launches :: "bytes cmd \<Rightarrow> fds \<Rightarrow> nat list \<Rightarrow> (bytes list \<times> fds) set" where
  "launches (EXEC argv) T w = (if argv = [] then {} else {(argv, T)})"
| "launches (REDIR cmd file mode fd) T w = launches cmd (T(nat fd \<mapsto> Opened file mode)) w"
| "launches (PIPE left right) T w =
     launches left (T(1 \<mapsto> PipeW w)) (w @ [0]) \<union> launches right (T(0 \<mapsto> PipeR w)) (w @ [1, 0])"
| "launches (LIST left right) T w = launches left T (w @ [0]) \<union> launches right T (w @ [1])"
| "launches (BACK cmd) T w = launches cmd T (w @ [0])"

definition starts :: "prog \<Rightarrow> fds \<Rightarrow> nat list \<Rightarrow> (bytes list \<times> fds) set" where
  "starts p T w = {(argv, U). \<exists>q u. (Exec argv q, U, u) \<in> visits p T w}"

definition waits :: "prog \<Rightarrow> fds \<Rightarrow> nat list \<Rightarrow> fds set" where
  "waits p T w = {U. \<exists>q u. (Wait q, U, u) \<in> visits p T w}"

lemma starts_simps [simp]:
  "starts Exit T w = {}"
  "starts (Close n p) T w = starts p (do_close n T) w"
  "starts (Dup n k) T w = starts (k (fst (do_dup n T))) (snd (do_dup n T)) w"
  "starts (Open f m k) T w = starts (k (fst (do_alloc (Opened f m) T))) (snd (do_alloc (Opened f m) T)) w \<union> starts (k (-1)) T w"
  "starts (Pipe2 k') T w = starts (k' (fst (do_pipe (PipeR w) (PipeW w) T))) (snd (do_pipe (PipeR w) (PipeW w) T)) w \<union> starts (k' None) T w"
  "starts (Fork k) T w =
     starts (k 0) T (w @ [0]) \<union> (\<Union>pid\<in>{0<..}. starts (k pid) T (w @ [1])) \<union> starts (k (-1)) T w"
  "starts (Wait p) T w = starts p T w"
  "starts (Exec argv p) T w = insert (argv, T) (starts p T w)"
  "starts (Print s a p) T w = starts p T w"
  by (auto simp: starts_def)

lemma waits_simps [simp]:
  "waits Exit T w = {}"
  "waits (Close n p) T w = waits p (do_close n T) w"
  "waits (Dup n k) T w = waits (k (fst (do_dup n T))) (snd (do_dup n T)) w"
  "waits (Open f m k) T w = waits (k (fst (do_alloc (Opened f m) T))) (snd (do_alloc (Opened f m) T)) w \<union> waits (k (-1)) T w"
  "waits (Pipe2 k') T w = waits (k' (fst (do_pipe (PipeR w) (PipeW w) T))) (snd (do_pipe (PipeR w) (PipeW w) T)) w \<union> waits (k' None) T w"
  "waits (Fork k) T w =
     waits (k 0) T (w @ [0]) \<union> (\<Union>pid\<in>{0<..}. waits (k pid) T (w @ [1])) \<union> waits (k (-1)) T w"
  "waits (Wait p) T w = insert T (waits p T w)"
  "waits (Exec argv p) T w = waits p T w"
  "waits (Print s a p) T w = waits p T w"
  by (auto simp: waits_def)

lemma fork1_simps [simp]:
  "starts (fork1 k) T w = starts (k 0) T (w @ [0]) \<union> (\<Union>pid\<in>{0<..}. starts (k pid) T (w @ [1]))"
  "waits (fork1 k) T w = waits (k 0) T (w @ [0]) \<union> (\<Union>pid\<in>{0<..}. waits (k pid) T (w @ [1]))"
  by (auto simp: fork1_def sh_panic_def)

lemma UN_pids [simp]: "(\<Union>pid\<in>{0<..}. if pid = (0::int) then A else B) = B"
proof -
  have "(1::int) \<in> {0<..}" by simp
  then show ?thesis by (auto split: if_splits)
qed

section \<open>With the three standard descriptors\<close>

definition standard :: "fds \<Rightarrow> bool" where
  "standard T \<longleftrightarrow> dom T = {0, 1, 2}"

lemma standardD: "standard T \<Longrightarrow> T n = None \<longleftrightarrow> 2 < n"
proof -
  assume "standard T"
  then have "n \<in> dom T \<longleftrightarrow> n \<in> {0, 1, 2}" by (simp add: standard_def)
  then show ?thesis by (auto simp: domIff)
qed

lemma standard_upd: "standard T \<Longrightarrow> n \<in> {0, 1, 2} \<Longrightarrow> standard (T(n \<mapsto> x))"
  by (auto simp: standard_def)

lemma lowest_is: "T n = None \<Longrightarrow> n < 16 \<Longrightarrow> \<forall>i<n. T i \<noteq> None \<Longrightarrow> lowest T = Some n"
  by (auto simp: lowest_def first_index_Some)

lemma dup_standard [simp]:
  assumes "standard T"
  shows "do_dup 4 (do_close 1 (T(3 \<mapsto> r, 4 \<mapsto> s))) = (1, T(1 \<mapsto> s, 3 \<mapsto> r, 4 \<mapsto> s))"
    "do_dup 3 (do_close 0 (T(3 \<mapsto> r, 4 \<mapsto> s))) = (0, T(0 \<mapsto> r, 3 \<mapsto> r, 4 \<mapsto> s))"
proof -
  have "lowest (T(3 \<mapsto> r, 4 \<mapsto> s, 1 := None)) = Some 1" "lowest (T(3 \<mapsto> r, 4 \<mapsto> s, 0 := None)) = Some 0"
    using standardD [OF assms, of 0] by (auto intro!: lowest_is)
  then show "do_dup 4 (do_close 1 (T(3 \<mapsto> r, 4 \<mapsto> s))) = (1, T(1 \<mapsto> s, 3 \<mapsto> r, 4 \<mapsto> s))"
    "do_dup 3 (do_close 0 (T(3 \<mapsto> r, 4 \<mapsto> s))) = (0, T(0 \<mapsto> r, 3 \<mapsto> r, 4 \<mapsto> s))"
    by (auto simp: do_dup_def do_alloc_def do_close_def fun_eq_iff)
qed

lemma ends_closed [simp]:
  assumes "standard T"
  shows "do_close 4 (do_close 3 (T(3 \<mapsto> r, 4 \<mapsto> s))) = T"
  using standardD [OF assms, of 3] standardD [OF assms, of 4] by (auto simp: do_close_def fun_eq_iff)

lemma side_ends_closed [simp]:
  assumes "standard T" "n \<in> {0, 1}"
  shows "do_close 4 (do_close 3 (T(n \<mapsto> x, 3 \<mapsto> r, 4 \<mapsto> s))) = T(n \<mapsto> x)"
  by (rule ends_closed [OF standard_upd]) (use assms in auto)

lemma pipe_standard [simp]:
  assumes "standard T"
  shows "do_pipe (PipeR w) (PipeW w) T = (Some (3, 4), T(3 \<mapsto> PipeR w, 4 \<mapsto> PipeW w))"
proof -
  have "lowest T = Some 3" by (rule lowest_is) (simp_all add: standardD [OF assms] del: not_None_eq)
  moreover have "lowest (T(3 \<mapsto> PipeR w)) = Some 4"
    by (rule lowest_is) (simp_all add: standardD [OF assms] del: not_None_eq)
  ultimately show ?thesis by (simp add: do_pipe_def do_alloc_def)
qed

text \<open>Closing a standard descriptor and taking the lowest free one puts the file in its place.\<close>

lemma open_standard [simp]:
  assumes "standard T" "fd \<in> {0, 1}"
  shows "do_alloc (Opened f m) (do_close fd T) = (fd, T(nat fd \<mapsto> Opened f m))"
proof -
  have "lowest (T(nat fd := None)) = Some (nat fd)"
    using assms(2) standardD [OF assms(1), of 0] by (auto intro!: lowest_is)
  then show ?thesis using assms(2) by (auto simp: do_alloc_def do_close_def)
qed

lemma runcmd_starts: "redirs_ok c \<Longrightarrow> standard T \<Longrightarrow> starts (runcmd c) T w = launches c T w"
proof (induction c arbitrary: T w)
  case (EXEC argv)
  then show ?case by (cases argv) simp_all
next
  case (REDIR c f m fd)
  then have "starts (runcmd c) (T(nat fd \<mapsto> Opened f m)) w = launches c (T(nat fd \<mapsto> Opened f m)) w"
    by (intro REDIR.IH standard_upd) auto
  with REDIR.prems show ?case by auto
next
  case (PIPE l r)
  have st: "standard (T(n \<mapsto> x))" if "n \<in> {0, 1}" for n x using PIPE.prems(2) that by (auto intro: standard_upd)
  have "starts (runcmd l) (T(1 \<mapsto> PipeW w)) (w @ [0]) = launches l (T(1 \<mapsto> PipeW w)) (w @ [0])"
    "starts (runcmd r) (T(0 \<mapsto> PipeR w)) (w @ [1, 0]) = launches r (T(0 \<mapsto> PipeR w)) (w @ [1, 0])"
    using PIPE.prems by (auto intro!: PIPE.IH st)
  with PIPE.prems show ?case by (simp add: sh_panic_def)
qed simp_all


lemma runcmd_waits: "redirs_ok c \<Longrightarrow> standard T \<Longrightarrow> U \<in> waits (runcmd c) T w \<Longrightarrow> standard U"
proof (induction c arbitrary: T w)
  case (EXEC argv)
  then show ?case by (cases argv) simp_all
next
  case (REDIR c f m fd)
  have "standard (T(nat fd \<mapsto> Opened f m))" by (rule standard_upd) (use REDIR.prems in auto)
  with REDIR show ?case by auto
next
  case (PIPE l r)
  have st: "standard (T(1 \<mapsto> PipeW w))" "standard (T(0 \<mapsto> PipeR w))"
    using PIPE.prems(2) by (auto intro: standard_upd)
  from PIPE.prems have "U = T \<or> U \<in> waits (runcmd l) (T(1 \<mapsto> PipeW w)) (w @ [0]) \<or>
      U \<in> waits (runcmd r) (T(0 \<mapsto> PipeR w)) (w @ [1, 0])"
    by (auto simp: sh_panic_def)
  with PIPE.prems(1,2) show ?case using PIPE.IH(1) [OF _ st(1)] PIPE.IH(2) [OF _ st(2)] unfolding redirs_ok.simps by blast
next
  case (LIST l r)
  then show ?case by auto
qed simp

lemma launches_standard: "redirs_ok c \<Longrightarrow> standard T \<Longrightarrow> (argv, U) \<in> launches c T w \<Longrightarrow> standard U"
proof (induction c arbitrary: T w)
  case (EXEC argv)
  then show ?case by (simp split: if_splits)
next
  case (REDIR c f m fd)
  have "standard (T(nat fd \<mapsto> Opened f m))" by (rule standard_upd) (use REDIR.prems in auto)
  with REDIR show ?case by auto
next
  case (PIPE l r)
  have st: "standard (T(1 \<mapsto> PipeW w))" "standard (T(0 \<mapsto> PipeR w))"
    using PIPE.prems(2) by (auto intro: standard_upd)
  from PIPE.prems show ?case
    using PIPE.IH(1) [OF _ st(1)] PIPE.IH(2) [OF _ st(2)] unfolding launches.simps redirs_ok.simps by blast
qed auto



end
