(* ===== verification/Spinlock.thy ===== *)
theory Spinlock imports Prelude begin

text \<open>
  Spin-locks (\<open>spinlock.c\<close>) on any number of CPUs.  Everywhere else a critical section is one step; here
  the instructions that other CPUs can observe are steps of their own: \<open>acquire\<close> turns interrupts off,
  tries \<open>xchg\<close> until it gets the lock, then records the CPU; \<open>release\<close> clears the record, stores 0 and lets
  interrupts in again.  Locks and CPUs are numbers.  A CPU's interrupt flag is the bit \<open>FL_IF\<close> of its
  \<open>EFLAGS\<close>.  The call stack that \<open>getcallerpcs\<close> records for debugging is left out, and the
  memory is sequentially consistent, which is what the locked instruction and the barriers are there for.
\<close>

section \<open>State and operations\<close>

record cpu =
  ncli :: int
  intena :: bool
  int_flag :: bool

record spinlock =
  lk_locked :: bool
  lk_cpu :: "nat option"

record smp =
  cpus :: "nat \<Rightarrow> cpu"
  locks :: "nat \<Rightarrow> spinlock"

definition upd_cpu :: "nat \<Rightarrow> (cpu \<Rightarrow> cpu) \<Rightarrow> 'a smp_scheme \<Rightarrow> 'a smp_scheme" where
  "upd_cpu c f s = s\<lparr>cpus := (cpus s)(c := f (cpus s c))\<rparr>"

definition upd_lock :: "nat \<Rightarrow> (spinlock \<Rightarrow> spinlock) \<Rightarrow> 'a smp_scheme \<Rightarrow> 'a smp_scheme" where
  "upd_lock l f s = s\<lparr>locks := (locks s)(l := f (locks s l))\<rparr>"

definition initlock :: "nat \<Rightarrow> 'a smp_scheme \<Rightarrow> 'a smp_scheme" where
  "initlock l s = upd_lock l (\<lambda>lk. lk\<lparr>lk_locked := False, lk_cpu := None\<rparr>) s"

definition pushcli :: "nat \<Rightarrow> 'a smp_scheme \<Rightarrow> 'a smp_scheme" where
  "pushcli c s =
     (let eflags = int_flag (cpus s c);
          s = upd_cpu c (\<lambda>p. p\<lparr>int_flag := False\<rparr>) s;
          s = (if ncli (cpus s c) = 0 then upd_cpu c (\<lambda>p. p\<lparr>intena := eflags\<rparr>) s else s)
      in upd_cpu c (\<lambda>p. p\<lparr>ncli := ncli p + 1\<rparr>) s)"

definition popcli :: "nat \<Rightarrow> 'a smp_scheme \<Rightarrow> 'a smp_scheme res" where
  "popcli c s =
     (if int_flag (cpus s c) then Panic ''popcli - interruptible''
      else
        let s = upd_cpu c (\<lambda>p. p\<lparr>ncli := ncli p - 1\<rparr>) s in
        if ncli (cpus s c) < 0 then Panic ''popcli''
        else if ncli (cpus s c) = 0 \<and> intena (cpus s c) then Ok (upd_cpu c (\<lambda>p. p\<lparr>int_flag := True\<rparr>) s)
        else Ok s)"

definition holding :: "nat \<Rightarrow> nat \<Rightarrow> 'a smp_scheme \<Rightarrow> (bool \<times> 'a smp_scheme) res" where
  "holding c l s =
     (let s = pushcli c s; r = (lk_locked (locks s l) \<and> lk_cpu (locks s l) = Some c) in
      rbind (popcli c s) (\<lambda>s. Ok (r, s)))"

text \<open>\<open>acquire\<close> up to the loop, one round of the loop (whether the lock was free), and the rest.\<close>

definition acquire_enter :: "nat \<Rightarrow> nat \<Rightarrow> 'a smp_scheme \<Rightarrow> 'a smp_scheme res" where
  "acquire_enter c l s =
     rbind (holding c l (pushcli c s)) (\<lambda>(r, s). if r then Panic ''acquire'' else Ok s)"

definition xchg :: "nat \<Rightarrow> 'a smp_scheme \<Rightarrow> bool \<times> 'a smp_scheme" where
  "xchg l s = (lk_locked (locks s l), upd_lock l (\<lambda>lk. lk\<lparr>lk_locked := True\<rparr>) s)"

definition acquire_record :: "nat \<Rightarrow> nat \<Rightarrow> 'a smp_scheme \<Rightarrow> 'a smp_scheme" where
  "acquire_record c l s = upd_lock l (\<lambda>lk. lk\<lparr>lk_cpu := Some c\<rparr>) s"

text \<open>\<open>release\<close> up to the store, and the store; \<open>popcli\<close> follows.\<close>

definition release_enter :: "nat \<Rightarrow> nat \<Rightarrow> 'a smp_scheme \<Rightarrow> 'a smp_scheme res" where
  "release_enter c l s =
     rbind (holding c l s) (\<lambda>(r, s).
     if \<not> r then Panic ''release'' else Ok (upd_lock l (\<lambda>lk. lk\<lparr>lk_cpu := None\<rparr>) s))"

definition release_store :: "nat \<Rightarrow> 'a smp_scheme \<Rightarrow> 'a smp_scheme" where
  "release_store l s = upd_lock l (\<lambda>lk. lk\<lparr>lk_locked := False\<rparr>) s"

section \<open>Interleaving\<close>

text \<open>
  What a CPU is doing: running, somewhere inside \<open>acquire\<close>, or somewhere inside \<open>release\<close>.  \<open>owned\<close> are
  the locks it has acquired and not released, \<open>sections\<close> is the number of \<open>pushcli\<close> of its own that it has not
  undone.  A CPU that keeps to the rules acquires no lock it owns, releases only locks it owns, and undoes
  only what it has done.
\<close>

datatype act = Runs | Spins nat | GotIt nat | Clears nat | Leaves

record machine = smp +
  act :: "nat \<Rightarrow> act"
  owned :: "nat \<Rightarrow> nat list"
  sections :: "nat \<Rightarrow> nat"

inductive cpu_step :: "machine \<Rightarrow> machine \<Rightarrow> bool" where
  acquire: "act s c = Runs \<Longrightarrow> l \<notin> set (owned s c) \<Longrightarrow> acquire_enter c l s = Ok t \<Longrightarrow>
    cpu_step s (t\<lparr>act := (act t)(c := Spins l)\<rparr>)"
| spin: "act s c = Spins l \<Longrightarrow> xchg l s = (True, t) \<Longrightarrow> cpu_step s t"
| got: "act s c = Spins l \<Longrightarrow> xchg l s = (False, t) \<Longrightarrow> cpu_step s (t\<lparr>act := (act t)(c := GotIt l)\<rparr>)"
| noted: "act s c = GotIt l \<Longrightarrow> t = acquire_record c l s \<Longrightarrow>
    cpu_step s (t\<lparr>act := (act t)(c := Runs), owned := (owned t)(c := l # owned t c)\<rparr>)"
| release: "act s c = Runs \<Longrightarrow> l \<in> set (owned s c) \<Longrightarrow> release_enter c l s = Ok t \<Longrightarrow>
    cpu_step s (t\<lparr>act := (act t)(c := Clears l), owned := (owned t)(c := remove1 l (owned t c))\<rparr>)"
| store: "act s c = Clears l \<Longrightarrow> t = release_store l s \<Longrightarrow> cpu_step s (t\<lparr>act := (act t)(c := Leaves)\<rparr>)"
| leave: "act s c = Leaves \<Longrightarrow> popcli c s = Ok t \<Longrightarrow> cpu_step s (t\<lparr>act := (act t)(c := Runs)\<rparr>)"
| push: "act s c = Runs \<Longrightarrow> t = pushcli c s \<Longrightarrow> cpu_step s (t\<lparr>sections := (sections t)(c := sections t c + 1)\<rparr>)"
| pop: "act s c = Runs \<Longrightarrow> 0 < sections s c \<Longrightarrow> popcli c s = Ok t \<Longrightarrow>
    cpu_step s (t\<lparr>sections := (sections t)(c := sections t c - 1)\<rparr>)"

definition smp_boot :: "(nat \<Rightarrow> bool) \<Rightarrow> machine \<Rightarrow> bool" where
  "smp_boot enabled s \<longleftrightarrow> (\<forall>c. act s c = Runs \<and> owned s c = [] \<and> sections s c = 0 \<and> ncli (cpus s c) = 0 \<and>
     int_flag (cpus s c) = enabled c) \<and> (\<forall>l. \<not> lk_locked (locks s l) \<and> lk_cpu (locks s l) = None)"

text \<open>CPU \<open>c\<close> is between the successful \<open>xchg\<close> and the store that frees the lock.\<close>

definition has_lock :: "machine \<Rightarrow> nat \<Rightarrow> nat \<Rightarrow> bool" where
  "has_lock s c l \<longleftrightarrow> l \<in> set (owned s c) \<or> act s c = GotIt l \<or> act s c = Clears l"

definition busy :: "act \<Rightarrow> int" where
  "busy a = (if a = Runs then 0 else 1)"

text \<open>\<open>cpu_ok e n p\<close>: the CPU has \<open>n\<close> reasons to keep interrupts off; without one they are on if \<open>e\<close>.\<close>

definition cpu_ok :: "bool \<Rightarrow> int \<Rightarrow> cpu \<Rightarrow> bool" where
  "cpu_ok e n p \<longleftrightarrow> ncli p = n \<and> int_flag p = (n = 0 \<and> e) \<and> (n \<noteq> 0 \<longrightarrow> intena p = e)"

definition depth :: "machine \<Rightarrow> nat \<Rightarrow> int" where
  "depth s c = int (sections s c) + int (length (owned s c)) + busy (act s c)"

definition cpus_inv :: "(nat \<Rightarrow> bool) \<Rightarrow> machine \<Rightarrow> bool" where
  "cpus_inv enabled s \<longleftrightarrow> (\<forall>c. cpu_ok (enabled c) (depth s c) (cpus s c))"

definition locks_inv :: "machine \<Rightarrow> bool" where
  "locks_inv s \<longleftrightarrow>
     (\<forall>c l. has_lock s c l \<longrightarrow> lk_locked (locks s l)) \<and>
     (\<forall>l c d. has_lock s c l \<longrightarrow> has_lock s d l \<longrightarrow> c = d) \<and>
     (\<forall>l. lk_locked (locks s l) \<longrightarrow> (\<exists>c. has_lock s c l)) \<and>
     (\<forall>l c. lk_cpu (locks s l) = Some c \<longleftrightarrow> l \<in> set (owned s c)) \<and>
     (\<forall>c. distinct (owned s c)) \<and>
     (\<forall>l c. l \<in> set (owned s c) \<longrightarrow> act s c \<notin> {Spins l, GotIt l, Clears l})"

section \<open>What the operations do to a CPU\<close>

lemma upd_cpu_sel [simp]:
  "cpus (upd_cpu c f s) = (cpus s)(c := f (cpus s c))" "locks (upd_cpu c f s) = locks s"
  "smp.more (upd_cpu c f s) = smp.more s"
  by (simp_all add: upd_cpu_def)

lemma upd_lock_sel [simp]:
  "locks (upd_lock l f s) = (locks s)(l := f (locks s l))" "cpus (upd_lock l f s) = cpus s"
  "smp.more (upd_lock l f s) = smp.more s"
  by (simp_all add: upd_lock_def)

lemma machine_upd [simp]:
  fixes s :: machine
  shows "act (upd_cpu c f s) = act s" "owned (upd_cpu c f s) = owned s" "sections (upd_cpu c f s) = sections s"
    "act (upd_lock l g s) = act s" "owned (upd_lock l g s) = owned s" "sections (upd_lock l g s) = sections s"
  by (simp_all add: upd_cpu_def upd_lock_def)

lemma pushcli_ok:
  assumes "cpu_ok e n (cpus s c)" and "0 \<le> n"
  shows "\<exists>p. pushcli c s = upd_cpu c (\<lambda>_. p) s \<and> cpu_ok e (n + 1) p"
proof -
  let ?p = "(cpus s c)\<lparr>int_flag := False, intena := e, ncli := n + 1\<rparr>"
  have "pushcli c s = upd_cpu c (\<lambda>_. ?p) s"
    using assms by (cases "cpus s c") (auto simp: pushcli_def upd_cpu_def Let_def cpu_ok_def)
  moreover have "cpu_ok e (n + 1) ?p" using assms by (simp add: cpu_ok_def)
  ultimately show ?thesis by blast
qed

lemma popcli_ok:
  assumes "cpu_ok e n (cpus s c)" and "0 < n"
  shows "\<exists>p. popcli c s = Ok (upd_cpu c (\<lambda>_. p) s) \<and> cpu_ok e (n - 1) p"
proof -
  let ?p = "(cpus s c)\<lparr>ncli := n - 1, int_flag := (n - 1 = 0 \<and> e)\<rparr>"
  have "popcli c s = Ok (upd_cpu c (\<lambda>_. ?p) s)"
    using assms by (cases "cpus s c") (auto simp: popcli_def upd_cpu_def Let_def cpu_ok_def)
  moreover have "cpu_ok e (n - 1) ?p" using assms by (auto simp: cpu_ok_def)
  ultimately show ?thesis by blast
qed

lemma holding_ok:
  assumes "cpu_ok e n (cpus s c)" and "0 < n"
  shows "holding c l s = Ok (lk_locked (locks s l) \<and> lk_cpu (locks s l) = Some c, s)"
proof -
  from pushcli_ok [OF assms(1)] assms(2) obtain p where p: "pushcli c s = upd_cpu c (\<lambda>_. p) s" "cpu_ok e (n + 1) p"
    by auto
  have pe: "p = (cpus s c)\<lparr>ncli := n + 1\<rparr>"
  proof -
    have "pushcli c s = upd_cpu c (\<lambda>_. (cpus s c)\<lparr>ncli := n + 1\<rparr>) s"
      using assms by (cases "cpus s c") (auto simp: pushcli_def upd_cpu_def Let_def cpu_ok_def)
    then have "cpus (pushcli c s) c = (cpus s c)\<lparr>ncli := n + 1\<rparr>" by simp
    then show ?thesis by (simp add: p(1))
  qed
  have "popcli c (upd_cpu c (\<lambda>_. p) s) = Ok s"
    using assms by (cases "cpus s c") (auto simp: popcli_def upd_cpu_def Let_def cpu_ok_def pe fun_upd_idem)
  then show ?thesis by (simp add: holding_def Let_def p(1))
qed


lemma acquire_enter_ok:
  assumes "cpu_ok e n (cpus s c)" and "0 \<le> n"
  shows "\<exists>p. cpu_ok e (n + 1) p \<and>
    acquire_enter c l s = (if lk_locked (locks s l) \<and> lk_cpu (locks s l) = Some c then Panic ''acquire''
                           else Ok (upd_cpu c (\<lambda>_. p) s))"
proof -
  from pushcli_ok [OF assms] obtain p where p: "pushcli c s = upd_cpu c (\<lambda>_. p) s" "cpu_ok e (n + 1) p"
    by auto
  then have "holding c l (pushcli c s) = Ok (lk_locked (locks s l) \<and> lk_cpu (locks s l) = Some c, pushcli c s)"
    using holding_ok [of e "n + 1" "pushcli c s" c l] assms(2) by simp
  with p show ?thesis by (intro exI [of _ p]) (auto simp: acquire_enter_def)
qed

lemma release_enter_ok:
  assumes "cpu_ok e n (cpus s c)" and "0 < n"
  shows "release_enter c l s = (if lk_locked (locks s l) \<and> lk_cpu (locks s l) = Some c
    then Ok (upd_lock l (\<lambda>lk. lk\<lparr>lk_cpu := None\<rparr>) s) else Panic ''release'')"
  by (auto simp: release_enter_def holding_ok [OF assms])

section \<open>Invariants\<close>

lemma depth_nonneg: "0 \<le> depth s c"
  by (simp add: depth_def busy_def)

lemma depth_pos: "act s c \<noteq> Runs \<or> owned s c \<noteq> [] \<or> 0 < sections s c \<Longrightarrow> 0 < depth s c"
  by (cases "owned s c") (auto simp: depth_def busy_def)

lemma xchg_taken: "lk_locked (locks s l) \<Longrightarrow> xchg l s = (True, s)"
  by (cases "locks s l") (simp add: xchg_def upd_lock_def fun_upd_idem)

lemma cpus_invD: "cpus_inv enabled s \<Longrightarrow> cpu_ok (enabled c) (depth s c) (cpus s c)"
  by (simp add: cpus_inv_def)

lemma cpus_inv_change:
  assumes "cpus_inv enabled s" and "\<And>d. d \<noteq> c \<Longrightarrow> cpus t d = cpus s d \<and> depth t d = depth s d"
    and "cpu_ok (enabled c) (depth t c) (cpus t c)"
  shows "cpus_inv enabled t"
  using assms unfolding cpus_inv_def by metis

lemma step_cpus_inv:
  assumes "cpu_step s t" and inv: "cpus_inv enabled s"
  shows "cpus_inv enabled t"
  using assms(1)
proof cases
  case (acquire c l u)
  with acquire_enter_ok [OF cpus_invD [OF inv] depth_nonneg, of c l] obtain p
    where p: "cpu_ok (enabled c) (depth s c + 1) p" "u = upd_cpu c (\<lambda>_. p) s" by (auto split: if_splits)
  then show ?thesis
    using acquire by (intro cpus_inv_change [OF inv, of c]) (auto simp: depth_def busy_def add_ac)
next
  case (spin c l)
  then have "lk_locked (locks s l)" by (simp add: xchg_def)
  with spin inv show ?thesis by (simp add: xchg_taken)
next
  case (got c l u)
  then show ?thesis
    using cpus_invD [OF inv, of c] by (intro cpus_inv_change [OF inv, of c]) (auto simp: xchg_def depth_def busy_def)
next
  case (noted c l u)
  then show ?thesis
    using cpus_invD [OF inv, of c]
    by (intro cpus_inv_change [OF inv, of c]) (auto simp: acquire_record_def depth_def busy_def algebra_simps)
next
  case (release c l u)
  then have ne: "owned s c \<noteq> []" by auto
  have u: "u = upd_lock l (\<lambda>lk. lk\<lparr>lk_cpu := None\<rparr>) s"
    using release ne release_enter_ok [OF cpus_invD [OF inv] depth_pos, of c l] by (auto split: if_splits)
  have "0 < length (owned s c)" using release by (cases "owned s c") auto
  then have "int (length (remove1 l (owned s c))) = int (length (owned s c)) - 1"
    using release(3) by (cases "owned s c") (auto simp: length_remove1 dest: length_pos_if_in_set)
  then show ?thesis
    using release cpus_invD [OF inv, of c]
    by (intro cpus_inv_change [OF inv, of c]) (auto simp: u depth_def busy_def)
next
  case (store c l u)
  then show ?thesis
    using cpus_invD [OF inv, of c]
    by (intro cpus_inv_change [OF inv, of c]) (auto simp: release_store_def depth_def busy_def)
next
  case (leave c u)
  with popcli_ok [OF cpus_invD [OF inv] depth_pos, of c] obtain p
    where p: "cpu_ok (enabled c) (depth s c - 1) p" "u = upd_cpu c (\<lambda>_. p) s" by auto
  then show ?thesis
    using leave by (intro cpus_inv_change [OF inv, of c]) (auto simp: depth_def busy_def)
next
  case (push c u)
  with pushcli_ok [OF cpus_invD [OF inv] depth_nonneg, of c] obtain p
    where p: "cpu_ok (enabled c) (depth s c + 1) p" "u = upd_cpu c (\<lambda>_. p) s" by auto
  then show ?thesis
    using push by (intro cpus_inv_change [OF inv, of c]) (auto simp: depth_def busy_def algebra_simps)
next
  case (pop c u)
  with popcli_ok [OF cpus_invD [OF inv] depth_pos, of c] obtain p
    where p: "cpu_ok (enabled c) (depth s c - 1) p" "u = upd_cpu c (\<lambda>_. p) s" by auto
  then show ?thesis
    using pop by (intro cpus_inv_change [OF inv, of c]) (auto simp: depth_def busy_def of_nat_diff algebra_simps)
qed

text \<open>What a step does to the locks and to the CPUs' hold on them.\<close>

lemma locks_inv_cong:
  assumes "locks_inv s" and "locks t = locks s" and "owned t = owned s"
    and "\<And>c l. has_lock t c l = has_lock s c l" and "\<And>c l. l \<in> set (owned s c) \<Longrightarrow> act t c \<notin> {Spins l, GotIt l, Clears l}"
  shows "locks_inv t"
  using assms unfolding locks_inv_def by simp

lemma locks_invD:
  assumes "locks_inv s"
  shows "has_lock s c l \<Longrightarrow> lk_locked (locks s l)" "has_lock s c l \<Longrightarrow> has_lock s d l \<Longrightarrow> c = d"
    "lk_locked (locks s l) \<Longrightarrow> \<exists>c. has_lock s c l" "lk_cpu (locks s l) = Some c \<longleftrightarrow> l \<in> set (owned s c)"
    "distinct (owned s c)" "l \<in> set (owned s c) \<Longrightarrow> act s c \<notin> {Spins l, GotIt l, Clears l}"
  using assms unfolding locks_inv_def by blast+

lemma locks_invI:
  assumes "\<And>c l. has_lock s c l \<Longrightarrow> lk_locked (locks s l)" and "\<And>c d l. has_lock s c l \<Longrightarrow> has_lock s d l \<Longrightarrow> c = d"
    and "\<And>l. lk_locked (locks s l) \<Longrightarrow> \<exists>c. has_lock s c l"
    and "\<And>l c. lk_cpu (locks s l) = Some c \<longleftrightarrow> l \<in> set (owned s c)" and "\<And>c. distinct (owned s c)"
    and "\<And>l c. l \<in> set (owned s c) \<Longrightarrow> act s c \<notin> {Spins l, GotIt l, Clears l}"
  shows "locks_inv s"
  using assms unfolding locks_inv_def by blast

lemma locks_inv_got:
  assumes inv: "locks_inv s" and c: "act s c = Spins l" and l: "\<not> lk_locked (locks s l)"
    and t: "locks t = (locks s)(l := (locks s l)\<lparr>lk_locked := True\<rparr>)" "owned t = owned s" "act t = (act s)(c := GotIt l)"
  shows "locks_inv t"
proof -
  note i = locks_invD [OF inv]
  have free: "\<not> has_lock s d l" for d using i(1) [of d l] l by auto
  have h: "has_lock t d k \<longleftrightarrow> has_lock s d k \<or> d = c \<and> k = l" for d k
    using c by (auto simp: has_lock_def t)
  show ?thesis
  proof (rule locks_invI, unfold h)
    show "lk_locked (locks t k)" if "has_lock s d k \<or> d = c \<and> k = l" for d k using that i(1) by (auto simp: t)
    show "d = d'" if "has_lock s d k \<or> d = c \<and> k = l" "has_lock s d' k \<or> d' = c \<and> k = l" for d d' k
      using that i(2) free by blast
    show "\<exists>d. has_lock s d k \<or> d = c \<and> k = l" if "lk_locked (locks t k)" for k
      using that i(3) [of k] by (auto simp: t split: if_splits)
    show "lk_cpu (locks t k) = Some d \<longleftrightarrow> k \<in> set (owned t d)" for k d using i(4) by (simp add: t)
    show "distinct (owned t d)" for d using i(5) by (simp add: t)
    show "act t d \<notin> {Spins k, GotIt k, Clears k}" if "k \<in> set (owned t d)" for k d
      using that i(6) [of k d] free [of d] by (auto simp: t has_lock_def)
  qed
qed

lemma locks_inv_noted:
  assumes inv: "locks_inv s" and c: "act s c = GotIt l"
    and t: "locks t = (locks s)(l := (locks s l)\<lparr>lk_cpu := Some c\<rparr>)" "owned t = (owned s)(c := l # owned s c)"
      "act t = (act s)(c := Runs)"
  shows "locks_inv t"
proof -
  note i = locks_invD [OF inv]
  have mine: "has_lock s c l" using c by (simp add: has_lock_def)
  have fresh: "l \<notin> set (owned s d)" for d
    using i(2) [OF mine, of d] i(6) [of l c] c by (auto simp: has_lock_def)
  have h: "has_lock t d k \<longleftrightarrow> has_lock s d k" for d k using c by (auto simp: has_lock_def t)
  show ?thesis
  proof (rule locks_invI, unfold h)
    show "lk_locked (locks t k)" if "has_lock s d k" for d k using i(1) [OF that] by (auto simp: t)
    show "d = d'" if "has_lock s d k" "has_lock s d' k" for d d' k using that i(2) by blast
    show "\<exists>d. has_lock s d k" if "lk_locked (locks t k)" for k
      using that i(3) [of k] by (auto simp: t split: if_splits)
    show "lk_cpu (locks t k) = Some d \<longleftrightarrow> k \<in> set (owned t d)" for k d using i(4) [of k d] fresh [of d] by (auto simp: t)
    show "distinct (owned t d)" for d using i(5) [of d] fresh [of d] by (auto simp: t)
    show "act t d \<notin> {Spins k, GotIt k, Clears k}" if "k \<in> set (owned t d)" for k d
      using that i(6) [of k d] by (auto simp: t)
  qed
qed

lemma locks_inv_release:
  assumes inv: "locks_inv s" and c: "act s c = Runs" "l \<in> set (owned s c)"
    and t: "locks t = (locks s)(l := (locks s l)\<lparr>lk_cpu := None\<rparr>)" "owned t = (owned s)(c := remove1 l (owned s c))"
      "act t = (act s)(c := Clears l)"
  shows "locks_inv t"
proof -
  note i = locks_invD [OF inv]
  have others: "l \<notin> set (owned s d)" if "d \<noteq> c" for d
    using i(2) [of c l d] c that by (auto simp: has_lock_def)
  have own: "set (owned t d) = set (owned s d) - {k. k = l \<and> d = c}" for d
    using i(5) [of c] by (auto simp: t)
  have h: "has_lock t d k \<longleftrightarrow> has_lock s d k" for d k
    using c unfolding has_lock_def own by (cases "d = c") (auto simp: t)
  show ?thesis
  proof (rule locks_invI, unfold h)
    show "lk_locked (locks t k)" if "has_lock s d k" for d k using i(1) [OF that] by (auto simp: t)
    show "d = d'" if "has_lock s d k" "has_lock s d' k" for d d' k using that i(2) by blast
    show "\<exists>d. has_lock s d k" if "lk_locked (locks t k)" for k
      using that i(3) [of k] by (auto simp: t split: if_splits)
    show "lk_cpu (locks t k) = Some d \<longleftrightarrow> k \<in> set (owned t d)" for k d
      using i(4) [of k d] others [of d] unfolding own by (cases "k = l") (auto simp: t)
    show "distinct (owned t d)" for d using i(5) [of d] by (auto simp: t)
    show "act t d \<notin> {Spins k, GotIt k, Clears k}" if "k \<in> set (owned t d)" for k d
      using that i(6) [of k d] unfolding own by (cases "d = c") (auto simp: t)
  qed
qed

lemma locks_inv_store:
  assumes inv: "locks_inv s" and c: "act s c = Clears l"
    and t: "locks t = (locks s)(l := (locks s l)\<lparr>lk_locked := False\<rparr>)" "owned t = owned s" "act t = (act s)(c := Leaves)"
  shows "locks_inv t"
proof -
  note i = locks_invD [OF inv]
  have mine: "has_lock s c l" using c by (simp add: has_lock_def)
  have fresh: "l \<notin> set (owned s d)" for d
    using i(2) [OF mine, of d] i(6) [of l c] c by (auto simp: has_lock_def)
  have others: "\<not> has_lock s d l" if "d \<noteq> c" for d
    using i(2) [OF mine, of d] that by blast
  have h: "has_lock t d k \<longleftrightarrow> has_lock s d k \<and> k \<noteq> l" for d k
    using c fresh [of d] others [of d] unfolding has_lock_def by (cases "d = c") (auto simp: t)
  show ?thesis
  proof (rule locks_invI, unfold h)
    show "lk_locked (locks t k)" if "has_lock s d k \<and> k \<noteq> l" for d k using that i(1) [of d k] by (simp add: t)
    show "d = d'" if "has_lock s d k \<and> k \<noteq> l" "has_lock s d' k \<and> k \<noteq> l" for d d' k using that i(2) by blast
    show "\<exists>d. has_lock s d k \<and> k \<noteq> l" if "lk_locked (locks t k)" for k
      using that i(3) [of k] by (auto simp: t split: if_splits)
    show "lk_cpu (locks t k) = Some d \<longleftrightarrow> k \<in> set (owned t d)" for k d using i(4) by (simp add: t)
    show "distinct (owned t d)" for d using i(5) by (simp add: t)
    show "act t d \<notin> {Spins k, GotIt k, Clears k}" if "k \<in> set (owned t d)" for k d
      using that i(6) [of k d] by (auto simp: t)
  qed
qed

lemma step_locks_inv:
  assumes "cpu_step s t" and inv: "locks_inv s" and cinv: "cpus_inv enabled s"
  shows "locks_inv t"
proof -
  note idle = locks_invD(6) [OF inv]
  from assms(1) show ?thesis
  proof cases
    case (acquire c l u)
    with acquire_enter_ok [OF cpus_invD [OF cinv] depth_nonneg, of c l] obtain p
      where u: "u = upd_cpu c (\<lambda>_. p) s" by (auto split: if_splits)
    show ?thesis
      using acquire idle by (intro locks_inv_cong [OF inv]) (auto simp: u has_lock_def)
  next
    case (spin c l)
    then have "lk_locked (locks s l)" by (simp add: xchg_def)
    with spin have "t = s" by (simp add: xchg_taken)
    with inv show ?thesis by simp
  next
    case (got c l u)
    then show ?thesis by (intro locks_inv_got [OF inv got(2)]) (auto simp: xchg_def)
  next
    case (noted c l u)
    then show ?thesis by (intro locks_inv_noted [OF inv noted(2)]) (auto simp: acquire_record_def)
  next
    case (release c l u)
    then have ne: "owned s c \<noteq> []" by auto
    have "u = upd_lock l (\<lambda>lk. lk\<lparr>lk_cpu := None\<rparr>) s"
      using release ne release_enter_ok [OF cpus_invD [OF cinv] depth_pos, of c l] by (auto split: if_splits)
    then show ?thesis using release(1) by (intro locks_inv_release [OF inv release(2,3)]) auto
  next
    case (store c l u)
    then show ?thesis by (intro locks_inv_store [OF inv store(2)]) (auto simp: release_store_def)
  next
    case (leave c u)
    with popcli_ok [OF cpus_invD [OF cinv] depth_pos, of c] obtain p where u: "u = upd_cpu c (\<lambda>_. p) s" by auto
    show ?thesis
      using leave idle by (intro locks_inv_cong [OF inv]) (auto simp: u has_lock_def)
  next
    case (push c u)
    with pushcli_ok [OF cpus_invD [OF cinv] depth_nonneg, of c] obtain p where u: "u = upd_cpu c (\<lambda>_. p) s" by auto
    show ?thesis
      using push(1,2) idle by (intro locks_inv_cong [OF inv]) (auto simp: u has_lock_def)
  next
    case (pop c u)
    with popcli_ok [OF cpus_invD [OF cinv] depth_pos, of c] obtain p where u: "u = upd_cpu c (\<lambda>_. p) s" by auto
    show ?thesis
      using pop idle by (intro locks_inv_cong [OF inv]) (auto simp: u has_lock_def)
  qed
qed

lemma boot_inv: "smp_boot enabled s \<Longrightarrow> cpus_inv enabled s \<and> locks_inv s"
  by (auto simp: smp_boot_def cpus_inv_def locks_inv_def cpu_ok_def depth_def busy_def has_lock_def)

lemma reach_inv:
  assumes "cpu_step\<^sup>*\<^sup>* s t" and "smp_boot enabled s"
  shows "cpus_inv enabled t \<and> locks_inv t"
  using assms by (induction rule: rtranclp_induct) (use boot_inv step_cpus_inv step_locks_inv in blast)+


text \<open>
  C33. Spin-locks.  From a machine with all locks free, in any interleaving of the CPUs' steps: two CPUs never have
  the same lock, and a lock is marked taken exactly while one has it; a CPU that has a lock, waits for one or
  has interrupts pushed off runs with interrupts off, and one with no reason left runs with the interrupts it
  had at boot; \<open>acquire\<close> panics exactly for a lock the CPU already owns, \<open>release\<close> exactly for one it does not
  own, and the \<open>popcli\<close> that ends a section never panics; and a CPU that waits for a lock takes it on its next
  step when no CPU has it.
\<close>

theorem spinlock_mutual_exclusion:
  assumes "cpu_step\<^sup>*\<^sup>* boot s" and "smp_boot enabled boot"
  shows "(\<forall>c d l. has_lock s c l \<and> has_lock s d l \<longrightarrow> c = d) \<and>
    (\<forall>l. lk_locked (locks s l) \<longleftrightarrow> (\<exists>c. has_lock s c l)) \<and>
    (\<forall>c. int_flag (cpus s c) \<longleftrightarrow> act s c = Runs \<and> owned s c = [] \<and> sections s c = 0 \<and> enabled c) \<and>
    (\<forall>c l. acquire_enter c l s = Panic ''acquire'' \<longleftrightarrow> l \<in> set (owned s c)) \<and>
    (\<forall>c l. l \<notin> set (owned s c) \<longrightarrow> (\<exists>t. acquire_enter c l s = Ok t)) \<and>
    (\<forall>c l. act s c = Runs \<and> owned s c \<noteq> [] \<longrightarrow>
       (if l \<in> set (owned s c) then \<exists>t. release_enter c l s = Ok t else release_enter c l s = Panic ''release'')) \<and>
    (\<forall>c. act s c = Leaves \<or> act s c = Runs \<and> 0 < sections s c \<longrightarrow> (\<exists>t. popcli c s = Ok t)) \<and>
    (\<forall>c l. act s c = Spins l \<and> (\<forall>d. \<not> has_lock s d l) \<longrightarrow> fst (xchg l s) = False)"
proof -
  from reach_inv [OF assms] have ci: "cpus_inv enabled s" and li: "locks_inv s" by auto
  have ok: "cpu_ok (enabled c) (depth s c) (cpus s c)" for c using cpus_invD [OF ci] .
  have owner: "l \<in> set (owned s c) \<longleftrightarrow> lk_locked (locks s l) \<and> lk_cpu (locks s l) = Some c" for c l
    using li unfolding locks_inv_def has_lock_def by blast
  have zero: "depth s c = 0 \<longleftrightarrow> act s c = Runs \<and> owned s c = [] \<and> sections s c = 0" for c
    by (cases "owned s c") (auto simp: depth_def busy_def)
  show ?thesis
  proof (intro conjI allI impI)
    show "c = d" if "has_lock s c l \<and> has_lock s d l" for c d l
      using that li unfolding locks_inv_def by blast
    show "lk_locked (locks s l) \<longleftrightarrow> (\<exists>c. has_lock s c l)" for l
      using li unfolding locks_inv_def by blast
    show "int_flag (cpus s c) \<longleftrightarrow> act s c = Runs \<and> owned s c = [] \<and> sections s c = 0 \<and> enabled c" for c
      using ok [of c] zero [of c] by (auto simp: cpu_ok_def)
    show "acquire_enter c l s = Panic ''acquire'' \<longleftrightarrow> l \<in> set (owned s c)" for c l
      using acquire_enter_ok [OF ok depth_nonneg, of c l] by (auto simp: owner split: if_splits)
    show "\<exists>t. acquire_enter c l s = Ok t" if "l \<notin> set (owned s c)" for c l
      using that acquire_enter_ok [OF ok depth_nonneg, of c l] by (auto simp: owner split: if_splits)
    show "if l \<in> set (owned s c) then \<exists>t. release_enter c l s = Ok t else release_enter c l s = Panic ''release''"
      if "act s c = Runs \<and> owned s c \<noteq> []" for c l
      using that release_enter_ok [OF ok depth_pos, of c l] by (auto simp: owner)
    show "\<exists>t. popcli c s = Ok t" if "act s c = Leaves \<or> act s c = Runs \<and> 0 < sections s c" for c
      using that popcli_ok [OF ok depth_pos, of c] by auto
    show "fst (xchg l s) = False" if "act s c = Spins l \<and> (\<forall>d. \<not> has_lock s d l)" for c l
      using that li unfolding locks_inv_def by (auto simp: xchg_def)
  qed
qed

definition two_cpus :: machine where
  "two_cpus = \<lparr>cpus = \<lambda>c. \<lparr>ncli = 0, intena = False, int_flag = (c < 2)\<rparr>,
     locks = \<lambda>l. \<lparr>lk_locked = False, lk_cpu = None\<rparr>, act = \<lambda>c. Runs, owned = \<lambda>c. [], sections = \<lambda>c. 0\<rparr>"

lemma spinlock_mutual_exclusion_witness:
  "\<exists>s. cpu_step\<^sup>*\<^sup>* two_cpus s \<and> act s 0 = Spins 7 \<and> \<not> int_flag (cpus s 0) \<and> int_flag (cpus s 1) \<and> fst (xchg 7 s) = False"
proof -
  have boot: "smp_boot (\<lambda>c. c < 2) two_cpus" by (simp add: smp_boot_def two_cpus_def)
  obtain t where t: "acquire_enter 0 7 two_cpus = Ok t"
    and at: "act t = (\<lambda>_. Runs)" "owned t = (\<lambda>_. [])" "sections t = (\<lambda>_. 0)" "locks t = locks two_cpus"
    by (auto simp: two_cpus_def acquire_enter_def holding_def pushcli_def popcli_def upd_cpu_def Let_def)
  define s where "s = t\<lparr>act := (act t)(0 := Spins 7)\<rparr>"
  have run: "cpu_step\<^sup>*\<^sup>* two_cpus s"
    using cpu_step.acquire [OF _ _ t] by (auto simp: s_def two_cpus_def)
  note all = spinlock_mutual_exclusion [OF run boot]
  show ?thesis
    by (intro exI [of _ s] conjI run) (use all in \<open>auto simp: s_def at xchg_def two_cpus_def\<close>)
qed

end
