(* ===== verification/Ide.thy ===== *)
theory Ide imports Bio begin

text \<open>
  The disk driver (\<open>ide.c\<close>) with its queue of requests, and the drive it controls.  Processes put their
  buffers at the end of the queue and sleep; the interrupt handler takes the first buffer off, wakes its
  process and starts the next.  The drive is its registers and the one command it works on: the sector that
  a command names is read or written at once, and an interrupt is raised.  The system of processes,
  driver and drive refines the \<open>iderw\<close> of the memory disk, on which the rest of the development builds.
\<close>

abbreviation (input) FSSIZE :: u32 where "FSSIZE \<equiv> 1000"
abbreviation (input) IDE_BSY :: u8 where "IDE_BSY \<equiv> 0x80"
abbreviation (input) IDE_DRDY :: u8 where "IDE_DRDY \<equiv> 0x40"
abbreviation (input) IDE_DF :: u8 where "IDE_DF \<equiv> 0x20"
abbreviation (input) IDE_ERR :: u8 where "IDE_ERR \<equiv> 0x01"
abbreviation (input) IDE_CMD_READ :: u8 where "IDE_CMD_READ \<equiv> 0x20"
abbreviation (input) IDE_CMD_WRITE :: u8 where "IDE_CMD_WRITE \<equiv> 0x30"

section \<open>The drive\<close>

datatype work =
    Quiet
  | Reading bool u32
  | Wants bool u32
  | Writing bool u32 bytes
  | Fetched bytes
  | Stored

record drive =
  d_nsect :: u8
  d_lba0 :: u8
  d_lba1 :: u8
  d_lba2 :: u8
  d_sel :: u8
  d_work :: work
  d_irq :: bool

definition d_disk1 :: "drive \<Rightarrow> bool" where
  "d_disk1 d = bit (d_sel d) 4"

definition d_lba :: "drive \<Rightarrow> u32" where
  "d_lba d = dec32 [d_lba0 d, d_lba1 d, d_lba2 d, d_sel d AND 0xF]"

definition outb :: "u16 \<Rightarrow> u8 \<Rightarrow> drive \<Rightarrow> drive" where
  "outb port v d =
     (if port = 0x1f2 then d\<lparr>d_nsect := v\<rparr>
      else if port = 0x1f3 then d\<lparr>d_lba0 := v\<rparr>
      else if port = 0x1f4 then d\<lparr>d_lba1 := v\<rparr>
      else if port = 0x1f5 then d\<lparr>d_lba2 := v\<rparr>
      else if port = 0x1f6 then d\<lparr>d_sel := v\<rparr>
      else if port = 0x1f7 then
        if v = IDE_CMD_READ then d\<lparr>d_work := Reading (d_disk1 d) (d_lba d)\<rparr>
        else if v = IDE_CMD_WRITE then d\<lparr>d_work := Wants (d_disk1 d) (d_lba d)\<rparr>
        else d
      else d)"

definition outsl :: "bytes \<Rightarrow> drive \<Rightarrow> drive" where
  "outsl x d = (case d_work d of Wants one n \<Rightarrow> d\<lparr>d_work := Writing one n x\<rparr> | _ \<Rightarrow> d)"

definition insl :: "drive \<Rightarrow> (bytes \<times> drive) res" where
  "insl d = (case d_work d of Fetched x \<Rightarrow> Ok (x, d\<lparr>d_work := Quiet\<rparr>) | _ \<Rightarrow> Undefined ''insl'')"

section \<open>The driver\<close>

text \<open>The queue is linked through \<open>qnext\<close>; \<open>memdisk\<close> is the medium of disk 1.\<close>

record ide_state = bio_state +
  idequeue :: "nat option"
  qnext :: "nat \<Rightarrow> nat option"
  havedisk1 :: bool
  drive :: drive
  disk0 :: "u32 \<Rightarrow> bytes"

text \<open>What the port 0x1f7 returns is an argument, one byte for each \<open>inb\<close>; when the bytes end the drive is
  still busy.\<close>

fun idewait :: "bool \<Rightarrow> u8 list \<Rightarrow> (int \<times> u8 list) res" where
  "idewait checkerr [] = Waits"
| "idewait checkerr (r # st) =
     (if r AND (IDE_BSY OR IDE_DRDY) \<noteq> IDE_DRDY then idewait checkerr st
      else if checkerr \<and> r AND (IDE_DF OR IDE_ERR) \<noteq> 0 then Ok (-1, st)
      else Ok (0, st))"

definition idestart :: "u8 list \<Rightarrow> nat option \<Rightarrow> 'a ide_state_scheme \<Rightarrow> 'a ide_state_scheme res" where
  "idestart st b s =
     (case b of
        None \<Rightarrow> Panic ''idestart''
      | Some b \<Rightarrow>
        if b_blockno (bufs s b) \<ge> FSSIZE then Panic ''incorrect blockno''
        else
          let sector = b_blockno (bufs s b) * 1 in
          rbind (idewait False st) (\<lambda>_.
          let d = outb 0x3f6 0 (drive s);
              d = outb 0x1f2 1 d;
              d = outb 0x1f3 (ucast (sector AND 0xff)) d;
              d = outb 0x1f4 (ucast (drop_bit 8 sector AND 0xff)) d;
              d = outb 0x1f5 (ucast (drop_bit 16 sector AND 0xff)) d;
              d = outb 0x1f6 (ucast (0xe0 OR push_bit 4 (b_dev (bufs s b) AND 1) OR (drop_bit 24 sector AND 0xf))) d;
              d = (if b_flags (bufs s b) AND B_DIRTY \<noteq> 0
                   then outsl (b_data (bufs s b)) (outb 0x1f7 IDE_CMD_WRITE d)
                   else outb 0x1f7 IDE_CMD_READ d)
          in Ok (s\<lparr>drive := d\<rparr>)))"

definition ideintr :: "u8 list \<Rightarrow> 'a ide_state_scheme \<Rightarrow> 'a ide_state_scheme res" where
  "ideintr st s =
     (case idequeue s of
        None \<Rightarrow> Ok s
      | Some b \<Rightarrow>
        let s = s\<lparr>idequeue := qnext s b\<rparr> in
        rbind (if b_flags (bufs s b) AND B_DIRTY = 0 then
                 rbind (idewait True st) (\<lambda>(r, st).
                 if r \<ge> 0 then rbind (insl (drive s)) (\<lambda>(x, d). Ok (st, upd_buf b (\<lambda>bf. bf\<lparr>b_data := x\<rparr>) (s\<lparr>drive := d\<rparr>)))
                 else Ok (st, s))
               else Ok (st, s)) (\<lambda>(st, s).
        let s = upd_buf b (\<lambda>bf. bf\<lparr>b_flags := b_flags bf OR B_VALID\<rparr>) s;
            s = upd_buf b (\<lambda>bf. bf\<lparr>b_flags := b_flags bf AND NOT B_DIRTY\<rparr>) s;
            s = wakeup (ChIO b) s
        in if idequeue s \<noteq> None then idestart st (idequeue s) s else Ok s))"

text \<open>\<open>iderw\<close> up to its loop, and one round of the loop: the process returns from \<open>iderw\<close> (\<open>True\<close>) or sleeps.\<close>

primrec queue_end :: "nat \<Rightarrow> (nat \<Rightarrow> nat option) \<Rightarrow> nat \<Rightarrow> nat option" where
  "queue_end 0 nx p = None"
| "queue_end (Suc n) nx p = (case nx p of None \<Rightarrow> Some p | Some q \<Rightarrow> queue_end n nx q)"

definition append_queue :: "nat \<Rightarrow> 'a ide_state_scheme \<Rightarrow> 'a ide_state_scheme res" where
  "append_queue b s =
     (case idequeue s of
        None \<Rightarrow> Ok (s\<lparr>idequeue := Some b\<rparr>)
      | Some h \<Rightarrow>
        (case queue_end SCAN (qnext s) h of
           None \<Rightarrow> Undefined ''endless queue''
         | Some p \<Rightarrow> Ok (s\<lparr>qnext := (qnext s)(p := Some b)\<rparr>)))"

definition ide_enter :: "u8 list \<Rightarrow> nat \<Rightarrow> 'a ide_state_scheme \<Rightarrow> 'a ide_state_scheme res" where
  "ide_enter st b s =
     (let bf = bufs s b in
      if \<not> holdingsleep (mypid s) (b_lock bf) then Panic ''iderw: buf not locked''
      else if b_flags bf AND (B_VALID OR B_DIRTY) = B_VALID then Panic ''iderw: nothing to do''
      else if b_dev bf \<noteq> 0 \<and> \<not> havedisk1 s then Panic ''iderw: ide disk 1 not present''
      else
        rbind (append_queue b (s\<lparr>qnext := (qnext s)(b := None)\<rparr>)) (\<lambda>s.
        if idequeue s = Some b then idestart st (Some b) s else Ok s))"

definition ide_wait :: "nat \<Rightarrow> 'a ide_state_scheme \<Rightarrow> bool \<times> 'a ide_state_scheme" where
  "ide_wait b s =
     (if b_flags (bufs s b) AND (B_VALID OR B_DIRTY) \<noteq> B_VALID
      then (False, upd_proc (cur s) (\<lambda>p. p\<lparr>p_chan := Some (ChIO b), p_state := SLEEPING\<rparr>) s)
      else (True, s))"

section \<open>The system\<close>

definition drive_step :: "'a ide_state_scheme \<Rightarrow> 'a ide_state_scheme option" where
  "drive_step s =
     (case d_work (drive s) of
        Reading one n \<Rightarrow>
          Some (s\<lparr>drive := (drive s)\<lparr>d_work := Fetched ((if one then memdisk s else disk0 s) n), d_irq := True\<rparr>\<rparr>)
      | Writing one n x \<Rightarrow>
          let s = s\<lparr>drive := (drive s)\<lparr>d_work := Stored, d_irq := True\<rparr>\<rparr> in
          Some (if one then s\<lparr>memdisk := (memdisk s)(n := x), disk_trace := disk_trace s @ [(n, x)]\<rparr>
                else s\<lparr>disk0 := (disk0 s)(n := x)\<rparr>)
      | _ \<Rightarrow> None)"

definition waits_for :: "'a kstate_scheme \<Rightarrow> nat \<Rightarrow> nat \<Rightarrow> bool" where
  "waits_for s p i \<longleftrightarrow> p < NPROC \<and> p_chan (procs s p) = Some (ChIO i)"

text \<open>
  The rest of the kernel: it changes buffers on which no process is in \<open>iderw\<close>, and processes that are not in
  \<open>iderw\<close>; \<open>kill\<close> may wake a process that sleeps in \<open>iderw\<close>.  All buffers are for disk 1, and processes that
  are in \<open>iderw\<close> have pids of their own.
\<close>

definition kernel_step :: "'a ide_state_scheme \<Rightarrow> 'a ide_state_scheme \<Rightarrow> bool" where
  "kernel_step s t \<longleftrightarrow>
     t = s\<lparr>bufs := bufs t, procs := procs t, cur := cur t\<rparr> \<and>
     (\<forall>p i. waits_for s p i \<longrightarrow> bufs t i = bufs s i) \<and>
     (\<forall>i<NBUF. b_dev (bufs t i) = 1 \<and> b_blockno (bufs t i) < FSSIZE) \<and>
     (\<forall>p i. waits_for s p i \<longrightarrow> procs t p \<in> {procs s p, (procs s p)\<lparr>p_killed := True, p_state := RUNNABLE\<rparr>}) \<and>
     (\<forall>p i. waits_for t p i \<longrightarrow> waits_for s p i) \<and>
     (\<forall>p i q. waits_for t p i \<longrightarrow> q < NPROC \<longrightarrow> q \<noteq> p \<longrightarrow> p_pid (procs t q) \<noteq> p_pid (procs t p))"

definition error_free :: "u8 list \<Rightarrow> bool" where
  "error_free st \<longleftrightarrow> (\<forall>r\<in>set st. r AND (IDE_DF OR IDE_ERR) = 0)"

inductive ide_step :: "'a ide_state_scheme \<Rightarrow> 'a ide_state_scheme \<Rightarrow> bool" where
  request: "p < NPROC \<Longrightarrow> i < NBUF \<Longrightarrow> p_chan (procs s p) = None \<Longrightarrow>
    \<forall>q<NPROC. q \<noteq> p \<longrightarrow> p_pid (procs s q) \<noteq> p_pid (procs s p) \<Longrightarrow>
    ide_enter st i (s\<lparr>cur := p\<rparr>) = Ok t \<Longrightarrow> ide_step s (snd (ide_wait i t))"
| resume: "waits_for s p i \<Longrightarrow> p_state (procs s p) = RUNNABLE \<Longrightarrow>
    ide_step s (snd (ide_wait i (upd_proc p (\<lambda>q. q\<lparr>p_chan := None, p_state := RUNNING\<rparr>) (s\<lparr>cur := p\<rparr>))))"
| drive: "drive_step s = Some t \<Longrightarrow> ide_step s t"
| interrupt: "d_irq (drive s) \<Longrightarrow> error_free st \<Longrightarrow>
    ideintr st (s\<lparr>drive := (drive s)\<lparr>d_irq := False\<rparr>\<rparr>) = Ok t \<Longrightarrow> ide_step s t"
| kernel: "kernel_step s t \<Longrightarrow> ide_step s t"

text \<open>After boot the queue is empty and no process is in \<open>iderw\<close>.\<close>

definition ide_boot :: "'a ide_state_scheme \<Rightarrow> bool" where
  "ide_boot s \<longleftrightarrow> idequeue s = None \<and> havedisk1 s \<and> disksize s = FSSIZE \<and> \<not> d_irq (drive s) \<and> d_work (drive s) = Quiet \<and>
     (\<forall>i<NBUF. b_dev (bufs s i) = 1 \<and> b_blockno (bufs s i) < FSSIZE) \<and> (\<forall>p i. \<not> waits_for s p i)"

inductive ide_reach :: "'a ide_state_scheme \<Rightarrow> bool" where
  boot: "ide_boot s \<Longrightarrow> ide_reach s"
| step: "ide_reach s \<Longrightarrow> ide_step s t \<Longrightarrow> ide_reach t"

text \<open>The buffer whose request is finished, as the interrupt handler leaves it.\<close>

definition finished :: "(u32 \<Rightarrow> bytes) \<Rightarrow> buf \<Rightarrow> buf" where
  "finished m b = b\<lparr>b_data := m (b_blockno b), b_flags := (b_flags b AND NOT B_DIRTY) OR B_VALID\<rparr>"

text \<open>What the memory disk has done: the command that the drive has finished counts as done, although the
  interrupt handler has not run yet.\<close>

definition settled :: "'a ide_state_scheme \<Rightarrow> nat \<Rightarrow> buf" where
  "settled s i =
     (if d_irq (drive s) \<and> idequeue s = Some i then finished (memdisk s) (bufs s i) else bufs s i)"

definition abs_ide :: "nat \<Rightarrow> 'a ide_state_scheme \<Rightarrow> bio_state" where
  "abs_ide p s = (bio_state.truncate s)\<lparr>bufs := settled s, cur := p\<rparr>"

section \<open>The queue as a list\<close>

primrec queue :: "(nat \<Rightarrow> nat option) \<Rightarrow> nat option \<Rightarrow> nat list \<Rightarrow> bool" where
  "queue nx h [] \<longleftrightarrow> h = None"
| "queue nx h (b # q) \<longleftrightarrow> h = Some b \<and> queue nx (nx b) q"

lemma queue_cong: "(\<forall>b\<in>set q. nx' b = nx b) \<Longrightarrow> queue nx' h q = queue nx h q"
  by (induction q arbitrary: h) auto

lemma queue_end_last: "queue nx (Some b) q \<Longrightarrow> length q \<le> n \<Longrightarrow> queue_end n nx b = Some (last q)"
proof (induction n arbitrary: b q)
  case (Suc n)
  then obtain q' where q: "q = b # q'" by (cases q) auto
  show ?case
  proof (cases "nx b")
    case None
    with Suc.prems q have "q' = []" by (cases q') auto
    with None q show ?thesis by simp
  next
    case (Some c)
    with Suc.prems q have "queue nx (Some c) q'" "q' \<noteq> []" by auto
    with Suc.IH [of c q'] Suc.prems q Some show ?thesis by simp
  qed
qed auto

lemma queue_snoc:
  "queue nx h q \<Longrightarrow> q \<noteq> [] \<Longrightarrow> distinct q \<Longrightarrow> nx b = None \<Longrightarrow> b \<notin> set q \<Longrightarrow> queue (nx(last q := Some b)) h (q @ [b])"
proof (induction q arbitrary: h)
  case (Cons c q)
  show ?case
  proof (cases "q = []")
    case True
    with Cons.prems show ?thesis by auto
  next
    case False
    then have "c \<noteq> last q" using Cons.prems(3) by auto
    then have "(nx(last q := Some b)) c = nx c" by simp
    moreover have "queue (nx(last q := Some b)) (nx c) (q @ [b])" by (rule Cons.IH) (use Cons.prems False in auto)
    ultimately show ?thesis using Cons.prems(1) False by (simp del: fun_upd_apply)
  qed
qed simp

lemma append_queue_snoc:
  assumes "queue (qnext s) (idequeue s) q" "distinct q" "set q \<subseteq> {..<NBUF}" "b \<notin> set q"
    and "append_queue b (s\<lparr>qnext := (qnext s)(b := None)\<rparr>) = Ok t"
  shows "\<exists>nx h. t = s\<lparr>qnext := nx, idequeue := h\<rparr> \<and> queue nx h (q @ [b])"
proof (cases q)
  case Nil
  with assms(1,5) show ?thesis by (auto simp: append_queue_def)
next
  case (Cons h q')
  have "length q \<le> SCAN" using card_mono [OF _ assms(3)] distinct_card [OF assms(2)] by simp
  let ?nx = "(qnext s)(b := None)"
  have nx: "queue ?nx (Some h) q" using assms(1,4) Cons queue_cong [of q ?nx "qnext s" "Some h"] by auto
  from queue_end_last [OF nx \<open>length q \<le> SCAN\<close>] assms(1,5) Cons
  have "t = s\<lparr>qnext := ?nx(last q := Some b)\<rparr>" by (auto simp: append_queue_def)
  moreover have "queue (?nx(last q := Some b)) (Some h) (q @ [b])"
    by (rule queue_snoc [OF nx]) (use assms Cons in auto)
  ultimately show ?thesis using assms(1) Cons by (intro exI [of _ "?nx(last q := Some b)"] exI [of _ "Some h"]) auto
qed

section \<open>The commands of the driver\<close>

lemma outb_irq [simp]: "d_irq (outb port v d) = d_irq d"
  by (simp add: outb_def)

lemma outsl_irq [simp]: "d_irq (outsl x d) = d_irq d"
  by (simp add: outsl_def split: work.split)

text \<open>The registers together hold the number of the sector.\<close>

lemma sel_bits:
  "ucast (0xe0 OR push_bit 4 v AND 0x10 :: u32) AND (0xF :: u8) = 0"
  "bit (ucast (0xe0 OR push_bit 4 v AND 0x10 :: u32) :: u8) 4 = bit v 0"
proof -
  have "push_bit 4 v AND 0x10 = push_bit 4 (v AND 1)" by simp
  also have "v AND 1 = of_bool (bit v 0)" by (simp add: and_one_eq bit_0 odd_iff_mod_2_eq_one)
  finally have v: "push_bit 4 v AND 0x10 = push_bit 4 (of_bool (bit v 0))" .
  show "ucast (0xe0 OR push_bit 4 v AND 0x10 :: u32) AND (0xF :: u8) = 0"
    "bit (ucast (0xe0 OR push_bit 4 v AND 0x10 :: u32) :: u8) 4 = bit v 0"
    unfolding v by (cases "bit v 0"; simp)+
qed

lemma ucast_byte: "(ucast (n AND 0xff :: u32) :: u8) = ucast n"
proof -
  have "n AND 0xff = take_bit 8 n" by (simp add: take_bit_eq_mask mask_eq_exp_minus_1)
  then show ?thesis by (simp add: bit_word_eqI bit_simps)
qed

lemma high_bits:
  fixes n :: u32
  assumes "n < FSSIZE"
  shows "drop_bit 24 n = 0"
proof -
  have "unat n < 2 ^ 24" using assms by (simp add: word_less_nat_alt)
  then have "unat (drop_bit 24 n) = 0" by (simp add: unat_drop_bit_eq) (simp add: drop_bit_eq_div)
  then show ?thesis by (simp only: unat_eq_0)
qed

lemma lba_registers:
  assumes "n < FSSIZE"
  shows "dec32 [ucast (n AND 0xff), ucast (drop_bit 8 n AND 0xff), ucast (drop_bit 16 n AND 0xff), 0] = n"
proof -
  have "[ucast (n AND 0xff), ucast (drop_bit 8 n AND 0xff), ucast (drop_bit 16 n AND 0xff), 0] = enc32 n"
    by (simp add: enc32_def ucast_byte high_bits [OF assms])
  then show ?thesis by (simp only: dec32_enc32)
qed

lemma idewait_ok: "idewait False st = Ok (r, st') \<Longrightarrow> r = 0"
  by (induction st) (auto split: if_splits)

lemma idestart_command:
  assumes "idestart st (Some b) s = Ok t"
  shows "\<exists>d. t = s\<lparr>drive := d\<rparr> \<and> d_irq d = d_irq (drive s) \<and> b_blockno (bufs s b) < FSSIZE \<and>
    d_work d = (let one = bit (b_dev (bufs s b)) 0; n = b_blockno (bufs s b)
                in if dirty (bufs s b) then Writing one n (b_data (bufs s b)) else Reading one n)"
proof -
  have n: "b_blockno (bufs s b) < FSSIZE" using assms by (simp add: idestart_def not_le split: if_splits)
  then have le: "\<not> FSSIZE \<le> b_blockno (bufs s b)" by simp
  obtain w where w: "idewait False st = Ok w" using assms le by (auto simp: idestart_def Let_def)
  show ?thesis
    using assms n unfolding idestart_def w option.case if_not_P [OF le] Let_def rbind.simps
    by (auto simp: dirty_def outb_def outsl_def d_lba_def d_disk1_def sel_bits high_bits lba_registers)
qed

section \<open>The invariant\<close>

abbreviation io_done :: "buf \<Rightarrow> bool" where
  "io_done b \<equiv> valid b \<and> \<not> dirty b"

lemma io_done_flags [simp]: "b_flags b AND 6 = 2 \<longleftrightarrow> io_done b"
  using flags_nothing_to_do [of b] by simp

definition command :: "buf \<Rightarrow> work" where
  "command b = (if dirty b then Writing True (b_blockno b) (b_data b) else Reading True (b_blockno b))"

definition working :: "'a ide_state_scheme \<Rightarrow> buf \<Rightarrow> bool" where
  "working s b \<longleftrightarrow>
     (if \<not> d_irq (drive s) then d_work (drive s) = command b
      else if dirty b then d_work (drive s) = Stored \<and> memdisk s (b_blockno b) = b_data b
      else d_work (drive s) = Fetched (memdisk s (b_blockno b)))"

definition resting :: "drive \<Rightarrow> bool" where
  "resting d \<longleftrightarrow> \<not> d_irq d \<and> (d_work d = Quiet \<or> d_work d = Stored)"

definition disk_bufs :: "'a ide_state_scheme \<Rightarrow> bool" where
  "disk_bufs s \<longleftrightarrow> havedisk1 s \<and> disksize s = FSSIZE \<and>
     (\<forall>i<NBUF. b_dev (bufs s i) = 1 \<and> b_blockno (bufs s i) < FSSIZE)"

definition waiters :: "'a ide_state_scheme \<Rightarrow> nat list \<Rightarrow> bool" where
  "waiters s q \<longleftrightarrow>
     (\<forall>i\<in>set q. \<not> io_done (bufs s i) \<and> (\<exists>p. waits_for s p i)) \<and>
     (\<forall>p i. waits_for s p i \<longrightarrow> i < NBUF \<and> holdingsleep (p_pid (procs s p)) (b_lock (bufs s i)) \<and>
        (i \<in> set q \<or> io_done (bufs s i) \<and> p_state (procs s p) \<noteq> SLEEPING)) \<and>
     (\<forall>p i r. waits_for s p i \<longrightarrow> r < NPROC \<longrightarrow> r \<noteq> p \<longrightarrow> p_pid (procs s r) \<noteq> p_pid (procs s p))"

definition ide_inv :: "'a ide_state_scheme \<Rightarrow> nat list \<Rightarrow> bool" where
  "ide_inv s q \<longleftrightarrow> queue (qnext s) (idequeue s) q \<and> distinct q \<and> disk_bufs s \<and> waiters s q \<and>
     (case q of [] \<Rightarrow> resting (drive s) | i # _ \<Rightarrow> working s (bufs s i))"

lemma ide_invD:
  assumes "ide_inv s q"
  shows "queue (qnext s) (idequeue s) q" "distinct q" "disk_bufs s" "waiters s q" "set q \<subseteq> {..<NBUF}"
    "q = [] \<Longrightarrow> resting (drive s)" "q = i # q' \<Longrightarrow> working s (bufs s i)"
proof -
  show "set q \<subseteq> {..<NBUF}"
    using assms unfolding ide_inv_def waiters_def by (meson lessThan_iff subsetI)
qed (use assms in \<open>auto simp: ide_inv_def\<close>)

lemma waitersD:
  assumes "waiters s q"
  shows "i \<in> set q \<Longrightarrow> \<not> io_done (bufs s i)" "i \<in> set q \<Longrightarrow> \<exists>p. waits_for s p i"
    "waits_for s p i \<Longrightarrow> i < NBUF" "waits_for s p i \<Longrightarrow> holdingsleep (p_pid (procs s p)) (b_lock (bufs s i))"
    "waits_for s p i \<Longrightarrow> i \<in> set q \<or> io_done (bufs s i) \<and> p_state (procs s p) \<noteq> SLEEPING"
    "waits_for s p i \<Longrightarrow> r < NPROC \<Longrightarrow> r \<noteq> p \<Longrightarrow> p_pid (procs s r) \<noteq> p_pid (procs s p)"
  using assms unfolding waiters_def by blast+

lemma waitersI:
  assumes "\<And>i. i \<in> set q \<Longrightarrow> \<not> io_done (bufs s i)" "\<And>i. i \<in> set q \<Longrightarrow> \<exists>p. waits_for s p i"
    "\<And>p i. waits_for s p i \<Longrightarrow> i < NBUF \<and> holdingsleep (p_pid (procs s p)) (b_lock (bufs s i)) \<and>
       (i \<in> set q \<or> io_done (bufs s i) \<and> p_state (procs s p) \<noteq> SLEEPING)"
    "\<And>p i r. waits_for s p i \<Longrightarrow> r < NPROC \<Longrightarrow> r \<noteq> p \<Longrightarrow> p_pid (procs s r) \<noteq> p_pid (procs s p)"
  shows "waiters s q"
  using assms unfolding waiters_def by blast

lemma waits_one: "waits_for s p i \<Longrightarrow> waits_for s p j \<Longrightarrow> i = j"
  by (simp add: waits_for_def)

text \<open>A process that may enter \<open>iderw\<close> holds the lock, so its buffer is not in the queue.\<close>

lemma not_queued:
  assumes "waiters s q" "holdingsleep (p_pid (procs s p)) (b_lock (bufs s i))" "\<forall>j. \<not> waits_for s p j" "p < NPROC"
  shows "i \<notin> set q" "\<not> waits_for s r i"
proof -
  show *: "\<not> waits_for s r i" for r
  proof
    assume r: "waits_for s r i"
    with assms(1) have "holdingsleep (p_pid (procs s r)) (b_lock (bufs s i))" by (simp add: waiters_def)
    with assms(2) have "p_pid (procs s r) = p_pid (procs s p)" by (simp add: holdingsleep_def)
    moreover have "p \<noteq> r" using r assms(3) by blast
    ultimately show False using assms(1,4) r unfolding waiters_def by metis
  qed
  then show "i \<notin> set q" using assms(1) unfolding waiters_def by blast
qed

section \<open>The steps\<close>

lemma idestart_disk1:
  assumes "idestart st (Some b) s = Ok t" "b_dev (bufs s b) = 1"
  shows "\<exists>d. t = s\<lparr>drive := d\<rparr> \<and> d_irq d = d_irq (drive s) \<and> d_work d = command (bufs s b)"
  using idestart_command [OF assms(1)] assms(2) by (auto simp: command_def Let_def)

lemma ide_enter_effect:
  assumes inv: "ide_inv s q" and run: "ide_enter st i (s\<lparr>cur := p\<rparr>) = Ok t"
    and p: "p < NPROC" "p_chan (procs s p) = None" and i: "i < NBUF"
  shows "i \<notin> set q" "\<not> io_done (bufs s i)" "holdingsleep (p_pid (procs s p)) (b_lock (bufs s i))"
    "\<exists>nx h d. t = s\<lparr>cur := p, qnext := nx, idequeue := h, drive := d\<rparr> \<and> queue nx h (q @ [i]) \<and>
       (if q = [] then d_irq d = d_irq (drive s) \<and> d_work d = command (bufs s i) else d = drive s)"
proof -
  note I = ide_invD [OF inv]
  let ?s = "s\<lparr>cur := p\<rparr>"
  show h: "holdingsleep (p_pid (procs s p)) (b_lock (bufs s i))" and nd: "\<not> io_done (bufs s i)"
    using run by (auto simp: ide_enter_def Let_def mypid_def myproc_def split: if_splits)
  show iq: "i \<notin> set q" by (rule not_queued [OF I(4) h]) (use p in \<open>simp_all add: waits_for_def\<close>)
  from run h nd I(3) i obtain u where u: "append_queue i (?s\<lparr>qnext := (qnext ?s)(i := None)\<rparr>) = Ok u"
    and t: "(if idequeue u = Some i then idestart st (Some i) u else Ok u) = Ok t"
    by (auto simp: ide_enter_def Let_def mypid_def myproc_def disk_bufs_def split: if_splits)
  have "queue (qnext ?s) (idequeue ?s) q" using I(1) by simp
  from append_queue_snoc [OF this I(2,5) iq u] obtain nx h' where
    u': "u = ?s\<lparr>qnext := nx, idequeue := h'\<rparr>" "queue nx h' (q @ [i])" by auto
  show "\<exists>nx h d. t = s\<lparr>cur := p, qnext := nx, idequeue := h, drive := d\<rparr> \<and> queue nx h (q @ [i]) \<and>
       (if q = [] then d_irq d = d_irq (drive s) \<and> d_work d = command (bufs s i) else d = drive s)"
  proof (cases q)
    case Nil
    then have "idequeue u = Some i" using u' by simp
    with t have "idestart st (Some i) u = Ok t" by simp
    from idestart_disk1 [OF this] I(3) i u' Nil show ?thesis by (auto simp: disk_bufs_def intro!: exI [of _ nx] exI [of _ h'])
  next
    case (Cons c q')
    then have "idequeue u \<noteq> Some i" using u' iq by auto
    with t u' Cons show ?thesis by (auto intro!: exI [of _ nx] exI [of _ h'] exI [of _ "drive s"])
  qed
qed

lemma finished_simps [simp]:
  "valid (finished m b)" "\<not> dirty (finished m b)" "b_lock (finished m b) = b_lock b" "b_dev (finished m b) = b_dev b"
  "b_blockno (finished m b) = b_blockno b"
  by (simp_all add: finished_def valid_bit dirty_bit bit_simps)

lemma flags_order: "(f OR 2) AND - 5 = (f AND - 5) OR (2 :: u32)"
proof -
  have "(f OR 2) AND NOT 4 = (f AND NOT 4) OR (2 :: u32)" by (rule bit_word_eqI) (auto simp: bit_simps)
  then show ?thesis by simp
qed

lemma wakeup_queue [simp]:
  "idequeue (wakeup ch s) = idequeue s" "bufs (wakeup ch u) = bufs u"
  by (simp_all add: wakeup_def)

lemma idewait_error_free: "idewait c st = Ok (r, st') \<Longrightarrow> error_free st \<Longrightarrow> r = 0"
  by (induction st) (auto simp: error_free_def split: if_splits)

lemma drive_first: "s\<lparr>idequeue := h, drive := d\<rparr> = s\<lparr>drive := d, idequeue := h\<rparr>"
  by simp

lemma ideintr_first:
  fixes s :: "'a ide_state_scheme" and st :: "u8 list"
  defines "after d i h \<equiv> wakeup (ChIO i) (upd_buf i (finished (memdisk s)) (s\<lparr>idequeue := h, drive := d\<rparr>))"
  assumes i: "idequeue s = Some i" and w: "working s (bufs s i)" and irq: "d_irq (drive s)" and st: "error_free st"
    and run: "ideintr st (s\<lparr>drive := (drive s)\<lparr>d_irq := False\<rparr>\<rparr>) = Ok t"
  obtains d st' where "resting d"
    "(case qnext s i of None \<Rightarrow> Ok (after d i None) | Some c \<Rightarrow> idestart st' (Some c) (after d i (Some c))) = Ok t"
proof (cases "dirty (bufs s i)")
  case True
  then have "b_flags (bufs s i) AND 4 \<noteq> 0" "memdisk s (b_blockno (bufs s i)) = b_data (bufs s i)"
    "d_work (drive s) = Stored"
    using w irq by (simp_all add: dirty_def working_def)
  then show thesis
    using i run irq by (intro that [of "(drive s)\<lparr>d_irq := False\<rparr>" st]; cases "qnext s i")
      (simp_all add: ideintr_def Let_def after_def resting_def upd_buf_def finished_def flags_order drive_first)
next
  case False
  then have f: "b_flags (bufs s i) AND 4 = 0" "d_work (drive s) = Fetched (memdisk s (b_blockno (bufs s i)))"
    using w irq by (simp_all add: dirty_def working_def)
  with i run obtain r st' where r: "idewait True st = Ok (r, st')" by (auto simp: ideintr_def Let_def)
  have "r = 0" using idewait_error_free [OF r st] .
  with f r show thesis
    using i run irq by (intro that [of "(drive s)\<lparr>d_irq := False, d_work := Quiet\<rparr>" st']; cases "qnext s i")
      (simp_all add: ideintr_def Let_def after_def resting_def insl_def upd_buf_def finished_def flags_order drive_first)
qed

lemma ideintr_effect:
  assumes inv: "ide_inv s q" and irq: "d_irq (drive s)" and st: "error_free st"
    and run: "ideintr st (s\<lparr>drive := (drive s)\<lparr>d_irq := False\<rparr>\<rparr>) = Ok t"
  shows "\<exists>i q' h d. q = i # q' \<and> queue (qnext s) h q' \<and> \<not> d_irq d \<and>
    t = wakeup (ChIO i) (upd_buf i (finished (memdisk s)) (s\<lparr>idequeue := h, drive := d\<rparr>)) \<and>
    (case q' of [] \<Rightarrow> resting d | c # _ \<Rightarrow> d_work d = command (bufs s c))"
proof -
  note I = ide_invD [OF inv]
  from I(6) irq obtain i q' where q: "q = i # q'" by (cases q) (auto simp: resting_def)
  have iq: "idequeue s = Some i" "queue (qnext s) (qnext s i) q'" using I(1) q by simp_all
  obtain d st' where d: "resting d"
    "(case qnext s i of None \<Rightarrow> Ok (wakeup (ChIO i) (upd_buf i (finished (memdisk s)) (s\<lparr>idequeue := None, drive := d\<rparr>)))
      | Some c \<Rightarrow> idestart st' (Some c) (wakeup (ChIO i) (upd_buf i (finished (memdisk s)) (s\<lparr>idequeue := Some c, drive := d\<rparr>)))) = Ok t"
    by (rule ideintr_first [OF iq(1) I(7) [OF q] irq st run])
  show ?thesis
  proof (cases q')
    case Nil
    with iq(2) d q show ?thesis by (auto simp: resting_def)
  next
    case (Cons c q'')
    then have c: "qnext s i = Some c" using iq(2) by simp
    have ne: "c \<noteq> i" "c < NBUF" using I(2,5) q Cons by auto
    let ?u = "wakeup (ChIO i) (upd_buf i (finished (memdisk s)) (s\<lparr>idequeue := Some c, drive := d\<rparr>))"
    have "idestart st' (Some c) ?u = Ok t" using d(2) c by simp
    moreover have b: "bufs ?u c = bufs s c" using ne by (simp add: wakeup_def upd_buf_def)
    ultimately obtain d' where "t = ?u\<lparr>drive := d'\<rparr>" "\<not> d_irq d'" "d_work d' = command (bufs s c)"
      using idestart_disk1 [of st' c ?u t] I(3) ne d(1) by (auto simp: disk_bufs_def resting_def wakeup_def upd_buf_def)
    with iq(2) q Cons c show ?thesis
      by (intro exI [of _ i] exI [of _ q'] exI [of _ "Some c"] exI [of _ d']) (simp add: wakeup_def upd_buf_def cong: if_cong)
  qed
qed

lemma waits_for_simps [simp]:
  "waits_for (wakeup ch s) p i = waits_for s p i" "waits_for (upd_buf j f u) p i = waits_for u p i"
  "waits_for (v\<lparr>idequeue := h\<rparr>) p i = waits_for v p i" "waits_for (v\<lparr>drive := d\<rparr>) p i = waits_for v p i"
  "waits_for (v\<lparr>qnext := nx\<rparr>) p i = waits_for v p i" "waits_for (v\<lparr>cur := c\<rparr>) p i = waits_for v p i"
  "waits_for (u\<lparr>memdisk := m\<rparr>) p i = waits_for u p i" "waits_for (u\<lparr>disk_trace := tr\<rparr>) p i = waits_for u p i"
  by (simp_all add: waits_for_def upd_buf_def)

lemma inv_request:
  assumes inv: "ide_inv s q" and run: "ide_enter st i (s\<lparr>cur := p\<rparr>) = Ok t"
    and p: "p < NPROC" "p_chan (procs s p) = None" and i: "i < NBUF"
    and pid: "\<forall>r<NPROC. r \<noteq> p \<longrightarrow> p_pid (procs s r) \<noteq> p_pid (procs s p)"
  shows "ide_inv (snd (ide_wait i t)) (q @ [i])"
proof -
  note I = ide_invD [OF inv] and E = ide_enter_effect [OF inv run p i]
  from E(4) obtain nx h d where t: "t = s\<lparr>cur := p, qnext := nx, idequeue := h, drive := d\<rparr>"
    and nx: "queue nx h (q @ [i])"
    and d: "if q = [] then d_irq d = d_irq (drive s) \<and> d_work d = command (bufs s i) else d = drive s" by blast
  have u: "snd (ide_wait i t) = upd_proc p (\<lambda>r. r\<lparr>p_chan := Some (ChIO i), p_state := SLEEPING\<rparr>) t"
    using E(2) t by (simp add: ide_wait_def)
  have w: "waits_for (snd (ide_wait i t)) r j \<longleftrightarrow> (if r = p then j = i else waits_for s r j)" for r j
    using p unfolding u by (auto simp: t waits_for_def upd_proc_def)
  have "waiters (snd (ide_wait i t)) (q @ [i])"
  proof (rule waitersI)
    fix j assume j: "j \<in> set (q @ [i])"
    then show "\<not> io_done (bufs (snd (ide_wait i t)) j)"
      using E(2) waitersD(1) [OF I(4)] unfolding u by (auto simp: t upd_proc_def)
    show "\<exists>r. waits_for (snd (ide_wait i t)) r j"
      using j waitersD(2) [OF I(4), of j] p unfolding w by (metis Un_iff empty_iff insert_iff list.set(1,2) option.distinct(1) set_append waits_for_def)
  next
    fix r j assume "waits_for (snd (ide_wait i t)) r j"
    then show "j < NBUF \<and> holdingsleep (p_pid (procs (snd (ide_wait i t)) r)) (b_lock (bufs (snd (ide_wait i t)) j)) \<and>
        (j \<in> set (q @ [i]) \<or> io_done (bufs (snd (ide_wait i t)) j) \<and> p_state (procs (snd (ide_wait i t)) r) \<noteq> SLEEPING)"
      using E(3) i waitersD(3-5) [OF I(4), of r j] unfolding w unfolding u by (auto simp: t upd_proc_def split: if_splits)
  next
    fix r j r' assume "waits_for (snd (ide_wait i t)) r j" "r' < NPROC" "r' \<noteq> r"
    then show "p_pid (procs (snd (ide_wait i t)) r') \<noteq> p_pid (procs (snd (ide_wait i t)) r)"
      using p pid waitersD(6) [OF I(4), of r j] unfolding w unfolding u by (auto simp: t upd_proc_def split: if_splits)
  qed
  moreover have "case q @ [i] of [] \<Rightarrow> resting (drive (snd (ide_wait i t)))
      | j # _ \<Rightarrow> working (snd (ide_wait i t)) (bufs (snd (ide_wait i t)) j)"
    using I(6,7) d unfolding u by (cases q) (auto simp: t upd_proc_def working_def resting_def)
  ultimately show ?thesis
    using I(2,3) nx E(1) unfolding ide_inv_def u by (auto simp: t upd_proc_def disk_bufs_def)
qed

lemma inv_resume:
  assumes inv: "ide_inv s q" and p: "waits_for s p i"
  shows "ide_inv (snd (ide_wait i (upd_proc p (\<lambda>r. r\<lparr>p_chan := None, p_state := RUNNING\<rparr>) (s\<lparr>cur := p\<rparr>)))) q"
    (is "ide_inv ?u q")
proof -
  note I = ide_invD [OF inv]
  let ?t = "upd_proc p (\<lambda>r. r\<lparr>p_chan := None, p_state := RUNNING\<rparr>) (s\<lparr>cur := p\<rparr>)"
  have u: "?u = (if io_done (bufs s i) then ?t else upd_proc p (\<lambda>r. r\<lparr>p_chan := Some (ChIO i), p_state := SLEEPING\<rparr>) ?t)"
    by (simp add: ide_wait_def upd_proc_def)
  have w: "waits_for ?u r j \<longleftrightarrow> waits_for s r j \<and> (r = p \<longrightarrow> \<not> io_done (bufs s i))" for r j
    using p unfolding u by (auto simp: waits_for_def upd_proc_def split: if_splits)
  have sel: "bufs ?u = bufs s" "p_pid (procs ?u r) = p_pid (procs s r)" for r
    unfolding u by (simp_all add: upd_proc_def)
  have "waiters ?u q"
  proof (rule waitersI)
    fix j assume j: "j \<in> set q"
    then show "\<not> io_done (bufs ?u j)" using waitersD(1) [OF I(4)] by (simp add: sel)
    obtain r where r: "waits_for s r j" using waitersD(2) [OF I(4) j] by blast
    moreover have "r = p \<Longrightarrow> j = i" using r p waits_one by blast
    ultimately show "\<exists>r. waits_for ?u r j" using waitersD(1) [OF I(4) j] unfolding w by blast
  next
    fix r j assume r: "waits_for ?u r j"
    have "r = p \<Longrightarrow> j = i" using r p waits_one unfolding w by blast
    moreover have "r \<noteq> p \<Longrightarrow> p_state (procs ?u r) = p_state (procs s r)" unfolding u by (simp add: upd_proc_def)
    ultimately show "j < NBUF \<and> holdingsleep (p_pid (procs ?u r)) (b_lock (bufs ?u j)) \<and>
        (j \<in> set q \<or> io_done (bufs ?u j) \<and> p_state (procs ?u r) \<noteq> SLEEPING)"
      using r waitersD(3-5) [OF I(4), of r j] unfolding w sel by metis
  next
    fix r j r' assume "waits_for ?u r j" "r' < NPROC" "r' \<noteq> r"
    then show "p_pid (procs ?u r') \<noteq> p_pid (procs ?u r)" using waitersD(6) [OF I(4)] unfolding w sel by blast
  qed
  then show ?thesis
    using I(1-3,6,7) unfolding ide_inv_def u
    by (auto simp: upd_proc_def disk_bufs_def working_def split: list.split)
qed

lemma inv_drive:
  assumes inv: "ide_inv s q" and run: "drive_step s = Some t"
  shows "ide_inv t q" "\<exists>i q'. q = i # q' \<and> \<not> d_irq (drive s) \<and> d_irq (drive t) \<and>
    t = (if dirty (bufs s i)
         then s\<lparr>drive := drive t, memdisk := (memdisk s)(b_blockno (bufs s i) := b_data (bufs s i)),
                disk_trace := disk_trace s @ [(b_blockno (bufs s i), b_data (bufs s i))]\<rparr>
         else s\<lparr>drive := drive t\<rparr>)"
proof -
  note I = ide_invD [OF inv]
  from I(6) run obtain i q' where q: "q = i # q'" by (cases q) (auto simp: resting_def drive_step_def)
  have irq: "\<not> d_irq (drive s)" using I(7) [OF q] run by (auto simp: working_def drive_step_def split: if_splits)
  then have "d_work (drive s) = command (bufs s i)" using I(7) [OF q] by (simp add: working_def)
  with run have t: "t = (if dirty (bufs s i)
      then s\<lparr>drive := (drive s)\<lparr>d_work := Stored, d_irq := True\<rparr>, memdisk := (memdisk s)(b_blockno (bufs s i) := b_data (bufs s i)),
             disk_trace := disk_trace s @ [(b_blockno (bufs s i), b_data (bufs s i))]\<rparr>
      else s\<lparr>drive := (drive s)\<lparr>d_work := Fetched (memdisk s (b_blockno (bufs s i))), d_irq := True\<rparr>\<rparr>)"
    by (auto simp: drive_step_def command_def Let_def)
  with q irq show "\<exists>i q'. q = i # q' \<and> \<not> d_irq (drive s) \<and> d_irq (drive t) \<and>
    t = (if dirty (bufs s i)
         then s\<lparr>drive := drive t, memdisk := (memdisk s)(b_blockno (bufs s i) := b_data (bufs s i)),
                disk_trace := disk_trace s @ [(b_blockno (bufs s i), b_data (bufs s i))]\<rparr>
         else s\<lparr>drive := drive t\<rparr>)" by auto
  have "waiters t q"
    using I(4) by (auto intro!: waitersI dest: waitersD simp: t)
  then show "ide_inv t q" using I(1-3) q by (auto simp: ide_inv_def t disk_bufs_def working_def)
qed

lemma wakeup_awake: "waits_for s p i \<Longrightarrow> p_state (procs (wakeup (ChIO i) s) p) \<noteq> SLEEPING"
  by (simp add: waits_for_def wakeup_def wake_def)

lemma wakeup_other: "waits_for s p j \<Longrightarrow> j \<noteq> i \<Longrightarrow> procs (wakeup (ChIO i) s) p = procs s p"
  by (simp add: waits_for_def wakeup_def wake_def)

lemma inv_interrupt:
  assumes inv: "ide_inv s q" and irq: "d_irq (drive s)" and st: "error_free st"
    and run: "ideintr st (s\<lparr>drive := (drive s)\<lparr>d_irq := False\<rparr>\<rparr>) = Ok t"
  shows "ide_inv t (tl q)"
proof -
  note I = ide_invD [OF inv]
  from ideintr_effect [OF inv irq st run] obtain i q' h d where q: "q = i # q'" and h: "queue (qnext s) h q'"
    and d: "\<not> d_irq d" "case q' of [] \<Rightarrow> resting d | c # _ \<Rightarrow> d_work d = command (bufs s c)"
    and t: "t = wakeup (ChIO i) (upd_buf i (finished (memdisk s)) (s\<lparr>idequeue := h, drive := d\<rparr>))" by blast
  let ?v = "upd_buf i (finished (memdisk s)) (s\<lparr>idequeue := h, drive := d\<rparr>)"
  have w: "waits_for t r j \<longleftrightarrow> waits_for s r j" for r j by (simp add: t)
  have b: "bufs t = (bufs s)(i := finished (memdisk s) (bufs s i))" by (simp add: t upd_buf_def)
  have pid: "p_pid (procs t r) = p_pid (procs s r)" for r by (simp add: t upd_buf_def)
  have iq: "i \<notin> set q'" using I(2) q by simp
  have "waiters t q'"
  proof (rule waitersI)
    fix j assume "j \<in> set q'"
    then show "\<not> io_done (bufs t j)" "\<exists>r. waits_for t r j"
      using iq waitersD(1,2) [OF I(4), of j] unfolding w b q by auto
  next
    fix r j assume "waits_for t r j"
    then have r: "waits_for s r j" "waits_for ?v r j" by (simp_all add: w)
    show "j < NBUF \<and> holdingsleep (p_pid (procs t r)) (b_lock (bufs t j)) \<and>
        (j \<in> set q' \<or> io_done (bufs t j) \<and> p_state (procs t r) \<noteq> SLEEPING)"
    proof (cases "j = i")
      case True
      with waitersD(3,4) [OF I(4) r(1)] wakeup_awake [of ?v r i] r(2) show ?thesis unfolding pid b by (simp add: t)
    next
      case False
      with wakeup_other [OF r(2)] have "procs t r = procs s r" by (simp add: t upd_buf_def)
      with waitersD(3-5) [OF I(4) r(1)] False q show ?thesis unfolding b by auto
    qed
  next
    fix r j r' assume "waits_for t r j" "r' < NPROC" "r' \<noteq> r"
    then show "p_pid (procs t r') \<noteq> p_pid (procs t r)" using waitersD(6) [OF I(4)] unfolding w pid by blast
  qed
  moreover have "disk_bufs t" using I(3) by (auto simp: disk_bufs_def b) (simp_all add: t upd_buf_def wakeup_def)
  moreover have "case q' of [] \<Rightarrow> resting (drive t) | c # _ \<Rightarrow> working t (bufs t c)"
    using d iq by (cases q') (auto simp: b working_def, simp_all add: t upd_buf_def wakeup_def)
  moreover have "qnext t = qnext s" "idequeue t = h" by (simp_all add: t upd_buf_def wakeup_def)
  ultimately show ?thesis using I(2) h q by (simp add: ide_inv_def)
qed

lemma inv_kernel:
  assumes inv: "ide_inv s q" and run: "kernel_step s t"
  shows "ide_inv t q" "\<And>p i. waits_for t p i \<longleftrightarrow> waits_for s p i"
proof -
  note I = ide_invD [OF inv] and K = run [unfolded kernel_step_def]
  have was: "waits_for t p i \<Longrightarrow> waits_for s p i" for p i using K by blast
  have p: "procs t p \<in> {procs s p, (procs s p)\<lparr>p_killed := True, p_state := RUNNABLE\<rparr>}" if "waits_for s p i" for p i
    using K that by blast
  have sel: "p_pid (procs t p) = p_pid (procs s p)" "p_chan (procs t p) = p_chan (procs s p)"
    "p_state (procs s p) \<noteq> SLEEPING \<Longrightarrow> p_state (procs t p) \<noteq> SLEEPING" if "waits_for s p i" for p i
    using p [OF that] by auto
  show w: "waits_for t p i \<longleftrightarrow> waits_for s p i" for p i
  proof
    assume "waits_for s p i"
    with sel(2) [OF this] show "waits_for t p i" by (simp add: waits_for_def)
  qed (rule was)
  have b: "bufs t i = bufs s i" if "waits_for s p i" for p i using K that by blast
  have t: "t = s\<lparr>bufs := bufs t, procs := procs t, cur := cur t\<rparr>" using K by blast
  have "qnext t = qnext s" "idequeue t = idequeue s" "havedisk1 t = havedisk1 s" "disksize t = disksize s"
    "drive t = drive s" "memdisk t = memdisk s" by (subst t, simp)+
  moreover have "waiters t q"
  proof (rule waitersI)
    fix i assume i: "i \<in> set q"
    from waitersD(2) [OF I(4) i] obtain p where p: "waits_for s p i" ..
    then show "\<exists>p. waits_for t p i" "\<not> io_done (bufs t i)" using waitersD(1) [OF I(4) i] b [OF p] w by auto
  next
    fix p i assume "waits_for t p i"
    then have "waits_for s p i" by (simp add: w)
    note p = waitersD(3-5) [OF I(4) this] sel [OF this] b [OF this]
    then show "i < NBUF \<and> holdingsleep (p_pid (procs t p)) (b_lock (bufs t i)) \<and>
        (i \<in> set q \<or> io_done (bufs t i) \<and> p_state (procs t p) \<noteq> SLEEPING)" by metis
  next
    fix p i r assume "waits_for t p i" "r < NPROC" "r \<noteq> p"
    then show "p_pid (procs t r) \<noteq> p_pid (procs t p)" using K by blast
  qed
  moreover have "bufs t i = bufs s i" if "i \<in> set q" for i
    using waitersD(2) [OF I(4) that] b by blast
  moreover have "\<forall>i<NBUF. b_dev (bufs t i) = 1 \<and> b_blockno (bufs t i) < FSSIZE" using K by blast
  ultimately show "ide_inv t q"
    using I(1-3,6,7) by (auto simp: ide_inv_def disk_bufs_def working_def split: list.split)
qed

lemma inv_step: "ide_inv s q \<Longrightarrow> ide_step s t \<Longrightarrow> \<exists>q'. ide_inv t q'"
  by (erule ide_step.cases) (blast dest: inv_request inv_resume inv_drive(1) inv_interrupt inv_kernel(1))+

lemma ide_reach_inv: "ide_reach s \<Longrightarrow> \<exists>q. ide_inv s q"
proof (induction rule: ide_reach.induct)
  case (boot s)
  then have "ide_inv s []" by (simp add: ide_inv_def ide_boot_def disk_bufs_def resting_def waiters_def)
  then show ?case ..
qed (blast dest: inv_step)

section \<open>The memory disk as the specification\<close>

lemma finished_clean:
  assumes "\<not> dirty b"
  shows "finished m b = b\<lparr>b_data := m (b_blockno b), b_flags := b_flags b OR 2\<rparr>"
proof -
  have "b_flags b = b_flags b AND (4 OR NOT 4)" by simp
  also have "\<dots> = (b_flags b AND 4) OR (b_flags b AND NOT 4)" by (rule bit.conj_disj_distrib)
  also have "b_flags b AND 4 = 0" using assms by (simp add: dirty_def)
  finally have "b_flags b AND NOT 4 = b_flags b" by simp
  then show ?thesis by (simp add: finished_def)
qed

lemma finished_dirty: "finished (m(b_blockno b := b_data b)) b = b\<lparr>b_flags := (b_flags b AND NOT 4) OR 2\<rparr>"
  by (simp add: finished_def)

lemma abs_ide_sel [simp]:
  "bufs (abs_ide p s) = settled s" "memdisk (abs_ide p s) = memdisk s" "disksize (abs_ide p s) = disksize s"
  "mypid (abs_ide p s) = p_pid (procs s p)"
  by (simp_all add: abs_ide_def bio_state.defs mypid_def myproc_def)

lemma drive_does_iderw:
  assumes inv: "ide_inv s q" and run: "drive_step s = Some t"
  shows "\<exists>p i. waits_for s p i \<and> iderw i (abs_ide p s) = Ok (abs_ide p t)"
proof -
  note I = ide_invD [OF inv]
  from inv_drive(2) [OF inv run] obtain i q' where q: "q = i # q'" and irq: "\<not> d_irq (drive s)" "d_irq (drive t)"
    and t: "t = (if dirty (bufs s i)
         then s\<lparr>drive := drive t, memdisk := (memdisk s)(b_blockno (bufs s i) := b_data (bufs s i)),
                disk_trace := disk_trace s @ [(b_blockno (bufs s i), b_data (bufs s i))]\<rparr>
         else s\<lparr>drive := drive t\<rparr>)" by blast
  obtain p where p: "waits_for s p i" using waitersD(2) [OF I(4), of i] q by auto
  have h: "holdingsleep (p_pid (procs s p)) (b_lock (bufs s i))" "\<not> io_done (bufs s i)" "i < NBUF"
    using waitersD(1,3,4) [OF I(4)] p q by auto
  have b: "b_dev (bufs s i) = 1" "\<not> disksize s \<le> b_blockno (bufs s i)" using I(3) h(3) by (auto simp: disk_bufs_def)
  have st: "settled s = bufs s" using irq(1) by (auto simp: settled_def)
  have iq: "idequeue s = Some i" using I(1) q by simp
  have tq: "idequeue t = Some i" "bufs t = bufs s" by (subst t, simp add: iq)+
  have tt: "settled t = (bufs s)(i := finished (memdisk t) (bufs s i))" using irq(2) tq by (auto simp: settled_def)
  have "iderw i (abs_ide p s) = Ok (abs_ide p t)"
  proof (cases "dirty (bufs s i)")
    case True
    then have d: "b_flags (bufs s i) AND 4 \<noteq> 0" by (simp add: dirty_def)
    have m: "memdisk t = (memdisk s)(b_blockno (bufs s i) := b_data (bufs s i))" "procs t = procs s" "disksize t = disksize s"
      "disk_trace t = disk_trace s @ [(b_blockno (bufs s i), b_data (bufs s i))]" "bnext t = bnext s" "bprev t = bprev s"
      using True by (subst t, simp)+
    show ?thesis
      using h(1,2) b d unfolding iderw_def Let_def abs_ide_sel st
      by (simp add: abs_ide_def st tt m finished_dirty bio_state.defs upd_buf_def)
  next
    case False
    then have d: "b_flags (bufs s i) AND 4 = 0" by (simp add: dirty_def)
    have m: "memdisk t = memdisk s" "procs t = procs s" "disksize t = disksize s" "disk_trace t = disk_trace s"
      "bnext t = bnext s" "bprev t = bprev s" using False by (subst t, simp)+
    show ?thesis
      using h(1,2) b d False unfolding iderw_def Let_def abs_ide_sel st
      by (simp add: abs_ide_def st tt m finished_clean bio_state.defs upd_buf_def)
  qed
  with p show ?thesis by blast
qed

definition same_disk :: "'a ide_state_scheme \<Rightarrow> 'a ide_state_scheme \<Rightarrow> bool" where
  "same_disk s t \<longleftrightarrow> memdisk t = memdisk s \<and> disk_trace t = disk_trace s"

lemma settled_request:
  assumes inv: "ide_inv s q" and run: "ide_enter st i (s\<lparr>cur := p\<rparr>) = Ok t"
    and p: "p < NPROC" "p_chan (procs s p) = None" and i: "i < NBUF"
  shows "settled (snd (ide_wait i t)) = settled s" "same_disk s (snd (ide_wait i t))"
    "waits_for s r j \<Longrightarrow> waits_for (snd (ide_wait i t)) r j"
proof -
  note I = ide_invD [OF inv] and E = ide_enter_effect [OF inv run p i]
  from E(4) obtain nx h d where t: "t = s\<lparr>cur := p, qnext := nx, idequeue := h, drive := d\<rparr>"
    and nx: "queue nx h (q @ [i])"
    and d: "if q = [] then d_irq d = d_irq (drive s) \<and> d_work d = command (bufs s i) else d = drive s" by blast
  have u: "snd (ide_wait i t) = upd_proc p (\<lambda>r. r\<lparr>p_chan := Some (ChIO i), p_state := SLEEPING\<rparr>) t"
    using E(2) t by (simp add: ide_wait_def)
  have "d_irq d = d_irq (drive s)" "d_irq (drive s) \<Longrightarrow> h = idequeue s"
    using d I(1,6) nx by (cases q; auto simp: resting_def)+
  then show "settled (snd (ide_wait i t)) = settled s" unfolding u by (auto simp: settled_def t upd_proc_def fun_eq_iff)
  show "same_disk s (snd (ide_wait i t))" unfolding u by (simp add: same_disk_def t upd_proc_def)
  show "waits_for s r j \<Longrightarrow> waits_for (snd (ide_wait i t)) r j" using p unfolding u by (auto simp: t waits_for_def upd_proc_def)
qed

lemma settled_interrupt:
  assumes inv: "ide_inv s q" and irq: "d_irq (drive s)" and st: "error_free st"
    and run: "ideintr st (s\<lparr>drive := (drive s)\<lparr>d_irq := False\<rparr>\<rparr>) = Ok t"
  shows "settled t = settled s" "same_disk s t" "waits_for t p i = waits_for s p i"
proof -
  note I = ide_invD [OF inv]
  from ideintr_effect [OF inv irq st run] obtain j q' h d where q: "q = j # q'" and d: "\<not> d_irq d"
    and t: "t = wakeup (ChIO j) (upd_buf j (finished (memdisk s)) (s\<lparr>idequeue := h, drive := d\<rparr>))" by blast
  have "idequeue s = Some j" using I(1) q by simp
  with irq d show "settled t = settled s" by (auto simp: settled_def t upd_buf_def wakeup_def fun_eq_iff)
  show "same_disk s t" "waits_for t p i = waits_for s p i" by (simp_all add: same_disk_def t upd_buf_def wakeup_def waits_for_def)
qed


section \<open>Every request is served\<close>

text \<open>The steps that need no process: the drive finishes its command, or its interrupt is handled.\<close>

definition ide_serve :: "'a ide_state_scheme \<Rightarrow> 'a ide_state_scheme \<Rightarrow> bool" where
  "ide_serve s t \<longleftrightarrow> drive_step s = Some t \<or>
     d_irq (drive s) \<and> (\<exists>st. error_free st \<and> ideintr st (s\<lparr>drive := (drive s)\<lparr>d_irq := False\<rparr>\<rparr>) = Ok t)"

definition rounds_left :: "'a ide_state_scheme \<Rightarrow> nat list \<Rightarrow> nat" where
  "rounds_left s q = 2 * length q - (if d_irq (drive s) then 1 else 0)"

lemma serve_step:
  assumes inv: "ide_inv s q" and run: "ide_serve s t"
  shows "\<exists>q'. ide_inv t q' \<and> rounds_left s q = Suc (rounds_left t q') \<and> (\<forall>p i. waits_for t p i = waits_for s p i)"
proof (cases "d_irq (drive s)")
  case False
  then have d: "drive_step s = Some t" using run by (simp add: ide_serve_def)
  from inv_drive(2) [OF inv d] obtain i q' where q: "q = i # q'" "d_irq (drive t)" by blast
  have "procs t = procs s" using d by (auto simp: drive_step_def Let_def split: work.splits)
  with q False inv_drive(1) [OF inv d] show ?thesis by (auto simp: rounds_left_def waits_for_def)
next
  case True
  note I = ide_invD [OF inv]
  have "drive_step s = None"
    using I(6,7) True by (cases q) (auto simp: resting_def working_def drive_step_def split: if_splits)
  with run obtain st where st: "error_free st" "ideintr st (s\<lparr>drive := (drive s)\<lparr>d_irq := False\<rparr>\<rparr>) = Ok t"
    by (auto simp: ide_serve_def)
  from ideintr_effect [OF inv True st] obtain i q' h d where q: "q = i # q'" "\<not> d_irq d"
    and t: "t = wakeup (ChIO i) (upd_buf i (finished (memdisk s)) (s\<lparr>idequeue := h, drive := d\<rparr>))" by blast
  have "\<not> d_irq (drive t)" using q by (simp add: t upd_buf_def wakeup_def)
  moreover have "ide_inv t q'" using inv_interrupt [OF inv True st] q by simp
  ultimately show ?thesis
    using settled_interrupt(3) [OF inv True st] q(1) True by (intro exI [of _ q']) (simp add: rounds_left_def)
qed

lemma serve_enabled:
  assumes inv: "ide_inv s q" and "q \<noteq> []"
  shows "\<exists>t. ide_serve s t"
proof -
  note I = ide_invD [OF inv]
  from assms(2) obtain i q' where q: "q = i # q'" by (cases q) auto
  note w = I(7) [OF q, unfolded working_def]
  show ?thesis
  proof (cases "d_irq (drive s)")
    case False
    with w have "drive_step s \<noteq> None" by (auto simp: drive_step_def command_def Let_def)
    then show ?thesis by (auto simp: ide_serve_def)
  next
    case True
    let ?s = "s\<lparr>drive := (drive s)\<lparr>d_irq := False\<rparr>\<rparr>"
    have iq: "idequeue s = Some i" "queue (qnext s) (qnext s i) q'" using I(1) q by simp_all
    have go: "\<exists>v. idestart (0x40 # st) (Some c) u = Ok v" if "b_blockno (bufs u c) < FSSIZE" for st c and u :: "'a ide_state_scheme"
      using that by (auto simp: idestart_def Let_def)
    have "\<exists>t. ideintr [0x40, 0x40] ?s = Ok t"
    proof (cases "qnext s i")
      case None
      then show ?thesis using iq(1) w True by (auto simp: ideintr_def Let_def insl_def dirty_def upd_buf_def)
    next
      case (Some c)
      with iq(2) I(5) q have "c < NBUF" by (cases q') auto
      then have c: "b_blockno (bufs s c) < FSSIZE" using I(3) by (auto simp: disk_bufs_def)
      show ?thesis
        using iq(1) w True Some c by (auto simp: ideintr_def Let_def insl_def dirty_def upd_buf_def intro!: go)
    qed
    moreover have "error_free [0x40, 0x40]" by (simp add: error_free_def)
    ultimately show ?thesis using True by (auto simp: ide_serve_def)
  qed
qed

lemma serve_steps:
  assumes "ide_inv s q" "(ide_serve ^^ n) s t"
  shows "\<exists>q'. ide_inv t q' \<and> rounds_left s q = n + rounds_left t q' \<and> (\<forall>p i. waits_for t p i = waits_for s p i)"
  using assms(2)
proof (induction n arbitrary: t)
  case 0
  with assms(1) show ?case by auto
next
  case (Suc n)
  then obtain u where u: "(ide_serve ^^ n) s u" "ide_serve u t" by (auto simp: OO_def)
  from Suc.IH [OF u(1)] obtain q1 where q1: "ide_inv u q1" "rounds_left s q = n + rounds_left u q1"
    "\<forall>p i. waits_for u p i = waits_for s p i" by blast
  from serve_step [OF q1(1) u(2)] q1(2,3) show ?case by auto
qed

text \<open>C5. No request is forgotten.  As long as the buffer of a process in \<open>iderw\<close> is not done or the process still
  sleeps, the drive works or its interrupt is pending, and after at most 60 steps of drive and interrupt
  handler - two for each buffer - the buffer is done and the process is awake.\<close>

theorem ide_serves_requests:
  assumes "ide_reach s" and "waits_for s p i" and "(ide_serve ^^ n) s t"
  shows "valid (bufs t i) \<and> \<not> dirty (bufs t i) \<and> p_state (procs t p) \<noteq> SLEEPING \<or> n < 60 \<and> (\<exists>u. ide_serve t u)"
proof -
  obtain q where q: "ide_inv s q" using ide_reach_inv [OF assms(1)] ..
  from serve_steps [OF q assms(3)] obtain q' where q': "ide_inv t q'" "rounds_left s q = n + rounds_left t q'" "waits_for t p i"
    using assms(2) by blast
  have "length q \<le> 30" using card_mono [OF _ ide_invD(5) [OF q]] distinct_card [OF ide_invD(2) [OF q]] by simp
  then have le: "rounds_left s q \<le> 60" by (simp add: rounds_left_def)
  show ?thesis
  proof (cases "q' = []")
    case True
    with waitersD(5) [OF ide_invD(4) [OF q'(1)] q'(3)] show ?thesis by simp
  next
    case False
    then have "0 < rounds_left t q'" by (cases q') (auto simp: rounds_left_def)
    with q'(2) le serve_enabled [OF q'(1) False] show ?thesis by simp
  qed
qed

text \<open>A read that the drive reports as failed: the driver skips the data and marks the buffer valid all the same,
  so \<open>bread\<close> returns whatever the buffer held before.\<close>

lemma failed_read_is_valid:
  assumes "idequeue s = Some i" "qnext s i = None" "b_flags (bufs s i) AND B_DIRTY = 0" "idewait True st = Ok (r, st')" "r < 0"
    and "ideintr st s = Ok t"
  shows "valid (bufs t i) \<and> b_data (bufs t i) = b_data (bufs s i) \<and> b_blockno (bufs t i) = b_blockno (bufs s i)"
  using assms by (auto simp: ideintr_def Let_def upd_buf_def valid_bit bit_simps)

section \<open>An example\<close>

text \<open>Process 0 reads block 2 into buffer 0.\<close>

definition demo_boot :: ide_state where
  "demo_boot = bio_state.extend (kstate.extend
       \<lparr>procs = (\<lambda>p. unused_proc\<lparr>p_pid := int p + 1, p_state := RUNNING\<rparr>), cur = 0\<rparr>
       \<lparr>memdisk = (\<lambda>_. replicate 512 7), disksize = FSSIZE, disk_trace = [],
        bufs = (\<lambda>i. \<lparr>b_flags = 0, b_dev = 1, b_blockno = 2, b_lock = \<lparr>sl_locked = True, sl_pid = 1\<rparr>, b_refcnt = 1,
                      b_data = replicate 512 0\<rparr>),
        bnext = (\<lambda>i. i), bprev = (\<lambda>i. i)\<rparr>)
     \<lparr>idequeue = None, qnext = (\<lambda>_. None), havedisk1 = True,
      drive = \<lparr>d_nsect = 0, d_lba0 = 0, d_lba1 = 0, d_lba2 = 0, d_sel = 0, d_work = Quiet, d_irq = False\<rparr>,
      disk0 = (\<lambda>_. replicate 512 0)\<rparr>"

definition demo_asked :: ide_state where
  "demo_asked = snd (ide_wait 0 (case ide_enter [0x40] 0 (demo_boot\<lparr>cur := 0\<rparr>) of Ok t \<Rightarrow> t | _ \<Rightarrow> demo_boot))"

definition demo_read :: ide_state where
  "demo_read = (case drive_step demo_asked of Some t \<Rightarrow> t | None \<Rightarrow> demo_asked)"

lemma demo_boot_sel:
  "procs demo_boot = (\<lambda>p. unused_proc\<lparr>p_pid := int p + 1, p_state := RUNNING\<rparr>)" "idequeue demo_boot = None"
  "havedisk1 demo_boot" "disksize demo_boot = FSSIZE" "\<not> d_irq (drive demo_boot)" "d_work (drive demo_boot) = Quiet"
  "bufs demo_boot i = \<lparr>b_flags = 0, b_dev = 1, b_blockno = 2, b_lock = \<lparr>sl_locked = True, sl_pid = 1\<rparr>, b_refcnt = 1,
     b_data = replicate 512 0\<rparr>" "qnext demo_boot i = None"
  by (simp_all add: demo_boot_def kstate.defs bio_state.defs)

lemma demo_enter: "\<exists>t. ide_enter [0x40] 0 (demo_boot\<lparr>cur := 0\<rparr>) = Ok t"
  by (simp add: ide_enter_def Let_def append_queue_def idestart_def demo_boot_sel mypid_def myproc_def holdingsleep_def)

lemma demo_reach: "ide_reach demo_asked" "waits_for demo_asked 0 0" "d_work (drive demo_asked) = Reading True 2"
  "\<not> d_irq (drive demo_asked)"
proof -
  obtain t where t: "ide_enter [0x40] 0 (demo_boot\<lparr>cur := 0\<rparr>) = Ok t" using demo_enter by blast
  then have a: "demo_asked = snd (ide_wait 0 t)" by (simp add: demo_asked_def)
  have b: "ide_boot demo_boot"
    by (simp add: ide_boot_def demo_boot_sel waits_for_def unused_proc_def)
  then obtain q where q: "ide_inv demo_boot q" using ide_reach_inv ide_reach.boot by blast
  then have "q = []" using ide_invD(1) [OF q] by (cases q) (auto simp: demo_boot_sel)
  note q = q [unfolded this]
  have pr: "(0 :: nat) < NPROC" "p_chan (procs demo_boot 0) = None" "(0 :: nat) < NBUF"
    "\<forall>r<NPROC. r \<noteq> 0 \<longrightarrow> p_pid (procs demo_boot r) \<noteq> p_pid (procs demo_boot 0)"
    by (simp_all add: demo_boot_sel unused_proc_def)
  show "ide_reach demo_asked"
    unfolding a by (rule ide_reach.step [OF ide_reach.boot [OF b] ide_step.request [OF pr(1,3,2,4) t]])
  from ide_enter_effect(4) [OF q t pr(1-3)] obtain nx h d where
    e: "t = demo_boot\<lparr>cur := 0, qnext := nx, idequeue := h, drive := d\<rparr>" "\<not> d_irq d" "d_work d = Reading True 2"
    by (auto simp: demo_boot_sel command_def dirty_def)
  then show "waits_for demo_asked 0 0" "d_work (drive demo_asked) = Reading True 2" "\<not> d_irq (drive demo_asked)"
    unfolding a by (simp_all add: ide_wait_def waits_for_def upd_proc_def demo_boot_sel)
qed

lemma demo_serve: "drive_step demo_asked = Some demo_read"
  using demo_reach(3) by (simp add: demo_read_def drive_step_def)


theorem ide_serves_requests_witness:
  "valid (bufs demo_read 0) \<and> \<not> dirty (bufs demo_read 0) \<and> p_state (procs demo_read 0) \<noteq> SLEEPING \<or>
   (1 :: nat) < 60 \<and> (\<exists>u. ide_serve demo_read u)"
  by (rule ide_serves_requests [OF demo_reach(1,2), of 1]) (simp add: ide_serve_def demo_serve eq_OO)

end
