(* ===== verification/Malloc.thy ===== *)
theory Malloc imports Prelude begin

text \<open>
  The user-level allocator (\<open>umalloc.c\<close>).  The free blocks form a ring of headers in the process's own
  memory, in the order of their addresses, with the empty block \<open>base\<close> in it.  A header at address \<open>a\<close> is the
  two words \<open>ptr\<close> at \<open>a\<close> and \<open>size\<close> at \<open>a + 4\<close>; a block of size \<open>n\<close> takes \<open>8 * n\<close> bytes, its header included.
  The kernel enters through the interface \<open>more_memory\<close>: what \<open>growproc\<close> does to the size of the process.
\<close>

section \<open>State and operations\<close>

text \<open>\<open>base\<close> is the address of the static header, \<open>kern\<close> the state of the kernel; \<open>mem\<close> is read by words.\<close>

record 'k heap =
  mem :: "u32 \<Rightarrow> u32"
  base :: u32
  freep :: u32
  kern :: 'k

text \<open>The fuel bounds the number of steps around the ring.\<close>

primrec free_loop :: "nat \<Rightarrow> (u32 \<Rightarrow> u32) \<Rightarrow> u32 \<Rightarrow> u32 \<Rightarrow> u32 res" where
  "free_loop 0 m bp p = Undefined ''out of fuel''"
| "free_loop (Suc n) m bp p =
     (if bp > p \<and> bp < m p then Ok p
      else if p \<ge> m p \<and> (bp > p \<or> bp < m p) then Ok p
      else free_loop n m bp (m p))"

text \<open>Joining the block with the next one of the ring, and the block before it with the block.\<close>

definition join_next :: "u32 \<Rightarrow> u32 \<Rightarrow> (u32 \<Rightarrow> u32) \<Rightarrow> u32 \<Rightarrow> u32" where
  "join_next bp p m =
     (if bp + 8 * m (bp + 4) = m p
      then let m = m(bp + 4 := m (bp + 4) + m (m p + 4)) in m(bp := m (m p))
      else m(bp := m p))"

definition join_prev :: "u32 \<Rightarrow> u32 \<Rightarrow> (u32 \<Rightarrow> u32) \<Rightarrow> u32 \<Rightarrow> u32" where
  "join_prev p bp m =
     (if p + 8 * m (p + 4) = bp
      then let m = m(p + 4 := m (p + 4) + m (bp + 4)) in m(p := m bp)
      else m(p := bp))"

definition free_join :: "u32 \<Rightarrow> u32 \<Rightarrow> (u32 \<Rightarrow> u32) \<Rightarrow> u32 \<Rightarrow> u32" where
  "free_join p bp m = join_prev p bp (join_next bp p m)"

definition ufree :: "nat \<Rightarrow> u32 \<Rightarrow> 'k heap \<Rightarrow> 'k heap res" where
  "ufree fuel ap h =
     (let bp = ap - 8 in
      rbind (free_loop fuel (mem h) bp (freep h)) (\<lambda>p.
      Ok (h\<lparr>mem := free_join p bp (mem h), freep := p\<rparr>)))"

text \<open>The system call \<open>sbrk\<close> over \<open>growproc\<close> and the size of the process; the result \<open>-1\<close> is failure.\<close>

definition sbrk :: "(int \<Rightarrow> 'k \<Rightarrow> (int \<times> 'k) res) \<Rightarrow> ('k \<Rightarrow> u32) \<Rightarrow> u32 \<Rightarrow> 'k \<Rightarrow> (u32 \<times> 'k) res" where
  "sbrk grow sz n k =
     (let addr = sz k in
      rbind (grow (sint n) k) (\<lambda>(r, k). if r < 0 then Ok (-1, k) else Ok (addr, k)))"

definition morecore :: "(int \<Rightarrow> 'k \<Rightarrow> (int \<times> 'k) res) \<Rightarrow> ('k \<Rightarrow> u32) \<Rightarrow> nat \<Rightarrow> u32 \<Rightarrow> 'k heap \<Rightarrow> (u32 \<times> 'k heap) res" where
  "morecore grow sz fuel nu h =
     (let nu = (if nu < 4096 then 4096 else nu) in
      rbind (sbrk grow sz (nu * 8) (kern h)) (\<lambda>(p, k).
      let h = h\<lparr>kern := k\<rparr> in
      if p = -1 then Ok (0, h)
      else
        rbind (ufree fuel (p + 8) (h\<lparr>mem := (mem h)(p + 4 := nu)\<rparr>)) (\<lambda>h. Ok (freep h, h))))"

definition take_block :: "u32 \<Rightarrow> u32 \<Rightarrow> u32 \<Rightarrow> 'k heap \<Rightarrow> u32 \<times> 'k heap" where
  "take_block nunits prevp p h =
     (let m = mem h in
      if m (p + 4) = nunits then (p + 8, h\<lparr>mem := m(prevp := m p), freep := prevp\<rparr>)
      else
        let m = m(p + 4 := m (p + 4) - nunits);
            p = p + 8 * m (p + 4);
            m = m(p + 4 := nunits)
        in (p + 8, h\<lparr>mem := m, freep := prevp\<rparr>))"

primrec malloc_loop :: "(int \<Rightarrow> 'k \<Rightarrow> (int \<times> 'k) res) \<Rightarrow> ('k \<Rightarrow> u32) \<Rightarrow> nat \<Rightarrow> u32 \<Rightarrow> u32 \<Rightarrow> u32 \<Rightarrow> 'k heap \<Rightarrow>
    (u32 \<times> 'k heap) res" where
  "malloc_loop grow sz 0 nunits prevp p h = Undefined ''out of fuel''"
| "malloc_loop grow sz (Suc n) nunits prevp p h =
     (if mem h (p + 4) \<ge> nunits then Ok (take_block nunits prevp p h)
      else if p = freep h then
        rbind (morecore grow sz n nunits h) (\<lambda>(p, h).
        if p = 0 then Ok (0, h) else malloc_loop grow sz n nunits p (mem h p) h)
      else malloc_loop grow sz n nunits p (mem h p) h)"

definition units :: "u32 \<Rightarrow> u32" where
  "units nbytes = (nbytes + 8 - 1) div 8 + 1"

definition malloc :: "(int \<Rightarrow> 'k \<Rightarrow> (int \<times> 'k) res) \<Rightarrow> ('k \<Rightarrow> u32) \<Rightarrow> nat \<Rightarrow> u32 \<Rightarrow> 'k heap \<Rightarrow> (u32 \<times> 'k heap) res" where
  "malloc grow sz fuel nbytes h =
     (let nunits = units nbytes;
          h = (if freep h = 0
               then h\<lparr>mem := (mem h)(base h := base h, base h + 4 := 0), freep := base h\<rparr>
               else h);
          prevp = freep h
      in malloc_loop grow sz fuel nunits prevp (mem h prevp) h)"

section \<open>Blocks and the ring\<close>

definition blk_end :: "(u32 \<Rightarrow> u32) \<Rightarrow> u32 \<Rightarrow> nat" where
  "blk_end m a = unat a + 8 * unat (m (a + 4))"

definition blk :: "(u32 \<Rightarrow> u32) \<Rightarrow> u32 \<Rightarrow> nat set" where
  "blk m a = {unat a ..< blk_end m a}"

text \<open>\<open>linked m as e\<close>: the pointers lead along \<open>as\<close> and from its last header to \<open>e\<close>.\<close>

primrec linked :: "(u32 \<Rightarrow> u32) \<Rightarrow> u32 list \<Rightarrow> u32 \<Rightarrow> bool" where
  "linked m [] e \<longleftrightarrow> True"
| "linked m (a # as) e \<longleftrightarrow> m a = hd (as @ [e]) \<and> linked m as e"

text \<open>
  The free blocks \<open>as\<close> behind \<open>base\<close>: in order, with a gap between any two (adjacent blocks have been
  joined), not empty, and below the size \<open>z\<close> of the process.
\<close>

definition ring :: "(u32 \<Rightarrow> u32) \<Rightarrow> u32 \<Rightarrow> nat \<Rightarrow> u32 list \<Rightarrow> bool" where
  "ring m b z as \<longleftrightarrow> linked m (b # as) b \<and> sorted_wrt (\<lambda>x y. blk_end m x < unat y) (b # as) \<and> m (b + 4) = 0 \<and>
     b \<noteq> 0 \<and> unat b + 8 \<le> z \<and> z \<le> 2 ^ 31 \<and>
     (\<forall>a\<in>set as. unat b + 8 \<le> unat a \<and> 0 < unat (m (a + 4)) \<and> blk_end m a \<le> z)"

definition free_bytes :: "(u32 \<Rightarrow> u32) \<Rightarrow> u32 list \<Rightarrow> nat set" where
  "free_bytes m as = (\<Union>a\<in>set as. blk m a)"

section \<open>Addresses\<close>

lemma unat_plus: "unat a + n < 2 ^ 32 \<Longrightarrow> unat (a + word_of_nat n :: u32) = unat a + n"
  by (simp add: unat_word_ariths unat_of_nat)

lemma unat_add8: "unat a + 8 < 2 ^ 32 \<Longrightarrow> unat (a + 8 :: u32) = unat a + 8"
  using unat_plus [of a 8] by simp

lemma unat_add4: "unat a + 4 < 2 ^ 32 \<Longrightarrow> unat (a + 4 :: u32) = unat a + 4"
  using unat_plus [of a 4] by simp

lemma unat_blk_end:
  assumes "blk_end m a \<le> 2 ^ 31"
  shows "unat (a + 8 * m (a + 4)) = blk_end m a"
proof -
  have "a + 8 * m (a + 4) = a + word_of_nat (8 * unat (m (a + 4)))" by simp
  then show ?thesis using unat_plus [of a "8 * unat (m (a + 4))"] assms by (simp add: blk_end_def)
qed

text \<open>Headers that do not overlap have four different words.\<close>

definition apart :: "u32 \<Rightarrow> u32 \<Rightarrow> bool" where
  "apart a b \<longleftrightarrow> (unat a + 8 \<le> unat b \<or> unat b + 8 \<le> unat a) \<and> unat a + 8 \<le> 2 ^ 31 \<and> unat b + 8 \<le> 2 ^ 31"

lemma apart_words:
  assumes "apart a b"
  shows "a \<noteq> b" "b \<noteq> a" "a + 4 \<noteq> b" "b + 4 \<noteq> a" "a \<noteq> b + 4" "b \<noteq> a + 4" "a + 4 \<noteq> b + 4" "b + 4 \<noteq> a + 4"
proof -
  have 1: "unat (a + 4) = unat a + 4" "unat (b + 4) = unat b + 4"
    using assms by (auto simp: apart_def intro!: unat_add4)
  have 2: "unat a \<noteq> unat b" "unat (a + 4) \<noteq> unat b" "unat (b + 4) \<noteq> unat a"
    using assms by (auto simp: apart_def 1)
  then show "a \<noteq> b" "b \<noteq> a" "a + 4 \<noteq> b" "b + 4 \<noteq> a" "a \<noteq> b + 4" "b \<noteq> a + 4" "a + 4 \<noteq> b + 4" "b + 4 \<noteq> a + 4"
    by auto
qed

lemma word_neq_add4 [simp]: "(a :: u32) \<noteq> a + 4" "(a :: u32) + 4 \<noteq> a"
  by simp_all

section \<open>Lists of headers\<close>

lemma linked_append: "linked m (xs @ ys) e \<longleftrightarrow> linked m xs (hd (ys @ [e])) \<and> linked m ys e"
  by (induction xs) (auto simp: hd_append)

lemma linked_cong: "(\<And>a. a \<in> set as \<Longrightarrow> m' a = m a) \<Longrightarrow> linked m' as e = linked m as e"
  by (induction as) auto

lemma linked_rotate:
  assumes "linked m (b # as) b" and "b # as = us @ f # vs"
  shows "linked m (f # vs @ us) f"
proof -
  have "hd (us @ [f]) = b" using assms(2) by (cases us) auto
  moreover have "linked m us f" "linked m (f # vs) b"
    using assms(1) unfolding assms(2) linked_append by auto
  ultimately show ?thesis using linked_append [of m "f # vs" us f] by simp
qed

lemma linked_next:
  assumes "linked m (b # as) b" and "b # as = us @ p # vs"
  shows "m p = hd (vs @ [b])"
  using assms(1) unfolding assms(2) linked_append by simp

definition stop :: "(u32 \<Rightarrow> u32) \<Rightarrow> u32 \<Rightarrow> u32 \<Rightarrow> bool" where
  "stop m bp p \<longleftrightarrow> bp > p \<and> bp < m p \<or> p \<ge> m p \<and> (bp > p \<or> bp < m p)"

lemma free_loop_finds:
  assumes "linked m xs e" and "p \<in> set xs" and "stop m bp p" and "length xs \<le> n"
  shows "\<exists>q\<in>set xs. stop m bp q \<and> free_loop n m bp (hd xs) = Ok q"
  using assms
proof (induction xs arbitrary: n)
  case (Cons a as)
  then obtain k where n: "n = Suc k" by (cases n) auto
  show ?case
  proof (cases "stop m bp a")
    case True
    then show ?thesis by (auto simp: n stop_def)
  next
    case False
    with Cons.prems have p: "p \<in> set as" by auto
    then have "hd as = m a" using Cons.prems(1) by (cases as) auto
    moreover have "free_loop n m bp a = free_loop k m bp (m a)" using False by (auto simp: n stop_def)
    ultimately show ?thesis using Cons.IH [of k] Cons.prems p n by auto
  qed
qed simp

lemma split_below:
  fixes f :: "'a \<Rightarrow> nat"
  assumes "sorted_wrt (\<lambda>x y. f x < f y) L" and "L \<noteq> []" and "f (hd L) < k" and "\<forall>x\<in>set L. f x \<noteq> k"
  shows "\<exists>us p vs. L = us @ p # vs \<and> f p < k \<and> (\<forall>q\<in>set vs. k < f q)"
  using assms
proof (induction L)
  case (Cons a L)
  show ?case
  proof (cases "L = [] \<or> k < f (hd L)")
    case True
    then have "\<forall>q\<in>set L. k < f q" using Cons.prems(1) by (cases L) auto
    then show ?thesis using Cons.prems(3) by (intro exI [of _ "[]"]) auto
  next
    case False
    then have "f (hd L) < k" using Cons.prems(4) by (cases L) auto
    then obtain us p vs where "L = us @ p # vs" "f p < k" "\<forall>q\<in>set vs. k < f q"
      using Cons False by auto
    then show ?thesis by (intro exI [of _ "a # us"]) auto
  qed
qed simp

section \<open>Freeing\<close>

lemma ringD:
  assumes "ring m b z as"
  shows "linked m (b # as) b" "sorted_wrt (\<lambda>x y. blk_end m x < unat y) (b # as)" "m (b + 4) = 0" "b \<noteq> 0"
    "unat b + 8 \<le> z" "z \<le> 2 ^ 31" "a \<in> set as \<Longrightarrow> unat b + 8 \<le> unat a" "a \<in> set as \<Longrightarrow> 0 < unat (m (a + 4))"
    "a \<in> set as \<Longrightarrow> blk_end m a \<le> z" "blk_end m b = unat b"
  using assms by (auto simp: ring_def blk_end_def)

lemma ring_cong:
  assumes r: "ring m b z as" and same: "\<And>x. x \<in> set (b # as) \<Longrightarrow> m' x = m x \<and> m' (x + 4) = m (x + 4)"
    and z: "z \<le> z'" "z' \<le> 2 ^ 31"
  shows "ring m' b z' as" "free_bytes m' as = free_bytes m as"
proof -
  have e: "blk_end m' x = blk_end m x" "blk m' x = blk m x" if "x \<in> set (b # as)" for x
    using same [OF that] by (simp_all add: blk_def blk_end_def)
  have "linked m' (b # as) b"
    using ringD(1) [OF r] same by (subst linked_cong [of _ m' m]) blast+
  moreover have "sorted_wrt (\<lambda>x y. blk_end m' x < unat y) (b # as)"
    by (rule sorted_wrt_mono_rel [OF _ ringD(2) [OF r]]) (simp only: e)
  moreover have "unat b + 8 \<le> unat a \<and> 0 < unat (m' (a + 4)) \<and> blk_end m' a \<le> z'" if "a \<in> set as" for a
    using that e(1) [of a] same [of a] ringD(7-9) [OF r that] z by simp
  moreover have "m' (b + 4) = 0" using same [of b] ringD(3) [OF r] by simp
  ultimately show "ring m' b z' as" using ringD(4,5) [OF r] z by (simp add: ring_def)
  show "free_bytes m' as = free_bytes m as" using e(2) by (auto simp: free_bytes_def)
qed

lemma blk_base: "ring m b z as \<Longrightarrow> blk m b = {}"
  using ringD(10) by (auto simp: blk_def)

lemma free_bytes_all: "ring m b z as \<Longrightarrow> free_bytes m as = (\<Union>a\<in>set (b # as). blk m a)"
  by (simp add: free_bytes_def blk_base)

lemma blk_disjoint:
  assumes "blk m a \<inter> blk m c = {}" and "0 < unat (m (a + 4))" and "0 < unat (m (c + 4))"
  shows "blk_end m a \<le> unat c \<or> blk_end m c \<le> unat a"
proof (rule ccontr)
  assume "\<not> ?thesis"
  then have "max (unat a) (unat c) \<in> blk m a \<inter> blk m c" using assms(2,3) by (auto simp: blk_def blk_end_def)
  with assms(1) show False by blast
qed

lemma ring_sorted: "ring m b z as \<Longrightarrow> sorted_wrt (\<lambda>x y. unat x < unat y) (b # as)"
  using ringD(2) by (rule sorted_wrt_mono_rel [rotated]) (auto simp: blk_end_def)

lemma ring_apart:
  assumes r: "ring m b z as" and "b # as = us @ p # vs" and "q \<in> set us \<union> set vs"
  shows "apart p q"
proof -
  have size: "unat x + 8 \<le> 2 ^ 31 \<and> (x = b \<or> unat x + 8 \<le> blk_end m x)" if "x \<in> set (b # as)" for x
    using that ringD(5,6) [OF r] ringD(8,9) [OF r, of x] by (auto simp: blk_end_def)
  have sorted: "x \<in> set us \<Longrightarrow> blk_end m x < unat p" "y \<in> set vs \<Longrightarrow> blk_end m p < unat y" for x y
    using ringD(2) [OF r] unfolding assms(2) by (auto simp: sorted_wrt_append)
  have L: "set (b # as) = set (us @ p # vs)" by (simp only: assms(2))
  have p: "p \<in> set (b # as)" and q: "q \<in> set (b # as)" unfolding L using assms(3) by auto
  have low: "unat b + 8 \<le> unat x" if "x \<in> set (b # as)" "x \<noteq> b" for x
    using that ringD(7) [OF r, of x] by auto
  have "p \<noteq> q" using sorted [of q] assms(3) by (auto simp: blk_end_def)
  then have "p \<noteq> b \<or> q \<noteq> b" by auto
  then show ?thesis
    using size [OF p] size [OF q] low [OF p] low [OF q] sorted [of q] assms(3) by (auto simp: apart_def)
qed

lemma join_next_words:
  assumes "bp + 8 * m (bp + 4) = m p \<Longrightarrow> apart (m p) bp" and "apart p bp"
  shows "join_next bp p m bp = (if bp + 8 * m (bp + 4) = m p then m (m p) else m p)"
    "join_next bp p m (bp + 4) = m (bp + 4) + (if bp + 8 * m (bp + 4) = m p then m (m p + 4) else 0)"
    "w \<notin> {bp, bp + 4} \<Longrightarrow> join_next bp p m w = m w"
proof -
  show "join_next bp p m bp = (if bp + 8 * m (bp + 4) = m p then m (m p) else m p)"
    "join_next bp p m (bp + 4) = m (bp + 4) + (if bp + 8 * m (bp + 4) = m p then m (m p + 4) else 0)"
    using apart_words [OF assms(1)] apart_words [OF assms(2)]
    by (cases "bp + 8 * m (bp + 4) = m p"; simp add: join_next_def Let_def)+
qed (simp add: join_next_def Let_def)

lemma join_prev_words:
  assumes "apart p bp"
  shows "join_prev p bp m p = (if p + 8 * m (p + 4) = bp then m bp else bp)"
    "join_prev p bp m (p + 4) = m (p + 4) + (if p + 8 * m (p + 4) = bp then m (bp + 4) else 0)"
    "w \<notin> {p, p + 4} \<Longrightarrow> join_prev p bp m w = m w"
proof -
  show "join_prev p bp m p = (if p + 8 * m (p + 4) = bp then m bp else bp)"
    "join_prev p bp m (p + 4) = m (p + 4) + (if p + 8 * m (p + 4) = bp then m (bp + 4) else 0)"
    using apart_words [OF assms] by (cases "p + 8 * m (p + 4) = bp"; simp add: join_prev_def Let_def)+
qed (simp add: join_prev_def Let_def)

lemma free_join_words:
  fixes m p bp
  assumes "apart p bp" and "bp + 8 * m (bp + 4) = m p \<Longrightarrow> apart (m p) bp"
  defines "S \<equiv> m (bp + 4) + (if bp + 8 * m (bp + 4) = m p then m (m p + 4) else 0)"
    and "N \<equiv> if bp + 8 * m (bp + 4) = m p then m (m p) else m p"
    and "jl \<equiv> p + 8 * m (p + 4) = bp"
  shows "free_join p bp m p = (if jl then N else bp)"
    "free_join p bp m (p + 4) = m (p + 4) + (if jl then S else 0)"
    "free_join p bp m bp = N" "free_join p bp m (bp + 4) = S"
    "w \<notin> {p, p + 4, bp, bp + 4} \<Longrightarrow> free_join p bp m w = m w"
  using apart_words [OF assms(1)] join_next_words [of bp m p, OF assms(2,1)]
  by (simp_all add: free_join_def join_prev_words [OF assms(1)] S_def N_def jl_def)

lemma ring_stop:
  assumes r: "ring m b z as" and "stop m bp p" and "p \<in> set (b # as)" and bp: "unat b < unat bp"
  shows "\<exists>us vs. b # as = us @ p # vs \<and> unat p < unat bp \<and> (\<forall>q\<in>set vs. unat bp < unat q)"
proof -
  obtain us vs where L: "b # as = us @ p # vs" using split_list [OF assms(3)] by blast
  have s: "sorted_wrt (\<lambda>x y. unat x < unat y) (us @ p # vs)" using ring_sorted [OF r] L by simp
  have n: "m p = hd (vs @ [b])" by (rule linked_next [OF ringD(1) [OF r] L])
  have "unat b \<le> unat p" using s L by (cases us) auto
  have "unat p < unat bp \<and> (\<forall>q\<in>set vs. unat bp < unat q)"
  proof (cases vs)
    case Nil
    then show ?thesis using assms(2) bp n \<open>unat b \<le> unat p\<close> by (simp add: stop_def word_less_nat_alt)
  next
    case (Cons q ws)
    have "unat p < unat q" "\<forall>x\<in>set ws. unat q < unat x" using s by (simp_all add: Cons sorted_wrt_append)
    moreover have "unat p < unat bp \<and> unat bp < unat q"
      using assms(2) n \<open>unat p < unat q\<close> by (simp add: stop_def Cons word_less_nat_alt word_le_nat_alt)
    ultimately show ?thesis by (auto simp: Cons)
  qed
  with L show ?thesis by blast
qed

lemma ring_split:
  assumes r: "ring m b z as" and bp: "unat b < unat bp" "bp \<notin> set as"
  shows "\<exists>p\<in>set (b # as). stop m bp p"
proof -
  have ne: "\<forall>x\<in>set (b # as). unat x \<noteq> unat bp" using bp by (auto simp: word_unat_eq_iff [symmetric])
  obtain us p vs where L: "b # as = us @ p # vs" "unat p < unat bp" "\<forall>q\<in>set vs. unat bp < unat q"
    using split_below [OF ring_sorted [OF r] _ _ ne] bp by auto
  have n: "m p = hd (vs @ [b])" by (rule linked_next [OF ringD(1) [OF r] L(1)])
  have s: "sorted_wrt (\<lambda>x y. unat x < unat y) (us @ p # vs)" using ring_sorted [OF r] L by simp
  have "unat b \<le> unat p" using s L(1) by (cases us) auto
  then have "stop m bp p"
    using L(2,3) n by (cases vs) (auto simp: stop_def word_less_nat_alt word_le_nat_alt)
  then show ?thesis unfolding L(1) by auto
qed

text \<open>The block \<open>bp\<close> fits between the neighbours \<open>p\<close> and the first of \<open>vs\<close>.\<close>

definition fits :: "(u32 \<Rightarrow> u32) \<Rightarrow> u32 \<Rightarrow> nat \<Rightarrow> u32 list \<Rightarrow> u32 list \<Rightarrow> u32 \<Rightarrow> u32 list \<Rightarrow> u32 \<Rightarrow> bool" where
  "fits m b z as us p vs bp \<longleftrightarrow> ring m b z as \<and> b # as = us @ p # vs \<and> unat b + 8 \<le> unat bp \<and>
     0 < unat (m (bp + 4)) \<and> blk_end m p \<le> unat bp \<and> blk_end m bp \<le> z \<and> (\<forall>q\<in>set vs. blk_end m bp \<le> unat q)"

lemma fitsI:
  assumes r: "ring m b z as" and L: "b # as = us @ p # vs" and p: "unat p < unat bp"
    and vs: "\<forall>q\<in>set vs. unat bp < unat q" and bp: "unat b + 8 \<le> unat bp" "0 < unat (m (bp + 4))" "blk_end m bp \<le> z"
    and free: "blk m bp \<inter> free_bytes m as = {}"
  shows "fits m b z as us p vs bp"
proof -
  have dis: "blk_end m bp \<le> unat q \<or> blk_end m q \<le> unat bp" if "q \<in> set as" for q
    using that free by (intro blk_disjoint bp(2) ringD(8) [OF r]) (auto simp: free_bytes_def)
  have L': "set (b # as) = set (us @ p # vs)" by (simp only: L)
  have "blk_end m p \<le> unat bp"
  proof (cases "p = b")
    case True
    then show ?thesis using ringD(10) [OF r] bp by simp
  next
    case False
    then have "p \<in> set as" using L' by auto
    from dis [OF this] p show ?thesis by (auto simp: blk_end_def)
  qed
  moreover have "blk_end m bp \<le> unat q" if "q \<in> set vs" for q
  proof -
    have "unat bp < unat q" using that vs by blast
    moreover have "q \<in> set (b # as)" unfolding L' using that by simp
    moreover have "q \<noteq> b" using bp \<open>unat bp < unat q\<close> by auto
    ultimately show ?thesis using dis [of q] by (auto simp: blk_end_def)
  qed
  ultimately show ?thesis using r L bp by (simp add: fits_def)
qed

lemma join_right:
  assumes f: "fits m b z as us p vs bp"
  defines "J \<equiv> bp + 8 * m (bp + 4) = m p"
  defines "N \<equiv> if J then m (m p) else m p"
    and "E \<equiv> unat bp + 8 * unat (m (bp + 4) + (if J then m (m p + 4) else 0))"
  shows "\<exists>vs'. N = hd (vs' @ [b]) \<and> set vs' \<subseteq> set vs \<and> length vs' \<le> length vs \<and> linked m vs' b \<and>
    sorted_wrt (\<lambda>x y. blk_end m x < unat y) vs' \<and> E \<le> z \<and> blk_end m bp \<le> E \<and> (\<forall>q\<in>set vs'. E < unat q) \<and>
    (\<Union>a\<in>set vs. blk m a) \<union> blk m bp = (\<Union>a\<in>set vs'. blk m a) \<union> {unat bp..<E} \<and> (J \<longrightarrow> vs \<noteq> [])"
proof -
  from f have r: "ring m b z as" and L: "b # as = us @ p # vs" and bp: "unat b + 8 \<le> unat bp" "blk_end m bp \<le> z"
    and vs: "\<forall>q\<in>set vs. blk_end m bp \<le> unat q"
    by (auto simp: fits_def)
  have n: "m p = hd (vs @ [b])" by (rule linked_next [OF ringD(1) [OF r] L])
  have e: "unat (bp + 8 * m (bp + 4)) = blk_end m bp" using unat_blk_end bp ringD(6) [OF r] by simp
  then have J: "J \<longleftrightarrow> blk_end m bp = unat (m p)" by (simp add: J_def word_unat_eq_iff)
  have lv: "linked m vs b" "sorted_wrt (\<lambda>x y. blk_end m x < unat y) vs"
    using ringD(1,2) [OF r] unfolding L by (auto simp: linked_append sorted_wrt_append)
  show ?thesis
  proof (cases "J \<and> vs \<noteq> []")
    case True
    then obtain q ws where vs': "vs = q # ws" by (cases vs) auto
    have q: "m p = q" "unat q = blk_end m bp" using True n J by (auto simp: vs')
    have "q \<in> set (b # as)" unfolding L vs' by simp
    moreover have "q \<noteq> b" using q bp by (auto simp: blk_end_def)
    ultimately have qas: "q \<in> set as" by simp
    have "blk_end m q = unat bp + 8 * (unat (m (bp + 4)) + unat (m (q + 4)))" using q by (simp add: blk_end_def)
    moreover from this have "unat (m (bp + 4) + m (q + 4)) = unat (m (bp + 4)) + unat (m (q + 4))"
      using ringD(6) [OF r] ringD(9) [OF r qas] by (intro unat_add_lem [THEN iffD1]) simp
    ultimately have E: "E = blk_end m q" using True q by (simp add: E_def)
    have "blk_end m bp \<le> E" unfolding E using q by (simp add: blk_end_def [of m q])
    moreover have "blk m q \<union> blk m bp = {unat bp..<E}"
      unfolding E blk_def using q by (auto simp: blk_end_def)
    ultimately show ?thesis
      using lv True ringD(9) [OF r qas] q
      by (intro exI [of _ ws]) (auto simp: vs' N_def E)
  next
    case False
    have "\<not> J"
    proof
      assume "J"
      with False have "vs = []" by simp
      with \<open>J\<close> J n bp show False by (auto simp: blk_end_def)
    qed
    then have E: "E = blk_end m bp" "N = m p" by (simp_all add: E_def N_def blk_end_def)
    have "E < unat q" if "q \<in> set vs" for q
    proof -
      from that obtain v ws where vs': "vs = v # ws" by (cases vs) auto
      have "E < unat v" using vs J \<open>\<not> J\<close> n by (auto simp: E vs' le_less)
      moreover have "unat v \<le> unat q" using that ring_sorted [OF r] unfolding L vs' by (auto simp: sorted_wrt_append)
      ultimately show ?thesis by simp
    qed
    then show ?thesis
      using lv n bp \<open>\<not> J\<close> by (intro exI [of _ vs]) (auto simp: E blk_def [of m bp])
  qed
qed

lemma fits_apart:
  assumes f: "fits m b z as us p vs bp" and "a \<in> set us \<union> {p} \<union> set vs"
  shows "apart a bp"
proof -
  from f have r: "ring m b z as" and L: "b # as = us @ p # vs" by (auto simp: fits_def)
  have bp: "unat bp + 8 \<le> 2 ^ 31"
    using f ringD(6) [OF r] by (auto simp: fits_def blk_end_def)
  have a: "a \<in> set (b # as)" unfolding L using assms(2) by auto
  then have a8: "unat a + 8 \<le> 2 ^ 31" "a \<noteq> b \<longrightarrow> unat a + 8 \<le> blk_end m a"
    using ringD(5,6) [OF r] ringD(8,9) [OF r, of a] by (auto simp: blk_end_def)
  have s: "blk_end m a < unat p" if "a \<in> set us"
    using that ringD(2) [OF r] unfolding L by (auto simp: sorted_wrt_append)
  have "unat p \<le> blk_end m p" by (simp add: blk_end_def)
  then have "unat a + 8 \<le> unat bp \<or> unat bp + 8 \<le> unat a"
    using f assms(2) a8 s by (cases "a = b") (auto simp: fits_def blk_end_def)
  with a8 bp show ?thesis by (simp add: apart_def)
qed

lemma join_left:
  assumes f: "fits m b z as us p vs bp" and N: "N = hd (vs' @ [b])" and vs: "set vs' \<subseteq> set vs" "linked m vs' b"
    "sorted_wrt (\<lambda>x y. blk_end m x < unat y) vs'" "\<forall>q\<in>set vs'. E < unat q" "E \<le> z" "blk_end m bp \<le> E"
    and E: "E = unat bp + 8 * unat S"
    and w: "m' p = (if jl then N else bp)" "m' (p + 4) = m (p + 4) + (if jl then S else 0)" "m' bp = N" "m' (bp + 4) = S"
      "\<And>x. x \<notin> {p, p + 4, bp, bp + 4} \<Longrightarrow> m' x = m x"
    and jl: "jl \<longleftrightarrow> blk_end m p = unat bp"
  shows "ring m' b z (tl (us @ p # (if jl then [] else [bp]) @ vs')) \<and>
    (\<forall>a\<in>set us \<union> set vs'. blk m' a = blk m a) \<and> blk m' bp = {unat bp..<E} \<and>
    blk m' p = blk m p \<union> (if jl then {unat bp..<E} else {})"
proof -
  from f have r: "ring m b z as" and L: "b # as = us @ p # vs" and bp: "unat b + 8 \<le> unat bp" "0 < unat (m (bp + 4))"
    and pe: "blk_end m p \<le> unat bp"
    by (auto simp: fits_def)
  have same: "m' a = m a \<and> m' (a + 4) = m (a + 4)" if "a \<in> set us \<union> set vs'" for a
    using that vs(1) apart_words [OF ring_apart [OF r L, of a]] apart_words [OF fits_apart [OF f, of a]]
    by (intro conjI w) auto
  have se: "blk_end m' a = blk_end m a" if "a \<in> set us \<union> set vs'" for a using same [OF that] by (simp add: blk_end_def)
  have be: "blk_end m' bp = E" by (simp add: blk_end_def w E)
  have pS: "blk_end m' p = (if jl then E else blk_end m p)"
  proof (cases jl)
    case True
    have z: "unat (m (p + 4)) + unat S < 2 ^ 32"
      using vs(5) E True jl ringD(6) [OF r] by (simp add: blk_end_def)
    show ?thesis using True jl by (simp add: blk_end_def w E unat_plus_if' z [simplified])
  qed (simp add: blk_end_def w)
  have pb: "jl \<Longrightarrow> p \<noteq> b" using jl bp ringD(10) [OF r] by auto
  have lin: "linked m' (us @ p # (if jl then [] else [bp]) @ vs') b"
  proof -
    have "linked m us p" using ringD(1) [OF r] unfolding L by (simp add: linked_append)
    then have "linked m' us p" using same by (subst linked_cong [of _ m' m]) auto
    moreover have "linked m' vs' b" using vs(2) same by (subst linked_cong [of _ m' m]) auto
    ultimately show ?thesis by (auto simp: linked_append w N)
  qed
  have s0: "sorted_wrt (\<lambda>x y. blk_end m x < unat y) us" "\<And>x y. x \<in> set us \<Longrightarrow> y \<in> {p} \<union> set vs \<Longrightarrow> blk_end m x < unat y"
    using ringD(2) [OF r] unfolding L by (auto simp: sorted_wrt_append)
  have sus: "sorted_wrt (\<lambda>x y. blk_end m' x < unat y) us" "sorted_wrt (\<lambda>x y. blk_end m' x < unat y) vs'"
    using s0(1) vs(3) by (auto simp: se intro: sorted_wrt_mono_rel [rotated])
  have pl: "unat p \<le> blk_end m p" by (simp add: blk_end_def)
  have Ebp: "unat bp \<le> E" by (simp add: E)
  have ub: "blk_end m' x < unat bp" if "x \<in> set us" for x
    using s0(2) [OF that, of p] pl pe that by (simp add: se)
  have sor: "sorted_wrt (\<lambda>x y. blk_end m' x < unat y) (us @ p # (if jl then [] else [bp]) @ vs')"
  proof -
    have "\<forall>q\<in>set vs'. blk_end m' p < unat q"
      using vs(4) pe Ebp by (auto simp: pS)
    moreover have "\<not> jl \<Longrightarrow> blk_end m' p < unat bp" using pe jl by (simp add: pS le_less)
    moreover have "blk_end m' x < unat y" if "x \<in> set us" "y \<in> set vs'" for x y
      using s0(2) [OF that(1), of y] that vs(1) by (auto simp: se)
    moreover have "blk_end m' x < unat p" if "x \<in> set us" for x using s0(2) [OF that, of p] that by (simp add: se)
    ultimately show ?thesis using sus vs(4) ub by (auto simp: sorted_wrt_append be)
  qed
  let ?L = "us @ p # (if jl then [] else [bp]) @ vs'"
  have hdL: "?L = b # tl ?L" using L pb by (cases us) auto
  have "0 < unat (m' (a + 4)) \<and> unat b + 8 \<le> unat a \<and> blk_end m' a \<le> z" if "a \<in> set (tl ?L)" for a
  proof -
    have "sorted_wrt (\<lambda>x y. blk_end m' x < unat y) (b # tl ?L)" using sor hdL by simp
    with that have "a \<noteq> b" by (auto simp: blk_end_def)
    from that have aL: "a \<in> set ?L" by (subst hdL) simp
    have old: "a \<in> set as" if "a \<in> set us \<union> {p} \<union> set vs'"
    proof -
      have "a \<in> set (b # as)" unfolding L using that vs(1) by auto
      with \<open>a \<noteq> b\<close> show ?thesis by simp
    qed
    have pos: "unat a < blk_end m' a \<Longrightarrow> 0 < unat (m' (a + 4))" by (simp add: blk_end_def)
    consider "a \<in> set us \<union> set vs'" | "a = p" | "a = bp" using aL by (auto split: if_splits)
    then show ?thesis
    proof cases
      case 1
      then show ?thesis using ringD(7-9) [OF r old] same [of a] se [of a] by auto
    next
      case 2
      then show ?thesis
        using ringD(7-9) [OF r old] vs(5) pe Ebp jl pos by (auto simp: pS blk_end_def [of m p])
    next
      case 3
      have "unat bp < blk_end m bp" using bp by (simp add: blk_end_def)
      then show ?thesis using 3 bp vs(5,6) pos by (simp add: be)
    qed
  qed
  moreover have "m' (b + 4) = 0"
  proof (cases us)
    case Nil
    then show ?thesis using L pb w(2) ringD(3) [OF r] by auto
  next
    case (Cons c cs)
    then show ?thesis using L same [of b] ringD(3) [OF r] by simp
  qed
  ultimately have "ring m' b z (tl ?L)"
    using lin sor hdL ringD(4-6) [OF r] by (auto simp: ring_def)
  moreover have "blk m' p = blk m p \<union> (if jl then {unat bp..<E} else {})"
    using pl Ebp jl by (auto simp: blk_def pS)
  ultimately show ?thesis by (auto simp: blk_def se be)
qed

text \<open>
  Freeing a block that touches no free block: the ring keeps its form, its bytes are the old ones and the
  block's, some free block contains the freed one, and only words of free blocks change.
\<close>

lemma free_block:
  assumes f: "fits m b z as us p vs bp"
  defines "m' \<equiv> free_join p bp m"
  shows "\<exists>as'. ring m' b z as' \<and> p \<in> set (b # as') \<and> free_bytes m' as' = free_bytes m as \<union> blk m bp \<and>
    length as' \<le> Suc (length as) \<and> (\<exists>a\<in>set as'. blk m bp \<subseteq> blk m' a)"
proof -
  from f have r: "ring m b z as" and L: "b # as = us @ p # vs" and bp: "blk_end m bp \<le> z" "unat b + 8 \<le> unat bp"
    by (auto simp: fits_def)
  define S where "S = m (bp + 4) + (if bp + 8 * m (bp + 4) = m p then m (m p + 4) else 0)"
  define N where "N = (if bp + 8 * m (bp + 4) = m p then m (m p) else m p)"
  define jl where "jl \<longleftrightarrow> p + 8 * m (p + 4) = bp"
  define E where "E = unat bp + 8 * unat S"
  from join_right [OF f] obtain vs' where v: "N = hd (vs' @ [b])" "set vs' \<subseteq> set vs" "length vs' \<le> length vs"
    "linked m vs' b" "sorted_wrt (\<lambda>x y. blk_end m x < unat y) vs'" "E \<le> z" "blk_end m bp \<le> E" "\<forall>q\<in>set vs'. E < unat q"
    "(\<Union>a\<in>set vs. blk m a) \<union> blk m bp = (\<Union>a\<in>set vs'. blk m a) \<union> {unat bp..<E}"
    "bp + 8 * m (bp + 4) = m p \<Longrightarrow> vs \<noteq> []"
    unfolding N_def S_def E_def by auto
  have pa: "apart p bp" by (rule fits_apart [OF f]) simp
  have qa: "apart (m p) bp" if "bp + 8 * m (bp + 4) = m p"
  proof -
    have "m p = hd (vs @ [b])" by (rule linked_next [OF ringD(1) [OF r] L])
    with v(10) [OF that] have "m p \<in> set vs" by (cases vs) auto
    then show ?thesis by (intro fits_apart [OF f]) simp
  qed
  note w = free_join_words [of p bp m, OF pa qa, folded S_def N_def jl_def m'_def]
  have "blk_end m p \<le> 2 ^ 31"
  proof (cases "p = b")
    case True
    then show ?thesis using ringD(5,6,10) [OF r] by simp
  next
    case False
    have "p \<in> set (b # as)" by (simp add: L)
    with False show ?thesis using ringD(9) [OF r, of p] ringD(6) [OF r] by simp
  qed
  then have jl: "jl \<longleftrightarrow> blk_end m p = unat bp"
    using unat_blk_end [of m p] by (simp add: jl_def word_unat_eq_iff)
  let ?L = "us @ p # (if jl then [] else [bp]) @ vs'"
  from join_left [OF f v(1,2,4,5,8,6,7) E_def w jl] have j: "ring m' b z (tl ?L)"
    "\<forall>a\<in>set us \<union> set vs'. blk m' a = blk m a" "blk m' bp = {unat bp..<E}"
    "blk m' p = blk m p \<union> (if jl then {unat bp..<E} else {})" by auto
  have hdL: "b # tl ?L = ?L"
  proof (cases us)
    case Nil
    then have "\<not> jl" using L jl bp ringD(10) [OF r] by auto
    then show ?thesis using L Nil by simp
  qed (use L in simp)
  have "free_bytes m' (tl ?L) = (\<Union>a\<in>set ?L. blk m' a)"
    unfolding free_bytes_all [OF j(1)] hdL ..
  also have "\<dots> = (\<Union>a\<in>set us. blk m a) \<union> blk m p \<union> ((\<Union>a\<in>set vs'. blk m a) \<union> {unat bp..<E})"
    using j(2-4) by (cases jl) auto
  also have "\<dots> = (\<Union>a\<in>set (b # as). blk m a) \<union> blk m bp"
    unfolding v(9) [symmetric] L by auto
  finally have fb: "free_bytes m' (tl ?L) = free_bytes m as \<union> blk m bp" using free_bytes_all [OF r] by simp
  have "length (tl ?L) \<le> Suc (length as)"
    using v(3) arg_cong [OF L, of length] by auto
  moreover have "\<exists>a\<in>set (tl ?L). blk m bp \<subseteq> blk m' a"
  proof -
    have sub: "blk m bp \<subseteq> {unat bp..<E}" using v(7) by (auto simp: blk_def)
    let ?a = "if jl then p else bp"
    have "?a \<in> set ?L" by simp
    moreover have "?a \<noteq> b" using bp jl ringD(10) [OF r] by auto
    ultimately have "?a \<in> set (tl ?L)" using hdL by (metis set_ConsD)
    moreover have "blk m bp \<subseteq> blk m' ?a" using sub j(3,4) by auto
    ultimately show ?thesis by blast
  qed
  moreover have "p \<in> set (b # tl ?L)" unfolding hdL by simp
  ultimately show ?thesis using j(1) fb by blast
qed

text \<open>The bytes the allocator may write: the header \<open>base\<close> and the free blocks.\<close>

definition inner :: "(u32 \<Rightarrow> u32) \<Rightarrow> u32 \<Rightarrow> u32 list \<Rightarrow> nat set" where
  "inner m b as = {unat b..<unat b + 8} \<union> free_bytes m as"

lemma header_inner:
  assumes r: "ring m b z as" and "a \<in> set (b # as)" and "w = a \<or> w = a + 4"
  shows "unat w \<in> inner m b as"
proof -
  have lt: "unat (x + 4) = unat x + 4" if "unat x + 8 \<le> 2 ^ 31" for x :: u32 using that by (intro unat_add4) simp
  show ?thesis
  proof (cases "a = b")
    case True
    then show ?thesis using assms(3) lt [of b] ringD(5,6) [OF r] by (auto simp: inner_def)
  next
    case False
    with assms(2) have a: "a \<in> set as" by simp
    have "unat w \<in> blk m a"
      using assms(3) lt [of a] ringD(6) [OF r] ringD(8,9) [OF r a] by (auto simp: blk_def blk_end_def)
    then show ?thesis using a by (auto simp: inner_def free_bytes_def)
  qed
qed

lemma header_blk:
  assumes "0 < unat (m (a + 4))" and "blk_end m a \<le> 2 ^ 31" and "w = a \<or> w = a + 4"
  shows "unat w \<in> blk m a"
  using assms unat_add4 [of a] by (auto simp: blk_def blk_end_def)

definition heap_ok :: "('k \<Rightarrow> u32) \<Rightarrow> 'k heap \<Rightarrow> u32 list \<Rightarrow> bool" where
  "heap_ok sz h as \<longleftrightarrow> ring (mem h) (base h) (unat (sz (kern h))) as \<and> freep h \<in> set (base h # as)"

lemma ufree_spec:
  assumes h: "heap_ok sz h as" and bp: "unat (base h) + 8 \<le> unat bp" "0 < unat (mem h (bp + 4))"
      "blk_end (mem h) bp \<le> unat (sz (kern h))"
    and free: "blk (mem h) bp \<inter> free_bytes (mem h) as = {}" and fuel: "length as < fuel"
  shows "\<exists>h' as'. ufree fuel (bp + 8) h = Ok h' \<and> heap_ok sz h' as' \<and> kern h' = kern h \<and> base h' = base h \<and>
    free_bytes (mem h') as' = free_bytes (mem h) as \<union> blk (mem h) bp \<and> length as' \<le> Suc (length as) \<and>
    (\<exists>a\<in>set as'. blk (mem h) bp \<subseteq> blk (mem h') a) \<and>
    (\<forall>w. unat w \<notin> inner (mem h) (base h) as \<union> blk (mem h) bp \<longrightarrow> mem h' w = mem h w)"
proof -
  let ?m = "mem h" and ?b = "base h" and ?z = "unat (sz (kern h))"
  from h have r: "ring ?m ?b ?z as" and f: "freep h \<in> set (?b # as)" by (auto simp: heap_ok_def)
  have "bp \<notin> set as"
  proof
    assume "bp \<in> set as"
    then have "blk ?m bp \<subseteq> free_bytes ?m as" by (auto simp: free_bytes_def)
    moreover have "unat bp \<in> blk ?m bp" using bp(2) by (simp add: blk_def blk_end_def)
    ultimately show False using free by blast
  qed
  then obtain p0 where p0: "p0 \<in> set (?b # as)" "stop ?m bp p0" using ring_split [OF r, of bp] bp(1) by auto
  obtain us vs where L: "?b # as = us @ freep h # vs" using split_list [OF f] by blast
  let ?R = "freep h # vs @ us"
  have R: "set ?R = set (?b # as)" unfolding L by auto
  have "length ?R = Suc (length as)" using arg_cong [OF L, of length] by simp
  note R = R this
  have "linked ?m ?R (freep h)" by (rule linked_rotate [OF ringD(1) [OF r] L])
  moreover have "p0 \<in> set ?R" unfolding R(1) by (rule p0(1))
  moreover have "length ?R \<le> fuel" unfolding R(2) using fuel by simp
  ultimately obtain p where "p \<in> set ?R" and p: "stop ?m bp p" "free_loop fuel ?m bp (freep h) = Ok p"
    using free_loop_finds [of ?m ?R "freep h" p0 bp fuel] p0(2) by auto
  then have "p \<in> set (?b # as)" by (simp only: R(1))
  note p = this p
  from ring_stop [OF r p(2,1)] bp obtain us vs where
    L: "?b # as = us @ p # vs" "unat p < unat bp" "\<forall>q\<in>set vs. unat bp < unat q" by auto
  have fit: "fits ?m ?b ?z as us p vs bp" by (rule fitsI [OF r L bp free])
  let ?m' = "free_join p bp ?m" and ?h = "h\<lparr>mem := free_join p bp (mem h), freep := p\<rparr>"
  from free_block [OF fit] obtain as' where as': "ring ?m' ?b ?z as'" "p \<in> set (?b # as')"
    "free_bytes ?m' as' = free_bytes ?m as \<union> blk ?m bp" "length as' \<le> Suc (length as)"
    "\<exists>a\<in>set as'. blk ?m bp \<subseteq> blk ?m' a" by blast
  have "?m' w = ?m w" if "unat w \<notin> inner ?m ?b as \<union> blk ?m bp" for w
  proof -
    have "w \<notin> {p, p + 4, bp, bp + 4}"
      using that header_inner [OF r p(1), of w] header_blk [of ?m bp w, OF bp(2)] bp(3) ringD(6) [OF r] by auto
    moreover have "apart p bp" by (rule fits_apart [OF fit]) simp
    ultimately show ?thesis by (auto simp: free_join_def join_prev_def join_next_def Let_def)
  qed
  moreover have "ufree fuel (bp + 8) h = Ok ?h" by (simp add: ufree_def p(3))
  moreover have "heap_ok sz ?h as'" using as' by (simp add: heap_ok_def)
  ultimately show ?thesis using as'(3-5) by (intro exI [of _ ?h] exI [of _ as']) simp
qed

section \<open>Taking a block\<close>

lemma free_bytes_disjoint:
  assumes r: "ring m b z as" and "b # as = us @ p # vs" and "q \<in> set us \<union> set vs"
  shows "blk m p \<inter> blk m q = {}"
  using ringD(2) [OF r] assms(3) unfolding assms(2) by (auto simp: sorted_wrt_append blk_def)

lemma take_exact:
  assumes r: "ring m b z as" and L: "b # as = us @ prev # p # vs"
  defines "m' \<equiv> m(prev := m p)"
  shows "\<exists>as'. ring m' b z as' \<and> prev \<in> set (b # as') \<and> free_bytes m' as' = free_bytes m as - blk m p \<and>
    blk m' p = blk m p \<and> m' (p + 4) = m (p + 4) \<and> length as' \<le> length as"
proof -
  obtain as' where L': "us @ prev # vs = b # as'" using L by (cases us) auto
  have L2: "b # as = (us @ [prev]) @ p # vs" using L by simp
  have n4: "x + 4 \<noteq> prev" if "x \<in> set (b # as)" for x
    using that ring_apart [OF r L, THEN apart_words(4), of x] unfolding L by auto
  have old: "x \<in> set (b # as)" if "x \<in> set (us @ prev # vs)" for x unfolding L using that by auto
  have same: "m' (x + 4) = m (x + 4)" if "x \<in> set (b # as)" for x using n4 [OF that] by (simp add: m'_def)
  then have e: "blk_end m' x = blk_end m x" "blk m' x = blk m x" if "x \<in> set (b # as)" for x
    using that by (auto simp: blk_def blk_end_def)
  have ne: "prev \<notin> set us" "prev \<notin> set vs" "prev \<noteq> p"
    using ring_sorted [OF r] unfolding L by (auto simp: sorted_wrt_append)
  have "linked m' us e = linked m us e" "linked m' vs e = linked m vs e" for e
    using ne by (auto simp: m'_def intro!: linked_cong)
  then have lin: "linked m' (b # as') b"
    using ringD(1) [OF r] unfolding L L' [symmetric] linked_append by (simp add: m'_def)
  have "sorted_wrt (\<lambda>x y. blk_end m x < unat y) (b # as')"
    using ringD(2) [OF r] unfolding L L' [symmetric] by (auto simp: sorted_wrt_append)
  then have sor: "sorted_wrt (\<lambda>x y. blk_end m' x < unat y) (b # as')"
    using old by (intro sorted_wrt_mono_rel [OF _ \<open>sorted_wrt _ _\<close>]) (simp add: e flip: L')
  have in_as: "x \<in> set as" if "x \<in> set as'" for x
  proof -
    have "x \<noteq> b" using sor that by (auto simp: blk_end_def)
    with old [of x] that show ?thesis unfolding L' by simp
  qed
  have rg: "ring m' b z as'"
    using lin sor ringD(3-6) [OF r] ringD(7-9) [OF r in_as] e(1) in_as same by (simp add: ring_def)
  have pL: "p \<in> set (b # as)" unfolding L by simp
  have "free_bytes m' as' = (\<Union>x\<in>set (us @ prev # vs). blk m x)"
    unfolding free_bytes_all [OF rg] L' [symmetric] using old e by auto
  also have "\<dots> = (\<Union>x\<in>set (b # as). blk m x) - blk m p"
    using free_bytes_disjoint [OF r L2] unfolding L by auto
  finally have "free_bytes m' as' = free_bytes m as - blk m p" using free_bytes_all [OF r] by simp
  moreover have "prev \<in> set (b # as')" unfolding L' [symmetric] by simp
  moreover have "length as' \<le> length as" using arg_cong [OF L, of length] arg_cong [OF L', of length] by simp
  ultimately show ?thesis using rg e(2) [OF pL] same [OF pL] by blast
qed

lemma take_tail:
  assumes r: "ring m b z as" and p: "p \<in> set as" and n: "0 < nunits" "nunits < m (p + 4)"
  defines "q \<equiv> p + 8 * (m (p + 4) - nunits)"
  defines "m' \<equiv> m(p + 4 := m (p + 4) - nunits, q + 4 := nunits)"
  shows "ring m' b z as \<and> free_bytes m' as = free_bytes m as - blk m' q \<and> blk m' q \<subseteq> blk m p \<and> unat p \<le> unat q"
proof -
  define k where "k = unat (m (p + 4)) - unat nunits"
  have k: "unat (m (p + 4) - nunits) = k" "0 < k" "0 < unat nunits" and nk: "unat (m (p + 4)) = k + unat nunits"
    using n by (simp_all add: k_def unat_sub word_less_nat_alt word_le_nat_alt)
  have z: "blk_end m p \<le> 2 ^ 31" using ringD(6,9) [OF r] p by fastforce
  have q: "unat q = unat p + 8 * k"
  proof -
    have "q = p + word_of_nat (8 * k)" unfolding q_def k(1) [symmetric] by simp
    then show ?thesis using unat_plus [of p "8 * k"] z nk by (simp add: blk_end_def)
  qed
  have qe: "unat q + 8 * unat nunits = blk_end m p" unfolding q blk_end_def nk by simp
  have q8: "unat q + 8 \<le> blk_end m p" using qe k(3) by linarith
  have q4: "unat (q + 4) = unat q + 4" using q8 z by (intro unat_add4) simp
  obtain us vs where L: "b # as = us @ p # vs" using split_list [of p "b # as"] p by auto
  have out: "q + 4 \<noteq> x \<and> q + 4 \<noteq> x + 4" if "x \<in> set us \<union> set vs" for x
  proof -
    have "apart p x" by (rule ring_apart [OF r L that])
    then have "unat (x + 4) = unat x + 4" by (intro unat_add4) (simp add: apart_def)
    moreover have "unat x + 8 \<le> unat p \<or> blk_end m p < unat x"
      using that ringD(2) [OF r] \<open>apart p x\<close> unfolding L by (auto simp: sorted_wrt_append apart_def blk_end_def)
    ultimately have "unat (q + 4) \<noteq> unat x \<and> unat (q + 4) \<noteq> unat (x + 4)" using q q8 q4 by auto
    then show ?thesis by auto
  qed
  have aw: "p + 4 \<noteq> x \<and> p + 4 \<noteq> x + 4" if "x \<in> set us \<union> set vs" for x
    using apart_words [OF ring_apart [OF r L that]] by auto
  have pq: "q + 4 \<noteq> p \<and> q + 4 \<noteq> p + 4 \<and> q \<noteq> p + 4"
  proof -
    have "apart p q" using q q8 k z by (auto simp: apart_def)
    from apart_words [OF this] show ?thesis by auto
  qed
  have same: "m' x = m x \<and> m' (x + 4) = m (x + 4)" if "x \<in> set us \<union> set vs" for x
  proof -
    have "x \<noteq> p + 4" "x \<noteq> q + 4" "x + 4 \<noteq> p + 4" "x + 4 \<noteq> q + 4" using out [OF that] aw [OF that] by auto
    then show ?thesis by (simp only: m'_def fun_upd_apply if_False simp_thms)
  qed
  have pw: "m' p = m p" "m' (p + 4) = m (p + 4) - nunits" "m' (q + 4) = nunits"
  proof -
    have "p \<noteq> q + 4" "p + 4 \<noteq> q + 4" "p \<noteq> p + 4" using pq by auto
    then show "m' p = m p" "m' (p + 4) = m (p + 4) - nunits" "m' (q + 4) = nunits"
      by (simp_all only: m'_def fun_upd_apply if_False if_True simp_thms)
  qed
  have pe: "blk_end m' p = unat q" by (simp add: blk_end_def pw k q)
  have eq: "blk_end m' q = blk_end m p" by (simp add: blk_end_def [of m'] pw qe)
  have e: "blk_end m' x = blk_end m x" "blk m' x = blk m x" if "x \<in> set us \<union> set vs" for x
    using same [OF that] by (auto simp: blk_def blk_end_def)
  have pp: "blk m' p = blk m p - blk m' q" "blk m' q \<subseteq> blk m p"
    unfolding blk_def pe eq using q q8 by auto
  have cases_as: "x \<in> set us \<union> set vs \<or> x = p" if "x \<in> set (b # as)" for x using that unfolding L by auto
  have lin: "linked m' (b # as) b"
    using ringD(1) [OF r] cases_as same pw(1) by (subst linked_cong [of _ m' m]) blast+
  have sor: "sorted_wrt (\<lambda>x y. blk_end m' x < unat y) (b # as)"
  proof (rule sorted_wrt_mono_rel [OF _ ringD(2) [OF r]])
    fix x y assume "x \<in> set (b # as)" "blk_end m x < unat y"
    then show "blk_end m' x < unat y" using cases_as [of x] e(1) [of x] pe q8 by (cases "x = p") auto
  qed
  have "b \<noteq> p" using ringD(7) [OF r p] by auto
  then have b0: "m' (b + 4) = 0" using cases_as [of b] same [of b] ringD(3) [OF r] by auto
  have "0 < unat (m' (x + 4)) \<and> blk_end m' x \<le> z" if "x \<in> set as" for x
    using cases_as [of x] that ringD(8,9) [OF r that] same [of x] e(1) [of x] pe pw(2) k q8
    by (cases "x = p") auto
  then have rg: "ring m' b z as" using lin sor b0 ringD(4-7) [OF r] by (simp add: ring_def)
  have "free_bytes m' as = (\<Union>x\<in>set us \<union> set vs. blk m x) \<union> blk m' p"
    unfolding free_bytes_all [OF rg] L using e by auto
  also have "\<dots> = free_bytes m as - blk m' q"
    unfolding free_bytes_all [OF r] L pp(1) using free_bytes_disjoint [OF r L] pp(2) by auto
  finally show ?thesis using rg pp(2) q by simp
qed

lemma take_block_spec:
  assumes h: "heap_ok sz h as" and prev: "prev \<in> set (base h # as)" "mem h prev = p" and n: "0 < nunits" "nunits \<le> mem h (p + 4)"
  shows "\<exists>a h' as'. take_block nunits prev p h = (a + 8, h') \<and> heap_ok sz h' as' \<and> kern h' = kern h \<and> base h' = base h \<and>
    unat (base h) + 8 \<le> unat a \<and> mem h' (a + 4) = nunits \<and> blk (mem h') a \<subseteq> free_bytes (mem h) as \<and>
    free_bytes (mem h') as' = free_bytes (mem h) as - blk (mem h') a \<and> length as' \<le> length as \<and>
    (\<forall>w. unat w \<notin> inner (mem h) (base h) as \<longrightarrow> mem h' w = mem h w)"
proof -
  let ?m = "mem h" and ?b = "base h" and ?z = "unat (sz (kern h))"
  from h have r: "ring ?m ?b ?z as" by (simp add: heap_ok_def)
  obtain us ws where L: "?b # as = us @ prev # ws" using split_list [OF prev(1)] by blast
  have "p \<noteq> ?b" using n ringD(3) [OF r] by auto
  then obtain vs where ws: "ws = p # vs"
    using linked_next [OF ringD(1) [OF r] L] prev(2) by (cases ws) auto
  note L = L [unfolded ws]
  have pL: "p \<in> set (?b # as)" unfolding L by simp
  with \<open>p \<noteq> ?b\<close> have p: "p \<in> set as" by simp
  have prevL: "prev \<in> set (?b # as)" unfolding L by simp
  show ?thesis
  proof (cases "?m (p + 4) = nunits")
    case True
    let ?h = "h\<lparr>mem := ?m(prev := ?m p), freep := prev\<rparr>"
    from take_exact [OF r L] obtain as' where as': "ring (mem ?h) ?b ?z as'" "prev \<in> set (?b # as')"
      "free_bytes (mem ?h) as' = free_bytes ?m as - blk ?m p" "blk (mem ?h) p = blk ?m p" "mem ?h (p + 4) = nunits"
      "length as' \<le> length as" using True by auto
    moreover have "take_block nunits prev p h = (p + 8, ?h)" by (simp add: take_block_def True Let_def)
    moreover have "\<forall>w. unat w \<notin> inner ?m ?b as \<longrightarrow> mem ?h w = ?m w"
      using header_inner [OF r prevL] by auto
    moreover have "blk ?m p \<subseteq> free_bytes ?m as" using p by (auto simp: free_bytes_def)
    ultimately show ?thesis using ringD(7) [OF r p] by (intro exI [of _ p] exI [of _ ?h] exI [of _ as']) (simp add: heap_ok_def)
  next
    case False
    with n have n': "nunits < ?m (p + 4)" by simp
    define q where "q = p + 8 * (?m (p + 4) - nunits)"
    let ?h = "h\<lparr>mem := ?m(p + 4 := ?m (p + 4) - nunits, q + 4 := nunits), freep := prev\<rparr>"
    from take_tail [OF r p n(1) n', folded q_def] have q1: "ring (mem ?h) ?b ?z as" "free_bytes (mem ?h) as = free_bytes ?m as - blk (mem ?h) q"
      "blk (mem ?h) q \<subseteq> blk ?m p" "unat p \<le> unat q" by simp_all
    have mq: "mem ?h (q + 4) = nunits" by simp
    have tb: "take_block nunits prev p h = (q + 8, ?h)" using False by (simp add: take_block_def Let_def q_def)
    have sub: "blk (mem ?h) q \<subseteq> free_bytes ?m as" using q1(3) p by (auto simp: free_bytes_def)
    have "unat q + 8 \<le> blk_end ?m p"
    proof -
      have "unat q \<in> blk (mem ?h) q" using n(1) by (simp add: blk_def blk_end_def word_less_nat_alt)
      then have "blk_end (mem ?h) q \<le> blk_end ?m p" using q1(3) by (auto simp: blk_def)
      moreover have "blk_end (mem ?h) q = unat q + 8 * unat nunits" by (simp only: blk_end_def mq)
      ultimately show ?thesis using n(1) by (simp add: word_less_nat_alt)
    qed
    then have "unat (q + 4) = unat q + 4" using ringD(6) [OF r] ringD(9) [OF r p] by (intro unat_add4) simp
    then have "unat (q + 4) \<in> blk ?m p" using q1(4) \<open>unat q + 8 \<le> _\<close> by (simp add: blk_def)
    then have "unat (q + 4) \<in> inner ?m ?b as" using p by (auto simp: inner_def free_bytes_def)
    then have "\<forall>w. unat w \<notin> inner ?m ?b as \<longrightarrow> mem ?h w = ?m w"
      using header_inner [OF r pL] by auto
    then show ?thesis
      using q1(1,2,4) tb mq sub ringD(7) [OF r p] prevL
      by (intro exI [of _ q] exI [of _ ?h] exI [of _ as]) (simp add: heap_ok_def)
  qed
qed

section \<open>What a call promises\<close>

text \<open>
  A call of \<open>malloc\<close> for \<open>nunits\<close> units returns 0, when no free block is large enough and the kernel gives no
  memory, or a block cut from the free bytes and those the process has grown by; only free bytes change.
\<close>

definition result_ok :: "('k \<Rightarrow> u32) \<Rightarrow> 'k heap \<Rightarrow> u32 list \<Rightarrow> u32 \<Rightarrow> u32 \<Rightarrow> 'k heap \<Rightarrow> u32 list \<Rightarrow> bool" where
  "result_ok sz h as nunits r h' as' \<longleftrightarrow>
     base h' = base h \<and> unat (sz (kern h)) \<le> unat (sz (kern h')) \<and>
     (\<forall>w. unat w \<notin> inner (mem h) (base h) as \<union> {unat (sz (kern h))..<unat (sz (kern h'))} \<longrightarrow> mem h' w = mem h w) \<and>
     (r = 0 \<and> free_bytes (mem h') as' = free_bytes (mem h) as \<and> (\<forall>a\<in>set as. mem h (a + 4) < nunits) \<and>
        sz (kern h') = sz (kern h) \<or>
      (\<exists>a. r = a + 8 \<and> unat (base h) + 8 \<le> unat a \<and> mem h' (a + 4) = nunits \<and>
        blk (mem h') a \<subseteq> free_bytes (mem h) as \<union> {unat (sz (kern h))..<unat (sz (kern h'))} \<and>
        free_bytes (mem h') as' =
          free_bytes (mem h) as \<union> {unat (sz (kern h))..<unat (sz (kern h'))} - blk (mem h') a))"

text \<open>Before the first call there is no ring yet.\<close>

definition alloc_ok :: "('k \<Rightarrow> u32) \<Rightarrow> 'k heap \<Rightarrow> u32 list \<Rightarrow> bool" where
  "alloc_ok sz h as \<longleftrightarrow> heap_ok sz h as \<or>
     freep h = 0 \<and> as = [] \<and> base h \<noteq> 0 \<and> unat (base h) + 8 \<le> unat (sz (kern h)) \<and> unat (sz (kern h)) \<le> 2 ^ 31"

lemma units_bounds:
  assumes "unat nbytes \<le> 2 ^ 31 - 16"
  shows "0 < units nbytes" "8 * unat (units nbytes) < 2 ^ 31" "unat nbytes + 8 \<le> 8 * unat (units nbytes)"
proof -
  have "unat (nbytes + 8 - 1) = unat nbytes + 7"
    using unat_plus [of nbytes 7] assms by (simp add: add.commute)
  then have d: "unat ((nbytes + 8 - 1) div 8) = (unat nbytes + 7) div 8" by (simp add: unat_div)
  have "unat (units nbytes) = (unat nbytes + 7) div 8 + 1"
    unfolding units_def using assms d by (subst unat_plus_if') simp
  then show "8 * unat (units nbytes) < 2 ^ 31" "unat nbytes + 8 \<le> 8 * unat (units nbytes)" "0 < units nbytes"
    using assms by (auto simp: word_less_nat_alt)
qed

text \<open>The kernel may stop altogether instead of returning from \<open>growproc\<close>.\<close>

definition crashes :: "(int \<Rightarrow> 'k \<Rightarrow> (int \<times> 'k) res) \<Rightarrow> 'k \<Rightarrow> bool" where
  "crashes grow k \<longleftrightarrow> (\<exists>n. 0 < n \<and> n < 2 ^ 31 \<and> (\<forall>x. grow n k \<noteq> Ok x))"

section \<open>Memory from the kernel\<close>

text \<open>
  The contract of \<open>growproc\<close> for a positive amount: it fails and leaves the size alone, or the process has
  grown by the amount and does not reach beyond 2 GB.  Outcomes other than a return are not constrained.
\<close>

locale more_memory =
  fixes grow :: "int \<Rightarrow> 'k \<Rightarrow> (int \<times> 'k) res" and sz :: "'k \<Rightarrow> u32"
  assumes grow_ok: "0 < n \<Longrightarrow> n < 2 ^ 31 \<Longrightarrow> unat (sz k) \<le> 2 ^ 31 \<Longrightarrow> grow n k = Ok (r, k') \<Longrightarrow>
    (if r < 0 then sz k' = sz k else unat (sz k') = unat (sz k) + nat n \<and> unat (sz k') \<le> 2 ^ 31)"
begin

lemma sbrk_cases:
  assumes nu: "8 * unat nu < 2 ^ 31" "0 < unat nu" and z: "unat (sz k) \<le> 2 ^ 31"
  shows "(crashes grow k \<and> (\<forall>x. sbrk grow sz (nu * 8) k \<noteq> Ok x)) \<or> (\<exists>k'. sbrk grow sz (nu * 8) k = Ok (-1, k') \<and> sz k' = sz k) \<or>
    (\<exists>k'. sbrk grow sz (nu * 8) k = Ok (sz k, k') \<and> unat (sz k') = unat (sz k) + 8 * unat nu \<and> unat (sz k') \<le> 2 ^ 31)"
proof -
  have u: "unat (nu * 8) = 8 * unat nu" using nu(1) by (simp add: unat_word_ariths)
  then have "sint (nu * 8) = uint (nu * 8)" using nu(1) by (intro sint_uint_small) simp
  then have n: "sint (nu * 8) = int (8 * unat nu)" by (simp only: u [symmetric] of_nat_unat)
  have "int (8 * unat nu) < int (2 ^ 31)" using nu(1) unfolding of_nat_less_iff .
  then have b: "int (8 * unat nu) < 2 ^ 31" "0 < int (8 * unat nu)" using nu(2) by (simp, linarith)
  show ?thesis
  proof (cases "\<exists>x. grow (sint (nu * 8)) k = Ok x")
    case True
    then obtain r k' where g: "grow (sint (nu * 8)) k = Ok (r, k')" by auto
    have "if r < 0 then sz k' = sz k else unat (sz k') = unat (sz k) + 8 * unat nu \<and> unat (sz k') \<le> 2 ^ 31"
      using grow_ok [OF b(2,1) z g [unfolded n]] by (simp only: nat_int)
    then show ?thesis using g by (auto simp: sbrk_def Let_def split: if_splits)
  next
    case False
    then have "\<forall>x. grow (sint (nu * 8)) k \<noteq> Ok x" by blast
    moreover from this have "\<forall>x. sbrk grow sz (nu * 8) k \<noteq> Ok x" by (auto simp: sbrk_def Let_def)
    ultimately show ?thesis using b unfolding crashes_def n by blast
  qed
qed

lemma morecore_spec:
  assumes h: "heap_ok sz h as" and fuel: "length as < fuel" and nu: "8 * unat nu < 2 ^ 31" "0 < nu"
  shows "(crashes grow (kern h) \<and> (\<forall>x. morecore grow sz fuel nu h \<noteq> Ok x)) \<or>
    (\<exists>h'. morecore grow sz fuel nu h = Ok (0, h') \<and> heap_ok sz h' as \<and> mem h' = mem h \<and> base h' = base h \<and>
       sz (kern h') = sz (kern h)) \<or>
    (\<exists>h' as'. morecore grow sz fuel nu h = Ok (freep h', h') \<and> freep h' \<noteq> 0 \<and> heap_ok sz h' as' \<and> base h' = base h \<and>
       unat (sz (kern h)) \<le> unat (sz (kern h')) \<and>
       free_bytes (mem h') as' = free_bytes (mem h) as \<union> {unat (sz (kern h))..<unat (sz (kern h'))} \<and>
       (\<exists>a\<in>set as'. nu \<le> mem h' (a + 4)) \<and> length as' \<le> Suc (length as) \<and>
       (\<forall>w. unat w \<notin> inner (mem h) (base h) as \<union> {unat (sz (kern h))..<unat (sz (kern h'))} \<longrightarrow> mem h' w = mem h w))"
proof -
  define nu' where "nu' = (if nu < 4096 then 4096 else nu)"
  have nu': "8 * unat nu' < 2 ^ 31" "0 < unat nu'" "nu \<le> nu'"
    using nu by (auto simp: nu'_def word_less_nat_alt word_le_nat_alt)
  let ?z = "sz (kern h)"
  from h have r: "ring (mem h) (base h) (unat ?z) as" by (simp add: heap_ok_def)
  have z: "unat ?z \<le> 2 ^ 31" by (rule ringD(6) [OF r])
  have zm: "?z \<noteq> -1" using z by (auto simp: unsigned_minus_1_eq_mask mask_eq_exp_minus_1)
  consider "crashes grow (kern h)" "\<forall>x. sbrk grow sz (nu' * 8) (kern h) \<noteq> Ok x" | k' where "sbrk grow sz (nu' * 8) (kern h) = Ok (-1, k')" "sz k' = ?z"
    | k' where "sbrk grow sz (nu' * 8) (kern h) = Ok (?z, k')" "unat (sz k') = unat ?z + 8 * unat nu'" "unat (sz k') \<le> 2 ^ 31"
    using sbrk_cases [OF nu'(1,2) z] by blast
  then show ?thesis
  proof cases
    case 1
    then have "\<forall>x. morecore grow sz fuel nu h \<noteq> Ok x" by (auto simp: morecore_def Let_def simp flip: nu'_def)
    then show ?thesis using 1 by blast
  next
    case (2 k')
    then have "morecore grow sz fuel nu h = Ok (0, h\<lparr>kern := k'\<rparr>)"
      by (simp add: morecore_def Let_def flip: nu'_def)
    moreover have "heap_ok sz (h\<lparr>kern := k'\<rparr>) as" using h 2(2) by (simp add: heap_ok_def)
    ultimately show ?thesis using 2(2) by auto
  next
    case (3 k')
    let ?h = "h\<lparr>kern := k', mem := (mem h)(?z + 4 := nu')\<rparr>"
    have z4: "unat (?z + 4) = unat ?z + 4" using 3(2,3) nu'(2) by (intro unat_add4) simp
    have new: "unat ?z \<in> {unat ?z..<unat (sz k')}" "unat (?z + 4) \<in> {unat ?z..<unat (sz k')}"
      using z4 3(2) nu'(2) by auto
    have old: "x + 4 \<noteq> ?z + 4 \<and> x \<noteq> ?z + 4" if "x \<in> set (base h # as)" for x
    proof -
      have "unat x + 8 \<le> unat ?z" using that ringD(5) [OF r] ringD(8,9) [OF r, of x] by (auto simp: blk_end_def)
      then have "unat x \<noteq> unat ?z \<and> unat x \<noteq> unat (?z + 4)" using z4 by auto
      then show ?thesis by auto
    qed
    have same: "mem ?h x = mem h x \<and> mem ?h (x + 4) = mem h (x + 4)" if "x \<in> set (base h # as)" for x
      using old [OF that] by simp
    have zz: "unat ?z \<le> unat (sz k')" using 3(2) by simp
    have "ring (mem ?h) (base h) (unat (sz k')) as" and fb: "free_bytes (mem ?h) as = free_bytes (mem h) as"
      by (rule ring_cong [OF r same zz 3(3)], assumption)+
    then have ok: "heap_ok sz ?h as" using h by (simp add: heap_ok_def)
    have inn: "inner (mem ?h) (base ?h) as = inner (mem h) (base h) as" unfolding inner_def fb by simp
    have bz: "blk (mem ?h) ?z = {unat ?z..<unat (sz k')}" "blk_end (mem ?h) ?z = unat (sz k')"
      using 3(2) by (simp_all add: blk_def blk_end_def)
    have dis: "blk (mem ?h) ?z \<inter> free_bytes (mem ?h) as = {}"
      unfolding bz fb using ringD(9) [OF r] by (fastforce simp: free_bytes_def blk_def)
    have "0 < unat (mem ?h (?z + 4))" using nu' by simp
    then obtain h' as' where h': "ufree fuel (?z + 8) ?h = Ok h'" "heap_ok sz h' as'" "kern h' = kern ?h" "base h' = base ?h"
      "free_bytes (mem h') as' = free_bytes (mem ?h) as \<union> blk (mem ?h) ?z" "length as' \<le> Suc (length as)"
      "\<exists>a\<in>set as'. blk (mem ?h) ?z \<subseteq> blk (mem h') a"
      "\<forall>w. unat w \<notin> inner (mem ?h) (base ?h) as \<union> blk (mem ?h) ?z \<longrightarrow> mem h' w = mem ?h w"
      using ufree_spec [OF ok _ _ _ dis fuel] ringD(5) [OF r] bz by auto
    have big: "nu \<le> mem h' (a + 4)" if "blk (mem ?h) ?z \<subseteq> blk (mem h') a" for a
    proof -
      have "{unat ?z..<unat (sz k')} \<subseteq> {unat a..<blk_end (mem h') a}" using that unfolding bz blk_def .
      then have "unat (sz k') \<le> blk_end (mem h') a \<and> unat a \<le> unat ?z" using new by auto
      then have "unat nu' \<le> unat (mem h' (a + 4))" using 3(2) by (auto simp: blk_end_def)
      then show ?thesis using nu'(3) by (simp add: word_le_nat_alt)
    qed
    have "ring (mem h') (base h') (unat (sz (kern h'))) as'" "freep h' \<in> set (base h' # as')"
      using h'(2) by (auto simp: heap_ok_def)
    then have "freep h' \<noteq> 0" using ringD(4,7) [of _ "base h'" _ as'] by fastforce
    moreover have "morecore grow sz fuel nu h = Ok (freep h', h')"
      using 3(1) h'(1) zm by (simp add: morecore_def Let_def flip: nu'_def)
    moreover have "\<forall>w. unat w \<notin> inner (mem h) (base h) as \<union> {unat ?z..<unat (sz k')} \<longrightarrow> mem h' w = mem h w"
      using h'(8) new(2) unfolding inn bz(1) by auto
    ultimately show ?thesis
      using h'(2-7) big 3(2) unfolding bz(1) fb by (intro disjI2 exI [of _ h'] exI [of _ as']) auto
  qed
qed

text \<open>The search: from \<open>prevp\<close> on, a block that is large enough, or back at \<open>freep\<close> without one.\<close>

lemma scan:
  assumes "linked (mem h) (x # qs) (freep h)" and "freep h \<notin> set qs" and "length qs < n"
  shows "(\<exists>prev\<in>set (x # qs). nunits \<le> mem h (mem h prev + 4) \<and>
      malloc_loop grow sz n nunits x (mem h x) h = Ok (take_block nunits prev (mem h prev) h)) \<or>
    (\<forall>q\<in>set (qs @ [freep h]). mem h (q + 4) < nunits) \<and>
    malloc_loop grow sz n nunits x (mem h x) h =
      rbind (morecore grow sz (n - 1 - length qs) nunits h) (\<lambda>(p, h).
        if p = 0 then Ok (0, h) else malloc_loop grow sz (n - 1 - length qs) nunits p (mem h p) h)"
  using assms
proof (induction qs arbitrary: x n)
  case Nil
  then obtain k where n: "n = Suc k" by (cases n) auto
  have "Suc k - 1 - length ([] :: u32 list) = k" by simp
  note k = this
  show ?case using Nil unfolding n k by (auto simp: not_le)
next
  case (Cons q qs)
  then obtain k where n: "n = Suc k" by (cases n) auto
  have k: "Suc k - 1 - length (q # qs) = k - 1 - length qs" by simp
  have q: "mem h x = q" "linked (mem h) (q # qs) (freep h)" "q \<noteq> freep h" using Cons.prems by auto
  show ?case
  proof (cases "nunits \<le> mem h (q + 4)")
    case True
    then show ?thesis by (intro disjI1 bexI [of _ x]) (simp_all add: n q(1))
  next
    case False
    then have "malloc_loop grow sz n nunits x (mem h x) h = malloc_loop grow sz k nunits q (mem h q) h"
      by (simp add: n q)
    then show ?thesis
      using Cons.IH [OF q(2), of k] Cons.prems False unfolding n k by (auto simp: not_le)
  qed
qed

lemma scan_ring:
  assumes h: "heap_ok sz h as" and n: "length as < n" and nu: "0 < nunits"
  shows "(\<exists>a h' as'. malloc_loop grow sz n nunits (freep h) (mem h (freep h)) h = Ok (a + 8, h') \<and> heap_ok sz h' as' \<and>
      kern h' = kern h \<and> result_ok sz h as nunits (a + 8) h' as') \<or>
    (\<forall>a\<in>set as. mem h (a + 4) < nunits) \<and>
    malloc_loop grow sz n nunits (freep h) (mem h (freep h)) h =
      rbind (morecore grow sz (n - 1 - length as) nunits h) (\<lambda>(p, h).
        if p = 0 then Ok (0, h) else malloc_loop grow sz (n - 1 - length as) nunits p (mem h p) h)"
proof -
  let ?m = "mem h" and ?b = "base h" and ?f = "freep h"
  from h have r: "ring ?m ?b (unat (sz (kern h))) as" and f: "?f \<in> set (?b # as)" by (auto simp: heap_ok_def)
  obtain us vs where L: "?b # as = us @ ?f # vs" using split_list [OF f] by blast
  have lk: "linked ?m (?f # vs @ us) ?f" by (rule linked_rotate [OF ringD(1) [OF r] L])
  have len: "length (vs @ us) = length as" using arg_cong [OF L, of length] by simp
  have st: "set (?f # vs @ us) = set (?b # as)" unfolding L by auto
  have nf: "?f \<notin> set (vs @ us)" using ring_sorted [OF r] unfolding L by (auto simp: sorted_wrt_append)
  have "length (vs @ us) < n" using n len by simp
  from scan [OF lk nf this, of nunits] show ?thesis
  proof (elim disjE conjE)
    assume "\<exists>prev\<in>set (?f # vs @ us). nunits \<le> ?m (?m prev + 4) \<and>
      malloc_loop grow sz n nunits ?f (?m ?f) h = Ok (take_block nunits prev (?m prev) h)"
    then obtain prev where p: "prev \<in> set (?b # as)" "nunits \<le> ?m (?m prev + 4)"
      "malloc_loop grow sz n nunits ?f (?m ?f) h = Ok (take_block nunits prev (?m prev) h)" unfolding st by blast
    from take_block_spec [OF h p(1) refl nu p(2)] show ?thesis
      unfolding p(3) result_ok_def by fastforce
  next
    assume a: "\<forall>q\<in>set ((vs @ us) @ [?f]). ?m (q + 4) < nunits"
      and e: "malloc_loop grow sz n nunits ?f (?m ?f) h =
        rbind (morecore grow sz (n - 1 - length (vs @ us)) nunits h) (\<lambda>(p, h).
          if p = 0 then Ok (0, h) else malloc_loop grow sz (n - 1 - length (vs @ us)) nunits p (mem h p) h)"
    have "set ((vs @ us) @ [?f]) = set (?b # as)" using st by auto
    with a have "\<forall>q\<in>set (?b # as). ?m (q + 4) < nunits" by (simp only:)
    then have "\<forall>q\<in>set as. ?m (q + 4) < nunits" by simp
    then show ?thesis using e unfolding len by blast
  qed
qed

lemma malloc_loop_spec:
  assumes h: "heap_ok sz h as" and nu: "0 < nunits" "8 * unat nunits < 2 ^ 31" and n: "2 * length as + 4 \<le> n"
  shows "(crashes grow (kern h) \<and> (\<forall>x. malloc_loop grow sz n nunits (freep h) (mem h (freep h)) h \<noteq> Ok x)) \<or>
    (\<exists>r h' as'. malloc_loop grow sz n nunits (freep h) (mem h (freep h)) h = Ok (r, h') \<and>
    heap_ok sz h' as' \<and> result_ok sz h as nunits r h' as')"
proof -
  define k where "k = n - 1 - length as"
  have k: "length as < n" "length as < k" "Suc (length as) < k" using n by (auto simp: k_def)
  consider a h' as' where "malloc_loop grow sz n nunits (freep h) (mem h (freep h)) h = Ok (a + 8, h')" "heap_ok sz h' as'"
      "result_ok sz h as nunits (a + 8) h' as'"
    | "\<forall>a\<in>set as. mem h (a + 4) < nunits" "malloc_loop grow sz n nunits (freep h) (mem h (freep h)) h =
      rbind (morecore grow sz k nunits h) (\<lambda>(p, h). if p = 0 then Ok (0, h) else malloc_loop grow sz k nunits p (mem h p) h)"
    using scan_ring [OF h k(1) nu(1)] unfolding k_def by blast
  then show ?thesis
  proof cases
    case 1
    then show ?thesis by blast
  next
    case 2
    from morecore_spec [OF h k(2) nu(2,1)] show ?thesis
    proof (elim disjE exE conjE)
      fix h1 assume h1: "morecore grow sz k nunits h = Ok (0, h1)" "heap_ok sz h1 as" "mem h1 = mem h" "base h1 = base h"
        "sz (kern h1) = sz (kern h)"
      then have "result_ok sz h as nunits 0 h1 as" using 2(1) by (simp add: result_ok_def)
      then show ?thesis using h1 2(2) by auto
    next
      fix h1 as1 assume h1: "morecore grow sz k nunits h = Ok (freep h1, h1)" "freep h1 \<noteq> 0" "heap_ok sz h1 as1"
        "base h1 = base h" "unat (sz (kern h)) \<le> unat (sz (kern h1))"
        "free_bytes (mem h1) as1 = free_bytes (mem h) as \<union> {unat (sz (kern h))..<unat (sz (kern h1))}"
        "length as1 \<le> Suc (length as)"
        "\<forall>w. unat w \<notin> inner (mem h) (base h) as \<union> {unat (sz (kern h))..<unat (sz (kern h1))} \<longrightarrow> mem h1 w = mem h w"
        and big: "\<exists>a\<in>set as1. nunits \<le> mem h1 (a + 4)"
      have e: "malloc_loop grow sz n nunits (freep h) (mem h (freep h)) h =
          malloc_loop grow sz k nunits (freep h1) (mem h1 (freep h1)) h1"
        using 2(2) h1(1,2) by simp
      have "length as1 < k" using h1(7) k(3) by simp
      moreover have no: "\<not> (\<forall>a\<in>set as1. mem h1 (a + 4) < nunits)" using big by (auto simp: not_less)
      ultimately obtain a h' as' where a: "malloc_loop grow sz k nunits (freep h1) (mem h1 (freep h1)) h1 = Ok (a + 8, h')"
        "heap_ok sz h' as'" "kern h' = kern h1" "result_ok sz h1 as1 nunits (a + 8) h' as'"
        using scan_ring [OF h1(3) _ nu(1), of k] by blast
      have inn: "inner (mem h1) (base h1) as1 = inner (mem h) (base h) as \<union> {unat (sz (kern h))..<unat (sz (kern h1))}"
        unfolding inner_def h1(4,6) by auto
      obtain a' where a': "a + 8 = a' + 8" "unat (base h) + 8 \<le> unat a'" "mem h' (a' + 4) = nunits"
        "blk (mem h') a' \<subseteq> free_bytes (mem h1) as1" "free_bytes (mem h') as' = free_bytes (mem h1) as1 - blk (mem h') a'"
        "base h' = base h" "\<forall>w. unat w \<notin> inner (mem h1) (base h1) as1 \<longrightarrow> mem h' w = mem h1 w"
        using a(4) no h1(4) unfolding result_ok_def a(3) by auto
      have "result_ok sz h as nunits (a + 8) h' as'"
        unfolding result_ok_def a(3) using a' h1(5,6,8) unfolding inn by auto
      then show ?thesis using a e by auto
    next
      assume "crashes grow (kern h)" "\<forall>x. morecore grow sz k nunits h \<noteq> Ok x"
      then show ?thesis using 2(2) by auto
    qed
  qed
qed

lemma malloc_spec:
  assumes h: "alloc_ok sz h as" and nb: "unat nbytes \<le> 2 ^ 31 - 16" and n: "2 * length as + 4 \<le> n"
  shows "(crashes grow (kern h) \<and> (\<forall>x. malloc grow sz n nbytes h \<noteq> Ok x)) \<or>
    (\<exists>r h' as'. malloc grow sz n nbytes h = Ok (r, h') \<and> heap_ok sz h' as' \<and>
    result_ok sz h as (units nbytes) r h' as')"
proof (cases "heap_ok sz h as")
  case True
  then have "freep h \<noteq> 0" using ringD(4,7) [of "mem h" "base h"] by (fastforce simp: heap_ok_def)
  then have "malloc grow sz n nbytes h = malloc_loop grow sz n (units nbytes) (freep h) (mem h (freep h)) h"
    by (simp add: malloc_def Let_def)
  then show ?thesis
    using malloc_loop_spec [OF True units_bounds(1,2) [OF nb] n] by auto
next
  case False
  with h have z: "freep h = 0" "as = []" "base h \<noteq> 0" "unat (base h) + 8 \<le> unat (sz (kern h))" "unat (sz (kern h)) \<le> 2 ^ 31"
    by (auto simp: alloc_ok_def)
  define h0 where "h0 = h\<lparr>mem := (mem h)(base h := base h, base h + 4 := 0), freep := base h\<rparr>"
  have h0: "mem h0 (base h) = base h" "mem h0 (base h + 4) = 0" "freep h0 = base h" "base h0 = base h" "kern h0 = kern h"
    by (simp_all add: h0_def)
  have "heap_ok sz h0 []" unfolding heap_ok_def ring_def using h0 z by simp
  from malloc_loop_spec [OF this units_bounds(1,2) [OF nb], of n] n z(2) have loop:
    "(crashes grow (kern h) \<and> (\<forall>x. malloc_loop grow sz n (units nbytes) (freep h0) (mem h0 (freep h0)) h0 \<noteq> Ok x)) \<or>
      (\<exists>r h' as'. malloc_loop grow sz n (units nbytes) (freep h0) (mem h0 (freep h0)) h0 = Ok (r, h') \<and>
      heap_ok sz h' as' \<and> result_ok sz h0 [] (units nbytes) r h' as')" by (simp add: h0(5))
  have e: "malloc grow sz n nbytes h = malloc_loop grow sz n (units nbytes) (freep h0) (mem h0 (freep h0)) h0"
    unfolding malloc_def Let_def using z(1) by (simp add: h0_def)
  have "result_ok sz h as (units nbytes) r h' as'" if "result_ok sz h0 [] (units nbytes) r h' as'" for r h' as'
  proof -
    have "unat (base h + 4) = unat (base h) + 4" using z(4,5) by (intro unat_add4) simp
    then have "mem h0 w = mem h w" if "unat w \<notin> {unat (base h)..<unat (base h) + 8}" for w
      using that by (auto simp: h0_def)
    then show ?thesis using that unfolding result_ok_def h0 z(2) by (auto simp: inner_def free_bytes_def)
  qed
  with loop show ?thesis unfolding e by blast
qed

end

section \<open>Programs\<close>

text \<open>
  A program and its blocks: \<open>A\<close> holds the headers of the blocks that \<open>malloc\<close> has returned and \<open>free\<close> not
  taken back.  \<open>returns f x\<close>: with enough fuel the outcome is \<open>x\<close>.
\<close>

definition returns :: "(nat \<Rightarrow> 'a res) \<Rightarrow> 'a \<Rightarrow> bool" where
  "returns f x \<longleftrightarrow> (\<exists>N. \<forall>n\<ge>N. f n = Ok x)"

lemma returns_unique: "returns f x \<Longrightarrow> \<forall>n\<ge>N. f n = Ok y \<Longrightarrow> x = y"
  unfolding returns_def by (metis nat_le_linear res.inject(1))

text \<open>
  A program asks for at most 2 GB less 16 bytes, frees only what it holds, and stores only into its blocks;
  its other system calls may let the process grow.
\<close>

inductive prog_step :: "(int \<Rightarrow> 'k \<Rightarrow> (int \<times> 'k) res) \<Rightarrow> ('k \<Rightarrow> u32) \<Rightarrow> 'k heap \<times> u32 set \<Rightarrow> 'k heap \<times> u32 set \<Rightarrow> bool"
  for grow sz where
  got: "unat nbytes \<le> 2 ^ 31 - 16 \<Longrightarrow> returns (\<lambda>n. malloc grow sz n nbytes h) (r, h') \<Longrightarrow> r \<noteq> 0 \<Longrightarrow>
    prog_step grow sz (h, A) (h', insert (r - 8) A)"
| none: "unat nbytes \<le> 2 ^ 31 - 16 \<Longrightarrow> returns (\<lambda>n. malloc grow sz n nbytes h) (0, h') \<Longrightarrow>
    prog_step grow sz (h, A) (h', A)"
| freed: "a \<in> A \<Longrightarrow> returns (\<lambda>n. ufree n (a + 8) h) h' \<Longrightarrow> prog_step grow sz (h, A) (h', A - {a})"
| stored: "a \<in> A \<Longrightarrow> unat a + 8 \<le> unat w \<Longrightarrow> unat w + 4 \<le> blk_end (mem h) a \<Longrightarrow>
    prog_step grow sz (h, A) (h\<lparr>mem := (mem h)(w := v)\<rparr>, A)"
| grown: "unat (sz (kern h)) \<le> unat (sz k) \<Longrightarrow> unat (sz k) \<le> 2 ^ 31 \<Longrightarrow> prog_step grow sz (h, A) (h\<lparr>kern := k\<rparr>, A)"

definition live :: "('k \<Rightarrow> u32) \<Rightarrow> 'k heap \<Rightarrow> u32 list \<Rightarrow> u32 set \<Rightarrow> bool" where
  "live sz h as A \<longleftrightarrow> alloc_ok sz h as \<and> (A \<noteq> {} \<longrightarrow> heap_ok sz h as) \<and>
     (\<forall>a\<in>A. unat (base h) + 8 \<le> unat a \<and> 0 < unat (mem h (a + 4)) \<and> blk_end (mem h) a \<le> unat (sz (kern h)) \<and>
        blk (mem h) a \<inter> free_bytes (mem h) as = {}) \<and>
     (\<forall>a\<in>A. \<forall>c\<in>A. a \<noteq> c \<longrightarrow> blk (mem h) a \<inter> blk (mem h) c = {})"

lemma liveD:
  assumes "live sz h as A" and "a \<in> A"
  shows "heap_ok sz h as" "unat (base h) + 8 \<le> unat a" "0 < unat (mem h (a + 4))"
    "blk_end (mem h) a \<le> unat (sz (kern h))" "blk (mem h) a \<inter> free_bytes (mem h) as = {}"
    "c \<in> A \<Longrightarrow> a \<noteq> c \<Longrightarrow> blk (mem h) a \<inter> blk (mem h) c = {}"
  using assms by (auto simp: live_def)

lemma live_alloc_ok: "live sz h as A \<Longrightarrow> alloc_ok sz h as"
  by (simp add: live_def)

lemma alloc_ok_bounds: "alloc_ok sz h as \<Longrightarrow> unat (base h) + 8 \<le> unat (sz (kern h)) \<and> unat (sz (kern h)) \<le> 2 ^ 31"
  by (auto simp: alloc_ok_def heap_ok_def ring_def)

lemma live_words:
  assumes l: "live sz h as A" and a: "a \<in> A" and w: "w = a \<or> w = a + 4"
  shows "unat w \<in> blk (mem h) a" "unat w \<notin> inner (mem h) (base h) as" "unat w < unat (sz (kern h))"
proof -
  note d = liveD [OF l a]
  show 1: "unat w \<in> blk (mem h) a"
    using header_blk [of "mem h" a w] d w alloc_ok_bounds [OF live_alloc_ok [OF l]] by auto
  show "unat w \<notin> inner (mem h) (base h) as"
    using 1 d(2,5) by (auto simp: inner_def blk_def)
  show "unat w < unat (sz (kern h))" using 1 d(4) by (auto simp: blk_def)
qed

lemma free_below: "heap_ok sz h as \<Longrightarrow> free_bytes (mem h) as \<subseteq> {..<unat (sz (kern h))}"
  by (fastforce simp: heap_ok_def free_bytes_def blk_def dest: ringD(9))

lemma alloc_free_below: "alloc_ok sz h as \<Longrightarrow> free_bytes (mem h) as \<subseteq> {..<unat (sz (kern h))}"
  using free_below [of sz h as] by (cases "heap_ok sz h as") (simp_all add: alloc_ok_def free_bytes_def)

lemma live_keep:
  assumes l: "live sz h as A" and b: "base h' = base h"
    and frame: "\<forall>w. unat w \<notin> inner (mem h) (base h) as \<union> {unat (sz (kern h))..} \<longrightarrow> mem h' w = mem h w"
    and a: "a \<in> A"
  shows "mem h' (a + 4) = mem h (a + 4)" "blk_end (mem h') a = blk_end (mem h) a" "blk (mem h') a = blk (mem h) a"
proof -
  have "mem h' (a + 4) = mem h (a + 4)" using live_words(2,3) [OF l a, of "a + 4"] frame by auto
  then show "mem h' (a + 4) = mem h (a + 4)" "blk_end (mem h') a = blk_end (mem h) a" "blk (mem h') a = blk (mem h) a"
    by (simp_all add: blk_def blk_end_def)
qed

lemma live_malloc:
  assumes l: "live sz h as A" and h': "heap_ok sz h' as'" and r: "result_ok sz h as nunits r h' as'" and n: "0 < nunits"
  shows "live sz h' as' (if r = 0 then A else insert (r - 8) A)"
    "r \<noteq> 0 \<Longrightarrow> r - 8 \<notin> A \<and> unat r = unat (r - 8) + 8 \<and> mem h' (r - 8 + 4) = nunits"
proof -
  let ?new = "{unat (sz (kern h))..<unat (sz (kern h'))}"
  from r have b: "base h' = base h" and z: "unat (sz (kern h)) \<le> unat (sz (kern h'))"
    and fr: "\<forall>w. unat w \<notin> inner (mem h) (base h) as \<union> {unat (sz (kern h))..} \<longrightarrow> mem h' w = mem h w"
    by (auto simp: result_ok_def)
  note keep = live_keep [OF l b fr]
  have below: "free_bytes (mem h) as \<union> ?new \<subseteq> {..<unat (sz (kern h'))}"
    using alloc_free_below [OF live_alloc_ok [OF l]] z by auto
  have ok: "alloc_ok sz h' as'" using h' by (simp add: alloc_ok_def)
  have z31: "unat (sz (kern h')) \<le> 2 ^ 31" using alloc_ok_bounds [OF ok] by simp
  have old: "unat (base h') + 8 \<le> unat a \<and> 0 < unat (mem h' (a + 4)) \<and> blk_end (mem h') a \<le> unat (sz (kern h')) \<and>
      blk (mem h') a \<inter> (free_bytes (mem h) as \<union> ?new) = {}" if "a \<in> A" for a
    using liveD(2-5) [OF l that] keep [OF that] z b by (auto simp: blk_def [of "mem h"])
  have pair: "blk (mem h') a \<inter> blk (mem h') c = {}" if "a \<in> A" "c \<in> A" "a \<noteq> c" for a c
    using liveD(6) [OF l that] keep(3) that by simp
  consider "r = 0" "free_bytes (mem h') as' = free_bytes (mem h) as"
    | a where "r = a + 8" "unat (base h) + 8 \<le> unat a" "mem h' (a + 4) = nunits"
      "blk (mem h') a \<subseteq> free_bytes (mem h) as \<union> ?new" "free_bytes (mem h') as' = free_bytes (mem h) as \<union> ?new - blk (mem h') a"
    using r unfolding result_ok_def by auto
  then have "live sz h' as' (if r = 0 then A else insert (r - 8) A) \<and>
    (r \<noteq> 0 \<longrightarrow> r - 8 \<notin> A \<and> unat r = unat (r - 8) + 8 \<and> mem h' (r - 8 + 4) = nunits)"
  proof cases
    case 1
    then show ?thesis using old pair ok h' by (auto simp: live_def)
  next
    case (2 a)
    have pos: "0 < unat (mem h' (a + 4))" using n 2(3) by (simp add: word_less_nat_alt)
    have sub: "blk (mem h') a \<subseteq> {..<unat (sz (kern h'))}" using 2(4) below by blast
    have e: "blk_end (mem h') a \<le> unat (sz (kern h'))"
    proof -
      have "blk_end (mem h') a - 1 \<in> blk (mem h') a" using pos by (auto simp: blk_def blk_end_def)
      with sub show ?thesis by auto
    qed
    have a8: "unat (a + 8) = unat a + 8" using e z31 pos by (intro unat_add8) (simp add: blk_end_def)
    have "a + 8 \<noteq> 0"
    proof
      assume "a + 8 = 0"
      then have "unat (a + 8) = 0" by simp
      with a8 show False by simp
    qed
    then have r0: "r \<noteq> 0" "r - 8 = a" using 2(1) by simp_all
    have aA: "blk (mem h') c \<inter> blk (mem h') a = {}" if "c \<in> A" for c using old [OF that] 2(4) by blast
    have ne: "blk (mem h') a \<noteq> {}" using pos by (auto simp: blk_def blk_end_def)
    then have notin: "a \<notin> A" using aA by blast
    have "blk (mem h') c \<inter> free_bytes (mem h') as' = {}" if "c \<in> insert a A" for c
      using that old 2(5) by blast
    then have "live sz h' as' (insert a A)"
      unfolding live_def using ok h' old pair aA 2(2) pos e b by (auto simp: Int_commute)
    then show ?thesis using r0 notin a8 2(1,3) by simp
  qed
  then show "live sz h' as' (if r = 0 then A else insert (r - 8) A)"
    "r \<noteq> 0 \<Longrightarrow> r - 8 \<notin> A \<and> unat r = unat (r - 8) + 8 \<and> mem h' (r - 8 + 4) = nunits" by blast+
qed

lemma live_free:
  assumes l: "live sz h as A" and a: "a \<in> A" and n: "length as < n"
  shows "\<exists>h' as'. ufree n (a + 8) h = Ok h' \<and> live sz h' as' (A - {a}) \<and> length as' \<le> Suc (length as) \<and>
    free_bytes (mem h') as' = free_bytes (mem h) as \<union> blk (mem h) a"
proof -
  note d = liveD [OF l a]
  from ufree_spec [OF d(1-5) n] obtain h' as' where h': "ufree n (a + 8) h = Ok h'" "heap_ok sz h' as'" "kern h' = kern h"
    "base h' = base h" "free_bytes (mem h') as' = free_bytes (mem h) as \<union> blk (mem h) a" "length as' \<le> Suc (length as)"
    "\<forall>w. unat w \<notin> inner (mem h) (base h) as \<union> blk (mem h) a \<longrightarrow> mem h' w = mem h w" by blast
  have keep: "mem h' (c + 4) = mem h (c + 4)" if "c \<in> A" "c \<noteq> a" for c
    using live_words(1,2) [OF l that(1), of "c + 4"] d(6) [OF that(1)] that(2) h'(7) by blast
  then have e: "blk_end (mem h') c = blk_end (mem h) c" "blk (mem h') c = blk (mem h) c" if "c \<in> A" "c \<noteq> a" for c
    using that by (simp_all add: blk_def blk_end_def)
  have "live sz h' as' (A - {a})" unfolding live_def
  proof (intro conjI ballI impI)
    show "alloc_ok sz h' as'" "heap_ok sz h' as'" using h'(2) by (simp_all add: alloc_ok_def)
    fix c assume c: "c \<in> A - {a}"
    then have c': "c \<in> A" "c \<noteq> a" by auto
    show "unat (base h') + 8 \<le> unat c" "0 < unat (mem h' (c + 4))" "blk_end (mem h') c \<le> unat (sz (kern h'))"
      using liveD(2-4) [OF l c'(1)] keep [OF c'] e(1) [OF c'] h'(3,4) by simp_all
    show "blk (mem h') c \<inter> free_bytes (mem h') as' = {}"
      using liveD(5) [OF l c'(1)] liveD(6) [OF l c'(1) a c'(2)] unfolding h'(5) e(2) [OF c'] by blast
    show "blk (mem h') c \<inter> blk (mem h') x = {}" if "x \<in> A - {a}" "c \<noteq> x" for x
      using liveD(6) [OF l c'(1), of x] e(2) [OF c'] e(2) [of x] that by simp
  qed
  then show ?thesis using h' by blast
qed

lemma live_store:
  assumes l: "live sz h as A" and a: "a \<in> A" and w: "unat a + 8 \<le> unat w" "unat w + 4 \<le> blk_end (mem h) a"
  shows "live sz (h\<lparr>mem := (mem h)(w := v)\<rparr>) as A"
proof -
  let ?h = "h\<lparr>mem := (mem h)(w := v)\<rparr>"
  note d = liveD [OF l a]
  from d(1) have r: "ring (mem h) (base h) (unat (sz (kern h))) as" by (simp add: heap_ok_def)
  have wb: "unat w \<in> blk (mem h) a" using w by (auto simp: blk_def)
  then have winn: "unat w \<notin> inner (mem h) (base h) as" using d(2,5) by (auto simp: inner_def blk_def)
  have same: "mem ?h x = mem h x \<and> mem ?h (x + 4) = mem h (x + 4)" if "x \<in> set (base h # as)" for x
    using header_inner [OF r that, of w] winn by auto
  have keep: "mem ?h (c + 4) = mem h (c + 4)" if c: "c \<in> A" for c
  proof (cases "c = a")
    case True
    have "unat (a + 4) = unat a + 4"
      using d(3,4) alloc_ok_bounds [OF live_alloc_ok [OF l]] by (intro unat_add4) (simp add: blk_end_def)
    then show ?thesis using True w by auto
  next
    case False
    then show ?thesis using live_words(1) [OF l c, of "c + 4"] d(6) [OF c] wb by auto
  qed
  then have e: "blk_end (mem ?h) c = blk_end (mem h) c" "blk (mem ?h) c = blk (mem h) c" if "c \<in> A" for c
    using that by (simp_all only: blk_def blk_end_def)
  have z: "unat (sz (kern h)) \<le> unat (sz (kern h))" "unat (sz (kern h)) \<le> 2 ^ 31" using ringD(6) [OF r] by simp_all
  note rc = ring_cong [where m' = "mem ?h", OF r same z]
  have "heap_ok sz ?h as" using rc(1) d(1) by (simp add: heap_ok_def)
  then show ?thesis
    using l keep e rc(2) unfolding live_def alloc_ok_def by simp
qed

lemma live_grow:
  assumes l: "live sz h as A" and k: "unat (sz (kern h)) \<le> unat (sz k)" "unat (sz k) \<le> 2 ^ 31"
  shows "live sz (h\<lparr>kern := k\<rparr>) as A"
proof -
  have "heap_ok sz (h\<lparr>kern := k\<rparr>) as" if "heap_ok sz h as"
    using that ring_cong(1) [of "mem h" "base h" "unat (sz (kern h))" as "mem h", OF _ _ k] by (simp add: heap_ok_def)
  then show ?thesis using l k unfolding live_def alloc_ok_def by (auto intro: le_trans)
qed

text \<open>Where a program starts: \<open>freep\<close> is null and nothing is allocated.\<close>

definition heap_start :: "('k \<Rightarrow> u32) \<Rightarrow> 'k heap \<Rightarrow> bool" where
  "heap_start sz h \<longleftrightarrow> freep h = 0 \<and> base h \<noteq> 0 \<and> unat (base h) + 8 \<le> unat (sz (kern h)) \<and> unat (sz (kern h)) \<le> 2 ^ 31"

text \<open>More fuel does not change a result.\<close>

lemma free_loop_Suc: "free_loop (Suc n) m bp p = (if stop m bp p then Ok p else free_loop n m bp (m p))"
  by (auto simp: stop_def)

lemma free_loop_more: "free_loop n m bp p = Ok q \<Longrightarrow> n \<le> n' \<Longrightarrow> free_loop n' m bp p = Ok q"
proof (induction n arbitrary: p n')
  case (Suc n)
  then obtain k where "n' = Suc k" "n \<le> k" by (cases n') auto
  with Suc show ?case by (cases "stop m bp p") (simp_all add: free_loop_Suc del: free_loop.simps)
qed simp

lemma ufree_more:
  assumes "ufree n ap h = Ok x" and "n \<le> n'"
  shows "ufree n' ap h = Ok x"
proof -
  from assms(1) obtain p where p: "free_loop n (mem h) (ap - 8) (freep h) = Ok p"
    "x = h\<lparr>mem := free_join p (ap - 8) (mem h), freep := p\<rparr>" by (auto simp: ufree_def Let_def)
  with free_loop_more [OF p(1) assms(2)] show ?thesis by (simp add: ufree_def)
qed

lemma morecore_more:
  assumes "morecore grow sz n nu h = Ok x" and "n \<le> n'"
  shows "morecore grow sz n' nu h = Ok x"
proof -
  define nu' where "nu' = (if nu < 4096 then 4096 else nu)"
  let ?h = "\<lambda>p k. h\<lparr>kern := k, mem := (mem (h\<lparr>kern := k\<rparr>))(p + 4 := nu')\<rparr>"
  have m: "morecore grow sz j nu h = rbind (sbrk grow sz (nu' * 8) (kern h)) (\<lambda>(p, k).
      if p = -1 then Ok (0, h\<lparr>kern := k\<rparr>) else rbind (ufree j (p + 8) (?h p k)) (\<lambda>h. Ok (freep h, h)))" for j
    unfolding morecore_def Let_def nu'_def [symmetric] by (rule refl)
  from assms(1) obtain p k where s: "sbrk grow sz (nu' * 8) (kern h) = Ok (p, k)" unfolding m by auto
  show ?thesis
  proof (cases "p = -1")
    case True
    then show ?thesis using assms(1) by (simp add: m s)
  next
    case False
    with assms(1) obtain t where t: "ufree n (p + 8) (?h p k) = Ok t" "x = (freep t, t)" by (auto simp: m s)
    with ufree_more [OF t(1) assms(2)] False show ?thesis by (simp add: m s)
  qed
qed

lemma malloc_loop_more: "malloc_loop grow sz n nunits q p h = Ok x \<Longrightarrow> n \<le> n' \<Longrightarrow> malloc_loop grow sz n' nunits q p h = Ok x"
proof (induction n arbitrary: q p h n')
  case (Suc n)
  then obtain k where k: "n' = Suc k" "n \<le> k" by (cases n') auto
  show ?case
  proof (cases "\<not> nunits \<le> mem h (p + 4) \<and> p = freep h")
    case True
    with Suc.prems obtain r t where m: "morecore grow sz n nunits h = Ok (r, t)"
      "(if r = 0 then Ok (0, t) else malloc_loop grow sz n nunits r (mem t r) t) = Ok x" by auto
    have "(if r = 0 then Ok (0, t) else malloc_loop grow sz k nunits r (mem t r) t) = Ok x"
      using m(2) Suc.IH [OF _ k(2)] by (auto split: if_splits)
    moreover have "\<not> nunits \<le> mem h (freep h + 4)" "p = freep h" using True by auto
    ultimately show ?thesis using morecore_more [OF m(1) k(2)] by (simp add: k(1))
  next
    case False
    then show ?thesis using Suc.prems Suc.IH [OF _ k(2)] by (auto simp: k not_less)
  qed
qed simp

context more_memory
begin

lemma malloc_more: "malloc grow sz k nbytes h = Ok x \<Longrightarrow> k \<le> n \<Longrightarrow> malloc grow sz n nbytes h = Ok x"
  using malloc_loop_more unfolding malloc_def Let_def by blast

text \<open>A result that the call has with some fuel is the one of \<open>malloc_spec\<close>; only a crash of the kernel prevents it.\<close>

lemma malloc_result:
  assumes l: "live sz h as A" and nb: "unat nbytes \<le> 2 ^ 31 - 16" and r: "returns (\<lambda>n. malloc grow sz n nbytes h) (r, h')"
  shows "\<exists>as'. heap_ok sz h' as' \<and> result_ok sz h as (units nbytes) r h' as'"
proof -
  from r obtain N where "\<forall>n\<ge>N. malloc grow sz n nbytes h = Ok (r, h')" by (auto simp: returns_def)
  then have "malloc grow sz (max N (2 * length as + 4)) nbytes h = Ok (r, h')" by simp
  moreover have "2 * length as + 4 \<le> max N (2 * length as + 4)" by simp
  ultimately show ?thesis using malloc_spec [OF live_alloc_ok [OF l] nb] by fastforce
qed

lemma malloc_returns:
  assumes l: "live sz h as A" and nb: "unat nbytes \<le> 2 ^ 31 - 16" and c: "\<not> crashes grow (kern h)"
  shows "\<exists>x. returns (\<lambda>n. malloc grow sz n nbytes h) x"
  using malloc_spec [OF live_alloc_ok [OF l] nb order_refl] c malloc_more unfolding returns_def by blast

lemma prog_step_live:
  assumes "prog_step grow sz s t" and "live sz (fst s) as (snd s)"
  shows "\<exists>as'. live sz (fst t) as' (snd t)"
  using assms(1)
proof cases
  case (got nbytes h r h' A)
  then have l: "live sz h as A" using assms(2) by simp
  from malloc_result [OF l got(3,4)] obtain as' where "heap_ok sz h' as'" "result_ok sz h as (units nbytes) r h' as'" by blast
  from live_malloc(1) [OF l this units_bounds(1) [OF got(3)]] show ?thesis using got by auto
next
  case (none nbytes h h' A)
  then have l: "live sz h as A" using assms(2) by simp
  from malloc_result [OF l none(3,4)] obtain as' where "heap_ok sz h' as'" "result_ok sz h as (units nbytes) 0 h' as'" by blast
  from live_malloc(1) [OF l this units_bounds(1) [OF none(3)]] show ?thesis using none by auto
next
  case (freed a A h h')
  then have l: "live sz h as A" using assms(2) by simp
  from live_free [OF l freed(3) lessI] obtain h1 as1 where h1: "ufree (Suc (length as)) (a + 8) h = Ok h1" "live sz h1 as1 (A - {a})"
    by blast
  have "\<forall>n\<ge>Suc (length as). ufree n (a + 8) h = Ok h1"
    using ufree_more [OF h1(1)] by blast
  from returns_unique [OF freed(4) this] h1(2) freed show ?thesis by auto
next
  case (stored a A w h v)
  then have "live sz h as A" using assms(2) by simp
  from live_store [OF this stored(3-5)] show ?thesis using stored by auto
next
  case (grown h k A)
  then have "live sz h as A" using assms(2) by simp
  from live_grow [OF this grown(3,4)] show ?thesis using grown by auto
qed

lemma prog_live:
  assumes "(prog_step grow sz)\<^sup>*\<^sup>* (h0, {}) s" and "heap_start sz h0"
  shows "\<exists>as. live sz (fst s) as (snd s)"
  using assms(1)
proof (induction rule: rtranclp_induct)
  case base
  have "live sz h0 [] {}" using assms(2) by (simp add: live_def alloc_ok_def heap_start_def)
  then show ?case by auto
next
  case (step s t)
  then show ?case using prog_step_live by blast
qed

text \<open>
  What a program can rely on: its blocks do not overlap; a request of at most 2 GB less 16 bytes returns 0 or
  enough bytes in the process that belong to no other block; and \<open>free\<close> takes a block back.
\<close>

lemma malloc_safe:
  assumes "(prog_step grow sz)\<^sup>*\<^sup>* (h0, {}) (h, A)" and "heap_start sz h0"
  shows "(\<forall>a\<in>A. blk_end (mem h) a \<le> unat (sz (kern h)) \<and> (\<exists>h'. returns (\<lambda>n. ufree n (a + 8) h) h') \<and>
      (\<forall>c\<in>A. a \<noteq> c \<longrightarrow> blk (mem h) a \<inter> blk (mem h) c = {})) \<and>
    (\<forall>nbytes. unat nbytes \<le> 2 ^ 31 - 16 \<longrightarrow>
      (\<not> crashes grow (kern h) \<longrightarrow> (\<exists>x. returns (\<lambda>n. malloc grow sz n nbytes h) x)) \<and>
      (\<forall>r h'. returns (\<lambda>n. malloc grow sz n nbytes h) (r, h') \<and> r \<noteq> 0 \<longrightarrow>
         unat r + unat nbytes \<le> unat (sz (kern h')) \<and>
         (\<forall>a\<in>A. blk (mem h') a = blk (mem h) a \<and> {unat r..<unat r + unat nbytes} \<inter> blk (mem h') a = {})))"
proof -
  from prog_live [OF assms] obtain as where l: "live sz h as A" by auto
  have freed: "\<exists>h'. returns (\<lambda>n. ufree n (a + 8) h) h'" if "a \<in> A" for a
  proof -
    from live_free [OF l that lessI] obtain h1 where "ufree (Suc (length as)) (a + 8) h = Ok h1" by blast
    then have "\<forall>n\<ge>Suc (length as). ufree n (a + 8) h = Ok h1" using ufree_more by blast
    then show ?thesis unfolding returns_def by blast
  qed
  have got: "unat r + unat nbytes \<le> unat (sz (kern h')) \<and>
      (\<forall>a\<in>A. blk (mem h') a = blk (mem h) a \<and> {unat r..<unat r + unat nbytes} \<inter> blk (mem h') a = {})"
    if nb: "unat nbytes \<le> 2 ^ 31 - 16" and r: "returns (\<lambda>n. malloc grow sz n nbytes h) (r, h')" "r \<noteq> 0" for nbytes r h'
  proof -
    from malloc_result [OF l nb r(1)] obtain as' where m: "heap_ok sz h' as'" "result_ok sz h as (units nbytes) r h' as'" by blast
    note lm = live_malloc [OF l m units_bounds(1) [OF nb]]
    have l': "live sz h' as' (insert (r - 8) A)" and r8: "r - 8 \<notin> A" "unat r = unat (r - 8) + 8" "mem h' (r - 8 + 4) = units nbytes"
      using lm r(2) by auto
    have e: "unat r + unat nbytes \<le> blk_end (mem h') (r - 8)"
      unfolding blk_end_def r8(3) using r8(2) units_bounds(3) [OF nb] by simp
    have "blk_end (mem h') (r - 8) \<le> unat (sz (kern h'))" using liveD(4) [OF l'] by blast
    moreover have "blk (mem h') a = blk (mem h) a" if "a \<in> A" for a
      by (rule live_keep(3) [OF l _ _ that]) (use m(2) in \<open>auto simp: result_ok_def\<close>)
    moreover have "{unat r..<unat r + unat nbytes} \<subseteq> blk (mem h') (r - 8)" using e r8(2) by (auto simp: blk_def)
    moreover have "blk (mem h') (r - 8) \<inter> blk (mem h') a = {}" if "a \<in> A" for a
      using liveD(6) [OF l', of "r - 8" a] that r8(1) by auto
    ultimately show ?thesis using e by fastforce
  qed
  show ?thesis
  proof (intro conjI ballI allI impI)
    show "blk_end (mem h) a \<le> unat (sz (kern h))" "\<exists>h'. returns (\<lambda>n. ufree n (a + 8) h) h'" if "a \<in> A" for a
      using liveD(4) [OF l that] freed [OF that] .
    show "blk (mem h) a \<inter> blk (mem h) c = {}" if "a \<in> A" "c \<in> A" "a \<noteq> c" for a c using liveD(6) [OF l that] .
    show "\<exists>x. returns (\<lambda>n. malloc grow sz n nbytes h) x" if "unat nbytes \<le> 2 ^ 31 - 16" "\<not> crashes grow (kern h)" for nbytes
      by (rule malloc_returns [OF l that])
  qed (use got in blast)+
qed

end

text \<open>Near 4 GB the number of units wraps around: the block that is returned has no room at all.\<close>

lemma units_wrap: "unat nbytes \<ge> 2 ^ 32 - 7 \<Longrightarrow> units nbytes = 1"
proof -
  assume n: "unat nbytes \<ge> 2 ^ 32 - 7"
  have "unat (nbytes + 7) = (unat nbytes + 7) mod 2 ^ 32" by (simp add: unat_word_ariths)
  also have "\<dots> = unat nbytes + 7 - 2 ^ 32" using n u32_bound [of nbytes] by (simp add: le_mod_geq)
  finally have "unat (nbytes + 7) < 8" using u32_bound [of nbytes] by simp
  then have "(nbytes + 7) div 8 = 0" by (intro u32_eqI) (simp add: unat_div)
  then show ?thesis by (simp add: units_def add.commute)
qed

lemma malloc_wraps: "unat nbytes \<ge> 2 ^ 32 - 7 \<Longrightarrow> malloc grow sz n nbytes h = malloc grow sz n 0 h"
  unfolding malloc_def by (simp add: units_wrap) (simp add: units_def)


text \<open>
  Three calls on a kernel that always grants memory: the blocks are cut from the end of the 32 kB that the
  first call gets, and the second block, once freed, is found again.
\<close>

definition three_calls :: "(u32 \<times> u32 \<times> u32 \<times> u32) res" where
  "three_calls =
     (let grow = (\<lambda>n k. Ok (0, k + word_of_int n));
          h = \<lparr>mem = (\<lambda>_. 0), base = 0x1000, freep = 0, kern = 0x2000\<rparr> in
      rbind (malloc grow (\<lambda>k. k) 9 10 h) (\<lambda>(a, h).
      rbind (malloc grow (\<lambda>k. k) 9 20 h) (\<lambda>(b, h).
      rbind (ufree 9 b h) (\<lambda>h.
      rbind (malloc grow (\<lambda>k. k) 9 20 h) (\<lambda>(c, h). Ok (a, b, c, kern h))))))"

lemma malloc_example: "three_calls = Ok (0x9FF0, 0x9FD0, 0x9FD0, 0xA000)"
  by code_simp

end
