(* ===== verification/Image.thy ===== *)
theory Image imports Swapping Vm begin

text \<open>
  What allocating, mapping and freeing memory leave of the processes: their sizes, page tables, saved
  registers and names, that is, all but their resident-set counts and wakeups.
\<close>

section \<open>Operations that keep the images of the processes\<close>

definition same_image :: "'a file_state_scheme \<Rightarrow> 'a file_state_scheme \<Rightarrow> bool" where
  "same_image s t \<longleftrightarrow> cur t = cur s \<and> (\<forall>i. p_sz (procs t i) = p_sz (procs s i) \<and> p_pgdir (procs t i) = p_pgdir (procs s i) \<and>
     p_tf (procs t i) = p_tf (procs s i) \<and> p_name (procs t i) = p_name (procs s i))"

interpretation image: kernel_frame same_image
  by unfold_locales (auto simp: same_image_def wakeup_def wake_def)

lemma image_upd [simp]:
  fixes s t :: "'a mem_state_scheme"
  shows "same_image s (t\<lparr>pmem := a\<rparr>) = same_image s t" "same_image s (t\<lparr>freelist := b\<rparr>) = same_image s t"
  "same_image s (t\<lparr>free_pages_count := c\<rparr>) = same_image s t" "same_image s (t\<lparr>kmem_locked := d\<rparr>) = same_image s t"
  "same_image s (t\<lparr>swap_slots := e\<rparr>) = same_image s t" "same_image s (t\<lparr>T_h := f\<rparr>) = same_image s t"
  "same_image s (t\<lparr>N_pg := g\<rparr>) = same_image s t" "same_image s (set_page v bs t) = same_image s t"
  "same_image s (st32 v w t) = same_image s t" "same_image s (pop_free t) = same_image s t"
  "same_image s (calc_rss i t) = same_image s t" "same_image s (adapt t) = same_image s t"
  by (auto simp: same_image_def set_page_def st32_def pop_free_def calc_rss_def adapt_def upd_proc_def Let_def)

lemma image_lock [wk]:
  fixes s t :: "'a mem_state_scheme"
  shows "same_image s t \<Longrightarrow> keeps same_image s (\<lambda>t. t) (kmem_acquire t)"
    "same_image s t \<Longrightarrow> keeps same_image s (\<lambda>t. t) (kmem_release t)"
  by (simp_all add: kmem_acquire_def kmem_release_def)

lemma image_kfree [wk]:
  fixes s t :: "'a mem_state_scheme"
  shows "same_image s t \<Longrightarrow> keeps same_image s (\<lambda>t. t) (kfree v t)"
  unfolding kfree_def by (auto simp: Let_def intro!: keeps_bind1 wk)

lemma image_say_int [wk]: "same_image s t \<Longrightarrow> keeps same_image s (\<lambda>t. t) (say_int n t)"
  by (auto simp: say_int_def intro!: keeps_console)

lemma image_report [wk]:
  fixes s t :: "'a mem_state_scheme"
  shows "same_image s t \<Longrightarrow> keeps same_image s (\<lambda>t. t) (report_swap t)"
  unfolding report_swap_def by (auto intro!: keeps_bind1 wk)

lemma image_count [wk]:
  fixes s t :: "'a mem_state_scheme"
  shows "same_image s t \<Longrightarrow> keeps same_image s snd (get_free_pages t)"
  unfolding get_free_pages_def by (auto intro!: keeps_bind1 wk)

lemma image_write_swap [wk]:
  fixes s t :: "'a mem_state_scheme"
  shows "same_image s t \<Longrightarrow> keeps same_image s (\<lambda>t. t) (write_to_swap v i t)"
  unfolding write_to_swap_def
  by (erule image.lift) (rule image.loop, auto intro!: keeps_bind1 keeps_bind2 wk split: prod.splits)

lemma image_slot:
  fixes s t :: "'a mem_state_scheme"
  shows "same_image s t \<Longrightarrow> same_image s (snd (find_free_slot t))"
  by (simp add: find_free_slot_def split: option.splits)

lemma image_victim:
  fixes s t :: "'a mem_state_scheme"
  shows "same_image s t \<Longrightarrow> same_image s (snd (find_victim t))"
proof -
  have "same_image s (snd (snd (fold consider_victim is x)))" if "same_image s (snd (snd x))" for "is" and x :: "nat option \<times> int \<times> 'a mem_state_scheme"
    using that
  proof (induction "is" arbitrary: x)
    case (Cons i "is")
    have "same_image s (snd (snd (consider_victim i x)))" using Cons.prems
      by (cases x) (simp add: consider_victim_def Let_def)
    then show ?case using Cons.IH by simp
  qed simp
  from this [of "(None, -1, t)" "[0..<NPROC]"] show "same_image s t \<Longrightarrow> same_image s (snd (find_victim t))"
    by (auto simp: find_victim_def split: prod.splits)
qed

lemma image_second_chance:
  fixes s t :: "'a mem_state_scheme"
  shows "same_image s t \<Longrightarrow> same_image s (snd (second_chance pd vas t))"
  by (induction vas arbitrary: t) (simp_all split: option.splits)

lemma image_choose:
  fixes s t :: "'a mem_state_scheme"
  shows "same_image s t \<Longrightarrow> same_image s (snd (choose_page pd sz t))"
  using image_second_chance [of s t pd "page_addrs sz"]
  by (auto simp: choose_page_def split: prod.splits option.splits)

lemma image_swap_out_page [wk]:
  fixes s t :: "'a mem_state_scheme"
  shows "same_image s t \<Longrightarrow> keeps same_image s (\<lambda>t. t) (swap_out_page e t)"
  using image_slot [of s t]
  by (auto simp: swap_out_page_def Let_def split: prod.splits option.splits intro!: keeps_bind1 wk)

lemma image_swap_out [wk]:
  fixes s t :: "'a mem_state_scheme"
  shows "same_image s t \<Longrightarrow> keeps same_image s (\<lambda>t. t) (swap_out_one_page t)"
proof -
  assume t: "same_image s t"
  obtain v u where u: "find_victim t = (v, u)" by (cases "find_victim t")
  have 1: "same_image s u" using image_victim [OF t] u by simp
  show ?thesis
  proof (cases v)
    case (Some i)
    obtain p w where w: "choose_page (p_pgdir (procs u i)) (p_sz (procs u i)) u = (p, w)" by fastforce
    have "same_image s w" using image_choose [OF 1] w by (metis snd_conv)
    then show ?thesis by (auto simp: swap_out_one_page_def u Some w split: option.splits intro: wk)
  qed (simp add: swap_out_one_page_def u)
qed

lemma image_swap_rounds [wk]:
  fixes s t :: "'a mem_state_scheme"
  shows "same_image s t \<Longrightarrow> keeps same_image s (\<lambda>t. t) (rfold (\<lambda>_. swap_out_one_page) xs t)"
  by (erule image.lift) (rule image.loop, rule wk, simp)

lemma image_swap_out_if_needed [wk]:
  fixes s t :: "'a mem_state_scheme"
  shows "same_image s t \<Longrightarrow> keeps same_image s (\<lambda>t. t) (swap_out_if_needed t)"
  unfolding swap_out_if_needed_def by (auto intro!: keeps_bind1 keeps_bind2 wk split: prod.splits)

lemma image_kalloc [wk]:
  fixes s t :: "'a mem_state_scheme"
  shows "same_image s t \<Longrightarrow> keeps same_image s snd (kalloc t)"
  unfolding kalloc_def Let_def by (auto intro!: keeps_bind1 keeps_bind2 wk split: prod.splits)

lemma image_walk [wk]:
  fixes s t :: "'a mem_state_scheme"
  shows "same_image s t \<Longrightarrow> keeps same_image s snd (walkpgdir pd va alloc t)"
  unfolding walkpgdir_def Let_def by (auto intro!: keeps_bind1 keeps_bind2 wk split: prod.splits)

lemma image_map_loop [wk]:
  fixes s t :: "'a mem_state_scheme"
  shows "same_image s t \<Longrightarrow> keeps same_image s snd (map_loop pd perm n a pa t)"
  by (induction n arbitrary: a pa t) (auto intro!: keeps_bind2 wk split: prod.splits option.splits)

lemma image_mappages [wk]:
  fixes s t :: "'a mem_state_scheme"
  shows "same_image s t \<Longrightarrow> keeps same_image s snd (mappages pd va len pa perm t)"
  unfolding mappages_def Let_def by (rule wk)

lemma image_free_slot [wk]:
  fixes s t :: "'a mem_state_scheme"
  shows "same_image s t \<Longrightarrow> keeps same_image s (\<lambda>t. t) (free_swap_slot i t)"
  unfolding free_swap_slot_def by (simp add: Let_def)

lemma image_dealloc_pte [wk]:
  fixes s t :: "'a mem_state_scheme"
  shows "same_image s t \<Longrightarrow> keeps same_image s (\<lambda>t. t) (dealloc_pte e t)"
  unfolding dealloc_pte_def by (auto simp: Let_def intro!: keeps_bind1 wk)

lemma image_dealloc_loop [wk]:
  fixes s t :: "'a mem_state_scheme"
  shows "same_image s t \<Longrightarrow> keeps same_image s (\<lambda>t. t) (dealloc_loop pd old a t)"
proof (induction pd old a t rule: dealloc_loop.induct)
  case (1 pd old a t)
  define a' where "a' = (case walk_lookup pd a t of None \<Rightarrow> PGADDR (PDX a + 1) 0 0 | Some _ \<Rightarrow> a + 4096)"
  have IH: "keeps same_image s (\<lambda>t. t) (dealloc_loop pd old a' u)" if "a < old" "\<not> a' \<le> a" "same_image s u"
    "(case walk_lookup pd a t of None \<Rightarrow> Ok t | Some e \<Rightarrow> dealloc_pte e t) = Ok u" for u
    using 1(1) [OF that(1) a'_def that(2)] that(3,4) by simp
  show ?case
    unfolding dealloc_loop.simps [of pd old a t] Let_def a'_def [symmetric]
    using 1(2) IH by (auto intro!: keeps_bind1 wk split: option.splits)
qed

lemma image_deallocuvm [wk]:
  fixes s t :: "'a mem_state_scheme"
  shows "same_image s t \<Longrightarrow> keeps same_image s snd (deallocuvm pd old new t)"
  unfolding deallocuvm_def by (auto intro!: keeps_bind1 wk)


lemma image_alloc_loop [wk]:
  fixes s t :: "'a mem_state_scheme"
  shows "same_image s t \<Longrightarrow> keeps same_image s snd (alloc_loop pd old new n a t)"
  by (induction n arbitrary: a t)
    (auto simp: Let_def intro!: keeps_bind1 keeps_bind2 wk split: prod.splits)

end
