(* ===== verification/Usermem.thy ===== *)
theory Usermem imports Malloc Image Paging begin

text \<open>
  The user-level allocator on the kernel's \<open>growproc\<close>: the contract of \<open>growproc\<close>, and what programs get from \<open>malloc\<close> and \<open>free\<close>.
\<close>

section \<open>The contract of growproc\<close>

lemma allocuvm_outcome:
  assumes "allocuvm pd old new s = Ok (r, t)" and "old \<le> new"
  shows "r = 0 \<and> same_image s t \<or> r = new \<and> new < KERNBASE"
proof (cases "new \<ge> KERNBASE")
  case True
  then show ?thesis using assms by (auto simp: allocuvm_def)
next
  case False
  with assms obtain ok u where "alloc_loop pd old new ((unat new - unat (PGROUNDUP old) + 4095) div 4096) (PGROUNDUP old) s = Ok (ok, u)"
    "if ok then r = new else r = 0 \<and> t = u"
    by (auto simp: allocuvm_def Let_def split: if_splits)
  moreover from this(1) have "same_image s u" using keepsD [OF image_alloc_loop [of s s]] by fastforce
  ultimately show ?thesis using False by (auto split: if_splits)
qed

lemma growproc_ok:
  fixes s :: "'a mem_state_scheme"
  assumes n: "0 < n" "n < 2 ^ 31" and z: "unat (p_sz (myproc s)) \<le> 2 ^ 31" and g: "growproc n s = Ok (r, t)"
  shows "if r < 0 then p_sz (myproc t) = p_sz (myproc s)
    else unat (p_sz (myproc t)) = unat (p_sz (myproc s)) + nat n \<and> unat (p_sz (myproc t)) \<le> 2 ^ 31"
proof -
  let ?old = "p_sz (myproc s)"
  define new where "new = ?old + word_of_int n"
  have new: "unat new = unat ?old + nat n"
  proof -
    have "unat (word_of_nat (nat n) :: u32) = nat n" using n(2) by (intro u32_of_nat_unat) simp
    then have "unat (word_of_int n :: u32) = nat n" using n(1) by simp
    then show ?thesis unfolding new_def using n z by (simp add: unat_word_ariths)
  qed
  then have "?old \<le> new" by (simp add: word_le_nat_alt)
  obtain q u where a: "allocuvm (p_pgdir (myproc s)) ?old new s = Ok (q, u)"
    "(if q = 0 then Ok (-1, u) else
       let s = upd_proc (cur u) (\<lambda>p. p\<lparr>p_sz := q\<rparr>) u in rbind (switchuvm (Some (cur s)) s) (\<lambda>s. Ok (0, s))) = Ok (r, t)"
    using g n(1) by (auto simp: growproc_def Let_def new_def)
  from allocuvm_outcome [OF a(1) \<open>?old \<le> new\<close>] show ?thesis
  proof
    assume "q = 0 \<and> same_image s u"
    then show ?thesis using a(2) by (auto simp: same_image_def myproc_def)
  next
    assume q: "q = new \<and> new < KERNBASE"
    moreover have "new \<noteq> 0" using new n(1) by auto
    ultimately have "r = 0" "p_sz (myproc t) = new"
      using a(2) by (auto simp: switchuvm_def myproc_def upd_proc_def Let_def split: if_splits)
    moreover have "unat new \<le> 2 ^ 31" using q by (simp add: word_less_nat_alt)
    ultimately show ?thesis using new by simp
  qed
qed

interpretation kernel: more_memory growproc "\<lambda>s. p_sz (myproc s)"
  by unfold_locales (rule growproc_ok)


section \<open>Programs on the kernel\<close>

text \<open>
  C34. The allocator of user programs on \<open>growproc\<close>.  Let a program start with an empty heap and then, in any
  order, call \<open>malloc\<close> (with at most 2 GB less 16 bytes), free what it holds, store into its blocks and let
  the process grow by other means.  Then its blocks do not overlap and lie inside the process, and \<open>free\<close>
  of any of them returns; a call of \<open>malloc\<close> returns unless \<open>growproc\<close> does not, and if the result
  is not null, the bytes asked for lie inside the process, outside every block, and no block is changed.
\<close>

theorem malloc_safe_on_kernel:
  fixes h :: "'a mem_state_scheme heap"
  defines "size_of \<equiv> \<lambda>s :: 'a mem_state_scheme. p_sz (myproc s)"
  assumes "(prog_step growproc size_of)\<^sup>*\<^sup>* (h0, {}) (h, A)" and "heap_start size_of h0"
  shows "(\<forall>a\<in>A. blk_end (mem h) a \<le> unat (size_of (kern h)) \<and> (\<exists>h'. returns (\<lambda>n. ufree n (a + 8) h) h') \<and>
      (\<forall>c\<in>A. a \<noteq> c \<longrightarrow> blk (mem h) a \<inter> blk (mem h) c = {})) \<and>
    (\<forall>nbytes. unat nbytes \<le> 2 ^ 31 - 16 \<longrightarrow>
      (\<not> crashes growproc (kern h) \<longrightarrow> (\<exists>x. returns (\<lambda>n. malloc growproc size_of n nbytes h) x)) \<and>
      (\<forall>r h'. returns (\<lambda>n. malloc growproc size_of n nbytes h) (r, h') \<and> r \<noteq> 0 \<longrightarrow>
         unat r + unat nbytes \<le> unat (size_of (kern h')) \<and>
         (\<forall>a\<in>A. blk (mem h') a = blk (mem h) a \<and> {unat r..<unat r + unat nbytes} \<inter> blk (mem h') a = {})))"
  using assms(2,3) unfolding size_of_def by (rule kernel.malloc_safe)


text \<open>A process that reaches up to 2 GB less a byte: it can grow no more.\<close>

definition full_heap :: "mem_state heap" where
  "full_heap = \<lparr>mem = (\<lambda>_. 0), base = 0x1000, freep = 0, kern = demo\<lparr>procs := (\<lambda>_. unused_proc\<lparr>p_sz := 0x7FFFFFFF\<rparr>)\<rparr>\<rparr>"

lemma malloc_safe_on_kernel_witness:
  "\<exists>x. returns (\<lambda>n. malloc growproc (\<lambda>s. p_sz (myproc s)) n 100 full_heap) x"
proof -
  have start: "heap_start (\<lambda>s. p_sz (myproc s)) full_heap"
    by (simp add: heap_start_def full_heap_def myproc_def)
  have "growproc n (kern full_heap) = Ok (-1, kern full_heap)" if n: "0 < n" "n < 2 ^ 31" for n
  proof -
    have "unat (word_of_nat (nat n) :: u32) = nat n" using n(2) by (intro u32_of_nat_unat) simp
    then have "unat (word_of_int n :: u32) = nat n" using n(1) by simp
    moreover have "unat (0x7FFFFFFF + word_of_int n :: u32) = unat (0x7FFFFFFF :: u32) + unat (word_of_int n :: u32)"
      using calculation n by (intro unat_add_lem [THEN iffD1]) simp
    ultimately have "KERNBASE \<le> 0x7FFFFFFF + (word_of_int n :: u32)" using n by (simp add: word_le_nat_alt)
    then show ?thesis using n(1) by (simp add: growproc_def allocuvm_def Let_def full_heap_def myproc_def)
  qed
  then have "\<not> crashes growproc (kern full_heap)" by (auto simp: crashes_def)
  with malloc_safe_on_kernel [OF rtranclp.rtrancl_refl start] show ?thesis by simp
qed

end
