(* ===== verification/Exec.thy ===== *)
theory Exec imports Image CString Paging begin

text \<open>
  \<open>exec\<close> (\<open>exec.c\<close> of the third assignment): the program file is read through the file system into a new page
  table, the argument strings go on a new stack, and only then the process changes.  An argument is a string
  without its final zero byte.
\<close>

section \<open>The program file\<close>

record elfhdr =
  e_magic :: u32
  e_entry :: u32
  e_phoff :: u32
  e_phnum :: u16

record proghdr =
  ph_type :: u32
  ph_off :: u32
  ph_vaddr :: u32
  ph_filesz :: u32
  ph_memsz :: u32

definition elf_of :: "bytes \<Rightarrow> elfhdr" where
  "elf_of bs = \<lparr>e_magic = get32 0 bs, e_entry = get32 24 bs, e_phoff = get32 28 bs, e_phnum = dec16 (drop 44 bs)\<rparr>"

definition prog_of :: "bytes \<Rightarrow> proghdr" where
  "prog_of bs = \<lparr>ph_type = get32 0 bs, ph_off = get32 4 bs, ph_vaddr = get32 8 bs, ph_filesz = get32 16 bs, ph_memsz = get32 20 bs\<rparr>"

section \<open>Loading\<close>

text \<open>The result \<open>None\<close> of the parts of \<open>exec\<close> is the jump to \<open>bad\<close>.\<close>

definition load_segment :: "u32 \<Rightarrow> nat \<Rightarrow> proghdr \<Rightarrow> u32 \<Rightarrow> 'a mem_state_scheme \<Rightarrow> (u32 option \<times> 'a mem_state_scheme) res" where
  "load_segment pgdir ip ph sz s =
     (if ph_memsz ph < ph_filesz ph then Ok (None, s)
      else if ph_vaddr ph + ph_memsz ph < ph_vaddr ph then Ok (None, s)
      else
        rbind (allocuvm pgdir sz (ph_vaddr ph + ph_memsz ph) s) (\<lambda>(sz, s).
        if sz = 0 then Ok (None, s)
        else if ph_vaddr ph mod 4096 \<noteq> 0 then Ok (None, s)
        else
          rbind (loaduvm pgdir (ph_vaddr ph) ip (ph_off ph) (ph_filesz ph) s) (\<lambda>(r, s).
          Ok (if r < 0 then None else Some sz, s))))"

primrec load_segments :: "u32 \<Rightarrow> nat \<Rightarrow> nat \<Rightarrow> u32 \<Rightarrow> u32 \<Rightarrow> 'a mem_state_scheme \<Rightarrow> (u32 option \<times> 'a mem_state_scheme) res" where
  "load_segments pgdir ip 0 off sz s = Ok (Some sz, s)"
| "load_segments pgdir ip (Suc n) off sz s =
     rbind (readi ip off 32 s) (\<lambda>(r, bs, s).
     if r \<noteq> 32 then Ok (None, s)
     else
       let ph = prog_of bs in
       if ph_type ph \<noteq> 1 then load_segments pgdir ip n (off + 32) sz s
       else
         rbind (load_segment pgdir ip ph sz s) (\<lambda>(r, s).
         case r of None \<Rightarrow> Ok (None, s) | Some sz \<Rightarrow> load_segments pgdir ip n (off + 32) sz s))"

section \<open>The stack\<close>

abbreviation (input) MAXARG :: nat where "MAXARG \<equiv> 32"

definition string_below :: "u32 \<Rightarrow> bytes \<Rightarrow> u32" where
  "string_below sp a = (sp - (word_of_nat (length a) + 1)) AND NOT 3"

text \<open>The loop over the arguments; \<open>us\<close> are the addresses stored in \<open>ustack\<close> so far.\<close>

primrec push_args :: "u32 \<Rightarrow> u32 \<Rightarrow> u32 list \<Rightarrow> bytes list \<Rightarrow> 'a mem_state_scheme \<Rightarrow>
    ((u32 \<times> u32 list) option \<times> 'a mem_state_scheme) res" where
  "push_args pgdir sp us [] s = Ok (Some (sp, us), s)"
| "push_args pgdir sp us (a # as) s =
     (if length us \<ge> MAXARG then Ok (None, s)
      else
        let sp = string_below sp a in
        rbind (copyout pgdir sp (a @ [0]) s) (\<lambda>(r, s).
        if r < 0 then Ok (None, s) else push_args pgdir sp (us @ [sp]) as s))"

definition ustack :: "u32 \<Rightarrow> u32 list \<Rightarrow> u32 list" where
  "ustack sp us = [0xFFFFFFFF, word_of_nat (length us), sp - (word_of_nat (length us) + 1) * 4] @ us @ [0]"

definition push_ustack :: "u32 \<Rightarrow> u32 \<Rightarrow> u32 list \<Rightarrow> 'a mem_state_scheme \<Rightarrow> (u32 option \<times> 'a mem_state_scheme) res" where
  "push_ustack pgdir sp us s =
     (let sp' = sp - (3 + word_of_nat (length us) + 1) * 4 in
      rbind (copyout pgdir sp' (concat (map enc32 (ustack sp us))) s) (\<lambda>(r, s).
      Ok (if r < 0 then None else Some sp', s)))"

text \<open>The two pages of the stack, the lower one out of reach of the user, and what goes on it.\<close>

definition build_stack :: "u32 \<Rightarrow> u32 \<Rightarrow> bytes list \<Rightarrow> 'a mem_state_scheme \<Rightarrow> ((u32 \<times> u32) option \<times> 'a mem_state_scheme) res" where
  "build_stack pgdir sz argv s =
     (let sz = PGROUNDUP sz in
      rbind (allocuvm pgdir sz (sz + 2 * 4096) s) (\<lambda>(sz, s).
      if sz = 0 then Ok (None, s)
      else
        rbind (clearpteu pgdir (sz - 2 * 4096) s) (\<lambda>s.
        rbind (push_args pgdir sz [] argv s) (\<lambda>(r, s).
        case r of
          None \<Rightarrow> Ok (None, s)
        | Some (sp, us) \<Rightarrow>
            rbind (push_ustack pgdir sp us s) (\<lambda>(r, s).
            Ok (case r of None \<Rightarrow> None | Some sp \<Rightarrow> Some (sz, sp), s))))))"

section \<open>exec\<close>

text \<open>The name of the program: what follows the last slash.\<close>

primrec last_part :: "bytes \<Rightarrow> bytes \<Rightarrow> bytes" where
  "last_part start [] = start"
| "last_part start (c # cs) = last_part (if c = 47 then cs else start) cs"

definition exec_bad :: "u32 \<Rightarrow> nat option \<Rightarrow> 'a mem_state_scheme \<Rightarrow> (int \<times> 'a mem_state_scheme) res" where
  "exec_bad pgdir ip s =
     rbind (if pgdir \<noteq> 0 then freevm pgdir s else Ok s) (\<lambda>s.
     rbind (case ip of None \<Rightarrow> Ok s | Some i \<Rightarrow> rbind (iunlockput i s) end_op) (\<lambda>s. Ok (-1, s)))"

definition exec_commit :: "u32 \<Rightarrow> u32 \<Rightarrow> u32 \<Rightarrow> u32 \<Rightarrow> bytes \<Rightarrow> 'a mem_state_scheme \<Rightarrow> (int \<times> 'a mem_state_scheme) res" where
  "exec_commit pgdir sz start sp path s =
     (let oldpgdir = p_pgdir (myproc s);
          s = upd_proc (cur s) (\<lambda>p. p\<lparr>p_name := safestrcpy (p_name p) (last_part path path @ [0]) 16\<rparr>) s;
          s = upd_proc (cur s) (\<lambda>p. p\<lparr>p_pgdir := pgdir, p_sz := sz,
                p_tf := (p_tf p)\<lparr>tf_eip := start, tf_esp := sp\<rparr>\<rparr>) s
      in rbind (switchuvm (Some (cur s)) s) (\<lambda>s.
         rbind (freevm oldpgdir s) (\<lambda>s. Ok (0, s))))"

definition exec :: "bytes \<Rightarrow> bytes list \<Rightarrow> 'a mem_state_scheme \<Rightarrow> (int \<times> 'a mem_state_scheme) res" where
  "exec path argv s =
     rbind (begin_op s) (\<lambda>s.
     rbind (namei path s) (\<lambda>(ip, s).
     case ip of
       None \<Rightarrow> rbind (end_op s) (\<lambda>s. rbind (say ''exec: fail\<newline>'' s) (\<lambda>s. Ok (-1, s)))
     | Some i \<Rightarrow>
         rbind (ilock (Some i) s) (\<lambda>s.
         rbind (readi i 0 52 s) (\<lambda>(r, bs, s).
         if r \<noteq> 52 \<or> e_magic (elf_of bs) \<noteq> 0x464C457F then exec_bad 0 (Some i) s
         else
           rbind (setupkvm s) (\<lambda>(pgdir, s).
           if pgdir = 0 then exec_bad 0 (Some i) s
           else
             let elf = elf_of bs in
             rbind (load_segments pgdir i (unat (e_phnum elf)) (e_phoff elf) 0 s) (\<lambda>(r, s).
             case r of
               None \<Rightarrow> exec_bad pgdir (Some i) s
             | Some sz \<Rightarrow>
                 rbind (iunlockput i s) (\<lambda>s.
                 rbind (end_op s) (\<lambda>s.
                 rbind (build_stack pgdir sz argv s) (\<lambda>(r, s).
                 case r of
                   None \<Rightarrow> exec_bad pgdir None s
                 | Some (sz, sp) \<Rightarrow> exec_commit pgdir sz (e_entry elf) sp path s)))))))))"


section \<open>What stays of the process\<close>

lemma image_freevm [wk]:
  fixes s t :: "'a mem_state_scheme"
  shows "same_image s t \<Longrightarrow> keeps same_image s (\<lambda>t. t) (freevm pd t)"
  unfolding freevm_def
  by (auto simp: Let_def intro!: keeps_bind1 keeps_bind2 wk image.lift [OF _ image.loop] split: prod.splits)

lemma image_kmap_loop [wk]:
  fixes s t :: "'a mem_state_scheme"
  shows "same_image s t \<Longrightarrow> keeps same_image s snd (kmap_loop pd ks t)"
  by (induction ks arbitrary: t) (auto intro!: keeps_bind1 keeps_bind2 wk split: prod.splits)

lemma image_setupkvm [wk]:
  fixes s t :: "'a mem_state_scheme"
  shows "same_image s t \<Longrightarrow> keeps same_image s snd (setupkvm t)"
  unfolding setupkvm_def Let_def by (auto intro!: keeps_bind2 wk split: prod.splits)

lemma image_clearpteu [wk]:
  fixes s t :: "'a mem_state_scheme"
  shows "same_image s t \<Longrightarrow> keeps same_image s (\<lambda>t. t) (clearpteu pd va t)"
  unfolding clearpteu_def by (auto intro!: keeps_bind2 wk split: prod.splits option.splits)

lemma image_allocuvm [wk]:
  fixes s t :: "'a mem_state_scheme"
  shows "same_image s t \<Longrightarrow> keeps same_image s snd (allocuvm pd old new t)"
  unfolding allocuvm_def Let_def
  by (auto simp: same_image_def upd_proc_def intro!: keeps_bind2 wk split: prod.splits)

lemma image_copyout [wk]:
  fixes s t :: "'a mem_state_scheme"
  shows "same_image s t \<Longrightarrow> keeps same_image s snd (copyout pd va buf t)"
proof (induction pd va buf t rule: copyout.induct)
  case (1 pd va buf t)
  show ?case
    unfolding copyout.simps [of pd va buf t] Let_def
    using 1 by (auto simp: keeps_def split: option.splits)
qed

lemma image_load_loop [wk]:
  fixes s t :: "'a mem_state_scheme"
  shows "same_image s t \<Longrightarrow> keeps same_image s snd (load_loop pd addr ip off sz is t)"
  by (induction "is" arbitrary: t) (auto simp: Let_def intro!: keeps_bind3 wk split: prod.splits option.splits)

lemma image_loaduvm [wk]:
  fixes s t :: "'a mem_state_scheme"
  shows "same_image s t \<Longrightarrow> keeps same_image s snd (loaduvm pd addr ip off sz t)"
  unfolding loaduvm_def by (auto intro!: wk)

lemma image_load_segment [wk]: "same_image s t \<Longrightarrow> keeps same_image s snd (load_segment pd ip ph sz t)"
  unfolding load_segment_def by (auto intro!: keeps_bind2 wk split: prod.splits)

lemma image_load_segments [wk]: "same_image s t \<Longrightarrow> keeps same_image s snd (load_segments pd ip n off sz t)"
  by (induction n arbitrary: off sz t)
    (auto simp: Let_def intro!: keeps_bind2 keeps_bind3 wk split: prod.splits option.splits)

lemma image_push_args [wk]: "same_image s t \<Longrightarrow> keeps same_image s snd (push_args pd sp us as t)"
  by (induction as arbitrary: sp us t) (auto simp: Let_def intro!: keeps_bind2 wk split: prod.splits)

lemma image_push_ustack [wk]: "same_image s t \<Longrightarrow> keeps same_image s snd (push_ustack pd sp us t)"
  unfolding push_ustack_def Let_def by (auto intro!: keeps_bind2 wk split: prod.splits)

lemma image_build_stack [wk]: "same_image s t \<Longrightarrow> keeps same_image s snd (build_stack pd sz argv t)"
  unfolding build_stack_def Let_def
  by (auto intro!: keeps_bind1 keeps_bind2 wk split: prod.splits option.splits)

lemma image_exec_bad [wk]: "same_image s t \<Longrightarrow> keeps same_image s snd (exec_bad pd ip t)"
  unfolding exec_bad_def by (auto intro!: keeps_bind1 wk split: option.splits)


section \<open>The layout of the stack\<close>

text \<open>The addresses of the argument strings, the lowest of them, the stack pointer, and all that is written.\<close>

primrec arg_addrs :: "u32 \<Rightarrow> bytes list \<Rightarrow> u32 list" where
  "arg_addrs sp [] = []"
| "arg_addrs sp (a # as) = string_below sp a # arg_addrs (string_below sp a) as"

definition args_bottom :: "u32 \<Rightarrow> bytes list \<Rightarrow> u32" where
  "args_bottom sz argv = foldl string_below sz argv"

definition stack_top :: "u32 \<Rightarrow> bytes list \<Rightarrow> u32" where
  "stack_top sz argv = args_bottom sz argv - (3 + word_of_nat (length argv) + 1) * 4"

definition stack_writes :: "u32 \<Rightarrow> bytes list \<Rightarrow> (u32 \<times> bytes) list" where
  "stack_writes sz argv = zip (arg_addrs sz argv) (map (\<lambda>a. a @ [0]) argv) @
     [(stack_top sz argv, concat (map enc32 (ustack (args_bottom sz argv) (arg_addrs sz argv))))]"

primrec copied :: "u32 \<Rightarrow> (u32 \<times> bytes) list \<Rightarrow> 'a mem_state_scheme \<Rightarrow> 'a mem_state_scheme \<Rightarrow> bool" where
  "copied pgdir [] s t \<longleftrightarrow> s = t"
| "copied pgdir (w # ws) s t \<longleftrightarrow> (\<exists>r u. copyout pgdir (fst w) (snd w) s = Ok (r, u) \<and> 0 \<le> r \<and> copied pgdir ws u t)"

lemma copied_append: "copied pd (vs @ ws) s t \<longleftrightarrow> (\<exists>u. copied pd vs s u \<and> copied pd ws u t)"
  by (induction vs arbitrary: s) auto

definition padded :: "bytes \<Rightarrow> nat" where
  "padded a = 4 * ((length a + 4) div 4)"

text \<open>The stack of a process of size \<open>sz\<close> in its last page: strings on word boundaries one below the other, then \<open>argv\<close>.\<close>

definition stack_ok :: "u32 \<Rightarrow> bytes list \<Rightarrow> bool" where
  "stack_ok sz argv \<longleftrightarrow>
     (let us = arg_addrs sz argv; esp = stack_top sz argv; n = length argv in
      (\<forall>i<n. unat (us ! i) mod 4 = 0 \<and> unat (us ! i) + length (argv ! i) + 1 \<le> (if i = 0 then unat sz else unat (us ! (i - 1)))) \<and>
      unat esp mod 4 = 0 \<and> unat sz - 4096 \<le> unat esp \<and>
      (if n = 0 then unat esp + 4 * (n + 4) = unat sz else unat esp + 4 * (n + 4) = unat (us ! (n - 1))) \<and>
      ustack (args_bottom sz argv) us = [0xFFFFFFFF, word_of_nat n, esp + 12] @ us @ [0])"

lemma unat_and_not_3: "unat ((a :: u32) AND NOT 3) = 4 * (unat a div 4)"
proof -
  have "a AND NOT (mask 2) = push_bit 2 (drop_bit 2 a)"
  proof (rule bit_word_eqI)
    fix n
    have "2 \<le> n \<Longrightarrow> Suc (Suc (n - 2)) = n" by linarith
    then show "bit (a AND NOT (mask 2)) n \<longleftrightarrow> bit (push_bit 2 (drop_bit 2 a)) n"
      by (cases "2 \<le> n") (auto simp: bit_simps)
  qed
  then have e: "a AND NOT 3 = push_bit 2 (drop_bit 2 a)" by (simp add: mask_eq_exp_minus_1)
  have "unat a < 2 ^ 32" using unsigned_less [of a] by simp
  then show ?thesis
    unfolding e by (simp add: unat_drop_bit_eq drop_bit_eq_div push_bit_eq_mult unat_word_ariths)
qed

lemma unat_string_below:
  assumes "unat sp mod 4 = 0" and "padded a \<le> unat sp"
  shows "unat (string_below sp a) = unat sp - padded a"
proof -
  have len: "length a + 1 \<le> unat sp" using assms(2) by (simp add: padded_def)
  then have l: "unat (word_of_nat (length a) + 1 :: u32) = length a + 1"
    using u32_of_nat_unat [of "length a + 1"] u32_bound [of sp] by (simp add: add.commute)
  then have "unat (sp - (word_of_nat (length a) + 1)) = unat sp - (length a + 1)"
    using len by (subst unat_sub) (simp_all add: word_le_nat_alt)
  then have "unat (string_below sp a) = 4 * ((unat sp - (length a + 1)) div 4)"
    unfolding string_below_def unat_and_not_3 by simp
  also have "\<dots> = unat sp - padded a"
  proof -
    obtain k where k: "unat sp = 4 * k" using assms(1) by (auto elim: dvdE simp: mod_eq_0_iff_dvd)
    have div: "length a div 4 + 1 \<le> k" using len k by linarith
    define r where "r = 3 - length a mod 4"
    have "r < 4" by (simp add: r_def)
    have "4 * k - (length a + 1) = 4 * (k - (length a div 4 + 1)) + r"
      using div div_mult_mod_eq [of "length a" 4] mod_less_divisor [of 4 "length a"] unfolding r_def by linarith
    with \<open>r < 4\<close> have "(4 * k - (length a + 1)) div 4 = k - (length a div 4 + 1)" by simp
    moreover have "(length a + 4) div 4 = length a div 4 + 1" by simp
    ultimately show ?thesis unfolding padded_def k by (simp add: diff_mult_distrib2)
  qed
  finally show ?thesis .
qed

lemma arg_addrs_ok:
  assumes "unat sp mod 4 = 0" and "sum_list (map padded argv) \<le> unat sp"
  shows "unat (foldl string_below sp argv) = unat sp - sum_list (map padded argv) \<and>
    (\<forall>i<length argv. unat (arg_addrs sp argv ! i) mod 4 = 0 \<and>
      unat (arg_addrs sp argv ! i) + length (argv ! i) + 1 \<le> (if i = 0 then unat sp else unat (arg_addrs sp argv ! (i - 1)))) \<and>
    (argv \<noteq> [] \<longrightarrow> foldl string_below sp argv = arg_addrs sp argv ! (length argv - 1))"
  using assms
proof (induction argv arbitrary: sp)
  case (Cons a argv)
  let ?sp = "string_below sp a"
  have e: "unat ?sp = unat sp - padded a" using Cons.prems by (intro unat_string_below) simp_all
  have m: "unat ?sp mod 4 = 0" unfolding e using Cons.prems(1) by (simp add: padded_def mod_diff_eq) presburger
  have "sum_list (map padded argv) \<le> unat ?sp" unfolding e using Cons.prems(2) by simp
  note IH = Cons.IH [OF m this]
  have low: "unat ?sp + length a + 1 \<le> unat sp" using e Cons.prems(2) by (simp add: padded_def)
  show ?case
  proof (intro conjI allI impI)
    show "unat (foldl string_below sp (a # argv)) = unat sp - sum_list (map padded (a # argv))" using IH e by simp
    show "foldl string_below sp (a # argv) = arg_addrs sp (a # argv) ! (length (a # argv) - 1)"
      using IH by (cases argv) auto
    fix i assume "i < length (a # argv)"
    then show "unat (arg_addrs sp (a # argv) ! i) mod 4 = 0"
      "unat (arg_addrs sp (a # argv) ! i) + length ((a # argv) ! i) + 1 \<le>
        (if i = 0 then unat sp else unat (arg_addrs sp (a # argv) ! (i - 1)))"
      using IH m low by (cases i; auto simp: nth_Cons split: nat.splits)+
  qed
qed simp

lemma length_arg_addrs [simp]: "length (arg_addrs sp argv) = length argv"
  by (induction argv arbitrary: sp) auto

lemma stack_layout:
  assumes sz: "unat sz mod 4096 = 0" "4096 \<le> unat sz" and fits: "sum_list (map padded argv) + 4 * (length argv + 4) \<le> 4096"
  shows "stack_ok sz argv"
proof -
  let ?n = "length argv" and ?us = "arg_addrs sz argv"
  have "unat sz mod 4096 mod 4 = unat sz mod 4" by (rule mod_mod_cancel) simp
  then have sz4: "unat sz mod 4 = 0" using sz(1) by simp
  have sl: "sum_list (map padded argv) \<le> unat sz" using fits sz(2) by simp
  note A0 = arg_addrs_ok [OF sz4 sl, folded args_bottom_def]
  note A = A0 [THEN conjunct1] A0 [THEN conjunct2, THEN conjunct1] A0 [THEN conjunct2, THEN conjunct2]
  have n: "?n < 1024" using fits by simp
  have w: "(3 + word_of_nat ?n + 1) * 4 = (word_of_nat (4 * (?n + 4)) :: u32)" by (simp add: algebra_simps)
  have un: "unat (word_of_nat (4 * (?n + 4)) :: u32) = 4 * (?n + 4)" using n by (intro u32_of_nat_unat) simp
  have esp: "unat (stack_top sz argv) = unat (args_bottom sz argv) - 4 * (?n + 4)"
    unfolding stack_top_def w using un fits sz(2) A(1) by (subst unat_sub) (simp_all add: word_le_nat_alt)
  have "4 dvd sum_list (map padded argv)" by (induction argv) (auto simp: padded_def)
  moreover have "4 dvd unat sz" using sz4 by (simp add: mod_eq_0_iff_dvd)
  ultimately have "4 dvd unat (stack_top sz argv)" unfolding esp A(1) by (intro dvd_diff_nat) simp_all
  then have "unat (stack_top sz argv) mod 4 = 0" by simp
  moreover have "unat sz - 4096 \<le> unat (stack_top sz argv)" unfolding esp A(1) using fits sz(2) by simp
  moreover have "unat (stack_top sz argv) + 4 * (?n + 4) = unat (args_bottom sz argv)"
    unfolding esp using A(1) fits sz(2) by simp
  moreover have "ustack (args_bottom sz argv) ?us = [0xFFFFFFFF, word_of_nat ?n, stack_top sz argv + 12] @ ?us @ [0]"
    by (simp add: ustack_def stack_top_def algebra_simps)
  ultimately show ?thesis
    unfolding stack_ok_def Let_def using A(2,3) A(1) by (cases "argv = []") auto
qed

lemma push_args_copied:
  assumes "push_args pd sp us argv s = Ok (Some (q, vs), t)"
  shows "vs = us @ arg_addrs sp argv \<and> q = foldl string_below sp argv \<and>
    copied pd (zip (arg_addrs sp argv) (map (\<lambda>a. a @ [0]) argv)) s t \<and> (argv \<noteq> [] \<longrightarrow> length us + length argv \<le> MAXARG)"
  using assms
proof (induction argv arbitrary: sp us s)
  case (Cons a argv)
  then obtain r u where c: "length us < MAXARG" "copyout pd (string_below sp a) (a @ [0]) s = Ok (r, u)" "\<not> r < 0"
    "push_args pd (string_below sp a) (us @ [string_below sp a]) argv u = Ok (Some (q, vs), t)"
    by (auto simp: Let_def split: if_splits)
  from Cons.IH [OF c(4)] c(1-3) show ?case by (auto simp: not_less)
qed simp

lemma push_ustack_copied:
  assumes "push_ustack pd sp us s = Ok (Some q, t)"
  shows "q = sp - (3 + word_of_nat (length us) + 1) * 4 \<and> copied pd [(q, concat (map enc32 (ustack sp us)))] s t"
  using assms by (auto simp: push_ustack_def Let_def split: if_splits)

lemma allocuvm_below:
  assumes "allocuvm pd old new s = Ok (r, t)" and "old < KERNBASE"
  shows "r < KERNBASE \<and> (old \<le> new \<longrightarrow> r = 0 \<or> r = new)"
  using assms by (auto simp: allocuvm_def Let_def not_le split: if_splits)

lemma load_segments_below:
  assumes "load_segments pd ip n off sz s = Ok (Some z, t)" and "sz < KERNBASE"
  shows "z < KERNBASE"
  using assms
proof (induction n arbitrary: off sz s)
  case (Suc n)
  from Suc.prems(1) obtain bs u where r: "readi ip off 32 s = Ok (32, bs, u)" by (auto split: if_splits)
  show ?case
  proof (cases "ph_type (prog_of bs) = 1")
    case True
    with Suc.prems(1) r obtain y v where l: "load_segment pd ip (prog_of bs) sz u = Ok (Some y, v)"
      "load_segments pd ip n (off + 32) y v = Ok (Some z, t)" by (auto simp: Let_def split: option.splits)
    from l(1) obtain w where "allocuvm pd sz (ph_vaddr (prog_of bs) + ph_memsz (prog_of bs)) u = Ok (y, w)"
      by (auto simp: load_segment_def split: if_splits)
    with allocuvm_below [OF this Suc.prems(2)] Suc.IH [OF l(2)] show ?thesis by simp
  next
    case False
    with Suc.prems r Suc.IH show ?thesis by (auto simp: Let_def)
  qed
qed simp

lemma build_stack_copied:
  assumes b: "build_stack pd sz argv s = Ok (Some (z, sp), t)" and sz: "sz < KERNBASE"
  shows "sp = stack_top z argv \<and> length argv \<le> MAXARG \<and> unat z mod 4096 = 0 \<and> 4096 \<le> unat z \<and> z < KERNBASE \<and>
    (\<exists>u. copied pd (stack_writes z argv) u t \<and> same_image s u)"
proof -
  let ?old = "PGROUNDUP sz"
  from b obtain u v q us w where u: "allocuvm pd ?old (?old + 2 * 4096) s = Ok (z, u)" "z \<noteq> 0" "clearpteu pd (z - 2 * 4096) u = Ok v"
    "push_args pd z [] argv v = Ok (Some (q, us), w)" "push_ustack pd q us w = Ok (Some sp, t)"
    by (auto simp: build_stack_def Let_def split: if_splits option.splits)
  have old: "unat ?old = 4096 * ((unat sz + 4095) div 4096)" using sz by (intro unat_PGROUNDUP) (simp add: word_less_nat_alt)
  have "unat sz < 0x80000000" using sz by (simp add: word_less_nat_alt)
  then have "(unat sz + 4095) div 4096 \<le> 524288" by simp
  then have le: "unat ?old \<le> 0x80000000" unfolding old by simp
  have new: "unat (?old + 2 * 4096) = unat ?old + 8192"
    using unat_add_nat [of ?old 8192] le by simp
  have z: "z = ?old + 2 * 4096 \<and> z < KERNBASE"
    using u(1,2) new by (auto simp: allocuvm_def Let_def word_less_nat_alt not_le split: if_splits)
  then have zm: "unat z mod 4096 = 0" "4096 \<le> unat z" unfolding z using new old by simp_all
  note p = push_args_copied [OF u(4)] and q = push_ustack_copied [OF u(5)]
  have "copied pd (stack_writes z argv) v t"
    using p q by (auto simp: stack_writes_def copied_append args_bottom_def stack_top_def)
  moreover have "same_image s v"
    using keepsD [OF image_allocuvm [of s s] u(1)] keepsD [OF image_clearpteu u(3), of s] by simp
  ultimately show ?thesis
    using p q z zm by (cases argv) (auto simp: args_bottom_def stack_top_def)
qed


section \<open>The two outcomes\<close>

text \<open>What belongs to the program that a process runs.\<close>

definition image_of :: "proc \<Rightarrow> u32 \<times> u32 \<times> trapframe \<times> bytes" where
  "image_of p = (p_sz p, p_pgdir p, p_tf p, p_name p)"

lemma same_image_alt: "same_image s t \<longleftrightarrow> cur t = cur s \<and> (\<forall>i. image_of (procs t i) = image_of (procs s i))"
  by (auto simp: same_image_def image_of_def)

lemma exec_commit_outcome:
  assumes "exec_commit pgdir sz start sp path s = Ok (r, t)"
  shows "r = 0 \<and> pgdir \<noteq> 0 \<and> cur t = cur s \<and> (\<forall>i. i \<noteq> cur s \<longrightarrow> image_of (procs t i) = image_of (procs s i)) \<and>
    image_of (myproc t) = (sz, pgdir, (p_tf (myproc s))\<lparr>tf_eip := start, tf_esp := sp\<rparr>,
      safestrcpy (p_name (myproc s)) (last_part path path @ [0]) 16)"
proof -
  let ?u = "upd_proc (cur s) (\<lambda>p. p\<lparr>p_pgdir := pgdir, p_sz := sz, p_tf := (p_tf p)\<lparr>tf_eip := start, tf_esp := sp\<rparr>\<rparr>)
    (upd_proc (cur s) (\<lambda>p. p\<lparr>p_name := safestrcpy (p_name p) (last_part path path @ [0]) 16\<rparr>) s)"
  have cu: "cur ?u = cur s" "cur (upd_proc (cur s) f s) = cur s" for f by (simp_all add: upd_proc_def)
  from assms have "rbind (switchuvm (Some (cur ?u)) ?u) (\<lambda>v. rbind (freevm (p_pgdir (myproc s)) v) (\<lambda>w. Ok (0, w))) = Ok (r, t)"
    unfolding exec_commit_def Let_def cu .
  then obtain u where u: "switchuvm (Some (cur ?u)) ?u = Ok u" "freevm (p_pgdir (myproc s)) u = Ok t" "r = 0" by auto
  have 1: "procs u = procs ?u" "cur u = cur s" "pgdir \<noteq> 0"
    using u(1) by (auto simp: switchuvm_def upd_proc_def split: if_splits)
  have "same_image u t" using keepsD [OF image_freevm [of u u] u(2)] by simp
  then show ?thesis
    using 1 u(3) by (auto simp: same_image_alt myproc_def image_of_def upd_proc_def)
qed

text \<open>The stages of \<open>exec\<close>: each ends in \<open>exec_bad\<close> with the image as it was, or leads to the next.\<close>

lemma exec_bad_image:
  "exec_bad pd q w = Ok (r, t) \<Longrightarrow> same_image s w \<Longrightarrow> r = -1 \<and> same_image s t"
  using keepsD [OF image_exec_bad] by (fastforce simp: exec_bad_def)

definition exec_ready :: "32 word \<Rightarrow> bytes list \<Rightarrow> 32 word \<Rightarrow> 'a mem_state_scheme \<Rightarrow> 'a mem_state_scheme \<Rightarrow> bool" where
  "exec_ready pgdir argv sz s v \<longleftrightarrow> length argv \<le> MAXARG \<and> unat sz mod 4096 = 0 \<and> 4096 \<le> unat sz \<and> sz < KERNBASE \<and>
     same_image s v \<and> (\<exists>u. copied pgdir (stack_writes sz argv) u v \<and> same_image s u)"

lemma exec_loaded:
  assumes run: "rbind (load_segments pgdir i n off 0 s5) (\<lambda>(r, s).
      case r of
        None \<Rightarrow> exec_bad pgdir (Some i) s
      | Some sz \<Rightarrow>
          rbind (iunlockput i s) (\<lambda>s.
          rbind (end_op s) (\<lambda>s.
          rbind (build_stack pgdir sz argv s) (\<lambda>(r, s).
          case r of
            None \<Rightarrow> exec_bad pgdir None s
          | Some (sz, sp) \<Rightarrow> exec_commit pgdir sz eip sp path s)))) = Ok (r, t)"
    and i5: "same_image s s5"
  shows "r = -1 \<and> same_image s t \<or>
    (\<exists>sz v. exec_ready pgdir argv sz s v \<and> exec_commit pgdir sz eip (stack_top sz argv) path v = Ok (r, t))"
proof -
  from run obtain q s6 where s6: "load_segments pgdir i n off 0 s5 = Ok (q, s6)" by auto
  note i6 = keepsD [OF image_load_segments [OF i5] s6, simplified]
  show ?thesis
  proof (cases q)
    case None
    with run s6 have "exec_bad pgdir (Some i) s6 = Ok (r, t)" by simp
    with i6 show ?thesis by (blast dest: exec_bad_image)
  next
    case (Some sz0)
    with run s6 obtain s7 s8 o9 s9 where s7: "iunlockput i s6 = Ok s7" and s8: "end_op s7 = Ok s8"
      and s9: "build_stack pgdir sz0 argv s8 = Ok (o9, s9)"
      and fin: "(case o9 of None \<Rightarrow> exec_bad pgdir None s9 | Some (sz, sp) \<Rightarrow> exec_commit pgdir sz eip sp path s9) = Ok (r, t)"
      by auto
    note i7 = keepsD [OF image.iunlockput_wk [OF i6] s7]
    note i8 = keepsD [OF image.end_op_wk [OF i7] s8]
    note i9 = keepsD [OF image_build_stack [OF i8] s9, simplified]
    show ?thesis
    proof (cases o9)
      case None
      with fin have "exec_bad pgdir None s9 = Ok (r, t)" by simp
      with i9 show ?thesis by (blast dest: exec_bad_image)
    next
      case (Some p)
      obtain sz sp where p: "o9 = Some (sz, sp)" using Some by (cases p) auto
      have "sz0 < KERNBASE"
        using load_segments_below [of pgdir i n off 0 s5 sz0 s6] s6 \<open>q = Some sz0\<close> by (simp add: word_less_nat_alt)
      from build_stack_copied [OF s9 [unfolded p] this] have "sp = stack_top sz argv" "exec_ready pgdir argv sz s s9"
        using i9 image.trans [OF i8] unfolding exec_ready_def by blast+
      with fin p show ?thesis by auto
    qed
  qed
qed

lemma exec_stages:
  fixes s :: "'a mem_state_scheme"
  assumes e: "exec path argv s = Ok (r, t)"
  shows "r = -1 \<and> same_image s t \<or>
    (\<exists>pgdir sz hdr i (w :: 'a mem_state_scheme) w' v. readi i 0 52 w = Ok (52, hdr, w') \<and> e_magic (elf_of hdr) = 0x464C457F \<and>
       pgdir \<noteq> 0 \<and> exec_ready pgdir argv sz s v \<and>
       exec_commit pgdir sz (e_entry (elf_of hdr)) (stack_top sz argv) path v = Ok (r, t))"
proof -
  have refl: "same_image s s" by simp
  from e obtain s1 ip s2 where s1: "begin_op s = Ok s1" and s2: "namei path s1 = Ok (ip, s2)" by (auto simp: exec_def)
  note i1 = keepsD [OF image.begin_op_wk [OF refl] s1]
  note i2 = keepsD [OF image.namei_wk [OF i1] s2, simplified]
  show ?thesis
  proof (cases ip)
    case None
    with e s1 s2 have "rbind (end_op s2) (\<lambda>s. rbind (say ''exec: fail\<newline>'' s) (\<lambda>s. Ok (-1, s))) = Ok (r, t)"
      by (simp add: exec_def)
    moreover have "keeps same_image s snd (rbind (end_op s2) (\<lambda>s. rbind (say ''exec: fail\<newline>'' s) (\<lambda>s. Ok (-1 :: int, s))))"
      by (auto intro!: keeps_bind1 wk i2)
    ultimately show ?thesis by (auto simp: keeps_def)
  next
    case (Some i)
    with e s1 s2 obtain s3 n hdr s4 where s3: "ilock (Some i) s2 = Ok s3" and s4: "readi i 0 52 s3 = Ok (n, hdr, s4)"
      by (auto simp: exec_def)
    note i3 = keepsD [OF image.ilock_wk [OF i2] s3]
    note i4 = keepsD [OF image.readi_wk [OF i3] s4, simplified]
    show ?thesis
    proof (cases "n \<noteq> 52 \<or> e_magic (elf_of hdr) \<noteq> 0x464C457F")
      case True
      with e s1 s2 s3 s4 Some have "exec_bad 0 (Some i) s4 = Ok (r, t)" by (simp add: exec_def)
      with i4 show ?thesis by (blast dest: exec_bad_image)
    next
      case False
      with e s1 s2 s3 s4 Some obtain pgdir s5 where s5: "setupkvm s4 = Ok (pgdir, s5)" by (auto simp: exec_def)
      note i5 = keepsD [OF image_setupkvm [OF i4] s5, simplified]
      note run = e [unfolded exec_def] s1 s2 s3 s4 s5 Some False
      show ?thesis
      proof (cases "pgdir = 0")
        case True
        with run have "exec_bad 0 (Some i) s5 = Ok (r, t)" by simp
        with i5 show ?thesis by (blast dest: exec_bad_image)
      next
        case pd: False
        have "r = -1 \<and> same_image s t \<or> (\<exists>sz v. exec_ready pgdir argv sz s v \<and>
            exec_commit pgdir sz (e_entry (elf_of hdr)) (stack_top sz argv) path v = Ok (r, t))"
          by (rule exec_loaded [OF _ i5]) (use run pd in \<open>simp add: Let_def\<close>)
        with False s4 pd show ?thesis by blast
      qed
    qed
  qed
qed



text \<open>A machine whose only process is in an empty directory; the empty path names it, and it is no program.\<close>

definition in_empty_dir :: mem_state where
  "in_empty_dir = raw_mem\<lparr>procs := (\<lambda>_. unused_proc\<lparr>p_cwd := Some 3\<rparr>),
     inodes := (\<lambda>_. zero_inode\<lparr>i_ref := 1, i_valid := True, i_type := 1, i_nlink := 1\<rparr>)\<rparr>"

lemma in_empty_dir_sel [simp]:
  "procs in_empty_dir = (\<lambda>_. unused_proc\<lparr>p_cwd := Some 3\<rparr>)" "cur in_empty_dir = 0"
  "inodes in_empty_dir = (\<lambda>_. zero_inode\<lparr>i_ref := 1, i_valid := True, i_type := 1, i_nlink := 1\<rparr>)"
  "log_committing in_empty_dir = False" "log_outstanding in_empty_dir = 0" "lh_n in_empty_dir = 0"
  by (simp_all add: in_empty_dir_def raw_mem_def)


end
