(* ===== verification/Kbd.thy ===== *)
theory Kbd imports Console begin

unbundle bit_operations_syntax

text \<open>
  The keyboard (\<open>kbd.c\<close>, \<open>kbd.h\<close>): scan codes from the controller become characters, with the state of
  the modifier keys in a static variable, and the characters go to the interrupt handler of the console.
  The controller is the queue of the bytes it has ready: the status port says that there is one, the
  data port delivers it.
\<close>

abbreviation (input) SHIFT :: u32 where "SHIFT \<equiv> 1"
abbreviation (input) CTL :: u32 where "CTL \<equiv> 2"
abbreviation (input) ALT :: u32 where "ALT \<equiv> 4"
abbreviation (input) CAPSLOCK :: u32 where "CAPSLOCK \<equiv> 8"
abbreviation (input) NUMLOCK :: u32 where "NUMLOCK \<equiv> 16"
abbreviation (input) SCROLLLOCK :: u32 where "SCROLLLOCK \<equiv> 32"
abbreviation (input) E0ESC :: u32 where "E0ESC \<equiv> 64"

record kbd =
  kb_shift :: u32
  kb_in :: bytes

section \<open>The tables\<close>

text \<open>A table of 256 bytes given by its first rows and the entries that are set by index.\<close>

definition table :: "u8 list \<Rightarrow> (nat \<times> u8) list \<Rightarrow> u8 list" where
  "table rows ds = fold (\<lambda>(i, c) t. t[i := c]) ds (rows @ replicate (256 - length rows) 0)"

definition chars :: "string \<Rightarrow> u8 list" where
  "chars s = map of_char s"

definition shiftcode :: "u8 list" where
  "shiftcode = table [] [(0x1D, 2), (0x2A, 1), (0x36, 1), (0x38, 4), (0x9D, 2), (0xB8, 4)]"

definition togglecode :: "u8 list" where
  "togglecode = table [] [(0x3A, 8), (0x45, 16), (0x46, 32)]"

text \<open>The keys behind an escape: the keypad and the arrows.\<close>

definition key_codes :: "(nat \<times> u8) list" where
  "key_codes = [(0xC8, 0xE2), (0xD0, 0xE3), (0xC9, 0xE6), (0xD1, 0xE7), (0xCB, 0xE4), (0xCD, 0xE5),
     (0x97, 0xE0), (0xCF, 0xE1), (0xD2, 0xE8), (0xD3, 0xE9)]"

definition normalmap :: "u8 list" where
  "normalmap = table
     ([0, 0x1B] @ chars ''1234567890-='' @ [8, 9] @ chars ''qwertyuiop[]'' @ [10, 0] @
      chars ''asdfghjkl;'' @ [39] @ chars ''`'' @ [0, 92] @ chars ''zxcvbnm,./'' @ [0] @ chars ''*'' @ [0] @
      chars '' '' @ replicate 13 0 @ chars ''789-456+1230.'' @ replicate 4 0)
     ([(0x9C, 10), (0xB5, 47)] @ key_codes)"

definition shiftmap :: "u8 list" where
  "shiftmap = table
     ([0, 0x1B] @ chars ''!@#$%^&*()_+'' @ [8, 9] @ chars ''QWERTYUIOP{}'' @ [10, 0] @
      chars ''ASDFGHJKL:'' @ [34] @ chars ''~'' @ [0] @ chars ''|ZXCVBNM<>?'' @ [0] @ chars ''*'' @ [0] @
      chars '' '' @ replicate 13 0 @ chars ''789-456+1230.'' @ replicate 4 0)
     ([(0x9C, 10), (0xB5, 47)] @ key_codes)"

text \<open>\<open>C(x)\<close>, as the byte that is stored.\<close>

definition C :: "u8 \<Rightarrow> u8" where
  "C x = x - 64"

definition ctlmap :: "u8 list" where
  "ctlmap = table
     (replicate 16 0 @ map C (chars ''QWERTYUIOP'') @ [0, 0, 13, 0] @
      map C (chars ''ASDFGHJKL'') @ [0, 0, 0, 0, C 92] @ map C (chars ''ZXCVBNM'') @ [0, 0, C 47, 0, 0])
     ([(0x9C, 13), (0xB5, C 47)] @ key_codes)"

section \<open>kbdgetc\<close>

definition charcode :: "u32 \<Rightarrow> u8 list" where
  "charcode k = [normalmap, shiftmap, ctlmap, ctlmap] ! unat k"

text \<open>A character with the effect of Caps Lock.\<close>

definition caps :: "u32 \<Rightarrow> u32" where
  "caps c = (if 97 \<le> c \<and> c \<le> 122 then c + (65 - 97) else if 65 \<le> c \<and> c \<le> 90 then c + (97 - 65) else c)"

text \<open>The character of a key that goes down, with the bit for an escaped key already in \<open>data\<close>.\<close>

definition key_down :: "u32 \<Rightarrow> u32 \<Rightarrow> int \<times> u32" where
  "key_down data shift =
     (let shift = shift OR ucast (shiftcode ! unat data);
          shift = shift XOR ucast (togglecode ! unat data);
          c = ucast (charcode (shift AND (CTL OR SHIFT)) ! unat data);
          c = (if shift AND CAPSLOCK \<noteq> 0 then caps c else c)
      in (sint c, shift))"

definition scan_key :: "u32 \<Rightarrow> u32 \<Rightarrow> int \<times> u32" where
  "scan_key data shift =
     (if data = 0xE0 then (0, shift OR E0ESC)
      else if data AND 0x80 \<noteq> 0 then
        let data = (if shift AND E0ESC \<noteq> 0 then data else data AND 0x7F)
        in (0, shift AND NOT (ucast (shiftcode ! unat data) OR E0ESC))
      else if shift AND E0ESC \<noteq> 0 then key_down (data OR 0x80) (shift AND NOT E0ESC)
      else key_down data shift)"

definition kbdgetc :: "kbd \<Rightarrow> int \<times> kbd" where
  "kbdgetc k =
     (case kb_in k of
        [] \<Rightarrow> (-1, k)
      | d # ds \<Rightarrow> (case scan_key (ucast d) (kb_shift k) of (c, sh) \<Rightarrow> (c, \<lparr>kb_shift = sh, kb_in = ds\<rparr>)))"

text \<open>\<open>kbdintr\<close>: the handler of the console takes characters until \<open>kbdgetc\<close> returns a negative one.\<close>

function kbd_drain :: "kbd \<Rightarrow> int list \<times> kbd" where
  "kbd_drain k =
     (case kbdgetc k of (c, k') \<Rightarrow>
        if c < 0 \<or> kb_in k = [] then ([c], k') else (case kbd_drain k' of (cs, k'') \<Rightarrow> (c # cs, k'')))"
  by pat_completeness auto
termination
  by (relation "measure (\<lambda>k. length (kb_in k))") (auto simp: kbdgetc_def split: list.splits prod.splits)

declare kbd_drain.simps [simp del]

definition kbdintr :: "kbd \<Rightarrow> console \<Rightarrow> (bool \<times> bool \<times> kbd \<times> console) res" where
  "kbdintr k s =
     (case kbd_drain k of (cs, k) \<Rightarrow>
        rbind (consoleintr cs (False, False, s)) (\<lambda>(dump, woke, s). Ok (dump, woke, k, s)))"

section \<open>Indices and results stay in range\<close>

text \<open>The variable \<open>shift\<close> holds the seven flags of \<open>kbd.h\<close> and nothing else.\<close>

definition mods :: "u32 \<Rightarrow> bool" where
  "mods sh \<longleftrightarrow> take_bit 7 sh = sh"

definition kb_ok :: "kbd \<Rightarrow> bool" where
  "kb_ok k \<longleftrightarrow> mods (kb_shift k)"

lemma mods_ops: "mods sh \<Longrightarrow> mods (sh AND x)" "mods sh \<Longrightarrow> mods x \<Longrightarrow> mods (sh OR x)"
  "mods sh \<Longrightarrow> mods x \<Longrightarrow> mods (sh XOR x)" "mods 64" "mods 0"
proof -
  show "mods sh \<Longrightarrow> mods (sh AND x)" unfolding mods_def by (intro bit_word_eqI) (metis bit_and_iff bit_take_bit_iff)
qed (simp_all add: mods_def take_bit_or take_bit_xor)

lemma table_lengths:
  "length shiftcode = 256" "length togglecode = 256"
  "length normalmap = 256" "length shiftmap = 256" "length ctlmap = 256"
  by code_simp+

lemma code_bits: "\<forall>c \<in> set (shiftcode @ togglecode). take_bit 7 c = c"
  by code_simp

lemma code_bit: "i < 256 \<Longrightarrow> mods (ucast (shiftcode ! i))" "i < 256 \<Longrightarrow> mods (ucast (togglecode ! i))"
  using code_bits by (simp_all add: mods_def table_lengths ball_Un all_set_conv_all_nth unsigned_take_bit_eq [symmetric])

lemma u32_below_256: "w < 256 \<longleftrightarrow> take_bit 8 w = (w :: u32)"
  by (simp add: word_less_nat_alt take_bit_eq_mod word_unat_eq_iff unat_mod mod_eq_self_iff_div_eq_0 div_eq_0_iff)

lemma byte_8: "take_bit 8 (ucast (d :: u8) :: u32) = ucast d"
  by (rule bit_word_eqI) (auto simp: bit_simps dest: bit_imp_le_length)

lemma data_index: "ucast (d :: u8) OR (0x80 :: u32) < 256" "ucast d < (256 :: u32)" "ucast d AND 0x7F < (256 :: u32)"
  unfolding u32_below_256 by (simp_all add: take_bit_or byte_8)

lemma caps_byte: "c < 256 \<Longrightarrow> caps c < 256"
  by (simp add: caps_def word_le_nat_alt word_less_nat_alt) (auto simp: unat_sub_if' unat_word_ariths)

lemma key_down_range:
  assumes "key_down data sh = (c, sh')" and "data < 256" and "mods sh"
  shows "0 \<le> c \<and> c < 256 \<and> mods sh'"
proof -
  define c' where "c' = (ucast (charcode (sh' AND (CTL OR SHIFT)) ! unat data) :: u32)"
  have sh': "sh' = (sh OR ucast (shiftcode ! unat data)) XOR ucast (togglecode ! unat data)"
    using assms(1) unfolding key_down_def Let_def by simp
  have c: "c = sint (if sh' AND CAPSLOCK \<noteq> 0 then caps c' else c')"
    using assms(1) unfolding key_down_def Let_def c'_def sh' by (simp only: prod.inject)
  have "c' < 256" unfolding c'_def by (rule data_index)
  then have "(if sh' AND CAPSLOCK \<noteq> 0 then caps c' else c') < 256" using caps_byte by simp
  moreover have "0 \<le> sint w \<and> sint w < 256" if "w < 256" for w :: u32
  proof -
    have "sint w = uint w" using that by (intro sint_uint_small) (simp add: word_less_nat_alt)
    then show ?thesis using that by (simp add: word_less_def)
  qed
  ultimately have "0 \<le> c \<and> c < 256" unfolding c by blast
  moreover have "unat data < 256" using assms(2) by (simp add: word_less_nat_alt)
  ultimately show ?thesis unfolding sh' using assms(3) by (simp add: mods_ops code_bit)
qed

lemma scan_key_range:
  assumes "scan_key (ucast (d :: u8)) sh = (c, sh')" and "mods sh"
  shows "0 \<le> c \<and> c < 256 \<and> mods sh'"
proof -
  have esc: "mods (sh AND x)" "mods (sh OR E0ESC)" for x using assms(2) by (simp_all add: mods_ops)
  show ?thesis
    using assms esc key_down_range [OF _ data_index(1) esc(1)] key_down_range [OF _ data_index(2) assms(2)]
    by (auto simp only: scan_key_def Let_def prod.inject split: if_splits)
qed

text \<open>C37. The types of the keyboard driver: every table has its 256 entries, so that the byte from the
  data port, with or without the bit for an escaped key, is an index; \<open>kbdgetc\<close> returns \<open>-1\<close> exactly when
  the controller has nothing and a character code below 256 otherwise; and \<open>shift\<close> never holds anything
  but the seven flags.\<close>

theorem kbdgetc_type:
  assumes "kb_ok k" and "kbdgetc k = (c, k')"
  shows "kb_ok k' \<and> (if kb_in k = [] then c = -1 \<and> k' = k else 0 \<le> c \<and> c < 256 \<and> kb_in k' = tl (kb_in k)) \<and>
    (\<forall>t \<in> {normalmap, shiftmap, ctlmap, shiftcode, togglecode}. length t = 256) \<and>
    (\<forall>d :: u8. unat (ucast d OR (0x80 :: u32)) < 256)"
  using assms scan_key_range [of _ "kb_shift k"] data_index(1)
  by (auto simp: kbdgetc_def kb_ok_def table_lengths word_less_nat_alt split: list.splits prod.splits)

theorem kbdgetc_type_witness:
  "kb_ok \<lparr>kb_shift = 0, kb_in = [0x2A, 0x1E]\<rparr> \<and>
   (\<exists>k'. kbdgetc \<lparr>kb_shift = 0, kb_in = [0x2A, 0x1E]\<rparr> = (0, k') \<and> kb_ok k' \<and> kb_in k' = [0x1E])"
proof -
  have ok: "kb_ok \<lparr>kb_shift = 0, kb_in = [0x2A, 0x1E]\<rparr>" by (simp add: kb_ok_def mods_def)
  have "kbdgetc \<lparr>kb_shift = 0, kb_in = [0x2A, 0x1E]\<rparr> = (0, \<lparr>kb_shift = 1, kb_in = [0x1E]\<rparr>)" by code_simp
  with kbdgetc_type [OF ok this] ok show ?thesis by auto
qed

section \<open>All the bytes of a queue\<close>

fun scan_all :: "bytes \<Rightarrow> u32 \<Rightarrow> int list \<times> u32" where
  "scan_all [] sh = ([], sh)"
| "scan_all (d # ds) sh =
     (case scan_key (ucast d) sh of (c, sh) \<Rightarrow> (case scan_all ds sh of (cs, sh) \<Rightarrow> (c # cs, sh)))"

lemma scan_all_append:
  "scan_all (ds @ es) sh =
     (case scan_all ds sh of (cs, sh) \<Rightarrow> (case scan_all es sh of (cs', sh) \<Rightarrow> (cs @ cs', sh)))"
  by (induction ds arbitrary: sh) (auto split: prod.splits)

lemma scan_all_range: "scan_all ds sh = (cs, sh') \<Longrightarrow> mods sh \<Longrightarrow> mods sh' \<and> (\<forall>c \<in> set cs. 0 \<le> c)"
proof (induction ds arbitrary: sh cs)
  case (Cons d ds)
  then show ?case using scan_key_range [of d sh] by (fastforce split: prod.splits)
qed auto

lemma kbd_drain_scan:
  assumes "scan_all ds sh = (cs, sh')" and "mods sh"
  shows "kbd_drain \<lparr>kb_shift = sh, kb_in = ds\<rparr> = (cs @ [-1], \<lparr>kb_shift = sh', kb_in = []\<rparr>)"
  using assms
proof (induction ds arbitrary: sh cs)
  case Nil
  then show ?case by (subst kbd_drain.simps) (simp add: kbdgetc_def)
next
  case (Cons d ds)
  obtain c sh1 where k: "scan_key (ucast d) sh = (c, sh1)" by fastforce
  then obtain cs' where cs: "scan_all ds sh1 = (cs', sh')" "cs = c # cs'" using Cons.prems by (auto split: prod.splits)
  from scan_key_range [OF k Cons.prems(2)] Cons.IH [OF cs(1)] k cs(2) show ?case
    by (subst kbd_drain.simps) (simp add: kbdgetc_def)
qed

section \<open>The handler of the console\<close>

lemma consoleintr_zero: "consoleintr (0 # cs) r = consoleintr cs r"
  by (cases r) (simp add: intr_char_def store_char_def)

lemma consoleintr_stop: "\<forall>c \<in> set cs. 0 \<le> c \<Longrightarrow> consoleintr (cs @ [-1]) r = consoleintr cs r"
proof (induction cs arbitrary: r)
  case (Cons c cs)
  then show ?case by (cases r) (simp add: case_prod_unfold)
next
  case Nil
  then show ?case by (cases r) simp
qed

lemma consoleintr_append:
  "\<forall>c \<in> set cs. 0 \<le> c \<Longrightarrow> consoleintr (cs @ ds) r = rbind (consoleintr cs r) (consoleintr ds)"
  by (induction cs arbitrary: r) (auto simp: rbind_assoc case_prod_unfold)

lemma consoleintr_keys: "consoleintr (List.filter (\<lambda>c. c \<noteq> 0) cs) r = consoleintr cs r"
proof (induction cs arbitrary: r)
  case (Cons c cs)
  then show ?case using consoleintr_zero [of cs r] by (cases "c = 0"; cases r) (auto intro!: rbind_cong)
qed simp

lemma consoleintr_flags:
  "consoleintr cs (d, w, s) = rbind (consoleintr cs (False, False, s)) (\<lambda>(d', w', s'). Ok (d \<or> d', w \<or> w', s'))"
proof (induction cs arbitrary: d w s)
  case (Cons c cs)
  show ?case
  proof (cases "c < 0")
    case False
    have "(\<lambda>(w', s). consoleintr cs (d \<or> c = 16, w \<or> w', s)) = (\<lambda>(w', s).
        rbind (consoleintr cs (False \<or> c = 16, False \<or> w', s)) (\<lambda>(d', w', s'). Ok (d \<or> d', w \<or> w', s')))"
      by (intro ext) (auto simp: rbind_assoc case_prod_unfold disj_assoc Cons [of "d \<or> c = 16"] Cons [of "c = 16"])
    then show ?thesis using False by (simp add: rbind_assoc case_prod_unfold)
  qed simp
qed simp

section \<open>Typing a text\<close>

text \<open>The printable characters and the newline, and the keys that are pressed and released for each: a
  key alone, or between pressing and releasing the left shift key.\<close>

definition printable :: "u8 list" where
  "printable = map word_of_nat [32..<127]"

definition strokes :: "u8 \<Rightarrow> bytes" where
  "strokes c =
     (case first_index (\<lambda>i. normalmap ! i = c) 0x3A of
        Some i \<Rightarrow> [word_of_nat i, word_of_nat (i + 0x80)]
      | None \<Rightarrow> (case first_index (\<lambda>i. shiftmap ! i = c) 0x3A of
          Some i \<Rightarrow> [0x2A, word_of_nat i, word_of_nat (i + 0x80), 0xAA]
        | None \<Rightarrow> []))"

lemma quiet_keys: "list_all (\<lambda>(n, m, sc, tc). (n = 0 \<and> m = 0) \<or> (sc = 0 \<and> tc = 0))
    (zip (take 0x3A normalmap) (zip (take 0x3A shiftmap) (zip (take 0x3A shiftcode) (take 0x3A togglecode))))"
  by code_simp

lemma quiet: "i < 0x3A \<Longrightarrow> normalmap ! i \<noteq> 0 \<or> shiftmap ! i \<noteq> 0 \<Longrightarrow> shiftcode ! i = 0 \<and> togglecode ! i = 0"
  using quiet_keys by (fastforce simp: list_all_length table_lengths)

definition key_index :: "nat list" where
  "key_index = [28, 57, 60, 98, 62, 63, 64, 66, 40, 68, 69, 55, 71, 51, 12, 52, 53, 11, 2, 3, 4, 5, 6, 7, 8, 9, 10,
     97, 39, 109, 13, 110, 111, 61, 88, 106, 104, 90, 76, 91, 92, 93, 81, 94, 95, 96, 108, 107, 82, 83,
     74, 77, 89, 78, 80, 105, 75, 103, 79, 102, 26, 43, 27, 65, 70, 41, 30, 48, 46, 32, 18, 33, 34, 35,
     23, 36, 37, 38, 50, 49, 24, 25, 16, 19, 31, 20, 22, 47, 17, 45, 21, 44, 84, 101, 85, 99]"

lemma typeable_keys:
  "map (\<lambda>i. (take 0x3A normalmap @ take 0x3A shiftmap) ! i) key_index = 10 # printable"
  "\<forall>i \<in> set key_index. i < 0x3A + 0x3A"
  by code_simp+

lemma typeable: "c \<in> set (10 # printable) \<Longrightarrow> (\<exists>i < 0x3A. normalmap ! i = c) \<or> (\<exists>i < 0x3A. shiftmap ! i = c)"
proof -
  assume "c \<in> set (10 # printable)"
  then obtain j where j: "j \<in> set key_index" "(take 0x3A normalmap @ take 0x3A shiftmap) ! j = c"
    unfolding typeable_keys(1) [symmetric] by auto
  with typeable_keys(2) have "j < 0x3A + 0x3A" by blast
  with j(2) have "j < 0x3A \<and> normalmap ! j = c \<or> j - 0x3A < 0x3A \<and> shiftmap ! (j - 0x3A) = c"
    by (auto simp: nth_append table_lengths split: if_splits)
  then show ?thesis by blast
qed

lemma shift_key: "scan_key 0x2A 0 = (0, 1)" "scan_key 0xAA 1 = (0, 0)"
  by code_simp+

lemma no_bit_7: "i < 128 \<Longrightarrow> (word_of_nat i :: u32) AND 128 = 0"
proof -
  assume "i < 128"
  then have "take_bit 7 (word_of_nat i :: u32) = word_of_nat i"
    by (simp add: take_bit_eq_mod word_unat_eq_iff unat_mod u32_of_nat_unat)
  then have "\<not> bit (word_of_nat i :: u32) 7" by (metis bit_take_bit_iff less_irrefl)
  then show ?thesis using and_exp_eq_0_iff_not_bit [of "word_of_nat i :: u32" 7] by simp
qed

lemma bit_7: "i < 128 \<Longrightarrow> (word_of_nat (i + 128) :: u32) AND 128 \<noteq> 0 \<and> (word_of_nat (i + 128) :: u32) AND 127 = word_of_nat i"
proof -
  assume i: "i < 128"
  have "bit (word_of_nat (i + 128) :: u32) 7"
  proof -
    have "(word_of_nat (i + 128) :: u32) div 128 = 1"
      using i by (simp add: word_unat_eq_iff unat_div u32_of_nat_unat del: of_nat_add)
    then show ?thesis by (simp add: bit_iff_odd_drop_bit drop_bit_eq_div del: of_nat_add)
  qed
  moreover have "take_bit 7 (word_of_nat (i + 128) :: u32) = word_of_nat i"
    using i by (simp add: take_bit_eq_mod word_unat_eq_iff unat_mod u32_of_nat_unat del: of_nat_add)
  ultimately show ?thesis
    using and_exp_eq_0_iff_not_bit [of "word_of_nat (i + 128) :: u32" 7]
    by (simp add: take_bit_eq_mask mask_eq_exp_minus_1)
qed

text \<open>A key that carries no modifier, with or without the shift key down.\<close>

lemma scan_make:
  assumes "i < 0x3A" and "shiftcode ! i = 0" and "togglecode ! i = 0" and "sh \<in> {0, 1}"
  shows "scan_key (word_of_nat i) sh = (uint ((if sh = 0 then normalmap else shiftmap) ! i), sh)"
proof -
  have "sint (ucast (c :: u8) :: u32) = uint c" for c
    using data_index(2) [of c] by (subst sint_uint_small) (simp_all add: word_less_nat_alt uint_up_ucast is_up)
  moreover have "(word_of_nat i :: u32) \<noteq> 0xE0" using assms(1) by (simp add: word_unat_eq_iff u32_of_nat_unat)
  moreover have "unat (word_of_nat i :: u32) = i" using assms(1) by (simp add: u32_of_nat_unat)
  ultimately show ?thesis using assms no_bit_7 [of i]
    by (auto simp: scan_key_def key_down_def charcode_def)
qed

lemma scan_break:
  assumes "i < 0x3A" and "shiftcode ! i = 0" and "sh \<in> {0, 1}"
  shows "scan_key (word_of_nat (i + 0x80)) sh = (0, sh)"
proof -
  have "(word_of_nat (i + 0x80) :: u32) \<noteq> 0xE0" using assms(1) by (simp add: word_unat_eq_iff u32_of_nat_unat del: of_nat_add)
  moreover have "unat (word_of_nat i :: u32) = i" using assms(1) by (simp add: u32_of_nat_unat)
  ultimately show ?thesis using assms bit_7 [of i] by (auto simp: scan_key_def Let_def simp del: of_nat_add)
qed

lemma byte_key: "i < 256 \<Longrightarrow> (ucast (word_of_nat i :: u8) :: u32) = word_of_nat i"
  by (simp add: unsigned_of_nat take_bit_nat_eq_self)

lemma strokes_scan:
  assumes "c \<in> set (10 # printable)" and "c \<noteq> 0"
  shows "\<exists>cs. scan_all (strokes c) 0 = (cs, 0) \<and> List.filter (\<lambda>c. c \<noteq> 0) cs = [uint c]"
proof (cases "first_index (\<lambda>i. normalmap ! i = c) 0x3A")
  case (Some i)
  then have i: "i < 0x3A" "normalmap ! i = c" by (auto simp: first_index_Some)
  with quiet [OF i(1)] assms(2) scan_make [of i 0] scan_break [of i 0] show ?thesis
    by (simp add: strokes_def Some byte_key uint_0_iff del: of_nat_add)
next
  case None
  then have "first_index (\<lambda>i. shiftmap ! i = c) 0x3A \<noteq> None"
    using typeable [OF assms(1)] by (auto simp: first_index_None)
  then obtain i where i1: "first_index (\<lambda>i. shiftmap ! i = c) 0x3A = Some i" by blast
  then have i: "first_index (\<lambda>i. shiftmap ! i = c) 0x3A = Some i" "i < 0x3A" "shiftmap ! i = c"
    by (simp_all add: first_index_Some)
  with quiet [OF i(2)] assms(2) scan_make [of i 1] scan_break [of i 1] None shift_key show ?thesis
    by (simp add: strokes_def byte_key uint_0_iff del: of_nat_add)
qed

lemma printable_nonzero: "c \<in> set (10 # printable) \<Longrightarrow> c \<noteq> 0"
proof -
  have "0 \<notin> set (10 # printable)" by code_simp
  then show "c \<in> set (10 # printable) \<Longrightarrow> c \<noteq> 0" by metis
qed

lemma text_scan:
  "set ts \<subseteq> set (10 # printable) \<Longrightarrow>
   \<exists>cs. scan_all (concat (map strokes ts)) 0 = (cs, 0) \<and> List.filter (\<lambda>c. c \<noteq> 0) cs = map uint ts"
proof (induction ts)
  case (Cons c ts)
  then obtain cs where "scan_all (concat (map strokes ts)) 0 = (cs, 0)" "List.filter (\<lambda>c. c \<noteq> 0) cs = map uint ts" by auto
  moreover have "c \<in> set (10 # printable)" using Cons.prems by simp
  then obtain ds where "scan_all (strokes c) 0 = (ds, 0)" "List.filter (\<lambda>c. c \<noteq> 0) ds = [uint c]"
    using strokes_scan printable_nonzero by blast
  ultimately show ?case by (simp add: scan_all_append)
qed simp

section \<open>From the keys to the reader\<close>

text \<open>A series of keyboard interrupts, each of which finds some bytes in the controller; the first
  component of the result says whether readers were woken up.\<close>

primrec kbd_irqs :: "bytes list \<Rightarrow> u32 \<Rightarrow> console \<Rightarrow> (bool \<times> u32 \<times> console) res" where
  "kbd_irqs [] sh s = Ok (False, sh, s)"
| "kbd_irqs (q # qs) sh s =
     rbind (kbdintr \<lparr>kb_shift = sh, kb_in = q\<rparr> s) (\<lambda>(dump, woke, k, s).
     rbind (kbd_irqs qs (kb_shift k) s) (\<lambda>(w, sh, s). Ok (woke \<or> w, sh, s)))"

lemma kbd_irqs_scan:
  assumes "scan_all (concat qs) sh = (cs, sh')" and "mods sh"
  shows "kbd_irqs qs sh s = rbind (consoleintr cs (False, False, s)) (\<lambda>(d, w, s'). Ok (w, sh', s'))"
  using assms
proof (induction qs arbitrary: sh cs s)
  case (Cons q qs)
  obtain c1 sh1 where 1: "scan_all q sh = (c1, sh1)" by fastforce
  then obtain c2 where 2: "scan_all (concat qs) sh1 = (c2, sh')" "cs = c1 @ c2"
    using Cons.prems by (auto simp: scan_all_append split: prod.splits)
  note r = scan_all_range [OF 1 Cons.prems(2)]
  have flags: "consoleintr c2 = (\<lambda>(d, w, s). rbind (consoleintr c2 (False, False, s)) (\<lambda>(d', w', s'). Ok (d \<or> d', w \<or> w', s')))"
  proof
    fix r
    show "consoleintr c2 r = (case r of (d, w, s) \<Rightarrow>
        rbind (consoleintr c2 (False, False, s)) (\<lambda>(d', w', s'). Ok (d \<or> d', w \<or> w', s')))"
      by (cases r) (simp only: prod.case, rule consoleintr_flags)
  qed
  have "kbd_irqs (q # qs) sh s = rbind (consoleintr c1 (False, False, s)) (\<lambda>(d, w, s).
      rbind (consoleintr c2 (False, False, s)) (\<lambda>(d', w', s). Ok (w \<or> w', sh', s)))"
    using r Cons.IH [OF 2(1)]
    by (simp add: kbdintr_def kbd_drain_scan [OF 1 Cons.prems(2)] consoleintr_stop rbind_assoc case_prod_unfold)
  also have "\<dots> = rbind (rbind (consoleintr c1 (False, False, s)) (consoleintr c2)) (\<lambda>(d, w, s'). Ok (w, sh', s'))"
    by (subst (2) flags) (simp add: rbind_assoc case_prod_unfold)
  finally show ?case using r by (simp add: 2(2) consoleintr_append)
qed simp

lemma printable_range: "c \<in> set printable \<Longrightarrow> 32 \<le> uint c \<and> uint c < 127"
  by (auto simp: printable_def unsigned_of_nat take_bit_nat_eq_self)

lemma intr_text:
  assumes "console_ok s" and "set ts \<subseteq> set printable" and "length (typed s) + length ts \<le> 128"
  shows "\<exists>w s'. consoleintr (map uint ts) (False, w0, s) = Ok (False, w, s') \<and> console_ok s' \<and> typed s' = typed s @ ts"
  using assms
proof (induction ts arbitrary: w0 s)
  case (Cons c ts)
  have c: "32 \<le> uint c" "uint c < 127" using printable_range Cons.prems(2) by auto
  with store_char_ok [OF Cons.prems(1), of "uint c"] Cons.prems(3) obtain w s' where
    s': "store_char (uint c) s = Ok (w, s')" "console_ok s'" "typed s' = typed s @ [c]" by auto
  then have "intr_char (uint c) s = Ok (w, s')" using c by (simp add: intr_char_def)
  with Cons.IH [OF s'(2), of "w0 \<or> w"] Cons.prems s'(3) c show ?case by auto
qed simp

lemma newline_completes: "store_char 10 s = Ok (w, s') \<Longrightarrow> in_e s - in_r s < 128 \<Longrightarrow> w"
  by (auto simp: store_char_def Let_def split: if_splits)

lemma intr_newline:
  assumes "console_ok s" and "length (typed s) < 128"
  shows "\<exists>s'. consoleintr [10] (False, w0, s) = Ok (False, True, s') \<and> console_ok s' \<and> completed s' = typed s @ [10]"
proof -
  from store_char_ok [OF assms(1), of 10] assms(2) obtain w s' where
    s': "store_char 10 s = Ok (w, s')" "console_ok s'" "typed s' = typed s @ [10]"
    "completed s' = (if w then typed s' else completed s)" by auto
  have "in_e s - in_r s < 128"
    using assms(2) by (simp add: typed_def ring_list_def ring_len_def word_less_nat_alt)
  with newline_completes [OF s'(1)] s' show ?thesis by (simp add: intr_char_def)
qed

lemma read_line_text:
  "set ts \<inter> {4, 10} = {} \<Longrightarrow> length ts < n \<Longrightarrow> read_line target n acc (ts @ 10 # rest) = Some (acc @ ts @ [10], rest)"
proof (induction ts arbitrary: n acc)
  case Nil
  then show ?case by (cases n) simp_all
next
  case (Cons c ts)
  then obtain m where "n = Suc m" "length ts < m" by (cases n) auto
  with Cons show ?case by auto
qed

text \<open>C38. What is typed is what is read: pressing the keys of a line of up to 127 printable characters and
  the return key - the shift key where the character needs it - brings exactly this line to the next
  \<open>read\<close> of the console, wakes the reader up and leaves no modifier set, however the scan codes are
  spread over keyboard interrupts.\<close>

theorem keyboard_to_read:
  assumes "console_ok s" and "typed s = []" and "set text \<subseteq> set printable" and "length text < 128"
    and "concat qs = concat (map strokes (text @ [10]))" and "length text < n"
  shows "\<exists>s' t. kbd_irqs qs 0 s = Ok (True, 0, s') \<and> console_ok s' \<and> completed s' = text @ [10] \<and>
    cread killed n n [] s' = Ok (Some (text @ [10]), t)"
proof -
  from text_scan [of "text @ [10]"] assms(3) obtain cs where
    cs: "scan_all (concat (map strokes (text @ [10]))) 0 = (cs, 0)" "List.filter (\<lambda>c. c \<noteq> 0) cs = map uint text @ [10]"
    by auto
  have "kbd_irqs qs 0 s = rbind (consoleintr cs (False, False, s)) (\<lambda>(d, w, s'). Ok (w, 0, s'))"
    using cs(1) by (intro kbd_irqs_scan) (simp_all only: assms(5) mods_ops)
  also have "consoleintr cs (False, False, s) = consoleintr (map uint text @ [10]) (False, False, s)"
    using consoleintr_keys [of cs] unfolding cs(2) by simp
  finally have run: "kbd_irqs qs 0 s = rbind (rbind (consoleintr (map uint text) (False, False, s)) (consoleintr [10]))
    (\<lambda>(d, w, s'). Ok (w, 0, s'))" by (simp add: consoleintr_append del: consoleintr.simps)
  from intr_text [OF assms(1,3), of False] assms(2,4) obtain w s1 where
    s1: "consoleintr (map uint text) (False, False, s) = Ok (False, w, s1)" "console_ok s1" "typed s1 = text" by auto
  from intr_newline [OF s1(2), of w] s1(3) assms(4) obtain s2 where
    s2: "consoleintr [10] (False, w, s1) = Ok (False, True, s2)" "console_ok s2" "completed s2 = text @ [10]" by auto
  have "set text \<inter> {4, 10} = {}" using assms(3) printable_range by fastforce
  from read_line_text [OF this assms(6), of n "[]" "[]"] s2(3) cread_read_line [of killed n n "[]" s2]
  show ?thesis using run s1(1) s2 by (simp del: consoleintr.simps)
qed

theorem keyboard_to_read_witness:
  "\<exists>s' t. kbd_irqs [[0x26, 0xA6, 0x2A], [0x1F, 0x9F, 0xAA, 0x1C, 0x9C]] 0 blank_console = Ok (True, 0, s') \<and>
     console_ok s' \<and> completed s' = [108, 83] @ [10] \<and> cread False 100 100 [] s' = Ok (Some ([108, 83] @ [10]), t)"
proof (rule keyboard_to_read)
  show "concat [[0x26, 0xA6, 0x2A], [0x1F, 0x9F, 0xAA, 0x1C, 0x9C]] = concat (map strokes ([108, 83] @ [10]))" by code_simp
  show "console_ok blank_console" by (simp add: console_ok_def blank_console_def ring_len_def on_screen_def)
  show "typed blank_console = []" by (simp add: typed_def blank_console_def ring_list_def ring_len_def)
  show "set [108, 83] \<subseteq> set printable" by code_simp
qed simp_all

end
