(* ===== verification/Cmem.thy ===== *)
theory Cmem imports CString begin

unbundle bit_operations_syntax

text \<open>
  Filling memory and the string routines of the user library that the kernel does not have:
  \<open>memset\<close> with the string instructions of \<open>x86.h\<close> that it is made of, \<open>memcpy\<close>, \<open>strcpy\<close>, \<open>gets\<close>.
  The array starts at address \<open>a\<close>: \<open>memset\<close> of the kernel chooses the instruction by the alignment of
  the address.
\<close>

section \<open>memset\<close>

text \<open>\<open>rep stosb\<close> stores the low byte of \<open>eax\<close>, \<open>rep stosl\<close> all of it.\<close>

fun stosb :: "nat \<Rightarrow> u32 \<Rightarrow> nat \<Rightarrow> bytes \<Rightarrow> bytes" where
  "stosb d x 0 m = m"
| "stosb d x (Suc n) m = stosb (Suc d) x n (m[d := ucast x])"

fun stosl :: "nat \<Rightarrow> u32 \<Rightarrow> nat \<Rightarrow> bytes \<Rightarrow> bytes" where
  "stosl d x 0 m = m"
| "stosl d x (Suc n) m = stosl (d + 4) x n (blit d (enc32 x) m)"

text \<open>The word \<open>memset\<close> makes of its argument.\<close>

definition spread :: "u32 \<Rightarrow> u32" where
  "spread c = (let c = c AND 0xFF in push_bit 24 c OR push_bit 16 c OR push_bit 8 c OR c)"

definition memset :: "u32 \<Rightarrow> nat \<Rightarrow> u32 \<Rightarrow> nat \<Rightarrow> bytes \<Rightarrow> bytes" where
  "memset a d c n m =
     (if sint (a + word_of_nat d) mod 4 = 0 \<and> n mod 4 = 0 then
        stosl d (spread c) (n div 4) m
      else stosb d c n m)"

definition user_memset :: "nat \<Rightarrow> u32 \<Rightarrow> nat \<Rightarrow> bytes \<Rightarrow> bytes" where
  "user_memset d c n m = stosb d c n m"

lemma blit_append: "d + length xs \<le> length m \<Longrightarrow> blit (d + length xs) ys (blit d xs m) = blit d (xs @ ys) m"
  by (simp add: blit_def ac_simps)

lemma blit_Nil [simp]: "blit d [] m = m"
  by (simp add: blit_def)

lemma update_blit: "d < length m \<Longrightarrow> m[d := x] = blit d [x] m"
  by (simp add: blit_def upd_conv_take_nth_drop)

lemma stosb_blit: "d + n \<le> length m \<Longrightarrow> stosb d x n m = blit d (replicate n (ucast x)) m"
proof (induction d x n m rule: stosb.induct)
  case (2 d x n m)
  then show ?case using blit_append [of d "[ucast x]" m "replicate n (ucast x)"] by (simp add: update_blit)
qed simp

lemma stosl_blit: "d + 4 * n \<le> length m \<Longrightarrow> stosl d x n m = blit d (concat (replicate n (enc32 x))) m"
proof (induction d x n m rule: stosl.induct)
  case (2 d x n m)
  then show ?case using blit_append [of d "enc32 x" m "concat (replicate n (enc32 x))"] by simp
qed simp

lemma and_255: "c AND 255 = take_bit 8 (c :: u32)"
  by (simp add: take_bit_eq_mask mask_eq_exp_minus_1)

lemma bit_spread: "bit (spread c) n \<longleftrightarrow> n < 32 \<and> bit c (n mod 8)"
proof -
  consider "n < 8" | "8 \<le> n" "n < 16" | "16 \<le> n" "n < 24" | "24 \<le> n" "n < 32" | "32 \<le> n" by linarith
  then show ?thesis
    by cases (auto simp: spread_def and_255 Let_def bit_simps mod_if dest: bit_imp_le_length)
qed

lemma spread_byte: "enc32 (spread c) = replicate 4 (ucast c)"
proof -
  have "ucast (drop_bit (8 * m) (spread c)) = (ucast c :: u8)" if "m < 4" for m
    using that by (intro bit_word_eqI) (auto simp: bit_spread bit_simps)
  from this [of 0] this [of 1] this [of 2] this [of 3]
  have "ucast (spread c) = (ucast c :: u8)" "ucast (drop_bit 8 (spread c)) = (ucast c :: u8)"
    "ucast (drop_bit 16 (spread c)) = (ucast c :: u8)" "ucast (drop_bit 24 (spread c)) = (ucast c :: u8)" by simp_all
  moreover have "replicate 4 x = [x, x, x, x]" for x :: u8 by (simp add: numeral_eq_Suc)
  ultimately show ?thesis by (simp add: enc32_def)
qed

lemma concat_replicates: "concat (replicate n (replicate k x)) = replicate (n * k) x"
  by (induction n) (simp_all add: replicate_add)

lemma memset_blit:
  assumes "d + n \<le> length m"
  shows "memset a d c n m = blit d (replicate n (ucast c)) m"
proof (cases "sint (a + word_of_nat d) mod 4 = 0 \<and> n mod 4 = 0")
  case True
  then obtain k where k: "n = 4 * k" by (metis mod_0_imp_dvd dvdE)
  with assms have "d + 4 * k \<le> length m" by simp
  from True this show ?thesis unfolding memset_def Let_def
    by (simp add: k stosl_blit spread_byte concat_replicates mult.commute)
next
  case False
  then show ?thesis using assms unfolding memset_def by (simp only: if_False stosb_blit)
qed

lemma user_memset_blit: "d + n \<le> length m \<Longrightarrow> user_memset d c n m = blit d (replicate n (ucast c)) m"
  by (simp add: user_memset_def stosb_blit)

section \<open>memcpy and strcpy\<close>

definition memcpy :: "nat \<Rightarrow> nat \<Rightarrow> nat \<Rightarrow> bytes \<Rightarrow> bytes" where
  "memcpy d s n m = memmove d s n m"

text \<open>\<open>strcpy\<close> writes up to and including the terminating zero.\<close>

function strcpy_at :: "nat \<Rightarrow> bytes \<Rightarrow> bytes \<Rightarrow> bytes" where
  "strcpy_at i t d = (if ld t i \<noteq> 0 then strcpy_at (Suc i) t (d[i := ld t i]) else d[i := ld t i])"
  by pat_completeness auto
termination
  by (relation "measure (\<lambda>(i, t, d). length t - i)") (auto simp: ld_def split: if_splits)

declare strcpy_at.simps [simp del]

definition strcpy :: "bytes \<Rightarrow> bytes \<Rightarrow> bytes" where
  "strcpy d t = strcpy_at 0 t d"

abbreviation str_tail :: "nat \<Rightarrow> bytes \<Rightarrow> bytes" where
  "str_tail i t \<equiv> takeWhile (\<lambda>c. c \<noteq> 0) (drop i t)"

lemma str_tail_step: "str_tail i t = (if ld t i = 0 then [] else ld t i # str_tail (Suc i) t)"
  by (cases "i < length t") (auto simp: drop_ld, auto simp: ld_def)

lemma strcpy_at_blit: "i + length (str_tail i t) < length d \<Longrightarrow> strcpy_at i t d = blit i (str_tail i t @ [0]) d"
proof (induction i t d rule: strcpy_at.induct)
  case (1 i t d)
  show ?case
  proof (cases "ld t i = 0")
    case True
    then show ?thesis using 1(2) str_tail_step [of i t]
      by (subst strcpy_at.simps) (simp add: update_blit)
  next
    case False
    then have s: "str_tail i t = ld t i # str_tail (Suc i) t" using str_tail_step [of i t] by simp
    with 1 False have "strcpy_at (Suc i) t (d[i := ld t i]) = blit (Suc i) (str_tail (Suc i) t @ [0]) (blit i [ld t i] d)"
      by (simp add: update_blit)
    then show ?thesis using False 1(2) s blit_append [of i "[ld t i]" d] by (subst strcpy_at.simps) simp
  qed
qed

lemma strcpy_blit: "length (str_tail 0 t) < length d \<Longrightarrow> strcpy d t = blit 0 (str_tail 0 t @ [0]) d"
  using strcpy_at_blit [of 0 t d] by (simp add: strcpy_def)

section \<open>gets\<close>

text \<open>
  Standard input is the list of the bytes that \<open>read (0, &c, 1)\<close> delivers; at its end \<open>read\<close> returns 0
  or an error.  The result is the buffer and what is left of the input.
\<close>

fun gets_loop :: "nat \<Rightarrow> int \<Rightarrow> bytes \<Rightarrow> bytes \<Rightarrow> bytes \<times> bytes" where
  "gets_loop i mx [] buf = (buf[i := 0], [])"
| "gets_loop i mx (c # cs) buf =
     (if int i + 1 < mx then
        let buf = buf[i := c] in
        if c = 10 \<or> c = 13 then (buf[Suc i := 0], cs) else gets_loop (Suc i) mx cs buf
      else (buf[i := 0], c # cs))"

definition gets :: "bytes \<Rightarrow> int \<Rightarrow> bytes \<Rightarrow> bytes \<times> bytes" where
  "gets buf mx input = gets_loop 0 mx input buf"

text \<open>The line \<open>gets\<close> takes: up to and with the first end of line, at most \<open>n\<close> bytes.\<close>

fun line_of :: "nat \<Rightarrow> bytes \<Rightarrow> bytes" where
  "line_of 0 cs = []"
| "line_of n [] = []"
| "line_of (Suc n) (c # cs) = (if c = 10 \<or> c = 13 then [c] else c # line_of n cs)"

lemma gets_loop_spec:
  assumes "int i < mx" and "mx \<le> int (length buf)"
  shows "gets_loop i mx cs buf =
    (let l = line_of (nat mx - Suc i) cs in (blit i (l @ [0]) buf, drop (length l) cs))"
  using assms
proof (induction i mx cs buf rule: gets_loop.induct)
  case (1 i mx buf)
  have "line_of k [] = []" for k by (cases k) simp_all
  then show ?case using 1 by (simp add: update_blit)
next
  case (2 i mx c cs buf)
  show ?case
  proof (cases "int i + 1 < mx")
    case False
    then have "nat mx - Suc i = 0" using 2 by simp
    then show ?thesis using 2 False by (simp add: update_blit)
  next
    case True
    then obtain k where k: "nat mx - Suc i = Suc k" "nat mx - Suc (Suc i) = k" by (cases "nat mx - Suc i") auto
    have two: "blit (Suc i) xs (blit i [c] buf) = blit i (c # xs) buf" for xs
      using blit_append [of i "[c]" buf xs] True 2 by simp
    have len: "length (buf[i := c]) = length buf" "i < length buf" "Suc i < length buf" using True 2 by simp_all
    show ?thesis
    proof (cases "c = 10 \<or> c = 13")
      case eol: True
      then show ?thesis using True len two [of "[0]"] k
        by (simp add: update_blit [of "Suc i"] update_blit [of i])
    next
      case False
      then show ?thesis using True len two k 2 by (simp add: Let_def update_blit [of i])
    qed
  qed
qed

lemma gets_line:
  assumes "0 < mx" and "mx \<le> int (length buf)"
  shows "gets buf mx input = (let l = line_of (nat mx - 1) input in (blit 0 (l @ [0]) buf, drop (length l) input))"
  using gets_loop_spec [of 0 mx buf input] assms by (simp add: gets_def)

end
