(* ===== verification/Mkfs.thy ===== *)
theory Mkfs imports Reload Cmem begin

text \<open>
  The program that builds the first file system (\<open>mkfs.c\<close>), which runs on the machine that compiles the
  kernel.  The image file is a map from sectors to blocks of 512 bytes with the number of sectors written
  so far; a failing \<open>assert\<close>, \<open>perror\<close> and the \<open>exit (1)\<close> behind it are the outcome \<open>Panic\<close>.  The files of the
  command line are data: a name, and what \<open>open\<close> and the calls of \<open>read\<close> deliver.
\<close>

abbreviation (input) FSSIZE :: nat where "FSSIZE \<equiv> 1000"
abbreviation (input) NINODES :: nat where "NINODES \<equiv> 200"
abbreviation (input) MAXFILE :: u32 where "MAXFILE \<equiv> 140"
abbreviation (input) ROOTINO :: u32 where "ROOTINO \<equiv> 1"

record mkfs =
  img :: view
  img_size :: nat
  mk_sb :: superblock
  freeinode :: u32
  freeblock :: u32

text \<open>
  \<open>xshort\<close> and \<open>xint\<close> store the bytes least significant first and read them back as an integer of the
  host; on the little-endian hosts that the kernel is built on they change nothing.
\<close>

definition xshort :: "u16 \<Rightarrow> u16" where
  "xshort x = dec16 [ucast x, ucast (drop_bit 8 x)]"

definition xint :: "u32 \<Rightarrow> u32" where
  "xint x = dec32 [ucast x, ucast (drop_bit 8 x), ucast (drop_bit 16 x), ucast (drop_bit 24 x)]"

lemma xint_id [simp]: "xint x = x" "xshort y = y"
  using dec32_enc32 [of x] dec16_enc16 [of y] by (simp_all add: xint_def xshort_def enc32_def enc16_def)

section \<open>Sectors\<close>

text \<open>The file offset \<open>sec * BSIZE\<close> is a \<open>uint\<close>.  Reading past the end of the image fails, writing past it
  extends it.\<close>

definition rsect :: "u32 \<Rightarrow> mkfs \<Rightarrow> bytes res" where
  "rsect sec m =
     (let p = sec * 512 div 512 in if unat p < img_size m then Ok (img m p) else Panic ''read'')"

definition wsect :: "u32 \<Rightarrow> bytes \<Rightarrow> mkfs \<Rightarrow> mkfs" where
  "wsect sec buf m =
     (let p = sec * 512 div 512
      in m\<lparr>img := (img m)(p := buf), img_size := max (img_size m) (Suc (unat p))\<rparr>)"

section \<open>Inodes\<close>

definition rinode :: "u32 \<Rightarrow> mkfs \<Rightarrow> dinode res" where
  "rinode inum m =
     rbind (rsect (IBLOCK inum (mk_sb m)) m) (\<lambda>buf. Ok (dec_dinode (slice (di_off inum) 64 buf)))"

definition winode :: "u32 \<Rightarrow> dinode \<Rightarrow> mkfs \<Rightarrow> mkfs res" where
  "winode inum d m =
     (let bn = IBLOCK inum (mk_sb m) in
      rbind (rsect bn m) (\<lambda>buf. Ok (wsect bn (blit (di_off inum) (enc_dinode d) buf) m)))"

definition new_dinode :: "u16 \<Rightarrow> dinode" where
  "new_dinode ty = \<lparr>di_type = xshort ty, di_major = 0, di_minor = 0, di_nlink = xshort 1, di_perm = 0,
     di_size = xint 0, di_addrs = replicate 13 0\<rparr>"

definition mk_ialloc :: "u16 \<Rightarrow> mkfs \<Rightarrow> (u32 \<times> mkfs) res" where
  "mk_ialloc ty m =
     (let inum = freeinode m; m = m\<lparr>freeinode := freeinode m + 1\<rparr> in
      rbind (winode inum (new_dinode ty) m) (\<lambda>m. Ok (inum, m)))"

section \<open>Appending to a file\<close>

definition new_block :: "nat \<Rightarrow> dinode \<times> mkfs \<Rightarrow> dinode \<times> mkfs" where
  "new_block k = (\<lambda>(d, m).
     if xint (di_addrs d ! k) = 0
     then (d\<lparr>di_addrs := (di_addrs d)[k := xint (freeblock m)]\<rparr>, m\<lparr>freeblock := freeblock m + 1\<rparr>)
     else (d, m))"

text \<open>The block for file block \<open>fbn\<close>, allocated when the file does not have it yet.\<close>

definition append_block :: "u32 \<Rightarrow> dinode \<Rightarrow> mkfs \<Rightarrow> (u32 \<times> dinode \<times> mkfs) res" where
  "append_block fbn d m =
     (if fbn < 12 then
        (case new_block (unat fbn) (d, m) of (d, m) \<Rightarrow> Ok (xint (di_addrs d ! unat fbn), d, m))
      else
        (case new_block 12 (d, m) of (d, m) \<Rightarrow>
           rbind (rsect (xint (di_addrs d ! 12)) m) (\<lambda>indirect.
           let p = 4 * unat (fbn - 12) in
           if get32 p indirect = 0 then
             let indirect = put32 p (xint (freeblock m)) indirect;
                 m = m\<lparr>freeblock := freeblock m + 1\<rparr>;
                 m = wsect (xint (di_addrs d ! 12)) indirect m
             in Ok (xint (get32 p indirect), d, m)
           else Ok (xint (get32 p indirect), d, m))))"

function append_loop :: "bytes \<Rightarrow> u32 \<Rightarrow> dinode \<Rightarrow> mkfs \<Rightarrow> (u32 \<times> dinode \<times> mkfs) res" where
  "append_loop p off d m =
     (if p = [] then Ok (off, d, m)
      else
        let fbn = off div 512 in
        if \<not> fbn < MAXFILE then Panic ''assert''
        else
          rbind (append_block fbn d m) (\<lambda>(x, d, m).
          let n1 = min (length p) (unat ((fbn + 1) * 512 - off)) in
          rbind (rsect x m) (\<lambda>buf.
          let m = wsect x (blit (unat (off - fbn * 512)) (take n1 p) buf) m in
          append_loop (drop n1 p) (off + word_of_nat n1) d m)))"
  by pat_completeness auto

lemma block_end: "off div 512 < (140 :: u32) \<Longrightarrow> unat ((off div 512 + 1) * 512 - off) = 512 - unat off mod 512"
proof -
  assume "off div 512 < 140"
  then have lt: "unat off div 512 < 140" by (simp add: word_less_nat_alt unat_div)
  have "(off div 512 + 1) * 512 = word_of_nat ((unat off div 512 + 1) * 512)" by (simp add: word_arith_nat_div)
  then have e: "unat ((off div 512 + 1) * 512) = (unat off div 512 + 1) * 512"
    using lt by (simp only:) (rule u32_of_nat_unat, simp)
  obtain q r where qr: "unat off div 512 = q" "unat off mod 512 = r" "unat off = 512 * q + r" "r < 512"
    by (metis mod_less_divisor mult_div_mod_eq zero_less_numeral)
  then have "unat off \<le> unat ((off div 512 + 1) * 512)" unfolding e by simp
  then have "unat ((off div 512 + 1) * 512 - off) = (unat off div 512 + 1) * 512 - unat off"
    by (simp only: unat_sub word_le_nat_alt e)
  then show ?thesis using qr by simp
qed

lemma append_progress: "off div 512 < (140 :: u32) \<Longrightarrow> 0 < unat (off div 512 * 512 + 512 - off)"
  using block_end [of off] by (simp add: distrib_right)

termination append_loop
  by (relation "measure (\<lambda>(p, off, d, m). length p)") (auto simp: append_progress)

declare append_loop.simps [simp del]

definition iappend :: "u32 \<Rightarrow> bytes \<Rightarrow> mkfs \<Rightarrow> mkfs res" where
  "iappend inum p m =
     rbind (rinode inum m) (\<lambda>d.
     rbind (append_loop p (xint (di_size d)) d m) (\<lambda>(off, d, m).
     winode inum (d\<lparr>di_size := xint off\<rparr>) m))"

section \<open>The bitmap\<close>

definition mk_balloc :: "u32 \<Rightarrow> mkfs \<Rightarrow> mkfs res" where
  "mk_balloc used m =
     (if \<not> sint used < 4096 then Panic ''assert''
      else
        let buf = fold mark_used [0..<nat (sint used)] (replicate BSIZE 0)
        in Ok (wsect (sb_bmapstart (mk_sb m)) buf m))"

section \<open>main\<close>

definition enc_super :: "superblock \<Rightarrow> bytes" where
  "enc_super su = concat (map enc32 [sb_size su, sb_nblocks su, sb_ninodes su, sb_nlog su, sb_logstart su,
     sb_inodestart su, sb_bmapstart su])"

definition nbitmap :: nat where "nbitmap = FSSIZE div (BSIZE * 8) + 1"
definition ninodeblocks :: nat where "ninodeblocks = NINODES div 8 + 1"
definition nlog :: nat where "nlog = 30"
definition nmeta :: nat where "nmeta = 2 + nlog + ninodeblocks + nbitmap"

definition mkfs_super :: superblock where
  "mkfs_super = \<lparr>sb_size = xint (word_of_nat FSSIZE), sb_nblocks = xint (word_of_nat (FSSIZE - nmeta)),
     sb_ninodes = xint (word_of_nat NINODES), sb_nlog = xint (word_of_nat nlog), sb_logstart = xint 2,
     sb_inodestart = xint (word_of_nat (2 + nlog)), sb_bmapstart = xint (word_of_nat (2 + nlog + ninodeblocks))\<rparr>"

text \<open>The image after \<open>open\<close> with \<open>O_TRUNC\<close>: no sectors; what \<open>wsect\<close> skips reads as zeros.\<close>

definition mkfs_start :: mkfs where
  "mkfs_start = \<lparr>img = (\<lambda>_. replicate BSIZE 0), img_size = 0, mk_sb = mkfs_super, freeinode = 1,
     freeblock = word_of_nat nmeta\<rparr>"

definition mk_dirent :: "u32 \<Rightarrow> bytes \<Rightarrow> bytes" where
  "mk_dirent inum name = put16 0 (xshort (ucast inum)) (blit 2 name (replicate 16 0))"

text \<open>One file of the command line: \<open>None\<close> when it cannot be opened, else the pieces that \<open>read\<close>
  returns.\<close>

definition add_file :: "bytes \<times> bytes list option \<Rightarrow> mkfs \<Rightarrow> mkfs res" where
  "add_file = (\<lambda>(arg, src) m.
     if 47 \<in> set (str_tail 0 arg) then Panic ''assert''
     else case src of
       None \<Rightarrow> Panic ''open''
     | Some pieces \<Rightarrow>
         let arg = (if ld arg 0 = 95 then drop 1 arg else arg) in
         rbind (mk_ialloc T_FILE m) (\<lambda>(inum, m).
         rbind (iappend ROOTINO (mk_dirent inum (strncpy (replicate DIRSIZ 0) arg DIRSIZ)) m) (\<lambda>m.
         rfold (iappend inum) pieces m)))"

definition mkfs_main :: "(bytes \<times> bytes list option) list \<Rightarrow> mkfs res" where
  "mkfs_main files =
     (let m = fold (\<lambda>i. wsect (word_of_nat i) (replicate BSIZE 0)) [0..<FSSIZE] mkfs_start;
          m = wsect 1 (blit 0 (enc_super (mk_sb m)) (replicate BSIZE 0)) m
      in rbind (mk_ialloc T_DIR m) (\<lambda>(rootino, m).
         if rootino \<noteq> ROOTINO then Panic ''assert''
         else
           rbind (iappend rootino (mk_dirent rootino (strcpy (replicate DIRSIZ 0) [46])) m) (\<lambda>m.
           rbind (iappend rootino (mk_dirent rootino (strcpy (replicate DIRSIZ 0) [46, 46])) m) (\<lambda>m.
           rbind (rfold add_file files m) (\<lambda>m.
           rbind (rinode rootino m) (\<lambda>d.
           let off = xint (di_size d); off = (off div 512 + 1) * 512 in
           rbind (winode rootino (d\<lparr>di_size := xint off\<rparr>) m) (\<lambda>m.
           mk_balloc (freeblock m) m)))))))"

end
