(* ===== verification/Mkimage.thy ===== *)
theory Mkimage imports Mkfs begin

text \<open>
  What the image built by \<open>mkfs.c\<close> holds.  The image stands for a list of files: the inode with number
  \<open>j + 1\<close> is the \<open>j\<close>-th of the list, a type and its bytes.  Each file has exactly the blocks its size
  needs, the blocks of different files are different, and everything from \<open>freeblock\<close> on is still zero.
\<close>

abbreviation zeros :: bytes where "zeros \<equiv> replicate BSIZE 0"

section \<open>Sizes and blocks\<close>

definition blocks_of :: "nat \<Rightarrow> nat" where
  "blocks_of n = (n + 511) div 512 + (if 6144 < n then 1 else 0)"

text \<open>Whether a file of \<open>n\<close> bytes has block \<open>k\<close>; 140 is the indirect block.\<close>

definition needs :: "nat \<Rightarrow> nat \<Rightarrow> bool" where
  "needs n k \<longleftrightarrow> (if k = 140 then 6144 < n else k * 512 < n)"

lemma size_split:
  obtains k q where "n = 512 * k + q" "q < 512" "n div 512 = k" "n mod 512 = (q :: nat)"
  by (metis mod_less_divisor mult_div_mod_eq zero_less_numeral)

lemma blocks_of_step:
  assumes "0 < l" and "n mod 512 + l \<le> 512"
  shows "blocks_of (n + l) = blocks_of n + (if n mod 512 = 0 then 1 else 0) + (if n = 6144 then 1 else 0)"
proof -
  obtain k q where q: "n = 512 * k + q" "q < 512" "n mod 512 = q" by (rule size_split)
  have "(n + l + 511) div 512 = Suc k"
    using q assms by (intro div_nat_eqI) simp_all
  moreover have "(n + 511) div 512 = (if q = 0 then k else Suc k)"
    using q by (auto intro!: div_nat_eqI)
  moreover have "6144 < n + l \<longleftrightarrow> 6144 < n \<or> n = 6144"
  proof -
    have "512 * k + q + l \<le> 512 * Suc k" using q assms(2) by simp
    moreover have "6144 < n + l \<Longrightarrow> 12 \<le> k" using q assms(2) by linarith
    moreover have "12 \<le> k \<Longrightarrow> 6144 \<le> n" using q by linarith
    ultimately show ?thesis using assms(1) by linarith
  qed
  ultimately show ?thesis using q by (simp add: blocks_of_def)
qed

lemma needs_step:
  assumes "0 < l" and "n mod 512 + l \<le> 512" and "k \<le> 140" and "n div 512 < 140"
  shows "needs (n + l) k \<longleftrightarrow> needs n k \<or> k = n div 512 \<or> (k = 140 \<and> n = 6144)"
proof -
  obtain b q where q: "n = 512 * b + q" "q < 512" "n div 512 = b" "n mod 512 = q" by (rule size_split)
  show ?thesis
  proof (cases "k = 140")
    case True
    have "6144 < n + l \<Longrightarrow> 12 \<le> b" using q assms(2) by linarith
    moreover have "12 \<le> b \<Longrightarrow> 6144 \<le> n" using q by linarith
    ultimately show ?thesis using True assms(1,4) q(3) by (auto simp: needs_def)
  next
    case False
    have "k * 512 < n + l \<longleftrightarrow> k \<le> b"
    proof
      assume "k * 512 < n + l"
      then have "k * 512 < Suc b * 512" using q assms(2) by simp
      then show "k \<le> b" by simp
    next
      assume "k \<le> b"
      then have "k * 512 \<le> b * 512" by simp
      then show "k * 512 < n + l" using q assms(1) by linarith
    qed
    moreover have "k * 512 < n \<longleftrightarrow> k < b \<or> (k = b \<and> 0 < q)"
    proof
      assume "k * 512 < n"
      then have "k * 512 < b * 512 + q" using q by simp
      then show "k < b \<or> (k = b \<and> 0 < q)" using q(2) by (cases "k < b") (auto simp: not_less le_less dest: Suc_leI mult_le_mono1 [of "Suc b" k 512])
    next
      assume "k < b \<or> (k = b \<and> 0 < q)"
      then show "k * 512 < n" using q mult_less_mono1 [of k b 512] by auto
    qed
    ultimately show ?thesis using False q by (auto simp: needs_def)
  qed
qed

section \<open>The invariant\<close>

definition tight :: "view \<Rightarrow> u32 \<Rightarrow> dinode \<Rightarrow> bool" where
  "tight v fb d \<longleftrightarrow> length (di_addrs d) = 13 \<and> unat (di_size d) \<le> 71680 \<and>
     (\<forall>k\<le>140. slot v (di_addrs d) k \<noteq> 0 \<longleftrightarrow> needs (unat (di_size d)) k) \<and>
     (\<forall>k\<le>140. slot v (di_addrs d) k \<noteq> 0 \<longrightarrow> 59 \<le> unat (slot v (di_addrs d) k) \<and> slot v (di_addrs d) k < fb) \<and>
     (\<forall>k\<le>140. \<forall>l\<le>140. slot v (di_addrs d) k = slot v (di_addrs d) l \<longrightarrow> slot v (di_addrs d) k \<noteq> 0 \<longrightarrow> k = l)"

definition stands :: "view \<Rightarrow> dinode \<Rightarrow> u16 \<times> bytes \<Rightarrow> bool" where
  "stands v d f \<longleftrightarrow> di_type d = fst f \<and> di_major d = 0 \<and> di_minor d = 0 \<and> di_nlink d = 1 \<and> di_perm d = 0 \<and>
     unat (di_size d) = length (snd f) \<and>
     (\<forall>p < 71680. byte_at (fblock v (di_addrs d)) p = (if p < length (snd f) then snd f ! p else 0))"

definition image_ok :: "view \<Rightarrow> u32 \<Rightarrow> dinode list \<Rightarrow> (u16 \<times> bytes) list \<Rightarrow> bool" where
  "image_ok v fb ds fs \<longleftrightarrow> (\<forall>b. length (v b) = BSIZE) \<and> (\<forall>b. fb \<le> b \<longrightarrow> v b = zeros) \<and>
     unat fb = 59 + sum_list (map (\<lambda>f. blocks_of (length (snd f))) fs) \<and> length ds = length fs \<and>
     (\<forall>j < length fs. tight v fb (ds ! j) \<and> stands v (ds ! j) (fs ! j)) \<and>
     (\<forall>i < length fs. \<forall>j < length fs. i \<noteq> j \<longrightarrow> owns v (di_addrs (ds ! i)) \<inter> owns v (di_addrs (ds ! j)) = {})"

lemma slot_cong: "as ! 12 \<noteq> 0 \<longrightarrow> w (as ! 12) = v (as ! 12) \<Longrightarrow> slot w as k = slot v as k"
  by (simp add: slot_def)

lemma owns_indirect: "as ! 12 \<noteq> 0 \<Longrightarrow> as ! 12 \<in> owns v as"
  by (auto simp: owns_def slot_def intro!: exI [of _ 140])

lemma file_elsewhere:
  assumes "\<forall>c \<in> owns v as. w c = v c"
  shows "slot w as k = slot v as k" "k \<le> 140 \<Longrightarrow> fblock w as k = fblock v as k" "owns w as = owns v as"
proof -
  have "as ! 12 \<noteq> 0 \<longrightarrow> w (as ! 12) = v (as ! 12)" using assms owns_indirect by blast
  note s = slot_cong [of as w v, OF this]
  show "slot w as k = slot v as k" by (rule s)
  show "owns w as = owns v as" by (simp add: owns_def s)
  show "k \<le> 140 \<Longrightarrow> fblock w as k = fblock v as k" using assms by (auto simp: fblock_def s owns_def)
qed

lemma file_index: "p < 71680 \<Longrightarrow> p div 512 < (140 :: nat)"
  by (simp add: less_mult_imp_div_less)

lemma other_file:
  assumes "tight v fb d" and "stands v d f" and "\<forall>c \<in> owns v (di_addrs d). w c = v c" and "fb \<le> fb'"
  shows "tight w fb' d \<and> stands w d f"
proof -
  note e = file_elsewhere [of v "di_addrs d" w, OF assms(3)]
  have "tight w fb' d" using assms(1,4) unfolding tight_def e(1) by (meson less_le_trans)
  moreover have "byte_at (fblock w (di_addrs d)) p = byte_at (fblock v (di_addrs d)) p" if "p < 71680" for p
    using e(2) [of "p div 512"] file_index [OF that] by (simp add: byte_at_def)
  ultimately show ?thesis using assms(2) by (simp add: stands_def)
qed

section \<open>Sectors and slots\<close>

lemma sector: "b < 1000 \<Longrightarrow> b * 512 div 512 = (b :: u32)"
proof -
  assume "b < 1000"
  then have b: "unat b < 1000" by (simp add: word_less_nat_alt)
  have "unat (b * 512) = unat b * 512" using b by (simp add: unat_word_ariths)
  then show ?thesis by (simp add: word_unat_eq_iff unat_div)
qed

lemma rsect_ok: "b < 1000 \<Longrightarrow> img_size m = 1000 \<Longrightarrow> rsect b m = Ok (img m b)"
  by (simp add: rsect_def sector word_less_nat_alt)

lemma wsect_ok: "b < 1000 \<Longrightarrow> img_size m = 1000 \<Longrightarrow> wsect b buf m = m\<lparr>img := (img m)(b := buf)\<rparr>"
  by (simp add: wsect_def sector word_less_nat_alt max_def)

text \<open>What \<open>append_block\<close> finds or takes: the slot of block \<open>k\<close> becomes \<open>x\<close>, and a new indirect block is
  taken at the first block behind the direct ones.\<close>

definition takes :: "view \<Rightarrow> u32 list \<Rightarrow> u32 \<Rightarrow> nat \<Rightarrow> u32 \<Rightarrow> view \<Rightarrow> u32 list \<Rightarrow> u32 \<Rightarrow> bool" where
  "takes v as fb k x w bs fb' \<longleftrightarrow>
     (let ind = (12 \<le> k \<and> as ! 12 = 0) in
      length bs = 13 \<and> (\<forall>c. length (w c) = BSIZE) \<and>
      x = (if slot v as k \<noteq> 0 then slot v as k else if ind then fb + 1 else fb) \<and>
      fb' = (if slot v as k \<noteq> 0 then fb else if ind then fb + 2 else fb + 1) \<and>
      (\<forall>l\<le>140. slot w bs l = (if l = k then x else if l = 140 \<and> ind then fb else slot v as l)) \<and>
      (\<forall>c. c \<noteq> slot w bs 140 \<or> k < 12 \<longrightarrow> w c = v c))"

lemma new_block_simp:
  "new_block k (d, m) = (if di_addrs d ! k = 0
     then (d\<lparr>di_addrs := (di_addrs d)[k := freeblock m]\<rparr>, m\<lparr>freeblock := freeblock m + 1\<rparr>) else (d, m))"
  by (simp add: new_block_def)

lemma put32_slot:
  assumes "12 \<le> k" and "k < 140" and "length (v b) = BSIZE" and "b \<noteq> 0" and "bs ! 12 = b"
    and "w = v(b := put32 (4 * (k - 12)) x (v b))" and "l \<le> 140" and "\<forall>l<12. bs ! l = as ! l"
    and "\<forall>l. 12 \<le> l \<longrightarrow> l < 140 \<longrightarrow> get32 (4 * (l - 12)) (v b) = slot v as l"
  shows "slot w bs l = (if l = k then x else if l = 140 then b else slot v as l)"
proof -
  have "get32 (4 * (l - 12)) (put32 (4 * (k - 12)) x (v b)) = slot v as l" if "12 \<le> l" "l < 140" "l \<noteq> k"
    using that assms(1-3,9) by (subst get32_put32_other) auto
  then show ?thesis using assms by (auto simp: slot_def)
qed

lemma append_block_spec:
  fixes m :: mkfs and d :: dinode and fbn :: u32
  defines "v \<equiv> img m" and "as \<equiv> di_addrs d" and "fb \<equiv> freeblock m" and "k \<equiv> unat fbn"
  assumes k: "k < 140" and as: "length as = 13" and len: "\<forall>b. length (v b) = BSIZE" and z: "v fb = zeros"
    and fb: "0 < fb" "slot v as k = 0 \<Longrightarrow> fb < 1000"
    and ind: "12 \<le> k \<Longrightarrow> as ! 12 \<noteq> 0 \<Longrightarrow> as ! 12 < 1000" "k < 12 \<or> as ! 12 = 0 \<or> as ! 12 < fb" and n: "img_size m = 1000"
  shows "\<exists>x w bs fb'. append_block fbn d m = Ok (x, d\<lparr>di_addrs := bs\<rparr>, m\<lparr>img := w, freeblock := fb'\<rparr>) \<and>
    takes v as fb k x w bs fb'"
proof -
  have fb0: "fb \<noteq> 0" using fb(1) by auto
  show ?thesis
  proof (cases "k < 12")
    case True
    then have lt: "fbn < 12" by (simp add: k_def word_less_nat_alt)
    show ?thesis
    proof (cases "as ! k = 0")
      case new: True
      have "append_block fbn d m = Ok (fb, d\<lparr>di_addrs := as[k := fb]\<rparr>, m\<lparr>img := v, freeblock := fb + 1\<rparr>)"
        using lt new as True by (simp add: append_block_def new_block_simp as_def fb_def k_def v_def)
      moreover have "takes v as fb k fb v (as[k := fb]) (fb + 1)"
        using True new as len by (auto simp: takes_def slot_def nth_list_update)
      ultimately show ?thesis by blast
    next
      case False
      have "append_block fbn d m = Ok (as ! k, d\<lparr>di_addrs := as\<rparr>, m\<lparr>img := v, freeblock := fb\<rparr>)"
        using lt False by (simp add: append_block_def new_block_simp as_def fb_def k_def v_def)
      moreover have "takes v as fb k (as ! k) v as fb"
        using True False as len by (auto simp: takes_def slot_def)
      ultimately show ?thesis by blast
    qed
  next
    case False
    then have k12: "12 \<le> k" and nlt: "\<not> fbn < 12" by (simp_all add: k_def word_less_nat_alt)
    have sub: "unat (fbn - 12) = k - 12" using nlt by (simp add: k_def unat_sub word_le_nat_alt not_less)
    show ?thesis
    proof (cases "as ! 12 = 0")
      case ni: True
      have s0: "slot v as l = 0" if "12 \<le> l" "l \<le> 140" for l using that ni by (simp add: slot_def)
      have fbl: "fb < 1000" using fb(2) s0 k12 k by simp
      let ?w = "v(fb := put32 (4 * (k - 12)) (fb + 1) (v fb))"
      have g: "get32 (4 * (l - 12)) (v fb) = 0" if "l < 140" for l using that z by simp
      have "append_block fbn d m = Ok (fb + 1, d\<lparr>di_addrs := as[12 := fb]\<rparr>, m\<lparr>img := ?w, freeblock := fb + 2\<rparr>)"
        using nlt ni as k12 k g [OF k] fbl n len
        by (simp add: append_block_def new_block_simp as_def [symmetric] fb_def [symmetric] v_def [symmetric] sub rsect_ok wsect_ok Let_def)
      moreover have sl: "slot ?w (as[12 := fb]) l = (if l = k then fb + 1 else if l = 140 then fb else slot v as l)" if "l \<le> 140" for l
        using k12 k len fb0 as that g s0 by (intro put32_slot [where b = fb]) simp_all
      then have "takes v as fb k (fb + 1) ?w (as[12 := fb]) (fb + 2)"
        using k12 k ni as len s0 [of k] by (auto simp: takes_def Let_def)
      ultimately show ?thesis by blast
    next
      case oi: False
      let ?b = "as ! 12"
      have bl: "?b < 1000" using ind(1) k12 oi by blast
      have g: "get32 (4 * (l - 12)) (v ?b) = slot v as l" if "12 \<le> l" "l < 140" for l
        using that oi by (simp add: slot_def)
      show ?thesis
      proof (cases "slot v as k = 0")
        case True
        let ?w = "v(?b := put32 (4 * (k - 12)) fb (v ?b))"
        have "append_block fbn d m = Ok (fb, d\<lparr>di_addrs := as\<rparr>, m\<lparr>img := ?w, freeblock := fb + 1\<rparr>)"
          using nlt oi as k12 k g [OF k12 k] bl n len True
          by (simp add: append_block_def new_block_simp as_def [symmetric] fb_def [symmetric] v_def [symmetric] sub rsect_ok wsect_ok Let_def)
        moreover have sl: "slot ?w as l = (if l = k then fb else if l = 140 then ?b else slot v as l)" if "l \<le> 140" for l
          using k12 k len oi that g by (intro put32_slot [where b = ?b]) simp_all
        moreover have "slot v as 140 = ?b" by (simp add: slot_def)
        ultimately have "takes v as fb k fb ?w as (fb + 1)"
          using k12 k oi as len True by (auto simp: takes_def Let_def)
        then show ?thesis using \<open>append_block fbn d m = _\<close> by blast
      next
        case False
        have "append_block fbn d m = Ok (slot v as k, d\<lparr>di_addrs := as\<rparr>, m\<lparr>img := v, freeblock := fb\<rparr>)"
          using nlt oi as k12 k g [OF k12 k] bl n False
          by (simp add: append_block_def new_block_simp as_def [symmetric] fb_def [symmetric] v_def [symmetric] sub rsect_ok Let_def)
        moreover have "takes v as fb k (slot v as k) v as fb"
          using k12 oi as len False by (auto simp: takes_def Let_def)
        ultimately show ?thesis by blast
      qed
    qed
  qed
qed

lemma next_blocks:
  assumes "unat (fb :: u32) + 2 < 2 ^ 32"
  shows "unat (fb + 1) = unat fb + 1" "unat (fb + 2) = unat fb + 2" "fb < fb + 1" "fb + 1 < fb + 2" "fb < fb + 2"
proof -
  show 1: "unat (fb + 1) = unat fb + 1" "unat (fb + 2) = unat fb + 2"
    using assms u32_add [of fb 1] u32_add [of fb 2] by simp_all
  then show "fb < fb + 1" "fb + 1 < fb + 2" "fb < fb + 2" by (simp_all add: word_less_nat_alt)
qed

lemma takes_slots:
  assumes t: "takes v as fb k x w bs fb'" and k: "k < 140" and fb: "59 \<le> unat fb" "unat fb + 2 < 2 ^ 32"
    and range: "\<forall>l\<le>140. slot v as l \<noteq> 0 \<longrightarrow> 59 \<le> unat (slot v as l) \<and> slot v as l < fb"
    and inj: "\<forall>l\<le>140. \<forall>l'\<le>140. slot v as l = slot v as l' \<longrightarrow> slot v as l \<noteq> 0 \<longrightarrow> l = l'"
  shows "fb \<le> fb'" "x \<noteq> 0" "12 \<le> k \<Longrightarrow> slot w bs 140 \<noteq> 0"
    "\<forall>l\<le>140. slot w bs l \<noteq> 0 \<longleftrightarrow> slot v as l \<noteq> 0 \<or> l = k \<or> (l = 140 \<and> 12 \<le> k \<and> as ! 12 = 0)"
    "\<forall>l\<le>140. slot w bs l \<noteq> 0 \<longrightarrow> 59 \<le> unat (slot w bs l) \<and> slot w bs l < fb'"
    "\<forall>l\<le>140. \<forall>l'\<le>140. slot w bs l = slot w bs l' \<longrightarrow> slot w bs l \<noteq> 0 \<longrightarrow> l = l'"
    "\<forall>l\<le>140. slot w bs l \<noteq> 0 \<longrightarrow> slot w bs l \<in> owns v as \<or> fb \<le> slot w bs l"
proof -
  note n = next_blocks [OF fb(2)]
  have fb0: "fb \<noteq> 0" "fb + 1 \<noteq> 0" using fb n by auto
  have s: "slot w bs l = (if l = k then x else if l = 140 \<and> 12 \<le> k \<and> as ! 12 = 0 then fb else slot v as l)" if "l \<le> 140" for l
    using t that by (auto simp: takes_def Let_def)
  have x: "x = (if slot v as k \<noteq> 0 then slot v as k else if 12 \<le> k \<and> as ! 12 = 0 then fb + 1 else fb)"
    and fb': "fb' = (if slot v as k \<noteq> 0 then fb else if 12 \<le> k \<and> as ! 12 = 0 then fb + 2 else fb + 1)"
    using t by (simp_all add: takes_def Let_def)
  have i: "slot v as k = 0" "slot v as 140 = 0" if "12 \<le> k \<and> as ! 12 = 0" using that k by (auto simp: slot_def)
  have i0: "slot v as 140 = as ! 12" by (simp add: slot_def)
  show 1: "fb \<le> fb'" unfolding fb' using n by auto
  show 2: "x \<noteq> 0" unfolding x using fb0 by auto
  show "12 \<le> k \<Longrightarrow> slot w bs 140 \<noteq> 0" using s [of 140] i0 fb0 k 2 by auto
  show 4: "\<forall>l\<le>140. slot w bs l \<noteq> 0 \<longleftrightarrow> slot v as l \<noteq> 0 \<or> l = k \<or> (l = 140 \<and> 12 \<le> k \<and> as ! 12 = 0)"
    using s 2 fb0 k i by auto
  have up: "b < fb'" if "b < fb" for b using that 1 by simp
  have xr: "59 \<le> unat x \<and> x < fb'" unfolding x fb' using range k fb n by auto
  show "\<forall>l\<le>140. slot w bs l \<noteq> 0 \<longrightarrow> 59 \<le> unat (slot w bs l) \<and> slot w bs l < fb'"
    using s xr range up fb fb' n i by auto
  have new: "fb \<le> x" if "slot v as k = 0" using that n by (auto simp: x)
  have lt: "slot v as l < fb" "slot v as l \<noteq> fb" "slot v as l \<noteq> fb + 1" if "l \<le> 140" "slot v as l \<noteq> 0" for l
    using range that n by (auto dest: less_trans)
  have ne: "x \<noteq> slot v as l" if "l \<le> 140" "l \<noteq> k" "slot v as l \<noteq> 0" for l
    using that inj k lt [OF that(1,3)] unfolding x by (auto split: if_splits)
  have nf: "x \<noteq> fb" if "12 \<le> k \<and> as ! 12 = 0" using i(1) [OF that] that n unfolding x by auto
  show "\<forall>l\<le>140. \<forall>l'\<le>140. slot w bs l = slot w bs l' \<longrightarrow> slot w bs l \<noteq> 0 \<longrightarrow> l = l'"
  proof (intro allI impI)
    fix l l' assume a: "l \<le> 140" "l' \<le> 140" "slot w bs l = slot w bs l'" "slot w bs l \<noteq> 0"
    then show "l = l'" unfolding s [OF a(1)] s [OF a(2)] using ne nf lt inj k by (auto split: if_splits)
  qed
  show "\<forall>l\<le>140. slot w bs l \<noteq> 0 \<longrightarrow> slot w bs l \<in> owns v as \<or> fb \<le> slot w bs l"
  proof (intro allI impI)
    fix l assume a: "l \<le> 140" "slot w bs l \<noteq> 0"
    have "x \<in> owns v as \<or> fb \<le> x" using new k by (cases "slot v as k = 0") (auto simp: owns_def x intro: exI [of _ k])
    with a s [OF a(1)] show "slot w bs l \<in> owns v as \<or> fb \<le> slot w bs l" by (auto simp: owns_def)
  qed
qed

lemma takes_write:
  fixes v :: view and off :: u32
  defines "n \<equiv> unat off" and "k \<equiv> unat off div 512" and "q \<equiv> unat off mod 512"
  assumes ok: "image_ok v fb ds fs" and j: "j < length fs" and d: "ds ! j = d\<lparr>di_size := off\<rparr>" and f: "fs ! j = (ty, bs)"
    and t: "takes v (di_addrs d) fb k x w as' fb'"
    and ys: "0 < length ys" "q + length ys \<le> 512" "n + length ys \<le> 71680" and fb: "unat fb + 2 < 2 ^ 32"
  defines "u \<equiv> w(x := blit q ys (w x))"
    and "d' \<equiv> d\<lparr>di_addrs := as', di_size := off + word_of_nat (length ys)\<rparr>"
  shows "image_ok u fb' (ds[j := d']) (fs[j := (ty, bs @ ys)]) \<and> (\<forall>b. unat b < 59 \<longrightarrow> u b = v b) \<and> x < fb' \<and>
    unat fb' + blocks_of n = unat fb + blocks_of (n + length ys)"
proof -
  let ?as = "di_addrs d"
  have n: "n = 512 * k + q" "q < 512" "n = length bs" and stj: "stands v (ds ! j) (ty, bs)" and tj: "tight v fb (ds ! j)"
    using ok j f d unfolding image_ok_def n_def k_def q_def by (auto simp: stands_def)
  have k: "k < 140" using n ys by linarith
  have range: "\<forall>l\<le>140. slot v ?as l \<noteq> 0 \<longrightarrow> 59 \<le> unat (slot v ?as l) \<and> slot v ?as l < fb"
    and inj: "\<forall>l\<le>140. \<forall>l'\<le>140. slot v ?as l = slot v ?as l' \<longrightarrow> slot v ?as l \<noteq> 0 \<longrightarrow> l = l'"
    and need: "\<forall>l\<le>140. slot v ?as l \<noteq> 0 \<longleftrightarrow> needs n l"
    using tj unfolding tight_def d n_def by simp_all
  have fb59: "59 \<le> unat fb" using ok by (simp add: image_ok_def)
  note s = takes_slots [OF t k fb59 fb range inj]
  have sx: "slot w as' k = x" and len: "length as' = 13" "\<And>c. length (w c) = BSIZE"
    and wv: "\<And>c. c \<noteq> slot w as' 140 \<or> k < 12 \<Longrightarrow> w c = v c"
    and old: "\<And>l. l \<le> 140 \<Longrightarrow> l \<noteq> k \<Longrightarrow> l \<noteq> 140 \<Longrightarrow> slot w as' l = slot v ?as l"
    using t k by (auto simp: takes_def Let_def)
  have xr: "59 \<le> unat x" "x < fb'" "x \<in> owns v ?as \<or> fb \<le> x" using s(2) spec [OF s(5), of k] spec [OF s(7), of k] sx k by auto
  have xi: "x \<noteq> slot w as' 140" using s(6) s(2) sx k by (metis less_irrefl less_imp_le order_refl)
  have us: "slot u as' l = slot w as' l" for l
    using xi by (intro slot_cong) (auto simp: u_def slot_def)
  have other: "w c = v c" if "c = slot w as' l" "l < 140" "c \<noteq> 0" for c l
    using that s(6) by (intro wv) (metis less_imp_le less_irrefl order_refl)
  have z: "v c = zeros" if "fb \<le> c" for c using ok that by (simp add: image_ok_def)
  have wx: "w x = fblock v ?as k"
  proof -
    have "w x = v x" using other [of x k] sx k s(2) by simp
    moreover have "slot v ?as k = 0 \<Longrightarrow> fb \<le> x" using t next_blocks [OF fb] by (auto simp: takes_def Let_def)
    moreover have "slot v ?as k \<noteq> 0 \<Longrightarrow> x = slot v ?as k" using t by (simp add: takes_def Let_def)
    ultimately show ?thesis using z by (auto simp: fblock_def)
  qed
  have content: "fblock u as' l = ((fblock v ?as)(k := blit q ys (fblock v ?as k))) l" if l: "l < 140" for l
  proof (cases "l = k")
    case True
    then show ?thesis using us sx s(2) wx by (simp add: fblock_def u_def)
  next
    case False
    then have e: "slot u as' l = slot v ?as l" "slot w as' l = slot v ?as l" using us old l by simp_all
    have "slot v ?as l \<noteq> 0 \<Longrightarrow> slot v ?as l \<noteq> x" using s(6) sx e(2) False l k by (metis less_imp_le)
    then show ?thesis using False e other [of "slot v ?as l" l] l by (auto simp: fblock_def u_def)
  qed
  have meta: "u b = v b" if "unat b < 59" for b
  proof -
    have "b \<noteq> x" using that xr by auto
    moreover have "b \<noteq> slot w as' 140 \<or> k < 12" using that s(3,5) by (metis not_le order_refl)
    ultimately show ?thesis using wv by (simp add: u_def)
  qed
  have nl: "unat (off + word_of_nat (length ys)) = n + length ys"
    unfolding n_def using u32_add [of off "length ys"] ys(3) by (simp add: n_def)
  have ulen: "length (u b) = BSIZE" for b using len(2) ys(2) by (simp add: u_def)
  have high: "u b = zeros" if "fb' \<le> b" for b
  proof -
    have "slot w as' 140 \<noteq> 0 \<Longrightarrow> slot w as' 140 < fb'" using s(5) by simp
    moreover have "b \<noteq> 0" using that s(1) fb59 by (metis unat_eq_0 word_le_nat_alt le_trans not_numeral_le_zero)
    ultimately have "b \<noteq> x" "b \<noteq> slot w as' 140" using that xr(2) by auto
    then show ?thesis using wv [of b] z [of b] that s(1) by (simp add: u_def)
  qed
  have slots: "slot v ?as k \<noteq> 0 \<longleftrightarrow> q \<noteq> 0" "slot v ?as 140 \<noteq> 0 \<longleftrightarrow> 6144 < n" "slot v ?as 140 = ?as ! 12"
    using need k n by (auto simp: needs_def slot_def)
  have first: "12 \<le> k \<and> ?as ! 12 = 0 \<longleftrightarrow> n = 6144"
    using slots(2,3) n by auto
  have count: "unat fb' = unat fb + blocks_of (n + length ys) - blocks_of n" "blocks_of n \<le> blocks_of (n + length ys)"
  proof -
    have q: "n mod 512 = q" by (simp add: n_def q_def)
    have "n = 6144 \<Longrightarrow> q = 0" using q by simp
    moreover have "fb' = (if q \<noteq> 0 then fb else if n = 6144 then fb + 2 else fb + 1)"
      using t first slots(1) by (simp add: takes_def Let_def)
    ultimately show "unat fb' = unat fb + blocks_of (n + length ys) - blocks_of n" "blocks_of n \<le> blocks_of (n + length ys)"
      using blocks_of_step [OF ys(1), of n] ys(2) next_blocks [OF fb] unfolding q by auto
  qed
  have tight': "tight u fb' d'"
  proof -
    have "slot u as' l \<noteq> 0 \<longleftrightarrow> needs (n + length ys) l" if "l \<le> 140" for l
      using s(4) need first that k needs_step [OF ys(1), of n l] ys(2)
      by (auto simp: us n_def k_def q_def)
    then show ?thesis using len(1) s(5,6) nl ys(3) by (simp add: tight_def d'_def us)
  qed
  have stands': "stands u d' (ty, bs @ ys)"
  proof -
    have "byte_at (fblock u as') p = (if p < n + length ys then (bs @ ys) ! p else 0)" if p: "p < 71680" for p
    proof -
      have "byte_at (fblock u as') p = byte_at ((fblock v ?as)(k := blit q ys (fblock v ?as k))) p"
        using content [of "p div 512"] file_index [OF p] by (simp add: byte_at_def)
      also have "\<dots> = (if n \<le> p \<and> p < n + length ys then ys ! (p - n) else byte_at (fblock v ?as) p)"
        using wx len(2) [of x] ys(2) n(1) by (intro byte_at_blit) (simp_all add: mult.commute)
      also have "\<dots> = (if p < n + length ys then (bs @ ys) ! p else 0)"
        using p stj n(3) d by (auto simp: nth_append stands_def)
      finally show ?thesis .
    qed
    then show ?thesis using stj d n(3) nl by (simp add: stands_def d'_def)
  qed
  have mine: "owns u as' \<subseteq> owns v ?as \<union> {c. fb \<le> c}"
    using s(7) us unfolding owns_def by auto
  have rest: "\<forall>c \<in> owns v (di_addrs (ds ! i)). u c = v c" if "i < length fs" "i \<noteq> j" for i
  proof
    fix c assume c: "c \<in> owns v (di_addrs (ds ! i))"
    have "c \<notin> owns v ?as" using ok that j c d unfolding image_ok_def by fastforce
    moreover have "c < fb"
      using c ok that(1) unfolding image_ok_def tight_def owns_def by fastforce
    ultimately have "c \<notin> owns u as'" using mine by auto
    then have "c \<noteq> x" "c \<noteq> slot w as' 140 \<or> k < 12"
      using us sx s(2,3) k unfolding owns_def by (auto, metis less_imp_le, metis order_refl not_le)
    then show "u c = v c" using wv by (simp add: u_def)
  qed
  have others: "tight u fb' (ds ! i) \<and> stands u (ds ! i) (fs ! i) \<and> owns u (di_addrs (ds ! i)) = owns v (di_addrs (ds ! i))"
    if "i < length fs" "i \<noteq> j" for i
    using other_file [OF _ _ rest [OF that] s(1)] file_elsewhere(3) [OF rest [OF that]] ok that(1)
    unfolding image_ok_def by blast
  have apart: "owns u as' \<inter> owns u (di_addrs (ds ! i)) = {}" if "i < length fs" "i \<noteq> j" for i
  proof -
    have "owns v ?as \<inter> owns v (di_addrs (ds ! i)) = {}" using ok that j d unfolding image_ok_def by fastforce
    moreover have "c < fb" if "c \<in> owns v (di_addrs (ds ! i))" for c
      using that ok \<open>i < length fs\<close> unfolding image_ok_def tight_def owns_def by fastforce
    ultimately show ?thesis using mine others [OF that] by fastforce
  qed
  have sum: "unat fb' = 59 + sum_list (map (\<lambda>f. blocks_of (length (snd f))) (fs[j := (ty, bs @ ys)]))"
  proof -
    let ?b = "\<lambda>f :: u16 \<times> bytes. blocks_of (length (snd f))"
    have "?b (fs ! j) \<le> sum_list (map ?b fs)" using j by (intro member_le_sum_list) auto
    then show ?thesis using ok j f n(3) count
      by (simp add: image_ok_def map_update sum_list_update)
  qed
  have dis: "owns u (di_addrs (ds[j := d'] ! i)) \<inter> owns u (di_addrs (ds[j := d'] ! i')) = {}"
    if "i < length fs" "i' < length fs" "i \<noteq> i'" for i i'
  proof -
    have l: "length ds = length fs" using ok by (simp add: image_ok_def)
    consider "i = j" "i' \<noteq> j" | "i \<noteq> j" "i' = j" | "i \<noteq> j" "i' \<noteq> j" using \<open>i \<noteq> i'\<close> by blast
    then show ?thesis
    proof cases
      case 3
      then show ?thesis using others that ok unfolding image_ok_def by simp
    qed (use apart that l in \<open>auto simp: d'_def\<close>)
  qed
  have each: "tight u fb' (ds[j := d'] ! i) \<and> stands u (ds[j := d'] ! i) (fs[j := (ty, bs @ ys)] ! i)" if "i < length fs" for i
    using others [OF that] tight' stands' that ok by (cases "i = j") (simp_all add: image_ok_def)
  show ?thesis
    using ulen high sum each dis meta xr(2) ok count by (simp add: image_ok_def)
qed

lemma blocks_of_mono: "a \<le> b \<Longrightarrow> blocks_of a \<le> blocks_of b"
  by (auto simp: blocks_of_def intro: add_mono div_le_mono)

section \<open>Appending\<close>

text \<open>Nothing but the data part of the image and the next free block changes.\<close>

definition only_data :: "mkfs \<Rightarrow> mkfs \<Rightarrow> bool" where
  "only_data m m' \<longleftrightarrow> (\<forall>b. unat b < 59 \<longrightarrow> img m' b = img m b) \<and> img_size m' = img_size m \<and>
     mk_sb m' = mk_sb m \<and> freeinode m' = freeinode m"

lemma append_step:
  assumes ok: "image_ok (img m) (freeblock m) ds fs" and n: "img_size m = 1000" and j: "j < length fs"
    and d: "ds ! j = d\<lparr>di_size := off\<rparr>" and f: "fs ! j = (ty, bs)" and p: "p \<noteq> []"
    and sz: "unat off + length p \<le> 71680"
    and room: "unat (freeblock m) + blocks_of (length bs + length p) \<le> 1000 + blocks_of (length bs)"
  defines "n1 \<equiv> min (length p) (512 - unat off mod 512)"
  shows "\<exists>x d' m'. append_block (off div 512) d m = Ok (x, d', m') \<and> rsect x m' = Ok (img m' x) \<and>
    (let t = wsect x (blit (unat off mod 512) (take n1 p) (img m' x)) m' in
     image_ok (img t) (freeblock t) (ds[j := d'\<lparr>di_size := off + word_of_nat n1\<rparr>]) (fs[j := (ty, bs @ take n1 p)]) \<and>
     only_data m t \<and> unat (freeblock t) + blocks_of (length bs) = unat (freeblock m) + blocks_of (length bs + n1))"
proof -
  let ?v = "img m" and ?fb = "freeblock m" and ?as = "di_addrs d" and ?k = "unat off div 512"
  have st: "stands ?v (ds ! j) (ty, bs)" and ti: "tight ?v ?fb (ds ! j)" and zlen: "\<forall>b. length (?v b) = BSIZE" "?v ?fb = zeros"
    and fb59: "59 \<le> unat ?fb"
    using ok j f unfolding image_ok_def by auto
  have len: "length bs = unat off" using st d by (simp add: stands_def)
  have n1: "0 < n1" "n1 \<le> length p" "unat off mod 512 + n1 \<le> 512" "length (take n1 p) = n1"
    using p by (auto simp: n1_def min_def)
  have k: "unat (off div 512) = ?k" "?k < 140"
    using sz n1 by (simp_all add: unat_div less_mult_imp_div_less)
  have le: "blocks_of (length bs) \<le> blocks_of (length bs + n1)" "blocks_of (length bs + n1) \<le> blocks_of (length bs + length p)"
    using n1(2) by (simp_all add: blocks_of_mono)
  have fb: "unat ?fb \<le> 1000" using room le by linarith
  have need: "\<forall>l\<le>140. slot ?v ?as l \<noteq> 0 \<longleftrightarrow> needs (unat off) l" and as: "length ?as = 13"
    and range: "\<forall>l\<le>140. slot ?v ?as l \<noteq> 0 \<longrightarrow> slot ?v ?as l < ?fb"
    using ti unfolding tight_def d by simp_all
  have fresh: "?fb < 1000" if "slot ?v ?as ?k = 0"
  proof -
    have "\<not> needs (unat off) ?k" using that need less_imp_le [OF k(2)] by blast
    then have "\<not> ?k * 512 < unat off" using k(2) by (simp add: needs_def)
    then have "unat off mod 512 = 0" by (metis add_gr_0 div_mult_mod_eq less_add_same_cancel1 neq0_conv)
    then have "blocks_of (length bs) < blocks_of (length bs + n1)"
      using blocks_of_step [OF n1(1), of "unat off"] n1(3) len by simp
    then show ?thesis using room le by (simp add: word_less_nat_alt)
  qed
  have i12: "?as ! 12 = slot ?v ?as 140" by (simp add: slot_def)
  have ind: "?as ! 12 \<noteq> 0 \<Longrightarrow> ?as ! 12 < ?fb" using range i12 by simp
  then have ind': "?as ! 12 \<noteq> 0 \<Longrightarrow> ?as ! 12 < 1000" using fb by (fastforce simp: word_less_nat_alt)
  have "0 < ?fb" using fb59 by (simp add: word_less_nat_alt)
  from append_block_spec [of "off div 512" d m] k as zlen this fresh ind ind' n obtain x w as' fb' where
    ab: "append_block (off div 512) d m = Ok (x, d\<lparr>di_addrs := as'\<rparr>, m\<lparr>img := w, freeblock := fb'\<rparr>)"
      "takes ?v ?as ?fb ?k x w as' fb'" by auto
  from takes_write [OF ok j d f ab(2), of "take n1 p"] n1 sz fb len
  have u: "image_ok (w(x := blit (unat off mod 512) (take n1 p) (w x))) fb'
      (ds[j := d\<lparr>di_addrs := as', di_size := off + word_of_nat n1\<rparr>]) (fs[j := (ty, bs @ take n1 p)])"
    "\<forall>b. unat b < 59 \<longrightarrow> (w(x := blit (unat off mod 512) (take n1 p) (w x))) b = ?v b" "x < fb'"
    "unat fb' + blocks_of (length bs) = unat ?fb + blocks_of (length bs + n1)" by simp_all
  have "x < 1000" using u(3,4) room le by (simp add: word_less_nat_alt)
  then show ?thesis using ab(1) u n
    by (intro exI [of _ x] exI [of _ "d\<lparr>di_addrs := as'\<rparr>"] exI [of _ "m\<lparr>img := w, freeblock := fb'\<rparr>"])
       (simp add: rsect_ok wsect_ok Let_def only_data_def)
qed

lemma only_data_trans: "only_data m t \<Longrightarrow> only_data t u \<Longrightarrow> only_data m u"
  by (simp add: only_data_def)

lemma off_sub: "unat (off - off div 512 * 512) = unat (off :: u32) mod 512"
  by (simp add: minus_div_mult_eq_mod unat_mod)

lemma append_loop_spec:
  assumes "image_ok (img m) (freeblock m) ds fs" and "img_size m = 1000" and "j < length fs"
    and "ds ! j = d\<lparr>di_size := off\<rparr>" and "fs ! j = (ty, bs)" and "unat off + length p \<le> 71680"
    and "unat (freeblock m) + blocks_of (length bs + length p) \<le> 1000 + blocks_of (length bs)"
  shows "\<exists>d' m'. append_loop p off d m = Ok (off + word_of_nat (length p), d', m') \<and>
    image_ok (img m') (freeblock m') (ds[j := d'\<lparr>di_size := off + word_of_nat (length p)\<rparr>]) (fs[j := (ty, bs @ p)]) \<and>
    only_data m m' \<and> unat (freeblock m') + blocks_of (length bs) = unat (freeblock m) + blocks_of (length bs + length p)"
  using assms
proof (induction "length p" arbitrary: p off d m ds fs bs rule: less_induct)
  case less
  show ?case
  proof (cases "p = []")
    case True
    have "ds[j := d\<lparr>di_size := off\<rparr>] = ds" "fs[j := (ty, bs)] = fs"
      using less.prems(4,5) by (metis list_update_id)+
    then show ?thesis using less.prems(1) True
      by (intro exI [of _ d] exI [of _ m]) (subst append_loop.simps, simp add: only_data_def)
  next
    case False
    let ?n = "min (length p) (512 - unat off mod 512)"
    from append_step [OF less.prems(1-5) False less.prems(6,7)] obtain x d1 m1 where
      1: "append_block (off div 512) d m = Ok (x, d1, m1)" "rsect x m1 = Ok (img m1 x)" and
      2: "let t = wsect x (blit (unat off mod 512) (take ?n p) (img m1 x)) m1 in
       image_ok (img t) (freeblock t) (ds[j := d1\<lparr>di_size := off + word_of_nat ?n\<rparr>]) (fs[j := (ty, bs @ take ?n p)]) \<and>
       only_data m t \<and> unat (freeblock t) + blocks_of (length bs) = unat (freeblock m) + blocks_of (length bs + ?n)" by blast
    define t where "t = wsect x (blit (unat off mod 512) (take ?n p) (img m1 x)) m1"
    note t = 2 [unfolded Let_def, folded t_def]
    have pos: "0 < ?n" using False by simp
    have lt: "off div 512 < 140"
    proof -
      have "0 < length p" using False by simp
      then have "unat off < 71680" using less.prems(6) by linarith
      from file_index [OF this] show ?thesis by (simp add: word_less_nat_alt unat_div)
    qed
    have run: "append_loop p off d m = append_loop (drop ?n p) (off + word_of_nat ?n) d1 t"
      using False lt 1 by (subst append_loop.simps) (simp add: Let_def block_end [OF lt, simplified distrib_right, simplified] off_sub t_def distrib_right)
    have off: "unat (off + word_of_nat ?n) = unat off + ?n"
      using u32_add [of off ?n] less.prems(6) by simp
    have len: "length (bs @ take ?n p) = length bs + ?n" "length ds = length fs" using less.prems(1) by (simp_all add: image_ok_def)
    have pre: "length (drop ?n p) < length p" "img_size t = 1000" "j < length (fs[j := (ty, bs @ take ?n p)])"
      "ds[j := d1\<lparr>di_size := off + word_of_nat ?n\<rparr>] ! j = d1\<lparr>di_size := off + word_of_nat ?n\<rparr>"
      "fs[j := (ty, bs @ take ?n p)] ! j = (ty, bs @ take ?n p)"
      "unat (off + word_of_nat ?n) + length (drop ?n p) \<le> 71680"
      using less.prems(2,3,6) pos t off len(2) by (simp_all add: only_data_def)
    have "length (bs @ take ?n p) + length (drop ?n p) = length bs + length p" by simp
    then have "unat (freeblock t) + blocks_of (length (bs @ take ?n p) + length (drop ?n p)) \<le> 1000 + blocks_of (length (bs @ take ?n p))"
      using t less.prems(7) len(1) by (simp only:) linarith
    from less.hyps [OF pre(1) conjunct1 [OF t] pre(2-6) this]
    obtain d' m' where run': "append_loop (drop ?n p) (off + word_of_nat ?n) d1 t =
          Ok (off + word_of_nat ?n + word_of_nat (length (drop ?n p)), d', m')" and
      res: "image_ok (img m') (freeblock m')
          (ds[j := d1\<lparr>di_size := off + word_of_nat ?n\<rparr>, j := d'\<lparr>di_size := off + word_of_nat ?n + word_of_nat (length (drop ?n p))\<rparr>])
          (fs[j := (ty, bs @ take ?n p), j := (ty, (bs @ take ?n p) @ drop ?n p)])"
        "only_data t m'" "unat (freeblock m') + blocks_of (length (bs @ take ?n p)) =
          unat (freeblock t) + blocks_of (length (bs @ take ?n p) + length (drop ?n p))" by blast
    have e: "off + word_of_nat ?n + word_of_nat (length (drop ?n p)) = off + word_of_nat (length p)"
      by (simp add: add.assoc flip: of_nat_add)
    have "unat (freeblock m') + blocks_of (length bs) = unat (freeblock m) + blocks_of (length bs + length p)"
      using res(3) t len(1) by simp
    moreover have "only_data m m'" using t res(2) only_data_trans by blast
    moreover have "image_ok (img m') (freeblock m') (ds[j := d'\<lparr>di_size := off + word_of_nat (length p)\<rparr>]) (fs[j := (ty, bs @ p)])"
      using res(1) unfolding e by simp
    ultimately show ?thesis using run run' unfolding e by auto
  qed
qed

end
