(* ===== verification/Mktree.thy ===== *)
theory Mktree imports Mkimage begin

text \<open>
  The operations of \<open>mkfs.c\<close> on the list of files that the image stands for: \<open>ialloc\<close> adds an empty file,
  \<open>iappend\<close> extends one, \<open>main\<close> makes the root directory and the files of the command line.  The result
  is an image on which the kernel finds and reads every file.
\<close>

section \<open>Inodes in the image\<close>

definition inum_of :: "nat \<Rightarrow> u32" where "inum_of j = word_of_nat (Suc j)"

definition mk_inode :: "mkfs \<Rightarrow> u32 \<Rightarrow> dinode" where
  "mk_inode m i = dec_dinode (slice (di_off i) 64 (img m (IBLOCK i (mk_sb m))))"

text \<open>The blocks before the inodes: nothing but the superblock is there, and the log is empty.\<close>

definition head_ok :: "view \<Rightarrow> bool" where
  "head_ok v \<longleftrightarrow> dec_super (v 1) = mkfs_super \<and> (\<forall>b. 2 \<le> unat b \<longrightarrow> unat b < 32 \<longrightarrow> v b = zeros)"

definition mk_ok :: "mkfs \<Rightarrow> (u16 \<times> bytes) list \<Rightarrow> bool" where
  "mk_ok m fs \<longleftrightarrow> img_size m = 1000 \<and> mk_sb m = mkfs_super \<and> unat (freeinode m) = Suc (length fs) \<and>
     length fs \<le> 207 \<and> head_ok (img m) \<and>
     image_ok (img m) (freeblock m) (map (\<lambda>j. mk_inode m (inum_of j)) [0..<length fs]) fs"

lemma mkfs_super_sel:
  "sb_size mkfs_super = 1000" "sb_nblocks mkfs_super = 941" "sb_ninodes mkfs_super = 200" "sb_nlog mkfs_super = 30"
  "sb_logstart mkfs_super = 2" "sb_inodestart mkfs_super = 32" "sb_bmapstart mkfs_super = 58"
  by (simp_all add: mkfs_super_def nmeta_def nlog_def ninodeblocks_def nbitmap_def)

lemma inum_nat: "j < 207 \<Longrightarrow> unat (inum_of j) = Suc j"
  unfolding inum_of_def by (rule u32_of_nat_unat) simp

lemma inode_block:
  assumes "unat i < 208"
  shows "unat (IBLOCK i mkfs_super) = unat i div 8 + 32" "IBLOCK i mkfs_super < 1000" "di_off i + 64 \<le> BSIZE"
    "32 \<le> unat (IBLOCK i mkfs_super)" "unat (IBLOCK i mkfs_super) < 58"
proof -
  have "unat i div 8 < 26" using assms by (simp add: less_mult_imp_div_less)
  then show u: "unat (IBLOCK i mkfs_super) = unat i div 8 + 32"
    and "32 \<le> unat (IBLOCK i mkfs_super)" "unat (IBLOCK i mkfs_super) < 58"
    using u32_add [of "i div 8" 32] by (simp_all add: IBLOCK_def mkfs_super_sel unat_div)
  then show "IBLOCK i mkfs_super < 1000" using \<open>unat i div 8 < 26\<close> by (simp add: word_less_nat_alt)
  show "di_off i + 64 \<le> BSIZE"
    using mod_less_divisor [of 8 "unat i"] by (simp add: di_off_def unat_mod)
qed

lemma image_ok_cong:
  assumes ok: "image_ok v fb ds fs" and u: "\<forall>b. 59 \<le> unat b \<longrightarrow> u b = v b" and len: "\<forall>b. length (u b) = BSIZE"
  shows "image_ok u fb ds fs"
proof -
  have own: "\<forall>c \<in> owns v (di_addrs (ds ! j)). u c = v c" if "j < length fs" for j
    using ok that u unfolding image_ok_def tight_def owns_def by fastforce
  have "u b = zeros" if "fb \<le> b" for b
  proof -
    have "59 \<le> unat fb" "unat fb \<le> unat b" using ok that by (simp_all add: image_ok_def word_le_nat_alt)
    then have "59 \<le> unat b" by linarith
    with ok u that show ?thesis by (simp add: image_ok_def)
  qed
  moreover have "tight u fb (ds ! j) \<and> stands u (ds ! j) (fs ! j)" if "j < length fs" for j
    using other_file [OF _ _ own [OF that]] ok that unfolding image_ok_def by blast
  moreover have "owns u (di_addrs (ds ! j)) = owns v (di_addrs (ds ! j))" if "j < length fs" for j
    using file_elsewhere(3) [OF own [OF that]] .
  ultimately show ?thesis using ok len by (simp add: image_ok_def)
qed

definition plain :: "dinode \<Rightarrow> bool" where
  "plain d \<longleftrightarrow> length (di_addrs d) = 13 \<and> di_nlink d = 1 \<and> di_perm d = 0"

text \<open>\<open>winode\<close> changes this inode and no other, and no block that belongs to a file.\<close>

lemma winode_spec:
  assumes n: "img_size m = 1000" "mk_sb m = mkfs_super" and len: "\<forall>b. length (img m b) = BSIZE"
    and i: "unat i < 208" and d: "plain d"
  shows "\<exists>v. winode i d m = Ok (m\<lparr>img := v\<rparr>) \<and> (\<forall>b. length (v b) = BSIZE) \<and>
    (\<forall>b. unat b < 32 \<or> 58 \<le> unat b \<longrightarrow> v b = img m b) \<and> mk_inode (m\<lparr>img := v\<rparr>) i = d \<and>
    (\<forall>i'. unat i' < 208 \<longrightarrow> i' \<noteq> i \<longrightarrow> mk_inode (m\<lparr>img := v\<rparr>) i' = mk_inode m i')"
proof -
  let ?b = "IBLOCK i mkfs_super" and ?e = "enc_dinode d"
  let ?v = "(img m)(?b := blit (di_off i) ?e (img m ?b))"
  note b = inode_block [OF i]
  have le: "length ?e = 64" using d by (simp add: plain_def length_enc_dinode)
  have "winode i d m = Ok (m\<lparr>img := ?v\<rparr>)"
    using n b(2) by (simp add: winode_def rsect_ok wsect_ok Let_def)
  moreover have "length (?v b) = BSIZE" for b using len le b(3) by simp
  moreover have "?v c = img m c" if "unat c < 32 \<or> 58 \<le> unat c" for c using that b(4,5) by auto
  moreover have "mk_inode (m\<lparr>img := ?v\<rparr>) i = d"
    using dec_enc_dinode [of d] d le len b(3) n(2) by (simp add: mk_inode_def plain_def)
  moreover have "mk_inode (m\<lparr>img := ?v\<rparr>) i' = mk_inode m i'" if "unat i' < 208" "i' \<noteq> i" for i'
  proof (cases "IBLOCK i' mkfs_super = ?b")
    case True
    then have "unat i' div 8 = unat i div 8" using b(1) inode_block(1) [OF that(1)] by simp
    then have "unat i' mod 8 \<noteq> unat i mod 8" using that(2) by (metis div_mult_mod_eq word_unat_eq_iff)
    then have "di_off i' + 64 \<le> di_off i \<or> di_off i + 64 \<le> di_off i'" by (auto simp: di_off_def unat_mod)
    then show ?thesis using True n(2) le len b(3) inode_block(3) [OF that(1)]
      by (simp add: mk_inode_def slice_blit_other)
  qed (simp add: mk_inode_def n(2))
  ultimately show ?thesis by blast
qed

lemma head_ok_cong: "head_ok v \<Longrightarrow> \<forall>b. unat b < 32 \<longrightarrow> u b = v b \<Longrightarrow> head_ok u"
  by (simp add: head_ok_def)

section \<open>ialloc and iappend\<close>

lemma mk_okD:
  assumes "mk_ok m fs"
  shows "img_size m = 1000" "mk_sb m = mkfs_super" "unat (freeinode m) = Suc (length fs)" "head_ok (img m)"
    "image_ok (img m) (freeblock m) (map (\<lambda>j. mk_inode m (inum_of j)) [0..<length fs]) fs"
    "\<forall>b. length (img m b) = BSIZE" "length fs \<le> 207"
    "unat (freeblock m) = 59 + sum_list (map (\<lambda>f. blocks_of (length (snd f))) fs)"
    "j < length fs \<Longrightarrow> tight (img m) (freeblock m) (mk_inode m (inum_of j)) \<and> stands (img m) (mk_inode m (inum_of j)) (fs ! j)"
  using assms by (simp_all add: mk_ok_def image_ok_def)

lemma file_plain: "tight v fb d \<Longrightarrow> stands v d f \<Longrightarrow> plain d"
  by (simp add: tight_def stands_def plain_def)

text \<open>An inode written over an image in which \<open>ds\<close> already describes the files.\<close>

lemma winode_image:
  assumes n: "img_size m = 1000" "mk_sb m = mkfs_super" "head_ok (img m)"
    and ok: "image_ok (img m) (freeblock m) ds fs" "length fs \<le> 207" "unat (freeinode m) = Suc (length fs)"
    and j: "j < length fs" and ds: "\<forall>i < length fs. i \<noteq> j \<longrightarrow> mk_inode m (inum_of i) = ds ! i"
  shows "\<exists>v. winode (inum_of j) (ds ! j) m = Ok (m\<lparr>img := v\<rparr>) \<and> mk_ok (m\<lparr>img := v\<rparr>) fs"
proof -
  have len: "\<forall>b. length (img m b) = BSIZE" and p: "plain (ds ! j)" and lds: "length ds = length fs"
    using ok(1) j file_plain unfolding image_ok_def by blast+
  have ij: "unat (inum_of i) < 208" "unat (inum_of i) = Suc i" if "i < length fs" for i
    using inum_nat [of i] that ok(2) by simp_all
  from winode_spec [OF n(1,2) len ij(1) [OF j] p] obtain v where
    v: "winode (inum_of j) (ds ! j) m = Ok (m\<lparr>img := v\<rparr>)" "\<forall>b. length (v b) = BSIZE"
      "\<forall>b. unat b < 32 \<or> 58 \<le> unat b \<longrightarrow> v b = img m b" "mk_inode (m\<lparr>img := v\<rparr>) (inum_of j) = ds ! j"
      "\<forall>i'. unat i' < 208 \<longrightarrow> i' \<noteq> inum_of j \<longrightarrow> mk_inode (m\<lparr>img := v\<rparr>) i' = mk_inode m i'" by blast
  have "mk_inode (m\<lparr>img := v\<rparr>) (inum_of i) = ds ! i" if "i < length fs" for i
  proof (cases "i = j")
    case False
    then have "inum_of i \<noteq> inum_of j" using ij(2) [OF that] ij(2) [OF j] by auto
    then show ?thesis using v(5) ij(1) [OF that] ds that False by simp
  qed (simp add: v(4))
  then have "map (\<lambda>i. mk_inode (m\<lparr>img := v\<rparr>) (inum_of i)) [0..<length fs] = ds"
    using lds by (intro nth_equalityI) simp_all
  moreover have "image_ok v (freeblock m) ds fs" using v(2,3) by (intro image_ok_cong [OF ok(1)]) auto
  moreover have "head_ok v" using v(3) by (intro head_ok_cong [OF n(3)]) auto
  ultimately show ?thesis using v(1) n ok(2,3) by (auto simp: mk_ok_def)
qed

lemma iappend_spec:
  assumes ok: "mk_ok m fs" and j: "j < length fs" and f: "fs ! j = (ty, bs)" and sz: "length bs + length p \<le> 71680"
    and room: "unat (freeblock m) + blocks_of (length bs + length p) \<le> 1000 + blocks_of (length bs)"
  shows "\<exists>m'. iappend (inum_of j) p m = Ok m' \<and> mk_ok m' (fs[j := (ty, bs @ p)])"
proof -
  note k = mk_okD [OF ok]
  let ?d = "mk_inode m (inum_of j)" and ?ds = "map (\<lambda>j. mk_inode m (inum_of j)) [0..<length fs]"
  have ij: "unat (inum_of i) < 208" if "i < length fs" for i
    using inum_nat [of i] that k(7) by simp
  have rd: "rinode (inum_of j) m = Ok ?d"
    using inode_block(2) [OF ij [OF j]] k(1,2) by (simp add: rinode_def rsect_ok mk_inode_def)
  have sd: "unat (di_size ?d) = length bs" using k(9) [OF j] f by (simp add: stands_def)
  from append_loop_spec [OF k(5,1) j, where d = ?d and off = "di_size ?d" and ty = ty and bs = bs and p = p] j f sz sd room obtain d' m1 where
    l: "append_loop p (di_size ?d) ?d m = Ok (di_size ?d + word_of_nat (length p), d', m1)"
      "image_ok (img m1) (freeblock m1) (?ds[j := d'\<lparr>di_size := di_size ?d + word_of_nat (length p)\<rparr>]) (fs[j := (ty, bs @ p)])"
      "only_data m m1" by auto
  let ?d' = "d'\<lparr>di_size := di_size ?d + word_of_nat (length p)\<rparr>"
  have same: "mk_inode m1 (inum_of i) = mk_inode m (inum_of i)" if "i < length fs" for i
    using l(3) inode_block(5) [OF ij [OF that]] k(2) by (simp add: mk_inode_def only_data_def)
  have h: "head_ok (img m1)" using l(3) by (intro head_ok_cong [OF k(4)]) (simp add: only_data_def)
  have "\<exists>v. winode (inum_of j) (?ds[j := ?d'] ! j) m1 = Ok (m1\<lparr>img := v\<rparr>) \<and> mk_ok (m1\<lparr>img := v\<rparr>) (fs[j := (ty, bs @ p)])"
    using l(2,3) k j same h by (intro winode_image) (auto simp: only_data_def)
  then show ?thesis using rd l(1) j by (auto simp: iappend_def)
qed

lemma ialloc_spec:
  assumes ok: "mk_ok m fs" and n: "length fs < 207"
  shows "\<exists>m'. mk_ialloc ty m = Ok (inum_of (length fs), m') \<and> mk_ok m' (fs @ [(ty, [])])"
proof -
  note k = mk_okD [OF ok]
  let ?ds = "map (\<lambda>j. mk_inode m (inum_of j)) [0..<length fs]" and ?d = "new_dinode ty"
  let ?m = "m\<lparr>freeinode := freeinode m + 1\<rparr>"
  have i: "freeinode m = inum_of (length fs)"
    using k(3) n inum_nat [of "length fs"] by (simp add: word_unat_eq_iff)
  have s: "slot v (di_addrs ?d) l = 0" if "l \<le> 140" for v l
    using that by (auto simp: slot_def new_dinode_def nth_append)
  have own: "owns v (di_addrs ?d) = {}" for v using s by (auto simp: owns_def)
  have t: "tight (img m) (freeblock m) ?d"
    using s by (simp add: tight_def needs_def) (simp add: new_dinode_def)
  have z: "byte_at (fblock (img m) (di_addrs ?d)) p = 0" if "p < 71680" for p
    using s [of "p div 512"] file_index [OF that] by (simp add: byte_at_def fblock_def)
  have st: "stands (img m) ?d (ty, [])" using z by (simp add: stands_def) (simp add: new_dinode_def)
  have "image_ok (img m) (freeblock m) (?ds @ [?d]) (fs @ [(ty, [])])"
    using k(5) t st own unfolding image_ok_def by (auto simp: nth_append less_Suc_eq blocks_of_def)
  moreover have "mk_inode ?m j = mk_inode m j" for j by (simp add: mk_inode_def)
  moreover have "unat (freeinode m + 1) = Suc (Suc (length fs))"
    using u32_add [of "freeinode m" 1] k(3) n by simp
  ultimately have "\<exists>v. winode (inum_of (length fs)) ((?ds @ [?d]) ! length fs) ?m = Ok (?m\<lparr>img := v\<rparr>) \<and>
      mk_ok (?m\<lparr>img := v\<rparr>) (fs @ [(ty, [])])"
    using k n by (intro winode_image) (auto simp: nth_append less_Suc_eq)
  then show ?thesis using i by (auto simp: mk_ialloc_def Let_def nth_append)
qed

section \<open>The blocks of all files\<close>

definition total :: "(u16 \<times> bytes) list \<Rightarrow> nat" where
  "total fs = sum_list (map (\<lambda>f. blocks_of (length (snd f))) fs)"

lemma total_update:
  assumes "j < length fs" and "fs ! j = (ty, bs)"
  shows "total (fs[j := (ty, bs @ p)]) + blocks_of (length bs) = total fs + blocks_of (length bs + length p)"
proof -
  let ?b = "\<lambda>f :: u16 \<times> bytes. blocks_of (length (snd f))"
  have "?b (fs ! j) \<le> sum_list (map ?b fs)" using assms(1) by (intro member_le_sum_list) auto
  then show ?thesis using assms by (simp add: total_def map_update sum_list_update)
qed

lemma total_append [simp]: "total (fs @ gs) = total fs + total gs"
  by (simp add: total_def)

lemma freeblock_total: "mk_ok m fs \<Longrightarrow> unat (freeblock m) = 59 + total fs"
  using mk_okD(8) by (simp add: total_def)

lemma iappend_room:
  assumes ok: "mk_ok m fs" and j: "j < length fs" and f: "fs ! j = (ty, bs)" and sz: "length bs + length p \<le> 71680"
    and room: "59 + total (fs[j := (ty, bs @ p)]) \<le> 1000"
  shows "\<exists>m'. iappend (inum_of j) p m = Ok m' \<and> mk_ok m' (fs[j := (ty, bs @ p)])"
proof (rule iappend_spec [OF ok j f sz])
  show "unat (freeblock m) + blocks_of (length bs + length p) \<le> 1000 + blocks_of (length bs)"
    using freeblock_total [OF ok] total_update [OF j f, of p] room by linarith
qed

lemma total_grow: "j < length fs \<Longrightarrow> fs ! j = (ty, bs) \<Longrightarrow> total (fs[j := (ty, bs @ p)]) \<le> total (fs[j := (ty, bs @ p @ q)])"
proof -
  assume a: "j < length fs" "fs ! j = (ty, bs)"
  have "blocks_of (length bs + length p) \<le> blocks_of (length bs + length (p @ q))" by (intro blocks_of_mono) simp
  then show ?thesis using total_update [OF a, of p] total_update [OF a, of "p @ q"] by simp
qed

lemma iappend_pieces:
  assumes "mk_ok m fs" and "j < length fs" and "fs ! j = (ty, bs)" and "length bs + length (concat ps) \<le> 71680"
    and "59 + total (fs[j := (ty, bs @ concat ps)]) \<le> 1000"
  shows "\<exists>m'. rfold (iappend (inum_of j)) ps m = Ok m' \<and> mk_ok m' (fs[j := (ty, bs @ concat ps)])"
  using assms
proof (induction ps arbitrary: m fs bs)
  case Nil
  then have "fs[j := (ty, bs)] = fs" by (metis list_update_id)
  then show ?case using Nil by simp
next
  case (Cons p ps)
  have "total (fs[j := (ty, bs @ p)]) \<le> total (fs[j := (ty, bs @ p @ concat ps)])"
    using Cons.prems(2,3) by (rule total_grow)
  with iappend_room [OF Cons.prems(1-3), of p] Cons.prems(4,5) obtain m1 where
    m1: "iappend (inum_of j) p m = Ok m1" "mk_ok m1 (fs[j := (ty, bs @ p)])" by auto
  from Cons.IH [OF m1(2), of "bs @ p"] Cons.prems m1(1) show ?case by auto
qed

section \<open>The directory tree\<close>

definition the_name :: "bytes \<Rightarrow> bytes" where
  "the_name arg = (if ld arg 0 = 95 then drop 1 arg else arg)"

definition entry :: "nat \<Rightarrow> bytes \<Rightarrow> bytes" where
  "entry j name = mk_dirent (inum_of j) (strncpy (replicate DIRSIZ 0) name DIRSIZ)"

abbreviation data_of :: "bytes \<times> bytes list option \<Rightarrow> bytes" where
  "data_of f \<equiv> concat (the (snd f))"

definition root_bytes :: "(bytes \<times> bytes list option) list \<Rightarrow> bytes" where
  "root_bytes files = entry 0 [46] @ entry 0 [46, 46] @
     concat (map (\<lambda>j. entry (Suc j) (the_name (fst (files ! j)))) [0..<length files])"

text \<open>The files of the image: the root directory, then the files of the command line.\<close>

definition tree :: "(bytes \<times> bytes list option) list \<Rightarrow> (u16 \<times> bytes) list" where
  "tree files = (T_DIR, root_bytes files) # map (\<lambda>f. (T_FILE, data_of f)) files"

lemma length_entry [simp]: "length (entry j name) = 16"
proof -
  have "length (strncpy (replicate DIRSIZ 0) name DIRSIZ) = DIRSIZ"
    unfolding strncpy_def by (auto dest: length_strncpy_copy split: prod.splits)
  then show ?thesis by (simp add: entry_def mk_dirent_def)
qed

lemma length_root: "length (root_bytes files) = 16 * (length files + 2)"
  by (simp add: root_bytes_def length_concat comp_def sum_list_triv)

lemma root_bytes_snoc: "root_bytes (files @ [f]) = root_bytes files @ entry (Suc (length files)) (the_name (fst f))"
proof -
  have "map (\<lambda>j. entry (Suc j) (the_name (fst ((files @ [f]) ! j)))) [0..<length files] =
      map (\<lambda>j. entry (Suc j) (the_name (fst (files ! j)))) [0..<length files]"
    by (simp add: nth_append)
  from arg_cong [OF this, of concat] show ?thesis by (simp add: root_bytes_def del: map_eq_conv)
qed

definition good_file :: "bytes \<times> bytes list option \<Rightarrow> bool" where
  "good_file f \<longleftrightarrow> 47 \<notin> set (str_tail 0 (fst f)) \<and> snd f \<noteq> None \<and> length (data_of f) \<le> 71680"

lemma add_file_spec:
  assumes ok: "mk_ok m (tree files)" and f: "good_file f" and n: "length files < 206"
    and room: "59 + total (tree (files @ [f])) \<le> 1000"
  shows "\<exists>m'. add_file f m = Ok m' \<and> mk_ok m' (tree (files @ [f]))"
proof -
  obtain arg ps where fa: "f = (arg, Some ps)" using f by (cases f) (auto simp: good_file_def)
  let ?fs = "tree files" and ?e = "entry (Suc (length files)) (the_name arg)"
  have len: "length ?fs = Suc (length files)" by (simp add: tree_def)
  from ialloc_spec [OF ok, of T_FILE] n len obtain m1 where
    m1: "mk_ialloc T_FILE m = Ok (inum_of (Suc (length files)), m1)" "mk_ok m1 (?fs @ [(T_FILE, [])])" by auto
  have t: "tree (files @ [f]) = (?fs @ [(T_FILE, [])])[0 := (T_DIR, root_bytes files @ ?e), Suc (length files) := (T_FILE, concat ps)]"
    by (simp add: tree_def fa root_bytes_snoc list_update_append)
  have t1: "(?fs @ [(T_FILE, [])])[0 := (T_DIR, root_bytes files @ ?e)] = (T_DIR, root_bytes files @ ?e) # map (\<lambda>f. (T_FILE, data_of f)) files @ [(T_FILE, [])]"
    by (simp add: tree_def)
  have "total ((?fs @ [(T_FILE, [])])[0 := (T_DIR, root_bytes files @ ?e)]) \<le> total (tree (files @ [f]))"
    unfolding t1 by (simp add: tree_def fa root_bytes_snoc total_def blocks_of_def)
  with iappend_room [OF m1(2), of 0 T_DIR "root_bytes files" ?e] room n obtain m2 where
    m2: "iappend (inum_of 0) ?e m1 = Ok m2" "mk_ok m2 ((?fs @ [(T_FILE, [])])[0 := (T_DIR, root_bytes files @ ?e)])"
    by (auto simp: tree_def length_root)
  have "length (concat ps) \<le> 71680" using f fa by (simp add: good_file_def)
  with iappend_pieces [OF m2(2), of "Suc (length files)" T_FILE "[]" ps] room t len obtain m3 where
    m3: "rfold (iappend (inum_of (Suc (length files)))) ps m2 = Ok m3" "mk_ok m3 (tree (files @ [f]))"
    by (auto simp: nth_append tree_def)
  have "inum_of 0 = ROOTINO" by (simp add: inum_of_def)
  then have "add_file f m = Ok m3"
    using f m1(1) m2(1) m3(1) by (simp add: add_file_def fa good_file_def entry_def the_name_def Let_def)
  with m3(2) show ?thesis by blast
qed

lemma total_tree_snoc: "total (tree files) \<le> total (tree (files @ [f]))"
proof -
  have "blocks_of (length (root_bytes files)) \<le> blocks_of (length (root_bytes (files @ [f])))"
    by (intro blocks_of_mono) (simp add: length_root)
  then show ?thesis by (simp add: tree_def total_def)
qed

lemma add_files_spec:
  assumes "mk_ok m (tree [])" and "\<forall>f \<in> set files. good_file f" and "length files \<le> 206" and "59 + total (tree files) \<le> 1000"
  shows "\<exists>m'. rfold add_file files m = Ok m' \<and> mk_ok m' (tree files)"
  using assms
proof (induction files rule: rev_induct)
  case (snoc f files)
  have "59 + total (tree files) \<le> 1000" using snoc.prems(4) total_tree_snoc [of files f] by linarith
  with snoc obtain m1 where m1: "rfold add_file files m = Ok m1" "mk_ok m1 (tree files)" by auto
  from add_file_spec [OF m1(2), of f] snoc.prems m1(1) show ?case by (simp add: rfold_append)
qed simp

section \<open>The start: an empty disk with a superblock\<close>

lemma zero_loop:
  "n \<le> 1000 \<Longrightarrow> fold (\<lambda>i. wsect (word_of_nat i) (replicate BSIZE 0)) [0..<n] mkfs_start = mkfs_start\<lparr>img_size := n\<rparr>"
proof (induction n)
  case 0
  show ?case by (simp add: mkfs_start_def)
next
  case (Suc n)
  then have "(word_of_nat n :: u32) < 1000" "unat (word_of_nat n :: u32) = n"
    by (simp_all add: word_less_nat_alt u32_of_nat_unat)
  then show ?case using Suc by (simp add: wsect_def sector mkfs_start_def fun_upd_idem max_def)
qed

lemma dec_enc_super: "dec_super (blit 0 (enc_super su) zeros) = su"
proof -
  let ?as = "[sb_size su, sb_nblocks su, sb_ninodes su, sb_nlog su, sb_logstart su, sb_inodestart su, sb_bmapstart su]"
  have len: "length (enc_super su) = 28" by (simp add: enc_super_def)
  have g: "get32 (4 * k) (blit 0 (enc_super su) zeros) = ?as ! k" if "k < 7" for k
  proof -
    have "slice (4 * k) 4 (blit 0 (enc_super su) zeros) = slice (4 * k) 4 (enc_super su)"
      using that len by (intro nth_equalityI) (simp_all add: nth_slice nth_blit)
    also have "\<dots> = enc32 (?as ! k)"
      unfolding enc_super_def using slice_encoded [of k ?as] that by simp
    finally show ?thesis by (simp add: get32_def)
  qed
  from g [of 0] g [of 1] g [of 2] g [of 3] g [of 4] g [of 5] g [of 6] show ?thesis
    by (cases su) (simp add: dec_super_def)
qed

definition empty_image :: mkfs where
  "empty_image = mkfs_start\<lparr>img := (\<lambda>_. zeros)(1 := blit 0 (enc_super mkfs_super) zeros), img_size := 1000\<rparr>"

lemma empty_image_eq:
  "wsect 1 (blit 0 (enc_super mkfs_super) zeros) (mkfs_start\<lparr>img_size := 1000\<rparr>) = empty_image"
  using sector [of 1] by (simp add: wsect_def empty_image_def mkfs_start_def)

lemma empty_image_ok: "mk_ok empty_image []"
proof -
  have "unat (word_of_nat nmeta :: u32) = 59" by (simp add: nmeta_def nlog_def ninodeblocks_def nbitmap_def)
  moreover have "length (enc_super mkfs_super) = 28" by (simp add: enc_super_def)
  ultimately show ?thesis
    using dec_enc_super [of mkfs_super]
    by (auto simp: mk_ok_def empty_image_def mkfs_start_def head_ok_def image_ok_def word_le_nat_alt)
qed

lemma dot_name: "strcpy (replicate DIRSIZ 0) [46] = strncpy (replicate DIRSIZ 0) [46] DIRSIZ"
  "strcpy (replicate DIRSIZ 0) [46, 46] = strncpy (replicate DIRSIZ 0) [46, 46] DIRSIZ"
  by code_simp+

section \<open>The bitmap\<close>

lemma in_use_zeros: "b < 4096 \<Longrightarrow> \<not> in_use zeros b"
  by (simp add: in_use_bit less_mult_imp_div_less)

lemma marked_up_to: "n \<le> 4096 \<Longrightarrow> b < 4096 \<Longrightarrow>
  length (fold mark_used [0..<n] zeros) = BSIZE \<and> (in_use (fold mark_used [0..<n] zeros) b \<longleftrightarrow> b < n)"
proof (induction n)
  case (Suc n)
  then show ?case using in_use_mark_used [of n "fold mark_used [0..<n] zeros" b] by auto
qed (simp add: in_use_zeros)

section \<open>The image that main leaves\<close>

definition file_bytes :: "view \<Rightarrow> dinode \<Rightarrow> bytes" where
  "file_bytes v d = map (byte_at (fblock v (di_addrs d))) [0..<unat (di_size d)]"

lemma stands_bytes: "stands v d f \<Longrightarrow> unat (di_size d) \<le> 71680 \<Longrightarrow> file_bytes v d = snd f"
  by (rule nth_equalityI) (simp_all add: file_bytes_def stands_def)

definition built :: "mkfs \<Rightarrow> (bytes \<times> bytes list option) list \<Rightarrow> bool" where
  "built m files \<longleftrightarrow> mk_sb m = mkfs_super \<and> (\<forall>b. length (img m b) = BSIZE) \<and> head_ok (img m) \<and> unat (freeblock m) = 59 + total (tree files) \<and>
     (\<forall>b. unat b < 1000 \<longrightarrow> (marked mkfs_super (img m) b \<longleftrightarrow> b < freeblock m)) \<and>
     (let r = mk_inode m 1 in di_type r = T_DIR \<and> plain r \<and>
        file_bytes (img m) r = root_bytes files @ replicate (512 - length (root_bytes files) mod 512) 0) \<and>
     (\<forall>j < length files. let d = mk_inode m (inum_of (Suc j)) in
        tight (img m) (freeblock m) d \<and> stands (img m) d (T_FILE, data_of (files ! j)))"

lemma root_size: "n \<le> 3328 \<Longrightarrow> unat w = n \<Longrightarrow> unat ((w div 512 + 1) * 512 :: u32) = n + (512 - n mod 512)"
proof -
  assume n: "n \<le> 3328" and w: "unat w = n"
  obtain k q where q: "n = 512 * k + q" "q < 512" "n div 512 = k" "n mod 512 = q" by (rule size_split)
  have "(w div 512 + 1) * 512 = word_of_nat ((n div 512 + 1) * 512)" using w by (simp add: word_arith_nat_div)
  also have "unat (word_of_nat ((n div 512 + 1) * 512) :: u32) = (n div 512 + 1) * 512"
    using n q by (intro u32_of_nat_unat) simp
  finally show ?thesis using q by simp
qed

lemma finish_image:
  assumes ok: "mk_ok m1 (tree files)" and n: "length files \<le> 206" and room: "59 + total (tree files) \<le> 1000"
  shows "\<exists>d m2 m. rinode 1 m1 = Ok d \<and> winode 1 (d\<lparr>di_size := (di_size d div 512 + 1) * 512\<rparr>) m1 = Ok m2 \<and>
    mk_balloc (freeblock m2) m2 = Ok m \<and> built m files"
proof -
  note k = mk_okD [OF ok]
  let ?fs = "tree files" and ?ds = "map (\<lambda>j. mk_inode m1 (inum_of j)) [0..<length (tree files)]"
  let ?d = "mk_inode m1 1" and ?len = "length (root_bytes files)"
  have one: "inum_of 0 = 1" by (simp add: inum_of_def)
  have lfs: "length ?fs = Suc (length files)" and f0: "?fs ! 0 = (T_DIR, root_bytes files)" by (simp_all add: tree_def)
  have len: "?len \<le> 3328" using n by (simp add: length_root)
  have d0: "?ds ! 0 = ?d" using one lfs nth_map [of 0 "[0..<length ?fs]" "\<lambda>j. mk_inode m1 (inum_of j)"] by (simp del: upt_Suc)
  have root: "tight (img m1) (freeblock m1) ?d" "stands (img m1) ?d (T_DIR, root_bytes files)"
    using k(9) [of 0] f0 lfs one by simp_all
  let ?r = "?d\<lparr>di_size := (di_size ?d div 512 + 1) * 512\<rparr>"
  have pl: "plain ?r" using file_plain [OF root] by (simp add: plain_def)
  have rd: "rinode 1 m1 = Ok ?d"
    using inode_block(2) [of 1] k(1,2) by (simp add: rinode_def rsect_ok mk_inode_def)
  from winode_spec [OF k(1,2,6) _ pl, of 1] obtain v where
    v: "winode 1 ?r m1 = Ok (m1\<lparr>img := v\<rparr>)" "\<forall>b. length (v b) = BSIZE" "\<forall>b. unat b < 32 \<or> 58 \<le> unat b \<longrightarrow> v b = img m1 b"
      "mk_inode (m1\<lparr>img := v\<rparr>) 1 = ?r"
      "\<forall>i'. unat i' < 208 \<longrightarrow> i' \<noteq> 1 \<longrightarrow> mk_inode (m1\<lparr>img := v\<rparr>) i' = mk_inode m1 i'" by auto
  have fb: "unat (freeblock m1) = 59 + total ?fs" by (rule freeblock_total [OF ok])
  then have sfb: "sint (freeblock m1) = int (59 + total ?fs)"
  proof -
    have "unat (freeblock m1) < 2 ^ 31" using fb room by simp
    then show ?thesis using arg_cong [OF fb, of int] by (simp add: sint_uint_small)
  qed
  let ?buf = "fold mark_used [0..<59 + total ?fs] zeros" and ?u = "v(58 := fold mark_used [0..<59 + total ?fs] zeros)"
  let ?m = "m1\<lparr>img := ?u\<rparr>"
  have "mk_balloc (freeblock m1) (m1\<lparr>img := v\<rparr>) = Ok ?m"
    using room k(1,2) by (simp add: mk_balloc_def sfb mkfs_super_sel wsect_ok nat_add_distrib)
  have blen: "length ?buf = BSIZE" using marked_up_to [of "59 + total ?fs" 0] room by simp
  have ino: "mk_inode ?m i = mk_inode (m1\<lparr>img := v\<rparr>) i" if "unat i < 208" for i
    using inode_block(5) [OF that] k(2) by (auto simp: mk_inode_def)
  have img: "image_ok ?u (freeblock m1) ?ds ?fs"
    using v(2,3) blen by (intro image_ok_cong [OF k(5)]) auto
  have r1: "mk_inode ?m 1 = ?r" using ino [of 1] v(4) by simp
  have rs: "stands ?u ?d (T_DIR, root_bytes files)"
    using img lfs f0 d0 unfolding image_ok_def by (metis zero_less_Suc)
  have sz: "unat (di_size ?r) = ?len + (512 - ?len mod 512)"
    using root_size [OF len, of "di_size ?d"] root(2) by (simp add: stands_def)
  have rb: "file_bytes ?u ?r = root_bytes files @ replicate (512 - ?len mod 512) 0"
    using rs len sz by (intro nth_equalityI) (auto simp: file_bytes_def stands_def nth_append)
  have marks: "marked mkfs_super ?u b \<longleftrightarrow> b < freeblock m1" if "unat b < 1000" for b
  proof -
    have "BBLOCK b mkfs_super = 58" using that by (simp add: BBLOCK_nat mkfs_super_sel)
    then show ?thesis using marked_up_to [of "59 + total ?fs" "unat b"] that room fb
      by (simp add: marked_def word_less_nat_alt)
  qed
  have each: "tight ?u (freeblock m1) (mk_inode ?m (inum_of (Suc j))) \<and> stands ?u (mk_inode ?m (inum_of (Suc j))) (T_FILE, data_of (files ! j))"
    if j: "j < length files" for j
  proof -
    have i: "unat (inum_of (Suc j)) < 208" "inum_of (Suc j) \<noteq> 1"
      using inum_nat [of "Suc j"] j n by auto
    have "?ds ! Suc j = mk_inode ?m (inum_of (Suc j))" using j lfs ino [OF i(1)] v(5) i by (simp del: upt_Suc)
    moreover have "tight ?u (freeblock m1) (?ds ! Suc j) \<and> stands ?u (?ds ! Suc j) (?fs ! Suc j)"
      using img j lfs unfolding image_ok_def by (metis Suc_less_eq)
    ultimately show ?thesis using j by (simp add: tree_def)
  qed
  have "built ?m files"
    unfolding built_def r1 Let_def using v(2,3) blen k(2,4) fb marks pl rb rs each head_ok_cong [OF k(4), of ?u]
    by (auto simp: stands_def)
  then show ?thesis using rd v(1) \<open>mk_balloc (freeblock m1) (m1\<lparr>img := v\<rparr>) = Ok ?m\<close>
    by (intro exI [of _ ?d] exI [of _ "m1\<lparr>img := v\<rparr>"] exI [of _ ?m]) simp
qed

lemma mkfs_builds:
  assumes "\<forall>f \<in> set files. good_file f" and "length files \<le> 206" and "59 + total (tree files) \<le> 1000"
  shows "\<exists>m. mkfs_main files = Ok m \<and> built m files"
proof -
  have one: "inum_of 0 = 1" by (simp add: inum_of_def)
  from ialloc_spec [OF empty_image_ok, of T_DIR] obtain m1 where
    m1: "mk_ialloc T_DIR empty_image = Ok (1, m1)" "mk_ok m1 [(T_DIR, [])]" by (auto simp: one)
  have t0: "tree [] = [(T_DIR, entry 0 [46] @ entry 0 [46, 46])]" by (simp add: tree_def root_bytes_def)
  have b: "blocks_of n = 1" if "0 < n" "n \<le> 512" for n
    using that by (auto simp: blocks_of_def intro!: div_nat_eqI)
  from iappend_room [OF m1(2), of 0 T_DIR "[]" "entry 0 [46]"] obtain m2 where
    m2: "iappend 1 (entry 0 [46]) m1 = Ok m2" "mk_ok m2 [(T_DIR, entry 0 [46])]" by (auto simp: one total_def b)
  from iappend_room [OF m2(2), of 0 T_DIR "entry 0 [46]" "entry 0 [46, 46]"] obtain m3 where
    m3: "iappend 1 (entry 0 [46, 46]) m2 = Ok m3" "mk_ok m3 (tree [])" by (auto simp: one total_def b t0)
  from add_files_spec [OF m3(2) assms] obtain m4 where m4: "rfold add_file files m3 = Ok m4" "mk_ok m4 (tree files)" by blast
  from finish_image [OF m4(2) assms(2,3)] obtain d m5 m where
    m: "rinode 1 m4 = Ok d" "winode 1 (d\<lparr>di_size := (di_size d div 512 + 1) * 512\<rparr>) m4 = Ok m5"
       "mk_balloc (freeblock m5) m5 = Ok m" "built m files" by blast
  have sb: "mk_sb mkfs_start = mkfs_super" by (simp add: mkfs_start_def)
  have e: "entry 0 [46] = mk_dirent 1 (strcpy (replicate DIRSIZ 0) [46])" "entry 0 [46, 46] = mk_dirent 1 (strcpy (replicate DIRSIZ 0) [46, 46])"
    unfolding entry_def one dot_name by simp_all
  have "mkfs_main files = Ok m"
    unfolding mkfs_main_def zero_loop [OF order_refl] Let_def
    using m1(1) m2(1) m3(1) m4(1) m(1-3) by (simp add: sb empty_image_eq e)
  with m(4) show ?thesis by blast
qed

section \<open>The properties\<close>

text \<open>C39. \<open>mkfs\<close> builds the file system it is asked for: with up to 206 files of at most 71680 bytes each
  that fit on the disk it succeeds, and the image holds the superblock, an empty log, a bitmap that marks
  exactly the blocks in use, the root directory with its entries padded with free ones to a whole block, and
  every file with its type, one link, no permission denied, and its bytes.\<close>

theorem mkfs_builds_files:
  assumes "\<forall>f \<in> set files. good_file f" and "length files \<le> 206" and "59 + total (tree files) \<le> 1000"
  shows "\<exists>m. mkfs_main files = Ok m \<and> dec_super (img m 1) = mkfs_super \<and> get32 0 (img m 2) = 0 \<and>
    (\<forall>b. unat b < 1000 \<longrightarrow> (marked mkfs_super (img m) b \<longleftrightarrow> unat b < 59 + total (tree files))) \<and>
    (let r = mk_inode m 1 in di_type r = T_DIR \<and> di_nlink r = 1 \<and> di_perm r = 0 \<and>
       file_bytes (img m) r = root_bytes files @ replicate (512 - length (root_bytes files) mod 512) 0) \<and>
    (\<forall>j < length files. let d = mk_inode m (inum_of (Suc j)) in di_type d = T_FILE \<and> di_nlink d = 1 \<and> di_perm d = 0 \<and>
       file_bytes (img m) d = data_of (files ! j))"
proof -
  from mkfs_builds [OF assms] obtain m where m: "mkfs_main files = Ok m" "built m files" by blast
  have "get32 0 (img m 2) = 0" using m(2) by (simp add: built_def head_ok_def)
  moreover have "file_bytes (img m) (mk_inode m (inum_of (Suc j))) = data_of (files ! j)" if "j < length files" for j
    using m(2) that stands_bytes unfolding built_def Let_def tight_def by fastforce
  ultimately show ?thesis using m
    by (intro exI [of _ m]) (simp add: built_def head_ok_def plain_def stands_def word_less_nat_alt Let_def)
qed

text \<open>The program \<open>_cat\<close> with three bytes, read in two pieces, and a file \<open>README\<close>.\<close>

definition two_files :: "(bytes \<times> bytes list option) list" where
  "two_files = [([95, 99, 97, 116], Some [[127, 69], [76]]), ([82, 69, 65, 68, 77, 69], Some [])]"

lemma two_files_ok:
  "\<forall>f \<in> set two_files. good_file f" "length two_files \<le> 206" "59 + total (tree two_files) \<le> 1000"
proof -
  have "total (tree two_files) = 2"
    unfolding total_def tree_def by (simp add: length_root two_files_def blocks_of_def)
  then show "59 + total (tree two_files) \<le> 1000" by simp
qed (simp_all add: two_files_def good_file_def)

theorem mkfs_builds_files_witness:
  "\<exists>m. mkfs_main two_files = Ok m \<and> di_type (mk_inode m 2) = T_FILE \<and> file_bytes (img m) (mk_inode m 2) = [127, 69, 76]"
proof -
  from mkfs_builds_files [OF two_files_ok] obtain m where m: "mkfs_main two_files = Ok m"
    "\<forall>j < length two_files. let d = mk_inode m (inum_of (Suc j)) in di_type d = T_FILE \<and> di_nlink d = 1 \<and> di_perm d = 0 \<and>
       file_bytes (img m) d = data_of (two_files ! j)" by blast
  moreover have "inum_of (Suc 0) = 2" by (simp add: inum_of_def)
  ultimately show ?thesis by (intro exI [of _ m]) (auto simp: two_files_def Let_def dest: spec [of _ 0])
qed

section \<open>The kernel reads the image\<close>

lemma mkfs_small_super: "mkfs_super = small_super"
  by (simp add: mkfs_super_def small_super_def nmeta_def nlog_def ninodeblocks_def nbitmap_def)

lemma built_file_ready:
  assumes b: "built m files" and fb: "unat (freeblock m) \<le> 1000" and d: "tight (img m) (freeblock m) d"
    and s: "ready 0 s" "held s = Map.empty" "sb s = mkfs_super" "log_start s = 2" "disksize s = 1000" "cview s = img m"
    and i: "inodes s i = load_dinode d e" "i_dev e = 1"
  shows "file_ready 0 0 i s"
proof -
  have okb: "okb s b \<longleftrightarrow> b \<noteq> 1 \<and> b < 1000 \<and> (unat b < 2 \<or> 32 \<le> unat b)" for b
    using small_okb [of b] s(4,5) by (simp add: small_fs_sel)
  have map: "map_blocks mkfs_super = {58}" by (simp add: mkfs_small_super small_map)
  have f59: "59 \<le> unat (freeblock m)" using b by (simp add: built_def)
  have free: "b \<in> free_blocks mkfs_super (img m) \<longleftrightarrow> freeblock m \<le> b \<and> b < 1000" for b
    using b by (auto simp: built_def free_blocks_def mkfs_super_sel word_less_nat_alt not_less word_le_nat_alt)
  have "map_ok (okb s) mkfs_super (img m)"
    using f59 by (auto simp: map_ok_def map free okb word_le_nat_alt word_less_nat_alt)
  moreover have "file_wf (okb s) mkfs_super (img m) (di_addrs d)"
    using d fb f59 unfolding file_wf_def tight_def owns_def
    by (auto simp: map free okb word_le_nat_alt word_less_nat_alt)
  ultimately show ?thesis using s i by (simp add: file_ready_def load_dinode_def)
qed

text \<open>C40. What \<open>mkfs\<close> puts on the disk, the kernel reads: in a kernel that runs on the image, with the
  superblock that \<open>readsb\<close> finds there and an inode loaded the way \<open>ilock\<close> loads it, \<open>readi\<close> from the beginning
  returns the whole file that was given to \<open>mkfs\<close>.\<close>

theorem kernel_reads_mkfs_files:
  assumes "\<forall>f \<in> set files. good_file f" and "length files \<le> 206" and "59 + total (tree files) \<le> 1000"
    and m: "mkfs_main files = Ok m" and j: "j < length files"
    and s: "ready 0 s" "held s = Map.empty" "cview s = img m" "sb s = dec_super (cview s 1)"
      "log_start s = sb_logstart (sb s)" "disksize s = sb_size (sb s)"
    and e: "inodes s i = load_dinode (dec_dinode (slice (di_off (inum_of (Suc j))) 64 (cview s (IBLOCK (inum_of (Suc j)) (sb s))))) e"
      "i_dev e = 1"
  shows "\<exists>t. readi i 0 (i_size (inodes s i)) s = Ok (int (length (data_of (files ! j))), data_of (files ! j), t)"
proof -
  from mkfs_builds [OF assms(1-3)] m have b: "built m files" by auto
  then have su: "dec_super (img m 1) = mkfs_super" "mk_sb m = mkfs_super" by (simp_all add: built_def head_ok_def)
  let ?d = "mk_inode m (inum_of (Suc j))" and ?data = "data_of (files ! j)"
  have td: "tight (img m) (freeblock m) ?d" and st: "stands (img m) ?d (T_FILE, ?data)"
    using b j by (simp_all add: built_def Let_def)
  have i: "inodes s i = load_dinode ?d e" using e(1) su s by (simp add: mk_inode_def)
  have fb: "unat (freeblock m) \<le> 1000" using b assms(3) by (simp add: built_def)
  have f: "file_ready 0 0 i s"
    using built_file_ready [OF b fb td s(1,2) _ _ _ s(3) i e(2)] s(4-6) su s(3) by (simp add: mkfs_super_sel)
  have sel: "i_size (inodes s i) = di_size ?d" "i_type (inodes s i) = di_type ?d" "addrs s i = di_addrs ?d"
    by (simp_all add: i load_dinode_def)
  have sz: "unat (di_size ?d) = length ?data" "length ?data \<le> 71680"
    using st td by (simp_all add: stands_def tight_def)
  have there: "slot (cview s) (addrs s i) (p div BSIZE) \<noteq> 0" if "p < length ?data" for p
  proof -
    have k: "p div 512 < 140" using file_index [of p] that sz(2) by simp
    have "p div 512 * 512 \<le> p" by simp
    then have "p div 512 * 512 < length ?data" using that by linarith
    then have "needs (unat (di_size ?d)) (p div 512)" using k by (simp add: needs_def sz(1))
    then show ?thesis using td k unfolding tight_def by (simp add: sel s(3))
  qed
  have n: "unat (0 :: u32) + unat (i_size (inodes s i)) \<le> unat (i_size (inodes s i))"
    "unat (0 :: u32) + unat (i_size (inodes s i)) \<le> 140 * BSIZE" "i_type (inodes s i) \<noteq> T_DEV"
    using st sz by (simp_all add: sel stands_def)
  have th: "slot (cview s) (addrs s i) (p div BSIZE) \<noteq> 0"
    if "unat (0 :: u32) \<le> p" "p < unat (0 :: u32) + unat (i_size (inodes s i))" for p
    using there [of p] that sz(1) by (simp add: sel)
  have data: "map (byte_at (contents s i)) [0..<length ?data] = ?data"
  proof (rule nth_equalityI)
    fix p assume "p < length (map (byte_at (contents s i)) [0..<length ?data])"
    then have p: "p < length ?data" "p < 71680" using sz(2) by simp_all
    have "byte_at (contents s i) p = byte_at (fblock (img m) (di_addrs ?d)) p"
      using file_index [OF p(2)] by (simp add: byte_at_def contents_def sel s(3))
    then show "map (byte_at (contents s i)) [0..<length ?data] ! p = ?data ! p"
      using st p by (simp add: stands_def)
  qed simp
  from readi_spec [OF f n(3) n(1,2) th] obtain t where
    "readi i 0 (i_size (inodes s i)) s =
      Ok (uint (i_size (inodes s i)), map (byte_at (contents s i)) [unat (0 :: u32)..<unat (0 :: u32) + unat (i_size (inodes s i))], t)"
    by blast
  moreover have "uint (i_size (inodes s i)) = int (length ?data)" using arg_cong [OF sz(1), of int] by (simp add: sel)
  ultimately show ?thesis using data by (auto simp: sel sz(1))
qed

text \<open>A kernel that has just mounted the image, with inode 2 in its first cache entry.\<close>

definition mounted :: "mkfs \<Rightarrow> fs_state" where
  "mounted m = binit
     \<lparr>procs = (\<lambda>_. unused_proc), cur = 0, memdisk = img m, disksize = 1000, disk_trace = [], bufs = (\<lambda>_. zero_buf),
      bnext = (\<lambda>_. 0), bprev = (\<lambda>_. 0), log_start = 2, log_size = 30, log_outstanding = 1,
      log_committing = False, log_dev = 1, lh_n = 0, lh_block = (\<lambda>_. 0),
      sb = mkfs_super, inodes = (\<lambda>_. load_dinode (mk_inode m 2) empty_file), cons = blank_console\<rparr>"

lemma mounted_sel:
  "sb (mounted m) = mkfs_super" "inodes (mounted m) = (\<lambda>_. load_dinode (mk_inode m 2) empty_file)"
  "log_start (mounted m) = 2" "disksize (mounted m) = 1000" "log_size (mounted m) = 30" "log_dev (mounted m) = 1"
  "lh_n (mounted m) = 0" "log_outstanding (mounted m) = 1"
  by (simp_all add: mounted_def binit_def split: prod.splits)

lemma mounted_ready:
  assumes "built m files"
  shows "ready 0 (mounted m)" "held (mounted m) = Map.empty" "cview (mounted m) = img m"
proof -
  have "length (img m b) = BSIZE" for b using assms by (simp add: built_def)
  then have 1: "bio_inv (mounted m)" "cabs (mounted m) =
      \<lparr>a_disk = img m, a_view = img m, a_pins = {}, a_trace = [], a_held = Map.empty\<rparr>"
    unfolding mounted_def by (subst binit_inv; simp)+
  show h: "held (mounted m) = Map.empty" and "cview (mounted m) = img m"
    using arg_cong [OF 1(2), of a_view] arg_cong [OF 1(2), of a_held] by simp_all
  have p: "pins (mounted m) = {}" "memdisk (mounted m) = img m"
    using arg_cong [OF 1(2), of a_pins] arg_cong [OF 1(2), of a_disk] by simp_all
  have "get32 0 (img m 2) = 0" using assms by (simp add: built_def head_ok_def)
  then have "log_ok (mounted m)"
    by (simp add: log_ok_def 1(1) p mounted_sel log_geometry_def logged_def)
  then show "ready 0 (mounted m)" by (simp add: ready_def p h mounted_sel)
qed

theorem kernel_reads_mkfs_files_witness:
  "\<exists>m t. mkfs_main two_files = Ok m \<and>
     readi 0 0 (i_size (inodes (mounted m) 0)) (mounted m) = Ok (3, [127, 69, 76], t)"
proof -
  from mkfs_builds [OF two_files_ok] obtain m where m: "mkfs_main two_files = Ok m" "built m two_files" by blast
  note r = mounted_ready [OF m(2)]
  have two: "inum_of (Suc 0) = 2" by (simp add: inum_of_def)
  have su: "dec_super (img m 1) = mkfs_super" "mk_sb m = mkfs_super" using m(2) by (simp_all add: built_def head_ok_def)
  have j: "(0 :: nat) < length two_files" by (simp add: two_files_def)
  have s: "sb (mounted m) = dec_super (cview (mounted m) 1)" "log_start (mounted m) = sb_logstart (sb (mounted m))"
    "disksize (mounted m) = sb_size (sb (mounted m))"
    by (simp_all add: r(3) su mounted_sel mkfs_super_sel)
  have i: "inodes (mounted m) 0 = load_dinode (dec_dinode (slice (di_off (inum_of (Suc 0))) 64
      (cview (mounted m) (IBLOCK (inum_of (Suc 0)) (sb (mounted m)))))) empty_file"
    by (simp add: two mounted_sel r(3) mk_inode_def su(2))
  have "i_dev empty_file = 1" by (simp add: empty_file_def)
  from kernel_reads_mkfs_files [OF two_files_ok m(1) j r s i this] m(1) show ?thesis
    by (auto simp: two_files_def)
qed

text \<open>\<open>ialloc\<close> of \<open>mkfs\<close> does not look at the number of inodes: inode 208 would be written into the block of
  the bitmap, which \<open>balloc\<close> overwrites afterwards.\<close>

lemma inode_in_bitmap: "IBLOCK 208 mkfs_super = sb_bmapstart mkfs_super"
  by (simp add: IBLOCK_def mkfs_super_sel)

end
