(* ===== verification/Spec2Isabelle.thy ===== *)
theory Spec2Isabelle imports Reload Crash Txn Syscall Paging Grep Builtins Runcmd Spinlock Ide Usermem Exec Pipeio Kbd Mktree begin

text \<open>
  A verification development for three modified xv6 kernels, \<open>src/A1\<close>, \<open>src/A2\<close> and \<open>src/A3\<close>.

  \<^bold>\<open>The program.\<close>  The three trees share most of xv6: a buffer cache (\<open>bio.c\<close>) over a memory disk
  (\<open>memide.c\<close>) or an IDE drive (\<open>ide.c\<close>), a write-ahead log (\<open>log.c\<close>), inodes, directories and paths
  (\<open>fs.c\<close>), open files and pipes (\<open>file.c\<close>, \<open>pipe.c\<close>), the file system calls (\<open>sysfile.c\<close>), the console with its keyboard
  (\<open>console.c\<close>, \<open>kbd.c\<close>), spin-locks (\<open>spinlock.c\<close>), the loading of programs (\<open>exec.c\<close>), a tool that makes the first
  disk image (\<open>mkfs.c\<close>), and a user library with an allocator and a shell.
  A1 adds file permissions, a program history and the blocking of system calls
  (\<open>syscall.c\<close>, \<open>proc.c\<close>, \<open>sysfile.c\<close>, \<open>sh.c\<close>).  A2 adds control keys, a custom signal, delayed start and
  a scheduler with dynamic priorities (\<open>proc.c\<close>, \<open>trap.c\<close>).  A3 adds swapping of user pages to a disk area
  (\<open>kalloc.c\<close>, \<open>pageswap.c\<close>, \<open>vm.c\<close>).  Code that is the same in all three is modelled once, from A1.

  \<^bold>\<open>The state.\<close>  One record, extended from theory to theory, holds what the kernel keeps in memory and
  on disk: the process table (\<open>kstate\<close>, \<open>Proctab\<close>), buffers and disk (\<open>bio_state\<close>, \<open>Bio\<close>), the log
  (\<open>log_state\<close>, \<open>Log\<close>), superblock, inode cache and console (\<open>fs_state\<close>, \<open>Inode\<close>), open files and
  pipes (\<open>file_state\<close>, \<open>File\<close>); from there one branch goes to the scheduler of A2 (\<open>sched_state\<close>, \<open>Sched\<close>) and
  the system call layer of A1 (\<open>Syscall\<close>), another to physical memory and swapping of A3 (\<open>mem_state\<close>, \<open>Mem\<close>).
  An operation is a function from the state to a \<open>res\<close>: the new state and the result, a \<open>panic\<close>, waiting
  for a sleep-lock, or something C leaves undefined.  Pointers into static tables are indices, pointers
  into memory are 32-bit words, integers have their width in C.

  \<^bold>\<open>Theories, bottom up.\<close>
  \<^item> \<open>Prelude\<close>: outcomes, arrays, little-endian encodings.  \<open>Proctab\<close>: process table, sleep-locks, wake-up.
  \<^item> \<open>Bio\<close> (\<open>bio.c\<close>, \<open>memide.c\<close>): the linked list of buffers, \<open>bread\<close>, \<open>bwrite\<close>, \<open>brelse\<close>; the locale
    \<open>block_cache\<close> is what clients rely on, interpreted on this model.
  \<^item> \<open>Ide\<close> (\<open>ide.c\<close>): the disk driver with its queue of requests, its interrupt handler and the drive, as a step
    relation in which any number of processes are in \<open>iderw\<close>; it refines the memory disk of \<open>Bio\<close>.
  \<^item> \<open>Spinlock\<close> (\<open>spinlock.c\<close>): \<open>acquire\<close> and \<open>release\<close> instruction by instruction on several CPUs.
  \<^item> \<open>Log\<close>, \<open>Journal\<close>, \<open>Crash\<close>, \<open>Txn\<close> (\<open>log.c\<close>): commit and recovery; the locale \<open>journal\<close> for the file system;
    crash safety for a crash after any prefix of the block writes; interleaved transactions.
  \<^item> \<open>Inode\<close>, \<open>Dir\<close> (\<open>fs.c\<close>): all operations on blocks, inodes, contents, directories, paths.
    \<open>Blocks\<close>, \<open>Files\<close>, \<open>Contents\<close>, \<open>Reload\<close> prove them: \<open>balloc\<close> against the set of free blocks, \<open>bmap\<close>
    against the file as a map from block numbers to blocks, \<open>readi\<close> and \<open>writei\<close> against the file as a
    sequence of bytes, \<open>iupdate\<close> and \<open>ilock\<close> as encoder and decoder.
  \<^item> \<open>Mkfs\<close>, \<open>Mkimage\<close>, \<open>Mktree\<close> (\<open>mkfs.c\<close>): the tool that writes the disk image, with the invariant of an image under
    construction and the files that the kernel reads from it.
  \<^item> \<open>Ring\<close>, \<open>Pipe\<close>, \<open>Console\<close> (\<open>pipe.c\<close>, \<open>console.c\<close>): circular buffers with wrapping counters as queues; the
    pipe as a system of two processes; interrupt handler and line-wise reading.  \<open>Kbd\<close> (\<open>kbd.c\<close>): from scan codes
    to the characters of a line.
  \<^item> \<open>File\<close>, \<open>Sysfile\<close>, \<open>Frames\<close> (\<open>file.c\<close>, \<open>sysfile.c\<close>): open files and file system calls, and the locale
    \<open>kernel_frame\<close> with one frame lemma for every operation below the system calls.  \<open>Pipeio\<close>: \<open>read\<close> and
    \<open>write\<close> on a pipe, through the permission check of A1.
  \<^item> \<open>Sched\<close>, \<open>Procs\<close>, \<open>Signals\<close> (\<open>A2/proc.c\<close>, \<open>A2/trap.c\<close>): processes, scheduling, signals, control keys.
  \<^item> \<open>Syscall\<close> (\<open>A1/syscall.c\<close>, \<open>A1/sysproc.c\<close>): arguments from user memory, the table of calls, blocking, history.
  \<^item> \<open>Mem\<close>, \<open>Freelist\<close>, \<open>Swapping\<close>, \<open>Pgtab\<close>, \<open>SwapTrip\<close>, \<open>Vm\<close>, \<open>Vmap\<close>, \<open>ForkMem\<close>, \<open>Paging\<close> (\<open>A3/kalloc.c\<close>,
    \<open>A3/pageswap.c\<close>, \<open>A3/vm.c\<close>): page allocator, swap slots, victims, page tables in memory, address spaces.
  \<^item> \<open>Malloc\<close>, \<open>Image\<close>, \<open>Usermem\<close> (\<open>A3/umalloc.c\<close>, \<open>A3/proc.c\<close>): the user's allocator over memory as words, as a
    system of allocations and stores, and its place on \<open>growproc\<close> and the page tables.
  \<^item> \<open>Exec\<close> (\<open>A3/exec.c\<close>): loading a program over the file system and the page tables.
  \<^item> \<open>CString\<close>, \<open>Cmem\<close>, \<open>Printf\<close>, \<open>Grep\<close>, \<open>Shell\<close>, \<open>Unparse\<close>, \<open>Builtins\<close>, \<open>Runcmd\<close> (\<open>string.c\<close>, \<open>ulib.c\<close>, \<open>printf.c\<close>,
    \<open>grep.c\<close>, \<open>sh.c\<close>): string and memory routines, formatted output, the matcher of grep, the parser of the
    shell, and the command it runs as a tree of system calls on tables of descriptors, which are those of
    the kernel's calls.

  \<^bold>\<open>What is shown.\<close>  Crash atomicity and restartable recovery of the log; file contents, block allocation
  and inode encoding; pipes and console lines as queues without deadlock; an invariant of the process table
  over every interleaving of its operations, what the scheduler picks and when it starves a process;
  signals, waiting, forking, killing; bounds on arguments from user space and persistence of blocks; the
  free list as a stack, swapping a page out and in, the page table as a map, copying an address space,
  replacing it by \<open>exec\<close>, and allocation without overlap inside it; mutual exclusion of spin-locks; the
  interrupt-driven disk as a refinement of the memory disk that serves every request; the image of \<open>mkfs\<close>
  read back by the kernel and the keys of a line read back by \<open>read\<close>; the descriptors of the programs that a
  command line starts; the string, formatting, matching and parsing routines against their
  specifications.  Some properties state what the code does wrong; they are listed as findings in the
  manifest.

  \<^bold>\<open>Bounds and fuel.\<close>  Loops over tables and lists are structural or have a termination proof.  Fuel
  occurs in five places.  The scan of the buffer list takes \<open>SCAN = 31\<close> steps, one more than the buffers;
  the invariant \<open>mru\<close> says the list has 30 nodes.  The parser of the shell gets \<open>es + 3\<close> for a line of
  \<open>es\<close> bytes, and \<open>Shell\<close> shows that it is never used up.  A read of the console gets the length of the
  input that has arrived.  The walks of \<open>malloc\<close> and \<open>free\<close> around the ring of free blocks are
  stated for every fuel above the number of blocks (\<open>returns\<close>).  The walk to the end of the disk queue takes \<open>SCAN\<close> steps; the invariant
  \<open>ide_inv\<close> says that the queue has at most 30 buffers, all different.  The hypothesis
  \<open>ready k\<close> of the file properties says that the log has room for \<open>k\<close> more blocks out of the 28 that one operation is sure to have; a round of \<open>readi\<close> or \<open>writei\<close> needs at most six.

  \<^bold>\<open>Concurrency.\<close>  \<open>Spinlock\<close> shows that a spin-lock has one holder, on any number of CPUs; all other theories
  build on that: a section between \<open>acquire\<close> and \<open>release\<close> is one step.  A sleep-lock that is held makes the
  operation wait.  Interleavings are explicit where they matter: the disk driver, the pipe, the
  transactions, the process table and the blocking of calls are step relations.  Where the file system
  calls \<open>iderw\<close>, it is the operation of the memory disk, which the refinement in \<open>Ide\<close> justifies for the drive.

  \<^bold>\<open>Not modelled.\<close>  Assembly and boot code (\<open>bootasm.S\<close>, \<open>bootmain.c\<close>, \<open>main.c\<close>, \<open>entry.S\<close>, \<open>swtch.S\<close>,
  \<open>trapasm.S\<close>, \<open>vectors.pl\<close>) and the set-up of devices (\<open>lapic.c\<close>, \<open>ioapic.c\<close>, \<open>mp.c\<close>, \<open>picirq.c\<close>, \<open>uart.c\<close>, \<open>ideinit\<close>):
  their meaning is the hardware's.  The segment registers and the TLB (\<open>seginit\<close>, \<open>lcr3\<close>).  The dispatch of
  \<open>trap.c\<close> beyond page faults, signals and the clock.  The programs that only call the system (\<open>cat.c\<close>,
  \<open>ls.c\<close>, \<open>init.c\<close> and so on), whose effects are those of the calls, and the tests (\<open>usertests.c\<close>, \<open>forktest.c\<close>,
  \<open>stressfs.c\<close>, \<open>memtest.c\<close>).
\<close>

end
